(* ===== verification/Prelude.thy ===== *)
theory Prelude
  imports Main "HOL-Library.Word"
begin

text \<open>
  Shared vocabulary of the development: the machine types of the C code, the value of a
  big-endian and of a little-endian byte string, and the lemmas on words and lists that the
  component theories use. Nothing here models a particular function of the program.

  Conventions. A \<open>const uint8_t *\<close> together with a length is the list of the bytes it points
  at. A \<open>size_t\<close> that only counts the bytes of such a list is a \<open>nat\<close>; where the code tests a
  \<open>size_t\<close> for overflow the wrap-around at \<open>2 ^ 64\<close> is written out (\<open>size_add\<close>, \<open>size_mult\<close>).
  The outcome of an allocation is not determined by the program: every operation that allocates
  takes the allocator's answer as an argument of type \<open>alloc\<close>.
\<close>

unbundle bit_operations_syntax

type_synonym u8 = "8 word"
type_synonym u16 = "16 word"
type_synonym u32 = "32 word"
type_synonym u64 = "64 word"

type_synonym bytes = "u8 list"

text \<open>The answer of \<open>malloc\<close> to a request of that many bytes: \<open>None\<close> for a null pointer, or the
  (uninitialised) contents of the new block, byte by byte.\<close>

type_synonym alloc = "nat \<Rightarrow> (nat \<Rightarrow> u8) option"

abbreviation (input) size_max :: nat where
  "size_max \<equiv> 18446744073709551615"

text \<open>\<open>size_t\<close> arithmetic: addition and multiplication wrap at \<open>2 ^ 64\<close>.\<close>

definition size_add :: "nat \<Rightarrow> nat \<Rightarrow> nat" where
  "size_add a b = (a + b) mod 2 ^ 64"

definition size_mult :: "nat \<Rightarrow> nat \<Rightarrow> nat" where
  "size_mult a b = (a * b) mod 2 ^ 64"

named_theorems byte_simps
named_theorems word_facts

lemma size_add_exact [simp]: "a + b \<le> size_max \<Longrightarrow> size_add a b = a + b"
  by (simp add: size_add_def)

lemma size_mult_exact [simp]: "a * b \<le> size_max \<Longrightarrow> size_mult a b = a * b"
  by (simp add: size_mult_def)

lemma size_add_less_iff:
  assumes "a \<le> size_max" and "b \<le> size_max"
  shows "size_add a b < a \<longleftrightarrow> size_max < a + b"
proof (cases "a + b \<le> size_max")
  case True
  then show ?thesis by simp
next
  case False
  then have "size_add a b = a + b - 2 ^ 64"
    using assms by (simp add: size_add_def mod_if)
  with False assms show ?thesis by simp
qed

section \<open>Words\<close>

lemma or_eq_plus_shift8:
  fixes r :: "'a::len word" and b :: u8
  shows "push_bit 8 r OR ucast b = r * 256 + ucast b"
proof -
  have "push_bit 8 r AND ucast b = 0"
    by (rule bit_word_eqI) (auto simp: bit_simps dest: bit_imp_le_length)
  then have "push_bit 8 r OR ucast b = push_bit 8 r + ucast b"
    by (simp add: disjunctive_add_eq_or)
  then show ?thesis
    by (simp add: push_bit_eq_mult mult.commute)
qed

lemma unat_ucast_u32_u64 [simp]: "unat (ucast (w :: u32) :: u64) = unat w"
  using unsigned_less [of w, where ?'a = nat] by (simp add: unsigned_ucast_eq take_bit_nat_eq_self)

lemma unat_ucast_u8_u64 [simp]: "unat (ucast (w :: u8) :: u64) = unat w"
  using unsigned_less [of w, where ?'a = nat] by (simp add: unsigned_ucast_eq take_bit_nat_eq_self)

lemma unat_ucast_u8_u32 [simp]: "unat (ucast (w :: u8) :: u32) = unat w"
  using unsigned_less [of w, where ?'a = nat] by (simp add: unsigned_ucast_eq take_bit_nat_eq_self)

lemma word_xor_eq_0_iff [simp]: "a XOR b = 0 \<longleftrightarrow> a = b" for a b :: "'a::len word"
  by (auto simp: bit_eq_iff bit_simps)

lemma unat_drop_bit_div: "unat (drop_bit n w) = unat w div 2 ^ n" for w :: "'a::len word"
proof -
  have "unat (drop_bit n w) = drop_bit n (unat w)"
    by (rule unat_drop_bit_eq)
  then show ?thesis
    by (simp only: drop_bit_eq_div)
qed

lemma drop_bit_eq_0_iff_less: "drop_bit n w = 0 \<longleftrightarrow> unat w < 2 ^ n" for w :: "'a::len word"
proof -
  have "drop_bit n w = 0 \<longleftrightarrow> unat (drop_bit n w) = 0"
    by (simp only: unat_eq_0)
  then show ?thesis
    by (simp only: unat_drop_bit_div div_eq_0_iff) auto
qed

lemma u8_less [simp]: "unat (b :: u8) < 256"
  using unsigned_less [of b, where ?'a = nat] by simp

lemma u8_le [simp]: "unat (b :: u8) \<le> 255"
  using u8_less [of b] by linarith

lemma unat_and_7f [simp]: "unat ((b :: u8) AND 0x7f) = unat b mod 128"
proof -
  have "b AND 0x7f = take_bit 7 b"
    by (simp add: take_bit_eq_mask mask_eq_exp_minus_1)
  then have "unat (b AND 0x7f) = take_bit 7 (unat b)"
    by (simp only: unsigned_take_bit_eq)
  then show ?thesis by (simp add: take_bit_eq_mod)
qed

lemma u8_eqI: "unat (a :: u8) = unat b \<Longrightarrow> a = b"
  by (simp add: word_unat_eq_iff)

text \<open>
  Facts about all 256 values of a byte are checked one by one: the premise is a closed term
  that \<open>code_simp\<close> evaluates.
\<close>

lemma u8_exhaust:
  assumes "list_all (\<lambda>n. P (word_of_int n :: u8)) [0..255]"
  shows "P b"
proof -
  have "uint b \<in> set [0..255]"
    using uint_range_size [of b] by (simp add: word_size)
  with assms have "P (word_of_int (uint b))"
    unfolding list_all_iff by blast
  then show ?thesis by simp
qed

lemma u8_high_uint: "(b :: u8) AND 128 = 0 \<longleftrightarrow> uint b < 128"
  by (rule u8_exhaust [where P = "\<lambda>b. b AND 128 = 0 \<longleftrightarrow> uint b < 128"]) code_simp

lemma u8_cases_high: "(b :: u8) AND 128 = 0 \<longleftrightarrow> unat b < 128"
proof -
  have "int (unat b) < 128 \<longleftrightarrow> unat b < 128"
    by linarith
  then show ?thesis
    by (simp add: u8_high_uint)
qed

section \<open>Big-endian byte strings\<close>

definition be_val :: "bytes \<Rightarrow> nat" where
  "be_val = foldl (\<lambda>n b. n * 256 + unat b) 0"

primrec be_bytes :: "nat \<Rightarrow> nat \<Rightarrow> bytes" where
  "be_bytes 0 n = []"
| "be_bytes (Suc k) n = be_bytes k (n div 256) @ [of_nat n]"

lemma foldl_be_val:
  "foldl (\<lambda>n b. n * 256 + unat (b :: u8)) r xs = r * 256 ^ length xs + be_val xs"
proof (induction xs arbitrary: r)
  case Nil
  show ?case by (simp add: be_val_def)
next
  case (Cons x xs)
  show ?case
    using Cons.IH [of "r * 256 + unat x"] Cons.IH [of "unat x"]
    by (simp add: be_val_def algebra_simps)
qed

lemma be_val_Nil [simp]: "be_val [] = 0"
  by (simp add: be_val_def)

lemma be_val_Cons [simp]: "be_val (x # xs) = unat x * 256 ^ length xs + be_val xs"
  using foldl_be_val [of "unat x" xs] by (simp add: be_val_def)

lemma be_val_append [simp]: "be_val (xs @ ys) = be_val xs * 256 ^ length ys + be_val ys"
  using foldl_be_val [of "be_val xs" ys] by (simp add: be_val_def)

lemma be_val_less: "be_val xs < 256 ^ length xs"
proof (induction xs)
  case Nil
  show ?case by simp
next
  case (Cons x xs)
  have "unat x * 256 ^ length xs + be_val xs < (unat x + 1) * 256 ^ length xs"
    using Cons.IH by simp
  also have "\<dots> \<le> 256 * 256 ^ length xs"
    by (intro mult_right_mono) (use u8_less [of x] in auto)
  finally show ?case by simp
qed

lemma be_val_less_mono: "length xs \<le> k \<Longrightarrow> be_val xs < 256 ^ k"
  using be_val_less [of xs] power_increasing [of "length xs" k "256 :: nat"]
  by (auto intro: less_le_trans)

lemma length_be_bytes [simp]: "length (be_bytes k n) = k"
  by (induction k arbitrary: n) auto

lemma unat_of_nat_u8: "unat (of_nat n :: u8) = n mod 256"
  by (simp add: unat_of_nat)

lemma be_val_be_bytes [simp]: "be_val (be_bytes k n) = n mod 256 ^ k"
proof (induction k arbitrary: n)
  case 0
  show ?case by simp
next
  case (Suc k)
  then show ?case
    by (simp add: unat_of_nat_u8 mod_mult2_eq algebra_simps)
qed

lemma be_bytes_be_val [simp]: "be_bytes (length xs) (be_val xs) = xs"
proof (induction xs rule: rev_induct)
  case Nil
  show ?case by simp
next
  case (snoc x xs)
  have "(of_nat (256 * be_val xs + unat x) :: u8) = x"
    by (rule u8_eqI) (simp only: unat_of_nat_u8, simp)
  then show ?case
    using snoc.IH by (simp add: mult.commute)
qed

lemma be_val_inject: "length xs = length ys \<Longrightarrow> be_val xs = be_val ys \<Longrightarrow> xs = ys"
  by (metis be_bytes_be_val)

lemma foldl_shift_or_be_val:
  "foldl (\<lambda>r b. push_bit 8 r OR ucast (b :: u8)) r xs
    = (r * 256 ^ length xs + of_nat (be_val xs) :: 'a::len word)"
proof (induction xs arbitrary: r)
  case Nil
  show ?case by simp
next
  case (Cons x xs)
  show ?case
    by (simp only: foldl_Cons Cons.IH) (simp add: or_eq_plus_shift8 algebra_simps)
qed

lemma unat_of_nat_be_val:
  assumes "256 ^ length xs \<le> (2 :: nat) ^ LENGTH('a)"
  shows "unat (of_nat (be_val xs) :: 'a::len word) = be_val xs"
  using be_val_less [of xs] assms by (simp add: unat_of_nat)

section \<open>Little-endian byte strings\<close>

primrec le_val :: "bytes \<Rightarrow> nat" where
  "le_val [] = 0"
| "le_val (b # bs) = unat b + 256 * le_val bs"

primrec le_bytes :: "nat \<Rightarrow> nat \<Rightarrow> bytes" where
  "le_bytes 0 n = []"
| "le_bytes (Suc k) n = of_nat n # le_bytes k (n div 256)"

lemma length_le_bytes [simp]: "length (le_bytes k n) = k"
  by (induction k arbitrary: n) auto

lemma le_val_le_bytes [simp]: "le_val (le_bytes k n) = n mod 256 ^ k"
  by (induction k arbitrary: n) (simp_all add: unat_of_nat_u8 mod_mult2_eq)

lemma le_val_less: "le_val xs < 256 ^ length xs"
proof (induction xs)
  case Nil
  show ?case by simp
next
  case (Cons x xs)
  have "unat x + 256 * le_val xs < 256 * (1 + le_val xs)"
    using u8_less [of x] by (simp del: u8_less)
  also have "\<dots> \<le> 256 * 256 ^ length xs"
    using Cons.IH by (intro mult_left_mono) auto
  finally show ?case by simp
qed

section \<open>Lists\<close>

lemma take_append_exact [simp]: "length xs = n \<Longrightarrow> take n (xs @ ys) = xs"
  by simp

lemma drop_append_exact [simp]: "length xs = n \<Longrightarrow> drop n (xs @ ys) = ys"
  by simp

end
