(* ===== verification/Mem.thy ===== *)
theory Mem
  imports Prelude
begin

text \<open>
  The memory and string helpers of BoringSSL (\<open>crypto/mem.c\<close>, \<open>crypto/buf/buf.c\<close>) that the rest
  of the library calls. A NUL-terminated C string is the list of the bytes of its buffer; reading
  past the end of the buffer is \<open>None\<close>. An \<open>int\<close> result is an \<open>int\<close>.
\<close>

section \<open>\<open>crypto/mem.c\<close>\<close>

text \<open>\<open>x |= a[i] ^ b[i]\<close> over the \<open>len\<close> bytes of both buffers.\<close>

fun CRYPTO_memcmp_loop :: "u8 \<Rightarrow> bytes \<Rightarrow> bytes \<Rightarrow> u8" where
  "CRYPTO_memcmp_loop x (a # as) (b # bs) = CRYPTO_memcmp_loop (x OR (a XOR b)) as bs"
| "CRYPTO_memcmp_loop x _ _ = x"

definition CRYPTO_memcmp :: "bytes \<Rightarrow> bytes \<Rightarrow> nat \<Rightarrow> int" where
  "CRYPTO_memcmp a b len = uint (CRYPTO_memcmp_loop 0 (take len a) (take len b))"

definition OPENSSL_hash32 :: "bytes \<Rightarrow> u32" where
  "OPENSSL_hash32 d = foldl (\<lambda>h b. (h XOR ucast b) * 16777619) 2166136261 d"

fun OPENSSL_strnlen :: "bytes \<Rightarrow> nat \<Rightarrow> nat" where
  "OPENSSL_strnlen s 0 = 0"
| "OPENSSL_strnlen [] (Suc n) = 0"
| "OPENSSL_strnlen (c # s) (Suc n) = (if c = 0 then 0 else Suc (OPENSSL_strnlen s n))"

definition OPENSSL_tolower :: "int \<Rightarrow> int" where
  "OPENSSL_tolower c = (if 65 \<le> c \<and> c \<le> 90 then c + (97 - 65) else c)"

text \<open>\<open>char\<close> is signed on the platforms the library is built for: \<open>a[i]\<close> is read with \<open>sint\<close>.\<close>

fun OPENSSL_strcasecmp :: "bytes \<Rightarrow> bytes \<Rightarrow> int option" where
  "OPENSSL_strcasecmp (a # as) (b # bs) =
     (let aa = OPENSSL_tolower (sint a); bb = OPENSSL_tolower (sint b)
      in if aa < bb then Some (-1)
         else if aa > bb then Some 1
         else if aa = 0 then Some 0
         else OPENSSL_strcasecmp as bs)"
| "OPENSSL_strcasecmp _ _ = None"

fun OPENSSL_strncasecmp :: "bytes \<Rightarrow> bytes \<Rightarrow> nat \<Rightarrow> int option" where
  "OPENSSL_strncasecmp _ _ 0 = Some 0"
| "OPENSSL_strncasecmp (a # as) (b # bs) (Suc n) =
     (let aa = OPENSSL_tolower (sint a); bb = OPENSSL_tolower (sint b)
      in if aa < bb then Some (-1)
         else if aa > bb then Some 1
         else if aa = 0 then Some 0
         else OPENSSL_strncasecmp as bs n)"
| "OPENSSL_strncasecmp _ _ (Suc n) = None"

section \<open>\<open>crypto/buf/buf.c\<close>\<close>

fun BUF_strnlen :: "bytes \<Rightarrow> nat \<Rightarrow> nat" where
  "BUF_strnlen s 0 = 0"
| "BUF_strnlen [] (Suc n) = 0"
| "BUF_strnlen (c # s) (Suc n) = (if c = 0 then 0 else Suc (BUF_strnlen s n))"

definition BUF_strndup :: "alloc \<Rightarrow> bytes option \<Rightarrow> nat \<Rightarrow> bytes option" where
  "BUF_strndup A str sz =
     (case str of
        None \<Rightarrow> None
      | Some s \<Rightarrow>
          let n = BUF_strnlen s sz; alloc_size = size_add n 1
          in if alloc_size < n then None
             else if A alloc_size = None then None
             else Some (take n s @ [0]))"

definition BUF_memdup :: "alloc \<Rightarrow> bytes \<Rightarrow> nat \<Rightarrow> bytes option" where
  "BUF_memdup A d sz =
     (if sz = 0 then None else if A sz = None then None else Some (take sz d))"

text \<open>\<open>BUF_strlcpy\<close>: the new contents of the \<open>dst_size\<close> bytes of \<open>dst\<close> and the result; \<open>None\<close>
  when \<open>src\<close> is not terminated or \<open>dst\<close> is shorter than \<open>dst_size\<close>.\<close>

fun BUF_strlcpy_loop :: "bytes \<Rightarrow> bytes \<Rightarrow> nat \<Rightarrow> nat \<Rightarrow> (bytes \<times> nat) option" where
  "BUF_strlcpy_loop dst src dst_size l =
     (case src of
        [] \<Rightarrow> None
      | c # src' \<Rightarrow>
          if dst_size > 1 \<and> c \<noteq> 0 then
            (case dst of
               [] \<Rightarrow> None
             | _ # dst' \<Rightarrow>
                 map_option (\<lambda>(d, r). (c # d, r))
                   (BUF_strlcpy_loop dst' src' (dst_size - 1) (l + 1)))
          else if 0 \<notin> set src then None
          else
            (let r = l + length (takeWhile (\<lambda>c. c \<noteq> 0) src)
             in if dst_size > 0 then
                  (case dst of [] \<Rightarrow> None | _ # dst' \<Rightarrow> Some (0 # dst', r))
                else Some (dst, r)))"

declare BUF_strlcpy_loop.simps [simp del]

definition BUF_strlcpy :: "bytes \<Rightarrow> bytes \<Rightarrow> nat \<Rightarrow> (bytes \<times> nat) option" where
  "BUF_strlcpy dst src dst_size = BUF_strlcpy_loop dst src dst_size 0"

text \<open>A \<open>BUF_MEM\<close>: \<open>mem_data\<close> holds the \<open>max\<close> bytes of the allocation.\<close>

record BUF_MEM =
  mem_length :: nat
  mem_data :: bytes
  mem_max :: nat

definition BUF_MEM_new :: BUF_MEM where
  "BUF_MEM_new = \<lparr>mem_length = 0, mem_data = [], mem_max = 0\<rparr>"

text \<open>\<open>OPENSSL_malloc\<close> returns the new block, \<open>OPENSSL_realloc\<close> the new block with the old contents
  copied in up to the smaller of the two sizes (a null pointer is the empty block). The 8-byte
  size prefix that \<open>OPENSSL_malloc\<close> keeps in front of a block is the length of the list; the code asks
  \<open>malloc\<close> for \<open>size + 8\<close> bytes, a sum that would wrap for requests above \<open>2 ^ 64 - 9\<close> (not modelled: \<open>A sz\<close> is
  the answer to a request of \<open>sz\<close> bytes, and no system has memory for these).\<close>

definition OPENSSL_malloc :: "alloc \<Rightarrow> nat \<Rightarrow> bytes option" where
  "OPENSSL_malloc A sz = map_option (\<lambda>fresh. map fresh [0..<sz]) (A sz)"

definition OPENSSL_realloc :: "alloc \<Rightarrow> bytes \<Rightarrow> nat \<Rightarrow> bytes option" where
  "OPENSSL_realloc A old new_size =
     (case OPENSSL_malloc A new_size of
        None \<Rightarrow> None
      | Some ret \<Rightarrow>
          let to_copy = (if length old < new_size then length old else new_size)
          in Some (take to_copy old @ drop to_copy ret))"

definition BUF_MEM_reserve :: "alloc \<Rightarrow> BUF_MEM \<Rightarrow> nat \<Rightarrow> bool \<times> BUF_MEM" where
  "BUF_MEM_reserve A buf cap =
     (if mem_max buf \<ge> cap then (True, buf)
      else let n = size_add cap 3
           in if n < cap then (False, buf)
              else let n = n div 3; alloc_size = size_mult n 4
                   in if alloc_size div 4 \<noteq> n then (False, buf)
                      else (case OPENSSL_realloc A (mem_data buf) alloc_size of
                              None \<Rightarrow> (False, buf)
                            | Some d \<Rightarrow> (True, buf\<lparr>mem_data := d, mem_max := alloc_size\<rparr>)))"

text \<open>\<open>memset\<close> / \<open>memcpy\<close> into a buffer at an offset.\<close>

definition mem_write :: "bytes \<Rightarrow> nat \<Rightarrow> bytes \<Rightarrow> bytes" where
  "mem_write buf off d = take off buf @ d @ drop (off + length d) buf"

definition BUF_MEM_grow :: "alloc \<Rightarrow> BUF_MEM \<Rightarrow> nat \<Rightarrow> nat \<times> BUF_MEM" where
  "BUF_MEM_grow A buf len =
     (case BUF_MEM_reserve A buf len of
        (False, b) \<Rightarrow> (0, b)
      | (True, b) \<Rightarrow>
          (let b = (if mem_length b < len
                    then b\<lparr>mem_data := mem_write (mem_data b) (mem_length b)
                             (replicate (len - mem_length b) 0)\<rparr>
                    else b)
           in (len, b\<lparr>mem_length := len\<rparr>)))"

definition BUF_MEM_append :: "alloc \<Rightarrow> BUF_MEM \<Rightarrow> bytes \<Rightarrow> bool \<times> BUF_MEM" where
  "BUF_MEM_append A buf d =
     (let len = length d; new_len = size_add (mem_length buf) len
      in if new_len < len then (False, buf)
         else (case BUF_MEM_reserve A buf new_len of
                 (False, b) \<Rightarrow> (False, b)
               | (True, b) \<Rightarrow>
                   (True, b\<lparr>mem_data := mem_write (mem_data b) (mem_length b) d,
                            mem_length := new_len\<rparr>)))"

section \<open>Lemmas\<close>

lemma length_mem_write [simp]:
  "off + length d \<le> length buf \<Longrightarrow> length (mem_write buf off d) = length buf"
  by (simp add: mem_write_def)

lemma take_mem_write [simp]:
  "n = off + length d \<Longrightarrow> off \<le> length buf \<Longrightarrow> take n (mem_write buf off d) = take off buf @ d"
  by (simp add: mem_write_def)

lemma OPENSSL_realloc_Some:
  assumes "OPENSSL_realloc A old n = Some new"
  shows "length new = n" and "k \<le> length old \<Longrightarrow> k \<le> n \<Longrightarrow> take k new = take k old"
  using assms by (auto simp: OPENSSL_realloc_def OPENSSL_malloc_def Let_def split: if_splits option.splits)

lemma OPENSSL_realloc_eq_None [simp]: "OPENSSL_realloc A old n = None \<longleftrightarrow> A n = None"
  by (auto simp: OPENSSL_realloc_def OPENSSL_malloc_def Let_def split: option.splits)

lemma CRYPTO_memcmp_loop_eq_0:
  "length a = length b \<Longrightarrow> CRYPTO_memcmp_loop x a b = 0 \<longleftrightarrow> x = 0 \<and> a = b"
  by (induction x a b rule: CRYPTO_memcmp_loop.induct) (auto simp: or_eq_0_iff)

lemma CRYPTO_memcmp_eq_0 [simp]:
  "len \<le> length a \<Longrightarrow> len \<le> length b \<Longrightarrow> CRYPTO_memcmp a b len = 0 \<longleftrightarrow> take len a = take len b"
  by (simp add: CRYPTO_memcmp_def uint_0_iff CRYPTO_memcmp_loop_eq_0)

lemma BUF_strnlen_takeWhile: "BUF_strnlen s n = length (takeWhile (\<lambda>c. c \<noteq> 0) (take n s))"
  by (induction s n rule: BUF_strnlen.induct) auto

lemma OPENSSL_strnlen_eq: "OPENSSL_strnlen s n = BUF_strnlen s n"
  by (induction s n rule: BUF_strnlen.induct) auto

lemma take_BUF_strnlen: "take (BUF_strnlen s n) s = takeWhile (\<lambda>c. c \<noteq> 0) (take n s)"
  by (induction s n rule: BUF_strnlen.induct) auto

text \<open>The buffer invariant: the allocation has \<open>max\<close> bytes and \<open>length\<close> of them are in use.\<close>

definition buf_mem_ok :: "BUF_MEM \<Rightarrow> bool" where
  "buf_mem_ok b \<longleftrightarrow> length (mem_data b) = mem_max b \<and> mem_length b \<le> mem_max b \<and> mem_max b \<le> size_max"

abbreviation buf_mem_contents :: "BUF_MEM \<Rightarrow> bytes" where
  "buf_mem_contents b \<equiv> take (mem_length b) (mem_data b)"

lemma BUF_MEM_reserve_cases:
  assumes "BUF_MEM_reserve A b cap = (r, b')" and "cap \<le> size_max"
  obtains "cap \<le> mem_max b" "r" "b' = b"
  | "\<not> cap \<le> mem_max b" "\<not> r" "b' = b"
  | n d where "\<not> cap \<le> mem_max b" "r" "cap \<le> n" "n \<le> size_max"
    "OPENSSL_realloc A (mem_data b) n = Some d" "b' = b\<lparr>mem_data := d, mem_max := n\<rparr>"
proof (cases "cap \<le> mem_max b")
  case True
  then show thesis
    using assms(1) by (intro that(1)) (simp_all add: BUF_MEM_reserve_def)
next
  case False
  define n where "n = size_add cap 3 div 3"
  show thesis
  proof (cases r)
    case True
    from assms False True obtain d where "\<not> size_add cap 3 < cap" and a: "size_mult n 4 div 4 = n"
      and d: "OPENSSL_realloc A (mem_data b) (size_mult n 4) = Some d"
      and b': "b' = b\<lparr>mem_data := d, mem_max := size_mult n 4\<rparr>"
      by (auto simp: BUF_MEM_reserve_def Let_def n_def split: if_splits option.splits)
    then have "size_add cap 3 = cap + 3"
      using assms(2) by (auto simp: size_add_def mod_if split: if_splits)
    then have "cap \<le> n * 4" by (simp add: n_def)
    moreover have "n * 4 \<le> size_mult n 4" using a by presburger
    moreover have "size_mult n 4 \<le> size_max" by (simp add: size_mult_def)
    ultimately show thesis using that(3) [of "size_mult n 4" d] False True d b' by linarith
  next
    case nr: False
    then have "b' = b"
      using assms False by (auto simp: BUF_MEM_reserve_def Let_def split: if_splits option.splits)
    with nr False show thesis by (intro that(2))
  qed
qed

lemma BUF_MEM_reserve_ok:
  assumes "buf_mem_ok b" and "BUF_MEM_reserve A b cap = (r, b')" and "cap \<le> size_max"
  shows "buf_mem_ok b'" and "mem_length b' = mem_length b"
    and "buf_mem_contents b' = buf_mem_contents b" and "r \<Longrightarrow> cap \<le> mem_max b'"
proof -
  have "buf_mem_ok b' \<and> mem_length b' = mem_length b \<and> buf_mem_contents b' = buf_mem_contents b
      \<and> (r \<longrightarrow> cap \<le> mem_max b')"
    using assms(2,3)
  proof (cases rule: BUF_MEM_reserve_cases)
    case (3 n d)
    with assms(1) have "mem_length b \<le> n" "mem_length b \<le> length (mem_data b)"
      by (simp_all add: buf_mem_ok_def)
    with 3 show ?thesis
      using OPENSSL_realloc_Some [OF 3(5)] by (simp add: buf_mem_ok_def)
  qed (use assms(1) in simp_all)
  then show "buf_mem_ok b'" "mem_length b' = mem_length b"
    "buf_mem_contents b' = buf_mem_contents b" "r \<Longrightarrow> cap \<le> mem_max b'"
    by blast+
qed

lemma BUF_MEM_append_fails:
  "BUF_MEM_append A b d = (False, b') \<Longrightarrow> b' = b"
  by (auto simp: BUF_MEM_append_def BUF_MEM_reserve_def Let_def
      split: if_splits option.splits prod.splits bool.splits)

lemma size_add_le_size_max [simp]: "size_add a b \<le> size_max"
  by (simp add: size_add_def)

lemma size_add_not_overflow:
  "a \<le> size_max \<Longrightarrow> b \<le> size_max \<Longrightarrow> \<not> size_add a b < b \<Longrightarrow> size_add a b = a + b"
  using size_add_less_iff [of b a] by (simp add: size_add_def add.commute)

end
