(* ===== verification/Cbs.thy ===== *)
theory Cbs
  imports Mem
begin

text \<open>
  The byte-string reader of BoringSSL (\<open>crypto/bytestring/cbs.c\<close>). A \<open>CBS\<close> is a pointer and a
  length; here it is the list of the bytes it stands for, and advancing the pointer drops bytes.
  A reading function returns 0 or 1, fills its output parameters and moves the \<open>CBS\<close>: it is a
  function to a pair of the outputs (\<open>None\<close> for the result 0, whose outputs no caller reads) and
  the \<open>CBS\<close> as the call leaves it, so that what a failing call has consumed is visible.
\<close>

type_synonym CBS = bytes
type_synonym 'a reader = "CBS \<Rightarrow> 'a option \<times> CBS"

section \<open>Bytes and fixed-width integers\<close>

definition CBS_init :: "bytes \<Rightarrow> nat \<Rightarrow> CBS" where
  "CBS_init d len = take len d"

definition cbs_get :: "nat \<Rightarrow> bytes reader" where
  "cbs_get n cbs = (if length cbs < n then (None, cbs) else (Some (take n cbs), drop n cbs))"

definition CBS_skip :: "nat \<Rightarrow> unit reader" where
  "CBS_skip len cbs =
     (case cbs_get len cbs of (None, c) \<Rightarrow> (None, c) | (Some _, c) \<Rightarrow> (Some (), c))"

definition CBS_data :: "CBS \<Rightarrow> bytes" where "CBS_data cbs = cbs"

definition CBS_len :: "CBS \<Rightarrow> nat" where "CBS_len cbs = length cbs"

text \<open>\<open>CBS_stow\<close>: the result, \<open>*out_ptr\<close> and \<open>*out_len\<close> after the call.\<close>

definition CBS_stow :: "alloc \<Rightarrow> CBS \<Rightarrow> bool \<times> bytes option \<times> nat" where
  "CBS_stow A cbs =
     (if length cbs = 0 then (True, None, 0)
      else (case BUF_memdup A cbs (length cbs) of
              None \<Rightarrow> (False, None, 0)
            | Some p \<Rightarrow> (True, Some p, length cbs)))"

definition CBS_strdup :: "alloc \<Rightarrow> CBS \<Rightarrow> bool \<times> bytes option" where
  "CBS_strdup A cbs =
     (let out = BUF_strndup A (Some cbs) (length cbs) in (out \<noteq> None, out))"

definition CBS_contains_zero_byte :: "CBS \<Rightarrow> bool" where
  "CBS_contains_zero_byte cbs \<longleftrightarrow> List.member cbs 0"

definition CBS_mem_equal :: "CBS \<Rightarrow> bytes \<Rightarrow> bool" where
  "CBS_mem_equal cbs d =
     (if length d \<noteq> length cbs then False else CRYPTO_memcmp cbs d (length d) = 0)"

definition cbs_get_u :: "nat \<Rightarrow> u32 reader" where
  "cbs_get_u len cbs =
     (case cbs_get len cbs of
        (None, c) \<Rightarrow> (None, c)
      | (Some d, c) \<Rightarrow> (Some (foldl (\<lambda>result b. push_bit 8 result OR ucast b) 0 d), c))"

definition CBS_get_u8 :: "u8 reader" where
  "CBS_get_u8 cbs =
     (case cbs_get 1 cbs of (None, c) \<Rightarrow> (None, c) | (Some v, c) \<Rightarrow> (Some (v ! 0), c))"

definition CBS_get_u16 :: "u16 reader" where
  "CBS_get_u16 cbs =
     (case cbs_get_u 2 cbs of (None, c) \<Rightarrow> (None, c) | (Some v, c) \<Rightarrow> (Some (ucast v), c))"

definition CBS_get_u24 :: "u32 reader" where "CBS_get_u24 = cbs_get_u 3"

definition CBS_get_u32 :: "u32 reader" where "CBS_get_u32 = cbs_get_u 4"

definition CBS_get_last_u8 :: "u8 reader" where
  "CBS_get_last_u8 cbs =
     (if length cbs = 0 then (None, cbs)
      else (Some (cbs ! (length cbs - 1)), take (length cbs - 1) cbs))"

definition CBS_get_bytes :: "nat \<Rightarrow> CBS reader" where
  "CBS_get_bytes len cbs =
     (case cbs_get len cbs of (None, c) \<Rightarrow> (None, c) | (Some v, c) \<Rightarrow> (Some (CBS_init v len), c))"

definition CBS_copy_bytes :: "nat \<Rightarrow> bytes reader" where
  "CBS_copy_bytes len cbs =
     (case cbs_get len cbs of (None, c) \<Rightarrow> (None, c) | (Some v, c) \<Rightarrow> (Some (take len v), c))"

definition cbs_get_length_prefixed :: "nat \<Rightarrow> CBS reader" where
  "cbs_get_length_prefixed len_len cbs =
     (case cbs_get_u len_len cbs of
        (None, c) \<Rightarrow> (None, c)
      | (Some len, c) \<Rightarrow> CBS_get_bytes (unat len) c)"

definition CBS_get_u8_length_prefixed :: "CBS reader" where
  "CBS_get_u8_length_prefixed = cbs_get_length_prefixed 1"

definition CBS_get_u16_length_prefixed :: "CBS reader" where
  "CBS_get_u16_length_prefixed = cbs_get_length_prefixed 2"

definition CBS_get_u24_length_prefixed :: "CBS reader" where
  "CBS_get_u24_length_prefixed = cbs_get_length_prefixed 3"

section \<open>ASN.1 identifiers and elements\<close>

abbreviation (input) CBS_ASN1_TAG_SHIFT :: nat where "CBS_ASN1_TAG_SHIFT \<equiv> 24"
abbreviation (input) CBS_ASN1_CONSTRUCTED :: u32 where "CBS_ASN1_CONSTRUCTED \<equiv> 0x20000000"
abbreviation (input) CBS_ASN1_TAG_NUMBER_MASK :: u32 where "CBS_ASN1_TAG_NUMBER_MASK \<equiv> 0x1fffffff"
abbreviation (input) CBS_ASN1_BOOLEAN :: u32 where "CBS_ASN1_BOOLEAN \<equiv> 1"
abbreviation (input) CBS_ASN1_INTEGER :: u32 where "CBS_ASN1_INTEGER \<equiv> 2"
abbreviation (input) CBS_ASN1_OCTETSTRING :: u32 where "CBS_ASN1_OCTETSTRING \<equiv> 4"

text \<open>The loop of \<open>parse_base128_integer\<close>, entered with the accumulator \<open>v\<close>; the byte is read
  by \<open>CBS_get_u8\<close>, whose two outcomes are the two equations.\<close>

fun parse_base128_loop :: "u64 \<Rightarrow> u64 reader" where
  "parse_base128_loop v [] = (None, [])"
| "parse_base128_loop v (b # cbs) =
     (if drop_bit (64 - 7) v \<noteq> 0 then (None, cbs)
      else if v = 0 \<and> b = 0x80 then (None, cbs)
      else let v' = push_bit 7 v OR ucast (b AND 0x7f)
           in if b AND 0x80 \<noteq> 0 then parse_base128_loop v' cbs else (Some v', cbs))"

definition parse_base128_integer :: "u64 reader" where
  "parse_base128_integer = parse_base128_loop 0"

definition parse_asn1_tag :: "u32 reader" where
  "parse_asn1_tag cbs =
     (case CBS_get_u8 cbs of
        (None, c) \<Rightarrow> (None, c)
      | (Some tag_byte, c) \<Rightarrow>
          (let tag = push_bit CBS_ASN1_TAG_SHIFT (ucast tag_byte AND 0xe0) :: u32;
               tag_number = ucast (tag_byte AND 0x1f) :: u32
           in if tag_number = 0x1f then
                (case parse_base128_integer c of
                   (None, c) \<Rightarrow> (None, c)
                 | (Some v, c) \<Rightarrow>
                     if v > ucast CBS_ASN1_TAG_NUMBER_MASK \<or> v < 0x1f then (None, c)
                     else (Some (tag OR ucast v), c))
              else (Some (tag OR tag_number), c)))"

text \<open>\<open>cbs_get_any_asn1_element\<close>: the outputs are \<open>*out\<close> (the whole element, header included),
  \<open>*out_tag\<close> and \<open>*out_header_len\<close>. The header is parsed on a copy, so a failing call leaves
  \<open>cbs\<close> alone.\<close>

definition cbs_get_any_asn1_element :: "bool \<Rightarrow> (CBS \<times> u32 \<times> nat) reader" where
  "cbs_get_any_asn1_element ber_ok cbs =
     (let finish = (\<lambda>len tag header_len.
            case CBS_get_bytes len cbs of
              (None, c) \<Rightarrow> (None, c)
            | (Some out, c) \<Rightarrow> (Some (out, tag, header_len), c))
      in case parse_asn1_tag cbs of
        (None, _) \<Rightarrow> (None, cbs)
      | (Some tag, header) \<Rightarrow>
        (case CBS_get_u8 header of
           (None, _) \<Rightarrow> (None, cbs)
         | (Some length_byte, header) \<Rightarrow>
           (let header_len = length cbs - length header
            in if length_byte AND 0x80 = 0
               then finish (unat length_byte + header_len) tag header_len
               else
                 (let num_bytes = unat (length_byte AND 0x7f)
                  in if ber_ok \<and> tag AND CBS_ASN1_CONSTRUCTED \<noteq> 0 \<and> num_bytes = 0
                     then finish header_len tag header_len
                     else if num_bytes = 0 \<or> num_bytes > 4 then (None, cbs)
                     else
                       (case cbs_get_u num_bytes header of
                          (None, _) \<Rightarrow> (None, cbs)
                        | (Some len32, _) \<Rightarrow>
                            if len32 < 128 then (None, cbs)
                            else if drop_bit ((num_bytes - 1) * 8) len32 = 0 then (None, cbs)
                            else
                              (let len = unat len32
                               in if size_add len (header_len + num_bytes) < len then (None, cbs)
                                  else finish (size_add len (header_len + num_bytes)) tag
                                         (header_len + num_bytes)))))))"

definition CBS_get_any_asn1_element :: "(CBS \<times> u32 \<times> nat) reader" where
  "CBS_get_any_asn1_element = cbs_get_any_asn1_element False"

definition CBS_get_any_ber_asn1_element :: "(CBS \<times> u32 \<times> nat) reader" where
  "CBS_get_any_ber_asn1_element = cbs_get_any_asn1_element True"

definition CBS_get_any_asn1 :: "(CBS \<times> u32) reader" where
  "CBS_get_any_asn1 cbs =
     (case CBS_get_any_asn1_element cbs of
        (None, c) \<Rightarrow> (None, c)
      | (Some (out, tag, header_len), c) \<Rightarrow>
          (case CBS_skip header_len out of
             (None, _) \<Rightarrow> (None, c)
           | (Some _, out) \<Rightarrow> (Some (out, tag), c)))"

definition cbs_get_asn1 :: "u32 \<Rightarrow> bool \<Rightarrow> CBS reader" where
  "cbs_get_asn1 tag_value skip_header cbs =
     (case CBS_get_any_asn1_element cbs of
        (None, c) \<Rightarrow> (None, c)
      | (Some (out, tag, header_len), c) \<Rightarrow>
          if tag \<noteq> tag_value then (None, c)
          else if skip_header then
            (case CBS_skip header_len out of
               (None, _) \<Rightarrow> (None, c)
             | (Some _, out) \<Rightarrow> (Some out, c))
          else (Some out, c))"

definition CBS_get_asn1 :: "u32 \<Rightarrow> CBS reader" where
  "CBS_get_asn1 tag_value = cbs_get_asn1 tag_value True"

definition CBS_get_asn1_element :: "u32 \<Rightarrow> CBS reader" where
  "CBS_get_asn1_element tag_value = cbs_get_asn1 tag_value False"

definition CBS_peek_asn1_tag :: "CBS \<Rightarrow> u32 \<Rightarrow> bool" where
  "CBS_peek_asn1_tag cbs tag_value =
     (if length cbs < 1 then False
      else (case parse_asn1_tag cbs of
              (None, _) \<Rightarrow> False
            | (Some actual_tag, _) \<Rightarrow> tag_value = actual_tag))"

section \<open>Typed ASN.1 values\<close>

fun asn1_uint64_loop :: "u64 \<Rightarrow> bytes \<Rightarrow> u64 option" where
  "asn1_uint64_loop out [] = Some out"
| "asn1_uint64_loop out (b # d) =
     (if drop_bit 56 out \<noteq> 0 then None
      else asn1_uint64_loop (push_bit 8 out OR ucast b) d)"

definition CBS_get_asn1_uint64 :: "u64 reader" where
  "CBS_get_asn1_uint64 cbs =
     (case CBS_get_asn1 CBS_ASN1_INTEGER cbs of
        (None, c) \<Rightarrow> (None, c)
      | (Some d, c) \<Rightarrow>
          if length d = 0 then (None, c)
          else if d ! 0 AND 0x80 \<noteq> 0 then (None, c)
          else if d ! 0 = 0 \<and> length d > 1 \<and> d ! 1 AND 0x80 = 0 then (None, c)
          else (asn1_uint64_loop 0 d, c))"

definition CBS_get_asn1_bool :: "int reader" where
  "CBS_get_asn1_bool cbs =
     (case CBS_get_asn1 CBS_ASN1_BOOLEAN cbs of
        (None, c) \<Rightarrow> (None, c)
      | (Some d, c) \<Rightarrow>
          if length d \<noteq> 1 then (None, c)
          else if d ! 0 \<noteq> 0 \<and> d ! 0 \<noteq> 0xff then (None, c)
          else (Some (if d ! 0 \<noteq> 0 then 1 else 0), c))"

text \<open>The outputs of the \<open>optional\<close> readers: \<open>None\<close> where the element is absent
  (\<open>*out_present = 0\<close>, \<open>*out\<close> unset).\<close>

definition CBS_get_optional_asn1 :: "u32 \<Rightarrow> CBS option reader" where
  "CBS_get_optional_asn1 tag cbs =
     (if CBS_peek_asn1_tag cbs tag then
        (case CBS_get_asn1 tag cbs of
           (None, c) \<Rightarrow> (None, c)
         | (Some out, c) \<Rightarrow> (Some (Some out), c))
      else (Some None, cbs))"

definition CBS_get_optional_asn1_octet_string :: "u32 \<Rightarrow> (CBS \<times> bool) reader" where
  "CBS_get_optional_asn1_octet_string tag cbs =
     (case CBS_get_optional_asn1 tag cbs of
        (None, c) \<Rightarrow> (None, c)
      | (Some (Some child), c) \<Rightarrow>
          (case CBS_get_asn1 CBS_ASN1_OCTETSTRING child of
             (None, _) \<Rightarrow> (None, c)
           | (Some out, child) \<Rightarrow>
               if length child \<noteq> 0 then (None, c) else (Some (out, True), c))
      | (Some None, c) \<Rightarrow> (Some (CBS_init [] 0, False), c))"

definition CBS_get_optional_asn1_uint64 :: "u32 \<Rightarrow> u64 \<Rightarrow> u64 reader" where
  "CBS_get_optional_asn1_uint64 tag default_value cbs =
     (case CBS_get_optional_asn1 tag cbs of
        (None, c) \<Rightarrow> (None, c)
      | (Some (Some child), c) \<Rightarrow>
          (case CBS_get_asn1_uint64 child of
             (None, _) \<Rightarrow> (None, c)
           | (Some out, child) \<Rightarrow>
               if length child \<noteq> 0 then (None, c) else (Some out, c))
      | (Some None, c) \<Rightarrow> (Some default_value, c))"

definition CBS_get_optional_asn1_bool :: "u32 \<Rightarrow> int \<Rightarrow> int reader" where
  "CBS_get_optional_asn1_bool tag default_value cbs =
     (case CBS_get_optional_asn1 tag cbs of
        (None, c) \<Rightarrow> (None, c)
      | (Some (Some child), c) \<Rightarrow>
          (case CBS_get_asn1 CBS_ASN1_BOOLEAN child of
             (None, _) \<Rightarrow> (None, c)
           | (Some child2, child) \<Rightarrow>
               if length child2 \<noteq> 1 \<or> length child \<noteq> 0 then (None, c)
               else if child2 ! 0 = 0 then (Some 0, c)
               else if child2 ! 0 = 0xff then (Some 1, c)
               else (None, c))
      | (Some None, c) \<Rightarrow> (Some default_value, c))"

definition CBS_is_valid_asn1_bitstring :: "CBS \<Rightarrow> bool" where
  "CBS_is_valid_asn1_bitstring cbs =
     (case CBS_get_u8 cbs of
        (None, _) \<Rightarrow> False
      | (Some num_unused_bits, inp) \<Rightarrow>
          if num_unused_bits > 7 then False
          else if num_unused_bits = 0 then True
          else (case CBS_get_last_u8 inp of
                  (None, _) \<Rightarrow> False
                | (Some lst, _) \<Rightarrow> lst AND (push_bit (unat num_unused_bits) 1 - 1) = 0))"

definition CBS_asn1_bitstring_has_bit :: "CBS \<Rightarrow> u32 \<Rightarrow> bool" where
  "CBS_asn1_bitstring_has_bit cbs n =
     (if \<not> CBS_is_valid_asn1_bitstring cbs then False
      else let byte_num = unat (drop_bit 3 n + 1); bit_num = unat (7 - (n AND 7))
           in byte_num < length cbs \<and> cbs ! byte_num AND push_bit bit_num 1 \<noteq> 0)"

end
