(* ===== verification/Der.thy ===== *)
theory Der
  imports Cbs
begin

text \<open>
  What the reader of \<open>Cbs\<close> recognises: the distinguished encoding (DER) of an identifier, a
  length and an element, written as functions to byte strings, and the theorems that a successful
  read has consumed exactly such an encoding. The writer of \<open>Cbb\<close> produces the same functions,
  so the round trips between the two go through this theory.
\<close>

section \<open>Base-128 integers\<close>

text \<open>\<open>b128_hi v\<close>: the base-128 digits of \<open>v\<close>, each with the continuation bit, none for 0.\<close>

function b128_hi :: "nat \<Rightarrow> bytes" where
  "b128_hi v = (if v = 0 then [] else b128_hi (v div 128) @ [of_nat (128 + v mod 128)])"
  by pat_completeness auto
termination
  by (relation "measure id") auto

declare b128_hi.simps [simp del]

lemma b128_hi_0 [simp]: "b128_hi 0 = []"
  by (simp add: b128_hi.simps)

lemma b128_hi_step: "0 < v \<Longrightarrow> b128_hi v = b128_hi (v div 128) @ [of_nat (128 + v mod 128)]"
  by (simp add: b128_hi.simps [of v])

definition der_base128 :: "nat \<Rightarrow> bytes" where
  "der_base128 v = b128_hi (v div 128) @ [of_nat (v mod 128)]"

lemma der_base128_not_Nil [simp]: "der_base128 v \<noteq> []"
  by (simp add: der_base128_def)

lemma shl7_or:
  fixes v :: u64 and b :: u8
  assumes "drop_bit 57 v = 0"
  shows "unat (push_bit 7 v OR ucast (b AND 127)) = unat v * 128 + unat b mod 128"
proof -
  have m: "(127 :: u8) = mask 7"
    by (simp add: mask_eq_exp_minus_1)
  have "push_bit 7 v AND ucast (b AND 127) = 0"
    unfolding m by (rule bit_word_eqI) (auto simp: bit_simps)
  then have eq: "push_bit 7 v OR ucast (b AND 127) = push_bit 7 v + ucast (b AND 127)"
    by (simp add: disjunctive_add_eq_or)
  have less: "unat v < 2 ^ 57"
    using assms by (simp only: drop_bit_eq_0_iff_less)
  then have hi: "unat (push_bit 7 v) = unat v * 128"
    by (simp add: push_bit_eq_mult unat_word_ariths)
  have "unat v * 128 + unat b mod 128 < 2 ^ 64"
    using less by (simp del: unsigned_less)
  then show ?thesis
    unfolding eq by (simp add: unat_word_ariths hi)
qed

lemma unat_div_128_less: "unat (v :: u64) * 128 + k < 18446744073709551616 \<Longrightarrow> drop_bit 57 v = 0"
  unfolding drop_bit_eq_0_iff_less by simp

lemma continuation_byte: "unat (b :: u8) \<ge> 128 \<Longrightarrow> of_nat (128 + unat b mod 128) = b"
proof -
  assume "128 \<le> unat b"
  then have "unat b mod 128 = unat b - 128"
    using u8_less [of b] by (simp add: le_mod_geq del: u8_less)
  with \<open>128 \<le> unat b\<close> show ?thesis
    by (simp add: unat_of_nat_u8 u8_eqI)
qed

lemmas continuation_byte_simp = continuation_byte [simplified of_nat_add of_nat_numeral]

lemma final_byte: "unat (b :: u8) < 128 \<Longrightarrow> of_nat (unat b mod 128) = b"
  by simp

lemma parse_base128_loop_sound:
  "parse_base128_loop v cbs = (Some r, c) \<Longrightarrow>
    \<exists>p. cbs = p @ c \<and> b128_hi (unat v) @ p = der_base128 (unat r)"
proof (induction v cbs rule: parse_base128_loop.induct)
  case (1 v)
  then show ?case by simp
next
  case (2 v b cbs)
  define v' where "v' = push_bit 7 v OR ucast (b AND 127)"
  from "2.prems" have ok: "drop_bit 57 v = 0" "\<not> (v = 0 \<and> b = 128)"
    by (auto split: if_splits)
  have v': "unat v' = unat v * 128 + unat b mod 128"
    unfolding v'_def by (rule shl7_or) (rule ok)
  then have dm: "unat v' div 128 = unat v" "unat v' mod 128 = unat b mod 128"
    by simp_all
  show ?case
  proof (cases "b AND 128 = 0")
    case True
    with "2.prems" ok have "r = v'" "c = cbs"
      by (auto simp: v'_def Let_def split: if_splits)
    with True show ?thesis
      by (intro exI [of _ "[b]"]) (simp add: der_base128_def dm u8_cases_high final_byte)
  next
    case False
    with "2.prems" ok have "parse_base128_loop v' cbs = (Some r, c)"
      by (auto simp: v'_def Let_def split: if_splits)
    then obtain p where p: "cbs = p @ c" "b128_hi (unat v') @ p = der_base128 (unat r)"
      using "2.IH" ok False by (auto simp: v'_def Let_def)
    have "128 \<le> unat b" using False by (simp add: u8_cases_high)
    moreover have "unat v' \<noteq> 0"
    proof
      assume "unat v' = 0"
      with v' have "unat v = 0" "unat b mod 128 = 0" by auto
      moreover have "of_nat (128 + unat b mod 128) = b"
        using \<open>128 \<le> unat b\<close> by (rule continuation_byte)
      ultimately have "v = 0" "b = 128"
        by (auto simp: unat_eq_0)
      with ok show False by simp
    qed
    ultimately have "b128_hi (unat v') = b128_hi (unat v) @ [b]"
      using b128_hi_step [of "unat v'"] by (simp add: dm continuation_byte_simp)
    with p show ?thesis
      by (intro exI [of _ "b # p"]) simp
  qed
qed

lemma parse_base128_hi:
  "w < 2 ^ 64 \<Longrightarrow> parse_base128_loop 0 (b128_hi w @ rest) = parse_base128_loop (of_nat w) rest"
proof (induction w arbitrary: rest rule: b128_hi.induct)
  case (1 w)
  show ?case
  proof (cases "w = 0")
    case True
    then show ?thesis by simp
  next
    case False
    define b :: u8 where "b = of_nat (128 + w mod 128)"
    define v :: u64 where "v = of_nat (w div 128)"
    have b: "unat b = 128 + w mod 128"
      unfolding b_def unat_of_nat_u8 using mod_less_divisor [of 128 w] by simp
    have v: "unat v = w div 128"
      unfolding v_def using "1.prems" by (simp add: unat_of_nat)
    have ok: "drop_bit 57 v = 0"
      using "1.prems" by (intro unat_div_128_less [of v 0]) (simp add: v)
    have "unat (push_bit 7 v OR ucast (b AND 127)) = w"
      unfolding shl7_or [OF ok] v b by (simp add: mod_add_left_eq)
    then have step: "push_bit 7 v OR ucast (b AND 127) = of_nat w"
      by (metis of_nat_unat ucast_id)
    have guard: "\<not> (v = 0 \<and> b = 128)"
      using b v False by auto
    have hi: "b AND 128 \<noteq> 0" by (simp add: u8_cases_high b)
    have "parse_base128_loop 0 (b128_hi w @ rest) = parse_base128_loop v (b # rest)"
      using "1.IH" [of "b # rest"] False "1.prems"
      by (simp add: b128_hi_step b_def v_def)
    also have "\<dots> = parse_base128_loop (of_nat w) rest"
      using ok guard hi by (simp add: step Let_def del: de_Morgan_conj)
    finally show ?thesis .
  qed
qed

lemma parse_base128_complete:
  assumes "n < 2 ^ 64"
  shows "parse_base128_integer (der_base128 n @ rest) = (Some (of_nat n), rest)"
proof -
  define b :: u8 where "b = of_nat (n mod 128)"
  define v :: u64 where "v = of_nat (n div 128)"
  have b: "unat b = n mod 128"
    unfolding b_def unat_of_nat_u8 using mod_less_divisor [of 128 n] by simp
  have v: "unat v = n div 128"
    unfolding v_def using assms by (simp add: unat_of_nat)
  have ok: "drop_bit 57 v = 0"
    using assms by (intro unat_div_128_less [of v 0]) (simp add: v)
  have "unat (push_bit 7 v OR ucast (b AND 127)) = n"
    unfolding shl7_or [OF ok] v b by simp
  then have step: "push_bit 7 v OR ucast (b AND 127) = of_nat n"
    by (metis of_nat_unat ucast_id)
  have lo: "b AND 128 = 0" by (simp add: u8_cases_high b)
  have "b \<noteq> 128" using b by auto
  then show ?thesis
    using parse_base128_hi [of "n div 128" "b # rest"] assms ok lo
    by (simp add: parse_base128_integer_def der_base128_def step Let_def flip: b_def v_def)
qed

lemma parse_base128_integer_sound:
  "parse_base128_integer cbs = (Some r, c) \<Longrightarrow> cbs = der_base128 (unat r) @ c"
  using parse_base128_loop_sound [of 0 cbs r c] by (auto simp: parse_base128_integer_def)


section \<open>Identifiers\<close>

text \<open>\<open>der_tag t\<close>: the identifier octets of the in-memory tag \<open>t\<close> (class and constructed bits in
  bits 29 to 31, tag number below).\<close>

definition tag_bits :: "u32 \<Rightarrow> u8" where
  "tag_bits t = ucast (drop_bit 24 t) AND 0xe0"

definition tag_number :: "u32 \<Rightarrow> u32" where
  "tag_number t = t AND CBS_ASN1_TAG_NUMBER_MASK"

definition der_tag :: "u32 \<Rightarrow> bytes" where
  "der_tag t =
     (if tag_number t \<ge> 0x1f then (tag_bits t OR 0x1f) # der_base128 (unat (tag_number t))
      else [tag_bits t OR ucast (tag_number t)])"

lemma mask29: "CBS_ASN1_TAG_NUMBER_MASK = mask 29"
  by (simp add: mask_eq_exp_minus_1)

lemma masks8: "(0xe0 :: u8) = push_bit 5 (mask 3)" "(0x1f :: u8) = mask 5"
  by (simp_all add: mask_eq_exp_minus_1)

lemma mask32: "(0xe0 :: u32) = push_bit 5 (mask 3)"
  by (simp add: mask_eq_exp_minus_1)

lemma take_bit_bound: "take_bit k w = w \<Longrightarrow> bit w n \<Longrightarrow> n < k" for w :: "'a::len word"
  by (metis bit_take_bit_iff)

lemma tag_bits_join:
  assumes "take_bit 29 w = w"
  shows "tag_bits (push_bit 24 (ucast (b :: u8) AND 0xe0) OR w) = b AND 0xe0"
  unfolding tag_bits_def masks8 mask32
  by (rule bit_word_eqI) (auto simp: bit_simps dest: take_bit_bound [OF assms])

lemma tag_number_join:
  assumes "take_bit 29 w = w"
  shows "tag_number (push_bit 24 (ucast (b :: u8) AND 0xe0) OR w) = w"
  unfolding tag_number_def mask29 mask32
  by (rule bit_word_eqI) (auto simp: bit_simps dest: take_bit_bound [OF assms])

lemma low_bits:
  assumes "x AND 0xe0 = (0 :: u8)" and "bit x n"
  shows "n < 5"
proof (rule ccontr)
  assume "\<not> n < 5"
  moreover have "n < 8" using assms(2) bit_imp_le_length by fastforce
  moreover from this have "n - 5 < 3" "n - 5 < 8" by linarith+
  ultimately have "bit (x AND 0xe0) n"
    using assms(2) unfolding masks8 by (simp add: bit_simps)
  with assms(1) show False by simp
qed

lemma tag_join:
  assumes "x AND 0xe0 = (0 :: u8)"
  shows "push_bit 24 (ucast (tag_bits t OR x) AND 0xe0) OR tag_number t = t"
  unfolding tag_bits_def tag_number_def masks8 mask32 mask29
  by (rule bit_word_eqI) (auto simp: bit_simps dest: low_bits [OF assms])

lemma tag_byte_split: "(b AND 0xe0) OR (b AND 0x1f) = (b :: u8)"
  unfolding masks8 by (rule bit_word_eqI) (auto simp: bit_simps)

lemma tag_bits_low: "(tag_bits t OR x) AND 0x1f = x" if "x AND 0xe0 = 0"
  unfolding tag_bits_def masks8
  by (rule bit_word_eqI) (auto simp: bit_simps dest: low_bits [OF that])

lemma and_0x1f_high: "(b AND 0x1f) AND 0xe0 = (0 :: u8)"
  unfolding masks8 by (rule bit_word_eqI) (auto simp: bit_simps)

lemma take_bit_29_iff: "take_bit 29 w = w \<longleftrightarrow> unat w < 2 ^ 29" for w :: u32
  unfolding take_bit_eq_self_iff_drop_bit_eq_0 drop_bit_eq_0_iff_less ..

lemma unat_ucast_u32: "unat (v :: u64) < 2 ^ 29 \<Longrightarrow> unat (ucast v :: u32) = unat v"
  by (simp add: unsigned_ucast_eq take_bit_nat_eq_self)

lemma CBS_get_u8_simps [simp]:
  "CBS_get_u8 [] = (None, [])" "CBS_get_u8 (b # cbs) = (Some b, cbs)"
  by (simp_all add: CBS_get_u8_def cbs_get_def)

lemma u8_and_1f_less: "unat ((b :: u8) AND 0x1f) < 32"
proof -
  have "b AND 0x1f = take_bit 5 b"
    by (simp add: masks8 take_bit_eq_mask)
  then have "drop_bit 5 (b AND 0x1f) = 0"
    by (simp add: take_bit_eq_self_iff_drop_bit_eq_0 [symmetric])
  then show ?thesis
    unfolding drop_bit_eq_0_iff_less by simp
qed

lemma parse_asn1_tag_sound:
  assumes "parse_asn1_tag cbs = (Some t, c)"
  shows "cbs = der_tag t @ c"
proof -
  from assms obtain tb c' where cbs: "cbs = tb # c'"
    by (cases cbs) (auto simp: parse_asn1_tag_def)
  show ?thesis
  proof (cases "tb AND 0x1f = 0x1f")
    case False
    define w :: u32 where "w = ucast (tb AND 0x1f)"
    have w: "unat w = unat (tb AND 0x1f)" by (simp add: w_def)
    have "unat (tb AND 0x1f) \<noteq> unat (0x1f :: u8)"
      using False by (metis u8_eqI)
    then have lt: "unat w < 31"
      using u8_and_1f_less [of tb] by (simp add: w)
    then have ne: "w \<noteq> 0x1f" by auto
    have t: "t = push_bit 24 (ucast tb AND 0xe0) OR w" "c = c'"
      using assms ne by (auto simp: cbs parse_asn1_tag_def Let_def w_def)
    have "take_bit 29 w = w" using lt by (simp add: take_bit_29_iff)
    then have join: "tag_bits t = tb AND 0xe0" "tag_number t = w"
      unfolding t(1) by (rule tag_bits_join, rule tag_number_join)
    have "ucast w = tb AND 0x1f"
      by (rule u8_eqI) (use w lt in \<open>simp add: unsigned_ucast_eq take_bit_nat_eq_self\<close>)
    moreover have "\<not> 0x1f \<le> w" using lt by (simp add: word_le_nat_alt)
    ultimately show ?thesis
      using t(2) by (simp add: der_tag_def join cbs tag_byte_split)
  next
    case True
    then obtain v where v: "parse_base128_integer c' = (Some v, c)"
      "\<not> v > ucast CBS_ASN1_TAG_NUMBER_MASK" "\<not> v < 0x1f"
      "t = push_bit 24 (ucast tb AND 0xe0) OR ucast v"
      using assms by (auto simp: cbs parse_asn1_tag_def Let_def split: prod.splits option.splits if_splits)
    define w :: u32 where "w = ucast v"
    have lt: "unat v < 2 ^ 29" using v(2) by (simp add: word_less_nat_alt)
    have w: "unat w = unat v" unfolding w_def using lt by (rule unat_ucast_u32)
    have "take_bit 29 w = w" using lt by (simp add: take_bit_29_iff w)
    then have join: "tag_bits t = tb AND 0xe0" "tag_number t = w"
      unfolding v(4) w_def by (rule tag_bits_join, rule tag_number_join)
    have "0x1f \<le> w" using v(3) by (simp add: word_le_nat_alt word_less_nat_alt w)
    moreover have "(tb AND 0xe0) OR 0x1f = tb" using tag_byte_split [of tb] True by simp
    ultimately show ?thesis
      using parse_base128_integer_sound [OF v(1)] by (simp add: der_tag_def join cbs w)
  qed
qed

lemma parse_asn1_tag_complete [simp]: "parse_asn1_tag (der_tag t @ rest) = (Some t, rest)"
proof -
  have num: "unat (tag_number t) < 2 ^ 29"
    unfolding tag_number_def mask29 take_bit_29_iff [symmetric] take_bit_eq_mask [symmetric]
    by simp
  show ?thesis
  proof (cases "tag_number t \<ge> 0x1f")
    case True
    define v :: u64 where "v = ucast (tag_number t)"
    have v: "unat v = unat (tag_number t)"
      by (simp add: v_def)
    have "\<not> v > ucast CBS_ASN1_TAG_NUMBER_MASK" "\<not> v < 0x1f"
      using num True by (simp_all add: word_less_nat_alt word_le_nat_alt v)
    moreover have "ucast v = tag_number t"
      using unat_ucast_u32 [of v] num by (simp add: word_unat_eq_iff v)
    ultimately show ?thesis
      using True num tag_join [of "0x1f" t] tag_bits_low [of "0x1f" t]
        parse_base128_complete [of "unat (tag_number t)" rest]
      by (simp add: der_tag_def parse_asn1_tag_def Let_def v_def [symmetric])
  next
    case False
    define b :: u8 where "b = ucast (tag_number t)"
    have lt: "unat (tag_number t) < 31"
      using False by (simp add: word_le_nat_alt)
    then have b: "unat b = unat (tag_number t)"
      by (simp add: b_def unsigned_ucast_eq take_bit_nat_eq_self)
    have hi: "b AND 0xe0 = 0"
    proof -
      have "take_bit 5 b = b"
        unfolding take_bit_eq_self_iff_drop_bit_eq_0 drop_bit_eq_0_iff_less using b lt by simp
      then have "b = b AND 0x1f" by (simp add: masks8 take_bit_eq_mask)
      then show ?thesis by (metis and_0x1f_high)
    qed
    have uc: "ucast b = tag_number t"
      by (simp add: word_unat_eq_iff b)
    have "ucast b \<noteq> (0x1f :: u32)"
      using lt uc by auto
    then show ?thesis
      using False tag_join [OF hi, of t] tag_bits_low [OF hi, of t]
      by (simp add: der_tag_def parse_asn1_tag_def Let_def uc flip: b_def)
  qed
qed


section \<open>Lengths and elements\<close>

text \<open>The number of octets of the long form, by the code's thresholds.\<close>

definition len_octets :: "nat \<Rightarrow> nat" where
  "len_octets n =
     (if n < 0x100 then 1 else if n < 0x10000 then 2 else if n < 0x1000000 then 3 else 4)"

definition der_len :: "nat \<Rightarrow> bytes" where
  "der_len n = (if n < 128 then [of_nat n] else of_nat (128 + len_octets n) # be_bytes (len_octets n) n)"

definition der_element :: "u32 \<Rightarrow> bytes \<Rightarrow> bytes" where
  "der_element t body = der_tag t @ der_len (length body) @ body"

lemma len_octets_unique:
  assumes "0 < k" "k \<le> 4" "n < 256 ^ k" "256 ^ (k - 1) \<le> n \<or> k = 1"
  shows "len_octets n = k"
proof -
  from assms(1,2) consider "k = 1" | "k = 2" | "k = 3" | "k = 4" by linarith
  then show ?thesis using assms(3,4) by cases (auto simp: len_octets_def)
qed

lemma len_octets_bounds:
  assumes "n < 2 ^ 32"
  shows "0 < len_octets n" "len_octets n \<le> 4" "n < 256 ^ len_octets n"
    "128 \<le> n \<Longrightarrow> 1 < len_octets n \<Longrightarrow> 256 ^ (len_octets n - 1) \<le> n"
  using assms by (auto simp: len_octets_def)

lemma cbs_get_u_eq:
  assumes "k \<le> 4"
  shows "cbs_get_u k cbs =
    (if length cbs < k then (None, cbs) else (Some (of_nat (be_val (take k cbs))), drop k cbs))"
  by (simp add: cbs_get_u_def cbs_get_def foldl_shift_or_be_val)

lemma unat_be_val_u32:
  assumes "length xs \<le> 4"
  shows "unat (of_nat (be_val xs) :: u32) = be_val xs"
proof -
  have "(256 :: nat) ^ length xs \<le> 256 ^ 4"
    using assms by (intro power_increasing) auto
  then show ?thesis
    by (intro unat_of_nat_be_val) simp
qed

lemma CBS_get_bytes_eq:
  "CBS_get_bytes n cbs = (if length cbs < n then (None, cbs) else (Some (take n cbs), drop n cbs))"
  by (simp add: CBS_get_bytes_def cbs_get_def CBS_init_def)


lemma length_b128_hi: "v < 128 ^ k \<Longrightarrow> length (b128_hi v) \<le> k"
proof (induction k arbitrary: v)
  case 0
  then show ?case by simp
next
  case (Suc k)
  show ?case
  proof (cases "v = 0")
    case False
    from Suc.prems have "v div 128 < 128 ^ k" by (simp add: less_mult_imp_div_less mult.commute)
    with Suc.IH False show ?thesis by (simp add: b128_hi_step)
  qed simp
qed

lemma unat_tag_number: "unat (tag_number t) < 2 ^ 29"
  unfolding tag_number_def mask29 take_bit_29_iff [symmetric] take_bit_eq_mask [symmetric]
  by simp

lemma length_der_tag: "length (der_tag t) \<le> 6"
proof -
  have "unat (tag_number t) div 128 < 128 ^ 4"
    using unat_tag_number [of t] by simp
  then have "length (b128_hi (unat (tag_number t) div 128)) \<le> 4"
    by (rule length_b128_hi)
  then show ?thesis
    by (simp add: der_tag_def der_base128_def)
qed

lemma length_der_tag_pos [simp]: "der_tag t \<noteq> []"
  by (simp add: der_tag_def)

lemma length_der_len: "length (der_len n) \<le> 5"
  by (simp add: der_len_def len_octets_def)

lemma der_len_nonempty [simp]: "der_len n \<noteq> []"
  by (simp add: der_len_def)

lemma long_length_octets:
  assumes "0 < k" "k \<le> 4" "length xs = k" "128 \<le> be_val xs"
    and "256 ^ (k - 1) \<le> be_val xs"
  shows "der_len (be_val xs) = of_nat (128 + k) # xs"
proof -
  have "be_val xs < 256 ^ k"
    using be_val_less [of xs] assms by simp
  then have "len_octets (be_val xs) = k"
    using assms by (intro len_octets_unique) auto
  then show ?thesis
    using assms be_bytes_be_val [of xs] by (simp add: der_len_def)
qed

lemma byte_high_octet: "\<not> unat (lb :: u8) < 128 \<Longrightarrow> lb = of_nat (128 + unat lb mod 128)"
  using continuation_byte [of lb] by simp

lemma CBS_get_any_asn1_element_sound:
  assumes "CBS_get_any_asn1_element cbs = (Some (out, t, hl), c)"
  shows "\<exists>body. length body < 2 ^ 32 \<and> out = der_element t body \<and> cbs = out @ c
    \<and> hl = length (der_tag t @ der_len (length body))"
proof -
  from assms obtain h where tag: "parse_asn1_tag cbs = (Some t, h)"
    by (auto simp: CBS_get_any_asn1_element_def cbs_get_any_asn1_element_def Let_def
        split: option.splits prod.splits if_splits)
  with assms obtain lb h' where h: "h = lb # h'"
    by (cases h) (auto simp: CBS_get_any_asn1_element_def cbs_get_any_asn1_element_def)
  have cbs: "cbs = der_tag t @ lb # h'"
    using parse_asn1_tag_sound [OF tag] h by simp
  show ?thesis
  proof (cases "unat lb < 128")
    case True
    with assms have *: "unat lb \<le> length h'" "out = der_tag t @ lb # take (unat lb) h'"
      "hl = length (der_tag t) + 1" "c = drop (unat lb) h'"
      by (auto simp: CBS_get_any_asn1_element_def cbs_get_any_asn1_element_def tag h cbs
          u8_cases_high CBS_get_bytes_eq split: if_splits)
    then have "der_len (length (take (unat lb) h')) = [lb]"
      using True by (simp add: der_len_def min_def)
    with * show ?thesis
      using True by (intro exI [of _ "take (unat lb) h'"]) (simp add: der_element_def cbs min_def)
  next
    case False
    define k where "k = unat lb mod 128"
    define xs where "xs = take k h'"
    from assms False have k: "0 < k" "k \<le> 4" "k \<le> length h'"
      by (auto simp: CBS_get_any_asn1_element_def cbs_get_any_asn1_element_def tag h
          u8_cases_high Let_def k_def cbs_get_u_eq split: if_splits)
    have xs: "length xs = k" by (simp add: xs_def k)
    have n: "unat (of_nat (be_val xs) :: u32) = be_val xs"
      using xs k by (intro unat_be_val_u32) simp
    have "be_val xs < 256 ^ 4"
      by (rule be_val_less_mono) (use xs k in simp)
    then have small: "be_val xs + (length (der_tag t) + 1 + k) \<le> size_max"
      using length_der_tag [of t] k by simp
    from assms False k have *: "128 \<le> be_val xs" "256 ^ (k - 1) \<le> be_val xs"
      and get: "CBS_get_bytes (be_val xs + (length (der_tag t) + 1 + k)) cbs = (Some out, c)"
      and hl: "hl = length (der_tag t) + 1 + k"
      using small
      by (auto simp: CBS_get_any_asn1_element_def cbs_get_any_asn1_element_def tag h
          u8_cases_high Let_def cbs_get_u_eq n drop_bit_eq_0_iff_less word_less_nat_alt cbs
          power_mult mult.commute [of _ 8] simp flip: k_def xs_def
          split: if_splits prod.splits option.splits)
    have lb: "lb = of_nat (128 + k)"
      unfolding k_def using False by (rule byte_high_octet)
    define body where "body = take (be_val xs) (drop k h')"
    from get have len: "be_val xs + k \<le> length h'"
      and out: "out = take (be_val xs + (length (der_tag t) + 1 + k)) cbs"
      and c: "c = drop (be_val xs + (length (der_tag t) + 1 + k)) cbs"
      by (auto simp: CBS_get_bytes_eq cbs split: if_splits)
    have hx: "h' = xs @ drop k h'" by (simp add: xs_def)
    have out': "out = der_tag t @ lb # xs @ body"
      unfolding out cbs body_def by (subst hx) (simp add: xs)
    have c': "c = drop (be_val xs) (drop k h')"
      unfolding c cbs by (simp add: add.commute)
    have "cbs = out @ c"
      unfolding out' cbs body_def c' by (subst hx) (simp del: drop_drop)
    moreover have "length body = be_val xs" using len by (simp add: body_def)
    moreover have "der_len (be_val xs) = lb # xs"
      unfolding lb using k xs * by (rule_tac long_length_octets) auto
    ultimately show ?thesis
      using out' hl xs \<open>be_val xs < 256 ^ 4\<close>
      by (intro exI [of _ body]) (simp add: der_element_def)
  qed
qed


lemma CBS_get_any_asn1_element_complete:
  assumes "length body < 2 ^ 32"
  shows "CBS_get_any_asn1_element (der_element t body @ rest)
    = (Some (der_element t body, t, length (der_tag t @ der_len (length body))), rest)"
proof (cases "length body < 128")
  case True
  then have "der_len (length body) = [of_nat (length body)]"
    and "unat (of_nat (length body) :: u8) = length body"
    by (simp_all add: der_len_def unat_of_nat_u8)
  then show ?thesis
    using True by (simp add: CBS_get_any_asn1_element_def cbs_get_any_asn1_element_def
        der_element_def u8_cases_high CBS_get_bytes_eq Let_def)
next
  case False
  define n where "n = length body"
  define k where "k = len_octets n"
  have k: "0 < k" "k \<le> 4" "n < 256 ^ k"
    unfolding k_def n_def using assms by (auto intro: len_octets_bounds)
  have hd: "unat (of_nat (128 + k) :: u8) = 128 + k"
    using k by (simp only: unat_of_nat_u8) simp
  have len: "der_len n = of_nat (128 + k) # be_bytes k n"
    using False by (simp add: der_len_def n_def k_def)
  have n32: "unat (of_nat n :: u32) = n"
    using assms by (simp add: n_def unat_of_nat)
  have min: "\<not> n < 256 ^ (k - 1)"
  proof (cases "1 < k")
    case True
    then have "256 ^ (k - 1) \<le> n"
      using False assms unfolding k_def n_def by (intro len_octets_bounds) auto
    then show ?thesis by simp
  next
    case 1: False
    then have "k = 1" using k by simp
    then show ?thesis using False unfolding n_def by (auto simp del: length_0_conv)
  qed
  have small: "n + (length (der_tag t) + 1 + k) \<le> size_max"
    using assms k length_der_tag [of t] by (simp add: n_def)
  have mod: "n mod 256 ^ k = n" using k by simp
  show ?thesis
    using False k small min n32 hd
    by (simp add: CBS_get_any_asn1_element_def cbs_get_any_asn1_element_def der_element_def
        u8_cases_high CBS_get_bytes_eq cbs_get_u_eq Let_def len mod word_less_nat_alt
        drop_bit_eq_0_iff_less power_mult mult.commute [of _ 8] flip: n_def)
qed

lemma CBS_get_any_asn1_element_fails:
  "CBS_get_any_asn1_element cbs = (None, c) \<Longrightarrow> c = cbs"
  by (auto simp: CBS_get_any_asn1_element_def cbs_get_any_asn1_element_def CBS_get_bytes_eq Let_def
      split: option.splits prod.splits if_splits)

lemma CBS_get_any_asn1_element_iff:
  "CBS_get_any_asn1_element cbs = (Some (out, t, hl), c) \<longleftrightarrow>
    (\<exists>body. length body < 2 ^ 32 \<and> out = der_element t body \<and> cbs = out @ c
      \<and> hl = length (der_tag t @ der_len (length body)))"
  using CBS_get_any_asn1_element_sound [of cbs out t hl c] CBS_get_any_asn1_element_complete
  by (auto simp del: length_append)

text \<open>An element determines its tag and its contents.\<close>

lemma der_element_inject:
  assumes "der_element t body = der_element t' body'" "length body < 2 ^ 32" "length body' < 2 ^ 32"
  shows "t = t' \<and> body = body'"
proof -
  have "CBS_get_any_asn1_element (der_element t body @ []) =
      CBS_get_any_asn1_element (der_element t' body' @ [])"
    by (simp add: assms(1))
  then have "t = t'" and "length (der_len (length body)) = length (der_len (length body'))"
    by (simp_all only: CBS_get_any_asn1_element_complete [OF assms(2)]
        CBS_get_any_asn1_element_complete [OF assms(3)]) auto
  with assms(1) show ?thesis by (simp add: der_element_def)
qed

lemma CBS_skip_eq:
  "CBS_skip n cbs = (if length cbs < n then (None, cbs) else (Some (), drop n cbs))"
  by (simp add: CBS_skip_def cbs_get_def)

lemma cbs_get_asn1_iff:
  "cbs_get_asn1 t skip cbs = (Some out, c) \<longleftrightarrow>
    (\<exists>body. length body < 2 ^ 32 \<and> cbs = der_element t body @ c
      \<and> out = (if skip then body else der_element t body))"
proof (cases "CBS_get_any_asn1_element cbs")
  case (Pair r c')
  show ?thesis
  proof (cases r)
    case None
    with Pair show ?thesis
      using CBS_get_any_asn1_element_complete [of _ t c]
      by (auto simp: cbs_get_asn1_def)
  next
    case (Some x)
    obtain o' t' hl where x: "x = (o', t', hl)" by (cases x)
    from Pair Some x obtain body' where *: "length body' < 2 ^ 32" "o' = der_element t' body'"
      "cbs = der_element t' body' @ c'" "hl = length (der_tag t' @ der_len (length body'))"
      using CBS_get_any_asn1_element_sound [of cbs o' t' hl c'] by auto
    have "cbs_get_asn1 t skip cbs = (Some out, c) \<longleftrightarrow>
        t' = t \<and> c' = c \<and> out = (if skip then body' else der_element t body')"
      using Pair Some x *(2,4)
      by (auto simp: cbs_get_asn1_def CBS_skip_eq der_element_def)
    moreover have "t' = t \<and> c' = c \<and> body' = body"
      if "length body < 2 ^ 32" "cbs = der_element t body @ c" for body
    proof -
      have "der_element t body = o' \<and> t = t' \<and> c = c'"
        using CBS_get_any_asn1_element_complete [OF that(1), of t c] that(2) Pair Some x by auto
      with der_element_inject [of t body t' body'] * that show ?thesis by simp
    qed
    ultimately show ?thesis using * by blast
  qed
qed

lemma CBS_get_asn1_iff:
  "CBS_get_asn1 t cbs = (Some body, c) \<longleftrightarrow> length body < 2 ^ 32 \<and> cbs = der_element t body @ c"
  by (auto simp: CBS_get_asn1_def cbs_get_asn1_iff)

end
