(* ===== verification/Cbb.thy ===== *)
theory Cbb
  imports Der
begin

text \<open>
  The byte-string builder of BoringSSL (\<open>crypto/bytestring/cbb.c\<close>). A tree of \<open>CBB\<close>s shares one
  \<open>cbb_buffer_st\<close>, and every \<open>CBB\<close> has at most one pending child, so the live \<open>CBB\<close>s form a
  chain from the top-level one down: the state is the shared buffer (\<open>None\<close> once it is released)
  and that chain. A \<open>CBB *\<close> argument is the depth of the \<open>CBB\<close> in the chain; a child that has been
  detached (its \<open>base\<close> set to null) is a depth beyond the end of the chain.

  \<open>buf\<close> is the whole allocation (\<open>cap\<close> bytes), of which the first \<open>len\<close> are valid. Every function
  that can allocate takes the allocator \<open>A\<close>; a result 0 of the C function is \<open>False\<close>.
\<close>

record cbb_buffer_st =
  buf :: bytes
  len :: nat
  cap :: nat
  can_resize :: bool
  error :: bool

record cbb_st =
  offset :: nat
  pending_len_len :: nat
  pending_is_asn1 :: bool
  is_top_level :: bool

record CBB =
  base :: "cbb_buffer_st option"
  chain :: "cbb_st list"

section \<open>Creation and release\<close>

definition cbb_top :: cbb_st where
  "cbb_top = \<lparr>offset = 0, pending_len_len = 0, pending_is_asn1 = False, is_top_level = True\<rparr>"

definition CBB_zero :: CBB where
  "CBB_zero = \<lparr>base = None, chain = []\<rparr>"

text \<open>\<open>cbb_init\<close> allocates the \<open>cbb_buffer_st\<close> itself (40 bytes) with \<open>A\<close>.\<close>

definition cbb_init :: "alloc \<Rightarrow> bytes \<Rightarrow> nat \<Rightarrow> bool \<times> CBB" where
  "cbb_init A b c =
     (if A 40 = None then (False, CBB_zero)
      else (True, \<lparr>base = Some \<lparr>buf = b, len = 0, cap = c, can_resize = True, error = False\<rparr>,
                   chain = [cbb_top]\<rparr>))"

definition CBB_init :: "alloc \<Rightarrow> nat \<Rightarrow> bool \<times> CBB" where
  "CBB_init A initial_capacity =
     (case OPENSSL_malloc A initial_capacity of
        None \<Rightarrow> if initial_capacity > 0 then (False, CBB_zero) else cbb_init A [] 0
      | Some b \<Rightarrow> cbb_init A b initial_capacity)"

definition CBB_init_fixed :: "alloc \<Rightarrow> bytes \<Rightarrow> bool \<times> CBB" where
  "CBB_init_fixed A b =
     (case cbb_init A b (length b) of
        (False, s) \<Rightarrow> (False, s)
      | (True, s) \<Rightarrow> (True, s\<lparr>base := map_option (\<lambda>x. x\<lparr>can_resize := False\<rparr>) (base s)\<rparr>))"

definition CBB_cleanup :: "CBB \<Rightarrow> CBB" where
  "CBB_cleanup s = s\<lparr>base := None\<rparr>"

section \<open>The shared buffer\<close>

definition cbb_buffer_reserve :: "alloc \<Rightarrow> cbb_buffer_st \<Rightarrow> nat \<Rightarrow> bool \<times> cbb_buffer_st" where
  "cbb_buffer_reserve A b n =
     (let newlen = size_add (len b) n
      in if newlen < len b then (False, b\<lparr>error := True\<rparr>)
         else if newlen > cap b then
           (let newcap = size_mult (cap b) 2
            in if \<not> can_resize b then (False, b\<lparr>error := True\<rparr>)
               else
                 (let newcap = (if newcap < cap b \<or> newcap < newlen then newlen else newcap)
                  in case OPENSSL_realloc A (buf b) newcap of
                       None \<Rightarrow> (False, b\<lparr>error := True\<rparr>)
                     | Some newbuf \<Rightarrow> (True, b\<lparr>buf := newbuf, cap := newcap\<rparr>)))
         else (True, b))"

text \<open>\<open>cbb_buffer_add\<close>; its \<open>*out\<close> is the old \<open>len\<close>, as an offset into \<open>buf\<close>.\<close>

definition cbb_buffer_add :: "alloc \<Rightarrow> cbb_buffer_st \<Rightarrow> nat \<Rightarrow> bool \<times> cbb_buffer_st" where
  "cbb_buffer_add A b n =
     (case cbb_buffer_reserve A b n of
        (False, b) \<Rightarrow> (False, b)
      | (True, b) \<Rightarrow> (True, b\<lparr>len := len b + n\<rparr>))"

text \<open>The loop \<open>for (i = k - 1; i < k; i--) { p[i] = v; v >>= 8; }\<close> with \<open>p = buf + off\<close>.\<close>

fun write_be :: "bytes \<Rightarrow> nat \<Rightarrow> nat \<Rightarrow> nat \<Rightarrow> bytes \<times> nat" where
  "write_be b off 0 v = (b, v)"
| "write_be b off (Suc k) v = write_be (b[off + k := of_nat v]) off k (v div 256)"

definition cbb_buffer_add_u :: "alloc \<Rightarrow> cbb_buffer_st \<Rightarrow> u32 \<Rightarrow> nat \<Rightarrow> bool \<times> cbb_buffer_st" where
  "cbb_buffer_add_u A b v len_len =
     (if len_len = 0 then (True, b)
      else (case cbb_buffer_add A b len_len of
              (False, b') \<Rightarrow> (False, b')
            | (True, b') \<Rightarrow>
                (case write_be (buf b') (len b) len_len (unat v) of
                   (d, rest) \<Rightarrow>
                     if rest \<noteq> 0 then (False, b'\<lparr>buf := d, error := True\<rparr>)
                     else (True, b'\<lparr>buf := d\<rparr>))))"

section \<open>Flushing\<close>

text \<open>The ASN.1 branch of \<open>CBB_flush\<close>: the number of length bytes, the initial length byte and
  the value left for the loop; \<open>None\<close> when the contents are too long.\<close>

definition asn1_length_form :: "nat \<Rightarrow> (nat \<times> u8 \<times> nat) option" where
  "asn1_length_form n =
     (if n > 0xfffffffe then None
      else if n > 0xffffff then Some (5, 0x80 OR 4, n)
      else if n > 0xffff then Some (4, 0x80 OR 3, n)
      else if n > 0xff then Some (3, 0x80 OR 2, n)
      else if n > 0x7f then Some (2, 0x80 OR 1, n)
      else Some (1, of_nat n, 0))"

text \<open>Writing the pending length prefix of \<open>child\<close>, whose contents are the bytes of the buffer
  from \<open>child_start\<close> on: the part of \<open>CBB_flush\<close> after the recursive call.\<close>

definition cbb_close_child :: "alloc \<Rightarrow> cbb_buffer_st \<Rightarrow> cbb_st \<Rightarrow> nat \<Rightarrow> bool \<times> cbb_buffer_st" where
  "cbb_close_child A b child child_start =
     (let n = len b - child_start
      in if pending_is_asn1 child then
           (case asn1_length_form n of
              None \<Rightarrow> (False, b\<lparr>error := True\<rparr>)
            | Some (len_len, initial_length_byte, rest) \<Rightarrow>
                (let extra_bytes = len_len - 1
                 in case (if len_len \<noteq> 1 then cbb_buffer_add A b extra_bytes else (True, b)) of
                      (False, b) \<Rightarrow> (False, b\<lparr>error := True\<rparr>)
                    | (True, b) \<Rightarrow>
                        (let d = (if len_len \<noteq> 1
                                  then mem_write (buf b) (child_start + extra_bytes)
                                         (take n (drop child_start (buf b)))
                                  else buf b);
                             d = d[offset child := initial_length_byte]
                         in case write_be d (offset child + 1) extra_bytes rest of
                              (d, rest) \<Rightarrow>
                                if rest \<noteq> 0 then (False, b\<lparr>buf := d, error := True\<rparr>)
                                else (True, b\<lparr>buf := d\<rparr>))))
         else (case write_be (buf b) (offset child) (pending_len_len child) n of
                 (d, rest) \<Rightarrow>
                   if rest \<noteq> 0 then (False, b\<lparr>buf := d, error := True\<rparr>)
                   else (True, b\<lparr>buf := d\<rparr>)))"

text \<open>\<open>CBB_flush\<close> on the chain from the \<open>CBB\<close> down; the empty chain is a detached \<open>CBB\<close>.\<close>

fun cbb_flush_chain ::
    "alloc \<Rightarrow> cbb_buffer_st \<Rightarrow> cbb_st list \<Rightarrow> bool \<times> cbb_buffer_st \<times> cbb_st list" where
  "cbb_flush_chain A b [] = (False, b, [])"
| "cbb_flush_chain A b [c] = (if error b then (False, b, [c]) else (True, b, [c]))"
| "cbb_flush_chain A b (c # child # rest) =
     (if error b then (False, b, c # child # rest)
      else if pending_len_len child = 0 then (True, b, c # child # rest)
      else
        (let child_start = size_add (offset child) (pending_len_len child)
         in case cbb_flush_chain A b (child # rest) of
              (False, b, ch) \<Rightarrow> (False, b\<lparr>error := True\<rparr>, c # ch)
            | (True, b, ch) \<Rightarrow>
                if child_start < offset child \<or> len b < child_start
                then (False, b\<lparr>error := True\<rparr>, c # ch)
                else (case cbb_close_child A b child child_start of
                        (False, b) \<Rightarrow> (False, b, c # ch)
                      | (True, b) \<Rightarrow> (True, b, [c]))))"

definition CBB_flush :: "alloc \<Rightarrow> nat \<Rightarrow> CBB \<Rightarrow> bool \<times> CBB" where
  "CBB_flush A d s =
     (case base s of
        None \<Rightarrow> (False, s)
      | Some b \<Rightarrow>
          (case cbb_flush_chain A b (drop d (chain s)) of
             (r, b, ch) \<Rightarrow> (r, s\<lparr>base := Some b, chain := take d (chain s) @ ch\<rparr>)))"

text \<open>An operation on the buffer after a successful flush, the shape of every \<open>CBB_add_...\<close>.\<close>

definition cbb_flushed ::
    "alloc \<Rightarrow> nat \<Rightarrow> (cbb_buffer_st \<Rightarrow> bool \<times> cbb_buffer_st) \<Rightarrow> CBB \<Rightarrow> bool \<times> CBB" where
  "cbb_flushed A d op s =
     (case CBB_flush A d s of
        (False, s) \<Rightarrow> (False, s)
      | (True, s) \<Rightarrow>
          (case base s of
             None \<Rightarrow> (False, s)
           | Some b \<Rightarrow> (case op b of (r, b) \<Rightarrow> (r, s\<lparr>base := Some b\<rparr>))))"

section \<open>Adding data\<close>

definition cbb_buffer_append :: "alloc \<Rightarrow> bytes \<Rightarrow> cbb_buffer_st \<Rightarrow> bool \<times> cbb_buffer_st" where
  "cbb_buffer_append A d b =
     (case cbb_buffer_add A b (length d) of
        (False, b') \<Rightarrow> (False, b')
      | (True, b') \<Rightarrow> (True, b'\<lparr>buf := mem_write (buf b') (len b) d\<rparr>))"

definition CBB_add_bytes :: "alloc \<Rightarrow> nat \<Rightarrow> bytes \<Rightarrow> CBB \<Rightarrow> bool \<times> CBB" where
  "CBB_add_bytes A d dat = cbb_flushed A d (cbb_buffer_append A dat)"

definition CBB_add_space :: "alloc \<Rightarrow> nat \<Rightarrow> nat \<Rightarrow> CBB \<Rightarrow> bool \<times> CBB" where
  "CBB_add_space A d n = cbb_flushed A d (\<lambda>b. cbb_buffer_add A b n)"

definition CBB_reserve :: "alloc \<Rightarrow> nat \<Rightarrow> nat \<Rightarrow> CBB \<Rightarrow> bool \<times> CBB" where
  "CBB_reserve A d n = cbb_flushed A d (\<lambda>b. cbb_buffer_reserve A b n)"

definition CBB_did_write :: "nat \<Rightarrow> nat \<Rightarrow> CBB \<Rightarrow> bool \<times> CBB" where
  "CBB_did_write d n s =
     (case base s of
        None \<Rightarrow> (False, s)
      | Some b \<Rightarrow>
          (let newlen = size_add (len b) n
           in if length (chain s) > d + 1 \<or> newlen < len b \<or> newlen > cap b then (False, s)
              else (True, s\<lparr>base := Some (b\<lparr>len := newlen\<rparr>)\<rparr>)))"

definition CBB_add_u8 :: "alloc \<Rightarrow> nat \<Rightarrow> u8 \<Rightarrow> CBB \<Rightarrow> bool \<times> CBB" where
  "CBB_add_u8 A d v = cbb_flushed A d (\<lambda>b. cbb_buffer_add_u A b (ucast v) 1)"

definition CBB_add_u16 :: "alloc \<Rightarrow> nat \<Rightarrow> u16 \<Rightarrow> CBB \<Rightarrow> bool \<times> CBB" where
  "CBB_add_u16 A d v = cbb_flushed A d (\<lambda>b. cbb_buffer_add_u A b (ucast v) 2)"

definition CBB_add_u24 :: "alloc \<Rightarrow> nat \<Rightarrow> u32 \<Rightarrow> CBB \<Rightarrow> bool \<times> CBB" where
  "CBB_add_u24 A d v = cbb_flushed A d (\<lambda>b. cbb_buffer_add_u A b v 3)"

definition CBB_add_u32 :: "alloc \<Rightarrow> nat \<Rightarrow> u32 \<Rightarrow> CBB \<Rightarrow> bool \<times> CBB" where
  "CBB_add_u32 A d v = cbb_flushed A d (\<lambda>b. cbb_buffer_add_u A b v 4)"

text \<open>A new child: the last \<open>CBB\<close> of the chain, its prefix starting at \<open>off\<close>.\<close>

definition cbb_add_child :: "nat \<Rightarrow> nat \<Rightarrow> bool \<Rightarrow> CBB \<Rightarrow> CBB" where
  "cbb_add_child off len_len asn1 s =
     s\<lparr>chain := chain s @ [\<lparr>offset = off, pending_len_len = len_len, pending_is_asn1 = asn1,
                             is_top_level = False\<rparr>]\<rparr>"

definition cbb_add_length_prefixed :: "alloc \<Rightarrow> nat \<Rightarrow> nat \<Rightarrow> CBB \<Rightarrow> bool \<times> CBB" where
  "cbb_add_length_prefixed A d len_len s =
     (case CBB_flush A d s of
        (False, s) \<Rightarrow> (False, s)
      | (True, s) \<Rightarrow>
          (case base s of
             None \<Rightarrow> (False, s)
           | Some b \<Rightarrow>
               (case cbb_buffer_append A (replicate len_len 0) b of
                  (False, b') \<Rightarrow> (False, s\<lparr>base := Some b'\<rparr>)
                | (True, b') \<Rightarrow>
                    (True, cbb_add_child (len b) len_len False (s\<lparr>base := Some b'\<rparr>)))))"

definition CBB_add_u8_length_prefixed :: "alloc \<Rightarrow> nat \<Rightarrow> CBB \<Rightarrow> bool \<times> CBB" where
  "CBB_add_u8_length_prefixed A d = cbb_add_length_prefixed A d 1"

definition CBB_add_u16_length_prefixed :: "alloc \<Rightarrow> nat \<Rightarrow> CBB \<Rightarrow> bool \<times> CBB" where
  "CBB_add_u16_length_prefixed A d = cbb_add_length_prefixed A d 2"

definition CBB_add_u24_length_prefixed :: "alloc \<Rightarrow> nat \<Rightarrow> CBB \<Rightarrow> bool \<times> CBB" where
  "CBB_add_u24_length_prefixed A d = cbb_add_length_prefixed A d 3"

text \<open>The length computation and the writing loop of \<open>add_base128_integer\<close>.\<close>

function base128_len_loop :: "u64 \<Rightarrow> nat \<Rightarrow> nat" where
  "base128_len_loop copy len_len =
     (if copy > 0 then base128_len_loop (drop_bit 7 copy) (len_len + 1) else len_len)"
  by pat_completeness auto
termination
proof (relation "measure (\<lambda>(copy, _). unat copy)")
  fix copy :: u64 and len_len :: nat
  assume "copy > 0"
  then have "unat copy \<noteq> 0" by (simp add: unat_eq_0)
  then show "((drop_bit 7 copy, len_len + 1), copy, len_len) \<in> measure (\<lambda>(copy, _). unat copy)"
    by (simp only: in_measure prod.case unat_drop_bit_div) simp
qed simp

declare base128_len_loop.simps [simp del]

fun base128_write_loop :: "alloc \<Rightarrow> nat \<Rightarrow> u64 \<Rightarrow> nat \<Rightarrow> CBB \<Rightarrow> bool \<times> CBB" where
  "base128_write_loop A d v 0 s = (True, s)"
| "base128_write_loop A d v (Suc i) s =
     (let byte = ucast (drop_bit (7 * i) v) AND 0x7f :: u8;
          byte = (if i \<noteq> 0 then byte OR 0x80 else byte)
      in case CBB_add_u8 A d byte s of
           (False, s) \<Rightarrow> (False, s)
         | (True, s) \<Rightarrow> base128_write_loop A d v i s)"

definition add_base128_integer :: "alloc \<Rightarrow> nat \<Rightarrow> u64 \<Rightarrow> CBB \<Rightarrow> bool \<times> CBB" where
  "add_base128_integer A d v s =
     (let len_len = base128_len_loop v 0;
          len_len = (if len_len = 0 then 1 else len_len)
      in base128_write_loop A d v len_len s)"

definition CBB_add_asn1 :: "alloc \<Rightarrow> nat \<Rightarrow> u32 \<Rightarrow> CBB \<Rightarrow> bool \<times> CBB" where
  "CBB_add_asn1 A d tag s =
     (case CBB_flush A d s of
        (False, s) \<Rightarrow> (False, s)
      | (True, s) \<Rightarrow>
          (let tagbits = ucast (drop_bit CBS_ASN1_TAG_SHIFT tag) AND 0xe0 :: u8;
               number = tag AND CBS_ASN1_TAG_NUMBER_MASK
           in case (if number \<ge> 0x1f then
                      (case CBB_add_u8 A d (tagbits OR 0x1f) s of
                         (False, s) \<Rightarrow> (False, s)
                       | (True, s) \<Rightarrow> add_base128_integer A d (ucast number) s)
                    else CBB_add_u8 A d (tagbits OR ucast number) s) of
                (False, s) \<Rightarrow> (False, s)
              | (True, s) \<Rightarrow>
                  (case base s of
                     None \<Rightarrow> (False, s)
                   | Some b \<Rightarrow>
                       (case CBB_add_u8 A d 0 s of
                          (False, s) \<Rightarrow> (False, s)
                        | (True, s) \<Rightarrow> (True, cbb_add_child (len b) 1 True s)))))"

definition CBB_discard_child :: "nat \<Rightarrow> CBB \<Rightarrow> CBB" where
  "CBB_discard_child d s =
     (case drop (d + 1) (chain s) of
        [] \<Rightarrow> s
      | child # _ \<Rightarrow>
          s\<lparr>base := map_option (\<lambda>b. b\<lparr>len := offset child\<rparr>) (base s),
            chain := take (d + 1) (chain s)\<rparr>)"

text \<open>\<open>CBB_data\<close> and \<open>CBB_len\<close> of the last \<open>CBB\<close> of the chain: the bytes written to it so far.\<close>

definition CBB_data :: "CBB \<Rightarrow> bytes" where
  "CBB_data s =
     (case base s of
        None \<Rightarrow> []
      | Some b \<Rightarrow> drop (offset (last (chain s)) + pending_len_len (last (chain s))) (take (len b) (buf b)))"

definition CBB_len :: "CBB \<Rightarrow> nat" where
  "CBB_len s =
     (case base s of
        None \<Rightarrow> 0
      | Some b \<Rightarrow> len b - offset (last (chain s)) - pending_len_len (last (chain s)))"

text \<open>\<open>CBB_finish\<close> at depth \<open>d\<close>; \<open>want\<close> says that both output pointers are given.\<close>

definition CBB_finish :: "alloc \<Rightarrow> nat \<Rightarrow> bool \<Rightarrow> CBB \<Rightarrow> bytes option \<times> CBB" where
  "CBB_finish A d want s =
     (if \<not> (d < length (chain s) \<and> is_top_level (chain s ! d)) then (None, s)
      else (case CBB_flush A d s of
              (False, s) \<Rightarrow> (None, s)
            | (True, s) \<Rightarrow>
                (case base s of
                   None \<Rightarrow> (None, s)
                 | Some b \<Rightarrow>
                     if can_resize b \<and> \<not> want then (None, s)
                     else (Some (take (len b) (buf b)), CBB_cleanup s))))"

end
