(* ===== verification/Cbb_Refine.thy ===== *)
theory Cbb_Refine
  imports Cbb
begin

text \<open>
  What the builder promises. The live chain of \<open>CBB\<close>s is abstracted to the stack of the byte
  strings written to each of them (\<open>frames\<close>), and every operation of \<open>Cbb\<close> is shown to be the
  corresponding operation on that stack: adding data appends to the last frame, flushing encodes
  the pending frames into their parents, whatever reallocations and moves the buffer goes through.
\<close>

section \<open>The buffer\<close>

definition cbb_buffer_ok :: "cbb_buffer_st \<Rightarrow> bool" where
  "cbb_buffer_ok b \<longleftrightarrow>
     length (buf b) = cap b \<and> len b \<le> cap b \<and> cap b \<le> size_max \<and> \<not> error b"

definition val :: "cbb_buffer_st \<Rightarrow> bytes" where
  "val b = take (len b) (buf b)"

lemma length_val [simp]: "cbb_buffer_ok b \<Longrightarrow> length (val b) = len b"
  by (simp add: val_def cbb_buffer_ok_def)

lemma cbb_buffer_reserve_True:
  assumes "cbb_buffer_ok b" and "n \<le> size_max" and "cbb_buffer_reserve A b n = (True, b')"
  shows "cbb_buffer_ok b'" and "len b' = len b" and "len b + n \<le> cap b'" and "val b' = val b"
    and "can_resize b' = can_resize b"
proof -
  have len: "len b \<le> size_max" using assms(1) by (simp add: cbb_buffer_ok_def)
  from assms have "\<not> size_add (len b) n < len b"
    by (auto simp: cbb_buffer_reserve_def Let_def split: if_splits)
  then have add: "size_add (len b) n = len b + n" "len b + n \<le> size_max"
    using size_add_less_iff [OF len assms(2)] by auto
  have "cbb_buffer_ok b' \<and> len b' = len b \<and> len b + n \<le> cap b' \<and> val b' = val b
    \<and> can_resize b' = can_resize b"
  proof (cases "len b + n \<le> cap b")
    case True
    with assms add show ?thesis
      by (auto simp: cbb_buffer_reserve_def Let_def split: if_splits)
  next
    case False
    with assms(3) add obtain m d where *: "OPENSSL_realloc A (buf b) m = Some d"
      "b' = b\<lparr>buf := d, cap := m\<rparr>"
      and m: "m = size_mult (cap b) 2 \<and> len b + n \<le> m \<or> m = len b + n"
      by (auto simp: cbb_buffer_reserve_def Let_def split: if_splits option.splits)
    have "size_mult (cap b) 2 \<le> size_max" by (simp add: size_mult_def)
    with m add have "m \<le> size_max" "len b + n \<le> m" by auto
    moreover have "len b \<le> m" using \<open>len b + n \<le> m\<close> by simp
    ultimately show ?thesis
      using * OPENSSL_realloc_Some [OF *(1)] assms(1) by (simp add: cbb_buffer_ok_def val_def)
  qed
  then show "cbb_buffer_ok b'" "len b' = len b" "len b + n \<le> cap b'" "val b' = val b"
    "can_resize b' = can_resize b"
    by blast+
qed

lemma cbb_buffer_reserve_False:
  "cbb_buffer_reserve A b n = (False, b') \<Longrightarrow> error b'"
  by (auto simp: cbb_buffer_reserve_def Let_def split: if_splits option.splits)

lemma cbb_buffer_add_True:
  assumes "cbb_buffer_ok b" and "n \<le> size_max" and "cbb_buffer_add A b n = (True, b')"
  shows "cbb_buffer_ok b'" and "len b' = len b + n" and "take (len b) (buf b') = val b"
    and "can_resize b' = can_resize b"
proof -
  from assms(3) obtain b1 where r: "cbb_buffer_reserve A b n = (True, b1)"
    and b': "b' = b1\<lparr>len := len b1 + n\<rparr>"
    by (auto simp: cbb_buffer_add_def split: prod.splits bool.splits)
  note * = cbb_buffer_reserve_True [OF assms(1,2) r]
  show "cbb_buffer_ok b'" "len b' = len b + n" "take (len b) (buf b') = val b"
    "can_resize b' = can_resize b"
    using * by (simp_all add: b' cbb_buffer_ok_def) (simp add: val_def)
qed

lemma cbb_buffer_add_False: "cbb_buffer_add A b n = (False, b') \<Longrightarrow> error b'"
  by (auto simp: cbb_buffer_add_def dest: cbb_buffer_reserve_False split: prod.splits bool.splits)

lemma mem_write_snoc:
  assumes "off + length ys < length b"
  shows "mem_write (b[off + length ys := x]) off ys = mem_write b off (ys @ [x])"
  using assms by (simp add: mem_write_def upd_conv_take_nth_drop min_def)

lemma write_be_eq:
  "off + k \<le> length b \<Longrightarrow> write_be b off k v = (mem_write b off (be_bytes k v), v div 256 ^ k)"
proof (induction k arbitrary: b v)
  case 0
  then show ?case by (simp add: mem_write_def)
next
  case (Suc k)
  then show ?case
    using mem_write_snoc [of off "be_bytes k (v div 256)" b "of_nat v"]
    by (simp add: div_mult2_eq)
qed

lemma cbb_buffer_append_True:
  assumes "cbb_buffer_ok b" and "length d \<le> size_max" and "cbb_buffer_append A d b = (True, b')"
  shows "cbb_buffer_ok b'" and "val b' = val b @ d" and "can_resize b' = can_resize b"
proof -
  from assms(3) obtain b1 where add: "cbb_buffer_add A b (length d) = (True, b1)"
    and b': "b' = b1\<lparr>buf := mem_write (buf b1) (len b) d\<rparr>"
    by (auto simp: cbb_buffer_append_def split: prod.splits bool.splits)
  note * = cbb_buffer_add_True [OF assms(1,2) add]
  show "cbb_buffer_ok b'" "val b' = val b @ d" "can_resize b' = can_resize b"
    using * by (auto simp: b' cbb_buffer_ok_def val_def)
qed

lemma cbb_buffer_add_u_True:
  assumes "cbb_buffer_ok b" and "k \<le> 8" and "cbb_buffer_add_u A b v k = (True, b')"
  shows "cbb_buffer_ok b'" and "val b' = val b @ be_bytes k (unat v)" and "k = 0 \<or> unat v < 256 ^ k"
    and "can_resize b' = can_resize b"
proof -
  have "cbb_buffer_ok b' \<and> val b' = val b @ be_bytes k (unat v) \<and> (k = 0 \<or> unat v < 256 ^ k)
    \<and> can_resize b' = can_resize b"
  proof (cases "k = 0")
    case True
    with assms show ?thesis by (simp add: cbb_buffer_add_u_def)
  next
    case False
    with assms(3) obtain b1 where add: "cbb_buffer_add A b k = (True, b1)"
      by (auto simp: cbb_buffer_add_u_def split: prod.splits bool.splits if_splits)
    have k: "k \<le> size_max" using assms(2) by simp
    note * = cbb_buffer_add_True [OF assms(1) k add]
    have fit: "len b + k \<le> length (buf b1)" using * by (simp add: cbb_buffer_ok_def)
    from assms(3) False have b': "b' = b1\<lparr>buf := mem_write (buf b1) (len b) (be_bytes k (unat v))\<rparr>"
      and "unat v div 256 ^ k = 0"
      by (auto simp: cbb_buffer_add_u_def add write_be_eq [OF fit] split: if_splits)
    then have "unat v < 256 ^ k" by (simp add: div_eq_0_iff)
    then show ?thesis using * by (auto simp: b' cbb_buffer_ok_def val_def)
  qed
  then show "cbb_buffer_ok b'" "val b' = val b @ be_bytes k (unat v)" "k = 0 \<or> unat v < 256 ^ k"
    "can_resize b' = can_resize b"
    by blast+
qed

section \<open>Closing a child\<close>

text \<open>The encoding of a child with contents \<open>body\<close>, after the bytes its parent already holds.\<close>

definition child_enc :: "cbb_st \<Rightarrow> bytes \<Rightarrow> bytes" where
  "child_enc child body =
     (if pending_is_asn1 child then der_len (length body)
      else be_bytes (pending_len_len child) (length body)) @ body"

definition child_fits :: "cbb_st \<Rightarrow> bytes \<Rightarrow> bool" where
  "child_fits child body \<longleftrightarrow>
     (if pending_is_asn1 child then length body \<le> 0xfffffffe
      else length body < 256 ^ pending_len_len child)"

definition child_ok :: "cbb_st \<Rightarrow> bool" where
  "child_ok child \<longleftrightarrow>
     0 < pending_len_len child \<and> pending_len_len child \<le> 3
     \<and> (pending_is_asn1 child \<longrightarrow> pending_len_len child = 1)"

lemma asn1_length_form_Some:
  assumes "asn1_length_form n = Some (k, b, rest)"
  shows "n \<le> 0xfffffffe" and "0 < k" and "k \<le> 5"
    and "b # be_bytes (k - 1) rest = der_len n" and "rest < 256 ^ (k - 1)"
    and "k = 1 \<Longrightarrow> rest = 0"
  using assms
  by (auto simp: asn1_length_form_def der_len_def len_octets_def split: if_splits)


lemma mem_write_middle:
  "length pre = off \<Longrightarrow> length mid = length d \<Longrightarrow> mem_write (pre @ mid @ suf) off d = pre @ d @ suf"
  by (simp add: mem_write_def)

text \<open>Making room for a longer length: the contents move up by \<open>length e\<close> bytes, the first length
  byte and then the bytes \<open>e\<close> are written in front of them.\<close>

lemma shift_and_write:
  assumes "length e \<le> length J"
  shows "mem_write ((mem_write (pre @ h # body @ J) (length pre + 1 + length e) body)
      [length pre := ib]) (length pre + 1) e = pre @ ib # e @ body @ drop (length e) J"
proof -
  define R where "R = body @ J"
  have "mem_write (pre @ h # R) (length pre + 1 + length e) body
      = pre @ h # take (length e) R @ body @ drop (length e + length body) R"
    by (simp add: mem_write_def)
  moreover have "drop (length e + length body) R = drop (length e) J"
    by (simp add: R_def)
  moreover have "length (take (length e) R) = length e"
    using assms by (simp add: R_def)
  ultimately show ?thesis
    using mem_write_middle [of "pre @ [ib]" "length pre + 1" "take (length e) R" e]
    by (simp add: list_update_append flip: R_def)
qed

lemma cbb_buffer_splits:
  assumes "cbb_buffer_ok b" and "val b = v" and "len b \<le> m" and "m \<le> length d" and "take (len b) d = v"
  obtains J where "d = v @ J" and "m - len b \<le> length J"
proof
  show "d = v @ drop (len b) d" using assms(5) by (metis append_take_drop_id)
  show "m - len b \<le> length (drop (len b) d)" using assms by simp
qed

lemma close_prefixed:
  assumes b: "cbb_buffer_ok b" and v: "val b = pre @ hole @ body"
    and l: "length pre = offset child" "length hole = pending_len_len child"
    and asn1: "\<not> pending_is_asn1 child"
    and close: "cbb_close_child A b child (offset child + pending_len_len child) = (True, b')"
  shows "cbb_buffer_ok b' \<and> val b' = pre @ child_enc child body \<and> child_fits child body
    \<and> can_resize b' = can_resize b"
proof -
  have len: "len b = offset child + pending_len_len child + length body"
    using length_val [OF b] v l by simp
  have "len b \<le> length (buf b)" using b by (simp add: cbb_buffer_ok_def)
  then obtain J where J: "buf b = (pre @ hole @ body) @ J"
    using cbb_buffer_splits [OF b v order_refl, of "buf b"] v by (auto simp: val_def)
  have fit: "offset child + pending_len_len child \<le> length (buf b)"
    using l by (simp add: J)
  from close asn1 have b': "b' = b\<lparr>buf := mem_write (buf b) (offset child)
      (be_bytes (pending_len_len child) (length body))\<rparr>"
    and fits: "length body div 256 ^ pending_len_len child = 0"
    using len by (auto simp: cbb_close_child_def Let_def write_be_eq [OF fit] split: if_splits)
  have "buf b' = pre @ be_bytes (pending_len_len child) (length body) @ body @ J"
    using mem_write_middle [of pre "offset child" hole _ "body @ J"] l by (simp add: b' J)
  then have "val b' = pre @ be_bytes (pending_len_len child) (length body) @ body"
    using l len by (simp add: val_def b')
  then show ?thesis
    using asn1 fits b fit
    by (simp add: child_enc_def child_fits_def b' cbb_buffer_ok_def div_eq_0_iff)
qed

lemma close_asn1_space:
  assumes b: "cbb_buffer_ok b" and k: "0 < k" "k \<le> 5"
    and add: "(if k \<noteq> 1 then cbb_buffer_add A b (k - 1) else (True, b)) = (True, b1)"
  shows "cbb_buffer_ok b1" "len b1 = len b + (k - 1)" "take (len b) (buf b1) = val b"
    "can_resize b1 = can_resize b"
  using add cbb_buffer_add_True [OF b, of "k - 1" A b1] k b
  by (auto simp: val_def split: if_splits)

lemma close_asn1:
  assumes b: "cbb_buffer_ok b" and v: "val b = pre @ hole @ body"
    and l: "length pre = offset child" "length hole = 1"
    and asn1: "pending_is_asn1 child" "pending_len_len child = 1"
    and close: "cbb_close_child A b child (offset child + 1) = (True, b')"
  shows "cbb_buffer_ok b' \<and> val b' = pre @ child_enc child body \<and> child_fits child body
    \<and> can_resize b' = can_resize b"
proof -
  define n where "n = length body"
  have len: "len b = offset child + 1 + n"
    using length_val [OF b] v l by (simp add: n_def)
  then have n: "len b - (offset child + 1) = n" by simp
  obtain k ib rest where form: "asn1_length_form n = Some (k, ib, rest)"
    using close asn1 n by (auto simp: cbb_close_child_def Let_def split: option.splits)
  note form' = asn1_length_form_Some [OF form]
  obtain b1 where add: "(if k \<noteq> 1 then cbb_buffer_add A b (k - 1) else (True, b)) = (True, b1)"
    using close asn1 n form
    by (auto simp: cbb_close_child_def Let_def split: prod.splits bool.splits if_splits)
  note b1 = close_asn1_space [OF b form'(2,3) add]
  have "len b + (k - 1) \<le> length (buf b1)" using b1 by (simp add: cbb_buffer_ok_def)
  then obtain J where J: "buf b1 = val b @ J" and lJ: "k - 1 \<le> length J"
    using cbb_buffer_splits [OF b refl _ _ b1(3), of "len b + (k - 1)"] by auto
  obtain h where h: "hole = [h]" using l(2) by (cases hole) auto
  have buf1: "buf b1 = pre @ h # body @ J" using J v h by simp
  have moved: "take n (drop (offset child + 1) (buf b1)) = body"
    using l by (simp add: buf1 n_def)
  define d where "d = (if k \<noteq> 1 then mem_write (buf b1) (offset child + 1 + (k - 1)) body else buf b1)"
  have ld: "length d = length (buf b1)"
    using lJ l by (simp add: d_def buf1)
  have fit: "offset child + 1 + (k - 1) \<le> length (d[offset child := ib])"
    using lJ l ld by (simp add: buf1)
  have b': "b' = b1\<lparr>buf := mem_write (d[offset child := ib]) (offset child + 1) (be_bytes (k - 1) rest)\<rparr>"
    using close
    by (simp only: cbb_close_child_def Let_def asn1(1) if_True n form option.case prod.case add
        bool.case moved write_be_eq [OF fit] flip: d_def) (simp split: if_splits)
  have "mem_write (d[offset child := ib]) (offset child + 1) (be_bytes (k - 1) rest)
      = pre @ ib # be_bytes (k - 1) rest @ body @ drop (k - 1) J"
  proof (cases "k = 1")
    case True
    then show ?thesis using l by (simp add: d_def buf1 mem_write_def list_update_append)
  next
    case False
    then show ?thesis
      using shift_and_write [of "be_bytes (k - 1) rest" J pre h body ib] l lJ
      by (simp add: d_def buf1)
  qed
  then have "buf b' = (pre @ der_len n @ body) @ drop (k - 1) J"
    by (simp add: b' flip: form'(4))
  moreover have "length (der_len n) = k"
    using form'(2,4) by (metis Suc_pred length_Cons length_be_bytes diff_Suc_1 Suc_diff_1)
  ultimately have "val b' = pre @ der_len n @ body"
    using b1(2) l len form'(2) by (simp add: val_def b' n_def)
  then show ?thesis
    using asn1 form' b1 ld b' fit
    by (simp add: child_enc_def child_fits_def n_def cbb_buffer_ok_def)
qed

lemma cbb_close_child_True:
  assumes "cbb_buffer_ok b" and "child_ok child" and "val b = pre @ hole @ body"
    and "length pre = offset child" "length hole = pending_len_len child"
    and "cbb_close_child A b child (offset child + pending_len_len child) = (True, b')"
  shows "cbb_buffer_ok b' \<and> val b' = pre @ child_enc child body \<and> child_fits child body
    \<and> can_resize b' = can_resize b"
  using assms close_prefixed [of b pre hole body child A b'] close_asn1 [of b pre hole body child A b']
  by (cases "pending_is_asn1 child") (auto simp: child_ok_def)


section \<open>Frames\<close>

text \<open>
  \<open>child_frames st cs v\<close>: the contents of a \<open>CBB\<close> whose data start at \<open>st\<close>, up to its pending
  child, followed by the contents of the children \<open>cs\<close> below it. \<open>close_frames cs fs\<close>: the bytes of
  the outermost frame once all children are encoded into their parents.
\<close>

abbreviation child_end :: "cbb_st \<Rightarrow> nat" where
  "child_end c \<equiv> offset c + pending_len_len c"

fun child_frames :: "nat \<Rightarrow> cbb_st list \<Rightarrow> bytes \<Rightarrow> bytes list" where
  "child_frames st [] v = [drop st v]"
| "child_frames st (c # cs) v = take (offset c - st) (drop st v) # child_frames (child_end c) cs v"

fun children_ok :: "nat \<Rightarrow> cbb_st list \<Rightarrow> bytes \<Rightarrow> bool" where
  "children_ok st [] v = (st \<le> length v)"
| "children_ok st (c # cs) v = (child_ok c \<and> st \<le> offset c \<and> children_ok (child_end c) cs v)"

fun close_frames :: "cbb_st list \<Rightarrow> bytes list \<Rightarrow> bytes" where
  "close_frames (c # cs) (f # fs) = f @ child_enc c (close_frames cs fs)"
| "close_frames cs (f # fs) = f"
| "close_frames cs [] = []"

fun frames_fit :: "cbb_st list \<Rightarrow> bytes list \<Rightarrow> bool" where
  "frames_fit (c # cs) (f # fs) = (frames_fit cs fs \<and> child_fits c (close_frames cs fs))"
| "frames_fit cs fs = True"

lemma children_ok_length: "children_ok st cs v \<Longrightarrow> st \<le> length v"
  by (induction st cs v rule: children_ok.induct) auto

lemma length_child_frames [simp]: "length (child_frames st cs v) = Suc (length cs)"
  by (induction st cs v rule: child_frames.induct) auto

lemma child_frames_not_Nil [simp]: "child_frames st cs v \<noteq> []"
  by (cases cs) auto

lemma cbb_flush_chain_error: "error b \<Longrightarrow> fst (cbb_flush_chain A b cs) = False"
  by (cases "(A, b, cs)" rule: cbb_flush_chain.cases) auto

lemma cbb_flush_chain_True:
  assumes "cbb_flush_chain A b (c # cs) = (True, b', ch)"
    and "cbb_buffer_ok b" and "children_ok st cs (val b)"
  shows "cbb_buffer_ok b' \<and> ch = [c] \<and> can_resize b' = can_resize b
    \<and> val b' = take st (val b) @ close_frames cs (child_frames st cs (val b))
    \<and> frames_fit cs (child_frames st cs (val b))"
  using assms
proof (induction cs arbitrary: c st b' ch)
  case Nil
  then show ?case by (auto split: if_splits)
next
  case (Cons child rest)
  from Cons.prems(3) have child: "child_ok child" "st \<le> offset child"
    "children_ok (child_end child) rest (val b)" by auto
  note len = children_ok_length [OF child(3)]
  have "child_end child \<le> size_max"
    using len length_val [OF Cons.prems(2)] Cons.prems(2) by (simp add: cbb_buffer_ok_def)
  then have cs: "size_add (offset child) (pending_len_len child) = child_end child" by simp
  from Cons.prems(1) child(1) obtain b1 ch1 where
    sub: "cbb_flush_chain A b (child # rest) = (True, b1, ch1)"
    and close: "cbb_close_child A b1 child (child_end child) = (True, b')" and ch: "ch = [c]"
    by (auto simp: cs Let_def child_ok_def split: prod.splits bool.splits if_splits)
  define body where "body = close_frames rest (child_frames (child_end child) rest (val b))"
  from Cons.IH [OF sub Cons.prems(2) child(3)]
  have b1: "cbb_buffer_ok b1" "val b1 = take (child_end child) (val b) @ body"
    "can_resize b1 = can_resize b" and fit: "frames_fit rest (child_frames (child_end child) rest (val b))"
    by (simp_all add: body_def)
  define pre hole where "pre = take (offset child) (val b)"
    and "hole = take (pending_len_len child) (drop (offset child) (val b))"
  have v1: "val b1 = pre @ hole @ body"
    using b1(2) by (simp add: pre_def hole_def take_add)
  have pl: "length pre = offset child" "length hole = pending_len_len child"
    using len by (auto simp: pre_def hole_def)
  have "pre = take st (val b) @ take (offset child - st) (drop st (val b))"
    using child(2) by (simp add: pre_def flip: take_add)
  then show ?case
    using cbb_close_child_True [OF b1(1) child(1) v1 pl close] ch b1(3) fit
    by (simp add: body_def)
qed

section \<open>States\<close>

definition cbb_ok :: "CBB \<Rightarrow> bool" where
  "cbb_ok s \<longleftrightarrow>
     (case base s of
        None \<Rightarrow> False
      | Some b \<Rightarrow> cbb_buffer_ok b \<and> chain s \<noteq> [] \<and> hd (chain s) = cbb_top
                  \<and> children_ok 0 (tl (chain s)) (val b))"

definition cbb_frames :: "CBB \<Rightarrow> bytes list" where
  "cbb_frames s = (case base s of None \<Rightarrow> [] | Some b \<Rightarrow> child_frames 0 (tl (chain s)) (val b))"

text \<open>The abstract operations: encode all frames below depth \<open>d\<close>; append to the last frame.\<close>

definition flush_frames :: "nat \<Rightarrow> cbb_st list \<Rightarrow> bytes list \<Rightarrow> bytes list" where
  "flush_frames d cs fs = take d fs @ [close_frames (drop d cs) (drop d fs)]"

definition append_last :: "bytes list \<Rightarrow> bytes \<Rightarrow> bytes list" where
  "append_last fs x = butlast fs @ [last fs @ x]"

fun start_of :: "nat \<Rightarrow> cbb_st list \<Rightarrow> nat \<Rightarrow> nat" where
  "start_of st cs 0 = st"
| "start_of st [] (Suc d) = st"
| "start_of st (c # cs) (Suc d) = start_of (child_end c) cs d"

lemma children_ok_drop:
  "children_ok st cs v \<Longrightarrow> d \<le> length cs \<Longrightarrow> children_ok (start_of st cs d) (drop d cs) v"
  by (induction st cs d rule: start_of.induct) auto

lemma start_of_ge: "children_ok st cs v \<Longrightarrow> st \<le> start_of st cs d"
  by (induction st cs d rule: start_of.induct) auto

lemma child_frames_drop:
  "d \<le> length cs \<Longrightarrow> drop d (child_frames st cs v) = child_frames (start_of st cs d) (drop d cs) v"
  by (induction st cs d rule: start_of.induct) auto

lemma take_eq_take_less: "take n v' = take n v \<Longrightarrow> m \<le> n \<Longrightarrow> take m v' = take m v"
  by (metis min.absorb1 take_take)

lemma child_frames_take:
  assumes "children_ok st cs v" and "d \<le> length cs"
    and "take (start_of st cs d) v' = take (start_of st cs d) v"
  shows "child_frames st (take d cs) v' = take d (child_frames st cs v) @ [drop (start_of st cs d) v']"
  using assms
proof (induction st cs d rule: start_of.induct)
  case (3 st c cs d)
  have "child_end c \<le> start_of (child_end c) cs d"
    using "3.prems"(1) by (intro start_of_ge [of _ _ v]) simp
  then have "offset c \<le> start_of (child_end c) cs d" by simp
  with "3.prems"(3) [unfolded start_of.simps] have "take (offset c) v' = take (offset c) v"
    by (rule take_eq_take_less)
  from arg_cong [OF this, of "drop st"]
  have "take (offset c - st) (drop st v') = take (offset c - st) (drop st v)"
    by (simp only: drop_take)
  moreover have "child_frames (child_end c) (take d cs) v'
      = take d (child_frames (child_end c) cs v) @ [drop (start_of (child_end c) cs d) v']"
  proof (rule "3.IH")
    show "children_ok (child_end c) cs v" using "3.prems"(1) by simp
    show "d \<le> length cs" using "3.prems"(2) by simp
    show "take (start_of (child_end c) cs d) v' = take (start_of (child_end c) cs d) v"
      using "3.prems"(3) by (simp only: start_of.simps)
  qed
  ultimately show ?case by simp
qed auto

lemma children_ok_take:
  assumes "children_ok st cs v" and "d \<le> length cs" and "start_of st cs d \<le> length v'"
  shows "children_ok st (take d cs) v'"
  using assms by (induction st cs d rule: start_of.induct) auto

lemma append_last_frames:
  "children_ok st cs v \<Longrightarrow> child_frames st cs (v @ x) = append_last (child_frames st cs v) x"
proof (induction st cs v rule: children_ok.induct)
  case (1 st v)
  then show ?case by (simp add: append_last_def)
next
  case (2 st c cs v)
  then have "child_end c \<le> length v" using children_ok_length by auto
  with 2 show ?case by (simp add: append_last_def)
qed

lemma children_ok_append: "children_ok st cs v \<Longrightarrow> children_ok st cs (v @ x)"
  by (induction st cs v rule: children_ok.induct) auto

lemma CBB_flush_True:
  assumes "cbb_ok s" and "CBB_flush A d s = (True, s')"
  shows "d < length (chain s) \<and> cbb_ok s' \<and> chain s' = take (Suc d) (chain s)
    \<and> cbb_frames s' = flush_frames d (tl (chain s)) (cbb_frames s)
    \<and> frames_fit (drop d (tl (chain s))) (drop d (cbb_frames s))
    \<and> can_resize (the (base s')) = can_resize (the (base s))"
proof -
  obtain b cs where s: "base s = Some b" "chain s = cbb_top # cs"
    and b: "cbb_buffer_ok b" and cs: "children_ok 0 cs (val b)"
    using assms(1) by (cases "chain s") (auto simp: cbb_ok_def split: option.splits)
  from assms(2) s obtain b' ch where
    fl: "cbb_flush_chain A b (drop d (chain s)) = (True, b', ch)"
    and s': "s' = s\<lparr>base := Some b', chain := take d (chain s) @ ch\<rparr>"
    by (auto simp: CBB_flush_def split: prod.splits)
  have "drop d (chain s) \<noteq> []" using fl by (auto split: if_splits)
  then have d: "d < length (chain s)" by simp
  then have dcs: "d \<le> length cs" by (simp add: s)
  define st where "st = start_of 0 cs d"
  have dr: "drop d (chain s) = chain s ! d # drop d cs"
    using d by (simp add: s(2) flip: Cons_nth_drop_Suc)
  note ok = children_ok_drop [OF cs dcs, folded st_def]
  from cbb_flush_chain_True [OF fl [unfolded dr] b ok]
  have b': "cbb_buffer_ok b'" "ch = [chain s ! d]" "can_resize b' = can_resize b"
    and v': "val b' = take st (val b) @ close_frames (drop d cs) (child_frames st (drop d cs) (val b))"
    and fit: "frames_fit (drop d cs) (child_frames st (drop d cs) (val b))"
    by auto
  have st: "st \<le> length (val b)" using children_ok_length [OF ok] .
  have chain': "chain s' = cbb_top # take d cs"
    using d by (simp add: s' b' take_Suc_conv_app_nth [symmetric] s)
  have base': "base s' = Some b'" by (simp add: s')
  have tk: "take (start_of 0 cs d) (val b') = take (start_of 0 cs d) (val b)"
    using st by (simp add: v' flip: st_def)
  have "cbb_frames s' = take d (child_frames 0 cs (val b)) @ [drop st (val b')]"
    using child_frames_take [OF cs dcs tk] by (simp add: cbb_frames_def chain' base' st_def)
  moreover have "drop st (val b') = close_frames (drop d cs) (drop d (child_frames 0 cs (val b)))"
    using st by (simp add: v' child_frames_drop [OF dcs] flip: st_def)
  moreover have "children_ok 0 (take d cs) (val b')"
    using cs dcs st by (intro children_ok_take) (auto simp: v' st_def)
  ultimately show ?thesis
    using b' d fit chain' dcs
    by (simp add: cbb_ok_def base' s flush_frames_def cbb_frames_def child_frames_drop st_def)
qed


section \<open>Operations\<close>

text \<open>\<open>cbb_adds d x s s'\<close>: \<open>s'\<close> is \<open>s\<close> with everything below depth \<open>d\<close> encoded and \<open>x\<close> appended to
  the frame at depth \<open>d\<close>.\<close>

definition cbb_adds :: "nat \<Rightarrow> bytes \<Rightarrow> CBB \<Rightarrow> CBB \<Rightarrow> bool" where
  "cbb_adds d x s s' \<longleftrightarrow>
     d < length (chain s) \<and> cbb_ok s' \<and> chain s' = take (Suc d) (chain s)
     \<and> cbb_frames s' = append_last (flush_frames d (tl (chain s)) (cbb_frames s)) x
     \<and> can_resize (the (base s')) = can_resize (the (base s))"

lemma length_cbb_frames [simp]: "cbb_ok s \<Longrightarrow> length (cbb_frames s) = length (chain s)"
  by (cases "chain s") (auto simp: cbb_ok_def cbb_frames_def split: option.splits)

lemma flush_frames_leaf:
  "length fs = Suc d \<Longrightarrow> length cs \<le> d \<Longrightarrow> flush_frames d cs fs = fs"
proof -
  assume fs: "length fs = Suc d" and cs: "length cs \<le> d"
  have "drop d fs = [fs ! d]" using fs by (simp add: Cons_nth_drop_Suc [symmetric])
  then show ?thesis
    using fs cs by (simp add: flush_frames_def take_Suc_conv_app_nth [symmetric])
qed

lemma append_last_Nil [simp]: "fs \<noteq> [] \<Longrightarrow> append_last fs [] = fs"
  by (simp add: append_last_def)

lemma append_last_append: "append_last (append_last fs x) y = append_last fs (x @ y)"
  by (simp add: append_last_def)

lemma append_last_snoc [simp]: "append_last (fs @ [f]) x = fs @ [f @ x]"
  by (simp add: append_last_def)

lemma length_append_last [simp]: "fs \<noteq> [] \<Longrightarrow> length (append_last fs x) = length fs"
  by (simp add: append_last_def)

lemma flush_frames_not_Nil [simp]: "flush_frames d cs fs \<noteq> []"
  by (simp add: flush_frames_def)

lemma cbb_adds_length:
  assumes "cbb_adds d x s s1"
  shows "length (cbb_frames s1) = Suc d" and "length (tl (chain s1)) \<le> d"
proof -
  from assms have ok: "cbb_ok s1" and ch: "d < length (chain s)" "chain s1 = take (Suc d) (chain s)"
    by (simp_all add: cbb_adds_def)
  then show "length (cbb_frames s1) = Suc d" "length (tl (chain s1)) \<le> d"
    using length_cbb_frames [OF ok] by simp_all
qed

lemma cbb_adds_leaf:
  "cbb_adds d x s s1 \<Longrightarrow> flush_frames d (tl (chain s1)) (cbb_frames s1) = cbb_frames s1"
  by (intro flush_frames_leaf cbb_adds_length)

lemma cbb_adds_trans:
  assumes "cbb_adds d x s s1" and "cbb_adds d y s1 s2"
  shows "cbb_adds d (x @ y) s s2"
proof -
  note leaf = cbb_adds_leaf [OF assms(1)]
  then show ?thesis
    using assms leaf by (simp add: cbb_adds_def append_last_append min_def)
qed

lemma CBB_flush_adds:
  "cbb_ok s \<Longrightarrow> CBB_flush A d s = (True, s') \<Longrightarrow> cbb_adds d [] s s'"
  using CBB_flush_True [of s A d s'] by (simp add: cbb_adds_def)

lemma cbb_ok_base: "cbb_ok s \<Longrightarrow> \<exists>b. base s = Some b \<and> cbb_buffer_ok b"
  by (auto simp: cbb_ok_def split: option.splits)

lemma cbb_adds_buffer:
  assumes "cbb_ok s" and "base s = Some b" and "cbb_buffer_ok b'" and "val b' = val b @ x"
    and "can_resize b' = can_resize b" and "length (chain s) = Suc d"
  shows "cbb_adds d x s (s\<lparr>base := Some b'\<rparr>)"
proof -
  have "children_ok 0 (tl (chain s)) (val b)"
    using assms(1,2) by (auto simp: cbb_ok_def)
  then show ?thesis
    using assms append_last_frames [of 0 "tl (chain s)" "val b" x]
      children_ok_append [of 0 "tl (chain s)" "val b" x]
    by (simp add: cbb_adds_def cbb_ok_def cbb_frames_def flush_frames_leaf)
qed

lemma cbb_flushed_adds:
  assumes ok: "cbb_ok s" and "cbb_flushed A d op s = (True, s')"
    and op: "\<And>b b'. cbb_buffer_ok b \<Longrightarrow> op b = (True, b') \<Longrightarrow>
      cbb_buffer_ok b' \<and> val b' = val b @ x \<and> can_resize b' = can_resize b"
  shows "cbb_adds d x s s'"
proof -
  from assms(2) obtain s1 b b' where fl: "CBB_flush A d s = (True, s1)" and b: "base s1 = Some b"
    and b': "op b = (True, b')" and s': "s' = s1\<lparr>base := Some b'\<rparr>"
    by (auto simp: cbb_flushed_def split: prod.splits bool.splits option.splits)
  note adds = CBB_flush_adds [OF ok fl]
  then have s1: "cbb_ok s1" "length (chain s1) = Suc d" by (simp_all add: cbb_adds_def)
  then have "cbb_buffer_ok b" using b cbb_ok_base by fastforce
  from op [OF this b'] have "cbb_adds d x s1 s'"
    unfolding s' using s1 b by (intro cbb_adds_buffer) auto
  with adds show ?thesis using cbb_adds_trans [of d "[]" s s1 x s'] by simp
qed

lemma CBB_add_bytes_adds:
  "cbb_ok s \<Longrightarrow> length x \<le> size_max \<Longrightarrow> CBB_add_bytes A d x s = (True, s') \<Longrightarrow> cbb_adds d x s s'"
  unfolding CBB_add_bytes_def
  by (erule cbb_flushed_adds) (auto dest: cbb_buffer_append_True)

lemma cbb_flushed_add_u:
  assumes "cbb_ok s" and "k \<le> 8" and "cbb_flushed A d (\<lambda>b. cbb_buffer_add_u A b v k) s = (True, s')"
  shows "cbb_adds d (be_bytes k (unat v)) s s'"
  using assms(1,3)
proof (rule cbb_flushed_adds)
  fix b b'
  assume "cbb_buffer_ok b" and add: "cbb_buffer_add_u A b v k = (True, b')"
  from cbb_buffer_add_u_True [OF this(1) assms(2) add]
  show "cbb_buffer_ok b' \<and> val b' = val b @ be_bytes k (unat v) \<and> can_resize b' = can_resize b"
    by blast
qed

lemma unat_ucast_u16_u32 [simp]: "unat (ucast (v :: u16) :: u32) = unat v"
  using unsigned_less [of v, where ?'a = nat] by (simp add: unsigned_ucast_eq take_bit_nat_eq_self)

lemma CBB_add_u8_adds:
  "cbb_ok s \<Longrightarrow> CBB_add_u8 A d b s = (True, s') \<Longrightarrow> cbb_adds d [b] s s'"
  using cbb_flushed_add_u [of s 1 A d "ucast b" s'] by (simp add: CBB_add_u8_def)

lemma CBB_add_u16_adds:
  "cbb_ok s \<Longrightarrow> CBB_add_u16 A d v s = (True, s') \<Longrightarrow> cbb_adds d (be_bytes 2 (unat v)) s s'"
  using cbb_flushed_add_u [of s 2 A d "ucast v" s'] by (simp add: CBB_add_u16_def)

lemma CBB_add_u24_adds:
  "cbb_ok s \<Longrightarrow> CBB_add_u24 A d v s = (True, s') \<Longrightarrow> cbb_adds d (be_bytes 3 (unat v)) s s'"
  using cbb_flushed_add_u [of s 3 A d v s'] by (simp add: CBB_add_u24_def)

lemma CBB_add_u32_adds:
  "cbb_ok s \<Longrightarrow> CBB_add_u32 A d v s = (True, s') \<Longrightarrow> cbb_adds d (be_bytes 4 (unat v)) s s'"
  using cbb_flushed_add_u [of s 4 A d v s'] by (simp add: CBB_add_u32_def)

section \<open>Children\<close>

text \<open>\<open>cbb_opens d x k asn1 s s'\<close>: \<open>x\<close> is appended at depth \<open>d\<close> and a child with an empty frame is
  opened below it.\<close>

definition cbb_opens :: "nat \<Rightarrow> bytes \<Rightarrow> nat \<Rightarrow> bool \<Rightarrow> CBB \<Rightarrow> CBB \<Rightarrow> bool" where
  "cbb_opens d x k asn1 s s' \<longleftrightarrow>
     d < length (chain s) \<and> cbb_ok s'
     \<and> (\<exists>c. chain s' = take (Suc d) (chain s) @ [c] \<and> pending_len_len c = k \<and> pending_is_asn1 c = asn1)
     \<and> cbb_frames s' = append_last (flush_frames d (tl (chain s)) (cbb_frames s)) x @ [[]]
     \<and> can_resize (the (base s')) = can_resize (the (base s))"

lemma child_frames_snoc:
  "children_ok st cs v \<Longrightarrow> length v = offset c \<Longrightarrow>
    child_frames st (cs @ [c]) (v @ w) = child_frames st cs v @ [drop (pending_len_len c) w]"
proof (induction st cs v rule: children_ok.induct)
  case (1 st v)
  then show ?case by simp
next
  case (2 st c' cs v)
  then have "child_end c' \<le> offset c"
    using children_ok_length [of "child_end c'" cs v] by simp
  with 2 show ?case by simp
qed

lemma children_ok_snoc:
  "children_ok st cs v \<Longrightarrow> length v = offset c \<Longrightarrow> child_ok c \<Longrightarrow> length w = pending_len_len c \<Longrightarrow>
    children_ok st (cs @ [c]) (v @ w)"
  by (induction st cs v rule: children_ok.induct) auto

lemma cbb_add_child_opens:
  assumes "cbb_ok s" and "length (chain s) = Suc d" and "base s = Some b"
    and "cbb_buffer_ok b'" and "val b' = val b @ w" and "can_resize b' = can_resize b"
    and "length w = k" "0 < k" "k \<le> 3" "asn1 \<longrightarrow> k = 1"
  shows "cbb_opens d [] k asn1 s (cbb_add_child (len b) k asn1 (s\<lparr>base := Some b'\<rparr>))"
proof -
  from assms(1,3) have b: "cbb_buffer_ok b" "children_ok 0 (tl (chain s)) (val b)"
    "chain s \<noteq> []" "hd (chain s) = cbb_top"
    by (auto simp: cbb_ok_def)
  define c where "c = \<lparr>offset = len b, pending_len_len = k, pending_is_asn1 = asn1, is_top_level = False\<rparr>"
  have c: "length (val b) = offset c" "child_ok c" "length w = pending_len_len c"
    using assms b by (simp_all add: c_def child_ok_def)
  note ok = children_ok_snoc [OF b(2) c] and fr = child_frames_snoc [OF b(2) c(1), of w]
  have s': "cbb_add_child (len b) k asn1 (s\<lparr>base := Some b'\<rparr>) = s\<lparr>base := Some b', chain := chain s @ [c]\<rparr>"
    by (simp add: cbb_add_child_def c_def)
  have "flush_frames d (tl (chain s)) (cbb_frames s) = cbb_frames s"
    using assms(1,2) by (intro flush_frames_leaf) simp_all
  then show ?thesis
    unfolding s' cbb_opens_def
    using assms b ok fr c by (simp add: cbb_ok_def cbb_frames_def c_def)
qed

lemma cbb_opens_adds:
  assumes "cbb_adds d x s s1" and "cbb_opens d y k asn1 s1 s2"
  shows "cbb_opens d (x @ y) k asn1 s s2"
proof -
  note leaf = cbb_adds_leaf [OF assms(1)]
  then show ?thesis
    using assms leaf by (auto simp: cbb_adds_def cbb_opens_def append_last_append min_def)
qed

text \<open>The contents of an open child are encoded into its parent by flushing the parent.\<close>

lemma cbb_opens_close:
  assumes ok: "cbb_ok s" and op: "cbb_opens d x k asn1 s s1" and adds: "cbb_adds (Suc d) body s1 s2"
    and fl: "CBB_flush A d s2 = (True, s3)"
  shows "cbb_adds d (x @ (if asn1 then der_len (length body) else be_bytes k (length body)) @ body) s s3
    \<and> (if asn1 then length body \<le> 0xfffffffe else length body < 256 ^ k)"
proof -
  define fs where "fs = append_last (flush_frames d (tl (chain s)) (cbb_frames s)) x"
  from op obtain c where d: "d < length (chain s)" and c: "chain s1 = take (Suc d) (chain s) @ [c]"
    "pending_len_len c = k" "pending_is_asn1 c = asn1" and f1: "cbb_frames s1 = fs @ [[]]"
    and r1: "can_resize (the (base s1)) = can_resize (the (base s))"
    by (auto simp: cbb_opens_def fs_def)
  have ch0: "chain s \<noteq> []" using d by auto
  have lfs: "length fs = Suc d"
    using d ok by (simp add: fs_def flush_frames_def min_def)
  have tl1: "tl (chain s1) = tl (take (Suc d) (chain s)) @ [c]"
    using ch0 by (simp add: c(1))
  have "flush_frames (Suc d) (tl (chain s1)) (fs @ [[]]) = fs @ [[]]"
    using d lfs by (intro flush_frames_leaf) (auto simp: tl1 min_def)
  with adds have f2: "cbb_frames s2 = fs @ [body]" and ok2: "cbb_ok s2" and ch2: "chain s2 = chain s1"
    and r2: "can_resize (the (base s2)) = can_resize (the (base s1))"
    using d by (auto simp: cbb_adds_def f1 c(1) min_def)
  have drop_c: "drop d (tl (chain s2)) = [c]"
  proof -
    have "length (tl (take (Suc d) (chain s))) = d" using d by auto
    then show ?thesis unfolding ch2 tl1 by (rule drop_append_exact)
  qed
  obtain f where f: "drop d fs = [f]" using lfs
    by (metis Cons_nth_drop_Suc drop_all lessI order_refl)
  have fs: "fs = take d fs @ [f]" by (metis f append_take_drop_id)
  note T = CBB_flush_True [OF ok2 fl]
  have "cbb_frames s3 = take d fs @ [f @ child_enc c body]" and "child_fits c body"
    using T d lfs by (auto simp: flush_frames_def drop_c f2 f)
  moreover have "append_last fs y = take d fs @ [f @ y]" for y
    by (subst fs) (simp del: append_take_drop_id)
  moreover have "chain s3 = take (Suc d) (chain s)"
    using T d by (simp add: ch2 c(1) min_def)
  ultimately show ?thesis
    using T d c r1 r2
    by (simp add: cbb_adds_def child_enc_def child_fits_def fs_def append_last_append split: if_splits)
qed

end
