(* ===== verification/Cbb_Typed.thy ===== *)
theory Cbb_Typed
  imports Cbb_Asn1
begin

text \<open>
  What the ASN.1 writers of \<open>Cbb\<close> and \<open>Cbb_Asn1\<close> produce: every successful call appends exactly
  the encoding that \<open>Der\<close> describes, so that the readers of \<open>Cbs\<close> read back the value written.
\<close>

section \<open>Base-128 integers\<close>

lemma base128_len_loop_eq: "base128_len_loop v n = n + length (b128_hi (unat v))"
proof (induction v n rule: base128_len_loop.induct)
  case (1 v n)
  show ?case
  proof (cases "v > 0")
    case True
    then have "0 < unat v" by (simp add: unat_gt_0 word_neq_0_conv)
    then show ?thesis
      using True 1 by (simp add: base128_len_loop.simps [of v] b128_hi_step [of "unat v"] unat_drop_bit_div del: drop_bit_eq_div)
  next
    case False
    then have "v = 0" using word_gt_0 by blast
    then show ?thesis by (simp add: base128_len_loop.simps [of 0 n])
  qed
qed

definition hi_digits :: "nat \<Rightarrow> nat \<Rightarrow> bytes" where
  "hi_digits n v = map (\<lambda>i. of_nat (128 + v div 128 ^ i mod 128)) (rev [0..<n])"

lemma hi_digits_Suc: "hi_digits (Suc n) v = hi_digits n (v div 128) @ [of_nat (128 + v mod 128)]"
proof -
  have "rev [0..<Suc n] = map Suc (rev [0..<n]) @ [0]"
    by (simp add: upt_conv_Cons map_Suc_upt [symmetric] rev_map del: upt_Suc)
  then show ?thesis
    by (simp add: hi_digits_def div_mult2_eq del: upt_Suc)
qed

lemma b128_hi_digits: "b128_hi v = hi_digits (length (b128_hi v)) v"
proof (induction v rule: b128_hi.induct)
  case (1 v)
  then show ?case
    by (cases "v = 0") (simp_all add: hi_digits_Suc b128_hi_step, simp add: hi_digits_def)
qed

lemma or_80_byte: "(b AND 0x7f) OR 0x80 = (of_nat (128 + unat b mod 128) :: u8)"
proof -
  have "unat ((b AND 0x7f) OR 0x80) = 128 + unat (b AND 0x7f)"
    by (rule u8_exhaust [where P = "\<lambda>b. unat ((b AND 0x7f) OR 0x80) = 128 + unat (b AND 0x7f)"]) code_simp
  then show ?thesis
    by (intro u8_eqI) (simp only: unat_of_nat_u8, simp)
qed

lemma and_7f_byte: "b AND 0x7f = (of_nat (unat b mod 128) :: u8)"
  by (intro u8_eqI) (simp add: unat_of_nat_u8)

lemma unat_digit: "unat (ucast (drop_bit (7 * i) (v :: u64)) :: u8) mod 128 = unat v div 128 ^ i mod 128"
proof -
  have "unat (ucast (drop_bit (7 * i) v) :: u8) = unat (drop_bit (7 * i) v) mod 256"
    by (simp add: unsigned_ucast_eq take_bit_eq_mod)
  then show ?thesis
    by (simp add: unat_drop_bit_div mod_mod_cancel power_mult del: drop_bit_eq_div)
qed

lemma base128_write_loop_adds:
  assumes "cbb_ok s" and "d < length (chain s)" and "base128_write_loop A d v (Suc n) s = (True, s')"
  shows "cbb_adds d (hi_digits n (unat v div 128) @ [of_nat (unat v mod 128)]) s s'"
  using assms
proof (induction n arbitrary: s)
  case 0
  then show ?case
    using unat_digit [of 0 v]
    by (auto simp: and_7f_byte hi_digits_def Let_def split: prod.splits bool.splits dest: CBB_add_u8_adds)
next
  case (Suc n)
  define byte :: u8 where "byte = of_nat (128 + unat v div 128 ^ Suc n mod 128)"
  from Suc.prems(3) obtain s1 where s1: "CBB_add_u8 A d byte s = (True, s1)"
    and rest: "base128_write_loop A d v (Suc n) s1 = (True, s')"
    using unat_digit [of "Suc n" v]
    by (subst (asm) base128_write_loop.simps(2))
      (auto simp: or_80_byte byte_def Let_def split: prod.splits bool.splits simp del: base128_write_loop.simps)
  note a1 = CBB_add_u8_adds [OF Suc.prems(1) s1]
  then have "cbb_ok s1" "d < length (chain s1)"
    using Suc.prems(2) by (auto simp: cbb_adds_def)
  from cbb_adds_trans [OF a1 Suc.IH [OF this rest]] show ?case
    by (simp add: hi_digits_def byte_def div_mult2_eq)
qed

lemma add_base128_integer_adds:
  assumes "cbb_ok s" and "add_base128_integer A d v s = (True, s')" and "d < length (chain s)"
  shows "cbb_adds d (der_base128 (unat v)) s s'"
proof -
  define n where "n = length (b128_hi (unat v div 128))"
  have "(if length (b128_hi (unat v)) = 0 then 1 else length (b128_hi (unat v))) = Suc n"
    by (cases "unat v = 0") (simp_all add: n_def b128_hi_step [of "unat v"])
  then have "base128_write_loop A d v (Suc n) s = (True, s')"
    using assms(2) by (simp add: add_base128_integer_def base128_len_loop_eq Let_def split: if_splits)
  from base128_write_loop_adds [OF assms(1) assms(3) this] show ?thesis
    by (simp add: der_base128_def n_def b128_hi_digits [symmetric])
qed

section \<open>Opening an element\<close>

lemma CBB_flush_leaf:
  "length (chain s) = Suc d \<Longrightarrow> CBB_flush A d s = (True, s') \<Longrightarrow> s' = s"
  by (auto simp: CBB_flush_def Cons_nth_drop_Suc [symmetric] take_Suc_conv_app_nth [symmetric]
      split: option.splits if_splits)

lemma CBB_add_u8_leaf:
  assumes "cbb_ok s" and "length (chain s) = Suc d" and "CBB_add_u8 A d v s = (True, s')"
  shows "\<exists>b b'. base s = Some b \<and> s' = s\<lparr>base := Some b'\<rparr> \<and> cbb_buffer_ok b'
    \<and> val b' = val b @ [v] \<and> can_resize b' = can_resize b"
proof -
  from assms(3) obtain s1 b b' where fl: "CBB_flush A d s = (True, s1)" and b: "base s1 = Some b"
    and b': "cbb_buffer_add_u A b (ucast v) 1 = (True, b')" and s': "s' = s1\<lparr>base := Some b'\<rparr>"
    by (auto simp: CBB_add_u8_def cbb_flushed_def split: prod.splits bool.splits option.splits)
  have s1: "s1 = s" by (rule CBB_flush_leaf [OF assms(2) fl])
  have "cbb_buffer_ok b" using b assms(1) cbb_ok_base [of s] by (auto simp: s1)
  from cbb_buffer_add_u_True [OF this _ b'] show ?thesis
    using b s' by (auto simp: s1)
qed

lemma CBB_add_asn1_opens:
  assumes ok: "cbb_ok s" and "CBB_add_asn1 A d t s = (True, s')"
  shows "cbb_opens d (der_tag t) 1 True s s'"
proof -
  from assms(2) obtain s1 s2 s3 b where fl: "CBB_flush A d s = (True, s1)"
    and tag: "(if tag_number t \<ge> 0x1f then
                (case CBB_add_u8 A d (tag_bits t OR 0x1f) s1 of
                   (False, s) \<Rightarrow> (False, s)
                 | (True, s) \<Rightarrow> add_base128_integer A d (ucast (tag_number t)) s)
              else CBB_add_u8 A d (tag_bits t OR ucast (tag_number t)) s1) = (True, s2)"
    and b: "base s2 = Some b" and z: "CBB_add_u8 A d 0 s2 = (True, s3)"
    and s': "s' = cbb_add_child (len b) 1 True s3"
    by (auto simp: CBB_add_asn1_def Let_def tag_bits_def [symmetric] tag_number_def [symmetric]
        split: prod.splits bool.splits option.splits if_splits)
  note a1 = CBB_flush_adds [OF ok fl]
  then have ok1: "cbb_ok s1" and d1: "d < length (chain s1)" by (auto simp: cbb_adds_def)
  have a2: "cbb_adds d (der_tag t) s1 s2"
  proof (cases "tag_number t \<ge> 0x1f")
    case False
    then show ?thesis using tag CBB_add_u8_adds [OF ok1] by (simp add: der_tag_def)
  next
    case True
    then obtain sx where x: "CBB_add_u8 A d (tag_bits t OR 0x1f) s1 = (True, sx)"
      "add_base128_integer A d (ucast (tag_number t)) sx = (True, s2)"
      using tag by (auto split: prod.splits bool.splits)
    note ax = CBB_add_u8_adds [OF ok1 x(1)]
    then have "cbb_ok sx" "d < length (chain sx)" using d1 by (auto simp: cbb_adds_def)
    from cbb_adds_trans [OF ax add_base128_integer_adds [OF this(1) x(2) this(2)]] True
    show ?thesis by (simp add: der_tag_def)
  qed
  note a12 = cbb_adds_trans [OF a1 a2]
  have ok2: "cbb_ok s2" and l2: "length (chain s2) = Suc d"
    using a12 by (auto simp: cbb_adds_def min_def)
  obtain b' where b': "s3 = s2\<lparr>base := Some b'\<rparr>" "cbb_buffer_ok b'" "val b' = val b @ [0]"
    "can_resize b' = can_resize b"
    using CBB_add_u8_leaf [OF ok2 l2 z] b by auto
  have "cbb_opens d [] 1 True s2 s'"
    unfolding s' b'(1) by (rule cbb_add_child_opens [OF ok2 l2 b b'(2-4)]) auto
  from cbb_opens_adds [OF a12 this] show ?thesis by simp
qed

lemma cbb_opens_ok: "cbb_opens d x k asn1 s s' \<Longrightarrow> cbb_ok s' \<and> d < length (chain s) \<and> Suc d < length (chain s')"
  by (auto simp: cbb_opens_def)

text \<open>An element: the identifier, the contents, and the flush that writes the length.\<close>

lemma asn1_element_adds:
  assumes "cbb_ok s" and "CBB_add_asn1 A d t s = (True, s1)" and "cbb_adds (Suc d) body s1 s2"
    and "CBB_flush A d s2 = (True, s3)"
  shows "cbb_adds d (der_element t body) s s3 \<and> length body \<le> 0xfffffffe"
  using cbb_opens_close [OF assms(1) CBB_add_asn1_opens [OF assms(1,2)] assms(3,4)]
  by (simp add: der_element_def)

section \<open>Unsigned integers\<close>

text \<open>The minimal big-endian digits of a number, and the contents octets of its DER INTEGER.\<close>

function be_min :: "nat \<Rightarrow> bytes" where
  "be_min v = (if v = 0 then [] else be_min (v div 256) @ [of_nat v])"
  by pat_completeness auto
termination
  by (relation "measure id") auto

declare be_min.simps [simp del]

lemma be_min_0 [simp]: "be_min 0 = []"
  by (simp add: be_min.simps)

lemma be_min_step: "0 < v \<Longrightarrow> be_min v = be_min (v div 256) @ [of_nat v]"
  by (simp add: be_min.simps [of v])

definition der_uint :: "nat \<Rightarrow> bytes" where
  "der_uint v =
     (if v = 0 then [0] else if unat (hd (be_min v)) \<ge> 128 then 0 # be_min v else be_min v)"

text \<open>The contents that \<open>CBS_get_asn1_uint64\<close> does not reject as negative or as not minimal.\<close>

definition der_uint_ok :: "bytes \<Rightarrow> bool" where
  "der_uint_ok d \<longleftrightarrow> d \<noteq> [] \<and> unat (d ! 0) < 128
     \<and> \<not> (d ! 0 = 0 \<and> length d > 1 \<and> unat (d ! 1) < 128)"

lemma be_val_be_min [simp]: "be_val (be_min v) = v"
proof (induction v rule: be_min.induct)
  case (1 v)
  then show ?case
    by (cases "v = 0") (simp_all add: be_min_step unat_of_nat_u8)
qed

lemma be_min_be_val: "xs = [] \<or> hd xs \<noteq> 0 \<Longrightarrow> be_min (be_val xs) = xs"
proof (induction xs rule: rev_induct)
  case Nil
  show ?case by simp
next
  case (snoc x xs)
  have x: "(of_nat (be_val xs * 256 + unat x) :: u8) = x"
    by (rule u8_eqI) (simp only: unat_of_nat_u8, simp)
  have pos: "0 < be_val (xs @ [x])"
  proof (cases xs)
    case Nil
    then show ?thesis using snoc.prems by (simp add: unat_gt_0)
  next
    case (Cons y ys)
    then show ?thesis using snoc.prems by (simp add: unat_gt_0)
  qed
  have "be_min (be_val xs) = xs"
    using snoc.prems by (intro snoc.IH) (cases xs; simp)
  with pos x show ?case
    by (simp add: be_min_step [of "be_val xs * 256 + unat x"] del: of_nat_add)
qed

lemma be_min_ne: "0 < v \<Longrightarrow> be_min v \<noteq> []"
  by (simp add: be_min_step)

lemma be_min_hd: "0 < v \<Longrightarrow> hd (be_min v) \<noteq> 0"
proof (induction v rule: be_min.induct)
  case (1 v)
  show ?case
  proof (cases "v div 256 = 0")
    case True
    then have "v < 256" by simp
    with 1 have "(of_nat v :: u8) \<noteq> 0"
      by (metis mod_less neq0_conv unat_0 unat_of_nat_u8)
    with 1 True show ?thesis by (simp add: be_min_step [of v])
  next
    case False
    with 1 show ?thesis by (simp add: be_min_step [of v] be_min_ne hd_append)
  qed
qed

lemma be_val_der_uint [simp]: "be_val (der_uint v) = v"
  by (simp add: der_uint_def)

lemma der_uint_ok: "der_uint_ok (der_uint v)"
  using be_min_ne [of v] be_min_hd [of v]
  by (auto simp: der_uint_ok_def der_uint_def hd_conv_nth)

lemma der_uint_be_val:
  assumes "der_uint_ok d"
  shows "der_uint (be_val d) = d"
proof (cases d)
  case Nil
  with assms show ?thesis by (simp add: der_uint_ok_def)
next
  case (Cons x xs)
  show ?thesis
  proof (cases "x = 0")
    case False
    then have "be_min (be_val d) = d" by (intro be_min_be_val) (simp add: Cons)
    moreover have "be_val d \<noteq> 0" using False by (simp add: Cons unat_eq_0)
    ultimately show ?thesis
      using assms False by (auto simp: der_uint_def der_uint_ok_def Cons unat_eq_0)
  next
    case True
    show ?thesis
    proof (cases xs)
      case Nil
      then show ?thesis using True Cons by (simp add: der_uint_def)
    next
      case (Cons y ys)
      with assms True \<open>d = x # xs\<close> have y: "128 \<le> unat y" by (simp add: der_uint_ok_def)
      then have "y \<noteq> 0" by auto
      then have "be_min (be_val xs) = xs" "be_val xs \<noteq> 0"
        using be_min_be_val [of xs] by (simp_all add: Cons unat_eq_0)
      then show ?thesis
        using True \<open>d = x # xs\<close> y by (simp add: der_uint_def Cons)
    qed
  qed
qed

lemma shl8_or:
  fixes v :: u64 and b :: u8
  assumes "drop_bit 56 v = 0"
  shows "unat (push_bit 8 v OR ucast b) = unat v * 256 + unat b"
proof -
  have less: "unat v < 2 ^ 56"
    using assms by (simp only: drop_bit_eq_0_iff_less)
  then have "unat v * 256 + unat b < 2 ^ 64"
    using u8_less [of b] by (simp del: u8_less unsigned_less)
  then show ?thesis
    by (simp add: or_eq_plus_shift8 unat_word_ariths)
qed

lemma asn1_uint64_loop_iff:
  "asn1_uint64_loop out d = Some r \<longleftrightarrow> unat r = unat out * 256 ^ length d + be_val d"
proof (induction d arbitrary: out)
  case Nil
  then show ?case by (auto simp: word_unat_eq_iff)
next
  case (Cons b d)
  show ?case
  proof (cases "drop_bit 56 out = 0")
    case True
    then show ?thesis by (simp add: Cons shl8_or algebra_simps)
  next
    case False
    then have "2 ^ 56 \<le> unat out" by (simp only: drop_bit_eq_0_iff_less not_less)
    then have "2 ^ 56 * 256 * 1 \<le> unat out * 256 * 256 ^ length d"
      by (intro mult_mono) auto
    moreover have "unat r < 2 ^ 64" using unsigned_less [of r, where ?'a = nat] by simp
    ultimately have "unat r \<noteq> unat out * 256 ^ length (b # d) + be_val (b # d)"
      by (simp del: unsigned_less)
    with False show ?thesis by simp
  qed
qed

lemma CBS_get_asn1_uint64_eq:
  "CBS_get_asn1_uint64 cbs =
     (case CBS_get_asn1 CBS_ASN1_INTEGER cbs of
        (None, c) \<Rightarrow> (None, c)
      | (Some d, c) \<Rightarrow> (if der_uint_ok d then asn1_uint64_loop 0 d else None, c))"
  by (auto simp: CBS_get_asn1_uint64_def der_uint_ok_def u8_cases_high split: option.splits prod.splits)

lemma be_min_length: "v < 256 ^ k \<Longrightarrow> length (be_min v) \<le> k"
proof (induction v arbitrary: k rule: be_min.induct)
  case (1 v)
  show ?case
  proof (cases "v = 0")
    case False
    with 1 obtain j where k: "k = Suc j" by (cases k) auto
    with 1 False show ?thesis by (simp add: be_min_step less_mult_imp_div_less mult.commute)
  qed simp
qed

lemma der_uint_length: "v < 2 ^ 64 \<Longrightarrow> length (der_uint v) \<le> 9"
  using be_min_length [of v 8] by (simp add: der_uint_def)

text \<open>The reader accepts exactly the encodings of the values of a \<open>uint64_t\<close>.\<close>

lemma CBS_get_asn1_uint64_iff:
  "CBS_get_asn1_uint64 cbs = (Some v, c) \<longleftrightarrow>
     cbs = der_element CBS_ASN1_INTEGER (der_uint (unat v)) @ c"
proof
  assume "CBS_get_asn1_uint64 cbs = (Some v, c)"
  then obtain d where "CBS_get_asn1 CBS_ASN1_INTEGER cbs = (Some d, c)" "der_uint_ok d"
    "asn1_uint64_loop 0 d = Some v"
    by (auto simp: CBS_get_asn1_uint64_eq split: option.splits prod.splits if_splits)
  then show "cbs = der_element CBS_ASN1_INTEGER (der_uint (unat v)) @ c"
    by (simp add: CBS_get_asn1_iff asn1_uint64_loop_iff der_uint_be_val)
next
  assume *: "cbs = der_element CBS_ASN1_INTEGER (der_uint (unat v)) @ c"
  have "unat v < 2 ^ 64" using unsigned_less [of v, where ?'a = nat] by simp
  then have "length (der_uint (unat v)) < 2 ^ 32" using der_uint_length by fastforce
  with * have "CBS_get_asn1 CBS_ASN1_INTEGER cbs = (Some (der_uint (unat v)), c)"
    by (simp add: CBS_get_asn1_iff)
  moreover have "asn1_uint64_loop 0 (der_uint (unat v)) = Some v"
    by (simp add: asn1_uint64_loop_iff)
  ultimately show "CBS_get_asn1_uint64 cbs = (Some v, c)"
    by (simp add: CBS_get_asn1_uint64_eq der_uint_ok)
qed

text \<open>The writer.\<close>

lemma be_bytes_Suc_front: "be_bytes (Suc n) v = of_nat (v div 256 ^ n) # be_bytes n v"
proof (induction n arbitrary: v)
  case (Suc n)
  have "be_bytes (Suc (Suc n)) v = be_bytes (Suc n) (v div 256) @ [of_nat v]"
    by simp
  also have "\<dots> = of_nat (v div 256 ^ Suc n) # be_bytes n (v div 256) @ [of_nat v]"
    by (subst Suc.IH) (simp add: div_mult2_eq)
  finally show ?case by simp
qed simp

lemma be_min_be_bytes: "256 ^ n \<le> v \<Longrightarrow> v < 256 ^ Suc n \<Longrightarrow> be_min v = be_bytes (Suc n) v"
proof (induction n arbitrary: v)
  case 0
  then show ?case by (simp add: be_min_step)
next
  case (Suc n)
  then have "be_min (v div 256) = be_bytes (Suc n) (v div 256)"
    by (intro Suc.IH) (auto simp: less_mult_imp_div_less mult.commute div_le_mono
        less_eq_div_iff_mult_less_eq)
  moreover have "0 < v" using Suc.prems(1) by (cases v) auto
  ultimately show ?case by (simp add: be_min_step)
qed

lemma uint64_byte: "ucast (drop_bit (8 * n) (v :: u64) AND 0xff) = (of_nat (unat v div 256 ^ n) :: u8)"
proof -
  have ff: "(0xff :: u64) = mask 8" by (simp add: mask_eq_exp_minus_1)
  have "(ucast (drop_bit (8 * n) v AND 0xff) :: u8) = ucast (drop_bit (8 * n) v)"
    unfolding ff by (rule bit_word_eqI) (auto simp: bit_simps)
  also have "\<dots> = of_nat (unat (drop_bit (8 * n) v))"
    by simp
  finally show ?thesis
    by (simp add: unat_drop_bit_div power_mult del: drop_bit_eq_div)
qed

lemma asn1_uint64_write_started:
  assumes "cbb_ok s" and "d < length (chain s)"
    and "asn1_uint64_write A d v n True s = (True, st, s')"
  shows "cbb_adds d (be_bytes n (unat v)) s s' \<and> st \<or> n = 0 \<and> s' = s \<and> st"
  using assms
proof (induction n arbitrary: s)
  case (Suc n)
  define byte :: u8 where "byte = of_nat (unat v div 256 ^ n)"
  from Suc.prems(3) obtain s1 where s1: "CBB_add_u8 A d byte s = (True, s1)"
    and rest: "asn1_uint64_write A d v n True s1 = (True, st, s')"
    by (auto simp: Let_def uint64_byte byte_def split: prod.splits bool.splits)
  note a1 = CBB_add_u8_adds [OF Suc.prems(1) s1]
  then have "cbb_ok s1" "d < length (chain s1)"
    using Suc.prems(2) by (auto simp: cbb_adds_def)
  from Suc.IH [OF this rest] cbb_adds_trans [OF a1, of "be_bytes n (unat v)" s'] a1 show ?case
    by (auto simp: be_bytes_Suc_front byte_def simp del: be_bytes.simps(2))
qed simp

lemma asn1_uint64_write_adds:
  assumes "cbb_ok s" and "d < length (chain s)"
    and "asn1_uint64_write A d v n False s = (True, st, s')" and "unat v < 256 ^ n"
  shows "if v = 0 then s' = s \<and> \<not> st else cbb_adds d (der_uint (unat v)) s s' \<and> st"
  using assms
proof (induction n arbitrary: s)
  case 0
  then show ?case by (simp add: unat_eq_0)
next
  case (Suc n)
  define byte :: u8 where "byte = of_nat (unat v div 256 ^ n)"
  have small: "unat v div 256 ^ n < 256"
    using Suc.prems(4) by (simp add: less_mult_imp_div_less)
  then have byte: "unat byte = unat v div 256 ^ n"
    by (simp add: byte_def unat_of_nat_u8)
  show ?case
  proof (cases "byte = 0")
    case True
    then have "unat v div 256 ^ n = 0" using byte by simp
    then have "unat v < 256 ^ n" by (simp add: div_eq_0_iff)
    moreover from True Suc.prems(3) have "asn1_uint64_write A d v n False s = (True, st, s')"
      by (simp add: Let_def uint64_byte byte_def)
    ultimately show ?thesis using Suc.IH [OF Suc.prems(1,2)] by simp
  next
    case False
    then have nz: "v \<noteq> 0" and ge: "256 ^ n \<le> unat v"
      using byte by (auto simp: unat_eq_0 byte_def intro: ccontr)
    note min = be_min_be_bytes [OF ge Suc.prems(4)]
    then have hd_min: "hd (be_min (unat v)) = byte" "be_min (unat v) = byte # be_bytes n (unat v)"
      by (simp_all add: be_bytes_Suc_front byte_def del: be_bytes.simps(2))
    from Suc.prems(3) False obtain s1 s2 where
      s1: "(if byte AND 0x80 \<noteq> 0 then CBB_add_u8 A d 0 s else (True, s)) = (True, s1)"
      and s2: "CBB_add_u8 A d byte s1 = (True, s2)"
      and rest: "asn1_uint64_write A d v n True s2 = (True, st, s')"
      by (auto simp: Let_def uint64_byte byte_def split: prod.splits bool.splits if_splits)
    have ok1: "cbb_ok s1" "d < length (chain s1)"
      using s1 Suc.prems(1,2) CBB_add_u8_adds [OF Suc.prems(1), of A d 0 s1]
      by (auto simp: cbb_adds_def split: if_splits)
    note a2 = CBB_add_u8_adds [OF ok1(1) s2]
    then have "cbb_ok s2" "d < length (chain s2)" using ok1 by (auto simp: cbb_adds_def)
    from asn1_uint64_write_started [OF this rest]
    have st: "st" and a3: "cbb_adds d (be_min (unat v)) s1 s'"
      using cbb_adds_trans [OF a2, of "be_bytes n (unat v)" s'] a2 by (auto simp: hd_min(2))
    show ?thesis
    proof (cases "byte AND 0x80 = 0")
      case True
      then show ?thesis using nz st a3 s1 by (simp add: der_uint_def hd_min(1) u8_cases_high unat_eq_0)
    next
      case hi: False
      then have "cbb_adds d [0] s s1" using s1 CBB_add_u8_adds [OF Suc.prems(1)] by simp
      from cbb_adds_trans [OF this a3] show ?thesis
        using hi nz st by (simp add: der_uint_def hd_min(1) u8_cases_high unat_eq_0)
    qed
  qed
qed

lemma CBB_add_asn1_uint64_adds:
  assumes ok: "cbb_ok s" and "CBB_add_asn1_uint64 A d v s = (True, s')"
  shows "cbb_adds d (der_element CBS_ASN1_INTEGER (der_uint (unat v))) s s'"
proof -
  from assms(2) obtain s1 s2 st s3 where s1: "CBB_add_asn1 A d CBS_ASN1_INTEGER s = (True, s1)"
    and w: "asn1_uint64_write A (Suc d) v 8 False s1 = (True, st, s2)"
    and z: "(if \<not> st then CBB_add_u8 A (Suc d) 0 s2 else (True, s2)) = (True, s3)"
    and fl: "CBB_flush A d s3 = (True, s')"
    by (auto simp: CBB_add_asn1_uint64_def split: prod.splits bool.splits)
  have ok1: "cbb_ok s1" "Suc d < length (chain s1)"
    using cbb_opens_ok [OF CBB_add_asn1_opens [OF ok s1]] by auto
  have "unat v < 256 ^ 8" using unsigned_less [of v, where ?'a = nat] by simp
  from asn1_uint64_write_adds [OF ok1 w this] have "cbb_adds (Suc d) (der_uint (unat v)) s1 s3"
    using z CBB_add_u8_adds [OF ok1(1), of A "Suc d" 0 s3]
    by (cases "v = 0") (auto simp: der_uint_def)
  from asn1_element_adds [OF ok s1 this fl] show ?thesis by simp
qed

lemma CBB_add_asn1_octet_string_adds:
  assumes ok: "cbb_ok s" and "length x \<le> size_max" and "CBB_add_asn1_octet_string A d x s = (True, s')"
  shows "cbb_adds d (der_element CBS_ASN1_OCTETSTRING x) s s' \<and> length x < 2 ^ 32"
proof -
  from assms(3) obtain s1 s2 where s1: "CBB_add_asn1 A d CBS_ASN1_OCTETSTRING s = (True, s1)"
    and w: "CBB_add_bytes A (Suc d) x s1 = (True, s2)" and fl: "CBB_flush A d s2 = (True, s')"
    by (auto simp: CBB_add_asn1_octet_string_def split: prod.splits bool.splits)
  have "cbb_ok s1"
    using cbb_opens_ok [OF CBB_add_asn1_opens [OF ok s1]] by auto
  from asn1_element_adds [OF ok s1 CBB_add_bytes_adds [OF this assms(2) w] fl] show ?thesis
    by simp
qed

lemma CBB_add_asn1_bool_adds:
  assumes ok: "cbb_ok s" and "CBB_add_asn1_bool A d v s = (True, s')"
  shows "cbb_adds d (der_element CBS_ASN1_BOOLEAN [if v \<noteq> 0 then 0xff else 0]) s s'"
proof -
  from assms(2) obtain s1 s2 where s1: "CBB_add_asn1 A d CBS_ASN1_BOOLEAN s = (True, s1)"
    and w: "CBB_add_u8 A (Suc d) (if v \<noteq> 0 then 0xff else 0) s1 = (True, s2)"
    and fl: "CBB_flush A d s2 = (True, s')"
    by (auto simp: CBB_add_asn1_bool_def split: prod.splits bool.splits)
  have "cbb_ok s1"
    using cbb_opens_ok [OF CBB_add_asn1_opens [OF ok s1]] by auto
  from asn1_element_adds [OF ok s1 CBB_add_u8_adds [OF this w] fl] show ?thesis
    by simp
qed

lemma CBS_get_asn1_bool_iff:
  "CBS_get_asn1_bool cbs = (Some v, c) \<longleftrightarrow>
     (v = 0 \<or> v = 1) \<and> cbs = der_element CBS_ASN1_BOOLEAN [if v \<noteq> 0 then 0xff else 0] @ c"
  (is "?l = ?r")
proof
  assume ?l
  then obtain d where d: "CBS_get_asn1 CBS_ASN1_BOOLEAN cbs = (Some d, c)" "length d = 1"
    "d ! 0 = 0 \<or> d ! 0 = 0xff" "v = (if d ! 0 \<noteq> 0 then 1 else 0)"
    by (auto simp: CBS_get_asn1_bool_def split: option.splits prod.splits if_splits)
  then have "d = [d ! 0]" by (cases d) auto
  with d show ?r by (auto simp: CBS_get_asn1_iff)
next
  assume ?r
  then have "CBS_get_asn1 CBS_ASN1_BOOLEAN cbs = (Some [if v \<noteq> 0 then 0xff else 0], c)" "v = 0 \<or> v = 1"
    by (simp_all add: CBS_get_asn1_iff)
  then show ?l by (auto simp: CBS_get_asn1_bool_def)
qed

end
