(* ===== verification/Ber.thy ===== *)
theory Ber
  imports Cbb_Typed
begin

text \<open>
  Conversion of BER to DER (\<open>crypto/bytestring/ber.c\<close>): the search for indefinite lengths and
  constructed strings, the conversion that writes definite lengths and joins the fragments of
  constructed strings, and the theorem that what the conversion writes contains neither.
\<close>

abbreviation (input) kMaxDepth :: nat where "kMaxDepth \<equiv> 2048"

definition is_string_type :: "u32 \<Rightarrow> bool" where
  "is_string_type tag =
     List.member [0x3, 0x4, 0xc, 0x12, 0x13, 0x14, 0x15, 0x16, 0x19, 0x1a, 0x1b, 0x1c, 0x1e]
       (tag AND NOT CBS_ASN1_CONSTRUCTED)"

text \<open>The test of both functions for the header of an element of indefinite length.\<close>

definition is_indefinite :: "nat \<Rightarrow> CBS \<Rightarrow> bool" where
  "is_indefinite header_len contents \<longleftrightarrow>
     length contents = header_len \<and> header_len > 0 \<and> contents ! (header_len - 1) = 0x80"

lemma cbs_get_any_asn1_element_shorter:
  assumes "cbs_get_any_asn1_element ber cbs = (Some (out, tag, hl), c)"
  shows "length c < length cbs \<and> length out + length c = length cbs \<and> 0 < hl"
proof -
  have tag: "length h < length cbs" if "parse_asn1_tag cbs = (Some t, h)" for t h
    using parse_asn1_tag_sound [OF that] by simp
  have u8: "length h = Suc (length h')" if "CBS_get_u8 h = (Some b, h')" for b and h h' :: bytes
    using that by (cases h) (auto simp: CBS_get_u8_def cbs_get_def split: if_splits)
  from assms obtain t h where t: "parse_asn1_tag cbs = (Some t, h)"
    by (cases "parse_asn1_tag cbs"; cases "fst (parse_asn1_tag cbs)")
      (auto simp: cbs_get_any_asn1_element_def)
  with assms obtain lb h' where lb: "CBS_get_u8 h = (Some lb, h')"
    by (cases "CBS_get_u8 h"; cases "fst (CBS_get_u8 h)")
      (auto simp: cbs_get_any_asn1_element_def)
  define k where "k = length cbs - length h'"
  have k: "0 < k" using tag [OF t] u8 [OF lb] by (simp add: k_def)
  note def = assms [unfolded cbs_get_any_asn1_element_def Let_def t lb prod.case option.case, folded k_def]
  have fin: "0 < n \<Longrightarrow> 0 < m \<Longrightarrow> (case CBS_get_bytes n cbs of (None, c) \<Rightarrow> (None, c)
      | (Some out, c) \<Rightarrow> (Some (out, tg, m), c)) = (Some (out, tag, hl), c) \<Longrightarrow>
      length c < length cbs \<and> length out + length c = length cbs \<and> 0 < hl" for n m tg
    by (auto simp: CBS_get_bytes_eq split: if_splits)
  show ?thesis
  proof (cases "lb AND 0x80 = 0")
    case True
    with def k show ?thesis by (intro fin [of "unat lb + k" k t]) simp_all
  next
    case False
    show ?thesis
    proof (cases "ber \<and> t AND CBS_ASN1_CONSTRUCTED \<noteq> 0 \<and> unat (lb AND 0x7f) = 0")
      case True
      with def False k show ?thesis by (intro fin [of k k t]) simp_all
    next
      case nb: False
      with def False obtain len32 r where l: "cbs_get_u (unat (lb AND 0x7f)) h' = (Some len32, r)"
        by (cases "cbs_get_u (unat (lb AND 0x7f)) h'"; cases "fst (cbs_get_u (unat (lb AND 0x7f)) h')")
          (auto split: if_splits)
      define n where "n = size_add (unat len32) (k + unat (lb AND 0x7f))"
      from def False nb have "\<not> len32 < 128" "\<not> n < unat len32"
        "(case CBS_get_bytes n cbs of (None, c) \<Rightarrow> (None, c)
          | (Some out, c) \<Rightarrow> (Some (out, t, k + unat (lb AND 0x7f)), c)) = (Some (out, tag, hl), c)"
        unfolding l prod.case option.case n_def [symmetric] by (simp_all split: if_splits)
      moreover from this(1) have "128 \<le> unat len32" by (simp add: word_less_nat_alt)
      ultimately show ?thesis using k by (intro fin [of n "k + unat (lb AND 0x7f)" t]) simp_all
    qed
  qed
qed

section \<open>Looking for BER\<close>

text \<open>The loop of \<open>cbs_find_ber\<close> over \<open>inp\<close>, with the value of \<open>*ber_found\<close>; the recursive call of
  the code starts with \<open>*ber_found = 0\<close> and fails beyond \<open>kMaxDepth\<close>.\<close>

function find_ber_loop :: "nat \<Rightarrow> CBS \<Rightarrow> bool \<Rightarrow> bool \<times> bool" where
  "find_ber_loop depth inp ber_found =
     (if length inp > 0 then
        (case CBS_get_any_ber_asn1_element inp of
           (None, _) \<Rightarrow> (False, ber_found)
         | (Some (contents, tag, header_len), inp) \<Rightarrow>
             if is_indefinite header_len contents then (True, True)
             else if tag AND CBS_ASN1_CONSTRUCTED \<noteq> 0 then
               if is_string_type tag then (True, True)
               else
                 (case CBS_skip header_len contents of
                    (None, _) \<Rightarrow> (False, ber_found)
                  | (Some _, contents) \<Rightarrow>
                      if depth + 1 > kMaxDepth then (False, ber_found)
                      else (case find_ber_loop (depth + 1) contents False of
                              (False, ber_found) \<Rightarrow> (False, ber_found)
                            | (True, ber_found) \<Rightarrow> find_ber_loop depth inp ber_found))
             else find_ber_loop depth inp ber_found)
      else (True, ber_found))"
  by pat_completeness auto
termination
proof (relation "measure (\<lambda>(_, inp, _). length inp)", goal_cases)
  case (2 depth inp ber_found x c r contents y tag hl w contents')
  then have "cbs_get_any_asn1_element True inp = (Some (contents, tag, hl), c)"
    by (simp add: CBS_get_any_ber_asn1_element_def)
  note s = cbs_get_any_asn1_element_shorter [OF this]
  from 2 have "length contents' \<le> length contents - hl" by (auto simp: CBS_skip_eq split: if_splits)
  with s have "length contents' < length inp" by linarith
  then show ?case by simp
next
  case (3 depth inp ber_found)
  then show ?case
    by (auto simp: CBS_get_any_ber_asn1_element_def dest!: cbs_get_any_asn1_element_shorter [OF sym])
next
  case (4 depth inp ber_found)
  then show ?case
    by (auto simp: CBS_get_any_ber_asn1_element_def dest!: cbs_get_any_asn1_element_shorter [OF sym])
qed simp

declare find_ber_loop.simps [simp del]

definition cbs_find_ber :: "CBS \<Rightarrow> nat \<Rightarrow> bool \<times> bool" where
  "cbs_find_ber orig_in depth =
     (if depth > kMaxDepth then (False, False) else find_ber_loop depth orig_in False)"

section \<open>Conversion\<close>

definition is_eoc :: "nat \<Rightarrow> CBS \<Rightarrow> bool" where
  "is_eoc header_len contents \<longleftrightarrow>
     header_len = 2 \<and> length contents = 2 \<and> OPENSSL_memcmp contents [0, 0] = 0"

text \<open>The choice of \<open>out_contents\<close>: the depth of the \<open>CBB\<close> that takes the contents of the element,
  and \<open>child_string_tag\<close>.\<close>

definition ber_open :: "alloc \<Rightarrow> u32 \<Rightarrow> u32 \<Rightarrow> nat \<Rightarrow> CBB \<Rightarrow> (nat \<times> u32) option \<times> CBB" where
  "ber_open A string_tag tag d out =
     (if string_tag \<noteq> 0 then
        (if tag AND NOT CBS_ASN1_CONSTRUCTED \<noteq> string_tag then (None, out) else (Some (d, string_tag), out))
      else
        (let (out_tag, child_string_tag) =
           (if tag AND CBS_ASN1_CONSTRUCTED \<noteq> 0 \<and> is_string_type tag
            then (tag AND NOT CBS_ASN1_CONSTRUCTED, tag AND NOT CBS_ASN1_CONSTRUCTED)
            else (tag, string_tag))
         in case CBB_add_asn1 A d out_tag out of
              (False, out) \<Rightarrow> (None, out)
            | (True, out) \<Rightarrow> (Some (d + 1, child_string_tag), out)))"

text \<open>\<open>cbs_convert_ber\<close> writing to the \<open>CBB\<close> at depth \<open>d\<close>: the result, \<open>*in\<close> and the builder. One
  unfolding is one iteration of the loop.\<close>

function cbs_convert_ber ::
    "alloc \<Rightarrow> u32 \<Rightarrow> bool \<Rightarrow> nat \<Rightarrow> CBS \<Rightarrow> nat \<Rightarrow> CBB \<Rightarrow> bool \<times> CBS \<times> CBB" where
  "cbs_convert_ber A string_tag looking_for_eoc depth inp d out =
     (if depth > kMaxDepth then (False, inp, out)
      else if length inp > 0 then
        (case CBS_get_any_ber_asn1_element inp of
           (None, inp) \<Rightarrow> (False, inp, out)
         | (Some (contents, tag, header_len), inp) \<Rightarrow>
             if is_eoc header_len contents then (looking_for_eoc, inp, out)
             else
               (case ber_open A string_tag tag d out of
                  (None, out) \<Rightarrow> (False, inp, out)
                | (Some (d', child_string_tag), out) \<Rightarrow>
                    if is_indefinite header_len contents then
                      (case cbs_convert_ber A child_string_tag True (depth + 1) inp d' out of
                         (False, inp, out) \<Rightarrow> (False, inp, out)
                       | (True, inp, out) \<Rightarrow>
                           (case CBB_flush A d out of
                              (False, out) \<Rightarrow> (False, inp, out)
                            | (True, out) \<Rightarrow> cbs_convert_ber A string_tag looking_for_eoc depth inp d out))
                    else
                      (case CBS_skip header_len contents of
                         (None, _) \<Rightarrow> (False, inp, out)
                       | (Some _, contents) \<Rightarrow>
                           (case (if tag AND CBS_ASN1_CONSTRUCTED \<noteq> 0 then
                                    (case cbs_convert_ber A child_string_tag False (depth + 1) contents d' out of
                                       (r, _, out) \<Rightarrow> (r, out))
                                  else CBB_add_bytes A d' contents out) of
                              (False, out) \<Rightarrow> (False, inp, out)
                            | (True, out) \<Rightarrow>
                                (case CBB_flush A d out of
                                   (False, out) \<Rightarrow> (False, inp, out)
                                 | (True, out) \<Rightarrow>
                                     cbs_convert_ber A string_tag looking_for_eoc depth inp d out)))))
      else (\<not> looking_for_eoc, inp, out))"
  by pat_completeness auto

lemma cbs_convert_ber_shorter:
  assumes "cbs_convert_ber_dom (A, st, eoc, depth, inp, d, out)"
    and "cbs_convert_ber A st eoc depth inp d out = (True, inp', out')"
  shows "length inp' \<le> length inp"
  using assms
proof (induction arbitrary: inp' out' rule: cbs_convert_ber.pinduct)
  case (1 A st eoc depth inp d out)
  note step = "1.prems" [unfolded cbs_convert_ber.psimps [OF "1.hyps"]]
  show ?case
  proof (cases "depth > kMaxDepth \<or> inp = []")
    case True
    with step show ?thesis by (auto split: if_splits)
  next
    case False
    then have ok: "\<not> depth > kMaxDepth" "length inp > 0" by auto
    from step ok obtain contents tag hl c where
      el: "CBS_get_any_ber_asn1_element inp = (Some (contents, tag, hl), c)"
      by (auto split: option.splits prod.splits)
    then have c: "length c < length inp"
      using cbs_get_any_asn1_element_shorter [of True inp] by (auto simp: CBS_get_any_ber_asn1_element_def)
    show ?thesis
    proof (cases "is_eoc hl contents")
      case True
      with step ok el c show ?thesis by simp
    next
      case neoc: False
      with step ok el obtain d' ct out1 where op: "ber_open A st tag d out = (Some (d', ct), out1)"
        by (auto split: option.splits prod.splits)
      show ?thesis
      proof (cases "is_indefinite hl contents")
        case True
        with step ok el neoc op obtain i2 o2 o3 where
          r1: "cbs_convert_ber A ct True (depth + 1) c d' out1 = (True, i2, o2)"
          and fl: "CBB_flush A d o2 = (True, o3)"
          and r2: "cbs_convert_ber A st eoc depth i2 d o3 = (True, inp', out')"
          by (auto split: prod.splits bool.splits)
        have "length i2 \<le> length c"
          by (rule "1.IH"(1) [OF ok el [symmetric] refl refl refl neoc op [symmetric] refl refl True r1])
        moreover have "length inp' \<le> length i2"
          by (rule "1.IH"(2) [OF ok el [symmetric] refl refl refl neoc op [symmetric] refl refl True
                r1 [symmetric] _ refl fl [symmetric] _ r2]) simp_all
        ultimately show ?thesis using c by simp
      next
        case False
        with step ok el neoc op obtain body o2 o3 where
          sk: "CBS_skip hl contents = (Some (), body)"
          and r1: "(if tag AND CBS_ASN1_CONSTRUCTED \<noteq> 0 then
              (case cbs_convert_ber A ct False (depth + 1) body d' out1 of (r, _, out) \<Rightarrow> (r, out))
            else CBB_add_bytes A d' body out1) = (True, o2)"
          and fl: "CBB_flush A d o2 = (True, o3)"
          and r2: "cbs_convert_ber A st eoc depth c d o3 = (True, inp', out')"
          by (auto split: prod.splits bool.splits option.splits)
        have "length inp' \<le> length c"
          by (rule "1.IH"(4) [OF ok el [symmetric] refl refl refl neoc op [symmetric] refl refl False
                sk [symmetric] refl r1 [symmetric] _ fl [symmetric] _ r2]) simp_all
        with c show ?thesis by simp
      qed
    qed
  qed
qed

termination cbs_convert_ber
proof (relation "inv_image (less_than <*lex*> less_than)
    (\<lambda>(A, st, eoc, depth, inp, d, out). (Suc kMaxDepth - depth, length inp))", goal_cases)
  case 1
  show ?case by auto
next
  case (2 A st eoc depth inp d out)
  then have "kMaxDepth - depth < Suc kMaxDepth - depth" by linarith
  then show ?case by simp
next
  case (3 A st eoc depth inp d out x c r contents y tag hl w out1 z d' ct u r1 i2 o2 fl)
  then have "length c < length inp"
    by (auto simp: CBS_get_any_ber_asn1_element_def dest!: cbs_get_any_asn1_element_shorter [OF sym])
  moreover have "length i2 \<le> length c"
    using 3 by (intro cbs_convert_ber_shorter [where A = A and st = ct and eoc = True and depth = "depth + 1"
          and d = d' and out = out1 and out' = o2]) auto
  ultimately show ?case by simp
next
  case (4 A st eoc depth inp d out)
  then have "kMaxDepth - depth < Suc kMaxDepth - depth" by linarith
  then show ?case by simp
next
  case (5 A st eoc depth inp d out)
  then show ?case
    by (auto simp: CBS_get_any_ber_asn1_element_def dest!: cbs_get_any_asn1_element_shorter [OF sym])
qed

declare cbs_convert_ber.simps [simp del]

text \<open>\<open>CBS_asn1_ber_to_der\<close>: the result with \<open>*out\<close> (\<open>None\<close> for a null pointer, where no conversion
  is needed) and \<open>*in\<close>.\<close>

definition CBS_asn1_ber_to_der :: "alloc \<Rightarrow> bytes option reader" where
  "CBS_asn1_ber_to_der A inp =
     (case cbs_find_ber inp 0 of
        (False, _) \<Rightarrow> (None, inp)
      | (True, False) \<Rightarrow> (Some None, inp)
      | (True, True) \<Rightarrow>
          (case CBB_init A (length inp) of
             (False, _) \<Rightarrow> (None, inp)
           | (True, cbb) \<Rightarrow>
               (case cbs_convert_ber A 0 False 0 inp 0 cbb of
                  (False, inp, _) \<Rightarrow> (None, inp)
                | (True, inp, cbb) \<Rightarrow>
                    (case CBB_finish A 0 True cbb of
                       (None, _) \<Rightarrow> (None, inp)
                     | (Some out, _) \<Rightarrow> (Some (Some out), inp)))))"

text \<open>The loop of \<open>CBS_get_asn1_implicit_string\<close> over the fragments.\<close>

function implicit_string_loop :: "alloc \<Rightarrow> u32 \<Rightarrow> CBS \<Rightarrow> CBB \<Rightarrow> bool \<times> CBB" where
  "implicit_string_loop A inner_tag child cbb =
     (if length child > 0 then
        (case CBS_get_asn1 inner_tag child of
           (None, _) \<Rightarrow> (False, cbb)
         | (Some chunk, child) \<Rightarrow>
             (case CBB_add_bytes A 0 chunk cbb of
                (False, cbb) \<Rightarrow> (False, cbb)
              | (True, cbb) \<Rightarrow> implicit_string_loop A inner_tag child cbb))
      else (True, cbb))"
  by pat_completeness auto
termination
  by (relation "measure (\<lambda>(_, _, child, _). length child)")
    (auto simp: CBS_get_asn1_iff der_element_def dest!: sym [where s = "(Some _, _)"])

declare implicit_string_loop.simps [simp del]

definition CBS_get_asn1_implicit_string :: "alloc \<Rightarrow> u32 \<Rightarrow> u32 \<Rightarrow> CBS reader" where
  "CBS_get_asn1_implicit_string A outer_tag inner_tag inp =
     (if CBS_peek_asn1_tag inp outer_tag then CBS_get_asn1 outer_tag inp
      else
        (case CBB_init A (length inp) of
           (False, _) \<Rightarrow> (None, inp)
         | (True, result) \<Rightarrow>
             (case CBS_get_asn1 (outer_tag OR CBS_ASN1_CONSTRUCTED) inp of
                (None, inp) \<Rightarrow> (None, inp)
              | (Some child, inp) \<Rightarrow>
                  (case implicit_string_loop A inner_tag child result of
                     (False, _) \<Rightarrow> (None, inp)
                   | (True, result) \<Rightarrow>
                       (case CBB_finish A 0 True result of
                          (None, _) \<Rightarrow> (None, inp)
                        | (Some d, _) \<Rightarrow> (Some d, inp))))))"

end
