(* ===== verification/Cbb_SetOf.thy ===== *)
theory Cbb_SetOf
  imports Cbb_Typed "HOL-Library.List_Lexorder"
begin

text \<open>
  \<open>CBB_flush_asn1_set_of\<close> of \<open>crypto/bytestring/cbb.c\<close>: the contents of a SET OF are replaced by
  the same elements in the lexicographic order of their encodings. The comparison function of the
  code is shown to be that order, which makes the library's sorting lemmas available.
\<close>

lemma OPENSSL_memcmp_eq:
  "length a = length b \<Longrightarrow> OPENSSL_memcmp a b = (if a = b then 0 else if a < b then -1 else 1)"
  by (induction a b rule: OPENSSL_memcmp.induct) auto

lemma list_less_take:
  fixes a b :: bytes
  assumes "take n a \<noteq> take n b" and "n \<le> length a" and "n \<le> length b"
  shows "take n a < take n b \<longleftrightarrow> a < b"
  using assms
proof (induction n arbitrary: a b)
  case (Suc n)
  then obtain x a' y b' where "a = x # a'" "b = y # b'"
    by (metis Suc_le_length_iff)
  with Suc show ?case by (cases "x = y") auto
qed simp

lemma prefix_less:
  fixes a b :: bytes
  assumes "take (length a) b = a" and "length a < length b"
  shows "a < b"
proof -
  have "b = a @ drop (length a) b" using assms(1) by (metis append_take_drop_id)
  moreover obtain y ys where "drop (length a) b = y # ys"
    using assms(2) by (metis Cons_nth_drop_Suc)
  ultimately have "(a, b) \<in> lexord {(u, v). u < v}"
    by (metis lexord_append_rightI)
  then show ?thesis by (simp add: list_less_def)
qed

lemma compare_set_of_element_eq:
  "compare_set_of_element a b = (if a = b then 0 else if a < b then -1 else 1)"
proof -
  consider "length a = length b" | "length a < length b" | "length b < length a" by linarith
  then show ?thesis
  proof cases
    case 1
    then show ?thesis by (simp add: compare_set_of_element_def OPENSSL_memcmp_eq)
  next
    case 2
    show ?thesis
    proof (cases "a = take (length a) b")
      case True
      with 2 prefix_less [of a b] show ?thesis
        by (auto simp: compare_set_of_element_def OPENSSL_memcmp_eq)
    next
      case False
      with 2 list_less_take [of "length a" a b] show ?thesis
        by (auto simp: compare_set_of_element_def OPENSSL_memcmp_eq)
    qed
  next
    case 3
    show ?thesis
    proof (cases "take (length b) a = b")
      case True
      with 3 prefix_less [of b a] show ?thesis
        by (auto simp: compare_set_of_element_def OPENSSL_memcmp_eq)
    next
      case False
      with 3 list_less_take [of "length b" a b] show ?thesis
        by (auto simp: compare_set_of_element_def OPENSSL_memcmp_eq)
    qed
  qed
qed

lemma qsort_compare: "qsort compare_set_of_element xs = sort xs"
proof -
  have "qsort_insert compare_set_of_element x ys = insort x ys" for x ys
    by (induction ys) (auto simp: compare_set_of_element_eq)
  then show ?thesis
    by (induction xs) (simp_all add: qsort_def)
qed

section \<open>Splitting the contents\<close>

lemma set_of_children_Some:
  "set_of_children cbs = Some xs \<Longrightarrow>
    concat xs = cbs \<and> (\<forall>x \<in> set xs. \<exists>t body. length body < 2 ^ 32 \<and> x = der_element t body)"
proof (induction cbs arbitrary: xs rule: set_of_children.induct)
  case (1 cbs)
  show ?case
  proof (cases "cbs = []")
    case True
    with 1 show ?thesis by (simp add: set_of_children.simps [of "[]"])
  next
    case False
    with "1.prems" obtain x t hl c ys where el: "CBS_get_any_asn1_element cbs = (Some (x, t, hl), c)"
      and ys: "set_of_children c = Some ys" "xs = x # ys"
      by (subst (asm) set_of_children.simps) (auto split: option.splits prod.splits)
    have "concat ys = c \<and> (\<forall>x \<in> set ys. \<exists>t body. length body < 2 ^ 32 \<and> x = der_element t body)"
      by (rule "1.IH" [OF _ el [symmetric] refl refl refl]) (use False ys(1) in simp_all)
    moreover obtain body where "length body < 2 ^ 32" "x = der_element t body" "cbs = x @ c"
      using el by (auto simp: CBS_get_any_asn1_element_iff)
    ultimately show ?thesis using ys(2) by auto
  qed
qed

lemma length_der_element_le: "length body < 2 ^ 32 \<Longrightarrow> length (der_element t body) \<le> size_max"
  using length_der_tag [of t] by (simp add: der_element_def der_len_def len_octets_def)

section \<open>Writing the contents back\<close>

lemma add_all_bytes_adds:
  assumes "cbb_ok s" and "length (chain s) = Suc d" and "\<forall>x \<in> set xs. length x \<le> size_max"
    and "add_all_bytes A d xs s = (True, s')"
  shows "cbb_adds d (concat xs) s s'"
  using assms
proof (induction xs arbitrary: s)
  case Nil
  have "flush_frames d (tl (chain s)) (cbb_frames s) = cbb_frames s"
    using Nil.prems(1,2) by (intro flush_frames_leaf) simp_all
  moreover have "cbb_frames s \<noteq> []"
    using length_cbb_frames [OF Nil.prems(1)] Nil.prems(2) by auto
  moreover have "s' = s" using Nil.prems(4) by simp
  ultimately show ?case
    using Nil.prems(1,2) by (simp add: cbb_adds_def)
next
  case (Cons x xs)
  then obtain s1 where s1: "CBB_add_bytes A d x s = (True, s1)" "add_all_bytes A d xs s1 = (True, s')"
    by (auto split: prod.splits bool.splits)
  have a1: "cbb_adds d x s s1"
    using Cons.prems s1 by (intro CBB_add_bytes_adds) auto
  then have "cbb_ok s1" "length (chain s1) = Suc d"
    using Cons.prems(2) by (simp_all add: cbb_adds_def)
  from cbb_adds_trans [OF a1 Cons.IH [OF this _ s1(2)]] Cons.prems(3) show ?case by simp
qed

lemma start_of_last: "cs \<noteq> [] \<Longrightarrow> start_of st cs (length cs) = child_end (last cs)"
  by (induction cs arbitrary: st) (auto simp: neq_Nil_conv)

text \<open>Rewinding the buffer to the start of the last \<open>CBB\<close> empties its frame.\<close>

definition rewind :: "CBB \<Rightarrow> CBB" where
  "rewind s = s\<lparr>base := map_option (\<lambda>b. b\<lparr>len := child_end (last (chain s))\<rparr>) (base s)\<rparr>"

lemma rewind_ok:
  assumes ok: "cbb_ok s" and ch: "length (chain s) = Suc d"
  shows "cbb_ok (rewind s) \<and> cbb_frames (rewind s) = butlast (cbb_frames s) @ [[]]
    \<and> CBB_data s = last (cbb_frames s) \<and> CBB_len s = length (last (cbb_frames s))"
proof -
  from ok obtain b cs where s: "base s = Some b" "chain s = cbb_top # cs"
    and b: "cbb_buffer_ok b" and cs: "children_ok 0 cs (val b)"
    by (cases "chain s") (auto simp: cbb_ok_def split: option.splits)
  have d: "d = length cs" using ch s by simp
  define n where "n = start_of 0 cs d"
  have n: "child_end (last (chain s)) = n"
    by (cases "cs = []") (simp_all add: s n_def d start_of_last, simp add: cbb_top_def)
  have le: "n \<le> len b"
    using children_ok_length [OF children_ok_drop [OF cs, of d]] b
    by (simp add: d n_def val_def cbb_buffer_ok_def)
  define b' where "b' = b\<lparr>len := n\<rparr>"
  have v': "val b' = take n (val b)"
    using le by (simp add: b'_def val_def min_def)
  have fr: "child_frames 0 cs (val b) = take d (child_frames 0 cs (val b)) @ [drop n (val b)]"
    using child_frames_take [OF cs, of d "val b"] by (simp add: d n_def)
  have fr': "child_frames 0 cs (val b') = take d (child_frames 0 cs (val b)) @ [[]]"
    using child_frames_take [OF cs, of d "val b'"] by (simp add: d n_def v')
  have ok': "children_ok 0 cs (val b')"
  proof -
    have "length (val b) = len b" using b by (simp add: val_def cbb_buffer_ok_def)
    then have "n \<le> length (val b')" using le by (simp add: v')
    then show ?thesis
      using children_ok_take [OF cs, of d "val b'"] by (simp add: d n_def)
  qed
  have rw: "rewind s = s\<lparr>base := Some b'\<rparr>"
    by (simp add: rewind_def n s(1) b'_def)
  have frs: "cbb_frames s = take d (child_frames 0 cs (val b)) @ [drop n (val b)]"
    using fr [symmetric] by (simp add: cbb_frames_def s)
  have "CBB_data s = drop n (val b)" "CBB_len s = length (drop n (val b))"
    using n b by (simp_all add: CBB_data_def CBB_len_def s(1) val_def cbb_buffer_ok_def)
  moreover have "cbb_buffer_ok b'"
    using b le by (simp add: b'_def cbb_buffer_ok_def)
  moreover have "cbb_frames (rewind s) = butlast (cbb_frames s) @ [[]]"
    unfolding frs by (simp add: rw cbb_frames_def s fr')
  moreover have "last (cbb_frames s) = drop n (val b)"
    unfolding frs by simp
  ultimately show ?thesis
    using ok' by (simp add: rw cbb_ok_def s)
qed

section \<open>The operation\<close>

text \<open>\<open>sort\<close> on byte strings is the lexicographic order of \<open>List_Lexorder\<close>.\<close>

lemma CBB_flush_asn1_set_of_cases:
  assumes ok: "cbb_ok s" and "CBB_flush_asn1_set_of A d s = (True, s')"
  shows "\<exists>s1 children. CBB_flush A d s = (True, s1)
    \<and> (\<forall>x \<in> set children. \<exists>t body. length body < 2 ^ 32 \<and> x = der_element t body)
    \<and> last (cbb_frames s1) = concat children
    \<and> cbb_ok s' \<and> chain s' = chain s1
    \<and> cbb_frames s' = butlast (cbb_frames s1) @ [concat (sort children)]"
proof -
  from assms(2) obtain s1 where fl: "CBB_flush A d s = (True, s1)"
    by (auto simp: CBB_flush_asn1_set_of_def split: prod.splits bool.splits)
  note a1 = CBB_flush_adds [OF ok fl]
  then have ok1: "cbb_ok s1" and l1: "length (chain s1) = Suc d"
    by (auto simp: cbb_adds_def min_def)
  note rw = rewind_ok [OF ok1 l1]
  from assms(2) fl obtain children where ch: "set_of_children (last (cbb_frames s1)) = Some children"
    using rw by (auto simp: CBB_flush_asn1_set_of_def split: option.splits)
  note el = set_of_children_Some [OF ch]
  have ne: "cbb_frames s1 \<noteq> []" using length_cbb_frames [OF ok1] l1 by auto
  show ?thesis
  proof (cases "length children < 2")
    case True
    then have "s' = s1" using assms(2) fl ch rw by (simp add: CBB_flush_asn1_set_of_def)
    moreover have "sort children = children"
      using True by (cases children; cases "tl children") auto
    ultimately show ?thesis using fl el ok1 ne by (intro exI [of _ s1] exI [of _ children]) simp
  next
    case False
    with assms(2) fl ch rw have add: "add_all_bytes A d (sort children) (rewind s1) = (True, s')"
      by (simp add: CBB_flush_asn1_set_of_def qsort_compare rewind_def Let_def split: if_splits)
    have lr: "length (chain (rewind s1)) = Suc d" "chain (rewind s1) = chain s1"
      using l1 by (simp_all add: rewind_def)
    have "\<forall>x \<in> set (sort children). length x \<le> size_max"
    proof
      fix x assume "x \<in> set (sort children)"
      then obtain t body where "length body < 2 ^ 32" "x = der_element t body" using el by auto
      then show "length x \<le> size_max"
        using length_der_element_le [of body t] by simp
    qed
    from add_all_bytes_adds [OF _ lr(1) this add] rw
    have a2: "cbb_adds d (concat (sort children)) (rewind s1) s'" by simp
    have "flush_frames d (tl (chain (rewind s1))) (cbb_frames (rewind s1)) = cbb_frames (rewind s1)"
      using rw lr l1 length_cbb_frames [of "rewind s1"] by (intro flush_frames_leaf) simp_all
    with a2 rw l1 lr have "cbb_ok s'" "chain s' = chain s1"
      "cbb_frames s' = butlast (cbb_frames s1) @ [concat (sort children)]"
      by (simp_all add: cbb_adds_def)
    moreover have "last (cbb_frames s1) = concat children" using el by simp
    ultimately show ?thesis using fl conjunct2 [OF el] by (intro exI conjI) assumption+
  qed
qed

end
