(* ===== verification/Oid.thy ===== *)
theory Oid
  imports Cbb_SetOf
begin

text \<open>
  Object identifiers: the conversion from dotted decimal text (\<open>CBB_add_asn1_oid_from_text\<close> of
  \<open>cbb.c\<close>) and back (\<open>CBS_asn1_oid_to_text\<close> of \<open>cbs.c\<close>) against one description of the text and of
  the contents octets. The totality lemmas say when the builder cannot fail.
\<close>

section \<open>The text and the contents of an identifier\<close>

definition dotted :: "nat list \<Rightarrow> bytes" where
  "dotted ns = tl (concat (map (\<lambda>n. 46 # decimal n) ns))"

definition oid_contents :: "nat \<Rightarrow> nat list \<Rightarrow> bytes" where
  "oid_contents v cs = concat (map der_base128 (v # cs))"

text \<open>The first two components, from the first encoded number.\<close>

definition oid_split :: "nat \<Rightarrow> nat list" where
  "oid_split v = (if v \<ge> 80 then [2, v - 80] else [v div 40, v mod 40])"

lemma decimal_step: "0 < n \<Longrightarrow> k < 10 \<Longrightarrow> decimal (n * 10 + k) = decimal n @ [of_nat (48 + k)]"
  by (simp add: decimal.simps [of "n * 10 + k"])

lemma decimal_digit: "n < 10 \<Longrightarrow> decimal n = [of_nat (48 + n)]"
  by (simp add: decimal.simps)

lemma decimal_ne [simp]: "decimal n \<noteq> []"
  by (simp add: decimal.simps [of n])

lemma dotted_Cons: "dotted (n # ns) = decimal n @ concat (map (\<lambda>n. 46 # decimal n) ns)"
  by (simp add: dotted_def)

lemma digit_byte: "\<not> (u :: u8) < 48 \<Longrightarrow> \<not> u > 57 \<Longrightarrow> of_nat (48 + unat (u - 48)) = u \<and> unat (u - 48) < 10"
proof -
  assume "\<not> u < 48" "\<not> u > 57"
  then have "48 \<le> unat u" "unat u \<le> 57" by (simp_all add: word_less_nat_alt)
  moreover from \<open>\<not> u < 48\<close> have "unat (u - 48) = unat u - 48" by (simp add: unat_sub)
  ultimately show ?thesis by (auto intro!: u8_eqI simp: unat_of_nat_u8 simp del: of_nat_add)
qed

lemma digit_step:
  fixes out :: u64 and u :: u8
  assumes "\<not> out > UINT64_MAX div 10" "\<not> out * 10 > UINT64_MAX - ucast (u - 48)" "\<not> u < 48" "\<not> u > 57"
  shows "unat (out * 10 + ucast (u - 48)) = unat out * 10 + unat (u - 48)"
proof -
  define k where "k = unat (u - 48)"
  have k: "k < 10" using digit_byte [OF assms(3,4)] by (simp add: k_def)
  have "unat (UINT64_MAX div 10) = 1844674407370955161" by (simp add: unat_div)
  then have o1: "unat out \<le> 1844674407370955161"
    using assms(1) by (simp only: word_less_nat_alt not_less)
  then have o10: "unat (out * 10) = unat out * 10"
    by (simp add: unat_word_ariths)
  have "(ucast (u - 48) :: u64) \<le> UINT64_MAX"
    using k unfolding k_def by (simp add: word_le_nat_alt)
  then have "unat (UINT64_MAX - ucast (u - 48)) = 18446744073709551615 - k"
    by (simp add: unat_sub k_def)
  then have "unat out * 10 \<le> 18446744073709551615 - k"
    using assms(2) by (simp only: word_less_nat_alt not_less o10)
  then show ?thesis
    using k by (simp add: unat_word_ariths o10 k_def)
qed

lemma dotted_decimal_loop_sound:
  assumes "dotted_decimal_loop out seen cbs = (Some v, c)" and "\<not> seen \<Longrightarrow> out = 0"
  shows "\<exists>p. (cbs = p \<and> c = [] \<or> cbs = p @ 46 # c \<and> c \<noteq> [])
    \<and> (if seen then decimal (unat out) @ p else p) = decimal (unat v)"
  using assms
proof (induction out seen cbs rule: dotted_decimal_loop.induct)
  case (1 out seen)
  then show ?case by (auto split: if_splits)
next
  case (2 out seen u cbs)
  show ?case
  proof (cases "u = 46 \<and> length cbs > 0")
    case True
    with "2.prems"(1) show ?thesis by (intro exI [of _ "[]"]) (auto split: if_splits)
  next
    case False
    define k where "k = unat (u - 48)"
    from "2.prems"(1) False have ok: "\<not> u < 48" "\<not> u > 57" "\<not> (seen \<and> out = 0)"
      "\<not> out > UINT64_MAX div 10" "\<not> out * 10 > UINT64_MAX - ucast (u - 48)"
      and rest: "dotted_decimal_loop (out * 10 + ucast (u - 48)) True cbs = (Some v, c)"
      by (simp_all split: if_splits)
    have "\<exists>p. (cbs = p \<and> c = [] \<or> cbs = p @ 46 # c \<and> c \<noteq> [])
        \<and> decimal (unat (out * 10 + ucast (u - 48))) @ p = decimal (unat v)"
      using "2.IH" [OF False _ rest] ok by simp
    then obtain p where p: "cbs = p \<and> c = [] \<or> cbs = p @ 46 # c \<and> c \<noteq> []"
      "decimal (unat out * 10 + k) @ p = decimal (unat v)"
      unfolding digit_step [OF ok(4,5,1,2)] k_def by blast
    have k: "of_nat (48 + k) = u" "k < 10" using digit_byte [OF ok(1,2)] by (simp_all add: k_def)
    have "decimal (unat out * 10 + k) = (if seen then decimal (unat out) @ [u] else [u])"
    proof (cases seen)
      case True
      then have "0 < unat out" using ok(3) by (simp add: unat_gt_0)
      with True k show ?thesis by (simp add: decimal_step del: of_nat_add)
    next
      case False
      with "2.prems"(2) k show ?thesis by (simp add: decimal_digit del: of_nat_add)
    qed
    with p show ?thesis
      by (intro exI [of _ "u # p"]) (cases seen; auto)
  qed
qed

lemma parse_dotted_decimal_sound:
  "parse_dotted_decimal cbs = (Some v, c) \<Longrightarrow>
    cbs = decimal (unat v) @ (if c = [] then [] else 46 # c)"
  using dotted_decimal_loop_sound [of 0 False cbs v c] by (auto simp: parse_dotted_decimal_def)

section \<open>From text\<close>

lemma oid_components_loop_adds:
  assumes "cbb_ok s" and "length (chain s) = Suc d" and "oid_components_loop A d cbs s = (True, s')"
  shows "\<exists>ns. cbb_adds d (concat (map der_base128 ns)) s s' \<and> cbs = dotted ns \<and> (\<forall>n \<in> set ns. n < 2 ^ 64)"
  using assms
proof (induction A d cbs s rule: oid_components_loop.induct)
  case (1 A d cbs s)
  show ?case
  proof (cases "cbs = []")
    case True
    have "flush_frames d (tl (chain s)) (cbb_frames s) = cbb_frames s"
      using "1.prems"(1,2) by (intro flush_frames_leaf) simp_all
    moreover have "cbb_frames s \<noteq> []"
      using length_cbb_frames [OF "1.prems"(1)] "1.prems"(2) by auto
    moreover have "s' = s" using "1.prems"(3) True by (simp add: oid_components_loop.simps [of A d "[]"])
    ultimately have "cbb_adds d [] s s'"
      using "1.prems"(1,2) by (simp add: cbb_adds_def)
    then show ?thesis using True by (intro exI [of _ "[]"]) (simp add: dotted_def)
  next
    case False
    with "1.prems"(3) obtain a c s1 where a: "parse_dotted_decimal cbs = (Some a, c)"
      and s1: "add_base128_integer A d a s = (True, s1)" and rest: "oid_components_loop A d c s1 = (True, s')"
      by (subst (asm) oid_components_loop.simps) (auto split: prod.splits option.splits bool.splits)
    have a1: "cbb_adds d (der_base128 (unat a)) s s1"
      using add_base128_integer_adds [OF "1.prems"(1) s1] "1.prems"(2) by simp
    then have s1ok: "cbb_ok s1" "length (chain s1) = Suc d"
      using "1.prems"(2) by (simp_all add: cbb_adds_def)
    have "\<exists>ns. cbb_adds d (concat (map der_base128 ns)) s1 s' \<and> c = dotted ns \<and> (\<forall>n \<in> set ns. n < 2 ^ 64)"
      by (rule "1.IH" [OF _ a [symmetric] refl s1 [symmetric] _ s1ok rest]) (use False in simp_all)
    then obtain ns where ns: "cbb_adds d (concat (map der_base128 ns)) s1 s'" "c = dotted ns"
      "\<forall>n \<in> set ns. n < 2 ^ 64" by blast
    have "cbs = dotted (unat a # ns)"
      using parse_dotted_decimal_sound [OF a] ns(2)
      by (cases ns) (auto simp: dotted_Cons, simp add: dotted_def)
    moreover have "unat a < 2 ^ 64" using unsigned_less [of a, where ?'a = nat] by simp
    ultimately show ?thesis
      using cbb_adds_trans [OF a1 ns(1)] ns(3) by (intro exI [of _ "unat a # ns"]) simp
  qed
qed

lemma CBB_add_asn1_oid_from_text_sound:
  assumes ok: "cbb_ok s" and "CBB_add_asn1_oid_from_text A d txt s = (True, s')"
  shows "\<exists>v ns. cbb_adds d (oid_contents v ns) s s' \<and> txt = dotted (oid_split v @ ns)
    \<and> v < 2 ^ 64 \<and> (\<forall>n \<in> set ns. n < 2 ^ 64)"
proof -
  from assms(2) obtain s1 a c1 b c2 s2 where fl: "CBB_flush A d s = (True, s1)"
    and a: "parse_dotted_decimal txt = (Some a, c1)" and b: "parse_dotted_decimal c1 = (Some b, c2)"
    and lim: "\<not> a > 2" "\<not> (a < 2 \<and> b > 39)" "\<not> b > UINT64_MAX - 80"
    and s2: "add_base128_integer A d (40 * a + b) s1 = (True, s2)"
    and rest: "oid_components_loop A d c2 s2 = (True, s')"
    by (auto simp: CBB_add_asn1_oid_from_text_def split: prod.splits option.splits bool.splits if_splits)
  note a0 = CBB_flush_adds [OF ok fl]
  then have ok1: "cbb_ok s1" "length (chain s1) = Suc d" by (simp_all add: cbb_adds_def min_def)
  have a1: "cbb_adds d (der_base128 (unat (40 * a + b))) s1 s2"
    using add_base128_integer_adds [OF ok1(1) s2] ok1(2) by simp
  then have ok2: "cbb_ok s2" "length (chain s2) = Suc d" using ok1(2) by (simp_all add: cbb_adds_def)
  obtain ns where ns: "cbb_adds d (concat (map der_base128 ns)) s2 s'" "c2 = dotted ns"
    "\<forall>n \<in> set ns. n < 2 ^ 64"
    using oid_components_loop_adds [OF ok2 rest] by blast
  define v where "v = unat (40 * a + b)"
  have "unat (UINT64_MAX - 80) = 18446744073709551535" by simp
  then have ab: "unat a \<le> 2" "unat a < 2 \<longrightarrow> unat b \<le> 39" "unat b \<le> 18446744073709551535"
    using lim by (auto simp: word_less_nat_alt)
  then have v: "v = 40 * unat a + unat b" by (simp add: v_def unat_word_ariths)
  then have split: "oid_split v = [unat a, unat b]"
    using ab by (cases "unat a = 2") (auto simp: oid_split_def)
  have "txt = dotted (unat a # unat b # ns)"
    using parse_dotted_decimal_sound [OF a] parse_dotted_decimal_sound [OF b] ns(2)
    by (cases ns) (auto simp: dotted_Cons, simp add: dotted_def)
  moreover have "cbb_adds d (oid_contents v ns) s s'"
    using cbb_adds_trans [OF cbb_adds_trans [OF a0 a1] ns(1)] by (simp add: oid_contents_def v_def)
  moreover have "v < 2 ^ 64" using unsigned_less [of "40 * a + b", where ?'a = nat] by (simp add: v_def)
  ultimately show ?thesis using ns(3) split by (intro exI [of _ v] exI [of _ ns]) simp
qed

section \<open>Totality of the builder\<close>

text \<open>With an allocator that never fails and room below \<open>SIZE_MAX\<close>, a growable builder accepts
  more bytes.\<close>

lemma cbb_buffer_reserve_total:
  assumes "cbb_buffer_ok b" and "can_resize b" and "\<forall>n. A n \<noteq> None" and "len b + n \<le> size_max"
  shows "\<exists>b'. cbb_buffer_reserve A b n = (True, b')"
proof -
  define newcap where "newcap =
    (if size_mult (cap b) 2 < cap b \<or> size_mult (cap b) 2 < len b + n then len b + n else size_mult (cap b) 2)"
  obtain newbuf where "OPENSSL_realloc A (buf b) newcap = Some newbuf"
    using OPENSSL_realloc_eq_None [of A "buf b" newcap] assms(3) by (cases "OPENSSL_realloc A (buf b) newcap") auto
  then show ?thesis
    using assms(2,4) by (simp add: cbb_buffer_reserve_def Let_def newcap_def)
qed

lemma cbb_buffer_add_total:
  assumes "cbb_buffer_ok b" and "can_resize b" and "\<forall>n. A n \<noteq> None" and "len b + n \<le> size_max"
  shows "\<exists>b'. cbb_buffer_add A b n = (True, b')"
  using cbb_buffer_reserve_total [OF assms] by (auto simp: cbb_buffer_add_def)

definition cbb_open :: "bytes \<Rightarrow> CBB \<Rightarrow> bool" where
  "cbb_open x s \<longleftrightarrow> cbb_ok s \<and> chain s = [cbb_top] \<and> can_resize (the (base s)) \<and> cbb_frames s = [x]"

lemma cbb_open_adds: "cbb_open x s \<Longrightarrow> cbb_adds 0 y s s' \<Longrightarrow> cbb_open (x @ y) s'"
  by (simp add: cbb_open_def cbb_adds_def flush_frames_def append_last_def)

lemma cbb_open_buffer:
  "cbb_open x s \<Longrightarrow> \<exists>b. base s = Some b \<and> cbb_buffer_ok b \<and> can_resize b \<and> val b = x \<and> len b = length x"
  by (auto simp: cbb_open_def cbb_ok_def cbb_frames_def dest: length_val split: option.splits)

lemma cbb_open_flush: "cbb_open x s \<Longrightarrow> CBB_flush A 0 s = (True, s)"
  using cbb_open_buffer [of x s]
  by (auto simp: CBB_flush_def cbb_open_def cbb_buffer_ok_def)

lemma CBB_add_bytes_total:
  assumes "cbb_open x s" and "\<forall>n. A n \<noteq> None" and "length x + length y \<le> size_max"
  shows "\<exists>s'. CBB_add_bytes A 0 y s = (True, s') \<and> cbb_open (x @ y) s'"
proof -
  obtain b where b: "base s = Some b" "cbb_buffer_ok b" "can_resize b" "len b = length x"
    using cbb_open_buffer [OF assms(1)] by blast
  then obtain b' where "cbb_buffer_add A b (length y) = (True, b')"
    using cbb_buffer_add_total [OF b(2,3) assms(2)] assms(3) by auto
  then obtain s' where s': "CBB_add_bytes A 0 y s = (True, s')"
    using b(1) by (simp add: CBB_add_bytes_def cbb_flushed_def cbb_open_flush [OF assms(1)]
        cbb_buffer_append_def)
  moreover have "cbb_adds 0 y s s'"
    using assms(1,3) s' by (intro CBB_add_bytes_adds) (auto simp: cbb_open_def)
  ultimately show ?thesis using cbb_open_adds [OF assms(1)] by blast
qed

lemma CBB_add_u8_total:
  assumes "cbb_open x s" and "\<forall>n. A n \<noteq> None" and "length x < size_max"
  shows "\<exists>s'. CBB_add_u8 A 0 v s = (True, s') \<and> cbb_open (x @ [v]) s'"
proof -
  obtain b where b: "base s = Some b" "cbb_buffer_ok b" "can_resize b" "len b = length x"
    using cbb_open_buffer [OF assms(1)] by blast
  then obtain b' where "cbb_buffer_add A b 1 = (True, b')"
    using cbb_buffer_add_total [OF b(2,3) assms(2), of 1] assms(3) by auto
  then have "\<exists>b''. cbb_buffer_add_u A b (ucast v) 1 = (True, b'')"
    by (simp add: cbb_buffer_add_u_def)
  then obtain s' where s': "CBB_add_u8 A 0 v s = (True, s')"
    using b(1) by (auto simp: CBB_add_u8_def cbb_flushed_def cbb_open_flush [OF assms(1)])
  moreover have "cbb_adds 0 [v] s s'"
    using assms(1) s' by (intro CBB_add_u8_adds) (auto simp: cbb_open_def)
  ultimately show ?thesis using cbb_open_adds [OF assms(1)] by blast
qed

lemma CBB_init_open:
  assumes "\<forall>n. A n \<noteq> None" and "n \<le> size_max"
  shows "\<exists>s. CBB_init A n = (True, s) \<and> cbb_open [] s"
proof -
  obtain p q where "A 40 = Some p" "A n = Some q" using assms(1) by fastforce
  then show ?thesis using assms(2)
    by (simp add: CBB_init_def OPENSSL_malloc_def cbb_init_def cbb_open_def cbb_ok_def cbb_frames_def
        cbb_buffer_ok_def val_def)
qed

lemma CBB_finish_open: "cbb_open x s \<Longrightarrow> fst (CBB_finish A 0 True s) = Some x"
  using cbb_open_buffer [of x s]
  by (auto simp: CBB_finish_def cbb_open_flush cbb_open_def cbb_top_def val_def)

section \<open>To text\<close>

abbreviation oid_tail :: "nat list \<Rightarrow> bytes" where
  "oid_tail ns \<equiv> concat (map (\<lambda>n. 46 # decimal n) ns)"

lemma dotted_tail: "dotted (oid_split v @ ns) = dotted (oid_split v) @ oid_tail ns"
  by (simp add: oid_split_def dotted_Cons)

lemma length_decimal: "n < 10 ^ k \<Longrightarrow> 0 < k \<Longrightarrow> length (decimal n) \<le> k"
proof (induction k arbitrary: n)
  case (Suc k)
  show ?case
  proof (cases "n < 10")
    case True
    then show ?thesis by (simp add: decimal_digit)
  next
    case False
    then have "0 < k" using Suc.prems by (cases k) auto
    moreover have "n div 10 < 10 ^ k" using Suc.prems by (simp add: less_mult_imp_div_less mult.commute)
    ultimately show ?thesis
      using Suc.IH [of "n div 10"] False by (simp add: decimal.simps [of n])
  qed
qed simp

lemma length_decimal_u64: "n < 2 ^ 64 \<Longrightarrow> length (decimal n) \<le> 20"
  by (rule length_decimal) simp_all

lemma CBB_add_bytes_open:
  "cbb_open x s \<Longrightarrow> length y \<le> size_max \<Longrightarrow> CBB_add_bytes A 0 y s = (True, s') \<Longrightarrow> cbb_open (x @ y) s'"
  by (rule cbb_open_adds, assumption, rule CBB_add_bytes_adds) (auto simp: cbb_open_def)

lemma CBB_add_u8_open:
  "cbb_open x s \<Longrightarrow> CBB_add_u8 A 0 v s = (True, s') \<Longrightarrow> cbb_open (x @ [v]) s'"
  by (rule cbb_open_adds, assumption, rule CBB_add_u8_adds) (auto simp: cbb_open_def)

lemma add_decimal_open:
  "cbb_open x s \<Longrightarrow> add_decimal A 0 v s = (True, s') \<Longrightarrow> cbb_open (x @ decimal (unat v)) s'"
proof -
  assume "cbb_open x s" "add_decimal A 0 v s = (True, s')"
  moreover have "length (decimal (unat v)) \<le> size_max"
    using length_decimal_u64 [of "unat v"] unsigned_less [of v, where ?'a = nat] by simp
  ultimately show ?thesis by (auto simp: add_decimal_def intro: CBB_add_bytes_open)
qed

lemma add_decimal_total:
  assumes "cbb_open x s" and "\<forall>n. A n \<noteq> None" and "length x + 20 \<le> size_max"
  shows "\<exists>s'. add_decimal A 0 v s = (True, s') \<and> cbb_open (x @ decimal (unat v)) s'"
proof -
  have "length (decimal (unat v)) \<le> 20"
    using length_decimal_u64 [of "unat v"] unsigned_less [of v, where ?'a = nat] by simp
  then show ?thesis
    unfolding add_decimal_def using assms by (intro CBB_add_bytes_total) auto
qed

lemma oid_text_loop_sound:
  assumes "cbb_open x s" and "oid_text_loop A copy s = (True, s')"
  shows "\<exists>ns. copy = concat (map der_base128 ns) \<and> cbb_open (x @ oid_tail ns) s'"
  using assms
proof (induction A copy s arbitrary: x rule: oid_text_loop.induct)
  case (1 A copy s)
  show ?case
  proof (cases "copy = []")
    case True
    with 1 show ?thesis by (intro exI [of _ "[]"]) (simp add: oid_text_loop.simps [of A "[]"])
  next
    case False
    with "1.prems"(2) obtain v c s1 s2 where v: "parse_base128_integer copy = (Some v, c)"
      and s1: "CBB_add_u8 A 0 46 s = (True, s1)" and s2: "add_decimal A 0 v s1 = (True, s2)"
      and rest: "oid_text_loop A c s2 = (True, s')"
      by (subst (asm) oid_text_loop.simps) (auto split: prod.splits option.splits bool.splits)
    note o2 = add_decimal_open [OF CBB_add_u8_open [OF "1.prems"(1) s1] s2]
    have "\<exists>ns. c = concat (map der_base128 ns) \<and> cbb_open (((x @ [46]) @ decimal (unat v)) @ oid_tail ns) s'"
      by (rule "1.IH" [OF _ v [symmetric] refl s1 [symmetric] _ s2 [symmetric] _ o2 rest])
        (use False in simp_all)
    then obtain ns where "c = concat (map der_base128 ns)"
      "cbb_open (((x @ [46]) @ decimal (unat v)) @ oid_tail ns) s'" by blast
    then show ?thesis
      using parse_base128_integer_sound [OF v] by (intro exI [of _ "unat v # ns"]) simp
  qed
qed

lemma oid_text_loop_total:
  assumes "cbb_open x s" and "\<forall>n. A n \<noteq> None" and "\<forall>n \<in> set ns. n < 2 ^ 64"
    and "length x + 21 * length ns \<le> size_max"
  shows "\<exists>s'. oid_text_loop A (concat (map der_base128 ns)) s = (True, s') \<and> cbb_open (x @ oid_tail ns) s'"
  using assms
proof (induction ns arbitrary: x s)
  case Nil
  then show ?case by (simp add: oid_text_loop.simps)
next
  case (Cons n ns)
  define v :: u64 where "v = of_nat n"
  have v: "unat v = n" using Cons.prems(3) by (simp add: v_def unat_of_nat)
  obtain s1 where s1: "CBB_add_u8 A 0 46 s = (True, s1)" "cbb_open (x @ [46]) s1"
    using CBB_add_u8_total [OF Cons.prems(1,2), of 46] Cons.prems(4) by auto
  obtain s2 where s2: "add_decimal A 0 v s1 = (True, s2)" "cbb_open ((x @ [46]) @ decimal n) s2"
    using add_decimal_total [OF s1(2) Cons.prems(2), of v] Cons.prems(4) v by auto
  have "length (decimal n) \<le> 20" using Cons.prems(3) by (intro length_decimal_u64) simp
  then obtain s' where "oid_text_loop A (concat (map der_base128 ns)) s2 = (True, s')"
    "cbb_open (((x @ [46]) @ decimal n) @ oid_tail ns) s'"
    using Cons.IH [OF s2(2) Cons.prems(2)] Cons.prems(3,4) by auto
  moreover have "parse_base128_integer (concat (map der_base128 (n # ns))) =
      (Some v, concat (map der_base128 ns))"
    using parse_base128_complete [of n] Cons.prems(3) by (simp add: v_def)
  ultimately show ?case
    using s1(1) s2(1) by (subst oid_text_loop.simps) simp
qed

lemma unat_ge_80: "(v :: u64) \<ge> 80 \<longleftrightarrow> unat v \<ge> 80"
  by (simp add: word_le_nat_alt)

lemma oid_first_text_open:
  assumes "cbb_open [] s" and "oid_first_text A v s = (True, s')"
  shows "cbb_open (dotted (oid_split (unat v))) s'"
proof (cases "v \<ge> 80")
  case True
  then have v: "unat (v - 80) = unat v - 80" "unat v \<ge> 80" by (simp_all add: unat_sub unat_ge_80)
  from True assms(2) obtain s1 where "CBB_add_bytes A 0 [50, 46] s = (True, s1)"
    "add_decimal A 0 (v - 80) s1 = (True, s')"
    by (auto simp: oid_first_text_def split: prod.splits bool.splits)
  from add_decimal_open [OF CBB_add_bytes_open [OF assms(1) _ this(1)] this(2)] v show ?thesis
    by (simp add: oid_split_def dotted_Cons decimal_digit)
next
  case False
  then have v: "\<not> unat v \<ge> 80" by (simp add: unat_ge_80)
  from False assms(2) obtain s1 s2 where "add_decimal A 0 (v div 40) s = (True, s1)"
    "CBB_add_u8 A 0 46 s1 = (True, s2)" "add_decimal A 0 (v mod 40) s2 = (True, s')"
    by (auto simp: oid_first_text_def split: prod.splits bool.splits)
  from add_decimal_open [OF CBB_add_u8_open [OF add_decimal_open [OF assms(1) this(1)] this(2)] this(3)] v
  show ?thesis by (simp add: oid_split_def dotted_Cons unat_div unat_mod)
qed

lemma oid_first_text_total:
  assumes "cbb_open [] s" and "\<forall>n. A n \<noteq> None"
  shows "\<exists>s'. oid_first_text A v s = (True, s')"
proof (cases "v \<ge> 80")
  case True
  obtain s1 where s1: "CBB_add_bytes A 0 [50, 46] s = (True, s1)" "cbb_open [50, 46] s1"
    using CBB_add_bytes_total [OF assms, of "[50, 46]"] by auto
  with True add_decimal_total [OF s1(2) assms(2), of "v - 80"] show ?thesis
    by (auto simp: oid_first_text_def)
next
  case False
  obtain s1 where s1: "add_decimal A 0 (v div 40) s = (True, s1)" "cbb_open (decimal (unat (v div 40))) s1"
    using add_decimal_total [OF assms, of "v div 40"] by auto
  have l: "length (decimal (unat (v div 40))) \<le> 20"
    using length_decimal_u64 unsigned_less [of "v div 40", where ?'a = nat] by simp
  obtain s2 where s2: "CBB_add_u8 A 0 46 s1 = (True, s2)" "cbb_open (decimal (unat (v div 40)) @ [46]) s2"
    using CBB_add_u8_total [OF s1(2) assms(2), of 46] l by auto
  with False s1(1) add_decimal_total [OF s2(2) assms(2), of "v mod 40"] l show ?thesis
    by (auto simp: oid_first_text_def)
qed

text \<open>The text of an identifier, and that it is always produced when memory is available.\<close>

lemma CBS_asn1_oid_to_text_sound:
  assumes "\<forall>n. A n \<noteq> None" and "CBS_asn1_oid_to_text A cbs = Some out"
  shows "\<exists>v ns. cbs = oid_contents v ns \<and> v < 2 ^ 64 \<and> out = dotted (oid_split v @ ns) @ [0]"
proof -
  obtain s0 where s0: "CBB_init A 32 = (True, s0)" "cbb_open [] s0"
    using CBB_init_open [OF assms(1), of 32] by auto
  from assms(2) s0(1) obtain v c s1 s2 s3 where v: "parse_base128_integer cbs = (Some v, c)"
    and s1: "oid_first_text A v s0 = (True, s1)" and s2: "oid_text_loop A c s1 = (True, s2)"
    and s3: "CBB_add_u8 A 0 0 s2 = (True, s3)" and out: "fst (CBB_finish A 0 True s3) = Some out"
    by (auto simp: CBS_asn1_oid_to_text_def split: prod.splits option.splits bool.splits)
  obtain ns where ns: "c = concat (map der_base128 ns)"
    "cbb_open (dotted (oid_split (unat v)) @ oid_tail ns) s2"
    using oid_text_loop_sound [OF oid_first_text_open [OF s0(2) s1] s2] by blast
  have "out = dotted (oid_split (unat v) @ ns) @ [0]"
    using CBB_finish_open [OF CBB_add_u8_open [OF ns(2) s3], of A] out by (simp add: dotted_tail)
  moreover have "unat v < 2 ^ 64" using unsigned_less [of v, where ?'a = nat] by simp
  moreover have "cbs = oid_contents (unat v) ns"
    using parse_base128_integer_sound [OF v] ns(1) by (simp add: oid_contents_def)
  ultimately show ?thesis by blast
qed

lemma length_dotted_split:
  assumes "v < 2 ^ 64"
  shows "length (dotted (oid_split v)) \<le> 41"
proof -
  have "length (decimal k) \<le> 20" if "k \<le> v" for k
    using length_decimal_u64 [of k] that assms by simp
  from this [of "v - 80"] this [of "v div 40"] this [of "v mod 40"] show ?thesis
    by (auto simp: oid_split_def dotted_Cons decimal_digit)
qed

lemma CBS_asn1_oid_to_text_total:
  assumes A: "\<forall>n. A n \<noteq> None" and "v < 2 ^ 64" and "\<forall>n \<in> set ns. n < 2 ^ 64"
    and "42 + 21 * length ns \<le> size_max"
  shows "CBS_asn1_oid_to_text A (oid_contents v ns) = Some (dotted (oid_split v @ ns) @ [0])"
proof -
  define w :: u64 where "w = of_nat v"
  have w: "unat w = v" using assms(2) by (simp add: w_def unat_of_nat)
  obtain s0 where s0: "CBB_init A 32 = (True, s0)" "cbb_open [] s0"
    using CBB_init_open [OF A, of 32] by auto
  obtain s1 where s1: "oid_first_text A w s0 = (True, s1)"
    using oid_first_text_total [OF s0(2) A] by blast
  note o1 = oid_first_text_open [OF s0(2) s1, unfolded w]
  note l = length_dotted_split [OF assms(2)]
  obtain s2 where s2: "oid_text_loop A (concat (map der_base128 ns)) s1 = (True, s2)"
    "cbb_open (dotted (oid_split v) @ oid_tail ns) s2"
    using oid_text_loop_total [OF o1 A assms(3)] l assms(4) by auto
  have "length (oid_tail ns) \<le> 21 * length ns"
    using assms(3)
  proof (induction ns)
    case (Cons n ns)
    then show ?case using length_decimal_u64 [of n] by simp
  qed simp
  then have "length (dotted (oid_split v) @ oid_tail ns) < size_max"
    using l assms(4) by simp
  from CBB_add_u8_total [OF s2(2) A this, of 0] obtain s3 where
    s3: "CBB_add_u8 A 0 0 s2 = (True, s3)" "cbb_open ((dotted (oid_split v) @ oid_tail ns) @ [0]) s3"
    by blast
  have "parse_base128_integer (oid_contents v ns) = (Some w, concat (map der_base128 ns))"
    using parse_base128_complete [OF assms(2)] by (simp add: oid_contents_def w_def)
  then show ?thesis
    using s0(1) s1 s2(1) s3(1) CBB_finish_open [OF s3(2), of A]
    by (simp add: CBS_asn1_oid_to_text_def dotted_tail)
qed

end
