(* ===== verification/Ber_Correct.thy ===== *)
theory Ber_Correct
  imports Ber Oid
begin

text \<open>
  What \<open>CBS_asn1_ber_to_der\<close> writes: a sequence of distinguished elements in which, at every level,
  no length is indefinite and no string is constructed, so that a second search finds nothing to
  convert.
\<close>

section \<open>Byte strings without BER\<close>

inductive der_forest :: "bytes \<Rightarrow> bool" where
  der_Nil: "der_forest []"
| der_Cons: "\<lbrakk>length body < 2 ^ 32;
    t AND CBS_ASN1_CONSTRUCTED \<noteq> 0 \<longrightarrow> \<not> is_string_type t \<and> der_forest body; der_forest rest\<rbrakk>
    \<Longrightarrow> der_forest (der_element t body @ rest)"

lemma der_forest_append: "der_forest x \<Longrightarrow> der_forest y \<Longrightarrow> der_forest (x @ y)"
proof (induction rule: der_forest.induct)
  case (der_Cons body t rest)
  then show ?case using der_forest.der_Cons [of body t "rest @ y"] by simp
qed simp

lemma der_forest_element:
  "length body < 2 ^ 32 \<Longrightarrow> (t AND CBS_ASN1_CONSTRUCTED \<noteq> 0 \<longrightarrow> \<not> is_string_type t \<and> der_forest body) \<Longrightarrow>
    der_forest (der_element t body)"
  using der_Cons [of body t "[]"] der_Nil by simp

section \<open>The conversion\<close>

lemma not_constructed: "(t AND NOT CBS_ASN1_CONSTRUCTED) AND CBS_ASN1_CONSTRUCTED = (0 :: u32)"
  by (simp add: and.assoc)

lemma ber_open_close:
  assumes op: "ber_open A st tag d out = (Some (d', ct), out1)" and ok: "cbb_ok out"
    and leaf: "length (chain out) = Suc d"
  shows "cbb_ok out1" and "length (chain out1) = Suc d'"
    and "\<And>x out2 out3. cbb_adds d' x out1 out2 \<Longrightarrow> CBB_flush A d out2 = (True, out3) \<Longrightarrow>
      (ct = 0 \<and> tag AND CBS_ASN1_CONSTRUCTED \<noteq> 0 \<longrightarrow> der_forest x) \<Longrightarrow>
      \<exists>y. cbb_adds d y out out3 \<and> (st = 0 \<longrightarrow> der_forest y)"
proof -
  have "cbb_ok out1 \<and> length (chain out1) = Suc d' \<and>
    (\<forall>x out2 out3. cbb_adds d' x out1 out2 \<longrightarrow> CBB_flush A d out2 = (True, out3) \<longrightarrow>
      (ct = 0 \<and> tag AND CBS_ASN1_CONSTRUCTED \<noteq> 0 \<longrightarrow> der_forest x) \<longrightarrow> (\<exists>y. cbb_adds d y out out3 \<and> (st = 0 \<longrightarrow> der_forest y)))"
  proof (cases "st = 0")
    case False
    with op have eq: "d' = d" "out1 = out" by (auto simp: ber_open_def split: if_splits)
    have "\<exists>y. cbb_adds d y out out3" if "cbb_adds d x out out2" "CBB_flush A d out2 = (True, out3)" for x out2 out3
    proof -
      have "cbb_ok out2" using that(1) by (simp add: cbb_adds_def)
      from cbb_adds_trans [OF that(1) CBB_flush_adds [OF this that(2)]] show ?thesis by blast
    qed
    with False ok leaf show ?thesis by (auto simp: eq)
  next
    case True
    define strg where "strg \<longleftrightarrow> tag AND CBS_ASN1_CONSTRUCTED \<noteq> 0 \<and> is_string_type tag"
    define t where "t = (if strg then tag AND NOT CBS_ASN1_CONSTRUCTED else tag)"
    from op True have add: "CBB_add_asn1 A d t out = (True, out1)" and d': "d' = Suc d"
      and ct: "ct = (if strg then t else 0)"
      by (auto simp: ber_open_def t_def strg_def split: if_splits prod.splits bool.splits)
    note opens = CBB_add_asn1_opens [OF ok add]
    have t: "t AND CBS_ASN1_CONSTRUCTED \<noteq> 0 \<longrightarrow> \<not> is_string_type t \<and> ct = 0 \<and> tag AND CBS_ASN1_CONSTRUCTED \<noteq> 0"
      using not_constructed [of tag] by (auto simp: t_def ct strg_def)
    have "\<exists>y. cbb_adds d y out out3 \<and> der_forest y"
      if "cbb_adds d' x out1 out2" "CBB_flush A d out2 = (True, out3)" "ct = 0 \<and> tag AND CBS_ASN1_CONSTRUCTED \<noteq> 0 \<longrightarrow> der_forest x" for x out2 out3
    proof -
      from asn1_element_adds [OF ok add that(1) [unfolded d'] that(2)]
      have "cbb_adds d (der_element t x) out out3" "length x < 2 ^ 32" by simp_all
      moreover have "der_forest (der_element t x)"
        using \<open>length x < 2 ^ 32\<close> t that(3) by (intro der_forest_element) auto
      ultimately show ?thesis by blast
    qed
    moreover have "cbb_ok out1" "length (chain out1) = Suc d'"
      using opens leaf by (auto simp: cbb_opens_def d' min_def)
    ultimately show ?thesis using True by blast
  qed
  then show "cbb_ok out1" "length (chain out1) = Suc d'"
    "\<And>x out2 out3. cbb_adds d' x out1 out2 \<Longrightarrow> CBB_flush A d out2 = (True, out3) \<Longrightarrow>
      (ct = 0 \<and> tag AND CBS_ASN1_CONSTRUCTED \<noteq> 0 \<longrightarrow> der_forest x) \<Longrightarrow> \<exists>y. cbb_adds d y out out3 \<and> (st = 0 \<longrightarrow> der_forest y)"
    by blast+
qed

lemma cbb_adds_nothing:
  assumes "cbb_ok s" and "length (chain s) = Suc d"
  shows "cbb_adds d [] s s"
proof -
  have "flush_frames d (tl (chain s)) (cbb_frames s) = cbb_frames s"
    using assms by (intro flush_frames_leaf) simp_all
  moreover have "cbb_frames s \<noteq> []" using length_cbb_frames [OF assms(1)] assms(2) by auto
  ultimately show ?thesis using assms by (simp add: cbb_adds_def)
qed

lemma cbs_convert_ber_adds:
  assumes "cbb_ok out" and "length (chain out) = Suc d" and "length inp \<le> size_max"
    and "cbs_convert_ber A st eoc depth inp d out = (True, inp', out')"
  shows "(\<exists>x. cbb_adds d x out out' \<and> (st = 0 \<longrightarrow> der_forest x)) \<and> length inp' \<le> length inp"
  using assms
proof (induction A st eoc depth inp d out arbitrary: inp' out' rule: cbs_convert_ber.induct)
  case (1 A st eoc depth inp d out)
  note step = "1.prems"(4) [unfolded cbs_convert_ber.simps [of A st eoc depth inp d out]]
  have none: ?case if "out' = out" "length inp' \<le> length inp"
    using cbb_adds_nothing [OF "1.prems"(1,2)] that der_Nil by blast
  show ?case
  proof (cases "depth > kMaxDepth \<or> inp = []")
    case True
    with step show ?thesis by (intro none) (auto split: if_splits)
  next
    case False
    then have ok: "\<not> depth > kMaxDepth" "length inp > 0" by auto
    from step ok obtain contents tag hl c where
      el: "CBS_get_any_ber_asn1_element inp = (Some (contents, tag, hl), c)"
      by (auto split: option.splits prod.splits)
    then have c: "length c < length inp" "length contents \<le> length inp"
      using cbs_get_any_asn1_element_shorter [of True inp] by (fastforce simp: CBS_get_any_ber_asn1_element_def)+
    show ?thesis
    proof (cases "is_eoc hl contents")
      case True
      with step ok el c show ?thesis by (intro none) simp_all
    next
      case neoc: False
      with step ok el obtain d' ct out1 where op: "ber_open A st tag d out = (Some (d', ct), out1)"
        by (auto split: option.splits prod.splits)
      note oc = ber_open_close [OF op "1.prems"(1,2)]
      have fin: ?thesis if x: "cbb_adds d' x out1 o2" "ct = 0 \<and> tag AND CBS_ASN1_CONSTRUCTED \<noteq> 0 \<longrightarrow> der_forest x"
        and fl: "CBB_flush A d o2 = (True, o3)"
        and rest: "cbb_ok o3 \<Longrightarrow> length (chain o3) = Suc d \<Longrightarrow>
          (\<exists>y. cbb_adds d y o3 out' \<and> (st = 0 \<longrightarrow> der_forest y)) \<and> length inp' \<le> length i3"
        and i3: "length i3 \<le> length inp" for x o2 o3 i3
      proof -
        obtain y where y: "cbb_adds d y out o3" "st = 0 \<longrightarrow> der_forest y"
          using oc(3) [OF x(1) fl x(2)] by blast
        then have "cbb_ok o3" "length (chain o3) = Suc d"
          using "1.prems"(2) by (simp_all add: cbb_adds_def)
        then obtain z where z: "cbb_adds d z o3 out'" "st = 0 \<longrightarrow> der_forest z" "length inp' \<le> length i3"
          using rest by blast
        from cbb_adds_trans [OF y(1) z(1)] y(2) z(2,3) i3 der_forest_append show ?thesis
          by (meson order_trans)
      qed
      show ?thesis
      proof (cases "is_indefinite hl contents")
        case True
        with step ok el neoc op obtain i2 o2 o3 where
          r1: "cbs_convert_ber A ct True (depth + 1) c d' out1 = (True, i2, o2)"
          and fl: "CBB_flush A d o2 = (True, o3)"
          and r2: "cbs_convert_ber A st eoc depth i2 d o3 = (True, inp', out')"
          by (auto split: prod.splits bool.splits)
        have lc: "length c \<le> size_max" using c "1.prems"(3) by simp
        obtain x where x: "cbb_adds d' x out1 o2" "ct = 0 \<longrightarrow> der_forest x" and i2: "length i2 \<le> length c"
          using "1.IH"(1) [OF ok el [symmetric] refl refl refl neoc op [symmetric] refl refl True oc(1,2) lc r1]
          by blast
        have li: "length i2 \<le> size_max" using lc i2 by simp
        show ?thesis
        proof (rule fin [OF x(1) _ fl])
          show "(\<exists>y. cbb_adds d y o3 out' \<and> (st = 0 \<longrightarrow> der_forest y)) \<and> length inp' \<le> length i2"
            if "cbb_ok o3" "length (chain o3) = Suc d"
            by (rule "1.IH"(2) [OF ok el [symmetric] refl refl refl neoc op [symmetric] refl refl True
                r1 [symmetric] _ refl fl [symmetric] _ that li r2]) simp_all
        qed (use x(2) i2 c in simp_all)
      next
        case False
        with step ok el neoc op obtain body o2 o3 where
          sk: "CBS_skip hl contents = (Some (), body)"
          and r1: "(if tag AND CBS_ASN1_CONSTRUCTED \<noteq> 0 then
              (case cbs_convert_ber A ct False (depth + 1) body d' out1 of (r, _, out) \<Rightarrow> (r, out))
            else CBB_add_bytes A d' body out1) = (True, o2)"
          and fl: "CBB_flush A d o2 = (True, o3)"
          and r2: "cbs_convert_ber A st eoc depth c d o3 = (True, inp', out')"
          by (auto split: prod.splits bool.splits option.splits)
        have lb: "length body \<le> size_max" and lc: "length c \<le> size_max"
          using sk c "1.prems"(3) by (auto simp: CBS_skip_eq split: if_splits)
        have "\<exists>x. cbb_adds d' x out1 o2 \<and> (ct = 0 \<and> tag AND CBS_ASN1_CONSTRUCTED \<noteq> 0 \<longrightarrow> der_forest x)"
        proof (cases "tag AND CBS_ASN1_CONSTRUCTED = 0")
          case False
          then obtain i2 where "cbs_convert_ber A ct False (depth + 1) body d' out1 = (True, i2, o2)"
            using r1 by (auto split: prod.splits)
          then show ?thesis
            using "1.IH"(3) [OF ok el [symmetric] refl refl refl neoc op [symmetric] refl refl \<open>\<not> is_indefinite hl contents\<close>
                sk [symmetric] refl False oc(1,2) lb] by blast
        next
          case True
          then have "CBB_add_bytes A d' body out1 = (True, o2)" using r1 by simp
          from CBB_add_bytes_adds [OF oc(1) lb this] True show ?thesis by blast
        qed
        then obtain x where x: "cbb_adds d' x out1 o2"
          "ct = 0 \<and> tag AND CBS_ASN1_CONSTRUCTED \<noteq> 0 \<longrightarrow> der_forest x" by blast
        show ?thesis
        proof (rule fin [OF x fl])
          show "(\<exists>y. cbb_adds d y o3 out' \<and> (st = 0 \<longrightarrow> der_forest y)) \<and> length inp' \<le> length c"
            if "cbb_ok o3" "length (chain o3) = Suc d"
            by (rule "1.IH"(4) [OF ok el [symmetric] refl refl refl neoc op [symmetric] refl refl False
                sk [symmetric] refl r1 [symmetric] _ fl [symmetric] _ that lc r2]) simp_all
        qed (use c in simp_all)
      qed
    qed
  qed
qed

section \<open>What the search reports on such byte strings\<close>

lemma ber_reader_reads_der:
  assumes "cbs_get_any_asn1_element False cbs = (Some r, c)"
  shows "cbs_get_any_asn1_element True cbs = (Some r, c)"
proof -
  from assms obtain t h where t: "parse_asn1_tag cbs = (Some t, h)"
    by (cases "parse_asn1_tag cbs"; cases "fst (parse_asn1_tag cbs)")
      (auto simp: cbs_get_any_asn1_element_def)
  with assms obtain lb h' where lb: "CBS_get_u8 h = (Some lb, h')"
    by (cases "CBS_get_u8 h"; cases "fst (CBS_get_u8 h)") (auto simp: cbs_get_any_asn1_element_def)
  show ?thesis
    using assms unfolding cbs_get_any_asn1_element_def Let_def t lb prod.case option.case
    by (auto split: if_splits)
qed

lemma last_der_len_0: "last (der_len 0) = 0"
  by (simp add: der_len_def)

lemma der_not_indefinite:
  "hl = length (der_tag t @ der_len (length body)) \<Longrightarrow> \<not> is_indefinite hl (der_element t body)"
proof (cases body)
  case Nil
  moreover have "der_len 0 = [0]" by (simp add: der_len_def)
  ultimately show "hl = length (der_tag t @ der_len (length body)) \<Longrightarrow> ?thesis"
    by (simp add: is_indefinite_def der_element_def nth_append)
qed (simp add: is_indefinite_def der_element_def)

lemma CBS_skip_header:
  "CBS_skip (length (der_tag t @ der_len (length body))) (der_element t body) = (Some (), body)"
  by (simp add: CBS_skip_eq der_element_def)

lemma der_forest_no_ber: "der_forest x \<Longrightarrow> snd (find_ber_loop depth x False) = False"
proof (induction arbitrary: depth rule: der_forest.induct)
  case der_Nil
  show ?case by (simp add: find_ber_loop.simps)
next
  case (der_Cons body t rest)
  define hl where "hl = length (der_tag t @ der_len (length body))"
  have "CBS_get_any_asn1_element (der_element t body @ rest) = (Some (der_element t body, t, hl), rest)"
    using der_Cons.hyps(1) by (auto simp: CBS_get_any_asn1_element_iff hl_def)
  then have el: "CBS_get_any_ber_asn1_element (der_element t body @ rest) = (Some (der_element t body, t, hl), rest)"
    by (simp add: CBS_get_any_asn1_element_def CBS_get_any_ber_asn1_element_def ber_reader_reads_der)
  have pos: "0 < length (der_element t body @ rest)" by (simp add: der_element_def)
  have sk: "CBS_skip hl (der_element t body) = (Some (), body)"
    unfolding hl_def by (rule CBS_skip_header)
  note step = find_ber_loop.simps [of depth "der_element t body @ rest" False]
  show ?case
  proof (cases "t AND CBS_ASN1_CONSTRUCTED = 0")
    case True
    then show ?thesis
      using pos der_Cons.IH(2) by (simp add: step el der_not_indefinite [OF hl_def])
  next
    case False
    then have "\<not> is_string_type t" "snd (find_ber_loop (depth + 1) body False) = False"
      using der_Cons.IH(1) by simp_all
    then show ?thesis
      using pos False der_Cons.IH(2)
      by (cases "find_ber_loop (depth + 1) body False")
        (auto simp: step el sk der_not_indefinite [OF hl_def] split: bool.splits)
  qed
qed

section \<open>The whole conversion\<close>

lemma CBB_init_is_open: "n \<le> size_max \<Longrightarrow> CBB_init A n = (True, s) \<Longrightarrow> cbb_open [] s"
  by (auto simp: CBB_init_def OPENSSL_malloc_def cbb_init_def cbb_open_def cbb_ok_def cbb_frames_def
      cbb_buffer_ok_def val_def split: option.splits if_splits)

lemma CBS_asn1_ber_to_der_sound:
  assumes "length inp \<le> size_max" and "CBS_asn1_ber_to_der A inp = (Some (Some out), c)"
  shows "der_forest out"
proof -
  from assms(2) obtain s s' where i: "CBB_init A (length inp) = (True, s)"
    and cv: "cbs_convert_ber A 0 False 0 inp 0 s = (True, c, s')"
    and out: "fst (CBB_finish A 0 True s') = Some out"
    by (auto simp: CBS_asn1_ber_to_der_def split: prod.splits option.splits bool.splits)
  have op: "cbb_open [] s" using CBB_init_is_open [OF assms(1) i] .
  then have "cbb_ok s" "length (chain s) = Suc 0" by (simp_all add: cbb_open_def)
  from cbs_convert_ber_adds [OF this assms(1) cv] obtain x where
    x: "cbb_adds 0 x s s'" "der_forest x" by auto
  have "cbb_open x s'" using cbb_open_adds [OF op x(1)] by simp
  with out x(2) CBB_finish_open [of x s' A] show ?thesis by simp
qed

section \<open>Constructed implicit strings\<close>

lemma implicit_string_loop_sound:
  assumes "cbb_open x s" and "length child \<le> size_max"
    and "implicit_string_loop A t child s = (True, s')"
  shows "\<exists>chunks. child = concat (map (der_element t) chunks) \<and> cbb_open (x @ concat chunks) s'"
  using assms
proof (induction A t child s arbitrary: x rule: implicit_string_loop.induct)
  case (1 A t child s)
  show ?case
  proof (cases "child = []")
    case True
    with 1 show ?thesis by (intro exI [of _ "[]"]) (simp add: implicit_string_loop.simps)
  next
    case False
    with "1.prems"(3) obtain chunk c s1 where ch: "CBS_get_asn1 t child = (Some chunk, c)"
      and s1: "CBB_add_bytes A 0 chunk s = (True, s1)" and rest: "implicit_string_loop A t c s1 = (True, s')"
      by (auto simp: implicit_string_loop.simps [of A t child] split: prod.splits option.splits bool.splits)
    from ch have child: "child = der_element t chunk @ c" by (simp add: CBS_get_asn1_iff)
    with "1.prems"(2) have "length chunk \<le> size_max" "length c \<le> size_max"
      by (simp_all add: der_element_def)
    note IH = "1.IH" [OF _ ch [symmetric] refl s1 [symmetric] refl CBB_add_bytes_open [OF "1.prems"(1) this(1) s1]
        this(2) rest]
    obtain cs where "c = concat (map (der_element t) cs)" "cbb_open ((x @ chunk) @ concat cs) s'"
      using IH False by auto
    then show ?thesis by (intro exI [of _ "chunk # cs"]) (simp add: child)
  qed
qed

text \<open>A successful \<open>CBS_get_asn1_implicit_string\<close> read either a primitive string or a constructed
  one, whose fragments it has joined.\<close>

lemma CBS_get_asn1_implicit_string_sound:
  assumes "length inp \<le> size_max" and "CBS_get_asn1_implicit_string A outer inner inp = (Some out, c)"
  shows "inp = der_element outer out @ c \<or>
    (\<exists>chunks. out = concat chunks \<and>
      inp = der_element (outer OR CBS_ASN1_CONSTRUCTED) (concat (map (der_element inner) chunks)) @ c)"
proof (cases "CBS_peek_asn1_tag inp outer")
  case True
  with assms(2) show ?thesis by (simp add: CBS_get_asn1_implicit_string_def CBS_get_asn1_iff)
next
  case False
  with assms(2) obtain s child s' where i: "CBB_init A (length inp) = (True, s)"
    and ch: "CBS_get_asn1 (outer OR CBS_ASN1_CONSTRUCTED) inp = (Some child, c)"
    and l: "implicit_string_loop A inner child s = (True, s')"
    and out: "fst (CBB_finish A 0 True s') = Some out"
    by (auto simp: CBS_get_asn1_implicit_string_def split: prod.splits option.splits bool.splits)
  from ch have inp: "inp = der_element (outer OR CBS_ASN1_CONSTRUCTED) child @ c"
    by (simp add: CBS_get_asn1_iff)
  with assms(1) have "length child \<le> size_max" by (simp add: der_element_def)
  from implicit_string_loop_sound [OF CBB_init_is_open [OF assms(1) i] this l]
  obtain chunks where "child = concat (map (der_element inner) chunks)" "cbb_open (concat chunks) s'"
    by auto
  with inp out CBB_finish_open [of "concat chunks" s' A] show ?thesis by auto
qed

end
