(* ===== verification/Ex_Alloc.thy ===== *)
theory Ex_Alloc
  imports Mem
begin

text \<open>
  An allocator for the runs on concrete inputs: every request is granted, with zeroed memory; and
  one that refuses every request.
\<close>

definition ex_alloc :: alloc where
  "ex_alloc n = Some (\<lambda>_. 0)"

lemma ex_alloc_total: "\<forall>n. ex_alloc n \<noteq> None"
  by (simp add: ex_alloc_def)

definition no_alloc :: alloc where
  "no_alloc n = None"

end
