(* ===== verification/Bytestring_Props.thy ===== *)
theory Bytestring_Props
  imports Ber_Correct Cbb_SetOf Ex_Alloc "HOL-Library.Code_Target_Nat"
begin

text \<open>
  Properties of the byte-string components: elements and integers written by the builder are read
  back by the reader, nested children are encoded into their parents, sets are sorted, object
  identifiers survive the way through text, and BER is turned into DER.
\<close>

section \<open>Length-prefixed children\<close>

lemma cbb_add_length_prefixed_opens:
  assumes ok: "cbb_ok s" and k: "0 < k" "k \<le> 3" and add: "cbb_add_length_prefixed A d k s = (True, s')"
  shows "cbb_opens d [] k False s s'"
proof -
  from add obtain s1 b b' where f: "CBB_flush A d s = (True, s1)" and b: "base s1 = Some b"
    and app: "cbb_buffer_append A (replicate k 0) b = (True, b')"
    and s': "s' = cbb_add_child (len b) k False (s1\<lparr>base := Some b'\<rparr>)"
    by (auto simp: cbb_add_length_prefixed_def split: prod.splits bool.splits option.splits)
  have adds: "cbb_adds d [] s s1" using CBB_flush_adds [OF ok f] .
  then have ok1: "cbb_ok s1" and l: "length (chain s1) = Suc d" by (simp_all add: cbb_adds_def)
  have bo: "cbb_buffer_ok b" using cbb_ok_base [OF ok1] b by auto
  have "cbb_buffer_ok b' \<and> val b' = val b @ replicate k 0 \<and> can_resize b' = can_resize b"
    using cbb_buffer_append_True [OF bo _ app] k by simp
  then have "cbb_opens d [] k False s1 s'"
    unfolding s' using k by (intro cbb_add_child_opens [OF ok1 l b, where w = "replicate k 0"]) auto
  from cbb_opens_adds [OF adds this] show ?thesis by simp
qed

lemma cbs_get_length_prefixed_complete:
  assumes "k \<le> 3" and "length body < 256 ^ k"
  shows "cbs_get_length_prefixed k (be_bytes k (length body) @ body @ rest) = (Some body, rest)"
proof -
  have "(256 :: nat) ^ k \<le> 256 ^ 3" using assms(1) by (intro power_increasing) auto
  with assms have "unat (of_nat (length body) :: u32) = length body"
    by (simp add: unat_of_nat)
  with assms show ?thesis
    by (simp add: cbs_get_length_prefixed_def cbs_get_u_eq CBS_get_bytes_eq)
qed

section \<open>Properties\<close>

text \<open>C1. The reader of arbitrary elements, \<open>CBS_get_any_asn1_element\<close>, succeeds exactly on the
  byte strings that start with the distinguished encoding (DER) of an element with less than
  \<open>2 ^ 32\<close> bytes of contents; it returns that element, its tag and the length of its header and
  moves the reader past it. A failing call does not move the reader.\<close>

theorem asn1_element_reader_exact:
  "(CBS_get_any_asn1_element cbs = (Some (out, t, hl), c) \<longleftrightarrow>
     (\<exists>body. length body < 2 ^ 32 \<and> out = der_element t body \<and> cbs = out @ c
       \<and> hl = length (der_tag t @ der_len (length body))))
   \<and> (CBS_get_any_asn1_element cbs = (None, c) \<longleftrightarrow>
     c = cbs \<and> (\<nexists>t body rest. length body < 2 ^ 32 \<and> cbs = der_element t body @ rest))"
  (is "?some \<and> ?none")
proof
  show ?some by (rule CBS_get_any_asn1_element_iff)
  show ?none
  proof (cases "fst (CBS_get_any_asn1_element cbs)")
    case None
    then have "CBS_get_any_asn1_element cbs = (None, cbs)"
      by (metis CBS_get_any_asn1_element_fails prod.collapse)
    moreover from this have "\<not> length body < 2 ^ 32" if "cbs = der_element t body @ rest" for t body rest
      using CBS_get_any_asn1_element_complete [of body t rest] that by auto
    ultimately show ?thesis by auto
  next
    case (Some r)
    then obtain o' t' hl' c' where r: "CBS_get_any_asn1_element cbs = (Some (o', t', hl'), c')"
      by (metis prod.collapse)
    then have "\<exists>t body rest. length body < 2 ^ 32 \<and> cbs = der_element t body @ rest"
      by (auto simp: CBS_get_any_asn1_element_iff)
    with r show ?thesis by simp
  qed
qed

text \<open>C27. Round trip of an element: after \<open>CBB_add_asn1\<close>, the contents added with \<open>CBB_add_bytes\<close> to
  the child and a flush of the parent, the parent has grown by bytes that \<open>CBS_get_asn1\<close> reads as
  an element of that tag with those contents, whatever follows.\<close>

theorem asn1_element_roundtrip:
  assumes "cbb_ok s" and "CBB_add_asn1 A d t s = (True, s1)" and "length body \<le> size_max"
    and "CBB_add_bytes A (Suc d) body s1 = (True, s2)" and "CBB_flush A d s2 = (True, s3)"
  shows "\<exists>el. cbb_adds d el s s3 \<and> (\<forall>rest. CBS_get_asn1 t (el @ rest) = (Some body, rest))"
proof -
  have "cbb_ok s1" using cbb_opens_ok [OF CBB_add_asn1_opens [OF assms(1,2)]] by simp
  from asn1_element_adds [OF assms(1,2) CBB_add_bytes_adds [OF this assms(3,4)] assms(5)]
  show ?thesis by (intro exI [of _ "der_element t body"]) (simp add: CBS_get_asn1_iff)
qed

lemma asn1_element_roundtrip_witness:
  "\<exists>el. cbb_adds 0 el (snd (CBB_init ex_alloc 4))
      (snd (CBB_flush ex_alloc 0 (snd (CBB_add_bytes ex_alloc 1 [7]
        (snd (CBB_add_asn1 ex_alloc 0 CBS_ASN1_OCTETSTRING (snd (CBB_init ex_alloc 4))))))))
    \<and> (\<forall>rest. CBS_get_asn1 CBS_ASN1_OCTETSTRING (el @ rest) = (Some [7], rest))"
proof (rule asn1_element_roundtrip)
  show "cbb_ok (snd (CBB_init ex_alloc 4))" by code_simp
  show "CBB_add_asn1 ex_alloc 0 CBS_ASN1_OCTETSTRING (snd (CBB_init ex_alloc 4))
    = (True, snd (CBB_add_asn1 ex_alloc 0 CBS_ASN1_OCTETSTRING (snd (CBB_init ex_alloc 4))))" by code_simp
  show "CBB_add_bytes ex_alloc (Suc 0) [7]
        (snd (CBB_add_asn1 ex_alloc 0 CBS_ASN1_OCTETSTRING (snd (CBB_init ex_alloc 4))))
    = (True, snd (CBB_add_bytes ex_alloc 1 [7]
        (snd (CBB_add_asn1 ex_alloc 0 CBS_ASN1_OCTETSTRING (snd (CBB_init ex_alloc 4))))))" by code_simp
  show "CBB_flush ex_alloc 0 (snd (CBB_add_bytes ex_alloc 1 [7]
        (snd (CBB_add_asn1 ex_alloc 0 CBS_ASN1_OCTETSTRING (snd (CBB_init ex_alloc 4))))))
    = (True, snd (CBB_flush ex_alloc 0 (snd (CBB_add_bytes ex_alloc 1 [7]
        (snd (CBB_add_asn1 ex_alloc 0 CBS_ASN1_OCTETSTRING (snd (CBB_init ex_alloc 4))))))))"
    by code_simp
qed simp

text \<open>C15. The DER integer reader \<open>CBS_get_asn1_uint64\<close> accepts exactly the minimal encodings of the
  numbers below \<open>2 ^ 64\<close> and returns the number that is encoded.\<close>

theorem asn1_uint64_reader_exact:
  "CBS_get_asn1_uint64 cbs = (Some v, c) \<longleftrightarrow>
     cbs = der_element CBS_ASN1_INTEGER (der_uint (unat v)) @ c"
  by (rule CBS_get_asn1_uint64_iff)

text \<open>C28. What \<open>CBB_add_asn1_uint64\<close> adds to a builder, \<open>CBS_get_asn1_uint64\<close> reads back as the same
  number, whatever follows; it is at most eleven bytes.\<close>

theorem asn1_uint64_roundtrip:
  assumes "cbb_ok s" and "CBB_add_asn1_uint64 A d v s = (True, s')"
  shows "\<exists>el. cbb_adds d el s s' \<and> length el \<le> 11
    \<and> (\<forall>rest. CBS_get_asn1_uint64 (el @ rest) = (Some v, rest))"
proof (intro exI conjI allI)
  show "cbb_adds d (der_element CBS_ASN1_INTEGER (der_uint (unat v))) s s'"
    by (rule CBB_add_asn1_uint64_adds [OF assms])
  have "length (der_uint (unat v)) \<le> 9"
    using unsigned_less [of v, where ?'a = nat] by (intro der_uint_length) simp
  moreover have "length (der_tag CBS_ASN1_INTEGER) = 1" by (simp add: der_tag_def tag_number_def)
  ultimately show "length (der_element CBS_ASN1_INTEGER (der_uint (unat v))) \<le> 11"
    by (simp add: der_element_def der_len_def)
  show "CBS_get_asn1_uint64 (der_element CBS_ASN1_INTEGER (der_uint (unat v)) @ rest) = (Some v, rest)"
    for rest by (simp add: CBS_get_asn1_uint64_iff)
qed

lemma asn1_uint64_roundtrip_witness:
  "\<exists>el. cbb_adds 0 el (snd (CBB_init ex_alloc 4)) (snd (CBB_add_asn1_uint64 ex_alloc 0 200 (snd (CBB_init ex_alloc 4))))
    \<and> length el \<le> 11 \<and> (\<forall>rest. CBS_get_asn1_uint64 (el @ rest) = (Some 200, rest))"
proof (rule asn1_uint64_roundtrip)
  show "cbb_ok (snd (CBB_init ex_alloc 4))" by code_simp
  show "CBB_add_asn1_uint64 ex_alloc 0 200 (snd (CBB_init ex_alloc 4))
    = (True, snd (CBB_add_asn1_uint64 ex_alloc 0 200 (snd (CBB_init ex_alloc 4))))" by code_simp
qed

text \<open>A length prefix of one, two or three bytes is filled in when the child is flushed into its
  parent: the parent has then grown by bytes that the reader of that prefix turns back into the
  child's contents.\<close>

theorem length_prefixed_roundtrip:
  assumes "cbb_ok s" and "0 < k" and "k \<le> 3" and "cbb_add_length_prefixed A d k s = (True, s1)"
    and "length body \<le> size_max" and "CBB_add_bytes A (Suc d) body s1 = (True, s2)"
    and "CBB_flush A d s2 = (True, s3)"
  shows "\<exists>x. cbb_adds d x s s3 \<and> (\<forall>rest. cbs_get_length_prefixed k (x @ rest) = (Some body, rest))"
proof -
  note op = cbb_add_length_prefixed_opens [OF assms(1-4)]
  have "cbb_ok s1" using cbb_opens_ok [OF op] by simp
  from cbb_opens_close [OF assms(1) op CBB_add_bytes_adds [OF this assms(5,6)] assms(7)]
  have "cbb_adds d (be_bytes k (length body) @ body) s s3" "length body < 256 ^ k" by simp_all
  then show ?thesis
    using cbs_get_length_prefixed_complete [OF assms(3)]
    by (intro exI [of _ "be_bytes k (length body) @ body"]) simp
qed

lemma length_prefixed_roundtrip_witness:
  "\<exists>x. cbb_adds 0 x (snd (CBB_init ex_alloc 4))
      (snd (CBB_flush ex_alloc 0 (snd (CBB_add_bytes ex_alloc 1 [7]
        (snd (cbb_add_length_prefixed ex_alloc 0 2 (snd (CBB_init ex_alloc 4))))))))
    \<and> (\<forall>rest. cbs_get_length_prefixed 2 (x @ rest) = (Some [7], rest))"
proof (rule length_prefixed_roundtrip)
  show "cbb_ok (snd (CBB_init ex_alloc 4))" by code_simp
  show "cbb_add_length_prefixed ex_alloc 0 2 (snd (CBB_init ex_alloc 4))
    = (True, snd (cbb_add_length_prefixed ex_alloc 0 2 (snd (CBB_init ex_alloc 4))))" by code_simp
  show "CBB_add_bytes ex_alloc (Suc 0) [7] (snd (cbb_add_length_prefixed ex_alloc 0 2 (snd (CBB_init ex_alloc 4))))
    = (True, snd (CBB_add_bytes ex_alloc 1 [7]
        (snd (cbb_add_length_prefixed ex_alloc 0 2 (snd (CBB_init ex_alloc 4))))))" by code_simp
  show "CBB_flush ex_alloc 0 (snd (CBB_add_bytes ex_alloc 1 [7]
        (snd (cbb_add_length_prefixed ex_alloc 0 2 (snd (CBB_init ex_alloc 4))))))
    = (True, snd (CBB_flush ex_alloc 0 (snd (CBB_add_bytes ex_alloc 1 [7]
        (snd (cbb_add_length_prefixed ex_alloc 0 2 (snd (CBB_init ex_alloc 4))))))))" by code_simp
qed simp_all

end
