(* ===== verification/Asn1_Props.thy ===== *)
theory Asn1_Props
  imports Ber_Correct Cbb_SetOf Ex_Alloc "HOL-Library.Code_Target_Nat"
begin

text \<open>
  Properties of whole builder trees, sets, object identifiers and the conversion from BER to DER.
\<close>

lemma close_frames_one: "cs = [] \<Longrightarrow> close_frames cs [f] = f"
  by simp

lemma CBB_finish_frames:
  assumes ok: "cbb_ok s" and fin: "CBB_finish A 0 want s = (Some out, s')"
  shows "out = close_frames (tl (chain s)) (cbb_frames s) \<and> base s' = None"
proof -
  from fin obtain s1 b where f: "CBB_flush A 0 s = (True, s1)" and b: "base s1 = Some b"
    and out: "out = val b" "base s' = None"
    by (auto simp: CBB_finish_def CBB_cleanup_def val_def split: if_splits prod.splits bool.splits option.splits)
  have "cbb_frames s1 = flush_frames 0 (tl (chain s)) (cbb_frames s)" "tl (chain s1) = []"
    using CBB_flush_True [OF ok f] by (simp_all add: take_Suc)
  then show ?thesis using b out by (simp add: cbb_frames_def flush_frames_def)
qed

lemma length_dotted_ge: "length ns \<le> length (dotted (oid_split v @ ns))"
proof -
  have "length ns \<le> length (oid_tail ns)" by (induction ns) simp_all
  then show ?thesis by (simp add: dotted_tail)
qed

section \<open>Properties\<close>

text \<open>C9. \<open>CBB_finish\<close> on a builder with any chain of unflushed children returns the contents of all
  open levels, each encoded with its length prefix (fixed width or DER) into the level above, and
  releases the builder.\<close>

theorem builder_finish_encodes_chain:
  assumes "cbb_ok s" and "CBB_finish A 0 want s = (Some out, s')"
  shows "out = close_frames (tl (chain s)) (cbb_frames s) \<and> base s' = None"
  using assms by (rule CBB_finish_frames)

lemma builder_finish_encodes_chain_witness:
  "[0x30, 1, 7] = close_frames (tl (chain (snd (CBB_add_u8 ex_alloc 1 7 (snd (CBB_add_asn1 ex_alloc 0 0x20000010
        (snd (CBB_init ex_alloc 4))))))))
      (cbb_frames (snd (CBB_add_u8 ex_alloc 1 7 (snd (CBB_add_asn1 ex_alloc 0 0x20000010 (snd (CBB_init ex_alloc 4)))))))
    \<and> base (snd (CBB_finish ex_alloc 0 True (snd (CBB_add_u8 ex_alloc 1 7 (snd (CBB_add_asn1 ex_alloc 0 0x20000010
        (snd (CBB_init ex_alloc 4)))))))) = None"
proof (rule builder_finish_encodes_chain)
  show "cbb_ok (snd (CBB_add_u8 ex_alloc 1 7 (snd (CBB_add_asn1 ex_alloc 0 0x20000010 (snd (CBB_init ex_alloc 4))))))"
    by code_simp
  show "CBB_finish ex_alloc 0 True
      (snd (CBB_add_u8 ex_alloc 1 7 (snd (CBB_add_asn1 ex_alloc 0 0x20000010 (snd (CBB_init ex_alloc 4))))))
    = (Some [0x30, 1, 7], snd (CBB_finish ex_alloc 0 True
      (snd (CBB_add_u8 ex_alloc 1 7 (snd (CBB_add_asn1 ex_alloc 0 0x20000010 (snd (CBB_init ex_alloc 4))))))))"
    by code_simp
qed

text \<open>C29. A successful \<open>CBB_flush_asn1_set_of\<close> replaces the elements in the contents of a SET OF by
  the same elements in ascending order of their encodings and leaves the other levels alone.\<close>

theorem set_of_sorted:
  assumes "cbb_ok s" and "CBB_flush_asn1_set_of A d s = (True, s')"
  shows "\<exists>s1 children. CBB_flush A d s = (True, s1)
    \<and> (\<forall>x \<in> set children. \<exists>t body. length body < 2 ^ 32 \<and> x = der_element t body)
    \<and> last (cbb_frames s1) = concat children
    \<and> cbb_ok s' \<and> chain s' = chain s1
    \<and> cbb_frames s' = butlast (cbb_frames s1) @ [concat (sort children)]"
  using assms by (rule CBB_flush_asn1_set_of_cases)

lemma set_of_sorted_witness:
  "\<exists>s1 children. CBB_flush ex_alloc 0 (snd (CBB_add_bytes ex_alloc 0 [4, 0, 2, 0] (snd (CBB_init ex_alloc 4)))) = (True, s1)
    \<and> (\<forall>x \<in> set children. \<exists>t body. length body < 2 ^ 32 \<and> x = der_element t body)
    \<and> last (cbb_frames s1) = concat children
    \<and> cbb_ok (snd (CBB_flush_asn1_set_of ex_alloc 0 (snd (CBB_add_bytes ex_alloc 0 [4, 0, 2, 0] (snd (CBB_init ex_alloc 4))))))
    \<and> chain (snd (CBB_flush_asn1_set_of ex_alloc 0 (snd (CBB_add_bytes ex_alloc 0 [4, 0, 2, 0] (snd (CBB_init ex_alloc 4)))))) = chain s1
    \<and> cbb_frames (snd (CBB_flush_asn1_set_of ex_alloc 0 (snd (CBB_add_bytes ex_alloc 0 [4, 0, 2, 0] (snd (CBB_init ex_alloc 4))))))
      = butlast (cbb_frames s1) @ [concat (sort children)]"
proof (rule set_of_sorted)
  show "cbb_ok (snd (CBB_add_bytes ex_alloc 0 [4, 0, 2, 0] (snd (CBB_init ex_alloc 4))))" by code_simp
  show "CBB_flush_asn1_set_of ex_alloc 0 (snd (CBB_add_bytes ex_alloc 0 [4, 0, 2, 0] (snd (CBB_init ex_alloc 4)))) =
    (True, snd (CBB_flush_asn1_set_of ex_alloc 0 (snd (CBB_add_bytes ex_alloc 0 [4, 0, 2, 0] (snd (CBB_init ex_alloc 4))))))"
    by code_simp
qed

text \<open>C30. An object identifier that \<open>CBB_add_asn1_oid_from_text\<close> accepts is written as contents
  octets that \<open>CBS_asn1_oid_to_text\<close> turns back into the same text (with its terminating zero).\<close>

theorem oid_text_roundtrip:
  assumes "cbb_ok s" and "CBB_add_asn1_oid_from_text A d txt s = (True, s')"
    and "\<forall>n. B n \<noteq> None" and "length txt < 2 ^ 32"
  shows "\<exists>x. cbb_adds d x s s' \<and> CBS_asn1_oid_to_text B x = Some (txt @ [0])"
proof -
  obtain v ns where x: "cbb_adds d (oid_contents v ns) s s'" "txt = dotted (oid_split v @ ns)"
    "v < 2 ^ 64" "\<forall>n \<in> set ns. n < 2 ^ 64"
    using CBB_add_asn1_oid_from_text_sound [OF assms(1,2)] by blast
  have "length ns < 2 ^ 32" using length_dotted_ge [of ns v] x(2) assms(4) by simp
  then have "CBS_asn1_oid_to_text B (oid_contents v ns) = Some (txt @ [0])"
    unfolding x(2) by (intro CBS_asn1_oid_to_text_total assms(3) x(3,4)) simp
  with x(1) show ?thesis by blast
qed

lemma oid_text_roundtrip_witness:
  "\<exists>x. cbb_adds 0 x (snd (CBB_init ex_alloc 4))
      (snd (CBB_add_asn1_oid_from_text ex_alloc 0 [49, 46, 50, 46, 51] (snd (CBB_init ex_alloc 4))))
    \<and> CBS_asn1_oid_to_text ex_alloc x = Some ([49, 46, 50, 46, 51] @ [0])"
proof (rule oid_text_roundtrip)
  show "cbb_ok (snd (CBB_init ex_alloc 4))" by code_simp
  show "CBB_add_asn1_oid_from_text ex_alloc 0 [49, 46, 50, 46, 51] (snd (CBB_init ex_alloc 4)) =
    (True, snd (CBB_add_asn1_oid_from_text ex_alloc 0 [49, 46, 50, 46, 51] (snd (CBB_init ex_alloc 4))))"
    by code_simp
qed (simp_all add: ex_alloc_total)

text \<open>C31. When \<open>CBS_asn1_ber_to_der\<close> converts, its output is a sequence of DER elements in which no
  constructed string is left at any level, in which \<open>cbs_find_ber\<close> finds nothing, and which a second
  call leaves as it is.\<close>

theorem ber_to_der_output:
  assumes "length inp \<le> size_max" and "CBS_asn1_ber_to_der A inp = (Some (Some out), c)"
  shows "der_forest out \<and> snd (cbs_find_ber out 0) = False
    \<and> CBS_asn1_ber_to_der B out \<in> {(None, out), (Some None, out)}"
proof -
  have f: "der_forest out" by (rule CBS_asn1_ber_to_der_sound [OF assms])
  then have "snd (cbs_find_ber out 0) = False"
    by (simp add: cbs_find_ber_def der_forest_no_ber)
  moreover from this have "CBS_asn1_ber_to_der B out \<in> {(None, out), (Some None, out)}"
    by (cases "cbs_find_ber out 0") (auto simp: CBS_asn1_ber_to_der_def split: bool.splits)
  ultimately show ?thesis using f by simp
qed

lemma ber_to_der_output_witness:
  "der_forest [4, 1, 65] \<and> snd (cbs_find_ber [4, 1, 65] 0) = False
    \<and> CBS_asn1_ber_to_der no_alloc [4, 1, 65] \<in> {(None, [4, 1, 65]), (Some None, [4, 1, 65])}"
proof (rule ber_to_der_output)
  show "CBS_asn1_ber_to_der ex_alloc [0x24, 0x80, 4, 1, 65, 0, 0] = (Some (Some [4, 1, 65]), [])"
    by code_simp
qed simp

text \<open>A string that \<open>CBS_get_asn1_implicit_string\<close> returns is the contents of a primitive element
  with the outer tag, or the concatenation of the contents of the inner elements of a constructed
  one; the reader has moved past exactly that element.\<close>

theorem implicit_string_contents:
  assumes "length inp \<le> size_max" and "CBS_get_asn1_implicit_string A outer inner inp = (Some out, c)"
  shows "inp = der_element outer out @ c \<or>
    (\<exists>chunks. out = concat chunks \<and>
      inp = der_element (outer OR CBS_ASN1_CONSTRUCTED) (concat (map (der_element inner) chunks)) @ c)"
  using assms by (rule CBS_get_asn1_implicit_string_sound)

lemma implicit_string_contents_witness:
  "[0xa0, 6, 4, 1, 65, 4, 1, 66, 9] = der_element 0x80000000 [65, 66] @ [9] \<or>
    (\<exists>chunks. [65, 66] = concat chunks \<and>
      [0xa0, 6, 4, 1, 65, 4, 1, 66, 9] =
        der_element (0x80000000 OR CBS_ASN1_CONSTRUCTED) (concat (map (der_element 4) chunks)) @ [9])"
proof (rule implicit_string_contents)
  show "CBS_get_asn1_implicit_string ex_alloc 0x80000000 4 [0xa0, 6, 4, 1, 65, 4, 1, 66, 9] = (Some [65, 66], [9])"
    by code_simp
qed simp

text \<open>An example of how \<open>cbs_find_ber\<close> forgets what it has found: its recursive call resets \<open>*ber_found\<close>, so a
  constructed element after the one with the BER hides it. On this input, a SEQUENCE of a SEQUENCE holding a
  constructed OCTET STRING and of an empty SEQUENCE is reported as free of BER, and
  \<open>CBS_asn1_ber_to_der\<close> does not convert it; without the second SEQUENCE it is found.\<close>

lemma find_ber_forgets:
  "cbs_find_ber [0x30, 9, 0x30, 5, 0x24, 3, 4, 1, 65, 0x30, 0] 0 = (True, False)
   \<and> fst (CBS_asn1_ber_to_der A [0x30, 9, 0x30, 5, 0x24, 3, 4, 1, 65, 0x30, 0]) = Some None
   \<and> cbs_find_ber [0x30, 7, 0x30, 5, 0x24, 3, 4, 1, 65] 0 = (True, True)"
proof -
  have 1: "cbs_find_ber [0x30, 9, 0x30, 5, 0x24, 3, 4, 1, 65, 0x30, 0] 0 = (True, False)" by code_simp
  have "cbs_find_ber [0x30, 7, 0x30, 5, 0x24, 3, 4, 1, 65] 0 = (True, True)" by code_simp
  with 1 show ?thesis by (simp add: CBS_asn1_ber_to_der_def)
qed

end
