(* ===== verification/Consttime.thy ===== *)
theory Consttime
  imports Prelude
begin

text \<open>
  The constant-time helpers of \<open>crypto/internal.h\<close>: comparisons that return an all-ones or an
  all-zeros word and the selection by such a mask, computed without branches, and the theorems
  that they are the comparison and the conditional they stand for.
\<close>

type_synonym crypto_word_t = u64

definition constant_time_msb_w :: "crypto_word_t \<Rightarrow> crypto_word_t" where
  "constant_time_msb_w a = 0 - drop_bit (64 - 1) a"

definition constant_time_lt_w :: "crypto_word_t \<Rightarrow> crypto_word_t \<Rightarrow> crypto_word_t" where
  "constant_time_lt_w a b = constant_time_msb_w (a XOR ((a XOR b) OR ((a - b) XOR a)))"

definition constant_time_lt_8 :: "crypto_word_t \<Rightarrow> crypto_word_t \<Rightarrow> u8" where
  "constant_time_lt_8 a b = ucast (constant_time_lt_w a b)"

definition constant_time_ge_w :: "crypto_word_t \<Rightarrow> crypto_word_t \<Rightarrow> crypto_word_t" where
  "constant_time_ge_w a b = NOT (constant_time_lt_w a b)"

definition constant_time_ge_8 :: "crypto_word_t \<Rightarrow> crypto_word_t \<Rightarrow> u8" where
  "constant_time_ge_8 a b = ucast (constant_time_ge_w a b)"

definition constant_time_is_zero_w :: "crypto_word_t \<Rightarrow> crypto_word_t" where
  "constant_time_is_zero_w a = constant_time_msb_w (NOT a AND (a - 1))"

definition constant_time_is_zero_8 :: "crypto_word_t \<Rightarrow> u8" where
  "constant_time_is_zero_8 a = ucast (constant_time_is_zero_w a)"

definition constant_time_eq_w :: "crypto_word_t \<Rightarrow> crypto_word_t \<Rightarrow> crypto_word_t" where
  "constant_time_eq_w a b = constant_time_is_zero_w (a XOR b)"

definition constant_time_eq_8 :: "crypto_word_t \<Rightarrow> crypto_word_t \<Rightarrow> u8" where
  "constant_time_eq_8 a b = ucast (constant_time_eq_w a b)"

definition constant_time_select_w ::
    "crypto_word_t \<Rightarrow> crypto_word_t \<Rightarrow> crypto_word_t \<Rightarrow> crypto_word_t" where
  "constant_time_select_w m a b = ((m AND a) OR (NOT m AND b))"

definition constant_time_select_8 :: "u8 \<Rightarrow> u8 \<Rightarrow> u8 \<Rightarrow> u8" where
  "constant_time_select_8 m a b = ucast (constant_time_select_w (ucast m) (ucast a) (ucast b))"

section \<open>Correctness\<close>

text \<open>The mask of a truth value.\<close>

definition ct_mask :: "bool \<Rightarrow> 'a::len word" where
  "ct_mask P = (if P then - 1 else 0)"

lemma bit_63_plus: "bit (a :: u64) (63 + n) \<longleftrightarrow> n = 0 \<and> bit a 63"
  using bit_imp_le_length [of a "63 + n"] by auto

lemma bit_63_iff: "bit (a :: u64) 63 \<longleftrightarrow> 2 ^ 63 \<le> unat a"
proof -
  have "drop_bit 63 a = 0 \<longleftrightarrow> unat a < 2 ^ 63"
    by (rule drop_bit_eq_0_iff_less)
  moreover have "drop_bit 63 a = 0 \<longleftrightarrow> \<not> bit a 63"
  proof
    assume "drop_bit 63 a = 0"
    then have "\<not> bit (drop_bit 63 a) 0" by simp
    then show "\<not> bit a 63" by (simp add: bit_drop_bit_eq del: drop_bit_eq_div)
  next
    assume "\<not> bit a 63"
    then show "drop_bit 63 a = 0"
      by (intro bit_word_eqI) (auto simp: bit_simps bit_63_plus)
  qed
  ultimately show ?thesis by auto
qed

lemma constant_time_msb_w_eq: "constant_time_msb_w a = ct_mask (bit a 63)"
proof -
  have "drop_bit 63 a = (if bit a 63 then 1 else 0)"
    by (rule bit_word_eqI) (auto simp: bit_simps bit_63_plus)
  then show ?thesis
    by (simp add: constant_time_msb_w_def ct_mask_def)
qed

lemma constant_time_lt_w_eq: "constant_time_lt_w a b = ct_mask (a < b)"
proof -
  have "bit (a XOR ((a XOR b) OR ((a - b) XOR a))) 63 \<longleftrightarrow> a < b"
  proof (cases "bit a 63 = bit b 63")
    case True
    then have "bit (a XOR ((a XOR b) OR ((a - b) XOR a))) 63 \<longleftrightarrow> bit (a - b) 63"
      by (auto simp: bit_simps)
    also have "\<dots> \<longleftrightarrow> a < b"
    proof (cases "a < b")
      case lt: True
      then have "unat (a - b) = 2 ^ 64 + unat a - unat b"
        by (simp add: unat_sub_if_size word_size word_less_nat_alt)
      with lt True show ?thesis
        using unsigned_less [of b, where ?'a = nat] unsigned_less [of a, where ?'a = nat]
        by (auto simp: bit_63_iff word_less_nat_alt simp del: unsigned_less)
    next
      case ge: False
      then have "unat (a - b) = unat a - unat b"
        by (simp add: unat_sub_if_size word_less_nat_alt)
      with ge True show ?thesis
        using unsigned_less [of a, where ?'a = nat]
        by (auto simp: bit_63_iff word_less_nat_alt simp del: unsigned_less)
    qed
    finally show ?thesis .
  next
    case False
    then show ?thesis
      by (auto simp: bit_simps) (auto simp: bit_63_iff word_less_nat_alt)
  qed
  then show ?thesis by (simp only: constant_time_lt_w_def constant_time_msb_w_eq)
qed

lemma constant_time_is_zero_w_eq: "constant_time_is_zero_w a = ct_mask (a = 0)"
proof -
  have "bit (NOT a AND (a - 1)) 63 \<longleftrightarrow> a = 0"
  proof (cases "a = 0")
    case True
    then show ?thesis by (simp add: bit_simps)
  next
    case False
    then have "unat (a - 1) = unat a - 1"
      by (simp add: unat_sub unat_gt_0 word_le_nat_alt Suc_le_eq)
    moreover have "bit (NOT a AND (a - 1)) 63 \<longleftrightarrow> \<not> bit a 63 \<and> bit (a - 1) 63"
      by (simp add: bit_simps)
    ultimately show ?thesis using False by (auto simp: bit_63_iff)
  qed
  then show ?thesis by (simp only: constant_time_is_zero_w_def constant_time_msb_w_eq)
qed

lemma ucast_ct_mask [simp]: "ucast (ct_mask P :: u64) = (ct_mask P :: u8)"
  by (simp add: ct_mask_def) (auto intro!: bit_word_eqI simp: bit_simps)

lemma constant_time_8_eq:
  "constant_time_lt_8 a b = ct_mask (a < b)" "constant_time_ge_8 a b = ct_mask (a \<ge> b)"
  "constant_time_eq_8 a b = ct_mask (a = b)" "constant_time_is_zero_8 a = ct_mask (a = 0)"
proof -
  have n: "NOT (ct_mask P :: u64) = ct_mask (\<not> P)" for P by (simp add: ct_mask_def)
  show "constant_time_lt_8 a b = ct_mask (a < b)"
    by (simp add: constant_time_lt_8_def constant_time_lt_w_eq)
  show "constant_time_ge_8 a b = ct_mask (a \<ge> b)"
    by (simp add: constant_time_ge_8_def constant_time_ge_w_def constant_time_lt_w_eq n not_less)
  show "constant_time_eq_8 a b = ct_mask (a = b)"
    by (simp add: constant_time_eq_8_def constant_time_eq_w_def constant_time_is_zero_w_eq)
  show "constant_time_is_zero_8 a = ct_mask (a = 0)"
    by (simp add: constant_time_is_zero_8_def constant_time_is_zero_w_eq)
qed

lemma constant_time_select_w_eq: "constant_time_select_w (ct_mask P) a b = (if P then a else b)"
  by (simp add: constant_time_select_w_def ct_mask_def)

lemma constant_time_select_8_eq: "constant_time_select_8 (ct_mask P) a b = (if P then a else b)"
proof -
  have "constant_time_select_w (ucast (ct_mask P :: u8)) (ucast a) (ucast b) = (if P then ucast a else ucast b :: u64)"
    by (cases P) (auto intro!: bit_word_eqI simp: constant_time_select_w_def ct_mask_def bit_simps
        dest!: bit_imp_le_length [where ?'a = 8])
  then show ?thesis
    by (simp add: constant_time_select_8_def) (auto intro!: bit_word_eqI simp: bit_simps)
qed

lemmas consttime_simps = constant_time_8_eq constant_time_lt_w_eq constant_time_is_zero_w_eq
  constant_time_select_w_eq constant_time_select_8_eq

end
