(* ===== verification/Base64.thy ===== *)
theory Base64
  imports Consttime
begin

text \<open>
  Base64 as in \<open>crypto/base64/base64.c\<close>: the constant-time character conversions, the block and
  the streaming encoder, and the block and the streaming decoder. A buffer that a call fills is the
  list of the bytes the call has written to it, in order.
\<close>

abbreviation (input) INT_MAX :: nat where "INT_MAX \<equiv> 2147483647"

section \<open>Characters\<close>

definition constant_time_lt_args_8 :: "u8 \<Rightarrow> u8 \<Rightarrow> u8" where
  "constant_time_lt_args_8 a b = ucast (constant_time_msb_w (ucast a - ucast b))"

definition constant_time_in_range_8 :: "u8 \<Rightarrow> u8 \<Rightarrow> u8 \<Rightarrow> u8" where
  "constant_time_in_range_8 a mn mx = constant_time_lt_args_8 (a - mn) (mx - mn + 1)"

definition conv_bin2ascii :: "u8 \<Rightarrow> u8" where
  "conv_bin2ascii a =
     (let a = a AND 0x3f;
          ret = constant_time_select_8 (constant_time_eq_8 (ucast a) 62) 43 47;
          ret = constant_time_select_8 (constant_time_lt_args_8 a 62) (a - 52 + 48) ret;
          ret = constant_time_select_8 (constant_time_lt_args_8 a 52) (a - 26 + 97) ret
      in constant_time_select_8 (constant_time_lt_args_8 a 26) (a + 65) ret)"

definition base64_ascii_to_bin :: "u8 \<Rightarrow> u8" where
  "base64_ascii_to_bin a =
     (let is_upper = constant_time_in_range_8 a 65 90;
          is_lower = constant_time_in_range_8 a 97 122;
          is_digit = constant_time_in_range_8 a 48 57;
          is_plus = constant_time_eq_8 (ucast a) 43;
          is_slash = constant_time_eq_8 (ucast a) 47;
          is_equals = constant_time_eq_8 (ucast a) 61;
          ret = 0xff;
          ret = constant_time_select_8 is_upper (a - 65) ret;
          ret = constant_time_select_8 is_lower (a - 97 + 26) ret;
          ret = constant_time_select_8 is_digit (a - 48 + 52) ret;
          ret = constant_time_select_8 is_plus 62 ret;
          ret = constant_time_select_8 is_slash 63 ret
      in constant_time_select_8 is_equals 0 ret)"

section \<open>Encoding\<close>

definition EVP_EncodedLength :: "nat \<Rightarrow> nat option" where
  "EVP_EncodedLength len =
     (if size_add len 2 < len then None
      else let len = size_add len 2 div 3
           in if size_mult len 4 div 4 \<noteq> len then None
              else let len = size_mult len 4
                   in if size_add len 1 < len then None else Some (size_add len 1))"

text \<open>The loop of \<open>EVP_EncodeBlock\<close>: the characters written and \<open>ret\<close>.\<close>

fun encode_block_loop :: "bytes \<Rightarrow> nat \<Rightarrow> bytes \<times> nat" where
  "encode_block_loop [] ret = ([], ret)"
| "encode_block_loop [a] ret =
     (let l = push_bit 16 (ucast a) :: u32
      in ([conv_bin2ascii (ucast (drop_bit 18 l)), conv_bin2ascii (ucast (drop_bit 12 l)), 61, 61], ret + 4))"
| "encode_block_loop [a, b] ret =
     (let l = push_bit 16 (ucast a) OR push_bit 8 (ucast b) :: u32
      in ([conv_bin2ascii (ucast (drop_bit 18 l)), conv_bin2ascii (ucast (drop_bit 12 l)),
           conv_bin2ascii (ucast (drop_bit 6 l)), 61], ret + 4))"
| "encode_block_loop (a # b # c # src) ret =
     (let l = push_bit 16 (ucast a) OR push_bit 8 (ucast b) OR ucast c :: u32;
          (dst, ret) = encode_block_loop src (ret + 4)
      in (conv_bin2ascii (ucast (drop_bit 18 l)) # conv_bin2ascii (ucast (drop_bit 12 l)) #
          conv_bin2ascii (ucast (drop_bit 6 l)) # conv_bin2ascii (ucast l) # dst, ret))"

text \<open>\<open>EVP_EncodeBlock\<close>: the bytes written to \<open>dst\<close>, with the final NUL, and the result.\<close>

definition EVP_EncodeBlock :: "bytes \<Rightarrow> bytes \<times> nat" where
  "EVP_EncodeBlock src = (case encode_block_loop src 0 of (dst, ret) \<Rightarrow> (dst @ [0], ret))"

record EVP_ENCODE_CTX =
  data_used :: nat
  ctx_data :: bytes
  eof_seen :: bool
  error_encountered :: bool

definition EVP_EncodeInit :: EVP_ENCODE_CTX where
  "EVP_EncodeInit = \<lparr>data_used = 0, ctx_data = replicate 48 0, eof_seen = False, error_encountered = False\<rparr>"

text \<open>\<open>memcpy\<close> into a buffer at an offset.\<close>

definition copy_at :: "bytes \<Rightarrow> nat \<Rightarrow> bytes \<Rightarrow> bytes" where
  "copy_at buf off d = take off buf @ d @ drop (off + length d) buf"

text \<open>One line: the encoded block and the newline. The NUL that the code writes behind it is
  overwritten by the next line; the NUL behind the last line is written by the callers below.\<close>

definition encode_line :: "bytes \<Rightarrow> bytes \<times> nat" where
  "encode_line src = (case EVP_EncodeBlock src of (dst, encoded) \<Rightarrow> (take encoded dst @ [10], encoded + 1))"

text \<open>The loop over the full blocks of the input of \<open>EVP_EncodeUpdate\<close>: the bytes written and
  \<open>total\<close> (\<open>None\<close> when it wraps, where the call returns with \<open>*out_len = 0\<close>), and the input left.\<close>

function encode_update_loop :: "bytes \<Rightarrow> nat \<Rightarrow> bytes \<times> nat option \<times> bytes" where
  "encode_update_loop inp tot =
     (if length inp \<ge> 48 then
        (case encode_line (take 48 inp) of
           (dst, n) \<Rightarrow>
             if size_add tot n < tot then (dst, None, drop 48 inp)
             else (case encode_update_loop (drop 48 inp) (size_add tot n) of
                     (out, t, rest) \<Rightarrow> (dst @ out, t, rest)))
      else ([], Some tot, inp))"
  by pat_completeness auto
termination
  by (relation "measure (\<lambda>(inp, _). length inp)") auto

declare encode_update_loop.simps [simp del]

text \<open>\<open>EVP_EncodeUpdate\<close>: the lines written to \<open>out\<close>, \<open>*out_len\<close> and the context. The code also writes a NUL
  behind the last line, which is not counted in \<open>*out_len\<close> and is not part of the list here; the caller's buffer
  needs room for it.\<close>

definition EVP_EncodeUpdate :: "EVP_ENCODE_CTX \<Rightarrow> bytes \<Rightarrow> bytes \<times> nat \<times> EVP_ENCODE_CTX" where
  "EVP_EncodeUpdate ctx inp =
     (if length inp = 0 then ([], 0, ctx)
      else if 48 - data_used ctx > length inp
      then ([], 0, ctx\<lparr>ctx_data := copy_at (ctx_data ctx) (data_used ctx) inp,
                       data_used := data_used ctx + length inp\<rparr>)
      else
        (let (out, tot, ctx, inp) =
           (if data_used ctx \<noteq> 0 then
              (let todo = 48 - data_used ctx;
                   d = copy_at (ctx_data ctx) (data_used ctx) (take todo inp);
                   (dst, n) = encode_line d
               in (dst, n, ctx\<lparr>ctx_data := d, data_used := 0\<rparr>, drop todo inp))
            else ([], 0, ctx, inp))
         in case encode_update_loop inp tot of
              (out', None, _) \<Rightarrow> (out @ out', 0, ctx)
            | (out', Some tot, inp) \<Rightarrow>
                (out @ out', if tot > INT_MAX then 0 else tot,
                 ctx\<lparr>ctx_data := (if length inp \<noteq> 0 then copy_at (ctx_data ctx) 0 inp else ctx_data ctx),
                     data_used := length inp\<rparr>)))"

definition EVP_EncodeFinal :: "EVP_ENCODE_CTX \<Rightarrow> bytes \<times> nat \<times> EVP_ENCODE_CTX" where
  "EVP_EncodeFinal ctx =
     (if data_used ctx = 0 then ([], 0, ctx)
      else (case encode_line (take (data_used ctx) (ctx_data ctx)) of
              (dst, n) \<Rightarrow> (dst, n, ctx\<lparr>data_used := 0\<rparr>)))"

section \<open>Decoding\<close>

definition EVP_DecodedLength :: "nat \<Rightarrow> nat option" where
  "EVP_DecodedLength len = (if len mod 4 \<noteq> 0 then None else Some (size_mult (len div 4) 3))"

definition EVP_DecodeInit :: EVP_ENCODE_CTX where
  "EVP_DecodeInit = \<lparr>data_used = 0, ctx_data = replicate 48 0, eof_seen = False, error_encountered = False\<rparr>"

text \<open>\<open>base64_decode_quad\<close> on the four characters: the bytes written to \<open>out\<close>.\<close>

definition base64_decode_quad :: "u8 \<Rightarrow> u8 \<Rightarrow> u8 \<Rightarrow> u8 \<Rightarrow> bytes option" where
  "base64_decode_quad i0 i1 i2 i3 =
     (let a = base64_ascii_to_bin i0; b = base64_ascii_to_bin i1;
          c = base64_ascii_to_bin i2; d = base64_ascii_to_bin i3
      in if a = 0xff \<or> b = 0xff \<or> c = 0xff \<or> d = 0xff then None
         else
           (let v = push_bit 18 (ucast a) OR push_bit 12 (ucast b) OR push_bit 6 (ucast c) OR ucast d :: u32
            in case (i0 = 61, i1 = 61, i2 = 61, i3 = 61) of
                 (False, False, False, False) \<Rightarrow> Some [ucast (drop_bit 16 v), ucast (drop_bit 8 v), ucast v]
               | (False, False, False, True) \<Rightarrow> Some [ucast (drop_bit 16 v), ucast (drop_bit 8 v)]
               | (False, False, True, True) \<Rightarrow> Some [ucast (drop_bit 16 v)]
               | _ \<Rightarrow> None))"

text \<open>The loop of \<open>EVP_DecodeUpdate\<close>: the bytes written, whether the call returns -1 from inside the
  loop, and the context. \<open>ctx_data\<close> is the array of 48 bytes.\<close>

fun decode_update_loop :: "EVP_ENCODE_CTX \<Rightarrow> bytes \<Rightarrow> bytes \<times> bool \<times> EVP_ENCODE_CTX" where
  "decode_update_loop ctx [] = ([], True, ctx)"
| "decode_update_loop ctx (c # inp) =
     (if c = 32 \<or> c = 9 \<or> c = 13 \<or> c = 10 then decode_update_loop ctx inp
      else if eof_seen ctx then ([], False, ctx\<lparr>error_encountered := True\<rparr>)
      else
        (let ctx = ctx\<lparr>ctx_data := (ctx_data ctx)[data_used ctx := c], data_used := data_used ctx + 1\<rparr>;
             d = ctx_data ctx
         in if data_used ctx = 4 then
              (case base64_decode_quad (d ! 0) (d ! 1) (d ! 2) (d ! 3) of
                 None \<Rightarrow> ([], False, ctx\<lparr>error_encountered := True\<rparr>)
               | Some out \<Rightarrow>
                   (case decode_update_loop
                           (ctx\<lparr>data_used := 0, eof_seen := (if length out < 3 then True else eof_seen ctx)\<rparr>) inp of
                      (out', r, ctx) \<Rightarrow> (out @ out', r, ctx)))
            else decode_update_loop ctx inp))"

text \<open>\<open>EVP_DecodeUpdate\<close>: the result, the bytes written, \<open>*out_len\<close> and the context.\<close>

definition EVP_DecodeUpdate :: "EVP_ENCODE_CTX \<Rightarrow> bytes \<Rightarrow> int \<times> bytes \<times> nat \<times> EVP_ENCODE_CTX" where
  "EVP_DecodeUpdate ctx inp =
     (if error_encountered ctx then (-1, [], 0, ctx)
      else (case decode_update_loop ctx inp of
              (out, False, ctx) \<Rightarrow> (-1, out, 0, ctx)
            | (out, True, ctx) \<Rightarrow>
                if length out > INT_MAX then (-1, out, 0, ctx\<lparr>error_encountered := True\<rparr>)
                else (if eof_seen ctx then 0 else 1, out, length out, ctx)))"

definition EVP_DecodeFinal :: "EVP_ENCODE_CTX \<Rightarrow> int" where
  "EVP_DecodeFinal ctx = (if error_encountered ctx \<or> data_used ctx \<noteq> 0 then -1 else 1)"

text \<open>The loop of \<open>EVP_DecodeBase64\<close> over an input of \<open>4 * n\<close> bytes.\<close>

fun decode_base64_loop :: "bytes \<Rightarrow> bytes option" where
  "decode_base64_loop (i0 # i1 # i2 # i3 # inp) =
     (case base64_decode_quad i0 i1 i2 i3 of
        None \<Rightarrow> None
      | Some out \<Rightarrow>
          if length out \<noteq> 3 \<and> inp \<noteq> [] then None
          else map_option ((@) out) (decode_base64_loop inp))"
| "decode_base64_loop _ = Some []"

definition EVP_DecodeBase64 :: "nat \<Rightarrow> bytes \<Rightarrow> bytes option" where
  "EVP_DecodeBase64 max_out inp =
     (if length inp mod 4 \<noteq> 0 then None
      else (case EVP_DecodedLength (length inp) of
              None \<Rightarrow> None
            | Some max_len \<Rightarrow> if max_out < max_len then None else decode_base64_loop inp))"

text \<open>\<open>EVP_DecodeBlock\<close>: \<open>None\<close> for the result -1, else the bytes written to \<open>dst\<close>, whose number is
  the result.\<close>

definition EVP_DecodeBlock :: "bytes \<Rightarrow> bytes option" where
  "EVP_DecodeBlock src =
     (let src = dropWhile (\<lambda>c. c = 32 \<or> c = 9) src;
          src = rev (dropWhile (\<lambda>c. c = 32 \<or> c = 9 \<or> c = 13 \<or> c = 10) (rev src))
      in case EVP_DecodedLength (length src) of
           None \<Rightarrow> None
         | Some dst_len \<Rightarrow>
             if dst_len > INT_MAX then None
             else (case EVP_DecodeBase64 dst_len src of
                     None \<Rightarrow> None
                   | Some dst \<Rightarrow> Some (dst @ replicate ((3 - length dst mod 3) mod 3) 0)))"

end
