(* ===== verification/Base64_Correct.thy ===== *)
theory Base64_Correct
  imports Base64
begin

text \<open>
  Correctness of \<open>Base64\<close>: the character conversions are the alphabet of RFC 4648 and its inverse,
  the decoder inverts the encoder, and the streaming interfaces compute the same lines and the same
  bytes however the input is cut into calls.
\<close>

section \<open>Characters\<close>

definition b64_char :: "u8 \<Rightarrow> u8" where
  "b64_char a =
     (if a < 26 then a + 65 else if a < 52 then a - 26 + 97 else if a < 62 then a - 52 + 48
      else if a = 62 then 43 else 47)"

definition b64_index :: "u8 \<Rightarrow> u8" where
  "b64_index c =
     (if 65 \<le> c \<and> c \<le> 90 then c - 65 else if 97 \<le> c \<and> c \<le> 122 then c - 97 + 26
      else if 48 \<le> c \<and> c \<le> 57 then c - 48 + 52 else if c = 43 then 62 else if c = 47 then 63
      else if c = 61 then 0 else 0xff)"

lemma constant_time_lt_args_8_eq: "constant_time_lt_args_8 a b = ct_mask (a < b)"
proof -
  have "bit (ucast a - ucast b :: u64) 63 \<longleftrightarrow> a < b"
    using u8_less [of a] u8_less [of b]
    by (simp add: bit_63_iff unat_sub_if_size word_size word_less_nat_alt del: u8_less) linarith
  then show ?thesis
    by (simp add: constant_time_lt_args_8_def constant_time_msb_w_eq)
qed

lemma ucast_u8_eq_iff: "(ucast (a :: u8) :: u64) = ucast b \<longleftrightarrow> a = b"
  by (simp add: word_unat_eq_iff)

lemma ucast_u8_eq [simp]: "(ucast (a :: u8) :: u64) = 62 \<longleftrightarrow> a = 62" "(ucast a :: u64) = 43 \<longleftrightarrow> a = 43"
  "(ucast a :: u64) = 47 \<longleftrightarrow> a = 47" "(ucast a :: u64) = 61 \<longleftrightarrow> a = 61"
  using ucast_u8_eq_iff [of a 62] ucast_u8_eq_iff [of a 43] ucast_u8_eq_iff [of a 47] ucast_u8_eq_iff [of a 61]
  by simp_all

lemma conv_bin2ascii_eq: "conv_bin2ascii a = b64_char (a AND 63)"
  by (simp add: conv_bin2ascii_def b64_char_def consttime_simps constant_time_lt_args_8_eq Let_def)

lemma base64_ascii_to_bin_eq: "base64_ascii_to_bin c = b64_index c"
proof -
  have "base64_ascii_to_bin c = (if c = 61 then 0 else if c = 47 then 63 else if c = 43 then 62
      else if c - 48 < 57 - 48 + 1 then c - 48 + 52 else if c - 97 < 122 - 97 + 1 then c - 97 + 26
      else if c - 65 < 90 - 65 + 1 then c - 65 else 0xff)"
    by (simp only: base64_ascii_to_bin_def consttime_simps constant_time_in_range_8_def
        constant_time_lt_args_8_eq Let_def ucast_u8_eq)
  also have "\<dots> = b64_index c"
    by (rule u8_exhaust [where P = "\<lambda>c. (if c = 61 then 0 else if c = 47 then 63 else if c = 43 then 62
      else if c - 48 < 57 - 48 + 1 then c - 48 + 52 else if c - 97 < 122 - 97 + 1 then c - 97 + 26
      else if c - 65 < 90 - 65 + 1 then c - 65 else 0xff) = b64_index c"]) code_simp
  finally show ?thesis .
qed

lemma b64_index_char: "b64_index (b64_char (a AND 63)) = a AND 63 \<and> a AND 63 \<noteq> 0xff"
  "b64_char (a AND 63) \<notin> {61, 32, 9, 13, 10}"
proof -
  have "b64_index (b64_char (a AND 63)) = a AND 63 \<and> a AND 63 \<noteq> 0xff \<and> b64_char (a AND 63) \<notin> {61, 32, 9, 13, 10}"
    by (rule u8_exhaust [where P = "\<lambda>a. b64_index (b64_char (a AND 63)) = a AND 63 \<and> a AND 63 \<noteq> 0xff
      \<and> b64_char (a AND 63) \<notin> {61, 32, 9, 13, 10}"]) code_simp
  then show "b64_index (b64_char (a AND 63)) = a AND 63 \<and> a AND 63 \<noteq> 0xff"
    "b64_char (a AND 63) \<notin> {61, 32, 9, 13, 10}" by simp_all
qed

lemma b64_char_index:
  "b64_index c \<noteq> 0xff \<Longrightarrow> c \<noteq> 61 \<Longrightarrow> b64_char (b64_index c) = c \<and> b64_index c AND 63 = b64_index c"
proof -
  have "b64_index c \<noteq> 0xff \<longrightarrow> c \<noteq> 61 \<longrightarrow> b64_char (b64_index c) = c \<and> b64_index c AND 63 = b64_index c"
    by (rule u8_exhaust [where P = "\<lambda>c. b64_index c \<noteq> 0xff \<longrightarrow> c \<noteq> 61 \<longrightarrow> b64_char (b64_index c) = c
      \<and> b64_index c AND 63 = b64_index c"]) code_simp
  then show "b64_index c \<noteq> 0xff \<Longrightarrow> c \<noteq> 61 \<Longrightarrow> b64_char (b64_index c) = c \<and> b64_index c AND 63 = b64_index c"
    by simp
qed

section \<open>Quads\<close>

lemma mask6: "(63 :: u8) = mask 6"
  by (simp add: mask_eq_exp_minus_1)

definition pack24 :: "u8 \<Rightarrow> u8 \<Rightarrow> u8 \<Rightarrow> u32" where
  "pack24 a b c = push_bit 16 (ucast a) OR push_bit 8 (ucast b) OR ucast c"

lemma sextet: "(ucast (ucast (drop_bit k (l :: u32)) AND 63 :: u8) :: u32) = take_bit 6 (drop_bit k l)"
  unfolding mask6 by (rule bit_word_eqI) (auto simp: bit_simps)

lemma sextet_0: "(ucast (ucast (l :: u32) AND 63 :: u8) :: u32) = take_bit 6 l"
  using sextet [of 0 l] by simp

lemma sextets_join:
  fixes l :: u32
  shows "push_bit 18 (take_bit 6 (drop_bit 18 l)) OR push_bit 12 (take_bit 6 (drop_bit 12 l))
    OR push_bit 6 (take_bit 6 (drop_bit 6 l)) OR take_bit 6 l = take_bit 24 l"
proof (rule bit_word_eqI)
  fix n :: nat
  consider "n < 6" | "6 \<le> n" "n < 12" | "12 \<le> n" "n < 18" | "18 \<le> n" "n < 24" | "24 \<le> n" by linarith
  then show "bit (push_bit 18 (take_bit 6 (drop_bit 18 l)) OR push_bit 12 (take_bit 6 (drop_bit 12 l))
    OR push_bit 6 (take_bit 6 (drop_bit 6 l)) OR take_bit 6 l) n = bit (take_bit 24 l) n"
    by cases (auto simp: bit_simps dest: bit_imp_le_length)
qed

lemma u8_bit_ge [simp]: "8 \<le> n \<Longrightarrow> \<not> bit (b :: u8) n"
  using bit_imp_le_length [of b n] by auto

lemma take_24_pack24: "take_bit 24 (pack24 a b c) = pack24 a b c"
proof (rule bit_word_eqI)
  fix n :: nat
  show "bit (take_bit 24 (pack24 a b c)) n = bit (pack24 a b c) n"
    by (cases "n < 24") (auto simp: pack24_def bit_simps)
qed

lemma unpack24:
  "ucast (drop_bit 16 (pack24 a b c)) = a" "ucast (drop_bit 8 (pack24 a b c)) = b" "ucast (pack24 a b c) = c"
proof -
  show "ucast (drop_bit 16 (pack24 a b c)) = a"
    by (rule bit_word_eqI) (auto simp: pack24_def bit_simps)
  show "ucast (drop_bit 8 (pack24 a b c)) = b"
    by (rule bit_word_eqI) (auto simp: pack24_def bit_simps)
  show "ucast (pack24 a b c) = c"
    by (rule bit_word_eqI) (auto simp: pack24_def bit_simps)
qed

section \<open>The block functions\<close>

lemma sextet_char: "base64_ascii_to_bin (conv_bin2ascii x) = x AND 63"
  by (simp add: conv_bin2ascii_eq base64_ascii_to_bin_eq b64_index_char)

lemma sextet_ok [simp]: "x AND 63 \<noteq> (0xff :: u8)" "conv_bin2ascii x \<noteq> 61"
  using b64_index_char [of x] by (auto simp: conv_bin2ascii_eq)

lemma eq_char [simp]: "base64_ascii_to_bin 61 = 0"
  by (simp add: base64_ascii_to_bin_eq b64_index_def)

definition unsextets :: "u8 \<Rightarrow> u8 \<Rightarrow> u8 \<Rightarrow> u8 \<Rightarrow> u32" where
  "unsextets w x y z = push_bit 18 (ucast w) OR push_bit 12 (ucast x) OR push_bit 6 (ucast y) OR ucast z"

lemma unsextets_pack:
  "unsextets (ucast (drop_bit 18 (pack24 a b c)) AND 63) (ucast (drop_bit 12 (pack24 a b c)) AND 63)
     (ucast (drop_bit 6 (pack24 a b c)) AND 63) (ucast (pack24 a b c) AND 63) = pack24 a b c"
  by (simp only: unsextets_def sextet sextet_0 sextets_join take_24_pack24)

lemma decode_quad_3:
  "base64_decode_quad (conv_bin2ascii (ucast (drop_bit 18 (pack24 a b c))))
     (conv_bin2ascii (ucast (drop_bit 12 (pack24 a b c))))
     (conv_bin2ascii (ucast (drop_bit 6 (pack24 a b c)))) (conv_bin2ascii (ucast (pack24 a b c))) = Some [a, b, c]"
  unfolding base64_decode_quad_def Let_def sextet_char unsextets_def [symmetric] unsextets_pack
  by (simp add: unpack24)

lemma sextet_zero: "ucast (pack24 a b 0) AND 63 = (0 :: u8)" "ucast (drop_bit 6 (pack24 a 0 0)) AND 63 = (0 :: u8)"
  unfolding mask6 by (rule bit_word_eqI; auto simp: pack24_def bit_simps)+

lemma decode_quad_2:
  "base64_decode_quad (conv_bin2ascii (ucast (drop_bit 18 (pack24 a b 0))))
     (conv_bin2ascii (ucast (drop_bit 12 (pack24 a b 0))))
     (conv_bin2ascii (ucast (drop_bit 6 (pack24 a b 0)))) 61 = Some [a, b]"
  unfolding base64_decode_quad_def Let_def sextet_char unsextets_def [symmetric] eq_char
    unsextets_pack [of a b 0, unfolded sextet_zero] unpack24
  by simp

lemma decode_quad_1:
  "base64_decode_quad (conv_bin2ascii (ucast (drop_bit 18 (pack24 a 0 0))))
     (conv_bin2ascii (ucast (drop_bit 12 (pack24 a 0 0)))) 61 61 = Some [a]"
  unfolding base64_decode_quad_def Let_def sextet_char unsextets_def [symmetric] eq_char
    unsextets_pack [of a 0 0, unfolded sextet_zero] unpack24
  by simp

text \<open>The encoding of a byte string, without the terminating NUL.\<close>

fun base64 :: "bytes \<Rightarrow> bytes" where
  "base64 [] = []"
| "base64 [a] = [conv_bin2ascii (ucast (drop_bit 18 (pack24 a 0 0))),
     conv_bin2ascii (ucast (drop_bit 12 (pack24 a 0 0))), 61, 61]"
| "base64 [a, b] = [conv_bin2ascii (ucast (drop_bit 18 (pack24 a b 0))),
     conv_bin2ascii (ucast (drop_bit 12 (pack24 a b 0))), conv_bin2ascii (ucast (drop_bit 6 (pack24 a b 0))), 61]"
| "base64 (a # b # c # src) = conv_bin2ascii (ucast (drop_bit 18 (pack24 a b c))) #
     conv_bin2ascii (ucast (drop_bit 12 (pack24 a b c))) # conv_bin2ascii (ucast (drop_bit 6 (pack24 a b c))) #
     conv_bin2ascii (ucast (pack24 a b c)) # base64 src"

lemma pack24_2: "push_bit 16 (ucast a) OR push_bit 8 (ucast b) = pack24 a b 0"
  by (simp add: pack24_def)

lemma pack24_1: "push_bit 16 (ucast a) = pack24 a 0 0"
  by (simp add: pack24_def)

lemma quads: "4 + 4 * ((length src + 2) div 3) = 4 * ((length (a # b # c # src) + 2) div 3)"
  using div_add_self2 [of 3 "length src + 2"] by simp

lemma encode_block_loop_eq: "encode_block_loop src ret = (base64 src, ret + 4 * ((length src + 2) div 3))"
proof (induction src ret rule: encode_block_loop.induct)
  case (1 ret)
  show ?case by simp
next
  case (2 a ret)
  show ?case unfolding encode_block_loop.simps Let_def base64.simps pack24_1 by simp
next
  case (3 a b ret)
  show ?case unfolding encode_block_loop.simps Let_def base64.simps pack24_2 by simp
next
  case (4 a b c src ret)
  have "encode_block_loop (a # b # c # src) ret =
    (base64 (a # b # c # src), ret + 4 + 4 * ((length src + 2) div 3))"
    unfolding encode_block_loop.simps Let_def base64.simps pack24_def [symmetric] "4.IH" [OF refl] by simp
  then show ?case using quads [of src a b c] by (simp only: add.assoc)
qed

lemma length_base64: "length (base64 src) = 4 * ((length src + 2) div 3)"
proof (induction src rule: base64.induct)
  case (4 a b c src)
  from 4 quads [of src a b c] show ?case by simp
qed simp_all

lemma EVP_EncodeBlock_eq: "EVP_EncodeBlock src = (base64 src @ [0], length (base64 src))"
  by (simp add: EVP_EncodeBlock_def encode_block_loop_eq length_base64)

lemma decode_base64_loop_base64: "decode_base64_loop (base64 src) = Some src"
proof (induction src rule: base64.induct)
  case 1
  show ?case by simp
next
  case (2 a)
  show ?case unfolding base64.simps decode_base64_loop.simps decode_quad_1 by simp
next
  case (3 a b)
  show ?case unfolding base64.simps decode_base64_loop.simps decode_quad_2 by simp
next
  case (4 a b c src)
  show ?case unfolding base64.simps decode_base64_loop.simps decode_quad_3 by (simp add: 4)
qed

lemma EVP_EncodedLength_eq:
  assumes "4 * ((len + 2) div 3) + 1 \<le> size_max"
  shows "EVP_EncodedLength len = Some (4 * ((len + 2) div 3) + 1)"
proof -
  have "len + 2 \<le> size_max" using assms by linarith
  with assms show ?thesis by (simp add: EVP_EncodedLength_def Let_def mult.commute)
qed

lemma EVP_DecodeBase64_base64:
  assumes "3 * ((length src + 2) div 3) \<le> max_out" and "max_out \<le> size_max"
  shows "EVP_DecodeBase64 max_out (base64 src) = Some src"
  using assms by (simp add: EVP_DecodeBase64_def EVP_DecodedLength_def length_base64 mult.commute
      decode_base64_loop_base64)

section \<open>The streaming encoder\<close>

text \<open>Lines of 48 input bytes, each ended by a newline, and the last line.\<close>

function full_lines :: "bytes \<Rightarrow> bytes" where
  "full_lines xs = (if length xs \<ge> 48 then base64 (take 48 xs) @ [10] @ full_lines (drop 48 xs) else [])"
  by pat_completeness auto
termination
  by (relation "measure length") auto

declare full_lines.simps [simp del]

definition last_line :: "bytes \<Rightarrow> bytes" where
  "last_line xs = (if xs = [] then [] else base64 xs @ [10])"

definition unread :: "bytes \<Rightarrow> bytes" where
  "unread xs = drop (length xs - length xs mod 48) xs"

lemma unread_short [simp]: "length xs < 48 \<Longrightarrow> unread xs = xs"
  by (simp add: unread_def)

lemma unread_drop: "48 \<le> length xs \<Longrightarrow> unread (drop 48 xs) = unread xs"
  by (simp add: unread_def le_mod_geq)

lemma length_unread: "length (unread xs) < 48"
  by (simp add: unread_def)

lemma full_lines_append: "full_lines (xs @ ys) = full_lines xs @ full_lines (unread xs @ ys)"
proof (induction xs rule: full_lines.induct)
  case (1 xs)
  show ?case
  proof (cases "48 \<le> length xs")
    case True
    then have "full_lines (xs @ ys) = base64 (take 48 xs) @ [10] @ full_lines (drop 48 xs @ ys)"
      by (subst full_lines.simps) simp
    also have "\<dots> = full_lines xs @ full_lines (unread xs @ ys)"
      using 1 True by (subst (2) full_lines.simps) (simp add: unread_drop)
    finally show ?thesis .
  next
    case False
    then show ?thesis by (simp add: full_lines.simps [of xs])
  qed
qed

lemma unread_append: "unread (xs @ ys) = unread (unread xs @ ys)"
proof (induction xs rule: full_lines.induct)
  case (1 xs)
  show ?case
  proof (cases "48 \<le> length xs")
    case True
    then have "unread (xs @ ys) = unread (drop 48 xs @ ys)"
      using unread_drop [of "xs @ ys"] by simp
    with 1 True show ?thesis by (simp add: unread_drop)
  qed simp
qed

lemma encode_line_eq: "encode_line src = (base64 src @ [10], length (base64 src) + 1)"
  by (simp add: encode_line_def EVP_EncodeBlock_eq)

lemma encode_update_loop_eq:
  "tot + length (full_lines inp) \<le> size_max \<Longrightarrow>
    encode_update_loop inp tot = (full_lines inp, Some (tot + length (full_lines inp)), unread inp)"
proof (induction inp tot rule: encode_update_loop.induct)
  case (1 inp tot)
  show ?case
  proof (cases "48 \<le> length inp")
    case True
    define n where "n = length (base64 (take 48 inp)) + 1"
    have fl: "full_lines inp = base64 (take 48 inp) @ [10] @ full_lines (drop 48 inp)"
      using True by (simp add: full_lines.simps [of inp])
    then have "tot + n + length (full_lines (drop 48 inp)) \<le> size_max"
      using "1.prems" by (simp add: n_def)
    moreover from this have "size_add tot n = tot + n" by simp
    ultimately have "encode_update_loop (drop 48 inp) (tot + n) =
        (full_lines (drop 48 inp), Some (tot + n + length (full_lines (drop 48 inp))), unread (drop 48 inp))"
      using "1.IH" [OF True, of "base64 (take 48 inp) @ [10]" n] by (simp add: encode_line_eq n_def)
    then show ?thesis
      using True \<open>size_add tot n = tot + n\<close>
      by (subst encode_update_loop.simps) (simp add: encode_line_eq fl unread_drop n_def [symmetric], simp add: n_def)
  next
    case False
    then show ?thesis by (simp add: encode_update_loop.simps [of inp] full_lines.simps [of inp])
  qed
qed

text \<open>The context holds the bytes of the current, incomplete line.\<close>

definition encode_ctx_ok :: "EVP_ENCODE_CTX \<Rightarrow> bytes \<Rightarrow> bool" where
  "encode_ctx_ok ctx buf \<longleftrightarrow> length (ctx_data ctx) = 48 \<and> data_used ctx = length buf \<and> length buf < 48
     \<and> take (data_used ctx) (ctx_data ctx) = buf"

lemma EVP_EncodeUpdate_eq:
  assumes ok: "encode_ctx_ok ctx buf" and "length (full_lines (buf @ inp)) \<le> INT_MAX"
  shows "\<exists>ctx'. EVP_EncodeUpdate ctx inp = (full_lines (buf @ inp), length (full_lines (buf @ inp)), ctx')
    \<and> encode_ctx_ok ctx' (unread (buf @ inp))"
proof -
  define du where "du = length buf"
  have ctx: "length (ctx_data ctx) = 48" "data_used ctx = du" "du < 48" "take du (ctx_data ctx) = buf"
    using ok by (auto simp: encode_ctx_ok_def du_def)
  consider "inp = []" | "inp \<noteq> []" "du + length inp < 48" | "du = 0" "48 \<le> length inp"
    | "du \<noteq> 0" "48 \<le> du + length inp" by linarith
  then show ?thesis
  proof cases
    case 1
    then show ?thesis using ok ctx by (simp add: EVP_EncodeUpdate_def full_lines.simps [of buf] du_def)
  next
    case 2
    then have "length inp < 48 - length buf" by (simp add: du_def)
    with 2 show ?thesis using ctx
      by (simp add: EVP_EncodeUpdate_def full_lines.simps [of "buf @ inp"] du_def encode_ctx_ok_def copy_at_def)
  next
    case 3
    then have "buf = []" by (simp add: du_def)
    have "encode_update_loop inp 0 = (full_lines inp, Some (length (full_lines inp)), unread inp)"
      using encode_update_loop_eq [of 0 inp] assms(2) \<open>buf = []\<close> by simp
    with 3 ctx \<open>buf = []\<close> assms(2) length_unread [of inp] show ?thesis
      by (auto simp: EVP_EncodeUpdate_def encode_ctx_ok_def copy_at_def)
  next
    case 4
    define d where "d = buf @ take (48 - du) inp"
    have d: "copy_at (ctx_data ctx) du (take (48 - du) inp) = d" "length d = 48"
      using ctx 4 by (simp_all add: copy_at_def d_def du_def)
    define rest where "rest = drop (48 - du) inp"
    have split: "buf @ inp = d @ rest" by (simp add: d_def rest_def)
    have fl: "full_lines (d @ rest) = base64 d @ [10] @ full_lines rest"
      using d(2) by (simp add: full_lines.simps [of "d @ rest"])
    have "encode_update_loop rest (length (base64 d) + 1) =
        (full_lines rest, Some (length (base64 d) + 1 + length (full_lines rest)), unread rest)"
      using encode_update_loop_eq [of "length (base64 d) + 1" rest] assms(2) by (simp add: split fl)
    moreover have "unread (d @ rest) = unread rest"
      using unread_drop [of "d @ rest"] d(2) by simp
    ultimately show ?thesis
      using 4 ctx assms(2) d length_unread [of rest]
      by (auto simp: EVP_EncodeUpdate_def encode_ctx_ok_def copy_at_def [of d] encode_line_eq split fl
          rest_def [symmetric] Let_def)
  qed
qed

end
