(* ===== verification/Base64_Stream.thy ===== *)
theory Base64_Stream
  imports Base64_Correct
begin

text \<open>
  The streaming interfaces of \<open>Base64\<close> over a whole sequence of calls: the lines that the encoder
  writes do not depend on how the input is cut, and the decoder recovers the input from them.
\<close>

section \<open>Encoding in pieces\<close>

text \<open>A caller's loop over \<open>EVP_EncodeUpdate\<close> that advances its output by \<open>*out_len\<close>.\<close>

fun encode_updates :: "EVP_ENCODE_CTX \<Rightarrow> bytes list \<Rightarrow> bytes \<times> EVP_ENCODE_CTX" where
  "encode_updates ctx [] = ([], ctx)"
| "encode_updates ctx (inp # inps) =
     (case EVP_EncodeUpdate ctx inp of
        (out, out_len, ctx) \<Rightarrow>
          (case encode_updates ctx inps of (out', ctx) \<Rightarrow> (take out_len out @ out', ctx)))"

definition encode_stream :: "bytes list \<Rightarrow> bytes" where
  "encode_stream inps =
     (case encode_updates EVP_EncodeInit inps of
        (out, ctx) \<Rightarrow> (case EVP_EncodeFinal ctx of (out', out_len, _) \<Rightarrow> out @ take out_len out'))"

definition base64_lines :: "bytes \<Rightarrow> bytes" where
  "base64_lines xs = full_lines xs @ last_line (unread xs)"

lemma EVP_EncodeInit_ok: "encode_ctx_ok EVP_EncodeInit []"
  by (simp add: encode_ctx_ok_def EVP_EncodeInit_def)

lemma EVP_EncodeFinal_eq:
  "encode_ctx_ok ctx buf \<Longrightarrow> EVP_EncodeFinal ctx = (last_line buf, length (last_line buf), ctx\<lparr>data_used := 0\<rparr>)"
  by (cases ctx) (auto simp: EVP_EncodeFinal_def encode_ctx_ok_def encode_line_eq last_line_def)

lemma encode_updates_eq:
  assumes "encode_ctx_ok ctx buf" and "length (full_lines (buf @ concat inps)) \<le> INT_MAX"
  shows "\<exists>ctx'. encode_updates ctx inps = (full_lines (buf @ concat inps), ctx')
    \<and> encode_ctx_ok ctx' (unread (buf @ concat inps))"
  using assms
proof (induction inps arbitrary: ctx buf)
  case Nil
  then have "length buf < 48" by (simp add: encode_ctx_ok_def)
  with Nil.prems(1) show ?case by (simp add: full_lines.simps [of buf])
next
  case (Cons inp inps)
  have split: "full_lines (buf @ inp @ concat inps) =
      full_lines (buf @ inp) @ full_lines (unread (buf @ inp) @ concat inps)"
    using full_lines_append [of "buf @ inp" "concat inps"] by simp
  then obtain ctx1 where ctx1: "EVP_EncodeUpdate ctx inp =
      (full_lines (buf @ inp), length (full_lines (buf @ inp)), ctx1)"
    and ok1: "encode_ctx_ok ctx1 (unread (buf @ inp))"
    using EVP_EncodeUpdate_eq [OF Cons.prems(1), of inp] Cons.prems(2) by auto
  obtain ctx' where "encode_updates ctx1 inps = (full_lines (unread (buf @ inp) @ concat inps), ctx')"
    "encode_ctx_ok ctx' (unread (unread (buf @ inp) @ concat inps))"
    using Cons.IH [OF ok1] Cons.prems(2) split by auto
  then show ?case
    using ctx1 split unread_append [of "buf @ inp" "concat inps"] by simp
qed

lemma encode_stream_eq:
  "length (full_lines (concat inps)) \<le> INT_MAX \<Longrightarrow> encode_stream inps = base64_lines (concat inps)"
  using encode_updates_eq [OF EVP_EncodeInit_ok, of inps]
  by (auto simp: encode_stream_def EVP_EncodeFinal_eq base64_lines_def)

section \<open>Decoding in pieces\<close>

definition is_space :: "u8 \<Rightarrow> bool" where
  "is_space c \<longleftrightarrow> c = 32 \<or> c = 9 \<or> c = 13 \<or> c = 10"

lemma decode_update_loop_filter:
  "decode_update_loop ctx inp = decode_update_loop ctx (filter (\<lambda>c. \<not> is_space c) inp)"
  by (induction ctx inp rule: decode_update_loop.induct)
    (auto simp: is_space_def Let_def split: option.splits)

lemma decode_update_loop_append:
  "decode_update_loop ctx (xs @ ys) =
     (case decode_update_loop ctx xs of
        (out, False, ctx) \<Rightarrow> (out, False, ctx)
      | (out, True, ctx) \<Rightarrow>
          (case decode_update_loop ctx ys of (out', r, ctx) \<Rightarrow> (out @ out', r, ctx)))"
  by (induction ctx xs rule: decode_update_loop.induct)
    (auto simp: Let_def split: option.splits prod.splits bool.splits)

lemma base64_append: "length xs mod 3 = 0 \<Longrightarrow> base64 (xs @ ys) = base64 xs @ base64 ys"
  by (induction xs rule: base64.induct) (auto simp: le_mod_geq)

lemma conv_not_space: "\<not> is_space (conv_bin2ascii x)"
  using b64_index_char(2) [of x] by (simp add: conv_bin2ascii_eq is_space_def)

lemma base64_not_space: "\<forall>c \<in> set (base64 xs). \<not> is_space c"
  by (induction xs rule: base64.induct) (auto simp: conv_not_space, simp_all add: is_space_def)

lemma filter_base64: "filter (\<lambda>c. \<not> is_space c) (base64 xs) = base64 xs"
  using base64_not_space by (simp add: filter_id_conv)

lemma filter_full_lines: "filter (\<lambda>c. \<not> is_space c) (full_lines xs) @ base64 (unread xs) = base64 xs"
proof (induction xs rule: full_lines.induct)
  case (1 xs)
  show ?case
  proof (cases "48 \<le> length xs")
    case True
    then have "filter (\<lambda>c. \<not> is_space c) (full_lines xs) @ base64 (unread xs) =
        base64 (take 48 xs) @ base64 (drop 48 xs)"
      using 1 by (simp add: full_lines.simps [of xs] filter_base64 unread_drop is_space_def [of 10])
    also have "\<dots> = base64 (take 48 xs @ drop 48 xs)"
      using True by (intro base64_append [symmetric]) simp
    finally show ?thesis by simp
  next
    case False
    then show ?thesis by (simp add: full_lines.simps [of xs])
  qed
qed

lemma filter_base64_lines: "filter (\<lambda>c. \<not> is_space c) (base64_lines xs) = base64 xs"
  using filter_full_lines [of xs]
  by (auto simp: base64_lines_def last_line_def filter_base64 is_space_def [of 10])

text \<open>One quad of the decoder, from an empty quad buffer.\<close>

lemma decode_update_loop_quad:
  assumes "data_used ctx = 0" and "length (ctx_data ctx) = 48" and "\<not> eof_seen ctx"
    and "\<not> is_space a" "\<not> is_space b" "\<not> is_space c" "\<not> is_space d"
    and q: "base64_decode_quad a b c d = Some out"
  shows "\<exists>ctx'. data_used ctx' = 0 \<and> length (ctx_data ctx') = 48 \<and> eof_seen ctx' = (length out < 3)
    \<and> error_encountered ctx' = error_encountered ctx
    \<and> decode_update_loop ctx (a # b # c # d # inp) =
        (case decode_update_loop ctx' inp of (out', r, ctx) \<Rightarrow> (out @ out', r, ctx))"
proof -
  define ctx' where "ctx' = ctx\<lparr>ctx_data := (ctx_data ctx)[0 := a, 1 := b, 2 := c, 3 := d],
    eof_seen := (length out < 3)\<rparr>"
  have "decode_update_loop ctx (a # b # c # d # inp) =
      (case decode_update_loop ctx' inp of (out', r, ctx) \<Rightarrow> (out @ out', r, ctx))"
    using assms by (cases ctx) (simp add: is_space_def Let_def ctx'_def numeral_2_eq_2 numeral_3_eq_3)
  then show ?thesis using assms by (intro exI [of _ ctx']) (simp add: ctx'_def)
qed

lemma decode_update_loop_error: "decode_update_loop ctx inp = (out, True, ctx') \<Longrightarrow>
    error_encountered ctx' = error_encountered ctx"
proof (induction ctx inp arbitrary: out rule: decode_update_loop.induct)
  case (1 ctx)
  then show ?case by simp
next
  case (2 ctx c inp)
  define ctx1 where "ctx1 = ctx\<lparr>ctx_data := (ctx_data ctx)[data_used ctx := c], data_used := data_used ctx + 1\<rparr>"
  define d where "d = ctx_data ctx1"
  have e1: "error_encountered ctx1 = error_encountered ctx" by (simp add: ctx1_def)
  note step = "2.prems" [unfolded decode_update_loop.simps Let_def, folded ctx1_def, folded d_def]
  show ?case
  proof (cases "c = 32 \<or> c = 9 \<or> c = 13 \<or> c = 10")
    case True
    with step have "decode_update_loop ctx inp = (out, True, ctx')" by simp
    with True show ?thesis by (rule "2.IH"(1))
  next
    case False
    with step have eof: "\<not> eof_seen ctx" by auto
    show ?thesis
    proof (cases "data_used ctx1 = 4")
      case du: True
      with step False eof obtain o1 out' where q: "base64_decode_quad (d ! 0) (d ! 1) (d ! 2) (d ! 3) = Some o1"
        and rest: "decode_update_loop (ctx1\<lparr>data_used := 0, eof_seen := (if length o1 < 3 then True else eof_seen ctx1)\<rparr>) inp
          = (out', True, ctx')"
        by (auto split: option.splits prod.splits)
      show ?thesis using "2.IH"(2) [OF False eof ctx1_def d_def du q rest] e1 by simp
    next
      case du: False
      with step False eof have "decode_update_loop ctx1 inp = (out, True, ctx')" by simp
      from "2.IH"(3) [OF False eof ctx1_def d_def du this] e1 show ?thesis by simp
    qed
  qed
qed

declare decode_update_loop.simps(2) [simp del]

lemma equals_not_space: "\<not> is_space 61"
  by (simp add: is_space_def)

lemma decode_update_loop_base64:
  assumes "data_used ctx = 0" and "length (ctx_data ctx) = 48" and "\<not> eof_seen ctx"
  shows "\<exists>ctx'. decode_update_loop ctx (base64 src) = (src, True, ctx') \<and> data_used ctx' = 0
    \<and> eof_seen ctx' = (length src mod 3 \<noteq> 0) \<and> error_encountered ctx' = error_encountered ctx"
  using assms
proof (induction src arbitrary: ctx rule: base64.induct)
  case 1
  then show ?case by simp
next
  case (2 a)
  then show ?case
    using decode_update_loop_quad [OF 2 _ _ _ _ decode_quad_1 [of a], of "[]"]
    by (auto simp: conv_not_space equals_not_space)
next
  case (3 a b)
  then show ?case
    using decode_update_loop_quad [OF 3 _ _ _ _ decode_quad_2 [of a b], of "[]"]
    by (auto simp: conv_not_space equals_not_space)
next
  case (4 a b c src)
  from decode_update_loop_quad [OF "4.prems" _ _ _ _ decode_quad_3 [of a b c], of "base64 src"]
  obtain ctx1 where c1: "data_used ctx1 = 0" "length (ctx_data ctx1) = 48" "\<not> eof_seen ctx1"
    "error_encountered ctx1 = error_encountered ctx"
    and d: "decode_update_loop ctx (base64 (a # b # c # src)) =
      (case decode_update_loop ctx1 (base64 src) of (out', r, ctx) \<Rightarrow> ([a, b, c] @ out', r, ctx))"
    by (auto simp: conv_not_space)
  obtain ctx' where "decode_update_loop ctx1 (base64 src) = (src, True, ctx')" "data_used ctx' = 0"
    "eof_seen ctx' = (length src mod 3 \<noteq> 0)" "error_encountered ctx' = error_encountered ctx1"
    using "4.IH" [OF c1(1-3)] by blast
  then show ?case unfolding d by (auto simp: c1(4))
qed

text \<open>A caller's loop over \<open>EVP_DecodeUpdate\<close>: it stops at a result -1, and finishes with
  \<open>EVP_DecodeFinal\<close>.\<close>

fun decode_updates :: "EVP_ENCODE_CTX \<Rightarrow> bytes list \<Rightarrow> bytes option \<times> EVP_ENCODE_CTX" where
  "decode_updates ctx [] = (Some [], ctx)"
| "decode_updates ctx (inp # inps) =
     (case EVP_DecodeUpdate ctx inp of
        (r, out, out_len, ctx) \<Rightarrow>
          if r < 0 then (None, ctx)
          else (case decode_updates ctx inps of
                  (out', ctx) \<Rightarrow> (map_option ((@) (take out_len out)) out', ctx)))"

definition decode_stream :: "bytes list \<Rightarrow> bytes option" where
  "decode_stream inps =
     (case decode_updates EVP_DecodeInit inps of
        (out, ctx) \<Rightarrow> if EVP_DecodeFinal ctx = 1 then out else None)"

text \<open>However the input is cut, the calls give the bytes that one pass over all of it gives.\<close>

lemma decode_updates_eq:
  assumes "decode_update_loop ctx (concat inps) = (out, True, ctx')" and "length out \<le> INT_MAX"
    and "\<not> error_encountered ctx"
  shows "decode_updates ctx inps = (Some out, ctx')"
  using assms
proof (induction inps arbitrary: ctx out)
  case Nil
  then show ?case by simp
next
  case (Cons inp inps)
  from Cons.prems(1) obtain out1 ctx1 out2 where
    l1: "decode_update_loop ctx inp = (out1, True, ctx1)" and
    l2: "decode_update_loop ctx1 (concat inps) = (out2, True, ctx')" and out: "out = out1 @ out2"
    by (auto simp: decode_update_loop_append split: prod.splits bool.splits)
  have e1: "\<not> error_encountered ctx1" using decode_update_loop_error [OF l1] Cons.prems(3) by simp
  have "decode_updates ctx1 inps = (Some out2, ctx')"
    using Cons.IH [OF l2 _ e1] Cons.prems(2) out by simp
  with l1 Cons.prems(2,3) out show ?case by (simp add: EVP_DecodeUpdate_def)
qed

lemma decode_stream_eq:
  assumes "filter (\<lambda>c. \<not> is_space c) (concat inps) = base64 src" and "length src \<le> INT_MAX"
  shows "decode_stream inps = Some src"
proof -
  obtain ctx' where c: "decode_update_loop EVP_DecodeInit (base64 src) = (src, True, ctx')"
    "data_used ctx' = 0" "\<not> error_encountered ctx'"
    using decode_update_loop_base64 [of EVP_DecodeInit src] by (auto simp: EVP_DecodeInit_def)
  then have "decode_update_loop EVP_DecodeInit (concat inps) = (src, True, ctx')"
    using decode_update_loop_filter [of EVP_DecodeInit "concat inps"] assms(1) by simp
  from decode_updates_eq [OF this assms(2)] c show ?thesis
    by (simp add: decode_stream_def EVP_DecodeFinal_def EVP_DecodeInit_def)
qed

text \<open>What the decoder writes is at most three bytes for every four characters, so a buffer of
  \<open>EVP_DecodedLength\<close> bytes is enough.\<close>

lemma base64_decode_quad_length: "base64_decode_quad a b c d = Some out \<Longrightarrow> length out \<le> 3 \<and> 0 < length out"
  by (auto simp: base64_decode_quad_def Let_def split: if_splits bool.splits)

lemma decode_base64_loop_length: "decode_base64_loop inp = Some out \<Longrightarrow> 4 * length out \<le> 3 * length inp"
proof (induction inp arbitrary: out rule: decode_base64_loop.induct)
  case (1 i0 i1 i2 i3 inp)
  then obtain o1 o2 where "base64_decode_quad i0 i1 i2 i3 = Some o1" "decode_base64_loop inp = Some o2"
    "out = o1 @ o2" "\<not> (length o1 \<noteq> 3 \<and> inp \<noteq> [])"
    by (auto split: option.splits if_splits)
  with "1.IH" [OF this(1) this(4) this(2)] base64_decode_quad_length [OF this(1)] show ?case by simp
qed auto

end
