(* ===== verification/Base64_Props.thy ===== *)
theory Base64_Props
  imports Base64_Stream
begin

text \<open>
  Properties of the base64 codec: block and streaming round trips, the independence of the streaming
  codec from the way the data is cut into calls, and the bounds on the output.
\<close>

lemmas b64_eval = conv_bin2ascii_eq b64_char_def pack24_def

section \<open>Properties\<close>

text \<open>What \<open>EVP_EncodeBlock\<close> writes, \<open>EVP_DecodeBase64\<close> decodes to the original data, when the
  output buffer is as large as \<open>EVP_DecodedLength\<close> asks.\<close>

theorem base64_block_roundtrip:
  assumes "EVP_EncodeBlock src = (dst, n)" and "EVP_DecodedLength n = Some max_out" and "max_out \<le> size_max"
    and "4 * ((length src + 2) div 3) \<le> size_max"
  shows "EVP_DecodeBase64 max_out (take n dst) = Some src"
proof -
  have n: "take n dst = base64 src" "n = 4 * ((length src + 2) div 3)"
    using assms(1) by (auto simp: EVP_EncodeBlock_eq length_base64)
  have "max_out = 3 * ((length src + 2) div 3)"
    using assms(2,4) n(2) by (auto simp: EVP_DecodedLength_def size_mult_def split: if_splits)
  then show ?thesis unfolding n(1) using assms(3) by (intro EVP_DecodeBase64_base64) simp_all
qed

lemma base64_block_roundtrip_witness:
  "EVP_DecodeBase64 6 (take 8 [97, 71, 86, 115, 98, 71, 56, 61, 0]) = Some [104, 101, 108, 108, 111]"
proof (rule base64_block_roundtrip)
  show "EVP_EncodeBlock [104, 101, 108, 108, 111] = ([97, 71, 86, 115, 98, 71, 56, 61, 0], 8)"
    by (simp add: EVP_EncodeBlock_eq b64_eval)
  show "EVP_DecodedLength 8 = Some 6" by (simp add: EVP_DecodedLength_def)
qed simp_all

text \<open>\<open>EVP_EncodedLength\<close> returns the exact number of bytes that \<open>EVP_EncodeBlock\<close> writes, with the
  terminating NUL, and fails exactly when that number does not fit into \<open>size_t\<close>.\<close>

theorem encoded_length_exact:
  assumes "len \<le> size_max"
  shows "EVP_EncodedLength len =
    (if 4 * ((len + 2) div 3) + 1 \<le> size_max then Some (4 * ((len + 2) div 3) + 1) else None)"
proof (cases "4 * ((len + 2) div 3) + 1 \<le> size_max")
  case True
  then show ?thesis by (simp only: EVP_EncodedLength_eq if_True)
next
  case False
  show ?thesis
  proof (cases "len + 2 \<le> size_max")
    case True
    define n where "n = (len + 2) div 3"
    have "n \<le> size_max" "size_max < 4 * n" using True False by (simp_all add: n_def)
    then have "size_mult n 4 div 4 \<noteq> n" by (simp add: size_mult_def)
    with True False show ?thesis by (simp add: EVP_EncodedLength_def Let_def n_def)
  next
    case False
    then have "size_add len 2 < len" using assms by (simp add: size_add_less_iff)
    with \<open>\<not> 4 * ((len + 2) div 3) + 1 \<le> size_max\<close> show ?thesis by (simp add: EVP_EncodedLength_def)
  qed
qed

lemma encoded_length_exact_witness: "EVP_EncodedLength 18446744073709551615 = None \<and> EVP_EncodedLength 5 = Some 9"
  using encoded_length_exact [of 18446744073709551615] EVP_EncodedLength_eq [of 5] by simp

text \<open>The streaming encoder is independent of the chunks: the concatenated outputs of
  \<open>EVP_EncodeUpdate\<close> and \<open>EVP_EncodeFinal\<close> are the base64 text of the concatenated inputs in lines of
  64 characters, as long as the text fits into \<open>int\<close>.\<close>

theorem encode_stream_chunks:
  assumes "length (full_lines (concat inps)) \<le> INT_MAX"
  shows "encode_stream inps = base64_lines (concat inps)"
  using assms by (rule encode_stream_eq)

lemma encode_stream_chunks_witness: "encode_stream [[1, 2], [], [3]] = base64_lines [1, 2, 3]"
  using encode_stream_chunks [of "[[1, 2], [], [3]]"] by (simp add: full_lines.simps)

text \<open>C8. Round trip of the streaming codec: however the text that the encoder writes is cut and
  whatever white space is put in, \<open>EVP_DecodeUpdate\<close> and \<open>EVP_DecodeFinal\<close> accept it and return the
  data that was encoded, however that was cut.\<close>

theorem base64_stream_roundtrip:
  assumes "length (full_lines (concat inps)) \<le> INT_MAX" and "length (concat inps) \<le> INT_MAX"
    and "filter (\<lambda>c. \<not> is_space c) (concat chunks) = filter (\<lambda>c. \<not> is_space c) (encode_stream inps)"
  shows "decode_stream chunks = Some (concat inps)"
  using assms(2,3)
  by (intro decode_stream_eq) (simp_all add: encode_stream_eq [OF assms(1)] filter_base64_lines)

lemma base64_stream_roundtrip_witness: "decode_stream [[65, 81], [32, 73, 61]] = Some [1, 2]"
proof -
  have "decode_stream [[65, 81], [32, 73, 61]] = Some (concat [[1], [2]])"
  proof (rule base64_stream_roundtrip)
    have "encode_stream [[1], [2]] = [65, 81, 73, 61, 10]"
      by (simp add: encode_stream_eq full_lines.simps base64_lines_def last_line_def unread_def b64_eval)
    then show "filter (\<lambda>c. \<not> is_space c) (concat [[65, 81], [32, 73, 61]])
      = filter (\<lambda>c. \<not> is_space c) (encode_stream [[1], [2]])" by (simp add: is_space_def)
  qed (simp_all add: full_lines.simps)
  then show ?thesis by simp
qed

text \<open>\<open>EVP_DecodeBase64\<close> never writes more bytes than \<open>max_out\<close>, and accepts only inputs whose
  length is a multiple of four.\<close>

theorem decode_base64_bounds:
  assumes "EVP_DecodeBase64 max_out inp = Some out" and "length inp \<le> size_max div 4"
  shows "length out \<le> max_out \<and> length inp mod 4 = 0 \<and> 4 * length out \<le> 3 * length inp"
proof -
  have "4 * length out \<le> 3 * length inp" "length inp mod 4 = 0" "3 * (length inp div 4) \<le> max_out"
    using assms by (auto simp: EVP_DecodeBase64_def EVP_DecodedLength_def size_mult_def
        dest: decode_base64_loop_length split: if_splits)
  moreover from this(2) have "length inp = 4 * (length inp div 4)" by presburger
  ultimately show ?thesis by linarith
qed

lemma decode_base64_bounds_witness:
  "length [104, 105 :: u8] \<le> 3 \<and> length [97, 71, 107, 61 :: u8] mod 4 = 0 \<and> 4 * length [104, 105 :: u8] \<le> 3 * length [97, 71, 107, 61 :: u8]"
proof (rule decode_base64_bounds)
  show "EVP_DecodeBase64 3 [97, 71, 107, 61] = Some [104, 105]"
    using EVP_DecodeBase64_base64 [of "[104, 105]" 3] by (simp add: b64_eval)
qed simp

end
