(* ===== verification/Pb_Stream.thy ===== *)
theory Pb_Stream
  imports Prelude
begin

text \<open>
  The stream and wire layer of nanopb (\<open>pb_decode.c\<close>, \<open>pb_encode.c\<close>): input and output streams with
  their callbacks, varints, zig-zag and fixed-width integers, field tags, skipping of unknown
  fields, length-delimited substreams.

  The build of the app sets \<open>PB_FIELD_32BIT\<close>, \<open>PB_NO_PACKED_STRUCTS\<close> and \<open>PB_ENABLE_MALLOC\<close>
  (\<open>ios/Pods/Target Support Files/nanopb\<close>), and neither \<open>PB_BUFFER_ONLY\<close> nor \<open>PB_WITHOUT_64BIT\<close>.
  \<open>uint_fast8_t\<close> has 8 bits on its targets. A stream state of type \<open>'s\<close> stands for the \<open>void *state\<close>
  of the code. A callback is a function of the state and of the number of bytes to read (the bytes
  to write); as the interface asks, it does not change \<open>bytes_left\<close>.
\<close>

section \<open>Input streams\<close>

text \<open>An input callback: whether it is the function \<open>buf_read\<close> (the code compares the pointers), and
  its result, the bytes put into the buffer and the new state.\<close>

record 's pb_icallback =
  is_buf_read :: bool
  read_fn :: "'s \<Rightarrow> nat \<Rightarrow> bool \<times> bytes \<times> 's"

record 's pb_istream_t =
  callback :: "'s pb_icallback"
  state :: 's
  bytes_left :: nat
  errmsg :: "string option"

type_synonym ('s, 'a) pb_reader = "'s pb_istream_t \<Rightarrow> 'a option \<times> 's pb_istream_t"

text \<open>\<open>PB_RETURN_ERROR\<close>: the first message is kept.\<close>

definition pb_return_error :: "string \<Rightarrow> ('s, 'a) pb_reader" where
  "pb_return_error msg stream =
     (None, stream\<lparr>errmsg := (case errmsg stream of None \<Rightarrow> Some msg | Some m \<Rightarrow> Some m)\<rparr>)"

text \<open>\<open>buf_read\<close>: the state is the bytes from the read pointer on.\<close>

definition buf_read :: "bytes \<Rightarrow> nat \<Rightarrow> bool \<times> bytes \<times> bytes" where
  "buf_read source count = (True, take count source, drop count source)"

definition pb_istream_from_buffer :: "bytes \<Rightarrow> nat \<Rightarrow> bytes pb_istream_t" where
  "pb_istream_from_buffer buf bufsize =
     \<lparr>callback = \<lparr>is_buf_read = True, read_fn = buf_read\<rparr>, state = buf, bytes_left = bufsize, errmsg = None\<rparr>"

text \<open>\<open>pb_read\<close> into a buffer, and with a null buffer.\<close>

definition pb_read :: "nat \<Rightarrow> ('s, bytes) pb_reader" where
  "pb_read count stream =
     (if bytes_left stream < count then pb_return_error ''end-of-stream'' stream
      else (case read_fn (callback stream) (state stream) count of
              (False, _, s) \<Rightarrow> pb_return_error ''io error'' (stream\<lparr>state := s\<rparr>)
            | (True, d, s) \<Rightarrow> (Some d, stream\<lparr>state := s, bytes_left := bytes_left stream - count\<rparr>)))"

function pb_skip_chunks :: "nat \<Rightarrow> ('s, unit) pb_reader" where
  "pb_skip_chunks count stream =
     (if count > 16 then
        (case pb_read 16 stream of
           (None, stream) \<Rightarrow> (None, stream)
         | (Some _, stream) \<Rightarrow> pb_skip_chunks (count - 16) stream)
      else (case pb_read count stream of
              (None, stream) \<Rightarrow> (None, stream)
            | (Some _, stream) \<Rightarrow> (Some (), stream)))"
  by pat_completeness auto
termination
  by (relation "measure fst") auto

declare pb_skip_chunks.simps [simp del]

definition pb_read_null :: "nat \<Rightarrow> ('s, unit) pb_reader" where
  "pb_read_null count stream =
     (if \<not> is_buf_read (callback stream) then pb_skip_chunks count stream
      else (case pb_read count stream of
              (None, stream) \<Rightarrow> (None, stream)
            | (Some _, stream) \<Rightarrow> (Some (), stream)))"

definition pb_readbyte :: "('s, u8) pb_reader" where
  "pb_readbyte stream =
     (if bytes_left stream = 0 then pb_return_error ''end-of-stream'' stream
      else (case read_fn (callback stream) (state stream) 1 of
              (False, _, s) \<Rightarrow> pb_return_error ''io error'' (stream\<lparr>state := s\<rparr>)
            | (True, d, s) \<Rightarrow> (Some (d ! 0), stream\<lparr>state := s, bytes_left := bytes_left stream - 1\<rparr>)))"

lemma pb_return_error_None [simp]: "pb_return_error msg s \<noteq> (Some x, s')" "(Some x, s') \<noteq> pb_return_error msg s"
  by (simp_all add: pb_return_error_def)

lemma pb_readbyte_left: "pb_readbyte s = (Some b, s') \<Longrightarrow> bytes_left s = Suc (bytes_left s')"
  by (auto simp: pb_readbyte_def split: if_splits prod.splits bool.splits)

lemma pb_read_left: "pb_read n s = (Some d, s') \<Longrightarrow> bytes_left s = bytes_left s' + n"
  by (auto simp: pb_read_def split: if_splits prod.splits bool.splits)

section \<open>Decoding of integers\<close>

text \<open>The multi-byte loop of \<open>pb_decode_varint32_eof\<close>: the result, and the last byte and \<open>bitpos\<close>
  for the test behind the loop.\<close>

function varint32_loop :: "u32 \<Rightarrow> u8 \<Rightarrow> ('s, u32 \<times> u8 \<times> u8) pb_reader" where
  "varint32_loop result bitpos stream =
     (case pb_readbyte stream of
        (None, stream) \<Rightarrow> (None, stream)
      | (Some byte, stream) \<Rightarrow>
          (let sign_extension = (if bitpos < 63 then 0xFF else 0x01);
               overflow = (bitpos \<ge> 32 \<and> byte AND 0x7F \<noteq> 0
                           \<and> (drop_bit 31 result = 0 \<or> byte \<noteq> sign_extension));
               result = (if bitpos \<ge> 32 then result
                         else result OR push_bit (unat bitpos) (ucast (byte AND 0x7F)));
               bitpos = bitpos + 7
           in if overflow then pb_return_error ''varint overflow'' stream
              else if byte AND 0x80 \<noteq> 0 then varint32_loop result bitpos stream
              else (Some (result, byte, bitpos), stream)))"
  by pat_completeness auto
termination
  by (relation "measure (\<lambda>(_, _, s). bytes_left s)") (auto dest: pb_readbyte_left [OF sym])

declare varint32_loop.simps [simp del]

text \<open>\<open>pb_decode_varint32_eof\<close>; the outer result component is \<open>*eof\<close> after a call that found it
  false (the code sets it only where the first byte is missing).\<close>

definition pb_decode_varint32_eof :: "'s pb_istream_t \<Rightarrow> bool \<times> u32 option \<times> 's pb_istream_t" where
  "pb_decode_varint32_eof stream =
     (case pb_readbyte stream of
        (None, stream) \<Rightarrow> (bytes_left stream = 0, None, stream)
      | (Some byte, stream) \<Rightarrow>
          if byte AND 0x80 = 0 then (False, Some (ucast byte), stream)
          else (case varint32_loop (ucast (byte AND 0x7F)) 7 stream of
                  (None, stream) \<Rightarrow> (False, None, stream)
                | (Some (result, byte, bitpos), stream) \<Rightarrow>
                    if bitpos = 35 \<and> byte AND 0x70 \<noteq> 0
                    then (case pb_return_error ''varint overflow'' stream of (r, stream) \<Rightarrow> (False, r, stream))
                    else (False, Some result, stream)))"

definition pb_decode_varint32 :: "('s, u32) pb_reader" where
  "pb_decode_varint32 stream = snd (pb_decode_varint32_eof stream)"

function varint_loop :: "u64 \<Rightarrow> u8 \<Rightarrow> ('s, u64) pb_reader" where
  "varint_loop result bitpos stream =
     (if bitpos \<ge> 64 then pb_return_error ''varint overflow'' stream
      else (case pb_readbyte stream of
              (None, stream) \<Rightarrow> (None, stream)
            | (Some byte, stream) \<Rightarrow>
                (let result = result OR push_bit (unat bitpos) (ucast (byte AND 0x7F));
                     bitpos = bitpos + 7
                 in if byte AND 0x80 \<noteq> 0 then varint_loop result bitpos stream
                    else (Some result, stream))))"
  by pat_completeness auto
termination
  by (relation "measure (\<lambda>(_, _, s). bytes_left s)") (auto dest: pb_readbyte_left [OF sym])

declare varint_loop.simps [simp del]

definition pb_decode_varint :: "('s, u64) pb_reader" where
  "pb_decode_varint = varint_loop 0 0"

text \<open>\<open>int64_t\<close> is the word with its two's complement reading.\<close>

definition pb_decode_svarint :: "('s, u64) pb_reader" where
  "pb_decode_svarint stream =
     (case pb_decode_varint stream of
        (None, stream) \<Rightarrow> (None, stream)
      | (Some value, stream) \<Rightarrow>
          (Some (if value AND 1 \<noteq> 0 then NOT (drop_bit 1 value) else drop_bit 1 value), stream))"

definition pb_decode_fixed32 :: "('s, u32) pb_reader" where
  "pb_decode_fixed32 stream =
     (case pb_read 4 stream of
        (None, stream) \<Rightarrow> (None, stream)
      | (Some b, stream) \<Rightarrow>
          (Some (push_bit 0 (ucast (b ! 0)) OR push_bit 8 (ucast (b ! 1)) OR
                 push_bit 16 (ucast (b ! 2)) OR push_bit 24 (ucast (b ! 3))), stream))"

definition pb_decode_fixed64 :: "('s, u64) pb_reader" where
  "pb_decode_fixed64 stream =
     (case pb_read 8 stream of
        (None, stream) \<Rightarrow> (None, stream)
      | (Some b, stream) \<Rightarrow>
          (Some (push_bit 0 (ucast (b ! 0)) OR push_bit 8 (ucast (b ! 1)) OR
                 push_bit 16 (ucast (b ! 2)) OR push_bit 24 (ucast (b ! 3)) OR
                 push_bit 32 (ucast (b ! 4)) OR push_bit 40 (ucast (b ! 5)) OR
                 push_bit 48 (ucast (b ! 6)) OR push_bit 56 (ucast (b ! 7))), stream))"

section \<open>Tags, skipping and substreams\<close>

text \<open>\<open>(pb_wire_type_t)(temp & 7)\<close> can be a value without an enumerator.\<close>

type_synonym pb_wire_type_t = u32

abbreviation (input) PB_WT_VARINT :: pb_wire_type_t where "PB_WT_VARINT \<equiv> 0"
abbreviation (input) PB_WT_64BIT :: pb_wire_type_t where "PB_WT_64BIT \<equiv> 1"
abbreviation (input) PB_WT_STRING :: pb_wire_type_t where "PB_WT_STRING \<equiv> 2"
abbreviation (input) PB_WT_32BIT :: pb_wire_type_t where "PB_WT_32BIT \<equiv> 5"

text \<open>\<open>pb_decode_tag\<close>: \<open>*eof\<close>, and \<open>*tag\<close> and \<open>*wire_type\<close> when the result is true.\<close>

definition pb_decode_tag :: "'s pb_istream_t \<Rightarrow> bool \<times> (u32 \<times> pb_wire_type_t) option \<times> 's pb_istream_t" where
  "pb_decode_tag stream =
     (case pb_decode_varint32_eof stream of
        (eof, None, stream) \<Rightarrow> (eof, None, stream)
      | (eof, Some temp, stream) \<Rightarrow>
          if temp = 0 then (True, None, stream)
          else (eof, Some (drop_bit 3 temp, temp AND 7), stream))"

function pb_skip_varint :: "('s, unit) pb_reader" where
  "pb_skip_varint stream =
     (case pb_read 1 stream of
        (None, stream) \<Rightarrow> (None, stream)
      | (Some b, stream) \<Rightarrow> if b ! 0 AND 0x80 \<noteq> 0 then pb_skip_varint stream else (Some (), stream))"
  by pat_completeness auto
termination
  by (relation "measure bytes_left") (auto dest!: pb_read_left [OF sym])

declare pb_skip_varint.simps [simp del]

definition pb_skip_string :: "('s, unit) pb_reader" where
  "pb_skip_string stream =
     (case pb_decode_varint32 stream of
        (None, stream) \<Rightarrow> (None, stream)
      | (Some len, stream) \<Rightarrow> pb_read_null (unat len) stream)"

definition pb_skip_field :: "pb_wire_type_t \<Rightarrow> ('s, unit) pb_reader" where
  "pb_skip_field wire_type stream =
     (if wire_type = PB_WT_VARINT then pb_skip_varint stream
      else if wire_type = PB_WT_64BIT then pb_read_null 8 stream
      else if wire_type = PB_WT_STRING then pb_skip_string stream
      else if wire_type = PB_WT_32BIT then pb_read_null 4 stream
      else pb_return_error ''invalid wire_type'' stream)"

text \<open>The varint branch of \<open>read_raw_value\<close>, with \<open>room\<close> bytes of the buffer left.\<close>

fun read_raw_varint :: "nat \<Rightarrow> ('s, bytes) pb_reader" where
  "read_raw_varint 0 stream = (None, stream)"
| "read_raw_varint (Suc room) stream =
     (case pb_read 1 stream of
        (None, stream) \<Rightarrow> (None, stream)
      | (Some b, stream) \<Rightarrow>
          if b ! 0 AND 0x80 \<noteq> 0 then
            (case read_raw_varint room stream of
               (None, stream) \<Rightarrow> (None, stream)
             | (Some bs, stream) \<Rightarrow> (Some (b ! 0 # bs), stream))
          else (Some [b ! 0], stream))"

definition read_raw_value :: "pb_wire_type_t \<Rightarrow> nat \<Rightarrow> ('s, bytes) pb_reader" where
  "read_raw_value wire_type max_size stream =
     (if wire_type = PB_WT_VARINT then read_raw_varint max_size stream
      else if wire_type = PB_WT_64BIT then pb_read 8 stream
      else if wire_type = PB_WT_32BIT then pb_read 4 stream
      else pb_return_error ''invalid wire_type'' stream)"

text \<open>\<open>pb_make_string_substream\<close> returns the substream and the parent with fewer \<open>bytes_left\<close>;
  \<open>pb_close_string_substream\<close> skips what is left of the substream and takes over its state.\<close>

definition pb_make_string_substream :: "('s, 's pb_istream_t) pb_reader" where
  "pb_make_string_substream stream =
     (case pb_decode_varint32 stream of
        (None, stream) \<Rightarrow> (None, stream)
      | (Some sz, stream) \<Rightarrow>
          if bytes_left stream < unat sz then pb_return_error ''parent stream too short'' stream
          else (Some (stream\<lparr>bytes_left := unat sz\<rparr>), stream\<lparr>bytes_left := bytes_left stream - unat sz\<rparr>))"

definition pb_close_string_substream :: "'s pb_istream_t \<Rightarrow> ('s, unit) pb_reader" where
  "pb_close_string_substream substream stream =
     (case (if bytes_left substream \<noteq> 0 then pb_read_null (bytes_left substream) substream
            else (Some (), substream)) of
        (None, _) \<Rightarrow> (None, stream)
      | (Some _, substream) \<Rightarrow>
          (Some (), stream\<lparr>state := state substream, errmsg := errmsg substream\<rparr>))"

section \<open>Output streams\<close>

text \<open>An output stream without a callback only counts (\<open>PB_OSTREAM_SIZING\<close>).\<close>

record 's pb_ostream_t =
  write_fn :: "('s \<Rightarrow> bytes \<Rightarrow> bool \<times> 's) option"
  ostate :: 's
  max_size :: nat
  bytes_written :: nat
  oerrmsg :: "string option"

type_synonym 's pb_writer = "'s pb_ostream_t \<Rightarrow> bool \<times> 's pb_ostream_t"

definition pb_oerror :: "string \<Rightarrow> 's pb_writer" where
  "pb_oerror msg stream =
     (False, stream\<lparr>oerrmsg := (case oerrmsg stream of None \<Rightarrow> Some msg | Some m \<Rightarrow> Some m)\<rparr>)"

text \<open>\<open>buf_write\<close>: the state is the buffer and the offset of the write pointer.\<close>

definition buf_write :: "bytes \<times> nat \<Rightarrow> bytes \<Rightarrow> bool \<times> bytes \<times> nat" where
  "buf_write st d = (case st of (b, off) \<Rightarrow> (True, take off b @ d @ drop (off + length d) b, off + length d))"

definition pb_ostream_from_buffer :: "bytes \<Rightarrow> nat \<Rightarrow> (bytes \<times> nat) pb_ostream_t" where
  "pb_ostream_from_buffer buf bufsize =
     \<lparr>write_fn = Some buf_write, ostate = (buf, 0), max_size = bufsize, bytes_written = 0, oerrmsg = None\<rparr>"

definition PB_OSTREAM_SIZING :: "'s \<Rightarrow> 's pb_ostream_t" where
  "PB_OSTREAM_SIZING st = \<lparr>write_fn = None, ostate = st, max_size = 0, bytes_written = 0, oerrmsg = None\<rparr>"

text \<open>\<open>pb_write\<close> of \<open>count\<close> bytes from \<open>buf\<close>; a null buffer, used on sizing streams only, is \<open>[]\<close>.\<close>

definition pb_write :: "bytes \<Rightarrow> nat \<Rightarrow> 's pb_writer" where
  "pb_write buf count stream =
     (case write_fn stream of
        None \<Rightarrow> (True, stream\<lparr>bytes_written := size_add (bytes_written stream) count\<rparr>)
      | Some f \<Rightarrow>
          if size_add (bytes_written stream) count > max_size stream then pb_oerror ''stream full'' stream
          else (case f (ostate stream) (take count buf) of
                  (False, s) \<Rightarrow> pb_oerror ''io error'' (stream\<lparr>ostate := s\<rparr>)
                | (True, s) \<Rightarrow>
                    (True, stream\<lparr>ostate := s, bytes_written := size_add (bytes_written stream) count\<rparr>)))"

section \<open>Encoding of integers\<close>

function varint_bytes_loop :: "u64 \<Rightarrow> bytes" where
  "varint_bytes_loop value =
     (if value \<noteq> 0 then ucast ((value AND 0x7F) OR 0x80) # varint_bytes_loop (drop_bit 7 value) else [])"
  by pat_completeness auto
termination
proof (relation "measure unat")
  fix v :: u64
  assume "v \<noteq> 0"
  then have "unat v \<noteq> 0" by (simp add: unat_eq_0)
  then show "(drop_bit 7 v, v) \<in> measure unat"
    by (simp only: in_measure unat_drop_bit_div) simp
qed simp

declare varint_bytes_loop.simps [simp del]

definition pb_encode_varint :: "u64 \<Rightarrow> 's pb_writer" where
  "pb_encode_varint value stream =
     (if value \<le> 0x7F then pb_write [ucast value] 1 stream
      else
        (let buffer = varint_bytes_loop value; i = length buffer;
             buffer = buffer[i - 1 := buffer ! (i - 1) AND 0x7F]
         in pb_write buffer i stream))"

definition pb_encode_svarint :: "u64 \<Rightarrow> 's pb_writer" where
  "pb_encode_svarint value stream =
     (let zigzagged = (if sint value < 0 then NOT (push_bit 1 value) else push_bit 1 value)
      in pb_encode_varint zigzagged stream)"

definition pb_encode_fixed32 :: "u32 \<Rightarrow> 's pb_writer" where
  "pb_encode_fixed32 val stream =
     pb_write [ucast (val AND 0xFF), ucast (drop_bit 8 val AND 0xFF), ucast (drop_bit 16 val AND 0xFF),
               ucast (drop_bit 24 val AND 0xFF)] 4 stream"

definition pb_encode_fixed64 :: "u64 \<Rightarrow> 's pb_writer" where
  "pb_encode_fixed64 val stream =
     pb_write [ucast (val AND 0xFF), ucast (drop_bit 8 val AND 0xFF), ucast (drop_bit 16 val AND 0xFF),
               ucast (drop_bit 24 val AND 0xFF), ucast (drop_bit 32 val AND 0xFF),
               ucast (drop_bit 40 val AND 0xFF), ucast (drop_bit 48 val AND 0xFF),
               ucast (drop_bit 56 val AND 0xFF)] 8 stream"

definition pb_encode_tag :: "pb_wire_type_t \<Rightarrow> u32 \<Rightarrow> 's pb_writer" where
  "pb_encode_tag wiretype field_number stream =
     (let tag = push_bit 3 (ucast field_number) OR ucast wiretype :: u64
      in pb_encode_varint tag stream)"

definition pb_encode_string :: "bytes \<Rightarrow> nat \<Rightarrow> 's pb_writer" where
  "pb_encode_string buffer sz stream =
     (case pb_encode_varint (of_nat sz) stream of
        (False, stream) \<Rightarrow> (False, stream)
      | (True, stream) \<Rightarrow> pb_write buffer sz stream)"

end
