(* ===== verification/Pb_Wire.thy ===== *)
theory Pb_Wire
  imports Pb_Stream
begin

text \<open>
  The wire format of \<open>Pb_Stream\<close>: the encodings as byte strings, and the theorems that the writers
  produce them on every lawful output stream and the readers consume exactly them from every lawful
  input stream. What the readers and writers rely on is stated by two locales, interpreted on the
  buffer streams of the code.
\<close>

section \<open>The encodings\<close>

fun wire_varint :: "nat \<Rightarrow> bytes" where
  "wire_varint n = (if n < 128 then [of_nat n] else of_nat (128 + n mod 128) # wire_varint (n div 128))"

declare wire_varint.simps [simp del]

lemma wire_varint_small: "n < 128 \<Longrightarrow> wire_varint n = [of_nat n]"
  by (simp add: wire_varint.simps)

lemma wire_varint_big: "128 \<le> n \<Longrightarrow> wire_varint n = of_nat (128 + n mod 128) # wire_varint (n div 128)"
  by (simp add: wire_varint.simps [of n])

lemma wire_varint_ne [simp]: "wire_varint n \<noteq> []"
  by (cases "n < 128") (simp_all add: wire_varint_small wire_varint_big)

lemma length_wire_varint: "n < 128 ^ k \<Longrightarrow> 0 < k \<Longrightarrow> length (wire_varint n) \<le> k"
proof (induction k arbitrary: n)
  case (Suc k)
  show ?case
  proof (cases "n < 128")
    case False
    then have "0 < k" using Suc.prems by (cases k) auto
    moreover have "n div 128 < 128 ^ k" using Suc.prems by (simp add: less_mult_imp_div_less mult.commute)
    ultimately show ?thesis using Suc.IH [of "n div 128"] False by (simp add: wire_varint_big)
  qed (simp add: wire_varint_small)
qed simp

definition zigzag :: "int \<Rightarrow> nat" where
  "zigzag i = (if i < 0 then nat (- 2 * i - 1) else nat (2 * i))"

definition wire_tag :: "nat \<Rightarrow> nat \<Rightarrow> bytes" where
  "wire_tag field_number wt = wire_varint (field_number * 8 + wt)"

definition wire_string :: "bytes \<Rightarrow> bytes" where
  "wire_string d = wire_varint (length d) @ d"

lemma nat_or_shifted: "a < 2 ^ k \<Longrightarrow> a OR b * 2 ^ k = a + b * 2 ^ k" for a b :: nat
proof -
  assume "a < 2 ^ k"
  then have a: "take_bit k a = a" by (simp add: take_bit_nat_eq_self)
  have "take_bit k a AND push_bit k b = 0"
    by (rule bit_eqI) (auto simp: bit_simps)
  then have "a + push_bit k b = a OR push_bit k b"
    by (simp add: a disjunctive_add_eq_or)
  then show ?thesis by (simp add: push_bit_eq_mult)
qed

lemma unat_or_shifted:
  fixes r x :: "'a::len word"
  assumes "unat r < 2 ^ k" and "unat x * 2 ^ k < 2 ^ LENGTH('a)"
  shows "unat (r OR push_bit k x) = unat r + unat x * 2 ^ k"
proof -
  have "unat (push_bit k x) = take_bit LENGTH('a) (push_bit k (unat x))"
    by (rule unsigned_push_bit_eq)
  also have "\<dots> = push_bit k (unat x)"
    using assms(2) by (simp add: push_bit_eq_mult take_bit_nat_eq_self)
  finally show ?thesis
    using assms(1) by (simp add: unsigned_or_eq nat_or_shifted push_bit_eq_mult)
qed

section \<open>Lawful input streams\<close>

locale pb_source =
  fixes io :: "'s pb_icallback" and pending :: "'s \<Rightarrow> bytes"
  assumes read_pending: "n \<le> length (pending s) \<Longrightarrow>
    \<exists>s'. read_fn io s n = (True, take n (pending s), s') \<and> pending s' = drop n (pending s)"

text \<open>The bytes that a stream can still deliver.\<close>

definition istream_ok :: "'s pb_icallback \<Rightarrow> ('s \<Rightarrow> bytes) \<Rightarrow> 's pb_istream_t \<Rightarrow> bool" where
  "istream_ok io pending st \<longleftrightarrow> callback st = io \<and> bytes_left st \<le> length (pending (state st))"

definition contents :: "('s \<Rightarrow> bytes) \<Rightarrow> 's pb_istream_t \<Rightarrow> bytes" where
  "contents pending st = take (bytes_left st) (pending (state st))"

text \<open>\<open>delivers f xs r\<close>: on a stream with the contents \<open>xs @ rest\<close>, \<open>f\<close> returns \<open>r\<close> and leaves \<open>rest\<close>,
  with the state advanced by exactly \<open>xs\<close>.\<close>

definition delivers ::
    "'s pb_icallback \<Rightarrow> ('s \<Rightarrow> bytes) \<Rightarrow> ('s, 'a) pb_reader \<Rightarrow> bytes \<Rightarrow> 'a \<Rightarrow> bool" where
  "delivers io pending f xs r \<longleftrightarrow>
     (\<forall>st rest. istream_ok io pending st \<longrightarrow> contents pending st = xs @ rest \<longrightarrow>
        (\<exists>s'. f st = (Some r, st\<lparr>state := s', bytes_left := bytes_left st - length xs\<rparr>)
          \<and> pending s' = drop (length xs) (pending (state st))))"

lemma contents_length: "istream_ok io pending st \<Longrightarrow> length (contents pending st) = bytes_left st"
  by (simp add: istream_ok_def contents_def)

lemma delivers_step:
  assumes "istream_ok io pending st" and "contents pending st = xs @ rest"
    and "pending s' = drop (length xs) (pending (state st))"
  shows "istream_ok io pending (st\<lparr>state := s', bytes_left := bytes_left st - length xs\<rparr>)
    \<and> contents pending (st\<lparr>state := s', bytes_left := bytes_left st - length xs\<rparr>) = rest"
proof -
  have "take (bytes_left st) (pending (state st)) = xs @ rest"
    using assms(2) by (simp add: contents_def)
  then have "drop (length xs) (take (bytes_left st) (pending (state st))) = rest" by simp
  then show ?thesis
    using assms(1,3) by (auto simp: istream_ok_def contents_def drop_take)
qed

context pb_source
begin

lemma read_1:
  assumes "istream_ok io pending st" and "contents pending st = b # rest"
  shows "\<exists>s'. pb_readbyte st = (Some b, st\<lparr>state := s', bytes_left := bytes_left st - 1\<rparr>)
    \<and> pending s' = drop 1 (pending (state st))"
proof -
  have ne: "bytes_left st \<noteq> 0" using assms(2) by (cases "bytes_left st") (auto simp: contents_def)
  then have le: "1 \<le> length (pending (state st))" using assms(1) by (auto simp: istream_ok_def)
  then obtain s' where s': "read_fn io (state st) 1 = (True, take 1 (pending (state st)), s')"
    "pending s' = drop 1 (pending (state st))"
    using read_pending by blast
  have "take 1 (pending (state st)) ! 0 = b"
    using assms(2) ne le by (cases "pending (state st)"; cases "bytes_left st") (auto simp: contents_def)
  then show ?thesis
    using s' ne assms(1) by (intro exI [of _ s']) (simp add: pb_readbyte_def istream_ok_def)
qed

lemma delivers_readbyte: "delivers io pending pb_readbyte [b] b"
  using read_1 by (simp add: delivers_def)

lemma readbyte_empty:
  "istream_ok io pending st \<Longrightarrow> contents pending st = [] \<Longrightarrow> pb_readbyte st = pb_return_error ''end-of-stream'' st"
  by (auto simp: istream_ok_def contents_def pb_readbyte_def)

lemma delivers_read: "delivers io pending (pb_read (length xs)) xs xs"
proof -
  have "\<exists>s'. pb_read (length xs) st = (Some xs, st\<lparr>state := s', bytes_left := bytes_left st - length xs\<rparr>)
      \<and> pending s' = drop (length xs) (pending (state st))"
    if ok: "istream_ok io pending st" and c: "contents pending st = xs @ rest" for st rest
  proof -
    have le: "length xs \<le> bytes_left st" using contents_length [OF ok] by (simp add: c)
    then have "length xs \<le> length (pending (state st))" using ok by (simp add: istream_ok_def)
    then obtain s' where s': "read_fn io (state st) (length xs) = (True, take (length xs) (pending (state st)), s')"
      "pending s' = drop (length xs) (pending (state st))"
      using read_pending by blast
    have "take (length xs) (take (bytes_left st) (pending (state st))) = xs"
      using c by (simp add: contents_def)
    then have "take (length xs) (pending (state st)) = xs" using le by (simp add: min_def)
    then show ?thesis using s' le ok by (intro exI [of _ s']) (simp add: pb_read_def istream_ok_def)
  qed
  then show ?thesis by (simp add: delivers_def)
qed

end

lemma delivers_bind:
  assumes f: "delivers io pending f xs r" and g: "delivers io pending (g r) ys q"
    and h: "\<And>st st'. f st = (Some r, st') \<Longrightarrow> h st = g r st'"
  shows "delivers io pending h (xs @ ys) q"
  unfolding delivers_def
proof (intro allI impI)
  fix st rest
  assume ok: "istream_ok io pending st" and c: "contents pending st = (xs @ ys) @ rest"
  then obtain s' where fs: "f st = (Some r, st\<lparr>state := s', bytes_left := bytes_left st - length xs\<rparr>)"
    "pending s' = drop (length xs) (pending (state st))"
    using f by (auto simp: delivers_def)
  note st' = delivers_step [OF ok _ fs(2), of "ys @ rest"]
  obtain s'' where "g r (st\<lparr>state := s', bytes_left := bytes_left st - length xs\<rparr>) =
      (Some q, st\<lparr>state := s'', bytes_left := bytes_left st - length xs - length ys\<rparr>)"
    "pending s'' = drop (length ys) (pending s')"
    using g st' c by (auto simp: delivers_def)
  then show "\<exists>s'. h st = (Some q, st\<lparr>state := s', bytes_left := bytes_left st - length (xs @ ys)\<rparr>) \<and>
      pending s' = drop (length (xs @ ys)) (pending (state st))"
    using h [OF fs(1)] fs(2) by (intro exI [of _ s'']) (simp add: add.commute)
qed

lemma delivers_map:
  assumes f: "delivers io pending f xs r" and h: "\<And>st st'. f st = (Some r, st') \<Longrightarrow> h st = (Some q, st')"
  shows "delivers io pending h xs q"
  using assms unfolding delivers_def by blast

section \<open>Reading integers\<close>

lemma u8_ge_128: "(b :: u8) AND 128 \<noteq> 0 \<longleftrightarrow> 128 \<le> unat b"
  by (simp add: u8_cases_high not_less)

lemma varint_byte_last: "n < 128 \<Longrightarrow> (of_nat n :: u8) AND 128 = 0 \<and> unat ((of_nat n :: u8) AND 127) = n"
  by (simp add: u8_cases_high unat_of_nat_u8)

lemma varint_byte_more:
  "(of_nat (128 + n mod 128) :: u8) AND 128 \<noteq> 0 \<and> unat ((of_nat (128 + n mod 128) :: u8) AND 127) = n mod 128"
  unfolding u8_ge_128 unat_and_7f unat_of_nat_u8 by simp

lemma delivers_cong:
  assumes "delivers io pending f xs r" and "\<And>st. f st = g st"
  shows "delivers io pending g xs r"
  using assms by (simp add: delivers_def)

context pb_source
begin

lemma delivers_varint_loop:
  assumes "unat bitpos = k" and "k < 64" and "unat r < 2 ^ k" and "unat r + n * 2 ^ k < 2 ^ 64"
    and "k mod 7 = 0"
  shows "delivers io pending (varint_loop r bitpos) (wire_varint n) (of_nat (unat r + n * 2 ^ k))"
  using assms
proof (induction n arbitrary: r bitpos k rule: wire_varint.induct)
  case (1 n)
  define d where "d = (if n < 128 then n else n mod 128)"
  define b :: u8 where "b = of_nat (if n < 128 then n else 128 + n mod 128)"
  have b: "unat (b AND 127) = d" "b AND 128 = 0 \<longleftrightarrow> n < 128"
    using varint_byte_last [of n] varint_byte_more [of n] by (auto simp: b_def d_def)
  have d: "d \<le> n" by (auto simp: d_def)
  have dk: "unat r + d * 2 ^ k < 2 ^ 64"
    using "1.prems"(4) d by (meson add_left_mono le_less_trans mult_le_mono1)
  define r' :: u64 where "r' = r OR push_bit k (ucast (b AND 127))"
  have r': "unat r' = unat r + d * 2 ^ k"
    unfolding r'_def using "1.prems"(3) dk b(1) by (subst unat_or_shifted) simp_all
  have le: "\<not> bitpos \<ge> 64" using "1.prems"(1,2) by (simp add: word_le_nat_alt)
  show ?case
  proof (cases "n < 128")
    case True
    have "delivers io pending (varint_loop r bitpos) [b] r'"
    proof (rule delivers_map [OF delivers_readbyte])
      fix st :: "'s pb_istream_t" and st'
      assume "pb_readbyte st = (Some b, st')"
      then show "varint_loop r bitpos st = (Some r', st')"
        using le b True "1.prems"(1) by (simp add: varint_loop.simps [of r bitpos st] r'_def Let_def)
    qed
    moreover have "r' = of_nat (unat r + n * 2 ^ k)"
    proof -
      have "r' = of_nat (unat r')" by simp
      also have "\<dots> = of_nat (unat r + n * 2 ^ k)" using r' True by (simp only: d_def if_True)
      finally show ?thesis .
    qed
    ultimately show ?thesis using True by (simp add: wire_varint_small b_def)
  next
    case False
    have k64: "k + 7 < 64"
    proof (rule ccontr)
      assume "\<not> k + 7 < 64"
      then have "57 \<le> k" by simp
      then have "128 * 2 ^ 57 \<le> n * (2 :: nat) ^ k"
        using False by (intro mult_mono power_increasing) auto
      with "1.prems"(4) show False by simp
    qed
    have bp: "unat (bitpos + 7) = k + 7"
      using "1.prems"(1) k64 by (simp add: unat_word_ariths)
    have rk: "unat r' < 2 ^ (k + 7)"
    proof -
      have "d < 128" by (auto simp: d_def)
      then have "(d + 1) * 2 ^ k \<le> 128 * (2 :: nat) ^ k" by (intro mult_right_mono) auto
      then have "d * 2 ^ k + 2 ^ k \<le> 128 * (2 :: nat) ^ k" by (simp only: add_mult_distrib mult_1)
      moreover have "(2 :: nat) ^ (k + 7) = 128 * 2 ^ k" by (simp add: power_add)
      ultimately show ?thesis using "1.prems"(3) r' by linarith
    qed
    have split: "n * 2 ^ k = d * 2 ^ k + (n div 128) * 2 ^ (k + 7)"
    proof -
      have "n = d + (n div 128) * 128" using False by (simp add: d_def)
      then have "n * 2 ^ k = (d + (n div 128) * 128) * 2 ^ k" by (rule arg_cong)
      then show ?thesis by (simp add: power_add algebra_simps)
    qed
    have "delivers io pending (varint_loop r' (bitpos + 7)) (wire_varint (n div 128))
        (of_nat (unat r' + (n div 128) * 2 ^ (k + 7)))"
      using "1.IH" [OF False bp k64 rk] "1.prems"(4,5) r' split by simp
    then have IH: "delivers io pending (varint_loop r' (bitpos + 7)) (wire_varint (n div 128))
        (of_nat (unat r + n * 2 ^ k))"
      using r' split by (simp only: add.assoc)
    have "delivers io pending (varint_loop r bitpos) ([b] @ wire_varint (n div 128)) (of_nat (unat r + n * 2 ^ k))"
    proof (rule delivers_bind [OF delivers_readbyte, where g = "\<lambda>_. varint_loop r' (bitpos + 7)"])
      show "delivers io pending (varint_loop r' (bitpos + 7)) (wire_varint (n div 128)) (of_nat (unat r + n * 2 ^ k))"
        by (rule IH)
      fix st :: "'s pb_istream_t" and st'
      assume "pb_readbyte st = (Some b, st')"
      then show "varint_loop r bitpos st = varint_loop r' (bitpos + 7) st'"
        using le b False "1.prems"(1) by (simp add: varint_loop.simps [of r bitpos st] r'_def Let_def)
    qed
    then show ?thesis using False by (simp add: wire_varint_big b_def)
  qed
qed

lemma delivers_varint:
  "n < 2 ^ 64 \<Longrightarrow> delivers io pending pb_decode_varint (wire_varint n) (of_nat n)"
  using delivers_varint_loop [of 0 0 0 n] by (simp add: pb_decode_varint_def)

end

section \<open>Signed and fixed-width integers\<close>

lemma zigzag_less: "- (2 ^ 63) \<le> i \<Longrightarrow> i < 2 ^ 63 \<Longrightarrow> zigzag i < 2 ^ 64"
  by (auto simp: zigzag_def)

lemma and_1_odd: "(w :: u64) AND 1 \<noteq> 0 \<longleftrightarrow> odd (unat w)"
proof -
  have "w AND 1 = take_bit 1 w" by (simp add: take_bit_eq_mask)
  then have "unat (w AND 1) = unat w mod 2"
    by (simp only: unsigned_take_bit_eq) (simp add: take_bit_eq_mod)
  then show ?thesis by (metis even_iff_mod_2_eq_zero unat_eq_0)
qed

lemma zigzag_decode:
  assumes "- (2 ^ 63) \<le> i" and "i < 2 ^ 63"
  defines "v \<equiv> of_nat (zigzag i) :: u64"
  shows "(if v AND 1 \<noteq> 0 then NOT (drop_bit 1 v) else drop_bit 1 v) = of_int i"
proof -
  have v: "unat v = zigzag i"
    using zigzag_less [OF assms(1,2)] by (simp add: v_def unat_of_nat)
  have "zigzag i div 2 < 2 ^ 64"
    using zigzag_less [OF assms(1,2)] by simp
  then have half: "drop_bit 1 v = of_nat (zigzag i div 2)"
    using v by (intro word_unat_eq_iff [THEN iffD2]) (simp add: unat_of_nat unat_drop_bit_div del: drop_bit_eq_div)
  show ?thesis
  proof (cases "i < 0")
    case True
    then have z: "odd (zigzag i)" "zigzag i div 2 = nat (- i - 1)"
      by (auto simp: zigzag_def nat_div_distrib even_nat_iff)
    have "NOT (of_nat (nat (- i - 1))) = (of_int i :: u64)"
      using True by (simp add: not_eq_complement)
    then show ?thesis using z v half by (simp add: and_1_odd)
  next
    case False
    then have z: "even (zigzag i)" "zigzag i div 2 = nat i"
      by (auto simp: zigzag_def nat_div_distrib even_nat_iff)
    then show ?thesis using v half False by (simp add: and_1_odd)
  qed
qed

lemma list_of_length_4: "length d = 4 \<Longrightarrow> d = [d ! 0, d ! 1, d ! 2, d ! 3]"
  by (auto simp: numeral_eq_Suc length_Suc_conv)

lemma list_of_length_8:
  "length d = 8 \<Longrightarrow> d = [d ! 0, d ! 1, d ! 2, d ! 3, d ! 4, d ! 5, d ! 6, d ! 7]"
  by (auto simp: numeral_eq_Suc length_Suc_conv)

lemma unat_imp_of_nat: "unat w = n \<Longrightarrow> w = of_nat n" for w :: "'a::len word"
  by auto

lemma le_or_32:
  "unat (push_bit 0 (ucast (a :: u8)) OR push_bit 8 (ucast (b :: u8)) OR push_bit 16 (ucast (c :: u8))
     OR push_bit 24 (ucast (d :: u8)) :: u32) = le_val [a, b, c, d]"
proof -
  define w1 :: u32 where "w1 = ucast a OR push_bit 8 (ucast b)"
  define w2 :: u32 where "w2 = w1 OR push_bit 16 (ucast c)"
  have w1: "unat w1 = unat a + unat b * 2 ^ 8"
    unfolding w1_def using u8_less [of a] u8_less [of b] by (subst unat_or_shifted) (simp_all del: u8_less)
  then have "unat w1 < 2 ^ 16" using u8_less [of a] u8_less [of b] by (simp del: u8_less)
  then have w2: "unat w2 = unat w1 + unat c * 2 ^ 16"
    unfolding w2_def using u8_less [of c] by (subst unat_or_shifted) (simp_all del: u8_less)
  then have "unat w2 < 2 ^ 24" using \<open>unat w1 < 2 ^ 16\<close> u8_less [of c] by (simp del: u8_less)
  then have "unat (w2 OR push_bit 24 (ucast d)) = unat w2 + unat d * 2 ^ 24"
    using u8_less [of d] by (subst unat_or_shifted) (simp_all del: u8_less)
  moreover have "push_bit 0 (ucast a) OR push_bit 8 (ucast b) OR push_bit 16 (ucast c)
     OR push_bit 24 (ucast d) = w2 OR push_bit 24 (ucast d)"
    unfolding w2_def w1_def by (simp only: or.assoc push_bit_0_id id_apply)
  ultimately show ?thesis by (simp add: w1 w2)
qed

lemma le_or_64:
  "unat (push_bit 0 (ucast (a :: u8)) OR push_bit 8 (ucast (b :: u8)) OR push_bit 16 (ucast (c :: u8))
     OR push_bit 24 (ucast (d :: u8)) OR push_bit 32 (ucast (e :: u8)) OR push_bit 40 (ucast (f :: u8))
     OR push_bit 48 (ucast (g :: u8)) OR push_bit 56 (ucast (h :: u8)) :: u64) = le_val [a, b, c, d, e, f, g, h]"
proof -
  have step: "unat (w OR push_bit k (ucast x)) = unat w + unat x * 2 ^ k \<and> unat w + unat x * 2 ^ k < 2 ^ (k + 8)"
    if "unat w < 2 ^ k" "k \<le> 56" for w :: u64 and x :: u8 and k
  proof -
    have "unat x * 2 ^ k + 2 ^ k = (unat x + 1) * 2 ^ k" by simp
    also have "\<dots> \<le> 256 * 2 ^ k" using u8_less [of x] by (intro mult_right_mono) (auto simp del: u8_less)
    finally have le: "unat x * 2 ^ k + 2 ^ k \<le> 2 ^ (k + 8)" by (simp add: power_add)
    moreover have "(2 :: nat) ^ (k + 8) \<le> 2 ^ 64" using that(2) by (intro power_increasing) auto
    ultimately have lt: "unat x * 2 ^ k < 2 ^ 64" using zero_less_power [of "2 :: nat" k] by linarith
    then have "unat (w OR push_bit k (ucast x)) = unat w + unat (ucast x :: u64) * 2 ^ k"
      using that(1) by (intro unat_or_shifted) simp_all
    then show ?thesis using le that(1) by simp
  qed
  define w1 :: u64 where "w1 = ucast a OR push_bit 8 (ucast b)"
  define w2 :: u64 where "w2 = w1 OR push_bit 16 (ucast c)"
  define w3 :: u64 where "w3 = w2 OR push_bit 24 (ucast d)"
  define w4 :: u64 where "w4 = w3 OR push_bit 32 (ucast e)"
  define w5 :: u64 where "w5 = w4 OR push_bit 40 (ucast f)"
  define w6 :: u64 where "w6 = w5 OR push_bit 48 (ucast g)"
  have 1: "unat w1 = unat a + unat b * 2 ^ 8 \<and> unat w1 < 2 ^ 16"
    using step [of "ucast a" 8 b] by (simp add: w1_def)
  have 2: "unat w2 = unat w1 + unat c * 2 ^ 16 \<and> unat w2 < 2 ^ 24"
    using step [of w1 16 c] 1 by (simp add: w2_def)
  have 3: "unat w3 = unat w2 + unat d * 2 ^ 24 \<and> unat w3 < 2 ^ 32"
    using step [of w2 24 d] 2 by (simp add: w3_def)
  have 4: "unat w4 = unat w3 + unat e * 2 ^ 32 \<and> unat w4 < 2 ^ 40"
    using step [of w3 32 e] 3 by (simp add: w4_def)
  have 5: "unat w5 = unat w4 + unat f * 2 ^ 40 \<and> unat w5 < 2 ^ 48"
    using step [of w4 40 f] 4 by (simp add: w5_def)
  have 6: "unat w6 = unat w5 + unat g * 2 ^ 48 \<and> unat w6 < 2 ^ 56"
    using step [of w5 48 g] 5 by (simp add: w6_def)
  have 7: "unat (w6 OR push_bit 56 (ucast h)) = unat w6 + unat h * 2 ^ 56"
    using step [of w6 56 h] 6 by simp
  have "push_bit 0 (ucast a) OR push_bit 8 (ucast b) OR push_bit 16 (ucast c)
     OR push_bit 24 (ucast d) OR push_bit 32 (ucast e) OR push_bit 40 (ucast f)
     OR push_bit 48 (ucast g) OR push_bit 56 (ucast h) = w6 OR push_bit 56 (ucast h)"
    unfolding w6_def w5_def w4_def w3_def w2_def w1_def by (simp only: or.assoc push_bit_0_id id_apply)
  with 1 2 3 4 5 6 7 show ?thesis by simp
qed

context pb_source
begin

lemma delivers_svarint:
  assumes "- (2 ^ 63) \<le> i" and "i < 2 ^ 63"
  shows "delivers io pending pb_decode_svarint (wire_varint (zigzag i)) (of_int i)"
proof (rule delivers_map [OF delivers_varint [OF zigzag_less [OF assms]]])
  fix st :: "'s pb_istream_t" and st'
  assume "pb_decode_varint st = (Some (of_nat (zigzag i)), st')"
  then show "pb_decode_svarint st = (Some (of_int i), st')"
    using zigzag_decode [OF assms] by (simp add: pb_decode_svarint_def)
qed

lemma delivers_fixed32:
  assumes "length d = 4"
  shows "delivers io pending pb_decode_fixed32 d (of_nat (le_val d))"
proof (rule delivers_map [OF delivers_read])
  fix st :: "'s pb_istream_t" and st'
  assume "pb_read (length d) st = (Some d, st')"
  moreover have "le_val [d ! 0, d ! 1, d ! 2, d ! 3] = le_val d"
    using list_of_length_4 [OF assms] by metis
  then have "push_bit 0 (ucast (d ! 0)) OR push_bit 8 (ucast (d ! 1)) OR push_bit 16 (ucast (d ! 2))
     OR push_bit 24 (ucast (d ! 3)) = (of_nat (le_val d) :: u32)"
    using unat_imp_of_nat [OF le_or_32 [of "d ! 0" "d ! 1" "d ! 2" "d ! 3"]] by (simp only:)
  ultimately show "pb_decode_fixed32 st = (Some (of_nat (le_val d)), st')"
    using assms by (simp add: pb_decode_fixed32_def)
qed

lemma delivers_fixed64:
  assumes "length d = 8"
  shows "delivers io pending pb_decode_fixed64 d (of_nat (le_val d))"
proof (rule delivers_map [OF delivers_read])
  fix st :: "'s pb_istream_t" and st'
  assume "pb_read (length d) st = (Some d, st')"
  moreover have "le_val [d ! 0, d ! 1, d ! 2, d ! 3, d ! 4, d ! 5, d ! 6, d ! 7] = le_val d"
    using list_of_length_8 [OF assms] by metis
  then have "push_bit 0 (ucast (d ! 0)) OR push_bit 8 (ucast (d ! 1)) OR push_bit 16 (ucast (d ! 2))
     OR push_bit 24 (ucast (d ! 3)) OR push_bit 32 (ucast (d ! 4)) OR push_bit 40 (ucast (d ! 5))
     OR push_bit 48 (ucast (d ! 6)) OR push_bit 56 (ucast (d ! 7)) = (of_nat (le_val d) :: u64)"
    using unat_imp_of_nat [OF le_or_64 [of "d ! 0" "d ! 1" "d ! 2" "d ! 3" "d ! 4" "d ! 5" "d ! 6" "d ! 7"]]
    by (simp only:)
  ultimately show "pb_decode_fixed64 st = (Some (of_nat (le_val d)), st')"
    using assms by (simp add: pb_decode_fixed64_def)
qed

end

section \<open>Tags\<close>

lemma varint32_final: "n < 16 \<Longrightarrow> (of_nat n :: u8) AND 0x70 = 0"
proof -
  assume n: "n < 16"
  have "\<forall>b :: u8. unat b < 16 \<longrightarrow> b AND 0x70 = 0"
  proof
    fix b :: u8
    have "uint b < 16 \<longrightarrow> b AND 0x70 = 0"
      by (rule u8_exhaust [where P = "\<lambda>b. uint b < 16 \<longrightarrow> b AND 0x70 = 0"]) code_simp
    moreover have "uint b = int (unat b)" by simp
    ultimately show "unat b < 16 \<longrightarrow> b AND 0x70 = 0" by linarith
  qed
  then show ?thesis using n by (simp add: unat_of_nat_u8)
qed

context pb_source
begin

lemma delivers_varint32_loop:
  assumes "unat bitpos = k" and "k < 32" and "unat r < 2 ^ k" and "unat r + n * 2 ^ k < 2 ^ 32"
    and "k mod 7 = 0"
  shows "\<exists>lb bp. delivers io pending (varint32_loop r bitpos) (wire_varint n) (of_nat (unat r + n * 2 ^ k), lb, bp)
    \<and> (bp = 35 \<longrightarrow> lb AND 0x70 = 0)"
  using assms
proof (induction n arbitrary: r bitpos k rule: wire_varint.induct)
  case (1 n)
  define d where "d = (if n < 128 then n else n mod 128)"
  define b :: u8 where "b = of_nat (if n < 128 then n else 128 + n mod 128)"
  have b: "unat (b AND 127) = d" "b AND 128 = 0 \<longleftrightarrow> n < 128"
    using varint_byte_last [of n] varint_byte_more [of n] by (auto simp: b_def d_def)
  have d: "d \<le> n" by (auto simp: d_def)
  have dk: "unat r + d * 2 ^ k < 2 ^ 32"
    using "1.prems"(4) d by (meson add_left_mono le_less_trans mult_le_mono1)
  define r' :: u32 where "r' = r OR push_bit k (ucast (b AND 127))"
  have r': "unat r' = unat r + d * 2 ^ k"
    unfolding r'_def using "1.prems"(3) dk b(1) by (subst unat_or_shifted) simp_all
  have lt: "\<not> bitpos \<ge> 32" using "1.prems"(1,2) by (simp add: word_le_nat_alt)
  have k28: "k \<le> 28" using "1.prems"(2,5) by presburger
  have bp: "unat (bitpos + 7) = k + 7"
    using "1.prems"(1) k28 by (simp add: unat_word_ariths)
  show ?case
  proof (cases "n < 128")
    case True
    have "delivers io pending (varint32_loop r bitpos) [b] (r', b, bitpos + 7)"
    proof (rule delivers_map [OF delivers_readbyte])
      fix st :: "'s pb_istream_t" and st'
      assume "pb_readbyte st = (Some b, st')"
      then show "varint32_loop r bitpos st = (Some (r', b, bitpos + 7), st')"
        using lt b True "1.prems"(1) by (simp add: varint32_loop.simps [of r bitpos st] r'_def Let_def)
    qed
    moreover have "r' = of_nat (unat r + n * 2 ^ k)"
      using r' True by (intro unat_imp_of_nat) (simp add: d_def)
    moreover have "b AND 0x70 = 0" if "bitpos + 7 = 35"
    proof -
      have "k + 7 = unat (35 :: u8)" unfolding bp [symmetric] that ..
      then have "k = 28" by simp
      then have "n < 16" using "1.prems"(4) by simp
      then show ?thesis using True by (simp add: b_def varint32_final)
    qed
    moreover have "wire_varint n = [b]" using True by (simp add: wire_varint_small b_def)
    ultimately have "delivers io pending (varint32_loop r bitpos) (wire_varint n)
        (of_nat (unat r + n * 2 ^ k), b, bitpos + 7) \<and> (bitpos + 7 = 35 \<longrightarrow> b AND 0x70 = 0)"
      by (auto simp only:)
    then show ?thesis by (intro exI)
  next
    case False
    have k32: "k + 7 < 32"
    proof (rule ccontr)
      assume "\<not> k + 7 < 32"
      then have "25 \<le> k" by simp
      then have "128 * 2 ^ 25 \<le> n * (2 :: nat) ^ k"
        using False by (intro mult_mono power_increasing) auto
      with "1.prems"(4) show False by simp
    qed
    have rk: "unat r' < 2 ^ (k + 7)"
    proof -
      have "d < 128" by (auto simp: d_def)
      then have "(d + 1) * 2 ^ k \<le> 128 * (2 :: nat) ^ k" by (intro mult_right_mono) auto
      then have "d * 2 ^ k + 2 ^ k \<le> 128 * (2 :: nat) ^ k" by (simp only: add_mult_distrib mult_1)
      moreover have "(2 :: nat) ^ (k + 7) = 128 * 2 ^ k" by (simp add: power_add)
      ultimately show ?thesis using "1.prems"(3) r' by linarith
    qed
    have split: "n * 2 ^ k = d * 2 ^ k + (n div 128) * 2 ^ (k + 7)"
    proof -
      have "n = d + (n div 128) * 128" using False by (simp add: d_def)
      then have "n * 2 ^ k = (d + (n div 128) * 128) * 2 ^ k" by (rule arg_cong)
      then show ?thesis by (simp add: power_add algebra_simps)
    qed
    obtain lb bp where IH: "delivers io pending (varint32_loop r' (bitpos + 7)) (wire_varint (n div 128))
        (of_nat (unat r' + (n div 128) * 2 ^ (k + 7)), lb, bp)" "bp = 35 \<longrightarrow> lb AND 0x70 = 0"
      using "1.IH" [OF False bp k32 rk] "1.prems"(4,5) r' split by auto
    have eq: "unat r' + (n div 128) * 2 ^ (k + 7) = unat r + n * 2 ^ k"
      using r' split by (simp only: add.assoc)
    have "delivers io pending (varint32_loop r bitpos) ([b] @ wire_varint (n div 128))
        (of_nat (unat r + n * 2 ^ k), lb, bp)"
    proof (rule delivers_bind [OF delivers_readbyte, where g = "\<lambda>_. varint32_loop r' (bitpos + 7)"])
      show "delivers io pending (varint32_loop r' (bitpos + 7)) (wire_varint (n div 128))
        (of_nat (unat r + n * 2 ^ k), lb, bp)"
        using IH(1) by (simp only: eq)
      fix st :: "'s pb_istream_t" and st'
      assume "pb_readbyte st = (Some b, st')"
      then show "varint32_loop r bitpos st = varint32_loop r' (bitpos + 7) st'"
        using lt b False "1.prems"(1) by (simp add: varint32_loop.simps [of r bitpos st] r'_def Let_def)
    qed
    then show ?thesis using False IH(2) by (auto simp: wire_varint_big b_def)
  qed
qed

text \<open>\<open>pb_decode_varint32_eof\<close> with its \<open>eof\<close> result.\<close>

lemma delivers_varint32_eof:
  assumes "n < 2 ^ 32"
  shows "delivers io pending (\<lambda>st. case pb_decode_varint32_eof st of (eof, r, st) \<Rightarrow>
      (case r of None \<Rightarrow> None | Some v \<Rightarrow> Some (eof, v), st)) (wire_varint n) (False, of_nat n)"
proof (cases "n < 128")
  case True
  have "delivers io pending (\<lambda>st. case pb_decode_varint32_eof st of (eof, r, st) \<Rightarrow>
      (case r of None \<Rightarrow> None | Some v \<Rightarrow> Some (eof, v), st)) [of_nat n] (False, of_nat n)"
  proof (rule delivers_map [OF delivers_readbyte])
    fix st :: "'s pb_istream_t" and st'
    assume "pb_readbyte st = (Some (of_nat n), st')"
    moreover have "(ucast (of_nat n :: u8) :: u32) = of_nat n"
      using True by (intro word_unat_eq_iff [THEN iffD2]) (simp add: unat_of_nat unat_of_nat_u8)
    ultimately show "(case pb_decode_varint32_eof st of (eof, r, st) \<Rightarrow>
      (case r of None \<Rightarrow> None | Some v \<Rightarrow> Some (eof, v), st)) = (Some (False, of_nat n), st')"
      using varint_byte_last [OF True] by (simp add: pb_decode_varint32_eof_def)
  qed
  then show ?thesis using True by (simp add: wire_varint_small)
next
  case False
  define b :: u8 where "b = of_nat (128 + n mod 128)"
  have b: "b AND 128 \<noteq> 0" "unat (b AND 127) = n mod 128"
    using varint_byte_more [of n] by (simp_all add: b_def)
  define r :: u32 where "r = ucast (b AND 127)"
  have r: "unat r = n mod 128" using b(2) by (simp add: r_def)
  have eq: "unat r + (n div 128) * 2 ^ 7 = n" using r by simp
  obtain lb bp where l: "delivers io pending (varint32_loop r 7) (wire_varint (n div 128)) (of_nat n, lb, bp)"
    "bp = 35 \<longrightarrow> lb AND 0x70 = 0"
    using delivers_varint32_loop [of 7 7 r "n div 128"] assms r eq by auto
  have "delivers io pending (\<lambda>st. case pb_decode_varint32_eof st of (eof, r, st) \<Rightarrow>
      (case r of None \<Rightarrow> None | Some v \<Rightarrow> Some (eof, v), st)) ([b] @ wire_varint (n div 128)) (False, of_nat n)"
  proof (rule delivers_bind [OF delivers_readbyte, where g = "\<lambda>_ st. case varint32_loop r 7 st of
      (x, st) \<Rightarrow> (case x of None \<Rightarrow> None | Some (v, lb, bp) \<Rightarrow>
        if bp = 35 \<and> lb AND 0x70 \<noteq> 0 then None else Some (False, v), if \<exists>v lb. x = Some (v, lb, 35) \<and> lb AND 0x70 \<noteq> 0
          then snd (pb_return_error ''varint overflow'' st :: unit option \<times> _) else st)"])
    show "delivers io pending (\<lambda>st. case varint32_loop r 7 st of
      (x, st) \<Rightarrow> (case x of None \<Rightarrow> None | Some (v, lb, bp) \<Rightarrow>
        if bp = 35 \<and> lb AND 0x70 \<noteq> 0 then None else Some (False, v), if \<exists>v lb. x = Some (v, lb, 35) \<and> lb AND 0x70 \<noteq> 0
          then snd (pb_return_error ''varint overflow'' st :: unit option \<times> _) else st))
      (wire_varint (n div 128)) (False, of_nat n)"
      by (rule delivers_map [OF l(1)]) (use l(2) in auto)
    fix st :: "'s pb_istream_t" and st'
    assume "pb_readbyte st = (Some b, st')"
    then show "(case pb_decode_varint32_eof st of (eof, r, st) \<Rightarrow>
      (case r of None \<Rightarrow> None | Some v \<Rightarrow> Some (eof, v), st)) = (case varint32_loop r 7 st' of
      (x, st) \<Rightarrow> (case x of None \<Rightarrow> None | Some (v, lb, bp) \<Rightarrow>
        if bp = 35 \<and> lb AND 0x70 \<noteq> 0 then None else Some (False, v), if \<exists>v lb. x = Some (v, lb, 35) \<and> lb AND 0x70 \<noteq> 0
          then snd (pb_return_error ''varint overflow'' st :: unit option \<times> _) else st))"
      using b(1) by (auto simp: pb_decode_varint32_eof_def r_def pb_return_error_def split: prod.splits option.splits)
  qed
  then show ?thesis using False by (simp add: wire_varint_big b_def)
qed

lemma delivers_varint32: "n < 2 ^ 32 \<Longrightarrow> delivers io pending pb_decode_varint32 (wire_varint n) (of_nat n)"
  by (rule delivers_map [OF delivers_varint32_eof])
    (auto simp: pb_decode_varint32_def split: prod.splits option.splits)

lemma delivers_tag:
  assumes "fn < 2 ^ 29" and "wt < 8" and "0 < fn * 8 + wt"
  shows "delivers io pending (\<lambda>st. case pb_decode_tag st of (eof, r, st) \<Rightarrow>
      (case r of None \<Rightarrow> None | Some v \<Rightarrow> Some (eof, v), st)) (wire_tag fn wt) (False, of_nat fn, of_nat wt)"
proof -
  define n where "n = fn * 8 + wt"
  have n: "n < 2 ^ 32" "n div 8 = fn" "n mod 8 = wt" "0 < n"
    using assms by (simp_all add: n_def)
  have un: "unat (of_nat n :: u32) = n" using n(1) by (simp add: unat_of_nat)
  have t1: "drop_bit 3 (of_nat n :: u32) = of_nat fn"
    using n un assms(1) by (intro word_unat_eq_iff [THEN iffD2]) (simp add: unat_drop_bit_div unat_of_nat del: drop_bit_eq_div)
  have "(of_nat n :: u32) AND 7 = take_bit 3 (of_nat n)"
    by (simp add: take_bit_eq_mask mask_eq_exp_minus_1)
  then have t2: "(of_nat n :: u32) AND 7 = of_nat wt"
    using un n(3) assms(2) by (intro word_unat_eq_iff [THEN iffD2])
      (simp add: unsigned_take_bit_eq take_bit_eq_mod unat_of_nat unat_mod)
  have t3: "(of_nat n :: u32) \<noteq> 0" using un n(4) by (metis neq0_conv unat_0)
  show ?thesis unfolding wire_tag_def n_def [symmetric]
    by (rule delivers_map [OF delivers_varint32_eof [OF n(1)]])
      (auto simp: pb_decode_tag_def t1 t2 t3 split: prod.splits option.splits)
qed

end

section \<open>Skipping and substreams\<close>

context pb_source
begin

lemma delivers_skip_chunks: "delivers io pending (pb_skip_chunks (length xs)) xs ()"
proof (induction xs rule: length_induct)
  case (1 xs)
  show ?case
  proof (cases "16 < length xs")
    case True
    have "delivers io pending (pb_skip_chunks (length xs)) (take 16 xs @ drop 16 xs) ()"
    proof (rule delivers_bind [where f = "pb_read (length (take 16 xs))" and g = "\<lambda>_. pb_skip_chunks (length (drop 16 xs))"])
      show "delivers io pending (pb_read (length (take 16 xs))) (take 16 xs) (take 16 xs)"
        by (rule delivers_read)
      show "delivers io pending (pb_skip_chunks (length (drop 16 xs))) (drop 16 xs) ()"
        by (rule 1 [rule_format]) (use True in simp)
      fix st :: "'s pb_istream_t" and st'
      assume "pb_read (length (take 16 xs)) st = (Some (take 16 xs), st')"
      then show "pb_skip_chunks (length xs) st = pb_skip_chunks (length (drop 16 xs)) st'"
        using True by (simp add: pb_skip_chunks.simps [of "length xs" st] min_def)
    qed
    then show ?thesis by simp
  next
    case False
    show ?thesis
      by (rule delivers_map [OF delivers_read]) (use False in \<open>simp add: pb_skip_chunks.simps [of "length xs"]\<close>)
  qed
qed

lemma delivers_read_null: "delivers io pending (pb_read_null (length xs)) xs ()"
  unfolding delivers_def
proof (intro allI impI)
  fix st :: "'s pb_istream_t" and rest
  assume "istream_ok io pending st" "contents pending st = xs @ rest"
  moreover have "delivers io pending (\<lambda>st. case pb_read (length xs) st of
      (None, st) \<Rightarrow> (None, st) | (Some _, st) \<Rightarrow> (Some (), st)) xs ()"
    by (rule delivers_map [OF delivers_read]) simp
  ultimately show "\<exists>s'. pb_read_null (length xs) st =
      (Some (), st\<lparr>state := s', bytes_left := bytes_left st - length xs\<rparr>) \<and>
      pending s' = drop (length xs) (pending (state st))"
    using delivers_skip_chunks [of xs] by (simp add: delivers_def pb_read_null_def)
qed

lemma delivers_skip_varint: "delivers io pending pb_skip_varint (wire_varint n) ()"
proof (induction n rule: wire_varint.induct)
  case (1 n)
  have read: "delivers io pending (pb_read 1) [b] [b]" for b
    using delivers_read [of "[b]"] by simp
  show ?case
  proof (cases "n < 128")
    case True
    have "delivers io pending pb_skip_varint [of_nat n] ()"
      by (rule delivers_map [OF read]) (use varint_byte_last [OF True] in \<open>simp add: pb_skip_varint.simps\<close>)
    with True show ?thesis by (simp add: wire_varint_small)
  next
    case False
    have "delivers io pending pb_skip_varint ([of_nat (128 + n mod 128)] @ wire_varint (n div 128)) ()"
    proof (rule delivers_bind [OF read, where g = "\<lambda>_. pb_skip_varint"])
      show "delivers io pending pb_skip_varint (wire_varint (n div 128)) ()" by (rule 1 [OF False])
      fix st :: "'s pb_istream_t" and st'
      assume "pb_read 1 st = (Some [of_nat (128 + n mod 128)], st')"
      then show "pb_skip_varint st = pb_skip_varint st'"
        using varint_byte_more [of n] by (subst pb_skip_varint.simps) simp
    qed
    with False show ?thesis by (simp add: wire_varint_big)
  qed
qed

lemma delivers_skip_string:
  assumes "length d < 2 ^ 32"
  shows "delivers io pending pb_skip_string (wire_string d) ()"
  unfolding wire_string_def
proof (rule delivers_bind [OF delivers_varint32 [OF assms], where g = "\<lambda>w. pb_read_null (unat w)"])
  have "unat (of_nat (length d) :: u32) = length d" using assms by (simp add: unat_of_nat)
  then show "delivers io pending (pb_read_null (unat (of_nat (length d) :: u32))) d ()"
    using delivers_read_null [of d] by simp
qed (simp add: pb_skip_string_def)

end

text \<open>The payload of a field of each wire type.\<close>

definition wire_payload :: "pb_wire_type_t \<Rightarrow> bytes \<Rightarrow> bool" where
  "wire_payload wt x \<longleftrightarrow>
     (wt = 0 \<and> (\<exists>n. x = wire_varint n)) \<or> (wt = 1 \<and> length x = 8)
     \<or> (wt = 2 \<and> (\<exists>d. length d < 2 ^ 32 \<and> x = wire_string d)) \<or> (wt = 5 \<and> length x = 4)"

context pb_source
begin

lemma delivers_skip_field:
  assumes "wire_payload wt x"
  shows "delivers io pending (pb_skip_field wt) x ()"
proof -
  from assms consider n where "wt = 0" "x = wire_varint n" | "wt = 1" "length x = 8"
    | d where "wt = 2" "length d < 2 ^ 32" "x = wire_string d" | "wt = 5" "length x = 4"
    by (auto simp: wire_payload_def)
  then show ?thesis
  proof cases
    case 1
    show ?thesis
      by (rule delivers_cong [where f = pb_skip_varint])
        (simp_all add: 1 delivers_skip_varint pb_skip_field_def)
  next
    case 2
    show ?thesis
      by (rule delivers_cong [OF delivers_read_null]) (simp add: 2 pb_skip_field_def)
  next
    case 3
    show ?thesis unfolding 3(3)
      by (rule delivers_cong [OF delivers_skip_string [OF 3(2)]]) (simp add: 3(1) pb_skip_field_def)
  next
    case 4
    show ?thesis
      by (rule delivers_cong [OF delivers_read_null]) (simp add: 4 pb_skip_field_def)
  qed
qed

text \<open>A substream holds exactly the contents of the string; closing it, however much of it has been
  read, leaves the parent behind the string.\<close>

lemma make_substream:
  assumes ok: "istream_ok io pending st" and c: "contents pending st = wire_string d @ rest"
    and "length d < 2 ^ 32"
  shows "\<exists>sub st'. pb_make_string_substream st = (Some sub, st')
    \<and> istream_ok io pending sub \<and> contents pending sub = d \<and> callback st' = io
    \<and> bytes_left st' = length rest
    \<and> take (length d + length rest) (pending (state sub)) = d @ rest
    \<and> length d + length rest \<le> length (pending (state sub))"
proof -
  define w where "w = wire_varint (length d)"
  have c': "contents pending st = w @ d @ rest" using c by (simp add: wire_string_def w_def)
  obtain s' where s': "pb_decode_varint32 st =
      (Some (of_nat (length d)), st\<lparr>state := s', bytes_left := bytes_left st - length w\<rparr>)"
    "pending s' = drop (length w) (pending (state st))"
    using delivers_varint32 [OF assms(3)] ok c' unfolding delivers_def w_def by blast
  have un: "unat (of_nat (length d) :: u32) = length d" using assms(3) by (simp add: unat_of_nat)
  note st1 = delivers_step [OF ok c' s'(2)]
  have bl: "bytes_left st - length w = length d + length rest"
    using contents_length [OF ok] by (simp add: c')
  have p: "take (length d + length rest) (pending s') = d @ rest"
    "length d + length rest \<le> length (pending s')"
    using st1 by (simp_all add: contents_def istream_ok_def bl)
  then have d: "take (length d) (pending s') = d"
    by (metis append_eq_conv_conj min.absorb1 le_add1 take_take)
  show ?thesis
    using s' un bl p d ok
    by (simp add: pb_make_string_substream_def istream_ok_def contents_def)
qed

lemma close_substream:
  assumes "istream_ok io pending sub" and "callback st = io"
    and "take (bytes_left sub + bytes_left st) (pending (state sub)) = contents pending sub @ rest"
    and "bytes_left sub + bytes_left st \<le> length (pending (state sub))"
  shows "\<exists>st'. pb_close_string_substream sub st = (Some (), st') \<and> istream_ok io pending st'
    \<and> contents pending st' = rest"
proof -
  obtain s' where s': "(if bytes_left sub \<noteq> 0 then pb_read_null (bytes_left sub) sub else (Some (), sub)) =
      (Some (), sub\<lparr>state := s', bytes_left := 0\<rparr>)" "pending s' = drop (bytes_left sub) (pending (state sub))"
  proof (cases "bytes_left sub = 0")
    case True
    then show ?thesis by (intro that [of "state sub"]) simp_all
  next
    case False
    have "contents pending sub = contents pending sub @ []" by simp
    with delivers_read_null [of "contents pending sub"] assms(1) contents_length [OF assms(1)] False that
    show ?thesis unfolding delivers_def by fastforce
  qed
  have rest: "take (bytes_left st) (drop (bytes_left sub) (pending (state sub))) = rest"
  proof -
    have "drop (bytes_left sub) (take (bytes_left sub + bytes_left st) (pending (state sub))) = rest"
      using assms(3) contents_length [OF assms(1)] by simp
    then show ?thesis by (simp add: drop_take)
  qed
  show ?thesis
    using s' assms(2,4) rest
    by (simp add: pb_close_string_substream_def istream_ok_def contents_def)
qed

end

text \<open>The input streams over a buffer are lawful.\<close>

abbreviation buf_icallback :: "bytes pb_icallback" where
  "buf_icallback \<equiv> \<lparr>is_buf_read = True, read_fn = buf_read\<rparr>"

interpretation buf_source: pb_source buf_icallback id
  by unfold_locales (simp add: buf_read_def)

lemma pb_istream_from_buffer_ok:
  "n \<le> length d \<Longrightarrow> istream_ok buf_icallback id (pb_istream_from_buffer d n)
    \<and> contents id (pb_istream_from_buffer d n) = take n d"
  by (simp add: istream_ok_def contents_def pb_istream_from_buffer_def)

section \<open>Lawful output streams\<close>

text \<open>\<open>written\<close>: the bytes an output state has taken; \<open>room\<close>: how many it can still take.\<close>

locale pb_sink =
  fixes wr :: "'s \<Rightarrow> bytes \<Rightarrow> bool \<times> 's" and written :: "'s \<Rightarrow> bytes" and room :: "'s \<Rightarrow> nat"
  assumes write_written: "length d \<le> room s \<Longrightarrow>
    \<exists>s'. wr s d = (True, s') \<and> written s' = written s @ d \<and> room s' = room s - length d"

definition ostream_ok :: "('s \<Rightarrow> bytes \<Rightarrow> bool \<times> 's) \<Rightarrow> ('s \<Rightarrow> nat) \<Rightarrow> 's pb_ostream_t \<Rightarrow> bool" where
  "ostream_ok wr room st \<longleftrightarrow> write_fn st = Some wr \<and> bytes_written st \<le> max_size st
     \<and> max_size st \<le> bytes_written st + room (ostate st) \<and> max_size st \<le> size_max"

text \<open>\<open>emits f x\<close> (where the count of bytes does not overflow): on a sizing stream \<open>f\<close> counts the bytes \<open>x\<close>; on a lawful stream it appends them
  if they fit, and fails if they do not.\<close>

definition emits ::
    "('s \<Rightarrow> bytes \<Rightarrow> bool \<times> 's) \<Rightarrow> ('s \<Rightarrow> bytes) \<Rightarrow> ('s \<Rightarrow> nat) \<Rightarrow> 's pb_writer \<Rightarrow> bytes \<Rightarrow> bool" where
  "emits wr written room f x \<longleftrightarrow>
     (\<forall>st. write_fn st = None \<longrightarrow> f st = (True, st\<lparr>bytes_written := size_add (bytes_written st) (length x)\<rparr>))
     \<and> (\<forall>st. ostream_ok wr room st \<longrightarrow> bytes_written st + length x \<le> max_size st \<longrightarrow>
          (\<exists>s'. f st = (True, st\<lparr>ostate := s', bytes_written := bytes_written st + length x\<rparr>)
            \<and> written s' = written (ostate st) @ x \<and> room s' = room (ostate st) - length x))
     \<and> (\<forall>st. ostream_ok wr room st \<longrightarrow> max_size st < bytes_written st + length x \<longrightarrow>
          bytes_written st + length x \<le> size_max \<longrightarrow> \<not> fst (f st))"

lemma ostream_ok_step:
  assumes "ostream_ok wr room st" and "bytes_written st + n \<le> max_size st" and "room s' = room (ostate st) - n"
  shows "ostream_ok wr room (st\<lparr>ostate := s', bytes_written := bytes_written st + n\<rparr>)"
  using assms by (auto simp: ostream_ok_def)

lemma emits_fits:
  "emits wr written room f x \<Longrightarrow> ostream_ok wr room st \<Longrightarrow> bytes_written st + length x \<le> max_size st \<Longrightarrow>
    \<exists>s'. f st = (True, st\<lparr>ostate := s', bytes_written := bytes_written st + length x\<rparr>)
      \<and> written s' = written (ostate st) @ x \<and> room s' = room (ostate st) - length x"
  by (simp add: emits_def)

lemma emits_bind:
  fixes f g :: "'s pb_writer"
  assumes f: "emits wr written room f x" and g: "emits wr written room g y"
  shows "emits wr written room (\<lambda>st. case f st of (False, st) \<Rightarrow> (False, st) | (True, st) \<Rightarrow> g st) (x @ y)"
  unfolding emits_def
proof (intro conjI allI impI)
  fix st :: "'s pb_ostream_t"
  assume "write_fn st = None"
  then show "(case f st of (False, st) \<Rightarrow> (False, st) | (True, st) \<Rightarrow> g st) =
      (True, st\<lparr>bytes_written := size_add (bytes_written st) (length (x @ y))\<rparr>)"
    using f g by (simp add: emits_def size_add_def mod_add_left_eq add.assoc)
next
  fix st :: "'s pb_ostream_t"
  assume ok: "ostream_ok wr room st" and fits: "bytes_written st + length (x @ y) \<le> max_size st"
  then obtain s' where s': "f st = (True, st\<lparr>ostate := s', bytes_written := bytes_written st + length x\<rparr>)"
    "written s' = written (ostate st) @ x" "room s' = room (ostate st) - length x"
    using f by (auto simp: emits_def)
  have ok': "ostream_ok wr room (st\<lparr>ostate := s', bytes_written := bytes_written st + length x\<rparr>)"
    using ostream_ok_step [OF ok _ s'(3)] fits by simp
  obtain s'' where "g (st\<lparr>ostate := s', bytes_written := bytes_written st + length x\<rparr>) =
      (True, st\<lparr>ostate := s'', bytes_written := bytes_written st + length x + length y\<rparr>)"
    "written s'' = written s' @ y" "room s'' = room s' - length y"
    using emits_fits [OF g ok'] fits by auto
  then show "\<exists>s'. (case f st of (False, st) \<Rightarrow> (False, st) | (True, st) \<Rightarrow> g st) =
      (True, st\<lparr>ostate := s', bytes_written := bytes_written st + length (x @ y)\<rparr>) \<and>
      written s' = written (ostate st) @ x @ y \<and> room s' = room (ostate st) - length (x @ y)"
    using s' by (intro exI [of _ s'']) (simp add: add.assoc)
next
  fix st :: "'s pb_ostream_t"
  assume ok: "ostream_ok wr room st" and full: "max_size st < bytes_written st + length (x @ y)"
    and max: "bytes_written st + length (x @ y) \<le> size_max"
  show "\<not> fst (case f st of (False, st) \<Rightarrow> (False, st) | (True, st) \<Rightarrow> g st)"
  proof (cases "bytes_written st + length x \<le> max_size st")
    case False
    then have "\<not> fst (f st)" using f ok max by (simp add: emits_def)
    then show ?thesis by (cases "f st") auto
  next
    case True
    then obtain s' where s': "f st = (True, st\<lparr>ostate := s', bytes_written := bytes_written st + length x\<rparr>)"
      "room s' = room (ostate st) - length x"
      using f ok by (auto simp: emits_def)
    have "ostream_ok wr room (st\<lparr>ostate := s', bytes_written := bytes_written st + length x\<rparr>)"
      using ostream_ok_step [OF ok True s'(2)] .
    then show ?thesis using g full max s'(1) by (simp add: emits_def)
  qed
qed

lemma emits_cong: "emits wr written room f x \<Longrightarrow> (\<And>st. g st = f st) \<Longrightarrow> emits wr written room g x"
  by (simp add: emits_def)

context pb_sink
begin

lemma emits_write:
  assumes "length d = n" and "n \<le> size_max"
  shows "emits wr written room (pb_write d n) d"
  unfolding emits_def
proof (intro conjI allI impI)
  fix st :: "'s pb_ostream_t"
  assume ok: "ostream_ok wr room st" and fits: "bytes_written st + length d \<le> max_size st"
  then have "length d \<le> room (ostate st)" by (auto simp: ostream_ok_def)
  then obtain s' where "wr (ostate st) d = (True, s')" "written s' = written (ostate st) @ d"
    "room s' = room (ostate st) - length d"
    using write_written by blast
  then show "\<exists>s'. pb_write d n st = (True, st\<lparr>ostate := s', bytes_written := bytes_written st + length d\<rparr>)
      \<and> written s' = written (ostate st) @ d \<and> room s' = room (ostate st) - length d"
    using ok fits assms by (intro exI [of _ s']) (simp add: pb_write_def ostream_ok_def)
qed (use assms in \<open>auto simp: pb_write_def ostream_ok_def pb_oerror_def\<close>)

end

section \<open>Writing integers\<close>

lemma and_7f_u64: "(v :: u64) AND 0x7F = take_bit 7 v"
  by (simp add: take_bit_eq_mask mask_eq_exp_minus_1)

lemma varint_byte_enc: "ucast (((v :: u64) AND 0x7F) OR 0x80) = (of_nat (128 + unat v mod 128) :: u8)"
proof -
  have t: "unat (take_bit 7 v) = unat v mod 128"
    by (simp only: unsigned_take_bit_eq) (simp add: take_bit_eq_mod)
  have "unat (take_bit 7 v OR push_bit 7 1) = unat v mod 128 + 128"
    by (subst unat_or_shifted) (simp_all add: t)
  moreover have "(0x80 :: u64) = push_bit 7 1" by simp
  ultimately have "unat ((v AND 0x7F) OR 0x80) = 128 + unat v mod 128"
    unfolding and_7f_u64 by (simp only:)
  moreover have "ucast ((v AND 0x7F) OR 0x80) = (of_nat (unat ((v AND 0x7F) OR 0x80)) :: u8)"
    by simp
  ultimately show ?thesis by (simp only:)
qed

lemma list_update_last_eq: "xs \<noteq> [] \<Longrightarrow> xs[length xs - 1 := y] = butlast xs @ [y]"
  by (induction xs rule: rev_induct) auto

lemma varint_bytes_loop_eq:
  assumes "v \<noteq> 0"
  shows "varint_bytes_loop v \<noteq> []
    \<and> butlast (varint_bytes_loop v) @ [last (varint_bytes_loop v) AND 0x7F] = wire_varint (unat v)"
  using assms
proof (induction v rule: varint_bytes_loop.induct)
  case (1 v)
  have loop: "varint_bytes_loop v = of_nat (128 + unat v mod 128) # varint_bytes_loop (drop_bit 7 v)"
    using "1.prems" varint_byte_enc [of v] by (simp add: varint_bytes_loop.simps [of v] del: of_nat_add)
  have d: "unat (drop_bit 7 v) = unat v div 128" by (simp only: unat_drop_bit_div) simp
  show ?case
  proof (cases "drop_bit 7 v = 0")
    case True
    then have small: "unat v < 128" using d by (metis div_eq_0_iff unat_0 zero_neq_numeral)
    have "(of_nat (128 + unat v mod 128) :: u8) AND 0x7F = of_nat (unat v)"
    proof (rule u8_eqI)
      have "unat (of_nat (unat v) :: u8) = unat v" unfolding unat_of_nat_u8 using small by simp
      then show "unat ((of_nat (128 + unat v mod 128) :: u8) AND 0x7F) = unat (of_nat (unat v) :: u8)"
        using varint_byte_more [of "unat v"] small by (simp only: mod_less)
    qed
    then show ?thesis
      using True small by (simp add: loop varint_bytes_loop.simps [of 0] wire_varint_small del: of_nat_add)
  next
    case False
    then have "128 \<le> unat v" using d by (metis div_less not_less unat_eq_0)
    with "1.IH" [OF "1.prems" False] show ?thesis
      by (simp add: loop d wire_varint_big del: of_nat_add)
  qed
qed

context pb_sink
begin

lemma length_wire_varint_u64: "length (wire_varint (unat (v :: u64))) \<le> size_max"
proof -
  have "unat v < 128 ^ 10" using unsigned_less [of v, where ?'a = nat] by simp
  from length_wire_varint [OF this] show ?thesis by simp
qed

lemma emits_varint: "emits wr written room (pb_encode_varint v) (wire_varint (unat v))"
proof (cases "v \<le> 0x7F")
  case True
  then have "unat v < 128" by (simp add: word_le_nat_alt)
  then have "wire_varint (unat v) = [ucast v]"
    by (simp add: wire_varint_small)
  then have w: "emits wr written room (pb_write [ucast v] 1) (wire_varint (unat v))"
    using emits_write [of "[ucast v]" 1] by simp
  show ?thesis by (rule emits_cong [OF w]) (simp add: pb_encode_varint_def True)
next
  case False
  define b where "b = varint_bytes_loop v"
  have "v \<noteq> 0" using False by auto
  then have b: "b \<noteq> []" "butlast b @ [last b AND 0x7F] = wire_varint (unat v)"
    using varint_bytes_loop_eq [of v] by (simp_all add: b_def)
  then have upd: "b[length b - 1 := b ! (length b - 1) AND 0x7F] = wire_varint (unat v)"
    unfolding list_update_last_eq [OF b(1)] last_conv_nth [OF b(1), symmetric] by simp
  then have "length (wire_varint (unat v)) = length b" by (metis length_list_update)
  then have w: "emits wr written room (pb_write (wire_varint (unat v)) (length b)) (wire_varint (unat v))"
    using emits_write [of "wire_varint (unat v)"] length_wire_varint_u64 [of v] by simp
  show ?thesis by (rule emits_cong [OF w]) (simp only: pb_encode_varint_def False Let_def b_def [symmetric] upd if_False)
qed

lemma emits_svarint: "emits wr written room (pb_encode_svarint v) (wire_varint (zigzag (sint v)))"
proof -
  define z where "z = (if sint v < 0 then NOT (push_bit 1 v) else push_bit 1 v)"
  have "unat z = zigzag (sint v)"
  proof -
    have r: "- (2 ^ 63) \<le> sint v" "sint v < 2 ^ 63"
      using sint_range_size [of v] by (simp_all add: word_size)
    have "z = of_nat (zigzag (sint v))"
    proof (cases "sint v < 0")
      case True
      have "of_nat (zigzag (sint v)) = (of_int (- 2 * sint v - 1) :: u64)"
        using True by (simp add: zigzag_def)
      also have "\<dots> = NOT (push_bit 1 v)"
        by (simp add: not_eq_complement push_bit_eq_mult)
      finally show ?thesis using True by (simp add: z_def)
    next
      case False
      then have "of_nat (zigzag (sint v)) = (of_int (2 * sint v) :: u64)"
        by (simp add: zigzag_def)
      with False show ?thesis by (simp add: z_def push_bit_eq_mult)
    qed
    then show ?thesis using zigzag_less [OF r] by (simp add: unat_of_nat)
  qed
  with emits_varint [of z] have w: "emits wr written room (pb_encode_varint z) (wire_varint (zigzag (sint v)))"
    by simp
  show ?thesis by (rule emits_cong [OF w]) (simp add: pb_encode_svarint_def z_def Let_def)
qed

end

lemma fixed_byte: "ucast (drop_bit k v AND 0xFF) = (of_nat (unat v div 2 ^ k) :: u8)" for v :: "'a::len word"
proof -
  have ff: "(0xFF :: 'a word) = mask 8" by (simp add: mask_eq_exp_minus_1)
  have "(ucast (drop_bit k v AND 0xFF) :: u8) = ucast (drop_bit k v)"
    unfolding ff by (rule bit_word_eqI) (auto simp: bit_simps, auto dest: bit_imp_le_length)
  also have "\<dots> = of_nat (unat (drop_bit k v))" by simp
  finally show ?thesis by (simp only: unat_drop_bit_div)
qed

lemma fixed_byte_0: "ucast (v AND 0xFF) = (of_nat (unat v) :: u8)" for v :: "'a::len word"
  using fixed_byte [of 0 v] by simp

lemma le_bytes_4: "le_bytes 4 n = [of_nat n, of_nat (n div 2 ^ 8), of_nat (n div 2 ^ 16), of_nat (n div 2 ^ 24)]"
proof -
  have "(4 :: nat) = Suc (Suc (Suc (Suc 0)))" by simp
  then show ?thesis by (simp only: le_bytes.simps div_mult2_eq [symmetric]) simp
qed

lemma le_bytes_8: "le_bytes 8 n =
    [of_nat n, of_nat (n div 2 ^ 8), of_nat (n div 2 ^ 16), of_nat (n div 2 ^ 24),
     of_nat (n div 2 ^ 32), of_nat (n div 2 ^ 40), of_nat (n div 2 ^ 48), of_nat (n div 2 ^ 56)]"
proof -
  have "(8 :: nat) = Suc (Suc (Suc (Suc (Suc (Suc (Suc (Suc 0)))))))" by simp
  then show ?thesis by (simp only: le_bytes.simps div_mult2_eq [symmetric]) simp
qed

lemma fixed32_bytes:
  "[ucast (v AND 0xFF), ucast (drop_bit 8 v AND 0xFF), ucast (drop_bit 16 v AND 0xFF),
    ucast (drop_bit 24 v AND 0xFF)] = le_bytes 4 (unat v)" for v :: u32
  unfolding fixed_byte fixed_byte_0 le_bytes_4 unat_drop_bit_div ..

lemma fixed64_bytes:
  "[ucast (v AND 0xFF), ucast (drop_bit 8 v AND 0xFF), ucast (drop_bit 16 v AND 0xFF),
    ucast (drop_bit 24 v AND 0xFF), ucast (drop_bit 32 v AND 0xFF), ucast (drop_bit 40 v AND 0xFF),
    ucast (drop_bit 48 v AND 0xFF), ucast (drop_bit 56 v AND 0xFF)] = le_bytes 8 (unat v)" for v :: u64
  unfolding fixed_byte fixed_byte_0 le_bytes_8 unat_drop_bit_div ..

context pb_sink
begin

lemma emits_fixed32: "emits wr written room (pb_encode_fixed32 v) (le_bytes 4 (unat v))"
proof -
  have "emits wr written room (pb_write (le_bytes 4 (unat v)) 4) (le_bytes 4 (unat v))"
    by (rule emits_write) simp_all
  then show ?thesis by (rule emits_cong) (simp only: pb_encode_fixed32_def fixed32_bytes)
qed

lemma emits_fixed64: "emits wr written room (pb_encode_fixed64 v) (le_bytes 8 (unat v))"
proof -
  have "emits wr written room (pb_write (le_bytes 8 (unat v)) 8) (le_bytes 8 (unat v))"
    by (rule emits_write) simp_all
  then show ?thesis by (rule emits_cong) (simp only: pb_encode_fixed64_def fixed64_bytes)
qed

lemma emits_tag:
  assumes "unat wt < 8"
  shows "emits wr written room (pb_encode_tag wt fn) (wire_tag (unat fn) (unat wt))"
proof -
  define t :: u64 where "t = push_bit 3 (ucast fn) OR ucast wt"
  have "unat (ucast wt OR push_bit 3 (ucast fn) :: u64) = unat (ucast wt :: u64) + unat (ucast fn :: u64) * 2 ^ 3"
    using assms unsigned_less [of fn, where ?'a = nat] by (intro unat_or_shifted) simp_all
  then have "unat t = unat fn * 8 + unat wt" by (simp add: t_def or.commute)
  with emits_varint [of t] have w: "emits wr written room (pb_encode_varint t) (wire_tag (unat fn) (unat wt))"
    by (simp add: wire_tag_def)
  show ?thesis by (rule emits_cong [OF w]) (simp add: pb_encode_tag_def t_def Let_def)
qed

lemma emits_string:
  assumes "length d \<le> size_max"
  shows "emits wr written room (pb_encode_string d (length d)) (wire_string d)"
proof -
  have "unat (of_nat (length d) :: u64) = length d" using assms by (simp add: unat_of_nat)
  then have "emits wr written room (pb_encode_varint (of_nat (length d))) (wire_varint (length d))"
    using emits_varint [of "of_nat (length d)"] by simp
  from emits_bind [OF this emits_write [OF refl assms]] show ?thesis
    unfolding wire_string_def by (rule emits_cong) (simp add: pb_encode_string_def)
qed

end

text \<open>The output streams over a buffer are lawful.\<close>

interpretation buf_sink: pb_sink buf_write "\<lambda>st. take (snd st) (fst st)" "\<lambda>st. length (fst st) - snd st"
proof unfold_locales
  fix d :: bytes and s :: "bytes \<times> nat"
  assume "length d \<le> length (fst s) - snd s"
  then show "\<exists>s'. buf_write s d = (True, s') \<and> take (snd s') (fst s') = take (snd s) (fst s) @ d
      \<and> length (fst s') - snd s' = length (fst s) - snd s - length d"
    by (cases "d = []") (auto simp: buf_write_def split_def min_def)
qed

abbreviation buf_written :: "bytes \<times> nat \<Rightarrow> bytes" where
  "buf_written \<equiv> \<lambda>st. take (snd st) (fst st)"

abbreviation buf_room :: "bytes \<times> nat \<Rightarrow> nat" where
  "buf_room \<equiv> \<lambda>st. length (fst st) - snd st"

lemma pb_ostream_from_buffer_ok:
  "n \<le> length b \<Longrightarrow> n \<le> size_max \<Longrightarrow> ostream_ok buf_write buf_room (pb_ostream_from_buffer b n)
    \<and> buf_written (ostate (pb_ostream_from_buffer b n)) = [] \<and> bytes_written (pb_ostream_from_buffer b n) = 0
    \<and> max_size (pb_ostream_from_buffer b n) = n"
  by (simp add: ostream_ok_def pb_ostream_from_buffer_def)

end
