(* ===== verification/Pb_Props.thy ===== *)
theory Pb_Props
  imports Pb_Wire "HOL-Library.Code_Target_Nat"
begin

text \<open>
  Properties of the nanopb wire layer on buffers: what the encoders write, the decoders read back;
  unknown fields are skipped exactly; sizing streams count what is written; and what the decoder of
  32-bit varints makes of overlong input.
\<close>

section \<open>Encoders and decoders on buffers\<close>

lemma emits_buffer:
  assumes "emits buf_write buf_written buf_room f x" and "n \<le> length b" and "n \<le> size_max"
    and "length x \<le> size_max" and "f (pb_ostream_from_buffer b n) = (True, os)"
  shows "length x \<le> n \<and> take (bytes_written os) (fst (ostate os)) = x \<and> bytes_written os = length x"
proof -
  define st where "st = pb_ostream_from_buffer b n"
  have ok: "ostream_ok buf_write buf_room st" "buf_written (ostate st) = []" "bytes_written st = 0" "max_size st = n"
    using pb_ostream_from_buffer_ok [OF assms(2,3)] by (simp_all add: st_def)
  have fits: "length x \<le> n"
  proof (rule ccontr)
    assume "\<not> length x \<le> n"
    with assms(1,4) ok have "\<not> fst (f st)" by (simp add: emits_def)
    with assms(5) show False by (simp add: st_def)
  qed
  then obtain s' where "f st = (True, st\<lparr>ostate := s', bytes_written := length x\<rparr>)" "buf_written s' = x"
    "buf_room s' = buf_room (ostate st) - length x"
    using emits_fits [OF assms(1) ok(1)] ok by auto
  moreover have "snd s' = length x" if "buf_written s' = x" "length x \<le> n" "length (fst s') - snd s' = length b - length x"
    "snd s' \<le> length (fst s')" for s' :: "bytes \<times> nat"
    using that by auto
  ultimately show ?thesis using fits assms(5) by (auto simp: st_def min_def split: if_splits)
qed

lemma delivers_buffer:
  assumes "delivers buf_icallback id f x r"
  shows "\<exists>st. f (pb_istream_from_buffer (x @ rest) (length (x @ rest))) = (Some r, st)
    \<and> istream_ok buf_icallback id st \<and> contents id st = rest"
proof -
  define st where "st = pb_istream_from_buffer (x @ rest) (length (x @ rest))"
  have ok: "istream_ok buf_icallback id st" "contents id st = x @ rest"
    using pb_istream_from_buffer_ok [of "length (x @ rest)" "x @ rest"] by (simp_all add: st_def)
  then obtain s' where s': "f st = (Some r, st\<lparr>state := s', bytes_left := bytes_left st - length x\<rparr>)"
    "id s' = drop (length x) (id (state st))"
    using assms unfolding delivers_def by blast
  from delivers_step [OF ok s'(2)] s'(1) show ?thesis unfolding st_def by blast
qed

lemma length_varint_size_max: "length (wire_varint (unat (v :: u64))) \<le> 10"
  using unsigned_less [of v, where ?'a = nat] by (intro length_wire_varint) simp_all

text \<open>The two calls that write a length-delimited field.\<close>

definition write_field :: "pb_wire_type_t \<Rightarrow> u32 \<Rightarrow> bytes \<Rightarrow> 's pb_writer" where
  "write_field wt fn d st =
     (case pb_encode_tag wt fn st of
        (False, st) \<Rightarrow> (False, st)
      | (True, st) \<Rightarrow> pb_encode_string d (length d) st)"

section \<open>Properties\<close>

text \<open>C36. A varint that \<open>pb_encode_varint\<close> puts into a buffer takes at most ten bytes, and
  \<open>pb_decode_varint\<close> reads the same number back, whatever follows.\<close>

theorem pb_varint_roundtrip:
  assumes "n \<le> length b" and "n \<le> size_max"
    and "pb_encode_varint v (pb_ostream_from_buffer b n) = (True, os)"
  shows "bytes_written os \<le> 10 \<and> bytes_written os \<le> n
    \<and> (\<forall>rest. let d = take (bytes_written os) (fst (ostate os)) @ rest
        in \<exists>st. pb_decode_varint (pb_istream_from_buffer d (length d)) = (Some v, st) \<and> contents id st = rest)"
proof -
  note e = emits_buffer [OF buf_sink.emits_varint assms(1,2) _ assms(3)]
  have w: "length (wire_varint (unat v)) \<le> n" "bytes_written os = length (wire_varint (unat v))"
    "take (bytes_written os) (fst (ostate os)) = wire_varint (unat v)"
    using e length_varint_size_max [of v] by auto
  have "delivers buf_icallback id pb_decode_varint (wire_varint (unat v)) v"
    using buf_source.delivers_varint [of "unat v"] unsigned_less [of v, where ?'a = nat] by simp
  from delivers_buffer [OF this] show ?thesis
    using w length_varint_size_max [of v] by (auto simp: Let_def)
qed

lemma pb_varint_roundtrip_witness:
  "pb_encode_varint 300 (pb_ostream_from_buffer (replicate 4 0) 4) = (True, snd (pb_encode_varint 300 (pb_ostream_from_buffer (replicate 4 0) 4)))
   \<and> bytes_written (snd (pb_encode_varint 300 (pb_ostream_from_buffer (replicate 4 0) 4))) \<le> 10"
proof -
  let ?os = "snd (pb_encode_varint 300 (pb_ostream_from_buffer (replicate 4 0) 4))"
  have run: "pb_encode_varint 300 (pb_ostream_from_buffer (replicate 4 0) 4) = (True, ?os)"
    by (simp add: pb_encode_varint_def varint_bytes_loop.simps pb_write_def pb_ostream_from_buffer_def buf_write_def Let_def)
  from pb_varint_roundtrip [OF _ _ run] show ?thesis using run by simp
qed

text \<open>Signed varints: every 64-bit number survives the zig-zag encoding into a buffer and the
  decoding from it; numbers between -64 and 63 take one byte.\<close>

theorem pb_svarint_roundtrip:
  assumes "n \<le> length b" and "n \<le> size_max"
    and "pb_encode_svarint v (pb_ostream_from_buffer b n) = (True, os)"
  shows "(- 64 \<le> sint v \<and> sint v < 64 \<longrightarrow> bytes_written os = 1)
    \<and> (\<forall>rest. let d = take (bytes_written os) (fst (ostate os)) @ rest
        in \<exists>st. pb_decode_svarint (pb_istream_from_buffer d (length d)) = (Some v, st) \<and> contents id st = rest)"
proof -
  have rng: "- (2 ^ 63) \<le> sint v" "sint v < 2 ^ 63" using sint_range_size [of v] by (simp_all add: word_size)
  then have z: "zigzag (sint v) < 2 ^ 64" by (rule zigzag_less)
  then have "length (wire_varint (zigzag (sint v))) \<le> 10" by (intro length_wire_varint) simp_all
  then have w: "bytes_written os = length (wire_varint (zigzag (sint v)))"
    "take (bytes_written os) (fst (ostate os)) = wire_varint (zigzag (sint v))"
    using emits_buffer [OF buf_sink.emits_svarint assms(1,2) _ assms(3)] by auto
  have "zigzag (sint v) < 128" if "- 64 \<le> sint v" "sint v < 64" using that by (auto simp: zigzag_def nat_less_iff)
  then have one: "- 64 \<le> sint v \<and> sint v < 64 \<longrightarrow> bytes_written os = 1"
    unfolding w(1) by (auto simp: wire_varint_small)
  have "delivers buf_icallback id pb_decode_svarint (wire_varint (zigzag (sint v))) v"
    using buf_source.delivers_svarint [OF rng] by simp
  from delivers_buffer [OF this] have "\<exists>st. pb_decode_svarint (pb_istream_from_buffer
      (wire_varint (zigzag (sint v)) @ rest) (length (wire_varint (zigzag (sint v)) @ rest))) = (Some v, st)
      \<and> contents id st = rest" for rest by blast
  with one show ?thesis by (simp add: w(2) Let_def)
qed

lemma pb_svarint_roundtrip_witness:
  "bytes_written (snd (pb_encode_svarint (- 2) (pb_ostream_from_buffer [0, 0] 2))) = 1"
proof -
  let ?os = "snd (pb_encode_svarint (- 2) (pb_ostream_from_buffer [0, 0] 2))"
  have run: "pb_encode_svarint (- 2) (pb_ostream_from_buffer [0, 0] 2) = (True, ?os)"
    by (rule prod_eqI, simp_all, code_simp)
  have "sint (- 2 :: u64) = - 2" by simp
  with pb_svarint_roundtrip [OF _ _ run] show ?thesis by simp
qed

text \<open>C37. A length-delimited field: the tag and the string that the encoders put into a buffer are
  read back as that tag; a substream made there holds exactly the string, and closing it leaves the
  parent stream behind the string.\<close>

theorem pb_string_field_roundtrip:
  assumes "n \<le> length b" and "n \<le> 2 ^ 32" and "unat fn < 2 ^ 29" and "length d < 2 ^ 32"
    and tag: "pb_encode_tag PB_WT_STRING fn (pb_ostream_from_buffer b n) = (True, o1)"
    and str: "pb_encode_string d (length d) o1 = (True, os)"
  shows "\<forall>rest. let x = take (bytes_written os) (fst (ostate os)) @ rest
    in \<exists>st1 sub st2 st3. pb_decode_tag (pb_istream_from_buffer x (length x)) = (False, Some (fn, PB_WT_STRING), st1)
      \<and> pb_make_string_substream st1 = (Some sub, st2) \<and> contents id sub = d
      \<and> pb_close_string_substream sub st2 = (Some (), st3) \<and> contents id st3 = rest"
proof -
  have et: "emits buf_write buf_written buf_room (pb_encode_tag PB_WT_STRING fn) (wire_tag (unat fn) 2)"
    using buf_sink.emits_tag [of 2 fn] by simp
  have es: "emits buf_write buf_written buf_room (pb_encode_string d (length d)) (wire_string d)"
    using assms(4) by (intro buf_sink.emits_string) simp
  note bind = emits_bind [OF et es]
  have lt: "length (wire_tag (unat fn) 2) \<le> 10" unfolding wire_tag_def
    using assms(3) by (intro length_wire_varint) simp_all
  have ls: "length (wire_string d) \<le> 10 + 2 ^ 32" unfolding wire_string_def
    using assms(4) length_wire_varint [of "length d" 10] by simp
  have run: "(\<lambda>st. case pb_encode_tag PB_WT_STRING fn st of (False, st) \<Rightarrow> (False, st)
      | (True, st) \<Rightarrow> pb_encode_string d (length d) st) (pb_ostream_from_buffer b n) = (True, os)"
    using tag str by simp
  have w: "take (bytes_written os) (fst (ostate os)) = wire_tag (unat fn) 2 @ wire_string d"
  proof -
    have "length (wire_tag (unat fn) 2 @ wire_string d) \<le> size_max" "n \<le> size_max"
      using lt ls assms(2) by simp_all
    from emits_buffer [OF bind assms(1) this(2,1) run] show ?thesis by blast
  qed
  have "\<exists>st1 sub st2 st3. pb_decode_tag (pb_istream_from_buffer x (length x)) = (False, Some (fn, PB_WT_STRING), st1)
      \<and> pb_make_string_substream st1 = (Some sub, st2) \<and> contents id sub = d
      \<and> pb_close_string_substream sub st2 = (Some (), st3) \<and> contents id st3 = rest"
    if x: "x = wire_tag (unat fn) 2 @ wire_string d @ rest" for x rest
  proof -
    obtain st1 where st1: "pb_decode_tag (pb_istream_from_buffer x (length x)) = (False, Some (fn, 2), st1)"
      "istream_ok buf_icallback id st1" "contents id st1 = wire_string d @ rest"
      using delivers_buffer [OF buf_source.delivers_tag [of "unat fn" 2], of "wire_string d @ rest"] assms(3)
      unfolding x by (auto split: prod.splits option.splits)
    from buf_source.make_substream [OF st1(2,3) assms(4)] obtain sub st2 where
      sub: "pb_make_string_substream st1 = (Some sub, st2)" "istream_ok buf_icallback id sub"
      "contents id sub = d" "callback st2 = buf_icallback" "bytes_left st2 = length rest"
      "take (length d + length rest) (id (state sub)) = d @ rest"
      "length d + length rest \<le> length (id (state sub))" by blast
    have bl: "bytes_left sub = length d" using contents_length [OF sub(2)] sub(3) by simp
    obtain st3 where "pb_close_string_substream sub st2 = (Some (), st3)" "contents id st3 = rest"
      using buf_source.close_substream [OF sub(2,4)] sub bl by auto
    with st1(1) sub(1,3) show ?thesis by blast
  qed
  then show ?thesis by (simp add: w Let_def)
qed

lemma pb_string_field_roundtrip_witness:
  "\<forall>rest. let x = [18, 1, 65] @ rest
    in \<exists>st1 sub st2 st3. pb_decode_tag (pb_istream_from_buffer x (length x)) = (False, Some (2, PB_WT_STRING), st1)
      \<and> pb_make_string_substream st1 = (Some sub, st2) \<and> contents id sub = [65]
      \<and> pb_close_string_substream sub st2 = (Some (), st3) \<and> contents id st3 = rest"
proof -
  let ?o1 = "snd (pb_encode_tag PB_WT_STRING 2 (pb_ostream_from_buffer [0, 0, 0, 0] 4))"
  let ?os = "snd (pb_encode_string [65] (length [65 :: u8]) ?o1)"
  have 1: "pb_encode_tag PB_WT_STRING 2 (pb_ostream_from_buffer [0, 0, 0, 0] 4) = (True, ?o1)"
    by (rule prod_eqI, simp_all, code_simp)
  have 2: "pb_encode_string [65] (length [65 :: u8]) ?o1 = (True, ?os)"
    by (rule prod_eqI, simp_all only: fst_conv snd_conv, code_simp)
  have eq: "take (bytes_written ?os) (fst (ostate ?os)) = [18, 1, 65]" by code_simp
  show ?thesis by (rule pb_string_field_roundtrip [OF _ _ _ _ 1 2, unfolded eq]) simp_all
qed

text \<open>\<open>pb_skip_field\<close> consumes exactly the payload of a field of any of the four wire types from a
  buffer stream, whatever follows, and fails for every other wire
  type.\<close>

theorem pb_skip_field_exact:
  assumes "wire_payload wt x"
  shows "(\<forall>rest. \<exists>st. pb_skip_field wt (pb_istream_from_buffer (x @ rest) (length (x @ rest))) = (Some (), st)
      \<and> contents id st = rest)
    \<and> (\<forall>w st. w \<notin> {0, 1, 2, 5} \<longrightarrow> fst (pb_skip_field w (st :: bytes pb_istream_t)) = None)"
proof
  show "\<forall>rest. \<exists>st. pb_skip_field wt (pb_istream_from_buffer (x @ rest) (length (x @ rest))) = (Some (), st)
      \<and> contents id st = rest"
    using delivers_buffer [OF buf_source.delivers_skip_field [OF assms]] by blast
qed (simp add: pb_skip_field_def pb_return_error_def)

lemma pb_skip_field_exact_witness:
  "\<exists>st. pb_skip_field PB_WT_STRING (pb_istream_from_buffer [2, 65, 66, 7] 4) = (Some (), st) \<and> contents id st = [7]"
proof -
  have "wire_payload PB_WT_STRING [2, 65, 66]"
    by (auto simp: wire_payload_def wire_string_def wire_varint_small intro!: exI [of _ "[65, 66]"])
  from conjunct1 [OF pb_skip_field_exact [OF this]] show ?thesis by (rule allE [where x = "[7]"]) (simp add: eval_nat_numeral)
qed

text \<open>A sizing stream counts exactly what the real stream needs: the tag and the string of a
  field fit into a buffer if and only if the buffer is at least as large as the number of bytes that
  the same calls count on \<open>PB_OSTREAM_SIZING\<close>.\<close>

theorem pb_sizing_exact:
  assumes "n \<le> length b" and "n \<le> size_max" and "length d < 2 ^ 32" and "unat wt < 8"
  shows "fst (write_field wt fn d (PB_OSTREAM_SIZING (s :: bytes \<times> nat)))
    \<and> fst (write_field wt fn d (pb_ostream_from_buffer b n)) = (bytes_written (snd (write_field wt fn d (PB_OSTREAM_SIZING s))) \<le> n)"
proof -
  define x where "x = wire_tag (unat fn) (unat wt) @ wire_string d"
  have es: "emits buf_write buf_written buf_room (pb_encode_string d (length d)) (wire_string d)"
    using assms(3) by (intro buf_sink.emits_string) simp
  have e: "emits buf_write buf_written buf_room (write_field wt fn d) x"
    using emits_bind [OF buf_sink.emits_tag [OF assms(4), of fn] es]
    unfolding x_def write_field_def [abs_def] by simp
  have "unat fn * 8 + unat wt < 128 ^ 10" using unsigned_less [of fn, where ?'a = nat] assms(4) by simp
  then have "length (wire_tag (unat fn) (unat wt)) \<le> 10"
    unfolding wire_tag_def by (intro length_wire_varint) simp_all
  moreover have "length (wire_string d) \<le> 10 + 2 ^ 32"
    unfolding wire_string_def using assms(3) length_wire_varint [of "length d" 10] by simp
  ultimately have x: "length x \<le> size_max" by (simp add: x_def)
  have "write_field wt fn d (PB_OSTREAM_SIZING s) = (True, (PB_OSTREAM_SIZING s)\<lparr>bytes_written := size_add 0 (length x)\<rparr>)"
    using e [unfolded emits_def, THEN conjunct1, rule_format, of "PB_OSTREAM_SIZING s"]
    by (simp add: PB_OSTREAM_SIZING_def)
  moreover have "fst (write_field wt fn d (pb_ostream_from_buffer b n)) = (length x \<le> n)"
    using e pb_ostream_from_buffer_ok [OF assms(1,2)] x
    by (cases "length x \<le> n") (auto simp: emits_def not_le dest!: emits_fits [OF e])
  ultimately show ?thesis using x by simp
qed

lemma pb_sizing_exact_witness:
  "fst (write_field 2 3 [7] (pb_ostream_from_buffer [0, 0] 2)) = (3 \<le> (2 :: nat))"
proof -
  have "bytes_written (snd (write_field 2 3 [7] (PB_OSTREAM_SIZING (([], 0) :: bytes \<times> nat)))) = 3" by code_simp
  with pb_sizing_exact [of 2 "[0, 0]" "[7]" 2 3 "([], 0)"] show ?thesis by simp
qed

lemma readbyte_buf:
  "0 < n \<Longrightarrow>
   pb_readbyte \<lparr>callback = \<lparr>is_buf_read = True, read_fn = buf_read\<rparr>, state = b # bs, bytes_left = n, errmsg = e\<rparr>
   = (Some b, \<lparr>callback = \<lparr>is_buf_read = True, read_fn = buf_read\<rparr>, state = bs, bytes_left = n - 1, errmsg = e\<rparr>)"
  by (simp add: pb_readbyte_def buf_read_def)

lemma replicate_37: "replicate 37 (0x80 :: u8) =
    [0x80, 0x80, 0x80, 0x80, 0x80, 0x80, 0x80, 0x80, 0x80, 0x80, 0x80, 0x80, 0x80, 0x80, 0x80,
     0x80, 0x80, 0x80, 0x80, 0x80, 0x80, 0x80, 0x80, 0x80, 0x80, 0x80, 0x80, 0x80, 0x80, 0x80,
     0x80, 0x80, 0x80, 0x80, 0x80, 0x80, 0x80]"
  by code_simp

lemmas run_varint = pb_decode_varint_def varint_loop.simps pb_decode_varint32_def pb_decode_varint32_eof_def
  varint32_loop.simps pb_istream_from_buffer_def readbyte_buf replicate_37 pb_return_error_def Let_def

text \<open>\<open>pb_decode_varint32\<close> silently drops bits of overlong numbers: the sixth byte being zero, bits
  above bit 31 of the fifth byte pass its overflow test; and after 37 bytes its 8-bit bit position
  has wrapped, so that a byte that overflows is added to the low bits again. The decoder of 64-bit
  varints rejects the second input.\<close>

theorem pb_varint32_truncates:
  "fst (pb_decode_varint32 (pb_istream_from_buffer [0x80, 0x80, 0x80, 0x80, 0xF0, 0] 6)) = Some 0
   \<and> fst (pb_decode_varint (pb_istream_from_buffer [0x80, 0x80, 0x80, 0x80, 0xF0, 0] 6)) = Some (7 * 2 ^ 32)
   \<and> fst (pb_decode_varint32 (pb_istream_from_buffer (replicate 37 0x80 @ [1]) 38)) = Some 8
   \<and> fst (pb_decode_varint (pb_istream_from_buffer (replicate 37 0x80 @ [1]) 38)) = None"
  (is "?a \<and> ?b \<and> ?c \<and> ?d")
proof (intro conjI)
  show ?a by (simp add: run_varint)
  show ?b by (simp add: run_varint)
  show ?c by (simp add: run_varint)
  show ?d by (simp add: run_varint)
qed

end
