(* ===== verification/Mem_Props.thy ===== *)
theory Mem_Props
  imports Consttime Ex_Alloc "HOL-Library.Code_Target_Nat"
begin

text \<open>
  Properties of the memory helpers: the constant-time primitives and comparison decide what they
  should, and the growable buffer keeps its contents and its invariant.
\<close>

lemma BUF_MEM_append_True:
  assumes "buf_mem_ok b" and "length d \<le> size_max" and "BUF_MEM_append A b d = (True, b')"
  shows "buf_mem_ok b' \<and> buf_mem_contents b' = buf_mem_contents b @ d"
proof -
  define n where "n = size_add (mem_length b) (length d)"
  from assms(3) obtain b1 where ge: "\<not> n < length d" and r: "BUF_MEM_reserve A b n = (True, b1)"
    and b': "b' = b1\<lparr>mem_data := mem_write (mem_data b1) (mem_length b1) d, mem_length := n\<rparr>"
    by (auto simp: BUF_MEM_append_def Let_def n_def split: if_splits prod.splits bool.splits)
  have "mem_length b \<le> size_max" using assms(1) by (simp add: buf_mem_ok_def)
  then have n: "n = mem_length b + length d" using ge assms(2) by (simp add: n_def size_add_not_overflow)
  have "n \<le> size_max" by (simp add: n_def)
  note R = BUF_MEM_reserve_ok [OF assms(1) r this]
  show ?thesis using R n b' by (simp add: buf_mem_ok_def)
qed

section \<open>Properties\<close>

text \<open>The constant-time primitives of \<open>crypto/internal.h\<close> compute, without a branch, the masks of
  the comparisons they are named after, and the selection picks the argument that its mask says.\<close>

theorem constant_time_correct:
  "constant_time_msb_w a = ct_mask (2 ^ 63 \<le> unat a)
   \<and> constant_time_lt_w a b = ct_mask (a < b) \<and> constant_time_lt_8 a b = ct_mask (a < b)
   \<and> constant_time_ge_w a b = ct_mask (a \<ge> b) \<and> constant_time_ge_8 a b = ct_mask (a \<ge> b)
   \<and> constant_time_is_zero_w a = ct_mask (a = 0) \<and> constant_time_is_zero_8 a = ct_mask (a = 0)
   \<and> constant_time_eq_w a b = ct_mask (a = b) \<and> constant_time_eq_8 a b = ct_mask (a = b)
   \<and> constant_time_select_w (ct_mask P) a b = (if P then a else b)
   \<and> constant_time_select_8 (ct_mask P) x y = (if P then x else y)"
proof -
  have "NOT (ct_mask (a < b)) = (ct_mask (a \<ge> b) :: u64)" by (auto simp: ct_mask_def)
  then show ?thesis
    by (simp add: constant_time_msb_w_eq bit_63_iff constant_time_lt_w_eq constant_time_8_eq
        constant_time_is_zero_w_eq constant_time_select_w_eq constant_time_select_8_eq constant_time_ge_w_def
        constant_time_eq_w_def)
qed

text \<open>\<open>CRYPTO_memcmp\<close> returns zero exactly when the first \<open>len\<close> bytes agree.\<close>

theorem memcmp_decides:
  assumes "len \<le> length a" and "len \<le> length b"
  shows "CRYPTO_memcmp a b len = 0 \<longleftrightarrow> take len a = take len b"
  using assms by simp

lemma memcmp_decides_witness: "CRYPTO_memcmp [1, 2, 3] [1, 2, 4] 2 = 0 \<and> CRYPTO_memcmp [1, 2, 3] [1, 2, 4] 3 \<noteq> 0"
  using memcmp_decides [of 2 "[1, 2, 3]" "[1, 2, 4]"] memcmp_decides [of 3 "[1, 2, 3]" "[1, 2, 4]"] by simp

text \<open>\<open>BUF_MEM_append\<close> keeps the invariant of the growable buffer (the used length within the
  allocation), appends exactly the given bytes when it succeeds and changes nothing when the
  allocation or the size computation fails.\<close>

theorem buf_mem_append_invariant:
  assumes "buf_mem_ok b" and "length d \<le> size_max" and "BUF_MEM_append A b d = (r, b')"
  shows "buf_mem_ok b' \<and> buf_mem_contents b' = buf_mem_contents b @ (if r then d else []) \<and> (\<not> r \<longrightarrow> b' = b)"
  using assms BUF_MEM_append_True [OF assms(1,2)] BUF_MEM_append_fails [of A b d]
  by (cases r) auto

lemma buf_mem_append_invariant_witness:
  "buf_mem_contents (snd (BUF_MEM_append ex_alloc BUF_MEM_new [1, 2])) = [1, 2]
   \<and> snd (BUF_MEM_append no_alloc BUF_MEM_new [1, 2]) = BUF_MEM_new"
proof -
  have ok: "buf_mem_ok BUF_MEM_new" by (simp add: buf_mem_ok_def BUF_MEM_new_def)
  have "fst (BUF_MEM_append ex_alloc BUF_MEM_new [1, 2])" by code_simp
  moreover have "\<not> fst (BUF_MEM_append no_alloc BUF_MEM_new [1, 2])" by code_simp
  ultimately show ?thesis
    using buf_mem_append_invariant [OF ok _ prod.collapse [symmetric], of "[1, 2]" ex_alloc]
      buf_mem_append_invariant [OF ok _ prod.collapse [symmetric], of "[1, 2]" no_alloc]
    by (simp add: BUF_MEM_new_def)
qed

end
