(* ===== verification/Bio.thy ===== *)
theory Bio
  imports Mem "HOL-Library.Monad_Syntax"
begin

text \<open>
  The I/O abstraction of BoringSSL (\<open>crypto/bio/bio.c\<close>) with the two methods that do not call the
  operating system: memory buffers (\<open>bio_mem.c\<close>) and BIO pairs (\<open>pair.c\<close>).

  BIOs live in a heap and refer to each other by address: a pair by \<open>peer\<close>, a chain by \<open>next_bio\<close>.
  A \<open>BIO *\<close> is an address or the null pointer. A failed assertion, a call of \<open>abort\<close> and an access
  through a dangling or null pointer are the result \<open>None\<close>; every function that can come to one
  has an option result, and a loop that may not end is a \<open>partial_function\<close>, whose \<open>None\<close> also
  covers not returning. The error queue is left out, \<open>long\<close> has 64 bits.
\<close>

section \<open>Data\<close>

type_synonym bio_addr = nat

record bio_bio_st =
  peer :: "bio_addr option"
  wclosed :: bool
  rlen :: nat
  roffset :: nat
  rsize :: nat
  rbuf :: "bytes option"
  request :: nat

text \<open>What \<open>bio->ptr\<close> points to: for a memory BIO the \<open>BUF_MEM\<close> and the offset of its \<open>data\<close> pointer
  into the block (a read-only BIO moves the pointer, any other leaves it at 0).\<close>

datatype bio_ptr = NullPtr | MemPtr BUF_MEM nat | PairPtr bio_bio_st

datatype BIO_METHOD = mem_method | methods_biop

record bio_st =
  bmethod :: BIO_METHOD
  init :: bool
  shutdown :: int
  flags :: u32
  retry_reason :: int
  bio_num :: int
  references :: u32
  bptr :: bio_ptr
  next_bio :: "bio_addr option"
  num_read :: nat
  num_write :: nat

text \<open>The heap: the live BIOs, the next address that \<open>malloc\<close> has not given out, and \<open>g_index\<close>.\<close>

record bio_heap =
  bios :: "bio_addr \<Rightarrow> bio_st option"
  fresh :: bio_addr
  g_index :: int

definition put_bio :: "bio_addr \<Rightarrow> bio_st \<Rightarrow> bio_heap \<Rightarrow> bio_heap" where
  "put_bio a b s = s\<lparr>bios := (bios s)(a \<mapsto> b)\<rparr>"

abbreviation (input) BIO_INT_MAX :: int where "BIO_INT_MAX \<equiv> 2147483647"

text \<open>The conversions of a \<open>size_t\<close> to \<open>int\<close> and to \<open>long\<close>.\<close>

definition int_of_size :: "nat \<Rightarrow> int" where
  "int_of_size n = sint (of_nat n :: 32 word)"

definition long_of_size :: "nat \<Rightarrow> int" where
  "long_of_size n = sint (of_nat n :: 64 word)"

section \<open>Flags\<close>

definition BIO_set_flags :: "u32 \<Rightarrow> bio_st \<Rightarrow> bio_st" where
  "BIO_set_flags fl b = b\<lparr>flags := flags b OR fl\<rparr>"

definition BIO_test_flags :: "bio_st \<Rightarrow> u32 \<Rightarrow> u32" where
  "BIO_test_flags b fl = flags b AND fl"

abbreviation (input) BIO_FLAGS_READ :: u32 where "BIO_FLAGS_READ \<equiv> 1"
abbreviation (input) BIO_FLAGS_WRITE :: u32 where "BIO_FLAGS_WRITE \<equiv> 2"
abbreviation (input) BIO_FLAGS_IO_SPECIAL :: u32 where "BIO_FLAGS_IO_SPECIAL \<equiv> 4"
abbreviation (input) BIO_FLAGS_SHOULD_RETRY :: u32 where "BIO_FLAGS_SHOULD_RETRY \<equiv> 8"
abbreviation (input) BIO_FLAGS_MEM_RDONLY :: u32 where "BIO_FLAGS_MEM_RDONLY \<equiv> 0x200"
abbreviation (input) kRetryFlags :: u32 where "kRetryFlags \<equiv> 0xF"

definition BIO_should_read :: "bio_st \<Rightarrow> bool" where
  "BIO_should_read b \<longleftrightarrow> BIO_test_flags b BIO_FLAGS_READ \<noteq> 0"

definition BIO_should_write :: "bio_st \<Rightarrow> bool" where
  "BIO_should_write b \<longleftrightarrow> BIO_test_flags b BIO_FLAGS_WRITE \<noteq> 0"

definition BIO_should_retry :: "bio_st \<Rightarrow> bool" where
  "BIO_should_retry b \<longleftrightarrow> BIO_test_flags b BIO_FLAGS_SHOULD_RETRY \<noteq> 0"

definition BIO_should_io_special :: "bio_st \<Rightarrow> bool" where
  "BIO_should_io_special b \<longleftrightarrow> BIO_test_flags b BIO_FLAGS_IO_SPECIAL \<noteq> 0"

definition BIO_clear_flags :: "u32 \<Rightarrow> bio_st \<Rightarrow> bio_st" where
  "BIO_clear_flags fl b = b\<lparr>flags := flags b AND NOT fl\<rparr>"

definition BIO_set_retry_read :: "bio_st \<Rightarrow> bio_st" where
  "BIO_set_retry_read b = b\<lparr>flags := flags b OR (BIO_FLAGS_READ OR BIO_FLAGS_SHOULD_RETRY)\<rparr>"

definition BIO_set_retry_write :: "bio_st \<Rightarrow> bio_st" where
  "BIO_set_retry_write b = b\<lparr>flags := flags b OR (BIO_FLAGS_WRITE OR BIO_FLAGS_SHOULD_RETRY)\<rparr>"

definition BIO_set_retry_special :: "bio_st \<Rightarrow> bio_st" where
  "BIO_set_retry_special b = b\<lparr>flags := flags b OR (BIO_FLAGS_READ OR BIO_FLAGS_IO_SPECIAL)\<rparr>"

definition BIO_get_retry_flags :: "bio_st \<Rightarrow> u32" where
  "BIO_get_retry_flags b = flags b AND kRetryFlags"

definition BIO_clear_retry_flags :: "bio_st \<Rightarrow> bio_st" where
  "BIO_clear_retry_flags b = b\<lparr>flags := flags b AND NOT kRetryFlags, retry_reason := 0\<rparr>"

definition BIO_copy_next_retry :: "bio_addr \<Rightarrow> bio_heap \<Rightarrow> bio_heap option" where
  "BIO_copy_next_retry a s = do {
     b \<leftarrow> bios s a;
     n \<leftarrow> next_bio b;
     let s = put_bio a (BIO_clear_retry_flags b) s;
     nb \<leftarrow> bios s n;
     b \<leftarrow> bios s a;
     Some (put_bio a ((BIO_set_flags (BIO_get_retry_flags nb) b)\<lparr>retry_reason := retry_reason nb\<rparr>) s)
   }"

section \<open>Memory BIOs\<close>

definition BUF_MEM_grow_clean :: "alloc \<Rightarrow> BUF_MEM \<Rightarrow> nat \<Rightarrow> nat \<times> BUF_MEM" where
  "BUF_MEM_grow_clean A buf len = BUF_MEM_grow A buf len"

text \<open>\<open>mem_new\<close>: \<open>BUF_MEM_new\<close> allocates the 24 bytes of the structure.\<close>

definition mem_new :: "alloc \<Rightarrow> bio_st \<Rightarrow> bio_st option" where
  "mem_new A b =
     (if A 24 = None then None
      else Some (b\<lparr>shutdown := 1, init := True, bio_num := -1, bptr := MemPtr BUF_MEM_new 0\<rparr>))"

definition mem_free :: "bio_st \<Rightarrow> bio_st" where
  "mem_free b = (if shutdown b = 0 \<or> \<not> init b \<or> bptr b = NullPtr then b else b\<lparr>bptr := NullPtr\<rparr>)"

text \<open>\<open>mem_read\<close>: the result, the bytes copied to \<open>out\<close> and the BIO.\<close>

definition mem_read :: "int \<Rightarrow> bio_st \<Rightarrow> (int \<times> bytes \<times> bio_st) option" where
  "mem_read outl bio =
     (case bptr bio of
        MemPtr b off \<Rightarrow>
          (let bio = BIO_clear_retry_flags bio;
               ret = (if mem_length b < 2147483647 \<and> outl > int (mem_length b) then int (mem_length b) else outl)
           in if ret > 0 then
                (let n = nat ret;
                     out = take n (drop off (mem_data b));
                     b = b\<lparr>mem_length := mem_length b - n\<rparr>
                 in if flags bio AND BIO_FLAGS_MEM_RDONLY \<noteq> 0
                    then Some (ret, out, bio\<lparr>bptr := MemPtr b (off + n)\<rparr>)
                    else Some (ret, out, bio\<lparr>bptr := MemPtr
                           (b\<lparr>mem_data := mem_write (mem_data b) off
                                (take (mem_length b) (drop (off + n) (mem_data b)))\<rparr>) off\<rparr>))
              else if mem_length b = 0 then
                Some (bio_num bio, [], if bio_num bio \<noteq> 0 then BIO_set_retry_read bio else bio)
              else Some (ret, [], bio))
      | _ \<Rightarrow> None)"

text \<open>\<open>mem_write\<close> of the \<open>inl\<close> bytes of \<open>d\<close>.\<close>

definition mem_bio_write :: "alloc \<Rightarrow> bytes \<Rightarrow> int \<Rightarrow> bio_st \<Rightarrow> (int \<times> bio_st) option" where
  "mem_bio_write A d inl bio =
     (case bptr bio of
        MemPtr b off \<Rightarrow>
          (if flags bio AND BIO_FLAGS_MEM_RDONLY \<noteq> 0 then Some (-1, bio)
           else
             (let bio = BIO_clear_retry_flags bio; blen = int_of_size (mem_length b)
              in if BIO_INT_MAX - blen < inl then Some (-1, bio)
                 else
                   (let want = nat ((blen + inl) mod 2 ^ 64)
                    in case BUF_MEM_grow_clean A b want of
                         (got, b) \<Rightarrow>
                           if got \<noteq> want then Some (-1, bio\<lparr>bptr := MemPtr b off\<rparr>)
                           else Some (inl, bio\<lparr>bptr := MemPtr
                                  (b\<lparr>mem_data := mem_write (mem_data b) (off + nat blen) (take (nat inl) d)\<rparr>) off\<rparr>))))
      | _ \<Rightarrow> None)"

text \<open>\<open>mem_gets\<close>: the result, the bytes written to \<open>buf\<close> (with the terminating zero) and the BIO.
  The scan of the loop is \<open>newline_prefix\<close>, the number of bytes up to and including the first newline.\<close>

fun newline_prefix :: "bytes \<Rightarrow> nat" where
  "newline_prefix [] = 0"
| "newline_prefix (c # cs) = (if c = 10 then 1 else Suc (newline_prefix cs))"

definition mem_gets :: "int \<Rightarrow> bio_st \<Rightarrow> (int \<times> bytes \<times> bio_st) option" where
  "mem_gets sz bio =
     (case bptr bio of
        MemPtr b off \<Rightarrow>
          (let bio = BIO_clear_retry_flags bio;
               j = int_of_size (mem_length b);
               j = (if sz - 1 < j then sz - 1 else j)
           in if j \<le> 0 then Some (0, if sz > 0 then [0] else [], bio)
              else
                (case mem_read (int (newline_prefix (take (nat j) (drop off (mem_data b))))) bio of
                   None \<Rightarrow> None
                 | Some (i, out, bio) \<Rightarrow> Some (i, if i > 0 then out @ [0] else out, bio)))
      | _ \<Rightarrow> None)"

text \<open>The pointer argument of a control call, and what it writes through it: the bytes from \<open>b->data\<close>
  on (\<open>BIO_CTRL_INFO\<close>) or the \<open>BUF_MEM\<close> (\<open>BIO_C_GET_BUF_MEM_PTR\<close>).\<close>

datatype bio_arg = NullArg | OutArg | BioArg bio_addr | MemArg BUF_MEM
datatype bio_out = NoOut | OutData bytes | OutMem BUF_MEM nat

abbreviation (input) BIO_CTRL_RESET :: int where "BIO_CTRL_RESET \<equiv> 1"
abbreviation (input) BIO_CTRL_EOF :: int where "BIO_CTRL_EOF \<equiv> 2"
abbreviation (input) BIO_CTRL_INFO :: int where "BIO_CTRL_INFO \<equiv> 3"
abbreviation (input) BIO_CTRL_GET_CLOSE :: int where "BIO_CTRL_GET_CLOSE \<equiv> 8"
abbreviation (input) BIO_CTRL_SET_CLOSE :: int where "BIO_CTRL_SET_CLOSE \<equiv> 9"
abbreviation (input) BIO_CTRL_PENDING :: int where "BIO_CTRL_PENDING \<equiv> 10"
abbreviation (input) BIO_CTRL_FLUSH :: int where "BIO_CTRL_FLUSH \<equiv> 11"
abbreviation (input) BIO_CTRL_WPENDING :: int where "BIO_CTRL_WPENDING \<equiv> 13"
abbreviation (input) BIO_C_SET_BUF_MEM :: int where "BIO_C_SET_BUF_MEM \<equiv> 114"
abbreviation (input) BIO_C_GET_BUF_MEM_PTR :: int where "BIO_C_GET_BUF_MEM_PTR \<equiv> 115"
abbreviation (input) BIO_C_SET_BUF_MEM_EOF_RETURN :: int where "BIO_C_SET_BUF_MEM_EOF_RETURN \<equiv> 130"
abbreviation (input) BIO_C_GET_WRITE_BUF_SIZE :: int where "BIO_C_GET_WRITE_BUF_SIZE \<equiv> 137"
abbreviation (input) BIO_C_GET_WRITE_GUARANTEE :: int where "BIO_C_GET_WRITE_GUARANTEE \<equiv> 140"
abbreviation (input) BIO_C_GET_READ_REQUEST :: int where "BIO_C_GET_READ_REQUEST \<equiv> 141"
abbreviation (input) BIO_C_SHUTDOWN_WR :: int where "BIO_C_SHUTDOWN_WR \<equiv> 142"
abbreviation (input) BIO_C_RESET_READ_REQUEST :: int where "BIO_C_RESET_READ_REQUEST \<equiv> 147"

definition mem_of :: "bio_st \<Rightarrow> (BUF_MEM \<times> nat) option" where
  "mem_of bio = (case bptr bio of MemPtr b off \<Rightarrow> Some (b, off) | _ \<Rightarrow> None)"

definition mem_ctrl :: "int \<Rightarrow> int \<Rightarrow> bio_arg \<Rightarrow> bio_st \<Rightarrow> (int \<times> bio_out \<times> bio_st) option" where
  "mem_ctrl cmd num arg bio =
     (if cmd = BIO_CTRL_RESET then do {
        (b, off) \<leftarrow> mem_of bio;
        Some (1, NoOut,
          if mem_data b = [] then bio
          else if flags bio AND BIO_FLAGS_MEM_RDONLY \<noteq> 0
          then bio\<lparr>bptr := MemPtr (b\<lparr>mem_length := mem_max b\<rparr>) (off - (mem_max b - mem_length b))\<rparr>
          else bio\<lparr>bptr := MemPtr (b\<lparr>mem_data := replicate (mem_max b) 0, mem_length := 0\<rparr>) off\<rparr>)
      }
      else if cmd = BIO_CTRL_EOF then do {
        (b, off) \<leftarrow> mem_of bio;
        Some (if mem_length b = 0 then 1 else 0, NoOut, bio)
      }
      else if cmd = BIO_C_SET_BUF_MEM_EOF_RETURN
      then Some (1, NoOut, bio\<lparr>bio_num := sint (of_int num :: 32 word)\<rparr>)
      else if cmd = BIO_CTRL_INFO then do {
        (b, off) \<leftarrow> mem_of bio;
        Some (long_of_size (mem_length b), if arg = NullArg then NoOut else OutData (drop off (mem_data b)), bio)
      }
      else if cmd = BIO_C_SET_BUF_MEM
      then Some (1, NoOut, (mem_free bio)\<lparr>shutdown := sint (of_int num :: 32 word),
                   bptr := (case arg of MemArg m \<Rightarrow> MemPtr m 0 | _ \<Rightarrow> NullPtr)\<rparr>)
      else if cmd = BIO_C_GET_BUF_MEM_PTR
      then Some (1, case mem_of bio of Some (b, off) \<Rightarrow> (if arg = NullArg then NoOut else OutMem b off) | None \<Rightarrow> NoOut, bio)
      else if cmd = BIO_CTRL_GET_CLOSE then Some (shutdown bio, NoOut, bio)
      else if cmd = BIO_CTRL_SET_CLOSE then Some (1, NoOut, bio\<lparr>shutdown := sint (of_int num :: 32 word)\<rparr>)
      else if cmd = BIO_CTRL_WPENDING then Some (0, NoOut, bio)
      else if cmd = BIO_CTRL_PENDING then do {
        (b, off) \<leftarrow> mem_of bio;
        Some (long_of_size (mem_length b), NoOut, bio)
      }
      else if cmd = BIO_CTRL_FLUSH then Some (1, NoOut, bio)
      else Some (0, NoOut, bio))"

section \<open>BIO pairs\<close>

text \<open>\<open>bio_new\<close>: the structure has 56 bytes, the default buffer one TLS record.\<close>

definition bio_new :: "alloc \<Rightarrow> bio_st \<Rightarrow> bio_st option" where
  "bio_new A b =
     (if A 56 = None then None
      else Some (b\<lparr>bptr := PairPtr \<lparr>peer = None, wclosed = False, rlen = 0, roffset = 0, rsize = 17 * 1024,
                                  rbuf = None, request = 0\<rparr>\<rparr>))"

definition pair_of :: "bio_st \<Rightarrow> bio_bio_st option" where
  "pair_of b = (case bptr b of PairPtr x \<Rightarrow> Some x | _ \<Rightarrow> None)"

text \<open>An update of the \<open>bio_bio_st\<close> of the BIO at an address.\<close>

definition put_pair :: "bio_addr \<Rightarrow> bio_bio_st \<Rightarrow> bio_heap \<Rightarrow> bio_heap" where
  "put_pair a x s = (case bios s a of None \<Rightarrow> s | Some b \<Rightarrow> put_bio a (b\<lparr>bptr := PairPtr x\<rparr>) s)"

definition bio_destroy_pair :: "bio_addr \<Rightarrow> bio_heap \<Rightarrow> bio_heap option" where
  "bio_destroy_pair a s = do {
     bio \<leftarrow> bios s a;
     if bptr bio = NullPtr then Some s
     else do {
       b \<leftarrow> pair_of bio;
       case peer b of
         None \<Rightarrow> Some s
       | Some p \<Rightarrow> do {
           peer_bio \<leftarrow> bios s p;
           peer_b \<leftarrow> pair_of peer_bio;
           if peer peer_b \<noteq> Some a \<or> rbuf peer_b = None then None
           else do {
             let s = put_bio p (peer_bio\<lparr>init := False,
                 bptr := PairPtr (peer_b\<lparr>peer := None, rlen := 0, roffset := 0\<rparr>)\<rparr>) s;
             bio \<leftarrow> bios s a;
             b \<leftarrow> pair_of bio;
             if rbuf b = None then None
             else Some (put_bio a (bio\<lparr>init := False,
                 bptr := PairPtr (b\<lparr>peer := None, rlen := 0, roffset := 0\<rparr>)\<rparr>) s)
           }
         }
     }
   }"

definition bio_free :: "bio_addr \<Rightarrow> bio_heap \<Rightarrow> bio_heap option" where
  "bio_free a s = do {
     bio \<leftarrow> bios s a;
     b \<leftarrow> pair_of bio;
     if peer b \<noteq> None then bio_destroy_pair a s else Some s
   }"

text \<open>The copying loops of \<open>bio_read\<close> and \<open>bio_write\<close>, with their assertions.\<close>

partial_function (option) bio_read_loop :: "bio_bio_st \<Rightarrow> nat \<Rightarrow> (bytes \<times> bio_bio_st) option" where
  "bio_read_loop b rest =
     (case rbuf b of
        None \<Rightarrow> None
      | Some data \<Rightarrow>
          if \<not> rest \<le> rlen b then None
          else
            (let chunk = (if size_add (roffset b) rest \<le> rsize b then rest else rsize b - roffset b)
             in if \<not> roffset b + chunk \<le> rsize b then None
                else
                  (let out = take chunk (drop (roffset b) data);
                       b = b\<lparr>rlen := rlen b - chunk\<rparr>
                   in if rlen b = 0 \<and> chunk \<noteq> rest then None
                      else
                        (let b = (if rlen b \<noteq> 0
                                  then b\<lparr>roffset := (if roffset b + chunk = rsize b then 0 else roffset b + chunk)\<rparr>
                                  else b\<lparr>roffset := 0\<rparr>)
                         in if rest - chunk \<noteq> 0
                            then Option.bind (bio_read_loop b (rest - chunk)) (\<lambda>(out', b). Some (out @ out', b))
                            else Some (out, b)))))"

partial_function (option) bio_write_loop :: "bio_bio_st \<Rightarrow> bytes \<Rightarrow> bio_bio_st option" where
  "bio_write_loop b d =
     (case rbuf b of
        None \<Rightarrow> None
      | Some data \<Rightarrow>
          if \<not> rlen b + length d \<le> rsize b then None
          else
            (let write_offset = roffset b + rlen b;
                 write_offset = (if write_offset \<ge> rsize b then write_offset - rsize b else write_offset);
                 chunk = (if size_add write_offset (length d) \<le> rsize b then length d else rsize b - write_offset);
                 b = b\<lparr>rbuf := Some (mem_write data write_offset (take chunk d)), rlen := rlen b + chunk\<rparr>
             in if \<not> rlen b \<le> rsize b then None
                else if length d - chunk \<noteq> 0 then bio_write_loop b (drop chunk d)
                else Some b))"

text \<open>\<open>bio_read\<close> into a buffer of \<open>sz\<close> bytes (not null): the result, the bytes read and the heap.\<close>

definition bio_read :: "bio_addr \<Rightarrow> nat \<Rightarrow> bio_heap \<Rightarrow> (int \<times> bytes \<times> bio_heap) option" where
  "bio_read a sz s = do {
     bio \<leftarrow> bios s a;
     let bio = BIO_clear_retry_flags bio;
     let s = put_bio a bio s;
     if \<not> init bio then Some (0, [], s)
     else do {
       b \<leftarrow> pair_of bio;
       p \<leftarrow> peer b;
       peer_bio \<leftarrow> bios s p;
       peer_b \<leftarrow> pair_of peer_bio;
       data \<leftarrow> rbuf peer_b;
       let peer_b = peer_b\<lparr>request := 0\<rparr>;
       if sz = 0 then Some (0, [], put_pair p peer_b s)
       else if rlen peer_b = 0 then
         (if wclosed peer_b then Some (0, [], put_pair p peer_b s)
          else Some (-1, [], put_pair p
                 (peer_b\<lparr>request := (if sz \<le> rsize peer_b then sz else rsize peer_b)\<rparr>)
                 (put_bio a (BIO_set_retry_read bio) s)))
       else do {
         let n = (if rlen peer_b < sz then rlen peer_b else sz);
         (out, peer_b) \<leftarrow> bio_read_loop peer_b n;
         Some (int n, out, put_pair p peer_b s)
       }
     }
   }"

definition bio_write :: "bio_addr \<Rightarrow> bytes \<Rightarrow> bio_heap \<Rightarrow> (int \<times> bio_heap) option" where
  "bio_write a d s = do {
     bio \<leftarrow> bios s a;
     let bio = BIO_clear_retry_flags bio;
     let s = put_bio a bio s;
     if \<not> init bio \<or> d = [] then Some (0, s)
     else do {
       b \<leftarrow> pair_of bio;
       p \<leftarrow> peer b;
       data \<leftarrow> rbuf b;
       let b = b\<lparr>request := 0\<rparr>;
       if wclosed b then Some (-1, put_pair a b s)
       else if \<not> rlen b \<le> rsize b then None
       else if rlen b = rsize b then Some (-1, put_pair a b (put_bio a (BIO_set_retry_write bio) s))
       else do {
         let n = (if length d > rsize b - rlen b then rsize b - rlen b else length d);
         b \<leftarrow> bio_write_loop b (take n d);
         Some (int n, put_pair a b s)
       }
     }
   }"

text \<open>The allocation of one ring buffer in \<open>bio_make_pair\<close>: whether it succeeded.\<close>

definition ring_alloc :: "alloc \<Rightarrow> nat \<Rightarrow> bio_bio_st \<Rightarrow> bool \<times> bio_bio_st" where
  "ring_alloc A writebuf_len b =
     (case rbuf b of
        Some _ \<Rightarrow> (True, b)
      | None \<Rightarrow>
          (let b = (if writebuf_len \<noteq> 0 then b\<lparr>rsize := writebuf_len\<rparr> else b)
           in case OPENSSL_malloc A (rsize b) of
                None \<Rightarrow> (False, b)
              | Some d \<Rightarrow> (True, b\<lparr>rbuf := Some d, rlen := 0, roffset := 0\<rparr>)))"

definition bio_make_pair ::
    "alloc \<Rightarrow> bio_addr \<Rightarrow> bio_addr \<Rightarrow> nat \<Rightarrow> nat \<Rightarrow> bio_heap \<Rightarrow> (bool \<times> bio_heap) option" where
  "bio_make_pair A a1 a2 writebuf1_len writebuf2_len s = do {
     bio1 \<leftarrow> bios s a1;
     bio2 \<leftarrow> bios s a2;
     b1 \<leftarrow> pair_of bio1;
     b2 \<leftarrow> pair_of bio2;
     if peer b1 \<noteq> None \<or> peer b2 \<noteq> None then Some (False, s)
     else
       (case ring_alloc A writebuf1_len b1 of
          (False, b1) \<Rightarrow> Some (False, put_pair a1 b1 s)
        | (True, b1) \<Rightarrow>
            (case ring_alloc A writebuf2_len b2 of
               (False, b2) \<Rightarrow> Some (False, put_pair a2 b2 (put_pair a1 b1 s))
             | (True, b2) \<Rightarrow>
                 Some (True,
                   put_bio a2 (bio2\<lparr>init := True,
                       bptr := PairPtr (b2\<lparr>peer := Some a1, wclosed := False, request := 0\<rparr>)\<rparr>)
                     (put_bio a1 (bio1\<lparr>init := True,
                         bptr := PairPtr (b1\<lparr>peer := Some a2, wclosed := False, request := 0\<rparr>)\<rparr>) s))))
   }"

definition bio_ctrl :: "bio_addr \<Rightarrow> int \<Rightarrow> int \<Rightarrow> bio_arg \<Rightarrow> bio_heap \<Rightarrow> (int \<times> bio_heap) option" where
  "bio_ctrl a cmd num arg s = do {
     bio \<leftarrow> bios s a;
     b \<leftarrow> pair_of bio;
     if cmd = BIO_C_GET_WRITE_BUF_SIZE then Some (long_of_size (rsize b), s)
     else if cmd = BIO_C_GET_WRITE_GUARANTEE
     then Some (if peer b = None \<or> wclosed b then 0
                else sint (of_nat (rsize b) - of_nat (rlen b) :: 64 word), s)
     else if cmd = BIO_C_GET_READ_REQUEST then Some (long_of_size (request b), s)
     else if cmd = BIO_C_RESET_READ_REQUEST then Some (1, put_pair a (b\<lparr>request := 0\<rparr>) s)
     else if cmd = BIO_C_SHUTDOWN_WR then Some (1, put_pair a (b\<lparr>wclosed := True\<rparr>) s)
     else if cmd = BIO_CTRL_GET_CLOSE then Some (shutdown bio, s)
     else if cmd = BIO_CTRL_SET_CLOSE
     then Some (1, put_bio a (bio\<lparr>shutdown := sint (of_int num :: 32 word)\<rparr>) s)
     else if cmd = BIO_CTRL_PENDING then
       (case peer b of
          None \<Rightarrow> Some (0, s)
        | Some p \<Rightarrow> do {
            peer_bio \<leftarrow> bios s p;
            peer_b \<leftarrow> pair_of peer_bio;
            Some (long_of_size (rlen peer_b), s)
          })
     else if cmd = BIO_CTRL_WPENDING
     then Some (if rbuf b \<noteq> None then long_of_size (rlen b) else 0, s)
     else if cmd = BIO_CTRL_FLUSH then Some (1, s)
     else if cmd = BIO_CTRL_EOF then
       (case arg of
          BioArg other \<Rightarrow> do {
            other_bio \<leftarrow> bios s other;
            other_b \<leftarrow> pair_of other_bio;
            Some (if rlen other_b = 0 \<and> wclosed other_b then 1 else 0, s)
          }
        | _ \<Rightarrow> Some (1, s))
     else Some (0, s)
   }"

end
