(* ===== verification/Refcount.thy ===== *)
theory Refcount
  imports Prelude
begin

text \<open>
  The saturating reference counts of BoringSSL. \<open>refcount_lock.c\<close> updates the count under a lock;
  \<open>refcount_c11.c\<close> retries a compare-and-swap. The lock-free functions are modelled twice: as what
  one call does to the count when no other thread interferes, and as a step relation in which any
  number of threads interleave their loads and swaps. Every interleaving has the effect of a sequence
  of calls of the locked functions.
\<close>

section \<open>Single calls\<close>

abbreviation (input) CRYPTO_REFCOUNT_MAX :: u32 where "CRYPTO_REFCOUNT_MAX \<equiv> 0xFFFFFFFF"

definition CRYPTO_refcount_inc :: "u32 \<Rightarrow> u32" where
  "CRYPTO_refcount_inc count = (if count \<noteq> CRYPTO_REFCOUNT_MAX then count + 1 else count)"

text \<open>\<open>None\<close> is the call of \<open>abort\<close>.\<close>

definition CRYPTO_refcount_dec_and_test_zero :: "u32 \<Rightarrow> (bool \<times> u32) option" where
  "CRYPTO_refcount_dec_and_test_zero count =
     (if count = 0 then None
      else if count = CRYPTO_REFCOUNT_MAX then Some (False, count)
      else Some (count - 1 = 0, count - 1))"

text \<open>The functions of \<open>refcount_lock.c\<close>.\<close>

definition lock_refcount_inc :: "u32 \<Rightarrow> u32" where
  "lock_refcount_inc count = (if count < CRYPTO_REFCOUNT_MAX then count + 1 else count)"

definition lock_refcount_dec_and_test_zero :: "u32 \<Rightarrow> (bool \<times> u32) option" where
  "lock_refcount_dec_and_test_zero count =
     (if count = 0 then None
      else
        (let count = (if count < CRYPTO_REFCOUNT_MAX then count - 1 else count)
         in Some (count = 0, count)))"

lemma max_u32: "CRYPTO_REFCOUNT_MAX = - 1"
  by simp

lemma less_max_iff: "c < CRYPTO_REFCOUNT_MAX \<longleftrightarrow> c \<noteq> CRYPTO_REFCOUNT_MAX"
  using word_order.not_eq_extremum [of c] by (simp only: max_u32) 

lemma lock_inc_eq: "lock_refcount_inc c = CRYPTO_refcount_inc c"
  by (simp add: lock_refcount_inc_def CRYPTO_refcount_inc_def less_max_iff)

lemma lock_dec_eq: "lock_refcount_dec_and_test_zero c = CRYPTO_refcount_dec_and_test_zero c"
  by (simp add: lock_refcount_dec_and_test_zero_def CRYPTO_refcount_dec_and_test_zero_def less_max_iff Let_def)

section \<open>Interleaved calls\<close>

text \<open>A thread is outside the two functions, or in the loop of one of them with its local variable
  \<open>expected\<close>. The history lists the calls that have returned, with the result of a decrement.\<close>

datatype rc_pc = RcIdle | RcInc u32 | RcDec u32
datatype rc_event = RcInced | RcDeced bool

record rc_sys =
  shared :: u32
  pcs :: "nat \<Rightarrow> rc_pc"
  history :: "rc_event list"
  aborted :: bool

definition rc_init :: "u32 \<Rightarrow> rc_sys" where
  "rc_init n = \<lparr>shared = n, pcs = \<lambda>_. RcIdle, history = [], aborted = False\<rparr>"

abbreviation (input) rc_goto :: "nat \<Rightarrow> rc_pc \<Rightarrow> rc_sys \<Rightarrow> rc_sys" where
  "rc_goto t pc s \<equiv> s\<lparr>pcs := (pcs s)(t := pc)\<rparr>"

abbreviation (input) rc_return :: "nat \<Rightarrow> rc_event \<Rightarrow> rc_sys \<Rightarrow> rc_sys" where
  "rc_return t e s \<equiv> s\<lparr>pcs := (pcs s)(t := RcIdle), history := history s @ [e]\<rparr>"

text \<open>One atomic step. A weak compare-and-swap may fail although the values agree; a failed one loads
  the current count into \<open>expected\<close>.\<close>

inductive rc_step :: "rc_sys \<Rightarrow> rc_sys \<Rightarrow> bool" where
  inc_load: "\<not> aborted s \<Longrightarrow> pcs s t = RcIdle \<Longrightarrow> rc_step s (rc_goto t (RcInc (shared s)) s)"
| inc_saturated: "\<not> aborted s \<Longrightarrow> pcs s t = RcInc CRYPTO_REFCOUNT_MAX \<Longrightarrow> rc_step s (rc_return t RcInced s)"
| inc_swap: "\<not> aborted s \<Longrightarrow> pcs s t = RcInc e \<Longrightarrow> e \<noteq> CRYPTO_REFCOUNT_MAX \<Longrightarrow> shared s = e \<Longrightarrow>
    rc_step s (rc_return t RcInced (s\<lparr>shared := e + 1\<rparr>))"
| inc_retry: "\<not> aborted s \<Longrightarrow> pcs s t = RcInc e \<Longrightarrow> e \<noteq> CRYPTO_REFCOUNT_MAX \<Longrightarrow>
    rc_step s (rc_goto t (RcInc (shared s)) s)"
| dec_load: "\<not> aborted s \<Longrightarrow> pcs s t = RcIdle \<Longrightarrow> rc_step s (rc_goto t (RcDec (shared s)) s)"
| dec_abort: "\<not> aborted s \<Longrightarrow> pcs s t = RcDec 0 \<Longrightarrow> rc_step s (s\<lparr>aborted := True\<rparr>)"
| dec_saturated: "\<not> aborted s \<Longrightarrow> pcs s t = RcDec CRYPTO_REFCOUNT_MAX \<Longrightarrow> rc_step s (rc_return t (RcDeced False) s)"
| dec_swap: "\<not> aborted s \<Longrightarrow> pcs s t = RcDec e \<Longrightarrow> e \<noteq> 0 \<Longrightarrow> e \<noteq> CRYPTO_REFCOUNT_MAX \<Longrightarrow> shared s = e \<Longrightarrow>
    rc_step s (rc_return t (RcDeced (e - 1 = 0)) (s\<lparr>shared := e - 1\<rparr>))"
| dec_retry: "\<not> aborted s \<Longrightarrow> pcs s t = RcDec e \<Longrightarrow> e \<noteq> 0 \<Longrightarrow> e \<noteq> CRYPTO_REFCOUNT_MAX \<Longrightarrow>
    rc_step s (rc_goto t (RcDec (shared s)) s)"

text \<open>The calls of a history, one after the other, on the locked implementation; \<open>None\<close> if a call
  aborts or returns another result.\<close>

fun replay :: "u32 \<Rightarrow> rc_event list \<Rightarrow> u32 option" where
  "replay c [] = Some c"
| "replay c (RcInced # es) = replay (lock_refcount_inc c) es"
| "replay c (RcDeced r # es) =
     (case lock_refcount_dec_and_test_zero c of
        None \<Rightarrow> None
      | Some (r', c') \<Rightarrow> if r' = r then replay c' es else None)"

lemma replay_append: "replay c (es @ fs) = Option.bind (replay c es) (\<lambda>c. replay c fs)"
  by (induction c es rule: replay.induct) (auto split: option.splits)

definition rc_inv :: "u32 \<Rightarrow> rc_sys \<Rightarrow> bool" where
  "rc_inv n s \<longleftrightarrow> replay n (history s) = Some (shared s) \<and>
     (\<forall>t. pcs s t = RcInc CRYPTO_REFCOUNT_MAX \<or> pcs s t = RcDec CRYPTO_REFCOUNT_MAX \<longrightarrow> shared s = CRYPTO_REFCOUNT_MAX)"

lemma rc_inv_step:
  assumes "rc_step s s'" and "rc_inv n s"
  shows "rc_inv n s'"
  using assms
  by (induction rule: rc_step.induct)
    (auto simp: rc_inv_def replay_append lock_inc_eq lock_dec_eq CRYPTO_refcount_inc_def
      CRYPTO_refcount_dec_and_test_zero_def)

lemma rc_inv_init: "rc_inv n (rc_init n)"
  by (simp add: rc_inv_def rc_init_def)

lemma rc_inv_reachable: "rc_step\<^sup>*\<^sup>* (rc_init n) s \<Longrightarrow> rc_inv n s"
  by (induction rule: rtranclp_induct) (auto intro: rc_inv_init rc_inv_step)

section \<open>Counting\<close>

definition incs :: "rc_event list \<Rightarrow> nat" where
  "incs es = length (filter (\<lambda>e. e = RcInced) es)"

definition decs :: "rc_event list \<Rightarrow> nat" where
  "decs es = length (filter (\<lambda>e. e \<noteq> RcInced) es)"

lemma incs_decs_simps [simp]:
  "incs [] = 0" "decs [] = 0"
  "incs (RcInced # es) = Suc (incs es)" "decs (RcInced # es) = decs es"
  "incs (RcDeced r # es) = incs es" "decs (RcDeced r # es) = Suc (decs es)"
  "incs (es @ fs) = incs es + incs fs" "decs (es @ fs) = decs es + decs fs"
  by (simp_all add: incs_def decs_def)

lemma unat_dec: "c \<noteq> 0 \<Longrightarrow> unat (c - 1) = unat c - 1" for c :: u32
  by (simp add: unat_minus_one)

lemma unat_inc: "unat c + k < 4294967295 \<Longrightarrow> unat (c + 1) = Suc (unat c)" for c :: u32
  by (simp add: unat_word_ariths)

text \<open>Below saturation the count is the number of references that were not given back.\<close>

lemma replay_count:
  assumes "replay n es = Some c" and "unat n + incs es < 4294967295"
  shows "unat c + decs es = unat n + incs es"
  using assms
proof (induction n es rule: replay.induct)
  case (2 n es)
  have "n \<noteq> CRYPTO_REFCOUNT_MAX" using 2(3) by auto
  then have l: "lock_refcount_inc n = n + 1" by (simp add: lock_inc_eq CRYPTO_refcount_inc_def)
  have "unat (n + 1) = Suc (unat n)" using 2(3) by (intro unat_inc [of _ 0]) simp
  then show ?case using 2 by (simp add: l)
next
  case (3 n r es)
  have "n \<noteq> CRYPTO_REFCOUNT_MAX" using 3(3) by auto
  moreover from this obtain "n \<noteq> 0" "r = (n - 1 = 0)" "replay (n - 1) es = Some c"
    using 3(2) by (auto simp: lock_dec_eq CRYPTO_refcount_dec_and_test_zero_def split: if_splits)
  ultimately show ?case using 3 by (simp add: lock_dec_eq CRYPTO_refcount_dec_and_test_zero_def unat_dec unat_gt_0)
qed simp

section \<open>Properties\<close>

text \<open>Two holders that give their references back at the same time: the swap of the second one fails
  at first.\<close>

definition ex_race :: rc_sys where
  "ex_race = \<lparr>shared = 0, pcs = (\<lambda>_. RcIdle)(0 := RcIdle, 1 := RcIdle), history = [RcDeced False, RcDeced True], aborted = False\<rparr>"

lemma ex_race_reachable: "rc_step\<^sup>*\<^sup>* (rc_init 2) ex_race"
proof -
  define mk where "mk c p q h = \<lparr>shared = c, pcs = (\<lambda>_. RcIdle)(0 := p, 1 := q), history = h, aborted = False\<rparr>"
    for c p q and h :: "rc_event list"
  have init: "rc_init 2 = mk 2 RcIdle RcIdle []" by (simp add: rc_init_def mk_def fun_eq_iff)
  have "rc_step (mk 2 RcIdle RcIdle []) (mk 2 (RcDec 2) RcIdle [])"
    using rc_step.dec_load [of "mk 2 RcIdle RcIdle []" 0] by (simp add: mk_def fun_upd_twist)
  moreover have "rc_step (mk 2 (RcDec 2) RcIdle []) (mk 2 (RcDec 2) (RcDec 2) [])"
    using rc_step.dec_load [of "mk 2 (RcDec 2) RcIdle []" 1] by (simp add: mk_def)
  moreover have "rc_step (mk 2 (RcDec 2) (RcDec 2) []) (mk 1 RcIdle (RcDec 2) [RcDeced False])"
    using rc_step.dec_swap [of "mk 2 (RcDec 2) (RcDec 2) []" 0 2] by (simp add: mk_def fun_upd_twist)
  moreover have "rc_step (mk 1 RcIdle (RcDec 2) [RcDeced False]) (mk 1 RcIdle (RcDec 1) [RcDeced False])"
    using rc_step.dec_retry [of "mk 1 RcIdle (RcDec 2) [RcDeced False]" 1 2] by (simp add: mk_def)
  moreover have "rc_step (mk 1 RcIdle (RcDec 1) [RcDeced False]) ex_race"
    using rc_step.dec_swap [of "mk 1 RcIdle (RcDec 1) [RcDeced False]" 1 1] by (simp add: mk_def ex_race_def)
  ultimately show ?thesis unfolding init by (meson converse_rtranclp_into_rtranclp rtranclp.rtrancl_refl)
qed

text \<open>C11. The lock-free reference counts of \<open>refcount_c11.c\<close> are linearizable: in every state that any
  interleaving of the threads' loads and swaps reaches, spurious failures included, the count and the
  results of the calls that have returned are those of a sequence of calls of the locked
  implementation in \<open>refcount_lock.c\<close>, in the order in which they took effect.\<close>

theorem refcount_linearizable:
  assumes "rc_step\<^sup>*\<^sup>* (rc_init n) s"
  shows "replay n (history s) = Some (shared s)"
  using rc_inv_reachable [OF assms] by (simp add: rc_inv_def)

lemma refcount_linearizable_witness: "replay 2 [RcDeced False, RcDeced True] = Some 0"
  using refcount_linearizable [OF ex_race_reachable] by (simp add: ex_race_def)

text \<open>Exactly the last holder is told to release the object: as long as the count does not
  saturate, it is the number of references not given back, and \<open>CRYPTO_refcount_dec_and_test_zero\<close>
  returns 1 to the thread whose decrement gives back the last one and to no other, whatever the
  interleaving.\<close>

theorem refcount_last_holder:
  assumes "rc_step\<^sup>*\<^sup>* (rc_init n) s" and "unat n + incs (history s) < 4294967295"
  shows "unat (shared s) + decs (history s) = unat n + incs (history s)
    \<and> (\<forall>es r fs. history s = es @ RcDeced r # fs \<longrightarrow> r = (unat n + incs es = decs es + 1))"
proof (intro conjI allI impI)
  have inv: "replay n (history s) = Some (shared s)" using rc_inv_reachable [OF assms(1)] by (simp add: rc_inv_def)
  show "unat (shared s) + decs (history s) = unat n + incs (history s)" using replay_count [OF inv assms(2)] .
  fix es r fs
  assume h: "history s = es @ RcDeced r # fs"
  then obtain c where c: "replay n es = Some c" "replay c (RcDeced r # fs) = Some (shared s)"
    using inv by (auto simp: replay_append bind_eq_Some_conv)
  then have u: "unat c + decs es = unat n + incs es" using assms(2) h by (intro replay_count) simp_all
  then have "c \<noteq> CRYPTO_REFCOUNT_MAX" using assms(2) h by auto
  then have "c \<noteq> 0" "r = (c - 1 = 0)"
    using c(2) by (auto simp: lock_dec_eq CRYPTO_refcount_dec_and_test_zero_def split: if_splits)
  then have "r = (unat c = 1)" by (simp add: word_unat_eq_iff [of c 1])
  then show "r = (unat n + incs es = decs es + 1)" using u by auto
qed

lemma refcount_last_holder_witness:
  "unat (shared ex_race) + 2 = 2 \<and> True = (2 + incs [RcDeced False] = decs [RcDeced False] + 1)"
proof -
  have h: "history ex_race = [RcDeced False] @ RcDeced True # []" by (simp add: ex_race_def)
  show ?thesis using refcount_last_holder [OF ex_race_reachable] h by (fastforce simp: ex_race_def)
qed

end
