(* ===== verification/Bio_Core.thy ===== *)
theory Bio_Core
  imports Bio Refcount
begin

text \<open>
  The functions of \<open>crypto/bio/bio.c\<close> that dispatch to the methods, count what is transferred and
  manage reference counts and chains, and the constructors and accessors of memory BIOs and pairs.
  A call of a method that a BIO does not have is the result -2, as in the code.
\<close>

section \<open>Creation and release\<close>

definition bio_create :: "BIO_METHOD \<Rightarrow> alloc \<Rightarrow> bio_st \<Rightarrow> bio_st option" where
  "bio_create m = (case m of mem_method \<Rightarrow> mem_new | methods_biop \<Rightarrow> bio_new)"

definition bio_destroy :: "BIO_METHOD \<Rightarrow> bio_addr \<Rightarrow> bio_heap \<Rightarrow> bio_heap option" where
  "bio_destroy m a s =
     (case m of
        mem_method \<Rightarrow> do { b \<leftarrow> bios s a; Some (put_bio a (mem_free b) s) }
      | methods_biop \<Rightarrow> bio_free a s)"

text \<open>\<open>BIO_new\<close>: a \<open>BIO\<close> has 64 bytes.\<close>

definition BIO_new :: "alloc \<Rightarrow> BIO_METHOD \<Rightarrow> bio_heap \<Rightarrow> bio_addr option \<times> bio_heap" where
  "BIO_new A m s =
     (if A 64 = None then (None, s)
      else
        (case bio_create m A \<lparr>bmethod = m, init = False, shutdown = 1, flags = 0, retry_reason = 0, bio_num = 0,
                references = 1, bptr = NullPtr, next_bio = None, num_read = 0, num_write = 0\<rparr> of
           None \<Rightarrow> (None, s)
         | Some b \<Rightarrow> (Some (fresh s), put_bio (fresh s) b (s\<lparr>fresh := fresh s + 1\<rparr>))))"

definition BIO_pop :: "bio_addr option \<Rightarrow> bio_heap \<Rightarrow> (bio_addr option \<times> bio_heap) option" where
  "BIO_pop bio s =
     (case bio of
        None \<Rightarrow> Some (None, s)
      | Some a \<Rightarrow> do { b \<leftarrow> bios s a; Some (next_bio b, put_bio a (b\<lparr>next_bio := None\<rparr>) s) })"

partial_function (option) BIO_free :: "bio_addr option \<Rightarrow> bio_heap \<Rightarrow> (int \<times> bio_heap) option" where
  "BIO_free bio s =
     (case bio of
        None \<Rightarrow> Some (1, s)
      | Some a \<Rightarrow>
          Option.bind (bios s a) (\<lambda>b.
          Option.bind (CRYPTO_refcount_dec_and_test_zero (references b)) (\<lambda>(zero, count).
            let s = put_bio a (b\<lparr>references := count\<rparr>) s
            in if \<not> zero then Some (0, s)
               else
                 Option.bind (BIO_pop bio s) (\<lambda>(next, s).
                 Option.bind (bio_destroy (bmethod b) a s) (\<lambda>s.
                   BIO_free next (s\<lparr>bios := (bios s)(a := None)\<rparr>))))))"

definition BIO_up_ref :: "bio_addr \<Rightarrow> bio_heap \<Rightarrow> (int \<times> bio_heap) option" where
  "BIO_up_ref a s = do {
     b \<leftarrow> bios s a;
     Some (1, put_bio a (b\<lparr>references := CRYPTO_refcount_inc (references b)\<rparr>) s)
   }"

definition BIO_vfree :: "bio_addr option \<Rightarrow> bio_heap \<Rightarrow> bio_heap option" where
  "BIO_vfree bio s = map_option snd (BIO_free bio s)"

definition BIO_free_all :: "bio_addr option \<Rightarrow> bio_heap \<Rightarrow> bio_heap option" where
  "BIO_free_all bio s = map_option snd (BIO_free bio s)"

section \<open>Reading and writing\<close>

definition bio_bread :: "BIO_METHOD \<Rightarrow> bio_addr \<Rightarrow> int \<Rightarrow> bio_heap \<Rightarrow> (int \<times> bytes \<times> bio_heap) option" where
  "bio_bread m a len s =
     (case m of
        mem_method \<Rightarrow> do {
          b \<leftarrow> bios s a;
          (r, out, b) \<leftarrow> mem_read len b;
          Some (r, out, put_bio a b s)
        }
      | methods_biop \<Rightarrow> bio_read a (nat len) s)"

definition bio_bwrite ::
    "BIO_METHOD \<Rightarrow> alloc \<Rightarrow> bio_addr \<Rightarrow> bytes \<Rightarrow> int \<Rightarrow> bio_heap \<Rightarrow> (int \<times> bio_heap) option" where
  "bio_bwrite m A a d inl s =
     (case m of
        mem_method \<Rightarrow> do {
          b \<leftarrow> bios s a;
          (r, b) \<leftarrow> mem_bio_write A d inl b;
          Some (r, put_bio a b s)
        }
      | methods_biop \<Rightarrow> bio_write a (take (nat inl) d) s)"

text \<open>\<open>num_read += ret\<close> and \<open>num_write += ret\<close>.\<close>

definition count_read :: "bio_addr \<Rightarrow> int \<Rightarrow> bio_heap \<Rightarrow> bio_heap" where
  "count_read a r s =
     (case bios s a of
        None \<Rightarrow> s
      | Some b \<Rightarrow> if r > 0 then put_bio a (b\<lparr>num_read := size_add (num_read b) (nat r)\<rparr>) s else s)"

definition count_write :: "bio_addr \<Rightarrow> int \<Rightarrow> bio_heap \<Rightarrow> bio_heap" where
  "count_write a r s =
     (case bios s a of
        None \<Rightarrow> s
      | Some b \<Rightarrow> if r > 0 then put_bio a (b\<lparr>num_write := size_add (num_write b) (nat r)\<rparr>) s else s)"

definition BIO_read :: "bio_addr option \<Rightarrow> int \<Rightarrow> bio_heap \<Rightarrow> (int \<times> bytes \<times> bio_heap) option" where
  "BIO_read bio len s =
     (case bio of
        None \<Rightarrow> Some (-2, [], s)
      | Some a \<Rightarrow> do {
          b \<leftarrow> bios s a;
          if \<not> init b then Some (-2, [], s)
          else if len \<le> 0 then Some (0, [], s)
          else do {
            (r, out, s) \<leftarrow> bio_bread (bmethod b) a len s;
            Some (r, out, count_read a r s)
          }
        })"

definition BIO_gets :: "bio_addr option \<Rightarrow> int \<Rightarrow> bio_heap \<Rightarrow> (int \<times> bytes \<times> bio_heap) option" where
  "BIO_gets bio len s =
     (case bio of
        None \<Rightarrow> Some (-2, [], s)
      | Some a \<Rightarrow> do {
          b \<leftarrow> bios s a;
          if bmethod b = methods_biop \<or> \<not> init b then Some (-2, [], s)
          else if len \<le> 0 then Some (0, [], s)
          else do {
            (r, out, b) \<leftarrow> mem_gets len b;
            Some (r, out, count_read a r (put_bio a b s))
          }
        })"

definition BIO_write :: "alloc \<Rightarrow> bio_addr option \<Rightarrow> bytes \<Rightarrow> int \<Rightarrow> bio_heap \<Rightarrow> (int \<times> bio_heap) option" where
  "BIO_write A bio d inl s =
     (case bio of
        None \<Rightarrow> Some (-2, s)
      | Some a \<Rightarrow> do {
          b \<leftarrow> bios s a;
          if \<not> init b then Some (-2, s)
          else if inl \<le> 0 then Some (0, s)
          else do {
            (r, s) \<leftarrow> bio_bwrite (bmethod b) A a d inl s;
            Some (r, count_write a r s)
          }
        })"

text \<open>\<open>BIO_puts\<close> of a string, given without its terminating zero.\<close>

definition BIO_puts :: "alloc \<Rightarrow> bio_addr option \<Rightarrow> bytes \<Rightarrow> bio_heap \<Rightarrow> (int \<times> bio_heap) option" where
  "BIO_puts A bio str s = BIO_write A bio str (int_of_size (length str)) s"

section \<open>Control\<close>

definition BIO_ctrl ::
    "bio_addr option \<Rightarrow> int \<Rightarrow> int \<Rightarrow> bio_arg \<Rightarrow> bio_heap \<Rightarrow> (int \<times> bio_out \<times> bio_heap) option" where
  "BIO_ctrl bio cmd larg parg s =
     (case bio of
        None \<Rightarrow> Some (0, NoOut, s)
      | Some a \<Rightarrow> do {
          b \<leftarrow> bios s a;
          case bmethod b of
            mem_method \<Rightarrow> do { (r, out, b) \<leftarrow> mem_ctrl cmd larg parg b; Some (r, out, put_bio a b s) }
          | methods_biop \<Rightarrow> do { (r, s) \<leftarrow> bio_ctrl a cmd larg parg s; Some (r, NoOut, s) }
        })"

definition BIO_flush :: "bio_addr option \<Rightarrow> bio_heap \<Rightarrow> (int \<times> bio_out \<times> bio_heap) option" where
  "BIO_flush bio = BIO_ctrl bio BIO_CTRL_FLUSH 0 NullArg"

definition BIO_reset :: "bio_addr option \<Rightarrow> bio_heap \<Rightarrow> (int \<times> bio_out \<times> bio_heap) option" where
  "BIO_reset bio = BIO_ctrl bio BIO_CTRL_RESET 0 NullArg"

definition BIO_eof :: "bio_addr option \<Rightarrow> bio_heap \<Rightarrow> (int \<times> bio_out \<times> bio_heap) option" where
  "BIO_eof bio = BIO_ctrl bio BIO_CTRL_EOF 0 NullArg"

definition BIO_set_close :: "bio_addr option \<Rightarrow> int \<Rightarrow> bio_heap \<Rightarrow> (int \<times> bio_out \<times> bio_heap) option" where
  "BIO_set_close bio close_flag = BIO_ctrl bio BIO_CTRL_SET_CLOSE close_flag NullArg"

text \<open>\<open>BIO_pending\<close> and \<open>BIO_wpending\<close> assert that the answer is not negative.\<close>

definition BIO_pending :: "bio_addr option \<Rightarrow> bio_heap \<Rightarrow> nat option" where
  "BIO_pending bio s = do {
     (r, _, _) \<leftarrow> BIO_ctrl bio BIO_CTRL_PENDING 0 NullArg s;
     if r < 0 then None else Some (nat r)
   }"

definition BIO_ctrl_pending :: "bio_addr option \<Rightarrow> bio_heap \<Rightarrow> nat option" where
  "BIO_ctrl_pending = BIO_pending"

definition BIO_wpending :: "bio_addr option \<Rightarrow> bio_heap \<Rightarrow> nat option" where
  "BIO_wpending bio s = do {
     (r, _, _) \<leftarrow> BIO_ctrl bio BIO_CTRL_WPENDING 0 NullArg s;
     if r < 0 then None else Some (nat r)
   }"

definition BIO_number_read :: "bio_addr \<Rightarrow> bio_heap \<Rightarrow> nat option" where
  "BIO_number_read a s = map_option num_read (bios s a)"

definition BIO_number_written :: "bio_addr \<Rightarrow> bio_heap \<Rightarrow> nat option" where
  "BIO_number_written a s = map_option num_write (bios s a)"

definition BIO_get_new_index :: "bio_heap \<Rightarrow> int \<times> bio_heap" where
  "BIO_get_new_index s =
     (if g_index s > 255 then (-1, s) else (g_index s, s\<lparr>g_index := g_index s + 1\<rparr>))"

section \<open>Chains\<close>

text \<open>The loop of \<open>BIO_push\<close>: the last BIO of the chain from \<open>a\<close> on.\<close>

partial_function (option) last_bio :: "bio_addr \<Rightarrow> bio_heap \<Rightarrow> bio_addr option" where
  "last_bio a s =
     Option.bind (bios s a) (\<lambda>b.
       case next_bio b of None \<Rightarrow> Some a | Some n \<Rightarrow> last_bio n s)"

definition BIO_push ::
    "bio_addr option \<Rightarrow> bio_addr option \<Rightarrow> bio_heap \<Rightarrow> (bio_addr option \<times> bio_heap) option" where
  "BIO_push bio appended_bio s =
     (case bio of
        None \<Rightarrow> Some (None, s)
      | Some a \<Rightarrow> do {
          l \<leftarrow> last_bio a s;
          b \<leftarrow> bios s l;
          Some (bio, put_bio l (b\<lparr>next_bio := appended_bio\<rparr>) s)
        })"

definition BIO_next :: "bio_addr option \<Rightarrow> bio_heap \<Rightarrow> bio_addr option option" where
  "BIO_next bio s = (case bio of None \<Rightarrow> Some None | Some a \<Rightarrow> map_option next_bio (bios s a))"

definition BIO_method_type :: "bio_st \<Rightarrow> u32" where
  "BIO_method_type b = (case bmethod b of mem_method \<Rightarrow> 0x401 | methods_biop \<Rightarrow> 0x413)"

text \<open>The loop of \<open>BIO_find_type\<close>; the outer \<open>None\<close> is a search that does not end.\<close>

partial_function (option) find_type_loop :: "u32 \<Rightarrow> bio_addr \<Rightarrow> bio_heap \<Rightarrow> bio_addr option option" where
  "find_type_loop typ a s =
     Option.bind (bios s a) (\<lambda>b.
       if (if typ AND 0xff = 0 then BIO_method_type b AND typ \<noteq> 0 else BIO_method_type b = typ)
       then Some (Some a)
       else (case next_bio b of None \<Rightarrow> Some None | Some n \<Rightarrow> find_type_loop typ n s))"

definition BIO_find_type :: "bio_addr option \<Rightarrow> u32 \<Rightarrow> bio_heap \<Rightarrow> bio_addr option option" where
  "BIO_find_type bio typ s = (case bio of None \<Rightarrow> Some None | Some a \<Rightarrow> find_type_loop typ a s)"

section \<open>Derived operations\<close>

text \<open>The loop of \<open>BIO_indent\<close>.\<close>

fun indent_loop :: "alloc \<Rightarrow> bio_addr option \<Rightarrow> nat \<Rightarrow> bio_heap \<Rightarrow> (int \<times> bio_heap) option" where
  "indent_loop A bio 0 s = Some (1, s)"
| "indent_loop A bio (Suc n) s =
     (case BIO_puts A bio [32] s of
        None \<Rightarrow> None
      | Some (r, s) \<Rightarrow> if r \<noteq> 1 then Some (0, s) else indent_loop A bio n s)"

definition BIO_indent :: "alloc \<Rightarrow> bio_addr option \<Rightarrow> nat \<Rightarrow> nat \<Rightarrow> bio_heap \<Rightarrow> (int \<times> bio_heap) option" where
  "BIO_indent A bio indent max_indent s = indent_loop A bio (if indent > max_indent then max_indent else indent) s"

text \<open>The loop of \<open>bio_read_all\<close> with the buffer \<open>out\<close> of \<open>len\<close> bytes, of which \<open>got\<close> are read: the
  contents on success. \<open>done += n\<close> is arithmetic on \<open>size_t\<close>, also where \<open>n\<close> is negative; a copy
  beyond the buffer is \<open>None\<close>.\<close>

partial_function (option) bio_read_all_loop ::
    "alloc \<Rightarrow> bio_addr option \<Rightarrow> nat \<Rightarrow> bytes \<Rightarrow> nat \<Rightarrow> bio_heap \<Rightarrow> (bytes option \<times> bio_heap) option" where
  "bio_read_all_loop A bio max_len out got s =
     (let len = length out
      in if got = len then Some (None, s)
         else
           (let todo = (len + 2 ^ 64 - got) mod 2 ^ 64
            in if \<not> todo < 2147483647 then None
               else
                 Option.bind (BIO_read bio (int_of_size todo) s) (\<lambda>(n, d, s).
                   if n = 0 then Some (Some (take got out), s)
                   else if n = -1 then Some (None, s)
                   else if d \<noteq> [] \<and> \<not> got + length d \<le> len then None
                   else
                     (let out = mem_write out got d;
                          got = nat ((int got + n) mod 2 ^ 64)
                      in if len < max_len \<and> (len + 2 ^ 64 - got) mod 2 ^ 64 < 4096 div 2 then
                           (let len' = size_add len 4096;
                                len' = (if len' < 4096 \<or> len' > max_len then max_len else len')
                            in case OPENSSL_realloc A out len' of
                                 None \<Rightarrow> Some (None, s)
                               | Some out \<Rightarrow> bio_read_all_loop A bio max_len out got s)
                         else bio_read_all_loop A bio max_len out got s))))"

definition bio_read_all ::
    "alloc \<Rightarrow> bio_addr option \<Rightarrow> bytes \<Rightarrow> nat \<Rightarrow> bio_heap \<Rightarrow> (bytes option \<times> bio_heap) option" where
  "bio_read_all A bio prefix max_len s =
     (let len = size_add (length prefix) 4096;
          len = (if len > max_len then max_len else len)
      in if len < length prefix then Some (None, s)
         else (case OPENSSL_malloc A len of
                 None \<Rightarrow> Some (None, s)
               | Some out \<Rightarrow> bio_read_all_loop A bio max_len (mem_write out 0 prefix) (length prefix) s))"

text \<open>The long form of the length in \<open>BIO_read_asn1\<close>: \<open>None\<close> where the code returns 0.\<close>

definition asn1_len32 :: "bytes \<Rightarrow> nat option" where
  "asn1_len32 d =
     (let len32 = foldl (\<lambda>l b. push_bit 8 l OR ucast b) 0 d :: u32
      in if len32 < 128 then None
         else if drop_bit ((length d - 1) * 8) len32 = 0 then None
         else Some (unat len32))"

text \<open>The end of \<open>BIO_read_asn1\<close>: the body of an element with \<open>len\<close> bytes of contents.\<close>

definition read_asn1_body ::
    "alloc \<Rightarrow> bio_addr option \<Rightarrow> nat \<Rightarrow> bytes \<Rightarrow> nat \<Rightarrow> bio_heap \<Rightarrow> (bytes option \<times> bio_heap) option" where
  "read_asn1_body A bio max_len header len s =
     (if size_add len (length header) < len \<or> size_add len (length header) > max_len \<or> len > 2147483647
      then Some (None, s)
      else
        (let len = size_add len (length header)
         in case OPENSSL_malloc A len of
              None \<Rightarrow> Some (None, s)
            | Some out \<Rightarrow> do {
                (n, d, s) \<leftarrow> BIO_read bio (int_of_size (len - length header)) s;
                if n \<noteq> int_of_size (len - length header) then Some (None, s)
                else Some (Some (mem_write (mem_write out 0 header) (length header) d), s)
              }))"

definition BIO_read_asn1 ::
    "alloc \<Rightarrow> bio_addr option \<Rightarrow> nat \<Rightarrow> bio_heap \<Rightarrow> (bytes option \<times> bio_heap) option" where
  "BIO_read_asn1 A bio max_len s = do {
     (n, header, s) \<leftarrow> BIO_read bio 2 s;
     if n \<noteq> 2 then Some (None, s)
     else do {
       let tag = header ! 0;
       let length_byte = header ! 1;
       if tag AND 0x1f = 0x1f then Some (None, s)
       else if length_byte AND 0x80 = 0 then read_asn1_body A bio max_len header (unat length_byte) s
       else do {
         let num_bytes = unat (length_byte AND 0x7f);
         if tag AND 0x20 \<noteq> 0 \<and> num_bytes = 0 then bio_read_all A bio header max_len s
         else if num_bytes = 0 \<or> num_bytes > 4 then Some (None, s)
         else do {
           (n, d, s) \<leftarrow> BIO_read bio (int num_bytes) s;
           if n \<noteq> int num_bytes then Some (None, s)
           else (case asn1_len32 d of
                   None \<Rightarrow> Some (None, s)
                 | Some len \<Rightarrow> read_asn1_body A bio max_len (header @ d) len s)
         }
       }
     }
   }"

section \<open>Memory BIOs\<close>

text \<open>\<open>BIO_new_mem_buf\<close> of the bytes \<open>buf\<close> (\<open>None\<close> for a null pointer); a negative \<open>len\<close> asks for
  \<open>strlen\<close>.\<close>

definition BIO_new_mem_buf :: "alloc \<Rightarrow> bytes option \<Rightarrow> int \<Rightarrow> bio_heap \<Rightarrow> (bio_addr option \<times> bio_heap) option" where
  "BIO_new_mem_buf A buf len s =
     (case buf of
        None \<Rightarrow> if len < 0 then None
                else if len \<noteq> 0 then Some (None, s)
                else
                  (case BIO_new A mem_method s of
                     (None, s) \<Rightarrow> Some (None, s)
                   | (Some a, s) \<Rightarrow> do {
                       b \<leftarrow> bios s a;
                       Some (Some a, put_bio a (b\<lparr>bptr := MemPtr \<lparr>mem_length = 0, mem_data = [], mem_max = 0\<rparr> 0,
                         flags := flags b OR BIO_FLAGS_MEM_RDONLY, bio_num := 0\<rparr>) s)
                     })
      | Some data \<Rightarrow>
          (let sz = (if len < 0 then length (takeWhile (\<lambda>c. c \<noteq> 0) data) else nat len)
           in case BIO_new A mem_method s of
                (None, s) \<Rightarrow> Some (None, s)
              | (Some a, s) \<Rightarrow> do {
                  b \<leftarrow> bios s a;
                  Some (Some a, put_bio a (b\<lparr>bptr := MemPtr \<lparr>mem_length = sz, mem_data = take sz data, mem_max = sz\<rparr> 0,
                    flags := flags b OR BIO_FLAGS_MEM_RDONLY, bio_num := 0\<rparr>) s)
                }))"

text \<open>\<open>BIO_mem_contents\<close>: \<open>None\<close> in the result for a BIO of another type.\<close>

definition BIO_mem_contents :: "bio_addr \<Rightarrow> bio_heap \<Rightarrow> bytes option option" where
  "BIO_mem_contents a s = do {
     b \<leftarrow> bios s a;
     if bmethod b \<noteq> mem_method then Some None
     else do { (m, off) \<leftarrow> mem_of b; Some (Some (take (mem_length m) (drop off (mem_data m)))) }
   }"

definition BIO_get_mem_data :: "bio_addr option \<Rightarrow> bio_heap \<Rightarrow> (int \<times> bio_out \<times> bio_heap) option" where
  "BIO_get_mem_data bio = BIO_ctrl bio BIO_CTRL_INFO 0 OutArg"

definition BIO_get_mem_ptr :: "bio_addr option \<Rightarrow> bio_heap \<Rightarrow> (int \<times> bio_out \<times> bio_heap) option" where
  "BIO_get_mem_ptr bio = BIO_ctrl bio BIO_C_GET_BUF_MEM_PTR 0 OutArg"

definition BIO_set_mem_buf ::
    "bio_addr option \<Rightarrow> BUF_MEM \<Rightarrow> int \<Rightarrow> bio_heap \<Rightarrow> (int \<times> bio_out \<times> bio_heap) option" where
  "BIO_set_mem_buf bio b take_ownership = BIO_ctrl bio BIO_C_SET_BUF_MEM take_ownership (MemArg b)"

definition BIO_set_mem_eof_return :: "bio_addr option \<Rightarrow> int \<Rightarrow> bio_heap \<Rightarrow> (int \<times> bio_out \<times> bio_heap) option" where
  "BIO_set_mem_eof_return bio eof_value = BIO_ctrl bio BIO_C_SET_BUF_MEM_EOF_RETURN eof_value NullArg"

section \<open>BIO pairs\<close>

definition BIO_new_bio_pair ::
    "alloc \<Rightarrow> nat \<Rightarrow> nat \<Rightarrow> bio_heap \<Rightarrow> ((bio_addr \<times> bio_addr) option \<times> bio_heap) option" where
  "BIO_new_bio_pair A writebuf1_len writebuf2_len s =
     (case BIO_new A methods_biop s of
        (bio1, s) \<Rightarrow>
          (case BIO_new A methods_biop s of
             (bio2, s) \<Rightarrow>
               (let give_up = (\<lambda>s. do { (_, s) \<leftarrow> BIO_free bio1 s; (_, s) \<leftarrow> BIO_free bio2 s; Some (None, s) })
                in case (bio1, bio2) of
                     (Some a1, Some a2) \<Rightarrow> do {
                       (ok, s) \<leftarrow> bio_make_pair A a1 a2 writebuf1_len writebuf2_len s;
                       if ok then Some (Some (a1, a2), s) else give_up s
                     }
                   | _ \<Rightarrow> give_up s)))"

definition BIO_ctrl_get_read_request :: "bio_addr option \<Rightarrow> bio_heap \<Rightarrow> (int \<times> bio_out \<times> bio_heap) option" where
  "BIO_ctrl_get_read_request bio = BIO_ctrl bio BIO_C_GET_READ_REQUEST 0 NullArg"

definition BIO_ctrl_get_write_guarantee :: "bio_addr option \<Rightarrow> bio_heap \<Rightarrow> (int \<times> bio_out \<times> bio_heap) option" where
  "BIO_ctrl_get_write_guarantee bio = BIO_ctrl bio BIO_C_GET_WRITE_GUARANTEE 0 NullArg"

definition BIO_shutdown_wr :: "bio_addr option \<Rightarrow> bio_heap \<Rightarrow> (int \<times> bio_out \<times> bio_heap) option" where
  "BIO_shutdown_wr bio = BIO_ctrl bio BIO_C_SHUTDOWN_WR 0 NullArg"

end
