(* ===== verification/Bio_Ring.thy ===== *)
theory Bio_Ring
  imports Bio_Core
begin

text \<open>
  The ring buffer of a BIO pair as a bounded queue of bytes: the invariant, the contents in reading
  order, and what the two copying loops do to them. \<open>ring_contents\<close> reads from \<open>roffset\<close> to the end
  of the buffer and on from its start.
\<close>

definition ring_ok :: "bio_bio_st \<Rightarrow> bool" where
  "ring_ok b \<longleftrightarrow> (\<exists>d. rbuf b = Some d \<and> length d = rsize b) \<and> rlen b \<le> rsize b
     \<and> roffset b \<le> rsize b - (if rsize b = 0 then 0 else 1) \<and> rsize b < 2 ^ 63"

definition ring_contents :: "bio_bio_st \<Rightarrow> bytes" where
  "ring_contents b = take (rlen b) (drop (roffset b) (the (rbuf b)) @ the (rbuf b))"

text \<open>What the loops leave alone.\<close>

definition ring_same :: "bio_bio_st \<Rightarrow> bio_bio_st \<Rightarrow> bool" where
  "ring_same b b' \<longleftrightarrow> peer b' = peer b \<and> wclosed b' = wclosed b \<and> rsize b' = rsize b \<and> request b' = request b"

lemma ring_ok_simps:
  assumes "ring_ok b"
  obtains d where "rbuf b = Some d" "length d = rsize b" "rlen b \<le> rsize b" "rsize b < 2 ^ 63"
    "0 < rsize b \<Longrightarrow> roffset b < rsize b" "rsize b = 0 \<Longrightarrow> roffset b = 0"
  using assms by (auto simp: ring_ok_def split: if_splits)

lemma length_ring_contents [simp]: "ring_ok b \<Longrightarrow> length (ring_contents b) = rlen b"
  by (auto simp: ring_contents_def elim!: ring_ok_simps)

lemma ring_same_trans: "ring_same a b \<Longrightarrow> ring_same b c \<Longrightarrow> ring_same a c"
  by (simp add: ring_same_def)

section \<open>Reading\<close>

lemma ring_read_contents:
  assumes "length d = n" and "off + c \<le> n" and "c \<le> len"
  shows "take c (drop off d) = take c (take len (drop off d @ d))"
    and "off + c < n \<Longrightarrow> take (len - c) (drop (off + c) d @ d) = drop c (take len (drop off d @ d))"
    and "off + c = n \<Longrightarrow> take (len - c) d = drop c (take len (drop off d @ d))"
proof -
  have l: "c \<le> length (drop off d)" using assms(1,2) by simp
  then show "take c (drop off d) = take c (take len (drop off d @ d))"
    using assms(3) by (metis append_Nil2 diff_is_0_eq take0 take_append take_take min_absorb1)
  have dr: "drop c (drop off d @ d) = drop (off + c) d @ d"
    using l by (simp add: add.commute)
  then show "take (len - c) (drop (off + c) d @ d) = drop c (take len (drop off d @ d))"
    by (simp only: drop_take)
  show "take (len - c) d = drop c (take len (drop off d @ d))" if "off + c = n"
  proof -
    have "drop (off + c) d @ d = d" using that assms(1) by simp
    then show ?thesis by (simp only: drop_take dr)
  qed
qed

text \<open>One step of the reading loop: \<open>c\<close> bytes are taken from the front of the queue.\<close>

definition ring_advance :: "nat \<Rightarrow> bio_bio_st \<Rightarrow> bio_bio_st" where
  "ring_advance c b =
     b\<lparr>rlen := rlen b - c,
       roffset := (if rlen b - c = 0 then 0 else if roffset b + c = rsize b then 0 else roffset b + c)\<rparr>"

lemma ring_advance_ok:
  assumes "ring_ok b" and "0 < rsize b" and "c \<le> rlen b" and "roffset b + c \<le> rsize b"
  shows "ring_ok (ring_advance c b)" and "ring_same b (ring_advance c b)"
    and "ring_contents (ring_advance c b) = drop c (ring_contents b)"
    and "rlen (ring_advance c b) = rlen b - c"
proof -
  obtain d where d: "rbuf b = Some d" "length d = rsize b" "rlen b \<le> rsize b" "rsize b < 2 ^ 63"
    using assms(1) by (auto elim: ring_ok_simps)
  show "ring_ok (ring_advance c b)"
    using d assms(2,4) by (auto simp: ring_ok_def ring_advance_def)
  show "ring_same b (ring_advance c b)" by (simp add: ring_same_def ring_advance_def)
  show "rlen (ring_advance c b) = rlen b - c" by (simp add: ring_advance_def)
  note R = ring_read_contents(2,3) [OF d(2) assms(4,3)]
  consider "rlen b \<le> c" | "\<not> rlen b \<le> c" "roffset b + c = rsize b" | "\<not> rlen b \<le> c" "roffset b + c < rsize b"
    using assms(4) by linarith
  then show "ring_contents (ring_advance c b) = drop c (ring_contents b)"
  proof cases
    case 1
    then show ?thesis using d by (simp add: ring_contents_def ring_advance_def)
  next
    case 2
    have "take (rlen b - c) (drop 0 d @ d) = take (rlen b - c) d" using d(2,3) by simp
    with 2 R(2) d(1) show ?thesis by (simp only: ring_contents_def) (simp add: ring_advance_def)
  next
    case 3
    then show ?thesis using R(1) d(1) by (simp add: ring_contents_def ring_advance_def)
  qed
qed

lemma bio_read_loop_step:
  assumes "ring_ok b" and "rest \<le> rlen b" and "0 < rest"
  defines "c \<equiv> if roffset b + rest \<le> rsize b then rest else rsize b - roffset b"
  shows "bio_read_loop b rest =
     (if c < rest
      then Option.bind (bio_read_loop (ring_advance c b) (rest - c)) (\<lambda>(out, b'). Some (take c (ring_contents b) @ out, b'))
      else Some (take c (ring_contents b), ring_advance c b))"
    and "0 < c" and "c \<le> rest" and "roffset b + c \<le> rsize b"
proof -
  obtain d where d: "rbuf b = Some d" "length d = rsize b" "rlen b \<le> rsize b" "rsize b < 2 ^ 63"
    and off: "roffset b < rsize b"
    using assms(1-3) by (auto elim: ring_ok_simps)
  show c: "0 < c" "c \<le> rest" "roffset b + c \<le> rsize b"
    using assms(2,3) off d by (auto simp: c_def)
  have add: "size_add (roffset b) rest = roffset b + rest"
    using d off assms(2) by (intro size_add_exact) simp
  have cont: "take c (drop (roffset b) d) = take c (ring_contents b)"
    using ring_read_contents(1) [OF d(2) c(3)] c(2) assms(2) by (simp add: ring_contents_def d(1))
  have chunk: "(if size_add (roffset b) rest \<le> rsize b then rest else rsize b - roffset b) = c"
    by (simp add: add c_def)
  have "\<not> (rlen b - c = 0 \<and> c \<noteq> rest)" using c(2) assms(2) by linarith
  then show "bio_read_loop b rest =
     (if c < rest
      then Option.bind (bio_read_loop (ring_advance c b) (rest - c)) (\<lambda>(out, b'). Some (take c (ring_contents b) @ out, b'))
      else Some (take c (ring_contents b), ring_advance c b))"
    using assms(2) c(2,3)
    by (subst bio_read_loop.simps) (simp only: d(1) option.case Let_def chunk cont, simp add: ring_advance_def)
qed

text \<open>Reading \<open>rest\<close> bytes, which must be there, terminates and takes them from the front.\<close>

lemma bio_read_loop_ok:
  assumes "ring_ok b" and "0 < rest" and "rest \<le> rlen b"
  shows "\<exists>b'. bio_read_loop b rest = Some (take rest (ring_contents b), b') \<and> ring_ok b' \<and> ring_same b b'
    \<and> ring_contents b' = drop rest (ring_contents b)"
  using assms
proof (induction rest arbitrary: b rule: less_induct)
  case (less rest)
  define c where "c = (if roffset b + rest \<le> rsize b then rest else rsize b - roffset b)"
  note S = bio_read_loop_step [OF less.prems(1,3,2), folded c_def]
  have pos: "0 < rsize b" using less.prems by (auto elim: ring_ok_simps)
  have "c \<le> rlen b" using S(3) less.prems(3) by simp
  note A = ring_advance_ok [OF less.prems(1) pos this S(4)]
  show ?case
  proof (cases "c < rest")
    case False
    then have "c = rest" using S(3) by simp
    then show ?thesis using A S(1) by simp
  next
    case True
    have le: "rest - c \<le> rlen b - c" using less.prems(3) by simp
    from True obtain b' where b': "bio_read_loop (ring_advance c b) (rest - c) =
        Some (take (rest - c) (ring_contents (ring_advance c b)), b')"
      "ring_ok b'" "ring_same (ring_advance c b) b'"
      "ring_contents b' = drop (rest - c) (ring_contents (ring_advance c b))"
      using less.IH [of "rest - c" "ring_advance c b"] A less.prems S(2) le by auto
    have "take c (ring_contents b) @ take (rest - c) (drop c (ring_contents b)) = take rest (ring_contents b)"
      using S(3) by (metis le_add_diff_inverse take_add)
    then show ?thesis
      using b' S(1,3) True ring_same_trans [OF A(2) b'(3)] by (simp add: A(3))
  qed
qed

section \<open>Writing\<close>

definition write_pos :: "bio_bio_st \<Rightarrow> nat" where
  "write_pos b = (if roffset b + rlen b \<ge> rsize b then roffset b + rlen b - rsize b else roffset b + rlen b)"

definition ring_put :: "bytes \<Rightarrow> bio_bio_st \<Rightarrow> bio_bio_st" where
  "ring_put x b = b\<lparr>rbuf := Some (mem_write (the (rbuf b)) (write_pos b) x), rlen := rlen b + length x\<rparr>"

lemma ring_write_contents:
  assumes n: "length d = n" and off: "off < n" and fit: "len + length x \<le> n"
    and w: "w = (if off + len \<ge> n then off + len - n else off + len)" and room: "w + length x \<le> n"
  shows "take (len + length x) (drop off (mem_write d w x) @ mem_write d w x) = take len (drop off d @ d) @ x"
proof (cases "off + len \<ge> n")
  case False
  with w have w': "w = off + len" by simp
  have "drop off (mem_write d w x) = take len (drop off d) @ x @ drop (w + length x) d"
    using n False room by (simp add: mem_write_def w' drop_take)
  moreover have "length (take len (drop off d)) = len" using n False by simp
  ultimately show ?thesis using n False by simp
next
  case True
  with w have w': "w = off + len - n" "w + length x \<le> off" using fit by simp_all
  have "drop off (mem_write d w x) = drop off d"
    using n off w'(2) by (simp add: mem_write_def)
  moreover have "take (w + length x) (mem_write d w x) = take w d @ x"
    using n off w'(2) by simp
  moreover have "len + length x - (n - off) = w + length x" "len - (n - off) = w" using True w'(1) off by simp_all
  ultimately show ?thesis using n True off by (simp only: take_append length_drop) simp
qed

lemma ring_put_ok:
  assumes "ring_ok b" and "0 < rsize b" and "rlen b + length x \<le> rsize b" and "write_pos b + length x \<le> rsize b"
  shows "ring_ok (ring_put x b)" and "ring_same b (ring_put x b)"
    and "ring_contents (ring_put x b) = ring_contents b @ x" and "rlen (ring_put x b) = rlen b + length x"
proof -
  obtain d where d: "rbuf b = Some d" "length d = rsize b" "rlen b \<le> rsize b" "rsize b < 2 ^ 63"
    and off: "roffset b < rsize b"
    using assms(1,2) by (auto elim: ring_ok_simps)
  show "ring_ok (ring_put x b)"
    using d off assms(3,4) by (auto simp: ring_ok_def ring_put_def)
  show "ring_same b (ring_put x b)" by (simp add: ring_same_def ring_put_def)
  show "rlen (ring_put x b) = rlen b + length x" by (simp add: ring_put_def)
  show "ring_contents (ring_put x b) = ring_contents b @ x"
    using ring_write_contents [OF d(2) off assms(3) write_pos_def assms(4)]
    by (simp only: ring_contents_def) (simp add: ring_put_def d(1))
qed

lemma bio_write_loop_step:
  assumes "ring_ok b" and "x \<noteq> []" and "rlen b + length x \<le> rsize b"
  defines "c \<equiv> if write_pos b + length x \<le> rsize b then length x else rsize b - write_pos b"
  shows "bio_write_loop b x =
     (if c < length x then bio_write_loop (ring_put (take c x) b) (drop c x) else Some (ring_put (take c x) b))"
    and "0 < c" and "c \<le> length x" and "write_pos b + c \<le> rsize b"
proof -
  obtain d where d: "rbuf b = Some d" "length d = rsize b" "rlen b \<le> rsize b" "rsize b < 2 ^ 63"
    and off: "roffset b < rsize b"
    using assms(1-3) by (auto elim!: ring_ok_simps simp: length_greater_0_conv [symmetric] simp del: length_greater_0_conv)
  have w: "write_pos b < rsize b" using d off by (auto simp: write_pos_def)
  then show c: "0 < c" "c \<le> length x" "write_pos b + c \<le> rsize b"
    using assms(2) by (auto simp: c_def)
  have add: "size_add (write_pos b) (length x) = write_pos b + length x"
    using d w assms(3) by (intro size_add_exact) simp
  have chunk: "(if size_add (write_pos b) (length x) \<le> rsize b then length x else rsize b - write_pos b) = c"
    by (simp add: add c_def)
  show "bio_write_loop b x =
     (if c < length x then bio_write_loop (ring_put (take c x) b) (drop c x) else Some (ring_put (take c x) b))"
    using assms(3) c(2)
    by (subst bio_write_loop.simps)
      (simp only: d(1) option.case Let_def write_pos_def [symmetric] chunk, simp add: ring_put_def d(1))
qed

lemma bio_write_loop_ok:
  assumes "ring_ok b" and "x \<noteq> []" and "rlen b + length x \<le> rsize b"
  shows "\<exists>b'. bio_write_loop b x = Some b' \<and> ring_ok b' \<and> ring_same b b' \<and> ring_contents b' = ring_contents b @ x"
  using assms
proof (induction "length x" arbitrary: b x rule: less_induct)
  case less
  define c where "c = (if write_pos b + length x \<le> rsize b then length x else rsize b - write_pos b)"
  note S = bio_write_loop_step [OF less.prems, folded c_def]
  have pos: "0 < rsize b" using less.prems(2,3) by (cases x) auto
  have l: "length (take c x) = c" using S(3) by simp
  have fits: "rlen b + length (take c x) \<le> rsize b" "write_pos b + length (take c x) \<le> rsize b"
    using S(3,4) less.prems(3) l by simp_all
  note P = ring_put_ok [OF less.prems(1) pos fits]
  show ?case
  proof (cases "c < length x")
    case False
    then have "take c x = x" using S(3) by simp
    then show ?thesis using P S(1) False by simp
  next
    case True
    then have d: "length (drop c x) < length x" "drop c x \<noteq> []" using S(2) by simp_all
    have "rlen (ring_put (take c x) b) + length (drop c x) \<le> rsize (ring_put (take c x) b)"
      using P(4) l less.prems(3) S(3) by (simp add: ring_put_def)
    from less.hyps [OF d(1) P(1) d(2) this] obtain b' where
      "bio_write_loop (ring_put (take c x) b) (drop c x) = Some b'" "ring_ok b'" "ring_same (ring_put (take c x) b) b'"
      "ring_contents b' = (ring_contents b @ take c x) @ drop c x" by (auto simp: P(3))
    then show ?thesis using S(1) True ring_same_trans [OF P(2)] by auto
  qed
qed

end
