(* ===== verification/Bio_Queue.thy ===== *)
theory Bio_Queue
  imports Bio_Ring
begin

text \<open>
  The contract that users of a BIO rely on: a queue of bytes. The locale \<open>byte_queue\<close> states it for
  one direction, \<open>duplex\<close> for two directions over one state; the theorems about any sequence of calls
  are proved there once. Memory BIOs and both directions of a BIO pair meet the contracts.
\<close>

section \<open>Contracts\<close>

locale byte_queue =
  fixes inv :: "'q \<Rightarrow> bool" and pending :: "'q \<Rightarrow> bytes"
    and put :: "bytes \<Rightarrow> 'q \<Rightarrow> (int \<times> 'q) option"
    and get :: "nat \<Rightarrow> 'q \<Rightarrow> (int \<times> bytes \<times> 'q) option"
  assumes put_law: "inv q \<Longrightarrow> length d \<le> 2147483647 \<Longrightarrow>
      \<exists>r q'. put d q = Some (r, q') \<and> inv q' \<and> nat r \<le> length d \<and> pending q' = pending q @ take (nat r) d"
    and get_law: "inv q \<Longrightarrow> n \<le> 2147483647 \<Longrightarrow>
      \<exists>r x q'. get n q = Some (r, x, q') \<and> inv q' \<and> pending q = x @ pending q' \<and> length x = nat r \<and> length x \<le> n
        \<and> (0 < n \<and> pending q \<noteq> [] \<longrightarrow> r = int (min n (length (pending q))))"

datatype queue_op = Put bytes | Get nat

text \<open>The calls of a list of operations: the bytes that were accepted, the bytes that were read and
  the state.\<close>

fun run_queue :: "(bytes \<Rightarrow> 'q \<Rightarrow> (int \<times> 'q) option) \<Rightarrow> (nat \<Rightarrow> 'q \<Rightarrow> (int \<times> bytes \<times> 'q) option) \<Rightarrow>
    queue_op list \<Rightarrow> 'q \<Rightarrow> (bytes \<times> bytes \<times> 'q) option" where
  "run_queue put get [] q = Some ([], [], q)"
| "run_queue put get (Put d # ops) q =
     (case put d q of
        None \<Rightarrow> None
      | Some (r, q) \<Rightarrow>
          (case run_queue put get ops q of
             None \<Rightarrow> None
           | Some (w, g, q) \<Rightarrow> Some (take (nat r) d @ w, g, q)))"
| "run_queue put get (Get n # ops) q =
     (case get n q of
        None \<Rightarrow> None
      | Some (r, x, q) \<Rightarrow>
          (case run_queue put get ops q of
             None \<Rightarrow> None
           | Some (w, g, q) \<Rightarrow> Some (w, x @ g, q)))"

fun int_sized :: "queue_op \<Rightarrow> bool" where
  "int_sized (Put d) = (length d \<le> 2147483647)"
| "int_sized (Get n) = (n \<le> 2147483647)"

context byte_queue
begin

text \<open>First in, first out, and no call gets stuck.\<close>

lemma fifo:
  assumes "inv q" and "\<forall>p \<in> set ops. int_sized p"
  shows "\<exists>w g q'. run_queue put get ops q = Some (w, g, q') \<and> inv q' \<and> pending q @ w = g @ pending q'"
  using assms
proof (induction ops arbitrary: q)
  case (Cons p ops)
  show ?case
  proof (cases p)
    case (Put d)
    with Cons.prems obtain r q1 where 1: "put d q = Some (r, q1)" "inv q1" "pending q1 = pending q @ take (nat r) d"
      using put_law [of q d] by auto
    with Cons.IH [OF 1(2)] Cons.prems Put show ?thesis by auto
  next
    case (Get n)
    with Cons.prems obtain r x q1 where 1: "get n q = Some (r, x, q1)" "inv q1" "pending q = x @ pending q1"
      using get_law [of q n] by auto
    with Cons.IH [OF 1(2)] Cons.prems Get show ?thesis by auto
  qed
qed simp

end

text \<open>Two directions over one state: \<open>putA\<close>/\<open>getB\<close> and \<open>putB\<close>/\<open>getA\<close>.\<close>

locale duplex =
  ab: byte_queue inv pab putA getB + ba: byte_queue inv pba putB getA
  for inv :: "'q \<Rightarrow> bool" and pab pba :: "'q \<Rightarrow> bytes"
    and putA putB :: "bytes \<Rightarrow> 'q \<Rightarrow> (int \<times> 'q) option"
    and getA getB :: "nat \<Rightarrow> 'q \<Rightarrow> (int \<times> bytes \<times> 'q) option" +
  assumes putA_frame: "inv q \<Longrightarrow> length d \<le> 2147483647 \<Longrightarrow> putA d q = Some (r, q') \<Longrightarrow> pba q' = pba q"
    and putB_frame: "inv q \<Longrightarrow> length d \<le> 2147483647 \<Longrightarrow> putB d q = Some (r, q') \<Longrightarrow> pab q' = pab q"
    and getA_frame: "inv q \<Longrightarrow> n \<le> 2147483647 \<Longrightarrow> getA n q = Some (r, x, q') \<Longrightarrow> pab q' = pab q"
    and getB_frame: "inv q \<Longrightarrow> n \<le> 2147483647 \<Longrightarrow> getB n q = Some (r, x, q') \<Longrightarrow> pba q' = pba q"

datatype side = SideA | SideB

text \<open>An interleaving of calls at both ends, with what each end has written and read.\<close>

record 'q duplex_run =
  sentA :: bytes
  sentB :: bytes
  gotA :: bytes
  gotB :: bytes
  final :: 'q

fun run_duplex :: "(side \<Rightarrow> bytes \<Rightarrow> 'q \<Rightarrow> (int \<times> 'q) option) \<Rightarrow>
    (side \<Rightarrow> nat \<Rightarrow> 'q \<Rightarrow> (int \<times> bytes \<times> 'q) option) \<Rightarrow> (side \<times> queue_op) list \<Rightarrow> 'q \<Rightarrow> 'q duplex_run option" where
  "run_duplex put get [] q = Some \<lparr>sentA = [], sentB = [], gotA = [], gotB = [], final = q\<rparr>"
| "run_duplex put get ((i, Put d) # ops) q =
     (case put i d q of
        None \<Rightarrow> None
      | Some (r, q) \<Rightarrow>
          map_option (\<lambda>h. case i of SideA \<Rightarrow> h\<lparr>sentA := take (nat r) d @ sentA h\<rparr>
                                  | SideB \<Rightarrow> h\<lparr>sentB := take (nat r) d @ sentB h\<rparr>) (run_duplex put get ops q))"
| "run_duplex put get ((i, Get n) # ops) q =
     (case get i n q of
        None \<Rightarrow> None
      | Some (r, x, q) \<Rightarrow>
          map_option (\<lambda>h. case i of SideA \<Rightarrow> h\<lparr>gotA := x @ gotA h\<rparr>
                                  | SideB \<Rightarrow> h\<lparr>gotB := x @ gotB h\<rparr>) (run_duplex put get ops q))"

abbreviation (input) by_side :: "'a \<Rightarrow> 'a \<Rightarrow> side \<Rightarrow> 'a" where
  "by_side a b \<equiv> \<lambda>i. case i of SideA \<Rightarrow> a | SideB \<Rightarrow> b"

context duplex
begin

lemma duplex_fifo:
  assumes "inv q" and "\<forall>p \<in> set ops. int_sized (snd p)"
  shows "\<exists>h. run_duplex (by_side putA putB) (by_side getA getB) ops q = Some h \<and> inv (final h)
    \<and> pab q @ sentA h = gotB h @ pab (final h) \<and> pba q @ sentB h = gotA h @ pba (final h)"
  using assms
proof (induction ops arbitrary: q)
  case (Cons p ops)
  obtain i m where p: "p = (i, m)" by (cases p)
  show ?case
  proof (cases m)
    case (Put d)
    show ?thesis
    proof (cases i)
      case SideA
      with Cons.prems p Put obtain r q1 where 1: "putA d q = Some (r, q1)" "inv q1" "pab q1 = pab q @ take (nat r) d"
        using ab.put_law [of q d] by auto
      with Cons.IH [OF 1(2)] Cons.prems p Put SideA putA_frame [OF Cons.prems(1) _ 1(1)] show ?thesis by auto
    next
      case SideB
      with Cons.prems p Put obtain r q1 where 1: "putB d q = Some (r, q1)" "inv q1" "pba q1 = pba q @ take (nat r) d"
        using ba.put_law [of q d] by auto
      with Cons.IH [OF 1(2)] Cons.prems p Put SideB putB_frame [OF Cons.prems(1) _ 1(1)] show ?thesis by auto
    qed
  next
    case (Get n)
    show ?thesis
    proof (cases i)
      case SideA
      with Cons.prems p Get obtain r x q1 where 1: "getA n q = Some (r, x, q1)" "inv q1" "pba q = x @ pba q1"
        using ba.get_law [of q n] by auto
      with Cons.IH [OF 1(2)] Cons.prems p Get SideA getA_frame [OF Cons.prems(1) _ 1(1)] show ?thesis by auto
    next
      case SideB
      with Cons.prems p Get obtain r x q1 where 1: "getB n q = Some (r, x, q1)" "inv q1" "pab q = x @ pab q1"
        using ab.get_law [of q n] by auto
      with Cons.IH [OF 1(2)] Cons.prems p Get SideB getB_frame [OF Cons.prems(1) _ 1(1)] show ?thesis by auto
    qed
  qed
qed simp

end

end
