(* ===== verification/Bio_Mem.thy ===== *)
theory Bio_Mem
  imports Bio_Queue
begin

text \<open>
  Memory BIOs meet the queue contract: a writable one is a queue of bytes, a read-only one delivers its
  buffer. The invariant covers both: a read-only BIO has its \<open>data\<close> pointer where reading stopped.
\<close>

definition mem_ok :: "bio_st \<Rightarrow> bool" where
  "mem_ok b \<longleftrightarrow> bmethod b = mem_method \<and> init b \<and> bio_num b \<le> 0 \<and>
     (\<exists>m off. bptr b = MemPtr m off \<and> buf_mem_ok m \<and>
       (if flags b AND BIO_FLAGS_MEM_RDONLY \<noteq> 0 then off + mem_length m = mem_max m
        else off = 0 \<and> mem_length m \<le> 2147483647))"

definition mem_pending :: "bio_st \<Rightarrow> bytes" where
  "mem_pending b = (case bptr b of MemPtr m off \<Rightarrow> take (mem_length m) (drop off (mem_data m)) | _ \<Rightarrow> [])"

lemma rdonly_flag [simp]:
  "(f AND - 16) AND BIO_FLAGS_MEM_RDONLY = f AND BIO_FLAGS_MEM_RDONLY"
  "(f OR 9) AND BIO_FLAGS_MEM_RDONLY = f AND BIO_FLAGS_MEM_RDONLY" for f :: u32
  by (simp_all add: and.assoc bit.conj_disj_distrib2)

lemma mem_okE:
  assumes "mem_ok b"
  obtains m off where "bptr b = MemPtr m off" "bmethod b = mem_method" "init b" "bio_num b \<le> 0" "buf_mem_ok m"
    "length (mem_data m) = mem_max m" "off + mem_length m \<le> mem_max m"
    "flags b AND BIO_FLAGS_MEM_RDONLY \<noteq> 0 \<longrightarrow> off + mem_length m = mem_max m"
    "flags b AND BIO_FLAGS_MEM_RDONLY = 0 \<longrightarrow> off = 0 \<and> mem_length m \<le> 2147483647"
    "mem_pending b = take (mem_length m) (drop off (mem_data m))" "length (mem_pending b) = mem_length m"
  using assms by (fastforce simp: mem_ok_def mem_pending_def buf_mem_ok_def split: if_splits)

lemma mem_read_ok:
  assumes ok: "mem_ok b" and n: "0 < n" "n \<le> 2147483647"
  shows "\<exists>r out b'. mem_read (int n) b = Some (r, out, b') \<and> mem_ok b' \<and> mem_pending b = out @ mem_pending b'
    \<and> length out = nat r \<and> length out \<le> n
    \<and> (mem_pending b \<noteq> [] \<longrightarrow> r = int (min n (length (mem_pending b))))"
proof -
  obtain m off where m: "bptr b = MemPtr m off" "bmethod b = mem_method" "init b" "bio_num b \<le> 0" "buf_mem_ok m"
    "length (mem_data m) = mem_max m" "off + mem_length m \<le> mem_max m"
    and ro: "flags b AND BIO_FLAGS_MEM_RDONLY \<noteq> 0 \<longrightarrow> off + mem_length m = mem_max m"
    and rw: "flags b AND BIO_FLAGS_MEM_RDONLY = 0 \<longrightarrow> off = 0 \<and> mem_length m \<le> 2147483647"
    and p: "mem_pending b = take (mem_length m) (drop off (mem_data m))" "length (mem_pending b) = mem_length m"
    using ok by (rule mem_okE)
  define k where "k = min n (mem_length m)"
  have ret: "(if mem_length m < 2147483647 \<and> int n > int (mem_length m) then int (mem_length m) else int n) = int k"
    using n by (auto simp: k_def)
  define b0 where "b0 = BIO_clear_retry_flags b"
  have b0: "flags b0 AND BIO_FLAGS_MEM_RDONLY = flags b AND BIO_FLAGS_MEM_RDONLY" "bmethod b0 = bmethod b"
    "init b0 = init b" "bio_num b0 = bio_num b" "bptr b0 = bptr b"
    by (simp_all add: b0_def BIO_clear_retry_flags_def)
  show ?thesis
  proof (cases "k = 0")
    case True
    then have e: "mem_length m = 0" using n by (simp add: k_def)
    define b1 where "b1 = (if bio_num b \<noteq> 0 then BIO_set_retry_read b0 else b0)"
    have "mem_read (int n) b = Some (bio_num b, [], b1)"
      using True e n m(1) by (simp add: mem_read_def Let_def b0_def [symmetric] ret b0(4) b1_def)
    moreover have "mem_ok b1" "mem_pending b1 = mem_pending b"
      using ok b0 by (auto simp: mem_ok_def mem_pending_def b1_def BIO_set_retry_read_def)
    ultimately show ?thesis using e p m(4) by simp
  next
    case False
    then have k: "0 < k" "k \<le> mem_length m" "k \<le> n" by (simp_all add: k_def)
    define m1 where "m1 = m\<lparr>mem_length := mem_length m - k\<rparr>"
    define ptr1 where "ptr1 = (if flags b AND BIO_FLAGS_MEM_RDONLY \<noteq> 0 then MemPtr m1 (off + k)
      else MemPtr (m1\<lparr>mem_data := mem_write (mem_data m) off (take (mem_length m - k) (drop (off + k) (mem_data m)))\<rparr>) off)"
    define b1 where "b1 = b0\<lparr>bptr := ptr1\<rparr>"
    have run: "mem_read (int n) b = Some (int k, take k (drop off (mem_data m)), b1)"
      using k(1)
      unfolding mem_read_def m(1) Let_def bio_ptr.case ret b0_def [symmetric]
      by (simp add: b0(1) b1_def ptr1_def m1_def)
    have out: "take k (drop off (mem_data m)) = take k (mem_pending b)" using k(2) by (simp add: p(1) min_def)
    have "mem_ok b1 \<and> mem_pending b1 = drop k (mem_pending b)"
    proof (cases "flags b AND BIO_FLAGS_MEM_RDONLY = 0")
      case True
      define d where "d = take (mem_length m - k) (drop (off + k) (mem_data m))"
      have off: "off = 0" "mem_length m \<le> 2147483647" using rw True by simp_all
      have "length d = mem_length m - k" using m(6,7) by (simp add: d_def off)
      then have "length (mem_write (mem_data m) off d) = mem_max m" "take (mem_length m - k) (mem_write (mem_data m) off d) = d"
        using m(6,7) off by (simp_all add: mem_write_def)
      then show ?thesis
        using True m off b0 k by (simp add: mem_ok_def mem_pending_def b1_def ptr1_def m1_def d_def [symmetric] buf_mem_ok_def)
          (simp add: d_def drop_take, linarith)
    next
      case False
      then show ?thesis
        using m b0 k ro by (simp add: mem_ok_def mem_pending_def b1_def ptr1_def m1_def buf_mem_ok_def drop_take add.commute)
    qed
    then show ?thesis
      using k p(2) by (intro exI [of _ "int k"] exI [of _ "take k (mem_pending b)"] exI [of _ b1])
        (simp add: run out k_def [symmetric])
  qed
qed

section \<open>Writing\<close>

lemma BUF_MEM_grow_cases:
  assumes "buf_mem_ok m" and "mem_length m \<le> n" and "0 < n" and "n \<le> size_max" and "BUF_MEM_grow A m n = (got, m')"
  shows "(got = 0 \<and> m' = m) \<or> (got = n \<and> buf_mem_ok m' \<and> mem_length m' = n
    \<and> take (mem_length m) (mem_data m') = buf_mem_contents m)"
proof -
  obtain r m1 where r: "BUF_MEM_reserve A m n = (r, m1)" by fastforce
  note R = BUF_MEM_reserve_ok [OF assms(1) r assms(4)]
  show ?thesis
  proof (cases r)
    case False
    then have "m1 = m" using r assms(4) by (auto elim!: BUF_MEM_reserve_cases)
    then show ?thesis using False assms(5) r by (simp add: BUF_MEM_grow_def)
  next
    case True
    have "take (mem_length m) (mem_write (mem_data m1) (mem_length m) z) = buf_mem_contents m" for z
    proof -
      have "mem_length m \<le> length (mem_data m1)" using R(1,2) by (simp add: buf_mem_ok_def)
      then have "take (mem_length m) (mem_write (mem_data m1) (mem_length m) z) = take (mem_length m) (mem_data m1)"
        by (simp add: mem_write_def)
      then show ?thesis using R(2,3) by simp
    qed
    then show ?thesis
      using True assms(2,5) r R
      by (cases "mem_length m < n") (auto simp: BUF_MEM_grow_def buf_mem_ok_def Let_def)
  qed
qed

lemma int_of_size_small: "n \<le> 2147483647 \<Longrightarrow> int_of_size n = int n"
  by (simp add: int_of_size_def signed_of_nat signed_take_bit_int_eq_self)

lemma mem_write_ok:
  assumes ok: "mem_ok b" and d: "d \<noteq> []" "length d \<le> 2147483647"
  shows "\<exists>r b'. mem_bio_write A d (int (length d)) b = Some (r, b') \<and> mem_ok b' \<and> nat r \<le> length d
    \<and> mem_pending b' = mem_pending b @ take (nat r) d"
proof -
  obtain m off where m: "bptr b = MemPtr m off" "bmethod b = mem_method" "init b" "bio_num b \<le> 0" "buf_mem_ok m"
    "length (mem_data m) = mem_max m"
    and rw: "flags b AND BIO_FLAGS_MEM_RDONLY = 0 \<longrightarrow> off = 0 \<and> mem_length m \<le> 2147483647"
    and p: "mem_pending b = take (mem_length m) (drop off (mem_data m))"
    using ok by (rule mem_okE)
  show ?thesis
  proof (cases "flags b AND BIO_FLAGS_MEM_RDONLY = 0")
    case False
    then show ?thesis using ok m(1) by (simp add: mem_bio_write_def)
  next
    case True
    with rw have off: "off = 0" "mem_length m \<le> 2147483647" by simp_all
    define b0 where "b0 = BIO_clear_retry_flags b"
    have b0: "flags b0 AND BIO_FLAGS_MEM_RDONLY = 0" "bmethod b0 = mem_method" "init b0" "bio_num b0 \<le> 0" "bptr b0 = MemPtr m 0"
      using True m off by (simp_all add: b0_def BIO_clear_retry_flags_def)
    have ok0: "mem_ok b0" "mem_pending b0 = mem_pending b"
      using b0 m off by (simp_all add: mem_ok_def mem_pending_def)
    show ?thesis
    proof (cases "mem_length m + length d \<le> 2147483647")
      case False
      then have "mem_bio_write A d (int (length d)) b = Some (-1, b0)"
        using True m(1) off by (simp add: mem_bio_write_def int_of_size_small b0_def [symmetric] Let_def)
      then show ?thesis using ok0 by simp
    next
      case fits: True
      define n where "n = mem_length m + length d"
      obtain got m1 where g: "BUF_MEM_grow A m n = (got, m1)" by fastforce
      have "nat ((int (mem_length m) + int (length d)) mod 2 ^ 64) = n"
        using fits by (simp add: n_def nat_mod_distrib nat_add_distrib)
      then have run: "mem_bio_write A d (int (length d)) b =
        (if got \<noteq> n then Some (-1, b0\<lparr>bptr := MemPtr m1 0\<rparr>)
         else Some (int (length d), b0\<lparr>bptr := MemPtr (m1\<lparr>mem_data := mem_write (mem_data m1) (mem_length m) d\<rparr>) 0\<rparr>))"
        using True m(1) off fits g
        by (simp add: mem_bio_write_def int_of_size_small b0_def [symmetric] Let_def BUF_MEM_grow_clean_def)
      have pos: "0 < n" using d by (simp add: n_def)
      from BUF_MEM_grow_cases [OF m(5) _ pos _ g] fits consider "got = 0" "m1 = m"
        | "got = n" "buf_mem_ok m1" "mem_length m1 = n" "take (mem_length m) (mem_data m1) = buf_mem_contents m"
        by (auto simp: n_def)
      then show ?thesis
      proof cases
        case 1
        have "b0\<lparr>bptr := MemPtr m 0\<rparr> = b0" using b0(5) by simp
        then show ?thesis using 1 pos ok0 by (simp add: run)
      next
        case 2
        define b1 where "b1 = b0\<lparr>bptr := MemPtr (m1\<lparr>mem_data := mem_write (mem_data m1) (mem_length m) d\<rparr>) 0\<rparr>"
        have l: "mem_length m + length d \<le> length (mem_data m1)" using 2(2,3) by (simp add: buf_mem_ok_def n_def)
        have "mem_ok b1" using b0 2(2,3) l fits by (simp add: mem_ok_def b1_def buf_mem_ok_def n_def)
        moreover have "mem_pending b1 = mem_pending b @ d"
          using l 2(3,4) off by (simp add: mem_pending_def b1_def n_def m(1))
        ultimately show ?thesis
          using 2(1) by (intro exI [of _ "int (length d)"] exI [of _ b1]) (simp add: run b1_def)
      qed
    qed
  qed
qed

section \<open>The contract\<close>

definition mem_inv :: "bio_addr \<Rightarrow> bio_heap \<Rightarrow> bool" where
  "mem_inv a s \<longleftrightarrow> (\<exists>b. bios s a = Some b \<and> mem_ok b)"

definition mem_contents_at :: "bio_addr \<Rightarrow> bio_heap \<Rightarrow> bytes" where
  "mem_contents_at a s = mem_pending (the (bios s a))"

lemma mem_ok_count [simp]:
  "mem_ok (b\<lparr>num_read := x\<rparr>) = mem_ok b" "mem_ok (b\<lparr>num_write := x\<rparr>) = mem_ok b"
  "mem_pending (b\<lparr>num_read := x\<rparr>) = mem_pending b" "mem_pending (b\<lparr>num_write := x\<rparr>) = mem_pending b"
  by (simp_all add: mem_ok_def mem_pending_def)

lemma mem_count_put:
  "mem_inv a (count_read a r (put_bio a b s)) = mem_ok b" "mem_inv a (count_write a r (put_bio a b s)) = mem_ok b"
  "mem_contents_at a (count_read a r (put_bio a b s)) = mem_pending b"
  "mem_contents_at a (count_write a r (put_bio a b s)) = mem_pending b"
  by (simp_all add: mem_inv_def mem_contents_at_def count_read_def count_write_def put_bio_def)

interpretation mem_queue: byte_queue "mem_inv a" "mem_contents_at a"
    "\<lambda>d. BIO_write A (Some a) d (int (length d))" "\<lambda>n. BIO_read (Some a) (int n)" for A a
proof (unfold_locales, goal_cases)
  case (1 s d)
  then obtain b where b: "bios s a = Some b" "mem_ok b" by (auto simp: mem_inv_def)
  then have i: "init b" "bmethod b = mem_method" by (simp_all add: mem_ok_def)
  show ?case
  proof (cases "d = []")
    case True
    then show ?thesis using 1 b i by (simp add: BIO_write_def mem_inv_def)
  next
    case False
    obtain r b' where w: "mem_bio_write A d (int (length d)) b = Some (r, b')" "mem_ok b'" "nat r \<le> length d"
      "mem_pending b' = mem_pending b @ take (nat r) d"
      using mem_write_ok [OF b(2) False 1(2)] by blast
    have "BIO_write A (Some a) d (int (length d)) s = Some (r, count_write a r (put_bio a b' s))"
      using b i False w(1) by (simp add: BIO_write_def bio_bwrite_def)
    moreover have "mem_contents_at a s = mem_pending b" using b by (simp add: mem_contents_at_def)
    ultimately show ?thesis
      using w(2-4) by (intro exI [of _ r] exI [of _ "count_write a r (put_bio a b' s)"])
        (simp only: mem_count_put simp_thms)
  qed
next
  case (2 s n)
  then obtain b where b: "bios s a = Some b" "mem_ok b" by (auto simp: mem_inv_def)
  then have i: "init b" "bmethod b = mem_method" by (simp_all add: mem_ok_def)
  show ?case
  proof (cases "n = 0")
    case True
    then show ?thesis using 2 b i by (simp add: BIO_read_def mem_inv_def)
  next
    case False
    then have "0 < n" by simp
    then obtain r out b' where r: "mem_read (int n) b = Some (r, out, b')" "mem_ok b'"
      "mem_pending b = out @ mem_pending b'" "length out = nat r" "length out \<le> n"
      "mem_pending b \<noteq> [] \<longrightarrow> r = int (min n (length (mem_pending b)))"
      using mem_read_ok [OF b(2) _ 2(2)] by blast
    have "BIO_read (Some a) (int n) s = Some (r, out, count_read a r (put_bio a b' s))"
      using b i False r(1) by (simp add: BIO_read_def bio_bread_def)
    moreover have "mem_contents_at a s = mem_pending b" using b by (simp add: mem_contents_at_def)
    ultimately show ?thesis
      using r(2-6) by (intro exI [of _ r] exI [of _ out] exI [of _ "count_read a r (put_bio a b' s)"])
        (simp only: mem_count_put simp_thms, blast)
  qed
qed

end
