(* ===== verification/Bio_Pair.thy ===== *)
theory Bio_Pair
  imports Bio_Queue
begin

text \<open>
  A BIO pair meets the duplex contract: what one end writes with \<open>BIO_write\<close>, the other end reads with
  \<open>BIO_read\<close>, in order and without loss, whatever calls are interleaved.
\<close>

section \<open>The invariant of a pair\<close>

definition pair_half :: "bio_addr \<Rightarrow> bio_st \<Rightarrow> bio_bio_st \<Rightarrow> bool" where
  "pair_half p b x \<longleftrightarrow> bmethod b = methods_biop \<and> init b \<and> bptr b = PairPtr x \<and> peer x = Some p \<and> ring_ok x"

definition pair_inv :: "bio_addr \<Rightarrow> bio_addr \<Rightarrow> bio_heap \<Rightarrow> bool" where
  "pair_inv a p s \<longleftrightarrow> a \<noteq> p \<and> (\<exists>b x. bios s a = Some b \<and> pair_half p b x) \<and> (\<exists>c y. bios s p = Some c \<and> pair_half a c y)"

definition ring_at :: "bio_addr \<Rightarrow> bio_heap \<Rightarrow> bio_bio_st" where
  "ring_at a s = the (pair_of (the (bios s a)))"

abbreviation pair_pending :: "bio_addr \<Rightarrow> bio_heap \<Rightarrow> bytes" where
  "pair_pending a s \<equiv> ring_contents (ring_at a s)"

lemma pair_inv_sym: "pair_inv a p s \<longleftrightarrow> pair_inv p a s"
  by (auto simp: pair_inv_def)

lemma pair_invE:
  assumes "pair_inv a p s"
  obtains b x c y where "a \<noteq> p" "p \<noteq> a" "bios s a = Some b" "pair_half p b x" "bios s p = Some c" "pair_half a c y"
    "ring_at a s = x" "ring_at p s = y"
  using assms by (auto simp: pair_inv_def ring_at_def pair_half_def pair_of_def)

lemma bios_put_bio [simp]: "bios (put_bio a b s) = (bios s)(a \<mapsto> b)"
  by (simp add: put_bio_def)

lemma put_bio_twice [simp]: "put_bio a c (put_bio a b s) = put_bio a c s"
  by (simp add: put_bio_def)

lemma put_pair_simp: "bios s a = Some b \<Longrightarrow> put_pair a x s = put_bio a (b\<lparr>bptr := PairPtr x\<rparr>) s"
  by (simp add: put_pair_def)

text \<open>What a call may change in a half without leaving the invariant.\<close>

definition half_step :: "bio_st \<Rightarrow> bio_st \<Rightarrow> bool" where
  "half_step b b' \<longleftrightarrow> bmethod b' = bmethod b \<and> init b' = init b"

lemma half_step_clear [simp]:
  "bmethod (BIO_clear_retry_flags b) = bmethod b" "init (BIO_clear_retry_flags b) = init b"
  "bptr (BIO_clear_retry_flags b) = bptr b"
  "bmethod (BIO_set_retry_read b) = bmethod b" "init (BIO_set_retry_read b) = init b"
  "bptr (BIO_set_retry_read b) = bptr b"
  "bmethod (BIO_set_retry_write b) = bmethod b" "init (BIO_set_retry_write b) = init b"
  "bptr (BIO_set_retry_write b) = bptr b"
  by (simp_all add: BIO_clear_retry_flags_def BIO_set_retry_read_def BIO_set_retry_write_def)

lemma pair_inv_put:
  assumes "a \<noteq> p" and "pair_half p b x" and "pair_half a c y"
  shows "pair_inv a p (put_bio a b (put_bio p c s))" and "pair_inv a p (put_bio p c (put_bio a b s))"
    and "ring_at a (put_bio a b s) = x" and "ring_at p (put_bio p c s) = y"
    and "ring_at p (put_bio a b s) = ring_at p s" and "ring_at a (put_bio p c s) = ring_at a s"
  using assms by (auto simp: pair_inv_def ring_at_def pair_half_def pair_of_def)

lemma ring_ok_request [simp]: "ring_ok (x\<lparr>request := n\<rparr>) = ring_ok x"
  by (simp add: ring_ok_def)

lemma ring_contents_request [simp]: "ring_contents (x\<lparr>request := n\<rparr>) = ring_contents x"
  by (simp add: ring_contents_def)

text \<open>The results of a write and of a read, as the state of the ring determines them.\<close>

definition write_result :: "bio_bio_st \<Rightarrow> bytes \<Rightarrow> int" where
  "write_result x d =
     (if d = [] then 0 else if wclosed x \<or> rlen x = rsize x then -1 else int (min (length d) (rsize x - rlen x)))"

definition read_result :: "bio_bio_st \<Rightarrow> nat \<Rightarrow> int" where
  "read_result y n = (if n = 0 then 0 else if 0 < rlen y then int (min n (rlen y)) else if wclosed y then 0 else -1)"

section \<open>Writing\<close>

lemma bio_write_pair:
  assumes "pair_inv a p s"
  shows "\<exists>r s'. bio_write a d s = Some (r, s') \<and> pair_inv a p s' \<and> nat r \<le> length d \<and> r \<le> int (length d)
    \<and> pair_pending a s' = pair_pending a s @ take (nat r) d \<and> ring_at p s' = ring_at p s
    \<and> r = write_result (ring_at a s) d"
proof -
  obtain b x c y where ap: "a \<noteq> p" "p \<noteq> a" and b: "bios s a = Some b" "pair_half p b x"
    and c: "bios s p = Some c" "pair_half a c y" and at: "ring_at a s = x" "ring_at p s = y"
    using assms by (rule pair_invE)
  define b0 where "b0 = BIO_clear_retry_flags b"
  define x0 where "x0 = x\<lparr>request := 0\<rparr>"
  obtain data where data: "rbuf x = Some data" using b(2) by (auto simp: pair_half_def elim: ring_ok_simps)
  have hb: "init b0" "bptr b0 = PairPtr x" "peer x = Some p" "ring_ok x" "ring_ok x0" "init b"
    using b(2) by (simp_all add: b0_def x0_def pair_half_def)
  have fin: "\<exists>r s'. bio_write a d s = Some (r, s') \<and> pair_inv a p s' \<and> nat r \<le> length d \<and> r \<le> int (length d)
      \<and> pair_pending a s' = pair_pending a s @ take (nat r) d \<and> ring_at p s' = ring_at p s \<and> r = write_result (ring_at a s) d"
    if "bio_write a d s = Some (r, put_bio a b' s)" "pair_half p b' x'" "r \<le> int (length d)"
      "ring_contents x' = ring_contents x @ take (nat r) d" "r = write_result x d" for r b' x'
  proof -
    have "pair_inv a p (put_bio a b' s)"
      using ap that(2) c by (auto simp: pair_inv_def)
    with that show ?thesis
      using pair_inv_put(3,5) [OF ap(1) that(2) c(2)] by (simp add: at)
  qed
  show ?thesis
  proof (cases "d = []")
    case True
    then have "bio_write a d s = Some (0, put_bio a b0 s)"
      by (simp add: bio_write_def b b0_def [symmetric] Let_def)
    from fin [OF this, of x] show ?thesis using b(2) True by (simp add: pair_half_def b0_def write_result_def at)
  next
    case dne: False
    have run: "bio_write a d s =
      (if wclosed x then Some (-1, put_bio a (b0\<lparr>bptr := PairPtr x0\<rparr>) s)
       else if rlen x = rsize x then Some (-1, put_bio a ((BIO_set_retry_write b0)\<lparr>bptr := PairPtr x0\<rparr>) s)
       else (case bio_write_loop x0 (take (min (length d) (rsize x - rlen x)) d) of
               None \<Rightarrow> None
             | Some x' \<Rightarrow> Some (int (min (length d) (rsize x - rlen x)), put_bio a (b0\<lparr>bptr := PairPtr x'\<rparr>) s)))"
    proof -
      have "rlen x \<le> rsize x" using hb(4) by (auto elim: ring_ok_simps)
      moreover have "(if length d > rsize x - rlen x then rsize x - rlen x else length d) = min (length d) (rsize x - rlen x)"
        by simp
      ultimately show ?thesis
        using dne hb(1-3,6) data
        by (simp add: bio_write_def b b0_def [symmetric] x0_def Let_def pair_of_def put_pair_simp
            split: option.splits)
    qed
    show ?thesis
    proof (cases "wclosed x \<or> rlen x = rsize x")
      case True
      show ?thesis
      proof (cases "wclosed x")
        case True
        then have ret: "bio_write a d s = Some (-1, put_bio a (b0\<lparr>bptr := PairPtr x0\<rparr>) s)" by (simp add: run)
        show ?thesis
          by (rule fin [OF ret, of x0]) (use b(2) dne True in \<open>simp_all add: pair_half_def b0_def x0_def write_result_def\<close>)
      next
        case False
        then have ret: "bio_write a d s = Some (-1, put_bio a ((BIO_set_retry_write b0)\<lparr>bptr := PairPtr x0\<rparr>) s)"
          using \<open>wclosed x \<or> rlen x = rsize x\<close> by (simp add: run)
        show ?thesis
          by (rule fin [OF ret, of x0])
            (use b(2) dne \<open>wclosed x \<or> rlen x = rsize x\<close> in \<open>auto simp: pair_half_def b0_def x0_def write_result_def\<close>)
      qed
    next
      case False
      define n where "n = min (length d) (rsize x - rlen x)"
      have n: "0 < n" "n \<le> length d" "rlen x0 + n \<le> rsize x0"
        using False dne hb(4) by (auto simp: n_def x0_def elim: ring_ok_simps)
      obtain x' where x': "bio_write_loop x0 (take n d) = Some x'" "ring_ok x'" "ring_same x0 x'"
        "ring_contents x' = ring_contents x0 @ take n d"
        using bio_write_loop_ok [OF hb(5), of "take n d"] n dne by auto
      have ret: "bio_write a d s = Some (int n, put_bio a (b0\<lparr>bptr := PairPtr x'\<rparr>) s)"
        using False x'(1) by (simp add: run n_def)
      have "write_result x d = int n" using False dne by (simp add: write_result_def n_def)
      then show ?thesis
        by (intro fin [OF ret, of x']) (use b(2) x' n(2) in \<open>simp_all add: pair_half_def b0_def x0_def ring_same_def\<close>)
    qed
  qed
qed

section \<open>Reading\<close>

lemma bio_read_pair:
  assumes "pair_inv a p s"
  shows "\<exists>r out s'. bio_read a sz s = Some (r, out, s') \<and> pair_inv a p s' \<and> length out = nat r \<and> length out \<le> sz
    \<and> pair_pending p s = out @ pair_pending p s' \<and> ring_at a s' = ring_at a s
    \<and> (0 < sz \<and> pair_pending p s \<noteq> [] \<longrightarrow> r = int (min sz (length (pair_pending p s))))
    \<and> r = read_result (ring_at p s) sz"
proof -
  obtain b x c y where ap: "a \<noteq> p" "p \<noteq> a" and b: "bios s a = Some b" "pair_half p b x"
    and c: "bios s p = Some c" "pair_half a c y" and at: "ring_at a s = x" "ring_at p s = y"
    using assms by (rule pair_invE)
  define b0 where "b0 = BIO_clear_retry_flags b"
  define y0 where "y0 = y\<lparr>request := 0\<rparr>"
  obtain data where data: "rbuf y = Some data" using c(2) by (auto simp: pair_half_def elim: ring_ok_simps)
  have hb: "init b0" "bptr b0 = PairPtr x" "peer x = Some p" "init b" "bptr c = PairPtr y" "ring_ok y" "ring_ok y0"
    using b(2) c(2) by (simp_all add: b0_def y0_def pair_half_def)
  have fin: "\<exists>r out s'. bio_read a sz s = Some (r, out, s') \<and> pair_inv a p s' \<and> length out = nat r \<and> length out \<le> sz
      \<and> pair_pending p s = out @ pair_pending p s' \<and> ring_at a s' = ring_at a s
      \<and> (0 < sz \<and> pair_pending p s \<noteq> [] \<longrightarrow> r = int (min sz (length (pair_pending p s)))) \<and> r = read_result (ring_at p s) sz"
    if "bio_read a sz s = Some (r, out, put_bio p c' (put_bio a b' s))" "pair_half p b' x" "pair_half a c' y'"
      "length out = nat r" "length out \<le> sz" "ring_contents y = out @ ring_contents y'"
      "0 < sz \<and> ring_contents y \<noteq> [] \<longrightarrow> r = int (min sz (length (ring_contents y)))"
      "r = read_result y sz" for r out b' c' y'
    using that pair_inv_put(2) [OF ap(1) that(2,3), of s] pair_inv_put(3,4,6) [OF ap(1) that(2,3)]
    by (simp add: at)
  have hb0: "pair_half p b0 x" using b(2) by (simp add: pair_half_def b0_def)
  have hc: "pair_half a (c\<lparr>bptr := PairPtr y'\<rparr>) y'" if "ring_same y y'" "ring_ok y'" for y'
    using c(2) that by (simp add: pair_half_def ring_same_def)
  have hy0: "pair_half a (c\<lparr>bptr := PairPtr (y\<lparr>request := n\<rparr>)\<rparr>) (y\<lparr>request := n\<rparr>)" for n
    using c(2) by (simp add: pair_half_def)
  have run: "bio_read a sz s =
    (if sz = 0 then Some (0, [], put_bio p (c\<lparr>bptr := PairPtr y0\<rparr>) (put_bio a b0 s))
     else if rlen y = 0 then
       (if wclosed y then Some (0, [], put_bio p (c\<lparr>bptr := PairPtr y0\<rparr>) (put_bio a b0 s))
        else Some (-1, [], put_bio p (c\<lparr>bptr := PairPtr (y\<lparr>request := min sz (rsize y)\<rparr>)\<rparr>)
               (put_bio a (BIO_set_retry_read b0) s)))
     else (case bio_read_loop y0 (min sz (rlen y)) of
             None \<Rightarrow> None
           | Some (out, y') \<Rightarrow> Some (int (min sz (rlen y)), out, put_bio p (c\<lparr>bptr := PairPtr y'\<rparr>) (put_bio a b0 s))))"
  proof -
    have m: "(if rlen y < sz then rlen y else sz) = min sz (rlen y)" "(if sz \<le> rsize y then sz else rsize y) = min sz (rsize y)"
      by auto
    show ?thesis
      using hb(1-5) data ap c(1)
      by (simp add: bio_read_def b b0_def [symmetric] y0_def Let_def pair_of_def put_pair_simp m
          split: option.splits del: min_def)
  qed
  show ?thesis
  proof (cases "sz = 0 \<or> rlen y = 0")
    case True
    show ?thesis
    proof (cases "sz = 0 \<or> wclosed y")
      case cl: True
      then have ret: "bio_read a sz s = Some (0, [], put_bio p (c\<lparr>bptr := PairPtr y0\<rparr>) (put_bio a b0 s))"
        using True by (auto simp: run)
      show ?thesis
        by (rule fin [OF ret hb0 hy0 [of 0, folded y0_def]])
          (use True cl hb(6) in \<open>auto simp: y0_def read_result_def ring_contents_def\<close>)
    next
      case False
      then have ret: "bio_read a sz s = Some (-1, [], put_bio p (c\<lparr>bptr := PairPtr (y\<lparr>request := min sz (rsize y)\<rparr>)\<rparr>)
               (put_bio a (BIO_set_retry_read b0) s))"
        using True by (simp add: run)
      have h: "pair_half p (BIO_set_retry_read b0) x" using hb0 by (simp add: pair_half_def)
      have "rlen y = 0" "read_result y sz = -1" using True False by (simp_all add: read_result_def)
      then show ?thesis
        by (intro fin [OF ret h hy0]) (simp_all add: ring_contents_def)
    qed
  next
    case False
    define n where "n = min sz (rlen y)"
    have n: "0 < n" "n \<le> rlen y0" "n \<le> sz" "n = min sz (rlen y)" using False by (auto simp: n_def y0_def)
    obtain y' where y': "bio_read_loop y0 n = Some (take n (ring_contents y0), y')" "ring_ok y'" "ring_same y0 y'"
      "ring_contents y' = drop n (ring_contents y0)"
      using bio_read_loop_ok [OF hb(7) n(1,2)] by blast
    have h: "pair_half a (c\<lparr>bptr := PairPtr y'\<rparr>) y'"
      using c(2) y'(2,3) by (simp add: pair_half_def ring_same_def y0_def)
    have ret: "bio_read a sz s = Some (int n, take n (ring_contents y0), put_bio p (c\<lparr>bptr := PairPtr y'\<rparr>) (put_bio a b0 s))"
      using False y'(1) by (simp add: run n_def)
    have l: "length (ring_contents y0) = rlen y0" using hb(7) by simp
    show ?thesis
      by (rule fin [OF ret hb0 h]) (use n l y'(4) in \<open>simp_all add: y0_def read_result_def\<close>)
  qed
qed

section \<open>The calls of \<open>bio.c\<close>\<close>

text \<open>Counting what was transferred does not touch the rings.\<close>

lemma pair_inv_count:
  assumes "pair_inv a p s"
  shows "pair_inv a p (count_read i r s)" "pair_inv a p (count_write i r s)"
    "ring_at i (count_read j r s) = ring_at i s" "ring_at i (count_write j r s) = ring_at i s"
  using assms
  by (auto simp: pair_inv_def count_read_def count_write_def ring_at_def pair_half_def pair_of_def split: option.splits)

lemma BIO_write_pair:
  assumes "pair_inv a p s" and "length d \<le> 2147483647"
  shows "\<exists>r s'. BIO_write A (Some a) d (int (length d)) s = Some (r, s') \<and> pair_inv a p s' \<and> nat r \<le> length d
    \<and> pair_pending a s' = pair_pending a s @ take (nat r) d \<and> ring_at p s' = ring_at p s
    \<and> r = write_result (ring_at a s) d"
proof -
  obtain b x where b: "bios s a = Some b" "bmethod b = methods_biop" "init b"
    using assms(1) by (auto elim!: pair_invE simp: pair_half_def)
  show ?thesis
  proof (cases "d = []")
    case True
    then show ?thesis using assms(1) b by (simp add: BIO_write_def write_result_def)
  next
    case False
    obtain r s' where w: "bio_write a d s = Some (r, s')" "pair_inv a p s'" "nat r \<le> length d"
      "pair_pending a s' = pair_pending a s @ take (nat r) d" "ring_at p s' = ring_at p s"
      "r = write_result (ring_at a s) d"
      using bio_write_pair [OF assms(1), of d] by blast
    then have "BIO_write A (Some a) d (int (length d)) s = Some (r, count_write a r s')"
      using b False by (simp add: BIO_write_def bio_bwrite_def)
    then show ?thesis using w pair_inv_count [OF w(2)] by simp
  qed
qed

lemma BIO_read_pair:
  assumes "pair_inv a p s" and "n \<le> 2147483647"
  shows "\<exists>r out s'. BIO_read (Some a) (int n) s = Some (r, out, s') \<and> pair_inv a p s' \<and> length out = nat r
    \<and> length out \<le> n \<and> pair_pending p s = out @ pair_pending p s' \<and> ring_at a s' = ring_at a s
    \<and> (0 < n \<and> pair_pending p s \<noteq> [] \<longrightarrow> r = int (min n (length (pair_pending p s))))
    \<and> r = read_result (ring_at p s) n"
proof -
  obtain b x where b: "bios s a = Some b" "bmethod b = methods_biop" "init b"
    using assms(1) by (auto elim!: pair_invE simp: pair_half_def)
  show ?thesis
  proof (cases "n = 0")
    case True
    then show ?thesis using assms(1) b by (simp add: BIO_read_def read_result_def)
  next
    case False
    obtain r out s' where w: "bio_read a n s = Some (r, out, s')" "pair_inv a p s'" "length out = nat r"
      "length out \<le> n" "pair_pending p s = out @ pair_pending p s'" "ring_at a s' = ring_at a s"
      "0 < n \<and> pair_pending p s \<noteq> [] \<longrightarrow> r = int (min n (length (pair_pending p s)))"
      "r = read_result (ring_at p s) n"
      using bio_read_pair [OF assms(1), of n] by blast
    then have "BIO_read (Some a) (int n) s = Some (r, out, count_read a r s')"
      using b False by (simp add: BIO_read_def bio_bread_def)
    then show ?thesis using w pair_inv_count [OF w(2)] by auto
  qed
qed

section \<open>The contract\<close>

abbreviation pair_put :: "alloc \<Rightarrow> bio_addr \<Rightarrow> bytes \<Rightarrow> bio_heap \<Rightarrow> (int \<times> bio_heap) option" where
  "pair_put A a d s \<equiv> BIO_write A (Some a) d (int (length d)) s"

abbreviation pair_get :: "bio_addr \<Rightarrow> nat \<Rightarrow> bio_heap \<Rightarrow> (int \<times> bytes \<times> bio_heap) option" where
  "pair_get a n s \<equiv> BIO_read (Some a) (int n) s"

text \<open>Calls outside the range of \<open>int\<close> do not occur: the frame laws hold for those of the queue laws.\<close>

lemma pair_put_frame:
  "pair_inv a p s \<Longrightarrow> length d \<le> 2147483647 \<Longrightarrow> pair_put A a d s = Some (r, s') \<Longrightarrow> ring_at p s' = ring_at p s"
  using BIO_write_pair [of a p s d A] by auto

lemma pair_get_frame:
  "pair_inv a p s \<Longrightarrow> n \<le> 2147483647 \<Longrightarrow> pair_get a n s = Some (r, out, s') \<Longrightarrow> ring_at a s' = ring_at a s"
  using BIO_read_pair [of a p s n] by auto

interpretation bio_pair: duplex "pair_inv a p" "pair_pending a" "pair_pending p"
    "pair_put A a" "pair_put A p" "pair_get a" "pair_get p" for A a p
proof (unfold_locales, goal_cases)
  case (1 q d)
  then show ?case using BIO_write_pair [of a p q d A] by auto
next
  case (2 q n)
  then show ?case using BIO_read_pair [of p a q n] by (auto simp: pair_inv_sym)
next
  case (3 q d)
  then show ?case using BIO_write_pair [of p a q d A] by (auto simp: pair_inv_sym)
next
  case (4 q n)
  then show ?case using BIO_read_pair [of a p q n] by (auto simp: pair_inv_sym)
next
  case (5 q d r q')
  then show ?case using pair_put_frame [of a p q d A r q'] by simp
next
  case (6 q d r q')
  then show ?case using pair_put_frame [of p a q d A r q'] by (simp add: pair_inv_sym)
next
  case (7 q n r x q')
  then show ?case using pair_get_frame [of a p q n r x q'] by simp
next
  case (8 q n r x q')
  then show ?case using pair_get_frame [of p a q n r x q'] by (simp add: pair_inv_sym)
qed

section \<open>Creation\<close>

lemma BIO_new_pair_Some:
  "BIO_new A methods_biop s = (Some a, s') \<Longrightarrow>
    a = fresh s \<and> fresh s' = Suc (fresh s) \<and> (\<exists>b. bios s' = (bios s)(a \<mapsto> b) \<and> bmethod b = methods_biop
      \<and> bptr b = PairPtr \<lparr>peer = None, wclosed = False, rlen = 0, roffset = 0, rsize = 17 * 1024,
                          rbuf = None, request = 0\<rparr>)"
  by (auto simp: BIO_new_def bio_create_def bio_new_def put_bio_def split: if_splits)

lemma ring_alloc_new:
  assumes "ring_alloc A n x = (True, x')" and "rbuf x = None" and "rsize x < 2 ^ 63" and "n < 2 ^ 63"
  shows "ring_ok (x'\<lparr>peer := pr, wclosed := cl, request := rq\<rparr>)
    \<and> ring_contents (x'\<lparr>peer := pr, wclosed := cl, request := rq\<rparr>) = []"
  using assms by (auto simp: ring_alloc_def OPENSSL_malloc_def ring_ok_def ring_contents_def Let_def
      split: option.splits if_splits)

lemma BIO_new_bio_pair_ok:
  assumes "BIO_new_bio_pair A n1 n2 s = Some (Some (a1, a2), s')" and "n1 < 2 ^ 63" and "n2 < 2 ^ 63"
  shows "pair_inv a1 a2 s' \<and> pair_pending a1 s' = [] \<and> pair_pending a2 s' = []"
proof -
  from assms(1) obtain s1 s2 where n: "BIO_new A methods_biop s = (Some a1, s1)" "BIO_new A methods_biop s1 = (Some a2, s2)"
    and mk: "bio_make_pair A a1 a2 n1 n2 s2 = Some (True, s')"
    by (auto simp: BIO_new_bio_pair_def Let_def bind_eq_Some_conv split: prod.splits option.splits if_splits)
  from BIO_new_pair_Some [OF n(1)] BIO_new_pair_Some [OF n(2)] obtain b1 b2 where
    ne: "a1 \<noteq> a2" and b: "bios s2 a1 = Some b1" "bios s2 a2 = Some b2" "bmethod b1 = methods_biop" "bmethod b2 = methods_biop"
    and x: "bptr b1 = PairPtr \<lparr>peer = None, wclosed = False, rlen = 0, roffset = 0, rsize = 17 * 1024, rbuf = None, request = 0\<rparr>"
      "bptr b2 = PairPtr \<lparr>peer = None, wclosed = False, rlen = 0, roffset = 0, rsize = 17 * 1024, rbuf = None, request = 0\<rparr>"
    by fastforce
  from mk b x obtain x1 x2 where
    r: "ring_alloc A n1 \<lparr>peer = None, wclosed = False, rlen = 0, roffset = 0, rsize = 17 * 1024, rbuf = None, request = 0\<rparr> = (True, x1)"
      "ring_alloc A n2 \<lparr>peer = None, wclosed = False, rlen = 0, roffset = 0, rsize = 17 * 1024, rbuf = None, request = 0\<rparr> = (True, x2)"
    and s': "s' = put_bio a2 (b2\<lparr>init := True, bptr := PairPtr (x2\<lparr>peer := Some a1, wclosed := False, request := 0\<rparr>)\<rparr>)
        (put_bio a1 (b1\<lparr>init := True, bptr := PairPtr (x1\<lparr>peer := Some a2, wclosed := False, request := 0\<rparr>)\<rparr>) s2)"
    by (auto simp: bio_make_pair_def pair_of_def split: prod.splits bool.splits if_splits)
  note R = ring_alloc_new [OF r(1)] ring_alloc_new [OF r(2)]
  show ?thesis
    using ne b R assms(2,3) by (simp add: s' pair_inv_def pair_half_def ring_at_def pair_of_def)
qed

end
