(* ===== verification/Bio_Asn1.thy ===== *)
theory Bio_Asn1
  imports Bio_Mem Bio_Pair Der
begin

text \<open>
  Reading one ASN.1 element from a BIO: \<open>BIO_read_asn1\<close> over any BIO whose \<open>BIO_read\<close> delivers the
  bytes that are pending (a \<open>bio_source\<close>). Memory BIOs and the ends of a pair are such sources.
\<close>

locale bio_source =
  fixes inv :: "bio_heap \<Rightarrow> bool" and pending :: "bio_heap \<Rightarrow> bytes" and bio :: "bio_addr option"
  assumes read_law: "inv s \<Longrightarrow> n \<le> 2147483647 \<Longrightarrow>
      \<exists>r x s'. BIO_read bio (int n) s = Some (r, x, s') \<and> inv s' \<and> pending s = x @ pending s' \<and> length x = nat r
        \<and> length x \<le> n \<and> (0 < n \<and> pending s \<noteq> [] \<longrightarrow> r = int (min n (length (pending s))))"
    and read_none: "inv s \<Longrightarrow> BIO_read bio 0 s = Some (0, [], s)"

interpretation mem_source: bio_source "mem_inv a" "mem_contents_at a" "Some a" for a
proof (unfold_locales, goal_cases)
  case (1 s n)
  then show ?case by (rule mem_queue.get_law)
next
  case (2 s)
  then show ?case by (auto simp: mem_inv_def mem_ok_def BIO_read_def)
qed

interpretation pair_source: bio_source "pair_inv a p" "pair_pending p" "Some a" for a p
proof (unfold_locales, goal_cases)
  case (1 s n)
  then show ?case using BIO_read_pair [of a p s n] by blast
next
  case (2 s)
  then show ?case by (auto elim!: pair_invE simp: pair_half_def BIO_read_def)
qed

lemma low_tag:
  assumes "tag_number t < 0x1f"
  obtains b where "der_tag t = [b]" "b AND 0x1f \<noteq> 0x1f"
proof -
  define x :: u8 where "x = ucast (tag_number t)"
  have lt: "unat (tag_number t) < 31" using assms by (simp add: word_less_nat_alt)
  then have ux: "unat x = unat (tag_number t)" by (simp add: x_def unsigned_ucast_eq take_bit_nat_eq_self)
  have "take_bit 5 x = x"
    unfolding take_bit_eq_self_iff_drop_bit_eq_0 drop_bit_eq_0_iff_less using ux lt by simp
  then have x: "x AND 0x1f = x" by (simp add: masks8 take_bit_eq_mask)
  then have "x AND 0xe0 = 0" by (metis and_0x1f_high)
  then have "(tag_bits t OR x) AND 0x1f = x" by (rule tag_bits_low)
  moreover have "x \<noteq> 0x1f" using ux lt by auto
  ultimately show thesis using assms by (intro that [of "tag_bits t OR x"]) (auto simp: der_tag_def x_def)
qed

text \<open>The length octets of DER, as \<open>BIO_read_asn1\<close> reads them back.\<close>

lemma asn1_len32_be_bytes:
  assumes "128 \<le> n" and "n < 2 ^ 32"
  shows "asn1_len32 (be_bytes (len_octets n) n) = Some n"
proof -
  define k where "k = len_octets n"
  have k: "0 < k" "k \<le> 4" "n < 256 ^ k" "1 < k \<Longrightarrow> 256 ^ (k - 1) \<le> n"
    using len_octets_bounds [of n] assms by (simp_all add: k_def)
  have v: "unat (foldl (\<lambda>l b. push_bit 8 l OR ucast b) 0 (be_bytes k n) :: u32) = n"
    using foldl_shift_or_be_val [of "0 :: u32" "be_bytes k n"] k assms(2)
    by (simp add: unat_of_nat)
  have "\<not> n < 2 ^ ((k - 1) * 8)"
    using k assms(1) by (cases "k = 1") (auto simp: power_mult mult.commute [of _ 8])
  then have "drop_bit ((k - 1) * 8) (foldl (\<lambda>l b. push_bit 8 l OR ucast b) 0 (be_bytes k n) :: u32) \<noteq> 0"
    by (simp add: drop_bit_eq_0_iff_less v)
  then show ?thesis
    using v assms(1) by (simp add: asn1_len32_def Let_def k_def [symmetric] word_less_nat_alt)
qed

section \<open>Reading an element\<close>

context bio_source begin

lemma read_exact:
  assumes "inv s" and "length x \<le> 2147483647" and "pending s = x @ rest"
  shows "\<exists>s'. BIO_read bio (int (length x)) s = Some (int (length x), x, s') \<and> inv s' \<and> pending s' = rest"
proof (cases "x = []")
  case True
  then show ?thesis using assms read_none [OF assms(1)] by simp
next
  case False
  obtain r y s' where *: "BIO_read bio (int (length x)) s = Some (r, y, s')" "inv s'" "pending s = y @ pending s'"
    "length y = nat r" "0 < length x \<and> pending s \<noteq> [] \<longrightarrow> r = int (min (length x) (length (pending s)))"
    using read_law [OF assms(1,2)] by blast
  have "r = int (min (length x) (length x + length rest))" using *(5) False unfolding assms(3) by simp
  then have r: "r = int (length x)" by simp
  then have "y = x" "pending s' = rest" using *(3,4) assms(3) by auto
  then show ?thesis using *(1,2) r by simp
qed

lemma read_body:
  assumes "inv s" and "pending s = body @ rest" and "length header + length body \<le> max_len"
    and "length body \<le> 2147483647" and "max_len \<le> size_max" and "A (length header + length body) \<noteq> None"
    and "header \<noteq> []" and "length header \<le> 8"
  shows "\<exists>s'. read_asn1_body A bio max_len header (length body) s = Some (Some (header @ body), s')
    \<and> inv s' \<and> pending s' = rest"
proof -
  have add: "size_add (length body) (length header) = length header + length body" using assms(3,5) by simp
  obtain out where out: "OPENSSL_malloc A (length header + length body) = Some out"
    "length out = length header + length body"
    using assms by (auto simp: OPENSSL_malloc_def)
  obtain s' where s': "BIO_read bio (int (length body)) s = Some (int (length body), body, s')" "inv s'" "pending s' = rest"
    using read_exact [OF assms(1,4,2)] by blast
  have "mem_write (mem_write out 0 header) (length header) body = header @ body"
    using out(2) by (simp add: mem_write_def)
  then show ?thesis
    using assms s' out by (simp add: read_asn1_body_def add Let_def int_of_size_small)
qed

theorem read_asn1:
  assumes "inv s" and "pending s = der_element t body @ rest" and "tag_number t < 0x1f"
    and "length (der_element t body) \<le> max_len" and "length body \<le> 2147483647" and "max_len \<le> size_max"
    and alloc: "A (length (der_element t body)) \<noteq> None"
  shows "\<exists>s'. BIO_read_asn1 A bio max_len s = Some (Some (der_element t body), s') \<and> inv s' \<and> pending s' = rest"
proof -
  obtain b where b: "der_tag t = [b]" "b AND 0x1f \<noteq> 0x1f" using assms(3) by (rule low_tag)
  show ?thesis
  proof (cases "length body < 128")
    case True
    define lb :: u8 where "lb = of_nat (length body)"
    have lb: "lb AND 0x80 = 0" "unat lb = length body" using True by (simp_all add: lb_def unat_of_nat_u8 u8_cases_high)
    have el: "der_element t body = [b, lb] @ body" using True b by (simp add: der_element_def der_len_def lb_def)
    obtain s1 where s1: "BIO_read bio 2 s = Some (2, [b, lb], s1)" "inv s1" "pending s1 = body @ rest"
      using read_exact [OF assms(1), of "[b, lb]" "body @ rest"] assms(2) by (auto simp: el)
    have "\<exists>s'. read_asn1_body A bio max_len [b, lb] (length body) s1 = Some (Some ([b, lb] @ body), s')
        \<and> inv s' \<and> pending s' = rest"
      using assms by (intro read_body s1) (simp_all add: el)
    then show ?thesis using s1(1) b(2) lb by (simp add: BIO_read_asn1_def el Let_def)
  next
    case False
    define k where "k = len_octets (length body)"
    define lb :: u8 where "lb = of_nat (128 + k)"
    define ds where "ds = be_bytes k (length body)"
    have k: "0 < k" "k \<le> 4" using len_octets_bounds [of "length body"] assms(5) by (simp_all add: k_def)
    have "unat lb = 128 + k" using k by (simp add: lb_def unat_of_nat_u8 del: of_nat_add)
    then have lb: "lb AND 0x80 \<noteq> 0" "unat (lb AND 0x7f) = k" using k by (simp_all add: u8_cases_high)
    have ds: "length ds = k" "asn1_len32 ds = Some (length body)"
      using asn1_len32_be_bytes [of "length body"] False assms(5) by (simp_all add: ds_def k_def)
    have el: "der_element t body = ([b, lb] @ ds) @ body"
      using False b by (simp add: der_element_def der_len_def lb_def ds_def k_def)
    obtain s1 where s1: "BIO_read bio 2 s = Some (2, [b, lb], s1)" "inv s1" "pending s1 = ds @ body @ rest"
      using read_exact [OF assms(1), of "[b, lb]" "ds @ body @ rest"] assms(2) by (auto simp: el)
    obtain s2 where s2: "BIO_read bio (int k) s1 = Some (int k, ds, s2)" "inv s2" "pending s2 = body @ rest"
      using read_exact [OF s1(2), of ds "body @ rest"] s1(3) ds(1) k by auto
    have "\<exists>s'. read_asn1_body A bio max_len ([b, lb] @ ds) (length body) s2 = Some (Some (([b, lb] @ ds) @ body), s')
        \<and> inv s' \<and> pending s' = rest"
      using assms k ds(1) by (intro read_body s2) (simp_all add: el)
    then show ?thesis using s1(1) s2(1) b(2) lb ds k by (simp add: BIO_read_asn1_def el Let_def)
  qed
qed

end

end
