(* ===== verification/Bio_Life.thy ===== *)
theory Bio_Life
  imports Bio_Asn1
begin

text \<open>
  The life of a BIO: memory BIOs from creation on, the read-only ones with their reset, reference
  counts, and the release of one end of a pair.
\<close>

section \<open>Memory BIOs\<close>

lemma BIO_new_mem:
  assumes "BIO_new A mem_method s = (Some a, s0)"
  shows "mem_inv a s0" and "mem_contents_at a s0 = []"
  using assms
  by (auto simp: BIO_new_def bio_create_def mem_new_def mem_inv_def mem_ok_def mem_contents_at_def mem_pending_def
      buf_mem_ok_def BUF_MEM_new_def split: if_splits)

text \<open>A read-only memory BIO over the bytes \<open>d\<close>: its \<open>data\<close> pointer stands where reading stopped.\<close>

definition mem_ro :: "bytes \<Rightarrow> bio_st \<Rightarrow> bool" where
  "mem_ro d b \<longleftrightarrow> bmethod b = mem_method \<and> init b \<and> flags b AND BIO_FLAGS_MEM_RDONLY \<noteq> 0 \<and>
     (\<exists>m off. bptr b = MemPtr m off \<and> mem_data m = d \<and> mem_max m = length d \<and> off + mem_length m = length d)"

lemma BIO_new_mem_buf_ro:
  assumes "BIO_new_mem_buf A (Some d) (int (length d)) s = Some (Some a, s0)"
  obtains b where "bios s0 a = Some b" "mem_ro d b" "bio_num b = 0" "mem_pending b = d"
  using assms
  by (auto simp: BIO_new_mem_buf_def BIO_new_def bio_create_def mem_new_def mem_ro_def mem_pending_def bind_eq_Some_conv Let_def
      split: if_splits)

lemma mem_ro_ok: "mem_ro d b \<Longrightarrow> bio_num b \<le> 0 \<Longrightarrow> length d \<le> size_max \<Longrightarrow> mem_ok b"
  by (auto simp: mem_ro_def mem_ok_def buf_mem_ok_def)

lemma mem_read_ro:
  assumes "mem_ro d b" and "mem_read n b = Some (r, out, b')" and "n \<le> 2147483647"
  shows "mem_ro d b'"
proof -
  obtain m off where m: "bptr b = MemPtr m off" "mem_data m = d" "mem_max m = length d" "off + mem_length m = length d"
    and b: "bmethod b = mem_method" "init b" "flags b AND BIO_FLAGS_MEM_RDONLY \<noteq> 0"
    using assms(1) by (auto simp: mem_ro_def)
  show ?thesis
    using assms(2,3) m b
    by (auto simp: mem_read_def Let_def mem_ro_def BIO_clear_retry_flags_def BIO_set_retry_read_def split: if_splits)
qed

definition ro_inv :: "bytes \<Rightarrow> bio_addr \<Rightarrow> bio_heap \<Rightarrow> bool" where
  "ro_inv d a s \<longleftrightarrow> mem_inv a s \<and> (\<exists>b. bios s a = Some b \<and> mem_ro d b)"

lemma mem_ro_count [simp]:
  "mem_ro d (b\<lparr>num_read := x\<rparr>) = mem_ro d b" "mem_ro d (b\<lparr>num_write := x\<rparr>) = mem_ro d b"
  by (simp_all add: mem_ro_def)

lemma bios_count:
  "bios (count_read a r s) a = map_option (\<lambda>b. if r > 0 then b\<lparr>num_read := size_add (num_read b) (nat r)\<rparr> else b) (bios s a)"
  "bios (count_write a r s) a = map_option (\<lambda>b. if r > 0 then b\<lparr>num_write := size_add (num_write b) (nat r)\<rparr> else b) (bios s a)"
  by (simp_all add: count_read_def count_write_def split: option.splits)

text \<open>Whatever is called, nothing is written to a read-only BIO.\<close>

lemma BIO_write_ro:
  assumes "ro_inv d a s" and "x \<noteq> []"
  shows "BIO_write A (Some a) x (int (length x)) s = Some (-1, s)"
  using assms
  by (auto simp: ro_inv_def mem_ro_def BIO_write_def bio_bwrite_def mem_bio_write_def count_write_def put_bio_def
      fun_upd_idem)

lemma BIO_read_ro:
  assumes "ro_inv d a s" and "n \<le> 2147483647"
  shows "\<exists>r x s'. BIO_read (Some a) (int n) s = Some (r, x, s') \<and> ro_inv d a s'
    \<and> mem_contents_at a s = x @ mem_contents_at a s'"
proof -
  obtain r x s' where 1: "BIO_read (Some a) (int n) s = Some (r, x, s')" "mem_inv a s'"
    "mem_contents_at a s = x @ mem_contents_at a s'"
    using mem_queue.get_law [of a s n] assms by (auto simp: ro_inv_def)
  have "\<exists>b. bios s' a = Some b \<and> mem_ro d b"
  proof (cases "n = 0")
    case True
    then show ?thesis using 1(1) assms(1) by (auto simp: BIO_read_def ro_inv_def mem_ro_def)
  next
    case False
    obtain b where b: "bios s a = Some b" "mem_ro d b" "init b" "bmethod b = mem_method"
      using assms(1) by (auto simp: ro_inv_def mem_ro_def)
    obtain b' where "mem_read (int n) b = Some (r, x, b')" "s' = count_read a r (put_bio a b' s)"
      using 1(1) b False by (auto simp: BIO_read_def bio_bread_def bind_eq_Some_conv)
    then show ?thesis using mem_read_ro [OF b(2), of "int n"] assms(2) by (auto simp: bios_count)
  qed
  with 1 show ?thesis by (auto simp: ro_inv_def)
qed

lemma ro_run:
  assumes "ro_inv d a s" and "\<forall>p \<in> set ops. int_sized p"
  shows "\<exists>g s'. run_queue (\<lambda>d. BIO_write A (Some a) d (int (length d))) (\<lambda>n. BIO_read (Some a) (int n)) ops s = Some ([], g, s')
    \<and> ro_inv d a s' \<and> mem_contents_at a s = g @ mem_contents_at a s'"
  using assms
proof (induction ops arbitrary: s)
  case (Cons p ops)
  show ?case
  proof (cases p)
    case (Put x)
    have "BIO_write A (Some a) x (int (length x)) s = Some (if x = [] then 0 else -1, s)"
      using BIO_write_ro [OF Cons.prems(1)] Cons.prems(1) by (auto simp: BIO_write_def ro_inv_def mem_ro_def)
    then show ?thesis using Cons.IH [OF Cons.prems(1)] Cons.prems(2) Put by auto
  next
    case (Get n)
    with Cons.prems obtain r x s1 where 1: "BIO_read (Some a) (int n) s = Some (r, x, s1)" "ro_inv d a s1"
      "mem_contents_at a s = x @ mem_contents_at a s1"
      using BIO_read_ro [of d a s n] by auto
    with Cons.IH [OF 1(2)] Cons.prems Get show ?thesis by auto
  qed
qed simp

lemma BIO_reset_ro:
  assumes "ro_inv d a s"
  shows "\<exists>s'. BIO_reset (Some a) s = Some (1, NoOut, s') \<and> ro_inv d a s' \<and> mem_contents_at a s' = d"
  using assms
  by (auto simp: ro_inv_def mem_inv_def mem_ro_def mem_ok_def BIO_reset_def BIO_ctrl_def mem_ctrl_def mem_of_def
      mem_contents_at_def mem_pending_def buf_mem_ok_def put_bio_def)

section \<open>Reference counts\<close>

text \<open>A reference that is taken and dropped again leaves the heap as it was; a saturated count stays,
  so its BIO is never released.\<close>

lemma ref_balance:
  assumes "bios s a = Some b" and "references b \<noteq> 0" and "references b < CRYPTO_REFCOUNT_MAX - 1"
  shows "\<exists>s'. BIO_up_ref a s = Some (1, s') \<and> BIO_free (Some a) s' = Some (0, s)"
proof -
  define c where "c = references b"
  have m: "unat (- 1 :: u32) = 4294967295" by (simp add: unsigned_minus_1_eq_mask mask_eq_exp_minus_1)
  have c: "c + 1 \<noteq> CRYPTO_REFCOUNT_MAX" "c \<noteq> CRYPTO_REFCOUNT_MAX" "c + 1 \<noteq> 0" "c \<noteq> 0"
    using assms(2,3) by (auto simp: c_def m word_less_nat_alt unat_eq_0 eq_neg_iff_add_eq_0 [symmetric])
  have "put_bio a (b\<lparr>references := c\<rparr>) s = s" using assms(1) by (simp add: put_bio_def fun_upd_idem c_def)
  then show ?thesis
    using assms(1) c
    by (simp add: BIO_up_ref_def CRYPTO_refcount_inc_def c_def [symmetric] BIO_free.simps [of "Some a"]
        CRYPTO_refcount_dec_and_test_zero_def)
qed

section \<open>Releasing one end of a pair\<close>

lemma free_pair_end:
  assumes "pair_inv a p s" and "bios s a = Some b" and "references b = 1" and "next_bio b = None"
  shows "\<exists>s' c. BIO_free (Some a) s = Some (1, s') \<and> bios s' a = None \<and> bios s' p = Some c
    \<and> \<not> init c \<and> (\<exists>y. pair_of c = Some y \<and> peer y = None \<and> rlen y = 0 \<and> roffset y = 0) \<and> bmethod c = methods_biop
    \<and> references c = references (the (bios s p)) \<and> next_bio c = next_bio (the (bios s p))
    \<and> (\<forall>q. q \<noteq> a \<and> q \<noteq> p \<longrightarrow> bios s' q = bios s q)"
proof -
  obtain x c y where ap: "a \<noteq> p" "p \<noteq> a" and b: "pair_half p b x" and c: "bios s p = Some c" "pair_half a c y"
    using assms(1,2) by (auto elim: pair_invE)
  obtain d e where "rbuf x = Some d" "rbuf y = Some e" using b c by (auto simp: pair_half_def elim!: ring_ok_simps)
  then show ?thesis
    using assms(2-4) ap b c
    by (simp add: BIO_free.simps [of "Some a"] BIO_free.simps [of None] CRYPTO_refcount_dec_and_test_zero_def
        BIO_pop_def bio_destroy_def bio_free_def bio_destroy_pair_def pair_of_def pair_half_def)
qed

end
