(* ===== verification/Bio_Props.thy ===== *)
theory Bio_Props
  imports Bio_Life Ex_Alloc
begin

text \<open>
  What the users of \<open>crypto/bio\<close> rely on, stated over the calls they make, from the creation of the
  BIOs on.
\<close>

section \<open>The concrete heap of the examples\<close>

definition ex_heap :: bio_heap where
  "ex_heap = \<lparr>bios = \<lambda>_. None, fresh = 0, g_index = 128\<rparr>"

lemma ex_pair_exists: "\<exists>s. BIO_new_bio_pair ex_alloc 3 0 ex_heap = Some (Some (0, 1), s)"
  by (simp add: BIO_new_bio_pair_def BIO_new_def ex_alloc_def bio_create_def bio_new_def put_bio_def ex_heap_def
      bio_make_pair_def pair_of_def ring_alloc_def OPENSSL_malloc_def)

definition ex_pair :: bio_heap where
  "ex_pair = snd (the (BIO_new_bio_pair ex_alloc 3 0 ex_heap))"

lemma ex_pair: "BIO_new_bio_pair ex_alloc 3 0 ex_heap = Some (Some (0, 1), ex_pair)"
  using ex_pair_exists by (auto simp: ex_pair_def)

lemmas ex_pair_inv = BIO_new_bio_pair_ok [OF ex_pair]

lemma ex_pair_ring:
  "ring_at 0 ex_pair = \<lparr>peer = Some 1, wclosed = False, rlen = 0, roffset = 0, rsize = 3, rbuf = Some [0, 0, 0], request = 0\<rparr>"
  "\<exists>b. bios ex_pair 0 = Some b \<and> references b = 1 \<and> next_bio b = None"
proof -
  have "map (\<lambda>_. 0 :: u8) [0..<3] = [0, 0, 0]" by (simp add: upt_conv_Cons)
  then show "ring_at 0 ex_pair = \<lparr>peer = Some 1, wclosed = False, rlen = 0, roffset = 0, rsize = 3,
      rbuf = Some [0, 0, 0], request = 0\<rparr>" "\<exists>b. bios ex_pair 0 = Some b \<and> references b = 1 \<and> next_bio b = None"
    by (simp_all add: ex_pair_def BIO_new_bio_pair_def BIO_new_def ex_alloc_def bio_create_def bio_new_def put_bio_def
        ex_heap_def bio_make_pair_def pair_of_def ring_alloc_def OPENSSL_malloc_def ring_at_def)
qed

lemma ex_buf: "\<exists>s. BIO_new_mem_buf ex_alloc (Some d) (int (length d)) ex_heap = Some (Some 0, s)"
  by (simp add: BIO_new_mem_buf_def BIO_new_def ex_alloc_def bio_create_def mem_new_def put_bio_def ex_heap_def Let_def)

lemma ex_mem: "\<exists>s. BIO_new ex_alloc mem_method ex_heap = (Some 0, s)"
  by (simp add: BIO_new_def ex_alloc_def bio_create_def mem_new_def put_bio_def ex_heap_def)

section \<open>Properties\<close>

text \<open>C2. A BIO pair is a reliable full-duplex stream: after \<open>BIO_new_bio_pair\<close>, any interleaving of
  \<open>BIO_write\<close> and \<open>BIO_read\<close> calls at the two ends completes without a failed assertion or a loop
  that does not end, and at every end what was read there, followed by what is still buffered, is
  exactly what the other end's writes accepted, in order.\<close>

theorem bio_pair_stream:
  assumes "BIO_new_bio_pair A n1 n2 s = Some (Some (a, p), s0)" and "n1 < 2 ^ 63" and "n2 < 2 ^ 63"
    and "\<forall>op \<in> set ops. int_sized (snd op)"
  shows "\<exists>h. run_duplex (by_side (pair_put A a) (pair_put A p)) (by_side (pair_get a) (pair_get p)) ops s0 = Some h
    \<and> pair_inv a p (final h)
    \<and> sentA h = gotB h @ pair_pending a (final h) \<and> sentB h = gotA h @ pair_pending p (final h)"
  using bio_pair.duplex_fifo [of a p s0 ops A] BIO_new_bio_pair_ok [OF assms(1-3)] assms(4) by auto

lemma bio_pair_stream_witness:
  "\<exists>h. run_duplex (by_side (pair_put ex_alloc 0) (pair_put ex_alloc 1)) (by_side (pair_get 0) (pair_get 1))
      [(SideA, Put [1, 2, 3, 4]), (SideB, Get 2), (SideA, Put [5]), (SideB, Put [9]), (SideB, Get 7), (SideA, Get 1)] ex_pair
      = Some h \<and> sentA h = gotB h @ pair_pending 0 (final h)"
  using bio_pair_stream [OF ex_pair, of
      "[(SideA, Put [1, 2, 3, 4]), (SideB, Get 2), (SideA, Put [5]), (SideB, Put [9]), (SideB, Get 7), (SideA, Get 1)]"]
  by auto

text \<open>C33. The write guarantee of a pair is kept: a write of at most as many bytes as
  \<open>BIO_ctrl_get_write_guarantee\<close> answers is accepted in full, and the bytes are queued for the other end.\<close>

theorem write_guarantee_kept:
  assumes "pair_inv a p s" and "BIO_ctrl_get_write_guarantee (Some a) s = Some (g, ans, s1)"
    and "int (length d) \<le> g" and "length d \<le> 2147483647"
  shows "\<exists>s2. BIO_write A (Some a) d (int (length d)) s1 = Some (int (length d), s2)
    \<and> pair_pending a s2 = pair_pending a s @ d"
proof -
  obtain b x where b: "bios s a = Some b" "pair_half p b x" "ring_at a s = x" using assms(1) by (rule pair_invE)
  then have ok: "rlen x \<le> rsize x" "rsize x < 2 ^ 63" by (auto simp: pair_half_def elim: ring_ok_simps)
  have "sint (of_nat (rsize x) - of_nat (rlen x) :: 64 word) = int (rsize x - rlen x)"
    using ok by (simp flip: of_nat_diff add: signed_of_nat signed_take_bit_int_eq_self)
  then have g: "s1 = s" "g = (if wclosed x then 0 else int (rsize x - rlen x))"
    using assms(2) b
    by (auto simp: BIO_ctrl_get_write_guarantee_def BIO_ctrl_def bio_ctrl_def pair_half_def pair_of_def split: if_splits)
  have "write_result x d = int (length d)"
    using assms(3) g(2) ok by (auto simp: write_result_def split: if_splits)
  then show ?thesis using BIO_write_pair [OF assms(1,4), of A] b(3) g(1) by auto
qed

lemma write_guarantee_kept_witness:
  "\<exists>s2. BIO_write ex_alloc (Some 0) [7, 8, 9] 3 ex_pair = Some (3, s2) \<and> pair_pending 0 s2 = [7, 8, 9]"
proof -
  have "BIO_ctrl_get_write_guarantee (Some 0) ex_pair = Some (3, NoOut, ex_pair)"
    using ex_pair_inv ex_pair_ring(1)
    by (auto simp: BIO_ctrl_get_write_guarantee_def BIO_ctrl_def bio_ctrl_def pair_half_def pair_of_def elim!: pair_invE)
  from write_guarantee_kept [OF _ this, of 1 "[7, 8, 9]" ex_alloc] ex_pair_inv show ?thesis by simp
qed

text \<open>C34. A memory BIO is a first-in first-out buffer: from \<open>BIO_new\<close> on, any sequence of writes and
  reads completes, and the bytes accepted are the bytes read followed by those still buffered.\<close>

theorem memory_bio_fifo:
  assumes "BIO_new A mem_method s = (Some a, s0)" and "\<forall>op \<in> set ops. int_sized op"
  shows "\<exists>w g s1. run_queue (\<lambda>d. BIO_write A (Some a) d (int (length d))) (\<lambda>n. BIO_read (Some a) (int n)) ops s0
      = Some (w, g, s1) \<and> w = g @ mem_contents_at a s1"
  using mem_queue.fifo [of a s0 ops A] BIO_new_mem [OF assms(1)] assms(2) by fastforce

lemma memory_bio_fifo_witness:
  "\<exists>s0 w g s1. run_queue (\<lambda>d. BIO_write ex_alloc (Some 0) d (int (length d))) (\<lambda>n. BIO_read (Some 0) (int n))
      [Put [1, 2, 3], Get 2, Put [4], Get 9] s0 = Some (w, g, s1) \<and> w = g @ mem_contents_at 0 s1"
proof -
  obtain s0 where s0: "BIO_new ex_alloc mem_method ex_heap = (Some 0, s0)" using ex_mem by blast
  show ?thesis using memory_bio_fifo [OF s0, of "[Put [1, 2, 3], Get 2, Put [4], Get 9]"] by auto
qed

text \<open>A read-only memory BIO never accepts a byte and can be rewound: whatever was read from it or
  attempted on it, \<open>BIO_reset\<close> brings the whole buffer back.\<close>

theorem mem_buf_rewinds:
  assumes "BIO_new_mem_buf A (Some d) (int (length d)) s = Some (Some a, s0)" and "length d \<le> size_max"
    and "\<forall>op \<in> set ops. int_sized op"
  shows "\<exists>g s1 s2. run_queue (\<lambda>d. BIO_write A (Some a) d (int (length d))) (\<lambda>n. BIO_read (Some a) (int n)) ops s0
      = Some ([], g, s1) \<and> d = g @ mem_contents_at a s1
    \<and> BIO_reset (Some a) s1 = Some (1, NoOut, s2) \<and> BIO_mem_contents a s2 = Some (Some d)"
proof -
  obtain b where b: "bios s0 a = Some b" "mem_ro d b" "bio_num b = 0" "mem_pending b = d"
    using assms(1) by (rule BIO_new_mem_buf_ro)
  then have "ro_inv d a s0" using assms(2) by (auto simp: ro_inv_def mem_inv_def mem_ro_ok)
  moreover have "mem_contents_at a s0 = d" using b by (simp add: mem_contents_at_def)
  ultimately obtain g s1 where
    run: "run_queue (\<lambda>d. BIO_write A (Some a) d (int (length d))) (\<lambda>n. BIO_read (Some a) (int n)) ops s0 = Some ([], g, s1)"
    and 1: "ro_inv d a s1" "d = g @ mem_contents_at a s1"
    using ro_run [OF _ assms(3), of d a s0 A] by auto
  obtain s2 where reset: "BIO_reset (Some a) s1 = Some (1, NoOut, s2)" and 2: "ro_inv d a s2" "mem_contents_at a s2 = d"
    using BIO_reset_ro [OF 1(1)] by blast
  have "BIO_mem_contents a s2 = Some (Some (mem_contents_at a s2))"
    using 2(1) by (auto simp: BIO_mem_contents_def ro_inv_def mem_ro_def mem_of_def mem_contents_at_def mem_pending_def)
  then have "BIO_mem_contents a s2 = Some (Some d)" by (simp only: 2)
  then show ?thesis
    by (intro exI [of _ g] exI [of _ s1] exI [of _ s2] conjI run 1(2) reset)
qed

lemma mem_buf_rewinds_witness:
  "\<exists>s0 g s1 s2. run_queue (\<lambda>d. BIO_write ex_alloc (Some 0) d (int (length d))) (\<lambda>n. BIO_read (Some 0) (int n))
      [Get 2, Put [4]] s0 = Some ([], g, s1) \<and> [1, 2, 3] = g @ mem_contents_at 0 s1
    \<and> BIO_reset (Some 0) s1 = Some (1, NoOut, s2) \<and> BIO_mem_contents 0 s2 = Some (Some [1, 2, 3])"
proof -
  obtain s0 where s0: "BIO_new_mem_buf ex_alloc (Some [1, 2, 3]) (int (length [1, 2, 3 :: u8])) ex_heap = Some (Some 0, s0)"
    using ex_buf by blast
  show ?thesis using mem_buf_rewinds [OF s0, of "[Get 2, Put [4]]"] by auto
qed

text \<open>\<open>BIO_read_asn1\<close> takes exactly one DER element from a BIO: if the pending bytes of a pair's
  other end start with an element with a low tag number that fits the limit, it is returned whole
  and the bytes behind it stay in the BIO.\<close>

theorem read_asn1_takes_one_element:
  assumes "pair_inv a p s" and "pair_pending p s = der_element t body @ rest" and "tag_number t < 0x1f"
    and "length (der_element t body) \<le> max_len" and "length body \<le> 2147483647" and "max_len \<le> size_max"
    and "A (length (der_element t body)) \<noteq> None"
  shows "\<exists>s'. BIO_read_asn1 A (Some a) max_len s = Some (Some (der_element t body), s')
    \<and> pair_inv a p s' \<and> pair_pending p s' = rest"
  by (rule pair_source.read_asn1 [where A = A, OF assms])

lemma read_asn1_takes_one_element_witness:
  "\<exists>s s'. BIO_write ex_alloc (Some 0) [4, 1, 7] 3 ex_pair = Some (3, s)
    \<and> BIO_read_asn1 ex_alloc (Some 1) 100 s = Some (Some [4, 1, 7], s') \<and> pair_pending 0 s' = []"
proof -
  have "write_result (ring_at 0 ex_pair) [4, 1, 7] = 3" by (simp add: ex_pair_ring write_result_def)
  then obtain s where s: "BIO_write ex_alloc (Some 0) [4, 1, 7] 3 ex_pair = Some (3, s)" "pair_inv 0 1 s"
    "pair_pending 0 s = [4, 1, 7]"
    using BIO_write_pair [of 0 1 ex_pair "[4, 1, 7]" ex_alloc] ex_pair_inv by auto
  have "der_element 4 [7] = [4, 1, 7]" and t: "tag_number 4 < 0x1f" by code_simp+
  then show ?thesis
    using read_asn1_takes_one_element [of 1 0 s 4 "[7]" "[]" 100 ex_alloc] s by (auto simp: pair_inv_sym ex_alloc_def)
qed

text \<open>C35. Releasing one end of a pair leaves the other end in a safe state: it is detached and its buffer is emptied,
  with read position and length back at 0, so that nothing written before can come out of it again; a write
  or a read there answers -2 (not initialised) instead of touching the released end, nothing is pending, and no
  other BIO changes.\<close>

theorem free_pair_end_safe:
  assumes "pair_inv a p s" and "bios s a = Some b" and "references b = 1" and "next_bio b = None"
  shows "\<exists>s' c y. BIO_free (Some a) s = Some (1, s') \<and> bios s' a = None
    \<and> bios s' p = Some c \<and> \<not> init c \<and> pair_of c = Some y \<and> peer y = None \<and> rlen y = 0 \<and> roffset y = 0
    \<and> BIO_write A (Some p) d n s' = Some (-2, s') \<and> BIO_read (Some p) n s' = Some (-2, [], s')
    \<and> BIO_pending (Some p) s' = Some 0 \<and> (\<forall>q. q \<noteq> a \<and> q \<noteq> p \<longrightarrow> bios s' q = bios s q)"
proof -
  obtain s' c y where "BIO_free (Some a) s = Some (1, s')" "bios s' a = None" "bios s' p = Some c" "\<not> init c"
    "pair_of c = Some y" "peer y = None" "rlen y = 0" "roffset y = 0" "bmethod c = methods_biop"
    "\<forall>q. q \<noteq> a \<and> q \<noteq> p \<longrightarrow> bios s' q = bios s q"
    using free_pair_end [OF assms] by blast
  then show ?thesis by (simp add: BIO_write_def BIO_read_def BIO_pending_def BIO_ctrl_def bio_ctrl_def)
qed

lemma free_pair_end_safe_witness:
  "\<exists>s'. BIO_free (Some 0) ex_pair = Some (1, s') \<and> BIO_write ex_alloc (Some 1) [1] 1 s' = Some (-2, s')"
proof -
  obtain b where "bios ex_pair 0 = Some b" "references b = 1" "next_bio b = None" using ex_pair_ring(2) by blast
  then show ?thesis
    using free_pair_end_safe [of 0 1 ex_pair b ex_alloc "[1]" 1] ex_pair_inv by auto
qed

text \<open>Reference counting is balanced: below saturation, \<open>BIO_free\<close> after \<open>BIO_up_ref\<close> releases
  nothing and restores the heap exactly.\<close>

theorem up_ref_free_balanced:
  assumes "bios s a = Some b" and "references b \<noteq> 0" and "references b < 0xFFFFFFFE"
  shows "\<exists>s'. BIO_up_ref a s = Some (1, s') \<and> BIO_free (Some a) s' = Some (0, s)"
  using ref_balance [OF assms(1,2)] assms(3) by simp

lemma up_ref_free_balanced_witness:
  "\<exists>s'. BIO_up_ref 0 ex_pair = Some (1, s') \<and> BIO_free (Some 0) s' = Some (0, ex_pair)"
proof -
  obtain b where "bios ex_pair 0 = Some b" "references b = 1" "next_bio b = None" using ex_pair_ring(2) by blast
  then show ?thesis using up_ref_free_balanced [of ex_pair 0 b] by simp
qed

end
