(* ===== verification/Lhash.thy ===== *)
theory Lhash
  imports Mem "HOL-Library.Multiset"
begin

text \<open>
  The hash table of BoringSSL (\<open>crypto/lhash/lhash.c\<close>): separate chaining with cached hash values,
  resized so that the average chain stays short. The table stores pointers to the caller's data: a
  value of type \<open>'a\<close>; a null result is \<open>None\<close>. A \<open>LHASH_ITEM **\<close> into the table is a bucket and a
  position in its chain, the position after the last item being the null pointer at its end. A
  failed assertion is \<open>None\<close> as the result of the whole call.
\<close>

section \<open>Data\<close>

record 'a LHASH_ITEM =
  item_data :: 'a
  item_hash :: u32

record 'a LHASH =
  num_items :: nat
  buckets :: "'a LHASH_ITEM list list"
  num_buckets :: nat
  callback_depth :: u32
  lh_comp :: "'a \<Rightarrow> 'a \<Rightarrow> int"
  lh_hash :: "'a \<Rightarrow> u32"

abbreviation (input) kMinNumBuckets :: nat where "kMinNumBuckets \<equiv> 16"
abbreviation (input) kMaxAverageChainLength :: nat where "kMaxAverageChainLength \<equiv> 2"
abbreviation (input) kMinAverageChainLength :: nat where "kMinAverageChainLength \<equiv> 1"
abbreviation (input) UINT_MAX :: u32 where "UINT_MAX \<equiv> 0xFFFFFFFF"

section \<open>Operations\<close>

text \<open>\<open>lh_new\<close> allocates the 48 bytes of the structure and 16 pointers.\<close>

definition lh_new :: "alloc \<Rightarrow> ('a \<Rightarrow> u32) \<Rightarrow> ('a \<Rightarrow> 'a \<Rightarrow> int) \<Rightarrow> 'a LHASH option" where
  "lh_new A hash cmp =
     (if A 48 = None then None
      else if A (8 * kMinNumBuckets) = None then None
      else Some \<lparr>num_items = 0, buckets = replicate kMinNumBuckets [], num_buckets = kMinNumBuckets,
                 callback_depth = 0, lh_comp = cmp, lh_hash = hash\<rparr>)"

definition lh_num_items :: "'a LHASH \<Rightarrow> nat" where
  "lh_num_items lh = num_items lh"

text \<open>\<open>get_next_ptr_and_hash\<close>: the hash, the bucket and the position in the chain.\<close>

definition get_next_ptr_and_hash :: "'a LHASH \<Rightarrow> 'a \<Rightarrow> u32 \<times> nat \<times> nat" where
  "get_next_ptr_and_hash lh d =
     (let hash = lh_hash lh d; i = unat hash mod num_buckets lh
      in (hash, i, length (takeWhile (\<lambda>cur. lh_comp lh (item_data cur) d \<noteq> 0) (buckets lh ! i))))"

definition lh_retrieve :: "'a LHASH \<Rightarrow> 'a \<Rightarrow> 'a option" where
  "lh_retrieve lh d =
     (case get_next_ptr_and_hash lh d of
        (_, i, k) \<Rightarrow> if k = length (buckets lh ! i) then None else Some (item_data (buckets lh ! i ! k)))"

text \<open>The two loops of \<open>lh_rebucket\<close> push every item to the front of its new chain.\<close>

definition rebucket_item :: "nat \<Rightarrow> 'a LHASH_ITEM list list \<Rightarrow> 'a LHASH_ITEM \<Rightarrow> 'a LHASH_ITEM list list" where
  "rebucket_item new_num_buckets new_buckets cur =
     (let new_bucket = unat (item_hash cur) mod new_num_buckets
      in new_buckets[new_bucket := cur # new_buckets ! new_bucket])"

definition lh_rebucket :: "alloc \<Rightarrow> nat \<Rightarrow> 'a LHASH \<Rightarrow> 'a LHASH" where
  "lh_rebucket A new_num_buckets lh =
     (let alloc_size = size_mult 8 new_num_buckets
      in if alloc_size div 8 \<noteq> new_num_buckets then lh
         else if A alloc_size = None then lh
         else lh\<lparr>num_buckets := new_num_buckets,
                 buckets := foldl (foldl (rebucket_item new_num_buckets)) (replicate new_num_buckets []) (buckets lh)\<rparr>)"

definition lh_maybe_resize :: "alloc \<Rightarrow> 'a LHASH \<Rightarrow> 'a LHASH option" where
  "lh_maybe_resize A lh =
     (if callback_depth lh > 0 then Some lh
      else if \<not> num_buckets lh \<ge> kMinNumBuckets then None
      else
        (let avg_chain_length = num_items lh div num_buckets lh
         in if avg_chain_length > kMaxAverageChainLength then
              (let new_num_buckets = size_mult (num_buckets lh) 2
               in Some (if new_num_buckets > num_buckets lh then lh_rebucket A new_num_buckets lh else lh))
            else if avg_chain_length < kMinAverageChainLength \<and> num_buckets lh > kMinNumBuckets then
              (let new_num_buckets = num_buckets lh div 2;
                   new_num_buckets = (if new_num_buckets < kMinNumBuckets then kMinNumBuckets else new_num_buckets)
               in Some (lh_rebucket A new_num_buckets lh))
            else Some lh))"

text \<open>\<open>lh_insert\<close>: the result, \<open>*old_data\<close> and the table.\<close>

definition lh_insert :: "alloc \<Rightarrow> 'a LHASH \<Rightarrow> 'a \<Rightarrow> (bool \<times> 'a option \<times> 'a LHASH) option" where
  "lh_insert A lh d =
     (case get_next_ptr_and_hash lh d of
        (hash, i, k) \<Rightarrow>
          (let chain = buckets lh ! i
           in if k \<noteq> length chain then
                Some (True, Some (item_data (chain ! k)),
                  lh\<lparr>buckets := (buckets lh)[i := chain[k := (chain ! k)\<lparr>item_data := d\<rparr>]]\<rparr>)
              else if A 24 = None then Some (False, None, lh)
              else
                map_option (\<lambda>lh. (True, None, lh))
                  (lh_maybe_resize A
                     (lh\<lparr>buckets := (buckets lh)[i := chain @ [\<lparr>item_data = d, item_hash = hash\<rparr>]],
                         num_items := size_add (num_items lh) 1\<rparr>))))"

definition lh_delete :: "alloc \<Rightarrow> 'a LHASH \<Rightarrow> 'a \<Rightarrow> ('a option \<times> 'a LHASH) option" where
  "lh_delete A lh d =
     (case get_next_ptr_and_hash lh d of
        (_, i, k) \<Rightarrow>
          (let chain = buckets lh ! i
           in if k = length chain then Some (None, lh)
              else
                map_option (\<lambda>lh. (Some (item_data (chain ! k)), lh))
                  (lh_maybe_resize A
                     (lh\<lparr>buckets := (buckets lh)[i := take k chain @ drop (Suc k) chain],
                         num_items := size_add (num_items lh) (2 ^ 64 - 1)\<rparr>))))"

text \<open>\<open>lh_doall_internal\<close> with a callback that works on a state of its own and leaves the table alone;
  the callback sees the depth only through the table, so the counter is raised and lowered around it.\<close>

definition lh_doall_internal :: "alloc \<Rightarrow> 'a LHASH \<Rightarrow> ('a \<Rightarrow> 's \<Rightarrow> 's) \<Rightarrow> 's \<Rightarrow> ('s \<times> 'a LHASH) option" where
  "lh_doall_internal A lh func s =
     (let lh = (if callback_depth lh < UINT_MAX then lh\<lparr>callback_depth := callback_depth lh + 1\<rparr> else lh);
          s = foldl (foldl (\<lambda>s cur. func (item_data cur) s)) s (buckets lh);
          lh = (if callback_depth lh < UINT_MAX then lh\<lparr>callback_depth := callback_depth lh - 1\<rparr> else lh)
      in map_option (\<lambda>lh. (s, lh)) (lh_maybe_resize A lh))"

definition lh_strhash :: "bytes option \<Rightarrow> u32" where
  "lh_strhash c = (case c of None \<Rightarrow> 0 | Some s \<Rightarrow> OPENSSL_hash32 s)"

end
