(* ===== verification/Lhash_Correct.thy ===== *)
theory Lhash_Correct
  imports Lhash
begin

text \<open>
  The hash table as a finite map from classes of equal keys. The locale \<open>lh_contract\<close> states what the
  table requires of its client's hash and comparison functions; within it every operation is shown to
  keep the invariant and to have the effect of its counterpart on maps, whatever is resized and
  whichever allocation fails.
\<close>

section \<open>The items as a multiset\<close>

definition items :: "'a LHASH \<Rightarrow> 'a LHASH_ITEM multiset" where
  "items lh = mset (concat (buckets lh))"

lemma mset_concat_update:
  assumes "i < length bs"
  shows "mset (concat (bs[i := ch])) + mset (bs ! i) = mset (concat bs) + mset ch"
  using assms
proof (induction bs arbitrary: i)
  case (Cons b bs)
  then show ?case by (cases i) (simp_all add: ac_simps)
qed simp

definition placed :: "nat \<Rightarrow> 'a LHASH_ITEM list list \<Rightarrow> bool" where
  "placed n bs \<longleftrightarrow> length bs = n \<and> (\<forall>i < n. \<forall>c \<in> set (bs ! i). unat (item_hash c) mod n = i)"

lemma rebucket_item_ok:
  assumes "placed n bs" and "0 < n"
  shows "placed n (rebucket_item n bs c)" and "mset (concat (rebucket_item n bs c)) = add_mset c (mset (concat bs))"
proof -
  define i where "i = unat (item_hash c) mod n"
  have i: "i < length bs" using assms by (simp add: i_def placed_def)
  show "placed n (rebucket_item n bs c)"
    using assms by (auto simp: placed_def rebucket_item_def Let_def nth_list_update split: if_splits)
  show "mset (concat (rebucket_item n bs c)) = add_mset c (mset (concat bs))"
    using mset_concat_update [OF i, of "c # bs ! i"] by (simp add: rebucket_item_def Let_def i_def)
qed

lemma rebucket_chain_ok:
  assumes "placed n bs" and "0 < n"
  shows "placed n (foldl (rebucket_item n) bs ch) \<and> mset (concat (foldl (rebucket_item n) bs ch)) = mset (concat bs) + mset ch"
  using assms
proof (induction ch arbitrary: bs)
  case (Cons c ch)
  then show ?case using rebucket_item_ok [OF Cons.prems, of c] by simp
qed simp

lemma rebucket_ok:
  assumes "placed n bs" and "0 < n"
  shows "placed n (foldl (foldl (rebucket_item n)) bs chs)
    \<and> mset (concat (foldl (foldl (rebucket_item n)) bs chs)) = mset (concat bs) + mset (concat chs)"
  using assms
proof (induction chs arbitrary: bs)
  case (Cons ch chs)
  then show ?case using rebucket_chain_ok [OF Cons.prems, of ch] by (simp add: ac_simps)
qed simp

lemma placed_empty: "0 < n \<Longrightarrow> placed n (replicate n [])"
  by (simp add: placed_def)

lemma concat_replicate_Nil [simp]: "concat (replicate n []) = []"
  by (induction n) simp_all

text \<open>Updates of one chain.\<close>

lemma placed_update:
  assumes "placed n bs" and "\<And>c. c \<in> set ch \<Longrightarrow> unat (item_hash c) mod n = i"
  shows "placed n (bs[i := ch])"
proof -
  have "unat (item_hash c) mod n = j" if "j < n" "c \<in> set (bs[i := ch] ! j)" for c j
    using assms that by (cases "i = j") (auto simp: placed_def)
  then show ?thesis using assms(1) by (simp add: placed_def)
qed

lemma chain_split:
  assumes "i < length bs" and "k < length (bs ! i)"
  obtains N where "mset (concat bs) = add_mset (bs ! i ! k) N"
    "\<And>v. mset (concat (bs[i := (bs ! i)[k := v]])) = add_mset v N"
    "mset (concat (bs[i := take k (bs ! i) @ drop (Suc k) (bs ! i)])) = N"
proof -
  define ch where "ch = bs ! i"
  have ch: "ch = take k ch @ ch ! k # drop (Suc k) ch" using assms(2) by (simp add: ch_def id_take_nth_drop)
  define M where "M = mset (take k ch @ drop (Suc k) ch)"
  define N where "N = mset (concat (bs[i := take k ch @ drop (Suc k) ch]))"
  have m: "mset ch = add_mset (ch ! k) M" by (subst ch) (simp add: M_def)
  have "N + mset ch = mset (concat bs) + M" using mset_concat_update [OF assms(1)] by (simp add: N_def M_def ch_def)
  then have c: "mset (concat bs) = add_mset (ch ! k) N" by (simp add: m)
  have "ch[k := v] = take k ch @ v # drop (Suc k) ch" for v
    using assms(2) by (simp add: ch_def upd_conv_take_nth_drop)
  then have "mset (ch[k := v]) = add_mset v M" for v by (simp add: M_def)
  then have "mset (concat (bs[i := ch[k := v]])) + add_mset (ch ! k) M = add_mset (ch ! k) N + add_mset v M" for v
    using mset_concat_update [OF assms(1), of "ch[k := v]"] by (simp add: ch_def [symmetric] m c)
  then have "mset (concat (bs[i := ch[k := v]])) = add_mset v N" for v by simp
  with c that show thesis by (simp add: ch_def N_def)
qed

section \<open>The contract with the client\<close>

locale lh_contract =
  fixes hash :: "'a \<Rightarrow> u32" and cmp :: "'a \<Rightarrow> 'a \<Rightarrow> int"
  assumes cmp_refl: "cmp a a = 0"
    and cmp_sym: "cmp a b = 0 \<Longrightarrow> cmp b a = 0"
    and cmp_trans: "cmp a b = 0 \<Longrightarrow> cmp b c = 0 \<Longrightarrow> cmp a c = 0"
    and cmp_hash: "cmp a b = 0 \<Longrightarrow> hash a = hash b"

text \<open>No key occurs twice.\<close>

definition uniq :: "('a \<Rightarrow> 'a \<Rightarrow> int) \<Rightarrow> 'a LHASH_ITEM multiset \<Rightarrow> bool" where
  "uniq cmp M \<longleftrightarrow> (\<forall>x. size {#c \<in># M. cmp (item_data c) x = 0#} \<le> 1)"

text \<open>The invariant of the table: the items are in the buckets of their hashes, no two have equal
  keys, and \<open>num_items\<close> counts them.\<close>

definition lh_ok :: "('a \<Rightarrow> u32) \<Rightarrow> ('a \<Rightarrow> 'a \<Rightarrow> int) \<Rightarrow> 'a LHASH \<Rightarrow> bool" where
  "lh_ok hash cmp lh \<longleftrightarrow> lh_hash lh = hash \<and> lh_comp lh = cmp
     \<and> kMinNumBuckets \<le> num_buckets lh \<and> num_buckets lh \<le> size_max div 8 \<and> placed (num_buckets lh) (buckets lh)
     \<and> num_items lh = length (concat (buckets lh))
     \<and> (\<forall>c \<in># items lh. item_hash c = hash (item_data c))
     \<and> uniq cmp (items lh)"

lemma lh_okD:
  assumes "lh_ok hash cmp lh"
  shows "lh_hash lh = hash" "lh_comp lh = cmp" "kMinNumBuckets \<le> num_buckets lh" "num_buckets lh \<le> size_max div 8"
    "placed (num_buckets lh) (buckets lh)" "length (buckets lh) = num_buckets lh" "num_items lh = size (items lh)"
    "\<And>c. c \<in># items lh \<Longrightarrow> item_hash c = hash (item_data c)" "uniq cmp (items lh)"
  using assms by (auto simp: lh_ok_def placed_def items_def)

lemma lh_okI:
  assumes "lh_ok hash cmp lh" and "placed (num_buckets lh') (buckets lh')" and "lh_hash lh' = hash" "lh_comp lh' = cmp"
    and "kMinNumBuckets \<le> num_buckets lh'" "num_buckets lh' \<le> size_max div 8" and "num_items lh' = size (items lh')"
    and "\<And>c. c \<in># items lh' \<Longrightarrow> item_hash c = hash (item_data c)" and "uniq cmp (items lh')"
  shows "lh_ok hash cmp lh'"
  using assms by (simp add: lh_ok_def items_def)

lemma bucket_items: "i < length (buckets lh) \<Longrightarrow> c \<in> set (buckets lh ! i) \<Longrightarrow> c \<in># items lh"
  by (auto simp: items_def)

context lh_contract
begin

lemma uniq_add:
  "uniq cmp (add_mset c N) \<longleftrightarrow> uniq cmp N \<and> (\<forall>c' \<in># N. cmp (item_data c') (item_data c) \<noteq> 0)"
proof
  assume u: "uniq cmp (add_mset c N)"
  have "uniq cmp N"
    unfolding uniq_def
  proof
    fix x
    show "size {#c \<in># N. cmp (item_data c) x = 0#} \<le> 1"
      using order_trans [OF size_mset_mono [OF multiset_filter_mono] u [unfolded uniq_def, rule_format, of x]] by simp
  qed
  moreover have "{#c' \<in># N. cmp (item_data c') (item_data c) = 0#} = {#}"
    using u [unfolded uniq_def, rule_format, of "item_data c"] by (simp add: cmp_refl)
  ultimately show "uniq cmp N \<and> (\<forall>c' \<in># N. cmp (item_data c') (item_data c) \<noteq> 0)"
    by simp
next
  assume u: "uniq cmp N \<and> (\<forall>c' \<in># N. cmp (item_data c') (item_data c) \<noteq> 0)"
  show "uniq cmp (add_mset c N)"
    unfolding uniq_def
  proof
    fix x
    show "size {#c \<in># add_mset c N. cmp (item_data c) x = 0#} \<le> 1"
    proof (cases "cmp (item_data c) x = 0")
      case True
      then have e: "{#c' \<in># N. cmp (item_data c') x = 0#} = {#}"
        using u cmp_trans [OF _ cmp_sym [OF True]] by (auto simp: filter_mset_eq_mempty_iff)
      show ?thesis by (simp add: True e)
    qed (use u in \<open>simp add: uniq_def\<close>)
  qed
qed

lemma uniq_pick:
  assumes "uniq cmp M" and "c \<in># M" and "c' \<in># M" and "cmp (item_data c) x = 0" and "cmp (item_data c') x = 0"
  shows "c = c'"
proof (rule ccontr)
  assume "c \<noteq> c'"
  then obtain N where "M = add_mset c (add_mset c' N)"
    using assms(2,3) by (metis insert_noteq_member multi_member_split)
  moreover have "cmp (item_data c') (item_data c) = 0" by (rule cmp_trans [OF assms(5) cmp_sym [OF assms(4)]])
  ultimately show False using assms(1) by (simp add: uniq_add)
qed

text \<open>Where the search ends: at the item with that key, or at the end of the chain.\<close>

lemma next_ptr:
  assumes ok: "lh_ok hash cmp lh" and np: "get_next_ptr_and_hash lh d = (h, i, k)"
  shows "h = hash d" and "i = unat (hash d) mod num_buckets lh" and "i < length (buckets lh)" and "k \<le> length (buckets lh ! i)"
    and "k = length (buckets lh ! i) \<longleftrightarrow> (\<forall>c \<in># items lh. cmp (item_data c) d \<noteq> 0)"
    and "k < length (buckets lh ! i) \<Longrightarrow> cmp (item_data (buckets lh ! i ! k)) d = 0"
proof -
  note D = lh_okD [OF ok]
  show h: "h = hash d" and i: "i = unat (hash d) mod num_buckets lh"
    using np by (auto simp: get_next_ptr_and_hash_def Let_def D)
  then show il: "i < length (buckets lh)" using D(3,6) by simp
  define ch where "ch = buckets lh ! i"
  have k: "k = length (takeWhile (\<lambda>c. cmp (item_data c) d \<noteq> 0) ch)"
    using np by (auto simp: get_next_ptr_and_hash_def Let_def D ch_def)
  then show kl: "k \<le> length (buckets lh ! i)" by (simp add: ch_def length_takeWhile_le)
  show "cmp (item_data (buckets lh ! i ! k)) d = 0" if "k < length (buckets lh ! i)"
    using that nth_length_takeWhile [of "\<lambda>c. cmp (item_data c) d \<noteq> 0" ch] by (simp add: k ch_def)
  have "(\<exists>c \<in># items lh. cmp (item_data c) d = 0) \<longleftrightarrow> (\<exists>c \<in> set ch. cmp (item_data c) d = 0)"
  proof
    assume "\<exists>c \<in># items lh. cmp (item_data c) d = 0"
    then obtain c where c: "cmp (item_data c) d = 0" "c \<in># items lh" by blast
    then obtain j where j: "j < length (buckets lh)" "c \<in> set (buckets lh ! j)"
      by (auto simp: items_def) (metis in_set_conv_nth)
    have "item_hash c = hash d" using D(8) [OF c(2)] cmp_hash [OF c(1)] by simp
    moreover have "unat (item_hash c) mod num_buckets lh = j" using j D(5,6) by (simp add: placed_def)
    ultimately have "j = i" by (simp add: i)
    then show "\<exists>c \<in> set ch. cmp (item_data c) d = 0" using c j by (auto simp: ch_def)
  qed (use bucket_items [OF il] in \<open>auto simp: ch_def\<close>)
  moreover have "k = length ch \<longleftrightarrow> (\<forall>c \<in> set ch. cmp (item_data c) d \<noteq> 0)"
    unfolding k by (metis (mono_tags, lifting) takeWhile_eq_all_conv takeWhile_eq_take take_all_iff order_refl)
  ultimately show "k = length (buckets lh ! i) \<longleftrightarrow> (\<forall>c \<in># items lh. cmp (item_data c) d \<noteq> 0)"
    by (auto simp: ch_def)
qed

lemma retrieve_iff:
  assumes ok: "lh_ok hash cmp lh"
  shows "lh_retrieve lh x = Some d \<longleftrightarrow> (\<exists>c \<in># items lh. item_data c = d \<and> cmp d x = 0)"
proof -
  obtain h i k where np: "get_next_ptr_and_hash lh x = (h, i, k)" by (metis prod_cases3)
  note N = next_ptr [OF ok np]
  show ?thesis
  proof (cases "k = length (buckets lh ! i)")
    case True
    then show ?thesis using N(5) by (auto simp: lh_retrieve_def np)
  next
    case False
    then have m: "cmp (item_data (buckets lh ! i ! k)) x = 0" "buckets lh ! i ! k \<in># items lh"
      using N(3,4,6) bucket_items [OF N(3)] by auto
    have "c = buckets lh ! i ! k" if "c \<in># items lh" "cmp (item_data c) x = 0" for c
      by (rule uniq_pick [OF lh_okD(9) [OF ok] that(1) m(2) that(2) m(1)])
    moreover have "lh_retrieve lh x = Some (item_data (buckets lh ! i ! k))"
      using False by (simp add: lh_retrieve_def np)
    ultimately show ?thesis using m by (metis option.inject)
  qed
qed

text \<open>The abstract operations on maps from keys to data.\<close>

definition map_insert :: "'a \<Rightarrow> ('a \<Rightarrow> 'a option) \<Rightarrow> 'a \<Rightarrow> 'a option" where
  "map_insert d m = (\<lambda>x. if cmp d x = 0 then Some d else m x)"

definition map_delete :: "'a \<Rightarrow> ('a \<Rightarrow> 'a option) \<Rightarrow> 'a \<Rightarrow> 'a option" where
  "map_delete d m = (\<lambda>x. if cmp d x = 0 then None else m x)"

lemma retrieve_add:
  assumes "lh_ok hash cmp lh" and "lh_ok hash cmp lh'" and "items lh = N" and "items lh' = add_mset c N"
  shows "lh_retrieve lh' = map_insert (item_data c) (lh_retrieve lh)"
    and "lh_retrieve lh = map_delete (item_data c) (lh_retrieve lh')"
proof -
  have u: "\<And>c'. c' \<in># N \<Longrightarrow> cmp (item_data c') (item_data c) \<noteq> 0"
    using lh_okD(9) [OF assms(2)] by (simp add: assms(4) uniq_add)
  have apart: "cmp (item_data c') x \<noteq> 0" if "c' \<in># N" "cmp (item_data c) x = 0" for c' x
    using u [OF that(1)] cmp_trans [OF _ cmp_sym [OF that(2)]] by blast
  have "lh_retrieve lh' x = Some e \<longleftrightarrow> map_insert (item_data c) (lh_retrieve lh) x = Some e" for x e
    using apart by (auto simp: retrieve_iff [OF assms(1)] retrieve_iff [OF assms(2)] assms(3,4) map_insert_def)
  then show "lh_retrieve lh' = map_insert (item_data c) (lh_retrieve lh)" by (intro ext) (metis option.exhaust)
  have "lh_retrieve lh x = Some e \<longleftrightarrow> map_delete (item_data c) (lh_retrieve lh') x = Some e" for x e
    using apart by (auto simp: retrieve_iff [OF assms(1)] retrieve_iff [OF assms(2)] assms(3,4) map_delete_def)
  then show "lh_retrieve lh = map_delete (item_data c) (lh_retrieve lh')" by (intro ext) (metis option.exhaust)
qed

lemma retrieve_same:
  "lh_ok hash cmp lh \<Longrightarrow> lh_ok hash cmp lh' \<Longrightarrow> items lh' = items lh \<Longrightarrow> lh_retrieve lh' = lh_retrieve lh"
  by (intro ext) (metis option.exhaust retrieve_iff)

lemma retrieve_replace:
  assumes "lh_ok hash cmp lh" and "lh_ok hash cmp lh'" and "items lh = add_mset c0 N" and "items lh' = add_mset c N"
    and "cmp (item_data c0) (item_data c) = 0"
  shows "lh_retrieve lh' = map_insert (item_data c) (lh_retrieve lh)"
proof -
  have u: "\<And>c'. c' \<in># N \<Longrightarrow> cmp (item_data c') (item_data c) \<noteq> 0"
    using lh_okD(9) [OF assms(2)] by (simp add: assms(4) uniq_add)
  have apart: "cmp (item_data c') x \<noteq> 0" if "c' \<in># N" "cmp (item_data c) x = 0" for c' x
    using u [OF that(1)] cmp_trans [OF _ cmp_sym [OF that(2)]] by blast
  have same: "cmp (item_data c) x = 0" if "cmp (item_data c0) x = 0" for x
    by (rule cmp_trans [OF cmp_sym [OF assms(5)] that])
  have "lh_retrieve lh' x = Some e \<longleftrightarrow> map_insert (item_data c) (lh_retrieve lh) x = Some e" for x e
    using apart same by (auto simp: retrieve_iff [OF assms(1)] retrieve_iff [OF assms(2)] assms(3,4) map_insert_def)
  then show ?thesis by (intro ext) (metis option.exhaust)
qed

section \<open>Resizing\<close>

lemma rebucket_same:
  assumes ok: "lh_ok hash cmp lh" and "kMinNumBuckets \<le> n"
  shows "lh_ok hash cmp (lh_rebucket A n lh)" and "items (lh_rebucket A n lh) = items lh"
proof -
  have "lh_ok hash cmp (lh_rebucket A n lh) \<and> items (lh_rebucket A n lh) = items lh"
  proof (cases "size_mult 8 n div 8 = n \<and> A (size_mult 8 n) \<noteq> None")
    case True
    have "size_mult 8 n \<le> size_max" by (simp add: size_mult_def less_Suc_eq_le [symmetric])
    then have n: "n \<le> size_max div 8" using True by (metis div_le_mono)
    define lh' where "lh' = lh_rebucket A n lh"
    have lh': "lh' = lh\<lparr>num_buckets := n, buckets := foldl (foldl (rebucket_item n)) (replicate n []) (buckets lh)\<rparr>"
      using True by (auto simp: lh'_def lh_rebucket_def Let_def)
    have r: "placed n (buckets lh')" "items lh' = items lh"
      using rebucket_ok [OF placed_empty, of n "buckets lh"] assms(2) by (simp_all add: lh' items_def)
    have "lh_ok hash cmp lh'"
      by (rule lh_okI [OF ok]) (use r n assms(2) lh_okD [OF ok] in \<open>simp_all add: lh'\<close>)
    then show ?thesis using r by (simp add: lh'_def)
  qed (use ok in \<open>auto simp: lh_rebucket_def Let_def\<close>)
  then show "lh_ok hash cmp (lh_rebucket A n lh)" and "items (lh_rebucket A n lh) = items lh" by simp_all
qed

lemma maybe_resize_ok:
  assumes ok: "lh_ok hash cmp lh"
  shows "\<exists>lh'. lh_maybe_resize A lh = Some lh' \<and> lh_ok hash cmp lh' \<and> items lh' = items lh"
proof -
  have "kMinNumBuckets \<le> num_buckets lh" using lh_okD(3) [OF ok] .
  then show ?thesis
    using ok rebucket_same [OF ok] by (auto simp: lh_maybe_resize_def Let_def)
qed

section \<open>Insertion and deletion\<close>

text \<open>\<open>lh_insert\<close> is the insertion on maps, unless the item cannot be allocated.\<close>

lemma insert_ok:
  assumes ok: "lh_ok hash cmp lh" and n: "num_items lh < size_max"
  shows "\<exists>lh'. lh_insert A lh d =
      Some (lh_retrieve lh d \<noteq> None \<or> A 24 \<noteq> None, lh_retrieve lh d, lh')
    \<and> lh_ok hash cmp lh'
    \<and> lh_retrieve lh' = (if lh_retrieve lh d \<noteq> None \<or> A 24 \<noteq> None then map_insert d (lh_retrieve lh) else lh_retrieve lh)
    \<and> num_items lh' \<le> num_items lh + 1"
proof -
  obtain h i k where np: "get_next_ptr_and_hash lh d = (h, i, k)" by (metis prod_cases3)
  note N = next_ptr [OF ok np] and D = lh_okD [OF ok]
  define ch where "ch = buckets lh ! i"
  show ?thesis
  proof (cases "k = length ch")
    case False
    then have k: "k < length (buckets lh ! i)" using N(4) by (simp add: ch_def)
    from chain_split [OF N(3) k] obtain M where
      M: "items lh = add_mset (ch ! k) M" "\<And>v. mset (concat ((buckets lh)[i := ch[k := v]])) = add_mset v M"
      by (auto simp: items_def ch_def)
    define c where "c = (ch ! k)\<lparr>item_data := d\<rparr>"
    define lh' where "lh' = lh\<lparr>buckets := (buckets lh)[i := ch[k := c]]\<rparr>"
    have r: "lh_retrieve lh d = Some (item_data (ch ! k))" using k by (simp add: lh_retrieve_def np ch_def)
    have eq: "cmp (item_data (ch ! k)) d = 0" using N(6) k by (simp add: ch_def)
    have it: "items lh' = add_mset c M" using M(2) by (simp add: lh'_def items_def)
    have hc: "item_hash c = hash d" using D(8) [of "ch ! k"] M(1) cmp_hash [OF eq] by (simp add: c_def)
    have "lh_ok hash cmp lh'"
    proof (rule lh_okI [OF ok])
      show "placed (num_buckets lh') (buckets lh')"
        unfolding lh'_def using D(5,6) N(2,3) hc set_update_subset_insert [of ch k c]
        by (auto simp: ch_def placed_def [of _ "buckets lh"] intro!: placed_update)
      show "uniq cmp (items lh')"
        using D(9) cmp_trans [OF _ cmp_sym [OF eq]] by (auto simp: it M(1) uniq_add c_def)
      show "item_hash c' = hash (item_data c')" if "c' \<in># items lh'" for c'
        using that D(8) M(1) hc by (auto simp: it) (simp add: c_def)
      show "num_items lh' = size (items lh')" unfolding it using D(7) by (simp add: lh'_def M(1))
    qed (use D in \<open>simp_all add: lh'_def\<close>)
    moreover have "lh_retrieve lh' = map_insert d (lh_retrieve lh)"
      using retrieve_replace [OF ok \<open>lh_ok hash cmp lh'\<close> M(1) it] eq by (simp add: c_def)
    moreover have "lh_insert A lh d = Some (True, Some (item_data (ch ! k)), lh')"
      using False by (simp add: lh_insert_def np ch_def [symmetric] lh'_def c_def)
    ultimately show ?thesis using r by (simp add: lh'_def)
  next
    case True
    then have r: "lh_retrieve lh d = None" by (simp add: lh_retrieve_def np ch_def)
    show ?thesis
    proof (cases "A 24 = None")
      case noalloc: True
      then have "lh_insert A lh d = Some (False, None, lh)" using True by (simp add: lh_insert_def np ch_def)
      then show ?thesis using ok r noalloc by simp
    next
      case False
      define c where "c = \<lparr>item_data = d, item_hash = hash d\<rparr>"
      define lh1 where "lh1 = lh\<lparr>buckets := (buckets lh)[i := ch @ [c]], num_items := num_items lh + 1\<rparr>"
      have it: "items lh1 = add_mset c (items lh)"
        using mset_concat_update [OF N(3), of "ch @ [c]"] by (simp add: items_def lh1_def ch_def)
      have ok1: "lh_ok hash cmp lh1"
      proof (rule lh_okI [OF ok])
        show "placed (num_buckets lh1) (buckets lh1)"
          unfolding lh1_def using D(5,6) N(2,3)
          by (auto simp: ch_def c_def placed_def [of _ "buckets lh"] intro!: placed_update)
        show "uniq cmp (items lh1)" using D(9) N(5) True by (simp add: it uniq_add c_def ch_def)
        show "item_hash c' = hash (item_data c')" if "c' \<in># items lh1" for c'
          using that D(8) by (auto simp: it c_def)
        show "num_items lh1 = size (items lh1)" unfolding it using D(7) by (simp add: lh1_def)
      qed (use D in \<open>simp_all add: lh1_def\<close>)
      obtain lh' where lh': "lh_maybe_resize A lh1 = Some lh'" "lh_ok hash cmp lh'" "items lh' = items lh1"
        using maybe_resize_ok [OF ok1, of A] by blast
      have "lh_insert A lh d = Some (True, None, lh')"
        using True False n lh'(1) N(1) by (simp add: lh_insert_def np ch_def [symmetric] lh1_def c_def)
      moreover have "lh_retrieve lh' = map_insert d (lh_retrieve lh)"
        using retrieve_add(1) [OF ok lh'(2) refl, of c] lh'(3) it by (simp add: c_def)
      moreover have "num_items lh' = num_items lh + 1" using lh_okD(7) [OF lh'(2)] D(7) lh'(3) it by simp
      ultimately show ?thesis using r False lh'(2) by simp
    qed
  qed
qed

lemma delete_ok:
  assumes ok: "lh_ok hash cmp lh" and n: "num_items lh \<le> size_max"
  shows "\<exists>lh'. lh_delete A lh d = Some (lh_retrieve lh d, lh') \<and> lh_ok hash cmp lh'
    \<and> lh_retrieve lh' = map_delete d (lh_retrieve lh) \<and> num_items lh' \<le> num_items lh"
proof -
  obtain h i k where np: "get_next_ptr_and_hash lh d = (h, i, k)" by (metis prod_cases3)
  note N = next_ptr [OF ok np] and D = lh_okD [OF ok]
  define ch where "ch = buckets lh ! i"
  show ?thesis
  proof (cases "k = length ch")
    case True
    then have "lh_retrieve lh d = None" "lh_delete A lh d = Some (None, lh)"
      by (simp_all add: lh_retrieve_def lh_delete_def np ch_def Let_def)
    moreover have "lh_retrieve lh x = None" if "cmp d x = 0" for x
    proof (cases "lh_retrieve lh x")
      case (Some e)
      then show ?thesis using N(5) True cmp_trans [OF _ cmp_sym [OF that]] by (auto simp: ch_def retrieve_iff [OF ok])
    qed simp
    then have "map_delete d (lh_retrieve lh) = lh_retrieve lh" by (auto simp: map_delete_def fun_eq_iff)
    ultimately show ?thesis using ok by simp
  next
    case False
    then have k: "k < length (buckets lh ! i)" using N(4) by (simp add: ch_def)
    from chain_split [OF N(3) k] obtain M where
      M: "items lh = add_mset (ch ! k) M" "mset (concat ((buckets lh)[i := take k ch @ drop (Suc k) ch])) = M"
      by (auto simp: items_def ch_def)
    define lh1 where "lh1 = lh\<lparr>buckets := (buckets lh)[i := take k ch @ drop (Suc k) ch], num_items := num_items lh - 1\<rparr>"
    have eq: "cmp (item_data (ch ! k)) d = 0" using N(6) k by (simp add: ch_def)
    have it: "items lh1 = M" using M(2) by (simp add: lh1_def items_def)
    have pos: "0 < num_items lh" using D(7) M(1) by simp
    have sub: "size_add (num_items lh) size_max = num_items lh - 1"
      using pos n by (simp add: size_add_def mod_if)
    have ok1: "lh_ok hash cmp lh1"
    proof (rule lh_okI [OF ok])
      show "placed (num_buckets lh1) (buckets lh1)"
        unfolding lh1_def using D(5,6) N(3)
        by (auto simp: ch_def placed_def [of _ "buckets lh"] intro!: placed_update dest!: in_set_takeD in_set_dropD)
      show "uniq cmp (items lh1)" using D(9) by (simp add: it M(1) uniq_add)
      show "item_hash c' = hash (item_data c')" if "c' \<in># items lh1" for c'
        using that D(8) by (simp add: it M(1))
      show "num_items lh1 = size (items lh1)" unfolding it using D(7) by (simp add: lh1_def M(1))
    qed (use D in \<open>simp_all add: lh1_def\<close>)
    obtain lh' where lh': "lh_maybe_resize A lh1 = Some lh'" "lh_ok hash cmp lh'" "items lh' = items lh1"
      using maybe_resize_ok [OF ok1, of A] by blast
    have r: "lh_retrieve lh d = Some (item_data (ch ! k))" using k by (simp add: lh_retrieve_def np ch_def)
    have "lh_delete A lh d = Some (Some (item_data (ch ! k)), lh')"
      using False lh'(1) by (simp add: lh_delete_def np ch_def [symmetric] lh1_def sub Let_def)
    moreover have "lh_retrieve lh' = map_delete (item_data (ch ! k)) (lh_retrieve lh)"
      using retrieve_add(2) [OF lh'(2) ok refl, of "ch ! k"] lh'(3) it M(1) by simp
    moreover have "map_delete (item_data (ch ! k)) m = map_delete d m" for m
    proof -
      have "cmp (item_data (ch ! k)) x = 0 \<longleftrightarrow> cmp d x = 0" for x using eq cmp_sym cmp_trans by metis
      then show ?thesis by (simp add: map_delete_def)
    qed
    moreover have "num_items lh' \<le> num_items lh" using lh_okD(7) [OF lh'(2)] D(7) lh'(3) it M(1) by simp
    ultimately show ?thesis using r lh'(2) by simp
  qed
qed

lemma new_ok:
  assumes "lh_new A hash cmp = Some lh"
  shows "lh_ok hash cmp lh" and "lh_retrieve lh = (\<lambda>_. None)" and "num_items lh = 0"
proof -
  show ok: "lh_ok hash cmp lh" and "num_items lh = 0"
    using assms placed_empty [of kMinNumBuckets]
    by (auto simp: lh_new_def lh_ok_def items_def uniq_def split: if_splits)
  have "items lh = {#}" using assms by (auto simp: lh_new_def items_def split: if_splits)
  then show "lh_retrieve lh = (\<lambda>_. None)" using retrieve_iff [OF ok] by (intro ext) (metis empty_iff option.exhaust set_mset_empty)
qed

lemma doall_ok:
  assumes ok: "lh_ok hash cmp lh"
  shows "\<exists>xs lh'. lh_doall_internal A lh f s = Some (foldl (\<lambda>s d. f d s) s xs, lh') \<and> lh_ok hash cmp lh'
    \<and> lh_retrieve lh' = lh_retrieve lh \<and> mset xs = image_mset item_data (items lh)"
proof -
  define lh1 where "lh1 = (let l = (if callback_depth lh < UINT_MAX then lh\<lparr>callback_depth := callback_depth lh + 1\<rparr> else lh)
    in if callback_depth l < UINT_MAX then l\<lparr>callback_depth := callback_depth l - 1\<rparr> else l)"
  have b: "buckets lh1 = buckets lh" "num_buckets lh1 = num_buckets lh" "num_items lh1 = num_items lh"
    "lh_hash lh1 = lh_hash lh" "lh_comp lh1 = lh_comp lh"
    by (simp_all add: lh1_def Let_def)
  then have ok1: "lh_ok hash cmp lh1" "items lh1 = items lh" using ok by (simp_all add: lh_ok_def items_def)
  obtain lh' where lh': "lh_maybe_resize A lh1 = Some lh'" "lh_ok hash cmp lh'" "items lh' = items lh1"
    using maybe_resize_ok [OF ok1(1), of A] by blast
  have fold: "foldl (foldl (\<lambda>s cur. f (item_data cur) s)) s bs = foldl (\<lambda>s d. f d s) s (map item_data (concat bs))" for s bs
    by (induction bs arbitrary: s) (simp_all add: foldl_map)
  have "lh_doall_internal A lh f s = Some (foldl (\<lambda>s d. f d s) s (map item_data (concat (buckets lh))), lh')"
    using lh'(1) fold by (simp add: lh_doall_internal_def Let_def lh1_def)
  moreover have "lh_retrieve lh' = lh_retrieve lh" by (rule retrieve_same [OF ok lh'(2)]) (simp add: lh'(3) ok1)
  ultimately show ?thesis using lh'(2) by (metis items_def mset_map)
qed

end

end
