(* ===== verification/Lhash_Runs.thy ===== *)
theory Lhash_Runs
  imports Lhash_Correct
begin

text \<open>
  Sequences of calls on a hash table, compared with the same calls on a map; and the
  average load, which resizing keeps between bounds.
\<close>

section \<open>Sequences of calls\<close>

datatype 'a lh_call = LhInsert 'a | LhDelete 'a | LhRetrieve 'a

text \<open>The results of the calls, with the result code of an insertion, and the table.\<close>

fun run_lh :: "alloc \<Rightarrow> 'a lh_call list \<Rightarrow> 'a LHASH \<Rightarrow> ((bool \<times> 'a option) list \<times> 'a LHASH) option" where
  "run_lh A [] lh = Some ([], lh)"
| "run_lh A (LhInsert d # cs) lh =
     (case lh_insert A lh d of
        None \<Rightarrow> None
      | Some (ok, old, lh) \<Rightarrow> map_option (\<lambda>(rs, lh). ((ok, old) # rs, lh)) (run_lh A cs lh))"
| "run_lh A (LhDelete d # cs) lh =
     (case lh_delete A lh d of
        None \<Rightarrow> None
      | Some (old, lh) \<Rightarrow> map_option (\<lambda>(rs, lh). ((True, old) # rs, lh)) (run_lh A cs lh))"
| "run_lh A (LhRetrieve d # cs) lh = map_option (\<lambda>(rs, l). ((True, lh_retrieve lh d) # rs, l)) (run_lh A cs lh)"

text \<open>The same calls on a map of keys to data; \<open>can\<close> is whether an item can be allocated.\<close>

fun run_map :: "('a \<Rightarrow> 'a \<Rightarrow> int) \<Rightarrow> bool \<Rightarrow> 'a lh_call list \<Rightarrow> ('a \<Rightarrow> 'a option) \<Rightarrow> (bool \<times> 'a option) list \<times> ('a \<Rightarrow> 'a option)" where
  "run_map cmp can [] m = ([], m)"
| "run_map cmp can (LhInsert d # cs) m =
     (let ok = (m d \<noteq> None \<or> can)
      in case run_map cmp can cs (if ok then (\<lambda>x. if cmp d x = 0 then Some d else m x) else m) of
           (rs, m') \<Rightarrow> ((ok, m d) # rs, m'))"
| "run_map cmp can (LhDelete d # cs) m =
     (case run_map cmp can cs (\<lambda>x. if cmp d x = 0 then None else m x) of (rs, m') \<Rightarrow> ((True, m d) # rs, m'))"
| "run_map cmp can (LhRetrieve d # cs) m = (case run_map cmp can cs m of (rs, m') \<Rightarrow> ((True, m d) # rs, m'))"

context lh_contract
begin

lemma run_ok:
  assumes "lh_ok hash cmp lh" and "num_items lh + length cs < size_max"
  shows "\<exists>lh'. run_lh A cs lh = Some (fst (run_map cmp (A 24 \<noteq> None) cs (lh_retrieve lh)), lh') \<and> lh_ok hash cmp lh'
    \<and> lh_retrieve lh' = snd (run_map cmp (A 24 \<noteq> None) cs (lh_retrieve lh))"
  using assms
proof (induction cs arbitrary: lh)
  case (Cons c cs)
  show ?case
  proof (cases c)
    case (LhInsert d)
    obtain lh1 where 1: "lh_insert A lh d = Some (lh_retrieve lh d \<noteq> None \<or> A 24 \<noteq> None, lh_retrieve lh d, lh1)"
      "lh_ok hash cmp lh1" "num_items lh1 \<le> num_items lh + 1"
      "lh_retrieve lh1 = (if lh_retrieve lh d \<noteq> None \<or> A 24 \<noteq> None then map_insert d (lh_retrieve lh) else lh_retrieve lh)"
      using insert_ok [OF Cons.prems(1), where A = A and d = d] Cons.prems(2) by auto
    then show ?thesis
      using Cons.IH [OF 1(2)] Cons.prems(2) LhInsert by (auto simp: Let_def map_insert_def split: prod.splits)
  next
    case (LhDelete d)
    obtain lh1 where 1: "lh_delete A lh d = Some (lh_retrieve lh d, lh1)" "lh_ok hash cmp lh1"
      "num_items lh1 \<le> num_items lh" "lh_retrieve lh1 = map_delete d (lh_retrieve lh)"
      using delete_ok [OF Cons.prems(1), where A = A and d = d] Cons.prems(2) by auto
    then show ?thesis
      using Cons.IH [OF 1(2)] Cons.prems(2) LhDelete by (auto simp: map_delete_def split: prod.splits)
  next
    case (LhRetrieve d)
    then show ?thesis using Cons.IH [OF Cons.prems(1)] Cons.prems(2) by (auto split: prod.splits)
  qed
qed simp

end

section \<open>The average load\<close>

text \<open>When no allocation fails there are fewer than three items for each bucket, and no more buckets than items
  (or 16).\<close>

definition lh_short :: "'a LHASH \<Rightarrow> bool" where
  "lh_short lh \<longleftrightarrow> callback_depth lh = 0 \<and> kMinNumBuckets \<le> num_buckets lh
     \<and> num_buckets lh \<le> max kMinNumBuckets (num_items lh) \<and> num_items lh < 3 * num_buckets lh"

lemma rebucket_total:
  assumes "\<forall>n. A n \<noteq> None" and "8 * n \<le> size_max"
  shows "num_buckets (lh_rebucket A n lh) = n" "num_items (lh_rebucket A n lh) = num_items lh"
    "callback_depth (lh_rebucket A n lh) = callback_depth lh"
  using assms(1) [rule_format, of "8 * n"] assms(2) by (auto simp: lh_rebucket_def Let_def)

text \<open>One item more or less is put right by one change of size.\<close>

lemma maybe_resize_short:
  assumes A: "\<forall>n. A n \<noteq> None" and "callback_depth lh = 0" and "kMinNumBuckets \<le> num_buckets lh"
    and "num_buckets lh \<le> max kMinNumBuckets (num_items lh + 1)" and "num_items lh \<le> 3 * num_buckets lh"
    and "num_items lh < 2 ^ 56" and "lh_maybe_resize A lh = Some lh'"
  shows "lh_short lh' \<and> num_items lh' = num_items lh"
proof -
  define nb where "nb = num_buckets lh"
  have nb: "16 \<le> nb" "nb \<le> max 16 (num_items lh + 1)" "num_items lh \<le> 3 * nb" using assms by (simp_all add: nb_def)
  have small: "nb < 2 ^ 57" using nb assms(6) by (auto simp: max_def split: if_splits)
  consider "num_items lh = 3 * nb" | "num_items lh < 3 * nb" "nb \<le> num_items lh \<or> nb = 16"
    | "num_items lh < nb" "16 < nb" "nb = num_items lh + 1"
    using nb by linarith
  then show ?thesis
  proof cases
    case 1
    then have "num_items lh div nb = 3" using nb(1) by simp
    then have "lh' = lh_rebucket A (2 * nb) lh"
      using assms(2,7) nb(1) small by (simp add: lh_maybe_resize_def Let_def nb_def [symmetric] mult.commute)
    then show ?thesis
      using rebucket_total [OF A, of "2 * nb" lh] 1 assms(2) nb(1) small by (simp add: lh_short_def)
  next
    case 2
    then have "num_items lh div nb \<le> 2" by (simp add: less_mult_imp_div_less flip: less_Suc_eq_le)
    moreover have "nb = 16 \<or> \<not> num_items lh div nb < 1" using 2 nb(1) by (auto simp: div_greater_zero_iff)
    ultimately have "lh' = lh"
      using assms(2,7) nb(1) by (auto simp: lh_maybe_resize_def Let_def nb_def [symmetric] split: if_splits)
    then show ?thesis using 2 assms(2) nb by (auto simp: lh_short_def nb_def)
  next
    case 3
    define n where "n = (if nb div 2 < 16 then 16 else nb div 2)"
    have "lh' = lh_rebucket A n lh"
      using 3(1,2) assms(2,7) by (simp add: lh_maybe_resize_def Let_def nb_def [symmetric] n_def)
    moreover have "16 \<le> n" "n \<le> nb" "num_items lh < 3 * n" "n \<le> max 16 (num_items lh)" using 3 by (auto simp: n_def)
    ultimately show ?thesis
      using rebucket_total [OF A, of n lh] assms(2) small by (simp add: lh_short_def)
  qed
qed

lemma insert_short:
  assumes A: "\<forall>n. A n \<noteq> None" and "lh_short lh" and "num_items lh + 1 < 2 ^ 56"
    and "lh_insert A lh d = Some (r, old, lh')"
  shows "lh_short lh' \<and> num_items lh' \<le> num_items lh + 1"
proof -
  obtain h i k where np: "get_next_ptr_and_hash lh d = (h, i, k)" by (metis prod_cases3)
  define lh1 where "lh1 = lh\<lparr>buckets := (buckets lh)[i := buckets lh ! i @ [\<lparr>item_data = d, item_hash = h\<rparr>]],
    num_items := num_items lh + 1\<rparr>"
  obtain z where z: "A 24 = Some z" using A by blast
  from assms(4) consider "lh_maybe_resize A lh1 = Some lh'"
    | "\<exists>bs. lh' = lh\<lparr>buckets := bs\<rparr>"
    using assms(3) by (auto simp: lh_insert_def np Let_def lh1_def z split: if_splits)
  then show ?thesis
  proof cases
    case 1
    have "lh_short lh' \<and> num_items lh' = num_items lh1"
      by (rule maybe_resize_short [OF A _ _ _ _ _ 1]) (use assms(2,3) in \<open>auto simp: lh1_def lh_short_def\<close>)
    then show ?thesis by (simp add: lh1_def)
  next
    case 2
    then show ?thesis using assms(2) by (auto simp: lh_short_def)
  qed
qed

lemma delete_short:
  assumes A: "\<forall>n. A n \<noteq> None" and "lh_short lh" and "num_items lh < 2 ^ 56" and "0 < num_items lh \<or> lh_retrieve lh d = None"
    and "lh_delete A lh d = Some (old, lh')"
  shows "lh_short lh' \<and> num_items lh' \<le> num_items lh"
proof -
  obtain h i k where np: "get_next_ptr_and_hash lh d = (h, i, k)" by (metis prod_cases3)
  define lh1 where "lh1 = lh\<lparr>buckets := (buckets lh)[i := take k (buckets lh ! i) @ drop (Suc k) (buckets lh ! i)],
    num_items := num_items lh - 1\<rparr>"
  have sub: "0 < num_items lh \<Longrightarrow> size_add (num_items lh) size_max = num_items lh - 1"
    using assms(3) by (simp add: size_add_def mod_if)
  from assms(4,5) consider "0 < num_items lh" "lh_maybe_resize A lh1 = Some lh'" | "lh' = lh"
    by (auto simp: lh_delete_def lh_retrieve_def np Let_def lh1_def sub split: if_splits)
  then show ?thesis
  proof cases
    case 1
    have "lh_short lh' \<and> num_items lh' = num_items lh1"
      by (rule maybe_resize_short [OF A _ _ _ _ _ 1(2)]) (use 1(1) assms(2,3) in \<open>auto simp: lh1_def lh_short_def\<close>)
    then show ?thesis by (simp add: lh1_def)
  next
    case 2
    then show ?thesis using assms(2) by simp
  qed
qed

lemma run_short:
  assumes c: "lh_contract hash cmp" and A: "\<forall>n. A n \<noteq> None" and "lh_ok hash cmp lh" and "lh_short lh"
    and "num_items lh + length cs < 2 ^ 56" and "run_lh A cs lh = Some (rs, lh')"
  shows "lh_short lh' \<and> num_items lh' \<le> num_items lh + length cs"
  using assms(3-6)
proof (induction cs arbitrary: lh rs)
  case (Cons x cs)
  show ?case
  proof (cases x)
    case (LhInsert d)
    then obtain r old lh1 rs' where 1: "lh_insert A lh d = Some (r, old, lh1)" "run_lh A cs lh1 = Some (rs', lh')"
      using Cons.prems(4) by (auto split: option.splits)
    have "lh_ok hash cmp lh1" using lh_contract.insert_ok [OF c Cons.prems(1), where A = A and d = d] 1(1) Cons.prems by auto
    moreover have "lh_short lh1 \<and> num_items lh1 \<le> num_items lh + 1"
      using insert_short [OF A Cons.prems(2) _ 1(1)] Cons.prems(3) by simp
    ultimately show ?thesis using Cons.IH [OF _ _ _ 1(2)] Cons.prems(3) by fastforce
  next
    case (LhDelete d)
    then obtain old lh1 rs' where 1: "lh_delete A lh d = Some (old, lh1)" "run_lh A cs lh1 = Some (rs', lh')"
      using Cons.prems(4) by (auto split: option.splits)
    have ok: "lh_ok hash cmp lh1" using lh_contract.delete_ok [OF c Cons.prems(1), where A = A and d = d] 1(1) Cons.prems by auto
    have "0 < num_items lh \<or> lh_retrieve lh d = None"
    proof (cases "lh_retrieve lh d")
      case (Some e)
      then have "items lh \<noteq> {#}" using lh_contract.retrieve_iff [OF c Cons.prems(1), of d e] by auto
      then show ?thesis using lh_okD(7) [OF Cons.prems(1)] by (simp add: nonempty_has_size)
    qed simp
    then have "lh_short lh1 \<and> num_items lh1 \<le> num_items lh"
      using delete_short [OF A Cons.prems(2) _ _ 1(1)] Cons.prems(3) by simp
    with ok show ?thesis using Cons.IH [OF _ _ _ 1(2)] Cons.prems(3) by fastforce
  next
    case (LhRetrieve d)
    then show ?thesis using Cons by fastforce
  qed
qed simp

end
