(* ===== verification/Pool.thy ===== *)
theory Pool
  imports Lhash_Runs Refcount Cbb_SetOf
begin

text \<open>
  The buffer pool (\<open>crypto/pool/pool.c\<close>): reference-counted byte buffers of which those with equal
  contents are shared, found through a hash table. A buffer lives at an address of the heap until its
  last reference is dropped; its contents never change, so that a pointer in the table is the address
  together with the contents. \<open>malloc\<close> hands out addresses in order and fails when there are none
  left. \<open>None\<close> as the result of a whole call is a failed assertion, \<open>abort\<close> or a use of a buffer that
  was released. The lock of the pool makes each critical section one step.
\<close>

section \<open>Data\<close>

type_synonym buf_ptr = "nat \<times> bytes"

record CRYPTO_BUFFER =
  in_pool :: bool
  buf_data :: bytes
  buf_references :: u32

record pool_heap =
  live :: "nat \<Rightarrow> CRYPTO_BUFFER option"
  next_addr :: nat
  bufs :: "buf_ptr LHASH"

definition CRYPTO_BUFFER_hash :: "buf_ptr \<Rightarrow> u32" where
  "CRYPTO_BUFFER_hash p = OPENSSL_hash32 (snd p)"

definition CRYPTO_BUFFER_cmp :: "buf_ptr \<Rightarrow> buf_ptr \<Rightarrow> int" where
  "CRYPTO_BUFFER_cmp a b = (if length (snd a) \<noteq> length (snd b) then 1 else OPENSSL_memcmp (snd a) (snd b))"

section \<open>Operations\<close>

text \<open>\<open>CRYPTO_BUFFER_POOL_new\<close> allocates the structure with its lock (208 bytes) and the table.\<close>

definition CRYPTO_BUFFER_POOL_new :: "alloc \<Rightarrow> pool_heap option" where
  "CRYPTO_BUFFER_POOL_new A =
     (if A 208 = None then None
      else map_option (\<lambda>t. \<lparr>live = \<lambda>_. None, next_addr = 1, bufs = t\<rparr>) (lh_new A CRYPTO_BUFFER_hash CRYPTO_BUFFER_cmp))"

text \<open>\<open>CRYPTO_BUFFER_POOL_free\<close>: the assertion that the pool is empty.\<close>

definition CRYPTO_BUFFER_POOL_free :: "pool_heap \<Rightarrow> unit option" where
  "CRYPTO_BUFFER_POOL_free s = (if lh_num_items (bufs s) = 0 then Some () else None)"

definition put_buf :: "nat \<Rightarrow> CRYPTO_BUFFER option \<Rightarrow> pool_heap \<Rightarrow> pool_heap" where
  "put_buf a b s = s\<lparr>live := (live s)(a := b)\<rparr>"

definition CRYPTO_BUFFER_up_ref :: "nat \<Rightarrow> pool_heap \<Rightarrow> pool_heap option" where
  "CRYPTO_BUFFER_up_ref a s =
     map_option (\<lambda>b. put_buf a (Some (b\<lparr>buf_references := CRYPTO_refcount_inc (buf_references b)\<rparr>)) s) (live s a)"

text \<open>The first critical section of \<open>CRYPTO_BUFFER_new\<close>: the search for a buffer with these contents.\<close>

definition pool_lookup :: "bytes \<Rightarrow> pool_heap \<Rightarrow> (nat option \<times> pool_heap) option" where
  "pool_lookup d s =
     (case lh_retrieve (bufs s) (0, d) of
        None \<Rightarrow> Some (None, s)
      | Some (a, _) \<Rightarrow> map_option (\<lambda>s. (Some a, s)) (CRYPTO_BUFFER_up_ref a s))"

text \<open>The allocation of the buffer (32 bytes) and of its contents.\<close>

definition new_contents :: "alloc \<Rightarrow> bytes \<Rightarrow> pool_heap \<Rightarrow> bytes option" where
  "new_contents A d s =
     (if A 32 = None \<or> size_max \<le> next_addr s then None
      else (case BUF_memdup A d (length d) of
              None \<Rightarrow> if length d \<noteq> 0 then None else Some []
            | Some d \<Rightarrow> Some d))"

text \<open>The rest of \<open>CRYPTO_BUFFER_new\<close>: the allocation and the second critical section. A buffer that was
  allocated for nothing is released within the same call.\<close>

definition pool_insert :: "alloc \<Rightarrow> bytes \<Rightarrow> pool_heap \<Rightarrow> (nat option \<times> pool_heap) option" where
  "pool_insert A d s =
     (case new_contents A d s of
        None \<Rightarrow> Some (None, s)
      | Some d \<Rightarrow>
          (let a = next_addr s
           in case lh_retrieve (bufs s) (a, d) of
                None \<Rightarrow>
                  (case lh_insert A (bufs s) (a, d) of
                     None \<Rightarrow> None
                   | Some (inserted, old, t) \<Rightarrow>
                       if old \<noteq> None then None
                       else if inserted
                       then Some (Some a, put_buf a (Some \<lparr>in_pool = True, buf_data = d, buf_references = 1\<rparr>)
                              (s\<lparr>next_addr := a + 1, bufs := t\<rparr>))
                       else Some (None, s\<lparr>bufs := t\<rparr>))
              | Some (dup, _) \<Rightarrow> map_option (\<lambda>s. (Some dup, s)) (CRYPTO_BUFFER_up_ref dup s)))"

definition CRYPTO_BUFFER_new :: "alloc \<Rightarrow> bytes \<Rightarrow> bool \<Rightarrow> pool_heap \<Rightarrow> (nat option \<times> pool_heap) option" where
  "CRYPTO_BUFFER_new A d pool s =
     (if pool then
        (case pool_lookup d s of
           None \<Rightarrow> None
         | Some (Some a, s) \<Rightarrow> Some (Some a, s)
         | Some (None, s) \<Rightarrow> pool_insert A d s)
      else
        (case new_contents A d s of
           None \<Rightarrow> Some (None, s)
         | Some d \<Rightarrow>
             let a = next_addr s
             in Some (Some a, put_buf a (Some \<lparr>in_pool = False, buf_data = d, buf_references = 1\<rparr>) (s\<lparr>next_addr := a + 1\<rparr>))))"

definition CRYPTO_BUFFER_new_from_CBS :: "alloc \<Rightarrow> CBS \<Rightarrow> bool \<Rightarrow> pool_heap \<Rightarrow> (nat option \<times> pool_heap) option" where
  "CRYPTO_BUFFER_new_from_CBS A cbs = CRYPTO_BUFFER_new A (take (CBS_len cbs) (CBS_data cbs))"

definition CRYPTO_BUFFER_free :: "alloc \<Rightarrow> nat option \<Rightarrow> pool_heap \<Rightarrow> pool_heap option" where
  "CRYPTO_BUFFER_free A p s =
     (case p of
        None \<Rightarrow> Some s
      | Some a \<Rightarrow>
          (case live s a of
             None \<Rightarrow> None
           | Some b \<Rightarrow>
               (case CRYPTO_refcount_dec_and_test_zero (buf_references b) of
                  None \<Rightarrow> None
                | Some (False, refs) \<Rightarrow> Some (put_buf a (Some (b\<lparr>buf_references := refs\<rparr>)) s)
                | Some (True, refs) \<Rightarrow>
                    if \<not> in_pool b then Some (put_buf a None s)
                    else
                      (case lh_delete A (bufs s) (a, buf_data b) of
                         None \<Rightarrow> None
                       | Some (found, t) \<Rightarrow>
                           if found \<noteq> Some (a, buf_data b) then None else Some (put_buf a None (s\<lparr>bufs := t\<rparr>))))))"

definition CRYPTO_BUFFER_data :: "nat \<Rightarrow> pool_heap \<Rightarrow> bytes option" where
  "CRYPTO_BUFFER_data a s = map_option buf_data (live s a)"

definition CRYPTO_BUFFER_len :: "nat \<Rightarrow> pool_heap \<Rightarrow> nat option" where
  "CRYPTO_BUFFER_len a s = map_option (\<lambda>b. length (buf_data b)) (live s a)"

definition CRYPTO_BUFFER_init_CBS :: "nat \<Rightarrow> pool_heap \<Rightarrow> CBS option" where
  "CRYPTO_BUFFER_init_CBS a s = map_option (\<lambda>b. CBS_init (buf_data b) (length (buf_data b))) (live s a)"

section \<open>The hash table's contract\<close>

lemma CRYPTO_BUFFER_cmp_0 [simp]: "CRYPTO_BUFFER_cmp a b = 0 \<longleftrightarrow> snd a = snd b"
  by (auto simp: CRYPTO_BUFFER_cmp_def OPENSSL_memcmp_eq)

interpretation pool_table: lh_contract CRYPTO_BUFFER_hash CRYPTO_BUFFER_cmp
  by unfold_locales (simp_all add: CRYPTO_BUFFER_hash_def)

end
