(* ===== verification/Pool_Safe.thy ===== *)
theory Pool_Safe
  imports Pool
begin

text \<open>
  Any number of threads that share one buffer pool. A thread that wants a buffer first searches the
  pool and, when the search fails, comes back to insert its own copy, with steps of other threads in
  between; a thread gives references back, or takes more, only while it holds some. The ghost state
  \<open>held\<close> counts the references that were handed out. The invariant relates it to the reference
  counts and the table to the live buffers.
\<close>

section \<open>The system\<close>

record pool_sys =
  heap :: pool_heap
  held :: "nat \<Rightarrow> nat"
  waiting :: "nat \<Rightarrow> bytes option"

inductive pool_step :: "alloc \<Rightarrow> pool_sys \<Rightarrow> pool_sys \<Rightarrow> bool" for A where
  new_hit: "waiting S t = None \<Longrightarrow> pool_lookup d (heap S) = Some (Some a, h) \<Longrightarrow>
    pool_step A S (S\<lparr>heap := h, held := (held S)(a := held S a + 1)\<rparr>)"
| new_miss: "waiting S t = None \<Longrightarrow> pool_lookup d (heap S) = Some (None, h) \<Longrightarrow>
    pool_step A S (S\<lparr>heap := h, waiting := (waiting S)(t := Some d)\<rparr>)"
| new_insert: "waiting S t = Some d \<Longrightarrow> pool_insert A d (heap S) = Some (Some a, h) \<Longrightarrow>
    pool_step A S (S\<lparr>heap := h, held := (held S)(a := held S a + 1), waiting := (waiting S)(t := None)\<rparr>)"
| new_fails: "waiting S t = Some d \<Longrightarrow> pool_insert A d (heap S) = Some (None, h) \<Longrightarrow>
    pool_step A S (S\<lparr>heap := h, waiting := (waiting S)(t := None)\<rparr>)"
| new_alone: "CRYPTO_BUFFER_new A d False (heap S) = Some (Some a, h) \<Longrightarrow>
    pool_step A S (S\<lparr>heap := h, held := (held S)(a := held S a + 1)\<rparr>)"
| up_ref: "0 < held S a \<Longrightarrow> CRYPTO_BUFFER_up_ref a (heap S) = Some h \<Longrightarrow>
    pool_step A S (S\<lparr>heap := h, held := (held S)(a := held S a + 1)\<rparr>)"
| free: "0 < held S a \<Longrightarrow> CRYPTO_BUFFER_free A (Some a) (heap S) = Some h \<Longrightarrow>
    pool_step A S (S\<lparr>heap := h, held := (held S)(a := held S a - 1)\<rparr>)"

definition pool_start :: "pool_heap \<Rightarrow> pool_sys" where
  "pool_start h = \<lparr>heap = h, held = \<lambda>_. 0, waiting = \<lambda>_. None\<rparr>"

section \<open>Reference counts\<close>

text \<open>A count stands for the references that were handed out, or is saturated.\<close>

definition counts :: "u32 \<Rightarrow> nat \<Rightarrow> bool" where
  "counts r n \<longleftrightarrow> r = CRYPTO_REFCOUNT_MAX \<or> (unat r = n \<and> 0 < n)"

lemma counts_one: "counts 1 (Suc 0)"
  by (simp add: counts_def)

lemma counts_inc:
  assumes "counts r n"
  shows "counts (CRYPTO_refcount_inc r) (Suc n)"
proof (cases "r = CRYPTO_REFCOUNT_MAX")
  case False
  then have "unat r < 4294967295" using less_max_iff [of r] by (simp add: word_less_nat_alt)
  then have "unat (r + 1) = Suc (unat r)" by (intro unat_inc [of _ 0]) simp
  then show ?thesis using assms False by (simp add: counts_def CRYPTO_refcount_inc_def)
qed (simp add: counts_def CRYPTO_refcount_inc_def)

lemma counts_dec:
  assumes "counts r n" and "0 < n"
  obtains z r' where "CRYPTO_refcount_dec_and_test_zero r = Some (z, r')"
    "z \<Longrightarrow> n = 1" "\<not> z \<Longrightarrow> counts r' (n - 1)"
proof (cases "r = CRYPTO_REFCOUNT_MAX")
  case True
  then show thesis by (intro that [of False r]) (simp_all add: CRYPTO_refcount_dec_and_test_zero_def counts_def)
next
  case False
  with assms have u: "unat r = n" "r \<noteq> 0" by (auto simp: counts_def)
  then have "unat (r - 1) = n - 1" by (simp add: unat_dec)
  moreover from this have "r - 1 = 0 \<longleftrightarrow> n = 1" using assms(2) by (auto simp: unat_eq_zero [symmetric] simp del: unat_eq_zero)
  ultimately show thesis
    using False u assms(2) by (intro that) (auto simp: CRYPTO_refcount_dec_and_test_zero_def counts_def)
qed

section \<open>The invariant\<close>

definition pool_inv :: "pool_sys \<Rightarrow> bool" where
  "pool_inv S \<longleftrightarrow>
     (let h = heap S
      in lh_ok CRYPTO_BUFFER_hash CRYPTO_BUFFER_cmp (bufs h)
       \<and> num_items (bufs h) \<le> next_addr h \<and> next_addr h \<le> size_max
       \<and> (\<forall>a b. live h a = Some b \<longrightarrow> counts (buf_references b) (held S a) \<and> a < next_addr h)
       \<and> (\<forall>a. 0 < held S a \<longrightarrow> live h a \<noteq> None)
       \<and> (\<forall>x d a e. lh_retrieve (bufs h) (x, d) = Some (a, e)
            \<longleftrightarrow> e = d \<and> (\<exists>b. live h a = Some b \<and> in_pool b \<and> buf_data b = d)))"

lemma pool_invD:
  assumes "pool_inv S"
  shows "lh_ok CRYPTO_BUFFER_hash CRYPTO_BUFFER_cmp (bufs (heap S))"
    "num_items (bufs (heap S)) \<le> next_addr (heap S)" "next_addr (heap S) \<le> size_max"
    "\<And>a b. live (heap S) a = Some b \<Longrightarrow> counts (buf_references b) (held S a)"
    "\<And>a b. live (heap S) a = Some b \<Longrightarrow> a < next_addr (heap S)"
    "\<And>a. 0 < held S a \<Longrightarrow> \<exists>b. live (heap S) a = Some b"
    "\<And>x d a e. lh_retrieve (bufs (heap S)) (x, d) = Some (a, e)
            \<longleftrightarrow> e = d \<and> (\<exists>b. live (heap S) a = Some b \<and> in_pool b \<and> buf_data b = d)"
  using assms unfolding pool_inv_def Let_def by blast+

text \<open>Buffers with equal contents in the pool are one buffer.\<close>

lemma pool_unique:
  assumes "pool_inv S" and "live (heap S) a = Some b" "live (heap S) a' = Some b'" "in_pool b" "in_pool b'"
    "buf_data b = buf_data b'"
  shows "a = a'"
proof -
  have "lh_retrieve (bufs (heap S)) (0, buf_data b) = Some (a, buf_data b)"
    "lh_retrieve (bufs (heap S)) (0, buf_data b) = Some (a', buf_data b)"
    using assms pool_invD(7) [OF assms(1)] by auto
  then show ?thesis by simp
qed

lemma up_ref_ok:
  assumes inv: "pool_inv S" and a: "live (heap S) a = Some b"
  shows "\<exists>h. CRYPTO_BUFFER_up_ref a (heap S) = Some h \<and> pool_inv (S\<lparr>heap := h, held := (held S)(a := held S a + 1)\<rparr>)"
proof -
  define h where "h = put_buf a (Some (b\<lparr>buf_references := CRYPTO_refcount_inc (buf_references b)\<rparr>)) (heap S)"
  have run: "CRYPTO_BUFFER_up_ref a (heap S) = Some h" by (simp add: CRYPTO_BUFFER_up_ref_def a h_def)
  note D = pool_invD [OF inv]
  have t: "(\<exists>b. live h x = Some b \<and> in_pool b \<and> buf_data b = d)
      \<longleftrightarrow> (\<exists>b. live (heap S) x = Some b \<and> in_pool b \<and> buf_data b = d)" for x d
    using a by (simp add: h_def put_buf_def)
  have "pool_inv (S\<lparr>heap := h, held := (held S)(a := held S a + 1)\<rparr>)"
    unfolding pool_inv_def Let_def
    using D(1-6) a counts_inc [OF D(4) [OF a]] by (simp add: t D(7) [symmetric]) (simp add: h_def put_buf_def D(7))
  with run show ?thesis by blast
qed

lemma lookup_ok:
  assumes inv: "pool_inv S"
  shows "\<exists>r h. pool_lookup d (heap S) = Some (r, h)
    \<and> (case r of
         None \<Rightarrow> h = heap S
       | Some a \<Rightarrow> pool_inv (S\<lparr>heap := h, held := (held S)(a := held S a + 1)\<rparr>))"
proof (cases "lh_retrieve (bufs (heap S)) (0, d)")
  case None
  then show ?thesis by (simp add: pool_lookup_def)
next
  case (Some p)
  obtain a e where p: "p = (a, e)" by (cases p)
  then obtain b where "live (heap S) a = Some b" using Some pool_invD(7) [OF inv] by auto
  from up_ref_ok [OF inv this] show ?thesis using Some p by (auto simp: pool_lookup_def)
qed

text \<open>A new buffer at the next address.\<close>

lemma new_contents_Some:
  assumes "new_contents A d s = Some e"
  shows "e = d" and "next_addr s < size_max"
  using assms by (auto simp: new_contents_def BUF_memdup_def split: if_splits option.splits)

lemma fresh_addr:
  assumes "pool_inv S"
  shows "live (heap S) (next_addr (heap S)) = None" and "held S (next_addr (heap S)) = 0"
  using pool_invD(5,6) [OF assms] by (metis less_irrefl not_None_eq, metis gr0I less_irrefl)

lemma pool_insert_ok:
  assumes inv: "pool_inv S"
  shows "\<exists>r h. pool_insert A d (heap S) = Some (r, h)
    \<and> (case r of
         None \<Rightarrow> pool_inv (S\<lparr>heap := h\<rparr>)
       | Some a \<Rightarrow> pool_inv (S\<lparr>heap := h, held := (held S)(a := held S a + 1)\<rparr>))"
proof (cases "new_contents A d (heap S)")
  case None
  then show ?thesis using inv by (simp add: pool_insert_def)
next
  case (Some e)
  note e = new_contents_Some [OF Some]
  note D = pool_invD [OF inv] and F = fresh_addr [OF inv]
  define h where "h = heap S"
  define a where "a = next_addr h"
  have nc: "new_contents A d h = Some d" using Some e by (simp add: h_def)
  have small: "num_items (bufs h) < size_max" using D(2) e(2) by (simp add: h_def)
  show ?thesis
  proof (cases "lh_retrieve (bufs h) (a, d)")
    case (Some p)
    obtain a' x where p: "p = (a', x)" by (cases p)
    then obtain b where "live (heap S) a' = Some b" using Some D(7) by (auto simp: h_def)
    from up_ref_ok [OF inv this] show ?thesis using Some p nc by (auto simp: pool_insert_def a_def h_def)
  next
    case None
    obtain t where t: "lh_insert A (bufs h) (a, d) = Some (A 24 \<noteq> None, None, t)"
      "lh_ok CRYPTO_BUFFER_hash CRYPTO_BUFFER_cmp t" "num_items t \<le> num_items (bufs h) + 1"
      "lh_retrieve t = (if A 24 \<noteq> None then pool_table.map_insert (a, d) (lh_retrieve (bufs h)) else lh_retrieve (bufs h))"
      using pool_table.insert_ok [OF D(1) small [unfolded h_def], where A = A and d = "(a, d)"] None by (auto simp: h_def)
    show ?thesis
    proof (cases "A 24 = None")
      case True
      then have "pool_insert A d h = Some (None, h\<lparr>bufs := t\<rparr>)"
        using nc None t(1) by (simp add: pool_insert_def a_def [symmetric])
      moreover have "lh_insert A (bufs h) (a, d) = Some (False, None, bufs h)"
        using True None t(1)
        by (auto simp: lh_insert_def lh_retrieve_def Let_def split: prod.splits if_splits)
      then have "t = bufs h" using t(1) by simp
      ultimately show ?thesis using inv by (simp add: h_def)
    next
      case False
      define h' where "h' = put_buf a (Some \<lparr>in_pool = True, buf_data = d, buf_references = 1\<rparr>) (h\<lparr>next_addr := a + 1, bufs := t\<rparr>)"
      have "pool_insert A d h = Some (Some a, h')"
        using False nc None t(1) by (simp add: pool_insert_def a_def [symmetric] h'_def)
      moreover have "pool_inv (S\<lparr>heap := h', held := (held S)(a := held S a + 1)\<rparr>)"
        unfolding pool_inv_def Let_def
      proof (intro conjI allI impI, goal_cases)
        case (7 x y a' z)
        have none: "\<not> (\<exists>b. live h a'' = Some b \<and> in_pool b \<and> buf_data b = d)" for a''
          using D(7) [of a d a'' d] None by (simp add: h_def)
        have "lh_retrieve t (x, y) = Some (a', z) \<longleftrightarrow> (if d = y then (a', z) = (a, d) else lh_retrieve (bufs h) (x, y) = Some (a', z))"
          using False t(4) by (auto simp: pool_table.map_insert_def)
        then show ?case
          using none F(1) D(7) [of x y a' z] by (auto simp: h'_def put_buf_def a_def [symmetric] h_def [symmetric])
      qed (use t(2,3) D F e(2) in \<open>auto simp: h'_def put_buf_def a_def h_def counts_one less_Suc_eq split: if_splits\<close>)
      ultimately show ?thesis by (auto simp: h_def)
    qed
  qed
qed

lemma alone_ok:
  assumes inv: "pool_inv S" and "CRYPTO_BUFFER_new A d False (heap S) = Some (Some a, h)"
  shows "pool_inv (S\<lparr>heap := h, held := (held S)(a := held S a + 1)\<rparr>)"
proof -
  obtain e where e: "new_contents A d (heap S) = Some e" and a: "a = next_addr (heap S)"
    and h: "h = put_buf a (Some \<lparr>in_pool = False, buf_data = e, buf_references = 1\<rparr>) ((heap S)\<lparr>next_addr := a + 1\<rparr>)"
    using assms(2) by (auto simp: CRYPTO_BUFFER_new_def Let_def split: option.splits)
  note D = pool_invD [OF inv] and F = fresh_addr [OF inv]
  show ?thesis
    unfolding pool_inv_def Let_def
  proof (intro conjI allI impI, goal_cases)
    case (7 x y a' z)
    then show ?case using F(1) D(7) [of x y a' z] by (auto simp: h put_buf_def a)
  qed (use D F new_contents_Some [OF e] in \<open>auto simp: h put_buf_def a counts_one less_Suc_eq split: if_splits\<close>)
qed

lemma free_ok:
  assumes inv: "pool_inv S" and "0 < held S a"
  shows "\<exists>h. CRYPTO_BUFFER_free A (Some a) (heap S) = Some h \<and> pool_inv (S\<lparr>heap := h, held := (held S)(a := held S a - 1)\<rparr>)
    \<and> (held S a = 1 \<and> buf_references (the (live (heap S) a)) \<noteq> CRYPTO_REFCOUNT_MAX \<longrightarrow> live h a = None)"
proof -
  note D = pool_invD [OF inv]
  obtain b where b: "live (heap S) a = Some b" using D(6) assms(2) by blast
  obtain z r where r: "CRYPTO_refcount_dec_and_test_zero (buf_references b) = Some (z, r)"
    and z: "z \<Longrightarrow> held S a = 1" "\<not> z \<Longrightarrow> counts r (held S a - 1)"
    using counts_dec [OF D(4) [OF b] assms(2)] by blast
  show ?thesis
  proof (cases z)
    case False
    define h where "h = put_buf a (Some (b\<lparr>buf_references := r\<rparr>)) (heap S)"
    have run: "CRYPTO_BUFFER_free A (Some a) (heap S) = Some h" using b r False by (simp add: CRYPTO_BUFFER_free_def h_def)
    have "held S a = 1 \<Longrightarrow> buf_references b = CRYPTO_REFCOUNT_MAX"
      using z(2) [OF False] r D(4) [OF b] False
      by (auto simp: counts_def CRYPTO_refcount_dec_and_test_zero_def split: if_splits)
    moreover have "pool_inv (S\<lparr>heap := h, held := (held S)(a := held S a - 1)\<rparr>)"
      unfolding pool_inv_def Let_def
    proof (intro conjI allI impI, goal_cases)
      case (7 x y a' z)
      then show ?case using b D(7) [of x y a' z] by (auto simp: h_def put_buf_def)
    qed (use D b z(2) [OF False] in \<open>auto simp: h_def put_buf_def split: if_splits\<close>)
    ultimately show ?thesis using run b by auto
  next
    case True
    then have held: "held S a = 1" by (rule z(1))
    show ?thesis
    proof (cases "in_pool b")
      case False
      define h where "h = put_buf a None (heap S)"
      have run: "CRYPTO_BUFFER_free A (Some a) (heap S) = Some h"
        using b r True False by (simp add: CRYPTO_BUFFER_free_def h_def)
      moreover have "pool_inv (S\<lparr>heap := h, held := (held S)(a := held S a - 1)\<rparr>)"
        unfolding pool_inv_def Let_def
      proof (intro conjI allI impI, goal_cases)
        case (7 x y a' z)
        then show ?case using b False D(7) [of x y a' z] by (auto simp: h_def put_buf_def)
      qed (use D held in \<open>auto simp: h_def put_buf_def split: if_splits\<close>)
      ultimately show ?thesis by (simp add: h_def put_buf_def)
    next
      case pool: True
      have found: "lh_retrieve (bufs (heap S)) (a, buf_data b) = Some (a, buf_data b)" using b pool D(7) by auto
      obtain t where t: "lh_delete A (bufs (heap S)) (a, buf_data b) = Some (Some (a, buf_data b), t)"
        "lh_ok CRYPTO_BUFFER_hash CRYPTO_BUFFER_cmp t" "num_items t \<le> num_items (bufs (heap S))"
        "lh_retrieve t = pool_table.map_delete (a, buf_data b) (lh_retrieve (bufs (heap S)))"
        using pool_table.delete_ok [OF D(1) order_trans [OF D(2,3)], where A = A and d = "(a, buf_data b)"] found by auto
      define h where "h = put_buf a None ((heap S)\<lparr>bufs := t\<rparr>)"
      have run: "CRYPTO_BUFFER_free A (Some a) (heap S) = Some h"
        using b r True pool t(1) by (simp add: CRYPTO_BUFFER_free_def h_def)
      moreover have "pool_inv (S\<lparr>heap := h, held := (held S)(a := held S a - 1)\<rparr>)"
        unfolding pool_inv_def Let_def
      proof (intro conjI allI impI, goal_cases)
        case (7 x y a' z)
        have "lh_retrieve t (x, y) = Some (a', z) \<longleftrightarrow> buf_data b \<noteq> y \<and> lh_retrieve (bufs (heap S)) (x, y) = Some (a', z)"
          using t(4) by (auto simp: pool_table.map_delete_def)
        moreover have "a' = a" if "live (heap S) a' = Some b'" "in_pool b'" "buf_data b' = buf_data b" for b'
          using pool_unique [OF inv that(1) b that(2) pool that(3)] .
        ultimately show ?case using b D(7) [of x y a' z] by (auto simp: h_def put_buf_def)
      qed (use D held t(2,3) in \<open>auto simp: h_def put_buf_def split: if_splits\<close>)
      ultimately show ?thesis by (simp add: h_def put_buf_def)
    qed
  qed
qed

section \<open>Reachable states\<close>

lemma pool_inv_step:
  assumes "pool_step A S S'" and "pool_inv S"
  shows "pool_inv S'"
  using assms
proof (induction rule: pool_step.induct)
  case (new_hit S t d a h)
  then show ?case using lookup_ok [of S d] by auto
next
  case (new_miss S t d h)
  then show ?case using lookup_ok [of S d] by (auto simp: pool_inv_def)
next
  case (new_insert S t d a h)
  then show ?case using pool_insert_ok [of S A d] by (auto simp: pool_inv_def)
next
  case (new_fails S t d h)
  then show ?case using pool_insert_ok [of S A d] by (auto simp: pool_inv_def)
next
  case (new_alone d S a h)
  then show ?case using alone_ok by blast
next
  case (up_ref S a h)
  then show ?case using pool_invD(6) [of S a] up_ref_ok [of S a] by auto
next
  case (free S a h)
  then show ?case using free_ok [of S a A] by auto
qed

lemma pool_inv_start:
  assumes "CRYPTO_BUFFER_POOL_new A = Some h"
  shows "pool_inv (pool_start h)"
proof -
  obtain t where t: "lh_new A CRYPTO_BUFFER_hash CRYPTO_BUFFER_cmp = Some t" "h = \<lparr>live = \<lambda>_. None, next_addr = 1, bufs = t\<rparr>"
    using assms by (auto simp: CRYPTO_BUFFER_POOL_new_def split: if_splits)
  show ?thesis using pool_table.new_ok [OF t(1)] by (simp add: t(2) pool_inv_def pool_start_def)
qed

lemma pool_inv_reachable:
  assumes "CRYPTO_BUFFER_POOL_new A = Some h" and "(pool_step A)\<^sup>*\<^sup>* (pool_start h) S"
  shows "pool_inv S"
  using assms(2) by (induction rule: rtranclp_induct) (auto intro: pool_inv_start assms(1) pool_inv_step)

section \<open>Contents\<close>

text \<open>An address is used for one buffer only, and a buffer keeps its contents as long as it is live.\<close>

definition heap_keeps :: "pool_heap \<Rightarrow> pool_heap \<Rightarrow> bool" where
  "heap_keeps h h' \<longleftrightarrow> next_addr h \<le> next_addr h'
     \<and> (\<forall>a b'. a < next_addr h \<longrightarrow> live h' a = Some b' \<longrightarrow> (\<exists>b. live h a = Some b \<and> buf_data b' = buf_data b))"

lemma heap_keeps_refl: "heap_keeps h h"
  by (simp add: heap_keeps_def)

lemma heap_keeps_trans: "heap_keeps h h' \<Longrightarrow> heap_keeps h' h'' \<Longrightarrow> heap_keeps h h''"
  unfolding heap_keeps_def by (metis order_less_le_trans order_trans)

lemma up_ref_keeps:
  assumes "CRYPTO_BUFFER_up_ref a h = Some h'"
  shows "heap_keeps h h'" and "CRYPTO_BUFFER_data x h' = CRYPTO_BUFFER_data x h" and "bufs h' = bufs h"
  using assms by (auto simp: CRYPTO_BUFFER_up_ref_def put_buf_def heap_keeps_def CRYPTO_BUFFER_data_def split: if_splits)

lemma lookup_keeps:
  assumes "pool_lookup d h = Some (r, h')"
  shows "heap_keeps h h'"
  using assms by (auto simp: pool_lookup_def heap_keeps_refl split: option.splits dest: up_ref_keeps(1))

lemma insert_keeps:
  assumes "pool_insert A d h = Some (r, h')"
  shows "heap_keeps h h'"
  using assms
  by (auto simp: pool_insert_def Let_def heap_keeps_refl split: option.splits prod.splits if_splits dest: up_ref_keeps(1))
    (auto simp: heap_keeps_def put_buf_def)

lemma alone_keeps:
  assumes "CRYPTO_BUFFER_new A d False h = Some (r, h')"
  shows "heap_keeps h h'"
  using assms by (auto simp: CRYPTO_BUFFER_new_def Let_def heap_keeps_def put_buf_def split: option.splits)

lemma free_keeps:
  assumes "CRYPTO_BUFFER_free A (Some a) h = Some h'"
  shows "heap_keeps h h'"
  using assms by (auto simp: CRYPTO_BUFFER_free_def heap_keeps_def put_buf_def split: option.splits prod.splits bool.splits if_splits)

lemma step_keeps: "pool_step A S S' \<Longrightarrow> heap_keeps (heap S) (heap S')"
  by (induction rule: pool_step.induct) (auto dest: lookup_keeps insert_keeps alone_keeps up_ref_keeps(1) free_keeps)

lemma steps_keep: "(pool_step A)\<^sup>*\<^sup>* S S' \<Longrightarrow> heap_keeps (heap S) (heap S')"
  by (induction rule: rtranclp_induct) (auto intro: heap_keeps_refl heap_keeps_trans step_keeps)

text \<open>The buffer that is handed out has the contents that were asked for.\<close>

lemma new_contents_eq: "new_contents A d h = Some e \<Longrightarrow> e = d"
  by (auto simp: new_contents_def BUF_memdup_def split: option.splits if_splits)

lemma lookup_data:
  assumes "pool_inv S" and "pool_lookup d (heap S) = Some (Some a, h)"
  shows "CRYPTO_BUFFER_data a h = Some d"
proof -
  obtain e where r: "lh_retrieve (bufs (heap S)) (0, d) = Some (a, e)" and u: "CRYPTO_BUFFER_up_ref a (heap S) = Some h"
    using assms(2) by (auto simp: pool_lookup_def split: option.splits)
  then have "CRYPTO_BUFFER_data a (heap S) = Some d"
    using pool_invD(7) [OF assms(1), of 0 d a e] by (auto simp: CRYPTO_BUFFER_data_def)
  then show ?thesis by (simp add: up_ref_keeps(2) [OF u])
qed

lemma insert_data:
  assumes "pool_inv S" and "pool_insert A d (heap S) = Some (Some a, h)"
  shows "CRYPTO_BUFFER_data a h = Some d"
proof (cases "lh_retrieve (bufs (heap S)) (next_addr (heap S), d)")
  case None
  then show ?thesis
    using assms(2)
    by (auto simp: pool_insert_def Let_def CRYPTO_BUFFER_data_def put_buf_def dest!: new_contents_eq
        split: option.splits prod.splits if_splits)
next
  case (Some x)
  obtain y e where x: "x = (y, e)" by (cases x)
  have u: "CRYPTO_BUFFER_up_ref a (heap S) = Some h" "y = a"
    using assms(2) Some x
    by (auto simp: pool_insert_def Let_def dest!: new_contents_eq split: option.splits)
  have "CRYPTO_BUFFER_data a (heap S) = Some d"
    using pool_invD(7) [OF assms(1), of "next_addr (heap S)" d a e] Some x u(2) by (auto simp: CRYPTO_BUFFER_data_def)
  then show ?thesis by (simp add: up_ref_keeps(2) [OF u(1)])
qed

lemma alone_data:
  assumes "CRYPTO_BUFFER_new A d False h = Some (Some a, h')"
  shows "CRYPTO_BUFFER_data a h' = Some d"
  using assms
  by (auto simp: CRYPTO_BUFFER_new_def Let_def CRYPTO_BUFFER_data_def put_buf_def dest!: new_contents_eq split: option.splits)

lemma held_data:
  assumes "pool_inv S" and "(pool_step A)\<^sup>*\<^sup>* S S'" and "pool_inv S'" and "0 < held S a" and "0 < held S' a"
  shows "CRYPTO_BUFFER_data a (heap S') = CRYPTO_BUFFER_data a (heap S)"
proof -
  obtain b b' where b: "live (heap S) a = Some b" "live (heap S') a = Some b'"
    using pool_invD(6) [OF assms(1,4)] pool_invD(6) [OF assms(3,5)] by auto
  moreover have "a < next_addr (heap S)" by (rule pool_invD(5) [OF assms(1) b(1)])
  ultimately show ?thesis
    using steps_keep [OF assms(2)] by (auto simp: heap_keeps_def CRYPTO_BUFFER_data_def)
qed

end
