(* ===== verification/Pool_Props.thy ===== *)
theory Pool_Props
  imports Pool_Safe Ex_Alloc
begin

text \<open>
  Properties of the hash table and of the buffer pool on top of it.
\<close>

section \<open>Examples\<close>

definition ex_pool :: pool_heap where
  "ex_pool = the (CRYPTO_BUFFER_POOL_new ex_alloc)"

lemma ex_pool: "CRYPTO_BUFFER_POOL_new ex_alloc = Some ex_pool"
  by (simp add: ex_pool_def CRYPTO_BUFFER_POOL_new_def lh_new_def ex_alloc_def)

lemma ex_pool_table: "lh_new ex_alloc CRYPTO_BUFFER_hash CRYPTO_BUFFER_cmp = Some (bufs ex_pool)"
  by (simp add: ex_pool_def CRYPTO_BUFFER_POOL_new_def lh_new_def ex_alloc_def)

lemma ex_pool_empty: "lh_retrieve (bufs ex_pool) = (\<lambda>_. None)" "next_addr ex_pool = 1" "lh_num_items (bufs ex_pool) = 0"
    "live ex_pool = (\<lambda>_. None)"
  using pool_table.new_ok [OF ex_pool_table]
  by (simp_all add: lh_num_items_def) (simp_all add: ex_pool_def CRYPTO_BUFFER_POOL_new_def lh_new_def ex_alloc_def)

text \<open>A thread that creates a buffer, and another one that finds it.\<close>

lemma ex_pool_run:
  "\<exists>S. (pool_step ex_alloc)\<^sup>*\<^sup>* (pool_start ex_pool) S \<and> held S = (\<lambda>_. 0)(1 := 2) \<and> waiting S = (\<lambda>_. None)
    \<and> live (heap S) = [1 \<mapsto> \<lparr>in_pool = True, buf_data = [1, 2, 3], buf_references = 2\<rparr>]"
proof -
  define S0 where "S0 = pool_start ex_pool"
  have inv: "pool_inv S0" by (simp add: S0_def pool_inv_start [OF ex_pool])
  have s0: "heap S0 = ex_pool" "waiting S0 = (\<lambda>_. None)" "held S0 = (\<lambda>_. 0)" by (simp_all add: S0_def pool_start_def)
  have "pool_lookup [1, 2, 3] (heap S0) = Some (None, heap S0)" by (simp add: pool_lookup_def s0 ex_pool_empty)
  then have 1: "pool_step ex_alloc S0 (S0\<lparr>heap := heap S0, waiting := (waiting S0)(0 := Some [1, 2, 3])\<rparr>)" (is "pool_step _ _ ?S1")
    by (intro pool_step.new_miss) (simp_all add: s0)
  have nc: "new_contents ex_alloc [1, 2, 3] ex_pool = Some [1, 2, 3]"
    by (simp add: new_contents_def ex_alloc_def ex_pool_empty BUF_memdup_def)
  obtain t where t: "lh_insert ex_alloc (bufs ex_pool) (1, [1, 2, 3]) = Some (True, None, t)"
    "lh_retrieve t = pool_table.map_insert (1, [1, 2, 3]) (\<lambda>_. None)"
    using pool_table.insert_ok [OF pool_invD(1) [OF inv], where A = ex_alloc and d = "(1, [1, 2, 3])"]
    by (auto simp: s0 ex_pool_empty ex_alloc_def ex_pool_empty(3) [unfolded lh_num_items_def])
  define h where "h = put_buf 1 (Some \<lparr>in_pool = True, buf_data = [1, 2, 3], buf_references = 1\<rparr>) (ex_pool\<lparr>next_addr := 2, bufs := t\<rparr>)"
  define S2 where "S2 = S0\<lparr>heap := h, held := (held S0)(1 := 1), waiting := \<lambda>_. None\<rparr>"
  have "pool_insert ex_alloc [1, 2, 3] (heap ?S1) = Some (Some 1, h)"
    using nc t(1) by (simp add: pool_insert_def s0 ex_pool_empty h_def numeral_2_eq_2)
  then have 2: "pool_step ex_alloc ?S1 S2"
    using pool_step.new_insert [of ?S1 0 "[1, 2, 3]" ex_alloc 1 h] by (simp add: s0 S2_def fun_upd_idem)
  define h3 where "h3 = put_buf 1 (Some \<lparr>in_pool = True, buf_data = [1, 2, 3], buf_references = 2\<rparr>) h"
  have "pool_lookup [1, 2, 3] (heap S2) = Some (Some 1, h3)"
    by (simp add: pool_lookup_def S2_def h_def put_buf_def t(2) pool_table.map_insert_def CRYPTO_BUFFER_up_ref_def
        CRYPTO_refcount_inc_def h3_def)
  then have 3: "pool_step ex_alloc S2 (S2\<lparr>heap := h3, held := (held S2)(1 := held S2 1 + 1)\<rparr>)"
    using pool_step.new_hit [of S2 1 "[1, 2, 3]" 1 h3 ex_alloc] by (simp add: S2_def s0)
  show ?thesis
  proof (intro exI conjI)
    show "(pool_step ex_alloc)\<^sup>*\<^sup>* (pool_start ex_pool) (S2\<lparr>heap := h3, held := (held S2)(1 := held S2 1 + 1)\<rparr>)"
      using 1 2 3 by (simp add: S0_def [symmetric])
  qed (simp_all add: S2_def h3_def h_def put_buf_def s0 ex_pool_empty numeral_2_eq_2)
qed

text \<open>Two references to one buffer are given back, and then it is gone.\<close>

lemma ex_pool_back:
  "\<exists>S S'. (pool_step ex_alloc)\<^sup>*\<^sup>* (pool_start ex_pool) S \<and> held S 1 = 2
    \<and> CRYPTO_BUFFER_data 1 (heap S) = Some [1, 2, 3] \<and> (pool_step ex_alloc)\<^sup>*\<^sup>* S S'
    \<and> held S' = (\<lambda>_. 0) \<and> live (heap S') = (\<lambda>_. None)"
proof -
  obtain S where S: "(pool_step ex_alloc)\<^sup>*\<^sup>* (pool_start ex_pool) S" "held S = (\<lambda>_. 0)(1 := 2)"
    "live (heap S) = [1 \<mapsto> \<lparr>in_pool = True, buf_data = [1, 2, 3], buf_references = 2\<rparr>]"
    using ex_pool_run by blast
  define h where "h = put_buf 1 (Some \<lparr>in_pool = True, buf_data = [1, 2, 3], buf_references = 1\<rparr>) (heap S)"
  define S1 where "S1 = S\<lparr>heap := h, held := (held S)(1 := held S 1 - 1)\<rparr>"
  have "CRYPTO_BUFFER_free ex_alloc (Some 1) (heap S) = Some h"
    by (simp add: CRYPTO_BUFFER_free_def S(3) CRYPTO_refcount_dec_and_test_zero_def h_def)
  then have 1: "pool_step ex_alloc S S1"
    unfolding S1_def by (intro pool_step.free) (simp_all add: S(2))
  have live: "live (heap S1) = [1 \<mapsto> \<lparr>in_pool = True, buf_data = [1, 2, 3], buf_references = 1\<rparr>]"
    by (simp add: S1_def h_def put_buf_def S(3))
  have held: "held S1 = (\<lambda>_. 0)(1 := 1)" by (simp add: S1_def S(2))
  have "pool_inv S1"
    using pool_inv_reachable [OF ex_pool] S(1) 1 by (meson rtranclp.rtrancl_into_rtrancl)
  then obtain h' where h': "CRYPTO_BUFFER_free ex_alloc (Some 1) (heap S1) = Some h'"
    using free_ok [of S1 1 ex_alloc] held by auto
  then have "live h' = (\<lambda>_. None)"
    by (auto simp: CRYPTO_BUFFER_free_def live CRYPTO_refcount_dec_and_test_zero_def put_buf_def
        split: option.splits if_splits)
  moreover define S2 where "S2 = S1\<lparr>heap := h', held := (held S1)(1 := held S1 1 - 1)\<rparr>"
  moreover have "pool_step ex_alloc S1 S2"
    unfolding S2_def using h' by (intro pool_step.free) (simp_all add: held)
  ultimately have "(pool_step ex_alloc)\<^sup>*\<^sup>* S S2" "live (heap S2) = (\<lambda>_. None)" "held S2 = (\<lambda>_. 0)"
    using 1 held by (auto simp: fun_upd_def)
  moreover have "held S 1 = 2" "CRYPTO_BUFFER_data 1 (heap S) = Some [1, 2, 3]"
    by (simp_all add: S(2,3) CRYPTO_BUFFER_data_def)
  ultimately show ?thesis using S(1) by blast
qed

section \<open>Properties\<close>

text \<open>C3. A hash table behaves like a finite map: every sequence of insertions, deletions and lookups
  from \<open>lh_new\<close> on completes with the results that the same calls have on a map from keys to data,
  through every resizing, whichever allocation fails; this holds for every comparison function that
  is an equivalence and every hash function that respects it.\<close>

theorem lhash_refines_map:
  assumes "lh_contract hash cmp" and "lh_new A hash cmp = Some lh" and "length cs < size_max"
  shows "\<exists>lh'. run_lh A cs lh = Some (fst (run_map cmp (A 24 \<noteq> None) cs (\<lambda>_. None)), lh')
    \<and> lh_retrieve lh' = snd (run_map cmp (A 24 \<noteq> None) cs (\<lambda>_. None))"
proof -
  note N = lh_contract.new_ok [OF assms(1,2)]
  show ?thesis using lh_contract.run_ok [OF assms(1) N(1), of cs A] N(2,3) assms(3) by auto
qed

lemma lhash_refines_map_witness:
  "\<exists>(lh :: buf_ptr LHASH) lh'. run_lh ex_alloc [LhInsert (1, [7]), LhInsert (2, [7]), LhRetrieve (0, [7]), LhDelete (0, [8])] lh =
    Some ([(True, None), (True, Some (1, [7])), (True, Some (2, [7])), (True, None)], lh')"
proof -
  let ?cs = "[LhInsert (1, [7]), LhInsert (2, [7]), LhRetrieve (0, [7]), LhDelete (0, [8 :: u8])] :: buf_ptr lh_call list"
  obtain lh' where "run_lh ex_alloc ?cs (bufs ex_pool) =
      Some (fst (run_map CRYPTO_BUFFER_cmp (ex_alloc 24 \<noteq> None) ?cs (\<lambda>_. None)), lh')"
    using lhash_refines_map [OF pool_table.lh_contract_axioms ex_pool_table, of ?cs] by auto
  moreover have "fst (run_map CRYPTO_BUFFER_cmp (ex_alloc 24 \<noteq> None) ?cs (\<lambda>_. None)) =
      [(True, None), (True, Some (1, [7])), (True, Some (2, [7])), (True, None)]"
    by (simp add: Let_def ex_alloc_def)
  ultimately show ?thesis by (intro exI [of _ "bufs ex_pool"] exI [of _ lh']) (simp only:)
qed

text \<open>C38. The load of a hash table stays between bounds: as long as no allocation fails, after any sequence of
  calls there are on average fewer than three items in a bucket, and, above the minimum of 16 buckets, at least
  one, so that the table also shrinks again. (No bound holds for a single bucket, nor after failed resizings.)\<close>

theorem lhash_load_bounded:
  assumes "lh_contract hash cmp" and "\<forall>n. A n \<noteq> None" and "lh_new A hash cmp = Some lh" and "length cs < 2 ^ 56"
    and "run_lh A cs lh = Some (rs, lh')"
  shows "num_items lh' < 3 * num_buckets lh' \<and> 16 \<le> num_buckets lh' \<and> num_buckets lh' \<le> max 16 (num_items lh')
    \<and> num_items lh' \<le> length cs"
proof -
  note N = lh_contract.new_ok [OF assms(1,3)]
  have "lh_short lh" using assms(3) by (auto simp: lh_new_def lh_short_def split: if_splits)
  from run_short [OF assms(1,2) N(1) this _ assms(5)] N(3) assms(4) show ?thesis by (simp add: lh_short_def)
qed

lemma lhash_load_bounded_witness:
  "\<exists>lh'. run_lh ex_alloc (map (\<lambda>i. LhInsert (i, [of_nat i])) [0..<100]) (bufs ex_pool) = Some lh'
    \<and> num_items (snd lh') < 3 * num_buckets (snd lh')"
proof -
  note new = ex_pool_table
  obtain rs lh' where "run_lh ex_alloc (map (\<lambda>i. LhInsert (i, [of_nat i])) [0..<100]) (bufs ex_pool) = Some (rs, lh')"
    using pool_table.run_ok [OF pool_table.new_ok(1) [OF new], of "map (\<lambda>i. LhInsert (i, [of_nat i])) [0..<100]" ex_alloc]
      pool_table.new_ok(3) [OF new] by (auto simp del: upt.simps)
  from lhash_load_bounded [OF pool_table.lh_contract_axioms ex_alloc_total new _ this] this show ?thesis by auto
qed

text \<open>C10. Buffers from a pool are safe to use: whatever the interleaving of the threads, no call that a
  thread may make fails an assertion, aborts or touches a released buffer; a buffer that is handed out has
  the contents that were asked for; and a buffer to which some reference is held is live and keeps its contents
  through all further steps of all threads, for as long as a reference is held.\<close>

theorem pool_calls_safe:
  assumes "CRYPTO_BUFFER_POOL_new A = Some h" and "(pool_step A)\<^sup>*\<^sup>* (pool_start h) S"
  shows "pool_lookup d (heap S) \<noteq> None \<and> pool_insert A d (heap S) \<noteq> None
    \<and> (\<forall>x h'. pool_lookup d (heap S) = Some (Some x, h') \<or> pool_insert A d (heap S) = Some (Some x, h')
          \<or> CRYPTO_BUFFER_new A d False (heap S) = Some (Some x, h') \<longrightarrow> CRYPTO_BUFFER_data x h' = Some d)
    \<and> (0 < held S a \<longrightarrow> CRYPTO_BUFFER_up_ref a (heap S) \<noteq> None \<and> CRYPTO_BUFFER_free A (Some a) (heap S) \<noteq> None
        \<and> CRYPTO_BUFFER_data a (heap S) \<noteq> None
        \<and> (\<forall>S'. (pool_step A)\<^sup>*\<^sup>* S S' \<and> 0 < held S' a
            \<longrightarrow> CRYPTO_BUFFER_data a (heap S') = CRYPTO_BUFFER_data a (heap S)))"
proof -
  have inv: "pool_inv S" by (rule pool_inv_reachable [OF assms])
  have "CRYPTO_BUFFER_up_ref a (heap S) \<noteq> None \<and> CRYPTO_BUFFER_free A (Some a) (heap S) \<noteq> None
      \<and> CRYPTO_BUFFER_data a (heap S) \<noteq> None" if "0 < held S a"
    using pool_invD(6) [OF inv that] up_ref_ok [OF inv] free_ok [OF inv that, of A] by (auto simp: CRYPTO_BUFFER_data_def)
  moreover have "CRYPTO_BUFFER_data a (heap S') = CRYPTO_BUFFER_data a (heap S)"
    if "0 < held S a" "(pool_step A)\<^sup>*\<^sup>* S S'" "0 < held S' a" for S'
    using held_data [OF inv that(2) _ that(1,3)] pool_inv_reachable [OF assms(1)] assms(2) that(2)
    by (meson rtranclp_trans)
  moreover have "pool_lookup d (heap S) \<noteq> None \<and> pool_insert A d (heap S) \<noteq> None"
    using lookup_ok [OF inv, of d] pool_insert_ok [OF inv, of A d] by auto
  ultimately show ?thesis
    using lookup_data [OF inv] insert_data [OF inv] alone_data by blast
qed

lemma pool_calls_safe_witness:
  "\<exists>S S' :: pool_sys. held S 1 = 2 \<and> CRYPTO_BUFFER_free ex_alloc (Some 1) (heap S) \<noteq> None
    \<and> pool_step ex_alloc S S' \<and> CRYPTO_BUFFER_data 1 (heap S') = Some [1, 2, 3]"
proof -
  obtain S where S: "(pool_step ex_alloc)\<^sup>*\<^sup>* (pool_start ex_pool) S" "held S = (\<lambda>_. 0)(1 := 2)"
    "live (heap S) = [1 \<mapsto> \<lparr>in_pool = True, buf_data = [1, 2, 3], buf_references = 2\<rparr>]"
    using ex_pool_run by blast
  note safe = pool_calls_safe [OF ex_pool S(1), of "[]" 1]
  then obtain h where h: "CRYPTO_BUFFER_free ex_alloc (Some 1) (heap S) = Some h" using S(2) by auto
  define S' where "S' = S\<lparr>heap := h, held := (held S)(1 := held S 1 - 1)\<rparr>"
  have step: "pool_step ex_alloc S S'" unfolding S'_def using h by (intro pool_step.free) (simp_all add: S(2))
  have "0 < held S' 1" "0 < held S 1" by (simp_all add: S'_def S(2))
  with safe step have "CRYPTO_BUFFER_data 1 (heap S') = CRYPTO_BUFFER_data 1 (heap S)" by blast
  then show ?thesis using h step S by (intro exI [of _ S] exI [of _ S']) (simp add: CRYPTO_BUFFER_data_def)
qed

text \<open>The pool holds one copy of any contents: two live buffers of the pool with equal contents are
  the same buffer, and its reference count is the number of references that were handed out, unless
  it is saturated.\<close>

theorem pool_shares_copies:
  assumes "CRYPTO_BUFFER_POOL_new A = Some h" and "(pool_step A)\<^sup>*\<^sup>* (pool_start h) S"
    and "live (heap S) a = Some b" and "in_pool b"
  shows "(buf_references b = 0xFFFFFFFF \<or> unat (buf_references b) = held S a)
    \<and> (\<forall>a' b'. live (heap S) a' = Some b' \<and> in_pool b' \<and> buf_data b' = buf_data b \<longrightarrow> a' = a)"
proof -
  have inv: "pool_inv S" by (rule pool_inv_reachable [OF assms(1,2)])
  show ?thesis
    using pool_invD(4) [OF inv assms(3)] pool_unique [OF inv _ assms(3) _ assms(4)] by (auto simp: counts_def)
qed

lemma pool_shares_copies_witness:
  "\<exists>(S :: pool_sys) (b :: CRYPTO_BUFFER). live (heap S) 1 = Some b \<and> held S 1 = 2 \<and> (buf_references b = 0xFFFFFFFF \<or> unat (buf_references b) = held S 1)"
proof -
  obtain S where S: "(pool_step ex_alloc)\<^sup>*\<^sup>* (pool_start ex_pool) S" "held S = (\<lambda>_. 0)(1 := 2)"
    "live (heap S) = [1 \<mapsto> \<lparr>in_pool = True, buf_data = [1, 2, 3], buf_references = 2\<rparr>]"
    using ex_pool_run by blast
  then obtain b where "live (heap S) 1 = Some b" "in_pool b" by auto
  with pool_shares_copies [OF ex_pool S(1) this] S(2) show ?thesis by (intro exI [of _ S] exI [of _ b]) auto
qed

text \<open>C39. Nothing leaks: once all references are given back, no buffer is live and \<open>CRYPTO_BUFFER_POOL_free\<close>
  finds the pool empty, unless some count has saturated (such a buffer is never released).\<close>

theorem pool_leaks_nothing:
  assumes "CRYPTO_BUFFER_POOL_new A = Some h" and "(pool_step A)\<^sup>*\<^sup>* (pool_start h) S"
    and "\<forall>a. held S a = 0" and "\<forall>a b. live (heap S) a = Some b \<longrightarrow> buf_references b \<noteq> 0xFFFFFFFF"
  shows "live (heap S) = (\<lambda>_. None) \<and> CRYPTO_BUFFER_POOL_free (heap S) = Some ()"
proof -
  have inv: "pool_inv S" by (rule pool_inv_reachable [OF assms(1,2)])
  note D = pool_invD [OF inv]
  have dead: "live (heap S) a = None" for a
    using D(4) assms(3,4) by (metis counts_def less_irrefl option.exhaust)
  then have "lh_retrieve (bufs (heap S)) x = None" for x
    using D(7) by (cases x, cases "lh_retrieve (bufs (heap S)) x") auto
  then have "items (bufs (heap S)) = {#}"
    using pool_table.retrieve_iff [OF D(1)] by (metis CRYPTO_BUFFER_cmp_0 multiset_nonemptyE option.distinct(1))
  then have "num_items (bufs (heap S)) = 0" using lh_okD(7) [OF D(1)] by simp
  with dead show ?thesis by (auto simp: CRYPTO_BUFFER_POOL_free_def lh_num_items_def)
qed

lemma pool_leaks_nothing_witness:
  "\<exists>S S' :: pool_sys. held S 1 = 2 \<and> CRYPTO_BUFFER_data 1 (heap S) = Some [1, 2, 3] \<and> (pool_step ex_alloc)\<^sup>*\<^sup>* S S'
    \<and> live (heap S') = (\<lambda>_. None) \<and> CRYPTO_BUFFER_POOL_free (heap S') = Some ()"
proof -
  obtain S S' where S: "(pool_step ex_alloc)\<^sup>*\<^sup>* (pool_start ex_pool) S" "held S 1 = 2"
      "CRYPTO_BUFFER_data 1 (heap S) = Some [1, 2, 3]" "(pool_step ex_alloc)\<^sup>*\<^sup>* S S'"
    and S': "held S' = (\<lambda>_. 0)" "live (heap S') = (\<lambda>_. None)"
    using ex_pool_back by blast
  have "(pool_step ex_alloc)\<^sup>*\<^sup>* (pool_start ex_pool) S'" using S(1,4) by (rule rtranclp_trans)
  from pool_leaks_nothing [OF ex_pool this] S S' show ?thesis by auto
qed

end
