(* ===== verification/Stack.thy ===== *)
theory Stack
  imports Cbb_SetOf
begin

text \<open>
  The growable array of pointers of BoringSSL (\<open>crypto/stack/stack.c\<close>). An element is a pointer:
  \<open>None\<close> for a null pointer, \<open>Some\<close> what it points to otherwise. A \<open>_STACK *\<close> is an option as well;
  a function that changes the stack returns it as it is afterwards. \<open>qsort\<close> and \<open>bsearch\<close> of the C
  library are the parameters \<open>qs\<close> and \<open>bs\<close>: which of several equal elements comes first, and which one
  \<open>bsearch\<close> finds, is left to them. A comparison function is a pointer (a number, which the code
  compares) and the function itself.
\<close>

section \<open>Data\<close>

type_synonym 'a stack_cmp = "nat \<times> ('a option \<Rightarrow> 'a option \<Rightarrow> int)"
type_synonym 'a qsort_fun = "('a option \<Rightarrow> 'a option \<Rightarrow> int) \<Rightarrow> 'a option list \<Rightarrow> 'a option list"
type_synonym 'a bsearch_fun = "('a option \<Rightarrow> 'a option \<Rightarrow> int) \<Rightarrow> 'a option \<Rightarrow> 'a option list \<Rightarrow> nat option"

text \<open>\<open>sk_data\<close> holds all the \<open>num_alloc\<close> pointers of the allocation.\<close>

record 'a STACK =
  num :: nat
  sk_data :: "'a option list"
  sorted_flag :: bool
  num_alloc :: nat
  sk_comp :: "'a stack_cmp option"

abbreviation (input) kMinSize :: nat where "kMinSize \<equiv> 4"

section \<open>Operations\<close>

text \<open>\<open>sk_new\<close> allocates the 40 bytes of the structure and 4 pointers.\<close>

definition sk_new :: "alloc \<Rightarrow> 'a stack_cmp option \<Rightarrow> 'a STACK option" where
  "sk_new A cmp =
     (if A 40 = None then None
      else if A (8 * kMinSize) = None then None
      else Some \<lparr>num = 0, sk_data = replicate kMinSize None, sorted_flag = False, num_alloc = kMinSize, sk_comp = cmp\<rparr>)"

definition sk_new_null :: "alloc \<Rightarrow> 'a STACK option" where
  "sk_new_null A = sk_new A None"

definition sk_num :: "'a STACK option \<Rightarrow> nat" where
  "sk_num sk = (case sk of None \<Rightarrow> 0 | Some s \<Rightarrow> num s)"

definition sk_zero :: "'a STACK option \<Rightarrow> 'a STACK option" where
  "sk_zero sk =
     map_option (\<lambda>s. if num s = 0 then s
                     else s\<lparr>sk_data := replicate (num s) None @ drop (num s) (sk_data s), num := 0, sorted_flag := False\<rparr>) sk"

definition sk_value :: "'a STACK option \<Rightarrow> nat \<Rightarrow> 'a option" where
  "sk_value sk i = (case sk of None \<Rightarrow> None | Some s \<Rightarrow> if i \<ge> num s then None else sk_data s ! i)"

definition sk_set :: "'a STACK option \<Rightarrow> nat \<Rightarrow> 'a option \<Rightarrow> 'a option \<times> 'a STACK option" where
  "sk_set sk i p =
     (case sk of
        None \<Rightarrow> (None, None)
      | Some s \<Rightarrow> if i \<ge> num s then (None, sk) else (p, Some (s\<lparr>sk_data := (sk_data s)[i := p]\<rparr>)))"

text \<open>\<open>sk_pop_free\<close> with a function on the caller's state.\<close>

definition sk_pop_free :: "'a STACK option \<Rightarrow> ('a \<Rightarrow> 's \<Rightarrow> 's) \<Rightarrow> 's \<Rightarrow> 's" where
  "sk_pop_free sk func st =
     (case sk of
        None \<Rightarrow> st
      | Some s \<Rightarrow> foldl (\<lambda>st p. case p of None \<Rightarrow> st | Some x \<Rightarrow> func x st) st (take (num s) (sk_data s)))"

text \<open>The growth step of \<open>sk_insert\<close>: \<open>None\<close> where the code returns 0. The pointers in the new part of
  the block are read only after they have been written; here they are null.\<close>

definition sk_grow :: "alloc \<Rightarrow> 'a STACK \<Rightarrow> 'a STACK option" where
  "sk_grow A s =
     (if num_alloc s \<le> size_add (num s) 1 then
        (let new_alloc = size_mult (num_alloc s) 2;
             alloc_size = size_mult new_alloc 8;
             new_alloc = (if new_alloc < num_alloc s \<or> alloc_size div 8 \<noteq> new_alloc
                          then size_add (num_alloc s) 1 else new_alloc);
             alloc_size = size_mult new_alloc 8
         in if new_alloc < num_alloc s \<or> alloc_size div 8 \<noteq> new_alloc then None
            else if A alloc_size = None then None
            else Some (s\<lparr>sk_data := take new_alloc (sk_data s) @ replicate (new_alloc - length (sk_data s)) None,
                         num_alloc := new_alloc\<rparr>))
      else Some s)"

definition sk_insert :: "alloc \<Rightarrow> 'a STACK option \<Rightarrow> 'a option \<Rightarrow> nat \<Rightarrow> nat \<times> 'a STACK option" where
  "sk_insert A sk p pos =
     (case sk of
        None \<Rightarrow> (0, None)
      | Some s \<Rightarrow>
          (case sk_grow A s of
             None \<Rightarrow> (0, sk)
           | Some s \<Rightarrow>
               (let d = sk_data s;
                    d = (if pos \<ge> num s then d[num s := p]
                         else (take (pos + 1) d @ take (num s - pos) (drop pos d) @ drop (num s + 1) d)[pos := p])
                in (size_add (num s) 1,
                    Some (s\<lparr>sk_data := d, num := size_add (num s) 1, sorted_flag := False\<rparr>)))))"

definition sk_delete :: "'a STACK option \<Rightarrow> nat \<Rightarrow> 'a option \<times> 'a STACK option" where
  "sk_delete sk pos =
     (case sk of
        None \<Rightarrow> (None, None)
      | Some s \<Rightarrow>
          if pos \<ge> num s then (None, sk)
          else
            (let ret = sk_data s ! pos;
                 d = (if pos \<noteq> num s - 1
                      then take pos (sk_data s) @ take (num s - pos - 1) (drop (pos + 1) (sk_data s)) @ drop (num s - 1) (sk_data s)
                      else sk_data s)
             in (ret, Some (s\<lparr>sk_data := d, num := num s - 1\<rparr>))))"

text \<open>The index of the first element that satisfies a condition: the searching loops.\<close>

fun first_index :: "('a \<Rightarrow> bool) \<Rightarrow> 'a list \<Rightarrow> nat option" where
  "first_index P [] = None"
| "first_index P (x # xs) = (if P x then Some 0 else map_option Suc (first_index P xs))"

definition sk_delete_ptr :: "'a STACK option \<Rightarrow> 'a option \<Rightarrow> 'a option \<times> 'a STACK option" where
  "sk_delete_ptr sk p =
     (case sk of
        None \<Rightarrow> (None, None)
      | Some s \<Rightarrow>
          (case first_index (\<lambda>x. x = p) (take (num s) (sk_data s)) of
             None \<Rightarrow> (None, sk)
           | Some i \<Rightarrow> sk_delete sk i))"

definition sk_sort :: "'a qsort_fun \<Rightarrow> 'a STACK option \<Rightarrow> 'a STACK option" where
  "sk_sort qs sk =
     (case sk of
        None \<Rightarrow> None
      | Some s \<Rightarrow>
          (case sk_comp s of
             None \<Rightarrow> sk
           | Some (_, cmp) \<Rightarrow>
               if sorted_flag s then sk
               else Some (s\<lparr>sk_data := qs cmp (take (num s) (sk_data s)) @ drop (num s) (sk_data s), sorted_flag := True\<rparr>)))"

text \<open>The loop of \<open>sk_find\<close> that goes back to the first result.\<close>

fun first_match :: "('a option \<Rightarrow> 'a option \<Rightarrow> int) \<Rightarrow> 'a option \<Rightarrow> 'a option list \<Rightarrow> nat \<Rightarrow> nat" where
  "first_match cmp p d 0 = 0"
| "first_match cmp p d (Suc idx) = (if cmp p (d ! idx) = 0 then first_match cmp p d idx else Suc idx)"

text \<open>\<open>sk_find\<close>: \<open>*out_index\<close> (\<open>None\<close> for the result 0) and the stack.\<close>

definition sk_find :: "'a qsort_fun \<Rightarrow> 'a bsearch_fun \<Rightarrow> 'a STACK option \<Rightarrow> 'a option \<Rightarrow> nat option \<times> 'a STACK option" where
  "sk_find qs bs sk p =
     (case sk of
        None \<Rightarrow> (None, None)
      | Some s \<Rightarrow>
          (case sk_comp s of
             None \<Rightarrow> (first_index (\<lambda>x. x = p) (take (num s) (sk_data s)), sk)
           | Some (_, cmp) \<Rightarrow>
               if p = None then (None, sk)
               else
                 (case sk_sort qs sk of
                    None \<Rightarrow> (None, None)
                  | Some s \<Rightarrow>
                      (case bs cmp p (take (num s) (sk_data s)) of
                         None \<Rightarrow> (None, Some s)
                       | Some idx \<Rightarrow> (Some (first_match cmp p (sk_data s) idx), Some s)))))"

definition sk_shift :: "'a STACK option \<Rightarrow> 'a option \<times> 'a STACK option" where
  "sk_shift sk =
     (case sk of
        None \<Rightarrow> (None, None)
      | Some s \<Rightarrow> if num s = 0 then (None, sk) else sk_delete sk 0)"

text \<open>\<open>sk_push\<close> reads \<open>sk->num\<close>, so its argument is not null.\<close>

definition sk_push :: "alloc \<Rightarrow> 'a STACK \<Rightarrow> 'a option \<Rightarrow> nat \<times> 'a STACK option" where
  "sk_push A s p = sk_insert A (Some s) p (num s)"

definition sk_pop :: "'a STACK option \<Rightarrow> 'a option \<times> 'a STACK option" where
  "sk_pop sk =
     (case sk of
        None \<Rightarrow> (None, None)
      | Some s \<Rightarrow> if num s = 0 then (None, sk) else sk_delete sk (num s - 1))"

definition sk_dup :: "alloc \<Rightarrow> 'a STACK option \<Rightarrow> 'a STACK option" where
  "sk_dup A sk =
     (case sk of
        None \<Rightarrow> None
      | Some s \<Rightarrow>
          (case sk_new A (sk_comp s) of
             None \<Rightarrow> None
           | Some ret \<Rightarrow>
               if A (size_mult 8 (num_alloc s)) = None then None
               else
                 (let d = take (num_alloc s) (sk_data ret) @ replicate (num_alloc s - length (sk_data ret)) None
                  in Some (ret\<lparr>num := num s, sk_data := take (num s) (sk_data s) @ drop (num s) d,
                         sorted_flag := sorted_flag s, num_alloc := num_alloc s, sk_comp := sk_comp s\<rparr>))))"

definition sk_is_sorted :: "'a STACK option \<Rightarrow> bool" where
  "sk_is_sorted sk = (case sk of None \<Rightarrow> True | Some s \<Rightarrow> sorted_flag s)"

definition sk_set_cmp_func :: "'a STACK \<Rightarrow> 'a stack_cmp option \<Rightarrow> 'a stack_cmp option \<times> 'a STACK" where
  "sk_set_cmp_func s cmp =
     (sk_comp s,
      s\<lparr>sorted_flag := (if map_option fst (sk_comp s) \<noteq> map_option fst cmp then False else sorted_flag s),
        sk_comp := cmp\<rparr>)"

text \<open>\<open>sk_deep_copy\<close> with a copying function that may fail and a releasing function, both on the
  caller's state: the loop over the elements, with the copies made so far.\<close>

fun deep_copy_loop :: "('a \<Rightarrow> 's \<Rightarrow> 'a option \<times> 's) \<Rightarrow> ('a \<Rightarrow> 's \<Rightarrow> 's) \<Rightarrow> 'a option list \<Rightarrow> 'a option list \<Rightarrow> 's
    \<Rightarrow> 'a option list option \<times> 's" where
  "deep_copy_loop copy free copied [] st = (Some copied, st)"
| "deep_copy_loop copy free copied (None # ps) st = deep_copy_loop copy free (copied @ [None]) ps st"
| "deep_copy_loop copy free copied (Some x # ps) st =
     (case copy x st of
        (None, st) \<Rightarrow> (None, foldl (\<lambda>st p. case p of None \<Rightarrow> st | Some y \<Rightarrow> free y st) st copied)
      | (Some y, st) \<Rightarrow> deep_copy_loop copy free (copied @ [Some y]) ps st)"

definition sk_deep_copy :: "alloc \<Rightarrow> 'a STACK option \<Rightarrow> ('a \<Rightarrow> 's \<Rightarrow> 'a option \<times> 's) \<Rightarrow> ('a \<Rightarrow> 's \<Rightarrow> 's) \<Rightarrow> 's
    \<Rightarrow> 'a STACK option \<times> 's" where
  "sk_deep_copy A sk copy free st =
     (case sk_dup A sk of
        None \<Rightarrow> (None, st)
      | Some ret \<Rightarrow>
          (case deep_copy_loop copy free [] (take (num ret) (sk_data ret)) st of
             (None, st) \<Rightarrow> (None, st)
           | (Some ps, st) \<Rightarrow> (Some (ret\<lparr>sk_data := ps @ drop (num ret) (sk_data ret)\<rparr>), st)))"

end
