(* ===== verification/Stack_Correct.thy ===== *)
theory Stack_Correct
  imports Stack "HOL-Library.Multiset"
begin

text \<open>
  The stack as a list: the memory invariant (the array has the allocated size and room for one more
  pointer), the effect of every operation on the contents, and the search in a sorted stack. What is
  required of \<open>qsort\<close>, \<open>bsearch\<close> and the comparison function is the locale \<open>c_search\<close>; insertion sort
  and binary search meet it.
\<close>

section \<open>Contents\<close>

definition sk_ok :: "'a STACK \<Rightarrow> bool" where
  "sk_ok s \<longleftrightarrow> length (sk_data s) = num_alloc s \<and> num s < num_alloc s \<and> num_alloc s \<le> size_max div 8"

definition sk_contents :: "'a STACK \<Rightarrow> 'a option list" where
  "sk_contents s = take (num s) (sk_data s)"

lemma length_sk_contents [simp]: "sk_ok s \<Longrightarrow> length (sk_contents s) = num s"
  by (simp add: sk_ok_def sk_contents_def)

lemma sk_contents_upd:
  "sk_contents (s\<lparr>sk_data := d, num := n\<rparr>) = take n d"
  "sk_contents (s\<lparr>sk_data := d, num := n, sorted_flag := f\<rparr>) = take n d"
  by (simp_all add: sk_contents_def)

lemma sk_new_ok: "sk_new A cmp = Some s \<Longrightarrow> sk_ok s \<and> sk_contents s = [] \<and> \<not> sorted_flag s \<and> sk_comp s = cmp \<and> num_alloc s = 4"
  by (auto simp: sk_new_def sk_ok_def sk_contents_def split: if_splits)

lemma sk_value_eq: "sk_ok s \<Longrightarrow> sk_value (Some s) i = (if i < num s then sk_contents s ! i else None)"
  by (simp add: sk_value_def sk_contents_def)

lemma sk_set_eq:
  assumes "sk_ok s"
  obtains s' where "sk_set (Some s) i p = (if i < num s then p else None, Some s')" "sk_ok s'"
    "sk_contents s' = (sk_contents s)[i := p]" "num_alloc s' = num_alloc s" "sk_comp s' = sk_comp s" "sorted_flag s' = sorted_flag s"
proof (cases "i < num s")
  case True
  with assms show thesis
    by (intro that [of "s\<lparr>sk_data := (sk_data s)[i := p]\<rparr>"])
      (simp_all add: sk_set_def sk_ok_def sk_contents_def take_update_swap)
next
  case False
  with assms show thesis
    by (intro that [of s]) (simp_all add: sk_set_def list_update_beyond)
qed

lemma sk_zero_eq:
  assumes "sk_ok s"
  obtains s' where "sk_zero (Some s) = Some s'" "sk_ok s'" "sk_contents s' = []" "num_alloc s' = num_alloc s" "sk_comp s' = sk_comp s"
proof (cases "num s = 0")
  case True
  with assms show thesis by (intro that [of s]) (simp_all add: sk_zero_def sk_contents_def)
next
  case False
  with assms show thesis
    by (intro that [of "s\<lparr>sk_data := replicate (num s) None @ drop (num s) (sk_data s), num := 0, sorted_flag := False\<rparr>"])
      (simp_all add: sk_zero_def sk_ok_def sk_contents_def)
qed

text \<open>Growing keeps the contents and makes room for two more pointers.\<close>

lemma sk_grow_ok:
  assumes ok: "sk_ok s" and g: "sk_grow A s = Some s'"
  shows "sk_ok s'" "sk_contents s' = sk_contents s" "num s' = num s" "num s + 1 < num_alloc s'" "sk_comp s' = sk_comp s"
    "num_alloc s' \<le> max (num_alloc s) (2 * (num s + 1))"
proof -
  have a: "length (sk_data s) = num_alloc s" "num s < num_alloc s" "num_alloc s \<le> 2305843009213693951" "size_add (num s) 1 = num s + 1"
    using ok by (simp_all add: sk_ok_def)
  have "sk_ok s' \<and> sk_contents s' = sk_contents s \<and> num s' = num s \<and> num s + 1 < num_alloc s' \<and> sk_comp s' = sk_comp s
      \<and> num_alloc s' \<le> max (num_alloc s) (2 * (num s + 1))"
  proof (cases "num_alloc s \<le> num s + 1")
    case False
    then show ?thesis using g ok a by (auto simp: sk_grow_def)
  next
    case True
    then have n: "num_alloc s = num s + 1" using a(2) by simp
    define na where "na = (if size_mult (num_alloc s) 2 < num_alloc s \<or> size_mult (size_mult (num_alloc s) 2) 8 div 8 \<noteq> size_mult (num_alloc s) 2
      then size_add (num_alloc s) 1 else size_mult (num_alloc s) 2)"
    have dbl: "size_mult (num_alloc s) 2 = 2 * num_alloc s" using a(3) by (simp add: mult.commute)
    have inc: "size_add (num_alloc s) 1 = num_alloc s + 1" using a(3) by simp
    have na: "na = num_alloc s + 1 \<or> na = 2 * num_alloc s" unfolding na_def dbl inc by auto
    have fits: "size_mult na 8 div 8 = na" and s': "s' = s\<lparr>sk_data := take na (sk_data s) @ replicate (na - length (sk_data s)) None, num_alloc := na\<rparr>"
      using g a(4) True unfolding sk_grow_def Let_def na_def [symmetric] by (auto split: if_splits)
    have "size_mult na 8 \<le> size_max" by (simp add: size_mult_def less_Suc_eq_le [symmetric])
    then have "na \<le> size_max div 8" using fits by (metis div_le_mono)
    then show ?thesis using na n a(1) by (auto simp: s' sk_ok_def sk_contents_def)
  qed
  then show "sk_ok s'" "sk_contents s' = sk_contents s" "num s' = num s" "num s + 1 < num_alloc s'" "sk_comp s' = sk_comp s"
    "num_alloc s' \<le> max (num_alloc s) (2 * (num s + 1))" by simp_all
qed

lemma sk_grow_total:
  assumes "sk_ok s" and "\<forall>n. A n \<noteq> None" and "num_alloc s < 2 ^ 59"
  obtains s' where "sk_grow A s = Some s'"
proof -
  have "size_add (num s) 1 = num s + 1" "size_mult (num_alloc s) 2 = 2 * num_alloc s" "size_mult (2 * num_alloc s) 8 = 16 * num_alloc s"
    using assms(1,3) by (simp_all add: sk_ok_def mult.commute)
  moreover obtain z where "A (16 * num_alloc s) = Some z" using assms(2) by blast
  ultimately have "sk_grow A s \<noteq> None" by (simp add: sk_grow_def Let_def)
  then show thesis using that by blast
qed

lemma sk_insert_ok:
  assumes ok: "sk_ok s" and i: "sk_insert A (Some s) p pos = (r, s')"
  shows "(r = 0 \<and> s' = Some s \<and> sk_grow A s = None) \<or>
    (\<exists>t. s' = Some t \<and> r = num s + 1 \<and> sk_ok t \<and> sk_contents t = take pos (sk_contents s) @ p # drop pos (sk_contents s)
      \<and> \<not> sorted_flag t \<and> sk_comp t = sk_comp s \<and> num_alloc t \<le> max (num_alloc s) (2 * (num s + 1)))"
proof (cases "sk_grow A s")
  case None
  then show ?thesis using i by (simp add: sk_insert_def)
next
  case (Some g)
  note G = sk_grow_ok [OF ok Some]
  have d: "length (sk_data g) = num_alloc g" "num g + 1 < num_alloc g" using G by (simp_all add: sk_ok_def)
  have add: "size_add (num g) 1 = num g + 1" using G(1) by (simp add: sk_ok_def)
  define d' where "d' = (if pos \<ge> num g then (sk_data g)[num g := p]
    else (take (pos + 1) (sk_data g) @ take (num g - pos) (drop pos (sk_data g)) @ drop (num g + 1) (sk_data g))[pos := p])"
  have run: "s' = Some (g\<lparr>sk_data := d', num := num g + 1, sorted_flag := False\<rparr>)" "r = num g + 1"
    unfolding d'_def using i Some add by (auto simp: sk_insert_def Let_def)
  have "take (num g + 1) d' = take pos (sk_contents g) @ p # drop pos (sk_contents g) \<and> length d' = num_alloc g"
  proof (cases "pos \<ge> num g")
    case True
    then show ?thesis using d by (simp add: d'_def sk_contents_def take_Suc_conv_app_nth)
  next
    case False
    then have e: "take (Suc pos) (sk_data g) = take pos (sk_data g) @ [sk_data g ! pos]" using d by (simp add: take_Suc_conv_app_nth)
    have "d' = take pos (sk_data g) @ p # take (num g - pos) (drop pos (sk_data g)) @ drop (num g + 1) (sk_data g)"
      using False d by (simp add: d'_def e list_update_append)
    moreover obtain k where "num g = pos + k" using False by (metis le_Suc_ex nat_le_linear)
    ultimately show ?thesis using d by (simp add: sk_contents_def drop_take)
  qed
  then show ?thesis using G d run by (auto simp: sk_ok_def sk_contents_upd)
qed

lemma sk_delete_ok:
  assumes ok: "sk_ok s" and "pos < num s"
  obtains t where "sk_delete (Some s) pos = (sk_contents s ! pos, Some t)" "sk_ok t" "sk_contents t = take pos (sk_contents s) @ drop (pos + 1) (sk_contents s)"
    "num_alloc t = num_alloc s" "sk_comp t = sk_comp s" "sorted_flag t = sorted_flag s"
proof -
  define d' where "d' = (if pos \<noteq> num s - 1
    then take pos (sk_data s) @ take (num s - pos - 1) (drop (pos + 1) (sk_data s)) @ drop (num s - 1) (sk_data s) else sk_data s)"
  have d: "length (sk_data s) = num_alloc s" "num s < num_alloc s" using ok by (simp_all add: sk_ok_def)
  have run: "sk_delete (Some s) pos = (sk_contents s ! pos, Some (s\<lparr>sk_data := d', num := num s - 1\<rparr>))"
    using assms(2) by (simp add: sk_delete_def d'_def sk_contents_def)
  have "take (num s - 1) d' = take pos (sk_contents s) @ drop (pos + 1) (sk_contents s) \<and> length d' = num_alloc s"
    using assms(2) d by (auto simp: d'_def sk_contents_def drop_take min_def not_less)
  then have c: "sk_contents (s\<lparr>sk_data := d', num := num s - 1\<rparr>) = take pos (sk_contents s) @ drop (pos + 1) (sk_contents s)"
    and l: "length d' = num_alloc s" by (simp_all only: sk_contents_upd)
  show thesis by (rule that [OF run _ c]) (use ok l in \<open>auto simp: sk_ok_def\<close>)
qed

section \<open>Searching\<close>

text \<open>A comparison function that orders the elements.\<close>

definition cmp_order :: "('e \<Rightarrow> 'e \<Rightarrow> int) \<Rightarrow> bool" where
  "cmp_order cmp \<longleftrightarrow> (\<forall>a b. cmp a b < 0 \<longleftrightarrow> cmp b a > 0) \<and> (\<forall>a b c. cmp a b \<le> 0 \<longrightarrow> cmp b c \<le> 0 \<longrightarrow> cmp a c \<le> 0)"

abbreviation cmp_sorted :: "('e \<Rightarrow> 'e \<Rightarrow> int) \<Rightarrow> 'e list \<Rightarrow> bool" where
  "cmp_sorted cmp xs \<equiv> sorted_wrt (\<lambda>a b. cmp a b \<le> 0) xs"

lemma cmp_orderD:
  assumes "cmp_order cmp"
  shows "cmp a b < 0 \<longleftrightarrow> cmp b a > 0" "cmp a b \<le> 0 \<Longrightarrow> cmp b c \<le> 0 \<Longrightarrow> cmp a c \<le> 0" "cmp a b = 0 \<longleftrightarrow> cmp b a = 0"
    "\<not> cmp a b \<le> 0 \<Longrightarrow> cmp b a \<le> 0"
proof -
  show l: "cmp a b < 0 \<longleftrightarrow> cmp b a > 0" for a b using assms by (simp add: cmp_order_def)
  show "cmp a b \<le> 0 \<Longrightarrow> cmp b c \<le> 0 \<Longrightarrow> cmp a c \<le> 0" using assms unfolding cmp_order_def by blast
  show "cmp a b = 0 \<longleftrightarrow> cmp b a = 0" using l [of a b] l [of b a] by linarith
  show "\<not> cmp a b \<le> 0 \<Longrightarrow> cmp b a \<le> 0" using l [of b a] by linarith
qed

text \<open>What \<open>qsort\<close> and \<open>bsearch\<close> promise.\<close>

locale c_search =
  fixes qs :: "'a qsort_fun" and bs :: "'a bsearch_fun"
  assumes qs_mset: "mset (qs cmp xs) = mset xs"
    and qs_sorted: "cmp_order cmp \<Longrightarrow> cmp_sorted cmp (qs cmp xs)"
    and bs_Some: "cmp_order cmp \<Longrightarrow> cmp_sorted cmp xs \<Longrightarrow> bs cmp k xs = Some i \<Longrightarrow> i < length xs \<and> cmp k (xs ! i) = 0"
    and bs_None: "cmp_order cmp \<Longrightarrow> cmp_sorted cmp xs \<Longrightarrow> bs cmp k xs = None \<Longrightarrow> x \<in> set xs \<Longrightarrow> cmp k x \<noteq> 0"

lemma first_index_Some:
  "first_index P xs = Some i \<longleftrightarrow> i < length xs \<and> P (xs ! i) \<and> (\<forall>j < i. \<not> P (xs ! j))"
proof (induction xs arbitrary: i)
  case (Cons x xs)
  show ?case by (cases i) (auto simp: Cons.IH less_Suc_eq_0_disj)
qed simp

lemma first_index_None: "first_index P xs = None \<longleftrightarrow> (\<forall>x \<in> set xs. \<not> P x)"
  by (induction xs) auto

text \<open>In a sorted array the matches are consecutive, so the walk back ends at the first one.\<close>

lemma first_match_first:
  assumes ord: "cmp_order cmp" and so: "cmp_sorted cmp xs" and i: "i < length xs" "cmp p (xs ! i) = 0" and d: "take (length xs) d = xs"
  shows "first_index (\<lambda>x. cmp p x = 0) xs = Some (first_match cmp p d i)"
  using i
proof (induction i)
  case 0
  then show ?case by (simp add: first_index_Some)
next
  case (Suc i)
  have n: "d ! i = xs ! i" using Suc.prems d by (metis Suc_lessD nth_take)
  show ?case
  proof (cases "cmp p (xs ! i) = 0")
    case True
    then show ?thesis using Suc n by simp
  next
    case False
    have "cmp p (xs ! j) \<noteq> 0" if "j < Suc i" for j
    proof
      assume e: "cmp p (xs ! j) = 0"
      have "cmp (xs ! j) (xs ! i) \<le> 0" if "j \<noteq> i" using so that \<open>j < Suc i\<close> Suc.prems by (auto simp: sorted_wrt_iff_nth_less)
      then have "cmp p (xs ! i) \<le> 0" using e cmp_orderD(2) [OF ord, of p "xs ! j" "xs ! i"] by (cases "j = i") auto
      moreover have "cmp (xs ! i) (xs ! Suc i) \<le> 0" using so Suc.prems by (auto simp: sorted_wrt_iff_nth_less)
      then have "cmp (xs ! i) p \<le> 0"
        using cmp_orderD(2) [OF ord, of "xs ! i" "xs ! Suc i" p] cmp_orderD(3) [OF ord, of p "xs ! Suc i"] Suc.prems by auto
      ultimately show False using False cmp_orderD(1) [OF ord, of p "xs ! i"] by linarith
    qed
    then show ?thesis using False Suc.prems n by (simp add: first_index_Some)
  qed
qed

text \<open>The flag tells the truth.\<close>

definition flag_ok :: "'a STACK \<Rightarrow> bool" where
  "flag_ok s \<longleftrightarrow> (\<forall>i cmp. sk_comp s = Some (i, cmp) \<and> sorted_flag s \<longrightarrow> cmp_sorted cmp (sk_contents s))"

context c_search
begin

lemma sk_sort_ok:
  assumes ok: "sk_ok s" and fl: "flag_ok s" and c: "sk_comp s = Some (i, cmp)" and ord: "cmp_order cmp"
  obtains t where "sk_sort qs (Some s) = Some t" "sk_ok t" "mset (sk_contents t) = mset (sk_contents s)"
    "cmp_sorted cmp (sk_contents t)" "sk_comp t = sk_comp s" "num t = num s" "sorted_flag t"
proof (cases "sorted_flag s")
  case True
  then show thesis using that [of s] ok fl c by (simp add: sk_sort_def flag_ok_def)
next
  case False
  define d where "d = qs cmp (sk_contents s)"
  have l: "length d = num s" using arg_cong [OF qs_mset, of size cmp "sk_contents s"] ok by (simp add: d_def)
  have t: "sk_contents (s\<lparr>sk_data := d @ drop (num s) (sk_data s), sorted_flag := True\<rparr>) = d"
    using l by (simp add: sk_contents_def)
  show thesis
  proof (rule that)
    show "sk_sort qs (Some s) = Some (s\<lparr>sk_data := d @ drop (num s) (sk_data s), sorted_flag := True\<rparr>)"
      using False c by (simp add: sk_sort_def d_def sk_contents_def)
    show "sk_ok (s\<lparr>sk_data := d @ drop (num s) (sk_data s), sorted_flag := True\<rparr>)" using ok l by (simp add: sk_ok_def)
  qed (simp_all add: t, simp_all add: d_def qs_mset qs_sorted [OF ord])
qed

lemma sk_find_first:
  assumes ok: "sk_ok s" and fl: "flag_ok s" and c: "sk_comp s = Some (i, cmp)" and ord: "cmp_order cmp" and p: "p \<noteq> None"
  shows "\<exists>t. sk_find qs bs (Some s) p = (first_index (\<lambda>x. cmp p x = 0) (sk_contents t), Some t)
    \<and> sk_ok t \<and> flag_ok t \<and> mset (sk_contents t) = mset (sk_contents s) \<and> cmp_sorted cmp (sk_contents t)"
proof -
  obtain y where y: "p = Some y" using p by blast
  obtain t where t: "sk_sort qs (Some s) = Some t" "sk_ok t" "mset (sk_contents t) = mset (sk_contents s)"
    "cmp_sorted cmp (sk_contents t)" "sk_comp t = sk_comp s"
    using sk_sort_ok [OF ok fl c ord] by metis
  have "sk_find qs bs (Some s) p = (first_index (\<lambda>x. cmp p x = 0) (sk_contents t), Some t)"
  proof (cases "bs cmp p (sk_contents t)")
    case None
    then have "first_index (\<lambda>x. cmp p x = 0) (sk_contents t) = None"
      using bs_None [OF ord t(4) None] by (simp add: first_index_None)
    then show ?thesis using c y t(1) None by (simp add: sk_find_def sk_contents_def)
  next
    case (Some k)
    have "first_index (\<lambda>x. cmp p x = 0) (sk_contents t) = Some (first_match cmp p (sk_data t) k)"
      by (rule first_match_first [OF ord t(4)]) (use bs_Some [OF ord t(4) Some] t(2) in \<open>auto simp: sk_contents_def sk_ok_def\<close>)
    then show ?thesis using c y t(1) Some by (simp add: sk_find_def sk_contents_def)
  qed
  with t c show ?thesis by (auto simp: flag_ok_def)
qed

end

section \<open>Insertion sort and binary search\<close>

function bsearch_range :: "('e \<Rightarrow> 'e \<Rightarrow> int) \<Rightarrow> 'e \<Rightarrow> 'e list \<Rightarrow> nat \<Rightarrow> nat \<Rightarrow> nat option" where
  "bsearch_range cmp k xs lo hi =
     (if hi \<le> lo then None
      else
        (let mid = (lo + hi) div 2
         in if cmp k (xs ! mid) = 0 then Some mid
            else if cmp k (xs ! mid) < 0 then bsearch_range cmp k xs lo mid
            else bsearch_range cmp k xs (mid + 1) hi))"
  by pat_completeness auto
termination by (relation "measure (\<lambda>(cmp, k, xs, lo, hi). hi - lo)") auto

declare bsearch_range.simps [simp del]

definition bsearch :: "('e \<Rightarrow> 'e \<Rightarrow> int) \<Rightarrow> 'e \<Rightarrow> 'e list \<Rightarrow> nat option" where
  "bsearch cmp k xs = bsearch_range cmp k xs 0 (length xs)"

lemma bsearch_range_ok:
  assumes "cmp_order cmp" and "cmp_sorted cmp xs" and "hi \<le> length xs"
  shows "case bsearch_range cmp k xs lo hi of
      None \<Rightarrow> \<forall>i. lo \<le> i \<and> i < hi \<longrightarrow> cmp k (xs ! i) \<noteq> 0
    | Some i \<Rightarrow> i < length xs \<and> cmp k (xs ! i) = 0"
  using assms
proof (induction cmp k xs lo hi rule: bsearch_range.induct)
  case (1 cmp k xs lo hi)
  note O = cmp_orderD [OF 1(3)]
  define mid where "mid = (lo + hi) div 2"
  have le: "cmp (xs ! i) (xs ! j) \<le> 0" if "i < j" "j < length xs" for i j
    using that 1(4) by (simp add: sorted_wrt_iff_nth_less)
  show ?case
  proof (cases "hi \<le> lo")
    case True
    then show ?thesis by (simp add: bsearch_range.simps [of cmp k xs])
  next
    case False
    then have mid: "lo \<le> mid" "mid < hi" by (auto simp: mid_def)
    consider "cmp k (xs ! mid) = 0" | "cmp k (xs ! mid) < 0" | "cmp k (xs ! mid) > 0" by linarith
    then show ?thesis
    proof cases
      case c: 1
      then show ?thesis using False mid 1(5) by (subst bsearch_range.simps) (simp add: mid_def [symmetric] Let_def)
    next
      case c: 2
      have "cmp k (xs ! i) \<noteq> 0" if "mid \<le> i" "i < hi" for i
      proof
        assume e: "cmp k (xs ! i) = 0"
        have "cmp (xs ! mid) (xs ! i) \<le> 0" if "mid < i" using le [OF that] \<open>i < hi\<close> 1(5) by simp
        then have "cmp (xs ! mid) k \<le> 0" using O(2) [of "xs ! mid" "xs ! i" k] O(3) [of k "xs ! i"] e that c
          by (cases "i = mid") auto
        then show False using c O(1) [of k "xs ! mid"] by linarith
      qed
      moreover have "case bsearch_range cmp k xs lo mid of None \<Rightarrow> \<forall>i. lo \<le> i \<and> i < mid \<longrightarrow> cmp k (xs ! i) \<noteq> 0
          | Some i \<Rightarrow> i < length xs \<and> cmp k (xs ! i) = 0"
        by (rule 1(1)) (use False c mid 1 in \<open>simp_all add: mid_def\<close>)
      moreover have "bsearch_range cmp k xs lo hi = bsearch_range cmp k xs lo mid"
        using False c by (subst bsearch_range.simps) (simp add: mid_def [symmetric] Let_def)
      ultimately show ?thesis by (auto split: option.splits) (metis not_le)
    next
      case c: 3
      have "cmp k (xs ! i) \<noteq> 0" if "lo \<le> i" "i \<le> mid" for i
      proof
        assume e: "cmp k (xs ! i) = 0"
        have "cmp (xs ! i) (xs ! mid) \<le> 0" if "i < mid" using le [OF that] mid 1(5) by simp
        then have "cmp k (xs ! mid) \<le> 0" using O(2) [of k "xs ! i" "xs ! mid"] e that c by (cases "i = mid") auto
        then show False using c by linarith
      qed
      moreover have "case bsearch_range cmp k xs (mid + 1) hi of None \<Rightarrow> \<forall>i. mid + 1 \<le> i \<and> i < hi \<longrightarrow> cmp k (xs ! i) \<noteq> 0
          | Some i \<Rightarrow> i < length xs \<and> cmp k (xs ! i) = 0"
        by (rule 1(2)) (use False c mid 1 in \<open>simp_all add: mid_def\<close>)
      moreover have "bsearch_range cmp k xs lo hi = bsearch_range cmp k xs (mid + 1) hi"
        using False c by (subst bsearch_range.simps) (simp add: mid_def [symmetric] Let_def)
      ultimately show ?thesis by (auto split: option.splits) (metis Suc_le_eq not_le)
    qed
  qed
qed

lemma qsort_insert_mset: "mset (qsort_insert cmp x ys) = add_mset x (mset ys)"
  by (induction ys) auto

lemma qsort_insert_sorted:
  assumes "cmp_order cmp" and "cmp_sorted cmp ys"
  shows "cmp_sorted cmp (qsort_insert cmp x ys)"
  using assms(2)
proof (induction ys)
  case (Cons y ys)
  note O = cmp_orderD [OF assms(1)]
  have st: "set (qsort_insert cmp x ys) = insert x (set ys)" using arg_cong [OF qsort_insert_mset, of set_mset cmp x ys] by simp
  show ?case
  proof (cases "cmp x y \<le> 0")
    case True
    then have "cmp x z \<le> 0" if "z \<in> set ys" for z using Cons.prems that O(2) [of x y z] by simp
    then show ?thesis using Cons.prems True by simp
  next
    case False
    then show ?thesis using Cons st O(4) [of x y] by simp
  qed
qed simp

lemma bsearch_Some:
  "cmp_order cmp \<Longrightarrow> cmp_sorted cmp xs \<Longrightarrow> bsearch cmp k xs = Some i \<Longrightarrow> i < length xs \<and> cmp k (xs ! i) = 0"
  using bsearch_range_ok [where cmp = cmp and xs = xs and hi = "length xs" and k = k and lo = 0] by (simp add: bsearch_def)

lemma bsearch_None:
  "cmp_order cmp \<Longrightarrow> cmp_sorted cmp xs \<Longrightarrow> bsearch cmp k xs = None \<Longrightarrow> x \<in> set xs \<Longrightarrow> cmp k x \<noteq> 0"
  using bsearch_range_ok [where cmp = cmp and xs = xs and hi = "length xs" and k = k and lo = 0] by (auto simp: bsearch_def in_set_conv_nth)

lemma qsort_mset: "mset (qsort cmp xs) = mset xs"
  by (induction xs) (simp_all add: qsort_def qsort_insert_mset)

lemma qsort_sorted: "cmp_order cmp \<Longrightarrow> cmp_sorted cmp (qsort cmp xs)"
  by (induction xs) (simp_all add: qsort_def qsort_insert_sorted)

interpretation libc: c_search qsort bsearch
  by unfold_locales (fact qsort_mset qsort_sorted bsearch_Some bsearch_None)+

end
