(* ===== verification/Bn_Words.thy ===== *)
theory Bn_Words
  imports Prelude
begin

text \<open>
  Arithmetic on vectors of machine words, the portable implementation of BoringSSL
  (\<open>crypto/fipsmodule/bn/generic.c\<close>, which is what 64-bit ARM compiles): \<open>BN_ULONG\<close> has 64 bits and
  \<open>BN_ULLONG\<close> 128. A vector is a list of words, the lowest first. A function that fills \<open>num\<close> words
  of its result returns them as a list, with the carry.
\<close>

type_synonym BN_ULONG = u64
type_synonym BN_ULLONG = "128 word"

section \<open>One word\<close>

definition Lw :: "BN_ULLONG \<Rightarrow> BN_ULONG" where
  "Lw t = ucast t"

definition Hw :: "BN_ULLONG \<Rightarrow> BN_ULONG" where
  "Hw t = ucast (drop_bit 64 t)"

text \<open>The macros \<open>mul_add\<close>, \<open>mul\<close> and \<open>sqr\<close>: the word written and the new carry.\<close>

definition mul_add :: "BN_ULONG \<Rightarrow> BN_ULONG \<Rightarrow> BN_ULONG \<Rightarrow> BN_ULONG \<Rightarrow> BN_ULONG \<times> BN_ULONG" where
  "mul_add r a w c = (let t = ucast w * ucast a + ucast r + ucast c in (Lw t, Hw t))"

definition mul_word :: "BN_ULONG \<Rightarrow> BN_ULONG \<Rightarrow> BN_ULONG \<Rightarrow> BN_ULONG \<times> BN_ULONG" where
  "mul_word a w c = (let t = ucast w * ucast a + ucast c in (Lw t, Hw t))"

definition sqr_word :: "BN_ULONG \<Rightarrow> BN_ULONG \<times> BN_ULONG" where
  "sqr_word a = (let t = ucast a * ucast a in (Lw t, Hw t))"

text \<open>The step of \<open>bn_add_words\<close> with \<open>BN_ULLONG\<close>, where \<open>ll\<close> is the carry, and the step of the
  variant without it.\<close>

definition add_step :: "BN_ULONG \<Rightarrow> BN_ULONG \<Rightarrow> BN_ULLONG \<Rightarrow> BN_ULONG \<times> BN_ULLONG" where
  "add_step a b ll = (let ll = ll + (ucast a + ucast b) in (ucast ll, drop_bit 64 ll))"

definition add_step_narrow :: "BN_ULONG \<Rightarrow> BN_ULONG \<Rightarrow> BN_ULONG \<Rightarrow> BN_ULONG \<times> BN_ULONG" where
  "add_step_narrow a b c =
     (let t = a + c;
          c = (if t < c then 1 else 0);
          l = t + b;
          c = c + (if l < t then 1 else 0)
      in (l, c))"

definition sub_step :: "BN_ULONG \<Rightarrow> BN_ULONG \<Rightarrow> BN_ULONG \<Rightarrow> BN_ULONG \<times> BN_ULONG" where
  "sub_step t1 t2 c = (t1 - t2 - c, if t1 \<noteq> t2 then (if t1 < t2 then 1 else 0) else c)"

section \<open>Vectors\<close>

text \<open>The loops are unrolled four times: \<open>while (n & ~3)\<close> and then one word at a time. \<open>f i c\<close> is the
  step for word \<open>i\<close> with the carry \<open>c\<close>.\<close>

fun words_loop :: "(nat \<Rightarrow> 'c \<Rightarrow> BN_ULONG \<times> 'c) \<Rightarrow> nat \<Rightarrow> nat \<Rightarrow> 'c \<Rightarrow> BN_ULONG list \<times> 'c" where
  "words_loop f n i c =
     (if n \<ge> 4 then
        (let (x0, c) = f i c; (x1, c) = f (i + 1) c; (x2, c) = f (i + 2) c; (x3, c) = f (i + 3) c;
             (xs, c) = words_loop f (n - 4) (i + 4) c
         in (x0 # x1 # x2 # x3 # xs, c))
      else if n > 0 then
        (let (x, c) = f i c; (xs, c) = words_loop f (n - 1) (i + 1) c in (x # xs, c))
      else ([], c))"

declare words_loop.simps [simp del]

definition bn_mul_add_words :: "BN_ULONG list \<Rightarrow> BN_ULONG list \<Rightarrow> nat \<Rightarrow> BN_ULONG \<Rightarrow> BN_ULONG list \<times> BN_ULONG" where
  "bn_mul_add_words rp ap num w =
     (if num = 0 then ([], 0) else words_loop (\<lambda>i c1. mul_add (rp ! i) (ap ! i) w c1) num 0 0)"

definition bn_mul_words :: "BN_ULONG list \<Rightarrow> nat \<Rightarrow> BN_ULONG \<Rightarrow> BN_ULONG list \<times> BN_ULONG" where
  "bn_mul_words ap num w = (if num = 0 then ([], 0) else words_loop (\<lambda>i c1. mul_word (ap ! i) w c1) num 0 0)"

fun sqr_words_loop :: "BN_ULONG list \<Rightarrow> nat \<Rightarrow> nat \<Rightarrow> BN_ULONG list" where
  "sqr_words_loop a n i =
     (if n \<ge> 4 then
        (let (r0, r1) = sqr_word (a ! i); (r2, r3) = sqr_word (a ! (i + 1));
             (r4, r5) = sqr_word (a ! (i + 2)); (r6, r7) = sqr_word (a ! (i + 3))
         in [r0, r1, r2, r3, r4, r5, r6, r7] @ sqr_words_loop a (n - 4) (i + 4))
      else if n > 0 then (let (r0, r1) = sqr_word (a ! i) in [r0, r1] @ sqr_words_loop a (n - 1) (i + 1))
      else [])"

declare sqr_words_loop.simps [simp del]

definition bn_sqr_words :: "BN_ULONG list \<Rightarrow> nat \<Rightarrow> BN_ULONG list" where
  "bn_sqr_words a n = (if n = 0 then [] else sqr_words_loop a n 0)"

definition bn_add_words :: "BN_ULONG list \<Rightarrow> BN_ULONG list \<Rightarrow> nat \<Rightarrow> BN_ULONG list \<times> BN_ULONG" where
  "bn_add_words a b n =
     (if n = 0 then ([], 0)
      else case words_loop (\<lambda>i ll. add_step (a ! i) (b ! i) ll) n 0 0 of (r, ll) \<Rightarrow> (r, ucast ll))"

definition bn_add_words_narrow :: "BN_ULONG list \<Rightarrow> BN_ULONG list \<Rightarrow> nat \<Rightarrow> BN_ULONG list \<times> BN_ULONG" where
  "bn_add_words_narrow a b n =
     (if n = 0 then ([], 0) else words_loop (\<lambda>i c. add_step_narrow (a ! i) (b ! i) c) n 0 0)"

definition bn_sub_words :: "BN_ULONG list \<Rightarrow> BN_ULONG list \<Rightarrow> nat \<Rightarrow> BN_ULONG list \<times> BN_ULONG" where
  "bn_sub_words a b n = (if n = 0 then ([], 0) else words_loop (\<lambda>i c. sub_step (a ! i) (b ! i) c) n 0 0)"

section \<open>Values\<close>

text \<open>The number a vector stands for.\<close>

abbreviation (input) bn_base :: int where "bn_base \<equiv> 18446744073709551616"

primrec words_val :: "BN_ULONG list \<Rightarrow> int" where
  "words_val [] = 0"
| "words_val (w # ws) = uint w + bn_base * words_val ws"

lemma words_val_append: "words_val (xs @ ys) = words_val xs + bn_base ^ length xs * words_val ys"
  by (induction xs) (simp_all add: algebra_simps)

lemma uint_u64 [simp]: "0 \<le> uint w" "uint w < bn_base" "uint w \<le> 18446744073709551615" for w :: u64
  using uint_range_size [of w] by (simp_all add: word_size)

lemma words_val_nonneg [simp]: "0 \<le> words_val xs"
  by (induction xs) simp_all

lemma words_val_less: "words_val xs < bn_base ^ length xs"
proof (induction xs)
  case (Cons w ws)
  have "uint w + bn_base * words_val ws < bn_base * (words_val ws + 1)" using uint_u64(2) [of w] by simp
  also have "\<dots> \<le> bn_base * bn_base ^ length ws" using Cons.IH by (intro mult_left_mono) simp_all
  finally show ?case by simp
qed simp

lemma words_val_inject: "length xs = length ys \<Longrightarrow> words_val xs = words_val ys \<Longrightarrow> xs = ys"
proof (induction xs ys rule: list_induct2)
  case (Cons x xs y ys)
  have m: "(uint x + bn_base * words_val xs) mod bn_base = uint x" "(uint y + bn_base * words_val ys) mod bn_base = uint y"
    by (simp_all add: mod_pos_pos_trivial)
  have "uint x + bn_base * words_val xs = uint y + bn_base * words_val ys" using Cons.prems by simp
  then have "uint x = uint y" using m by metis
  then show ?case using Cons by (auto simp: word_uint_eq_iff)
qed simp

lemma words_val_replicate_0 [simp]: "words_val (replicate n 0) = 0"
  by (induction n) simp_all


section \<open>Loops with a carry\<close>

text \<open>The same loop one word at a time.\<close>

primrec carry_loop :: "(nat \<Rightarrow> 'c \<Rightarrow> BN_ULONG \<times> 'c) \<Rightarrow> nat \<Rightarrow> nat \<Rightarrow> 'c \<Rightarrow> BN_ULONG list \<times> 'c" where
  "carry_loop f 0 i c = ([], c)"
| "carry_loop f (Suc n) i c = (case f i c of (x, c) \<Rightarrow> case carry_loop f n (Suc i) c of (xs, c) \<Rightarrow> (x # xs, c))"

lemma nat_ge_4: "4 \<le> n \<Longrightarrow> \<exists>m. n = Suc (Suc (Suc (Suc m)))"
  by (intro exI [of _ "n - 4"]) simp

lemma words_loop_eq: "words_loop f n i c = carry_loop f n i c"
proof (induction f n i c rule: words_loop.induct)
  case (1 f n i c)
  consider "4 \<le> n" | "0 < n" "n < 4" | "n = 0" by linarith
  then show ?case
  proof cases
    case c: 1
    then obtain m where m: "n = Suc (Suc (Suc (Suc m)))" using nat_ge_4 by blast
    obtain x0 c0 where e0: "f i c = (x0, c0)" by fastforce
    obtain x1 c1 where e1: "f (i + 1) c0 = (x1, c1)" by fastforce
    obtain x2 c2 where e2: "f (i + 2) c1 = (x2, c2)" by fastforce
    obtain x3 c3 where e3: "f (i + 3) c2 = (x3, c3)" by fastforce
    have "words_loop f (n - 4) (i + 4) c3 = carry_loop f (n - 4) (i + 4) c3"
      by (rule 1(1) [OF c refl e0 [symmetric] refl e1 [symmetric] refl e2 [symmetric] refl e3 [symmetric]])
    then show ?thesis using m e0 e1 e2 e3 by (subst words_loop.simps) (simp add: eval_nat_numeral split: prod.splits)
  next
    case c: 2
    then obtain m where "n = Suc m" by (cases n) auto
    then show ?thesis using 1(2) c by (subst words_loop.simps) (auto simp: Let_def split: prod.splits)
  qed (simp add: words_loop.simps)
qed

lemma length_carry_loop [simp]: "length (fst (carry_loop f n i c)) = n"
  by (induction n arbitrary: i c) (simp_all split: prod.splits, metis fst_conv)

text \<open>A step that computes a digit sum exactly: \<open>num_of i\<close> is what is added at word \<open>i\<close>, \<open>carry\<close> the
  value of a carry and \<open>good\<close> an invariant of the carries.\<close>

locale carry_step =
  fixes step :: "nat \<Rightarrow> 'c \<Rightarrow> BN_ULONG \<times> 'c" and num_of :: "nat \<Rightarrow> int" and carry :: "'c \<Rightarrow> int" and good :: "'c \<Rightarrow> bool"
  assumes exact: "good c \<Longrightarrow> step i c = (x, c') \<Longrightarrow> uint x + bn_base * carry c' = num_of i + carry c"
    and keeps: "good c \<Longrightarrow> step i c = (x, c') \<Longrightarrow> good c'"
begin

lemma loop_exact:
  assumes "good c" and "carry_loop step n i c = (xs, c')"
  shows "words_val xs + bn_base ^ n * carry c' = (\<Sum>j < n. num_of (i + j) * bn_base ^ j) + carry c \<and> good c' \<and> length xs = n"
  using assms
proof (induction n arbitrary: i c xs c')
  case (Suc n)
  obtain x d where s: "step i c = (x, d)" by fastforce
  obtain ys where ys: "xs = x # ys" "carry_loop step n (Suc i) d = (ys, c')"
    using Suc.prems(2) s by (auto split: prod.splits)
  have IH: "words_val ys + bn_base ^ n * carry c' = (\<Sum>j < n. num_of (Suc i + j) * bn_base ^ j) + carry d \<and> good c' \<and> length ys = n"
    by (rule Suc.IH [OF keeps [OF Suc.prems(1) s] ys(2)])
  have "(\<Sum>j < Suc n. num_of (i + j) * bn_base ^ j) = num_of i + bn_base * (\<Sum>j < n. num_of (Suc i + j) * bn_base ^ j)"
    by (subst sum.lessThan_Suc_shift) (simp add: sum_distrib_left algebra_simps)
  then show ?case using IH exact [OF Suc.prems(1) s] ys(1) by (simp add: algebra_simps)
qed simp

end

lemma words_val_take:
  assumes "n \<le> length xs"
  shows "words_val (take n xs) = (\<Sum>j < n. uint (xs ! j) * bn_base ^ j)"
  using assms
proof (induction n)
  case (Suc n)
  then show ?case by (simp add: take_Suc_conv_app_nth words_val_append min_def algebra_simps)
qed simp

section \<open>The steps are exact\<close>

lemma uint_ucast_128 [simp]: "uint (ucast (w :: u64) :: BN_ULLONG) = uint w"
proof -
  have "uint w < 2 ^ 128" using uint_u64(2) [of w] by (simp del: uint_u64)
  then show ?thesis by (simp add: unsigned_ucast_eq take_bit_int_eq_self)
qed

lemma uint_128 [simp]: "uint (t :: BN_ULLONG) < 2 ^ 128"
  using uint_range_size [of t] by (simp add: word_size)

lemma uint_Lw: "uint (Lw t) = uint t mod bn_base"
  by (simp add: Lw_def unsigned_ucast_eq take_bit_eq_mod)

lemma uint_drop_64: "uint (drop_bit 64 t) = uint t div bn_base" for t :: BN_ULLONG
  using arg_cong [OF unat_drop_bit_div [of 64 t], of int] by (simp add: zdiv_int)

lemma uint_Hw: "uint (Hw t) = uint t div bn_base"
proof -
  have "uint t div bn_base < 2 ^ 64" using uint_128 [of t] by (simp add: div_less_iff_less_mult)
  then have "take_bit 64 (uint t div bn_base) = uint t div bn_base" by (intro take_bit_int_eq_self) (simp_all add: pos_imp_zdiv_nonneg_iff)
  then show ?thesis by (simp add: Hw_def unsigned_ucast_eq uint_drop_64)
qed

lemma Lw_Hw: "uint (Lw t) + bn_base * uint (Hw t) = uint t"
  by (simp add: uint_Lw uint_Hw)


lemma u64_mult_bound: "uint (a :: u64) * uint (b :: u64) \<le> 18446744073709551615 * 18446744073709551615"
  by (intro mult_mono) simp_all

lemma uint_mult_128: "uint (ucast (a :: u64) * ucast (b :: u64) :: BN_ULLONG) = uint a * uint b"
  using u64_mult_bound [of a b] by (subst uint_mult_lem [THEN iffD1]) simp_all

lemma uint_mult_add_128: "uint (ucast (w :: u64) * ucast (a :: u64) + ucast (c :: u64) :: BN_ULLONG) = uint w * uint a + uint c"
  using u64_mult_bound [of w a] uint_u64(3) [of c]
  by (subst uint_add_lem [THEN iffD1]) (simp_all add: uint_mult_128 del: uint_u64)

lemma uint_mult_add_add_128:
  "uint (ucast (w :: u64) * ucast (a :: u64) + ucast (r :: u64) + ucast (c :: u64) :: BN_ULLONG) = uint w * uint a + uint r + uint c"
  using u64_mult_bound [of w a] uint_u64(3) [of c] uint_u64(3) [of r]
  by (subst uint_add_lem [THEN iffD1]) (simp_all add: uint_mult_add_128 del: uint_u64)

lemma mul_add_exact: "mul_add r a w c = (x, c') \<Longrightarrow> uint x + bn_base * uint c' = uint r + uint w * uint a + uint c"
  by (auto simp: mul_add_def Let_def Lw_Hw uint_mult_add_add_128)

lemma mul_word_exact: "mul_word a w c = (x, c') \<Longrightarrow> uint x + bn_base * uint c' = uint w * uint a + uint c"
  by (auto simp: mul_word_def Let_def Lw_Hw uint_mult_add_128)

lemma sqr_word_exact: "sqr_word a = (x, c') \<Longrightarrow> uint x + bn_base * uint c' = uint a * uint a"
  by (auto simp: sqr_word_def Let_def Lw_Hw uint_mult_128)

lemma add_step_exact:
  assumes "uint ll \<le> 1" and "add_step a b ll = (x, ll')"
  shows "uint x + bn_base * uint ll' = uint a + uint b + uint ll \<and> uint ll' \<le> 1"
proof -
  have s: "uint (ll + (ucast a + ucast b)) = uint ll + (uint a + uint b)"
    using assms(1) uint_u64(3) [of a] uint_u64(3) [of b]
    by (subst uint_add_lem [THEN iffD1], subst uint_add_lem [THEN iffD1])
      (simp_all add: uint_add_lem [THEN iffD1] del: uint_u64)
  have x: "x = Lw (ll + (ucast a + ucast b))" "ll' = drop_bit 64 (ll + (ucast a + ucast b))"
    using assms(2) by (auto simp: add_step_def Let_def Lw_def)
  have "uint ll + (uint a + uint b) < 2 * bn_base" using assms(1) uint_u64(3) [of a] uint_u64(3) [of b] by linarith
  then have "(uint ll + (uint a + uint b)) div bn_base < 2" by (simp add: div_less_iff_less_mult)
  then show ?thesis unfolding x by (simp add: uint_Lw uint_drop_64 s)
qed

lemma uint_plus_u64: "uint (a + b) = (if uint a + uint b < bn_base then uint a + uint b else uint a + uint b - bn_base)" for a b :: u64
  using uint_plus_if' [of a b] by simp

lemma uint_minus_u64: "uint (a - b) = (if uint b \<le> uint a then uint a - uint b else uint a - uint b + bn_base)" for a b :: u64
  using uint_sub_if' [of a b] by simp

lemma uint_add_carry:
  "uint (a + b) + bn_base * uint (if a + b < b then 1 else 0 :: u64) = uint a + uint b" for a b :: u64
proof -
  have "uint a < bn_base" "uint b < bn_base" "0 \<le> uint a" "0 \<le> uint b" by (rule uint_u64)+
  then show ?thesis unfolding word_less_def uint_plus_u64 by (auto simp del: uint_u64)
qed

lemma add_step_narrow_exact:
  assumes "uint c \<le> 1" and "add_step_narrow a b c = (x, c')"
  shows "uint x + bn_base * uint c' = uint a + uint b + uint c \<and> uint c' \<le> 1"
proof -
  define t where "t = a + c"
  define k where "k = (if t < c then 1 else 0 :: u64)"
  define l where "l = (if t + b < t then 1 else 0 :: u64)"
  have x: "x = t + b" "c' = k + l"
    using assms(2) [symmetric] by (simp_all only: add_step_narrow_def Let_def t_def k_def l_def prod.inject)
  have t: "uint t + bn_base * uint k = uint a + uint c" unfolding t_def k_def by (rule uint_add_carry)
  have u: "uint (t + b) + bn_base * uint l = uint t + uint b"
    unfolding l_def using uint_add_carry [of b t] by (simp add: add.commute)
  have kl: "k = 0 \<or> k = 1" "l = 0 \<or> l = 1" by (auto simp: k_def l_def)
  have "\<not> (k = 1 \<and> l = 1)"
  proof
    assume "k = 1 \<and> l = 1"
    then have "uint t + bn_base = uint a + uint c" "uint (t + b) + bn_base = uint t + uint b" using t u by simp_all
    then show False using assms(1) uint_u64(3) [of a] uint_u64(3) [of b] uint_u64(1) [of "t + b"] by linarith
  qed
  then show ?thesis unfolding x using t u kl by auto
qed

lemma uint_le_1: "uint c \<le> 1 \<longleftrightarrow> c = 0 \<or> c = 1" for c :: u64
proof
  assume "uint c \<le> 1"
  moreover have "0 \<le> uint c" by simp
  ultimately have "uint c = 0 \<or> uint c = 1" by linarith
  then show "c = 0 \<or> c = 1" by (auto simp: word_uint_eq_iff)
qed auto

lemma sub_step_exact:
  assumes "uint c \<le> 1" and "sub_step a b c = (x, c')"
  shows "uint x + bn_base * - uint c' = uint a - uint b + - uint c \<and> uint c' \<le> 1"
proof -
  have x: "x = a - b - c" "c' = (if a \<noteq> b then (if a < b then 1 else 0) else c)"
    using assms(2) by (auto simp: sub_step_def split: if_splits)
  have B: "uint a < bn_base" "uint b < bn_base" "0 \<le> uint a" "0 \<le> uint b" by (rule uint_u64)+
  from assms(1) have "c = 0 \<or> c = 1" by (simp only: uint_le_1)
  then show ?thesis
    unfolding x word_less_def word_uint_eq_iff [of a b] uint_minus_u64 by (auto simp del: uint_u64) (use B in linarith)+
qed

section \<open>The loops are exact\<close>

interpretation mul_add: carry_step "\<lambda>i c. mul_add (r ! i) (a ! i) w c" "\<lambda>i. uint (r ! i) + uint w * uint (a ! i)" uint "\<lambda>_. True"
  for r a w by unfold_locales (simp_all add: mul_add_exact)

interpretation mul: carry_step "\<lambda>i c. mul_word (a ! i) w c" "\<lambda>i. uint w * uint (a ! i)" uint "\<lambda>_. True"
  for a w by unfold_locales (simp_all add: mul_word_exact)

interpretation add: carry_step "\<lambda>i ll. add_step (a ! i) (b ! i) ll" "\<lambda>i. uint (a ! i) + uint (b ! i)" uint "\<lambda>ll. uint ll \<le> 1"
  for a b by unfold_locales (use add_step_exact in blast)+

interpretation add_narrow: carry_step "\<lambda>i c. add_step_narrow (a ! i) (b ! i) c" "\<lambda>i. uint (a ! i) + uint (b ! i)" uint "\<lambda>c. uint c \<le> 1"
  for a b by unfold_locales (use add_step_narrow_exact in blast)+

interpretation sub: carry_step "\<lambda>i c. sub_step (a ! i) (b ! i) c" "\<lambda>i. uint (a ! i) - uint (b ! i)" "\<lambda>c. - uint c" "\<lambda>c. uint c \<le> 1"
  for a b by unfold_locales (use sub_step_exact in blast)+


text \<open>Stated for the functions.\<close>

lemma sum_words: "n \<le> length a \<Longrightarrow> (\<Sum>j < n. uint (a ! (0 + j)) * bn_base ^ j) = words_val (take n a)"
  by (simp add: words_val_take)

lemma bn_add_words_ok:
  assumes "n \<le> length a" and "n \<le> length b" and "bn_add_words a b n = (r, c)"
  shows "words_val r + bn_base ^ n * uint c = words_val (take n a) + words_val (take n b) \<and> uint c \<le> 1 \<and> length r = n"
proof (cases "n = 0")
  case False
  then obtain ll where l: "carry_loop (\<lambda>i ll. add_step (a ! i) (b ! i) ll) n 0 0 = (r, ll)" "c = ucast ll"
    using assms(3) by (auto simp: bn_add_words_def words_loop_eq split: prod.splits)
  note R = add.loop_exact [OF _ l(1)]
  have "uint c = uint ll" using R l(2) by (simp add: unsigned_ucast_eq take_bit_int_eq_self)
  then show ?thesis using R assms(1,2)
    by (simp add: words_val_take distrib_right sum.distrib)
qed (use assms in \<open>auto simp: bn_add_words_def\<close>)

lemma bn_add_words_narrow_ok:
  assumes "n \<le> length a" and "n \<le> length b" and "bn_add_words_narrow a b n = (r, c)"
  shows "words_val r + bn_base ^ n * uint c = words_val (take n a) + words_val (take n b) \<and> uint c \<le> 1 \<and> length r = n"
proof (cases "n = 0")
  case False
  then have l: "carry_loop (\<lambda>i c. add_step_narrow (a ! i) (b ! i) c) n 0 0 = (r, c)"
    using assms(3) by (simp add: bn_add_words_narrow_def words_loop_eq)
  show ?thesis using add_narrow.loop_exact [OF _ l] assms(1,2)
    by (simp add: words_val_take distrib_right sum.distrib)
qed (use assms in \<open>auto simp: bn_add_words_narrow_def\<close>)

lemma bn_sub_words_ok:
  assumes "n \<le> length a" and "n \<le> length b" and "bn_sub_words a b n = (r, c)"
  shows "words_val r - bn_base ^ n * uint c = words_val (take n a) - words_val (take n b) \<and> uint c \<le> 1 \<and> length r = n"
proof (cases "n = 0")
  case False
  then have l: "carry_loop (\<lambda>i c. sub_step (a ! i) (b ! i) c) n 0 0 = (r, c)"
    using assms(3) by (simp add: bn_sub_words_def words_loop_eq)
  show ?thesis using sub.loop_exact [OF _ l] assms(1,2)
    by (simp add: words_val_take left_diff_distrib sum_subtractf)
qed (use assms in \<open>auto simp: bn_sub_words_def\<close>)

lemma bn_mul_words_ok:
  assumes "n \<le> length a" and "bn_mul_words a n w = (r, c)"
  shows "words_val r + bn_base ^ n * uint c = uint w * words_val (take n a) \<and> length r = n"
proof (cases "n = 0")
  case False
  then have l: "carry_loop (\<lambda>i c. mul_word (a ! i) w c) n 0 0 = (r, c)"
    using assms(2) by (simp add: bn_mul_words_def words_loop_eq)
  show ?thesis using mul.loop_exact [OF _ l] assms(1)
    by (simp add: words_val_take sum_distrib_left mult.assoc)
qed (use assms in \<open>auto simp: bn_mul_words_def\<close>)

lemma bn_mul_add_words_ok:
  assumes "n \<le> length p" and "n \<le> length a" and "bn_mul_add_words p a n w = (r, c)"
  shows "words_val r + bn_base ^ n * uint c = words_val (take n p) + uint w * words_val (take n a) \<and> length r = n"
proof (cases "n = 0")
  case False
  then have l: "carry_loop (\<lambda>i c. mul_add (p ! i) (a ! i) w c) n 0 0 = (r, c)"
    using assms(3) by (simp add: bn_mul_add_words_def words_loop_eq)
  show ?thesis using mul_add.loop_exact [OF _ l] assms(1,2)
    by (simp add: words_val_take sum_distrib_left mult.assoc distrib_right sum.distrib)
qed (use assms in \<open>auto simp: bn_mul_add_words_def\<close>)

end
