(* ===== verification/Bn.thy ===== *)
theory Bn
  imports Bn_Words Consttime
begin

text \<open>
  Big numbers (\<open>crypto/fipsmodule/bn\<close>): the type \<open>BIGNUM\<close> with its storage (\<open>bn.c\<close>) and the
  comparisons (\<open>cmp.c\<close>). \<open>bn_d\<close> holds all \<open>dmax\<close> words of the allocation (none for a null pointer); the
  first \<open>width\<close> of them are the absolute value, which may have leading zeros. Functions that change a
  \<open>BIGNUM\<close> return it as it is afterwards. An output that may be the same object as an input is modelled
  as a separate one: every loop of the code reads the words at a position before it writes them.
\<close>

section \<open>The type\<close>

record BIGNUM =
  bn_d :: "BN_ULONG list"
  width :: nat
  neg :: bool
  static_data :: bool

abbreviation (input) dmax :: "BIGNUM \<Rightarrow> nat" where "dmax bn \<equiv> length (bn_d bn)"

definition BN_init :: BIGNUM where
  "BN_init = \<lparr>bn_d = [], width = 0, neg = False, static_data = False\<rparr>"

text \<open>\<open>BN_new\<close> allocates the 24 bytes of the structure.\<close>

definition BN_new :: "alloc \<Rightarrow> BIGNUM option" where
  "BN_new A = (if A 24 = None then None else Some BN_init)"

text \<open>The words of a fresh block of memory.\<close>

definition fresh_words :: "(nat \<Rightarrow> u8) \<Rightarrow> nat \<Rightarrow> BN_ULONG list" where
  "fresh_words fresh n = map (\<lambda>i. of_nat (le_val (map fresh [8 * i..<8 * i + 8]))) [0..<n]"

text \<open>\<open>INT_MAX / (4 * BN_BITS2)\<close> words are the most a number may have.\<close>

abbreviation (input) bn_max_words :: nat where "bn_max_words \<equiv> 8388607"

definition bn_wexpand :: "alloc \<Rightarrow> BIGNUM \<Rightarrow> nat \<Rightarrow> bool \<times> BIGNUM" where
  "bn_wexpand A bn words =
     (if words \<le> dmax bn then (True, bn)
      else if words > bn_max_words then (False, bn)
      else if static_data bn then (False, bn)
      else
        (case A (8 * words) of
           None \<Rightarrow> (False, bn)
         | Some fresh \<Rightarrow> (True, bn\<lparr>bn_d := take (width bn) (bn_d bn) @ drop (width bn) (fresh_words fresh words)\<rparr>)))"

definition bn_expand :: "alloc \<Rightarrow> BIGNUM \<Rightarrow> nat \<Rightarrow> bool \<times> BIGNUM" where
  "bn_expand A bn bits =
     (if size_add bits 63 < bits then (False, bn) else bn_wexpand A bn (size_add bits 63 div 64))"

text \<open>Writing words at the start of the storage.\<close>

definition put_words :: "BN_ULONG list \<Rightarrow> BIGNUM \<Rightarrow> BIGNUM" where
  "put_words ws bn = bn\<lparr>bn_d := ws @ drop (length ws) (bn_d bn)\<rparr>"

section \<open>Copies\<close>

definition BN_copy :: "alloc \<Rightarrow> BIGNUM \<Rightarrow> BIGNUM \<Rightarrow> bool \<times> BIGNUM" where
  "BN_copy A dest src =
     (case bn_wexpand A dest (width src) of
        (False, dest) \<Rightarrow> (False, dest)
      | (True, dest) \<Rightarrow> (True, (put_words (take (width src) (bn_d src)) dest)\<lparr>width := width src, neg := neg src\<rparr>))"

definition BN_dup :: "alloc \<Rightarrow> BIGNUM option \<Rightarrow> BIGNUM option" where
  "BN_dup A src =
     (case src of
        None \<Rightarrow> None
      | Some src \<Rightarrow>
          (case BN_new A of
             None \<Rightarrow> None
           | Some copy \<Rightarrow> (case BN_copy A copy src of (False, _) \<Rightarrow> None | (True, copy) \<Rightarrow> Some copy)))"

definition BN_clear :: "BIGNUM \<Rightarrow> BIGNUM" where
  "BN_clear bn = bn\<lparr>bn_d := replicate (dmax bn) 0, width := 0, neg := False\<rparr>"

definition BN_value_one :: BIGNUM where
  "BN_value_one = \<lparr>bn_d = [1], width = 1, neg = False, static_data = True\<rparr>"

section \<open>Sizes\<close>

text \<open>One of the blocks of \<open>BN_num_bits_word\<close>, which looks at the bits from \<open>k\<close> on: the bits counted so
  far and \<open>l\<close>.\<close>

definition num_bits_block :: "nat \<Rightarrow> nat \<times> BN_ULONG \<Rightarrow> nat \<times> BN_ULONG" where
  "num_bits_block k s =
     (case s of (bits, l) \<Rightarrow>
        (let x = drop_bit k l;
             mask = 0 - x;
             mask = 0 - drop_bit 63 mask
         in (bits + unat (of_nat k AND mask), l XOR ((x XOR l) AND mask))))"

definition BN_num_bits_word :: "BN_ULONG \<Rightarrow> nat" where
  "BN_num_bits_word l =
     fst (num_bits_block 1 (num_bits_block 2 (num_bits_block 4 (num_bits_block 8 (num_bits_block 16
       (num_bits_block 32 (if l \<noteq> 0 then 1 else 0, l)))))))"

fun minimal_width_loop :: "BN_ULONG list \<Rightarrow> nat \<Rightarrow> nat" where
  "minimal_width_loop d 0 = 0"
| "minimal_width_loop d (Suc ret) = (if d ! ret = 0 then minimal_width_loop d ret else Suc ret)"

definition bn_minimal_width :: "BIGNUM \<Rightarrow> nat" where
  "bn_minimal_width bn = minimal_width_loop (bn_d bn) (width bn)"

definition bn_set_minimal_width :: "BIGNUM \<Rightarrow> BIGNUM" where
  "bn_set_minimal_width bn =
     (let w = bn_minimal_width bn in bn\<lparr>width := w, neg := (if w = 0 then False else neg bn)\<rparr>)"

definition BN_num_bits :: "BIGNUM \<Rightarrow> nat" where
  "BN_num_bits bn =
     (let w = bn_minimal_width bn in if w = 0 then 0 else (w - 1) * 64 + BN_num_bits_word (bn_d bn ! (w - 1)))"

definition BN_num_bytes :: "BIGNUM \<Rightarrow> nat" where
  "BN_num_bytes bn = (BN_num_bits bn + 7) div 8"

section \<open>Setting and reading words\<close>

definition BN_zero :: "BIGNUM \<Rightarrow> BIGNUM" where
  "BN_zero bn = bn\<lparr>width := 0, neg := False\<rparr>"

definition BN_set_word :: "alloc \<Rightarrow> BIGNUM \<Rightarrow> BN_ULONG \<Rightarrow> bool \<times> BIGNUM" where
  "BN_set_word A bn v =
     (if v = 0 then (True, BN_zero bn)
      else
        (case bn_wexpand A bn 1 of
           (False, bn) \<Rightarrow> (False, bn)
         | (True, bn) \<Rightarrow> (True, (put_words [v] bn)\<lparr>neg := False, width := 1\<rparr>)))"

definition BN_one :: "alloc \<Rightarrow> BIGNUM \<Rightarrow> bool \<times> BIGNUM" where
  "BN_one A bn = BN_set_word A bn 1"

definition BN_set_u64 :: "alloc \<Rightarrow> BIGNUM \<Rightarrow> u64 \<Rightarrow> bool \<times> BIGNUM" where
  "BN_set_u64 A bn v = BN_set_word A bn v"

definition bn_set_words :: "alloc \<Rightarrow> BIGNUM \<Rightarrow> BN_ULONG list \<Rightarrow> bool \<times> BIGNUM" where
  "bn_set_words A bn words =
     (case bn_wexpand A bn (length words) of
        (False, bn) \<Rightarrow> (False, bn)
      | (True, bn) \<Rightarrow> (True, (put_words words bn)\<lparr>width := length words, neg := False\<rparr>))"

text \<open>The loops that \<open>or\<close> words together.\<close>

definition or_words :: "BN_ULONG \<Rightarrow> BN_ULONG list \<Rightarrow> BN_ULONG" where
  "or_words m ws = foldl (\<lambda>m w. m OR w) m ws"

definition bn_fits_in_words :: "BIGNUM \<Rightarrow> nat \<Rightarrow> bool" where
  "bn_fits_in_words bn n = (or_words 0 (drop n (take (width bn) (bn_d bn))) = 0)"

definition bn_copy_words :: "nat \<Rightarrow> BIGNUM \<Rightarrow> BN_ULONG list option" where
  "bn_copy_words n bn =
     (if neg bn then None
      else if width bn > n \<and> \<not> bn_fits_in_words bn n then None
      else
        (let w = (if width bn > n then n else width bn)
         in Some (take w (bn_d bn) @ drop w (replicate n 0))))"

definition bn_resize_words :: "alloc \<Rightarrow> BIGNUM \<Rightarrow> nat \<Rightarrow> bool \<times> BIGNUM" where
  "bn_resize_words A bn words =
     (if width bn \<le> words then
        (case bn_wexpand A bn words of
           (False, bn) \<Rightarrow> (False, bn)
         | (True, bn) \<Rightarrow>
             (True, (put_words (take (width bn) (bn_d bn) @ replicate (words - width bn) 0) bn)\<lparr>width := words\<rparr>))
      else if \<not> bn_fits_in_words bn words then (False, bn)
      else (True, bn\<lparr>width := words\<rparr>))"

definition bn_select_words :: "BN_ULONG \<Rightarrow> BN_ULONG list \<Rightarrow> BN_ULONG list \<Rightarrow> nat \<Rightarrow> BN_ULONG list" where
  "bn_select_words m a b n = map (\<lambda>i. constant_time_select_w m (a ! i) (b ! i)) [0..<n]"

section \<open>Comparisons\<close>

text \<open>An \<open>int\<close> is converted to a word and back.\<close>

definition constant_time_select_int :: "crypto_word_t \<Rightarrow> int \<Rightarrow> int \<Rightarrow> int" where
  "constant_time_select_int m a b = sint (ucast (constant_time_select_w m (word_of_int a) (word_of_int b)) :: u32)"

fun cmp_words_loop :: "BN_ULONG list \<Rightarrow> BN_ULONG list \<Rightarrow> int \<Rightarrow> int" where
  "cmp_words_loop (x # a) (y # b) ret =
     (let eq = constant_time_eq_w x y; lt = constant_time_lt_w x y
      in cmp_words_loop a b (constant_time_select_int eq ret (constant_time_select_int lt (-1) 1)))"
| "cmp_words_loop _ _ ret = ret"

definition bn_cmp_words_consttime :: "BN_ULONG list \<Rightarrow> BN_ULONG list \<Rightarrow> int" where
  "bn_cmp_words_consttime a b =
     (let ret = cmp_words_loop a b 0
      in if length a < length b
         then constant_time_select_int (constant_time_is_zero_w (or_words 0 (drop (length a) b))) ret (-1)
         else if length b < length a
         then constant_time_select_int (constant_time_is_zero_w (or_words 0 (drop (length b) a))) ret 1
         else ret)"

definition BN_ucmp :: "BIGNUM \<Rightarrow> BIGNUM \<Rightarrow> int" where
  "BN_ucmp a b = bn_cmp_words_consttime (take (width a) (bn_d a)) (take (width b) (bn_d b))"

definition BN_cmp :: "BIGNUM option \<Rightarrow> BIGNUM option \<Rightarrow> int" where
  "BN_cmp a b =
     (case (a, b) of
        (Some _, None) \<Rightarrow> -1
      | (None, Some _) \<Rightarrow> 1
      | (None, None) \<Rightarrow> 0
      | (Some a, Some b) \<Rightarrow>
          if neg a \<noteq> neg b then (if neg a then -1 else 1)
          else (let ret = BN_ucmp a b in if neg a then - ret else ret))"

definition bn_less_than_words :: "BN_ULONG list \<Rightarrow> BN_ULONG list \<Rightarrow> bool" where
  "bn_less_than_words a b = (bn_cmp_words_consttime a b < 0)"

definition BN_abs_is_word :: "BIGNUM \<Rightarrow> BN_ULONG \<Rightarrow> bool" where
  "BN_abs_is_word bn w =
     (if width bn = 0 then w = 0
      else or_words (bn_d bn ! 0 XOR w) (drop 1 (take (width bn) (bn_d bn))) = 0)"

definition BN_cmp_word :: "BIGNUM \<Rightarrow> BN_ULONG \<Rightarrow> int" where
  "BN_cmp_word a b =
     BN_cmp (Some a) (Some (BN_init\<lparr>bn_d := [b], width := (if b > 0 then 1 else 0), static_data := True\<rparr>))"

definition BN_is_zero :: "BIGNUM \<Rightarrow> bool" where
  "BN_is_zero bn = bn_fits_in_words bn 0"

definition BN_is_one :: "BIGNUM \<Rightarrow> bool" where
  "BN_is_one bn = (\<not> neg bn \<and> BN_abs_is_word bn 1)"

definition BN_is_word :: "BIGNUM \<Rightarrow> BN_ULONG \<Rightarrow> bool" where
  "BN_is_word bn w = (BN_abs_is_word bn w \<and> (w = 0 \<or> \<not> neg bn))"

definition BN_is_odd :: "BIGNUM \<Rightarrow> bool" where
  "BN_is_odd bn = (width bn > 0 \<and> bn_d bn ! 0 AND 1 = 1)"

definition BN_is_pow2 :: "BIGNUM \<Rightarrow> bool" where
  "BN_is_pow2 bn =
     (let w = bn_minimal_width bn
      in if w = 0 \<or> neg bn then False
         else if \<exists>i < w - 1. bn_d bn ! i \<noteq> 0 then False
         else bn_d bn ! (w - 1) AND (bn_d bn ! (w - 1) - 1) = 0)"

definition BN_equal_consttime :: "BIGNUM \<Rightarrow> BIGNUM \<Rightarrow> bool" where
  "BN_equal_consttime a b =
     (let mask = or_words 0 (drop (width a) (take (width b) (bn_d b)));
          mask = or_words mask (drop (width b) (take (width a) (bn_d a)));
          min = (if width a < width b then width a else width b);
          mask = or_words mask (map2 (XOR) (take min (bn_d a)) (take min (bn_d b)));
          mask = mask OR (of_bool (neg a) XOR of_bool (neg b))
      in mask = 0)"

section \<open>Sign\<close>

definition BN_is_negative :: "BIGNUM \<Rightarrow> bool" where
  "BN_is_negative bn = neg bn"

definition BN_set_negative :: "BIGNUM \<Rightarrow> bool \<Rightarrow> BIGNUM" where
  "BN_set_negative bn sign = bn\<lparr>neg := (sign \<and> \<not> BN_is_zero bn)\<rparr>"

section \<open>Values\<close>

definition bn_ok :: "BIGNUM \<Rightarrow> bool" where
  "bn_ok bn \<longleftrightarrow> width bn \<le> dmax bn \<and> dmax bn \<le> bn_max_words"

definition bn_words :: "BIGNUM \<Rightarrow> BN_ULONG list" where
  "bn_words bn = take (width bn) (bn_d bn)"

definition bn_abs :: "BIGNUM \<Rightarrow> int" where
  "bn_abs bn = words_val (bn_words bn)"

definition bn_val :: "BIGNUM \<Rightarrow> int" where
  "bn_val bn = (if neg bn then - bn_abs bn else bn_abs bn)"

text \<open>No leading zeros, and no sign on zero.\<close>

definition bn_minimal :: "BIGNUM \<Rightarrow> bool" where
  "bn_minimal bn \<longleftrightarrow> bn_ok bn \<and> (width bn \<noteq> 0 \<longrightarrow> bn_d bn ! (width bn - 1) \<noteq> 0) \<and> (neg bn \<longrightarrow> width bn \<noteq> 0)"

end
