(* ===== verification/Bn_Val.thy ===== *)
theory Bn_Val
  imports Bn
begin

text \<open>
  What the storage functions and comparisons of \<open>Bn\<close> do to the value of a number. \<open>bn_ok\<close> is the
  invariant of the storage, \<open>bn_val\<close> the number, which does not depend on leading zero words.
\<close>

section \<open>Words\<close>

lemma bn_base_pow [simp]: "0 < bn_base ^ n" "0 \<le> bn_base ^ n" "\<not> bn_base ^ n \<le> 0" "bn_base ^ n \<noteq> 0"
  by (simp_all add: not_le)

lemma bn_base_pow_mult:
  assumes "1 \<le> x"
  shows "bn_base ^ n \<le> bn_base ^ n * x"
proof -
  have "bn_base ^ n * 1 \<le> bn_base ^ n * x" using assms by (intro mult_left_mono) simp_all
  then show ?thesis by (simp only: mult_1_right)
qed

lemma or_words_eq_0: "or_words m ws = 0 \<longleftrightarrow> m = 0 \<and> (\<forall>w \<in> set ws. w = 0)"
  by (induction ws arbitrary: m) (auto simp: or_words_def or_eq_0_iff)

lemma words_val_eq_0: "words_val ws = 0 \<longleftrightarrow> (\<forall>w \<in> set ws. w = 0)"
proof (induction ws)
  case (Cons w ws)
  have "uint w + bn_base * words_val ws = 0 \<longleftrightarrow> uint w = 0 \<and> words_val ws = 0"
    using words_val_nonneg [of ws] uint_u64(1) [of w] by (auto simp: add_nonneg_eq_0_iff simp del: words_val_nonneg uint_u64)
  then show ?case using Cons by (simp add: unsigned_eq_0_iff)
qed simp

lemma length_bn_words [simp]: "bn_ok bn \<Longrightarrow> length (bn_words bn) = width bn"
  by (simp add: bn_ok_def bn_words_def)

lemma bn_abs_nonneg [simp]: "0 \<le> bn_abs bn"
  by (simp add: bn_abs_def)

lemma bn_abs_less: "bn_ok bn \<Longrightarrow> bn_abs bn < bn_base ^ width bn"
  using words_val_less [of "bn_words bn"] by (simp add: bn_abs_def)

lemma bn_fits_eq:
  assumes "bn_ok bn"
  shows "bn_fits_in_words bn n \<longleftrightarrow> bn_abs bn < bn_base ^ n"
proof (cases "width bn \<le> n")
  case True
  have "bn_abs bn < bn_base ^ width bn" by (rule bn_abs_less [OF assms])
  also have "\<dots> \<le> bn_base ^ n" using True by (intro power_increasing) simp_all
  finally show ?thesis using True by (simp add: bn_fits_in_words_def or_words_def)
next
  case False
  define lo where "lo = take n (bn_words bn)"
  define hi where "hi = drop n (bn_words bn)"
  have l: "length lo = n" using False assms by (simp add: lo_def)
  have v: "bn_abs bn = words_val lo + bn_base ^ n * words_val hi"
    using words_val_append [of lo hi] l by (simp add: bn_abs_def lo_def hi_def)
  have z: "bn_fits_in_words bn n \<longleftrightarrow> words_val hi = 0"
    by (simp add: bn_fits_in_words_def or_words_eq_0 words_val_eq_0 hi_def bn_words_def)
  have "words_val lo < bn_base ^ n" using words_val_less [of lo] l by simp
  moreover have "bn_base ^ n \<le> bn_base ^ n * words_val hi" if "words_val hi \<noteq> 0"
    using that words_val_nonneg [of hi] by (intro bn_base_pow_mult) linarith
  ultimately have "words_val hi = 0 \<longleftrightarrow> words_val lo + bn_base ^ n * words_val hi < bn_base ^ n"
    using words_val_nonneg [of lo] by (cases "words_val hi = 0") (simp, linarith)
  then show ?thesis unfolding z v .
qed

lemma BN_is_zero_eq: "bn_ok bn \<Longrightarrow> BN_is_zero bn \<longleftrightarrow> bn_abs bn = 0"
  using bn_abs_nonneg [of bn] by (auto simp: BN_is_zero_def bn_fits_eq simp del: bn_abs_nonneg)


section \<open>Storage\<close>

text \<open>A call that may enlarge the storage: it keeps the number, and gives the room it promises unless
  it fails.\<close>

lemma bn_wexpand_ok:
  assumes "bn_ok bn" and "bn_wexpand A bn n = (ok, r)"
  shows "bn_ok r \<and> bn_words r = bn_words bn \<and> width r = width bn \<and> neg r = neg bn \<and> static_data r = static_data bn
    \<and> dmax bn \<le> dmax r \<and> (ok \<longrightarrow> n \<le> dmax r)"
  using assms
  by (auto simp: bn_wexpand_def bn_ok_def bn_words_def fresh_words_def split: if_splits option.splits)

text \<open>When it does not fail.\<close>

lemma bn_wexpand_total:
  assumes "n \<le> dmax bn \<or> (n \<le> bn_max_words \<and> \<not> static_data bn \<and> (\<forall>m. A m \<noteq> None))"
  shows "fst (bn_wexpand A bn n)"
  using assms by (auto simp: bn_wexpand_def split: option.splits dest: spec [of _ "8 * n"])

lemma put_words_simps [simp]:
  "width (put_words ws bn) = width bn" "neg (put_words ws bn) = neg bn" "static_data (put_words ws bn) = static_data bn"
  by (simp_all add: put_words_def)

lemma bn_ok_upd [simp]: "bn_ok (bn\<lparr>neg := s\<rparr>) = bn_ok bn" "bn_words (bn\<lparr>neg := s\<rparr>) = bn_words bn" "bn_abs (bn\<lparr>neg := s\<rparr>) = bn_abs bn"
  by (simp_all add: bn_ok_def bn_words_def bn_abs_def)

text \<open>Writing \<open>ws\<close> and setting the width.\<close>

lemma put_words_ok:
  assumes "bn_ok bn" and "length ws \<le> dmax bn" and "length ws = n"
  shows "bn_ok ((put_words ws bn)\<lparr>width := n\<rparr>) \<and> bn_words ((put_words ws bn)\<lparr>width := n\<rparr>) = ws"
  using assms by (auto simp: put_words_def bn_ok_def bn_words_def)

lemma bn_abs_words: "bn_words bn = ws \<Longrightarrow> bn_abs bn = words_val ws"
  by (simp add: bn_abs_def)

lemma minimal_width_loop_le: "minimal_width_loop d n \<le> n"
  by (induction n) (simp_all add: le_SucI)

lemma minimal_width_loop_top: "minimal_width_loop d n \<noteq> 0 \<Longrightarrow> d ! (minimal_width_loop d n - 1) \<noteq> 0"
  by (induction n) (auto split: if_splits)

lemma minimal_width_loop_val: "n \<le> length d \<Longrightarrow> words_val (take (minimal_width_loop d n) d) = words_val (take n d)"
  by (induction n) (simp_all add: take_Suc_conv_app_nth words_val_append)

lemma bn_minimal_width_le: "bn_minimal_width bn \<le> width bn"
  by (simp add: bn_minimal_width_def minimal_width_loop_le)

lemma bn_minimal_width_val: "bn_ok bn \<Longrightarrow> words_val (take (bn_minimal_width bn) (bn_d bn)) = bn_abs bn"
  by (simp add: bn_minimal_width_def bn_ok_def bn_abs_def bn_words_def minimal_width_loop_val)

lemma words_val_lower:
  assumes "ws \<noteq> []" and "List.last ws \<noteq> 0"
  shows "bn_base ^ (length ws - 1) \<le> words_val ws"
proof -
  obtain vs w where ws: "ws = vs @ [w]" using assms(1) by (metis append_butlast_last_id)
  have "uint w \<noteq> 0" using assms(2) ws by (simp add: unsigned_eq_0_iff)
  then have "1 \<le> uint w" using uint_u64(1) [of w] by linarith
  then have "bn_base ^ length vs \<le> bn_base ^ length vs * uint w" by (rule bn_base_pow_mult)
  then have "bn_base ^ length vs \<le> words_val vs + bn_base ^ length vs * uint w" using words_val_nonneg [of vs] by linarith
  then show ?thesis unfolding ws by (simp only: words_val_append) simp
qed

text \<open>The minimal width is determined by the value.\<close>

lemma bn_minimal_width_bounds:
  assumes "bn_ok bn"
  shows "bn_abs bn < bn_base ^ bn_minimal_width bn
    \<and> (bn_minimal_width bn \<noteq> 0 \<longrightarrow> bn_base ^ (bn_minimal_width bn - 1) \<le> bn_abs bn)"
proof -
  define ws where "ws = take (bn_minimal_width bn) (bn_d bn)"
  have l: "length ws = bn_minimal_width bn"
    using assms bn_minimal_width_le [of bn] by (simp add: ws_def bn_ok_def)
  have v: "words_val ws = bn_abs bn" using bn_minimal_width_val [OF assms] by (simp add: ws_def)
  have "List.last ws \<noteq> 0" "ws \<noteq> []" if "bn_minimal_width bn \<noteq> 0"
  proof -
    have ne: "ws \<noteq> []" using that l by auto
    then have "List.last ws = bn_d bn ! (bn_minimal_width bn - 1)"
      using l that by (subst last_conv_nth) (simp_all add: ws_def)
    then show "List.last ws \<noteq> 0" using minimal_width_loop_top [of "bn_d bn" "width bn"] that by (simp add: bn_minimal_width_def)
    show "ws \<noteq> []" by (rule ne)
  qed
  then show ?thesis using words_val_less [of ws] words_val_lower [of ws] l v by auto
qed

lemma bn_minimal_width_0:
  assumes "bn_ok bn"
  shows "bn_minimal_width bn = 0 \<longleftrightarrow> bn_abs bn = 0"
proof (cases "bn_minimal_width bn = 0")
  case True
  then show ?thesis using bn_minimal_width_bounds [OF assms] bn_abs_nonneg [of bn] by (simp del: bn_abs_nonneg)
next
  case False
  have "0 < bn_base ^ (bn_minimal_width bn - 1)" by simp
  then show ?thesis using False bn_minimal_width_bounds [OF assms] by linarith
qed

lemma bn_set_minimal_width_ok:
  assumes "bn_ok bn"
  shows "bn_minimal (bn_set_minimal_width bn) \<and> bn_abs (bn_set_minimal_width bn) = bn_abs bn
    \<and> neg (bn_set_minimal_width bn) = (neg bn \<and> bn_abs bn \<noteq> 0) \<and> bn_val (bn_set_minimal_width bn) = bn_val bn
    \<and> static_data (bn_set_minimal_width bn) = static_data bn \<and> dmax (bn_set_minimal_width bn) = dmax bn"
proof -
  let ?r = "bn_set_minimal_width bn"
  have r: "?r = bn\<lparr>width := bn_minimal_width bn, neg := neg bn \<and> bn_abs bn \<noteq> 0\<rparr>"
    using bn_minimal_width_0 [OF assms] by (auto simp: bn_set_minimal_width_def Let_def)
  have a: "bn_abs ?r = bn_abs bn" using bn_minimal_width_val [OF assms] by (simp add: r bn_abs_def bn_words_def)
  have "bn_minimal ?r"
    using assms bn_minimal_width_le [of bn] minimal_width_loop_top [of "bn_d bn" "width bn"] bn_minimal_width_0 [OF assms]
    by (auto simp: bn_minimal_def r bn_ok_def bn_minimal_width_def)
  then show ?thesis using a by (auto simp: r bn_val_def)
qed


section \<open>Comparisons\<close>

lemma int_through_word: "a \<in> {-1, 0, 1} \<Longrightarrow> sint (ucast (word_of_int a :: crypto_word_t) :: u32) = a"
proof -
  have "sint (ucast (word_of_int (-1) :: crypto_word_t) :: u32) = -1" by code_simp
  then show "a \<in> {-1, 0, 1} \<Longrightarrow> sint (ucast (word_of_int a :: crypto_word_t) :: u32) = a" by auto
qed

lemma constant_time_select_int_eq:
  "a \<in> {-1, 0, 1} \<Longrightarrow> b \<in> {-1, 0, 1} \<Longrightarrow> constant_time_select_int (ct_mask P) a b = (if P then a else b)"
  unfolding constant_time_select_int_def constant_time_select_w_eq
  by (cases P) (simp_all only: if_True if_False int_through_word)

lemma constant_time_eq_w_eq: "constant_time_eq_w a b = ct_mask (a = b)"
  by (simp add: constant_time_eq_w_def constant_time_is_zero_w_eq)

text \<open>The comparison of two words that comes last, at the top, decides.\<close>

lemma cmp_step_eq:
  "ret \<in> {-1, 0, 1} \<Longrightarrow>
    constant_time_select_int (constant_time_eq_w x y) ret (constant_time_select_int (constant_time_lt_w x y) (-1) 1)
    = (if x = y then ret else if x < y then -1 else 1)"
  unfolding constant_time_eq_w_eq constant_time_lt_w_eq
  by (subst constant_time_select_int_eq; simp add: constant_time_select_int_eq)+

lemma sgn_digit:
  fixes x y X Y :: int
  assumes "0 \<le> x" and "x < B" and "0 \<le> y" and "y < B"
  shows "sgn (x + B * X - (y + B * Y)) = (if X = Y then sgn (x - y) else sgn (X - Y))"
proof -
  consider "X = Y" | "X < Y" | "Y < X" by linarith
  then show ?thesis
  proof cases
    case 1
    then show ?thesis by simp
  next
    case 2
    have "B * (X + 1) \<le> B * Y" using 2 assms by (intro mult_left_mono) auto
    then show ?thesis using 2 assms by (simp add: algebra_simps sgn_if)
  next
    case 3
    have "B * (Y + 1) \<le> B * X" using 3 assms by (intro mult_left_mono) auto
    then show ?thesis using 3 assms by (simp add: algebra_simps sgn_if)
  qed
qed

lemma cmp_words_loop_eq:
  assumes "length a = length b" and "ret \<in> {-1, 0, 1}"
  shows "cmp_words_loop a b ret = (if words_val a = words_val b then ret else sgn (words_val a - words_val b))"
  using assms
proof (induction a b arbitrary: ret rule: list_induct2)
  case (Cons x a y b)
  define r where "r = (if x = y then ret else if x < y then -1 else 1)"
  have r: "r \<in> {-1, 0, 1}" using Cons.prems by (simp add: r_def)
  have "cmp_words_loop (x # a) (y # b) ret = cmp_words_loop a b r"
    using cmp_step_eq [OF Cons.prems] by (simp add: r_def)
  also have "\<dots> = (if words_val a = words_val b then r else sgn (words_val a - words_val b))" by (rule Cons.IH [OF r])
  finally have c: "cmp_words_loop (x # a) (y # b) ret = (if words_val a = words_val b then r else sgn (words_val a - words_val b))" .
  have "x = y \<longleftrightarrow> uint x = uint y" "x < y \<longleftrightarrow> uint x < uint y" by (simp_all add: word_uint_eq_iff word_less_def)
  then have r': "r = (if uint x = uint y then ret else sgn (uint x - uint y))" by (auto simp: r_def sgn_if)
  have s: "sgn (words_val (x # a) - words_val (y # b))
      = (if words_val a = words_val b then sgn (uint x - uint y) else sgn (words_val a - words_val b))"
    unfolding words_val.simps by (rule sgn_digit) (rule uint_u64)+
  have z: "sgn i = 0 \<longleftrightarrow> i = 0" for i :: int by (simp add: sgn_0_0)
  show ?case
  proof (cases "words_val (x # a) = words_val (y # b)")
    case True
    then show ?thesis using s z [of "words_val a - words_val b"] z [of "uint x - uint y"] c r' by (auto split: if_splits)
  next
    case False
    then have "sgn (words_val (x # a) - words_val (y # b)) \<noteq> 0" using z by simp
    then show ?thesis using s False c r' by (auto split: if_splits)
  qed
qed simp

lemma cmp_longer:
  assumes "length a < length b" and "ret = sgn (words_val a - words_val (take (length a) b))"
  shows "(if or_words 0 (drop (length a) b) = 0 then ret else -1) = sgn (words_val a - words_val b)"
proof -
  define lo where "lo = take (length a) b"
  define hi where "hi = drop (length a) b"
  have v: "words_val b = words_val lo + bn_base ^ length a * words_val hi"
    using words_val_append [of lo hi] assms(1) by (simp add: lo_def hi_def)
  have z: "or_words 0 hi = 0 \<longleftrightarrow> words_val hi = 0" by (simp add: or_words_eq_0 words_val_eq_0)
  have s: "sgn (words_val a - words_val b) = -1" if "words_val hi \<noteq> 0"
  proof -
    have "bn_base ^ length a \<le> bn_base ^ length a * words_val hi"
      using that words_val_nonneg [of hi] by (intro bn_base_pow_mult) linarith
    then have "words_val a - words_val b < 0" using words_val_less [of a] words_val_nonneg [of lo] v by linarith
    then show ?thesis by (rule sgn_neg)
  qed
  show ?thesis
  proof (cases "words_val hi = 0")
    case True
    then show ?thesis using assms(2) v z by (simp add: hi_def lo_def)
  next
    case False
    then show ?thesis using s z by (simp add: hi_def)
  qed
qed


lemma cmp_words_swap: "sgn (words_val a - words_val b) = - sgn (words_val b - words_val a)"
  by (simp add: sgn_if)

lemma bn_cmp_words_ok: "bn_cmp_words_consttime a b = sgn (words_val a - words_val b)"
proof -
  define n where "n = min (length a) (length b)"
  define ret where "ret = cmp_words_loop a b 0"
  have "cmp_words_loop a b 0 = cmp_words_loop (take n a) (take n b) 0"
  proof -
    have "cmp_words_loop a b r = cmp_words_loop (take (min (length a) (length b)) a) (take (min (length a) (length b)) b) r" for r
      by (induction a b r rule: cmp_words_loop.induct) simp_all
    then show ?thesis by (simp add: n_def)
  qed
  also have "\<dots> = sgn (words_val (take n a) - words_val (take n b))"
    by (subst cmp_words_loop_eq) (simp_all add: n_def)
  finally have r: "ret = sgn (words_val (take n a) - words_val (take n b))" by (simp add: ret_def)
  have r3: "ret \<in> {-1, 0, 1}" unfolding r by (simp add: sgn_if)
  consider "length a < length b" | "length b < length a" | "length a = length b" by linarith
  then show ?thesis
  proof cases
    case 1
    have "bn_cmp_words_consttime a b = (if or_words 0 (drop (length a) b) = 0 then ret else -1)"
      unfolding bn_cmp_words_consttime_def Let_def ret_def [symmetric] constant_time_is_zero_w_eq
      using 1 r3 by (subst constant_time_select_int_eq) simp_all
    then show ?thesis using cmp_longer [OF 1, of ret] 1 r by (simp add: n_def)
  next
    case 2
    have "bn_cmp_words_consttime a b = (if or_words 0 (drop (length b) a) = 0 then ret else 1)"
      unfolding bn_cmp_words_consttime_def Let_def ret_def [symmetric] constant_time_is_zero_w_eq
      using 2 r3 by (simp add: constant_time_select_int_eq)
    moreover have "- ret = sgn (words_val b - words_val (take (length b) a))"
      using r 2 cmp_words_swap [of b "take (length b) a"] by (simp add: n_def)
    ultimately show ?thesis using cmp_longer [OF 2, of "- ret"] cmp_words_swap [of a b] by (simp split: if_splits)
  next
    case 3
    then show ?thesis using r by (simp add: bn_cmp_words_consttime_def Let_def ret_def n_def)
  qed
qed

lemma BN_ucmp_ok: "BN_ucmp a b = sgn (bn_abs a - bn_abs b)"
  by (simp add: BN_ucmp_def bn_cmp_words_ok bn_abs_def bn_words_def)

text \<open>On numbers without a negative zero, \<open>BN_cmp\<close> is the order of the integers.\<close>

lemma BN_cmp_ok:
  assumes "neg a \<longrightarrow> bn_abs a \<noteq> 0" and "neg b \<longrightarrow> bn_abs b \<noteq> 0"
  shows "BN_cmp (Some a) (Some b) = sgn (bn_val a - bn_val b)"
  using assms bn_abs_nonneg [of a] bn_abs_nonneg [of b]
  by (auto simp: BN_cmp_def BN_ucmp_ok bn_val_def Let_def sgn_if simp del: bn_abs_nonneg)

section \<open>The number of bits\<close>

fun bit_len :: "nat \<Rightarrow> nat" where
  "bit_len n = (if n = 0 then 0 else Suc (bit_len (n div 2)))"

declare bit_len.simps [simp del]

lemma bit_len_0 [simp]: "bit_len 0 = 0" "bit_len (Suc 0) = 1"
  by (simp_all add: bit_len.simps)

lemma bit_len_le: "bit_len n \<le> k \<longleftrightarrow> n < 2 ^ k"
proof (induction n arbitrary: k rule: bit_len.induct)
  case (1 n)
  show ?case
  proof (cases "n = 0")
    case False
    then have b: "bit_len n = Suc (bit_len (n div 2))" by (subst bit_len.simps) simp
    show ?thesis
    proof (cases k)
      case 0
      then show ?thesis using False b by simp
    next
      case (Suc j)
      have "n div 2 < 2 ^ j \<longleftrightarrow> n < 2 ^ Suc j" by (simp add: less_mult_imp_div_less div_less_iff_less_mult mult.commute)
      then show ?thesis using 1 [OF False, of j] b Suc by simp
    qed
  qed simp
qed

lemma bit_len_shift: "2 ^ k \<le> n \<Longrightarrow> bit_len n = k + bit_len (n div 2 ^ k)"
proof (induction k arbitrary: n)
  case (Suc k)
  then have "n \<noteq> 0" "2 ^ k \<le> n div 2" by (cases n; auto)+
  then show ?case using Suc.IH [of "n div 2"] by (subst bit_len.simps) (simp add: div_mult2_eq)
qed simp


lemma num_bits_block_eq:
  assumes "1 \<le> k" and "k < 64"
  shows "num_bits_block k (bits, l) = (if drop_bit k l = 0 then (bits, l) else (bits + k, drop_bit k l))"
proof -
  define x where "x = drop_bit k l"
  have "unat x * 2 ^ 1 \<le> unat x * 2 ^ k" using assms(1) by (intro mult_left_mono power_increasing) simp_all
  also have "\<dots> \<le> unat l" by (simp add: x_def unat_drop_bit_div)
  also have "\<dots> < 2 ^ 64" using unsigned_less [of l, where ?'a = nat] by simp
  finally have x: "unat x < 2 ^ 63" by simp
  have "bit (0 - x) 63 \<longleftrightarrow> x \<noteq> 0"
  proof (cases "x = 0")
    case False
    then have "unat x \<noteq> 0" by (simp add: unat_eq_0)
    then have "unat (0 - x) = 2 ^ 64 - unat x" using unat_sub_if_size [of 0 x] by (simp add: word_size)
    then show ?thesis using x False by (simp add: bit_63_iff)
  qed simp
  then have m: "0 - drop_bit 63 (0 - x) = (ct_mask (x \<noteq> 0) :: u64)"
    using constant_time_msb_w_eq [of "0 - x"] by (simp add: constant_time_msb_w_def)
  have k: "unat (of_nat k :: u64) = k" using assms(2) by (simp add: unat_of_nat take_bit_nat_eq_self)
  show ?thesis unfolding num_bits_block_def prod.case Let_def x_def [symmetric] m
    using k by (auto simp: ct_mask_def xor.assoc [symmetric] word_bw_comms)
qed

lemma num_bits_step:
  assumes "num_bits_block k (bits, l) = (bits', l')" and "1 \<le> k" and "k < 64" and "unat l < 2 ^ (2 * k)"
  shows "bits' + bit_len (unat l') = bits + bit_len (unat l) \<and> unat l' < 2 ^ k \<and> (l' = 0 \<longleftrightarrow> l = 0)"
proof (cases "drop_bit k l = 0")
  case True
  then show ?thesis using assms num_bits_block_eq [OF assms(2,3), of bits l] by (auto simp: drop_bit_eq_0_iff_less)
next
  case False
  then have v: "bits' = bits + k" "l' = drop_bit k l" using assms num_bits_block_eq [OF assms(2,3), of bits l] by simp_all
  have "2 ^ k \<le> unat l" using False by (simp add: drop_bit_eq_0_iff_less not_less)
  moreover have "unat l' < 2 ^ k" using assms(4) by (simp add: v unat_drop_bit_div less_mult_imp_div_less mult_2 power_add)
  moreover have "l \<noteq> 0" using False by auto
  ultimately show ?thesis using False bit_len_shift [of k "unat l"] by (simp add: v unat_drop_bit_div)
qed

lemma BN_num_bits_word_eq: "BN_num_bits_word l = bit_len (unat l)"
proof -
  have l0: "unat l < 2 ^ (2 * 32)" using unsigned_less [of l, where ?'a = nat] by simp
  define b0 where "b0 = (if l \<noteq> 0 then 1 else 0 :: nat)"
  obtain b1 l1 where e1: "num_bits_block 32 (b0, l) = (b1, l1)" by fastforce
  obtain b2 l2 where e2: "num_bits_block 16 (b1, l1) = (b2, l2)" by fastforce
  obtain b3 l3 where e3: "num_bits_block 8 (b2, l2) = (b3, l3)" by fastforce
  obtain b4 l4 where e4: "num_bits_block 4 (b3, l3) = (b4, l4)" by fastforce
  obtain b5 l5 where e5: "num_bits_block 2 (b4, l4) = (b5, l5)" by fastforce
  obtain b6 l6 where e6: "num_bits_block 1 (b5, l5) = (b6, l6)" by fastforce
  note s1 = num_bits_step [OF e1 _ _ l0, simplified]
  note s2 = num_bits_step [OF e2, simplified] and s3 = num_bits_step [OF e3, simplified]
    and s4 = num_bits_step [OF e4, simplified] and s5 = num_bits_step [OF e5, simplified] and s6 = num_bits_step [OF e6, simplified]
  have r: "b6 + bit_len (unat l6) = b0 + bit_len (unat l)" "unat l6 < 2" "l6 = 0 \<longleftrightarrow> l = 0"
    using s1 s2 s3 s4 s5 s6 by simp_all
  have "bit_len (unat l6) = b0"
  proof (cases "l = 0")
    case False
    then have "unat l6 = 1" using r(2,3) by (simp add: unat_eq_0 less_2_cases_iff)
    then show ?thesis using False by (simp add: b0_def)
  qed (use r in \<open>simp add: b0_def\<close>)
  then show ?thesis using r(1) unfolding BN_num_bits_word_def b0_def [symmetric] e1 e2 e3 e4 e5 e6 by simp
qed


lemma bit_len_unique:
  assumes "n < 2 ^ k" and "k \<noteq> 0 \<longrightarrow> 2 ^ (k - 1) \<le> n"
  shows "bit_len n = k"
proof (rule antisym)
  show "bit_len n \<le> k" using assms(1) by (simp add: bit_len_le)
  show "k \<le> bit_len n"
  proof (rule ccontr)
    assume "\<not> k \<le> bit_len n"
    then have "bit_len n \<le> k - 1" "k \<noteq> 0" by simp_all
    then show False using assms(2) by (simp add: bit_len_le)
  qed
qed

text \<open>\<open>BN_num_bits\<close> is the length of the binary representation of the absolute value.\<close>

lemma BN_num_bits_ok:
  assumes "bn_ok bn"
  shows "BN_num_bits bn = bit_len (nat (bn_abs bn))"
proof (cases "bn_minimal_width bn = 0")
  case True
  then show ?thesis using bn_minimal_width_0 [OF assms] by (simp add: BN_num_bits_def)
next
  case False
  define w where "w = bn_minimal_width bn"
  define ws where "ws = take (w - 1) (bn_d bn)"
  define t where "t = bn_d bn ! (w - 1)"
  have wl: "w \<le> length (bn_d bn)" using bn_minimal_width_le [of bn] assms by (simp add: w_def bn_ok_def)
  have w: "w = Suc (w - 1)" using False by (simp add: w_def)
  have "take w (bn_d bn) = ws @ [t]" using wl w take_Suc_conv_app_nth [of "w - 1" "bn_d bn"] by (simp add: ws_def t_def)
  then have v: "bn_abs bn = words_val ws + bn_base ^ (w - 1) * uint t"
    using bn_minimal_width_val [OF assms] wl by (simp add: w_def words_val_append ws_def)
  define n where "n = nat (words_val ws)"
  have nt: "nat (bn_abs bn) = n + 2 ^ (64 * (w - 1)) * unat t"
    unfolding v n_def by (simp add: nat_add_distrib nat_mult_distrib nat_power_eq power_mult unsigned_def)
  have "length ws = w - 1" using wl w by (simp add: ws_def)
  then have "words_val ws < bn_base ^ (w - 1)" using words_val_less [of ws] by simp
  then have "n < nat (bn_base ^ (w - 1))" unfolding n_def using words_val_nonneg [of ws] by (simp add: nat_less_eq_zless del: words_val_nonneg)
  then have n: "n < 2 ^ (64 * (w - 1))" by (simp add: nat_power_eq power_mult)
  have t: "t \<noteq> 0" using minimal_width_loop_top [of "bn_d bn" "width bn"] False by (simp add: t_def w_def bn_minimal_width_def)
  then have t1: "1 \<le> unat t" by (simp add: unat_gt_0 Suc_le_eq)
  have "2 ^ (64 * (w - 1)) * 1 \<le> 2 ^ (64 * (w - 1)) * unat t" using t1 by (intro mult_left_mono) simp_all
  then have ge: "2 ^ (64 * (w - 1)) \<le> nat (bn_abs bn)" using nt by (simp only: mult_1_right trans_le_add2)
  have "nat (bn_abs bn) div 2 ^ (64 * (w - 1)) = unat t" unfolding nt using n by simp
  then have "bit_len (nat (bn_abs bn)) = 64 * (w - 1) + bit_len (unat t)" using bit_len_shift [OF ge] by simp
  then show ?thesis using False by (simp add: BN_num_bits_def Let_def BN_num_bits_word_eq w_def t_def)
qed

end
