(* ===== verification/Bn_Add.thy ===== *)
theory Bn_Add
  imports Bn_Val
begin

text \<open>
  Addition and subtraction of big numbers (\<open>crypto/fipsmodule/bn/add.c\<close>) and the theorems that they are
  addition and subtraction of integers, whatever the signs, the widths and the previous contents of
  the result. A result \<open>False\<close> is a failed allocation (or, for \<open>BN_usub\<close>, a negative difference).
\<close>

section \<open>Code\<close>

text \<open>The loops over the words that only one of the numbers has.\<close>

fun add_carry_loop :: "BN_ULONG list \<Rightarrow> BN_ULONG \<Rightarrow> BN_ULONG list \<times> BN_ULONG" where
  "add_carry_loop [] carry = ([], carry)"
| "add_carry_loop (x # a) carry =
     (let tmp = carry + x;
          carry = (if tmp < x then 1 else 0);
          (ws, carry) = add_carry_loop a carry
      in (tmp # ws, carry))"

fun sub_borrow_loop :: "BN_ULONG list \<Rightarrow> BN_ULONG \<Rightarrow> BN_ULONG list \<times> BN_ULONG" where
  "sub_borrow_loop [] borrow = ([], borrow)"
| "sub_borrow_loop (x # a) borrow =
     (let r = x - borrow;
          borrow = (if x < r then 1 else 0);
          (ws, borrow) = sub_borrow_loop a borrow
      in (r # ws, borrow))"

definition bn_uadd_consttime :: "alloc \<Rightarrow> BIGNUM \<Rightarrow> BIGNUM \<Rightarrow> BIGNUM \<Rightarrow> bool \<times> BIGNUM" where
  "bn_uadd_consttime A r a b =
     (let (a, b) = (if width a < width b then (b, a) else (a, b));
          max = width a;
          min = width b
      in case bn_wexpand A r (max + 1) of
           (False, r) \<Rightarrow> (False, r)
         | (True, r) \<Rightarrow>
             (let (ws, carry) = bn_add_words (bn_d a) (bn_d b) min;
                  (ws', carry) = add_carry_loop (drop min (take max (bn_d a))) carry
              in (True, (put_words (ws @ ws' @ [carry]) r)\<lparr>width := max + 1\<rparr>)))"

definition BN_uadd :: "alloc \<Rightarrow> BIGNUM \<Rightarrow> BIGNUM \<Rightarrow> BIGNUM \<Rightarrow> bool \<times> BIGNUM" where
  "BN_uadd A r a b =
     (case bn_uadd_consttime A r a b of (False, r) \<Rightarrow> (False, r) | (True, r) \<Rightarrow> (True, bn_set_minimal_width r))"

definition bn_usub_consttime :: "alloc \<Rightarrow> BIGNUM \<Rightarrow> BIGNUM \<Rightarrow> BIGNUM \<Rightarrow> bool \<times> BIGNUM" where
  "bn_usub_consttime A r a b =
     (if width b > width a \<and> \<not> bn_fits_in_words b (width a) then (False, r)
      else
        (let b_width = (if width b > width a then width a else width b)
         in case bn_wexpand A r (width a) of
              (False, r) \<Rightarrow> (False, r)
            | (True, r) \<Rightarrow>
                (let (ws, borrow) = bn_sub_words (bn_d a) (bn_d b) b_width;
                     (ws', borrow) = sub_borrow_loop (drop b_width (take (width a) (bn_d a))) borrow;
                     r = put_words (ws @ ws') r
                 in if borrow \<noteq> 0 then (False, r) else (True, r\<lparr>width := width a, neg := False\<rparr>))))"

definition BN_usub :: "alloc \<Rightarrow> BIGNUM \<Rightarrow> BIGNUM \<Rightarrow> BIGNUM \<Rightarrow> bool \<times> BIGNUM" where
  "BN_usub A r a b =
     (case bn_usub_consttime A r a b of (False, r) \<Rightarrow> (False, r) | (True, r) \<Rightarrow> (True, bn_set_minimal_width r))"

definition BN_add :: "alloc \<Rightarrow> BIGNUM \<Rightarrow> BIGNUM \<Rightarrow> BIGNUM \<Rightarrow> bool \<times> BIGNUM" where
  "BN_add A r a b =
     (let a_neg = neg a
      in if a_neg \<noteq> neg b then
           (let (a, b) = (if a_neg then (b, a) else (a, b))
            in if BN_ucmp a b < 0
               then (case BN_usub A r b a of (False, r) \<Rightarrow> (False, r) | (True, r) \<Rightarrow> (True, r\<lparr>neg := True\<rparr>))
               else (case BN_usub A r a b of (False, r) \<Rightarrow> (False, r) | (True, r) \<Rightarrow> (True, r\<lparr>neg := False\<rparr>)))
         else (case BN_uadd A r a b of (ret, r) \<Rightarrow> (ret, r\<lparr>neg := a_neg\<rparr>)))"

definition BN_sub :: "alloc \<Rightarrow> BIGNUM \<Rightarrow> BIGNUM \<Rightarrow> BIGNUM \<Rightarrow> bool \<times> BIGNUM" where
  "BN_sub A r a b =
     (let (a, b, add, sign) =
        (if neg a then (if neg b then (b, a, False, False) else (a, b, True, True))
         else (a, b, neg b, False))
      in if add then (case BN_uadd A r a b of (False, r) \<Rightarrow> (False, r) | (True, r) \<Rightarrow> (True, r\<lparr>neg := sign\<rparr>))
         else if BN_ucmp a b < 0
         then (case BN_usub A r b a of (False, r) \<Rightarrow> (False, r) | (True, r) \<Rightarrow> (True, r\<lparr>neg := True\<rparr>))
         else (case BN_usub A r a b of (False, r) \<Rightarrow> (False, r) | (True, r) \<Rightarrow> (True, r\<lparr>neg := False\<rparr>)))"

text \<open>The loop of \<open>BN_add_word\<close>: the words and what is left of \<open>w\<close>. The loop of \<open>BN_sub_word\<close>: the words
  and the position where it ends; \<open>None\<close> if it runs beyond the number.\<close>

fun add_word_loop :: "BN_ULONG list \<Rightarrow> BN_ULONG \<Rightarrow> BN_ULONG list \<times> BN_ULONG" where
  "add_word_loop [] w = ([], w)"
| "add_word_loop (x # a) w =
     (if w = 0 then (x # a, w)
      else (let l = x + w; (ws, w) = add_word_loop a (if w > l then 1 else 0) in (l # ws, w)))"

fun sub_word_loop :: "BN_ULONG list \<Rightarrow> BN_ULONG \<Rightarrow> (BN_ULONG list \<times> nat) option" where
  "sub_word_loop [] w = None"
| "sub_word_loop (x # a) w =
     (if x \<ge> w then Some ((x - w) # a, 0)
      else (case sub_word_loop a 1 of None \<Rightarrow> None | Some (ws, i) \<Rightarrow> Some ((x - w) # ws, Suc i)))"

function BN_add_word :: "alloc \<Rightarrow> BIGNUM \<Rightarrow> BN_ULONG \<Rightarrow> (bool \<times> BIGNUM) option"
  and BN_sub_word :: "alloc \<Rightarrow> BIGNUM \<Rightarrow> BN_ULONG \<Rightarrow> (bool \<times> BIGNUM) option" where
  "BN_add_word A a w =
     (if w = 0 then Some (True, a)
      else if BN_is_zero a then Some (BN_set_word A a w)
      else if neg a then
        (case BN_sub_word A (a\<lparr>neg := False\<rparr>) w of
           None \<Rightarrow> None
         | Some (i, a) \<Rightarrow> Some (i, if \<not> BN_is_zero a then a\<lparr>neg := \<not> neg a\<rparr> else a))
      else
        (let (ws, w) = add_word_loop (take (width a) (bn_d a)) w;
             a = put_words ws a
         in if w \<noteq> 0 then
              (case bn_wexpand A a (width a + 1) of
                 (False, a) \<Rightarrow> Some (False, a)
               | (True, a) \<Rightarrow> Some (True, a\<lparr>width := width a + 1, bn_d := (bn_d a)[width a := w]\<rparr>))
            else Some (True, a)))"
| "BN_sub_word A a w =
     (if w = 0 then Some (True, a)
      else if BN_is_zero a then
        (case BN_set_word A a w of (i, a) \<Rightarrow> Some (i, if i then BN_set_negative a True else a))
      else if neg a then
        (case BN_add_word A (a\<lparr>neg := False\<rparr>) w of
           None \<Rightarrow> None
         | Some (i, a) \<Rightarrow> Some (i, a\<lparr>neg := True\<rparr>))
      else if bn_minimal_width a = 1 \<and> bn_d a ! 0 < w
      then Some (True, a\<lparr>bn_d := (bn_d a)[0 := w - bn_d a ! 0], neg := True\<rparr>)
      else
        (case sub_word_loop (take (width a) (bn_d a)) w of
           None \<Rightarrow> None
         | Some (ws, i) \<Rightarrow>
             (let a = put_words ws a
              in Some (True, if bn_d a ! i = 0 \<and> i = width a - 1 then a\<lparr>width := width a - 1\<rparr> else a))))"
  by pat_completeness auto
termination
  by (relation "measure (\<lambda>x. case x of Inl (A, a, w) \<Rightarrow> of_bool (neg a) | Inr (A, a, w) \<Rightarrow> of_bool (neg a))") auto

declare BN_add_word.simps [simp del] BN_sub_word.simps [simp del]

section \<open>Addition and subtraction of absolute values\<close>

lemma add_carry_loop_ok:
  assumes "uint c \<le> 1" and "add_carry_loop a c = (ws, c')"
  shows "words_val ws + bn_base ^ length a * uint c' = words_val a + uint c \<and> uint c' \<le> 1 \<and> length ws = length a"
  using assms
proof (induction a arbitrary: c ws c')
  case (Cons x a)
  define d where "d = (if c + x < x then 1 else 0 :: BN_ULONG)"
  obtain vs where vs: "add_carry_loop a d = (vs, c')" "ws = (c + x) # vs"
    using Cons.prems(2) by (auto simp: Let_def d_def split: prod.splits)
  have "uint (c + x) + bn_base * uint d = uint c + uint x" unfolding d_def by (rule uint_add_carry)
  moreover have "uint d \<le> 1" by (simp add: d_def)
  ultimately show ?case using Cons.IH [OF _ vs(1)] by (simp add: vs(2) algebra_simps)
qed simp

lemma uint_sub_borrow:
  fixes x c :: BN_ULONG
  assumes "uint c \<le> 1"
  shows "uint (x - c) - bn_base * uint (if x < x - c then 1 else 0 :: BN_ULONG) = uint x - uint c"
proof -
  have "uint x < bn_base" "0 \<le> uint x" "0 \<le> uint c" by (rule uint_u64)+
  then show ?thesis unfolding word_less_def uint_minus_u64 using assms by (auto simp del: uint_u64)
qed


lemma sub_borrow_loop_ok:
  assumes "uint c \<le> 1" and "sub_borrow_loop a c = (ws, c')"
  shows "words_val ws - bn_base ^ length a * uint c' = words_val a - uint c \<and> uint c' \<le> 1 \<and> length ws = length a"
  using assms
proof (induction a arbitrary: c ws c')
  case (Cons x a)
  define d where "d = (if x < x - c then 1 else 0 :: BN_ULONG)"
  obtain vs where vs: "sub_borrow_loop a d = (vs, c')" "ws = (x - c) # vs"
    using Cons.prems(2) by (auto simp: Let_def d_def split: prod.splits)
  have "uint (x - c) - bn_base * uint d = uint x - uint c" unfolding d_def by (rule uint_sub_borrow [OF Cons.prems(1)])
  moreover have "uint d \<le> 1" by (simp add: d_def)
  ultimately show ?case using Cons.IH [OF _ vs(1)] by (simp add: vs(2) algebra_simps)
qed simp

text \<open>Splitting off the words that both numbers have.\<close>

lemma words_val_split: "n \<le> length xs \<Longrightarrow> words_val xs = words_val (take n xs) + bn_base ^ n * words_val (drop n xs)"
  using words_val_append [of "take n xs" "drop n xs"] by (simp add: min_def)

lemma bn_abs_split:
  assumes "bn_ok a" and "n \<le> width a"
  shows "bn_abs a = words_val (take n (bn_d a)) + bn_base ^ n * words_val (drop n (take (width a) (bn_d a)))"
  using words_val_split [of n "bn_words a"] assms by (simp add: bn_abs_def bn_words_def bn_ok_def min_def)

lemma bn_uadd_ordered:
  assumes "bn_ok a" and "bn_ok b" and "width b \<le> width a"
    and w: "bn_add_words (bn_d a) (bn_d b) (width b) = (ws, c)"
    and w': "add_carry_loop (drop (width b) (take (width a) (bn_d a))) c = (ws', c')"
  shows "words_val (ws @ ws' @ [c']) = bn_abs a + bn_abs b \<and> length (ws @ ws' @ [c']) = width a + 1"
proof -
  have l: "width b \<le> length (bn_d a)" "width b \<le> length (bn_d b)" "width a \<le> length (bn_d a)"
    using assms(1-3) by (simp_all add: bn_ok_def)
  note W = bn_add_words_ok [OF l(1,2) w]
  note W' = add_carry_loop_ok [OF _ w', OF conjunct1 [OF conjunct2 [OF W]]]
  have "words_val (ws @ ws' @ [c']) = words_val ws + bn_base ^ width b * (words_val ws' + bn_base ^ (width a - width b) * uint c')"
    using W W' l assms(3) by (simp add: words_val_append)
  also have "\<dots> = words_val ws + bn_base ^ width b * (words_val (drop (width b) (take (width a) (bn_d a))) + uint c)"
    using W' l assms(3) by simp
  also have "\<dots> = bn_abs a + bn_abs b"
    using W bn_abs_split [OF assms(1,3)] by (simp add: algebra_simps bn_abs_def bn_words_def)
  finally show ?thesis using W W' l assms(3) by simp
qed

text \<open>What a call leaves behind when it fails: a number with its old value and sound storage.\<close>

lemma bn_uadd_consttime_ok:
  assumes "bn_ok r" and "bn_ok a" and "bn_ok b" and "bn_uadd_consttime A r a b = (ret, r')"
  shows "bn_ok r' \<and> neg r' = neg r \<and> static_data r' = static_data r
    \<and> (if ret then bn_abs r' = bn_abs a + bn_abs b \<and> width r' = max (width a) (width b) + 1 else bn_abs r' = bn_abs r)"
proof -
  define p where "p = (if width a < width b then b else a)"
  define q where "q = (if width a < width b then a else b)"
  have pq: "bn_ok p" "bn_ok q" "width q \<le> width p" "bn_abs p + bn_abs q = bn_abs a + bn_abs b" "width p = max (width a) (width b)"
    using assms(2,3) by (auto simp: p_def q_def)
  obtain ok r1 where e: "bn_wexpand A r (width p + 1) = (ok, r1)" by fastforce
  note E = bn_wexpand_ok [OF assms(1) e]
  obtain ws c where w: "bn_add_words (bn_d p) (bn_d q) (width q) = (ws, c)" by fastforce
  obtain ws' c' where w': "add_carry_loop (drop (width q) (take (width p) (bn_d p))) c = (ws', c')" by fastforce
  have split: "(if width a < width b then (b, a) else (a, b)) = (p, q)" by (simp add: p_def q_def)
  note V = bn_uadd_ordered [OF pq(1-3) w w']
  show ?thesis
  proof (cases ok)
    case False
    then have "ret = False" "r' = r1" using assms(4) by (simp_all add: bn_uadd_consttime_def split e [simplified] Let_def)
    then show ?thesis using E by (simp add: bn_abs_def)
  next
    case True
    then have r: "ret = True" "r' = (put_words (ws @ ws' @ [c']) r1)\<lparr>width := width p + 1\<rparr>"
      using assms(4) by (simp_all add: bn_uadd_consttime_def split e [simplified] w w' Let_def)
    have "bn_ok r' \<and> bn_words r' = ws @ ws' @ [c']"
      unfolding r by (rule put_words_ok) (use E True V in auto)
    then show ?thesis using E V pq(4,5) r by (simp add: bn_abs_def)
  qed
qed

lemma bn_usub_words:
  assumes "bn_ok a" and "bn_ok b" and "n = min (width a) (width b)" and "words_val (drop n (take (width b) (bn_d b))) = 0"
    and w: "bn_sub_words (bn_d a) (bn_d b) n = (ws, c)"
    and w': "sub_borrow_loop (drop n (take (width a) (bn_d a))) c = (ws', c')"
  shows "words_val (ws @ ws') - bn_base ^ width a * uint c' = bn_abs a - bn_abs b \<and> uint c' \<le> 1 \<and> length (ws @ ws') = width a"
proof -
  have l: "n \<le> length (bn_d a)" "n \<le> length (bn_d b)" "width a \<le> length (bn_d a)" "n \<le> width a" "n \<le> width b"
    using assms(1-3) by (auto simp: bn_ok_def)
  note W = bn_sub_words_ok [OF l(1,2) w]
  note W' = sub_borrow_loop_ok [OF _ w', OF conjunct1 [OF conjunct2 [OF W]]]
  have b: "bn_abs b = words_val (take n (bn_d b))" using bn_abs_split [OF assms(2) l(5)] assms(4) by simp
  have p: "bn_base ^ width a = bn_base ^ n * bn_base ^ (width a - n)" using l(4) by (simp flip: power_add)
  have "words_val (ws @ ws') - bn_base ^ width a * uint c'
      = words_val ws + bn_base ^ n * (words_val ws' - bn_base ^ (width a - n) * uint c')"
    using W unfolding p by (simp add: words_val_append algebra_simps)
  also have "\<dots> = words_val ws + bn_base ^ n * (words_val (drop n (take (width a) (bn_d a))) - uint c)"
    using W' l by simp
  also have "\<dots> = bn_abs a - bn_abs b"
    using W bn_abs_split [OF assms(1) l(4)] by (simp add: algebra_simps b)
  finally show ?thesis using W W' l by simp
qed


lemma bn_usub_consttime_ok:
  assumes "bn_ok r" and "bn_ok a" and "bn_ok b" and "bn_usub_consttime A r a b = (ret, r')"
  shows "bn_ok r' \<and> static_data r' = static_data r
    \<and> (ret \<longrightarrow> bn_abs r' = bn_abs a - bn_abs b \<and> width r' = width a \<and> \<not> neg r')
    \<and> (\<not> ret \<longrightarrow> bn_abs a < bn_abs b \<or> \<not> fst (bn_wexpand A r (width a)))"
proof (cases "width b > width a \<and> \<not> bn_fits_in_words b (width a)")
  case True
  then have "\<not> bn_abs b < bn_base ^ width a" using bn_fits_eq [OF assms(3)] by simp
  then have "bn_abs a < bn_abs b" using bn_abs_less [OF assms(2)] by linarith
  then show ?thesis using True assms(1,4) by (simp add: bn_usub_consttime_def)
next
  case False
  define n where "n = min (width a) (width b)"
  have n: "(if width b > width a then width a else width b) = n" by (simp add: n_def)
  have z: "words_val (drop n (take (width b) (bn_d b))) = 0"
    using False by (auto simp: n_def min_def words_val_eq_0 bn_fits_in_words_def or_words_eq_0)
  obtain ok r1 where e: "bn_wexpand A r (width a) = (ok, r1)" by fastforce
  note E = bn_wexpand_ok [OF assms(1) e]
  obtain ws c where w: "bn_sub_words (bn_d a) (bn_d b) n = (ws, c)" by fastforce
  obtain ws' c' where w': "sub_borrow_loop (drop n (take (width a) (bn_d a))) c = (ws', c')" by fastforce
  note V = bn_usub_words [OF assms(2,3) n_def z w w']
  show ?thesis
  proof (cases ok)
    case no: False
    then have "ret = False" "r' = r1" using assms(4) False by (auto simp: bn_usub_consttime_def n e Let_def)
    then show ?thesis using E no e by simp
  next
    case True
    have u: "bn_usub_consttime A r a b = (if c' \<noteq> 0 then (False, put_words (ws @ ws') r1)
        else (True, (put_words (ws @ ws') r1)\<lparr>width := width a, neg := False\<rparr>))"
      using False True by (simp only: bn_usub_consttime_def n e w w' Let_def if_False prod.case bool.case)
    have d: "length (ws @ ws') \<le> dmax r1" using V E True by simp
    show ?thesis
    proof (cases "c' = 0")
      case c: True
      then have r: "ret" "r' = (put_words (ws @ ws') r1)\<lparr>width := width a\<rparr>\<lparr>neg := False\<rparr>" using assms(4) u by simp_all
      have "bn_ok r' \<and> bn_words r' = ws @ ws'"
        unfolding r(2) bn_ok_upd by (rule put_words_ok) (use E V d in auto)
      then show ?thesis using E V c r by (simp add: bn_abs_def)
    next
      case c: False
      then have r: "\<not> ret" "r' = put_words (ws @ ws') r1" using assms(4) u by simp_all
      have "uint c' = 1" using V c uint_u64(1) [of c'] by (simp add: uint_le_1)
      moreover have "words_val (ws @ ws') < bn_base ^ width a" using words_val_less [of "ws @ ws'"] V by simp
      ultimately have "bn_abs a < bn_abs b" using V by simp
      moreover have "bn_ok r'" using E d by (auto simp: r put_words_def bn_ok_def)
      ultimately show ?thesis using E r by simp
    qed
  qed
qed

section \<open>Signed numbers\<close>

lemma bn_val_cases: "bn_val bn = bn_abs bn \<and> \<not> neg bn \<or> bn_val bn = - bn_abs bn \<and> neg bn"
  by (simp add: bn_val_def)

lemma BN_uadd_ok:
  assumes "bn_ok r" and "bn_ok a" and "bn_ok b" and "BN_uadd A r a b = (ret, r')"
  shows "bn_ok r' \<and> (ret \<longrightarrow> bn_minimal r' \<and> bn_abs r' = bn_abs a + bn_abs b \<and> neg r' = (neg r \<and> bn_abs r' \<noteq> 0))"
proof -
  obtain ok s where u: "bn_uadd_consttime A r a b = (ok, s)" by fastforce
  note U = bn_uadd_consttime_ok [OF assms(1-3) u]
  show ?thesis using assms(4) u U bn_set_minimal_width_ok [of s]
    by (cases ok) (auto simp: BN_uadd_def bn_minimal_def)
qed

lemma BN_usub_ok:
  assumes "bn_ok r" and "bn_ok a" and "bn_ok b" and "BN_usub A r a b = (ret, r')"
  shows "bn_ok r' \<and> (ret \<longrightarrow> bn_minimal r' \<and> bn_abs r' = bn_abs a - bn_abs b \<and> \<not> neg r')"
proof -
  obtain ok s where u: "bn_usub_consttime A r a b = (ok, s)" by fastforce
  note U = bn_usub_consttime_ok [OF assms(1-3) u]
  show ?thesis using assms(4) u U bn_set_minimal_width_ok [of s]
    by (cases ok) (auto simp: BN_usub_def bn_minimal_def)
qed


text \<open>A negative zero is no result of a computation.\<close>

definition bn_signed :: "BIGNUM \<Rightarrow> bool" where
  "bn_signed bn \<longleftrightarrow> bn_ok bn \<and> (neg bn \<longrightarrow> bn_abs bn \<noteq> 0)"

lemma bn_minimal_neg: "bn_minimal r \<Longrightarrow> s \<longrightarrow> bn_abs r \<noteq> 0 \<Longrightarrow> bn_minimal (r\<lparr>neg := s\<rparr>)"
  by (cases "width r = 0") (auto simp: bn_minimal_def bn_abs_def bn_words_def)

lemma bn_minimal_signed:
  assumes "bn_minimal r"
  shows "bn_signed r"
proof -
  have ok: "bn_ok r" using assms by (simp add: bn_minimal_def)
  have "bn_abs r \<noteq> 0" if w: "width r \<noteq> 0"
  proof -
    obtain k where k: "width r = Suc k" using w not0_implies_Suc by blast
    then have "bn_minimal_width r = width r" using assms by (simp add: bn_minimal_def bn_minimal_width_def)
    then show ?thesis using w bn_minimal_width_0 [OF ok] by simp
  qed
  then show ?thesis using assms by (auto simp: bn_signed_def bn_minimal_def)
qed

text \<open>The difference of absolute values with its sign, as \<open>BN_add\<close> and \<open>BN_sub\<close> compute it.\<close>

definition bn_diff :: "alloc \<Rightarrow> BIGNUM \<Rightarrow> BIGNUM \<Rightarrow> BIGNUM \<Rightarrow> bool \<times> BIGNUM" where
  "bn_diff A r a b =
     (if BN_ucmp a b < 0
      then (case BN_usub A r b a of (False, r) \<Rightarrow> (False, r) | (True, r) \<Rightarrow> (True, r\<lparr>neg := True\<rparr>))
      else (case BN_usub A r a b of (False, r) \<Rightarrow> (False, r) | (True, r) \<Rightarrow> (True, r\<lparr>neg := False\<rparr>)))"

lemma bn_diff_ok:
  assumes "bn_ok r" and "bn_ok a" and "bn_ok b" and "bn_diff A r a b = (ret, r')"
  shows "bn_ok r' \<and> (ret \<longrightarrow> bn_minimal r' \<and> bn_val r' = bn_abs a - bn_abs b)"
proof (cases "bn_abs a < bn_abs b")
  case True
  obtain ok s where u: "BN_usub A r b a = (ok, s)" by fastforce
  note U = BN_usub_ok [OF assms(1,3,2) u]
  have "BN_ucmp a b < 0" using True by (simp add: BN_ucmp_ok sgn_if)
  then have "bn_diff A r a b = (if ok then (True, s\<lparr>neg := True\<rparr>) else (False, s))" using u by (simp add: bn_diff_def split: bool.split)
  then show ?thesis using assms(4) U True bn_minimal_neg [of s True] by (auto simp: bn_val_def split: if_splits)
next
  case False
  obtain ok s where u: "BN_usub A r a b = (ok, s)" by fastforce
  note U = BN_usub_ok [OF assms(1-3) u]
  have "\<not> BN_ucmp a b < 0" using False by (simp add: BN_ucmp_ok sgn_if)
  then have "bn_diff A r a b = (if ok then (True, s\<lparr>neg := False\<rparr>) else (False, s))" using u by (simp add: bn_diff_def split: bool.split)
  then show ?thesis using assms(4) U bn_minimal_neg [of s False] by (auto simp: bn_val_def split: if_splits)
qed

lemma BN_add_diff: "BN_add A r a b =
    (if neg a \<noteq> neg b then (if neg a then bn_diff A r b a else bn_diff A r a b)
     else (case BN_uadd A r a b of (ret, r) \<Rightarrow> (ret, r\<lparr>neg := neg a\<rparr>)))"
  by (simp add: BN_add_def bn_diff_def Let_def)

lemma BN_sub_diff: "BN_sub A r a b =
    (if neg a = neg b then (if neg a then bn_diff A r b a else bn_diff A r a b)
     else (case BN_uadd A r a b of (False, r) \<Rightarrow> (False, r) | (True, r) \<Rightarrow> (True, r\<lparr>neg := neg a\<rparr>)))"
  by (cases "neg a"; cases "neg b") (simp_all add: BN_sub_def bn_diff_def Let_def split: prod.split bool.split)

lemma BN_add_ok:
  assumes "bn_ok r" and "bn_signed a" and "bn_signed b" and "BN_add A r a b = (ret, r')"
  shows "bn_ok r' \<and> (ret \<longrightarrow> bn_minimal r' \<and> bn_val r' = bn_val a + bn_val b)"
proof -
  have ok: "bn_ok a" "bn_ok b" using assms(2,3) by (simp_all add: bn_signed_def)
  consider "neg a \<noteq> neg b" "neg a" | "neg a \<noteq> neg b" "\<not> neg a" | "neg a = neg b" by blast
  then show ?thesis
  proof cases
    case 1
    then show ?thesis using bn_diff_ok [OF assms(1) ok(2,1)] assms(4) by (auto simp: BN_add_diff bn_val_def [of a] bn_val_def [of b])
  next
    case 2
    then show ?thesis using bn_diff_ok [OF assms(1) ok] assms(4) by (auto simp: BN_add_diff bn_val_def [of a] bn_val_def [of b])
  next
    case 3
    obtain u s where u: "BN_uadd A r a b = (u, s)" by fastforce
    have r: "ret = u" "r' = s\<lparr>neg := neg a\<rparr>" using assms(4) u 3 by (simp_all add: BN_add_diff)
    have "neg a \<longrightarrow> bn_abs a + bn_abs b \<noteq> 0"
      using assms(2) bn_abs_nonneg [of a] bn_abs_nonneg [of b] by (auto simp: bn_signed_def simp del: bn_abs_nonneg)
    then show ?thesis using BN_uadd_ok [OF assms(1) ok u] bn_minimal_neg [of s "neg a"] 3 by (auto simp: r bn_val_def)
  qed
qed

lemma BN_sub_ok:
  assumes "bn_ok r" and "bn_signed a" and "bn_signed b" and "BN_sub A r a b = (ret, r')"
  shows "bn_ok r' \<and> (ret \<longrightarrow> bn_minimal r' \<and> bn_val r' = bn_val a - bn_val b)"
proof -
  have ok: "bn_ok a" "bn_ok b" using assms(2,3) by (simp_all add: bn_signed_def)
  consider "neg a = neg b" "neg a" | "neg a = neg b" "\<not> neg a" | "neg a \<noteq> neg b" by blast
  then show ?thesis
  proof cases
    case 1
    then show ?thesis using bn_diff_ok [OF assms(1) ok(2,1)] assms(4) by (auto simp: BN_sub_diff bn_val_def [of a] bn_val_def [of b])
  next
    case 2
    then show ?thesis using bn_diff_ok [OF assms(1) ok] assms(4) by (auto simp: BN_sub_diff bn_val_def [of a] bn_val_def [of b])
  next
    case 3
    obtain u s where u: "BN_uadd A r a b = (u, s)" by fastforce
    have r: "ret = u" "r' = (if u then s\<lparr>neg := neg a\<rparr> else s)" using assms(4) u 3 by (cases u, simp_all add: BN_sub_diff)+
    have "neg a \<longrightarrow> bn_abs a + bn_abs b \<noteq> 0"
      using assms(2) bn_abs_nonneg [of a] bn_abs_nonneg [of b] by (auto simp: bn_signed_def simp del: bn_abs_nonneg)
    then show ?thesis using BN_uadd_ok [OF assms(1) ok u] bn_minimal_neg [of s "neg a"] 3 by (auto simp: r bn_val_def)
  qed
qed


text \<open>Only a failed allocation makes them fail.\<close>

definition bn_room :: "alloc \<Rightarrow> BIGNUM \<Rightarrow> bool" where
  "bn_room A r \<longleftrightarrow> (\<forall>m. A m \<noteq> None) \<and> \<not> static_data r"

lemma bn_room_wexpand: "bn_room A r \<Longrightarrow> n \<le> bn_max_words \<Longrightarrow> fst (bn_wexpand A r n)"
  by (rule bn_wexpand_total) (simp add: bn_room_def)

lemma BN_uadd_total:
  assumes "bn_room A r" and "width a < bn_max_words" and "width b < bn_max_words"
  shows "fst (BN_uadd A r a b)"
proof -
  have "fst (bn_uadd_consttime A r a b)"
    using bn_room_wexpand [OF assms(1), of "width a + 1"] bn_room_wexpand [OF assms(1), of "width b + 1"] assms(2,3)
    by (auto simp: bn_uadd_consttime_def Let_def split: prod.split bool.split)
  then show ?thesis by (auto simp: BN_uadd_def split: prod.split bool.split)
qed

lemma BN_usub_total:
  assumes "bn_room A r" and "bn_ok r" and "bn_ok a" and "bn_ok b" and "bn_abs b \<le> bn_abs a"
  shows "fst (BN_usub A r a b)"
proof -
  obtain ret s where u: "bn_usub_consttime A r a b = (ret, s)" by fastforce
  have "fst (bn_wexpand A r (width a))" using bn_room_wexpand [OF assms(1)] assms(3) by (simp add: bn_ok_def)
  then have ret using bn_usub_consttime_ok [OF assms(2-4) u] assms(5) by auto
  then show ?thesis using u by (simp add: BN_usub_def)
qed

lemma bn_diff_total:
  assumes "bn_room A r" and "bn_ok r" and "bn_ok a" and "bn_ok b"
  shows "fst (bn_diff A r a b)"
  using BN_usub_total [OF assms(1,2,4,3)] BN_usub_total [OF assms]
  by (cases "bn_abs a < bn_abs b") (auto simp: bn_diff_def BN_ucmp_ok sgn_if split: prod.split bool.split)

lemma BN_add_sub_total:
  assumes "bn_room A r" and "bn_ok r" and "bn_ok a" and "bn_ok b" and "width a < bn_max_words" and "width b < bn_max_words"
  shows "fst (BN_add A r a b)" "fst (BN_sub A r a b)"
  using bn_diff_total [OF assms(1-4)] bn_diff_total [OF assms(1,2,4,3)] BN_uadd_total [OF assms(1,5,6)]
  by (auto simp: BN_add_diff BN_sub_diff split: prod.split bool.split)

section \<open>Words\<close>

lemma BN_set_word_ok:
  assumes "bn_ok a" and "BN_set_word A a v = (ret, r)"
  shows "bn_ok r \<and> (ret \<longrightarrow> bn_minimal r \<and> bn_val r = uint v \<and> \<not> neg r \<and> static_data r = static_data a)"
proof (cases "v = 0")
  case True
  then show ?thesis using assms
    by (auto simp: BN_set_word_def BN_zero_def bn_ok_def bn_minimal_def bn_val_def bn_abs_def bn_words_def)
next
  case False
  obtain ok s where e: "bn_wexpand A a 1 = (ok, s)" by fastforce
  note E = bn_wexpand_ok [OF assms(1) e]
  show ?thesis
  proof (cases ok)
    case True
    then have r: "ret" "r = (put_words [v] s)\<lparr>neg := False, width := 1\<rparr>" using assms(2) False e by (simp_all add: BN_set_word_def)
    show ?thesis using E True False
      by (auto simp: r bn_minimal_def bn_ok_def put_words_def bn_val_def bn_abs_def bn_words_def)
  qed (use assms(2) False e E in \<open>auto simp: BN_set_word_def\<close>)
qed

lemma add_word_loop_ok:
  assumes "add_word_loop a w = (ws, w')"
  shows "words_val ws + bn_base ^ length a * uint w' = words_val a + uint w \<and> length ws = length a"
  using assms
proof (induction a arbitrary: w ws w')
  case (Cons x a)
  show ?case
  proof (cases "w = 0")
    case True
    then show ?thesis using Cons.prems by simp
  next
    case False
    define d where "d = (if w > x + w then 1 else 0 :: BN_ULONG)"
    obtain vs where vs: "add_word_loop a d = (vs, w')" "ws = (x + w) # vs"
      using Cons.prems False by (auto simp: Let_def d_def split: prod.splits)
    have "uint (x + w) + bn_base * uint d = uint x + uint w" unfolding d_def by (rule uint_add_carry)
    then show ?thesis using Cons.IH [OF vs(1)] by (simp add: vs(2) algebra_simps)
  qed
qed simp

lemma sub_word_loop_ok:
  assumes "uint w \<le> words_val a" and "a \<noteq> []"
  shows "\<exists>ws i. sub_word_loop a w = Some (ws, i) \<and> words_val ws = words_val a - uint w \<and> length ws = length a \<and> i < length a"
  using assms
proof (induction a arbitrary: w)
  case (Cons x a)
  show ?case
  proof (cases "x \<ge> w")
    case True
    then have "uint (x - w) = uint x - uint w" by (simp add: uint_minus_u64 word_le_def)
    then show ?thesis using True by simp
  next
    case False
    then have u: "uint (x - w) = uint x - uint w + bn_base" by (simp add: uint_minus_u64 word_le_def)
    have nz: "words_val a \<noteq> 0" using Cons.prems False by (auto simp: word_le_def)
    then have "uint (1 :: BN_ULONG) \<le> words_val a" "a \<noteq> []" using words_val_nonneg [of a] by (auto simp del: words_val_nonneg)
    then obtain vs i where "sub_word_loop a 1 = Some (vs, i)" "words_val vs = words_val a - 1" "length vs = length a" "i < length a"
      using Cons.IH [of 1] by auto
    then show ?thesis using False u by simp
  qed
qed simp


lemma bn_words_nonneg_val: "\<not> neg a \<Longrightarrow> bn_val a = words_val (bn_words a)"
  by (simp add: bn_val_def bn_abs_def)

lemma put_words_same:
  assumes "bn_ok a" and "length ws = width a"
  shows "bn_ok (put_words ws a) \<and> bn_words (put_words ws a) = ws"
  using put_words_ok [OF assms(1) _ assms(2)] assms by (simp add: bn_ok_def put_words_def bn_words_def)

lemma BN_add_word_pos:
  assumes "bn_ok a" and "\<not> neg a"
  shows "\<exists>ret r. BN_add_word A a w = Some (ret, r) \<and> bn_ok r \<and> \<not> neg r \<and> (ret \<longrightarrow> bn_val r = bn_val a + uint w)"
proof -
  consider "w = 0" | "w \<noteq> 0" "BN_is_zero a" | "w \<noteq> 0" "\<not> BN_is_zero a" by blast
  then show ?thesis
  proof cases
    case 1
    then show ?thesis using assms by (auto simp: BN_add_word.simps)
  next
    case 2
    obtain ret r where r: "BN_set_word A a w = (ret, r)" by fastforce
    have "neg r = neg a \<or> \<not> neg r" using r 2
      by (auto simp: BN_set_word_def bn_wexpand_def split: if_splits option.splits)
    moreover have "bn_val a = 0" using 2(2) BN_is_zero_eq [OF assms(1)] by (simp add: bn_val_def)
    ultimately show ?thesis using 2 r BN_set_word_ok [OF assms(1) r] assms(2) by (subst BN_add_word.simps) auto
  next
    case 3
    obtain ws w' where l: "add_word_loop (bn_words a) w = (ws, w')" by fastforce
    note L = add_word_loop_ok [OF l]
    define b where "b = put_words ws a"
    have b: "bn_ok b" "bn_words b = ws" "width b = width a" "\<not> neg b" "length ws = width a"
      using put_words_same [OF assms(1), of ws] L assms by (simp_all add: b_def)
    obtain ok s where e: "bn_wexpand A b (width a + 1) = (ok, s)" by fastforce
    note E = bn_wexpand_ok [OF b(1) e]
    have u: "BN_add_word A a w = (if w' \<noteq> 0 then
        (if ok then Some (True, s\<lparr>width := width s + 1, bn_d := (bn_d s)[width s := w']\<rparr>) else Some (False, s))
        else Some (True, b))"
      using 3 assms(2) l e by (subst BN_add_word.simps) (auto simp: Let_def bn_words_def [symmetric] b_def)
    show ?thesis
    proof (cases "w' = 0")
      case True
      then show ?thesis using u b L assms(1) by (auto simp: bn_words_nonneg_val assms(2))
    next
      case False
      define t where "t = s\<lparr>width := width s + 1, bn_d := (bn_d s)[width s := w']\<rparr>"
      show ?thesis
      proof (cases ok)
        case True
        have d: "width a < length (bn_d s)" "width s = width a" "take (width a) (bn_d s) = ws"
          using E b True by (auto simp: bn_words_def)
        then have "bn_words t = ws @ [w']" by (simp add: t_def bn_words_def take_Suc_conv_app_nth)
        moreover have "bn_ok t" using E d True by (simp add: t_def bn_ok_def)
        moreover have "\<not> neg t" using E b by (simp add: t_def)
        moreover have "BN_add_word A a w = Some (True, t)" using u False True by (simp add: t_def)
        moreover have "bn_val t = bn_val a + uint w" if "bn_words t = ws @ [w']" "\<not> neg t"
          using L b(5) assms that by (simp add: bn_words_nonneg_val words_val_append)
        ultimately show ?thesis by blast
      next
        case no: False
        then show ?thesis using u False E b by auto
      qed
    qed
  qed
qed

lemma bn_minimal_width_1:
  assumes "bn_ok a" and "bn_minimal_width a = 1"
  shows "bn_abs a = uint (bn_d a ! 0) \<and> 1 \<le> width a \<and> 0 < length (bn_d a)"
proof -
  have w: "1 \<le> width a" using bn_minimal_width_le [of a] assms(2) by simp
  then have len: "0 < length (bn_d a)" using assms(1) unfolding bn_ok_def by linarith
  then have "take 1 (bn_d a) = [bn_d a ! 0]" by (cases "bn_d a") simp_all
  then show ?thesis using bn_minimal_width_val [OF assms(1)] assms(2) w len by simp
qed

lemma BN_sub_word_pos:
  assumes "bn_ok a" and "\<not> neg a"
  shows "\<exists>ret r. BN_sub_word A a w = Some (ret, r) \<and> bn_ok r \<and> (ret \<longrightarrow> bn_signed r \<and> bn_val r = bn_val a - uint w)"
proof -
  have w0: "uint w \<noteq> 0" if "w \<noteq> 0" using that by (simp add: unsigned_eq_0_iff)
  have abs: "bn_val a = bn_abs a" using assms(2) by (simp add: bn_val_def)
  consider "w = 0" | "w \<noteq> 0" "BN_is_zero a" | "w \<noteq> 0" "\<not> BN_is_zero a" "bn_minimal_width a = 1 \<and> bn_d a ! 0 < w"
    | "w \<noteq> 0" "\<not> BN_is_zero a" "\<not> (bn_minimal_width a = 1 \<and> bn_d a ! 0 < w)" by blast
  then show ?thesis
  proof cases
    case 1
    then show ?thesis using assms by (auto simp: BN_sub_word.simps bn_signed_def)
  next
    case 2
    obtain ret r where r: "BN_set_word A a w = (ret, r)" by fastforce
    note R = BN_set_word_ok [OF assms(1) r]
    have nz: "ret \<longrightarrow> bn_abs r \<noteq> 0" using R w0 [OF 2(1)] by (auto simp: bn_val_def)
    have "bn_val a = 0" using 2(2) BN_is_zero_eq [OF assms(1)] by (simp add: bn_val_def)
    moreover have "BN_sub_word A a w = Some (ret, if ret then r\<lparr>neg := True\<rparr> else r)"
      using 2 r nz BN_is_zero_eq [of r] R by (subst BN_sub_word.simps) (auto simp: BN_set_negative_def)
    ultimately show ?thesis using R nz by (auto simp: bn_signed_def bn_val_def)
  next
    case 3
    define r where "r = a\<lparr>bn_d := (bn_d a)[0 := w - bn_d a ! 0], neg := True\<rparr>"
    have m: "bn_minimal_width a = 1" "bn_d a ! 0 < w" using 3 by simp_all
    note one = bn_minimal_width_1 [OF assms(1) m(1)]
    then have wd: "1 \<le> width a" and len: "0 < length (bn_d a)" and a: "bn_abs a = uint (bn_d a ! 0)" by simp_all
    have z: "words_val (drop 1 (bn_words a)) = 0"
      using words_val_split [of 1 "bn_words a"] a wd assms(1) len
      by (simp add: bn_abs_def bn_words_def take_Suc_conv_app_nth min_def)
    have rw: "bn_words r = (w - bn_d a ! 0) # drop 1 (bn_words a)"
      using wd len by (cases "bn_d a"; cases "width a") (simp_all add: r_def bn_words_def)
    have "uint (w - bn_d a ! 0) = uint w - uint (bn_d a ! 0)" using m(2) by (simp add: uint_minus_u64 word_less_def)
    then have ra: "bn_abs r = uint w - bn_abs a" using z a by (simp add: bn_abs_def rw)
    have "bn_ok r" using assms(1) by (simp add: r_def bn_ok_def)
    moreover have "BN_sub_word A a w = Some (True, r)" using 3 assms(2) by (subst BN_sub_word.simps) (simp add: r_def)
    moreover have "bn_abs r \<noteq> 0" using ra a m(2) by (simp add: word_less_def)
    moreover have "neg r" by (simp add: r_def)
    ultimately show ?thesis using ra abs by (auto simp: bn_signed_def bn_val_def [of r])
  next
    case 4
    have ge: "uint w \<le> bn_abs a"
    proof (cases "bn_minimal_width a = 1")
      case True
      then have "\<not> bn_d a ! 0 < w" using 4 by simp
      moreover have "bn_abs a = uint (bn_d a ! 0)" using bn_minimal_width_1 [OF assms(1) True] by simp
      ultimately show ?thesis by (simp add: word_less_def)
    next
      case False
      have "bn_minimal_width a \<noteq> 0" using bn_minimal_width_0 [OF assms(1)] 4(2) BN_is_zero_eq [OF assms(1)] by simp
      then have "bn_base ^ 1 \<le> bn_base ^ (bn_minimal_width a - 1)" using False by (intro power_increasing) auto
      then have "bn_base \<le> bn_base ^ (bn_minimal_width a - 1)" by (simp only: power_one_right)
      then show ?thesis using bn_minimal_width_bounds [OF assms(1)] uint_u64(2) [of w] \<open>bn_minimal_width a \<noteq> 0\<close> by linarith
    qed
    have ne: "bn_words a \<noteq> []" using 4(2) BN_is_zero_eq [OF assms(1)] by (auto simp: bn_abs_def)
    obtain ws i where l: "sub_word_loop (bn_words a) w = Some (ws, i)" "words_val ws = bn_abs a - uint w"
      "length ws = width a" "i < width a"
      using sub_word_loop_ok [OF ge [unfolded bn_abs_def] ne] assms(1) by (auto simp: bn_abs_def)
    define b where "b = put_words ws a"
    have b: "bn_ok b" "bn_words b = ws" "width b = width a" "\<not> neg b"
      using put_words_same [OF assms(1) l(3)] assms by (simp_all add: b_def)
    define r where "r = (if bn_d b ! i = 0 \<and> i = width b - 1 then b\<lparr>width := width b - 1\<rparr> else b)"
    have run: "BN_sub_word A a w = Some (True, r)"
      using 4 assms(2) l(1) by (subst BN_sub_word.simps) (auto simp: r_def b_def Let_def bn_words_def [symmetric])
    have "bn_abs r = words_val ws"
    proof (cases "bn_d b ! i = 0 \<and> i = width b - 1")
      case True
      then have w: "width b = Suc i" "i < length (bn_d b)" using l(4) b(1,3) by (auto simp: bn_ok_def)
      then have "take (Suc i) (bn_d b) = take i (bn_d b) @ [0]" using take_Suc_conv_app_nth [OF w(2)] conjunct1 [OF True] by (simp only:)
      then have "ws = take i (bn_d b) @ [0]" using b(2) w(1) unfolding bn_words_def by (simp only:)
      moreover have "r = b\<lparr>width := width b - 1\<rparr>" unfolding r_def by (rule if_P [OF True])
      then have "r = b\<lparr>width := i\<rparr>" using w(1) by (simp only: diff_Suc_1)
      then have "bn_abs r = words_val (take i (bn_d b))" by (simp add: bn_abs_def bn_words_def)
      ultimately show ?thesis by (simp add: words_val_append)
    qed (use b in \<open>auto simp: r_def bn_abs_def\<close>)
    moreover have "bn_ok r" "\<not> neg r" using b by (auto simp: r_def bn_ok_def)
    ultimately show ?thesis using run l(2) abs by (auto simp: bn_signed_def bn_val_def [of r])
  qed
qed


lemma BN_add_word_ok:
  assumes "bn_signed a"
  shows "\<exists>ret r. BN_add_word A a w = Some (ret, r) \<and> bn_ok r \<and> (ret \<longrightarrow> bn_signed r \<and> bn_val r = bn_val a + uint w)"
proof -
  have ok: "bn_ok a" using assms by (simp add: bn_signed_def)
  consider "w = 0" | "w \<noteq> 0" "neg a" | "\<not> neg a" by blast
  then show ?thesis
  proof cases
    case 1
    then show ?thesis using assms ok by (auto simp: BN_add_word.simps)
  next
    case 3
    then show ?thesis using BN_add_word_pos [OF ok 3, of A w] by (auto simp: bn_signed_def)
  next
    case 2
    define b where "b = a\<lparr>neg := False\<rparr>"
    have b: "bn_ok b" "\<not> neg b" "bn_val b = - bn_val a" using ok 2 by (simp_all add: b_def bn_val_def)
    obtain ret r where r: "BN_sub_word A b w = Some (ret, r)" "bn_ok r" "ret \<longrightarrow> bn_signed r \<and> bn_val r = bn_val b - uint w"
      using BN_sub_word_pos [OF b(1,2), of A w] by blast
    have nz: "\<not> BN_is_zero a" using assms 2 BN_is_zero_eq [OF ok] by (simp add: bn_signed_def)
    have run: "BN_add_word A a w = Some (ret, if \<not> BN_is_zero r then r\<lparr>neg := \<not> neg r\<rparr> else r)"
      using 2 nz r(1) by (subst BN_add_word.simps) (simp add: b_def)
    show ?thesis
    proof (cases "bn_abs r = 0")
      case True
      then have "bn_val r = 0" by (simp add: bn_val_def)
      then show ?thesis using True run r b BN_is_zero_eq [OF r(2)] by auto
    next
      case False
      then show ?thesis using run r b BN_is_zero_eq [OF r(2)] by (auto simp: bn_val_def [of r] bn_val_def [of "r\<lparr>neg := _\<rparr>"] bn_signed_def)
    qed
  qed
qed

lemma BN_sub_word_ok:
  assumes "bn_signed a"
  shows "\<exists>ret r. BN_sub_word A a w = Some (ret, r) \<and> bn_ok r \<and> (ret \<longrightarrow> bn_signed r \<and> bn_val r = bn_val a - uint w)"
proof -
  have ok: "bn_ok a" using assms by (simp add: bn_signed_def)
  consider "w = 0" | "w \<noteq> 0" "neg a" | "\<not> neg a" by blast
  then show ?thesis
  proof cases
    case 1
    then show ?thesis using assms ok by (auto simp: BN_sub_word.simps)
  next
    case 3
    then show ?thesis by (rule BN_sub_word_pos [OF ok])
  next
    case 2
    define b where "b = a\<lparr>neg := False\<rparr>"
    have b: "bn_ok b" "\<not> neg b" "bn_val b = - bn_val a" using ok 2 by (simp_all add: b_def bn_val_def)
    obtain ret r where r: "BN_add_word A b w = Some (ret, r)" "bn_ok r" "\<not> neg r" "ret \<longrightarrow> bn_val r = bn_val b + uint w"
      using BN_add_word_pos [OF b(1,2), of A w] by blast
    have nz: "\<not> BN_is_zero a" using assms 2 BN_is_zero_eq [OF ok] by (simp add: bn_signed_def)
    have run: "BN_sub_word A a w = Some (ret, r\<lparr>neg := True\<rparr>)"
      using 2 nz r(1) by (subst BN_sub_word.simps) (simp add: b_def)
    have "bn_abs r \<noteq> 0" if "ret"
    proof -
      have "uint w \<noteq> 0" using 2(1) by (simp add: unsigned_eq_0_iff)
      moreover have "bn_abs r = bn_val b + uint w" using r(3,4) that by (simp add: bn_val_def)
      moreover have "0 \<le> bn_val b" using b(2) by (simp add: bn_val_def)
      moreover have "0 \<le> uint w" by simp
      ultimately show ?thesis by linarith
    qed
    then show ?thesis using run r b by (auto simp: bn_signed_def bn_val_def [of r] bn_val_def [of "r\<lparr>neg := _\<rparr>"])
  qed
qed

end
