(* ===== verification/Bn_Shift.thy ===== *)
theory Bn_Shift
  imports Bn_Add
begin

text \<open>
  Shifts and single bits of big numbers (\<open>crypto/fipsmodule/bn/shift.c\<close>) and the theorems that they are
  multiplication and division by powers of two. A C \<open>int\<close> argument is an \<open>int\<close>, negative ones are
  refused.
\<close>

section \<open>Code\<close>

text \<open>The loop of \<open>BN_lshift\<close> from the top word of \<open>f\<close> down, for a shift by \<open>nw\<close> words and \<open>lb\<close> bits.\<close>

fun lshift_loop :: "BN_ULONG list \<Rightarrow> nat \<Rightarrow> nat \<Rightarrow> nat \<Rightarrow> BN_ULONG list \<Rightarrow> BN_ULONG list" where
  "lshift_loop f nw lb 0 t = t"
| "lshift_loop f nw lb (Suc i) t =
     (let l = f ! i;
          t = t[nw + i + 1 := t ! (nw + i + 1) OR drop_bit (64 - lb) l];
          t = t[nw + i := push_bit lb l]
      in lshift_loop f nw lb i t)"

definition BN_lshift :: "alloc \<Rightarrow> BIGNUM \<Rightarrow> BIGNUM \<Rightarrow> int \<Rightarrow> bool \<times> BIGNUM" where
  "BN_lshift A r a n =
     (if n < 0 then (False, r)
      else
        (let r = r\<lparr>neg := neg a\<rparr>;
             nw = nat n div 64
         in case bn_wexpand A r (width a + nw + 1) of
              (False, r) \<Rightarrow> (False, r)
            | (True, r) \<Rightarrow>
                (let lb = nat n mod 64;
                     f = bn_d a;
                     t = (bn_d r)[width a + nw := 0];
                     t = (if lb = 0 then take nw t @ take (width a) f @ drop (nw + width a) t
                          else lshift_loop f nw lb (width a) t);
                     t = replicate nw 0 @ drop nw t
                 in (True, bn_set_minimal_width (r\<lparr>bn_d := t, width := width a + nw + 1\<rparr>)))))"

fun lshift1_loop :: "BN_ULONG list \<Rightarrow> BN_ULONG \<Rightarrow> BN_ULONG list \<times> BN_ULONG" where
  "lshift1_loop [] c = ([], c)"
| "lshift1_loop (t # a) c = (case lshift1_loop a (drop_bit 63 t) of (ws, c') \<Rightarrow> ((push_bit 1 t OR c) # ws, c'))"

definition BN_lshift1 :: "alloc \<Rightarrow> BIGNUM \<Rightarrow> BIGNUM \<Rightarrow> bool \<times> BIGNUM" where
  "BN_lshift1 A r a =
     (let r = r\<lparr>neg := neg a\<rparr>
      in case bn_wexpand A r (width a + 1) of
           (False, r) \<Rightarrow> (False, r)
         | (True, r) \<Rightarrow>
             (let (ws, c) = lshift1_loop (take (width a) (bn_d a)) 0
              in (True, if c \<noteq> 0 then (put_words (ws @ [1]) r)\<lparr>width := width a + 1\<rparr>
                        else (put_words ws r)\<lparr>width := width a\<rparr>)))"

definition bn_rshift_words :: "BN_ULONG list \<Rightarrow> nat \<Rightarrow> nat \<Rightarrow> BN_ULONG list" where
  "bn_rshift_words a shift n =
     (let shift_bits = shift mod 64;
          shift_words = shift div 64
      in if shift_words \<ge> n then replicate n 0
         else (if shift_bits = 0 then take (n - shift_words) (drop shift_words a)
               else map (\<lambda>i. drop_bit shift_bits (a ! i) OR push_bit (64 - shift_bits) (a ! (i + 1))) [shift_words..<n - 1]
                    @ [drop_bit shift_bits (a ! (n - 1))])
              @ replicate shift_words 0)"

definition BN_rshift :: "alloc \<Rightarrow> BIGNUM \<Rightarrow> BIGNUM \<Rightarrow> int \<Rightarrow> bool \<times> BIGNUM" where
  "BN_rshift A r a n =
     (if n < 0 then (False, r)
      else
        (case bn_wexpand A r (width a) of
           (False, r) \<Rightarrow> (False, r)
         | (True, r) \<Rightarrow>
             (True, bn_set_minimal_width
                ((put_words (bn_rshift_words (bn_d a) (nat n) (width a)) r)\<lparr>width := width a, neg := neg a\<rparr>))))"

text \<open>The shift by a secret distance: one conditional shift per bit of the distance below the length of
  \<open>max_bits\<close>. The temporary number of the \<open>BN_CTX\<close> is \<open>tmp\<close>, a null pointer if there is none.\<close>

function secret_shift_loop :: "nat \<Rightarrow> nat \<Rightarrow> nat \<Rightarrow> nat \<Rightarrow> BN_ULONG list \<Rightarrow> BN_ULONG list" where
  "secret_shift_loop max_bits n w i d =
     (if drop_bit i max_bits \<noteq> 0 then
        (let m = 0 - (of_nat (drop_bit i n) AND 1);
             tmp = bn_rshift_words d (2 ^ i) w
         in secret_shift_loop max_bits n w (i + 1) (bn_select_words m tmp d w))
      else d)"
  by pat_completeness auto

termination
proof (relation "measure (\<lambda>(max_bits, n, w, i, d). max_bits - i)")
  fix max_bits n w i :: nat and d m tmp :: "BN_ULONG list"
  assume "drop_bit i max_bits \<noteq> 0"
  then have "i < max_bits"
    by (metis drop_bit_eq_div div_less less_exp not_less order_le_less_trans)
  then show "((max_bits, n, w, i + 1, d), (max_bits, n, w, i, tmp)) \<in> measure (\<lambda>(max_bits, n, w, i, d). max_bits - i)"
    by simp
qed simp

declare secret_shift_loop.simps [simp del]

definition bn_rshift_secret_shift :: "alloc \<Rightarrow> BIGNUM option \<Rightarrow> BIGNUM \<Rightarrow> BIGNUM \<Rightarrow> nat \<Rightarrow> bool \<times> BIGNUM" where
  "bn_rshift_secret_shift A tmp r a n =
     (case tmp of
        None \<Rightarrow> (False, r)
      | Some tmp \<Rightarrow>
          (case BN_copy A r a of
             (False, r) \<Rightarrow> (False, r)
           | (True, r) \<Rightarrow>
               (case bn_wexpand A tmp (width r) of
                  (False, _) \<Rightarrow> (False, r)
                | (True, _) \<Rightarrow>
                    (True, put_words (secret_shift_loop (64 * width r) n (width r) 0 (take (width r) (bn_d r))) r))))"

definition bn_rshift1_words :: "BN_ULONG list \<Rightarrow> nat \<Rightarrow> BN_ULONG list" where
  "bn_rshift1_words a n =
     (if n = 0 then []
      else map (\<lambda>i. drop_bit 1 (a ! i) OR push_bit 63 (a ! (i + 1))) [0..<n - 1] @ [drop_bit 1 (a ! (n - 1))])"

definition BN_rshift1 :: "alloc \<Rightarrow> BIGNUM \<Rightarrow> BIGNUM \<Rightarrow> bool \<times> BIGNUM" where
  "BN_rshift1 A r a =
     (case bn_wexpand A r (width a) of
        (False, r) \<Rightarrow> (False, r)
      | (True, r) \<Rightarrow>
          (True, bn_set_minimal_width ((put_words (bn_rshift1_words (bn_d a) (width a)) r)\<lparr>width := width a, neg := neg a\<rparr>)))"

section \<open>Single bits\<close>

definition BN_set_bit :: "alloc \<Rightarrow> BIGNUM \<Rightarrow> int \<Rightarrow> bool \<times> BIGNUM" where
  "BN_set_bit A a n =
     (if n < 0 then (False, a)
      else
        (let i = nat n div 64; j = nat n mod 64;
             (ok, a) = (if width a \<le> i then
                          (case bn_wexpand A a (i + 1) of
                             (False, a) \<Rightarrow> (False, a)
                           | (True, a) \<Rightarrow>
                               (True, a\<lparr>bn_d := take (width a) (bn_d a) @ replicate (i + 1 - width a) 0 @ drop (i + 1) (bn_d a),
                                        width := i + 1\<rparr>))
                        else (True, a))
         in if ok then (True, a\<lparr>bn_d := (bn_d a)[i := bn_d a ! i OR push_bit j 1]\<rparr>) else (False, a)))"

definition BN_clear_bit :: "BIGNUM \<Rightarrow> int \<Rightarrow> bool \<times> BIGNUM" where
  "BN_clear_bit a n =
     (if n < 0 then (False, a)
      else
        (let i = nat n div 64; j = nat n mod 64
         in if width a \<le> i then (False, a)
            else (True, bn_set_minimal_width (a\<lparr>bn_d := (bn_d a)[i := bn_d a ! i AND NOT (push_bit j 1)]\<rparr>))))"

definition bn_is_bit_set_words :: "BN_ULONG list \<Rightarrow> nat \<Rightarrow> nat \<Rightarrow> bool" where
  "bn_is_bit_set_words a n b =
     (let i = b div 64; j = b mod 64 in if i \<ge> n then False else drop_bit j (a ! i) AND 1 \<noteq> 0)"

definition BN_is_bit_set :: "BIGNUM \<Rightarrow> int \<Rightarrow> bool" where
  "BN_is_bit_set a n = (if n < 0 then False else bn_is_bit_set_words (bn_d a) (width a) (nat n))"

definition BN_mask_bits :: "BIGNUM \<Rightarrow> int \<Rightarrow> bool \<times> BIGNUM" where
  "BN_mask_bits a n =
     (if n < 0 then (False, a)
      else
        (let w = nat n div 64; b = nat n mod 64
         in if w \<ge> width a then (True, a)
            else (True, bn_set_minimal_width
                    (if b = 0 then a\<lparr>width := w\<rparr>
                     else a\<lparr>width := w + 1, bn_d := (bn_d a)[w := bn_d a ! w AND NOT (push_bit b (- 1))]\<rparr>))))"

text \<open>A block of \<open>bn_count_low_zero_bits_word\<close>: \<open>k\<close> more bits are counted if the low \<open>k\<close> bits are zero.\<close>

definition low_zero_block :: "nat \<Rightarrow> nat \<times> BN_ULONG \<Rightarrow> nat \<times> BN_ULONG" where
  "low_zero_block k s =
     (case s of (bits, l) \<Rightarrow>
        (let m = constant_time_is_zero_w (push_bit (64 - k) l)
         in (bits + unat (of_nat k AND m), constant_time_select_w m (drop_bit k l) l)))"

definition bn_count_low_zero_bits_word :: "BN_ULONG \<Rightarrow> nat" where
  "bn_count_low_zero_bits_word l =
     fst (low_zero_block 1 (low_zero_block 2 (low_zero_block 4 (low_zero_block 8 (low_zero_block 16
       (low_zero_block 32 (0, l)))))))"

text \<open>The loop of \<open>BN_count_low_zero_bits\<close> with the masks \<open>saw_nonzero\<close> and \<open>ret\<close>.\<close>

fun count_low_loop :: "BN_ULONG list \<Rightarrow> nat \<Rightarrow> crypto_word_t \<Rightarrow> crypto_word_t \<Rightarrow> crypto_word_t" where
  "count_low_loop [] i saw_nonzero ret = ret"
| "count_low_loop (w # ws) i saw_nonzero ret =
     (let nonzero = NOT (constant_time_is_zero_w w);
          first_nonzero = NOT saw_nonzero AND nonzero;
          bits = bn_count_low_zero_bits_word w
      in count_low_loop ws (i + 1) (saw_nonzero OR nonzero) (ret OR (first_nonzero AND of_nat (i * 64 + bits))))"

definition BN_count_low_zero_bits :: "BIGNUM \<Rightarrow> nat" where
  "BN_count_low_zero_bits bn = unat (count_low_loop (take (width bn) (bn_d bn)) 0 0 0)"


section \<open>Words under shifts\<close>

lemma uint_drop_bit_u64: "uint (drop_bit k w) = uint w div 2 ^ k" for w :: u64
  using arg_cong [OF unat_drop_bit_div [of k w], of int] by (simp add: zdiv_int)

lemma uint_push_bit_u64: "uint (push_bit k w) = uint w * 2 ^ k mod bn_base" for w :: u64
  by (subst unsigned_push_bit_eq) (simp add: take_bit_eq_mod push_bit_eq_mult)

text \<open>A word cut in two at bit \<open>k\<close>.\<close>

lemma two_64: "k \<le> 64 \<Longrightarrow> bn_base = 2 ^ (64 - k) * 2 ^ k"
  by (simp flip: power_add)

lemma push_bit_low:
  fixes w :: u64
  assumes "k \<le> 64"
  shows "uint (push_bit (64 - k) w) = 2 ^ (64 - k) * (uint w mod 2 ^ k)"
  using assms unfolding uint_push_bit_u64 two_64 [OF assms] by (simp add: mult_mod_right mult.commute)

lemma push_bit_drop_bit:
  fixes w :: u64
  assumes "k \<le> 64"
  shows "uint (push_bit k w) + bn_base * uint (drop_bit (64 - k) w) = 2 ^ k * uint w"
proof -
  have k: "64 - (64 - k) = k" using assms by simp
  have "uint (push_bit k w) = 2 ^ k * (uint w mod 2 ^ (64 - k))" using push_bit_low [of "64 - k" w] unfolding k by simp
  moreover have "bn_base = 2 ^ k * 2 ^ (64 - k)" using two_64 [OF assms] by (simp add: mult.commute)
  ultimately have "uint (push_bit k w) + bn_base * uint (drop_bit (64 - k) w)
      = 2 ^ k * (uint w mod 2 ^ (64 - k)) + 2 ^ k * 2 ^ (64 - k) * (uint w div 2 ^ (64 - k))"
    unfolding uint_drop_bit_u64 by (simp only:)
  also have "\<dots> = 2 ^ k * (uint w mod 2 ^ (64 - k) + 2 ^ (64 - k) * (uint w div 2 ^ (64 - k)))"
    by (simp only: distrib_left mult.assoc)
  finally show ?thesis by (simp only: mod_mult_div_eq)
qed

lemma or_disjoint:
  fixes a b :: u64
  assumes "a AND b = 0"
  shows "uint (a OR b) = uint a + uint b"
proof -
  have "uint (a OR b) = uint a OR uint b" by (rule unsigned_or_eq)
  moreover have "uint a AND uint b = 0" using arg_cong [OF assms, of uint] by (simp add: unsigned_and_eq)
  ultimately show ?thesis by (simp add: disjunctive_add_eq_or [symmetric])
qed

lemma drop_push_disjoint:
  fixes x y :: u64
  assumes "0 < k" and "k < 64"
  shows "drop_bit k x AND push_bit (64 - k) y = 0"
  using assms by (intro bit_word_eqI) (auto simp: bit_simps dest: bit_imp_le_length)

lemma push_or_carry:
  fixes t c :: u64
  assumes "uint c \<le> 1"
  shows "uint (push_bit 1 t OR c) + bn_base * uint (drop_bit 63 t) = 2 * uint t + uint c"
proof -
  have "bit (push_bit 1 t AND 1) j \<longleftrightarrow> bit (0 :: u64) j" for j by (simp only: bit_and_iff bit_push_bit_iff bit_1_iff bit_0_eq) auto
  then have "push_bit 1 t AND 1 = 0" by (intro bit_word_eqI)
  then have "push_bit 1 t AND c = 0" using assms unfolding uint_le_1 by auto
  then show ?thesis using or_disjoint [of "push_bit 1 t" c] push_bit_drop_bit [of 1 t] by simp
qed

lemma lshift1_loop_ok:
  assumes "uint c \<le> 1" and "lshift1_loop a c = (ws, c')"
  shows "words_val ws + bn_base ^ length a * uint c' = 2 * words_val a + uint c \<and> uint c' \<le> 1 \<and> length ws = length a"
  using assms
proof (induction a arbitrary: c ws)
  case (Cons t a)
  obtain vs where vs: "lshift1_loop a (drop_bit 63 t) = (vs, c')" "ws = (push_bit 1 t OR c) # vs"
    using Cons.prems(2) by (auto split: prod.splits)
  have "uint (drop_bit 63 t) < 2" unfolding uint_drop_bit_u64 using uint_u64(2) [of t] by (simp add: div_less_iff_less_mult del: uint_u64)
  then have "uint (drop_bit 63 t) \<le> 1" by simp
  then show ?case using Cons.IH [OF _ vs(1)] push_or_carry [OF Cons.prems(1), of t] vs(2) by (simp add: algebra_simps)
qed simp

lemma lshift_loop_ok:
  assumes "0 < lb" and "lb < 64" and "n \<le> length f" and "nw + n < length t" and "uint (t ! (nw + n)) mod 2 ^ lb = 0"
  shows "length (lshift_loop f nw lb n t) = length t
    \<and> words_val (drop nw (lshift_loop f nw lb n t)) = 2 ^ lb * words_val (take n f) + bn_base ^ n * words_val (drop (nw + n) t)"
  using assms(3-5)
proof (induction n arbitrary: t)
  case (Suc i)
  define l where "l = f ! i"
  define t1 where "t1 = t[nw + i + 1 := t ! (nw + i + 1) OR drop_bit (64 - lb) l]"
  define t2 where "t2 = t1[nw + i := push_bit lb l]"
  have len: "nw + i + 1 < length t" using Suc.prems by simp
  have "t ! (nw + i + 1) AND drop_bit (64 - lb) l = 0"
  proof (rule bit_word_eqI)
    fix j
    assume "j < LENGTH(64)"
    have "take_bit lb (uint (t ! (nw + i + 1))) = 0" using Suc.prems(3) by (simp add: take_bit_eq_mod)
    then have low: "\<not> bit (t ! (nw + i + 1)) j" if "j < lb"
      using that bit_take_bit_iff [of lb "uint (t ! (nw + i + 1))" j] by (auto simp: bit_uint_iff dest: bit_imp_le_length)
    have "\<not> bit l (64 - lb + j)" if "\<not> j < lb" using that assms(2) by (auto dest: bit_imp_le_length)
    then show "bit (t ! (nw + i + 1) AND drop_bit (64 - lb) l) j = bit (0 :: u64) j"
      using low by (auto simp: bit_simps)
  qed
  then have or: "uint (t ! (nw + i + 1) OR drop_bit (64 - lb) l) = uint (t ! (nw + i + 1)) + uint (drop_bit (64 - lb) l)"
    by (rule or_disjoint)
  have d: "drop (nw + i) t2 = push_bit lb l # (t ! (nw + i + 1) OR drop_bit (64 - lb) l) # drop (nw + i + 2) t"
    using len by (simp add: t2_def t1_def drop_update_swap Cons_nth_drop_Suc [symmetric, of "nw + i"] Cons_nth_drop_Suc [symmetric, of "Suc (nw + i)"])
  have d1: "drop (nw + Suc i) t = t ! (nw + i + 1) # drop (nw + i + 2) t" using len by (simp add: Cons_nth_drop_Suc)
  have "64 - (64 - lb) = lb" using assms(2) by simp
  then have "uint (push_bit lb l) = 2 ^ lb * (uint l mod 2 ^ (64 - lb))" using push_bit_low [of "64 - lb" l] by simp
  then have "uint (push_bit lb l) mod 2 ^ lb = 0" by simp
  moreover have "t2 ! (nw + i) = push_bit lb l" using len by (simp add: t2_def t1_def)
  ultimately have IH: "length (lshift_loop f nw lb i t2) = length t2"
    "words_val (drop nw (lshift_loop f nw lb i t2)) = 2 ^ lb * words_val (take i f) + bn_base ^ i * words_val (drop (nw + i) t2)"
    using Suc.IH [of t2] Suc.prems by (simp_all add: t2_def t1_def)
  have "lshift_loop f nw lb (Suc i) t = lshift_loop f nw lb i t2" by (simp add: Let_def t2_def t1_def l_def)
  moreover have "words_val (drop (nw + i) t2) = 2 ^ lb * uint l + bn_base * words_val (drop (nw + Suc i) t)"
    using push_bit_drop_bit [of lb l] assms(2) unfolding d d1 words_val.simps or by (simp add: algebra_simps)
  moreover have "words_val (take (Suc i) f) = words_val (take i f) + bn_base ^ i * uint l"
    using Suc.prems(1) by (simp add: take_Suc_conv_app_nth words_val_append l_def)
  ultimately show ?case using IH by (simp add: algebra_simps t2_def t1_def)
qed simp


lemma lshift_loop_append: "nw + n < length t \<Longrightarrow> lshift_loop f nw lb n (t @ u) = lshift_loop f nw lb n t @ u"
  by (induction n arbitrary: t) (simp_all add: Let_def list_update_append nth_append)

text \<open>Shifting right: the words of a number one after the other.\<close>

fun shr_words :: "nat \<Rightarrow> BN_ULONG list \<Rightarrow> BN_ULONG list" where
  "shr_words k [] = []"
| "shr_words k [x] = [drop_bit k x]"
| "shr_words k (x # y # ws) = (drop_bit k x OR push_bit (64 - k) y) # shr_words k (y # ws)"

lemma length_shr_words [simp]: "length (shr_words k ws) = length ws"
  by (induction k ws rule: shr_words.induct) simp_all

lemma base_shift_div:
  fixes x R :: int
  assumes "k \<le> 64"
  shows "(x + bn_base * R) div 2 ^ k = x div 2 ^ k + 2 ^ (64 - k) * R"
proof -
  have "x + bn_base * R = x + 2 ^ k * (2 ^ (64 - k) * R)" using two_64 [OF assms] by (simp only: ac_simps)
  then show ?thesis by (simp only: div_mult_self2 power_not_zero zero_neq_numeral [symmetric] not_False_eq_True add.commute)
qed

lemma words_val_mod:
  assumes "k \<le> 64"
  shows "words_val (y # ws) mod 2 ^ k = uint y mod 2 ^ k"
proof -
  have "words_val (y # ws) = uint y + 2 ^ k * (2 ^ (64 - k) * words_val ws)"
    using two_64 [OF assms] unfolding words_val.simps by (simp only: ac_simps)
  then show ?thesis by (simp only: mod_mult_self2)
qed

lemma shr_words_ok:
  assumes "0 < k" and "k < 64"
  shows "words_val (shr_words k ws) = words_val ws div 2 ^ k"
  using assms
proof (induction k ws rule: shr_words.induct)
  case (3 k x y ws)
  define R where "R = words_val (y # ws)"
  have a: "uint (drop_bit k x OR push_bit (64 - k) y) = uint x div 2 ^ k + 2 ^ (64 - k) * (R mod 2 ^ k)"
    using or_disjoint [OF drop_push_disjoint [OF 3(2,3), of x y]] push_bit_low [of k y] 3(3) words_val_mod [of k y ws]
    by (simp add: uint_drop_bit_u64 R_def del: words_val.simps)
  have b: "words_val (shr_words k (y # ws)) = R div 2 ^ k" using 3 by (simp add: R_def)
  have c: "bn_base * (R div 2 ^ k) = 2 ^ (64 - k) * (2 ^ k * (R div 2 ^ k))"
    using two_64 [of k] 3(3) by (simp only: mult.assoc less_imp_le)
  have "words_val (shr_words k (x # y # ws))
      = uint x div 2 ^ k + 2 ^ (64 - k) * (R mod 2 ^ k) + 2 ^ (64 - k) * (2 ^ k * (R div 2 ^ k))"
    unfolding shr_words.simps(3) words_val.simps(2) a b c by (rule refl)
  also have "\<dots> = uint x div 2 ^ k + 2 ^ (64 - k) * (R mod 2 ^ k + 2 ^ k * (R div 2 ^ k))"
    by (simp only: add.assoc distrib_left)
  also have "\<dots> = uint x div 2 ^ k + 2 ^ (64 - k) * R" by (simp only: mod_mult_div_eq)
  finally have "words_val (shr_words k (x # y # ws)) = uint x div 2 ^ k + 2 ^ (64 - k) * R" .
  moreover have "words_val (x # y # ws) div 2 ^ k = uint x div 2 ^ k + 2 ^ (64 - k) * R"
    using base_shift_div [of k "uint x" R] 3(3) by (simp add: R_def)
  ultimately show ?case by simp
qed (simp_all add: uint_drop_bit_u64)

lemma shr_words_map:
  assumes "s < n" and "n \<le> length a"
  shows "map (\<lambda>i. drop_bit k (a ! i) OR push_bit (64 - k) (a ! (i + 1))) [s..<n - 1] @ [drop_bit k (a ! (n - 1))]
    = shr_words k (drop s (take n a))"
  using assms
proof (induction "n - s" arbitrary: s)
  case (Suc m)
  have d: "drop s (take n a) = a ! s # drop (Suc s) (take n a)" using Suc.prems by (simp add: Cons_nth_drop_Suc [symmetric])
  show ?case
  proof (cases "Suc s = n")
    case True
    then show ?thesis using d by (auto simp: True [symmetric])
  next
    case False
    then have s: "Suc s < n" using Suc.prems by simp
    then have e: "drop (Suc s) (take n a) = a ! Suc s # drop (Suc (Suc s)) (take n a)" using Suc.prems by (simp add: Cons_nth_drop_Suc [symmetric])
    have "[s..<n - 1] = s # [Suc s..<n - 1]" using s by (simp add: upt_conv_Cons)
    then show ?thesis using Suc.hyps(1) [of "Suc s"] Suc.hyps(2) s Suc.prems unfolding d e by simp
  qed
qed simp


lemma two_pow_words: "(2 :: int) ^ n = bn_base ^ (n div 64) * 2 ^ (n mod 64)"
proof -
  have "bn_base ^ (n div 64) * 2 ^ (n mod 64) = (2 ^ 64) ^ (n div 64) * 2 ^ (n mod 64)" by simp
  also have "\<dots> = 2 ^ (64 * (n div 64) + n mod 64)" by (simp only: power_mult power_add)
  finally show ?thesis by simp
qed

lemma words_val_drop:
  assumes "m \<le> length ws"
  shows "words_val (drop m ws) = words_val ws div bn_base ^ m"
proof -
  have "words_val ws = words_val (take m ws) + words_val (drop m ws) * bn_base ^ m"
    using words_val_split [OF assms] by (simp add: mult.commute)
  moreover have "words_val (take m ws) < bn_base ^ m" using words_val_less [of "take m ws"] assms by simp
  ultimately show ?thesis by (simp add: div_pos_pos_trivial)
qed

lemma bn_rshift_words_ok:
  assumes "n \<le> length a"
  shows "words_val (bn_rshift_words a shift n) = words_val (take n a) div 2 ^ shift \<and> length (bn_rshift_words a shift n) = n"
proof -
  define sw where "sw = shift div 64"
  define sb where "sb = shift mod 64"
  have p: "2 ^ shift = bn_base ^ sw * 2 ^ sb" by (simp add: sw_def sb_def two_pow_words [of shift])
  have sb: "sb < 64" by (simp add: sb_def)
  show ?thesis
  proof (cases "sw \<ge> n")
    case True
    have "words_val (take n a) < bn_base ^ n" using words_val_less [of "take n a"] assms by simp
    also have "\<dots> \<le> bn_base ^ sw * 1" using True by (simp add: power_increasing)
    also have "\<dots> \<le> bn_base ^ sw * 2 ^ sb" by (intro mult_left_mono) simp_all
    finally have "words_val (take n a) div 2 ^ shift = 0" unfolding p by (intro div_pos_pos_trivial) simp_all
    then show ?thesis using True by (simp add: bn_rshift_words_def Let_def sw_def)
  next
    case False
    define hi where "hi = drop sw (take n a)"
    have hi: "words_val hi = words_val (take n a) div bn_base ^ sw" "length hi = n - sw"
      using words_val_drop [of sw "take n a"] False assms by (simp_all add: hi_def min_def)
    have d: "words_val hi div 2 ^ sb = words_val (take n a) div 2 ^ shift"
      unfolding hi(1) p by (simp add: zdiv_zmult2_eq)
    have "bn_rshift_words a shift n = (if sb = 0 then hi else shr_words sb hi) @ replicate sw 0"
      using False shr_words_map [of sw n a sb] assms
      by (auto simp: bn_rshift_words_def Let_def sw_def [symmetric] sb_def [symmetric] hi_def take_drop min_def add.commute)
    then show ?thesis using d shr_words_ok [OF _ sb, of hi] hi(2) False
      by (auto simp: words_val_append)
  qed
qed

lemma bn_rshift1_words_ok:
  assumes "n \<le> length a"
  shows "words_val (bn_rshift1_words a n) = words_val (take n a) div 2 \<and> length (bn_rshift1_words a n) = n"
proof (cases "n = 0")
  case False
  then have "bn_rshift1_words a n = shr_words 1 (take n a)"
    using shr_words_map [of 0 n a 1] assms by (simp add: bn_rshift1_words_def)
  then show ?thesis using shr_words_ok [of 1 "take n a"] assms by simp
qed (simp add: bn_rshift1_words_def)

section \<open>Shifts of numbers\<close>

text \<open>Enlarging the result, writing its words and trimming it.\<close>

lemma store_words_ok:
  fixes b :: bool
  assumes "bn_ok r" and "bn_wexpand A r n = (ok, s)" and "length ws = n"
  defines "t \<equiv> bn_set_minimal_width ((put_words ws s)\<lparr>width := n, neg := b\<rparr>)"
  shows "bn_ok s \<and> (ok \<longrightarrow> bn_minimal t \<and> bn_ok t \<and> bn_abs t = words_val ws \<and> neg t = (b \<and> words_val ws \<noteq> 0))"
proof -
  note E = bn_wexpand_ok [OF assms(1,2)]
  define u where "u = (put_words ws s)\<lparr>width := n\<rparr>\<lparr>neg := b\<rparr>"
  have "bn_ok u \<and> bn_words u = ws" if ok
    using put_words_ok [of s ws n] E that assms(3) by (simp add: u_def)
  moreover have "t = bn_set_minimal_width u" "neg u = b" by (simp_all add: t_def u_def)
  ultimately show ?thesis using E bn_set_minimal_width_ok [of u] by (auto simp: bn_minimal_def bn_abs_words)
qed

lemma BN_rshift_ok:
  assumes "bn_ok r" and "bn_ok a" and "0 \<le> n" and "BN_rshift A r a n = (ret, r')"
  shows "bn_ok r' \<and> (ret \<longrightarrow> bn_minimal r' \<and> bn_abs r' = bn_abs a div 2 ^ nat n \<and> neg r' = (neg a \<and> bn_abs r' \<noteq> 0))"
proof -
  obtain ok s where e: "bn_wexpand A r (width a) = (ok, s)" by fastforce
  define ws where "ws = bn_rshift_words (bn_d a) (nat n) (width a)"
  have ws: "words_val ws = bn_abs a div 2 ^ nat n" "length ws = width a"
    using bn_rshift_words_ok [of "width a" "bn_d a" "nat n"] assms(2) by (simp_all add: ws_def bn_ok_def bn_abs_def bn_words_def)
  show ?thesis using assms(3,4) e store_words_ok [OF assms(1) e ws(2), of "neg a"] ws(1)
    by (cases ok) (auto simp: BN_rshift_def ws_def)
qed

lemma BN_rshift1_ok:
  assumes "bn_ok r" and "bn_ok a" and "BN_rshift1 A r a = (ret, r')"
  shows "bn_ok r' \<and> (ret \<longrightarrow> bn_minimal r' \<and> bn_abs r' = bn_abs a div 2 \<and> neg r' = (neg a \<and> bn_abs r' \<noteq> 0))"
proof -
  obtain ok s where e: "bn_wexpand A r (width a) = (ok, s)" by fastforce
  define ws where "ws = bn_rshift1_words (bn_d a) (width a)"
  have ws: "words_val ws = bn_abs a div 2" "length ws = width a"
    using bn_rshift1_words_ok [of "width a" "bn_d a"] assms(2) by (simp_all add: ws_def bn_ok_def bn_abs_def bn_words_def)
  show ?thesis using assms(3) e store_words_ok [OF assms(1) e ws(2), of "neg a"] ws(1)
    by (cases ok) (auto simp: BN_rshift1_def ws_def)
qed

lemma BN_lshift_ok:
  assumes "bn_ok r" and "bn_ok a" and "0 \<le> n" and "BN_lshift A r a n = (ret, r')"
  shows "bn_ok r' \<and> (ret \<longrightarrow> bn_minimal r' \<and> bn_abs r' = 2 ^ nat n * bn_abs a \<and> neg r' = (neg a \<and> bn_abs r' \<noteq> 0))"
proof -
  define nw where "nw = nat n div 64"
  define lb where "lb = nat n mod 64"
  define N where "N = width a + nw + 1"
  obtain ok s where e: "bn_wexpand A (r\<lparr>neg := neg a\<rparr>) N = (ok, s)" by fastforce
  note E = bn_wexpand_ok [OF _ e]
  have r1: "bn_ok (r\<lparr>neg := neg a\<rparr>)" using assms(1) by simp
  show ?thesis
  proof (cases ok)
    case False
    then show ?thesis using assms(3,4) e E [OF r1]
      by (simp add: BN_lshift_def Let_def nw_def [symmetric] N_def del: One_nat_def Suc_eq_plus1)
  next
    case True
    have dm: "N \<le> length (bn_d s)" "bn_ok s" "neg s = neg a" using E [OF r1] True by simp_all
    define t0 where "t0 = take N ((bn_d s)[width a + nw := 0])"
    define u where "u = drop N ((bn_d s)[width a + nw := 0])"
    define t1 where "t1 = (if lb = 0 then take nw t0 @ take (width a) (bn_d a) @ drop (nw + width a) t0
                          else lshift_loop (bn_d a) nw lb (width a) t0)"
    define ws where "ws = replicate nw 0 @ drop nw t1"
    have wa: "width a \<le> length (bn_d a)" using assms(2) by (simp add: bn_ok_def)
    have tu: "(bn_d s)[width a + nw := 0] = t0 @ u" by (simp add: t0_def u_def)
    have l0: "length t0 = N" "t0 ! (nw + width a) = 0" "nw + width a < length t0"
      using dm by (simp_all add: t0_def N_def add.commute)
    have top: "drop (nw + width a) t0 = [0]" using l0 by (simp add: N_def Cons_nth_drop_Suc [symmetric] add.commute)
    have lp: "length t1 = N \<and> words_val (drop nw t1) = 2 ^ lb * bn_abs a"
    proof (cases "lb = 0")
      case True
      then show ?thesis using l0 wa top by (simp add: t1_def words_val_append bn_abs_def bn_words_def N_def)
    next
      case False
      then show ?thesis using lshift_loop_ok [of lb "width a" "bn_d a" nw t0] l0 wa top
        by (simp add: t1_def lb_def bn_abs_def bn_words_def)
    qed
    have ws: "length ws = N" "words_val ws = 2 ^ nat n * bn_abs a"
      using lp two_pow_words [of "nat n"] by (simp_all add: ws_def N_def words_val_append nw_def lb_def)
    have "(if lb = 0 then take nw (t0 @ u) @ take (width a) (bn_d a) @ drop (nw + width a) (t0 @ u)
        else lshift_loop (bn_d a) nw lb (width a) (t0 @ u)) = t1 @ u"
      using l0(1,3) by (simp add: lshift_loop_append t1_def N_def)
    moreover have "drop nw (t1 @ u) = drop nw t1 @ u" using lp by (simp add: N_def)
    ultimately have d: "(let t = (bn_d s)[width a + nw := 0];
          t = (if lb = 0 then take nw t @ take (width a) (bn_d a) @ drop (nw + width a) t else lshift_loop (bn_d a) nw lb (width a) t)
        in replicate nw 0 @ drop nw t) = ws @ u"
      unfolding tu Let_def ws_def append_assoc by (simp only:)
    have ud: "ws @ u = ws @ drop (length ws) (bn_d s)" using ws(1) by (simp add: u_def N_def)
    have w: "bn_wexpand A (r\<lparr>neg := neg a\<rparr>) (width a + nw + 1) = (True, s)" using e True by (simp add: N_def)
    have run: "BN_lshift A r a n = (True, bn_set_minimal_width (s\<lparr>bn_d := ws @ u, width := N\<rparr>))"
      using leD [OF assms(3)] d by (simp only: BN_lshift_def Let_def nw_def [symmetric] lb_def [symmetric] w prod.case bool.case if_False N_def)
    have "s\<lparr>bn_d := ws @ u, width := N\<rparr> = (put_words ws s)\<lparr>width := N, neg := neg a\<rparr>"
      using dm(3) ud by (simp add: put_words_def)
    then show ?thesis using store_words_ok [OF r1 e ws(1), of "neg a"] run True assms(4) ws(2) by auto
  qed
qed

lemma BN_lshift1_ok:
  assumes "bn_ok r" and "bn_ok a" and "BN_lshift1 A r a = (ret, r')"
  shows "bn_ok r' \<and> (ret \<longrightarrow> bn_abs r' = 2 * bn_abs a \<and> neg r' = neg a)"
proof -
  obtain ok s where e: "bn_wexpand A (r\<lparr>neg := neg a\<rparr>) (width a + 1) = (ok, s)" by fastforce
  have E: "bn_ok s \<and> neg s = neg a \<and> (ok \<longrightarrow> width a + 1 \<le> length (bn_d s))" using bn_wexpand_ok [OF _ e] assms(1) by simp
  obtain ws c where l: "lshift1_loop (take (width a) (bn_d a)) 0 = (ws, c)" by fastforce
  have L: "words_val ws + bn_base ^ width a * uint c = 2 * bn_abs a" "uint c \<le> 1" "length ws = width a"
    using lshift1_loop_ok [OF _ l] assms(2) by (simp_all add: bn_ok_def bn_abs_def bn_words_def)
  show ?thesis
  proof (cases ok)
    case True
    define r1 where "r1 = (if c \<noteq> 0 then (put_words (ws @ [1]) s)\<lparr>width := width a + 1\<rparr> else (put_words ws s)\<lparr>width := width a\<rparr>)"
    have run: "ret" "r' = r1" using assms(3) e [simplified] True l by (simp_all add: BN_lshift1_def Let_def r1_def)
    have c: "c = 0 \<or> c = 1" using L(2) by (simp only: uint_le_1)
    have "bn_ok r1 \<and> bn_words r1 = (if c \<noteq> 0 then ws @ [1] else ws)"
      using put_words_ok [of s "ws @ [1]" "width a + 1"] put_words_ok [of s ws "width a"] E True L(3) by (auto simp: r1_def)
    moreover have "neg r1 = neg a" using E by (simp add: r1_def)
    ultimately show ?thesis using run L c by (auto simp: bn_abs_def words_val_append)
  next
    case False
    then show ?thesis using assms(3) e [simplified] E by (simp add: BN_lshift1_def Let_def)
  qed
qed


section \<open>The bits of numbers\<close>

lemma bit_words_val: "bit (words_val ws) n \<longleftrightarrow> n div 64 < length ws \<and> bit (ws ! (n div 64)) (n mod 64)"
proof (induction ws arbitrary: n)
  case (Cons w ws)
  define v where "v = words_val (w # ws)"
  have lo: "take_bit 64 v = uint w" by (simp add: v_def take_bit_eq_mod)
  have hi: "drop_bit 64 v = words_val ws" by (simp add: v_def drop_bit_eq_div)
  show ?case
  proof (cases "n < 64")
    case True
    then have "bit v n \<longleftrightarrow> bit (uint w) n" using bit_take_bit_iff [of 64 v n] lo by simp
    then show ?thesis using True by (simp add: v_def bit_uint_iff)
  next
    case False
    then have "bit v n \<longleftrightarrow> bit (words_val ws) (n - 64)" using bit_drop_bit_eq [of 64 v] hi
      by (metis comp_apply le_add_diff_inverse not_less)
    moreover have "n div 64 = Suc ((n - 64) div 64)" "n mod 64 = (n - 64) mod 64"
      using False by (simp_all add: le_div_geq le_mod_geq)
    ultimately show ?thesis using Cons.IH [of "n - 64"] by (simp add: v_def)
  qed
qed simp

lemma bit_bn_abs: "bn_ok a \<Longrightarrow> bit (bn_abs a) n \<longleftrightarrow> n div 64 < width a \<and> bit (bn_d a ! (n div 64)) (n mod 64)"
  by (auto simp: bn_abs_def bit_words_val bn_words_def bn_ok_def)

lemma BN_is_bit_set_ok:
  assumes "bn_ok a" and "0 \<le> n"
  shows "BN_is_bit_set a n \<longleftrightarrow> bit (bn_abs a) (nat n)"
proof -
  have "drop_bit j w AND 1 \<noteq> 0 \<longleftrightarrow> bit w j" for j and w :: u64
    by (simp add: and_one_eq bit_iff_odd_drop_bit mod2_eq_if)
  then show ?thesis using assms by (auto simp: BN_is_bit_set_def bn_is_bit_set_words_def Let_def bit_bn_abs)
qed

lemma div_mod_64: "n div 64 = m div 64 \<and> n mod 64 = m mod 64 \<longleftrightarrow> n = m" for n m :: nat
  by (metis div_mult_mod_eq)

lemma BN_clear_bit_ok:
  assumes "bn_ok a" and "0 \<le> n"
  shows "bn_ok (snd (BN_clear_bit a n)) \<and> bn_abs (snd (BN_clear_bit a n)) = unset_bit (nat n) (bn_abs a)
    \<and> fst (BN_clear_bit a n) = (nat n div 64 < width a)"
proof (cases "nat n div 64 < width a")
  case False
  then have "\<not> bit (bn_abs a) (nat n)" using assms(1) by (simp add: bit_bn_abs)
  then have "unset_bit (nat n) (bn_abs a) = bn_abs a" by (auto intro!: bit_eqI simp: bit_unset_bit_iff)
  then show ?thesis using False assms by (simp add: BN_clear_bit_def Let_def)
next
  case True
  define i where "i = nat n div 64"
  define b where "b = a\<lparr>bn_d := (bn_d a)[i := bn_d a ! i AND NOT (push_bit (nat n mod 64) 1)]\<rparr>"
  have il: "i < length (bn_d a)" using True assms(1) by (simp add: i_def bn_ok_def)
  have b: "bn_ok b" "width b = width a" using assms(1) by (simp_all add: b_def bn_ok_def)
  have "bn_abs b = unset_bit (nat n) (bn_abs a)"
  proof (rule bit_eqI)
    fix m
    have "bit (bn_d b ! (m div 64)) (m mod 64) \<longleftrightarrow> bit (bn_d a ! (m div 64)) (m mod 64) \<and> m \<noteq> nat n"
      using div_mod_64 [of m "nat n"] il
      by (cases "m div 64 = i") (auto simp: b_def i_def bit_simps dest: bit_imp_le_length)
    then show "bit (bn_abs b) m = bit (unset_bit (nat n) (bn_abs a)) m"
      using b assms(1) by (auto simp: bit_bn_abs bit_unset_bit_iff)
  qed
  moreover have "BN_clear_bit a n = (True, bn_set_minimal_width b)"
    using True assms(2) by (simp add: BN_clear_bit_def Let_def b_def i_def)
  ultimately show ?thesis using True bn_set_minimal_width_ok [OF b(1)] by (simp add: bn_minimal_def)
qed

lemma BN_mask_bits_ok:
  assumes "bn_ok a" and "0 \<le> n"
  shows "fst (BN_mask_bits a n) \<and> bn_ok (snd (BN_mask_bits a n)) \<and> bn_abs (snd (BN_mask_bits a n)) = take_bit (nat n) (bn_abs a)"
proof (cases "nat n div 64 \<ge> width a")
  case True
  have hi: "\<not> bit (bn_abs a) m" if "nat n \<le> m" for m
    using assms(1) div_le_mono [OF that, of 64] True by (simp add: bit_bn_abs)
  have "take_bit (nat n) (bn_abs a) = bn_abs a"
  proof (rule bit_eqI)
    fix m
    show "bit (take_bit (nat n) (bn_abs a)) m = bit (bn_abs a) m"
      using hi [of m] by (cases "nat n \<le> m") (simp_all add: bit_take_bit_iff)
  qed
  then show ?thesis using True assms by (simp add: BN_mask_bits_def Let_def)
next
  case False
  define w where "w = nat n div 64"
  define k where "k = nat n mod 64"
  define b where "b = (if k = 0 then a\<lparr>width := w\<rparr> else a\<lparr>width := w + 1, bn_d := (bn_d a)[w := bn_d a ! w AND NOT (push_bit k (- 1))]\<rparr>)"
  have wl: "w < width a" "width a \<le> length (bn_d a)" using False assms(1) by (simp_all add: w_def bn_ok_def)
  have b: "bn_ok b" using assms(1) wl by (auto simp: b_def bn_ok_def)
  have n: "nat n = 64 * w + k" "k < 64" by (simp_all add: w_def k_def)
  have "bn_abs b = take_bit (nat n) (bn_abs a)"
  proof (rule bit_eqI)
    fix m
    have m: "m = 64 * (m div 64) + m mod 64" "m mod 64 < 64" for m :: nat by simp_all
    have lt: "m < nat n \<longleftrightarrow> m div 64 < w \<or> m div 64 = w \<and> m mod 64 < k"
      using m [of m] n by (cases "m div 64 = w") linarith+
    show "bit (bn_abs b) m = bit (take_bit (nat n) (bn_abs a)) m"
    proof (cases "k = 0")
      case True
      then have "bit (bn_abs b) m \<longleftrightarrow> m div 64 < w \<and> bit (bn_d a ! (m div 64)) (m mod 64)"
        using b by (simp add: bit_bn_abs b_def)
      then show ?thesis using assms(1) wl lt True by (auto simp: bit_bn_abs bit_take_bit_iff)
    next
      case False
      then have "bit (bn_abs b) m \<longleftrightarrow> m div 64 < w + 1 \<and> bit ((bn_d a)[w := bn_d a ! w AND NOT (push_bit k (- 1))] ! (m div 64)) (m mod 64)"
        using b by (simp add: bit_bn_abs b_def)
      also have "\<dots> \<longleftrightarrow> m < nat n \<and> bit (bn_d a ! (m div 64)) (m mod 64)"
        unfolding lt using wl m(2) [of m] by (cases "m div 64 = w") (auto simp: bit_simps)
      finally show ?thesis using assms(1) wl lt by (auto simp: bit_bn_abs bit_take_bit_iff)
    qed
  qed
  moreover have "BN_mask_bits a n = (True, bn_set_minimal_width b)"
    using False assms(2) by (simp add: BN_mask_bits_def Let_def b_def w_def k_def)
  ultimately show ?thesis using bn_set_minimal_width_ok [OF b] by (simp add: bn_minimal_def)
qed

lemma BN_set_bit_ok:
  assumes "bn_ok a" and "0 \<le> n" and "BN_set_bit A a n = (ret, r)"
  shows "bn_ok r \<and> neg r = neg a \<and> bn_abs r = (if ret then set_bit (nat n) (bn_abs a) else bn_abs a)"
proof -
  define i where "i = nat n div 64"
  define w where "w = (if width a \<le> i then i + 1 else width a)"
  define s where "s = (if width a \<le> i then
      (case bn_wexpand A a (i + 1) of
         (False, a) \<Rightarrow> (False, a)
       | (True, a) \<Rightarrow> (True, a\<lparr>bn_d := take (width a) (bn_d a) @ replicate (i + 1 - width a) 0 @ drop (i + 1) (bn_d a), width := i + 1\<rparr>))
    else (True, a))"
  have S: "bn_ok (snd s) \<and> neg (snd s) = neg a \<and> bn_abs (snd s) = bn_abs a \<and> (fst s \<longrightarrow> i < width (snd s))"
  proof (cases "width a \<le> i")
    case True
    obtain ok t where e: "bn_wexpand A a (i + 1) = (ok, t)" by fastforce
    note E = bn_wexpand_ok [OF assms(1) e]
    show ?thesis
    proof (cases ok)
      case ok: True
      then have st: "s = (True, t\<lparr>bn_d := take (width t) (bn_d t) @ replicate (i + 1 - width t) 0 @ drop (i + 1) (bn_d t), width := i + 1\<rparr>)"
        using True e by (simp add: s_def)
      have t: "width t = width a" "i + 1 \<le> length (bn_d t)" "bn_ok t" "bn_words t = bn_words a" "neg t = neg a"
        using E ok by simp_all
      then have tl: "length (take (width t) (bn_d t)) = width a" using True by simp
      have "bn_words (snd s) = bn_words a @ replicate (i + 1 - width a) 0"
        using t tl True by (simp add: st bn_words_def)
      then show ?thesis using t tl True by (simp add: st bn_ok_def bn_abs_def words_val_append)
    next
      case False
      then show ?thesis using True e E by (simp add: s_def bn_abs_def)
    qed
  next
    case False
    then show ?thesis using assms(1) by (simp add: s_def)
  qed
  have run: "BN_set_bit A a n = (if fst s then (True, (snd s)\<lparr>bn_d := (bn_d (snd s))[i := bn_d (snd s) ! i OR push_bit (nat n mod 64) 1]\<rparr>)
      else (False, snd s))"
    unfolding BN_set_bit_def Let_def i_def [symmetric]
    unfolding s_def [symmetric] using leD [OF assms(2)] by (simp only: if_False case_prod_beta)
  show ?thesis
  proof (cases "fst s")
    case True
    define t where "t = snd s"
    define b where "b = t\<lparr>bn_d := (bn_d t)[i := bn_d t ! i OR push_bit (nat n mod 64) 1]\<rparr>"
    have t: "bn_ok t" "i < width t" "bn_abs t = bn_abs a" "neg t = neg a" using S True by (simp_all add: t_def)
    then have il: "i < length (bn_d t)" by (simp add: bn_ok_def)
    have b: "bn_ok b" "width b = width t" using t by (simp_all add: b_def bn_ok_def)
    have "bn_abs b = set_bit (nat n) (bn_abs t)"
    proof (rule bit_eqI)
      fix m
      have "m div 64 < width t \<and> bit (bn_d b ! (m div 64)) (m mod 64) \<longleftrightarrow>
          m div 64 < width t \<and> bit (bn_d t ! (m div 64)) (m mod 64) \<or> m = nat n"
        using div_mod_64 [of m "nat n"] il t(2)
        by (cases "m div 64 = i") (auto simp: b_def i_def bit_simps dest: bit_imp_le_length)
      then show "bit (bn_abs b) m = bit (set_bit (nat n) (bn_abs t)) m"
        using b t(1) by (auto simp: bit_bn_abs bit_set_bit_iff)
    qed
    moreover have "ret" "r = b" using run True assms(3) by (simp_all add: b_def t_def)
    moreover have "neg b = neg a" using t by (simp add: b_def)
    ultimately show ?thesis using b t by simp
  next
    case False
    then show ?thesis using run S assms(3) by simp
  qed
qed


section \<open>The secret shift\<close>

lemma and_1_mask: "0 - (of_nat x AND 1) = (ct_mask (odd x) :: u64)"
  by (simp add: ct_mask_def and_one_eq mod2_eq_if)

lemma bn_select_words_eq:
  assumes "length a = n" and "length b = n"
  shows "bn_select_words (ct_mask P) a b n = (if P then a else b)"
  using assms by (auto simp: bn_select_words_def constant_time_select_w_eq intro!: nth_equalityI)

lemma drop_bit_bit_len: "drop_bit i n \<noteq> 0 \<longleftrightarrow> i < bit_len n" for n :: nat
proof -
  have "drop_bit i n = 0 \<longleftrightarrow> n < 2 ^ i" by (auto simp: drop_bit_eq_div div_eq_0_iff)
  then show ?thesis using bit_len_le [of n i] by auto
qed

lemma mod_pow_Suc: "n mod 2 ^ Suc i = n mod 2 ^ i + 2 ^ i * of_bool (odd (drop_bit i n))" for n :: nat
  using mod_mult2_eq [of n "2 ^ i" 2] by (simp add: drop_bit_eq_div mod2_eq_if mult.commute)

lemma secret_shift_loop_ok:
  assumes "length d = w" and "i \<le> bit_len mx"
  shows "length (secret_shift_loop mx n w i d) = w
    \<and> words_val (secret_shift_loop mx n w i d) = words_val d div 2 ^ (n mod 2 ^ bit_len mx - n mod 2 ^ i)"
  using assms
proof (induction mx n w i d rule: secret_shift_loop.induct)
  case (1 mx n w i d)
  show ?case
  proof (cases "drop_bit i mx \<noteq> 0")
    case False
    then have "i = bit_len mx" using 1(3) drop_bit_bit_len [of i mx] by simp
    then show ?thesis using False 1(2) by (subst secret_shift_loop.simps, subst secret_shift_loop.simps) simp
  next
    case True
    then have i: "Suc i \<le> bit_len mx" using drop_bit_bit_len [of i mx] by simp
    define b where "b = odd (drop_bit i n)"
    define t where "t = bn_rshift_words d (2 ^ i) w"
    define e where "e = (if b then t else d)"
    have t: "words_val t = words_val d div 2 ^ (2 ^ i)" "length t = w"
      using bn_rshift_words_ok [of w d "2 ^ i"] 1(2) by (simp_all add: t_def)
    have el: "length e = w" using t(2) 1(2) by (simp add: e_def)
    have ev: "words_val e = words_val d div 2 ^ (2 ^ i * of_bool b)" using t(1) by (simp add: e_def)
    have sel: "bn_select_words (0 - (of_nat (drop_bit i n) AND 1)) t d w = e"
      unfolding and_1_mask using bn_select_words_eq [OF t(2) 1(2)] by (simp add: e_def b_def)
    have IH: "length (secret_shift_loop mx n w (i + 1) e) = w
      \<and> words_val (secret_shift_loop mx n w (i + 1) e) = words_val e div 2 ^ (n mod 2 ^ bit_len mx - n mod 2 ^ Suc i)"
      using 1(1) [OF True refl refl] sel el i unfolding t_def [symmetric] by simp
    have "n mod 2 ^ Suc i \<le> n mod 2 ^ bit_len mx"
    proof -
      have "(2 :: nat) ^ Suc i dvd 2 ^ bit_len mx" using i by (rule le_imp_power_dvd)
      then have "n mod 2 ^ bit_len mx mod 2 ^ Suc i = n mod 2 ^ Suc i" by (rule mod_mod_cancel)
      then show ?thesis by (metis mod_less_eq_dividend)
    qed
    then have "2 ^ i * of_bool b + (n mod 2 ^ bit_len mx - n mod 2 ^ Suc i) = n mod 2 ^ bit_len mx - n mod 2 ^ i"
      using mod_pow_Suc [of n i] by (simp add: b_def del: power_Suc)
    then have "words_val e div 2 ^ (n mod 2 ^ bit_len mx - n mod 2 ^ Suc i) = words_val d div 2 ^ (n mod 2 ^ bit_len mx - n mod 2 ^ i)"
      unfolding ev by (simp add: zdiv_zmult2_eq [symmetric] power_add [symmetric])
    moreover have "secret_shift_loop mx n w i d = secret_shift_loop mx n w (i + 1) e"
      using True sel by (subst secret_shift_loop.simps) (simp add: Let_def t_def [symmetric])
    ultimately show ?thesis using IH by simp
  qed
qed

lemma bn_rshift_secret_shift_ok:
  assumes "bn_ok r" and "bn_ok a" and "bn_ok tmp" and "bn_rshift_secret_shift A (Some tmp) r a n = (True, r')"
  shows "bn_ok r' \<and> width r' = width a \<and> neg r' = neg a \<and> bn_abs r' = bn_abs a div 2 ^ (n mod 2 ^ bit_len (64 * width a))"
proof -
  obtain s where c: "BN_copy A r a = (True, s)" using assms(4) by (auto simp: bn_rshift_secret_shift_def split: prod.splits bool.splits)
  obtain q where e: "bn_wexpand A r (width a) = (True, q)" "s = (put_words (take (width a) (bn_d a)) q)\<lparr>width := width a\<rparr>\<lparr>neg := neg a\<rparr>"
    using c by (auto simp: BN_copy_def split: prod.splits bool.splits)
  note E = bn_wexpand_ok [OF assms(1) e(1)]
  have l: "length (take (width a) (bn_d a)) = width a" using assms(2) by (simp add: bn_ok_def)
  have s: "bn_ok s" "bn_words s = bn_words a" "width s = width a" "neg s = neg a"
    using put_words_ok [of q "take (width a) (bn_d a)" "width a"] E l by (simp_all add: e(2) bn_words_def [of a])
  define ws where "ws = secret_shift_loop (64 * width s) n (width s) 0 (take (width s) (bn_d s))"
  have w: "length ws = width s" "words_val ws = bn_abs a div 2 ^ (n mod 2 ^ bit_len (64 * width a))"
    using secret_shift_loop_ok [of "take (width s) (bn_d s)" "width s" 0 "64 * width s" n] s l
    by (simp_all add: ws_def bn_abs_def bn_words_def bn_ok_def)
  have "r' = put_words ws s" using assms(4) c by (auto simp: bn_rshift_secret_shift_def ws_def split: prod.splits bool.splits)
  then show ?thesis using put_words_same [OF s(1) w(1)] w(2) s by (simp add: bn_abs_words)
qed


section \<open>Low zero bits\<close>

lemma low_zero_block_mask:
  assumes "constant_time_is_zero_w (push_bit (64 - k) l) = ct_mask P" and "unat (of_nat k :: u64) = k"
  shows "low_zero_block k (bits, l) = (if P then (bits + k, drop_bit k l) else (bits, l))"
  using assms by (cases P) (simp_all add: low_zero_block_def constant_time_select_w_eq Let_def, simp_all add: ct_mask_def)

lemma low_zero_block_eq:
  assumes "0 < k" and "k < 64"
  shows "low_zero_block k (bits, l) = (if \<forall>j < k. \<not> bit l j then (bits + k, drop_bit k l) else (bits, l))"
proof -
  have "push_bit (64 - k) l = 0 \<longleftrightarrow> (\<forall>j < k. \<not> bit l j)"
  proof
    assume z: "push_bit (64 - k) l = 0"
    show "\<forall>j < k. \<not> bit l j"
    proof (intro allI impI)
      fix j
      assume j: "j < k"
      have "\<not> bit (push_bit (64 - k) l) (64 - k + j)" using z by simp
      then show "\<not> bit l j" using j assms by (simp add: bit_push_bit_iff del: push_bit_eq_0_iff)
    qed
  next
    assume "\<forall>j < k. \<not> bit l j"
    then show "push_bit (64 - k) l = 0" by (intro bit_word_eqI) (auto simp: bit_push_bit_iff less_diff_conv2)
  qed
  then have m: "constant_time_is_zero_w (push_bit (64 - k) l) = ct_mask (\<forall>j < k. \<not> bit l j)" by (simp only: constant_time_is_zero_w_eq)
  have "unat (of_nat k :: u64) = k" using assms(2) by (simp add: unat_of_nat take_bit_nat_eq_self)
  then show ?thesis
    by (rule low_zero_block_mask [OF m])
qed

text \<open>\<open>bits\<close> low zeros of \<open>w\<close> have been shifted out, and one of the next \<open>k\<close> bits is set.\<close>

definition low_zeros :: "BN_ULONG \<Rightarrow> nat \<Rightarrow> nat \<times> BN_ULONG \<Rightarrow> bool" where
  "low_zeros w k s \<longleftrightarrow> (\<forall>j < fst s. \<not> bit w j) \<and> snd s = drop_bit (fst s) w \<and> (\<exists>j < k. bit (snd s) j)"

lemma low_zeros_step:
  assumes "low_zeros w (2 * k) s" and "0 < k" and "k < 64"
  shows "low_zeros w k (low_zero_block k s)"
proof -
  obtain bits l where s: "s = (bits, l)" by fastforce
  have w: "\<forall>j < bits. \<not> bit w j" "l = drop_bit bits w" "\<exists>j < 2 * k. bit l j" using assms(1) by (auto simp: low_zeros_def s)
  show ?thesis
  proof (cases "\<forall>j < k. \<not> bit l j")
    case True
    obtain j where j: "j < 2 * k" "bit l j" using w(3) by blast
    then have jk: "k \<le> j" using True not_less by blast
    have "\<not> bit w i" if "i < bits + k" for i
    proof (cases "i < bits")
      case False
      then have "\<not> bit l (i - bits)" using True that by simp
      then show ?thesis using False w(2) by (simp add: bit_drop_bit_eq)
    qed (use w(1) in simp)
    moreover have "bit (drop_bit k l) (j - k)" using j(2) jk by (simp add: bit_drop_bit_eq)
    moreover have "j - k < k" using j(1) jk by simp
    ultimately show ?thesis using True w(2) low_zero_block_eq [OF assms(2,3), of bits l]
      by (auto simp: low_zeros_def s add.commute)
  next
    case False
    then show ?thesis using w low_zero_block_eq [OF assms(2,3), of bits l] by (auto simp: low_zeros_def s)
  qed
qed

lemma bn_count_low_zero_bits_word_ok:
  assumes "w \<noteq> 0"
  shows "bit w (bn_count_low_zero_bits_word w) \<and> (\<forall>j < bn_count_low_zero_bits_word w. \<not> bit w j)"
proof -
  obtain j where "bit w j" using assms by (auto simp: bit_eq_iff)
  then have "low_zeros w (2 * 32) (0, w)" using bit_imp_le_length [of w j] by (auto simp: low_zeros_def)
  then have "low_zeros w 1 (low_zero_block 1 (low_zero_block 2 (low_zero_block 4 (low_zero_block 8 (low_zero_block 16 (low_zero_block 32 (0, w)))))))"
    using low_zeros_step [of w 32 "(0, w)"] low_zeros_step [of w 16] low_zeros_step [of w 8] low_zeros_step [of w 4]
      low_zeros_step [of w 2] low_zeros_step [of w 1] by simp
  then show ?thesis by (auto simp: low_zeros_def bn_count_low_zero_bits_word_def bit_drop_bit_eq)
qed

text \<open>The loop: once a word that is not zero has been seen the result stays.\<close>

lemma count_low_loop_seen: "count_low_loop ws i (- 1) ret = ret"
  by (induction ws arbitrary: i) (simp_all add: Let_def)

lemma count_low_loop_ok:
  assumes "\<exists>w \<in> set ws. w \<noteq> 0" and "64 * (i + length ws) < 2 ^ 32"
  shows "\<exists>k < length ws. ws ! k \<noteq> 0 \<and> (\<forall>j < k. ws ! j = 0)
    \<and> count_low_loop ws i 0 0 = of_nat ((i + k) * 64 + bn_count_low_zero_bits_word (ws ! k))"
  using assms
proof (induction ws arbitrary: i)
  case (Cons w ws)
  show ?case
  proof (cases "w = 0")
    case True
    then obtain k where k: "k < length ws" "ws ! k \<noteq> 0" "\<forall>j < k. ws ! j = 0"
      "count_low_loop ws (Suc i) 0 0 = of_nat ((Suc i + k) * 64 + bn_count_low_zero_bits_word (ws ! k))"
      using Cons.IH [of "Suc i"] Cons.prems by auto
    have "count_low_loop (w # ws) i 0 0 = count_low_loop ws (Suc i) 0 0"
      using True by (simp add: Let_def constant_time_is_zero_w_eq ct_mask_def)
    then show ?thesis using k True by (intro exI [of _ "Suc k"]) (auto simp: nth_Cons split: nat.split)
  next
    case False
    have "count_low_loop (w # ws) i 0 0 = count_low_loop ws (Suc i) (- 1) (of_nat (i * 64 + bn_count_low_zero_bits_word w))"
      using False by (simp add: Let_def constant_time_is_zero_w_eq ct_mask_def)
    then show ?thesis using False by (intro exI [of _ 0]) (simp add: count_low_loop_seen)
  qed
qed simp

lemma BN_count_low_zero_bits_ok:
  assumes "bn_ok bn" and "bn_abs bn \<noteq> 0"
  shows "bit (bn_abs bn) (BN_count_low_zero_bits bn) \<and> (\<forall>j < BN_count_low_zero_bits bn. \<not> bit (bn_abs bn) j)"
proof -
  define ws where "ws = bn_words bn"
  have v: "bn_abs bn = words_val ws" "length ws \<le> bn_max_words" using assms(1) by (simp_all add: ws_def bn_abs_def bn_ok_def)
  obtain k where k: "k < length ws" "ws ! k \<noteq> 0" "\<forall>j < k. ws ! j = 0"
    "count_low_loop ws 0 0 0 = of_nat (k * 64 + bn_count_low_zero_bits_word (ws ! k))"
    using count_low_loop_ok [of ws 0] assms(2) v by (auto simp: words_val_eq_0)
  define z where "z = bn_count_low_zero_bits_word (ws ! k)"
  have z: "bit (ws ! k) z" "\<forall>j < z. \<not> bit (ws ! k) j" using bn_count_low_zero_bits_word_ok [OF k(2)] by (simp_all add: z_def)
  have zl: "z < 64" using bit_imp_le_length [OF z(1)] by simp
  have "unat (of_nat (k * 64 + z) :: u64) = k * 64 + z"
  proof -
    have "k * 64 + z < 2 ^ 64" using k(1) v(2) zl by simp
    then show ?thesis by (simp add: unat_of_nat take_bit_nat_eq_self del: of_nat_add of_nat_mult)
  qed
  then have r: "BN_count_low_zero_bits bn = k * 64 + z"
    using k(4) by (simp add: BN_count_low_zero_bits_def ws_def bn_words_def z_def)
  have "\<not> bit (words_val ws) j" if "j < k * 64 + z" for j
  proof (cases "j div 64 = k")
    case True
    then have "j = k * 64 + j mod 64" by (metis div_mult_mod_eq)
    then have "j mod 64 < z" using that by linarith
    then show ?thesis using z(2) True by (simp add: bit_words_val)
  next
    case False
    have "j div 64 < k"
    proof (rule ccontr)
      assume "\<not> j div 64 < k"
      then have "Suc k \<le> j div 64" using False by simp
      then have "Suc k * 64 \<le> j" by (simp add: less_eq_div_iff_mult_less_eq)
      then show False using that zl by simp
    qed
    then show ?thesis using k(3) by (simp add: bit_words_val)
  qed
  then show ?thesis using z zl k(1) by (simp add: r v(1) bit_words_val)
qed

end
