(* ===== verification/Bn_Comba.thy ===== *)
theory Bn_Comba
  imports Bn_Words
begin

text \<open>
  Multiplication and squaring of vectors of four and eight words column by column (Comba), written
  out in full by \<open>crypto/fipsmodule/bn/generic.c\<close>. Three words hold the sum of a column and its
  carries; they change roles from column to column. The accumulation of a column is \<open>mul_col\<close> or
  \<open>sqr_col\<close> over the index pairs in the order of the macro calls.
\<close>

section \<open>Code\<close>

type_synonym acc = "BN_ULONG \<times> BN_ULONG \<times> BN_ULONG"

definition mul_add_c :: "BN_ULONG \<Rightarrow> BN_ULONG \<Rightarrow> acc \<Rightarrow> acc" where
  "mul_add_c a b c =
     (case c of (c0, c1, c2) \<Rightarrow>
        (let t = ucast a * ucast b + ucast c0;
             hi = Hw t;
             c1 = c1 + hi
         in (Lw t, c1, if c1 < hi then c2 + 1 else c2)))"

definition mul_add_c2 :: "BN_ULONG \<Rightarrow> BN_ULONG \<Rightarrow> acc \<Rightarrow> acc" where
  "mul_add_c2 a b c =
     (case c of (c0, c1, c2) \<Rightarrow>
        (let t = ucast a * ucast b;
             tt = t + ucast c0;
             c0 = Lw tt;
             hi = Hw tt;
             c1 = c1 + hi;
             c2 = (if c1 < hi then c2 + 1 else c2);
             t = t + ucast c0;
             c0 = Lw t;
             hi = Hw t;
             c1 = c1 + hi
         in (c0, c1, if c1 < hi then c2 + 1 else c2)))"

definition mul_col :: "BN_ULONG list \<Rightarrow> BN_ULONG list \<Rightarrow> (nat \<times> nat) list \<Rightarrow> acc \<Rightarrow> acc" where
  "mul_col a b ijs c = foldl (\<lambda>c (i, j). mul_add_c (a ! i) (b ! j) c) c ijs"

text \<open>\<open>sqr_add_c(a, i, ...)\<close> has the body of \<open>mul_add_c\<close> for \<open>a[i]\<close> and \<open>a[i]\<close>.\<close>

datatype sqr_op = SqrAdd nat | SqrAdd2 nat nat

fun sqr_add :: "BN_ULONG list \<Rightarrow> sqr_op \<Rightarrow> acc \<Rightarrow> acc" where
  "sqr_add a (SqrAdd i) c = mul_add_c (a ! i) (a ! i) c"
| "sqr_add a (SqrAdd2 i j) c = mul_add_c2 (a ! i) (a ! j) c"

definition sqr_col :: "BN_ULONG list \<Rightarrow> sqr_op list \<Rightarrow> acc \<Rightarrow> acc" where
  "sqr_col a ops c = foldl (\<lambda>c p. sqr_add a p c) c ops"

definition bn_mul_comba8 :: "BN_ULONG list \<Rightarrow> BN_ULONG list \<Rightarrow> BN_ULONG list" where
  "bn_mul_comba8 a b =
     (let (c1, c2, c3) = mul_col a b [(0, 0)] (0, 0, 0); r0 = c1;
          (c2, c3, c1) = mul_col a b [(0, 1), (1, 0)] (c2, c3, 0); r1 = c2;
          (c3, c1, c2) = mul_col a b [(2, 0), (1, 1), (0, 2)] (c3, c1, 0); r2 = c3;
          (c1, c2, c3) = mul_col a b [(0, 3), (1, 2), (2, 1), (3, 0)] (c1, c2, 0); r3 = c1;
          (c2, c3, c1) = mul_col a b [(4, 0), (3, 1), (2, 2), (1, 3), (0, 4)] (c2, c3, 0); r4 = c2;
          (c3, c1, c2) = mul_col a b [(0, 5), (1, 4), (2, 3), (3, 2), (4, 1), (5, 0)] (c3, c1, 0); r5 = c3;
          (c1, c2, c3) = mul_col a b [(6, 0), (5, 1), (4, 2), (3, 3), (2, 4), (1, 5), (0, 6)] (c1, c2, 0); r6 = c1;
          (c2, c3, c1) = mul_col a b [(0, 7), (1, 6), (2, 5), (3, 4), (4, 3), (5, 2), (6, 1), (7, 0)] (c2, c3, 0); r7 = c2;
          (c3, c1, c2) = mul_col a b [(7, 1), (6, 2), (5, 3), (4, 4), (3, 5), (2, 6), (1, 7)] (c3, c1, 0); r8 = c3;
          (c1, c2, c3) = mul_col a b [(2, 7), (3, 6), (4, 5), (5, 4), (6, 3), (7, 2)] (c1, c2, 0); r9 = c1;
          (c2, c3, c1) = mul_col a b [(7, 3), (6, 4), (5, 5), (4, 6), (3, 7)] (c2, c3, 0); r10 = c2;
          (c3, c1, c2) = mul_col a b [(4, 7), (5, 6), (6, 5), (7, 4)] (c3, c1, 0); r11 = c3;
          (c1, c2, c3) = mul_col a b [(7, 5), (6, 6), (5, 7)] (c1, c2, 0); r12 = c1;
          (c2, c3, c1) = mul_col a b [(6, 7), (7, 6)] (c2, c3, 0); r13 = c2;
          (c3, c1, c2) = mul_col a b [(7, 7)] (c3, c1, 0); r14 = c3
      in [r0, r1, r2, r3, r4, r5, r6, r7, r8, r9, r10, r11, r12, r13, r14, c1])"

definition bn_mul_comba4 :: "BN_ULONG list \<Rightarrow> BN_ULONG list \<Rightarrow> BN_ULONG list" where
  "bn_mul_comba4 a b =
     (let (c1, c2, c3) = mul_col a b [(0, 0)] (0, 0, 0); r0 = c1;
          (c2, c3, c1) = mul_col a b [(0, 1), (1, 0)] (c2, c3, 0); r1 = c2;
          (c3, c1, c2) = mul_col a b [(2, 0), (1, 1), (0, 2)] (c3, c1, 0); r2 = c3;
          (c1, c2, c3) = mul_col a b [(0, 3), (1, 2), (2, 1), (3, 0)] (c1, c2, 0); r3 = c1;
          (c2, c3, c1) = mul_col a b [(3, 1), (2, 2), (1, 3)] (c2, c3, 0); r4 = c2;
          (c3, c1, c2) = mul_col a b [(2, 3), (3, 2)] (c3, c1, 0); r5 = c3;
          (c1, c2, c3) = mul_col a b [(3, 3)] (c1, c2, 0); r6 = c1
      in [r0, r1, r2, r3, r4, r5, r6, c2])"

definition bn_sqr_comba8 :: "BN_ULONG list \<Rightarrow> BN_ULONG list" where
  "bn_sqr_comba8 a =
     (let (c1, c2, c3) = sqr_col a [SqrAdd 0] (0, 0, 0); r0 = c1;
          (c2, c3, c1) = sqr_col a [SqrAdd2 1 0] (c2, c3, 0); r1 = c2;
          (c3, c1, c2) = sqr_col a [SqrAdd 1, SqrAdd2 2 0] (c3, c1, 0); r2 = c3;
          (c1, c2, c3) = sqr_col a [SqrAdd2 3 0, SqrAdd2 2 1] (c1, c2, 0); r3 = c1;
          (c2, c3, c1) = sqr_col a [SqrAdd 2, SqrAdd2 3 1, SqrAdd2 4 0] (c2, c3, 0); r4 = c2;
          (c3, c1, c2) = sqr_col a [SqrAdd2 5 0, SqrAdd2 4 1, SqrAdd2 3 2] (c3, c1, 0); r5 = c3;
          (c1, c2, c3) = sqr_col a [SqrAdd 3, SqrAdd2 4 2, SqrAdd2 5 1, SqrAdd2 6 0] (c1, c2, 0); r6 = c1;
          (c2, c3, c1) = sqr_col a [SqrAdd2 7 0, SqrAdd2 6 1, SqrAdd2 5 2, SqrAdd2 4 3] (c2, c3, 0); r7 = c2;
          (c3, c1, c2) = sqr_col a [SqrAdd 4, SqrAdd2 5 3, SqrAdd2 6 2, SqrAdd2 7 1] (c3, c1, 0); r8 = c3;
          (c1, c2, c3) = sqr_col a [SqrAdd2 7 2, SqrAdd2 6 3, SqrAdd2 5 4] (c1, c2, 0); r9 = c1;
          (c2, c3, c1) = sqr_col a [SqrAdd 5, SqrAdd2 6 4, SqrAdd2 7 3] (c2, c3, 0); r10 = c2;
          (c3, c1, c2) = sqr_col a [SqrAdd2 7 4, SqrAdd2 6 5] (c3, c1, 0); r11 = c3;
          (c1, c2, c3) = sqr_col a [SqrAdd 6, SqrAdd2 7 5] (c1, c2, 0); r12 = c1;
          (c2, c3, c1) = sqr_col a [SqrAdd2 7 6] (c2, c3, 0); r13 = c2;
          (c3, c1, c2) = sqr_col a [SqrAdd 7] (c3, c1, 0); r14 = c3
      in [r0, r1, r2, r3, r4, r5, r6, r7, r8, r9, r10, r11, r12, r13, r14, c1])"

definition bn_sqr_comba4 :: "BN_ULONG list \<Rightarrow> BN_ULONG list" where
  "bn_sqr_comba4 a =
     (let (c1, c2, c3) = sqr_col a [SqrAdd 0] (0, 0, 0); r0 = c1;
          (c2, c3, c1) = sqr_col a [SqrAdd2 1 0] (c2, c3, 0); r1 = c2;
          (c3, c1, c2) = sqr_col a [SqrAdd 1, SqrAdd2 2 0] (c3, c1, 0); r2 = c3;
          (c1, c2, c3) = sqr_col a [SqrAdd2 3 0, SqrAdd2 2 1] (c1, c2, 0); r3 = c1;
          (c2, c3, c1) = sqr_col a [SqrAdd 2, SqrAdd2 3 1] (c2, c3, 0); r4 = c2;
          (c3, c1, c2) = sqr_col a [SqrAdd2 3 2] (c3, c1, 0); r5 = c3;
          (c1, c2, c3) = sqr_col a [SqrAdd 3] (c1, c2, 0); r6 = c1
      in [r0, r1, r2, r3, r4, r5, r6, c2])"

section \<open>Columns in general\<close>

text \<open>The same with the columns as data: the carries of one column are the start of the next.\<close>

fun columns :: "('p list \<Rightarrow> acc \<Rightarrow> acc) \<Rightarrow> 'p list list \<Rightarrow> BN_ULONG \<times> BN_ULONG \<Rightarrow> BN_ULONG list" where
  "columns f [] (c1, c2) = [c1]"
| "columns f (col # cols) (c1, c2) = (case f col (c1, c2, 0) of (r, c1, c2) \<Rightarrow> r # columns f cols (c1, c2))"

definition bn_mul_comba8_cols :: "(nat \<times> nat) list list" where
  "bn_mul_comba8_cols =
    [[(0, 0)],
     [(0, 1), (1, 0)],
     [(2, 0), (1, 1), (0, 2)],
     [(0, 3), (1, 2), (2, 1), (3, 0)],
     [(4, 0), (3, 1), (2, 2), (1, 3), (0, 4)],
     [(0, 5), (1, 4), (2, 3), (3, 2), (4, 1), (5, 0)],
     [(6, 0), (5, 1), (4, 2), (3, 3), (2, 4), (1, 5), (0, 6)],
     [(0, 7), (1, 6), (2, 5), (3, 4), (4, 3), (5, 2), (6, 1), (7, 0)],
     [(7, 1), (6, 2), (5, 3), (4, 4), (3, 5), (2, 6), (1, 7)],
     [(2, 7), (3, 6), (4, 5), (5, 4), (6, 3), (7, 2)],
     [(7, 3), (6, 4), (5, 5), (4, 6), (3, 7)],
     [(4, 7), (5, 6), (6, 5), (7, 4)],
     [(7, 5), (6, 6), (5, 7)],
     [(6, 7), (7, 6)],
     [(7, 7)]]"

definition bn_mul_comba4_cols :: "(nat \<times> nat) list list" where
  "bn_mul_comba4_cols =
    [[(0, 0)],
     [(0, 1), (1, 0)],
     [(2, 0), (1, 1), (0, 2)],
     [(0, 3), (1, 2), (2, 1), (3, 0)],
     [(3, 1), (2, 2), (1, 3)],
     [(2, 3), (3, 2)],
     [(3, 3)]]"

definition bn_sqr_comba8_cols :: "sqr_op list list" where
  "bn_sqr_comba8_cols =
    [[SqrAdd 0],
     [SqrAdd2 1 0],
     [SqrAdd 1, SqrAdd2 2 0],
     [SqrAdd2 3 0, SqrAdd2 2 1],
     [SqrAdd 2, SqrAdd2 3 1, SqrAdd2 4 0],
     [SqrAdd2 5 0, SqrAdd2 4 1, SqrAdd2 3 2],
     [SqrAdd 3, SqrAdd2 4 2, SqrAdd2 5 1, SqrAdd2 6 0],
     [SqrAdd2 7 0, SqrAdd2 6 1, SqrAdd2 5 2, SqrAdd2 4 3],
     [SqrAdd 4, SqrAdd2 5 3, SqrAdd2 6 2, SqrAdd2 7 1],
     [SqrAdd2 7 2, SqrAdd2 6 3, SqrAdd2 5 4],
     [SqrAdd 5, SqrAdd2 6 4, SqrAdd2 7 3],
     [SqrAdd2 7 4, SqrAdd2 6 5],
     [SqrAdd 6, SqrAdd2 7 5],
     [SqrAdd2 7 6],
     [SqrAdd 7]]"

definition bn_sqr_comba4_cols :: "sqr_op list list" where
  "bn_sqr_comba4_cols =
    [[SqrAdd 0],
     [SqrAdd2 1 0],
     [SqrAdd 1, SqrAdd2 2 0],
     [SqrAdd2 3 0, SqrAdd2 2 1],
     [SqrAdd 2, SqrAdd2 3 1],
     [SqrAdd2 3 2],
     [SqrAdd 3]]"


lemma Cons_case: "r # (case p of (x, y, z) \<Rightarrow> f x y z) = (case p of (x, y, z) \<Rightarrow> r # f x y z)"
  by (cases p) simp

lemma mul_comba_columns:
  "bn_mul_comba8 a b = columns (mul_col a b) bn_mul_comba8_cols (0, 0)"
  "bn_mul_comba4 a b = columns (mul_col a b) bn_mul_comba4_cols (0, 0)"
  by (simp_all only: bn_mul_comba8_def bn_mul_comba8_cols_def bn_mul_comba4_def bn_mul_comba4_cols_def Let_def columns.simps Cons_case)

lemma sqr_comba_columns:
  "bn_sqr_comba8 a = columns (sqr_col a) bn_sqr_comba8_cols (0, 0)"
  "bn_sqr_comba4 a = columns (sqr_col a) bn_sqr_comba4_cols (0, 0)"
  by (simp_all only: bn_sqr_comba8_def bn_sqr_comba8_cols_def bn_sqr_comba4_def bn_sqr_comba4_cols_def Let_def columns.simps Cons_case)

section \<open>Correctness\<close>

fun val3 :: "acc \<Rightarrow> int" where
  "val3 (c0, c1, c2) = uint c0 + bn_base * (uint c1 + bn_base * uint c2)"

fun top3 :: "acc \<Rightarrow> int" where
  "top3 (c0, c1, c2) = uint c2"

text \<open>Adding a word to the middle of the accumulator and carrying into the top.\<close>

lemma carry_up:
  fixes c1 c2 hi :: BN_ULONG
  assumes "uint c2 + 1 < bn_base"
  shows "uint (c1 + hi) + bn_base * uint (if c1 + hi < hi then c2 + 1 else c2) = uint c1 + uint hi + bn_base * uint c2
    \<and> uint (if c1 + hi < hi then c2 + 1 else c2) \<le> uint c2 + 1"
proof -
  have "uint (c2 + 1) = uint c2 + 1" using assms by (simp add: uint_plus_u64)
  then show ?thesis using uint_add_carry [of c1 hi] by (auto split: if_splits)
qed

lemma mul_add_c_ok:
  assumes "top3 c + 1 < bn_base"
  shows "val3 (mul_add_c a b c) = val3 c + uint a * uint b \<and> top3 (mul_add_c a b c) \<le> top3 c + 1"
proof -
  obtain c0 c1 c2 where c: "c = (c0, c1, c2)" by (cases c) auto
  define t where "t = (ucast a * ucast b + ucast c0 :: BN_ULLONG)"
  have t: "uint (Lw t) + bn_base * uint (Hw t) = uint a * uint b + uint c0"
    unfolding Lw_Hw t_def by (rule uint_mult_add_128)
  have m: "mul_add_c a b c = (Lw t, c1 + Hw t, if c1 + Hw t < Hw t then c2 + 1 else c2)"
    by (simp add: mul_add_c_def c t_def Let_def)
  show ?thesis unfolding m using carry_up [of c2 c1 "Hw t"] assms t by (simp add: c algebra_simps del: uint_u64)
qed

lemma mul_add_c2_ok:
  assumes "top3 c + 2 < bn_base"
  shows "val3 (mul_add_c2 a b c) = val3 c + 2 * (uint a * uint b) \<and> top3 (mul_add_c2 a b c) \<le> top3 c + 2"
proof -
  have "mul_add_c2 a b c = mul_add_c a b (mul_add_c a b c)"
    by (simp add: mul_add_c2_def mul_add_c_def Let_def split: prod.splits)
  then show ?thesis using mul_add_c_ok [of c a b] mul_add_c_ok [of "mul_add_c a b c" a b] assms by simp
qed


text \<open>What an accumulation of a column must do: add the number \<open>sum_of\<close> of its entries. Then the columns
  together are a number in base \<open>2 ^ 64\<close>.\<close>

locale column_sum =
  fixes f :: "'p list \<Rightarrow> acc \<Rightarrow> acc" and sum_of :: "'p list \<Rightarrow> int"
  assumes exact: "top3 c + 2 * int (length ps) < bn_base \<Longrightarrow> val3 (f ps c) = val3 c + sum_of ps"
begin

fun cols_val :: "'p list list \<Rightarrow> int" where
  "cols_val [] = 0"
| "cols_val (ps # cols) = sum_of ps + bn_base * cols_val cols"

lemma columns_exact:
  assumes "\<forall>ps \<in> set cols. length ps \<le> 8"
  shows "\<exists>t \<ge> 0. words_val (columns f cols (c1, c2)) + bn_base ^ (length cols + 1) * t
    = uint c1 + bn_base * uint c2 + cols_val cols"
  using assms
proof (induction cols arbitrary: c1 c2)
  case Nil
  show ?case by (intro exI [of _ "uint c2"]) simp
next
  case (Cons ps cols)
  obtain r d1 d2 where f: "f ps (c1, c2, 0) = (r, d1, d2)" by (cases "f ps (c1, c2, 0)") auto
  have v: "uint r + bn_base * (uint d1 + bn_base * uint d2) = uint c1 + bn_base * uint c2 + sum_of ps"
    using exact [of "(c1, c2, 0)" ps] Cons.prems f by simp
  obtain t where t: "t \<ge> 0" "words_val (columns f cols (d1, d2)) + bn_base ^ (length cols + 1) * t
      = uint d1 + bn_base * uint d2 + cols_val cols"
    using Cons.IH [of d1 d2] Cons.prems by auto
  show ?case using t(1) v arg_cong [OF t(2), of "\<lambda>x. bn_base * x"] f
    by (intro exI [of _ t]) (simp add: algebra_simps)
qed

lemma length_columns: "length (columns f cols c) = length cols + 1"
  by (induction cols arbitrary: c) (auto split: prod.split)

lemma columns_value:
  assumes "\<forall>ps \<in> set cols. length ps \<le> 8" and "cols_val cols < bn_base ^ (length cols + 1)"
  shows "words_val (columns f cols (0, 0)) = cols_val cols"
proof -
  obtain t where t: "t \<ge> 0" "words_val (columns f cols (0, 0)) + bn_base ^ (length cols + 1) * t = cols_val cols"
    using columns_exact [OF assms(1), of 0 0] by auto
  have "t = 0"
  proof (rule ccontr)
    assume "t \<noteq> 0"
    then have "bn_base ^ (length cols + 1) * 1 \<le> bn_base ^ (length cols + 1) * t" using t(1) by (intro mult_left_mono) auto
    then show False using t(2) assms(2) words_val_nonneg [of "columns f cols (0, 0)"] by linarith
  qed
  with t(2) show ?thesis by simp
qed

lemma columns_product:
  assumes "cols_val cols = p" and "\<forall>ps \<in> set cols. length ps \<le> 8" and "length cols + 1 = n" and "p < bn_base ^ n"
  shows "words_val (columns f cols (0, 0)) = p \<and> length (columns f cols (0, 0)) = n"
  using columns_value [of cols, OF assms(2)] length_columns [of cols] assms(1,4) unfolding assms(3) [symmetric] by simp

end

lemma mul_col_ok:
  assumes "top3 c + int (length ijs) < bn_base"
  shows "val3 (mul_col a b ijs c) = val3 c + (\<Sum>(i, j)\<leftarrow>ijs. uint (a ! i) * uint (b ! j))"
  using assms
proof (induction ijs arbitrary: c)
  case (Cons p ijs)
  obtain i j where p: "p = (i, j)" by fastforce
  show ?case using Cons.IH [of "mul_add_c (a ! i) (b ! j) c"] mul_add_c_ok [of c "a ! i" "b ! j"] Cons.prems
    by (simp add: p mul_col_def)
qed (simp add: mul_col_def)

fun sqr_of :: "BN_ULONG list \<Rightarrow> sqr_op \<Rightarrow> int" where
  "sqr_of a (SqrAdd i) = uint (a ! i) * uint (a ! i)"
| "sqr_of a (SqrAdd2 i j) = 2 * (uint (a ! i) * uint (a ! j))"

lemma sqr_col_ok:
  assumes "top3 c + 2 * int (length ops) < bn_base"
  shows "val3 (sqr_col a ops c) = val3 c + sum_list (map (sqr_of a) ops)"
  using assms
proof (induction ops arbitrary: c)
  case (Cons p ops)
  have "val3 (sqr_add a p c) = val3 c + sqr_of a p \<and> top3 (sqr_add a p c) \<le> top3 c + 2"
  proof (cases p)
    case (SqrAdd i)
    then show ?thesis using mul_add_c_ok [of c "a ! i" "a ! i"] Cons.prems by (simp del: val3.simps)
  next
    case (SqrAdd2 i j)
    then show ?thesis using mul_add_c2_ok [of c "a ! i" "a ! j"] Cons.prems by (simp del: val3.simps)
  qed
  then show ?case using Cons.IH [of "sqr_add a p c"] Cons.prems by (simp add: sqr_col_def)
qed (simp add: sqr_col_def)

interpretation mulc: column_sum "mul_col a b" "\<lambda>ijs. \<Sum>(i, j)\<leftarrow>ijs. uint (a ! i) * uint (b ! j)" for a b
  by unfold_locales (simp add: mul_col_ok)

interpretation sqrc: column_sum "sqr_col a" "\<lambda>ops. sum_list (map (sqr_of a) ops)" for a
  by unfold_locales (simp add: sqr_col_ok)

lemma length_8: "length xs = 8 \<Longrightarrow> \<exists>x0 x1 x2 x3 x4 x5 x6 x7. xs = [x0, x1, x2, x3, x4, x5, x6, x7]"
  by (auto simp: eval_nat_numeral length_Suc_conv)

lemma length_4: "length xs = 4 \<Longrightarrow> \<exists>x0 x1 x2 x3. xs = [x0, x1, x2, x3]"
  by (auto simp: eval_nat_numeral length_Suc_conv)

lemma words_val_mult_less:
  assumes "length a = n" and "length b = m"
  shows "words_val a * words_val b < bn_base ^ (n + m)"
  using mult_strict_mono' [OF words_val_less [of a] words_val_less [of b]] assms by (simp add: power_add)

lemma bn_mul_comba4_ok:
  assumes "length a = 4" and "length b = 4"
  shows "words_val (bn_mul_comba4 a b) = words_val a * words_val b \<and> length (bn_mul_comba4 a b) = 8"
proof -
  obtain a0 a1 a2 a3 where a: "a = [a0, a1, a2, a3]" using length_4 [OF assms(1)] by blast
  obtain b0 b1 b2 b3 where b: "b = [b0, b1, b2, b3]" using length_4 [OF assms(2)] by blast
  define B where "B = bn_base"
  have v: "mulc.cols_val a b bn_mul_comba4_cols = words_val a * words_val b"
    unfolding a b mulc.cols_val.simps words_val.simps bn_mul_comba4_cols_def B_def [symmetric]
    by simp algebra
  show ?thesis unfolding mul_comba_columns
    using mulc.columns_product [OF v _ _ words_val_mult_less [OF assms]] by (simp add: bn_mul_comba4_cols_def)
qed

lemma bn_mul_comba8_ok:
  assumes "length a = 8" and "length b = 8"
  shows "words_val (bn_mul_comba8 a b) = words_val a * words_val b \<and> length (bn_mul_comba8 a b) = 16"
proof -
  obtain a0 a1 a2 a3 a4 a5 a6 a7 where a: "a = [a0, a1, a2, a3, a4, a5, a6, a7]" using length_8 [OF assms(1)] by blast
  obtain b0 b1 b2 b3 b4 b5 b6 b7 where b: "b = [b0, b1, b2, b3, b4, b5, b6, b7]" using length_8 [OF assms(2)] by blast
  define B where "B = bn_base"
  have v: "mulc.cols_val a b bn_mul_comba8_cols = words_val a * words_val b"
    unfolding a b mulc.cols_val.simps words_val.simps bn_mul_comba8_cols_def B_def [symmetric]
    by simp algebra
  show ?thesis unfolding mul_comba_columns
    using mulc.columns_product [OF v _ _ words_val_mult_less [OF assms]] by (simp add: bn_mul_comba8_cols_def)
qed

lemma bn_sqr_comba4_ok:
  assumes "length a = 4"
  shows "words_val (bn_sqr_comba4 a) = words_val a * words_val a \<and> length (bn_sqr_comba4 a) = 8"
proof -
  obtain a0 a1 a2 a3 where a: "a = [a0, a1, a2, a3]" using length_4 [OF assms] by blast
  define B where "B = bn_base"
  have v: "sqrc.cols_val a bn_sqr_comba4_cols = words_val a * words_val a"
    unfolding a sqrc.cols_val.simps words_val.simps bn_sqr_comba4_cols_def B_def [symmetric]
    by simp algebra
  show ?thesis unfolding sqr_comba_columns
    using sqrc.columns_product [OF v _ _ words_val_mult_less [OF assms assms]] by (simp add: bn_sqr_comba4_cols_def)
qed

lemma bn_sqr_comba8_ok:
  assumes "length a = 8"
  shows "words_val (bn_sqr_comba8 a) = words_val a * words_val a \<and> length (bn_sqr_comba8 a) = 16"
proof -
  obtain a0 a1 a2 a3 a4 a5 a6 a7 where a: "a = [a0, a1, a2, a3, a4, a5, a6, a7]" using length_8 [OF assms] by blast
  define B where "B = bn_base"
  have v: "sqrc.cols_val a bn_sqr_comba8_cols = words_val a * words_val a"
    unfolding a sqrc.cols_val.simps words_val.simps bn_sqr_comba8_cols_def B_def [symmetric]
    by simp algebra
  show ?thesis unfolding sqr_comba_columns
    using sqrc.columns_product [OF v _ _ words_val_mult_less [OF assms assms]] by (simp add: bn_sqr_comba8_cols_def)
qed

section \<open>The squares of the words\<close>

primrec squares :: "BN_ULONG list \<Rightarrow> nat \<Rightarrow> nat \<Rightarrow> BN_ULONG list" where
  "squares a 0 i = []"
| "squares a (Suc n) i = fst (sqr_word (a ! i)) # snd (sqr_word (a ! i)) # squares a n (Suc i)"

lemma sqr_words_loop_eq: "sqr_words_loop a n i = squares a n i"
proof (induction a n i rule: sqr_words_loop.induct)
  case (1 a n i)
  consider "4 \<le> n" | "0 < n" "n < 4" | "n = 0" by linarith
  then show ?case
  proof cases
    case c: 1
    then obtain m where m: "n = Suc (Suc (Suc (Suc m)))" using nat_ge_4 by blast
    have "sqr_words_loop a (n - 4) (i + 4) = squares a (n - 4) (i + 4)"
      by (rule 1(1) [OF c refl prod.collapse refl prod.collapse refl prod.collapse refl prod.collapse])
    then show ?thesis using m by (subst sqr_words_loop.simps) (simp add: case_prod_beta eval_nat_numeral)
  next
    case c: 2
    then obtain m where "n = Suc m" by (cases n) auto
    moreover have "sqr_words_loop a (n - 1) (i + 1) = squares a (n - 1) (i + 1)"
      by (rule 1(2) [OF _ c(1) refl prod.collapse]) (use c in simp)
    ultimately show ?thesis using c by (subst sqr_words_loop.simps) (simp add: case_prod_beta)
  qed (simp add: sqr_words_loop.simps)
qed

lemma squares_val:
  "words_val (squares a n i) = (\<Sum>j < n. (uint (a ! (i + j)))\<^sup>2 * bn_base ^ (2 * j)) \<and> length (squares a n i) = 2 * n"
proof (induction n arbitrary: i)
  case (Suc n)
  have w: "uint (fst (sqr_word (a ! i))) + bn_base * uint (snd (sqr_word (a ! i))) = (uint (a ! i))\<^sup>2"
    using sqr_word_exact [of "a ! i"] by (simp add: power2_eq_square)
  have "(\<Sum>j < Suc n. (uint (a ! (i + j)))\<^sup>2 * bn_base ^ (2 * j))
      = (uint (a ! i))\<^sup>2 + bn_base * (bn_base * (\<Sum>j < n. (uint (a ! (Suc i + j)))\<^sup>2 * bn_base ^ (2 * j)))"
    by (subst sum.lessThan_Suc_shift) (simp add: sum_distrib_left algebra_simps)
  then show ?case using Suc.IH [of "Suc i"] w by (simp add: distrib_left)
qed simp

lemma bn_sqr_words_ok:
  "words_val (bn_sqr_words a n) = (\<Sum>j < n. (uint (a ! j))\<^sup>2 * bn_base ^ (2 * j)) \<and> length (bn_sqr_words a n) = 2 * n"
  using squares_val [of a n 0] by (cases "n = 0") (simp_all add: bn_sqr_words_def sqr_words_loop_eq)

end
