(* ===== verification/Bn_Bytes.thy ===== *)
theory Bn_Bytes
  imports Bn_Add
begin

text \<open>
  Big numbers and byte strings (\<open>crypto/fipsmodule/bn/bytes.c\<close>). The machine is little-endian:
  \<open>mem_bytes\<close> are the bytes at which a vector of words lies in memory, \<open>mem_words\<close> the words that
  lie at a vector of bytes. The readers return the pointer they return in C, with the object it points
  to; when they return a null pointer an object passed by the caller is as it was.
\<close>

definition mem_bytes :: "BN_ULONG list \<Rightarrow> bytes" where
  "mem_bytes ws = concat (map (\<lambda>w. le_bytes 8 (unat w)) ws)"

definition mem_words :: "bytes \<Rightarrow> BN_ULONG list" where
  "mem_words bs = map (\<lambda>i. of_nat (le_val (take 8 (drop (8 * i) bs)))) [0..<length bs div 8]"

section \<open>Reading\<close>

fun bin2bn_loop :: "bytes \<Rightarrow> BN_ULONG \<Rightarrow> nat \<Rightarrow> nat \<Rightarrow> BN_ULONG list \<Rightarrow> BN_ULONG list" where
  "bin2bn_loop [] word m num_words d = d"
| "bin2bn_loop (b # inp) word m num_words d =
     (let word = push_bit 8 word OR ucast b
      in if m = 0 then bin2bn_loop inp 0 7 (num_words - 1) (d[num_words - 1 := word])
         else bin2bn_loop inp word (m - 1) num_words d)"

definition BN_bin2bn :: "alloc \<Rightarrow> bytes \<Rightarrow> BIGNUM option \<Rightarrow> BIGNUM option" where
  "BN_bin2bn A inp ret =
     (case (case ret of None \<Rightarrow> BN_new A | Some ret \<Rightarrow> Some ret) of
        None \<Rightarrow> None
      | Some ret \<Rightarrow>
          if length inp = 0 then Some (ret\<lparr>width := 0\<rparr>)
          else
            (let num_words = (length inp - 1) div 8 + 1; m = (length inp - 1) mod 8
             in case bn_wexpand A ret num_words of
                  (False, _) \<Rightarrow> None
                | (True, ret) \<Rightarrow>
                    Some (ret\<lparr>bn_d := bin2bn_loop inp 0 m num_words (bn_d ret), width := num_words, neg := False\<rparr>)))"

definition BN_le2bn :: "alloc \<Rightarrow> bytes \<Rightarrow> BIGNUM option \<Rightarrow> BIGNUM option" where
  "BN_le2bn A inp ret =
     (case (case ret of None \<Rightarrow> BN_new A | Some ret \<Rightarrow> Some ret) of
        None \<Rightarrow> None
      | Some ret \<Rightarrow>
          if length inp = 0 then Some (ret\<lparr>width := 0, neg := False\<rparr>)
          else
            (let num_words = (length inp - 1) div 8 + 1
             in case bn_wexpand A ret num_words of
                  (False, _) \<Rightarrow> None
                | (True, ret) \<Rightarrow>
                    (let d = (bn_d ret)[num_words - 1 := 0]
                     in Some (ret\<lparr>bn_d := mem_words (inp @ drop (length inp) (mem_bytes d)), width := num_words\<rparr>))))"

section \<open>Writing\<close>

fun bn2bin_loop :: "BN_ULONG list \<Rightarrow> nat \<Rightarrow> bytes" where
  "bn2bin_loop d 0 = []"
| "bn2bin_loop d (Suc i) =
     (let l = d ! (i div 8) in (ucast (drop_bit (8 * (i mod 8)) l) AND 0xff) # bn2bin_loop d i)"

definition BN_bn2bin :: "BIGNUM \<Rightarrow> bytes" where
  "BN_bn2bin bn = bn2bin_loop (bn_d bn) (BN_num_bytes bn)"

definition fits_in_bytes :: "bytes \<Rightarrow> nat \<Rightarrow> nat \<Rightarrow> bool" where
  "fits_in_bytes bs num_bytes len = (foldl (OR) 0 (drop len (take num_bytes bs)) = (0 :: u8))"

definition BN_bn2le_padded :: "nat \<Rightarrow> BIGNUM \<Rightarrow> bytes option" where
  "BN_bn2le_padded len bn =
     (let bs = mem_bytes (bn_d bn); num_bytes = width bn * 8
      in if len < num_bytes \<and> \<not> fits_in_bytes bs num_bytes len then None
         else
           (let num_bytes = (if len < num_bytes then len else num_bytes)
            in Some (take num_bytes bs @ replicate (len - num_bytes) 0)))"

definition BN_bn2bin_padded :: "nat \<Rightarrow> BIGNUM \<Rightarrow> bytes option" where
  "BN_bn2bin_padded len bn =
     (let bs = mem_bytes (bn_d bn); num_bytes = width bn * 8
      in if len < num_bytes \<and> \<not> fits_in_bytes bs num_bytes len then None
         else
           (let num_bytes = (if len < num_bytes then len else num_bytes)
            in Some (replicate (len - num_bytes) 0 @ rev (take num_bytes bs))))"

definition BN_get_word :: "BIGNUM \<Rightarrow> BN_ULONG" where
  "BN_get_word bn =
     (let w = bn_minimal_width bn in if w = 0 then 0 else if w = 1 then bn_d bn ! 0 else - 1)"

definition BN_get_u64 :: "BIGNUM \<Rightarrow> u64 option" where
  "BN_get_u64 bn =
     (let w = bn_minimal_width bn in if w = 0 then Some 0 else if w = 1 then Some (bn_d bn ! 0) else None)"

section \<open>Memory\<close>

lemma bn_base_256: "bn_base ^ n = 256 ^ (8 * n)"
  by (simp add: power_mult)

lemma le_val_append [simp]: "le_val (xs @ ys) = le_val xs + 256 ^ length xs * le_val ys"
  by (induction xs) (simp_all add: algebra_simps)

lemma le_val_rev: "be_val (rev xs) = le_val xs"
  by (induction xs) simp_all

lemma le_val_replicate_0 [simp]: "le_val (replicate n 0) = 0"
  by (induction n) simp_all

lemma be_val_replicate_0 [simp]: "be_val (replicate n 0) = 0"
  by (induction n) simp_all

lemma le_val_take: "n \<le> length xs \<Longrightarrow> le_val (take n xs) = le_val xs mod 256 ^ n"
  using le_val_append [of "take n xs" "drop n xs"] le_val_less [of "take n xs"] by simp

lemma le_val_drop: "n \<le> length xs \<Longrightarrow> le_val (drop n xs) = le_val xs div 256 ^ n"
  using le_val_append [of "take n xs" "drop n xs"] le_val_less [of "take n xs"] by simp

lemma le_bytes_le_val: "le_bytes (length xs) (le_val xs) = xs"
proof (induction xs)
  case (Cons x xs)
  have "(of_nat (unat x + 256 * le_val xs) :: u8) = x" by (rule u8_eqI) (simp only: unat_of_nat_u8, simp)
  then show ?case using Cons.IH by simp
qed simp

lemma le_val_inject: "length xs = length ys \<Longrightarrow> le_val xs = le_val ys \<Longrightarrow> xs = ys"
  using le_bytes_le_val by metis

lemma length_mem_bytes [simp]: "length (mem_bytes ws) = 8 * length ws"
  by (induction ws) (simp_all add: mem_bytes_def)

lemma le_val_mem_bytes: "int (le_val (mem_bytes ws)) = words_val ws"
proof (induction ws)
  case (Cons w ws)
  have "int (unat w mod 256 ^ 8) = uint w" using unsigned_less [of w, where ?'a = nat] by simp
  then show ?case using Cons.IH by (simp add: mem_bytes_def del: power_numeral) simp
qed (simp add: mem_bytes_def)

lemma mem_bytes_take: "mem_bytes (take n ws) = take (8 * n) (mem_bytes ws)"
proof (induction ws arbitrary: n)
  case (Cons w ws)
  then show ?case by (cases n) (simp_all add: mem_bytes_def)
qed (simp add: mem_bytes_def)

lemma mem_bytes_nth:
  assumes "i < 8 * length ws"
  shows "mem_bytes ws ! i = ucast (drop_bit (8 * (i mod 8)) (ws ! (i div 8)))"
proof -
  have step: "le_bytes k n ! j = of_nat (n div 256 ^ j)" if "j < k" for k n j
    using that
  proof (induction k arbitrary: n j)
    case (Suc k)
    then show ?case by (cases j) (simp_all add: div_mult2_eq)
  qed simp
  show ?thesis using assms
  proof (induction ws arbitrary: i)
    case (Cons w ws)
    show ?case
    proof (cases "i < 8")
      case True
      have "(of_nat (unat w div 256 ^ i) :: u8) = ucast (drop_bit (8 * i) w)"
        by (rule u8_eqI) (simp add: unat_of_nat unsigned_ucast_eq unat_drop_bit_div take_bit_eq_mod power_mult)
      then show ?thesis using True step [of i 8 "unat w"] by (simp add: mem_bytes_def nth_append)
    next
      case False
      then have i: "i div 8 = Suc ((i - 8) div 8)" "i mod 8 = (i - 8) mod 8" by (simp_all add: le_div_geq le_mod_geq)
      have "mem_bytes (w # ws) ! i = mem_bytes ws ! (i - 8)" using False by (simp add: mem_bytes_def nth_append)
      also have "\<dots> = ucast (drop_bit (8 * ((i - 8) mod 8)) (ws ! ((i - 8) div 8)))" using Cons False by simp
      also have "\<dots> = ucast (drop_bit (8 * (i mod 8)) ((w # ws) ! (i div 8)))"
        by (simp only: i nth_Cons_Suc)
      finally show ?thesis .
    qed
  qed simp
qed

lemma mem_words_bytes:
  assumes "length bs = 8 * n"
  shows "length (mem_words bs) = n \<and> words_val (mem_words bs) = int (le_val bs) \<and> mem_bytes (mem_words bs) = bs"
  using assms
proof (induction n arbitrary: bs)
  case (Suc n)
  have len: "length (drop 8 bs) = 8 * n" "length (take 8 bs) = 8" using Suc.prems by simp_all
  have up: "[0..<Suc n] = 0 # map Suc [0..<n]" by (simp add: upt_conv_Cons map_Suc_upt)
  have m: "mem_words bs = of_nat (le_val (take 8 bs)) # mem_words (drop 8 bs)"
    using Suc.prems len by (simp add: mem_words_def up o_def add.commute del: upt_Suc)
  have u: "unat (of_nat (le_val (take 8 bs)) :: u64) = le_val (take 8 bs)"
    using le_val_less [of "take 8 bs"] len(2) by (simp add: unat_of_nat take_bit_nat_eq_self)
  then have ui: "uint (of_nat (le_val (take 8 bs)) :: u64) = int (le_val (take 8 bs))" by (simp only: uint_nat)
  have "le_bytes 8 (le_val (take 8 bs)) = take 8 bs" using le_bytes_le_val [of "take 8 bs"] len(2) by simp
  moreover have "le_val bs = le_val (take 8 bs) + 256 ^ 8 * le_val (drop 8 bs)"
    using le_val_append [of "take 8 bs" "drop 8 bs"] len(2) by simp
  ultimately show ?case using Suc.IH [OF len(1)] u ui by (simp add: m mem_bytes_def)
qed (simp add: mem_words_def mem_bytes_def)

section \<open>The readers\<close>

lemma bin2bn_loop_ok:
  assumes "length inp = (if inp = [] then 0 else 8 * (n - 1) + m + 1)" and "inp = [] \<Longrightarrow> n = 0 \<and> word = 0" and "inp \<noteq> [] \<Longrightarrow> 0 < n"
    and "m < 8" and "unat word < 256 ^ (7 - m)" and "n \<le> length d"
  shows "words_val (take n (bin2bn_loop inp word m n d)) = int (unat word * 256 ^ length inp + be_val inp)
    \<and> length (bin2bn_loop inp word m n d) = length d \<and> drop n (bin2bn_loop inp word m n d) = drop n d"
  using assms
proof (induction inp word m n d rule: bin2bn_loop.induct)
  case (2 b inp word m n d)
  define w where "w = push_bit 8 word OR ucast b"
  have b: "unat word * 256 + unat b < 256 ^ (8 - m)"
  proof -
    have "unat word * 256 + unat b < 256 * (unat word + 1)" using u8_less [of b] by (simp del: u8_less)
    also have "\<dots> \<le> 256 * 256 ^ (7 - m)" using "2.prems"(5) by (intro mult_left_mono) simp_all
    also have "\<dots> = 256 ^ (8 - m)" using "2.prems"(4) by (simp add: Suc_diff_le flip: power_Suc)
    finally show ?thesis .
  qed
  moreover have "(256 :: nat) ^ (8 - m) \<le> 256 ^ 8" by (intro power_increasing) simp_all
  ultimately have "unat word * 256 + unat b < 2 ^ 64" by simp
  then have w: "unat w = unat word * 256 + unat b"
    by (simp add: w_def or_eq_plus_shift8 unat_word_ariths)
  show ?case
  proof (cases "m = 0")
    case True
    obtain k where k: "n = Suc k" using "2.prems"(3) by (cases n) simp_all
    let ?d = "d[k := w]"
    have len: "length inp = 8 * k" using "2.prems"(1) True k by simp
    have kl: "k < length d" using "2.prems"(6) k by simp
    have IH: "words_val (take k (bin2bn_loop inp 0 7 k ?d)) = int (be_val inp) \<and> length (bin2bn_loop inp 0 7 k ?d) = length d
        \<and> drop k (bin2bn_loop inp 0 7 k ?d) = drop k ?d"
    proof (cases "inp = []")
      case True
      then show ?thesis using len by simp
    next
      case False
      then show ?thesis using "2.IH"(1) [OF refl \<open>m = 0\<close>] len kl k by (cases k) (simp_all add: w_def)
    qed
    define r where "r = bin2bn_loop inp 0 7 k ?d"
    have r: "drop k r = w # drop n d" "length r = length d" using IH kl k by (simp_all add: r_def drop_update_cancel Cons_nth_drop_Suc [symmetric])
    have "take n r = take k r @ [w]"
      using r kl k by (simp add: take_Suc_conv_app_nth nth_via_drop)
    moreover have "drop n r = drop n d" using arg_cong [OF r(1), of tl] by (simp add: k drop_Suc tl_drop)
    moreover have "bn_base ^ k = 256 ^ length inp" by (simp add: len power_mult)
    moreover have "uint w = uint word * 256 + uint b" using arg_cong [OF w, of int] by simp
    ultimately show ?thesis using IH r kl True k w
      by (simp add: Let_def words_val_append flip: w_def r_def) (simp add: algebra_simps)
  next
    case False
    have "inp \<noteq> []" "length inp = 8 * (n - 1) + (m - 1) + 1" using "2.prems"(1) False by auto
    then show ?thesis using "2.IH"(2) [OF refl False] "2.prems" b w False
      by (simp add: Let_def algebra_simps flip: w_def)
  qed
qed simp

lemma BN_bin2bn_ok:
  assumes "\<And>s. ret = Some s \<Longrightarrow> bn_ok s" and "BN_bin2bn A inp ret = Some r"
  shows "bn_ok r \<and> bn_abs r = int (be_val inp) \<and> width r = (length inp + 7) div 8 \<and> (inp \<noteq> [] \<longrightarrow> \<not> neg r)"
proof -
  obtain s where s: "(case ret of None \<Rightarrow> BN_new A | Some ret \<Rightarrow> Some ret) = Some s"
    using assms(2) by (auto simp: BN_bin2bn_def split: option.splits)
  have ok: "bn_ok s" using s assms(1) by (auto simp: BN_new_def BN_init_def bn_ok_def split: if_splits option.splits)
  show ?thesis
  proof (cases "inp = []")
    case True
    then have "r = s\<lparr>width := 0\<rparr>" using assms(2) s by (simp add: BN_bin2bn_def)
    then show ?thesis using ok True by (simp add: bn_ok_def bn_abs_def bn_words_def)
  next
    case False
    define n where "n = (length inp - 1) div 8 + 1"
    define m where "m = (length inp - 1) mod 8"
    have nm: "length inp = 8 * (n - 1) + m + 1" "m < 8" "0 < n"
      using False by (simp_all add: n_def m_def)
    obtain t where t: "bn_wexpand A s n = (True, t)"
      and r: "r = t\<lparr>bn_d := bin2bn_loop inp 0 m n (bn_d t), width := n, neg := False\<rparr>"
      using assms(2) s False by (auto simp: BN_bin2bn_def Let_def n_def m_def split: prod.splits bool.splits)
    have T: "bn_ok t" "n \<le> dmax t" using bn_wexpand_ok [OF ok t] by simp_all
    have "words_val (take n (bin2bn_loop inp 0 m n (bn_d t))) = int (be_val inp) \<and> length (bin2bn_loop inp 0 m n (bn_d t)) = dmax t"
      using bin2bn_loop_ok [of inp n m 0 "bn_d t"] nm False T(2) by simp
    then show ?thesis using T nm by (simp add: r bn_ok_def bn_abs_def bn_words_def)
  qed
qed

lemma mem_words_prefix:
  assumes "length inp \<le> 8 * n" and "n \<le> length d" and "8 * n < length inp + 8" and "0 < n"
  shows "length (mem_words (inp @ drop (length inp) (mem_bytes (d[n - 1 := 0])))) = length d
    \<and> words_val (take n (mem_words (inp @ drop (length inp) (mem_bytes (d[n - 1 := 0]))))) = int (le_val inp)"
proof -
  define e where "e = d[n - 1 := 0]"
  define bs where "bs = inp @ drop (length inp) (mem_bytes e)"
  have len: "length bs = 8 * length d" using assms by (simp add: bs_def e_def)
  note M = mem_words_bytes [OF len]
  have "take (8 * n) bs = inp @ drop (length inp) (mem_bytes (take n e))"
    using assms(1) by (simp add: bs_def mem_bytes_take take_drop [symmetric] drop_take)
  moreover have "drop (length inp) (mem_bytes (take n e)) = replicate (8 * n - length inp) 0"
  proof (rule nth_equalityI)
    have l: "length (take n e) = n" using assms(2) by (simp add: e_def)
    then show "length (drop (length inp) (mem_bytes (take n e))) = length (replicate (8 * n - length inp) (0 :: u8))" by simp
    fix i
    assume "i < length (drop (length inp) (mem_bytes (take n e)))"
    then have i: "length inp + i < 8 * n" using l by simp
    then have "(length inp + i) div 8 = n - 1" using assms(3,4) by (intro div_nat_eqI) simp_all
    moreover have "take n e ! (n - 1) = 0" using assms(2,4) by (simp add: e_def)
    ultimately show "drop (length inp) (mem_bytes (take n e)) ! i = replicate (8 * n - length inp) 0 ! i"
      using i l assms(1) by (simp add: mem_bytes_nth)
  qed
  ultimately have "le_val (take (8 * n) bs) = le_val inp" by simp
  moreover have "take (8 * n) bs = mem_bytes (take n (mem_words bs))" using M by (simp add: mem_bytes_take)
  ultimately have "words_val (take n (mem_words bs)) = int (le_val inp)" by (simp flip: le_val_mem_bytes)
  then show ?thesis using M by (simp add: bs_def e_def)
qed

lemma BN_le2bn_ok:
  assumes "\<And>s. ret = Some s \<Longrightarrow> bn_ok s" and "BN_le2bn A inp ret = Some r"
  shows "bn_ok r \<and> bn_abs r = int (le_val inp) \<and> width r = (length inp + 7) div 8
    \<and> neg r = (inp \<noteq> [] \<and> (\<exists>s. ret = Some s \<and> neg s))"
proof -
  obtain s where s: "(case ret of None \<Rightarrow> BN_new A | Some ret \<Rightarrow> Some ret) = Some s"
    using assms(2) by (auto simp: BN_le2bn_def split: option.splits)
  have ok: "bn_ok s" "neg s = (\<exists>s. ret = Some s \<and> neg s)"
    using s assms(1) by (auto simp: BN_new_def BN_init_def bn_ok_def split: if_splits option.splits)
  show ?thesis
  proof (cases "inp = []")
    case True
    then have "r = s\<lparr>width := 0, neg := False\<rparr>" using assms(2) s by (simp add: BN_le2bn_def)
    then show ?thesis using ok True by (simp add: bn_ok_def bn_abs_def bn_words_def)
  next
    case False
    define n where "n = (length inp - 1) div 8 + 1"
    have n: "length inp \<le> 8 * n" "8 * n < length inp + 8" "0 < n" "n = (length inp + 7) div 8"
      using False by (cases inp; simp add: n_def; arith)+
    obtain t where t: "bn_wexpand A s n = (True, t)"
      and r: "r = t\<lparr>bn_d := mem_words (inp @ drop (length inp) (mem_bytes ((bn_d t)[n - 1 := 0]))), width := n\<rparr>"
      using assms(2) s False by (auto simp: BN_le2bn_def Let_def n_def split: prod.splits bool.splits)
    have T: "bn_ok t" "n \<le> dmax t" "neg t = neg s" using bn_wexpand_ok [OF ok(1) t] by simp_all
    show ?thesis using T ok n False mem_words_prefix [OF n(1) T(2) n(2,3)] by (simp add: r bn_ok_def bn_abs_def bn_words_def)
  qed
qed

section \<open>The writers\<close>

lemma le_bytes_unique: "length xs = n \<Longrightarrow> le_val xs = v \<Longrightarrow> xs = le_bytes n v"
  using le_bytes_le_val [of xs] by simp

lemma rev_le_bytes: "rev (le_bytes n v) = be_bytes n v"
  by (rule be_val_inject) (simp_all add: le_val_rev)

lemma le_val_mem_words:
  assumes "bn_ok bn" and "n \<le> 8 * width bn"
  shows "le_val (take n (mem_bytes (bn_d bn))) = nat (bn_abs bn) mod 256 ^ n"
proof -
  have "take n (mem_bytes (bn_d bn)) = take n (mem_bytes (bn_words bn))"
    using assms(2) by (simp add: bn_words_def mem_bytes_take min_def)
  moreover have "le_val (mem_bytes (bn_words bn)) = nat (bn_abs bn)" by (simp add: bn_abs_def flip: le_val_mem_bytes)
  moreover have "length (mem_bytes (bn_words bn)) = 8 * width bn" using assms(1) by simp
  ultimately show ?thesis using assms(2) by (simp add: le_val_take)
qed

lemma bn_abs_nat_less: "bn_ok bn \<Longrightarrow> nat (bn_abs bn) < 256 ^ (8 * width bn)"
  using bn_abs_less [of bn] by (simp add: nat_less_iff power_mult)

lemma bn2bin_loop_eq: "i \<le> 8 * length d \<Longrightarrow> bn2bin_loop d i = rev (take i (mem_bytes d))"
proof (induction i)
  case (Suc i)
  have "b AND 0xff = b" for b :: u8
  proof -
    have "(0xff :: u8) = - 1" by simp
    then show ?thesis by (simp only: and.right_neutral)
  qed
  then have "ucast (drop_bit (8 * (i mod 8)) (d ! (i div 8))) AND 0xff = mem_bytes d ! i"
    using Suc.prems by (simp add: mem_bytes_nth)
  then show ?case using Suc by (simp add: Let_def take_Suc_conv_app_nth)
qed simp

lemma BN_num_bytes_ok:
  assumes "bn_ok bn"
  shows "nat (bn_abs bn) < 256 ^ k \<longleftrightarrow> BN_num_bytes bn \<le> k"
proof -
  have "nat (bn_abs bn) < 256 ^ k \<longleftrightarrow> BN_num_bits bn \<le> 8 * k"
    using bit_len_le [of "nat (bn_abs bn)" "8 * k"] by (simp add: BN_num_bits_ok [OF assms] power_mult)
  also have "\<dots> \<longleftrightarrow> BN_num_bytes bn \<le> k" by (simp add: BN_num_bytes_def) linarith
  finally show ?thesis .
qed

lemma BN_bn2bin_ok:
  assumes "bn_ok bn"
  shows "BN_bn2bin bn = be_bytes (BN_num_bytes bn) (nat (bn_abs bn))"
proof -
  define n where "n = BN_num_bytes bn"
  have n: "n \<le> 8 * width bn" using bn_abs_nat_less [OF assms] by (simp only: BN_num_bytes_ok [OF assms] n_def)
  have l: "8 * width bn \<le> 8 * dmax bn" using assms by (simp add: bn_ok_def)
  have "nat (bn_abs bn) < 256 ^ n" by (simp only: BN_num_bytes_ok [OF assms] n_def)
  then have "take n (mem_bytes (bn_d bn)) = le_bytes n (nat (bn_abs bn))"
    using n l by (intro le_bytes_unique) (simp_all add: le_val_mem_words [OF assms])
  then show ?thesis using n l by (simp add: BN_bn2bin_def bn2bin_loop_eq rev_le_bytes flip: n_def)
qed

lemma fits_in_bytes_eq: "fits_in_bytes bs n len \<longleftrightarrow> le_val (drop len (take n bs)) = 0"
proof -
  have "foldl (OR) m xs = 0 \<longleftrightarrow> m = 0 \<and> le_val xs = 0" for m :: u8 and xs
    by (induction xs arbitrary: m) (auto simp: or_eq_0_iff unat_eq_0)
  then show ?thesis by (simp add: fits_in_bytes_def)
qed

lemma padded_bytes:
  assumes "bn_ok bn"
  shows "len < width bn * 8 \<Longrightarrow> fits_in_bytes (mem_bytes (bn_d bn)) (width bn * 8) len \<longleftrightarrow> nat (bn_abs bn) < 256 ^ len"
    and "nat (bn_abs bn) < 256 ^ len \<Longrightarrow> k = min len (width bn * 8)
      \<Longrightarrow> take k (mem_bytes (bn_d bn)) @ replicate (len - k) 0 = le_bytes len (nat (bn_abs bn))"
proof -
  have l: "8 * width bn \<le> 8 * dmax bn" using assms by (simp add: bn_ok_def)
  have v: "le_val (take (8 * width bn) (mem_bytes (bn_d bn))) = nat (bn_abs bn)"
    using le_val_mem_words [OF assms order_refl] bn_abs_nat_less [OF assms] by simp
  {
    assume "len < width bn * 8"
    then show "fits_in_bytes (mem_bytes (bn_d bn)) (width bn * 8) len \<longleftrightarrow> nat (bn_abs bn) < 256 ^ len"
      using l v by (simp add: fits_in_bytes_eq le_val_drop div_eq_0_iff mult.commute)
  next
    assume a: "nat (bn_abs bn) < 256 ^ len" "k = min len (width bn * 8)"
    have "nat (bn_abs bn) < 256 ^ k" using a bn_abs_nat_less [OF assms] by (simp add: min_def mult.commute)
    then show "take k (mem_bytes (bn_d bn)) @ replicate (len - k) 0 = le_bytes len (nat (bn_abs bn))"
      using a(2) l by (intro le_bytes_unique) (simp_all add: le_val_mem_words [OF assms])
  }
qed

lemma BN_bn2le_padded_ok:
  assumes "bn_ok bn"
  shows "BN_bn2le_padded len bn = (if bn_abs bn < 256 ^ len then Some (le_bytes len (nat (bn_abs bn))) else None)"
proof -
  have n: "bn_abs bn < 256 ^ len \<longleftrightarrow> nat (bn_abs bn) < 256 ^ len" by (simp add: nat_less_iff)
  have big: "256 ^ (width bn * 8) \<le> (256 :: nat) ^ len" if "\<not> len < width bn * 8" using that by (intro power_increasing) simp_all
  show ?thesis
  proof (cases "len < width bn * 8")
    case True
    then show ?thesis using padded_bytes(1) [OF assms True] padded_bytes(2) [OF assms _ refl, of len]
      by (cases "nat (bn_abs bn) < 256 ^ len") (simp_all only: BN_bn2le_padded_def Let_def n if_True if_False simp_thms min_def less_imp_le)
  next
    case False
    have f: "nat (bn_abs bn) < 256 ^ len" using bn_abs_nat_less [OF assms] big [OF False] by (simp only: mult.commute)
    have "width bn * 8 = min len (width bn * 8)" using False by simp
    then show ?thesis using padded_bytes(2) [OF assms f] False f
      by (simp only: BN_bn2le_padded_def Let_def n if_True if_False simp_thms)
  qed
qed

lemma BN_bn2bin_padded_rev: "BN_bn2bin_padded len bn = map_option rev (BN_bn2le_padded len bn)"
  by (simp add: BN_bn2bin_padded_def BN_bn2le_padded_def Let_def)

lemma BN_bn2bin_padded_ok:
  assumes "bn_ok bn"
  shows "BN_bn2bin_padded len bn = (if bn_abs bn < 256 ^ len then Some (be_bytes len (nat (bn_abs bn))) else None)"
  by (simp add: BN_bn2bin_padded_rev BN_bn2le_padded_ok [OF assms] rev_le_bytes)

lemma BN_get_u64_ok:
  assumes "bn_ok bn"
  shows "BN_get_u64 bn = (if bn_abs bn < bn_base then Some (word_of_int (bn_abs bn)) else None)"
proof -
  note B = bn_minimal_width_bounds [OF assms] bn_minimal_width_1 [OF assms] bn_minimal_width_0 [OF assms]
  consider "bn_minimal_width bn = 0" | "bn_minimal_width bn = 1" | "1 \<le> bn_minimal_width bn - 1" by linarith
  then show ?thesis
  proof cases
    case 3
    then have "bn_base ^ 1 \<le> bn_base ^ (bn_minimal_width bn - 1)" by (intro power_increasing) simp_all
    then have "\<not> bn_abs bn < bn_base" using B(1) 3 by auto
    moreover have "bn_minimal_width bn \<noteq> 0" "bn_minimal_width bn \<noteq> 1" using 3 by linarith+
    ultimately show ?thesis by (simp add: BN_get_u64_def Let_def)
  qed (use B in \<open>auto simp: BN_get_u64_def\<close>)
qed

lemma BN_get_word_ok:
  assumes "bn_ok bn"
  shows "BN_get_word bn = (if bn_abs bn < bn_base then word_of_int (bn_abs bn) else - 1)"
proof -
  have "BN_get_word bn = (case BN_get_u64 bn of None \<Rightarrow> - 1 | Some w \<Rightarrow> w)" by (simp add: BN_get_word_def BN_get_u64_def Let_def)
  then show ?thesis by (simp add: BN_get_u64_ok [OF assms])
qed

end
