(* ===== verification/Bn_Ctx.thy ===== *)
theory Bn_Ctx
  imports Bn
begin

text \<open>
  Temporary big numbers (\<open>crypto/fipsmodule/bn/ctx.c\<close>). The numbers of a pool lie in a list of items of
  sixteen; a pointer to one of them is the index of its item and its place there, \<open>current\<close> is the index
  of an item (none for a null pointer). A number is taken from a context with \<open>BN_CTX_get\<close> and given back
  with all that were taken since the matching \<open>BN_CTX_start\<close> by \<open>BN_CTX_end\<close>.
\<close>

section \<open>Code\<close>

abbreviation (input) BN_CTX_POOL_SIZE :: nat where "BN_CTX_POOL_SIZE \<equiv> 16"

abbreviation (input) BN_CTX_START_FRAMES :: nat where "BN_CTX_START_FRAMES \<equiv> 32"

type_synonym bn_ptr = "nat \<times> nat"

record BN_POOL =
  pool_items :: "BIGNUM list list"
  pool_current :: "nat option"
  pool_used :: nat
  pool_size :: nat

record BN_STACK =
  stack_indexes :: "nat list"
  stack_depth :: nat
  stack_size :: nat

record BN_CTX =
  ctx_pool :: BN_POOL
  ctx_stack :: BN_STACK
  ctx_used :: nat
  err_stack :: nat
  too_many :: bool

definition BN_POOL_init :: BN_POOL where
  "BN_POOL_init = \<lparr>pool_items = [], pool_current = None, pool_used = 0, pool_size = 0\<rparr>"

definition BN_STACK_init :: BN_STACK where
  "BN_STACK_init = \<lparr>stack_indexes = [], stack_depth = 0, stack_size = 0\<rparr>"

text \<open>A context has 64 bytes, an item of the pool \<open>16 * 24 + 16\<close>.\<close>

definition BN_CTX_new :: "alloc \<Rightarrow> BN_CTX option" where
  "BN_CTX_new A =
     (if A 64 = None then None
      else Some \<lparr>ctx_pool = BN_POOL_init, ctx_stack = BN_STACK_init, ctx_used = 0, err_stack = 0, too_many = False\<rparr>)"

text \<open>The stack of frames. The sizes are \<open>unsigned\<close>; the new array has the old frames and then what the
  memory holds.\<close>

definition fresh_uints :: "(nat \<Rightarrow> u8) \<Rightarrow> nat \<Rightarrow> nat list" where
  "fresh_uints fresh n = map (\<lambda>i. le_val (map fresh [4 * i..<4 * i + 4])) [0..<n]"

definition stack_newsize :: "nat \<Rightarrow> nat" where
  "stack_newsize size' = (if size' \<noteq> 0 then size' * 3 mod 2 ^ 32 div 2 else BN_CTX_START_FRAMES)"

definition BN_STACK_push :: "alloc \<Rightarrow> BN_STACK \<Rightarrow> nat \<Rightarrow> bool \<times> BN_STACK" where
  "BN_STACK_push A st idx =
     (let grown =
        (if stack_depth st = stack_size st then
           (let newsize = stack_newsize (stack_size st)
            in case A (newsize * 4) of
                 None \<Rightarrow> None
               | Some fresh \<Rightarrow>
                   Some (st\<lparr>stack_indexes := take (stack_depth st) (stack_indexes st) @ drop (stack_depth st) (fresh_uints fresh newsize),
                            stack_size := newsize\<rparr>))
         else Some st)
      in case grown of
           None \<Rightarrow> (False, st)
         | Some st \<Rightarrow>
             (True, st\<lparr>stack_indexes := (stack_indexes st)[stack_depth st := idx], stack_depth := stack_depth st + 1\<rparr>))"

text \<open>Below the bottom of the stack there is nothing to read.\<close>

definition BN_STACK_pop :: "BN_STACK \<Rightarrow> (nat \<times> BN_STACK) option" where
  "BN_STACK_pop st =
     (if stack_depth st = 0 then None
      else Some (stack_indexes st ! (stack_depth st - 1), st\<lparr>stack_depth := stack_depth st - 1\<rparr>))"

definition BN_POOL_get :: "alloc \<Rightarrow> BN_POOL \<Rightarrow> bn_ptr option \<times> BN_POOL" where
  "BN_POOL_get A p =
     (if pool_used p = pool_size p then
        (if A 400 = None then (None, p)
         else
           (Some (length (pool_items p), 0),
            p\<lparr>pool_items := pool_items p @ [replicate BN_CTX_POOL_SIZE BN_init], pool_current := Some (length (pool_items p)),
              pool_size := pool_size p + BN_CTX_POOL_SIZE, pool_used := pool_used p + 1\<rparr>))
      else
        (let current =
           (if pool_used p = 0 then (if pool_items p = [] then None else Some 0)
            else if pool_used p mod BN_CTX_POOL_SIZE = 0 then
              (case pool_current p of None \<Rightarrow> None | Some c \<Rightarrow> if c + 1 < length (pool_items p) then Some (c + 1) else None)
            else pool_current p)
         in (map_option (\<lambda>c. (c, pool_used p mod BN_CTX_POOL_SIZE)) current,
             p\<lparr>pool_current := current, pool_used := pool_used p + 1\<rparr>)))"

fun pool_release_loop :: "nat \<Rightarrow> nat \<Rightarrow> nat option \<Rightarrow> nat option" where
  "pool_release_loop 0 offset current = current"
| "pool_release_loop (Suc num) offset current =
     (if offset = 0 then
        pool_release_loop num (BN_CTX_POOL_SIZE - 1)
          (case current of None \<Rightarrow> None | Some c \<Rightarrow> if c = 0 then None else Some (c - 1))
      else pool_release_loop num (offset - 1) current)"

definition BN_POOL_release :: "BN_POOL \<Rightarrow> nat \<Rightarrow> BN_POOL" where
  "BN_POOL_release p num =
     p\<lparr>pool_current := pool_release_loop num ((pool_used p - 1) mod BN_CTX_POOL_SIZE) (pool_current p),
       pool_used := pool_used p - num\<rparr>"

text \<open>The number a pointer points to.\<close>

definition ctx_bn :: "BN_CTX \<Rightarrow> bn_ptr \<Rightarrow> BIGNUM" where
  "ctx_bn ctx p = pool_items (ctx_pool ctx) ! fst p ! snd p"

definition ctx_put :: "BN_CTX \<Rightarrow> bn_ptr \<Rightarrow> BIGNUM \<Rightarrow> BN_CTX" where
  "ctx_put ctx p bn =
     ctx\<lparr>ctx_pool := (ctx_pool ctx)\<lparr>pool_items :=
       (pool_items (ctx_pool ctx))[fst p := (pool_items (ctx_pool ctx) ! fst p)[snd p := bn]]\<rparr>\<rparr>"

definition BN_CTX_start :: "alloc \<Rightarrow> BN_CTX \<Rightarrow> BN_CTX" where
  "BN_CTX_start A ctx =
     (if err_stack ctx \<noteq> 0 \<or> too_many ctx then ctx\<lparr>err_stack := err_stack ctx + 1\<rparr>
      else
        (case BN_STACK_push A (ctx_stack ctx) (ctx_used ctx) of
           (False, _) \<Rightarrow> ctx\<lparr>err_stack := err_stack ctx + 1\<rparr>
         | (True, st) \<Rightarrow> ctx\<lparr>ctx_stack := st\<rparr>))"

definition BN_CTX_get :: "alloc \<Rightarrow> BN_CTX \<Rightarrow> bn_ptr option \<times> BN_CTX" where
  "BN_CTX_get A ctx =
     (if err_stack ctx \<noteq> 0 \<or> too_many ctx then (None, ctx)
      else
        (case BN_POOL_get A (ctx_pool ctx) of
           (None, pool) \<Rightarrow> (None, ctx\<lparr>ctx_pool := pool, too_many := True\<rparr>)
         | (Some p, pool) \<Rightarrow>
             (let ctx = ctx\<lparr>ctx_pool := pool\<rparr>;
                  ctx = ctx_put ctx p (BN_zero (ctx_bn ctx p))
              in (Some p, ctx\<lparr>ctx_used := ctx_used ctx + 1\<rparr>))))"

definition BN_CTX_end :: "BN_CTX \<Rightarrow> BN_CTX option" where
  "BN_CTX_end ctx =
     (if err_stack ctx \<noteq> 0 then Some (ctx\<lparr>err_stack := err_stack ctx - 1\<rparr>)
      else
        (case BN_STACK_pop (ctx_stack ctx) of
           None \<Rightarrow> None
         | Some (fp, st) \<Rightarrow>
             Some (ctx\<lparr>ctx_stack := st,
                       ctx_pool := (if fp < ctx_used ctx then BN_POOL_release (ctx_pool ctx) (ctx_used ctx - fp) else ctx_pool ctx),
                       ctx_used := fp, too_many := False\<rparr>)))"

section \<open>The pool is a stack\<close>

definition pool_ok :: "BN_POOL \<Rightarrow> bool" where
  "pool_ok p \<longleftrightarrow> pool_size p = 16 * length (pool_items p) \<and> pool_used p \<le> pool_size p
     \<and> (\<forall>item \<in> set (pool_items p). length item = 16 \<and> (\<forall>bn \<in> set item. bn_ok bn \<and> \<not> static_data bn))
     \<and> (pool_used p \<noteq> 0 \<longrightarrow> pool_current p = Some ((pool_used p - 1) div 16))"

lemma pool_ok_init: "pool_ok BN_POOL_init"
  by (simp add: pool_ok_def BN_POOL_init_def)

lemma Suc_div_16: "Suc n div 16 = (if Suc n mod 16 = 0 then Suc (n div 16) else n div 16)" for n :: nat
  by (simp add: div_Suc)

text \<open>The \<open>k\<close>-th number that is in use is at place \<open>k mod 16\<close> of item \<open>k div 16\<close>.\<close>

lemma BN_POOL_get_ok:
  assumes "pool_ok p" and "BN_POOL_get A p = (q, p')"
  shows "pool_ok p' \<and> (q = None \<longrightarrow> p' = p \<and> A 400 = None)
    \<and> (q \<noteq> None \<longrightarrow> q = Some (pool_used p div 16, pool_used p mod 16) \<and> pool_used p' = pool_used p + 1
         \<and> pool_used p div 16 < length (pool_items p') \<and> take (length (pool_items p)) (pool_items p') = pool_items p)"
proof (cases "pool_used p = pool_size p")
  case True
  then have "pool_used p = 16 * length (pool_items p)" using assms(1) by (simp add: pool_ok_def)
  then show ?thesis using assms True
    by (auto simp: BN_POOL_get_def pool_ok_def BN_init_def bn_ok_def split: if_splits)
next
  case False
  define c where "c = pool_used p div 16"
  have u: "pool_used p < 16 * length (pool_items p)" using False assms(1) by (auto simp: pool_ok_def)
  then have c: "c < length (pool_items p)" by (simp add: c_def less_mult_imp_div_less mult.commute)
  have "(if pool_used p = 0 then (if pool_items p = [] then None else Some 0)
         else if pool_used p mod 16 = 0 then
           (case pool_current p of None \<Rightarrow> None | Some c \<Rightarrow> if c + 1 < length (pool_items p) then Some (c + 1) else None)
         else pool_current p) = Some c"
  proof (cases "pool_used p")
    case 0
    then show ?thesis using c by (auto simp: c_def)
  next
    case (Suc n)
    then have "pool_current p = Some (n div 16)" using assms(1) by (simp add: pool_ok_def)
    then show ?thesis using Suc c Suc_div_16 [of n] by (auto simp: c_def split: if_splits)
  qed
  then have "q = Some (c, pool_used p mod 16)" "p' = p\<lparr>pool_current := Some c, pool_used := pool_used p + 1\<rparr>"
    using assms(2) False by (simp_all add: BN_POOL_get_def Let_def)
  then show ?thesis using assms(1) u c by (auto simp: pool_ok_def c_def)
qed

lemma pool_release_loop_ok:
  assumes "num < used"
  shows "pool_release_loop num ((used - 1) mod 16) (Some ((used - 1) div 16)) = Some ((used - 1 - num) div 16)"
  using assms
proof (induction num arbitrary: used)
  case (Suc num)
  obtain n where n: "used = Suc (Suc n)" using Suc.prems by (cases used; cases "used - 1") auto
  have IH: "pool_release_loop num (n mod 16) (Some (n div 16)) = Some ((n - num) div 16)"
    using Suc.IH [of "Suc n"] Suc.prems n by simp
  show ?case
  proof (cases "Suc n mod 16 = 0")
    case True
    then have "n mod 16 = 15" "Suc n div 16 = Suc (n div 16)" by (simp_all add: mod_Suc Suc_div_16 split: if_splits)
    then show ?thesis using IH True by (simp add: n)
  next
    case False
    then have "Suc n mod 16 - 1 = n mod 16" "Suc n div 16 = n div 16" by (simp_all add: mod_Suc Suc_div_16 split: if_splits)
    then show ?thesis using IH False by (simp add: n)
  qed
qed simp

lemma BN_POOL_release_ok:
  assumes "pool_ok p" and "num \<le> pool_used p" and "0 < num"
  shows "pool_ok (BN_POOL_release p num) \<and> pool_used (BN_POOL_release p num) = pool_used p - num
    \<and> pool_items (BN_POOL_release p num) = pool_items p"
proof (cases "num = pool_used p")
  case False
  then have n: "num < pool_used p" using assms(2) by simp
  then have "pool_current p = Some ((pool_used p - 1) div 16)" using assms(1) by (simp add: pool_ok_def)
  then have "pool_release_loop num ((pool_used p - 1) mod 16) (pool_current p) = Some ((pool_used p - 1 - num) div 16)"
    using pool_release_loop_ok [OF n] by simp
  then show ?thesis using assms n by (auto simp: BN_POOL_release_def pool_ok_def diff_commute)
qed (use assms in \<open>auto simp: BN_POOL_release_def pool_ok_def\<close>)

section \<open>Contexts\<close>

definition stack_ok :: "BN_STACK \<Rightarrow> bool" where
  "stack_ok st \<longleftrightarrow> length (stack_indexes st) = stack_size st \<and> stack_depth st \<le> stack_size st
     \<and> (stack_size st = 0 \<or> 32 \<le> stack_size st)"

definition frames :: "BN_CTX \<Rightarrow> nat list" where
  "frames ctx = take (stack_depth (ctx_stack ctx)) (stack_indexes (ctx_stack ctx))"

definition ctx_ok :: "BN_CTX \<Rightarrow> bool" where
  "ctx_ok ctx \<longleftrightarrow> pool_ok (ctx_pool ctx) \<and> stack_ok (ctx_stack ctx) \<and> ctx_used ctx = pool_used (ctx_pool ctx)
     \<and> sorted (frames ctx @ [ctx_used ctx])"

lemma ctx_flags [simp]:
  "ctx_ok (ctx\<lparr>err_stack := n\<rparr>) = ctx_ok ctx" "frames (ctx\<lparr>err_stack := n\<rparr>) = frames ctx"
  "ctx_ok (ctx\<lparr>too_many := b\<rparr>) = ctx_ok ctx" "frames (ctx\<lparr>too_many := b\<rparr>) = frames ctx"
  by (simp_all add: ctx_ok_def frames_def)

lemma length_frames: "ctx_ok ctx \<Longrightarrow> length (frames ctx) = stack_depth (ctx_stack ctx)"
  by (simp add: ctx_ok_def stack_ok_def frames_def)

lemma BN_CTX_new_ok: "BN_CTX_new A = Some ctx \<Longrightarrow> ctx_ok ctx \<and> frames ctx = [] \<and> err_stack ctx = 0 \<and> \<not> too_many ctx"
  by (auto simp: BN_CTX_new_def ctx_ok_def stack_ok_def frames_def BN_STACK_init_def pool_ok_init [unfolded BN_POOL_init_def] BN_POOL_init_def split: if_splits)

lemma BN_STACK_push_ok:
  assumes "stack_ok st" and "stack_depth st < 2 ^ 30" and "BN_STACK_push A st idx = (ok, st')"
  shows "stack_ok st' \<and> take (stack_depth st') (stack_indexes st') = take (stack_depth st) (stack_indexes st) @ (if ok then [idx] else [])"
proof (cases "stack_depth st = stack_size st")
  case True
  define n where "n = stack_newsize (stack_size st)"
  have n: "stack_size st < n" "32 \<le> n"
    using assms(1,2) True by (auto simp: n_def stack_ok_def stack_newsize_def)
  show ?thesis
  proof (cases "A (n * 4)")
    case None
    have "st' = st" "\<not> ok" using assms(3) True None by (auto simp: BN_STACK_push_def Let_def simp flip: n_def)
    then show ?thesis using assms(1) by simp
  next
    case (Some fresh)
    have "st' = st\<lparr>stack_indexes := (take (stack_depth st) (stack_indexes st) @ drop (stack_depth st) (fresh_uints fresh n))[stack_depth st := idx],
        stack_size := n, stack_depth := stack_depth st + 1\<rparr>" "ok"
      using assms(3) True Some by (auto simp: BN_STACK_push_def Let_def simp flip: n_def)
    then show ?thesis using assms(1) True n
      by (simp add: stack_ok_def fresh_uints_def take_Suc_conv_app_nth nth_append)
  qed
next
  case False
  then have "st' = st\<lparr>stack_indexes := (stack_indexes st)[stack_depth st := idx], stack_depth := stack_depth st + 1\<rparr>" "ok"
    using assms(3) by (simp_all add: BN_STACK_push_def Let_def)
  then show ?thesis using assms(1) False by (auto simp: stack_ok_def take_Suc_conv_app_nth)
qed

text \<open>\<open>BN_CTX_start\<close> records the number of temporaries in use, or counts a failure.\<close>

lemma BN_CTX_start_ok:
  assumes "ctx_ok ctx" and "stack_depth (ctx_stack ctx) < 2 ^ 30"
  shows "ctx_ok (BN_CTX_start A ctx) \<and> ctx_used (BN_CTX_start A ctx) = ctx_used ctx \<and> too_many (BN_CTX_start A ctx) = too_many ctx
    \<and> ctx_pool (BN_CTX_start A ctx) = ctx_pool ctx
    \<and> (err_stack (BN_CTX_start A ctx) = err_stack ctx + 1 \<and> frames (BN_CTX_start A ctx) = frames ctx
       \<or> err_stack (BN_CTX_start A ctx) = 0 \<and> err_stack ctx = 0 \<and> \<not> too_many ctx \<and> frames (BN_CTX_start A ctx) = frames ctx @ [ctx_used ctx])"
proof (cases "err_stack ctx \<noteq> 0 \<or> too_many ctx")
  case True
  then have "BN_CTX_start A ctx = ctx\<lparr>err_stack := err_stack ctx + 1\<rparr>" by (simp add: BN_CTX_start_def)
  then show ?thesis using assms(1) by simp
next
  case False
  obtain ok st where p: "BN_STACK_push A (ctx_stack ctx) (ctx_used ctx) = (ok, st)" by fastforce
  have "stack_ok (ctx_stack ctx)" using assms(1) by (simp add: ctx_ok_def)
  note P = BN_STACK_push_ok [OF this assms(2) p]
  show ?thesis
  proof (cases ok)
    case True
    then show ?thesis using False p P assms(1)
      by (auto simp: BN_CTX_start_def ctx_ok_def frames_def sorted_append)
  next
    case F: False
    then have "BN_CTX_start A ctx = ctx\<lparr>err_stack := err_stack ctx + 1\<rparr>" using False p by (simp add: BN_CTX_start_def)
    then show ?thesis using assms(1) by simp
  qed
qed

lemma ctx_put_ok:
  assumes "ctx_ok ctx" and "fst p < length (pool_items (ctx_pool ctx))" and "bn_ok bn" and "\<not> static_data bn"
  shows "ctx_ok (ctx_put ctx p bn)"
proof -
  have "\<forall>item \<in> set ((pool_items (ctx_pool ctx))[fst p := (pool_items (ctx_pool ctx) ! fst p)[snd p := bn]]).
      length item = 16 \<and> (\<forall>bn \<in> set item. bn_ok bn \<and> \<not> static_data bn)"
  proof
    fix item
    assume "item \<in> set ((pool_items (ctx_pool ctx))[fst p := (pool_items (ctx_pool ctx) ! fst p)[snd p := bn]])"
    then have "item \<in> insert ((pool_items (ctx_pool ctx) ! fst p)[snd p := bn]) (set (pool_items (ctx_pool ctx)))"
      using set_update_subset_insert by fastforce
    moreover have "\<forall>item \<in> set (pool_items (ctx_pool ctx)). length item = 16 \<and> (\<forall>bn \<in> set item. bn_ok bn \<and> \<not> static_data bn)"
      using assms(1) by (simp add: ctx_ok_def pool_ok_def)
    moreover from this have "length (pool_items (ctx_pool ctx) ! fst p) = 16"
      "\<forall>bn \<in> set (pool_items (ctx_pool ctx) ! fst p). bn_ok bn \<and> \<not> static_data bn"
      using nth_mem [OF assms(2)] by blast+
    moreover have "set ((pool_items (ctx_pool ctx) ! fst p)[snd p := bn]) \<subseteq> insert bn (set (pool_items (ctx_pool ctx) ! fst p))"
      by (rule set_update_subset_insert)
    ultimately show "length item = 16 \<and> (\<forall>bn \<in> set item. bn_ok bn \<and> \<not> static_data bn)"
      using assms(3,4) by (elim insertE) (simp_all add: subset_iff, blast)
  qed
  moreover have "frames (ctx_put ctx p bn) = frames ctx" by (simp add: ctx_put_def frames_def)
  ultimately show ?thesis using assms(1) by (auto simp: ctx_ok_def ctx_put_def pool_ok_def)
qed

lemma ctx_put_simps [simp]:
  "ctx_used (ctx_put ctx p bn) = ctx_used ctx" "ctx_stack (ctx_put ctx p bn) = ctx_stack ctx" "err_stack (ctx_put ctx p bn) = err_stack ctx"
  "too_many (ctx_put ctx p bn) = too_many ctx" "frames (ctx_put ctx p bn) = frames ctx"
  "length (pool_items (ctx_pool (ctx_put ctx p bn))) = length (pool_items (ctx_pool ctx))"
  by (simp_all add: ctx_put_def frames_def)

lemma ctx_bn_ok:
  assumes "ctx_ok ctx" and "fst p < length (pool_items (ctx_pool ctx))" and "snd p < 16"
  shows "bn_ok (ctx_bn ctx p) \<and> \<not> static_data (ctx_bn ctx p)"
proof -
  have "pool_items (ctx_pool ctx) ! fst p \<in> set (pool_items (ctx_pool ctx))" using assms(2) by simp
  then have "length (pool_items (ctx_pool ctx) ! fst p) = 16"
    "\<forall>bn \<in> set (pool_items (ctx_pool ctx) ! fst p). bn_ok bn \<and> \<not> static_data bn"
    using assms(1) by (auto simp: ctx_ok_def pool_ok_def)
  then show ?thesis using assms(3) by (simp add: ctx_bn_def)
qed

text \<open>A pointer that \<open>BN_CTX_get\<close> may have returned.\<close>

definition ctx_ptr :: "BN_CTX \<Rightarrow> bn_ptr \<Rightarrow> bool" where
  "ctx_ptr ctx p \<longleftrightarrow> fst p < length (pool_items (ctx_pool ctx)) \<and> snd p < 16"

lemma ctx_bn_put [simp]: "ctx_ok ctx \<Longrightarrow> ctx_ptr ctx p \<Longrightarrow> ctx_bn (ctx_put ctx p bn) p = bn"
  by (auto simp: ctx_bn_def ctx_put_def ctx_ptr_def ctx_ok_def pool_ok_def)

lemma BN_CTX_get_ok:
  assumes "ctx_ok ctx" and "BN_CTX_get A ctx = (q, ctx')"
  shows "ctx_ok ctx' \<and> frames ctx' = frames ctx \<and> err_stack ctx' = err_stack ctx
    \<and> (case q of
         None \<Rightarrow> ctx_used ctx' = ctx_used ctx \<and> (err_stack ctx \<noteq> 0 \<or> too_many ctx') \<and> (err_stack ctx \<noteq> 0 \<or> too_many ctx \<longrightarrow> ctx' = ctx)
       | Some p \<Rightarrow> 16 * fst p + snd p = ctx_used ctx \<and> ctx_used ctx' = ctx_used ctx + 1 \<and> ctx_ptr ctx' p
           \<and> err_stack ctx = 0 \<and> \<not> too_many ctx \<and> \<not> too_many ctx'
           \<and> width (ctx_bn ctx' p) = 0 \<and> \<not> neg (ctx_bn ctx' p))"
proof (cases "err_stack ctx \<noteq> 0 \<or> too_many ctx")
  case True
  then show ?thesis using assms by (auto simp: BN_CTX_get_def)
next
  case False
  obtain r pool where g: "BN_POOL_get A (ctx_pool ctx) = (r, pool)" by fastforce
  have "pool_ok (ctx_pool ctx)" using assms(1) by (simp add: ctx_ok_def)
  note G = BN_POOL_get_ok [OF this g]
  show ?thesis
  proof (cases r)
    case None
    then have "q = None" "ctx' = ctx\<lparr>ctx_pool := pool, too_many := True\<rparr>" using assms(2) g False by (auto simp: BN_CTX_get_def)
    then show ?thesis using G None assms(1) False by simp
  next
    case (Some p)
    define mid where "mid = ctx\<lparr>ctx_pool := pool, ctx_used := ctx_used ctx + 1\<rparr>"
    have mid: "ctx_ok mid" "frames mid = frames ctx"
      using G Some assms(1) by (auto simp: mid_def ctx_ok_def frames_def sorted_append)
    have p: "fst p < length (pool_items (ctx_pool mid))" "snd p < 16" "16 * fst p + snd p = ctx_used ctx"
      using G Some assms(1) by (auto simp: mid_def ctx_ok_def)
    have c: "q = Some p" "ctx' = ctx_put mid p (BN_zero (ctx_bn mid p))"
      using assms(2) g False Some by (auto simp: BN_CTX_get_def Let_def mid_def ctx_put_def ctx_bn_def)
    have z: "bn_ok (BN_zero (ctx_bn mid p))" "\<not> static_data (BN_zero (ctx_bn mid p))"
      using ctx_bn_ok [OF mid(1) p(1,2)] by (simp_all add: BN_zero_def bn_ok_def)
    have "ctx_bn ctx' p = BN_zero (ctx_bn mid p)" using c mid(1) p by (simp add: ctx_ptr_def)
    then show ?thesis using c p mid ctx_put_ok [OF mid(1) p(1) z] False
      by (simp add: ctx_ptr_def BN_zero_def) (simp add: mid_def)
  qed
qed

lemma BN_CTX_end_ok:
  assumes "ctx_ok ctx" and "err_stack ctx \<noteq> 0 \<or> frames ctx \<noteq> []"
  shows "\<exists>ctx'. BN_CTX_end ctx = Some ctx' \<and> ctx_ok ctx'
    \<and> (if err_stack ctx \<noteq> 0 then ctx' = ctx\<lparr>err_stack := err_stack ctx - 1\<rparr>
        else frames ctx' = butlast (frames ctx) \<and> ctx_used ctx' = List.last (frames ctx) \<and> err_stack ctx' = 0 \<and> \<not> too_many ctx')"
proof (cases "err_stack ctx \<noteq> 0")
  case True
  then show ?thesis using assms(1) by (simp add: BN_CTX_end_def)
next
  case False
  then obtain d where d: "stack_depth (ctx_stack ctx) = Suc d"
    using assms(2) by (cases "stack_depth (ctx_stack ctx)") (auto simp: frames_def)
  define st where "st = (ctx_stack ctx)\<lparr>stack_depth := d\<rparr>"
  define fp where "fp = stack_indexes (ctx_stack ctx) ! d"
  have st: "stack_ok (ctx_stack ctx)" "Suc d \<le> length (stack_indexes (ctx_stack ctx))"
    using assms(1) d by (auto simp: ctx_ok_def stack_ok_def)
  have f: "frames ctx = take d (stack_indexes (ctx_stack ctx)) @ [fp]"
    using st(2) by (simp add: frames_def d fp_def take_Suc_conv_app_nth)
  have so: "sorted (take d (stack_indexes (ctx_stack ctx)) @ [fp])" "fp \<le> ctx_used ctx" "ctx_used ctx = pool_used (ctx_pool ctx)"
    using assms(1) f by (auto simp: ctx_ok_def sorted_append)
  define pool where "pool = (if fp < ctx_used ctx then BN_POOL_release (ctx_pool ctx) (ctx_used ctx - fp) else ctx_pool ctx)"
  have "pool_ok pool \<and> pool_used pool = fp"
    using BN_POOL_release_ok [of "ctx_pool ctx" "ctx_used ctx - fp"] so assms(1) by (auto simp: pool_def ctx_ok_def)
  moreover have "BN_CTX_end ctx = Some (ctx\<lparr>ctx_stack := st, ctx_pool := pool, ctx_used := fp, too_many := False\<rparr>)"
    using False d by (simp add: BN_CTX_end_def BN_STACK_pop_def st_def fp_def pool_def)
  ultimately show ?thesis using st so False f
    by (simp add: ctx_ok_def frames_def st_def stack_ok_def)
qed

section \<open>Frames nest\<close>

datatype ctx_op = Start alloc | Get alloc | End

fun ctx_run :: "ctx_op list \<Rightarrow> BN_CTX \<Rightarrow> BN_CTX option" where
  "ctx_run [] ctx = Some ctx"
| "ctx_run (Start A # ops) ctx = ctx_run ops (BN_CTX_start A ctx)"
| "ctx_run (Get A # ops) ctx = ctx_run ops (snd (BN_CTX_get A ctx))"
| "ctx_run (End # ops) ctx = (case BN_CTX_end ctx of None \<Rightarrow> None | Some ctx \<Rightarrow> ctx_run ops ctx)"

text \<open>What a caller may do between a start and the matching end.\<close>

inductive framed :: "ctx_op list \<Rightarrow> bool" where
  framed_nil: "framed []"
| framed_get: "framed ops \<Longrightarrow> framed (Get A # ops)"
| framed_frame: "framed body \<Longrightarrow> framed ops \<Longrightarrow> framed (Start A # body @ End # ops)"

lemma ctx_run_append: "ctx_run (xs @ ys) ctx = (case ctx_run xs ctx of None \<Rightarrow> None | Some ctx \<Rightarrow> ctx_run ys ctx)"
  by (induction xs ctx rule: ctx_run.induct) (auto split: option.splits)

definition blocked :: "BN_CTX \<Rightarrow> bool" where
  "blocked ctx \<longleftrightarrow> err_stack ctx \<noteq> 0 \<or> too_many ctx"

text \<open>Nothing is left over: the frames and the count of failures are as before, a blocked context is unchanged.\<close>

definition ctx_after :: "BN_CTX \<Rightarrow> BN_CTX \<Rightarrow> bool" where
  "ctx_after ctx ctx' \<longleftrightarrow> ctx_ok ctx' \<and> frames ctx' = frames ctx \<and> err_stack ctx' = err_stack ctx
     \<and> (blocked ctx \<longrightarrow> ctx_used ctx' = ctx_used ctx \<and> too_many ctx' = too_many ctx)"

lemma frame_ok:
  assumes "ctx_ok ctx" and "stack_depth (ctx_stack ctx) < 2 ^ 30" and "ctx_after (BN_CTX_start A ctx) mid"
  shows "\<exists>ctx'. BN_CTX_end mid = Some ctx' \<and> ctx_after ctx ctx' \<and> ctx_used ctx' = ctx_used ctx \<and> too_many ctx' = too_many ctx"
proof -
  note S = BN_CTX_start_ok [OF assms(1,2), of A]
  have m: "ctx_ok mid" "frames mid = frames (BN_CTX_start A ctx)" "err_stack mid = err_stack (BN_CTX_start A ctx)"
    "blocked (BN_CTX_start A ctx) \<longrightarrow> ctx_used mid = ctx_used ctx \<and> too_many mid = too_many ctx"
    using assms(3) S by (auto simp: ctx_after_def)
  show ?thesis
  proof (cases "err_stack (BN_CTX_start A ctx) = err_stack ctx + 1")
    case True
    then have f: "frames (BN_CTX_start A ctx) = frames ctx" "blocked (BN_CTX_start A ctx)" using S by (auto simp: blocked_def)
    have "BN_CTX_end mid = Some (mid\<lparr>err_stack := err_stack ctx\<rparr>)" using True m(3) by (simp add: BN_CTX_end_def)
    then show ?thesis using m f by (simp add: ctx_after_def)
  next
    case False
    then have f: "frames mid = frames ctx @ [ctx_used ctx]" "err_stack mid = 0" "err_stack ctx = 0" "\<not> too_many ctx" using S m by auto
    then show ?thesis using BN_CTX_end_ok [OF m(1)] by (auto simp: ctx_after_def blocked_def)
  qed
qed

lemma framed_ok:
  assumes "framed ops" and "ctx_ok ctx" and "length (frames ctx) + length ops < 2 ^ 30"
  shows "\<exists>ctx'. ctx_run ops ctx = Some ctx' \<and> ctx_after ctx ctx'"
  using assms
proof (induction ops arbitrary: ctx rule: framed.induct)
  case framed_nil
  then show ?case by (simp add: ctx_after_def)
next
  case (framed_get ops A)
  obtain q mid where g: "BN_CTX_get A ctx = (q, mid)" by fastforce
  note G = BN_CTX_get_ok [OF framed_get.prems(1) g]
  obtain ctx' where c: "ctx_run ops mid = Some ctx'" "ctx_after mid ctx'"
    using framed_get.IH [of mid] G framed_get.prems(2) by auto
  have "blocked ctx \<Longrightarrow> mid = ctx" using G by (cases q) (auto simp: blocked_def)
  then show ?case using c g G by (auto simp: ctx_after_def)
next
  case (framed_frame body ops A)
  note ok = framed_frame.prems(1)
  have d: "stack_depth (ctx_stack ctx) < 2 ^ 30" using framed_frame.prems length_frames [OF ok] by simp
  note S = BN_CTX_start_ok [OF ok d, of A]
  have "length (frames (BN_CTX_start A ctx)) \<le> length (frames ctx) + 1" using S by auto
  then obtain mid where m: "ctx_run body (BN_CTX_start A ctx) = Some mid" "ctx_after (BN_CTX_start A ctx) mid"
    using framed_frame.IH(1) [of "BN_CTX_start A ctx"] S framed_frame.prems(2) by auto
  obtain c where c: "BN_CTX_end mid = Some c" "ctx_after ctx c" "ctx_used c = ctx_used ctx" "too_many c = too_many ctx"
    using frame_ok [OF ok d m(2)] by blast
  obtain ctx' where e: "ctx_run ops c = Some ctx'" "ctx_after c ctx'"
    using framed_frame.IH(2) [of c] c framed_frame.prems(2) by (auto simp: ctx_after_def)
  have "ctx_after ctx ctx'" using c e by (auto simp: ctx_after_def blocked_def)
  then show ?case using m(1) c(1) e(1) by (simp add: ctx_run_append)
qed

end
