(* ===== verification/Bn_Mul.thy ===== *)
theory Bn_Mul
  imports Bn_Comba Bn_Bytes Bn_Ctx
begin

text \<open>
  Multiplication and squaring of big numbers (\<open>crypto/fipsmodule/bn/mul.c\<close>): by rows
  (\<open>bn_mul_normal\<close>), by Karatsuba's recursion for sizes that are powers of two (\<open>bn_mul_recursive\<close>) or
  lie between two of them (\<open>bn_mul_part_recursive\<close>), and the functions on \<open>BIGNUM\<close> that choose among
  them. The functions on vectors return the words they write to \<open>r\<close> and the scratch space \<open>t\<close> as they
  leave it; a pointer into a vector is the vector without the words before it. A length that may be
  negative in C is an \<open>int\<close>.

  The functions on \<open>BIGNUM\<close> that take temporaries from a \<open>BN_CTX\<close> allocate several times: \<open>As k\<close> is the
  answer to the \<open>k\<close>-th allocation. Their argument \<open>alias\<close> tells whether \<open>r\<close> is the same object as an
  input; \<open>None\<close> is a run that goes through a null pointer.
\<close>

section \<open>Absolute differences\<close>

definition bn_abs_sub_words :: "BN_ULONG list \<Rightarrow> BN_ULONG list \<Rightarrow> nat \<Rightarrow> BN_ULONG list" where
  "bn_abs_sub_words a b num =
     (let (tmp, borrow) = bn_sub_words a b num;
          (r, _) = bn_sub_words b a num
      in bn_select_words (0 - borrow) r tmp num)"

text \<open>The words that only \<open>b\<close> has, and those that only \<open>a\<close> has: \<open>c\<close> is tested once for every four words,
  and what is left when it is zero is copied. (\<open>save_dl\<close> is equal to \<open>dl\<close> whenever that loop ends
  with words left, and the \<open>switch\<close> is not reached.)\<close>

fun sub_part_b :: "BN_ULONG list \<Rightarrow> BN_ULONG \<Rightarrow> BN_ULONG list \<times> BN_ULONG" where
  "sub_part_b [] c = ([], c)"
| "sub_part_b (t # b) c =
     (let r = 0 - t - c;
          c = (if t \<noteq> 0 then 1 else c);
          (ws, c) = sub_part_b b c
      in (r # ws, c))"

fun sub_part_a :: "nat \<Rightarrow> BN_ULONG list \<Rightarrow> BN_ULONG \<Rightarrow> BN_ULONG list \<times> BN_ULONG" where
  "sub_part_a k [] c = ([], c)"
| "sub_part_a k (t # a) c =
     (if k mod 4 = 0 \<and> c = 0 then (t # a, c)
      else
        (let r = t - c;
             c = (if t \<noteq> 0 then 0 else c);
             (ws, c) = sub_part_a (k + 1) a c
         in (r # ws, c)))"

definition bn_sub_part_words :: "BN_ULONG list \<Rightarrow> BN_ULONG list \<Rightarrow> nat \<Rightarrow> int \<Rightarrow> BN_ULONG list \<times> BN_ULONG" where
  "bn_sub_part_words a b cl dl =
     (let (ws, c) = bn_sub_words a b cl
      in if dl = 0 then (ws, c)
         else
           (let (ws', c) =
              (if dl < 0 then sub_part_b (take (nat (- dl)) (drop cl b)) c
               else sub_part_a 0 (take (nat dl) (drop cl a)) c)
            in (ws @ ws', c)))"

definition bn_abs_sub_part_words :: "BN_ULONG list \<Rightarrow> BN_ULONG list \<Rightarrow> nat \<Rightarrow> int \<Rightarrow> BN_ULONG list \<times> BN_ULONG" where
  "bn_abs_sub_part_words a b cl dl =
     (let (tmp, borrow) = bn_sub_part_words a b cl dl;
          (r, _) = bn_sub_part_words b a cl (- dl);
          r_len = cl + nat (if dl < 0 then - dl else dl);
          borrow = 0 - borrow
      in (bn_select_words borrow r tmp r_len, borrow))"

section \<open>Products\<close>

fun mul_normal_loop :: "BN_ULONG list \<Rightarrow> BN_ULONG list \<Rightarrow> nat \<Rightarrow> BN_ULONG list \<Rightarrow> nat \<Rightarrow> nat \<Rightarrow> BN_ULONG list" where
  "mul_normal_loop r a na b k 0 = r"
| "mul_normal_loop r a na b k (Suc nb) =
     (let (ws, c) = bn_mul_add_words (drop k r) a na (b ! k)
      in mul_normal_loop (take k r @ ws @ [c]) a na b (k + 1) nb)"

definition bn_mul_normal :: "BN_ULONG list \<Rightarrow> nat \<Rightarrow> BN_ULONG list \<Rightarrow> nat \<Rightarrow> BN_ULONG list" where
  "bn_mul_normal a na b nb =
     (let (a, na, b, nb) = (if na < nb then (b, nb, a, na) else (a, na, b, nb))
      in if nb = 0 then replicate na 0
         else
           (let (ws, c) = bn_mul_words a na (b ! 0)
            in mul_normal_loop (ws @ [c]) a na b 1 (nb - 1)))"

text \<open>The end of both recursive functions: from \<open>r0,r1\<close>, \<open>r2,r3\<close> and \<open>t2,t3\<close> with its sign, the words of \<open>r\<close>
  and the first three parts of \<open>t\<close>. The loop that propagates the last carry is that of \<open>add.c\<close>.\<close>

definition mul_combine :: "nat \<Rightarrow> BN_ULONG \<Rightarrow> BN_ULONG list \<Rightarrow> BN_ULONG list \<Rightarrow> BN_ULONG list \<Rightarrow> BN_ULONG list \<times> BN_ULONG list" where
  "mul_combine n negm r01 r23 t23 =
     (let n2 = 2 * n;
          r = r01 @ r23;
          (t01, c) = bn_add_words r (drop n2 r) n2;
          (tneg, borrow) = bn_sub_words t01 t23 n2;
          c_neg = c - borrow;
          (tpos, carry) = bn_add_words t01 t23 n2;
          c_pos = c + carry;
          t23 = bn_select_words negm tneg tpos n2;
          c = constant_time_select_w negm c_neg c_pos;
          (mid, carry) = bn_add_words (drop n r) t23 n2;
          c = c + carry;
          (top, c) = add_carry_loop (drop (n + n2) r) c
      in (take n r @ mid @ top, t01 @ t23 @ tneg))"

function bn_mul_recursive ::
    "BN_ULONG list \<Rightarrow> BN_ULONG list \<Rightarrow> nat \<Rightarrow> int \<Rightarrow> int \<Rightarrow> BN_ULONG list \<Rightarrow> BN_ULONG list \<times> BN_ULONG list" where
  "bn_mul_recursive a b n2 dna dnb t =
     (if n2 = 8 \<and> dna = 0 \<and> dnb = 0 then (bn_mul_comba8 a b, t)
      else if n2 < 16 then
        (bn_mul_normal a (nat (int n2 + dna)) b (nat (int n2 + dnb)) @ replicate (nat (- (dna + dnb))) 0, t)
      else
        (let n = n2 div 2;
             tna = int n + dna;
             tnb = int n + dnb;
             (t0, negm) = bn_abs_sub_part_words a (drop n a) (nat tna) (int n - tna);
             (t1, negm') = bn_abs_sub_part_words (drop n b) b (nat tnb) (tnb - int n);
             negm = negm XOR negm';
             p = drop (2 * n2) t;
             (t23, r01, r23, p) =
               (if n = 4 \<and> dna = 0 \<and> dnb = 0 then
                  (bn_mul_comba4 t0 t1, bn_mul_comba4 a b, bn_mul_comba4 (drop n a) (drop n b), p)
                else if n = 8 \<and> dna = 0 \<and> dnb = 0 then
                  (bn_mul_comba8 t0 t1, bn_mul_comba8 a b, bn_mul_comba8 (drop n a) (drop n b), p)
                else
                  (let (t23, p) = bn_mul_recursive t0 t1 n 0 0 p;
                       (r01, p) = bn_mul_recursive a b n 0 0 p;
                       (r23, p) = bn_mul_recursive (drop n a) (drop n b) n dna dnb p
                   in (t23, r01, r23, p)));
             (r, ts) = mul_combine n negm r01 r23 t23
         in (r, ts @ drop n2 p)))"
  by pat_completeness auto

termination by (relation "measure (\<lambda>(a, b, n2, dna, dnb, t). n2)") auto

declare bn_mul_recursive.simps [simp del]

text \<open>The loop that looks for the size of the product of the upper halves: whether it is between two powers
  of two, and the power. A length that is not negative is a \<open>nat\<close>.\<close>

fun part_split :: "nat \<Rightarrow> nat \<Rightarrow> nat \<Rightarrow> bool \<times> nat" where
  "part_split i tna tnb =
     (let i' = i div 2
      in if i' < tna \<or> i' < tnb then (True, i')
         else if i' = tna \<or> i' = tnb then (False, i')
         else part_split i' tna tnb)"

declare part_split.simps [simp del]

lemma part_split_less: "part_split i tna tnb = (part, j) \<Longrightarrow> 0 < i \<Longrightarrow> j < i"
proof (induction i tna tnb rule: part_split.induct)
  case (1 i tna tnb)
  then show ?case
    using part_split.simps [of i tna tnb] by (cases "i div 2 = 0") (auto simp: Let_def split: if_splits)
qed

text \<open>For less than eight words the rest of \<open>r\<close> is cleared in bytes.\<close>

function bn_mul_part_recursive ::
    "BN_ULONG list \<Rightarrow> BN_ULONG list \<Rightarrow> BN_ULONG list \<Rightarrow> nat \<Rightarrow> nat \<Rightarrow> nat \<Rightarrow> BN_ULONG list \<Rightarrow> BN_ULONG list \<times> BN_ULONG list" where
  "bn_mul_part_recursive r a b n tna tnb t =
     (let n2 = n * 2
      in if n < 8 then
           (let ws = bn_mul_normal a (n + tna) b (n + tnb);
                zeros = n2 - tna - tnb;
                rest = mem_bytes (take (4 * n - length ws) (drop (length ws) r))
            in (ws @ mem_words (replicate zeros 0 @ drop zeros rest), t))
         else
           (let (t0, negm) = bn_abs_sub_part_words a (drop n a) tna (int n - int tna);
                (t1, negm') = bn_abs_sub_part_words (drop n b) b tnb (int tnb - int n);
                negm = negm XOR negm';
                p = drop (2 * n2) t;
                (t23, r01, r23, p) =
                  (if n = 8 then
                     (bn_mul_comba8 t0 t1, bn_mul_comba8 a b,
                      bn_mul_normal (drop n a) tna (drop n b) tnb @ replicate (n2 - tna - tnb) 0, p)
                   else
                     (let (t23, p) = bn_mul_recursive t0 t1 n 0 0 p;
                          (r01, p) = bn_mul_recursive a b n 0 0 p;
                          r23 = replicate n2 0;
                          (ws, p) =
                            (if tna < 16 \<and> tnb < 16 then (bn_mul_normal (drop n a) tna (drop n b) tnb, p)
                             else
                               (case part_split n tna tnb of
                                  (True, i) \<Rightarrow> bn_mul_part_recursive r23 (drop n a) (drop n b) i (tna - i) (tnb - i) p
                                | (False, i) \<Rightarrow>
                                    bn_mul_recursive (drop n a) (drop n b) i (int tna - int i) (int tnb - int i) p))
                      in (t23, r01, ws @ drop (length ws) r23, p)));
                (r, ts) = mul_combine n negm r01 r23 t23
            in (r, ts @ drop n2 p)))"
  by pat_completeness auto

termination
  by (relation "measure (\<lambda>(r, a, b, n, tna, tnb, t). n)") (auto dest: part_split_less [OF sym])

declare bn_mul_part_recursive.simps [simp del]

definition bn_mul_small :: "nat \<Rightarrow> BN_ULONG list \<Rightarrow> BN_ULONG list \<Rightarrow> BN_ULONG list option" where
  "bn_mul_small num_r a b =
     (if num_r \<noteq> length a + length b then None
      else if length a = 8 \<and> length b = 8 then Some (bn_mul_comba8 a b)
      else Some (bn_mul_normal a (length a) b (length b)))"

section \<open>Squares\<close>

fun sqr_normal_loop :: "BN_ULONG list \<Rightarrow> BN_ULONG list \<Rightarrow> nat \<Rightarrow> nat \<Rightarrow> BN_ULONG list" where
  "sqr_normal_loop r a k 0 = r"
| "sqr_normal_loop r a k (Suc i) =
     (let (ws, c) = bn_mul_add_words (drop (2 * k + 1) r) (drop (k + 1) a) (Suc i) (a ! k)
      in sqr_normal_loop (take (2 * k + 1) r @ ws @ [c]) a (k + 1) i)"

definition bn_sqr_normal :: "BN_ULONG list \<Rightarrow> nat \<Rightarrow> BN_ULONG list \<Rightarrow> BN_ULONG list \<times> BN_ULONG list" where
  "bn_sqr_normal a n tmp =
     (if n = 0 then ([], tmp)
      else
        (let max = n * 2;
             r = (if n > 1 then (let (ws, c) = bn_mul_words (drop 1 a) (n - 1) (a ! 0) in 0 # ws @ [c]) else [0]);
             r = (if n > 2 then sqr_normal_loop r a 1 (n - 2) else r);
             r = r @ [0];
             (r, _) = bn_add_words r r max;
             sq = bn_sqr_words a n;
             (r, _) = bn_add_words r sq max
         in (r, sq @ drop max tmp)))"

function bn_sqr_recursive :: "BN_ULONG list \<Rightarrow> nat \<Rightarrow> BN_ULONG list \<Rightarrow> BN_ULONG list \<times> BN_ULONG list" where
  "bn_sqr_recursive a n2 t =
     (if n2 = 4 then (bn_sqr_comba4 a, t)
      else if n2 = 8 then (bn_sqr_comba8 a, t)
      else if n2 < 16 then bn_sqr_normal a n2 t
      else
        (let n = n2 div 2;
             p = drop (n2 * 2) t;
             t0 = bn_abs_sub_words a (drop n a) n;
             (t23, p) = bn_sqr_recursive t0 n p;
             (r01, p) = bn_sqr_recursive a n p;
             (r23, p) = bn_sqr_recursive (drop n a) n p;
             r = r01 @ r23;
             (t01, c) = bn_add_words r (drop n2 r) n2;
             (t23, borrow) = bn_sub_words t01 t23 n2;
             c = c - borrow;
             (mid, carry) = bn_add_words (drop n r) t23 n2;
             c = c + carry;
             (top, c) = add_carry_loop (drop (n + n2) r) c
         in (take n r @ mid @ top, t01 @ t23 @ p)))"
  by pat_completeness auto

termination by (relation "measure (\<lambda>(a, n2, t). n2)") auto

declare bn_sqr_recursive.simps [simp del]

definition bn_sqr_small :: "nat \<Rightarrow> BN_ULONG list \<Rightarrow> BN_ULONG list option" where
  "bn_sqr_small num_r a =
     (if num_r \<noteq> 2 * length a \<or> length a > 9 then None
      else if length a = 4 then Some (bn_sqr_comba4 a)
      else if length a = 8 then Some (bn_sqr_comba8 a)
      else Some (fst (bn_sqr_normal a (length a) (replicate 18 0))))"

section \<open>Big numbers\<close>

definition BN_mul_word :: "alloc \<Rightarrow> BIGNUM \<Rightarrow> BN_ULONG \<Rightarrow> bool \<times> BIGNUM" where
  "BN_mul_word A bn w =
     (if width bn = 0 then (True, bn)
      else if w = 0 then (True, BN_zero bn)
      else
        (let (ws, ll) = bn_mul_words (bn_d bn) (width bn) w;
             bn = put_words ws bn
         in if ll \<noteq> 0 then
              (case bn_wexpand A bn (width bn + 1) of
                 (False, bn) \<Rightarrow> (False, bn)
               | (True, bn) \<Rightarrow> (True, bn\<lparr>bn_d := (bn_d bn)[width bn := ll], width := width bn + 1\<rparr>))
            else (True, bn)))"

text \<open>The choice of the algorithm. \<open>rr\<close> is the number the result goes to.\<close>

definition mul_words_into :: "(nat \<Rightarrow> alloc) \<Rightarrow> BIGNUM \<Rightarrow> BIGNUM \<Rightarrow> BIGNUM \<Rightarrow> BN_CTX \<Rightarrow> bool \<times> BIGNUM \<times> BN_CTX" where
  "mul_words_into As rr a b ctx =
     (let al = width a; bl = width b; i = int al - int bl; top = al + bl
      in if i = 0 \<and> al = 8 then
           (case bn_wexpand (As 2) rr 16 of
              (False, rr) \<Rightarrow> (False, rr, ctx)
            | (True, rr) \<Rightarrow> (True, put_words (bn_mul_comba8 (bn_d a) (bn_d b)) (rr\<lparr>width := 16\<rparr>), ctx))
         else if al \<ge> 16 \<and> bl \<ge> 16 \<and> - 1 \<le> i \<and> i \<le> 1 then
           (let j = 2 ^ (BN_num_bits_word (of_nat (if i \<ge> 0 then al else bl)) - 1)
            in case BN_CTX_get (As 2) ctx of
                 (None, ctx) \<Rightarrow> (False, rr, ctx)
               | (Some p, ctx) \<Rightarrow>
                   (let part = (al > j \<or> bl > j)
                    in case bn_wexpand (As 3) (ctx_bn ctx p) (if part then j * 8 else j * 4) of
                         (False, t) \<Rightarrow> (False, rr, ctx_put ctx p t)
                       | (True, t) \<Rightarrow>
                           (case bn_wexpand (As 4) rr (if part then j * 4 else j * 2) of
                              (False, rr) \<Rightarrow> (False, rr, ctx_put ctx p t)
                            | (True, rr) \<Rightarrow>
                                (let (ws, ts) =
                                   (if part then bn_mul_part_recursive (bn_d rr) (bn_d a) (bn_d b) j (al - j) (bl - j) (bn_d t)
                                    else bn_mul_recursive (bn_d a) (bn_d b) j (int al - int j) (int bl - int j) (bn_d t))
                                 in (True, put_words ws (rr\<lparr>width := top\<rparr>), ctx_put ctx p (t\<lparr>bn_d := ts\<rparr>))))))
         else
           (case bn_wexpand (As 2) rr top of
              (False, rr) \<Rightarrow> (False, rr, ctx)
            | (True, rr) \<Rightarrow> (True, put_words (bn_mul_normal (bn_d a) al (bn_d b) bl) (rr\<lparr>width := top\<rparr>), ctx)))"

text \<open>After \<open>BN_CTX_get\<close> the code tests \<open>r\<close>, not \<open>rr\<close>.\<close>

definition bn_mul_impl :: "(nat \<Rightarrow> alloc) \<Rightarrow> bool \<Rightarrow> BIGNUM \<Rightarrow> BIGNUM \<Rightarrow> BIGNUM \<Rightarrow> BN_CTX \<Rightarrow> (bool \<times> BIGNUM \<times> BN_CTX) option" where
  "bn_mul_impl As alias r a b ctx =
     (if width a = 0 \<or> width b = 0 then Some (True, BN_zero r, ctx)
      else
        (let ctx = BN_CTX_start (As 0) ctx;
             sign = (neg a \<noteq> neg b)
         in if alias then
              (case BN_CTX_get (As 1) ctx of
                 (None, _) \<Rightarrow> None
               | (Some p, ctx) \<Rightarrow>
                   (let (ok, rr, ctx) = mul_words_into As ((ctx_bn ctx p)\<lparr>neg := sign\<rparr>) a b ctx;
                        ctx = ctx_put ctx p rr;
                        (ok, r) = (if ok then BN_copy (As 5) r rr else (False, r))
                    in map_option (\<lambda>ctx. (ok, r, ctx)) (BN_CTX_end ctx)))
            else
              (let (ok, r, ctx) = mul_words_into As (r\<lparr>neg := sign\<rparr>) a b ctx
               in map_option (\<lambda>ctx. (ok, r, ctx)) (BN_CTX_end ctx))))"

definition BN_mul :: "(nat \<Rightarrow> alloc) \<Rightarrow> bool \<Rightarrow> BIGNUM \<Rightarrow> BIGNUM \<Rightarrow> BIGNUM \<Rightarrow> BN_CTX \<Rightarrow> (bool \<times> BIGNUM \<times> BN_CTX) option" where
  "BN_mul As alias r a b ctx =
     (case bn_mul_impl As alias r a b ctx of
        None \<Rightarrow> None
      | Some (False, r, ctx) \<Rightarrow> Some (False, r, ctx)
      | Some (True, r, ctx) \<Rightarrow> Some (True, bn_set_minimal_width r, ctx))"

definition bn_mul_consttime :: "(nat \<Rightarrow> alloc) \<Rightarrow> bool \<Rightarrow> BIGNUM \<Rightarrow> BIGNUM \<Rightarrow> BIGNUM \<Rightarrow> BN_CTX \<Rightarrow> (bool \<times> BIGNUM \<times> BN_CTX) option" where
  "bn_mul_consttime As alias r a b ctx = (if neg a \<or> neg b then Some (False, r, ctx) else bn_mul_impl As alias r a b ctx)"

definition bn_abs_sub_consttime :: "(nat \<Rightarrow> alloc) \<Rightarrow> BIGNUM \<Rightarrow> BIGNUM \<Rightarrow> BIGNUM \<Rightarrow> BN_CTX \<Rightarrow> (bool \<times> BIGNUM \<times> BN_CTX) option" where
  "bn_abs_sub_consttime As r a b ctx =
     (let cl = (if width a < width b then width a else width b);
          dl = int (width a) - int (width b);
          r_len = (if width a < width b then width b else width a)
      in case BN_CTX_get (As 1) (BN_CTX_start (As 0) ctx) of
           (None, ctx) \<Rightarrow> map_option (\<lambda>ctx. (False, r, ctx)) (BN_CTX_end ctx)
         | (Some p, ctx) \<Rightarrow>
             (case bn_wexpand (As 2) r r_len of
                (False, r) \<Rightarrow> map_option (\<lambda>ctx. (False, r, ctx)) (BN_CTX_end ctx)
              | (True, r) \<Rightarrow>
                  (case bn_wexpand (As 3) (ctx_bn ctx p) r_len of
                     (False, tmp) \<Rightarrow> map_option (\<lambda>ctx. (False, r, ctx)) (BN_CTX_end (ctx_put ctx p tmp))
                   | (True, tmp) \<Rightarrow>
                       (let (ws, _) = bn_abs_sub_part_words (bn_d a) (bn_d b) cl dl;
                            (ts, _) = bn_sub_part_words (bn_d a) (bn_d b) cl dl
                        in map_option (\<lambda>ctx. (True, put_words ws (r\<lparr>width := r_len\<rparr>), ctx))
                             (BN_CTX_end (ctx_put ctx p (put_words ts tmp)))))))"

text \<open>\<open>bn_sqr_consttime\<close> takes one temporary when \<open>r\<close> is \<open>a\<close>, and one more. The third component of the result of
  the choice of the algorithm is \<open>tmp\<close> as it leaves it; the array for small sizes is on the stack.\<close>

definition sqr_words_into :: "(nat \<Rightarrow> alloc) \<Rightarrow> BIGNUM \<Rightarrow> BIGNUM \<Rightarrow> BIGNUM \<Rightarrow> bool \<times> BIGNUM \<times> BIGNUM" where
  "sqr_words_into As rr a tmp =
     (let al = width a; max = 2 * al
      in case bn_wexpand (As 3) rr max of
           (False, rr) \<Rightarrow> (False, rr, tmp)
         | (True, rr) \<Rightarrow>
             (let done = (\<lambda>ws. put_words ws (rr\<lparr>width := max, neg := False\<rparr>))
              in if al = 4 then (True, done (bn_sqr_comba4 (bn_d a)), tmp)
                 else if al = 8 then (True, done (bn_sqr_comba8 (bn_d a)), tmp)
                 else if al < 16 then (True, done (fst (bn_sqr_normal (bn_d a) al (replicate 32 0))), tmp)
                 else if al \<noteq> 0 \<and> al AND (al - 1) = 0 then
                   (case bn_wexpand (As 4) tmp (al * 4) of
                      (False, tmp) \<Rightarrow> (False, rr, tmp)
                    | (True, tmp) \<Rightarrow>
                        (let (ws, ts) = bn_sqr_recursive (bn_d a) al (bn_d tmp) in (True, done ws, tmp\<lparr>bn_d := ts\<rparr>)))
                 else
                   (case bn_wexpand (As 4) tmp max of
                      (False, tmp) \<Rightarrow> (False, rr, tmp)
                    | (True, tmp) \<Rightarrow>
                        (let (ws, ts) = bn_sqr_normal (bn_d a) al (bn_d tmp) in (True, done ws, tmp\<lparr>bn_d := ts\<rparr>)))))"

definition bn_sqr_consttime :: "(nat \<Rightarrow> alloc) \<Rightarrow> bool \<Rightarrow> BIGNUM \<Rightarrow> BIGNUM \<Rightarrow> BN_CTX \<Rightarrow> (bool \<times> BIGNUM \<times> BN_CTX) option" where
  "bn_sqr_consttime As alias r a ctx =
     (if width a = 0 then Some (True, r\<lparr>width := 0, neg := False\<rparr>, ctx)
      else
        (let ctx = BN_CTX_start (As 0) ctx;
             (q, ctx) = (if alias then BN_CTX_get (As 1) ctx else (None, ctx));
             (p, ctx) = BN_CTX_get (As 2) ctx
         in case p of
              None \<Rightarrow> map_option (\<lambda>ctx. (False, r, ctx)) (BN_CTX_end ctx)
            | Some p \<Rightarrow>
                if alias then
                  (case q of
                     None \<Rightarrow> map_option (\<lambda>ctx. (False, r, ctx)) (BN_CTX_end ctx)
                   | Some q \<Rightarrow>
                       (let (ok, rr, tmp) = sqr_words_into As (ctx_bn ctx q) a (ctx_bn ctx p);
                            ctx = ctx_put (ctx_put ctx q rr) p tmp;
                            (ok, r) = (if ok then BN_copy (As 5) r rr else (False, r))
                        in map_option (\<lambda>ctx. (ok, r, ctx)) (BN_CTX_end ctx)))
                else
                  (let (ok, r, tmp) = sqr_words_into As r a (ctx_bn ctx p)
                   in map_option (\<lambda>ctx. (ok, r, ctx)) (BN_CTX_end (ctx_put ctx p tmp)))))"

definition BN_sqr :: "(nat \<Rightarrow> alloc) \<Rightarrow> bool \<Rightarrow> BIGNUM \<Rightarrow> BIGNUM \<Rightarrow> BN_CTX \<Rightarrow> (bool \<times> BIGNUM \<times> BN_CTX) option" where
  "BN_sqr As alias r a ctx =
     (case bn_sqr_consttime As alias r a ctx of
        None \<Rightarrow> None
      | Some (False, r, ctx) \<Rightarrow> Some (False, r, ctx)
      | Some (True, r, ctx) \<Rightarrow> Some (True, bn_set_minimal_width r, ctx))"

end
