(* ===== verification/Bn_Mul_Words.thy ===== *)
theory Bn_Mul_Words
  imports Bn_Mul
begin

text \<open>
  The functions of \<open>mul.c\<close> on vectors compute the product exactly: by rows, by Karatsuba's recursion
  and for sizes between two powers of two.
\<close>

section \<open>Differences\<close>

lemma sub_part_b_ok:
  assumes "sub_part_b b c = (ws, c')" and "uint c \<le> 1"
  shows "words_val ws - bn_base ^ length b * uint c' = - words_val b - uint c \<and> uint c' \<le> 1 \<and> length ws = length b"
  using assms
proof (induction b arbitrary: c ws c')
  case (Cons t b)
  define d :: u64 where "d = (if t \<noteq> 0 then 1 else c)"
  obtain ws' where w: "sub_part_b b d = (ws', c')" "ws = (0 - t - c) # ws'"
    using Cons.prems(1) by (auto simp: Let_def d_def split: prod.splits)
  have d: "uint d \<le> 1" using Cons.prems(2) by (simp add: d_def)
  note IH = Cons.IH [OF w(1) d]
  have "uint (0 - t - c) - bn_base * uint d = - uint t - uint c"
  proof (cases "t = 0")
    case True
    then show ?thesis using Cons.prems(2) uint_minus_u64 [of 0 c] by (auto simp: d_def uint_le_1)
  next
    case False
    then have "uint t \<noteq> 0" by (simp add: unsigned_eq_0_iff)
    then have "1 \<le> uint t" using uint_u64(1) [of t] by linarith
    then show ?thesis using False Cons.prems(2) uint_minus_u64 [of 0 t] uint_minus_u64 [of "0 - t" c] uint_u64(2) [of t]
      by (auto simp: d_def)
  qed
  then show ?case using IH w(2) by (simp add: algebra_simps)
qed simp

lemma sub_part_a_ok:
  assumes "sub_part_a k a c = (ws, c')" and "uint c \<le> 1"
  shows "words_val ws - bn_base ^ length a * uint c' = words_val a - uint c \<and> uint c' \<le> 1 \<and> length ws = length a"
  using assms
proof (induction k a c arbitrary: ws c' rule: sub_part_a.induct)
  case (2 k t a c)
  show ?case
  proof (cases "k mod 4 = 0 \<and> c = 0")
    case True
    then show ?thesis using 2(2,3) by auto
  next
    case False
    define d :: u64 where "d = (if t \<noteq> 0 then 0 else c)"
    obtain ws' where w: "sub_part_a (k + 1) a d = (ws', c')" "ws = (t - c) # ws'"
      using 2(2) False by (auto simp: Let_def d_def split: prod.splits)
    have d: "uint d \<le> 1" using 2(3) by (simp add: d_def)
    have IH: "words_val ws' - bn_base ^ length a * uint c' = words_val a - uint d \<and> uint c' \<le> 1 \<and> length ws' = length a"
      using 2(1) [OF False refl, of d ws' c'] w(1) d by (simp add: d_def)
    have "uint (t - c) - bn_base * uint d = uint t - uint c"
    proof (cases "t = 0")
      case True
      then show ?thesis using 2(3) uint_minus_u64 [of 0 c] by (auto simp: d_def uint_le_1)
    next
      case False
      then have "uint t \<noteq> 0" by (simp add: unsigned_eq_0_iff)
      then have "1 \<le> uint t" using uint_u64(1) [of t] by linarith
      then show ?thesis using False 2(3) uint_minus_u64 [of t c] by (auto simp: d_def)
    qed
    then show ?thesis using IH w(2) by (simp add: algebra_simps)
  qed
qed simp

lemma join_borrow:
  fixes u v :: int
  assumes "u - X * d = A - B" and "v - Y * e = A' - B' - d"
  shows "(u + X * v) - X * Y * e = (A + X * A') - (B + X * B')"
  using assms by algebra

lemma bn_sub_part_words_ok:
  assumes "bn_sub_part_words a b cl dl = (ws, c)" and "cl + nat dl \<le> length a" and "cl + nat (- dl) \<le> length b"
  shows "words_val ws - bn_base ^ (cl + nat \<bar>dl\<bar>) * uint c = words_val (take (cl + nat dl) a) - words_val (take (cl + nat (- dl)) b)
    \<and> uint c \<le> 1 \<and> length ws = cl + nat \<bar>dl\<bar>"
proof -
  obtain us d where u: "bn_sub_words a b cl = (us, d)" by fastforce
  have "cl \<le> length a" "cl \<le> length b" using assms(2,3) by simp_all
  note U = bn_sub_words_ok [OF this u]
  have sp: "words_val (take (cl + k) xs) = words_val (take cl xs) + bn_base ^ cl * words_val (take k (drop cl xs))"
    if "cl + k \<le> length xs" for k xs
    using that words_val_append [of "take cl xs" "take k (drop cl xs)"] by (simp add: take_add)
  consider "dl = 0" | "dl < 0" | "0 < dl" by linarith
  then show ?thesis
  proof cases
    case 1
    then show ?thesis using U u assms(1) by (simp add: bn_sub_part_words_def)
  next
    case 2
    obtain vs e where v: "sub_part_b (take (nat (- dl)) (drop cl b)) d = (vs, e)" by fastforce
    have V: "words_val vs - bn_base ^ nat (- dl) * uint e = - words_val (take (nat (- dl)) (drop cl b)) - uint d \<and> uint e \<le> 1 \<and> length vs = nat (- dl)"
      using sub_part_b_ok [OF v] U assms(3) by simp
    have "ws = us @ vs" "c = e" using assms(1) u v 2 by (simp_all add: bn_sub_part_words_def Let_def)
    then show ?thesis using U V 2 sp [OF assms(3)]
        join_borrow [of "words_val us" "bn_base ^ cl" "uint d" _ _ "words_val vs" "bn_base ^ nat (- dl)" "uint e" 0]
      by (simp only: words_val_append power_add) simp
  next
    case 3
    obtain vs e where v: "sub_part_a 0 (take (nat dl) (drop cl a)) d = (vs, e)" by fastforce
    have V: "words_val vs - bn_base ^ nat dl * uint e = words_val (take (nat dl) (drop cl a)) - uint d \<and> uint e \<le> 1 \<and> length vs = nat dl"
      using sub_part_a_ok [OF v] U assms(2) by simp
    have "ws = us @ vs" "c = e" using assms(1) u v 3 by (simp_all add: bn_sub_part_words_def Let_def)
    then show ?thesis using U V 3 sp [OF assms(2)]
        join_borrow [of "words_val us" "bn_base ^ cl" "uint d" _ _ "words_val vs" "bn_base ^ nat dl" "uint e" _ 0]
      by (simp only: words_val_append power_add) simp
  qed
qed

lemma words_val_select: "length a = n \<Longrightarrow> length b = n \<Longrightarrow> bn_select_words (ct_mask P) a b n = (if P then a else b)"
  by (cases P) (auto simp: bn_select_words_def constant_time_select_w_eq intro: nth_equalityI)

lemma borrow_mask: "uint c \<le> 1 \<Longrightarrow> 0 - c = ct_mask (c = 1)" for c :: u64
  by (auto simp: uint_le_1 ct_mask_def)

text \<open>A borrow is the sign of the difference.\<close>

lemma borrow_sign:
  fixes c :: u64
  assumes "words_val ws - bn_base ^ n * uint c = x" and "uint c \<le> 1" and "length ws = n"
  shows "c = 1 \<longleftrightarrow> x < 0" and "c \<noteq> 1 \<Longrightarrow> words_val ws = x"
proof -
  have "0 \<le> words_val ws" "words_val ws < bn_base ^ n" using words_val_less [of ws] assms(3) by simp_all
  moreover have "c = 0 \<or> c = 1" using assms(2) uint_le_1 by blast
  ultimately show "c = 1 \<longleftrightarrow> x < 0" "c \<noteq> 1 \<Longrightarrow> words_val ws = x" using assms(1) by (auto simp: not_less simp del: words_val_nonneg)
qed

lemma bn_abs_sub_words_ok:
  assumes "n \<le> length a" and "n \<le> length b"
  shows "words_val (bn_abs_sub_words a b n) = \<bar>words_val (take n a) - words_val (take n b)\<bar> \<and> length (bn_abs_sub_words a b n) = n"
proof -
  obtain tmp borrow where t: "bn_sub_words a b n = (tmp, borrow)" by fastforce
  obtain r borrow' where r: "bn_sub_words b a n = (r, borrow')" by fastforce
  note T = bn_sub_words_ok [OF assms t] and R = bn_sub_words_ok [OF assms(2,1) r]
  have "bn_abs_sub_words a b n = (if borrow = 1 then r else tmp)"
    using T R by (simp only: bn_abs_sub_words_def t r prod.case Let_def borrow_mask words_val_select)
  moreover have "borrow = 1 \<longleftrightarrow> words_val (take n a) - words_val (take n b) < 0" "borrow \<noteq> 1 \<Longrightarrow> words_val tmp = words_val (take n a) - words_val (take n b)"
    "borrow' = 1 \<longleftrightarrow> words_val (take n b) - words_val (take n a) < 0" "borrow' \<noteq> 1 \<Longrightarrow> words_val r = words_val (take n b) - words_val (take n a)"
    using borrow_sign [of tmp n borrow] borrow_sign [of r n borrow'] T R by blast+
  ultimately show ?thesis using T R by auto
qed

lemma bn_abs_sub_part_words_ok:
  assumes "bn_abs_sub_part_words a b cl dl = (ws, m)" and "cl + nat dl \<le> length a" and "cl + nat (- dl) \<le> length b"
    and "A = words_val (take (cl + nat dl) a)" and "B = words_val (take (cl + nat (- dl)) b)"
  shows "words_val ws = \<bar>A - B\<bar> \<and> m = ct_mask (A < B) \<and> length ws = cl + nat \<bar>dl\<bar>"
proof -
  obtain tmp borrow where t: "bn_sub_part_words a b cl dl = (tmp, borrow)" by fastforce
  obtain r borrow' where r: "bn_sub_part_words b a cl (- dl) = (r, borrow')" by fastforce
  have T: "words_val tmp - bn_base ^ (cl + nat \<bar>dl\<bar>) * uint borrow = A - B \<and> uint borrow \<le> 1 \<and> length tmp = cl + nat \<bar>dl\<bar>"
    using bn_sub_part_words_ok [OF t assms(2,3)] assms(4,5) by simp
  have R: "words_val r - bn_base ^ (cl + nat \<bar>dl\<bar>) * uint borrow' = B - A \<and> uint borrow' \<le> 1 \<and> length r = cl + nat \<bar>dl\<bar>"
    using bn_sub_part_words_ok [OF r] assms(2-5) by simp
  have "(if dl < 0 then - dl else dl) = \<bar>dl\<bar>" by simp
  then have "bn_abs_sub_part_words a b cl dl = (if borrow = 1 then r else tmp, ct_mask (borrow = 1))"
    using T R by (simp only: bn_abs_sub_part_words_def t r prod.case Let_def borrow_mask words_val_select)
  then have w: "ws = (if borrow = 1 then r else tmp)" "m = ct_mask (borrow = 1)" using assms(1) by simp_all
  have "borrow = 1 \<longleftrightarrow> A < B" "borrow \<noteq> 1 \<Longrightarrow> words_val tmp = A - B" "borrow' \<noteq> 1 \<Longrightarrow> words_val r = B - A" "borrow' = 1 \<longleftrightarrow> B < A"
    using borrow_sign [of tmp _ borrow] borrow_sign [of r _ borrow'] T R by auto
  then show ?thesis using w T R by auto
qed

section \<open>Products by rows\<close>

lemma words_val_take_drop:
  assumes "k + n \<le> length xs"
  shows "words_val (take (k + n) xs) = words_val (take k xs) + bn_base ^ k * words_val (take n (drop k xs))"
  using words_val_append [of "take k xs" "take n (drop k xs)"] assms by (simp add: take_add)

lemma mul_normal_loop_ok:
  assumes "na \<le> length a" and "k + nb \<le> length b" and "length r = na + k"
  shows "words_val (mul_normal_loop r a na b k nb) = words_val r + bn_base ^ k * (words_val (take na a) * words_val (take nb (drop k b)))
    \<and> length (mul_normal_loop r a na b k nb) = na + k + nb"
  using assms
proof (induction nb arbitrary: r k)
  case (Suc nb)
  obtain ws c where w: "bn_mul_add_words (drop k r) a na (b ! k) = (ws, c)" by fastforce
  have "na \<le> length (drop k r)" using Suc.prems(3) by simp
  note W = bn_mul_add_words_ok [OF this Suc.prems(1) w]
  define r' where "r' = take k r @ ws @ [c]"
  have len: "length r' = na + (k + 1)" using W Suc.prems(3) by (simp add: r'_def)
  have rv: "words_val r = words_val (take k r) + bn_base ^ k * words_val (drop k r)"
    using words_val_split [of k r] Suc.prems(3) by simp
  have "words_val r' = words_val (take k r) + bn_base ^ k * (words_val ws + bn_base ^ na * uint c)"
    using W Suc.prems(3) by (simp add: r'_def words_val_append)
  also have "\<dots> = words_val r + bn_base ^ k * (uint (b ! k) * words_val (take na a))"
    using W Suc.prems(3) rv by (simp add: algebra_simps)
  finally have v: "words_val r' = words_val r + bn_base ^ k * (uint (b ! k) * words_val (take na a))" .
  have d: "take (Suc nb) (drop k b) = b ! k # take nb (drop (k + 1) b)"
    using Suc.prems(2) by (simp add: take_Suc_conv_app_nth flip: Cons_nth_drop_Suc)
  note IH = Suc.IH [OF Suc.prems(1) _ len]
  have "mul_normal_loop r a na b k (Suc nb) = mul_normal_loop r' a na b (k + 1) nb" by (simp add: w r'_def)
  then show ?case using IH Suc.prems(2) v d by (simp add: algebra_simps)
qed simp

lemma bn_mul_normal_ok:
  assumes "na \<le> length a" and "nb \<le> length b"
  shows "words_val (bn_mul_normal a na b nb) = words_val (take na a) * words_val (take nb b) \<and> length (bn_mul_normal a na b nb) = na + nb"
proof -
  have main: "words_val (bn_mul_normal a na b nb) = words_val (take na a) * words_val (take nb b) \<and> length (bn_mul_normal a na b nb) = na + nb"
    if "na \<le> length a" "nb \<le> length b" "\<not> na < nb" for a na b nb
  proof (cases nb)
    case 0
    then show ?thesis using that by (simp add: bn_mul_normal_def)
  next
    case (Suc k)
    obtain ws c where w: "bn_mul_words a na (b ! 0) = (ws, c)" by fastforce
    note W = bn_mul_words_ok [OF that(1) w]
    have b: "take (Suc k) b = b ! 0 # take k (drop 1 b)" using that(2) Suc by (cases b) simp_all
    have e: "bn_mul_normal a na b (Suc k) = mul_normal_loop (ws @ [c]) a na b 1 k" using that(3) Suc by (simp add: bn_mul_normal_def w)
    have "words_val (ws @ [c]) = uint (b ! 0) * words_val (take na a)" using W by (simp add: words_val_append)
    then show ?thesis using mul_normal_loop_ok [of na a 1 k b "ws @ [c]"] that W Suc by (simp add: e b algebra_simps)
  qed
  show ?thesis
  proof (cases "na < nb")
    case True
    then have "bn_mul_normal a na b nb = bn_mul_normal b nb a na" by (simp add: bn_mul_normal_def)
    then show ?thesis using main [OF assms(2,1)] True by (simp add: mult.commute)
  qed (use main [OF assms] in blast)
qed

section \<open>Karatsuba\<close>

lemma add_carry_loop_any:
  assumes "add_carry_loop a c = (ws, c')"
  shows "words_val ws + bn_base ^ length a * uint c' = words_val a + uint c \<and> length ws = length a"
proof (cases a)
  case Nil
  then show ?thesis using assms by simp
next
  case (Cons x xs)
  define d where "d = (if c + x < x then 1 else 0 :: BN_ULONG)"
  obtain vs where vs: "add_carry_loop xs d = (vs, c')" "ws = (c + x) # vs"
    using assms Cons by (auto simp: Let_def d_def split: prod.splits)
  have "uint (c + x) + bn_base * uint d = uint c + uint x" unfolding d_def by (rule uint_add_carry)
  moreover have "uint d \<le> 1" by (simp add: d_def)
  ultimately show ?thesis using add_carry_loop_ok [OF _ vs(1)] by (simp add: Cons vs(2) algebra_simps)
qed

lemma uint_sum_small: "uint a + uint b \<le> 3 \<Longrightarrow> uint (a + b) = uint a + uint b" for a b :: u64
  using uint_plus_u64 [of a b] by simp

text \<open>The top carry of a vector whose value is known to fit.\<close>

lemma no_carry:
  fixes c :: int
  assumes "0 \<le> v" and "v + X * c = x" and "x < X" and "0 \<le> c" and "0 < X"
  shows "c = 0 \<and> v = x"
proof -
  have "\<not> 1 \<le> c"
  proof
    assume "1 \<le> c"
    then have "X * 1 \<le> X * c" using assms(5) by (intro mult_left_mono) simp_all
    then show False using assms(1-3) by linarith
  qed
  then have "c = 0" using assms(4) by linarith
  then show ?thesis using assms(2) by simp
qed

lemma karatsuba_middle:
  fixes A0 :: int
  assumes "t01 + Y * c = A0 * B0 + A1 * B1" and "s = (A0 - A1) * (B1 - B0)"
  shows "tneg - Y * b = t01 - t23 \<Longrightarrow> t23 = - s \<Longrightarrow> tneg + Y * (c - b) = A0 * B1 + A1 * B0"
    and "tpos + Y * b = t01 + t23 \<Longrightarrow> t23 = s \<Longrightarrow> tpos + Y * (c + b) = A0 * B1 + A1 * B0"
  using assms by algebra+

lemma karatsuba_total:
  fixes A0 :: int
  assumes "r0 + X * r1 + X * X * (r2 + X * r3) = A0 * B0 + X * X * (A1 * B1)"
    and "mid + X * X * c = (r1 + X * r2) + t" and "t + X * X * d = A0 * B1 + A1 * B0" and "tp + X * e = r3 + (d + c)"
  shows "r0 + X * (mid + X * X * tp) + X * X * X * X * e = (A0 + X * A1) * (B0 + X * B1)"
  using assms by algebra

lemma mul_combine_ok:
  assumes "length r01 = 2 * n" and "length r23 = 2 * n" and "length t23 = 2 * n"
    and "words_val r01 = A0 * B0" and "words_val r23 = A1 * B1"
    and "(if P then - words_val t23 else words_val t23) = (A0 - A1) * (B1 - B0)"
    and "0 \<le> A0" "0 \<le> A1" "0 \<le> B0" "0 \<le> B1"
    and "A0 + bn_base ^ n * A1 < bn_base ^ (2 * n)" and "B0 + bn_base ^ n * B1 < bn_base ^ (2 * n)"
    and "mul_combine n (ct_mask P) r01 r23 t23 = (r, ts)"
  shows "words_val r = (A0 + bn_base ^ n * A1) * (B0 + bn_base ^ n * B1) \<and> length r = 4 * n \<and> length ts = 6 * n"
proof -
  define X where "X = bn_base ^ n"
  have X: "0 < X" "bn_base ^ (2 * n) = X * X" by (simp_all add: X_def power_add mult_2)
  define rr where "rr = r01 @ r23"
  obtain t01 c where t01: "bn_add_words rr (drop (2 * n) rr) (2 * n) = (t01, c)" by fastforce
  obtain tneg b where tneg: "bn_sub_words t01 t23 (2 * n) = (tneg, b)" by fastforce
  obtain tpos cc where tpos: "bn_add_words t01 t23 (2 * n) = (tpos, cc)" by fastforce
  define t where "t = (if P then tneg else tpos)"
  define d where "d = (if P then c - b else c + cc)"
  obtain mid ca where mid: "bn_add_words (drop n rr) t (2 * n) = (mid, ca)" by fastforce
  obtain tp e where tp: "add_carry_loop (drop (n + 2 * n) rr) (d + ca) = (tp, e)" by fastforce
  have T01: "words_val t01 + X * X * uint c = A0 * B0 + A1 * B1 \<and> uint c \<le> 1 \<and> length t01 = 2 * n"
    using bn_add_words_ok [OF _ _ t01] assms(1-5) by (simp add: rr_def flip: X(2))
  have N: "words_val tneg - X * X * uint b = words_val t01 - words_val t23 \<and> uint b \<le> 1 \<and> length tneg = 2 * n"
    using bn_sub_words_ok [OF _ _ tneg] T01 assms(3) by (simp flip: X(2))
  have Q: "words_val tpos + X * X * uint cc = words_val t01 + words_val t23 \<and> uint cc \<le> 1 \<and> length tpos = 2 * n"
    using bn_add_words_ok [OF _ _ tpos] T01 assms(3) by (simp flip: X(2))
  have nn: "0 \<le> A0 * B1 + A1 * B0" using assms(7-10) by simp
  have D: "words_val t + X * X * uint d = A0 * B1 + A1 * B0 \<and> uint d \<le> 2 \<and> length t = 2 * n"
  proof (cases P)
    case True
    have v: "words_val tneg + X * X * (uint c - uint b) = A0 * B1 + A1 * B0"
      using karatsuba_middle(1) [of "words_val t01" "X * X" "uint c" A0 B0 A1 B1 _ "words_val tneg" "uint b" "words_val t23"] T01 N assms(6) True by simp
    have "words_val tneg < X * X" using words_val_less [of tneg] N by (simp flip: X(2))
    have "uint b \<le> uint c"
    proof (rule ccontr)
      assume "\<not> uint b \<le> uint c"
      then have "uint b - uint c = 1" using T01 N uint_u64(1) [of c] by linarith
      then have "X * X * (uint c - uint b) = - (X * X)" by (simp add: algebra_simps)
      then show False using v nn \<open>words_val tneg < X * X\<close> by linarith
    qed
    then have "uint d = uint c - uint b" using True uint_minus_u64 [of c b] by (simp add: d_def)
    moreover from this have "uint d \<le> 2" using T01 uint_u64(1) [of b] by linarith
    ultimately show ?thesis using v True N by (simp add: t_def)
  next
    case False
    have "uint d = uint c + uint cc" using False uint_sum_small [of c cc] T01 Q by (simp add: d_def)
    then show ?thesis using karatsuba_middle(2) [of "words_val t01" "X * X" "uint c" A0 B0 A1 B1 _ "words_val tpos" "uint cc" "words_val t23"]
        T01 Q assms(6) False by (simp add: t_def)
  qed
  define r0 where "r0 = take n r01" define r1 where "r1 = drop n r01"
  define r2 where "r2 = take n r23" define r3 where "r3 = drop n r23"
  have l: "length r0 = n" "length r1 = n" "length r2 = n" "length r3 = n" using assms(1,2) by (simp_all add: r0_def r1_def r2_def r3_def)
  have rr: "rr = r0 @ r1 @ r2 @ r3" by (simp add: rr_def r0_def r1_def r2_def r3_def)
  have v01: "words_val r0 + X * words_val r1 = A0 * B0" "words_val r2 + X * words_val r3 = A1 * B1"
    using words_val_append [of r0 r1] words_val_append [of r2 r3] l assms(4,5) by (simp_all add: r0_def r1_def r2_def r3_def X_def)
  have M: "words_val mid + X * X * uint ca = (words_val r1 + X * words_val r2) + words_val t \<and> uint ca \<le> 1 \<and> length mid = 2 * n"
  proof -
    have "take (2 * n) (drop n rr) = r1 @ r2" using l by (simp add: rr)
    moreover have "words_val (r1 @ r2) = words_val r1 + X * words_val r2" using l by (simp add: words_val_append X_def)
    moreover have "2 * n \<le> length (drop n rr)" "2 * n \<le> length t" "take (2 * n) t = t" using D l by (simp_all add: rr)
    ultimately show ?thesis using bn_add_words_ok [OF _ _ mid] by (simp only: X(2))
  qed
  have "uint (d + ca) = uint d + uint ca" using uint_sum_small [of d ca] D M by simp
  then have E: "words_val tp + X * uint e = words_val r3 + (uint d + uint ca) \<and> length tp = n"
    using add_carry_loop_any [OF tp] l by (simp add: rr X_def)
  have total: "words_val r0 + X * (words_val mid + X * X * words_val tp) + X * X * X * X * uint e = (A0 + X * A1) * (B0 + X * B1)"
    using karatsuba_total [of "words_val r0" X "words_val r1" "words_val r2" "words_val r3" A0 B0 A1 B1 "words_val mid" "uint ca" "words_val t" "uint d" "words_val tp" "uint e"]
      v01 M D E by simp
  have rs: "r = r0 @ mid @ tp" "ts = t01 @ t @ tneg"
  proof -
    have sel: "bn_select_words (ct_mask P) tneg tpos (2 * n) = t" "constant_time_select_w (ct_mask P) (c - b) (c + cc) = d"
      using N Q by (simp_all add: words_val_select constant_time_select_w_eq t_def d_def)
    have "take n rr = r0" using l by (simp add: rr)
    then have "mul_combine n (ct_mask P) r01 r23 t23 = (r0 @ mid @ tp, t01 @ t @ tneg)"
      by (simp only: mul_combine_def Let_def flip: rr_def) (simp only: t01 tneg tpos prod.case sel mid tp)
    then show "r = r0 @ mid @ tp" "ts = t01 @ t @ tneg" using assms(13) by simp_all
  qed
  have rv: "words_val r = words_val r0 + X * (words_val mid + X * X * words_val tp)"
    using l M by (simp add: rs words_val_append X_def power_add mult_2)
  have "(A0 + X * A1) * (B0 + X * B1) < X * X * X * X"
  proof -
    have "(A0 + X * A1) * (B0 + X * B1) < (X * X) * (X * X)"
      using assms(7-12) X by (intro mult_strict_mono) (simp_all flip: X_def)
    then show ?thesis by (simp add: mult.assoc)
  qed
  then have "words_val r = (A0 + X * A1) * (B0 + X * B1)"
    using no_carry [of "words_val r" "X * X * X * X" "uint e" "(A0 + X * A1) * (B0 + X * B1)"] total X(1) by (simp add: rv)
  then show ?thesis using l M E T01 D N by (simp add: X_def rs)
qed

text \<open>The column functions only read the words they multiply.\<close>

lemma bn_mul_comba_take:
  assumes "8 \<le> length a" and "8 \<le> length b"
  shows "words_val (bn_mul_comba8 a b) = words_val (take 8 a) * words_val (take 8 b) \<and> length (bn_mul_comba8 a b) = 16"
proof -
  have "bn_mul_comba8 a b = bn_mul_comba8 (take 8 a) (take 8 b)" by (simp add: bn_mul_comba8_def mul_col_def)
  then show ?thesis using bn_mul_comba8_ok [of "take 8 a" "take 8 b"] assms by simp
qed

lemma bn_sqr_comba_take:
  shows "4 \<le> length a \<Longrightarrow> words_val (bn_sqr_comba4 a) = (words_val (take 4 a))\<^sup>2 \<and> length (bn_sqr_comba4 a) = 8"
    and "8 \<le> length a \<Longrightarrow> words_val (bn_sqr_comba8 a) = (words_val (take 8 a))\<^sup>2 \<and> length (bn_sqr_comba8 a) = 16"
proof -
  have "bn_sqr_comba4 a = bn_sqr_comba4 (take 4 a)" "bn_sqr_comba8 a = bn_sqr_comba8 (take 8 a)"
    by (simp_all add: bn_sqr_comba4_def bn_sqr_comba8_def sqr_col_def)
  then show "4 \<le> length a \<Longrightarrow> words_val (bn_sqr_comba4 a) = (words_val (take 4 a))\<^sup>2 \<and> length (bn_sqr_comba4 a) = 8"
    "8 \<le> length a \<Longrightarrow> words_val (bn_sqr_comba8 a) = (words_val (take 8 a))\<^sup>2 \<and> length (bn_sqr_comba8 a) = 16"
    using bn_sqr_comba4_ok [of "take 4 a"] bn_sqr_comba8_ok [of "take 8 a"] by (simp_all add: power2_eq_square)
qed

lemma ct_mask_xor: "ct_mask P XOR ct_mask Q = ct_mask (P \<noteq> Q)"
  by (cases P; cases Q) (simp_all add: ct_mask_def)

text \<open>The differences of the halves, with the sign of their product.\<close>

lemma half_differences:
  assumes "bn_abs_sub_part_words a (drop n a) tna (int n - int tna) = (t0, m)"
    and "bn_abs_sub_part_words (drop n b) b tnb (int tnb - int n) = (t1, m')"
    and "tna \<le> n" and "tnb \<le> n" and "n + tna \<le> length a" and "n + tnb \<le> length b"
    and "A0 = words_val (take n a)" and "A1 = words_val (take tna (drop n a))"
    and "B0 = words_val (take n b)" and "B1 = words_val (take tnb (drop n b))"
  shows "length t0 = n" and "length t1 = n" and "words_val t0 = \<bar>A0 - A1\<bar>" and "words_val t1 = \<bar>B1 - B0\<bar>"
    and "m XOR m' = ct_mask ((A0 < A1) \<noteq> (B1 < B0))"
    and "(if (A0 < A1) \<noteq> (B1 < B0) then - (\<bar>A0 - A1\<bar> * \<bar>B1 - B0\<bar>) else \<bar>A0 - A1\<bar> * \<bar>B1 - B0\<bar>) = (A0 - A1) * (B1 - B0)"
proof -
  have e: "tna + nat (int n - int tna) = n" "tnb + nat (- (int tnb - int n)) = n" "nat (- (int n - int tna)) = 0" "nat (int tnb - int n) = 0"
    using assms(3,4) by simp_all
  have "words_val t0 = \<bar>A0 - A1\<bar> \<and> m = ct_mask (A0 < A1) \<and> length t0 = tna + nat \<bar>int n - int tna\<bar>"
    using assms(5-8) by (intro bn_abs_sub_part_words_ok [OF assms(1)]) (simp_all only: e, simp_all)
  moreover have "words_val t1 = \<bar>B1 - B0\<bar> \<and> m' = ct_mask (B1 < B0) \<and> length t1 = tnb + nat \<bar>int tnb - int n\<bar>"
    using assms(5,6,9,10) by (intro bn_abs_sub_part_words_ok [OF assms(2)]) (simp_all only: e, simp_all)
  moreover have "tna + nat \<bar>int n - int tna\<bar> = n" "tnb + nat \<bar>int tnb - int n\<bar> = n" using assms(3,4) by simp_all
  ultimately show "length t0 = n" "length t1 = n" "words_val t0 = \<bar>A0 - A1\<bar>" "words_val t1 = \<bar>B1 - B0\<bar>"
    "m XOR m' = ct_mask ((A0 < A1) \<noteq> (B1 < B0))" by (simp_all only: ct_mask_xor)
  show "(if (A0 < A1) \<noteq> (B1 < B0) then - (\<bar>A0 - A1\<bar> * \<bar>B1 - B0\<bar>) else \<bar>A0 - A1\<bar> * \<bar>B1 - B0\<bar>) = (A0 - A1) * (B1 - B0)"
    by (cases "A0 < A1"; cases "B1 < B0") (simp_all add: algebra_simps)
qed

text \<open>One level of the recursion, for any way to compute the three products.\<close>

lemma karatsuba_level:
  assumes "bn_abs_sub_part_words a (drop n a) tna (int n - int tna) = (t0, m)"
    and "bn_abs_sub_part_words (drop n b) b tnb (int tnb - int n) = (t1, m')"
    and "tna \<le> n" and "tnb \<le> n" and "n + tna \<le> length a" and "n + tnb \<le> length b"
    and "mul_combine n (m XOR m') r01 r23 t23 = (r, ts)"
    and "words_val t23 = words_val t0 * words_val t1 \<and> length t23 = 2 * n"
    and "words_val r01 = words_val (take n a) * words_val (take n b) \<and> length r01 = 2 * n"
    and "words_val r23 = words_val (take tna (drop n a)) * words_val (take tnb (drop n b)) \<and> length r23 = 2 * n"
  shows "words_val r = words_val (take (n + tna) a) * words_val (take (n + tnb) b) \<and> length r = 4 * n \<and> length ts = 6 * n"
proof -
  define A0 where "A0 = words_val (take n a)" define A1 where "A1 = words_val (take tna (drop n a))"
  define B0 where "B0 = words_val (take n b)" define B1 where "B1 = words_val (take tnb (drop n b))"
  note H = half_differences [OF assms(1-6) A0_def A1_def B0_def B1_def]
  have V: "words_val (take (n + tna) a) = A0 + bn_base ^ n * A1" "words_val (take (n + tnb) b) = B0 + bn_base ^ n * B1"
    using words_val_take_drop [OF assms(5)] words_val_take_drop [OF assms(6)] by (simp_all add: A0_def A1_def B0_def B1_def)
  have pow: "bn_base ^ (n + tna) \<le> bn_base ^ (2 * n)" "bn_base ^ (n + tnb) \<le> bn_base ^ (2 * n)"
    using assms(3,4) by (intro power_increasing; simp)+
  have less: "A0 + bn_base ^ n * A1 < bn_base ^ (2 * n)" "B0 + bn_base ^ n * B1 < bn_base ^ (2 * n)"
  proof -
    have "words_val (take (n + tna) a) < bn_base ^ (n + tna)" "words_val (take (n + tnb) b) < bn_base ^ (n + tnb)"
      using words_val_less [of "take (n + tna) a"] words_val_less [of "take (n + tnb) b"] assms(5,6) by simp_all
    then show "A0 + bn_base ^ n * A1 < bn_base ^ (2 * n)" "B0 + bn_base ^ n * B1 < bn_base ^ (2 * n)"
      using pow V by linarith+
  qed
  have nn: "0 \<le> A0" "0 \<le> A1" "0 \<le> B0" "0 \<le> B1" by (simp_all add: A0_def A1_def B0_def B1_def)
  have t23: "(if (A0 < A1) \<noteq> (B1 < B0) then - words_val t23 else words_val t23) = (A0 - A1) * (B1 - B0)"
    using H(6) assms(8) by (simp only: H(3,4))
  show ?thesis
    using mul_combine_ok [of r01 n r23 t23 A0 B0 A1 B1 "(A0 < A1) \<noteq> (B1 < B0)" r ts] assms(7-10) less nn t23 H(5) V
    by (simp only: A0_def B0_def A1_def B1_def)
qed

lemma pow2_half:
  assumes "n = (2 :: nat) ^ m" and "16 \<le> n"
  shows "n div 2 = 2 ^ (m - 1) \<and> 8 \<le> n div 2 \<and> n = 2 * (n div 2)"
  using assms by (cases m) simp_all

lemma bn_mul_recursive_ok:
  assumes "\<exists>m. n2 = 2 ^ m" and "- 8 \<le> dna" "dna \<le> 0" "- 8 \<le> dnb" "dnb \<le> 0" "0 \<le> int n2 + dna" "0 \<le> int n2 + dnb"
    and "nat (int n2 + dna) \<le> length a" and "nat (int n2 + dnb) \<le> length b" and "bn_mul_recursive a b n2 dna dnb t = (r, t')"
  shows "words_val r = words_val (take (nat (int n2 + dna)) a) * words_val (take (nat (int n2 + dnb)) b)
    \<and> length r = 2 * n2 \<and> (4 * n2 \<le> length t \<longrightarrow> length t' = length t)"
  using assms
proof (induction n2 arbitrary: a b dna dnb t r t' rule: less_induct)
  case (less n2)
  consider "n2 = 8" "dna = 0" "dnb = 0" | "\<not> (n2 = 8 \<and> dna = 0 \<and> dnb = 0)" "n2 < 16" | "\<not> n2 < 16" by blast
  then show ?case
  proof cases
    case 1
    then have "r = bn_mul_comba8 a b" "t' = t" using less.prems(10) by (simp_all add: bn_mul_recursive.simps [of a b 8])
    then show ?thesis using bn_mul_comba_take [of a b] less.prems(8,9) 1 by simp
  next
    case 2
    have r: "r = bn_mul_normal a (nat (int n2 + dna)) b (nat (int n2 + dnb)) @ replicate (nat (- (dna + dnb))) 0" "t' = t"
      using less.prems(10) unfolding bn_mul_recursive.simps [of a b n2] if_not_P [OF 2(1)] if_P [OF 2(2)] by simp_all
    have "nat (int n2 + dna) + nat (int n2 + dnb) + nat (- (dna + dnb)) = 2 * n2" using less.prems(2-7) by linarith
    then show ?thesis using bn_mul_normal_ok [OF less.prems(8,9)] r by (simp add: words_val_append)
  next
    case 3
    define n where "n = n2 div 2"
    obtain m where m: "n2 = 2 ^ m" using less.prems(1) by blast
    have n: "\<exists>m. n = 2 ^ m" "8 \<le> n" "n2 = 2 * n" "n < n2" using pow2_half [OF m] 3 by (auto simp: n_def)
    define tna where "tna = nat (int n + dna)" define tnb where "tnb = nat (int n + dnb)"
    have tn: "int tna = int n + dna" "int tnb = int n + dnb" "tna \<le> n" "tnb \<le> n"
      using n(2) less.prems(2-5) by (auto simp: tna_def tnb_def)
    have w: "nat (int n2 + dna) = n + tna" "nat (int n2 + dnb) = n + tnb" using n(3) tn by simp_all
    have la: "n + tna \<le> length a" "n + tnb \<le> length b" using less.prems(8,9) w by simp_all
    obtain t0 s0 where t0: "bn_abs_sub_part_words a (drop n a) tna (int n - int tna) = (t0, s0)" by fastforce
    obtain t1 s1 where t1: "bn_abs_sub_part_words (drop n b) b tnb (int tnb - int n) = (t1, s1)" by fastforce
    have l: "length t0 = n" "length t1 = n"
      using half_differences(1,2) [OF t0 t1 tn(3,4) la refl refl refl refl] by simp_all
    define p where "p = drop (2 * n2) t"
    obtain t23 p1 where r1: "bn_mul_recursive t0 t1 n 0 0 p = (t23, p1)" by fastforce
    obtain r01 p2 where r2: "bn_mul_recursive a b n 0 0 p1 = (r01, p2)" by fastforce
    obtain r23 p3 where r3: "bn_mul_recursive (drop n a) (drop n b) n dna dnb p2 = (r23, p3)" by fastforce
    have R1: "words_val t23 = words_val t0 * words_val t1 \<and> length t23 = 2 * n \<and> (4 * n \<le> length p \<longrightarrow> length p1 = length p)"
      using less.IH [OF n(4) n(1), of 0 0 t0 t1 p t23 p1] r1 l by simp
    have R2: "words_val r01 = words_val (take n a) * words_val (take n b) \<and> length r01 = 2 * n \<and> (4 * n \<le> length p1 \<longrightarrow> length p2 = length p1)"
      using less.IH [OF n(4) n(1), of 0 0 a b p1 r01 p2] r2 la by simp
    have R3: "words_val r23 = words_val (take tna (drop n a)) * words_val (take tnb (drop n b)) \<and> length r23 = 2 * n
        \<and> (4 * n \<le> length p2 \<longrightarrow> length p3 = length p2)"
      using less.IH [OF n(4) n(1), of dna dnb "drop n a" "drop n b" p2 r23 p3] r3 la tn less.prems(2-5)
      by (simp flip: tna_def tnb_def)
    define q where "q = (if n = 8 \<and> dna = 0 \<and> dnb = 0 then p else p3)"
    obtain r' ts where c: "mul_combine n (s0 XOR s1) r01 r23 t23 = (r', ts)" by fastforce
    note K = karatsuba_level [OF t0 t1 tn(3,4) la c]
    have e8: "bn_mul_recursive x y 8 0 0 z = (bn_mul_comba8 x y, z)" for x y z by (simp add: bn_mul_recursive.simps [of x y 8])
    have "bn_mul_recursive a b n2 dna dnb t = (r', ts @ drop n2 q)"
    proof (cases "n = 8 \<and> dna = 0 \<and> dnb = 0")
      case True
      then have "t23 = bn_mul_comba8 t0 t1" "r01 = bn_mul_comba8 a b" "r23 = bn_mul_comba8 (drop 8 a) (drop 8 b)" "p3 = p"
        using r1 r2 r3 by (simp_all add: e8)
      then show ?thesis using 3 n(2) t0 t1 c True tn(1,2) unfolding bn_mul_recursive.simps [of a b n2] Let_def
        by (simp flip: n_def tna_def tnb_def p_def add: q_def split: prod.split)
    next
      case False
      then have c8: "(n = 8 \<and> dna = 0 \<and> dnb = 0) = False" "(n = 4 \<and> dna = 0 \<and> dnb = 0) = False" using n(2) by auto
      show ?thesis using 3 n(2) t0 t1 c tn(1,2) r1 r2 r3
        unfolding bn_mul_recursive.simps [of a b n2] Let_def n_def [symmetric] q_def c8 if_False
        by (simp flip: tna_def tnb_def p_def split: prod.split)
    qed
    then have r: "r = r'" "t' = ts @ drop n2 q" using less.prems(10) by simp_all
    have "length t' = length t" if "4 * n2 \<le> length t"
      using that K R1 R2 R3 n(3) by (simp add: r q_def p_def)
    moreover have "length r = 2 * n2" using K R1 R2 R3 n(3) by (simp add: r)
    moreover have "words_val r = words_val (take (n + tna) a) * words_val (take (n + tnb) b)" using K R1 R2 R3 by (simp only: r simp_thms)
    ultimately show ?thesis unfolding w by blast
  qed
qed

section \<open>Sizes between two powers of two\<close>

lemma part_split_ok:
  assumes "\<exists>m. i = 2 ^ m" and "tna < i" and "tnb < i" and "part_split i tna tnb = (part, j)" and "0 < tna \<or> 0 < tnb"
  shows "(\<exists>m. j = 2 ^ m) \<and> 2 * j \<le> i \<and> tna < 2 * j \<and> tnb < 2 * j
    \<and> (part \<longrightarrow> j < tna \<or> j < tnb) \<and> (\<not> part \<longrightarrow> tna \<le> j \<and> tnb \<le> j \<and> (tna = j \<or> tnb = j))"
  using assms
proof (induction i tna tnb rule: part_split.induct)
  case (1 i tna tnb)
  obtain m where m: "i = 2 ^ m" using 1(2) by blast
  have "i \<noteq> 1" using 1(3,4,6) by auto
  then obtain k where k: "m = Suc k" using m by (cases m) auto
  then have h: "i div 2 = 2 ^ k" "i = 2 * (i div 2)" using m by simp_all
  consider "i div 2 < tna \<or> i div 2 < tnb" | "\<not> (i div 2 < tna \<or> i div 2 < tnb)" "i div 2 = tna \<or> i div 2 = tnb"
    | "\<not> (i div 2 < tna \<or> i div 2 < tnb)" "\<not> (i div 2 = tna \<or> i div 2 = tnb)" by blast
  then show ?case
  proof cases
    case a: 1
    then have "part" "j = i div 2" using 1(5) by (simp_all add: part_split.simps [of i] Let_def)
    then show ?thesis using h a 1(3,4) by (metis order_refl)
  next
    case a: 2
    then have "\<not> part" "j = i div 2" using 1(5) unfolding part_split.simps [of i] Let_def if_not_P [OF a(1)] if_P [OF a(2)] by simp_all
    then show ?thesis using h a 1(3,4) by auto
  next
    case a: 3
    then have e: "part_split (i div 2) tna tnb = (part, j)"
      using 1(5) unfolding part_split.simps [of i] Let_def if_not_P [OF a(1)] if_not_P [OF a(2)] by simp
    have "tna < i div 2" "tnb < i div 2" using a by auto
    then show ?thesis using 1(1) [OF refl a _ _ _ e 1(6)] h by auto
  qed
qed

lemma pow2_gt_8: "n = (2 :: nat) ^ m \<Longrightarrow> 8 < n \<Longrightarrow> 16 \<le> n"
proof -
  assume n: "n = 2 ^ m" "8 < n"
  have "\<not> m < 4"
  proof
    assume "m < 4"
    then have "(2 :: nat) ^ m \<le> 2 ^ 3" by (intro power_increasing) simp_all
    then show False using n by simp
  qed
  then have "(2 :: nat) ^ 4 \<le> 2 ^ m" by (intro power_increasing) simp_all
  then show "16 \<le> n" using n by simp
qed

lemma words_val_padded:
  assumes "words_val ws = v \<and> length ws = k" and "k \<le> n"
  shows "words_val (ws @ drop (length ws) (replicate n 0)) = v \<and> length (ws @ drop (length ws) (replicate n 0)) = n"
  using assms by (simp add: words_val_append)

lemma bn_mul_part_recursive_ok:
  assumes "\<exists>m. n = 2 ^ m" and "8 \<le> n" and "tna < n" and "tnb < n" and "tna \<le> tnb + 1" and "tnb \<le> tna + 1"
    and "n + tna \<le> length a" and "n + tnb \<le> length b" and "bn_mul_part_recursive q a b n tna tnb t = (r, t')"
  shows "words_val r = words_val (take (n + tna) a) * words_val (take (n + tnb) b) \<and> length r = 4 * n
    \<and> (8 * n \<le> length t \<longrightarrow> length t' = length t)"
  using assms
proof (induction n arbitrary: q a b tna tnb t r t' rule: less_induct)
  case (less n)
  have tn: "tna \<le> n" "tnb \<le> n" using less.prems(3,4) by simp_all
  note la = less.prems(7,8)
  have drops: "tna \<le> length (drop n a)" "tnb \<le> length (drop n b)" using la by simp_all
  obtain t0 s0 where t0: "bn_abs_sub_part_words a (drop n a) tna (int n - int tna) = (t0, s0)" by fastforce
  obtain t1 s1 where t1: "bn_abs_sub_part_words (drop n b) b tnb (int tnb - int n) = (t1, s1)" by fastforce
  have l: "length t0 = n" "length t1 = n" using half_differences(1,2) [OF t0 t1 tn la refl refl refl refl] by simp_all
  define p where "p = drop (4 * n) t"
  obtain t23 p1 where r1: "bn_mul_recursive t0 t1 n 0 0 p = (t23, p1)" by fastforce
  obtain r01 p2 where r2: "bn_mul_recursive a b n 0 0 p1 = (r01, p2)" by fastforce
  define zeros where "zeros = replicate (2 * n) (0 :: BN_ULONG)"
  define upper where "upper =
    (if n = 8 then (bn_mul_normal (drop n a) tna (drop n b) tnb, p)
     else if tna < 16 \<and> tnb < 16 then (bn_mul_normal (drop n a) tna (drop n b) tnb, p2)
     else
       (case part_split n tna tnb of
          (True, i) \<Rightarrow> bn_mul_part_recursive zeros (drop n a) (drop n b) i (tna - i) (tnb - i) p2
        | (False, i) \<Rightarrow> bn_mul_recursive (drop n a) (drop n b) i (int tna - int i) (int tnb - int i) p2))"
  obtain ws p3 where u: "upper = (ws, p3)" by fastforce
  define r23 where "r23 = ws @ drop (length ws) zeros"
  obtain r' ts where c: "mul_combine n (s0 XOR s1) r01 r23 t23 = (r', ts)" by fastforce
  have R1: "words_val t23 = words_val t0 * words_val t1 \<and> length t23 = 2 * n \<and> (4 * n \<le> length p \<longrightarrow> length p1 = length p)"
    using bn_mul_recursive_ok [OF less.prems(1) _ _ _ _ _ _ _ _ r1] l by simp
  have R2: "words_val r01 = words_val (take n a) * words_val (take n b) \<and> length r01 = 2 * n \<and> (4 * n \<le> length p1 \<longrightarrow> length p2 = length p1)"
    using bn_mul_recursive_ok [OF less.prems(1) _ _ _ _ _ _ _ _ r2] la by simp
  have R3: "(\<exists>k. words_val ws = words_val (take tna (drop n a)) * words_val (take tnb (drop n b)) \<and> length ws = k \<and> k \<le> 2 * n)
      \<and> (4 * n \<le> length p2 \<and> n \<noteq> 8 \<longrightarrow> length p3 = length p2)"
  proof -
    consider "n = 8 \<or> tna < 16 \<and> tnb < 16" | "n \<noteq> 8" "\<not> (tna < 16 \<and> tnb < 16)" by blast
    then show ?thesis
    proof cases
      case 1
      then have "ws = bn_mul_normal (drop n a) tna (drop n b) tnb" "n \<noteq> 8 \<longrightarrow> p3 = p2" using u by (auto simp: upper_def split: if_splits)
      then show ?thesis using bn_mul_normal_ok [OF drops] tn by simp
    next
      case 2
      obtain part i where i: "part_split n tna tnb = (part, i)" by fastforce
      have P: "(\<exists>m. i = 2 ^ m)" "2 * i \<le> n" "tna < 2 * i" "tnb < 2 * i" "part \<Longrightarrow> i < tna \<or> i < tnb"
        "\<not> part \<Longrightarrow> tna \<le> i \<and> tnb \<le> i \<and> (tna = i \<or> tnb = i)"
        using part_split_ok [OF less.prems(1,3,4) i] 2(2) by auto
      have "8 < i" using P(3,4) 2(2) by linarith
      then have i16: "16 \<le> i" using P(1) pow2_gt_8 by blast
      have e: "upper = (if part then bn_mul_part_recursive zeros (drop n a) (drop n b) i (tna - i) (tnb - i) p2
          else bn_mul_recursive (drop n a) (drop n b) i (int tna - int i) (int tnb - int i) p2)"
        unfolding upper_def if_not_P [OF 2(1)] if_not_P [OF 2(2)] i by (simp split: bool.split)
      show ?thesis
      proof (cases part)
        case True
        have b: "i \<le> tna" "i \<le> tnb" using P(5) [OF True] less.prems(5,6) by linarith+
        then have s: "i + (tna - i) = tna" "i + (tnb - i) = tnb" by simp_all
        have "words_val ws = words_val (take tna (drop n a)) * words_val (take tnb (drop n b)) \<and> length ws = 4 * i
            \<and> (8 * i \<le> length p2 \<longrightarrow> length p3 = length p2)"
          using less.IH [of i "tna - i" "tnb - i" "drop n a" "drop n b" zeros p2 ws p3] P(1-4) i16 b s drops less.prems(5,6) e True u by simp
        then show ?thesis using P(2) by simp
      next
        case False
        have d: "tna \<le> i" "tnb \<le> i" "i \<le> tna + 1" "i \<le> tnb + 1" using P(6) [OF False] less.prems(5,6) by auto
        have "words_val ws = words_val (take tna (drop n a)) * words_val (take tnb (drop n b)) \<and> length ws = 2 * i
            \<and> (4 * i \<le> length p2 \<longrightarrow> length p3 = length p2)"
          using bn_mul_recursive_ok [OF P(1), of "int tna - int i" "int tnb - int i" "drop n a" "drop n b" p2 ws p3] d drops e False u by simp
        then show ?thesis using P(2) by simp
      qed
    qed
  qed
  then have V3: "words_val r23 = words_val (take tna (drop n a)) * words_val (take tnb (drop n b)) \<and> length r23 = 2 * n"
    using words_val_padded [of ws _ _ "2 * n"] by (auto simp: r23_def zeros_def)
  have R: "bn_mul_part_recursive q a b n tna tnb t = (r', ts @ drop (2 * n) p3)"
  proof (cases "n = 8")
    case True
    have e8: "bn_mul_recursive x y 8 0 0 z = (bn_mul_comba8 x y, z)" for x y z by (simp add: bn_mul_recursive.simps [of x y 8])
    have "t23 = bn_mul_comba8 t0 t1" "r01 = bn_mul_comba8 a b" "p3 = p" using True r1 r2 u by (simp_all add: e8 upper_def)
    moreover have "r23 = bn_mul_normal (drop n a) tna (drop n b) tnb @ replicate (n * 2 - tna - tnb) 0"
      using True u bn_mul_normal_ok [OF drops] by (simp add: upper_def r23_def zeros_def)
    ultimately show ?thesis using t0 t1 c True unfolding bn_mul_part_recursive.simps [of q a b n] Let_def
      by (simp add: p_def)
  next
    case False
    have n8: "\<not> n < 8" using less.prems(2) by simp
    have e: "drop (2 * (n * 2)) t = p" "n * 2 = 2 * n" by (simp_all add: p_def)
    have up: "(if tna < 16 \<and> tnb < 16 then (bn_mul_normal (drop n a) tna (drop n b) tnb, p2)
        else (case part_split n tna tnb of
          (True, i) \<Rightarrow> bn_mul_part_recursive (replicate (2 * n) 0) (drop n a) (drop n b) i (tna - i) (tnb - i) p2
        | (False, i) \<Rightarrow> bn_mul_recursive (drop n a) (drop n b) i (int tna - int i) (int tnb - int i) p2)) = (ws, p3)"
      using u unfolding upper_def zeros_def if_not_P [OF False] .
    show ?thesis using c unfolding r23_def zeros_def
      unfolding bn_mul_part_recursive.simps [of q a b n] Let_def if_not_P [OF False] if_not_P [OF n8] t0 t1 prod.case e(1) r1 r2
      unfolding e(2) up prod.case by simp
  qed
  have r: "r = r'" "t' = ts @ drop (2 * n) p3" using less.prems(9) R by simp_all
  note K = karatsuba_level [OF t0 t1 tn la c]
  have "length t' = length t" if "8 * n \<le> length t"
  proof -
    have "length p = length t - 4 * n" by (simp add: p_def)
    moreover have "length p3 = length p" using R1 R2 R3 u that by (cases "n = 8") (simp_all add: p_def upper_def)
    ultimately show ?thesis using K R1 R2 V3 that by (simp add: r)
  qed
  then show ?case using K R1 R2 V3 by (simp add: r)
qed

end
