(* ===== verification/Bn_Sqr_Words.thy ===== *)
theory Bn_Sqr_Words
  imports Bn_Mul_Words
begin

text \<open>
  The functions of \<open>mul.c\<close> that square a vector of words: by rows, and by Karatsuba's recursion for sizes
  that are powers of two.
\<close>

section \<open>Squares\<close>

text \<open>The square as the squares of the words and twice the products of different words.\<close>

primrec cross :: "BN_ULONG list \<Rightarrow> int" where
  "cross [] = 0"
| "cross (x # xs) = bn_base * (uint x * words_val xs) + bn_base\<^sup>2 * cross xs"

primrec diag :: "BN_ULONG list \<Rightarrow> int" where
  "diag [] = 0"
| "diag (x # xs) = (uint x)\<^sup>2 + bn_base\<^sup>2 * diag xs"

lemma square_parts: "(words_val xs)\<^sup>2 = diag xs + 2 * cross xs"
proof (induction xs)
  case (Cons x xs)
  define X where "X = bn_base"
  have "(uint x + X * words_val xs)\<^sup>2 = (uint x)\<^sup>2 + X\<^sup>2 * (words_val xs)\<^sup>2 + 2 * (X * (uint x * words_val xs))" by algebra
  also have "\<dots> = ((uint x)\<^sup>2 + X\<^sup>2 * diag xs) + 2 * (X * (uint x * words_val xs) + X\<^sup>2 * cross xs)" unfolding Cons.IH by algebra
  finally show ?case unfolding words_val.simps diag.simps cross.simps X_def .
qed simp

lemma diag_nonneg: "0 \<le> diag xs" and cross_nonneg: "0 \<le> cross xs"
  by (induction xs) simp_all

lemma diag_sum: "(\<Sum>j < length xs. (uint (xs ! j))\<^sup>2 * bn_base ^ (2 * j)) = diag xs"
proof (induction xs)
  case (Cons x xs)
  have "(\<Sum>j < length (x # xs). (uint ((x # xs) ! j))\<^sup>2 * bn_base ^ (2 * j))
      = (uint x)\<^sup>2 + (\<Sum>j < length xs. bn_base\<^sup>2 * ((uint (xs ! j))\<^sup>2 * bn_base ^ (2 * j)))"
    by (simp add: sum.lessThan_Suc_shift power_add mult.left_commute del: sum.lessThan_Suc)
  also have "\<dots> = diag (x # xs)" using Cons.IH by (simp flip: sum_distrib_left)
  finally show ?case .
qed simp

lemma bn_sqr_words_diag:
  assumes "n \<le> length a"
  shows "words_val (bn_sqr_words a n) = diag (take n a) \<and> length (bn_sqr_words a n) = 2 * n"
  using bn_sqr_words_ok [of a n] diag_sum [of "take n a"] assms by simp

lemma step_value: "r' = (p :: int) + X * w \<Longrightarrow> r = p + X * d \<Longrightarrow> w = d + y \<Longrightarrow> r' = r + X * y"
  by algebra

lemma sqr_normal_loop_ok:
  assumes "n = k + 1 + i" and "n \<le> length a" and "length r = n + k"
  shows "words_val (sqr_normal_loop r a k i) = words_val r + bn_base ^ (2 * k) * cross (take (n - k) (drop k a))
    \<and> length (sqr_normal_loop r a k i) = 2 * n - 1"
  using assms
proof (induction i arbitrary: r k)
  case 0
  have "take (n - k) (drop k a) = [a ! k]" using 0 by (simp add: take_Suc_conv_app_nth flip: Cons_nth_drop_Suc)
  then show ?case using 0 by simp
next
  case (Suc i)
  obtain ws c where w: "bn_mul_add_words (drop (2 * k + 1) r) (drop (k + 1) a) (Suc i) (a ! k) = (ws, c)" by fastforce
  have l: "length (drop (2 * k + 1) r) = Suc i" "Suc i \<le> length (drop (k + 1) a)" using Suc.prems by simp_all
  have W: "words_val ws + bn_base ^ Suc i * uint c = words_val (drop (2 * k + 1) r) + uint (a ! k) * words_val (take (Suc i) (drop (k + 1) a)) \<and> length ws = Suc i"
    using bn_mul_add_words_ok [OF _ l(2) w] l(1) by simp
  define r' where "r' = take (2 * k + 1) r @ ws @ [c]"
  have len: "length r' = n + (k + 1)" using W Suc.prems by (simp add: r'_def)
  have "words_val r' = words_val (take (2 * k + 1) r) + bn_base ^ (2 * k + 1) * (words_val ws + bn_base ^ Suc i * uint c)"
    using W Suc.prems by (simp only: r'_def words_val_append) simp
  moreover have "words_val r = words_val (take (2 * k + 1) r) + bn_base ^ (2 * k + 1) * words_val (drop (2 * k + 1) r)"
    using Suc.prems by (intro words_val_split) simp
  ultimately have v: "words_val r' = words_val r + bn_base ^ (2 * k + 1) * (uint (a ! k) * words_val (take (Suc i) (drop (k + 1) a)))"
    using step_value W by blast
  have d: "take (n - k) (drop k a) = a ! k # take (Suc i) (drop (k + 1) a)"
    using Suc.prems by (simp add: take_Suc_conv_app_nth flip: Cons_nth_drop_Suc)
  have nk: "n - (k + 1) = Suc i" "n = k + 1 + 1 + i" using Suc.prems by simp_all
  have IH: "words_val (sqr_normal_loop r' a (k + 1) i) = words_val r' + bn_base ^ (2 * (k + 1)) * cross (take (Suc i) (drop (k + 1) a))
      \<and> length (sqr_normal_loop r' a (k + 1) i) = 2 * n - 1"
    using Suc.IH [OF nk(2) Suc.prems(2) len] unfolding nk(1) .
  have p: "bn_base ^ (2 * k + 1) = bn_base ^ (2 * k) * bn_base" "bn_base ^ (2 * (k + 1)) = bn_base ^ (2 * k) * bn_base\<^sup>2"
    by (simp_all only: power_add power_one_right distrib_left_numeral mult_2_right distrib_left mult_1_right)
  have "sqr_normal_loop r a k (Suc i) = sqr_normal_loop r' a (k + 1) i" using w by (simp add: r'_def)
  moreover have "words_val r' + bn_base ^ (2 * (k + 1)) * cross (take (Suc i) (drop (k + 1) a))
      = words_val r + bn_base ^ (2 * k) * cross (take (n - k) (drop k a))"
    unfolding v d cross.simps p by algebra
  ultimately show ?case using IH by simp
qed

lemma vector_less: "words_val ws = v \<Longrightarrow> length ws = n \<Longrightarrow> v < bn_base ^ n"
  using words_val_less [of ws] by simp

lemma bn_sqr_normal_ok:
  assumes "n \<le> length a" and "bn_sqr_normal a n tmp = (r, tmp')"
  shows "words_val r = (words_val (take n a))\<^sup>2 \<and> length r = 2 * n \<and> (2 * n \<le> length tmp \<longrightarrow> length tmp' = length tmp)"
proof (cases "n = 0")
  case True
  then show ?thesis using assms by (simp add: bn_sqr_normal_def)
next
  case False
  define r1 where "r1 = (if n > 1 then (let (ws, c) = bn_mul_words (drop 1 a) (n - 1) (a ! 0) in 0 # ws @ [c]) else [0])"
  define r2 where "r2 = (if n > 2 then sqr_normal_loop r1 a 1 (n - 2) else r1)"
  define r' where "r' = r2 @ [0]"
  have R2: "words_val r' = cross (take n a) \<and> length r' = 2 * n"
  proof (cases "n = 1")
    case True
    then have "take n a = [a ! 0]" using assms(1) by (cases a) simp_all
    then show ?thesis using True by (simp add: r'_def r2_def r1_def)
  next
    case n1: False
    obtain k where k: "n = Suc (Suc k)" using False n1 by (cases n; cases "n - 1") auto
    obtain ws c where w: "bn_mul_words (drop 1 a) (n - 1) (a ! 0) = (ws, c)" by fastforce
    have "n - 1 \<le> length (drop 1 a)" using assms(1) by simp
    note W = bn_mul_words_ok [OF this w]
    have r1: "r1 = 0 # ws @ [c]" using k w by (simp add: r1_def)
    have ta: "take n a = a ! 0 # take (n - 1) (drop 1 a)" using assms(1) k by (cases a) simp_all
    have v1: "words_val r1 = bn_base * (uint (a ! 0) * words_val (take (n - 1) (drop 1 a)))" "length r1 = n + 1"
      using W k by (simp_all add: r1 words_val_append)
    have "words_val (sqr_normal_loop r1 a 1 k) = words_val r1 + bn_base ^ (2 * 1) * cross (take (n - 1) (drop 1 a))
        \<and> length (sqr_normal_loop r1 a 1 k) = 2 * n - 1"
      using sqr_normal_loop_ok [of n 1 k a r1] k assms(1) v1(2) by simp
    moreover have "r2 = sqr_normal_loop r1 a 1 k" using k by (simp add: r2_def)
    moreover have "cross (take n a) = bn_base * (uint (a ! 0) * words_val (take (n - 1) (drop 1 a))) + bn_base\<^sup>2 * cross (take (n - 1) (drop 1 a))"
      by (simp only: ta cross.simps)
    ultimately show ?thesis using v1(1) k by (simp add: r'_def words_val_append)
  qed
  obtain r3 c3 where r3: "bn_add_words r' r' (2 * n) = (r3, c3)" by fastforce
  obtain r4 c4 where r4: "bn_add_words r3 (bn_sqr_words a n) (2 * n) = (r4, c4)" by fastforce
  note D = bn_sqr_words_diag [OF assms(1)]
  have less: "diag (take n a) + 2 * cross (take n a) < bn_base ^ (2 * n)"
  proof -
    have "words_val (take n a) < bn_base ^ n" using words_val_less [of "take n a"] assms(1) by simp
    then have "(words_val (take n a))\<^sup>2 < (bn_base ^ n)\<^sup>2" by (intro power_strict_mono) simp_all
    then show ?thesis by (simp add: square_parts power_mult [symmetric] mult.commute del: power_numeral)
  qed
  have R3: "words_val r3 = 2 * cross (take n a) \<and> length r3 = 2 * n"
    using bn_add_words_ok [OF _ _ r3] R2 no_carry [of "words_val r3" "bn_base ^ (2 * n)" "uint c3" "2 * cross (take n a)"]
      less diag_nonneg [of "take n a"] by simp
  have R4: "words_val r4 = diag (take n a) + 2 * cross (take n a) \<and> length r4 = 2 * n"
    using bn_add_words_ok [OF _ _ r4] R3 D no_carry [of "words_val r4" "bn_base ^ (2 * n)" "uint c4" "diag (take n a) + 2 * cross (take n a)"]
      less by simp
  have "bn_sqr_normal a n tmp = (r4, bn_sqr_words a n @ drop (2 * n) tmp)"
    unfolding bn_sqr_normal_def if_not_P [OF False] Let_def r1_def [unfolded Let_def, symmetric] r2_def [symmetric] r'_def [symmetric]
      mult.commute [of n 2] r3 prod.case r4 ..
  then have "r = r4" "tmp' = bn_sqr_words a n @ drop (2 * n) tmp" using assms(2) by simp_all
  then show ?thesis using R4 D by (simp add: square_parts)
qed

lemma bn_sqr_recursive_ok:
  assumes "\<exists>m. n2 = 2 ^ m" and "n2 \<le> length a" and "bn_sqr_recursive a n2 t = (r, t')"
  shows "words_val r = (words_val (take n2 a))\<^sup>2 \<and> length r = 2 * n2 \<and> (4 * n2 \<le> length t \<longrightarrow> length t' = length t)"
  using assms
proof (induction n2 arbitrary: a t r t' rule: less_induct)
  case (less n2)
  consider "n2 = 4" | "n2 = 8" | "n2 \<noteq> 4" "n2 \<noteq> 8" "n2 < 16" | "n2 \<noteq> 4" "n2 \<noteq> 8" "\<not> n2 < 16" by blast
  then show ?case
  proof cases
    case 1
    then have "r = bn_sqr_comba4 a" "t' = t" using less.prems(3) by (simp_all add: bn_sqr_recursive.simps [of a 4])
    then show ?thesis using bn_sqr_comba_take(1) [of a] less.prems(2) 1 by simp
  next
    case 2
    then have "r = bn_sqr_comba8 a" "t' = t" using less.prems(3) by (simp_all add: bn_sqr_recursive.simps [of a 8])
    then show ?thesis using bn_sqr_comba_take(2) [of a] less.prems(2) 2 by simp
  next
    case 3
    then have "bn_sqr_normal a n2 t = (r, t')" using less.prems(3) by (simp add: bn_sqr_recursive.simps [of a n2])
    then show ?thesis using bn_sqr_normal_ok [OF less.prems(2)] by simp
  next
    case 4
    define n where "n = n2 div 2"
    obtain m where m: "n2 = 2 ^ m" using less.prems(1) by blast
    have n: "\<exists>m. n = 2 ^ m" "8 \<le> n" "n2 = 2 * n" "n < n2" using pow2_half [OF m] 4(3) by (auto simp: n_def)
    define t0 where "t0 = bn_abs_sub_words a (drop n a) n"
    define A0 where "A0 = words_val (take n a)" define A1 where "A1 = words_val (take n (drop n a))"
    have T0: "words_val t0 = \<bar>A0 - A1\<bar> \<and> length t0 = n"
      using bn_abs_sub_words_ok [of n a "drop n a"] less.prems(2) n(3) by (simp add: t0_def A0_def A1_def)
    define p where "p = drop (2 * n2) t"
    obtain t23 p1 where r1: "bn_sqr_recursive t0 n p = (t23, p1)" by fastforce
    obtain r01 p2 where r2: "bn_sqr_recursive a n p1 = (r01, p2)" by fastforce
    obtain r23 p3 where r3: "bn_sqr_recursive (drop n a) n p2 = (r23, p3)" by fastforce
    have R1: "words_val t23 = (A0 - A1)\<^sup>2 \<and> length t23 = 2 * n \<and> (4 * n \<le> length p \<longrightarrow> length p1 = length p)"
      using less.IH [OF n(4) n(1) _ r1] T0 by simp
    have R2: "words_val r01 = A0\<^sup>2 \<and> length r01 = 2 * n \<and> (4 * n \<le> length p1 \<longrightarrow> length p2 = length p1)"
      using less.IH [OF n(4) n(1) _ r2] less.prems(2) n(3) by (simp add: A0_def)
    have R3: "words_val r23 = A1\<^sup>2 \<and> length r23 = 2 * n \<and> (4 * n \<le> length p2 \<longrightarrow> length p3 = length p2)"
      using less.IH [OF n(4) n(1) _ r3] less.prems(2) n(3) by (simp add: A1_def)
    define rr where "rr = r01 @ r23"
    obtain t01 c where t01: "bn_add_words rr (drop n2 rr) n2 = (t01, c)" by fastforce
    obtain tneg b where tneg: "bn_sub_words t01 t23 n2 = (tneg, b)" by fastforce
    obtain tpos cc where tpos: "bn_add_words t01 t23 n2 = (tpos, cc)" by fastforce
    obtain mid ca where mid: "bn_add_words (drop n rr) tneg n2 = (mid, ca)" by fastforce
    obtain tp e where tp: "add_carry_loop (drop (n + n2) rr) (c - b + ca) = (tp, e)" by fastforce
    have len: "length t01 = n2" "length tneg = n2" "length tpos = n2"
      using bn_add_words_ok [OF _ _ t01] bn_sub_words_ok [OF _ _ tneg] bn_add_words_ok [OF _ _ tpos] R1 R2 R3 n(3)
      by (simp_all add: rr_def)
    have c: "mul_combine n (ct_mask True) r01 r23 t23 = (take n rr @ mid @ tp, t01 @ tneg @ tneg)"
    proof -
      have sel: "bn_select_words (ct_mask True) tneg tpos n2 = tneg" "constant_time_select_w (ct_mask True) (c - b) (c + cc) = c - b"
        using len by (simp_all add: words_val_select constant_time_select_w_eq)
      show ?thesis
        by (simp only: mul_combine_def Let_def n(3) [symmetric] flip: rr_def) (simp only: t01 tneg tpos prod.case sel mid tp)
    qed
    have "A0 + bn_base ^ n * A1 < bn_base ^ (n + n)"
      using vector_less [OF words_val_take_drop [of n n a]] less.prems(2) n(3) by (simp add: A0_def A1_def)
    then have less': "A0 + bn_base ^ n * A1 < bn_base ^ (2 * n)" by (simp only: mult_2)
    have v: "words_val (take n2 a) = A0 + bn_base ^ n * A1"
      using words_val_take_drop [of n n a] less.prems(2) n(3) by (simp add: A0_def A1_def mult_2)
    have "words_val (take n rr @ mid @ tp) = (A0 + bn_base ^ n * A1) * (A0 + bn_base ^ n * A1) \<and> length (take n rr @ mid @ tp) = 4 * n
        \<and> length (t01 @ tneg @ tneg) = 6 * n"
    proof (rule mul_combine_ok [OF _ _ _ _ _ _ _ _ _ _ less' less' c])
      show "(if True then - words_val t23 else words_val t23) = (A0 - A1) * (A1 - A0)" using R1 by (simp add: power2_eq_square algebra_simps)
    qed (use R1 R2 R3 in \<open>simp_all add: power2_eq_square A0_def A1_def\<close>)
    moreover have "bn_sqr_recursive a n2 t = (take n rr @ mid @ tp, t01 @ tneg @ p3)"
      unfolding bn_sqr_recursive.simps [of a n2] if_not_P [OF 4(1)] if_not_P [OF 4(2)] if_not_P [OF 4(3)] Let_def
        n_def [symmetric] t0_def [symmetric] mult.commute [of n2 2] p_def [symmetric] r1 prod.case r2 r3 rr_def [symmetric] t01 tneg mid tp ..
    then have r: "r = take n rr @ mid @ tp" "t' = t01 @ tneg @ p3" using less.prems(3) by simp_all
    moreover have "length t' = length t" if "4 * n2 \<le> length t"
      using that R1 R2 R3 len n(3) by (simp add: r p_def)
    ultimately show ?thesis using n(3) v by (simp add: power2_eq_square)
  qed
qed

end
