(* ===== verification/Bn_Mul_Correct.thy ===== *)
theory Bn_Mul_Correct
  imports Bn_Sqr_Words
begin

text \<open>
  \<open>BN_mul\<close> and \<open>BN_sqr\<close> compute the product and the square of the integers for all widths and signs,
  whichever algorithm is chosen, leave the context as they found it, and fail only for want of memory.
\<close>

section \<open>Storing a result\<close>

lemma words_val_take_fits:
  assumes "words_val ws < bn_base ^ n"
  shows "words_val (take n ws) = words_val ws"
proof (cases "n \<le> length ws")
  case True
  have v: "words_val ws = words_val (take n ws) + bn_base ^ n * words_val (drop n ws)" by (rule words_val_split [OF True])
  show ?thesis
    using no_carry [of "words_val (take n ws)" "bn_base ^ n" "words_val (drop n ws)" "words_val ws"] v assms by simp
qed simp

lemma put_result:
  assumes "bn_ok rr" and "length ws \<le> dmax rr" and "top' \<le> length ws" and "words_val ws < bn_base ^ top'"
  shows "bn_ok (put_words ws (rr\<lparr>width := top'\<rparr>)) \<and> bn_abs (put_words ws (rr\<lparr>width := top'\<rparr>)) = words_val ws"
  using assms words_val_take_fits [OF assms(4)] by (simp add: put_words_def bn_ok_def bn_abs_def bn_words_def)

lemma bn_product_less:
  assumes "bn_ok a" and "bn_ok b"
  shows "bn_abs a * bn_abs b < bn_base ^ (width a + width b)"
proof -
  have "bn_abs a * bn_abs b < bn_base ^ width a * bn_base ^ width b"
    using bn_abs_less [OF assms(1)] bn_abs_less [OF assms(2)] by (intro mult_strict_mono) simp_all
  then show ?thesis by (simp only: power_add)
qed

lemma bn_abs_take: "words_val (take (width a) (bn_d a)) = bn_abs a"
  by (simp add: bn_abs_def bn_words_def)

lemma BN_copy_ok:
  assumes "bn_ok dest" and "bn_ok src" and "BN_copy A dest src = (ok, r)"
  shows "bn_ok r \<and> static_data r = static_data dest \<and> (ok \<longrightarrow> bn_abs r = bn_abs src \<and> neg r = neg src \<and> width r = width src)"
proof -
  obtain ok' d where w: "bn_wexpand A dest (width src) = (ok', d)" by fastforce
  note W = bn_wexpand_ok [OF assms(1) w]
  show ?thesis
  proof (cases ok')
    case True
    have "width src \<le> length (bn_d src)" using assms(2) by (simp add: bn_ok_def)
    then show ?thesis using assms(3) w W True
      by (auto simp: BN_copy_def put_words_def bn_ok_def bn_abs_def bn_words_def)
  next
    case False
    then show ?thesis using assms(3) w W by (simp add: BN_copy_def)
  qed
qed

section \<open>Contexts\<close>

lemma ctx_after_refl: "ctx_ok ctx \<Longrightarrow> ctx_after ctx ctx"
  by (simp add: ctx_after_def)

lemma ctx_after_trans: "ctx_after a b \<Longrightarrow> ctx_after b c \<Longrightarrow> ctx_after a c"
  by (auto simp: ctx_after_def blocked_def)

lemma ctx_after_get:
  assumes "ctx_ok ctx" and "BN_CTX_get A ctx = (q, ctx')"
  shows "ctx_after ctx ctx'"
  using BN_CTX_get_ok [OF assms] by (cases q) (auto simp: ctx_after_def blocked_def)

lemma ctx_get_ptr:
  assumes "ctx_ok ctx" and "BN_CTX_get A ctx = (Some p, ctx')"
  shows "ctx_ptr ctx' p" and "bn_ok (ctx_bn ctx' p)" and "\<not> static_data (ctx_bn ctx' p)"
  using BN_CTX_get_ok [OF assms] ctx_bn_ok [of ctx' p] by (simp_all add: ctx_ptr_def)

lemma ctx_ptr_get:
  assumes "ctx_ok ctx" and "BN_CTX_get A ctx = (q, ctx')" and "ctx_ptr ctx p"
  shows "ctx_ptr ctx' p"
proof -
  obtain r pool where g: "BN_POOL_get A (ctx_pool ctx) = (r, pool)" by fastforce
  have "pool_ok (ctx_pool ctx)" using assms(1) by (simp add: ctx_ok_def)
  note G = BN_POOL_get_ok [OF this g]
  have "length (pool_items (ctx_pool ctx)) \<le> length (pool_items pool)"
  proof (cases r)
    case None
    then show ?thesis using G by simp
  next
    case (Some q)
    then have "take (length (pool_items (ctx_pool ctx))) (pool_items pool) = pool_items (ctx_pool ctx)" using G by simp
    from arg_cong [OF this, of length] show ?thesis by simp
  qed
  then have "length (pool_items (ctx_pool ctx)) \<le> length (pool_items (ctx_pool ctx'))"
    using assms(2) g by (auto simp: BN_CTX_get_def Let_def split: if_splits option.splits)
  then show ?thesis using assms(3) by (simp add: ctx_ptr_def)
qed

lemma ctx_after_put:
  assumes "ctx_after ctx mid" and "ctx_ptr mid p" and "bn_ok bn" and "\<not> static_data bn"
  shows "ctx_after ctx (ctx_put mid p bn)"
  using assms ctx_put_ok [of mid p bn] by (auto simp: ctx_after_def ctx_ptr_def)

lemma ctx_ptr_put [simp]: "ctx_ptr (ctx_put ctx q bn) p = ctx_ptr ctx p"
  by (simp add: ctx_ptr_def)

section \<open>The choice of the algorithm\<close>

lemma top_power:
  assumes "16 \<le> m" and "m < 2 ^ 64" and "j = 2 ^ (BN_num_bits_word (of_nat m) - 1)"
  shows "j \<le> m \<and> m < 2 * j \<and> 8 \<le> j"
proof -
  have "unat (of_nat m :: u64) = m" using assms(2) by (simp add: unat_of_nat take_bit_nat_eq_self)
  then have b: "BN_num_bits_word (of_nat m) = bit_len m" by (simp add: BN_num_bits_word_eq)
  have "\<not> bit_len m \<le> 4" using assms(1) by (simp add: bit_len_le)
  then obtain k where k: "bit_len m = Suc k" "4 \<le> k" by (cases "bit_len m") simp_all
  have "m < 2 ^ Suc k" "\<not> m < 2 ^ k" using bit_len_le [of m "Suc k"] bit_len_le [of m k] k(1) by simp_all
  moreover have "(2 :: nat) ^ 4 \<le> 2 ^ k" using k(2) by (intro power_increasing) simp_all
  ultimately show ?thesis by (simp add: assms(3) b k(1))
qed

lemma mul_words_into_ok:
  assumes "bn_ok rr" and "bn_ok a" and "bn_ok b" and "ctx_ok ctx" and "mul_words_into As rr a b ctx = (ok, r, ctx')"
  shows "bn_ok r \<and> neg r = neg rr \<and> static_data r = static_data rr \<and> (ok \<longrightarrow> bn_abs r = bn_abs a * bn_abs b)
    \<and> ctx_after ctx ctx' \<and> (\<forall>p. ctx_ptr ctx p \<longrightarrow> ctx_ptr ctx' p)"
proof -
  define al where "al = width a" define bl where "bl = width b"
  have la: "al \<le> length (bn_d a)" "bl \<le> length (bn_d b)" "al \<le> bn_max_words" "bl \<le> bn_max_words"
    using assms(2,3) by (simp_all add: bn_ok_def al_def bl_def)
  have less: "bn_abs a * bn_abs b < bn_base ^ (al + bl)" using bn_product_less [OF assms(2,3)] by (simp add: al_def bl_def)
  note abs = bn_abs_take [of a, folded al_def] bn_abs_take [of b, folded bl_def]
  have put: "bn_ok (put_words ws (s\<lparr>width := al + bl\<rparr>)) \<and> bn_abs (put_words ws (s\<lparr>width := al + bl\<rparr>)) = bn_abs a * bn_abs b
      \<and> neg (put_words ws (s\<lparr>width := al + bl\<rparr>)) = neg rr \<and> static_data (put_words ws (s\<lparr>width := al + bl\<rparr>)) = static_data rr"
    if "bn_wexpand A rr n = (True, s)" "length ws = n" "al + bl \<le> n" "words_val ws = bn_abs a * bn_abs b" for A n s ws
    using bn_wexpand_ok [OF assms(1) that(1)] put_result [of s ws "al + bl"] that(2-4) less by simp
  consider "al = 8" "bl = 8" | "\<not> (al = 8 \<and> bl = 8)" "16 \<le> al" "16 \<le> bl" "al \<le> bl + 1" "bl \<le> al + 1"
    | "\<not> (al = 8 \<and> bl = 8)" "\<not> (16 \<le> al \<and> 16 \<le> bl \<and> al \<le> bl + 1 \<and> bl \<le> al + 1)" by blast
  then show ?thesis
  proof cases
    case 1
    obtain e s where s: "bn_wexpand (As 2) rr 16 = (e, s)" by fastforce
    have w: "words_val (bn_mul_comba8 (bn_d a) (bn_d b)) = bn_abs a * bn_abs b" "length (bn_mul_comba8 (bn_d a) (bn_d b)) = 16"
      using bn_mul_comba_take [of "bn_d a" "bn_d b"] la abs 1 by simp_all
    have "mul_words_into As rr a b ctx = (e, if e then put_words (bn_mul_comba8 (bn_d a) (bn_d b)) (s\<lparr>width := 16\<rparr>) else s, ctx)"
      using 1 s by (simp add: mul_words_into_def al_def bl_def split: bool.split)
    then show ?thesis using assms(4,5) bn_wexpand_ok [OF assms(1) s] put [OF _ w(2) _ w(1)] s 1
      by (cases e) (auto simp: ctx_after_refl)
  next
    case 3
    obtain e s where s: "bn_wexpand (As 2) rr (al + bl) = (e, s)" by fastforce
    note W = bn_mul_normal_ok [OF la(1,2)]
    have c: "\<not> (int al - int bl = 0 \<and> al = 8)" "\<not> (al \<ge> 16 \<and> bl \<ge> 16 \<and> - 1 \<le> int al - int bl \<and> int al - int bl \<le> 1)" using 3 by auto
    have "mul_words_into As rr a b ctx = (e, if e then put_words (bn_mul_normal (bn_d a) al (bn_d b) bl) (s\<lparr>width := al + bl\<rparr>) else s, ctx)"
      unfolding mul_words_into_def Let_def al_def [symmetric] bl_def [symmetric] if_not_P [OF c(1)] if_not_P [OF c(2)] s
      by (simp split: bool.split)
    then show ?thesis using assms(4,5) bn_wexpand_ok [OF assms(1) s] put [OF _ _ order_refl, of "As 2" s "bn_mul_normal (bn_d a) al (bn_d b) bl"] s W abs
      by (cases e) (auto simp: ctx_after_refl)
  next
    case 2
    define j where "j = (2 :: nat) ^ (BN_num_bits_word (of_nat (if int al - int bl \<ge> 0 then al else bl)) - 1)"
    define m where "m = (if int al - int bl \<ge> 0 then al else bl)"
    have m: "al \<le> m" "bl \<le> m" "m \<le> al + 1" "m \<le> bl + 1" "m = al \<or> m = bl" "16 \<le> m" "m < 2 ^ 64" using 2 la(3,4) by (auto simp: m_def)
    have j: "j \<le> m" "m < 2 * j" "8 \<le> j" using top_power [OF m(6,7), of j] by (simp_all add: j_def m_def)
    have jp: "\<exists>k. j = 2 ^ k" by (auto simp: j_def)
    define part where "part = (al > j \<or> bl > j)"
    define tw where "tw = (if part then j * 8 else j * 4)"
    define rw where "rw = (if part then j * 4 else j * 2)"
    have c: "\<not> (int al - int bl = 0 \<and> al = 8)" "al \<ge> 16 \<and> bl \<ge> 16 \<and> - 1 \<le> int al - int bl \<and> int al - int bl \<le> 1" using 2 by auto
    obtain q mid where q: "BN_CTX_get (As 2) ctx = (q, mid)" by fastforce
    have am: "ctx_after ctx mid" "\<forall>p. ctx_ptr ctx p \<longrightarrow> ctx_ptr mid p" using ctx_after_get [OF assms(4) q] ctx_ptr_get [OF assms(4) q] by auto
    show ?thesis
    proof (cases q)
      case None
      have "mul_words_into As rr a b ctx = (False, rr, mid)"
        unfolding mul_words_into_def Let_def al_def [symmetric] bl_def [symmetric] if_not_P [OF c(1)] if_P [OF c(2)] q None by simp
      then show ?thesis using assms(1,5) am by simp
    next
      case (Some p)
      have P: "ctx_ptr mid p" "bn_ok (ctx_bn mid p)" "\<not> static_data (ctx_bn mid p)" using ctx_get_ptr [OF assms(4)] q Some by auto
      obtain e t where t: "bn_wexpand (As 3) (ctx_bn mid p) tw = (e, t)" by fastforce
      note T = bn_wexpand_ok [OF P(2) t]
      have at: "ctx_after ctx (ctx_put mid p t)" using ctx_after_put [OF am(1) P(1)] T P(3) by simp
      obtain e' s where s: "bn_wexpand (As 4) rr rw = (e', s)" by fastforce
      define res where "res = (if part then bn_mul_part_recursive (bn_d s) (bn_d a) (bn_d b) j (al - j) (bl - j) (bn_d t)
          else bn_mul_recursive (bn_d a) (bn_d b) j (int al - int j) (int bl - int j) (bn_d t))"
      obtain ws ts where ws: "res = (ws, ts)" by fastforce
      have e: "mul_words_into As rr a b ctx =
          (if \<not> e then (False, rr, ctx_put mid p t) else if \<not> e' then (False, s, ctx_put mid p t)
           else (True, put_words ws (s\<lparr>width := al + bl\<rparr>), ctx_put mid p (t\<lparr>bn_d := ts\<rparr>)))"
        unfolding mul_words_into_def Let_def al_def [symmetric] bl_def [symmetric] if_not_P [OF c(1)] if_P [OF c(2)] q Some
          j_def [symmetric] part_def [symmetric] tw_def [symmetric] rw_def [symmetric] prod.case option.case t s
        using ws unfolding res_def by (simp split: bool.split)
      have R: "words_val ws = bn_abs a * bn_abs b \<and> length ws = rw \<and> al + bl \<le> rw \<and> (tw \<le> length (bn_d t) \<longrightarrow> length ts = length (bn_d t))"
      proof (cases part)
        case True
        have b: "j \<le> al" "j \<le> bl" "al - j < j" "bl - j < j" "al - j \<le> bl - j + 1" "bl - j \<le> al - j + 1"
          using True m j 2 by (auto simp: part_def)
        have "bn_mul_part_recursive (bn_d s) (bn_d a) (bn_d b) j (al - j) (bl - j) (bn_d t) = (ws, ts)" using ws True by (simp add: res_def)
        from bn_mul_part_recursive_ok [OF jp j(3) b(3-6) _ _ this] show ?thesis
          using la b abs True m j by (simp add: rw_def tw_def)
      next
        case False
        have b: "al \<le> j" "bl \<le> j" "j \<le> al + 1" "j \<le> bl + 1" using False m j by (auto simp: part_def)
        have "bn_mul_recursive (bn_d a) (bn_d b) j (int al - int j) (int bl - int j) (bn_d t) = (ws, ts)" using ws False by (simp add: res_def)
        from bn_mul_recursive_ok [OF jp _ _ _ _ _ _ _ _ this] show ?thesis
          using la b abs False by (simp add: rw_def tw_def)
      qed
      have ats: "ctx_after ctx (ctx_put mid p (t\<lparr>bn_d := ts\<rparr>))" if e
        using ctx_after_put [OF am(1) P(1), of "t\<lparr>bn_d := ts\<rparr>"] T R P(3) that by (simp add: bn_ok_def)
      show ?thesis
        using e assms(5) at ats am(2) bn_wexpand_ok [OF assms(1) s] put [of "As 4" rw s ws] s R assms(1)
        by (auto split: if_splits)
    qed
  qed
qed

section \<open>Products\<close>

text \<open>What a run of a function with a \<open>BN_CTX\<close> ends in: the result, and the context as it was before.\<close>

definition ctx_result :: "BN_CTX \<Rightarrow> (bool \<Rightarrow> BIGNUM \<Rightarrow> bool) \<Rightarrow> (bool \<times> BIGNUM \<times> BN_CTX) option \<Rightarrow> bool" where
  "ctx_result ctx P res \<longleftrightarrow> (\<exists>ok r ctx'. res = Some (ok, r, ctx') \<and> P ok r
     \<and> ctx_after ctx ctx' \<and> ctx_used ctx' = ctx_used ctx \<and> too_many ctx' = too_many ctx)"

lemma ctx_result_end:
  assumes "ctx_ok ctx" and "length (frames ctx) < 2 ^ 30" and "ctx_after (BN_CTX_start A ctx) mid" and "P ok r"
  shows "ctx_result ctx P (map_option (\<lambda>ctx. (ok, r, ctx)) (BN_CTX_end mid))"
proof -
  have "stack_depth (ctx_stack ctx) < 2 ^ 30" using assms(2) length_frames [OF assms(1)] by simp
  from frame_ok [OF assms(1) this assms(3)] show ?thesis using assms(4) by (auto simp: ctx_result_def)
qed

lemma ctx_start_ok: "ctx_ok ctx \<Longrightarrow> length (frames ctx) < 2 ^ 30 \<Longrightarrow> ctx_ok (BN_CTX_start A ctx)"
  using BN_CTX_start_ok [of ctx A] length_frames [of ctx] by simp

definition mul_post :: "BIGNUM \<Rightarrow> BIGNUM \<Rightarrow> BIGNUM \<Rightarrow> bool \<Rightarrow> BIGNUM \<Rightarrow> bool" where
  "mul_post r0 a b ok r \<longleftrightarrow> bn_ok r \<and> static_data r = static_data r0 \<and> (ok \<longrightarrow> bn_val r = bn_val a * bn_val b)"

lemma bn_val_product:
  assumes "bn_abs r = bn_abs a * bn_abs b" and "neg r = (neg a \<noteq> neg b)"
  shows "bn_val r = bn_val a * bn_val b"
  using assms by (auto simp: bn_val_def)

lemma bn_abs_width_0: "width a = 0 \<Longrightarrow> bn_abs a = 0"
  by (simp add: bn_abs_def bn_words_def)

lemma bn_mul_impl_ok:
  assumes "ctx_ok ctx" and "length (frames ctx) < 2 ^ 30" and "bn_ok r" and "bn_ok a" and "bn_ok b"
    and "\<not> (alias \<and> fst (BN_CTX_get (As 1) (BN_CTX_start (As 0) ctx)) = None)"
  shows "ctx_result ctx (mul_post r a b) (bn_mul_impl As alias r a b ctx)"
proof (cases "width a = 0 \<or> width b = 0")
  case True
  then have "bn_abs a = 0 \<or> bn_abs b = 0" using bn_abs_width_0 by blast
  then have "mul_post r a b True (BN_zero r)"
    using assms(3) by (auto simp: mul_post_def BN_zero_def bn_ok_def bn_val_def bn_abs_def bn_words_def)
  then show ?thesis using True assms(1) by (auto simp: ctx_result_def bn_mul_impl_def ctx_after_refl)
next
  case False
  define c1 where "c1 = BN_CTX_start (As 0) ctx"
  have c1: "ctx_ok c1" unfolding c1_def by (rule ctx_start_ok [OF assms(1,2)])
  note fin = ctx_result_end [OF assms(1,2), of "As 0", folded c1_def]
  show ?thesis
  proof (cases "alias")
    case A: False
    obtain ok s mid where m: "mul_words_into As (r\<lparr>neg := (neg a \<noteq> neg b)\<rparr>) a b c1 = (ok, s, mid)"
      using prod_cases3 by blast
    have M: "bn_ok s \<and> neg s = (neg a \<noteq> neg b) \<and> static_data s = static_data r \<and> (ok \<longrightarrow> bn_abs s = bn_abs a * bn_abs b) \<and> ctx_after c1 mid"
      using mul_words_into_ok [OF _ assms(4,5) c1 m] assms(3) by simp
    have "bn_mul_impl As alias r a b ctx = map_option (\<lambda>ctx. (ok, s, ctx)) (BN_CTX_end mid)"
      using False A m by (simp add: bn_mul_impl_def c1_def Let_def)
    moreover have "mul_post r a b ok s" using M bn_val_product [of s a b] by (simp add: mul_post_def)
    ultimately show ?thesis using fin M by simp
  next
    case A: True
    then obtain p c2 where g: "BN_CTX_get (As 1) c1 = (Some p, c2)"
      using assms(6) by (cases "BN_CTX_get (As 1) c1") (auto simp: c1_def)
    have c2: "ctx_after c1 c2" "ctx_ok c2" using ctx_after_get [OF c1 g] by (auto simp: ctx_after_def)
    note P = ctx_get_ptr [OF c1 g]
    define t where "t = (ctx_bn c2 p)\<lparr>neg := (neg a \<noteq> neg b)\<rparr>"
    obtain ok s mid where m: "mul_words_into As t a b c2 = (ok, s, mid)" using prod_cases3 by blast
    have M: "bn_ok s \<and> neg s = (neg a \<noteq> neg b) \<and> \<not> static_data s \<and> (ok \<longrightarrow> bn_abs s = bn_abs a * bn_abs b)
        \<and> ctx_after c2 mid \<and> ctx_ptr mid p"
      using mul_words_into_ok [OF _ assms(4,5) c2(2) m] P by (auto simp: t_def simp del: split_paired_All)
    obtain ok' r' where c: "(if ok then BN_copy (As 5) r s else (False, r)) = (ok', r')" by fastforce
    have "mul_post r a b ok' r'"
    proof (cases ok)
      case True
      then show ?thesis using BN_copy_ok [OF assms(3), of s "As 5" ok' r'] c M bn_val_product [of r' a b] by (auto simp: mul_post_def)
    next
      case False
      then show ?thesis using c assms(3) by (auto simp: mul_post_def)
    qed
    moreover have "ctx_after c1 (ctx_put mid p s)"
      using ctx_after_put [OF ctx_after_trans [OF c2(1)]] M by blast
    moreover have "bn_mul_impl As alias r a b ctx = map_option (\<lambda>ctx. (ok', r', ctx)) (BN_CTX_end (ctx_put mid p s))"
      using False A m c g by (simp add: bn_mul_impl_def c1_def Let_def t_def)
    ultimately show ?thesis using fin by simp
  qed
qed

lemma ctx_result_minimal:
  assumes "ctx_result ctx (mul_post r a b) res"
  shows "ctx_result ctx (\<lambda>ok r'. mul_post r a b ok r' \<and> (ok \<longrightarrow> bn_minimal r'))
    (case res of None \<Rightarrow> None | Some (False, r, ctx) \<Rightarrow> Some (False, r, ctx) | Some (True, r, ctx) \<Rightarrow> Some (True, bn_set_minimal_width r, ctx))"
proof -
  obtain ok s ctx' where e: "res = Some (ok, s, ctx')" "mul_post r a b ok s" "ctx_after ctx ctx'" "ctx_used ctx' = ctx_used ctx" "too_many ctx' = too_many ctx"
    using assms by (auto simp: ctx_result_def)
  have "mul_post r a b True (bn_set_minimal_width s) \<and> bn_minimal (bn_set_minimal_width s)" if ok
  proof -
    have s: "bn_ok s" "static_data s = static_data r" "bn_val s = bn_val a * bn_val b" using e(2) that by (simp_all add: mul_post_def)
    note M = bn_set_minimal_width_ok [OF s(1)]
    have "bn_val (bn_set_minimal_width s) = bn_val s" using M by (auto simp: bn_val_def)
    moreover have "static_data (bn_set_minimal_width s) = static_data s" by (simp add: bn_set_minimal_width_def Let_def)
    ultimately show ?thesis using M s by (auto simp: mul_post_def bn_minimal_def)
  qed
  then show ?thesis using e by (cases ok) (auto simp: ctx_result_def)
qed

lemma BN_mul_ok:
  assumes "ctx_ok ctx" and "length (frames ctx) < 2 ^ 30" and "bn_ok r" and "bn_ok a" and "bn_ok b"
    and "\<not> (alias \<and> fst (BN_CTX_get (As 1) (BN_CTX_start (As 0) ctx)) = None)"
  shows "ctx_result ctx (\<lambda>ok r'. mul_post r a b ok r' \<and> (ok \<longrightarrow> bn_minimal r')) (BN_mul As alias r a b ctx)"
  unfolding BN_mul_def by (rule ctx_result_minimal [OF bn_mul_impl_ok [OF assms]])

section \<open>With memory\<close>

definition mem_for_all :: "(nat \<Rightarrow> alloc) \<Rightarrow> bool" where
  "mem_for_all As \<longleftrightarrow> (\<forall>k n. As k n \<noteq> None)"

lemma BN_CTX_start_total:
  assumes "\<not> blocked ctx" and "\<forall>n. A n \<noteq> None"
  shows "\<not> blocked (BN_CTX_start A ctx)"
  using assms(1) assms(2) [rule_format, of "stack_newsize (stack_size (ctx_stack ctx)) * 4"]
  by (auto simp: BN_CTX_start_def blocked_def BN_STACK_push_def Let_def split: option.splits if_splits)

lemma BN_CTX_get_total:
  assumes "ctx_ok ctx" and "\<not> blocked ctx" and "\<forall>n. A n \<noteq> None"
  obtains p ctx' where "BN_CTX_get A ctx = (Some p, ctx')" and "\<not> blocked ctx'"
proof -
  obtain r pool where g: "BN_POOL_get A (ctx_pool ctx) = (r, pool)" by fastforce
  have "pool_ok (ctx_pool ctx)" using assms(1) by (simp add: ctx_ok_def)
  then have "r \<noteq> None" using BN_POOL_get_ok [OF _ g] assms(3) by blast
  then obtain p where "r = Some p" by blast
  then show thesis using that g assms(2) by (simp add: BN_CTX_get_def blocked_def Let_def)
qed

lemma wexpand_mem:
  assumes "mem_for_all As" and "\<not> static_data r" and "n \<le> bn_max_words"
  obtains s where "bn_wexpand (As k) r n = (True, s)"
proof -
  have "fst (bn_wexpand (As k) r n)" using assms by (intro bn_wexpand_total) (auto simp: mem_for_all_def)
  then show thesis using that by (cases "bn_wexpand (As k) r n") simp
qed

lemma mul_words_into_total:
  assumes "mem_for_all As" and "ctx_ok ctx" and "\<not> blocked ctx" and "\<not> static_data rr" and "width a \<le> 524288" and "width b \<le> 524288"
  shows "fst (mul_words_into As rr a b ctx)"
proof -
  define m where "m = (if int (width a) - int (width b) \<ge> 0 then width a else width b)"
  define j where "j = (2 :: nat) ^ (BN_num_bits_word (of_nat m) - 1)"
  have m: "m \<le> 524288" using assms(5,6) by (simp add: m_def)
  have j: "16 \<le> width a \<Longrightarrow> 16 \<le> width b \<Longrightarrow> j \<le> 524288"
    using top_power [of m j] m by (auto simp: j_def m_def split: if_splits)
  have mem: "\<forall>n. As 2 n \<noteq> None" using assms(1) by (simp add: mem_for_all_def)
  obtain p mid where p: "BN_CTX_get (As 2) ctx = (Some p, mid)" by (rule BN_CTX_get_total [OF assms(2,3) mem])
  have P: "\<not> static_data (ctx_bn mid p)" by (rule ctx_get_ptr(3) [OF assms(2) p])
  have w: "\<exists>s. bn_wexpand (As k) r n = (True, s)" if "\<not> static_data r" "n \<le> bn_max_words" for k r n
    using wexpand_mem [OF assms(1) that, of k] by blast
  obtain s1 where s1: "bn_wexpand (As 2) rr 16 = (True, s1)" using w [OF assms(4), of 16 2] by auto
  obtain s2 where s2: "bn_wexpand (As 2) rr (width a + width b) = (True, s2)" using w [OF assms(4), of "width a + width b" 2] assms(5,6) by auto
  consider "int (width a) - int (width b) = 0 \<and> width a = 8" | "\<not> (int (width a) - int (width b) = 0 \<and> width a = 8)"
      "width a \<ge> 16 \<and> width b \<ge> 16 \<and> - 1 \<le> int (width a) - int (width b) \<and> int (width a) - int (width b) \<le> 1"
    | "\<not> (int (width a) - int (width b) = 0 \<and> width a = 8)"
      "\<not> (width a \<ge> 16 \<and> width b \<ge> 16 \<and> - 1 \<le> int (width a) - int (width b) \<and> int (width a) - int (width b) \<le> 1)" by blast
  then show ?thesis
  proof cases
    case 1
    then show ?thesis unfolding mul_words_into_def Let_def if_P [OF 1] s1 by simp
  next
    case 2
    have j: "j \<le> 524288" using j 2(2) by simp
    define part where "part = (width a > j \<or> width b > j)"
    have bounds: "(if part then j * 8 else j * 4) \<le> bn_max_words" "(if part then j * 4 else j * 2) \<le> bn_max_words" using j by auto
    obtain t where t: "bn_wexpand (As 3) (ctx_bn mid p) (if part then j * 8 else j * 4) = (True, t)"
      using w [OF P bounds(1), of 3] by blast
    obtain s where s: "bn_wexpand (As 4) rr (if part then j * 4 else j * 2) = (True, s)"
      using w [OF assms(4) bounds(2), of 4] by blast
    show ?thesis unfolding mul_words_into_def Let_def if_not_P [OF 2(1)] if_P [OF 2(2)] p prod.case option.case
        m_def [symmetric] j_def [symmetric] part_def [symmetric] t s by (simp split: prod.split)
  next
    case 3
    then show ?thesis unfolding mul_words_into_def Let_def if_not_P [OF 3(1)] if_not_P [OF 3(2)] s2 by simp
  qed
qed

lemma BN_copy_total:
  assumes "mem_for_all As" and "\<not> static_data r" and "width s \<le> bn_max_words"
  shows "fst (BN_copy (As k) r s)"
proof -
  obtain d where "bn_wexpand (As k) r (width s) = (True, d)" by (rule wexpand_mem [OF assms])
  then show ?thesis by (simp add: BN_copy_def)
qed

lemma bn_mul_impl_total:
  assumes "mem_for_all As" and "ctx_ok ctx" and "length (frames ctx) < 2 ^ 30" and "\<not> blocked ctx"
    and "bn_ok r" and "bn_ok a" and "bn_ok b" and "\<not> static_data r" and "width a \<le> 524288" and "width b \<le> 524288"
  shows "\<exists>r' ctx'. bn_mul_impl As alias r a b ctx = Some (True, r', ctx')"
proof (cases "width a = 0 \<or> width b = 0")
  case True
  then show ?thesis by (simp add: bn_mul_impl_def)
next
  case False
  define c1 where "c1 = BN_CTX_start (As 0) ctx"
  have c1: "ctx_ok c1" "\<not> blocked c1"
    using ctx_start_ok [OF assms(2,3)] BN_CTX_start_total [OF assms(4)] assms(1) by (auto simp: c1_def mem_for_all_def)
  have mem: "\<forall>n. As 1 n \<noteq> None" using assms(1) by (simp add: mem_for_all_def)
  obtain p c2 where g: "BN_CTX_get (As 1) c1 = (Some p, c2)" "\<not> blocked c2" by (rule BN_CTX_get_total [OF c1 mem])
  have "ctx_result ctx (mul_post r a b) (bn_mul_impl As alias r a b ctx)"
    by (rule bn_mul_impl_ok [OF assms(2,3,5-7)]) (unfold c1_def [symmetric] g, simp)
  then obtain ok r' ctx' where e: "bn_mul_impl As alias r a b ctx = Some (ok, r', ctx')" by (auto simp: ctx_result_def)
  have ok
  proof (cases "alias")
    case A: False
    define r1 where "r1 = r\<lparr>neg := (neg a \<noteq> neg b)\<rparr>"
    obtain k s mid where m: "mul_words_into As r1 a b c1 = (k, s, mid)" using prod_cases3 by blast
    have "fst (mul_words_into As r1 a b c1)" by (rule mul_words_into_total) (use assms c1 in \<open>simp_all add: r1_def\<close>)
    then have k by (simp add: m)
    moreover have "bn_mul_impl As alias r a b ctx = map_option (\<lambda>ctx. (k, s, ctx)) (BN_CTX_end mid)"
      using False A m by (simp add: bn_mul_impl_def c1_def Let_def r1_def)
    ultimately show ok using e by (cases "BN_CTX_end mid") simp_all
  next
    case A: True
    have c2: "ctx_ok c2" using BN_CTX_get_ok [OF c1(1) g(1)] by simp
    define t where "t = (ctx_bn c2 p)\<lparr>neg := (neg a \<noteq> neg b)\<rparr>"
    have t: "bn_ok t" "\<not> static_data t" using ctx_get_ptr [OF c1(1) g(1)] by (simp_all add: t_def)
    obtain k s mid where m: "mul_words_into As t a b c2 = (k, s, mid)" using prod_cases3 by blast
    have "fst (mul_words_into As t a b c2)" by (rule mul_words_into_total) (use assms c2 g t in simp_all)
    then have k by (simp add: m)
    have "width s \<le> bn_max_words" using mul_words_into_ok [OF t(1) assms(6,7) c2 m] unfolding bn_ok_def by linarith
    then have "fst (BN_copy (As 5) r s)" by (rule BN_copy_total [OF assms(1,8)])
    then obtain r'' where "BN_copy (As 5) r s = (True, r'')" by (cases "BN_copy (As 5) r s") simp
    then have "bn_mul_impl As alias r a b ctx = map_option (\<lambda>ctx. (True, r'', ctx)) (BN_CTX_end (ctx_put mid p s))"
      using False A m g \<open>k\<close> by (simp add: bn_mul_impl_def c1_def Let_def t_def)
    then show ok using e by (cases "BN_CTX_end (ctx_put mid p s)") simp_all
  qed
  then show ?thesis using e by simp
qed

lemma bn_mul_get_total:
  assumes "mem_for_all As" and "ctx_ok ctx" and "length (frames ctx) < 2 ^ 30" and "\<not> blocked ctx"
  shows "\<not> (alias \<and> fst (BN_CTX_get (As 1) (BN_CTX_start (As 0) ctx)) = None)"
proof -
  have mem: "\<forall>n. As 0 n \<noteq> None" "\<forall>n. As 1 n \<noteq> None" using assms(1) by (simp_all add: mem_for_all_def)
  obtain p mid where "BN_CTX_get (As 1) (BN_CTX_start (As 0) ctx) = (Some p, mid)"
    by (rule BN_CTX_get_total [OF ctx_start_ok [OF assms(2,3)] BN_CTX_start_total [OF assms(4) mem(1)] mem(2)])
  then show ?thesis by simp
qed

section \<open>One word, and small sizes\<close>

lemma BN_mul_word_ok:
  assumes "bn_ok bn" and "BN_mul_word A bn w = (ok, r)"
  shows "bn_ok r \<and> (ok \<longrightarrow> bn_val r = bn_val bn * uint w)"
proof -
  consider "width bn = 0" | "width bn \<noteq> 0" "w = 0" | "width bn \<noteq> 0" "w \<noteq> 0" by blast
  then show ?thesis
  proof cases
    case 1
    then show ?thesis using assms by (simp add: BN_mul_word_def bn_val_def bn_abs_width_0)
  next
    case 2
    then show ?thesis using assms by (auto simp: BN_mul_word_def BN_zero_def bn_ok_def bn_val_def bn_abs_def bn_words_def)
  next
    case 3
    obtain ws ll where m: "bn_mul_words (bn_d bn) (width bn) w = (ws, ll)" by fastforce
    have l: "width bn \<le> length (bn_d bn)" using assms(1) by (simp add: bn_ok_def)
    note M = bn_mul_words_ok [OF l m]
    have v: "words_val ws + bn_base ^ width bn * uint ll = uint w * bn_abs bn" using M by (simp add: bn_abs_def bn_words_def)
    define p where "p = put_words ws bn"
    have p: "bn_ok p" "bn_words p = ws" "width p = width bn" "neg p = neg bn"
      using put_words_same [OF assms(1)] M by (simp_all add: p_def)
    show ?thesis
    proof (cases "ll = 0")
      case True
      then have "ok" "r = p" using assms(2) 3 m by (simp_all add: BN_mul_word_def p_def)
      then show ?thesis using p v True by (simp add: bn_val_def bn_abs_def mult.commute)
    next
      case False
      obtain e s where e: "bn_wexpand A p (width bn + 1) = (e, s)" by fastforce
      note E = bn_wexpand_ok [OF p(1) e]
      show ?thesis
      proof (cases e)
        case True
        then have r: "ok" "r = s\<lparr>bn_d := (bn_d s)[width bn := ll], width := width bn + 1\<rparr>"
          using assms(2) 3 m e False E p(3) by (simp_all add: BN_mul_word_def p_def)
        have ls: "width bn + 1 \<le> length (bn_d s)" "take (width bn) (bn_d s) = ws" "length (bn_d s) \<le> bn_max_words"
          using E p True by (auto simp: bn_words_def bn_ok_def)
        have "bn_words r = ws @ [ll]" using ls by (simp add: r bn_words_def take_Suc_conv_app_nth)
        then have "bn_abs r = bn_abs bn * uint w" using v M by (simp add: bn_abs_def [of r] words_val_append mult.commute)
        then show ?thesis using r ls E p by (simp add: bn_ok_def bn_val_def)
      next
        case F: False
        then have "\<not> ok" "r = s" using assms(2) 3 m e False p(3) by (auto simp: BN_mul_word_def p_def)
        then show ?thesis using E by simp
      qed
    qed
  qed
qed

lemma bn_mul_small_ok:
  "case bn_mul_small n a b of
     None \<Rightarrow> n \<noteq> length a + length b
   | Some ws \<Rightarrow> n = length a + length b \<and> words_val ws = words_val a * words_val b \<and> length ws = n"
  using bn_mul_comba8_ok [of a b] bn_mul_normal_ok [of "length a" a "length b" b] by (simp add: bn_mul_small_def)

section \<open>Squares\<close>

lemma pow2_test: "(n \<noteq> 0 \<and> n AND (n - 1) = 0) = (\<exists>m. n = 2 ^ m)" for n :: nat
proof
  assume n: "n \<noteq> 0 \<and> n AND (n - 1) = 0"
  have "bit_len n \<noteq> 0" using n bit_len_le [of n 0] by auto
  then obtain k where bl: "bit_len n = Suc k" by (cases "bit_len n") simp_all
  then have k: "2 ^ k \<le> n" "n < 2 ^ Suc k" using bit_len_le [of n k] bit_len_le [of n "Suc k"] by simp_all
  have "n = 2 ^ k"
  proof (rule ccontr)
    assume "n \<noteq> 2 ^ k"
    then have "2 ^ k \<le> n - 1" "n - 1 < 2 ^ Suc k" using k by simp_all
    moreover have "x div 2 ^ k = 1" if "2 ^ k \<le> x" "x < 2 ^ Suc k" for x :: nat using that by (intro div_nat_eqI) simp_all
    ultimately have "n div 2 ^ k = 1" "(n - 1) div 2 ^ k = 1" using k by blast+
    then have "bit n k" "bit (n - 1) k" by (simp_all add: bit_iff_odd)
    then have "bit (n AND (n - 1)) k" by (simp add: bit_and_iff)
    then show False using n by simp
  qed
  then show "\<exists>m. n = 2 ^ m" by blast
next
  assume "\<exists>m. n = 2 ^ m"
  then obtain m where m: "n = 2 ^ m" by blast
  have "n AND (n - 1) = 0"
  proof (rule bit_eqI)
    fix i
    have "\<not> (bit n i \<and> bit (n - 1) i)" unfolding m mask_eq_exp_minus_1 [symmetric] by (simp add: bit_exp_iff bit_mask_iff)
    then show "bit (n AND (n - 1)) i = bit 0 i" by (simp add: bit_and_iff)
  qed
  then show "n \<noteq> 0 \<and> n AND (n - 1) = 0" by (simp add: m)
qed

lemma sqr_words_into_ok:
  assumes "bn_ok rr" and "bn_ok a" and "bn_ok tmp" and "sqr_words_into As rr a tmp = (ok, r, tmp')"
  shows "bn_ok r \<and> static_data r = static_data rr \<and> (ok \<longrightarrow> bn_abs r = bn_abs a * bn_abs a \<and> \<not> neg r)
    \<and> bn_ok tmp' \<and> static_data tmp' = static_data tmp"
proof -
  define al where "al = width a"
  have la: "al \<le> length (bn_d a)" using assms(2) by (simp add: bn_ok_def al_def)
  have abs: "words_val (take al (bn_d a)) = bn_abs a" using bn_abs_take [of a] by (simp add: al_def)
  have less: "bn_abs a * bn_abs a < bn_base ^ (2 * al)" using bn_product_less [OF assms(2,2)] by (simp add: al_def mult_2)
  obtain e s where s: "bn_wexpand (As 3) rr (2 * al) = (e, s)" by fastforce
  note S = bn_wexpand_ok [OF assms(1) s]
  show ?thesis
  proof (cases e)
    case False
    then show ?thesis using assms(3,4) s S by (simp add: sqr_words_into_def flip: al_def)
  next
    case e: True
    have eT: "e = True" using e by simp
    define fin where "fin = (\<lambda>ws. put_words ws (s\<lparr>width := 2 * al, neg := False\<rparr>))"
    have put: "bn_ok (fin ws) \<and> bn_abs (fin ws) = bn_abs a * bn_abs a \<and> \<not> neg (fin ws) \<and> static_data (fin ws) = static_data rr"
      if "words_val ws = (bn_abs a)\<^sup>2 \<and> length ws = 2 * al" for ws
    proof -
      have e2: "s\<lparr>width := 2 * al, neg := False\<rparr> = (s\<lparr>neg := False\<rparr>)\<lparr>width := 2 * al\<rparr>" by simp
      show ?thesis using put_result [of "s\<lparr>neg := False\<rparr>" ws "2 * al"] S e that less unfolding fin_def e2 by (simp add: power2_eq_square)
    qed
    have w: "sqr_words_into As rr a tmp =
       (if al = 4 then (True, fin (bn_sqr_comba4 (bn_d a)), tmp)
        else if al = 8 then (True, fin (bn_sqr_comba8 (bn_d a)), tmp)
        else if al < 16 then (True, fin (fst (bn_sqr_normal (bn_d a) al (replicate 32 0))), tmp)
        else if al \<noteq> 0 \<and> al AND (al - 1) = 0 then
          (case bn_wexpand (As 4) tmp (al * 4) of
             (False, tmp) \<Rightarrow> (False, s, tmp)
           | (True, tmp) \<Rightarrow> (let (ws, ts) = bn_sqr_recursive (bn_d a) al (bn_d tmp) in (True, fin ws, tmp\<lparr>bn_d := ts\<rparr>)))
        else
          (case bn_wexpand (As 4) tmp (2 * al) of
             (False, tmp) \<Rightarrow> (False, s, tmp)
           | (True, tmp) \<Rightarrow> (let (ws, ts) = bn_sqr_normal (bn_d a) al (bn_d tmp) in (True, fin ws, tmp\<lparr>bn_d := ts\<rparr>))))"
      unfolding sqr_words_into_def Let_def al_def [symmetric] s eT prod.case bool.case fin_def by (rule refl)
    consider "al = 4" | "al = 8" | "al \<noteq> 4" "al \<noteq> 8" "al < 16" | "al \<noteq> 4" "al \<noteq> 8" "\<not> al < 16" "al \<noteq> 0 \<and> al AND (al - 1) = 0"
      | "al \<noteq> 4" "al \<noteq> 8" "\<not> al < 16" "\<not> (al \<noteq> 0 \<and> al AND (al - 1) = 0)" by blast
    then show ?thesis
    proof cases
      case 1
      then show ?thesis using w assms(3,4) put [of "bn_sqr_comba4 (bn_d a)"] bn_sqr_comba_take(1) [of "bn_d a"] la abs by auto
    next
      case 2
      then show ?thesis using w assms(3,4) put [of "bn_sqr_comba8 (bn_d a)"] bn_sqr_comba_take(2) [of "bn_d a"] la abs by auto
    next
      case 3
      obtain ws ts where n: "bn_sqr_normal (bn_d a) al (replicate 32 0) = (ws, ts)" by fastforce
      show ?thesis using w 3 assms(3,4) put [of ws] bn_sqr_normal_ok [OF la n] n abs by auto
    next
      case 4
      obtain f t where t: "bn_wexpand (As 4) tmp (al * 4) = (f, t)" by fastforce
      note T = bn_wexpand_ok [OF assms(3) t]
      obtain ws ts where n: "bn_sqr_recursive (bn_d a) al (bn_d t) = (ws, ts)" by fastforce
      have "\<exists>m. al = 2 ^ m" using pow2_test [of al] 4(4) by blast
      note R = bn_sqr_recursive_ok [OF this la n]
      have "sqr_words_into As rr a tmp = (f, if f then fin ws else s, if f then t\<lparr>bn_d := ts\<rparr> else t)"
        unfolding w if_not_P [OF 4(1)] if_not_P [OF 4(2)] if_not_P [OF 4(3)] if_P [OF 4(4)] t using n by (simp split: bool.split)
      then show ?thesis using assms(4) T S put [of ws] R abs by (cases f) (auto simp: bn_ok_def)
    next
      case 5
      obtain f t where t: "bn_wexpand (As 4) tmp (2 * al) = (f, t)" by fastforce
      note T = bn_wexpand_ok [OF assms(3) t]
      obtain ws ts where n: "bn_sqr_normal (bn_d a) al (bn_d t) = (ws, ts)" by fastforce
      note R = bn_sqr_normal_ok [OF la n]
      have "sqr_words_into As rr a tmp = (f, if f then fin ws else s, if f then t\<lparr>bn_d := ts\<rparr> else t)"
        unfolding w if_not_P [OF 5(1)] if_not_P [OF 5(2)] if_not_P [OF 5(3)] if_not_P [OF 5(4)] t using n by (simp split: bool.split)
      then show ?thesis using assms(4) T S put [of ws] R abs by (cases f) (auto simp: bn_ok_def)
    qed
  qed
qed

lemma bn_sqr_consttime_ok:
  assumes "ctx_ok ctx" and "length (frames ctx) < 2 ^ 30" and "bn_ok r" and "bn_ok a"
  shows "ctx_result ctx (mul_post r a a) (bn_sqr_consttime As alias r a ctx)"
proof (cases "width a = 0")
  case True
  then have "mul_post r a a True (r\<lparr>width := 0, neg := False\<rparr>)"
    using assms(3) bn_abs_width_0 [OF True] by (simp add: mul_post_def bn_ok_def bn_val_def bn_abs_def bn_words_def)
  then show ?thesis using True assms(1) by (auto simp: ctx_result_def bn_sqr_consttime_def ctx_after_refl)
next
  case False
  define c1 where "c1 = BN_CTX_start (As 0) ctx"
  have c1: "ctx_ok c1" unfolding c1_def by (rule ctx_start_ok [OF assms(1,2)])
  note fin = ctx_result_end [OF assms(1,2), of "As 0" _ "mul_post r a a", folded c1_def]
  obtain q c2 where q: "(if alias then BN_CTX_get (As 1) c1 else (None, c1)) = (q, c2)" by fastforce
  have c2: "ctx_ok c2" "ctx_after c1 c2"
    using q c1 ctx_after_get [OF c1, of "As 1" q c2] by (auto simp: ctx_after_def split: if_splits)
  obtain p c3 where p: "BN_CTX_get (As 2) c2 = (p, c3)" by fastforce
  have c3: "ctx_after c1 c3" "ctx_ok c3" using ctx_after_trans [OF c2(2) ctx_after_get [OF c2(1) p]] by (auto simp: ctx_after_def)
  have fail: "mul_post r a a False r" using assms(3) by (simp add: mul_post_def)
  have sq: "mul_post x a a ok r'" if "bn_ok r'" "static_data r' = static_data x" "ok \<longrightarrow> bn_abs r' = bn_abs a * bn_abs a \<and> \<not> neg r'" for ok r' x
    using that by (auto simp: mul_post_def bn_val_def)
  note e = bn_sqr_consttime_def [of As "alias" r a ctx] if_not_P [OF False] c1_def [symmetric] Let_def q p prod.case option.case
  show ?thesis
  proof (cases p)
    case None
    then show ?thesis unfolding e None using fin [OF c3(1) fail] by simp
  next
    case (Some p')
    note P = ctx_get_ptr [OF c2(1) p [unfolded Some]]
    show ?thesis
    proof (cases "alias")
      case A: False
      obtain ok s tmp where s: "sqr_words_into As r a (ctx_bn c3 p') = (ok, s, tmp)" using prod_cases3 by blast
      note S = sqr_words_into_ok [OF assms(3,4) P(2) s]
      have "ctx_after c1 (ctx_put c3 p' tmp)" using ctx_after_put [OF c3(1) P(1)] S P(3) by simp
      from fin [OF this sq [of s r ok]] S show ?thesis unfolding e Some unfolding if_not_P [OF A] s by simp
    next
      case A: True
      show ?thesis
      proof (cases q)
        case None
        then show ?thesis unfolding e Some unfolding if_P [OF A] None using fin [OF c3(1) fail] by simp
      next
        case q': (Some q')
        have g: "BN_CTX_get (As 1) c1 = (Some q', c2)" using q A q' by simp
        have Q: "ctx_ptr c3 q'" by (rule ctx_ptr_get [OF c2(1) p ctx_get_ptr(1) [OF c1 g]])
        then have Qb: "bn_ok (ctx_bn c3 q')" "\<not> static_data (ctx_bn c3 q')"
          using ctx_bn_ok [OF c3(2)] by (simp_all add: ctx_ptr_def)
        obtain ok s tmp where s: "sqr_words_into As (ctx_bn c3 q') a (ctx_bn c3 p') = (ok, s, tmp)" using prod_cases3 by blast
        note S = sqr_words_into_ok [OF Qb(1) assms(4) P(2) s]
        obtain ok' r' where c: "(if ok then BN_copy (As 5) r s else (False, r)) = (ok', r')" by fastforce
        have "bn_ok r'" "static_data r' = static_data r" "ok' \<longrightarrow> bn_abs r' = bn_abs a * bn_abs a \<and> \<not> neg r'"
          using c S BN_copy_ok [OF assms(3), of s "As 5" ok' r'] assms(3) by (auto split: if_splits)
        from sq [OF this] have post: "mul_post r a a ok' r'" .
        have "ctx_after c1 (ctx_put (ctx_put c3 q' s) p' tmp)"
          using ctx_after_put [OF ctx_after_put [OF c3(1) Q, of s], of p' tmp] S P Qb by simp
        from fin [OF this post] show ?thesis unfolding e Some unfolding if_P [OF A] q' option.case s prod.case c by simp
      qed
    qed
  qed
qed

lemma BN_sqr_ok:
  assumes "ctx_ok ctx" and "length (frames ctx) < 2 ^ 30" and "bn_ok r" and "bn_ok a"
  shows "ctx_result ctx (\<lambda>ok r'. mul_post r a a ok r' \<and> (ok \<longrightarrow> bn_minimal r')) (BN_sqr As alias r a ctx)"
  unfolding BN_sqr_def by (rule ctx_result_minimal [OF bn_sqr_consttime_ok [OF assms]])

lemma bn_sqr_small_ok:
  "case bn_sqr_small n a of
     None \<Rightarrow> n \<noteq> 2 * length a \<or> 9 < length a
   | Some ws \<Rightarrow> n = 2 * length a \<and> words_val ws = (words_val a)\<^sup>2 \<and> length ws = n"
proof -
  obtain ws ts where n: "bn_sqr_normal a (length a) (replicate 18 0) = (ws, ts)" by fastforce
  show ?thesis using bn_sqr_comba_take [of a] bn_sqr_normal_ok [OF order_refl n] by (simp add: bn_sqr_small_def n)
qed

section \<open>Absolute differences\<close>

text \<open>The sign of \<open>r\<close> is not set.\<close>

lemma bn_abs_sub_consttime_ok:
  assumes "ctx_ok ctx" and "length (frames ctx) < 2 ^ 30" and "bn_ok r" and "bn_ok a" and "bn_ok b"
  shows "ctx_result ctx (\<lambda>ok r'. bn_ok r' \<and> neg r' = neg r \<and> (ok \<longrightarrow> bn_abs r' = \<bar>bn_abs a - bn_abs b\<bar>)) (bn_abs_sub_consttime As r a b ctx)"
proof -
  define P where "P = (\<lambda>ok r'. bn_ok r' \<and> neg r' = neg r \<and> (ok \<longrightarrow> bn_abs r' = \<bar>bn_abs a - bn_abs b\<bar>))"
  define c1 where "c1 = BN_CTX_start (As 0) ctx"
  have c1: "ctx_ok c1" unfolding c1_def by (rule ctx_start_ok [OF assms(1,2)])
  note fin = ctx_result_end [OF assms(1,2), of "As 0" _ P, folded c1_def]
  define cl where "cl = (if width a < width b then width a else width b)"
  define dl where "dl = int (width a) - int (width b)"
  define n where "n = (if width a < width b then width b else width a)"
  obtain p c2 where p: "BN_CTX_get (As 1) c1 = (p, c2)" by fastforce
  have c2: "ctx_after c1 c2" by (rule ctx_after_get [OF c1 p])
  note e = bn_abs_sub_consttime_def [of As r a b ctx] cl_def [symmetric] dl_def [symmetric] n_def [symmetric] c1_def [symmetric]
    Let_def p prod.case option.case
  have "ctx_result ctx P (bn_abs_sub_consttime As r a b ctx)"
  proof (cases p)
    case None
    then show ?thesis unfolding e None using fin [OF c2, of False r] assms(3) by (simp add: P_def)
  next
    case (Some q)
    note Q = ctx_get_ptr [OF c1 p [unfolded Some]]
    obtain k s where s: "bn_wexpand (As 2) r n = (k, s)" by fastforce
    note S = bn_wexpand_ok [OF assms(3) s]
    show ?thesis
    proof (cases k)
      case False
      then have "k = False" by simp
      then show ?thesis unfolding e Some s using fin [OF c2, of False s] S by (simp add: P_def)
    next
      case True
      then have k: "k = True" by simp
      obtain k' t where t: "bn_wexpand (As 3) (ctx_bn c2 q) n = (k', t)" by fastforce
      note T = bn_wexpand_ok [OF Q(2) t]
      show ?thesis
      proof (cases k')
        case False
        then have "k' = False" by simp
        moreover have "ctx_after c1 (ctx_put c2 q t)" using ctx_after_put [OF c2 Q(1)] T Q(3) by simp
        ultimately show ?thesis unfolding e Some s k using t fin [of "ctx_put c2 q t" False s] S by (simp add: P_def)
      next
        case True
        then have k': "k' = True" by simp
        obtain ws m where w: "bn_abs_sub_part_words (bn_d a) (bn_d b) cl dl = (ws, m)" by fastforce
        obtain ts m' where w': "bn_sub_part_words (bn_d a) (bn_d b) cl dl = (ts, m')" by fastforce
        have l: "cl + nat dl = width a" "cl + nat (- dl) = width b" "cl + nat \<bar>dl\<bar> = n" by (auto simp: cl_def dl_def n_def)
        have la: "cl + nat dl \<le> length (bn_d a)" "cl + nat (- dl) \<le> length (bn_d b)" using assms(4,5) unfolding l by (simp_all add: bn_ok_def)
        have W: "words_val ws = \<bar>bn_abs a - bn_abs b\<bar>" "length ws = n"
          using bn_abs_sub_part_words_ok [OF w la refl refl] unfolding l bn_abs_take by simp_all
        have "length ts = n" using bn_sub_part_words_ok [OF w' la] unfolding l by simp
        then have "bn_ok (put_words ts t)" "\<not> static_data (put_words ts t)"
          using T k' Q(3) by (simp_all add: put_words_def bn_ok_def)
        then have "ctx_after c1 (ctx_put c2 q (put_words ts t))" by (rule ctx_after_put [OF c2 Q(1)])
        moreover have "P True (put_words ws (s\<lparr>width := n\<rparr>))"
          using put_result [of s ws n] S k W words_val_less [of ws] by (simp add: P_def)
        ultimately show ?thesis unfolding e Some s k using t fin [of "ctx_put c2 q (put_words ts t)" True "put_words ws (s\<lparr>width := n\<rparr>)"] k' w w' by simp
      qed
    qed
  qed
  then show ?thesis by (simp only: P_def)
qed

end
