(* ===== verification/Bn_Props.thy ===== *)
theory Bn_Props
  imports Bn_Shift Bn_Mul_Correct Ex_Alloc
begin

text \<open>
  Properties of the big numbers: sums, products, shifts and comparisons are those of the integers, the fast
  ways to multiply vectors give the same words as the simple one, numbers survive the way through byte
  strings, and contexts of temporaries nest; and three defects.
\<close>

section \<open>Concrete numbers\<close>

definition ex_num :: "bool \<Rightarrow> BN_ULONG list \<Rightarrow> BIGNUM" where
  "ex_num s ws = \<lparr>bn_d = ws, width = length ws, neg = s, static_data = False\<rparr>"

definition ex_ctx :: BN_CTX where
  "ex_ctx = \<lparr>ctx_pool = BN_POOL_init, ctx_stack = BN_STACK_init, ctx_used = 0, err_stack = 0, too_many = False\<rparr>"

lemma ex_num_simps [simp]: "width (ex_num s ws) = length ws" "neg (ex_num s ws) = s" "\<not> static_data (ex_num s ws)"
  "bn_abs (ex_num s ws) = words_val ws" "bn_val (ex_num s ws) = (if s then - words_val ws else words_val ws)"
  by (simp_all add: ex_num_def bn_abs_def bn_val_def bn_words_def)

lemma ex_num_ok: "length ws \<le> bn_max_words \<Longrightarrow> bn_ok (ex_num s ws)"
  by (simp add: ex_num_def bn_ok_def)

lemma ex_num_signed: "length ws \<le> bn_max_words \<Longrightarrow> words_val ws \<noteq> 0 \<Longrightarrow> bn_signed (ex_num s ws)"
  by (simp add: bn_signed_def ex_num_ok)

lemma BN_init_ok: "bn_ok BN_init" "\<not> static_data BN_init" "\<not> neg BN_init"
  by (simp_all add: BN_init_def bn_ok_def)

lemma ex_ctx_ok: "ctx_ok ex_ctx" "frames ex_ctx = []" "\<not> blocked ex_ctx" "ctx_used ex_ctx = 0"
  by (simp_all add: ex_ctx_def ctx_ok_def stack_ok_def frames_def BN_STACK_init_def pool_ok_init blocked_def)
    (simp_all add: BN_POOL_init_def)

lemma ex_alloc_all: "mem_for_all (\<lambda>_. ex_alloc)"
  by (simp add: mem_for_all_def ex_alloc_def)

lemma pow2_16: "\<exists>m. 16 = (2 :: nat) ^ m" "\<exists>m. (2 :: nat) ^ m = 16"
  by (rule exI [of _ 4], simp)+

section \<open>Arithmetic\<close>

text \<open>C7. Multiplication: given memory and at most half a million words, \<open>BN_mul\<close> returns, whichever algorithm it
  chooses and whether or not the result is one of its inputs; the result is the product of the two integers with
  its sign, without leading zeros and without a negative zero, and the context has the temporaries and frames it
  had before.\<close>

theorem bn_mul_exact:
  assumes "mem_for_all As" and "ctx_ok ctx" and "length (frames ctx) < 2 ^ 30" and "\<not> blocked ctx"
    and "bn_ok r" and "\<not> static_data r" and "bn_ok a" and "bn_ok b" and "width a \<le> 524288" and "width b \<le> 524288"
  shows "\<exists>r' ctx'. BN_mul As alias r a b ctx = Some (True, r', ctx') \<and> bn_minimal r' \<and> bn_val r' = bn_val a * bn_val b
    \<and> ctx_ok ctx' \<and> frames ctx' = frames ctx \<and> ctx_used ctx' = ctx_used ctx \<and> \<not> blocked ctx'"
proof -
  obtain s mid where i: "bn_mul_impl As alias r a b ctx = Some (True, s, mid)"
    using bn_mul_impl_total [OF assms(1-4) assms(5,7,8,6,9,10)] by blast
  have "\<not> (alias \<and> fst (BN_CTX_get (As 1) (BN_CTX_start (As 0) ctx)) = None)"
    by (rule bn_mul_get_total [OF assms(1-4)])
  from BN_mul_ok [OF assms(2,3,5,7,8) this] show ?thesis
    using i assms(4) by (auto simp: ctx_result_def BN_mul_def mul_post_def ctx_after_def blocked_def)
qed

theorem bn_mul_exact_witness:
  "\<exists>r' ctx'. BN_mul (\<lambda>_. ex_alloc) False BN_init (ex_num True [7, 1]) (ex_num False [3]) ex_ctx = Some (True, r', ctx')
    \<and> bn_minimal r' \<and> bn_val r' = - 55340232221128654869
    \<and> ctx_ok ctx' \<and> frames ctx' = [] \<and> ctx_used ctx' = 0 \<and> \<not> blocked ctx'"
  using bn_mul_exact [of "\<lambda>_. ex_alloc" ex_ctx BN_init "ex_num True [7, 1]" "ex_num False [3]" False]
  by (simp add: ex_alloc_all ex_ctx_ok BN_init_ok ex_num_ok)

text \<open>C12. Addition and subtraction: for all signs and widths and whatever the result held before, \<open>BN_add\<close> and
  \<open>BN_sub\<close> succeed given memory, and give the sum and the difference of the two integers, without leading zeros and
  without a negative zero.\<close>

theorem bn_add_sub_exact:
  assumes "bn_room A r" and "bn_ok r" and "bn_signed a" and "bn_signed b" and "width a < bn_max_words" and "width b < bn_max_words"
  shows "(\<exists>r'. BN_add A r a b = (True, r') \<and> bn_minimal r' \<and> bn_val r' = bn_val a + bn_val b)
    \<and> (\<exists>r'. BN_sub A r a b = (True, r') \<and> bn_minimal r' \<and> bn_val r' = bn_val a - bn_val b)"
proof -
  have ok: "bn_ok a" "bn_ok b" using assms(3,4) by (simp_all add: bn_signed_def)
  note T = BN_add_sub_total [OF assms(1,2) ok assms(5,6)]
  obtain x y where e: "BN_add A r a b = (True, x)" "BN_sub A r a b = (True, y)"
    using T by (cases "BN_add A r a b"; cases "BN_sub A r a b") simp
  show ?thesis using e BN_add_ok [OF assms(2-4) e(1)] BN_sub_ok [OF assms(2-4) e(2)] by simp
qed

theorem bn_add_sub_exact_witness:
  "(\<exists>r'. BN_add ex_alloc BN_init (ex_num True [5]) (ex_num False [0, 1]) = (True, r') \<and> bn_minimal r' \<and> bn_val r' = 18446744073709551611)
    \<and> (\<exists>r'. BN_sub ex_alloc BN_init (ex_num True [5]) (ex_num False [0, 1]) = (True, r') \<and> bn_minimal r' \<and> bn_val r' = - 18446744073709551621)"
  using bn_add_sub_exact [of ex_alloc BN_init "ex_num True [5]" "ex_num False [0, 1]"]
  by (simp add: bn_room_def ex_alloc_def BN_init_ok ex_num_signed)

text \<open>C13. Karatsuba's recursion on vectors is an optimisation: whatever the scratch space holds, and for inputs up to
  eight words short of a power of two, it writes the very words that multiplication by rows writes, and zeros above
  them.\<close>

theorem bn_mul_recursive_is_normal:
  assumes "\<exists>m. n2 = 2 ^ m" and "na \<le> n2" and "nb \<le> n2" and "n2 \<le> na + 8" and "n2 \<le> nb + 8"
    and "na \<le> length a" and "nb \<le> length b"
  shows "fst (bn_mul_recursive a b n2 (int na - int n2) (int nb - int n2) t) = bn_mul_normal a na b nb @ replicate (2 * n2 - na - nb) 0"
proof -
  obtain r t' where r: "bn_mul_recursive a b n2 (int na - int n2) (int nb - int n2) t = (r, t')" by fastforce
  note R = bn_mul_recursive_ok [OF assms(1) _ _ _ _ _ _ _ _ r] and N = bn_mul_normal_ok [OF assms(6,7)]
  have "r = bn_mul_normal a na b nb @ replicate (2 * n2 - na - nb) 0"
    using R N assms by (intro words_val_inject) (simp_all add: words_val_append)
  then show ?thesis by (simp add: r)
qed

theorem bn_mul_recursive_is_normal_witness:
  "fst (bn_mul_recursive (replicate 16 (- 1)) (replicate 15 (- 1)) 16 (int 16 - int 16) (int 15 - int 16) []) = bn_mul_normal (replicate 16 (- 1)) 16 (replicate 15 (- 1)) 15 @ replicate (2 * 16 - 16 - 15) 0"
  using bn_mul_recursive_is_normal [of 16 16 15 "replicate 16 (- 1)" "replicate 15 (- 1)" "[]"]
  by (simp add: pow2_16)

text \<open>Sizes between two powers of two: for at least eight words, and lengths that differ by at most one,
  \<open>bn_mul_part_recursive\<close> also writes the words that multiplication by rows writes, and zeros above them.\<close>

theorem bn_mul_part_recursive_is_normal:
  assumes "\<exists>m. n = 2 ^ m" and "8 \<le> n" and "tna < n" and "tnb < n" and "tna \<le> tnb + 1" and "tnb \<le> tna + 1"
    and "n + tna \<le> length a" and "n + tnb \<le> length b"
  shows "fst (bn_mul_part_recursive r a b n tna tnb t) = bn_mul_normal a (n + tna) b (n + tnb) @ replicate (2 * n - tna - tnb) 0"
proof -
  obtain q t' where q: "bn_mul_part_recursive r a b n tna tnb t = (q, t')" by fastforce
  note R = bn_mul_part_recursive_ok [OF assms q] and N = bn_mul_normal_ok [OF assms(7,8)]
  have "q = bn_mul_normal a (n + tna) b (n + tnb) @ replicate (2 * n - tna - tnb) 0"
    using R N assms(3,4) by (intro words_val_inject) (simp_all add: words_val_append)
  then show ?thesis by (simp add: q)
qed

theorem bn_mul_part_recursive_is_normal_witness:
  "fst (bn_mul_part_recursive [] (replicate 17 (- 1)) (replicate 18 3) 16 1 2 []) = bn_mul_normal (replicate 17 (- 1)) (16 + 1) (replicate 18 3) (16 + 2) @ replicate (2 * 16 - 1 - 2) 0"
  using bn_mul_part_recursive_is_normal [of 16 1 2 "replicate 17 (- 1)" "replicate 18 3" "[]" "[]"]
  by (simp add: pow2_16)

text \<open>The recursive square writes the words of the product of the vector with itself.\<close>

theorem bn_sqr_recursive_is_product:
  assumes "\<exists>m. n = 2 ^ m" and "n \<le> length a"
  shows "fst (bn_sqr_recursive a n t) = bn_mul_normal a n a n"
proof -
  obtain r t' where r: "bn_sqr_recursive a n t = (r, t')" by fastforce
  note R = bn_sqr_recursive_ok [OF assms r] and N = bn_mul_normal_ok [OF assms(2,2)]
  have "r = bn_mul_normal a n a n" using R N by (intro words_val_inject) (simp_all add: power2_eq_square)
  then show ?thesis by (simp add: r)
qed

theorem bn_sqr_recursive_is_product_witness:
  "fst (bn_sqr_recursive (replicate 16 (- 1)) 16 []) = bn_mul_normal (replicate 16 (- 1)) 16 (replicate 16 (- 1)) 16"
  using bn_sqr_recursive_is_product [of 16 "replicate 16 (- 1)" "[]"] by (simp add: pow2_16)

section \<open>Comparison\<close>

lemma words_val_longer:
  assumes "length a \<le> length b"
  shows "words_val a = words_val b \<longleftrightarrow> a = take (length a) b \<and> (\<forall>w \<in> set (drop (length a) b). w = 0)"
proof
  assume e: "words_val a = words_val b"
  have v: "words_val b = words_val (take (length a) b) + bn_base ^ length a * words_val (drop (length a) b)" by (rule words_val_split [OF assms])
  have "words_val (drop (length a) b) = 0 \<and> words_val (take (length a) b) = words_val a"
    using no_carry [of "words_val (take (length a) b)" "bn_base ^ length a" "words_val (drop (length a) b)" "words_val a"] v e words_val_less [of a]
    by simp
  then show "a = take (length a) b \<and> (\<forall>w \<in> set (drop (length a) b). w = 0)"
    using words_val_inject [of a "take (length a) b"] assms by (simp add: words_val_eq_0)
next
  assume r: "a = take (length a) b \<and> (\<forall>w \<in> set (drop (length a) b). w = 0)"
  then have "words_val (drop (length a) b) = 0" by (simp add: words_val_eq_0)
  then show "words_val a = words_val b" using words_val_split [OF assms] r by simp
qed

lemma xor_words_eq_0: "length a = length b \<Longrightarrow> (\<forall>w \<in> set (map2 (XOR) a b). w = 0) \<longleftrightarrow> a = b" for a b :: "u64 list"
  by (induction a b rule: list_induct2) auto

lemma BN_equal_consttime_ok:
  assumes "bn_ok a" and "bn_ok b"
  shows "BN_equal_consttime a b \<longleftrightarrow> bn_abs a = bn_abs b \<and> neg a = neg b"
proof -
  define u where "u = bn_words a" define v where "v = bn_words b"
  have l: "length u = width a" "length v = width b" using assms by (simp_all add: u_def v_def)
  define m where "m = (if width a < width b then width a else width b)"
  have t: "take m (bn_d a) = take m u" "take m (bn_d b) = take m v" by (simp_all add: u_def v_def bn_words_def m_def min_def)
  have "m \<le> length u" "m \<le> length v" using l by (simp_all add: m_def)
  then have x: "(\<forall>w \<in> set (map2 (XOR) (take m u) (take m v)). w = 0) \<longleftrightarrow> take m u = take m v" by (intro xor_words_eq_0) simp
  have s: "(of_bool (neg a) XOR of_bool (neg b) :: u64) = 0 \<longleftrightarrow> neg a = neg b" by auto
  have "BN_equal_consttime a b \<longleftrightarrow> (\<forall>w \<in> set (drop (width a) v). w = 0) \<and> (\<forall>w \<in> set (drop (width b) u). w = 0)
      \<and> take m u = take m v \<and> neg a = neg b"
    unfolding BN_equal_consttime_def Let_def m_def [symmetric] t or_eq_0_iff or_words_eq_0 x s by (auto simp: u_def v_def bn_words_def)
  moreover have "bn_abs a = bn_abs b \<longleftrightarrow> words_val u = words_val v" by (simp add: bn_abs_def u_def v_def)
  ultimately show ?thesis using words_val_longer [of u v] words_val_longer [of v u] l by (auto simp: m_def split: if_splits)
qed

text \<open>Comparison: \<open>BN_cmp\<close> is the sign of the difference of the two integers for all widths (leading zeros
  included), a null pointer is greater than any number, and \<open>BN_equal_consttime\<close>, which does not branch on the words,
  decides equality.\<close>

theorem bn_cmp_orders:
  assumes "bn_signed a" and "bn_signed b"
  shows "BN_cmp (Some a) (Some b) = sgn (bn_val a - bn_val b) \<and> BN_cmp (Some a) None = - 1 \<and> BN_cmp None (Some b) = 1
    \<and> (BN_equal_consttime a b \<longleftrightarrow> bn_val a = bn_val b)"
proof -
  have "bn_val a = bn_val b \<longleftrightarrow> bn_abs a = bn_abs b \<and> neg a = neg b"
    using assms bn_abs_nonneg [of a] bn_abs_nonneg [of b] by (auto simp: bn_signed_def bn_val_def simp del: bn_abs_nonneg)
  then show ?thesis using assms BN_cmp_ok [of a b] BN_equal_consttime_ok [of a b] by (simp add: bn_signed_def BN_cmp_def)
qed

theorem bn_cmp_orders_witness:
  "BN_cmp (Some (ex_num True [1, 2])) (Some (ex_num False [7, 0, 0])) = - 1 \<and> BN_cmp (Some (ex_num True [1, 2])) None = - 1
    \<and> BN_cmp None (Some (ex_num False [7, 0, 0])) = 1 \<and> \<not> BN_equal_consttime (ex_num True [1, 2]) (ex_num False [7, 0, 0])"
  using bn_cmp_orders [of "ex_num True [1, 2]" "ex_num False [7, 0, 0]"] by (simp add: ex_num_signed)

section \<open>Shifts\<close>

lemma BN_lshift_total:
  assumes "bn_room A r" and "0 \<le> n" and "width a + nat n div 64 + 1 \<le> bn_max_words"
  obtains s where "BN_lshift A r a n = (True, s)"
proof -
  have "fst (bn_wexpand A (r\<lparr>neg := neg a\<rparr>) (width a + nat n div 64 + 1))"
    using assms by (intro bn_room_wexpand) (simp_all add: bn_room_def)
  then obtain t where t: "bn_wexpand A (r\<lparr>neg := neg a\<rparr>) (width a + nat n div 64 + 1) = (True, t)"
    by (cases "bn_wexpand A (r\<lparr>neg := neg a\<rparr>) (width a + nat n div 64 + 1)") simp
  show thesis using that assms(2) t [simplified] by (simp add: BN_lshift_def Let_def)
qed

lemma BN_rshift_total:
  assumes "bn_room A r" and "bn_ok a" and "0 \<le> n"
  obtains s where "BN_rshift A r a n = (True, s)"
proof -
  have "fst (bn_wexpand A r (width a))" using assms(2) by (intro bn_room_wexpand [OF assms(1)]) (simp add: bn_ok_def)
  then obtain t where t: "bn_wexpand A r (width a) = (True, t)" by (cases "bn_wexpand A r (width a)") simp
  show thesis using that assms(3) t by (simp add: BN_rshift_def)
qed

text \<open>C32. Shifts: given memory, \<open>BN_lshift\<close> by \<open>n\<close> bits multiplies by \<open>2 ^ n\<close>, \<open>BN_rshift\<close> by \<open>n\<close> divides the
  absolute value, both without leading zeros or a negative zero, and the second undoes the first.\<close>

theorem bn_shifts:
  assumes "bn_room A r" and "bn_ok r" and "bn_ok a" and "0 \<le> n" and "width a + nat n div 64 + 1 \<le> bn_max_words"
  shows "\<exists>s t u. BN_lshift A r a n = (True, s) \<and> bn_minimal s \<and> bn_val s = bn_val a * 2 ^ nat n
    \<and> BN_rshift A r a n = (True, t) \<and> bn_minimal t \<and> bn_abs t = bn_abs a div 2 ^ nat n
    \<and> BN_rshift A r s n = (True, u) \<and> bn_minimal u \<and> bn_val u = bn_val a"
proof -
  obtain s where s: "BN_lshift A r a n = (True, s)" by (rule BN_lshift_total [OF assms(1,4,5)])
  obtain t where t: "BN_rshift A r a n = (True, t)" by (rule BN_rshift_total [OF assms(1,3,4)])
  have S: "bn_ok s" "bn_minimal s" "bn_abs s = 2 ^ nat n * bn_abs a" "neg s = (neg a \<and> bn_abs s \<noteq> 0)"
    using BN_lshift_ok [OF assms(2-4) s] by simp_all
  obtain u where u: "BN_rshift A r s n = (True, u)" by (rule BN_rshift_total [OF assms(1) S(1) assms(4)])
  have T: "bn_minimal t" "bn_abs t = bn_abs a div 2 ^ nat n" using BN_rshift_ok [OF assms(2-4) t] by simp_all
  have U: "bn_minimal u" "bn_abs u = bn_abs a" "neg u = (neg s \<and> bn_abs u \<noteq> 0)"
    using BN_rshift_ok [OF assms(2) S(1) assms(4) u] by (simp_all add: S(3))
  have "bn_val s = bn_val a * 2 ^ nat n" "bn_val u = bn_val a" using S U by (auto simp: bn_val_def)
  then show ?thesis using s t u S T U by blast
qed

theorem bn_shifts_witness:
  "\<exists>s t u. BN_lshift ex_alloc BN_init (ex_num True [5]) 65 = (True, s) \<and> bn_minimal s \<and> bn_val s = - 184467440737095516160
    \<and> BN_rshift ex_alloc BN_init (ex_num True [5]) 65 = (True, t) \<and> bn_minimal t \<and> bn_abs t = 0
    \<and> BN_rshift ex_alloc BN_init s 65 = (True, u) \<and> bn_minimal u \<and> bn_val u = - 5"
  using bn_shifts [of ex_alloc BN_init "ex_num True [5]" 65] by (simp add: bn_room_def ex_alloc_def BN_init_ok ex_num_ok)

section \<open>Byte strings\<close>

lemma BN_bin2bn_total:
  assumes "\<forall>n. A n \<noteq> None" and "length inp \<le> 67108856"
  obtains r where "BN_bin2bn A inp None = Some r"
proof (cases "inp = []")
  case True
  then show thesis using that assms(1) by (auto simp: BN_bin2bn_def BN_new_def)
next
  case False
  have "(length inp - 1) div 8 + 1 \<le> bn_max_words" using assms(2) by simp
  then have "fst (bn_wexpand A BN_init ((length inp - 1) div 8 + 1))"
    using assms(1) by (intro bn_wexpand_total) (simp add: BN_init_def)
  then obtain t where t: "bn_wexpand A BN_init ((length inp - 1) div 8 + 1) = (True, t)"
    by (cases "bn_wexpand A BN_init ((length inp - 1) div 8 + 1)") simp
  show thesis using that False assms(1) t [simplified] by (auto simp: BN_bin2bn_def BN_new_def Let_def)
qed

lemma BN_le2bn_total:
  assumes "\<forall>n. A n \<noteq> None" and "length inp \<le> 67108856"
  obtains r where "BN_le2bn A inp None = Some r"
proof (cases "inp = []")
  case True
  then show thesis using that assms(1) by (auto simp: BN_le2bn_def BN_new_def)
next
  case False
  have "(length inp - 1) div 8 + 1 \<le> bn_max_words" using assms(2) by simp
  then have "fst (bn_wexpand A BN_init ((length inp - 1) div 8 + 1))"
    using assms(1) by (intro bn_wexpand_total) (simp add: BN_init_def)
  then obtain t where t: "bn_wexpand A BN_init ((length inp - 1) div 8 + 1) = (True, t)"
    by (cases "bn_wexpand A BN_init ((length inp - 1) div 8 + 1)") simp
  show thesis using that False assms(1) t [simplified] by (auto simp: BN_le2bn_def BN_new_def Let_def)
qed

text \<open>The shortest byte string for a value.\<close>

lemma dropWhile_zeros:
  assumes "\<And>k. be_val inp < 256 ^ k \<longleftrightarrow> n \<le> k"
  shows "dropWhile (\<lambda>b. b = 0) inp = be_bytes n (be_val inp)"
proof -
  define ys where "ys = dropWhile (\<lambda>b. b = 0) inp"
  have v: "be_val ys = be_val inp"
    unfolding ys_def by (induction inp) simp_all
  have "length ys = n"
  proof (cases ys)
    case Nil
    then have "be_val inp < 256 ^ 0" using v by simp
    then show ?thesis using assms [of 0] Nil by simp
  next
    case (Cons y zs)
    have "y \<noteq> 0" using Cons by (auto simp: ys_def dropWhile_eq_Cons_conv)
    then have "1 \<le> unat y" by (simp add: unat_gt_0 Suc_le_eq)
    then have "1 * 256 ^ length zs \<le> unat y * 256 ^ length zs" by (intro mult_right_mono) simp_all
    then have "\<not> be_val ys < 256 ^ length zs" unfolding Cons be_val_Cons by linarith
    moreover have "be_val ys < 256 ^ length ys" by (rule be_val_less)
    ultimately show ?thesis using assms v Cons by (metis Suc_leI length_Cons not_less le_antisym less_Suc_eq_le)
  qed
  then show ?thesis using be_bytes_be_val [of ys] v by (simp add: ys_def)
qed

text \<open>C16. Byte strings: a number read from up to 64 MB is what the bytes denote, big-endian for \<open>BN_bin2bn\<close> and
  little-endian for \<open>BN_le2bn\<close>; the padded writers give the bytes back, \<open>BN_bn2bin\<close> gives them without leading zeros;
  and a buffer is refused exactly when the number does not fit.\<close>

theorem bn_bytes_roundtrip:
  assumes "\<forall>n. A n \<noteq> None" and "length inp \<le> 67108856"
  shows "\<exists>r s. BN_bin2bn A inp None = Some r \<and> bn_val r = int (be_val inp) \<and> BN_le2bn A inp None = Some s \<and> bn_val s = int (le_val inp)
    \<and> BN_bn2bin_padded (length inp) r = Some inp \<and> BN_bn2le_padded (length inp) s = Some inp
    \<and> BN_bn2bin r = dropWhile (\<lambda>b. b = 0) inp \<and> (BN_bn2bin_padded n r = None \<longleftrightarrow> 256 ^ n \<le> be_val inp)"
proof -
  obtain r where r: "BN_bin2bn A inp None = Some r" by (rule BN_bin2bn_total [OF assms])
  obtain s where s: "BN_le2bn A inp None = Some s" by (rule BN_le2bn_total [OF assms])
  have R: "bn_ok r" "bn_abs r = int (be_val inp)" using BN_bin2bn_ok [OF _ r] by simp_all
  have S: "bn_ok s" "bn_abs s = int (le_val inp)" "\<not> neg s" using BN_le2bn_ok [OF _ s] by simp_all
  have nr: "bn_val r = bn_abs r"
  proof (cases "inp = []")
    case True
    then show ?thesis using R by (simp add: bn_val_def)
  next
    case False
    then show ?thesis using BN_bin2bn_ok [OF _ r] by (simp add: bn_val_def)
  qed
  have "be_val inp < 256 ^ length inp" "le_val inp < 256 ^ length inp" by (rule be_val_less, rule le_val_less)
  then have p: "BN_bn2bin_padded (length inp) r = Some inp" "BN_bn2le_padded (length inp) s = Some inp"
    using BN_bn2bin_padded_ok [OF R(1)] BN_bn2le_padded_ok [OF S(1)] by (simp_all add: R(2) S(2) le_bytes_le_val)
  have "be_val inp < 256 ^ k \<longleftrightarrow> BN_num_bytes r \<le> k" for k using BN_num_bytes_ok [OF R(1), of k] by (simp add: R(2))
  then have "dropWhile (\<lambda>b. b = 0) inp = be_bytes (BN_num_bytes r) (be_val inp)" by (rule dropWhile_zeros)
  then have "BN_bn2bin r = dropWhile (\<lambda>b. b = 0) inp" by (simp add: BN_bn2bin_ok [OF R(1)] R(2))
  moreover have "BN_bn2bin_padded n r = None \<longleftrightarrow> 256 ^ n \<le> be_val inp"
    using BN_bn2bin_padded_ok [OF R(1)] by (simp add: R(2) not_less)
  ultimately show ?thesis using r s nr R S p by (auto simp: bn_val_def)
qed

theorem bn_bytes_roundtrip_witness:
  "\<exists>r s. BN_bin2bn ex_alloc [0, 1, 2] None = Some r \<and> bn_val r = 258 \<and> BN_le2bn ex_alloc [0, 1, 2] None = Some s \<and> bn_val s = 131328
    \<and> BN_bn2bin_padded 3 r = Some [0, 1, 2] \<and> BN_bn2le_padded 3 s = Some [0, 1, 2]
    \<and> BN_bn2bin r = [1, 2] \<and> BN_bn2bin_padded 1 r = None"
  using bn_bytes_roundtrip [of ex_alloc "[0, 1, 2]" 1] by (simp add: ex_alloc_def numeral_3_eq_3)

section \<open>Temporaries\<close>

text \<open>C25. Frames nest: whatever a caller does between \<open>BN_CTX_start\<close> and the matching \<open>BN_CTX_end\<close> (taking
  temporaries, opening and closing further frames, with any outcome of the allocations) no \<open>BN_CTX_end\<close> reads below
  the bottom of the stack, and afterwards the context has the frames, the number of temporaries in use and the error
  state it had before.\<close>

theorem bn_ctx_frames_nest:
  assumes "framed body" and "ctx_ok ctx" and "length (frames ctx) + length body + 1 < 2 ^ 30"
  shows "\<exists>ctx'. ctx_run (Start A # body @ [End]) ctx = Some ctx' \<and> ctx_ok ctx' \<and> frames ctx' = frames ctx
    \<and> ctx_used ctx' = ctx_used ctx \<and> err_stack ctx' = err_stack ctx \<and> too_many ctx' = too_many ctx"
proof -
  have d: "stack_depth (ctx_stack ctx) < 2 ^ 30" using assms(3) length_frames [OF assms(2)] by simp
  note S = BN_CTX_start_ok [OF assms(2) d, of A]
  have "length (frames (BN_CTX_start A ctx)) \<le> length (frames ctx) + 1" using S by auto
  then have "length (frames (BN_CTX_start A ctx)) + length body < 2 ^ 30" using assms(3) by simp
  then obtain mid where m: "ctx_run body (BN_CTX_start A ctx) = Some mid" "ctx_after (BN_CTX_start A ctx) mid"
    using framed_ok [OF assms(1)] S by blast
  from frame_ok [OF assms(2) d m(2)] show ?thesis using m(1) by (auto simp: ctx_run_append ctx_after_def)
qed

theorem bn_ctx_frames_nest_witness:
  "\<exists>ctx'. ctx_run (Start ex_alloc # (Get ex_alloc # Start no_alloc # [Get ex_alloc] @ End # [Get no_alloc]) @ [End]) ex_ctx = Some ctx'
    \<and> ctx_ok ctx' \<and> frames ctx' = frames ex_ctx \<and> ctx_used ctx' = 0 \<and> err_stack ctx' = 0 \<and> \<not> too_many ctx'"
  using bn_ctx_frames_nest [OF framed_get [OF framed_frame [OF framed_get [OF framed_nil] framed_get [OF framed_nil]]], of ex_ctx]
  by (simp add: ex_ctx_ok) (simp add: ex_ctx_def)

section \<open>Adding a word\<close>

text \<open>C26. \<open>BN_add_word\<close> and \<open>BN_sub_word\<close> call one another when the number is negative; they always return, and when
  they succeed the value is the sum or the difference, with no negative zero.\<close>

theorem bn_word_arith_returns:
  assumes "bn_signed a"
  shows "(\<exists>ret r. BN_add_word A a w = Some (ret, r) \<and> bn_ok r \<and> (ret \<longrightarrow> bn_signed r \<and> bn_val r = bn_val a + uint w))
    \<and> (\<exists>ret r. BN_sub_word A a w = Some (ret, r) \<and> bn_ok r \<and> (ret \<longrightarrow> bn_signed r \<and> bn_val r = bn_val a - uint w))"
  using BN_add_word_ok [OF assms] BN_sub_word_ok [OF assms] by blast

theorem bn_word_arith_returns_witness:
  "(\<exists>ret r. BN_add_word ex_alloc (ex_num True [3]) 5 = Some (ret, r) \<and> bn_ok r)
    \<and> (\<exists>ret r. BN_sub_word ex_alloc (ex_num True [3]) 5 = Some (ret, r) \<and> bn_ok r)"
  using bn_word_arith_returns [of "ex_num True [3]" ex_alloc 5] by (auto simp: ex_num_signed)

section \<open>Defects\<close>

definition ex_no_pool :: "nat \<Rightarrow> alloc" where
  "ex_no_pool k = (if k = 1 then no_alloc else ex_alloc)"

text \<open>A null pointer: when the result of \<open>bn_mul_impl\<close> is one of its inputs, the number that receives the product is a
  temporary; the code tests \<open>r\<close> instead of it, and a failed allocation is followed through the null pointer.
  \<open>bn_sqr_consttime\<close>, in the same situation, returns a failure.\<close>

theorem bn_mul_null_temporary:
  "BN_mul ex_no_pool True (ex_num False [2]) (ex_num False [2]) (ex_num False [3]) ex_ctx = None
    \<and> (\<exists>r ctx. BN_sqr ex_no_pool True (ex_num False [2]) (ex_num False [2]) ex_ctx = Some (False, r, ctx))"
proof -
  define c where "c = BN_CTX_start (ex_no_pool 0) ex_ctx"
  have d: "stack_depth (ctx_stack ex_ctx) < 2 ^ 30" by (simp add: ex_ctx_def BN_STACK_init_def)
  have c: "\<not> blocked c" "ctx_pool c = BN_POOL_init"
    using BN_CTX_start_total [OF ex_ctx_ok(3), of "ex_no_pool 0"] BN_CTX_start_ok [OF ex_ctx_ok(1) d, of "ex_no_pool 0"]
    by (simp_all add: c_def ex_no_pool_def ex_alloc_def) (simp add: ex_ctx_def)
  have g: "BN_CTX_get (ex_no_pool 1) c = (None, c\<lparr>too_many := True\<rparr>)"
    using c by (simp add: BN_CTX_get_def blocked_def BN_POOL_get_def BN_POOL_init_def ex_no_pool_def no_alloc_def)
  have "bn_mul_impl ex_no_pool True (ex_num False [2]) (ex_num False [2]) (ex_num False [3]) ex_ctx = None"
    unfolding bn_mul_impl_def Let_def c_def [symmetric] g by simp
  moreover have "BN_CTX_get (ex_no_pool 2) (c\<lparr>too_many := True\<rparr>) = (None, c\<lparr>too_many := True\<rparr>)" by (simp add: BN_CTX_get_def)
  then have "bn_sqr_consttime ex_no_pool True (ex_num False [2]) (ex_num False [2]) ex_ctx
      = map_option (\<lambda>ctx. (False, ex_num False [2], ctx)) (BN_CTX_end (c\<lparr>too_many := True\<rparr>))"
    unfolding bn_sqr_consttime_def Let_def c_def [symmetric] by (simp add: g [simplified])
  moreover have "BN_CTX_end (c\<lparr>too_many := True\<rparr>) \<noteq> None"
  proof -
    have "ctx_after c (c\<lparr>too_many := True\<rparr>)"
      using ctx_after_get [OF _ g] ctx_start_ok [OF ex_ctx_ok(1), of "ex_no_pool 0"] by (simp add: ex_ctx_ok flip: c_def)
    then show ?thesis using frame_ok [OF ex_ctx_ok(1) d] by (auto simp: c_def)
  qed
  ultimately show ?thesis by (auto simp: BN_mul_def BN_sqr_def)
qed

text \<open>For less than eight words \<open>bn_mul_part_recursive\<close> clears as many bytes as it should clear words: of a result with room
  for sixteen words, eight hold the product, one is cleared and seven keep what they held.\<close>

theorem bn_mul_part_recursive_clears_bytes:
  "words_val (fst (bn_mul_part_recursive (replicate 16 7) [1, 0, 0, 0] [1, 0, 0, 0] 4 0 0 [])) \<noteq> words_val [1, 0, 0, 0] * words_val [1, 0, 0, 0]"
  by code_simp

text \<open>\<open>BN_uadd\<close> does not set the sign of the result, so that the sum of two numbers that are not negative is negative
  when the result was.\<close>

theorem bn_uadd_keeps_sign:
  assumes "bn_ok r" and "neg r" and "bn_ok a" and "bn_ok b" and "bn_abs a + bn_abs b \<noteq> 0" and "BN_uadd A r a b = (True, r')"
  shows "bn_val r' = - (bn_abs a + bn_abs b)"
  using BN_uadd_ok [OF assms(1,3,4,6)] assms(2,5) by (simp add: bn_val_def)

text \<open>\<open>bn_rshift_secret_shift\<close> only looks at the bits of \<open>n\<close> below the length of the number of bits of \<open>a\<close>: by 128
  bits, 1 is shifted to 1.\<close>

theorem bn_secret_shift_wraps:
  assumes "bn_ok r" and "bn_ok tmp" and "bn_rshift_secret_shift A (Some tmp) r (ex_num False [1]) 128 = (True, r')"
    and "BN_rshift A r (ex_num False [1]) 128 = (True, s)"
  shows "bn_abs r' = 1 \<and> bn_abs s = 0"
proof -
  have "bit_len 64 = 7" by (rule bit_len_unique) simp_all
  then show ?thesis using bn_rshift_secret_shift_ok [OF assms(1) ex_num_ok assms(2,3)] BN_rshift_ok [OF assms(1) ex_num_ok _ assms(4)] by simp
qed

end
