(* ===== verification/Md32.thy ===== *)
theory Md32
  imports Mem
begin

text \<open>
  The collector of the 32-bit message digests, \<open>crypto/fipsmodule/digest/md32_common.h\<close>: it cuts the
  input into blocks of 64 bytes for a block function, and pads the end. The macros a digest defines
  before it includes the header are arguments here: the block function, the byte order, and
  \<open>HASH_MAKE_STRING\<close>, which is \<open>None\<close> where it returns 0. At the end, the specification that all the
  digests share (a padded message, folded block by block), the contract \<open>streaming_hash\<close> their users
  rely on, and the proof that the collector meets it.
\<close>

section \<open>The code\<close>

record HASH_CTX =
  hash_h :: "u32 list"
  hash_Nl :: u32
  hash_Nh :: u32
  hash_data :: bytes
  hash_num :: nat
  hash_md_len :: nat

abbreviation (input) HASH_CBLOCK :: nat where "HASH_CBLOCK \<equiv> 64"

datatype data_order = DATA_ORDER_IS_BIG_ENDIAN | DATA_ORDER_IS_LITTLE_ENDIAN

definition HOST_c2l :: "data_order \<Rightarrow> bytes \<Rightarrow> u32" where
  "HOST_c2l order c =
     (case order of
        DATA_ORDER_IS_BIG_ENDIAN \<Rightarrow>
          push_bit 24 (ucast (c ! 0)) OR push_bit 16 (ucast (c ! 1))
            OR push_bit 8 (ucast (c ! 2)) OR ucast (c ! 3)
      | DATA_ORDER_IS_LITTLE_ENDIAN \<Rightarrow>
          ucast (c ! 0) OR push_bit 8 (ucast (c ! 1))
            OR push_bit 16 (ucast (c ! 2)) OR push_bit 24 (ucast (c ! 3)))"

definition HOST_l2c :: "data_order \<Rightarrow> u32 \<Rightarrow> bytes" where
  "HOST_l2c order l =
     (case order of
        DATA_ORDER_IS_BIG_ENDIAN \<Rightarrow>
          [ucast (drop_bit 24 l AND 0xff), ucast (drop_bit 16 l AND 0xff),
           ucast (drop_bit 8 l AND 0xff), ucast (l AND 0xff)]
      | DATA_ORDER_IS_LITTLE_ENDIAN \<Rightarrow>
          [ucast (l AND 0xff), ucast (drop_bit 8 l AND 0xff),
           ucast (drop_bit 16 l AND 0xff), ucast (drop_bit 24 l AND 0xff)])"

text \<open>A block function takes the state, the data and the number of blocks there.\<close>

type_synonym block_fn = "u32 list \<Rightarrow> bytes \<Rightarrow> nat \<Rightarrow> u32 list"

text \<open>The count of bits, \<open>Nh\<close> and \<open>Nl\<close>, at the start of \<open>HASH_UPDATE\<close>.\<close>

definition hash_count :: "HASH_CTX \<Rightarrow> nat \<Rightarrow> HASH_CTX" where
  "hash_count c len =
     (let l = hash_Nl c + push_bit 3 (of_nat len);
          c = (if l < hash_Nl c then c\<lparr>hash_Nh := hash_Nh c + 1\<rparr> else c)
      in c\<lparr>hash_Nh := hash_Nh c + of_nat (len div 2 ^ 29), hash_Nl := l\<rparr>)"

text \<open>The whole blocks of the input, and the rest of it.\<close>

definition hash_tail :: "block_fn \<Rightarrow> HASH_CTX \<Rightarrow> bytes \<Rightarrow> HASH_CTX" where
  "hash_tail block c d =
     (let n = length d div HASH_CBLOCK;
          c = (if 0 < n then c\<lparr>hash_h := block (hash_h c) d n\<rparr> else c);
          d = (if 0 < n then drop (n * HASH_CBLOCK) d else d)
      in if length d \<noteq> 0
         then c\<lparr>hash_num := length d, hash_data := mem_write (hash_data c) 0 d\<rparr>
         else c)"

definition HASH_UPDATE :: "block_fn \<Rightarrow> HASH_CTX \<Rightarrow> bytes \<Rightarrow> HASH_CTX" where
  "HASH_UPDATE block c d =
     (let len = length d in
      if len = 0 then c
      else
        (let c = hash_count c len;
             n = hash_num c
         in if n \<noteq> 0
            then
              if HASH_CBLOCK \<le> len \<or> HASH_CBLOCK \<le> size_add len n
              then
                (let buf = mem_write (hash_data c) n (take (HASH_CBLOCK - n) d);
                     c = c\<lparr>hash_h := block (hash_h c) buf 1, hash_num := 0,
                           hash_data := replicate HASH_CBLOCK 0\<rparr>
                 in hash_tail block c (drop (HASH_CBLOCK - n) d))
              else c\<lparr>hash_data := mem_write (hash_data c) n d, hash_num := n + len\<rparr>
            else hash_tail block c d))"

definition HASH_TRANSFORM :: "block_fn \<Rightarrow> HASH_CTX \<Rightarrow> bytes \<Rightarrow> HASH_CTX" where
  "HASH_TRANSFORM block c d = c\<lparr>hash_h := block (hash_h c) d 1\<rparr>"

text \<open>\<open>HASH_FINAL\<close>: \<open>None\<close> if the assertion \<open>n < HASH_CBLOCK\<close> fails, otherwise the context as it is left and
  the digest (or \<open>None\<close> for the result 0).\<close>

definition HASH_FINAL ::
  "block_fn \<Rightarrow> data_order \<Rightarrow> (HASH_CTX \<Rightarrow> bytes option) \<Rightarrow> HASH_CTX \<Rightarrow> (HASH_CTX \<times> bytes option) option"
where
  "HASH_FINAL block order make_string c =
     (let n = hash_num c in
      if \<not> n < HASH_CBLOCK then None
      else
        (let buf = (hash_data c)[n := 0x80];
             n = n + 1;
             (n, h, buf) =
               (if HASH_CBLOCK - 8 < n
                then (let buf = mem_write buf n (replicate (HASH_CBLOCK - n) 0)
                      in (0, block (hash_h c) buf 1, buf))
                else (n, hash_h c, buf));
             buf = mem_write buf n (replicate (HASH_CBLOCK - 8 - n) 0);
             buf = mem_write buf (HASH_CBLOCK - 8)
                     (case order of
                        DATA_ORDER_IS_BIG_ENDIAN \<Rightarrow>
                          HOST_l2c order (hash_Nh c) @ HOST_l2c order (hash_Nl c)
                      | DATA_ORDER_IS_LITTLE_ENDIAN \<Rightarrow>
                          HOST_l2c order (hash_Nl c) @ HOST_l2c order (hash_Nh c));
             c = c\<lparr>hash_h := block h buf 1, hash_num := 0, hash_data := replicate HASH_CBLOCK 0\<rparr>
         in Some (c, make_string c)))"

section \<open>What a digest is\<close>

text \<open>The blocks of \<open>b\<close> bytes of a message; an incomplete block at the end is left out.\<close>

function chunks :: "nat \<Rightarrow> bytes \<Rightarrow> bytes list" where
  "chunks b xs = (if b = 0 \<or> length xs < b then [] else take b xs # chunks b (drop b xs))"
  by pat_completeness auto
termination by (relation "measure (\<lambda>(b, xs). length xs)") auto

declare chunks.simps [simp del]

text \<open>The padding of Merkle and Damgard: the bit 1, zeros, and the length field \<open>enc\<close> at the end of a
  block of \<open>b\<close> bytes.\<close>

definition md_pad :: "nat \<Rightarrow> bytes \<Rightarrow> bytes \<Rightarrow> bytes" where
  "md_pad b enc msg =
     msg @ [0x80] @ replicate ((2 * b - 1 - length enc - length msg mod b) mod b) 0 @ enc"

definition md_hash :: "nat \<Rightarrow> ('s \<Rightarrow> bytes \<Rightarrow> 's) \<Rightarrow> 's \<Rightarrow> (nat \<Rightarrow> bytes) \<Rightarrow> bytes \<Rightarrow> 's" where
  "md_hash b compress iv enc msg =
     foldl compress iv (chunks b (md_pad b (enc (8 * length msg)) msg))"

text \<open>The length in bits as eight bytes, in the order of the digest.\<close>

definition bit_length64 :: "data_order \<Rightarrow> nat \<Rightarrow> bytes" where
  "bit_length64 order n =
     (case order of
        DATA_ORDER_IS_BIG_ENDIAN \<Rightarrow> be_bytes 8 n
      | DATA_ORDER_IS_LITTLE_ENDIAN \<Rightarrow> le_bytes 8 n)"

text \<open>The contract of a digest that takes its message in pieces: \<open>repr s m\<close> says that the state \<open>s\<close> has
  taken in the message \<open>m\<close>.\<close>

locale streaming_hash =
  fixes init :: 's and update :: "'s \<Rightarrow> bytes \<Rightarrow> 's" and final :: "'s \<Rightarrow> bytes option"
    and repr :: "'s \<Rightarrow> bytes \<Rightarrow> bool" and H :: "bytes \<Rightarrow> bytes"
  assumes repr_init: "repr init []"
    and repr_update: "repr s m \<Longrightarrow> repr (update s d) (m @ d)"
    and repr_final: "repr s m \<Longrightarrow> final s = Some (H m)"
begin

lemma repr_updates: "repr s m \<Longrightarrow> repr (foldl update s ds) (m @ concat ds)"
proof (induction ds arbitrary: s m)
  case (Cons d ds)
  from Cons.IH [OF repr_update [OF Cons.prems]] show ?case by simp
qed simp

lemma digest_of_pieces: "final (foldl update init ds) = Some (H (concat ds))"
  using repr_final [OF repr_updates [OF repr_init]] by simp

end

section \<open>Blocks\<close>

lemma chunks_short: "length xs < b \<Longrightarrow> chunks b xs = []"
  by (simp add: chunks.simps)

lemma chunks_Cons: "0 < b \<Longrightarrow> length x = b \<Longrightarrow> chunks b (x @ xs) = x # chunks b xs"
  by (subst chunks.simps) simp

lemma chunks_one: "0 < b \<Longrightarrow> length x = b \<Longrightarrow> chunks b x = [x]"
  using chunks_Cons [of b x "[]"] by (simp add: chunks_short)

lemma chunks_append:
  assumes "0 < b" and "length xs mod b = 0"
  shows "chunks b (xs @ ys) = chunks b xs @ chunks b ys"
  using assms
proof (induction b xs rule: chunks.induct)
  case (1 b xs)
  show ?case
  proof (cases "length xs < b")
    case True
    with 1 have "xs = []" by (simp add: mod_if)
    with 1 show ?thesis by (simp add: chunks_short)
  next
    case False
    with 1 have IH: "chunks b (drop b xs @ ys) = chunks b (drop b xs) @ chunks b ys"
      by (simp add: le_mod_geq)
    have "chunks b (xs @ ys) = chunks b (take b xs @ drop b xs @ ys)"
      by (simp only: append.assoc [symmetric] append_take_drop_id)
    also have "\<dots> = take b xs # chunks b (drop b xs @ ys)"
      using False 1 by (intro chunks_Cons) auto
    also have "\<dots> = chunks b xs @ chunks b ys"
      using False 1 IH by (subst (2) chunks.simps) simp
    finally show ?thesis .
  qed
qed

text \<open>The tail of a message behind its last whole block.\<close>

definition tail_of :: "nat \<Rightarrow> bytes \<Rightarrow> bytes" where
  "tail_of b msg = drop (b * (length msg div b)) msg"

lemma length_tail_of [simp]: "length (tail_of b msg) = length msg mod b"
  by (simp add: tail_of_def minus_mult_div_eq_mod)

lemma tail_split: "msg = take (b * (length msg div b)) msg @ tail_of b msg"
  by (simp add: tail_of_def)

lemma chunks_take: "0 < b \<Longrightarrow> chunks b (take (b * (length msg div b)) msg) = chunks b msg"
  using chunks_append [of b "take (b * (length msg div b)) msg" "tail_of b msg"]
    tail_split [of msg b]
  by (simp add: chunks_short min_absorb2)

lemma chunks_tail:
  assumes "0 < b"
  shows "chunks b (msg @ ys) = chunks b msg @ chunks b (tail_of b msg @ ys)"
proof -
  have "chunks b (msg @ ys) = chunks b (take (b * (length msg div b)) msg @ tail_of b msg @ ys)"
    using tail_split [of msg b] by (metis append.assoc)
  also have "\<dots> = chunks b msg @ chunks b (tail_of b msg @ ys)"
    using assms by (subst chunks_append) (simp_all add: chunks_take min_absorb2)
  finally show ?thesis .
qed

lemma tail_of_append:
  assumes "0 < b"
  shows "tail_of b (msg @ d) = tail_of b (tail_of b msg @ d)"
proof -
  let ?q = "b * (length msg div b)"
  have "(length msg + length d) div b
      = (length msg div b * b + (length msg mod b + length d)) div b"
    by (simp only: add.assoc [symmetric] div_mult_mod_eq)
  also have "\<dots> = (length msg mod b + length d) div b + length msg div b"
    using assms by (subst div_mult_self3) auto
  finally have q: "b * ((length msg + length d) div b) = b * ((length msg mod b + length d) div b) + ?q"
    by (simp add: distrib_left)
  have "tail_of b (msg @ d) = drop (b * ((length msg mod b + length d) div b) + ?q) (msg @ d)"
    by (simp only: tail_of_def length_append q)
  also have "\<dots> = drop (b * ((length msg mod b + length d) div b)) (drop ?q (msg @ d))"
    by (simp only: drop_drop)
  also have "drop ?q (msg @ d) = tail_of b msg @ d"
    by (simp add: tail_of_def)
  finally show ?thesis by (simp only: tail_of_def [of b "tail_of b msg @ d"] length_append length_tail_of)
qed

lemma tail_of_short [simp]: "length msg < b \<Longrightarrow> tail_of b msg = msg"
  by (simp add: tail_of_def)

lemma tail_of_block: "0 < b \<Longrightarrow> length x = b \<Longrightarrow> tail_of b (x @ ys) = tail_of b ys"
  using tail_of_append [of b x ys] by (simp add: tail_of_def)

section \<open>The count of bits\<close>

definition bit_count :: "HASH_CTX \<Rightarrow> nat" where
  "bit_count c = unat (hash_Nh c) * 2 ^ 32 + unat (hash_Nl c)"

lemma hash_count_keeps [simp]:
  "hash_h (hash_count c n) = hash_h c" "hash_data (hash_count c n) = hash_data c"
  "hash_num (hash_count c n) = hash_num c" "hash_md_len (hash_count c n) = hash_md_len c"
  by (simp_all add: hash_count_def Let_def)

lemma unat_add_carry:
  fixes a x :: "'a::len word"
  shows "unat a + unat x = (if a + x < a then 2 ^ LENGTH('a) else 0) + unat (a + x)"
proof -
  define B :: nat where "B = 2 ^ LENGTH('a)"
  have lt: "unat a < B" "unat x < B"
    unfolding B_def by (rule unsigned_less)+
  have sum: "unat (a + x) = (unat a + unat x) mod B"
    by (simp only: unat_word_ariths B_def)
  show ?thesis
  proof (cases "unat a + unat x < B")
    case True
    then show ?thesis by (simp add: word_less_nat_alt sum)
  next
    case False
    then have "unat (a + x) = unat a + unat x - B" using lt by (simp add: sum mod_if)
    with False lt show ?thesis by (simp add: word_less_nat_alt B_def [symmetric])
  qed
qed

text \<open>A count of bits in two words, the addition of eight times a number of bytes.\<close>

lemma two_word_count:
  fixes nl nh :: "'a::len word" and len :: nat
  assumes "3 \<le> LENGTH('a)"
  defines "l \<equiv> nl + push_bit 3 (of_nat len)"
  shows "unat (nh + (if l < nl then 1 else 0) + of_nat (len div 2 ^ (LENGTH('a) - 3))) * 2 ^ LENGTH('a) + unat l
    = (unat nh * 2 ^ LENGTH('a) + unat nl + 8 * len) mod 2 ^ (2 * LENGTH('a))"
proof -
  define B :: nat where "B = 2 ^ LENGTH('a)"
  define x :: "'a word" where "x = push_bit 3 (of_nat len)"
  define q where "q = len div 2 ^ (LENGTH('a) - 3)"
  define k :: nat where "k = (if l < nl then 1 else 0)"
  have of_nat: "unat (of_nat n :: 'a word) = n mod B" for n
    by (simp add: unsigned_of_nat take_bit_eq_mod B_def)
  have x: "unat x = 8 * len mod B"
  proof -
    have "x = of_nat (8 * len)" by (simp add: x_def push_bit_eq_mult)
    then show ?thesis by (simp only: of_nat)
  qed
  have B: "B = 8 * 2 ^ (LENGTH('a) - 3)"
    using assms(1) power_add [of "2 :: nat" 3 "LENGTH('a) - 3"] by (simp add: B_def)
  have len: "8 * len = B * q + unat x"
  proof -
    have "8 * len div B = q" by (simp add: B q_def)
    then show ?thesis using mult_div_mod_eq [of B "8 * len"] by (simp only: x)
  qed
  have sum: "unat nl + unat x = B * k + unat l"
    using unat_add_carry [of nl x] by (simp add: l_def x_def k_def B_def)
  have "nh + (if l < nl then 1 else 0) + of_nat q = of_nat (unat nh + k + q)"
    by (simp add: k_def)
  then have nh: "unat (nh + (if l < nl then 1 else 0) + of_nat q) = (unat nh + k + q) mod B"
    by (simp only: of_nat)
  have "unat nh * B + unat nl + 8 * len = (unat nh + k + q) * B + unat l"
    using sum len by (simp add: algebra_simps)
  moreover have "(a * B + unat l) mod (B * B) = (a mod B) * B + unat l" for a
  proof -
    have "unat l < B" by (simp add: B_def)
    then show ?thesis using mod_mult2_eq [of "a * B + unat l" B B] by (simp add: mult.commute)
  qed
  moreover have "2 ^ (2 * LENGTH('a)) = B * B" by (simp add: B_def power_mult power2_eq_square mult.commute [of 2])
  ultimately show ?thesis by (simp only: nh q_def [symmetric] B_def [symmetric])
qed

lemma bit_count_update: "bit_count (hash_count c len) = (bit_count c + 8 * len) mod 2 ^ 64"
  using two_word_count [of "hash_Nh c" "hash_Nl c" len]
  by (auto simp: bit_count_def hash_count_def Let_def split: if_splits)

section \<open>Words and bytes\<close>

lemma low_byte [simp]: "ucast ((w :: u32) AND 0xff) = (ucast w :: u8)"
proof -
  have "ucast (w AND 0xff) = (ucast (w AND mask 8) :: u8)"
    by (simp add: mask_eq_exp_minus_1)
  also have "\<dots> = ucast w"
    by (rule bit_word_eqI) (auto simp: bit_simps)
  finally show ?thesis .
qed

lemma ucast_drop_bit_u8: "(ucast (drop_bit k w) :: u8) = of_nat (unat w div 2 ^ k)" for w :: "'a::len word"
  by (simp add: unat_drop_bit_div [symmetric])

lemma be_bytes_append:
  assumes "b < 256 ^ k"
  shows "be_bytes j a @ be_bytes k b = be_bytes (j + k) (a * 256 ^ k + b)"
proof (rule be_val_inject)
  have "(a * 256 ^ k + b) mod 256 ^ (k + j) = 256 ^ k * (a mod 256 ^ j) + b"
    using assms by (simp add: power_add mod_mult2_eq)
  with assms show "be_val (be_bytes j a @ be_bytes k b) = be_val (be_bytes (j + k) (a * 256 ^ k + b))"
    by (simp add: add.commute [of j] mult.commute)
qed simp

lemma le_bytes_append:
  assumes "a < 256 ^ j"
  shows "le_bytes j a @ le_bytes k b = le_bytes (j + k) (a + b * 256 ^ j)"
  using assms
proof (induction j arbitrary: a)
  case 0
  then show ?case by simp
next
  case (Suc j)
  then have "a div 256 < 256 ^ j" by (simp add: div_less_iff_less_mult mult.commute)
  moreover have "(a + b * 256 ^ Suc j) div 256 = a div 256 + b * 256 ^ j"
    using div_mult_self3 [of 256 "b * 256 ^ j" a] by (simp add: algebra_simps)
  moreover have "(of_nat (a + b * 256 ^ Suc j) :: u8) = of_nat a"
  proof -
    have "(256 :: u8) = 0" by simp
    then have "(of_nat (b * 256 ^ Suc j) :: u8) = 0" by (simp only: of_nat_mult of_nat_power of_nat_numeral power_Suc mult_zero_left mult_zero_right)
    then show ?thesis by (simp only: of_nat_add add_0_right)
  qed
  ultimately show ?case using Suc.IH by simp
qed

lemma be_bytes_mod: "be_bytes k (n mod 256 ^ k) = be_bytes k n"
  using be_bytes_append [of "n mod 256 ^ k" k 0 "n div 256 ^ k"] by (simp add: mod_div_mult_eq div_mult_mod_eq)

lemma le_bytes_mod: "le_bytes k (n mod 256 ^ k) = le_bytes k n"
  using le_bytes_append [of "n mod 256 ^ k" k 0 "n div 256 ^ k"] by (simp add: mod_div_mult_eq div_mult_mod_eq)

lemma HOST_l2c_bytes:
  "HOST_l2c DATA_ORDER_IS_BIG_ENDIAN l = be_bytes 4 (unat l)"
  "HOST_l2c DATA_ORDER_IS_LITTLE_ENDIAN l = le_bytes 4 (unat l)"
proof -
  have 4: "(4 :: nat) = Suc (Suc (Suc (Suc 0)))" by simp
  have be: "be_bytes 4 n = [of_nat (n div 2 ^ 24), of_nat (n div 2 ^ 16), of_nat (n div 2 ^ 8), of_nat n]" for n
    using 4 by (simp only: be_bytes.simps div_mult2_eq [symmetric]) simp
  have le: "le_bytes 4 n = [of_nat n, of_nat (n div 2 ^ 8), of_nat (n div 2 ^ 16), of_nat (n div 2 ^ 24)]" for n
    using 4 by (simp only: le_bytes.simps div_mult2_eq [symmetric]) simp
  have "ucast l = (of_nat (unat l) :: u8)" by simp
  then show "HOST_l2c DATA_ORDER_IS_BIG_ENDIAN l = be_bytes 4 (unat l)"
    "HOST_l2c DATA_ORDER_IS_LITTLE_ENDIAN l = le_bytes 4 (unat l)"
    by (simp_all only: HOST_l2c_def data_order.case low_byte ucast_drop_bit_u8 be le)
qed

lemma bit_count_bytes:
  "HOST_l2c DATA_ORDER_IS_BIG_ENDIAN (hash_Nh c) @ HOST_l2c DATA_ORDER_IS_BIG_ENDIAN (hash_Nl c)
    = bit_length64 DATA_ORDER_IS_BIG_ENDIAN (bit_count c)"
  "HOST_l2c DATA_ORDER_IS_LITTLE_ENDIAN (hash_Nl c) @ HOST_l2c DATA_ORDER_IS_LITTLE_ENDIAN (hash_Nh c)
    = bit_length64 DATA_ORDER_IS_LITTLE_ENDIAN (bit_count c)"
proof -
  have l: "unat (hash_Nl c) < 256 ^ 4"
    using unsigned_less [of "hash_Nl c", where ?'a = nat] by simp
  have p: "(256 :: nat) ^ 4 = 2 ^ 32" "(4 :: nat) + 4 = 8" by simp_all
  show "HOST_l2c DATA_ORDER_IS_BIG_ENDIAN (hash_Nh c) @ HOST_l2c DATA_ORDER_IS_BIG_ENDIAN (hash_Nl c)
      = bit_length64 DATA_ORDER_IS_BIG_ENDIAN (bit_count c)"
    by (simp only: HOST_l2c_bytes be_bytes_append [OF l] bit_length64_def bit_count_def data_order.case p)
  show "HOST_l2c DATA_ORDER_IS_LITTLE_ENDIAN (hash_Nl c) @ HOST_l2c DATA_ORDER_IS_LITTLE_ENDIAN (hash_Nh c)
      = bit_length64 DATA_ORDER_IS_LITTLE_ENDIAN (bit_count c)"
    by (simp only: HOST_l2c_bytes le_bytes_append [OF l] bit_length64_def bit_count_def data_order.case p
        add.commute)
qed

lemma HOST_c2l_value:
  assumes "length c = 4"
  shows "HOST_c2l DATA_ORDER_IS_BIG_ENDIAN c = of_nat (be_val c)"
    and "HOST_c2l DATA_ORDER_IS_LITTLE_ENDIAN c = of_nat (le_val c)"
proof -
  obtain x y z w where c: "c = [x, y, z, w]"
    using assms by (auto simp: length_Suc_conv numeral_eq_Suc)
  have "HOST_c2l DATA_ORDER_IS_BIG_ENDIAN c = foldl (\<lambda>r b. push_bit 8 r OR ucast b) 0 [x, y, z, w]"
    by (simp add: c HOST_c2l_def push_bit_or or.assoc)
  then show "HOST_c2l DATA_ORDER_IS_BIG_ENDIAN c = of_nat (be_val c)"
    by (simp add: foldl_shift_or_be_val c)
  have "HOST_c2l DATA_ORDER_IS_LITTLE_ENDIAN c = HOST_c2l DATA_ORDER_IS_BIG_ENDIAN (rev c)"
    by (simp add: c HOST_c2l_def ac_simps)
  also have "\<dots> = foldl (\<lambda>r b. push_bit 8 r OR ucast b) 0 [w, z, y, x]"
    by (simp add: c HOST_c2l_def push_bit_or or.assoc)
  finally show "HOST_c2l DATA_ORDER_IS_LITTLE_ENDIAN c = of_nat (le_val c)"
    by (simp add: foldl_shift_or_be_val c)
qed

section \<open>The collector is a streaming digest\<close>

text \<open>What a context stands for when it has taken in a message.\<close>

definition md32_repr :: "(u32 list \<Rightarrow> bytes \<Rightarrow> u32 list) \<Rightarrow> u32 list \<Rightarrow> nat \<Rightarrow> HASH_CTX \<Rightarrow> bytes \<Rightarrow> bool" where
  "md32_repr compress iv mdl c m \<longleftrightarrow>
     hash_h c = foldl compress iv (chunks 64 m) \<and> hash_num c = length m mod 64
     \<and> take (hash_num c) (hash_data c) = tail_of 64 m \<and> length (hash_data c) = 64
     \<and> bit_count c = 8 * length m mod 2 ^ 64 \<and> hash_md_len c = mdl"

text \<open>The collector relies on the block function folding a function of one block over its data.\<close>

locale md32 =
  fixes compress :: "u32 list \<Rightarrow> bytes \<Rightarrow> u32 list" and block :: block_fn
    and order :: data_order and words :: nat and iv :: "u32 list" and mdl :: nat
    and make_string :: "HASH_CTX \<Rightarrow> bytes option" and out :: "u32 list \<Rightarrow> bytes"
  assumes block_folds: "length st = words \<Longrightarrow> 0 < n \<Longrightarrow> length d = 64 * n
      \<Longrightarrow> block st (d @ rest) n = foldl compress st (chunks 64 d)"
    and compress_length: "length st = words \<Longrightarrow> length b = 64 \<Longrightarrow> length (compress st b) = words"
    and iv_length: "length iv = words"
    and make_string_out: "hash_md_len c = mdl \<Longrightarrow> length (hash_h c) = words
      \<Longrightarrow> make_string c = Some (out (hash_h c))"
begin

abbreviation "repr \<equiv> md32_repr compress iv mdl"

lemma foldl_length: "length st = words \<Longrightarrow> length (foldl compress st (chunks 64 m)) = words"
proof (induction "64 :: nat" m arbitrary: st rule: chunks.induct)
  case (1 m)
  show ?case
  proof (cases "length m < 64")
    case True
    then show ?thesis using 1 by (simp add: chunks_short)
  next
    case False
    have "chunks 64 m = take 64 m # chunks 64 (drop 64 m)"
      using False by (subst chunks.simps) simp
    with False 1 show ?thesis by (simp add: compress_length)
  qed
qed

lemma block_one: "length st = words \<Longrightarrow> length d = 64 \<Longrightarrow> block st d 1 = compress st d"
  using block_folds [of st 1 d "[]"] by (simp add: chunks_one)

lemma block_prefix:
  assumes "length st = words" and "0 < n" and "n = length d div 64"
  shows "block st d n = foldl compress st (chunks 64 d)"
proof -
  have "block st (take (64 * n) d @ drop (64 * n) d) n = foldl compress st (chunks 64 (take (64 * n) d))"
    using assms by (intro block_folds) (simp_all add: min_absorb2)
  with assms show ?thesis by (simp add: chunks_take)
qed

text \<open>Whole blocks and the rest, when nothing is left over from before.\<close>

lemma tail_repr:
  assumes c: "hash_h c = foldl compress iv (chunks 64 m)" "hash_num c = 0" "length (hash_data c) = 64"
      "hash_md_len c = mdl" "length m mod 64 = 0"
    and n: "bit_count c = 8 * length (m @ d) mod 2 ^ 64"
  shows "repr (hash_tail block c d) (m @ d)"
proof -
  have m: "tail_of 64 m = []"
    using c length_tail_of [of 64 m] by (metis length_0_conv)
  have ch: "chunks 64 (m @ d) = chunks 64 m @ chunks 64 d"
    using c by (simp add: chunks_append)
  have tl: "tail_of 64 (m @ d) = tail_of 64 d"
    using tail_of_append [of 64 m d] m by simp
  have len: "length (m @ d) mod 64 = length d mod 64"
    using c by (metis length_append mod_add_left_eq add_0)
  have st: "length (hash_h c) = words"
    using c foldl_length iv_length by simp
  define n where "n = length d div 64"
  define d' where "d' = tail_of 64 d"
  have d': "(if 0 < n then drop (n * 64) d else d) = d'"
    by (auto simp: n_def d'_def tail_of_def mult.commute)
  define h' where "h' = foldl compress (hash_h c) (chunks 64 d)"
  have h: "(if 0 < n then c\<lparr>hash_h := block (hash_h c) d n\<rparr> else c) = c\<lparr>hash_h := h'\<rparr>"
    using block_prefix [OF st, of n d] by (auto simp: n_def h'_def chunks_short)
  have ht: "hash_tail block c d = (if length d' \<noteq> 0
      then c\<lparr>hash_h := h', hash_num := length d', hash_data := mem_write (hash_data c) 0 d'\<rparr>
      else c\<lparr>hash_h := h'\<rparr>)"
    unfolding hash_tail_def Let_def n_def [symmetric] d' h by simp
  have d'_len: "length d' < 64" "length (m @ d) mod 64 = length d'" "tail_of 64 (m @ d) = d'"
    using tl len by (simp_all add: d'_def)
  show ?thesis
  proof (cases "d' = []")
    case True
    with ht have "hash_tail block c d = c\<lparr>hash_h := h'\<rparr>" by simp
    with True show ?thesis
      using assms(2-4) n ch d'_len by (simp add: md32_repr_def h'_def c(1) bit_count_def)
  next
    case False
    with ht have "hash_tail block c d
        = c\<lparr>hash_h := h', hash_num := length d', hash_data := mem_write (hash_data c) 0 d'\<rparr>" by simp
    then show ?thesis
      using assms(2-4) n ch d'_len by (simp add: md32_repr_def h'_def c(1) bit_count_def)
  qed
qed

lemma update_repr:
  assumes "repr c m"
  shows "repr (HASH_UPDATE block c d) (m @ d)"
proof (cases "d = []")
  case True
  with assms show ?thesis by (simp add: HASH_UPDATE_def)
next
  case False
  define c1 where "c1 = hash_count c (length d)"
  define n where "n = length m mod 64"
  have n: "n < 64" by (simp add: n_def)
  have c1: "hash_h c1 = foldl compress iv (chunks 64 m)" "hash_num c1 = n"
      "take n (hash_data c1) = tail_of 64 m" "length (hash_data c1) = 64" "hash_md_len c1 = mdl"
    using assms by (auto simp: c1_def md32_repr_def n_def)
  have bits: "bit_count c1 = 8 * length (m @ d) mod 2 ^ 64"
    using assms mod_add_left_eq [of "8 * length m" "2 ^ 64" "8 * length d"]
    by (simp add: c1_def bit_count_update md32_repr_def)
  have st: "length (hash_h c1) = words"
    using c1 foldl_length iv_length by simp
  have up: "HASH_UPDATE block c d =
      (if n \<noteq> 0
       then if 64 \<le> length d \<or> 64 \<le> size_add (length d) n
         then hash_tail block
           (c1\<lparr>hash_h := block (hash_h c1) (mem_write (hash_data c1) n (take (64 - n) d)) 1,
               hash_num := 0, hash_data := replicate 64 0\<rparr>) (drop (64 - n) d)
         else c1\<lparr>hash_data := mem_write (hash_data c1) n d, hash_num := n + length d\<rparr>
       else hash_tail block c1 d)"
    using False by (simp add: HASH_UPDATE_def Let_def c1_def [symmetric] c1(2))
  have room: "(64 \<le> length d \<or> 64 \<le> size_add (length d) n) = (64 \<le> length d + n)"
    using n by (cases "64 \<le> length d") simp_all
  consider (empty) "n = 0" | (fills) "n \<noteq> 0" "64 \<le> length d + n" | (fits) "n \<noteq> 0" "length d + n < 64"
    by linarith
  then show ?thesis
  proof cases
    case empty
    with c1 bits show ?thesis by (simp add: up tail_repr n_def)
  next
    case fills
    define b where "b = tail_of 64 m @ take (64 - n) d"
    define c2 where "c2 = c1\<lparr>hash_h := compress (hash_h c1) b, hash_num := 0, hash_data := replicate 64 0\<rparr>"
    have b: "mem_write (hash_data c1) n (take (64 - n) d) = b" "length b = 64"
      using fills n c1 by (simp_all add: mem_write_def b_def n_def)
    have "HASH_UPDATE block c d = hash_tail block c2 (drop (64 - n) d)"
      using fills by (simp add: up room b block_one [OF st b(2)] c2_def del: One_nat_def)
    moreover have "chunks 64 (m @ take (64 - n) d) = chunks 64 m @ [b]"
      by (subst chunks_tail) (simp_all add: b_def [symmetric] chunks_one b)
    moreover have "length (m @ take (64 - n) d) mod 64 = 0"
    proof -
      have "length (m @ take (64 - n) d) = 64 * (length m div 64) + length b"
        by (simp add: b_def)
      then show ?thesis using b by simp
    qed
    ultimately show ?thesis
      using tail_repr [of c2 "m @ take (64 - n) d" "drop (64 - n) d"] c1 bits
      by (simp add: c2_def bit_count_def)
  next
    case fits
    have len: "length (m @ d) mod 64 = n + length d"
      using fits mod_add_left_eq [of "length m" 64 "length d"] by (simp add: n_def)
    have tl: "tail_of 64 (m @ d) = tail_of 64 m @ d"
      using fits by (subst tail_of_append) (simp_all add: n_def)
    have ch: "chunks 64 (m @ d) = chunks 64 m"
      using fits by (subst chunks_tail) (simp_all add: chunks_short n_def)
    have up: "HASH_UPDATE block c d
        = c1\<lparr>hash_data := mem_write (hash_data c1) n d, hash_num := n + length d\<rparr>"
      using fits by (simp only: up room) simp
    have tk: "take (n + length d) (mem_write (hash_data c1) n d) = tail_of 64 (m @ d)"
      using n c1 by (simp add: tl)
    have "length (mem_write (hash_data c1) n d) = 64"
      using fits c1 by simp
    with c1 bits tk show ?thesis
      unfolding up md32_repr_def len ch by (simp add: bit_count_def)
  qed
qed

lemma final_repr:
  assumes "repr c m"
  shows "Option.bind (HASH_FINAL block order make_string c) snd
    = Some (out (md_hash 64 compress iv (bit_length64 order) m))"
proof -
  define n where "n = length m mod 64"
  define t where "t = tail_of 64 m"
  define enc where "enc = bit_length64 order (bit_count c)"
  have n: "n < 64" "length t = n" by (simp_all add: n_def t_def)
  have c: "hash_h c = foldl compress iv (chunks 64 m)" "hash_num c = n" "take n (hash_data c) = t"
      "length (hash_data c) = 64" "hash_md_len c = mdl"
    using assms by (auto simp: md32_repr_def n_def t_def)
  have st: "length (hash_h c) = words" using c foldl_length iv_length by simp
  have enc: "length enc = 8"
    by (simp add: enc_def bit_length64_def split: data_order.split)
  have field: "(case order of
      DATA_ORDER_IS_BIG_ENDIAN \<Rightarrow> HOST_l2c order (hash_Nh c) @ HOST_l2c order (hash_Nl c)
    | DATA_ORDER_IS_LITTLE_ENDIAN \<Rightarrow> HOST_l2c order (hash_Nl c) @ HOST_l2c order (hash_Nh c)) = enc"
    by (cases order) (simp_all add: enc_def bit_count_bytes)
  have enc_eq: "enc = bit_length64 order (8 * length m)"
  proof -
    have "be_bytes 8 (k mod 2 ^ 64) = be_bytes 8 k" "le_bytes 8 (k mod 2 ^ 64) = le_bytes 8 k" for k
      using be_bytes_mod [of 8 k] le_bytes_mod [of 8 k] by simp_all
    then show ?thesis
      using assms by (simp add: enc_def md32_repr_def bit_length64_def split: data_order.split)
  qed
  define buf where "buf = (hash_data c)[n := 0x80]"
  have buf: "length buf = 64" "take (n + 1) buf = t @ [0x80]"
    using n c by (simp_all add: buf_def take_Suc_conv_app_nth)
  define z where "z = (2 * 64 - 1 - 8 - n) mod (64 :: nat)"
  define X where "X = foldl compress (hash_h c) (chunks 64 (t @ [0x80] @ replicate z 0 @ enc))"
  have spec: "md_hash 64 compress iv (bit_length64 order) m = X"
    unfolding md_hash_def md_pad_def enc_eq [symmetric] enc X_def z_def n_def t_def
    by (subst chunks_tail) (simp_all add: c)
  have one: "make_string (c\<lparr>hash_h := h, hash_num := 0, hash_data := replicate 64 0\<rparr>) = Some (out h)"
    if "length h = words" for h
    using make_string_out that c(5) by simp
  show ?thesis
  proof (cases "56 < n + 1")
    case True
    define b1 where "b1 = t @ [0x80] @ replicate (63 - n) 0"
    define b2 where "b2 = replicate 56 0 @ enc"
    have "z = 119 - n" using True n by (simp add: z_def mod_if)
    have "replicate z (0 :: u8) = replicate (63 - n) 0 @ replicate 56 0"
      using \<open>z = 119 - n\<close> n(1) by (simp flip: replicate_add)
    then have "t @ [0x80] @ replicate z 0 @ enc = b1 @ b2" by (simp add: b1_def b2_def)
    moreover have bl: "length b1 = 64" "length b2 = 64" using n enc by (simp_all add: b1_def b2_def)
    ultimately have X: "X = compress (compress (hash_h c) b1) b2"
      by (simp add: X_def chunks_Cons chunks_one)
    have b1: "mem_write buf (n + 1) (replicate (64 - (n + 1)) 0) = b1"
      using n buf by (simp add: mem_write_def b1_def)
    have b2: "mem_write (mem_write b1 0 (replicate (56 - 0) 0)) 56 enc = b2"
      using bl enc by (simp add: mem_write_def b2_def)
    have "HASH_FINAL block order make_string c = (let
        c' = c\<lparr>hash_h := block (block (hash_h c) b1 1) b2 1, hash_num := 0, hash_data := replicate 64 0\<rparr>
        in Some (c', make_string c'))"
      unfolding HASH_FINAL_def Let_def c(2) field buf_def [symmetric]
      using True n b1 b2 by simp
    then show ?thesis
      using X bl spec st by (simp add: block_one compress_length one Let_def del: One_nat_def)
  next
    case False
    define b1 where "b1 = t @ [0x80] @ replicate (55 - n) 0 @ enc"
    have "z = 55 - n" using False n by (simp add: z_def mod_if)
    then have "t @ [0x80] @ replicate z 0 @ enc = b1" by (simp add: b1_def)
    moreover have bl: "length b1 = 64" using n enc False by (simp add: b1_def)
    ultimately have X: "X = compress (hash_h c) b1"
      by (simp only: X_def chunks_one) simp
    have b1: "mem_write (mem_write buf (n + 1) (replicate (56 - (n + 1)) 0)) 56 enc = b1"
    proof -
      have "56 - n = Suc (55 - n)" using False by simp
      then show ?thesis using n buf enc False by (simp add: mem_write_def b1_def)
    qed
    have "HASH_FINAL block order make_string c = (let
        c' = c\<lparr>hash_h := block (hash_h c) b1 1, hash_num := 0, hash_data := replicate 64 0\<rparr>
        in Some (c', make_string c'))"
      unfolding HASH_FINAL_def Let_def c(2) field buf_def [symmetric]
      using False n b1 by simp
    then show ?thesis
      using X bl spec st by (simp add: block_one compress_length one Let_def del: One_nat_def)
  qed
qed

lemma init_repr:
  "repr \<lparr>hash_h = iv, hash_Nl = 0, hash_Nh = 0, hash_data = replicate 64 0, hash_num = 0, hash_md_len = mdl\<rparr> []"
  by (simp add: md32_repr_def chunks_short bit_count_def)

end

text \<open>So the collector with any such block function meets the contract of a streaming digest.\<close>

definition md32_init :: "u32 list \<Rightarrow> nat \<Rightarrow> HASH_CTX" where
  "md32_init iv mdl =
     \<lparr>hash_h = iv, hash_Nl = 0, hash_Nh = 0, hash_data = replicate 64 0, hash_num = 0, hash_md_len = mdl\<rparr>"

sublocale md32 \<subseteq> streaming_hash "md32_init iv mdl" "HASH_UPDATE block"
  "\<lambda>c. Option.bind (HASH_FINAL block order make_string c) snd" "md32_repr compress iv mdl"
  "\<lambda>m. out (md_hash 64 compress iv (bit_length64 order) m)"
  by unfold_locales (simp_all add: md32_init_def init_repr update_repr final_repr)

end
