(* ===== verification/Unrolled.thy ===== *)
theory Unrolled
  imports Md32
begin

text \<open>
  Unrolled rounds. The block functions of the digests write every round out, each a macro whose
  arguments are the variables that play the roles of that round: \<open>ROUND(0, a, b, c, d, ...)\<close>,
  \<open>ROUND(1, h, a, b, c, ...)\<close>. Here the variables are positions of a list, a round is a function of
  the state, and the unrolled text is a list of such functions, which \<open>exec\<close> runs in order. The
  lemmas turn this into rounds on a state whose variables move instead.
\<close>

section \<open>Statements in sequence\<close>

definition exec :: "('s \<Rightarrow> 's) list \<Rightarrow> 's \<Rightarrow> 's" where
  "exec ps s = foldl (\<lambda>s p. p s) s ps"

lemma exec_Nil [simp]: "exec [] s = s"
  by (simp add: exec_def)

lemma exec_Cons [simp]: "exec (p # ps) s = exec ps (p s)"
  by (simp add: exec_def)

lemma exec_append [simp]: "exec (ps @ qs) s = exec qs (exec ps s)"
  by (simp add: exec_def)

lemma exec_keeps: "(\<And>p s. p \<in> set ps \<Longrightarrow> f (p s) = f s) \<Longrightarrow> f (exec ps s) = f s"
  by (induction ps arbitrary: s) auto

lemma exec_rounds:
  assumes "I i s" and "\<And>j s. j < m \<Longrightarrow> I (i + j) s \<Longrightarrow> I (Suc (i + j)) (exec (f j) s)"
  shows "I (i + m) (exec (concat (map f [0..<m])) s)"
  using assms by (induction m) auto

lemma upt8: "[0..<8] = [0, 1, 2, 3, 4, 5, 6, 7 :: nat]"
  by (simp add: upt_rec)

lemma upt16: "[0..<16] = [0, 1, 2, 3, 4, 5, 6, 7, 8, 9, 10, 11, 12, 13, 14, 15 :: nat]"
  by (simp add: upt_rec)

section \<open>The names of the variables\<close>

abbreviation (input) rA :: nat where "rA \<equiv> 0"
abbreviation (input) rB :: nat where "rB \<equiv> 1"
abbreviation (input) rC :: nat where "rC \<equiv> 2"
abbreviation (input) rD :: nat where "rD \<equiv> 3"
abbreviation (input) rE :: nat where "rE \<equiv> 4"
abbreviation (input) rF :: nat where "rF \<equiv> 5"
abbreviation (input) rG :: nat where "rG \<equiv> 6"
abbreviation (input) rH :: nat where "rH \<equiv> 7"

text \<open>With \<open>n\<close> variables, the one that plays role \<open>j\<close> in round \<open>t\<close>, and all of them in the order of their
  roles.\<close>

definition role :: "nat \<Rightarrow> nat \<Rightarrow> nat \<Rightarrow> nat" where
  "role n t j = (j + n - t mod n) mod n"

definition roles :: "nat \<Rightarrow> nat \<Rightarrow> 'a list \<Rightarrow> 'a list" where
  "roles n t r = map (\<lambda>j. r ! role n t j) [0..<n]"

lemma role_less [simp]: "0 < n \<Longrightarrow> role n t j < n"
  by (simp add: role_def)

lemma role_eq:
  assumes "j < n"
  shows "role n t j = (if j < t mod n then j + n - t mod n else j - t mod n)"
proof -
  define q where "q = t mod n"
  have "q < n" using assms by (simp add: q_def)
  moreover have "(j + n - q) mod n = j - q" if "\<not> j < q"
  proof -
    have "j + n - q = (j - q) + n" using that by simp
    then have "(j + n - q) mod n = (j - q) mod n" by (simp only: mod_add_self2)
    with assms show ?thesis by simp
  qed
  ultimately show ?thesis by (auto simp: role_def q_def [symmetric])
qed

lemma role_inj:
  assumes "j < n" and "k < n"
  shows "role n t j = role n t k \<longleftrightarrow> j = k"
proof -
  define q where "q = t mod n"
  have "q < n" using assms by (simp add: q_def)
  with assms show ?thesis
    unfolding role_eq [OF assms(1)] role_eq [OF assms(2)] q_def [symmetric] by auto
qed

lemma role_Suc:
  assumes "j < n"
  shows "role n (Suc t) j = role n t (if j = 0 then n - 1 else j - 1)"
proof -
  define q where "q = t mod n"
  have q: "q < n" using assms by (simp add: q_def)
  have k: "(if j = 0 then n - 1 else j - 1) < n" using assms by auto
  have "Suc t mod n = (if Suc q = n then 0 else Suc q)" by (simp add: mod_Suc q_def)
  with q assms show ?thesis
    unfolding role_eq [OF assms] role_eq [OF k] q_def [symmetric] by (cases "j = 0") auto
qed

lemma role_shift [simp]: "i mod n = 0 \<Longrightarrow> role n (i + j) k = role n j k"
  by (simp add: role_def mod_add_left_eq [of i, symmetric])

lemma role_0 [simp]: "j < n \<Longrightarrow> role n 0 j = j"
  by (simp add: role_def)

lemma roles_0 [simp]: "length r = n \<Longrightarrow> roles n 0 r = r"
  by (auto simp: roles_def intro: nth_equalityI)

lemma length_roles [simp]: "length (roles n t r) = n"
  by (simp add: roles_def)

lemma nth_role: "j < n \<Longrightarrow> r ! role n t j = roles n t r ! j"
  by (simp add: roles_def)

lemma roles_update:
  assumes "j < n" and "length r = n"
  shows "roles n t (r[role n t j := v]) = (roles n t r)[j := v]"
proof (rule nth_equalityI)
  fix k
  assume "k < length (roles n t (r[role n t j := v]))"
  then have k: "k < n" by simp
  have "role n t j < n" using assms by simp
  with assms k show "roles n t (r[role n t j := v]) ! k = (roles n t r)[j := v] ! k"
    by (auto simp: roles_def nth_list_update role_inj)
qed simp

lemma roles_Suc:
  assumes "0 < n"
  shows "roles n (Suc t) r = roles n t r ! (n - 1) # take (n - 1) (roles n t r)"
proof (rule nth_equalityI)
  fix k
  assume "k < length (roles n (Suc t) r)"
  then have "k < n" by simp
  then show "roles n (Suc t) r ! k = (roles n t r ! (n - 1) # take (n - 1) (roles n t r)) ! k"
    by (cases k) (simp_all add: roles_def role_Suc)
qed (use assms in simp)

lemma and_0f: "n AND 15 = n mod (16 :: nat)"
  using take_bit_eq_mask [of 4 n] by (simp add: take_bit_eq_mod mask_eq_exp_minus_1)

section \<open>Rotation\<close>

text \<open>The macro \<open>ROTATE\<close>, on words of 32 bits.\<close>

definition ROTATE :: "u32 \<Rightarrow> nat \<Rightarrow> u32" where
  "ROTATE a n = push_bit n a OR drop_bit (32 - n) a"

lemma ROTATE_rotl:
  assumes "0 < n" and "n < 32"
  shows "ROTATE a n = word_rotl n a"
proof (rule bit_word_eqI)
  fix k :: nat
  assume "k < LENGTH(32)"
  then have k: "k < 32" by simp
  have "(k + (32 - n)) mod 32 = (if n \<le> k then k - n else k + (32 - n))"
    using assms k by (auto simp: mod_if)
  with assms k show "bit (ROTATE a n) k = bit (word_rotl n a) k"
    by (auto simp: ROTATE_def bit_or_iff bit_push_bit_iff bit_drop_bit_eq bit_word_rotl_iff not_le
        add.commute [of "32 - n"] dest: bit_imp_le_length)
qed

lemma ROTATE_rotr: "0 < n \<Longrightarrow> n < 32 \<Longrightarrow> ROTATE x (32 - n) = word_rotr n x"
proof -
  assume n: "0 < n" "n < 32"
  then have "ROTATE x (32 - n) = word_rotl (32 - n) x" by (intro ROTATE_rotl) simp_all
  also have "\<dots> = word_rotr n x"
    using n by (intro bit_word_eqI) (simp add: bit_word_rotl_iff bit_word_rotr_iff)
  finally show ?thesis .
qed

section \<open>Words of a block and of a digest\<close>

text \<open>The sixteen words of a block.\<close>

definition words32 :: "data_order \<Rightarrow> bytes \<Rightarrow> u32 list" where
  "words32 order b = map (\<lambda>i. case order of
       DATA_ORDER_IS_BIG_ENDIAN \<Rightarrow> of_nat (be_val (take 4 (drop (4 * i) b)))
     | DATA_ORDER_IS_LITTLE_ENDIAN \<Rightarrow> of_nat (le_val (take 4 (drop (4 * i) b)))) [0..<16]"

lemma length_words32 [simp]: "length (words32 order b) = 16"
  by (simp add: words32_def)

lemma words32_nth:
  assumes "i < 16" and "length b = 64"
  shows "words32 order b ! i = HOST_c2l order (take 4 (drop (4 * i) b))"
proof -
  have "length (take 4 (drop (4 * i) b)) = 4" using assms by simp
  then show ?thesis
    using assms by (cases order) (simp_all add: words32_def HOST_c2l_value)
qed

text \<open>The digest as bytes.\<close>

definition be_words :: "u32 list \<Rightarrow> bytes" where
  "be_words ws = concat (map (\<lambda>w. be_bytes 4 (unat w)) ws)"

definition le_words :: "u32 list \<Rightarrow> bytes" where
  "le_words ws = concat (map (\<lambda>w. le_bytes 4 (unat w)) ws)"

lemma concat_words:
  "concat (map (HOST_l2c DATA_ORDER_IS_BIG_ENDIAN) ws) = be_words ws"
  "concat (map (HOST_l2c DATA_ORDER_IS_LITTLE_ENDIAN) ws) = le_words ws"
  by (simp_all add: be_words_def le_words_def HOST_l2c_bytes [abs_def])

end
