(* ===== verification/Sha2.thy ===== *)
theory Sha2
  imports Unrolled
begin

text \<open>
  What the SHA-2 files \<open>fipsmodule/sha/sha256.c\<close> and \<open>sha512.c\<close> have in common: their macros \<open>Ch\<close>, \<open>Maj\<close>
  and \<open>ROUND\<close> have the same text over words of 32 and of 64 bits, with other rotations (\<open>Sigma0\<close> ...) and
  another table \<open>K\<close>, which are a record here. Then the compression function of FIPS 180-4, with its
  message schedule, and the proof that the unrolled rounds over eight variables and sixteen words
  compute it.
\<close>

section \<open>The macros\<close>

record 'w sha2_macros =
  Sigma0 :: "'w \<Rightarrow> 'w"
  Sigma1 :: "'w \<Rightarrow> 'w"
  sigma0 :: "'w \<Rightarrow> 'w"
  sigma1 :: "'w \<Rightarrow> 'w"
  Ktab :: "'w list"

text \<open>The local variables: \<open>a\<close> to \<open>h\<close>, \<open>T1\<close>, \<open>X\<close>, and the input still to be read.\<close>

record 'w sha2_state =
  vars :: "'w list"
  T1 :: "'w"
  Xs :: "'w list"
  inp :: bytes

definition Ch :: "'a::len word \<Rightarrow> 'a word \<Rightarrow> 'a word \<Rightarrow> 'a word" where
  "Ch x y z = (x AND y) XOR (NOT x AND z)"

definition Maj :: "'a::len word \<Rightarrow> 'a word \<Rightarrow> 'a word \<Rightarrow> 'a word" where
  "Maj x y z = (x AND y) XOR (x AND z) XOR (y AND z)"

text \<open>\<open>ROUND_00_15(i, a, b, c, d, e, f, g, h)\<close>: the statements of the macro in order.\<close>

definition sha2_ROUND ::
  "'a::len word sha2_macros \<Rightarrow> nat \<Rightarrow> nat \<Rightarrow> nat \<Rightarrow> nat \<Rightarrow> nat \<Rightarrow> nat \<Rightarrow> nat \<Rightarrow> nat \<Rightarrow> nat \<Rightarrow> 'a word sha2_state \<Rightarrow> 'a word sha2_state"
where
  "sha2_ROUND M i a b c d e f g h s =
     (let r = vars s;
          t1 = T1 s + (r ! h + Sigma1 M (r ! e) + Ch (r ! e) (r ! f) (r ! g) + Ktab M ! i);
          r = r[h := Sigma0 M (r ! a) + Maj (r ! a) (r ! b) (r ! c)];
          r = r[d := r ! d + t1];
          r = r[h := r ! h + t1]
      in s\<lparr>vars := r, T1 := t1\<rparr>)"

text \<open>\<open>ROUND_16_63(i, ..., X)\<close> and \<open>ROUND_16_80(i, j, ..., X)\<close>: the word of the schedule, whose position in \<open>X\<close>
  is given by \<open>j\<close>, and the round with the constant \<open>K[i]\<close>.\<close>

definition sha2_SCHED :: "'a::len word sha2_macros \<Rightarrow> nat \<Rightarrow> 'a word sha2_state \<Rightarrow> 'a word sha2_state" where
  "sha2_SCHED M j s =
     (let X = Xs s;
          s0 = sigma0 M (X ! ((j + 1) AND 0x0f));
          s1 = sigma1 M (X ! ((j + 14) AND 0x0f));
          t1 = X ! (j AND 0x0f) + (s0 + s1 + X ! ((j + 9) AND 0x0f))
      in s\<lparr>Xs := X[j AND 0x0f := t1], T1 := t1\<rparr>)"

section \<open>FIPS 180-4\<close>

text \<open>The message schedule, one step of the compression, and the whole of it.\<close>

fun schedule :: "'a::len word sha2_macros \<Rightarrow> 'a word list \<Rightarrow> nat \<Rightarrow> 'a word" where
  "schedule M ws t =
     (if t < 16 then ws ! t
      else sigma1 M (schedule M ws (t - 2)) + schedule M ws (t - 7)
             + sigma0 M (schedule M ws (t - 15)) + schedule M ws (t - 16))"

declare schedule.simps [simp del]

definition fips_step :: "'a::len word sha2_macros \<Rightarrow> 'a word list \<Rightarrow> 'a word list \<Rightarrow> nat \<Rightarrow> 'a word list" where
  "fips_step M ws v t =
     (let T1 = v ! 7 + Sigma1 M (v ! 4) + Ch (v ! 4) (v ! 5) (v ! 6) + Ktab M ! t + schedule M ws t;
          T2 = Sigma0 M (v ! 0) + Maj (v ! 0) (v ! 1) (v ! 2)
      in [T1 + T2, v ! 0, v ! 1, v ! 2, v ! 3 + T1, v ! 4, v ! 5, v ! 6])"

definition fips_compress :: "'a::len word sha2_macros \<Rightarrow> nat \<Rightarrow> 'a word list \<Rightarrow> 'a word list \<Rightarrow> 'a word list" where
  "fips_compress M rounds ws H = map2 (+) H (foldl (fips_step M ws) H [0..<rounds])"

section \<open>The unrolled rounds compute it\<close>

definition sha2_inv :: "'a::len word sha2_macros \<Rightarrow> 'a word list \<Rightarrow> 'a word list \<Rightarrow> nat \<Rightarrow> 'a word sha2_state \<Rightarrow> bool" where
  "sha2_inv M ws H t s \<longleftrightarrow>
     length (vars s) = 8 \<and> roles 8 t (vars s) = foldl (fips_step M ws) H [0..<t] \<and> length (Xs s) = 16
     \<and> (\<forall>k. k < t \<longrightarrow> t \<le> k + 16 \<longrightarrow> Xs s ! (k mod 16) = schedule M ws k)"

lemma sha2_round:
  assumes r: "length (vars s) = 8" and v: "roles 8 t (vars s) = foldl (fips_step M ws) H [0..<t]"
    and T1: "T1 s = schedule M ws t"
  defines "s' \<equiv> sha2_ROUND M t (role 8 t 0) (role 8 t 1) (role 8 t 2) (role 8 t 3)
    (role 8 t 4) (role 8 t 5) (role 8 t 6) (role 8 t 7) s"
  shows "length (vars s') = 8" and "roles 8 (Suc t) (vars s') = foldl (fips_step M ws) H [0..<Suc t]"
    and "Xs s' = Xs s" and "inp s' = inp s"
proof -
  show l: "length (vars s') = 8" and "Xs s' = Xs s" "inp s' = inp s"
    using r by (simp_all add: s'_def sha2_ROUND_def Let_def)
  obtain a b c d e f g h where abc: "roles 8 t (vars s) = [a, b, c, d, e, f, g, h]"
    using length_roles [of 8 t "vars s"] by (auto simp: length_Suc_conv numeral_eq_Suc simp del: length_roles)
  have "roles 8 t (vars s') = (roles 8 t (vars s))
      [3 := d + (T1 s + (h + Sigma1 M e + Ch e f g + Ktab M ! t)),
       7 := Sigma0 M a + Maj a b c + (T1 s + (h + Sigma1 M e + Ch e f g + Ktab M ! t))]"
    using r by (simp add: s'_def sha2_ROUND_def Let_def nth_role roles_update abc)
  then have "roles 8 (Suc t) (vars s') = fips_step M ws (roles 8 t (vars s)) t"
    by (simp add: roles_Suc abc fips_step_def T1 ac_simps)
  then show "roles 8 (Suc t) (vars s') = foldl (fips_step M ws) H [0..<Suc t]"
    by (simp add: v)
qed

text \<open>One of the first sixteen rounds, behind the statements that load its word.\<close>

lemma sha2_load_round:
  assumes inv: "sha2_inv M ws H t s" and t: "t < 16"
    and l: "vars l = vars s" "Xs l = (Xs s)[t := ws ! t]" "T1 l = ws ! t"
  shows "sha2_inv M ws H (Suc t) (sha2_ROUND M t (role 8 t 0) (role 8 t 1) (role 8 t 2) (role 8 t 3)
    (role 8 t 4) (role 8 t 5) (role 8 t 6) (role 8 t 7) l)"
proof -
  have w: "ws ! t = schedule M ws t" using t by (simp add: schedule.simps)
  note r = sha2_round [where M = M and ws = ws and H = H and t = t and s = l]
  show ?thesis
    using inv t l w r by (auto simp: sha2_inv_def less_Suc_eq)
qed

text \<open>One of the later rounds.\<close>

lemma mod16_minus:
  assumes "16 \<le> t" and "k \<le> 16"
  shows "(t - k) mod 16 = (t + (16 - k)) mod (16 :: nat)"
proof -
  have "t + (16 - k) = (t - k) + 16" using assms by simp
  then show ?thesis by (simp only: mod_add_self2)
qed

lemma mod16_inj:
  fixes k t :: nat
  assumes "k < t" and "t < k + 16"
  shows "k mod 16 \<noteq> t mod 16"
proof
  assume "k mod 16 = t mod 16"
  then have "16 dvd t - k" using assms by (metis less_imp_le mod_eq_dvd_iff_nat)
  with assms show False by (auto dest: dvd_imp_le)
qed

lemma sha2_sched_round:
  assumes inv: "sha2_inv M ws H t s" and t: "16 \<le> t" and j: "j mod 16 = t mod 16"
  shows "sha2_inv M ws H (Suc t) (sha2_ROUND M t (role 8 t 0) (role 8 t 1) (role 8 t 2) (role 8 t 3)
    (role 8 t 4) (role 8 t 5) (role 8 t 6) (role 8 t 7) (sha2_SCHED M j s))"
proof -
  have X: "Xs s ! (k mod 16) = schedule M ws k" if "k < t" "t \<le> k + 16" for k
    using inv that by (simp add: sha2_inv_def)
  have idx: "(j + k) mod 16 = (t + k) mod 16" for k
    using j by (metis mod_add_left_eq)
  have X': "Xs s ! ((j + 1) mod 16) = schedule M ws (t - 15)" "Xs s ! ((j + 14) mod 16) = schedule M ws (t - 2)"
      "Xs s ! ((j + 9) mod 16) = schedule M ws (t - 7)" "Xs s ! (j mod 16) = schedule M ws (t - 16)"
    using X [of "t - 15"] X [of "t - 2"] X [of "t - 7"] X [of "t - 16"] t
    by (simp_all add: mod16_minus idx j del: add_Suc_right)
  define w where "w = schedule M ws t"
  have l: "sha2_SCHED M j s = s\<lparr>Xs := (Xs s)[t mod 16 := w], T1 := w\<rparr>"
  proof -
    have "w = sigma1 M (schedule M ws (t - 2)) + schedule M ws (t - 7)
        + sigma0 M (schedule M ws (t - 15)) + schedule M ws (t - 16)"
      using t by (simp add: w_def schedule.simps [of M ws t])
    then have "schedule M ws (t - 16) + (sigma0 M (schedule M ws (t - 15)) + sigma1 M (schedule M ws (t - 2))
        + schedule M ws (t - 7)) = w" by (simp add: ac_simps)
    then show ?thesis unfolding sha2_SCHED_def Let_def and_0f X' by (simp only: j)
  qed
  have new: "(Xs s)[t mod 16 := w] ! (k mod 16) = schedule M ws k" if "k < Suc t" "Suc t \<le> k + 16" for k
  proof (cases "k = t")
    case True
    with inv show ?thesis by (simp add: sha2_inv_def w_def)
  next
    case False
    with that have "k mod 16 \<noteq> t mod 16" by (intro mod16_inj) simp_all
    with that False X show ?thesis by simp
  qed
  note r = sha2_round [where M = M and ws = ws and H = H and t = t and s = "sha2_SCHED M j s"]
  show ?thesis
    using inv r new by (simp add: sha2_inv_def l w_def)
qed

text \<open>The end: the eight sums.\<close>

lemma sha2_end:
  assumes "sha2_inv M ws H n s" and "n mod 8 = 0" and "length H = 8"
  defines "r \<equiv> vars s"
  shows "[H ! 0 + r ! 0, H ! 1 + r ! 1, H ! 2 + r ! 2, H ! 3 + r ! 3,
      H ! 4 + r ! 4, H ! 5 + r ! 5, H ! 6 + r ! 6, H ! 7 + r ! 7] = fips_compress M n ws H"
proof -
  have r: "length r = 8" "roles 8 n r = foldl (fips_step M ws) H [0..<n]"
    using assms by (simp_all add: sha2_inv_def)
  moreover have "roles 8 n r = r"
  proof (rule nth_equalityI)
    fix k
    assume "k < length (roles 8 n r)"
    then show "roles 8 n r ! k = r ! k"
      using role_shift [of n 8 0 k] assms(2) nth_role [of k 8 r n] by simp
  qed (use r(1) in simp)
  ultimately have "fips_compress M n ws H = map2 (+) H r"
    by (simp add: fips_compress_def)
  also have "\<dots> = [H ! 0 + r ! 0, H ! 1 + r ! 1, H ! 2 + r ! 2, H ! 3 + r ! 3,
      H ! 4 + r ! 4, H ! 5 + r ! 5, H ! 6 + r ! 6, H ! 7 + r ! 7]"
    using assms(3) r(1) by (auto simp: length_Suc_conv numeral_eq_Suc)
  finally show ?thesis by simp
qed

lemma sha2_inv_start:
  assumes "length H = 8"
  shows "sha2_inv M ws H 0 \<lparr>vars = [H ! 0, H ! 1, H ! 2, H ! 3, H ! 4, H ! 5, H ! 6, H ! 7],
    T1 = 0, Xs = replicate 16 0, inp = d\<rparr>"
proof -
  have "[H ! 0, H ! 1, H ! 2, H ! 3, H ! 4, H ! 5, H ! 6, H ! 7] = H"
    using assms by (auto simp: length_Suc_conv numeral_eq_Suc)
  with assms show ?thesis by (simp add: sha2_inv_def)
qed

lemma length_fips_compress: "length H = 8 \<Longrightarrow> 0 < n \<Longrightarrow> length (fips_compress M n ws H) = 8"
  by (cases n) (simp_all add: fips_compress_def fips_step_def Let_def)

end
