(* ===== verification/Sha256.thy ===== *)
theory Sha256
  imports Sha2
begin

text \<open>
  SHA-224 and SHA-256, \<open>crypto/fipsmodule/sha/sha256.c\<close> without assembly: the contexts, the block
  function with its rounds written out as the code has them, and the one-shot functions. The block
  function is proved to be the compression of FIPS 180-4 (\<open>Sha_Constants\<close> has the origin of its
  constants), and with it the collector of \<open>Md32\<close> computes SHA-224 and SHA-256.
\<close>

section \<open>The code\<close>

text \<open>The suffix of the constants, kept from the table of the source: \<open>UL 0x428a2f98\<close> for \<open>0x428a2f98UL\<close>.\<close>

abbreviation (input) UL :: "u32 \<Rightarrow> u32" where "UL x \<equiv> x"

definition K256 :: "u32 list" where
  "K256 = [
    UL 0x428a2f98, UL 0x71374491, UL 0xb5c0fbcf, UL 0xe9b5dba5, UL 0x3956c25b,
    UL 0x59f111f1, UL 0x923f82a4, UL 0xab1c5ed5, UL 0xd807aa98, UL 0x12835b01,
    UL 0x243185be, UL 0x550c7dc3, UL 0x72be5d74, UL 0x80deb1fe, UL 0x9bdc06a7,
    UL 0xc19bf174, UL 0xe49b69c1, UL 0xefbe4786, UL 0x0fc19dc6, UL 0x240ca1cc,
    UL 0x2de92c6f, UL 0x4a7484aa, UL 0x5cb0a9dc, UL 0x76f988da, UL 0x983e5152,
    UL 0xa831c66d, UL 0xb00327c8, UL 0xbf597fc7, UL 0xc6e00bf3, UL 0xd5a79147,
    UL 0x06ca6351, UL 0x14292967, UL 0x27b70a85, UL 0x2e1b2138, UL 0x4d2c6dfc,
    UL 0x53380d13, UL 0x650a7354, UL 0x766a0abb, UL 0x81c2c92e, UL 0x92722c85,
    UL 0xa2bfe8a1, UL 0xa81a664b, UL 0xc24b8b70, UL 0xc76c51a3, UL 0xd192e819,
    UL 0xd6990624, UL 0xf40e3585, UL 0x106aa070, UL 0x19a4c116, UL 0x1e376c08,
    UL 0x2748774c, UL 0x34b0bcb5, UL 0x391c0cb3, UL 0x4ed8aa4a, UL 0x5b9cca4f,
    UL 0x682e6ff3, UL 0x748f82ee, UL 0x78a5636f, UL 0x84c87814, UL 0x8cc70208,
    UL 0x90befffa, UL 0xa4506ceb, UL 0xbef9a3f7, UL 0xc67178f2]"

definition sha256_macros :: "u32 sha2_macros" where
  "sha256_macros =
     \<lparr>Sigma0 = (\<lambda>x. ROTATE x 30 XOR ROTATE x 19 XOR ROTATE x 10),
      Sigma1 = (\<lambda>x. ROTATE x 26 XOR ROTATE x 21 XOR ROTATE x 7),
      sigma0 = (\<lambda>x. ROTATE x 25 XOR ROTATE x 14 XOR drop_bit 3 x),
      sigma1 = (\<lambda>x. ROTATE x 15 XOR ROTATE x 13 XOR drop_bit 10 x),
      Ktab = K256\<rparr>"

definition SHA224_Init :: HASH_CTX where
  "SHA224_Init = \<lparr>hash_h = [0xc1059ed8, 0x367cd507, 0x3070dd17, 0xf70e5939, 0xffc00b31, 0x68581511, 0x64f98fa7, 0xbefa4fa4],
     hash_Nl = 0, hash_Nh = 0, hash_data = replicate 64 0, hash_num = 0, hash_md_len = 28\<rparr>"

definition SHA256_Init :: HASH_CTX where
  "SHA256_Init = \<lparr>hash_h = [0x6a09e667, 0xbb67ae85, 0x3c6ef372, 0xa54ff53a, 0x510e527f, 0x9b05688c, 0x1f83d9ab, 0x5be0cd19],
     hash_Nl = 0, hash_Nh = 0, hash_data = replicate 64 0, hash_num = 0, hash_md_len = 32\<rparr>"

text \<open>\<open>HASH_MAKE_STRING\<close>: as many words of the state as \<open>md_len\<close> says.\<close>

definition sha256_make_string :: "HASH_CTX \<Rightarrow> bytes option" where
  "sha256_make_string c =
     (if hash_md_len c = 28 then Some (concat (map (HOST_l2c DATA_ORDER_IS_BIG_ENDIAN) (take 7 (hash_h c))))
      else if hash_md_len c = 32 then Some (concat (map (HOST_l2c DATA_ORDER_IS_BIG_ENDIAN) (take 8 (hash_h c))))
      else if 32 < hash_md_len c then None
      else Some (concat (map (HOST_l2c DATA_ORDER_IS_BIG_ENDIAN) (take (hash_md_len c div 4) (hash_h c)))))"

text \<open>\<open>HOST_c2l(data, l); T1 = X[i] = l\<close>, and the two macros for rounds.\<close>

definition sha256_LOAD :: "nat \<Rightarrow> u32 sha2_state \<Rightarrow> u32 sha2_state" where
  "sha256_LOAD i s =
     (let l = HOST_c2l DATA_ORDER_IS_BIG_ENDIAN (take 4 (inp s))
      in s\<lparr>Xs := (Xs s)[i := l], T1 := l, inp := drop 4 (inp s)\<rparr>)"

definition ROUND_00_15 :: "nat \<Rightarrow> nat \<Rightarrow> nat \<Rightarrow> nat \<Rightarrow> nat \<Rightarrow> nat \<Rightarrow> nat \<Rightarrow> nat \<Rightarrow> nat \<Rightarrow> u32 sha2_state \<Rightarrow> u32 sha2_state" where
  "ROUND_00_15 = sha2_ROUND sha256_macros"

definition ROUND_16_63 :: "nat \<Rightarrow> nat \<Rightarrow> nat \<Rightarrow> nat \<Rightarrow> nat \<Rightarrow> nat \<Rightarrow> nat \<Rightarrow> nat \<Rightarrow> nat \<Rightarrow> u32 sha2_state \<Rightarrow> u32 sha2_state" where
  "ROUND_16_63 i a b c d e f g h s = ROUND_00_15 i a b c d e f g h (sha2_SCHED sha256_macros i s)"

definition sha256_first :: "(u32 sha2_state \<Rightarrow> u32 sha2_state) list" where
  "sha256_first =
    [sha256_LOAD 0, ROUND_00_15 0 rA rB rC rD rE rF rG rH,
     sha256_LOAD 1, ROUND_00_15 1 rH rA rB rC rD rE rF rG,
     sha256_LOAD 2, ROUND_00_15 2 rG rH rA rB rC rD rE rF,
     sha256_LOAD 3, ROUND_00_15 3 rF rG rH rA rB rC rD rE,
     sha256_LOAD 4, ROUND_00_15 4 rE rF rG rH rA rB rC rD,
     sha256_LOAD 5, ROUND_00_15 5 rD rE rF rG rH rA rB rC,
     sha256_LOAD 6, ROUND_00_15 6 rC rD rE rF rG rH rA rB,
     sha256_LOAD 7, ROUND_00_15 7 rB rC rD rE rF rG rH rA,
     sha256_LOAD 8, ROUND_00_15 8 rA rB rC rD rE rF rG rH,
     sha256_LOAD 9, ROUND_00_15 9 rH rA rB rC rD rE rF rG,
     sha256_LOAD 10, ROUND_00_15 10 rG rH rA rB rC rD rE rF,
     sha256_LOAD 11, ROUND_00_15 11 rF rG rH rA rB rC rD rE,
     sha256_LOAD 12, ROUND_00_15 12 rE rF rG rH rA rB rC rD,
     sha256_LOAD 13, ROUND_00_15 13 rD rE rF rG rH rA rB rC,
     sha256_LOAD 14, ROUND_00_15 14 rC rD rE rF rG rH rA rB,
     sha256_LOAD 15, ROUND_00_15 15 rB rC rD rE rF rG rH rA]"

definition sha256_eight :: "nat \<Rightarrow> (u32 sha2_state \<Rightarrow> u32 sha2_state) list" where
  "sha256_eight i =
    [ROUND_16_63 (i + 0) rA rB rC rD rE rF rG rH, ROUND_16_63 (i + 1) rH rA rB rC rD rE rF rG,
     ROUND_16_63 (i + 2) rG rH rA rB rC rD rE rF, ROUND_16_63 (i + 3) rF rG rH rA rB rC rD rE,
     ROUND_16_63 (i + 4) rE rF rG rH rA rB rC rD, ROUND_16_63 (i + 5) rD rE rF rG rH rA rB rC,
     ROUND_16_63 (i + 6) rC rD rE rF rG rH rA rB, ROUND_16_63 (i + 7) rB rC rD rE rF rG rH rA]"

text \<open>\<open>for (i = 16; i < 64; i += 8)\<close>.\<close>

function sha256_loop :: "nat \<Rightarrow> u32 sha2_state \<Rightarrow> u32 sha2_state" where
  "sha256_loop i s = (if i < 64 then sha256_loop (i + 8) (exec (sha256_eight i) s) else s)"
  by pat_completeness auto
termination by (relation "measure (\<lambda>(i, s). 64 - i)") auto

declare sha256_loop.simps [simp del]

text \<open>\<open>while (num--)\<close>. The words of \<open>X\<close> and \<open>T1\<close> are all written before they are read; the 0 here stands for
  what they hold before.\<close>

fun sha256_block_data_order :: block_fn where
  "sha256_block_data_order st d 0 = st"
| "sha256_block_data_order st d (Suc num) =
     (let s = sha256_loop 16 (exec sha256_first
                \<lparr>vars = [st ! 0, st ! 1, st ! 2, st ! 3, st ! 4, st ! 5, st ! 6, st ! 7],
                 T1 = 0, Xs = replicate 16 0, inp = d\<rparr>);
          r = vars s
      in sha256_block_data_order
           [st ! 0 + r ! rA, st ! 1 + r ! rB, st ! 2 + r ! rC, st ! 3 + r ! rD,
            st ! 4 + r ! rE, st ! 5 + r ! rF, st ! 6 + r ! rG, st ! 7 + r ! rH] (inp s) num)"

definition SHA256_Update :: "HASH_CTX \<Rightarrow> bytes \<Rightarrow> HASH_CTX" where
  "SHA256_Update = HASH_UPDATE sha256_block_data_order"

definition SHA256_Transform :: "HASH_CTX \<Rightarrow> bytes \<Rightarrow> HASH_CTX" where
  "SHA256_Transform = HASH_TRANSFORM sha256_block_data_order"

definition SHA256_Final :: "HASH_CTX \<Rightarrow> (HASH_CTX \<times> bytes option) option" where
  "SHA256_Final = HASH_FINAL sha256_block_data_order DATA_ORDER_IS_BIG_ENDIAN sha256_make_string"

definition SHA224_Update :: "HASH_CTX \<Rightarrow> bytes \<Rightarrow> HASH_CTX" where
  "SHA224_Update ctx data = SHA256_Update ctx data"

definition SHA224_Final :: "HASH_CTX \<Rightarrow> (HASH_CTX \<times> bytes option) option" where
  "SHA224_Final ctx = SHA256_Final ctx"

text \<open>The one-shot functions: what they write to \<open>out\<close> (\<open>None\<close> would be a digest that was not written).\<close>

definition SHA224 :: "bytes \<Rightarrow> bytes option" where
  "SHA224 data = Option.bind (SHA224_Final (SHA224_Update SHA224_Init data)) snd"

definition SHA256 :: "bytes \<Rightarrow> bytes option" where
  "SHA256 data = Option.bind (SHA256_Final (SHA256_Update SHA256_Init data)) snd"

section \<open>FIPS 180-4\<close>

definition fips256 :: "u32 sha2_macros" where
  "fips256 =
     \<lparr>Sigma0 = (\<lambda>x. word_rotr 2 x XOR word_rotr 13 x XOR word_rotr 22 x),
      Sigma1 = (\<lambda>x. word_rotr 6 x XOR word_rotr 11 x XOR word_rotr 25 x),
      sigma0 = (\<lambda>x. word_rotr 7 x XOR word_rotr 18 x XOR drop_bit 3 x),
      sigma1 = (\<lambda>x. word_rotr 17 x XOR word_rotr 19 x XOR drop_bit 10 x),
      Ktab = K256\<rparr>"

definition sha256_compress :: "u32 list \<Rightarrow> bytes \<Rightarrow> u32 list" where
  "sha256_compress H b = fips_compress fips256 64 (words32 DATA_ORDER_IS_BIG_ENDIAN b) H"

text \<open>The initial words \<open>H\<close> of sections 5.3.3 and 5.3.2.\<close>

definition iv256 :: "u32 list" where
  "iv256 = [0x6a09e667, 0xbb67ae85, 0x3c6ef372, 0xa54ff53a, 0x510e527f, 0x9b05688c, 0x1f83d9ab, 0x5be0cd19]"

definition iv224 :: "u32 list" where
  "iv224 = [0xc1059ed8, 0x367cd507, 0x3070dd17, 0xf70e5939, 0xffc00b31, 0x68581511, 0x64f98fa7, 0xbefa4fa4]"

definition sha256_spec :: "bytes \<Rightarrow> bytes" where
  "sha256_spec m = be_words (md_hash 64 sha256_compress iv256
     (bit_length64 DATA_ORDER_IS_BIG_ENDIAN) m)"

definition sha224_spec :: "bytes \<Rightarrow> bytes" where
  "sha224_spec m = be_words (take 7 (md_hash 64 sha256_compress iv224
     (bit_length64 DATA_ORDER_IS_BIG_ENDIAN) m))"

section \<open>The code computes it\<close>

lemma sha256_macros_fips: "sha256_macros = fips256"
  using ROTATE_rotr [of 2] ROTATE_rotr [of 13] ROTATE_rotr [of 22] ROTATE_rotr [of 6] ROTATE_rotr [of 11]
    ROTATE_rotr [of 25] ROTATE_rotr [of 7] ROTATE_rotr [of 18] ROTATE_rotr [of 17] ROTATE_rotr [of 19]
  by (simp add: sha256_macros_def fips256_def)

text \<open>The written-out rounds are those of the rotating roles.\<close>

definition rotating_round :: "nat \<Rightarrow> u32 sha2_state \<Rightarrow> u32 sha2_state" where
  "rotating_round t = ROUND_00_15 t (role 8 t 0) (role 8 t 1) (role 8 t 2) (role 8 t 3)
     (role 8 t 4) (role 8 t 5) (role 8 t 6) (role 8 t 7)"

lemma sha256_first_rotates:
  "sha256_first = concat (map (\<lambda>t. [sha256_LOAD t, rotating_round t]) [0..<16])"
  by (simp add: sha256_first_def rotating_round_def role_def upt16)

lemma sha256_eight_rotates:
  assumes "i mod 8 = 0"
  shows "sha256_eight i =
    concat (map (\<lambda>j. [\<lambda>s. rotating_round (i + j) (sha2_SCHED sha256_macros (i + j) s)]) [0..<8])"
proof -
  have "ROUND_16_63 t a b c d e f g h = (\<lambda>s. ROUND_00_15 t a b c d e f g h (sha2_SCHED sha256_macros t s))"
    for t a b c d e f g h
    by (simp add: fun_eq_iff ROUND_16_63_def)
  moreover have "rotating_round (i + j) = ROUND_00_15 (i + j) (role 8 j 0) (role 8 j 1) (role 8 j 2)
      (role 8 j 3) (role 8 j 4) (role 8 j 5) (role 8 j 6) (role 8 j 7)" for j
    by (simp only: rotating_round_def role_shift [OF assms])
  ultimately show ?thesis
    by (simp only: sha256_eight_def upt8 list.map concat.simps append.simps) (simp add: role_def)
qed

lemma sha256_loop_inv:
  assumes "sha2_inv sha256_macros ws H i s" and "i mod 8 = 0" and "16 \<le> i" and "i \<le> 64"
  shows "sha2_inv sha256_macros ws H 64 (sha256_loop i s)"
  using assms
proof (induction i s rule: sha256_loop.induct)
  case (1 i s)
  show ?case
  proof (cases "i < 64")
    case True
    have "sha2_inv sha256_macros ws H (i + 8) (exec (sha256_eight i) s)"
      unfolding sha256_eight_rotates [OF 1(3)]
    proof (rule exec_rounds)
      fix j s'
      assume "sha2_inv sha256_macros ws H (i + j) s'"
      moreover have "16 \<le> i + j" using 1 by simp
      ultimately show "sha2_inv sha256_macros ws H (Suc (i + j))
          (exec [\<lambda>s. rotating_round (i + j) (sha2_SCHED sha256_macros (i + j) s)] s')"
        using sha2_sched_round [of sha256_macros ws H "i + j" s' "i + j"]
        by (simp only: exec_Cons exec_Nil rotating_round_def ROUND_00_15_def)
    qed (rule 1)
    moreover have "i + 8 \<le> 64" using True 1 by presburger
    ultimately show ?thesis using 1 True by (subst sha256_loop.simps) simp
  next
    case False
    with 1 show ?thesis by (subst sha256_loop.simps) simp
  qed
qed

text \<open>The first sixteen rounds read the words of the block and leave the input behind it.\<close>

lemma sha256_first_inv:
  fixes rest :: bytes
  assumes "length H = 8" and "length b = 64"
  defines "s \<equiv> exec sha256_first \<lparr>vars = [H ! 0, H ! 1, H ! 2, H ! 3, H ! 4, H ! 5, H ! 6, H ! 7],
      T1 = 0, Xs = replicate 16 0, inp = b @ rest\<rparr>"
  shows "sha2_inv sha256_macros (words32 DATA_ORDER_IS_BIG_ENDIAN b) H 16 s" and "inp s = rest"
proof -
  let ?ws = "words32 DATA_ORDER_IS_BIG_ENDIAN b"
  let ?I = "\<lambda>t s. sha2_inv sha256_macros ?ws H t s \<and> inp s = drop (4 * t) b @ rest"
  have "?I (0 + 16) s"
    unfolding s_def sha256_first_rotates
  proof (rule exec_rounds)
    fix t s'
    assume t: "t < 16" and I: "?I (0 + t) s'"
    have "take 4 (inp s') = take 4 (drop (4 * t) b)" and d: "drop 4 (inp s') = drop (4 * Suc t) b @ rest"
      using I t assms(2) by simp_all
    moreover have "length (take 4 (drop (4 * t) b)) = 4" using t assms(2) by simp
    ultimately have w: "HOST_c2l DATA_ORDER_IS_BIG_ENDIAN (take 4 (inp s')) = ?ws ! t"
      using t by (simp add: HOST_c2l_value words32_def)
    then have l: "sha256_LOAD t s' = s'\<lparr>Xs := (Xs s')[t := ?ws ! t], T1 := ?ws ! t, inp := drop 4 (inp s')\<rparr>"
      by (simp only: sha256_LOAD_def Let_def)
    have "sha2_inv sha256_macros ?ws H (Suc t) (rotating_round t (sha256_LOAD t s'))"
      unfolding rotating_round_def ROUND_00_15_def
      using I t by (intro sha2_load_round) (simp_all add: l)
    moreover have "inp (rotating_round t (sha256_LOAD t s')) = drop (4 * Suc t) b @ rest"
      using d by (simp add: rotating_round_def ROUND_00_15_def sha2_ROUND_def l Let_def)
    ultimately show "?I (Suc (0 + t)) (exec [sha256_LOAD t, rotating_round t] s')" by simp
  qed (use assms sha2_inv_start in simp)
  with assms(2) show "sha2_inv sha256_macros ?ws H 16 s" "inp s = rest" by simp_all
qed

lemma sha256_loop_inp: "inp (sha256_loop i s) = inp s"
proof (induction i s rule: sha256_loop.induct)
  case (1 i s)
  have "inp (exec (sha256_eight i) s) = inp s"
    by (rule exec_keeps)
      (auto simp: sha256_eight_def ROUND_16_63_def ROUND_00_15_def sha2_ROUND_def sha2_SCHED_def Let_def)
  with 1 show ?case by (subst sha256_loop.simps) simp
qed

lemma sha256_block_folds:
  assumes "length H = 8" and "length d = 64 * n"
  shows "sha256_block_data_order H (d @ rest) n = foldl sha256_compress H (chunks 64 d)"
  using assms
proof (induction n arbitrary: H d)
  case 0
  then show ?case by (simp add: chunks_short)
next
  case (Suc n)
  define b where "b = take 64 d"
  define s where "s = sha256_loop 16 (exec sha256_first
      \<lparr>vars = [H ! 0, H ! 1, H ! 2, H ! 3, H ! 4, H ! 5, H ! 6, H ! 7],
       T1 = 0, Xs = replicate 16 0, inp = b @ drop 64 d @ rest\<rparr>)"
  have b: "d = b @ drop 64 d" "length b = 64" using Suc.prems by (simp_all add: b_def)
  note first = sha256_first_inv [OF Suc.prems(1) b(2), of "drop 64 d @ rest"]
  have "sha2_inv sha256_macros (words32 DATA_ORDER_IS_BIG_ENDIAN b) H 64 s" and inp: "inp s = drop 64 d @ rest"
    using sha256_loop_inv [OF first(1)] first(2) by (simp_all add: s_def sha256_loop_inp)
  from sha2_end [OF this(1)] Suc.prems(1)
  have sums: "[H ! 0 + vars s ! 0, H ! 1 + vars s ! 1, H ! 2 + vars s ! 2, H ! 3 + vars s ! 3,
      H ! 4 + vars s ! 4, H ! 5 + vars s ! 5, H ! 6 + vars s ! 6, H ! 7 + vars s ! 7] = sha256_compress H b"
    by (simp add: sha256_compress_def sha256_macros_fips)
  have "sha256_block_data_order H (d @ rest) (Suc n)
      = sha256_block_data_order (sha256_compress H b) (inp s) n"
    unfolding sha256_block_data_order.simps Let_def
    by (subst (1 2 3 4 5 6 7 8 9) b(1)) (simp only: append.assoc s_def [symmetric] sums)
  also have "\<dots> = foldl sha256_compress (sha256_compress H b) (chunks 64 (drop 64 d))"
    unfolding inp using Suc.prems by (intro Suc.IH) (simp_all add: sha256_compress_def length_fips_compress)
  also have "\<dots> = foldl sha256_compress H (chunks 64 (b @ drop 64 d))"
    using b(2) by (simp add: chunks_Cons)
  finally show ?case by (simp only: b(1) [symmetric])
qed

text \<open>With the collector.\<close>

interpretation sha256: md32 sha256_compress sha256_block_data_order DATA_ORDER_IS_BIG_ENDIAN 8
    iv256 32 sha256_make_string be_words
  by unfold_locales
    (simp_all add: sha256_block_folds sha256_compress_def length_fips_compress iv256_def
      sha256_make_string_def concat_words)

interpretation sha224: md32 sha256_compress sha256_block_data_order DATA_ORDER_IS_BIG_ENDIAN 8
    iv224 28 sha256_make_string "\<lambda>h. be_words (take 7 h)"
  by unfold_locales
    (simp_all add: sha256_block_folds sha256_compress_def length_fips_compress iv224_def
      sha256_make_string_def concat_words)

lemma SHA256_Init_md32: "SHA256_Init = md32_init iv256 32"
  by (simp add: SHA256_Init_def iv256_def md32_init_def)

lemma SHA224_Init_md32: "SHA224_Init = md32_init iv224 28"
  by (simp add: SHA224_Init_def iv224_def md32_init_def)

text \<open>In the form that the users of the digests take: what a context stands for.\<close>

definition sha256_repr :: "HASH_CTX \<Rightarrow> bytes \<Rightarrow> bool" where
  "sha256_repr = md32_repr sha256_compress iv256 32"

definition sha224_repr :: "HASH_CTX \<Rightarrow> bytes \<Rightarrow> bool" where
  "sha224_repr = md32_repr sha256_compress iv224 28"

interpretation sha256_stream: streaming_hash SHA256_Init SHA256_Update
    "\<lambda>c. Option.bind (SHA256_Final c) snd" sha256_repr sha256_spec
  using sha256.streaming_hash_axioms
  by (simp add: SHA256_Init_md32 [symmetric] SHA256_Update_def SHA256_Final_def sha256_repr_def
      sha256_spec_def [abs_def])

interpretation sha224_stream: streaming_hash SHA224_Init SHA224_Update
    "\<lambda>c. Option.bind (SHA224_Final c) snd" sha224_repr sha224_spec
  using sha224.streaming_hash_axioms
  by (simp add: SHA224_Init_md32 [symmetric] SHA224_Update_def [abs_def] SHA224_Final_def
      SHA256_Update_def SHA256_Final_def sha224_repr_def sha224_spec_def [abs_def])

end
