(* ===== verification/Sha512.thy ===== *)
theory Sha512
  imports Sha256
begin

text \<open>
  SHA-384 and SHA-512, \<open>crypto/fipsmodule/sha/sha512.c\<close> without assembly: it has a collector of its own,
  with blocks of 128 bytes and a count of bits of 128 bits. The block function is proved to be the
  compression of FIPS 180-4 (the round lemmas are those of \<open>Sha2\<close>), and the collector to meet the
  contract \<open>streaming_hash\<close>.
\<close>

section \<open>The code\<close>

record SHA512_CTX =
  h512 :: "u64 list"
  Nl512 :: u64
  Nh512 :: u64
  p512 :: bytes
  num512 :: nat
  md_len512 :: nat

abbreviation (input) UINT64_C :: "u64 \<Rightarrow> u64" where "UINT64_C x \<equiv> x"

definition K512 :: "u64 list" where
  "K512 = [
    UINT64_C 0x428a2f98d728ae22, UINT64_C 0x7137449123ef65cd,
    UINT64_C 0xb5c0fbcfec4d3b2f, UINT64_C 0xe9b5dba58189dbbc,
    UINT64_C 0x3956c25bf348b538, UINT64_C 0x59f111f1b605d019,
    UINT64_C 0x923f82a4af194f9b, UINT64_C 0xab1c5ed5da6d8118,
    UINT64_C 0xd807aa98a3030242, UINT64_C 0x12835b0145706fbe,
    UINT64_C 0x243185be4ee4b28c, UINT64_C 0x550c7dc3d5ffb4e2,
    UINT64_C 0x72be5d74f27b896f, UINT64_C 0x80deb1fe3b1696b1,
    UINT64_C 0x9bdc06a725c71235, UINT64_C 0xc19bf174cf692694,
    UINT64_C 0xe49b69c19ef14ad2, UINT64_C 0xefbe4786384f25e3,
    UINT64_C 0x0fc19dc68b8cd5b5, UINT64_C 0x240ca1cc77ac9c65,
    UINT64_C 0x2de92c6f592b0275, UINT64_C 0x4a7484aa6ea6e483,
    UINT64_C 0x5cb0a9dcbd41fbd4, UINT64_C 0x76f988da831153b5,
    UINT64_C 0x983e5152ee66dfab, UINT64_C 0xa831c66d2db43210,
    UINT64_C 0xb00327c898fb213f, UINT64_C 0xbf597fc7beef0ee4,
    UINT64_C 0xc6e00bf33da88fc2, UINT64_C 0xd5a79147930aa725,
    UINT64_C 0x06ca6351e003826f, UINT64_C 0x142929670a0e6e70,
    UINT64_C 0x27b70a8546d22ffc, UINT64_C 0x2e1b21385c26c926,
    UINT64_C 0x4d2c6dfc5ac42aed, UINT64_C 0x53380d139d95b3df,
    UINT64_C 0x650a73548baf63de, UINT64_C 0x766a0abb3c77b2a8,
    UINT64_C 0x81c2c92e47edaee6, UINT64_C 0x92722c851482353b,
    UINT64_C 0xa2bfe8a14cf10364, UINT64_C 0xa81a664bbc423001,
    UINT64_C 0xc24b8b70d0f89791, UINT64_C 0xc76c51a30654be30,
    UINT64_C 0xd192e819d6ef5218, UINT64_C 0xd69906245565a910,
    UINT64_C 0xf40e35855771202a, UINT64_C 0x106aa07032bbd1b8,
    UINT64_C 0x19a4c116b8d2d0c8, UINT64_C 0x1e376c085141ab53,
    UINT64_C 0x2748774cdf8eeb99, UINT64_C 0x34b0bcb5e19b48a8,
    UINT64_C 0x391c0cb3c5c95a63, UINT64_C 0x4ed8aa4ae3418acb,
    UINT64_C 0x5b9cca4f7763e373, UINT64_C 0x682e6ff3d6b2b8a3,
    UINT64_C 0x748f82ee5defb2fc, UINT64_C 0x78a5636f43172f60,
    UINT64_C 0x84c87814a1f0ab72, UINT64_C 0x8cc702081a6439ec,
    UINT64_C 0x90befffa23631e28, UINT64_C 0xa4506cebde82bde9,
    UINT64_C 0xbef9a3f7b2c67915, UINT64_C 0xc67178f2e372532b,
    UINT64_C 0xca273eceea26619c, UINT64_C 0xd186b8c721c0c207,
    UINT64_C 0xeada7dd6cde0eb1e, UINT64_C 0xf57d4f7fee6ed178,
    UINT64_C 0x06f067aa72176fba, UINT64_C 0x0a637dc5a2c898a6,
    UINT64_C 0x113f9804bef90dae, UINT64_C 0x1b710b35131c471b,
    UINT64_C 0x28db77f523047d84, UINT64_C 0x32caab7b40c72493,
    UINT64_C 0x3c9ebe0a15c9bebc, UINT64_C 0x431d67c49c100d4c,
    UINT64_C 0x4cc5d4becb3e42b6, UINT64_C 0x597f299cfc657e2a,
    UINT64_C 0x5fcb6fab3ad6faec, UINT64_C 0x6c44198c4a475817]"

definition ROTR :: "u64 \<Rightarrow> nat \<Rightarrow> u64" where
  "ROTR x s = drop_bit s x OR push_bit (64 - s) x"

text \<open>\<open>PULL64\<close> in its portable form: eight bytes, the first one highest.\<close>

definition PULL64 :: "bytes \<Rightarrow> u64" where
  "PULL64 x =
     push_bit 56 (ucast (x ! 0)) OR push_bit 48 (ucast (x ! 1)) OR push_bit 40 (ucast (x ! 2))
     OR push_bit 32 (ucast (x ! 3)) OR push_bit 24 (ucast (x ! 4)) OR push_bit 16 (ucast (x ! 5))
     OR push_bit 8 (ucast (x ! 6)) OR ucast (x ! 7)"

definition sha512_macros :: "u64 sha2_macros" where
  "sha512_macros =
     \<lparr>Sigma0 = (\<lambda>x. ROTR x 28 XOR ROTR x 34 XOR ROTR x 39),
      Sigma1 = (\<lambda>x. ROTR x 14 XOR ROTR x 18 XOR ROTR x 41),
      sigma0 = (\<lambda>x. ROTR x 1 XOR ROTR x 8 XOR drop_bit 7 x),
      sigma1 = (\<lambda>x. ROTR x 19 XOR ROTR x 61 XOR drop_bit 6 x),
      Ktab = K512\<rparr>"

text \<open>The buffer \<open>u\<close> is not initialised: it keeps what the memory holds.\<close>

definition SHA384_Init :: "SHA512_CTX \<Rightarrow> SHA512_CTX" where
  "SHA384_Init sha = sha\<lparr>h512 := [0xcbbb9d5dc1059ed8, 0x629a292a367cd507, 0x9159015a3070dd17, 0x152fecd8f70e5939,
     0x67332667ffc00b31, 0x8eb44a8768581511, 0xdb0c2e0d64f98fa7, 0x47b5481dbefa4fa4],
     Nl512 := 0, Nh512 := 0, num512 := 0, md_len512 := 48\<rparr>"

definition SHA512_Init :: "SHA512_CTX \<Rightarrow> SHA512_CTX" where
  "SHA512_Init sha = sha\<lparr>h512 := [0x6a09e667f3bcc908, 0xbb67ae8584caa73b, 0x3c6ef372fe94f82b, 0xa54ff53a5f1d36f1,
     0x510e527fade682d1, 0x9b05688c2b3e6c1f, 0x1f83d9abfb41bd6b, 0x5be0cd19137e2179],
     Nl512 := 0, Nh512 := 0, num512 := 0, md_len512 := 64\<rparr>"

text \<open>\<open>T1 = X[i] = PULL64(W[i])\<close>, and the macros for rounds. \<open>W\<close> does not move within a block.\<close>

definition sha512_LOAD :: "nat \<Rightarrow> u64 sha2_state \<Rightarrow> u64 sha2_state" where
  "sha512_LOAD i s =
     (let l = PULL64 (take 8 (drop (8 * i) (inp s))) in s\<lparr>Xs := (Xs s)[i := l], T1 := l\<rparr>)"

definition ROUND_00_15_512 :: "nat \<Rightarrow> nat \<Rightarrow> nat \<Rightarrow> nat \<Rightarrow> nat \<Rightarrow> nat \<Rightarrow> nat \<Rightarrow> nat \<Rightarrow> nat \<Rightarrow> u64 sha2_state \<Rightarrow> u64 sha2_state" where
  "ROUND_00_15_512 = sha2_ROUND sha512_macros"

definition ROUND_16_80 :: "nat \<Rightarrow> nat \<Rightarrow> nat \<Rightarrow> nat \<Rightarrow> nat \<Rightarrow> nat \<Rightarrow> nat \<Rightarrow> nat \<Rightarrow> nat \<Rightarrow> nat \<Rightarrow> u64 sha2_state \<Rightarrow> u64 sha2_state" where
  "ROUND_16_80 i j a b c d e f g h s = ROUND_00_15_512 (i + j) a b c d e f g h (sha2_SCHED sha512_macros j s)"

definition sha512_first :: "(u64 sha2_state \<Rightarrow> u64 sha2_state) list" where
  "sha512_first =
    [sha512_LOAD 0, ROUND_00_15_512 0 rA rB rC rD rE rF rG rH,
     sha512_LOAD 1, ROUND_00_15_512 1 rH rA rB rC rD rE rF rG,
     sha512_LOAD 2, ROUND_00_15_512 2 rG rH rA rB rC rD rE rF,
     sha512_LOAD 3, ROUND_00_15_512 3 rF rG rH rA rB rC rD rE,
     sha512_LOAD 4, ROUND_00_15_512 4 rE rF rG rH rA rB rC rD,
     sha512_LOAD 5, ROUND_00_15_512 5 rD rE rF rG rH rA rB rC,
     sha512_LOAD 6, ROUND_00_15_512 6 rC rD rE rF rG rH rA rB,
     sha512_LOAD 7, ROUND_00_15_512 7 rB rC rD rE rF rG rH rA,
     sha512_LOAD 8, ROUND_00_15_512 8 rA rB rC rD rE rF rG rH,
     sha512_LOAD 9, ROUND_00_15_512 9 rH rA rB rC rD rE rF rG,
     sha512_LOAD 10, ROUND_00_15_512 10 rG rH rA rB rC rD rE rF,
     sha512_LOAD 11, ROUND_00_15_512 11 rF rG rH rA rB rC rD rE,
     sha512_LOAD 12, ROUND_00_15_512 12 rE rF rG rH rA rB rC rD,
     sha512_LOAD 13, ROUND_00_15_512 13 rD rE rF rG rH rA rB rC,
     sha512_LOAD 14, ROUND_00_15_512 14 rC rD rE rF rG rH rA rB,
     sha512_LOAD 15, ROUND_00_15_512 15 rB rC rD rE rF rG rH rA]"

definition sha512_sixteen :: "nat \<Rightarrow> (u64 sha2_state \<Rightarrow> u64 sha2_state) list" where
  "sha512_sixteen i =
    [ROUND_16_80 i 0 rA rB rC rD rE rF rG rH, ROUND_16_80 i 1 rH rA rB rC rD rE rF rG,
     ROUND_16_80 i 2 rG rH rA rB rC rD rE rF, ROUND_16_80 i 3 rF rG rH rA rB rC rD rE,
     ROUND_16_80 i 4 rE rF rG rH rA rB rC rD, ROUND_16_80 i 5 rD rE rF rG rH rA rB rC,
     ROUND_16_80 i 6 rC rD rE rF rG rH rA rB, ROUND_16_80 i 7 rB rC rD rE rF rG rH rA,
     ROUND_16_80 i 8 rA rB rC rD rE rF rG rH, ROUND_16_80 i 9 rH rA rB rC rD rE rF rG,
     ROUND_16_80 i 10 rG rH rA rB rC rD rE rF, ROUND_16_80 i 11 rF rG rH rA rB rC rD rE,
     ROUND_16_80 i 12 rE rF rG rH rA rB rC rD, ROUND_16_80 i 13 rD rE rF rG rH rA rB rC,
     ROUND_16_80 i 14 rC rD rE rF rG rH rA rB, ROUND_16_80 i 15 rB rC rD rE rF rG rH rA]"

text \<open>\<open>for (i = 16; i < 80; i += 16)\<close>.\<close>

function sha512_loop :: "nat \<Rightarrow> u64 sha2_state \<Rightarrow> u64 sha2_state" where
  "sha512_loop i s = (if i < 80 then sha512_loop (i + 16) (exec (sha512_sixteen i) s) else s)"
  by pat_completeness auto
termination by (relation "measure (\<lambda>(i, s). 80 - i)") auto

declare sha512_loop.simps [simp del]

text \<open>\<open>while (num--)\<close>, with \<open>W += 16\<close> at the end of each block.\<close>

fun sha512_block_data_order :: "u64 list \<Rightarrow> bytes \<Rightarrow> nat \<Rightarrow> u64 list" where
  "sha512_block_data_order st w 0 = st"
| "sha512_block_data_order st w (Suc num) =
     (let s = sha512_loop 16 (exec sha512_first
                \<lparr>vars = [st ! 0, st ! 1, st ! 2, st ! 3, st ! 4, st ! 5, st ! 6, st ! 7],
                 T1 = 0, Xs = replicate 16 0, inp = w\<rparr>);
          r = vars s
      in sha512_block_data_order
           [st ! 0 + r ! rA, st ! 1 + r ! rB, st ! 2 + r ! rC, st ! 3 + r ! rD,
            st ! 4 + r ! rE, st ! 5 + r ! rF, st ! 6 + r ! rG, st ! 7 + r ! rH] (drop 128 w) num)"

definition SHA512_Transform :: "SHA512_CTX \<Rightarrow> bytes \<Rightarrow> SHA512_CTX" where
  "SHA512_Transform c block = c\<lparr>h512 := sha512_block_data_order (h512 c) block 1\<rparr>"

text \<open>The count of bits at the start of \<open>SHA512_Update\<close>, and the whole blocks and the rest at its end (on a
  machine that reads words at any address, \<open>SHA512_BLOCK_CAN_MANAGE_UNALIGNED_DATA\<close>).\<close>

definition sha512_count :: "SHA512_CTX \<Rightarrow> nat \<Rightarrow> SHA512_CTX" where
  "sha512_count c len =
     (let l = (Nl512 c + push_bit 3 (of_nat len)) AND 0xffffffffffffffff;
          c = (if l < Nl512 c then c\<lparr>Nh512 := Nh512 c + 1\<rparr> else c)
      in c\<lparr>Nh512 := Nh512 c + of_nat (len div 2 ^ 61), Nl512 := l\<rparr>)"

definition sha512_tail :: "SHA512_CTX \<Rightarrow> bytes \<Rightarrow> SHA512_CTX" where
  "sha512_tail c d =
     (let len = length d;
          c = (if 128 \<le> len then c\<lparr>h512 := sha512_block_data_order (h512 c) d (len div 128)\<rparr> else c);
          d = (if 128 \<le> len then drop (len - len mod 128) d else d);
          len = (if 128 \<le> len then len mod 128 else len)
      in if len \<noteq> 0 then c\<lparr>p512 := mem_write (p512 c) 0 d, num512 := len\<rparr> else c)"

definition SHA512_Update :: "SHA512_CTX \<Rightarrow> bytes \<Rightarrow> SHA512_CTX" where
  "SHA512_Update c d =
     (let len = length d in
      if len = 0 then c
      else
        (let c = sha512_count c len in
         if num512 c \<noteq> 0
         then
           (let n = 128 - num512 c in
            if len < n
            then c\<lparr>p512 := mem_write (p512 c) (num512 c) d, num512 := num512 c + len\<rparr>
            else
              (let p = mem_write (p512 c) (num512 c) (take n d);
                   c = c\<lparr>p512 := p, num512 := 0, h512 := sha512_block_data_order (h512 c) p 1\<rparr>
               in sha512_tail c (drop n d)))
         else sha512_tail c d))"

text \<open>The bytes of a word, the highest first, as \<open>SHA512_Final\<close> writes them.\<close>

definition put64 :: "u64 \<Rightarrow> bytes" where
  "put64 t = [ucast (drop_bit 56 t), ucast (drop_bit 48 t), ucast (drop_bit 40 t), ucast (drop_bit 32 t),
     ucast (drop_bit 24 t), ucast (drop_bit 16 t), ucast (drop_bit 8 t), ucast t]"

text \<open>The end of \<open>SHA512_Final\<close>: the digest, or \<open>None\<close> for the result 0 (\<open>null_md\<close>: the pointer \<open>md\<close> is null).\<close>

definition sha512_output :: "bool \<Rightarrow> SHA512_CTX \<Rightarrow> bytes option" where
  "sha512_output null_md sha =
     (if null_md then None
      else if md_len512 sha = 48 then Some (concat (map put64 (take 6 (h512 sha))))
      else if md_len512 sha = 64 then Some (concat (map put64 (take 8 (h512 sha))))
      else None)"

text \<open>\<open>SHA512_Final\<close>: \<open>None\<close> where \<open>p[n] = 0x80\<close> would write behind the buffer; otherwise the context as it is
  left, and the output.\<close>

definition SHA512_Final :: "bool \<Rightarrow> SHA512_CTX \<Rightarrow> (SHA512_CTX \<times> bytes option) option" where
  "SHA512_Final null_md sha =
     (let n = num512 sha in
      if \<not> n < 128 then None
      else
        (let p = (p512 sha)[n := 0x80];
             n = n + 1;
             (n, h, p) =
               (if 128 - 16 < n
                then (let p = mem_write p n (replicate (128 - n) 0)
                      in (0, sha512_block_data_order (h512 sha) p 1, p))
                else (n, h512 sha, p));
             p = mem_write p n (replicate (128 - 16 - n) 0);
             p = mem_write p (128 - 16) (put64 (Nh512 sha) @ put64 (Nl512 sha));
             sha = sha\<lparr>p512 := p, h512 := sha512_block_data_order h p 1\<rparr>
         in Some (sha, sha512_output null_md sha)))"

definition SHA384_Update :: "SHA512_CTX \<Rightarrow> bytes \<Rightarrow> SHA512_CTX" where
  "SHA384_Update sha data = SHA512_Update sha data"

definition SHA384_Final :: "bool \<Rightarrow> SHA512_CTX \<Rightarrow> (SHA512_CTX \<times> bytes option) option" where
  "SHA384_Final null_md sha = SHA512_Final null_md sha"

text \<open>A context in fresh memory, read as a little-endian machine does.\<close>

definition mem_word :: "(nat \<Rightarrow> u8) \<Rightarrow> nat \<Rightarrow> nat \<Rightarrow> nat" where
  "mem_word mem a k = le_val (map mem [a..<a + k])"

definition fresh_sha512 :: "(nat \<Rightarrow> u8) \<Rightarrow> SHA512_CTX" where
  "fresh_sha512 mem =
     \<lparr>h512 = map (\<lambda>i. of_nat (mem_word mem (8 * i) 8)) [0..<8],
      Nl512 = of_nat (mem_word mem 64 8), Nh512 = of_nat (mem_word mem 72 8),
      p512 = map mem [80..<208], num512 = mem_word mem 208 4, md_len512 = mem_word mem 212 4\<rparr>"

text \<open>The one-shot functions; \<open>mem\<close> is the memory of the local context.\<close>

definition SHA384 :: "(nat \<Rightarrow> u8) \<Rightarrow> bytes \<Rightarrow> bytes option" where
  "SHA384 mem data =
     Option.bind (SHA384_Final False (SHA384_Update (SHA384_Init (fresh_sha512 mem)) data)) snd"

definition SHA512 :: "(nat \<Rightarrow> u8) \<Rightarrow> bytes \<Rightarrow> bytes option" where
  "SHA512 mem data =
     Option.bind (SHA512_Final False (SHA512_Update (SHA512_Init (fresh_sha512 mem)) data)) snd"

section \<open>FIPS 180-4\<close>

definition fips512 :: "u64 sha2_macros" where
  "fips512 =
     \<lparr>Sigma0 = (\<lambda>x. word_rotr 28 x XOR word_rotr 34 x XOR word_rotr 39 x),
      Sigma1 = (\<lambda>x. word_rotr 14 x XOR word_rotr 18 x XOR word_rotr 41 x),
      sigma0 = (\<lambda>x. word_rotr 1 x XOR word_rotr 8 x XOR drop_bit 7 x),
      sigma1 = (\<lambda>x. word_rotr 19 x XOR word_rotr 61 x XOR drop_bit 6 x),
      Ktab = K512\<rparr>"

definition words64 :: "bytes \<Rightarrow> u64 list" where
  "words64 b = map (\<lambda>i. of_nat (be_val (take 8 (drop (8 * i) b)))) [0..<16]"

definition sha512_compress :: "u64 list \<Rightarrow> bytes \<Rightarrow> u64 list" where
  "sha512_compress H b = fips_compress fips512 80 (words64 b) H"

definition be_words64 :: "u64 list \<Rightarrow> bytes" where
  "be_words64 ws = concat (map (\<lambda>w. be_bytes 8 (unat w)) ws)"

definition iv384 :: "u64 list" where
  "iv384 = [0xcbbb9d5dc1059ed8, 0x629a292a367cd507, 0x9159015a3070dd17, 0x152fecd8f70e5939,
     0x67332667ffc00b31, 0x8eb44a8768581511, 0xdb0c2e0d64f98fa7, 0x47b5481dbefa4fa4]"

definition iv512 :: "u64 list" where
  "iv512 = [0x6a09e667f3bcc908, 0xbb67ae8584caa73b, 0x3c6ef372fe94f82b, 0xa54ff53a5f1d36f1,
     0x510e527fade682d1, 0x9b05688c2b3e6c1f, 0x1f83d9abfb41bd6b, 0x5be0cd19137e2179]"

definition sha512_spec :: "bytes \<Rightarrow> bytes" where
  "sha512_spec m = be_words64 (md_hash 128 sha512_compress iv512 (be_bytes 16) m)"

definition sha384_spec :: "bytes \<Rightarrow> bytes" where
  "sha384_spec m = be_words64 (take 6 (md_hash 128 sha512_compress iv384 (be_bytes 16) m))"

section \<open>The block function computes it\<close>

lemma ROTR_rotr:
  assumes "0 < n" and "n < 64"
  shows "ROTR x n = word_rotr n x"
proof (rule bit_word_eqI)
  fix k :: nat
  assume "k < LENGTH(64)"
  then have k: "k < 64" by simp
  have "(k + n) mod 64 = (if 64 - n \<le> k then k - (64 - n) else k + n)"
    using assms k by (auto simp: mod_if)
  with assms k show "bit (ROTR x n) k = bit (word_rotr n x) k"
    by (auto simp: ROTR_def bit_or_iff bit_push_bit_iff bit_drop_bit_eq bit_word_rotr_iff not_le
        add.commute [of n] dest: bit_imp_le_length)
qed

lemma sha512_macros_fips: "sha512_macros = fips512"
  by (simp add: sha512_macros_def fips512_def ROTR_rotr)

lemma PULL64_value:
  assumes "length c = 8"
  shows "PULL64 c = of_nat (be_val c)"
proof -
  obtain x0 x1 x2 x3 x4 x5 x6 x7 where c: "c = [x0, x1, x2, x3, x4, x5, x6, x7]"
    using assms by (auto simp: length_Suc_conv numeral_eq_Suc)
  have "PULL64 c = foldl (\<lambda>r b. push_bit 8 r OR ucast b) 0 c"
    by (simp add: c PULL64_def push_bit_or or.assoc)
  then show ?thesis by (simp add: foldl_shift_or_be_val)
qed

definition rotating_round512 :: "nat \<Rightarrow> u64 sha2_state \<Rightarrow> u64 sha2_state" where
  "rotating_round512 t = ROUND_00_15_512 t (role 8 t 0) (role 8 t 1) (role 8 t 2) (role 8 t 3)
     (role 8 t 4) (role 8 t 5) (role 8 t 6) (role 8 t 7)"

lemma sha512_first_rotates:
  "sha512_first = concat (map (\<lambda>t. [sha512_LOAD t, rotating_round512 t]) [0..<16])"
  by (simp add: sha512_first_def rotating_round512_def role_def upt16)

lemma sha512_sixteen_rotates:
  assumes "i mod 16 = 0"
  shows "sha512_sixteen i =
    concat (map (\<lambda>j. [\<lambda>s. rotating_round512 (i + j) (sha2_SCHED sha512_macros j s)]) [0..<16])"
proof -
  have i8: "i mod 8 = 0" using assms by presburger
  have "ROUND_16_80 t j a b c d e f g h
      = (\<lambda>s. ROUND_00_15_512 (t + j) a b c d e f g h (sha2_SCHED sha512_macros j s))"
    for t j a b c d e f g h
    by (simp add: fun_eq_iff ROUND_16_80_def)
  moreover have "rotating_round512 (i + j) = ROUND_00_15_512 (i + j) (role 8 j 0) (role 8 j 1) (role 8 j 2)
      (role 8 j 3) (role 8 j 4) (role 8 j 5) (role 8 j 6) (role 8 j 7)" for j
    by (simp only: rotating_round512_def role_shift [OF i8])
  ultimately show ?thesis
    by (simp only: sha512_sixteen_def upt16 list.map concat.simps append.simps) (simp add: role_def)
qed

lemma sha512_loop_inv:
  assumes "sha2_inv sha512_macros ws H i s" and "i mod 16 = 0" and "16 \<le> i" and "i \<le> 80"
  shows "sha2_inv sha512_macros ws H 80 (sha512_loop i s)"
  using assms
proof (induction i s rule: sha512_loop.induct)
  case (1 i s)
  show ?case
  proof (cases "i < 80")
    case True
    have "sha2_inv sha512_macros ws H (i + 16) (exec (sha512_sixteen i) s)"
      unfolding sha512_sixteen_rotates [OF 1(3)]
    proof (rule exec_rounds)
      fix j s'
      assume "sha2_inv sha512_macros ws H (i + j) s'"
      moreover have "16 \<le> i + j" using 1 by simp
      moreover have "j mod 16 = (i + j) mod 16" using 1(3) by (metis add_0 mod_add_left_eq)
      ultimately show "sha2_inv sha512_macros ws H (Suc (i + j))
          (exec [\<lambda>s. rotating_round512 (i + j) (sha2_SCHED sha512_macros j s)] s')"
        using sha2_sched_round [of sha512_macros ws H "i + j" s' j]
        by (simp only: exec_Cons exec_Nil rotating_round512_def ROUND_00_15_512_def)
    qed (rule 1)
    moreover have "i + 16 \<le> 80" using True 1 by presburger
    ultimately show ?thesis using 1 True by (subst sha512_loop.simps) simp
  next
    case False
    with 1 show ?thesis by (subst sha512_loop.simps) simp
  qed
qed

lemma sha512_first_inv:
  fixes rest :: bytes
  assumes "length H = 8" and "length b = 128"
  defines "s \<equiv> exec sha512_first \<lparr>vars = [H ! 0, H ! 1, H ! 2, H ! 3, H ! 4, H ! 5, H ! 6, H ! 7],
      T1 = 0, Xs = replicate 16 0, inp = b @ rest\<rparr>"
  shows "sha2_inv sha512_macros (words64 b) H 16 s"
proof -
  let ?I = "\<lambda>t s. sha2_inv sha512_macros (words64 b) H t s \<and> inp s = b @ rest"
  have "?I (0 + 16) s"
    unfolding s_def sha512_first_rotates
  proof (rule exec_rounds)
    fix t s'
    assume t: "t < 16" and I: "?I (0 + t) s'"
    have "take 8 (drop (8 * t) (inp s')) = take 8 (drop (8 * t) b)"
      using I t assms(2) by simp
    moreover have "length (take 8 (drop (8 * t) b)) = 8" using t assms(2) by simp
    ultimately have "PULL64 (take 8 (drop (8 * t) (inp s'))) = words64 b ! t"
      using t by (simp add: PULL64_value words64_def)
    then have l: "sha512_LOAD t s' = s'\<lparr>Xs := (Xs s')[t := words64 b ! t], T1 := words64 b ! t\<rparr>"
      by (simp only: sha512_LOAD_def Let_def)
    have "sha2_inv sha512_macros (words64 b) H (Suc t) (rotating_round512 t (sha512_LOAD t s'))"
      unfolding rotating_round512_def ROUND_00_15_512_def
      using I t by (intro sha2_load_round) (simp_all add: l)
    moreover have "inp (rotating_round512 t (sha512_LOAD t s')) = b @ rest"
      using I by (simp add: rotating_round512_def ROUND_00_15_512_def sha2_ROUND_def l Let_def)
    ultimately show "?I (Suc (0 + t)) (exec [sha512_LOAD t, rotating_round512 t] s')" by simp
  qed (use assms sha2_inv_start in simp)
  then show ?thesis by simp
qed

lemma sha512_block_folds:
  assumes "length H = 8" and "length d = 128 * n"
  shows "sha512_block_data_order H (d @ rest) n = foldl sha512_compress H (chunks 128 d)"
  using assms
proof (induction n arbitrary: H d)
  case 0
  then show ?case by (simp add: chunks_short)
next
  case (Suc n)
  define b where "b = take 128 d"
  define s where "s = sha512_loop 16 (exec sha512_first
      \<lparr>vars = [H ! 0, H ! 1, H ! 2, H ! 3, H ! 4, H ! 5, H ! 6, H ! 7],
       T1 = 0, Xs = replicate 16 0, inp = b @ drop 128 d @ rest\<rparr>)"
  have b: "d = b @ drop 128 d" "length b = 128" using Suc.prems by (simp_all add: b_def)
  have "sha2_inv sha512_macros (words64 b) H 80 s"
    using sha512_loop_inv [OF sha512_first_inv [OF Suc.prems(1) b(2)]] by (simp add: s_def)
  from sha2_end [OF this] Suc.prems(1)
  have sums: "[H ! 0 + vars s ! 0, H ! 1 + vars s ! 1, H ! 2 + vars s ! 2, H ! 3 + vars s ! 3,
      H ! 4 + vars s ! 4, H ! 5 + vars s ! 5, H ! 6 + vars s ! 6, H ! 7 + vars s ! 7] = sha512_compress H b"
    by (simp add: sha512_compress_def sha512_macros_fips)
  have dr: "drop 128 (b @ drop 128 d @ rest) = drop 128 d @ rest" using b(2) by simp
  have "sha512_block_data_order H (d @ rest) (Suc n)
      = sha512_block_data_order (sha512_compress H b) (drop 128 d @ rest) n"
    unfolding sha512_block_data_order.simps Let_def
    by (subst (1 2 3 4 5 6 7 8 9) b(1)) (simp only: append.assoc s_def [symmetric] sums dr)
  also have "\<dots> = foldl sha512_compress (sha512_compress H b) (chunks 128 (drop 128 d))"
    using Suc.prems by (intro Suc.IH) (simp_all add: sha512_compress_def length_fips_compress)
  also have "\<dots> = foldl sha512_compress H (chunks 128 (b @ drop 128 d))"
    using b(2) by (simp add: chunks_Cons)
  finally show ?case by (simp only: b(1) [symmetric])
qed

section \<open>The collector\<close>

definition bit_count512 :: "SHA512_CTX \<Rightarrow> nat" where
  "bit_count512 c = unat (Nh512 c) * 2 ^ 64 + unat (Nl512 c)"

lemma sha512_count_keeps [simp]:
  "h512 (sha512_count c n) = h512 c" "p512 (sha512_count c n) = p512 c"
  "num512 (sha512_count c n) = num512 c" "md_len512 (sha512_count c n) = md_len512 c"
  by (simp_all add: sha512_count_def Let_def)

lemma bit_count512_update: "bit_count512 (sha512_count c len) = (bit_count512 c + 8 * len) mod 2 ^ 128"
proof -
  have "0xffffffffffffffff = (- 1 :: u64)" by simp
  then have "(x :: u64) AND 0xffffffffffffffff = x" for x
    by (simp only: bit.conj_one_right)
  then show ?thesis
    using two_word_count [of "Nh512 c" "Nl512 c" len]
    by (auto simp: bit_count512_def sha512_count_def Let_def split: if_splits)
qed

definition sha512_repr :: "u64 list \<Rightarrow> nat \<Rightarrow> SHA512_CTX \<Rightarrow> bytes \<Rightarrow> bool" where
  "sha512_repr iv mdl c m \<longleftrightarrow>
     h512 c = foldl sha512_compress iv (chunks 128 m) \<and> num512 c = length m mod 128
     \<and> take (num512 c) (p512 c) = tail_of 128 m \<and> length (p512 c) = 128
     \<and> bit_count512 c = 8 * length m mod 2 ^ 128 \<and> md_len512 c = mdl \<and> length iv = 8"

lemma length_foldl_sha512: "length st = 8 \<Longrightarrow> length (foldl sha512_compress st bs) = 8"
  by (induction bs arbitrary: st) (simp_all add: sha512_compress_def length_fips_compress)

lemma sha512_block_one:
  "length st = 8 \<Longrightarrow> length d = 128 \<Longrightarrow> sha512_block_data_order st d 1 = sha512_compress st d"
  using sha512_block_folds [of st d 1 "[]"] by (simp add: chunks_one)

lemma sha512_block_prefix:
  assumes "length st = 8"
  shows "sha512_block_data_order st d (length d div 128) = foldl sha512_compress st (chunks 128 d)"
proof -
  let ?n = "length d div 128"
  have "sha512_block_data_order st (take (128 * ?n) d @ drop (128 * ?n) d) ?n
      = foldl sha512_compress st (chunks 128 (take (128 * ?n) d))"
    using assms by (intro sha512_block_folds) (simp_all add: min_absorb2)
  with assms show ?thesis by (simp add: chunks_take)
qed

lemma sha512_tail_repr:
  assumes c: "h512 c = foldl sha512_compress iv (chunks 128 m)" "num512 c = 0" "length (p512 c) = 128"
      "md_len512 c = mdl" "length m mod 128 = 0" "length iv = 8"
    and n: "bit_count512 c = 8 * length (m @ d) mod 2 ^ 128"
  shows "sha512_repr iv mdl (sha512_tail c d) (m @ d)"
proof -
  have m: "tail_of 128 m = []"
    using c length_tail_of [of 128 m] by (metis length_0_conv)
  have ch: "chunks 128 (m @ d) = chunks 128 m @ chunks 128 d"
    using c by (simp add: chunks_append)
  define d' where "d' = tail_of 128 d"
  have tl: "tail_of 128 (m @ d) = d'"
    using tail_of_append [of 128 m d] m by (simp add: d'_def)
  have len: "length (m @ d) mod 128 = length d'" "length d' < 128"
    using c by (simp_all add: d'_def mod_add_left_eq [of "length m", symmetric])
  define h' where "h' = foldl sha512_compress (h512 c) (chunks 128 d)"
  have "length (h512 c) = 8" using c length_foldl_sha512 by simp
  note blocks = sha512_block_prefix [OF this, of d, folded h'_def]
  have whole: "length d - length d mod 128 = 128 * (length d div 128)"
    by (simp add: minus_mod_eq_mult_div)
  have ht: "sha512_tail c d = (if length d' \<noteq> 0
      then c\<lparr>h512 := h', p512 := mem_write (p512 c) 0 d', num512 := length d'\<rparr> else c\<lparr>h512 := h'\<rparr>)"
  proof (cases "128 \<le> length d")
    case True
    then have "drop (length d - length d mod 128) d = d'" by (simp add: d'_def tail_of_def whole)
    with True show ?thesis by (simp add: sha512_tail_def Let_def blocks d'_def)
  next
    case False
    then have "d' = d" "h' = h512 c" by (simp_all add: d'_def h'_def chunks_short)
    with False show ?thesis by (simp add: sha512_tail_def Let_def)
  qed
  show ?thesis
  proof (cases "d' = []")
    case True
    with ht have "sha512_tail c d = c\<lparr>h512 := h'\<rparr>" by simp
    with True show ?thesis
      using c(2-6) n ch len tl by (simp add: sha512_repr_def h'_def c(1) bit_count512_def)
  next
    case False
    with ht have "sha512_tail c d
        = c\<lparr>h512 := h', p512 := mem_write (p512 c) 0 d', num512 := length d'\<rparr>" by simp
    then show ?thesis
      using c(2-6) n ch len tl by (simp add: sha512_repr_def h'_def c(1) bit_count512_def)
  qed
qed

lemma sha512_update_repr:
  assumes "sha512_repr iv mdl c m"
  shows "sha512_repr iv mdl (SHA512_Update c d) (m @ d)"
proof (cases "d = []")
  case True
  with assms show ?thesis by (simp add: SHA512_Update_def)
next
  case False
  define c1 where "c1 = sha512_count c (length d)"
  define n where "n = length m mod 128"
  have n: "n < 128" by (simp add: n_def)
  have c1: "h512 c1 = foldl sha512_compress iv (chunks 128 m)" "num512 c1 = n"
      "take n (p512 c1) = tail_of 128 m" "length (p512 c1) = 128" "md_len512 c1 = mdl" "length iv = 8"
    using assms by (auto simp: c1_def sha512_repr_def n_def)
  have bits: "bit_count512 c1 = 8 * length (m @ d) mod 2 ^ 128"
    using assms mod_add_left_eq [of "8 * length m" "2 ^ 128" "8 * length d"]
    by (simp add: c1_def bit_count512_update sha512_repr_def)
  have st: "length (h512 c1) = 8"
    using c1 length_foldl_sha512 by simp
  have up: "SHA512_Update c d =
      (if n \<noteq> 0
       then if length d < 128 - n
         then c1\<lparr>p512 := mem_write (p512 c1) n d, num512 := n + length d\<rparr>
         else sha512_tail
           (c1\<lparr>p512 := mem_write (p512 c1) n (take (128 - n) d), num512 := 0,
               h512 := sha512_block_data_order (h512 c1) (mem_write (p512 c1) n (take (128 - n) d)) 1\<rparr>)
           (drop (128 - n) d)
       else sha512_tail c1 d)"
    using False by (simp add: SHA512_Update_def Let_def c1_def [symmetric] c1(2))
  consider (empty) "n = 0" | (fills) "n \<noteq> 0" "128 \<le> length d + n" | (fits) "n \<noteq> 0" "length d + n < 128"
    by linarith
  then show ?thesis
  proof cases
    case empty
    with c1 bits show ?thesis by (simp add: up sha512_tail_repr n_def)
  next
    case fills
    define b where "b = tail_of 128 m @ take (128 - n) d"
    define c2 where "c2 = c1\<lparr>p512 := b, num512 := 0, h512 := sha512_compress (h512 c1) b\<rparr>"
    have b: "mem_write (p512 c1) n (take (128 - n) d) = b" "length b = 128"
      using fills n c1 by (simp_all add: mem_write_def b_def n_def)
    have "\<not> length d < 128 - n" using fills n by linarith
    then have "SHA512_Update c d = sha512_tail c2 (drop (128 - n) d)"
      using fills by (simp add: up b sha512_block_one [OF st b(2)] c2_def del: One_nat_def)
    moreover have "chunks 128 (m @ take (128 - n) d) = chunks 128 m @ [b]"
      by (subst chunks_tail) (simp_all add: b_def [symmetric] chunks_one b)
    moreover have "length (m @ take (128 - n) d) mod 128 = 0"
    proof -
      have "length (m @ take (128 - n) d) = 128 * (length m div 128) + length b"
        by (simp add: b_def)
      then show ?thesis using b by simp
    qed
    ultimately show ?thesis
      using sha512_tail_repr [of c2 iv "m @ take (128 - n) d" mdl "drop (128 - n) d"] c1 bits b
      by (simp add: c2_def bit_count512_def)
  next
    case fits
    have len: "length (m @ d) mod 128 = n + length d"
      using fits mod_add_left_eq [of "length m" 128 "length d"] by (simp add: n_def)
    have tl: "tail_of 128 (m @ d) = tail_of 128 m @ d"
      using fits by (subst tail_of_append) (simp_all add: n_def)
    have ch: "chunks 128 (m @ d) = chunks 128 m"
      using fits by (subst chunks_tail) (simp_all add: chunks_short n_def)
    have "length d < 128 - n" using fits by linarith
    then have up: "SHA512_Update c d = c1\<lparr>p512 := mem_write (p512 c1) n d, num512 := n + length d\<rparr>"
      using fits by (simp only: up) simp
    have tk: "take (n + length d) (mem_write (p512 c1) n d) = tail_of 128 (m @ d)"
      using n c1 by (simp add: tl)
    have "length (mem_write (p512 c1) n d) = 128"
      using fits c1 by simp
    with c1 bits tk show ?thesis
      unfolding up sha512_repr_def len ch by (simp add: bit_count512_def)
  qed
qed

lemma put64_bytes: "put64 t = be_bytes 8 (unat t)"
proof -
  have "(8 :: nat) = Suc (Suc (Suc (Suc (Suc (Suc (Suc (Suc 0)))))))" by simp
  then have be: "be_bytes 8 n = [of_nat (n div 2 ^ 56), of_nat (n div 2 ^ 48), of_nat (n div 2 ^ 40),
      of_nat (n div 2 ^ 32), of_nat (n div 2 ^ 24), of_nat (n div 2 ^ 16), of_nat (n div 2 ^ 8), of_nat n]" for n
    by (simp only: be_bytes.simps div_mult2_eq [symmetric]) simp
  have "ucast t = (of_nat (unat t) :: u8)" by simp
  then show ?thesis by (simp only: put64_def ucast_drop_bit_u8 be)
qed

lemma concat_put64: "concat (map put64 ws) = be_words64 ws"
  by (simp add: be_words64_def put64_bytes [abs_def])

lemma bit_count512_bytes: "put64 (Nh512 c) @ put64 (Nl512 c) = be_bytes 16 (bit_count512 c)"
proof -
  have l: "unat (Nl512 c) < 256 ^ 8"
    using unsigned_less [of "Nl512 c", where ?'a = nat] by simp
  have p: "(256 :: nat) ^ 8 = 2 ^ 64" "(8 :: nat) + 8 = 16" by simp_all
  show ?thesis
    by (simp only: put64_bytes be_bytes_append [OF l] bit_count512_def p)
qed

text \<open>The state after the last block, and how much of it is the digest.\<close>

lemma sha512_final_repr:
  assumes repr: "sha512_repr iv mdl c m" and mdl: "mdl = 48 \<or> mdl = 64"
  shows "Option.bind (SHA512_Final False c) snd
    = Some (be_words64 (take (mdl div 8) (md_hash 128 sha512_compress iv (be_bytes 16) m)))"
proof -
  define n where "n = length m mod 128"
  define t where "t = tail_of 128 m"
  define enc where "enc = be_bytes 16 (bit_count512 c)"
  have n: "n < 128" "length t = n" by (simp_all add: n_def t_def)
  have c: "h512 c = foldl sha512_compress iv (chunks 128 m)" "num512 c = n" "take n (p512 c) = t"
      "length (p512 c) = 128" "md_len512 c = mdl" "length iv = 8"
    using repr by (auto simp: sha512_repr_def n_def t_def)
  have st: "length (h512 c) = 8" using c length_foldl_sha512 by simp
  have enc: "length enc = 16" by (simp add: enc_def)
  have field: "put64 (Nh512 c) @ put64 (Nl512 c) = enc"
    by (simp only: enc_def bit_count512_bytes)
  have enc_eq: "enc = be_bytes 16 (8 * length m)"
    using repr be_bytes_mod [of 16 "8 * length m"] by (simp add: enc_def sha512_repr_def)
  define buf where "buf = (p512 c)[n := 0x80]"
  have buf: "length buf = 128" "take (n + 1) buf = t @ [0x80]"
    using n c by (simp_all add: buf_def take_Suc_conv_app_nth)
  define z where "z = (2 * 128 - 1 - 16 - n) mod (128 :: nat)"
  define X where "X = foldl sha512_compress (h512 c) (chunks 128 (t @ [0x80] @ replicate z 0 @ enc))"
  have spec: "md_hash 128 sha512_compress iv (be_bytes 16) m = X"
    unfolding md_hash_def md_pad_def enc_eq [symmetric] enc X_def z_def n_def t_def
    by (subst chunks_tail) (simp_all add: c)
  define out where "out h = be_words64 (take (mdl div 8) h)" for h
  have one: "sha512_output False (c\<lparr>p512 := p, h512 := h\<rparr>) = Some (out h)" for p h
    using mdl c(5) by (auto simp: out_def sha512_output_def concat_put64)
  have len: "length (sha512_compress h b) = 8" if "length h = 8" for h b
    using that by (simp add: sha512_compress_def length_fips_compress)
  show ?thesis
  proof (cases "112 < n + 1")
    case True
    define b1 where "b1 = t @ [0x80] @ replicate (127 - n) 0"
    define b2 where "b2 = replicate 112 0 @ enc"
    have "z = 239 - n" using True n by (simp add: z_def mod_if)
    have "replicate z (0 :: u8) = replicate (127 - n) 0 @ replicate 112 0"
      using \<open>z = 239 - n\<close> n(1) by (simp flip: replicate_add)
    then have "t @ [0x80] @ replicate z 0 @ enc = b1 @ b2" by (simp add: b1_def b2_def)
    moreover have bl: "length b1 = 128" "length b2 = 128" using n enc by (simp_all add: b1_def b2_def)
    ultimately have X: "X = sha512_compress (sha512_compress (h512 c) b1) b2"
      by (simp add: X_def chunks_Cons chunks_one)
    have b1: "mem_write buf (n + 1) (replicate (128 - (n + 1)) 0) = b1"
      using n buf by (simp add: mem_write_def b1_def)
    have b2: "mem_write (mem_write b1 0 (replicate (112 - 0) 0)) 112 enc = b2"
      using bl enc by (simp add: mem_write_def b2_def)
    have "Option.bind (SHA512_Final False c) snd
        = Some (out (sha512_block_data_order (sha512_block_data_order (h512 c) b1 1) b2 1))"
      unfolding SHA512_Final_def Let_def c(2) field buf_def [symmetric]
      using True n b1 b2 one by (simp del: sha512_block_data_order.simps One_nat_def)
    then show ?thesis
      using X bl spec st by (simp add: sha512_block_one len out_def del: One_nat_def sha512_block_data_order.simps)
  next
    case False
    define b1 where "b1 = t @ [0x80] @ replicate (111 - n) 0 @ enc"
    have "z = 111 - n" using False n by (simp add: z_def mod_if)
    then have "t @ [0x80] @ replicate z 0 @ enc = b1" by (simp add: b1_def)
    moreover have bl: "length b1 = 128" using n enc False by (simp add: b1_def)
    ultimately have X: "X = sha512_compress (h512 c) b1"
      by (simp only: X_def chunks_one) simp
    have b1: "mem_write (mem_write buf (n + 1) (replicate (112 - (n + 1)) 0)) 112 enc = b1"
    proof -
      have "112 - n = Suc (111 - n)" using False by simp
      then show ?thesis using n buf enc False by (simp add: mem_write_def b1_def)
    qed
    have "Option.bind (SHA512_Final False c) snd = Some (out (sha512_block_data_order (h512 c) b1 1))"
      unfolding SHA512_Final_def Let_def c(2) field buf_def [symmetric]
      using False n b1 one by (simp del: sha512_block_data_order.simps One_nat_def)
    then show ?thesis
      using X bl spec st by (simp add: sha512_block_one out_def del: One_nat_def sha512_block_data_order.simps)
  qed
qed

lemma sha512_init_repr:
  "sha512_repr iv512 64 (SHA512_Init (fresh_sha512 mem)) []"
  "sha512_repr iv384 48 (SHA384_Init (fresh_sha512 mem)) []"
  by (simp_all add: sha512_repr_def SHA512_Init_def SHA384_Init_def fresh_sha512_def iv512_def iv384_def
      chunks_short bit_count512_def)

interpretation sha512: streaming_hash "SHA512_Init (fresh_sha512 mem)" SHA512_Update
    "\<lambda>c. Option.bind (SHA512_Final False c) snd" "sha512_repr iv512 64" sha512_spec
  for mem
proof unfold_locales
  fix s m d
  assume "sha512_repr iv512 64 s m"
  then show "sha512_repr iv512 64 (SHA512_Update s d) (m @ d)"
    by (rule sha512_update_repr)
  have "take 8 (md_hash 128 sha512_compress iv512 (be_bytes 16) m)
      = md_hash 128 sha512_compress iv512 (be_bytes 16) m"
    by (simp add: md_hash_def length_foldl_sha512 iv512_def)
  with sha512_final_repr [OF \<open>sha512_repr iv512 64 s m\<close>]
  show "Option.bind (SHA512_Final False s) snd = Some (sha512_spec m)"
    by (simp add: sha512_spec_def)
qed (rule sha512_init_repr)

interpretation sha384: streaming_hash "SHA384_Init (fresh_sha512 mem)" SHA384_Update
    "\<lambda>c. Option.bind (SHA384_Final False c) snd" "sha512_repr iv384 48" sha384_spec
  for mem
  by unfold_locales
    (simp_all add: sha512_init_repr sha512_update_repr sha512_final_repr SHA384_Update_def SHA384_Final_def
      sha384_spec_def)

end
