(* ===== verification/Sha1.thy ===== *)
theory Sha1
  imports Sha256
begin

text \<open>
  SHA-1, \<open>crypto/fipsmodule/sha/sha1.c\<close> without assembly: the block function with its eighty rounds
  written out over six variables and sixteen words, proved to be the compression of FIPS 180-4, and
  with it the collector of \<open>Md32\<close>.
\<close>

section \<open>The code\<close>

abbreviation (input) rT :: nat where "rT \<equiv> 5"

record sha1_state =
  sha1_v :: "u32 list"
  sha1_X :: "u32 list"
  sha1_in :: bytes

definition K_00_19 :: u32 where "K_00_19 = 0x5a827999"
definition K_20_39 :: u32 where "K_20_39 = 0x6ed9eba1"
definition K_40_59 :: u32 where "K_40_59 = 0x8f1bbcdc"
definition K_60_79 :: u32 where "K_60_79 = 0xca62c1d6"

definition F_00_19 :: "u32 \<Rightarrow> u32 \<Rightarrow> u32 \<Rightarrow> u32" where
  "F_00_19 b c d = ((c XOR d) AND b) XOR d"

definition F_20_39 :: "u32 \<Rightarrow> u32 \<Rightarrow> u32 \<Rightarrow> u32" where
  "F_20_39 b c d = b XOR c XOR d"

definition F_40_59 :: "u32 \<Rightarrow> u32 \<Rightarrow> u32 \<Rightarrow> u32" where
  "F_40_59 b c d = (b AND c) OR ((b OR c) AND d)"

definition F_60_79 :: "u32 \<Rightarrow> u32 \<Rightarrow> u32 \<Rightarrow> u32" where
  "F_60_79 b c d = F_20_39 b c d"

text \<open>\<open>HOST_c2l(data, l); X(i) = l\<close>.\<close>

definition sha1_LOAD :: "nat \<Rightarrow> sha1_state \<Rightarrow> sha1_state" where
  "sha1_LOAD i s =
     (let l = HOST_c2l DATA_ORDER_IS_BIG_ENDIAN (take 4 (sha1_in s))
      in s\<lparr>sha1_X := (sha1_X s)[i := l], sha1_in := drop 4 (sha1_in s)\<rparr>)"

text \<open>\<open>Xupdate(a, ix, ia, ib, ic, id)\<close>: \<open>a\<close> is a variable, the others words of \<open>X\<close>.\<close>

definition Xupdate :: "nat \<Rightarrow> nat \<Rightarrow> nat \<Rightarrow> nat \<Rightarrow> nat \<Rightarrow> nat \<Rightarrow> sha1_state \<Rightarrow> sha1_state" where
  "Xupdate a ix ia ib ic idd s =
     (let X = sha1_X s;
          v = (sha1_v s)[a := X ! ia XOR X ! ib XOR X ! ic XOR X ! idd];
          v = v[a := ROTATE (v ! a) 1]
      in s\<lparr>sha1_v := v, sha1_X := X[ix := v ! a]\<rparr>)"

definition BODY_00_15 :: "nat \<Rightarrow> nat \<Rightarrow> nat \<Rightarrow> nat \<Rightarrow> nat \<Rightarrow> nat \<Rightarrow> nat \<Rightarrow> sha1_state \<Rightarrow> sha1_state" where
  "BODY_00_15 a b c d e f xi s =
     (let v = sha1_v s;
          v = v[f := sha1_X s ! xi + v ! e + K_00_19 + ROTATE (v ! a) 5 + F_00_19 (v ! b) (v ! c) (v ! d)];
          v = v[b := ROTATE (v ! b) 30]
      in s\<lparr>sha1_v := v\<rparr>)"

definition BODY_16_19 :: "nat \<Rightarrow> nat \<Rightarrow> nat \<Rightarrow> nat \<Rightarrow> nat \<Rightarrow> nat \<Rightarrow> nat \<Rightarrow> nat \<Rightarrow> nat \<Rightarrow> nat \<Rightarrow> nat \<Rightarrow> sha1_state \<Rightarrow> sha1_state"
where
  "BODY_16_19 a b c d e f xi xa xb xc xd s =
     (let s = Xupdate f xi xa xb xc xd s;
          v = sha1_v s;
          v = v[f := v ! f + (v ! e + K_00_19 + ROTATE (v ! a) 5 + F_00_19 (v ! b) (v ! c) (v ! d))];
          v = v[b := ROTATE (v ! b) 30]
      in s\<lparr>sha1_v := v\<rparr>)"

definition BODY_20_31 :: "nat \<Rightarrow> nat \<Rightarrow> nat \<Rightarrow> nat \<Rightarrow> nat \<Rightarrow> nat \<Rightarrow> nat \<Rightarrow> nat \<Rightarrow> nat \<Rightarrow> nat \<Rightarrow> nat \<Rightarrow> sha1_state \<Rightarrow> sha1_state"
where
  "BODY_20_31 a b c d e f xi xa xb xc xd s =
     (let s = Xupdate f xi xa xb xc xd s;
          v = sha1_v s;
          v = v[f := v ! f + (v ! e + K_20_39 + ROTATE (v ! a) 5 + F_20_39 (v ! b) (v ! c) (v ! d))];
          v = v[b := ROTATE (v ! b) 30]
      in s\<lparr>sha1_v := v\<rparr>)"

definition BODY_32_39 :: "nat \<Rightarrow> nat \<Rightarrow> nat \<Rightarrow> nat \<Rightarrow> nat \<Rightarrow> nat \<Rightarrow> nat \<Rightarrow> nat \<Rightarrow> nat \<Rightarrow> nat \<Rightarrow> sha1_state \<Rightarrow> sha1_state" where
  "BODY_32_39 a b c d e f xa xb xc xd s =
     (let s = Xupdate f xa xa xb xc xd s;
          v = sha1_v s;
          v = v[f := v ! f + (v ! e + K_20_39 + ROTATE (v ! a) 5 + F_20_39 (v ! b) (v ! c) (v ! d))];
          v = v[b := ROTATE (v ! b) 30]
      in s\<lparr>sha1_v := v\<rparr>)"

definition BODY_40_59 :: "nat \<Rightarrow> nat \<Rightarrow> nat \<Rightarrow> nat \<Rightarrow> nat \<Rightarrow> nat \<Rightarrow> nat \<Rightarrow> nat \<Rightarrow> nat \<Rightarrow> nat \<Rightarrow> sha1_state \<Rightarrow> sha1_state" where
  "BODY_40_59 a b c d e f xa xb xc xd s =
     (let s = Xupdate f xa xa xb xc xd s;
          v = sha1_v s;
          v = v[f := v ! f + (v ! e + K_40_59 + ROTATE (v ! a) 5 + F_40_59 (v ! b) (v ! c) (v ! d))];
          v = v[b := ROTATE (v ! b) 30]
      in s\<lparr>sha1_v := v\<rparr>)"

definition BODY_60_79 :: "nat \<Rightarrow> nat \<Rightarrow> nat \<Rightarrow> nat \<Rightarrow> nat \<Rightarrow> nat \<Rightarrow> nat \<Rightarrow> nat \<Rightarrow> nat \<Rightarrow> nat \<Rightarrow> sha1_state \<Rightarrow> sha1_state" where
  "BODY_60_79 a b c d e f xa xb xc xd s =
     (let s = Xupdate f xa xa xb xc xd s;
          v = sha1_v s;
          v = v[f := sha1_X s ! xa + v ! e + K_60_79 + ROTATE (v ! a) 5 + F_60_79 (v ! b) (v ! c) (v ! d)];
          v = v[b := ROTATE (v ! b) 30]
      in s\<lparr>sha1_v := v\<rparr>)"

definition sha1_rounds :: "(sha1_state \<Rightarrow> sha1_state) list" where
  "sha1_rounds =
    [sha1_LOAD 0, sha1_LOAD 1,
     BODY_00_15 rA rB rC rD rE rT 0, sha1_LOAD 2,
     BODY_00_15 rT rA rB rC rD rE 1, sha1_LOAD 3,
     BODY_00_15 rE rT rA rB rC rD 2, sha1_LOAD 4,
     BODY_00_15 rD rE rT rA rB rC 3, sha1_LOAD 5,
     BODY_00_15 rC rD rE rT rA rB 4, sha1_LOAD 6,
     BODY_00_15 rB rC rD rE rT rA 5, sha1_LOAD 7,
     BODY_00_15 rA rB rC rD rE rT 6, sha1_LOAD 8,
     BODY_00_15 rT rA rB rC rD rE 7, sha1_LOAD 9,
     BODY_00_15 rE rT rA rB rC rD 8, sha1_LOAD 10,
     BODY_00_15 rD rE rT rA rB rC 9, sha1_LOAD 11,
     BODY_00_15 rC rD rE rT rA rB 10, sha1_LOAD 12,
     BODY_00_15 rB rC rD rE rT rA 11, sha1_LOAD 13,
     BODY_00_15 rA rB rC rD rE rT 12, sha1_LOAD 14,
     BODY_00_15 rT rA rB rC rD rE 13, sha1_LOAD 15,
     BODY_00_15 rE rT rA rB rC rD 14, BODY_00_15 rD rE rT rA rB rC 15,
     BODY_16_19 rC rD rE rT rA rB 0 0 2 8 13, BODY_16_19 rB rC rD rE rT rA 1 1 3 9 14,
     BODY_16_19 rA rB rC rD rE rT 2 2 4 10 15, BODY_16_19 rT rA rB rC rD rE 3 3 5 11 0,
     BODY_20_31 rE rT rA rB rC rD 4 4 6 12 1, BODY_20_31 rD rE rT rA rB rC 5 5 7 13 2,
     BODY_20_31 rC rD rE rT rA rB 6 6 8 14 3, BODY_20_31 rB rC rD rE rT rA 7 7 9 15 4,
     BODY_20_31 rA rB rC rD rE rT 8 8 10 0 5, BODY_20_31 rT rA rB rC rD rE 9 9 11 1 6,
     BODY_20_31 rE rT rA rB rC rD 10 10 12 2 7, BODY_20_31 rD rE rT rA rB rC 11 11 13 3 8,
     BODY_20_31 rC rD rE rT rA rB 12 12 14 4 9, BODY_20_31 rB rC rD rE rT rA 13 13 15 5 10,
     BODY_20_31 rA rB rC rD rE rT 14 14 0 6 11, BODY_20_31 rT rA rB rC rD rE 15 15 1 7 12,
     BODY_32_39 rE rT rA rB rC rD 0 2 8 13, BODY_32_39 rD rE rT rA rB rC 1 3 9 14,
     BODY_32_39 rC rD rE rT rA rB 2 4 10 15, BODY_32_39 rB rC rD rE rT rA 3 5 11 0,
     BODY_32_39 rA rB rC rD rE rT 4 6 12 1, BODY_32_39 rT rA rB rC rD rE 5 7 13 2,
     BODY_32_39 rE rT rA rB rC rD 6 8 14 3, BODY_32_39 rD rE rT rA rB rC 7 9 15 4,
     BODY_40_59 rC rD rE rT rA rB 8 10 0 5, BODY_40_59 rB rC rD rE rT rA 9 11 1 6,
     BODY_40_59 rA rB rC rD rE rT 10 12 2 7, BODY_40_59 rT rA rB rC rD rE 11 13 3 8,
     BODY_40_59 rE rT rA rB rC rD 12 14 4 9, BODY_40_59 rD rE rT rA rB rC 13 15 5 10,
     BODY_40_59 rC rD rE rT rA rB 14 0 6 11, BODY_40_59 rB rC rD rE rT rA 15 1 7 12,
     BODY_40_59 rA rB rC rD rE rT 0 2 8 13, BODY_40_59 rT rA rB rC rD rE 1 3 9 14,
     BODY_40_59 rE rT rA rB rC rD 2 4 10 15, BODY_40_59 rD rE rT rA rB rC 3 5 11 0,
     BODY_40_59 rC rD rE rT rA rB 4 6 12 1, BODY_40_59 rB rC rD rE rT rA 5 7 13 2,
     BODY_40_59 rA rB rC rD rE rT 6 8 14 3, BODY_40_59 rT rA rB rC rD rE 7 9 15 4,
     BODY_40_59 rE rT rA rB rC rD 8 10 0 5, BODY_40_59 rD rE rT rA rB rC 9 11 1 6,
     BODY_40_59 rC rD rE rT rA rB 10 12 2 7, BODY_40_59 rB rC rD rE rT rA 11 13 3 8,
     BODY_60_79 rA rB rC rD rE rT 12 14 4 9, BODY_60_79 rT rA rB rC rD rE 13 15 5 10,
     BODY_60_79 rE rT rA rB rC rD 14 0 6 11, BODY_60_79 rD rE rT rA rB rC 15 1 7 12,
     BODY_60_79 rC rD rE rT rA rB 0 2 8 13, BODY_60_79 rB rC rD rE rT rA 1 3 9 14,
     BODY_60_79 rA rB rC rD rE rT 2 4 10 15, BODY_60_79 rT rA rB rC rD rE 3 5 11 0,
     BODY_60_79 rE rT rA rB rC rD 4 6 12 1, BODY_60_79 rD rE rT rA rB rC 5 7 13 2,
     BODY_60_79 rC rD rE rT rA rB 6 8 14 3, BODY_60_79 rB rC rD rE rT rA 7 9 15 4,
     BODY_60_79 rA rB rC rD rE rT 8 10 0 5, BODY_60_79 rT rA rB rC rD rE 9 11 1 6,
     BODY_60_79 rE rT rA rB rC rD 10 12 2 7, BODY_60_79 rD rE rT rA rB rC 11 13 3 8,
     BODY_60_79 rC rD rE rT rA rB 12 14 4 9, BODY_60_79 rB rC rD rE rT rA 13 15 5 10,
     BODY_60_79 rA rB rC rD rE rT 14 0 6 11, BODY_60_79 rT rA rB rC rD rE 15 1 7 12]"

definition SHA1_Init :: HASH_CTX where
  "SHA1_Init = \<lparr>hash_h = [0x67452301, 0xefcdab89, 0x98badcfe, 0x10325476, 0xc3d2e1f0],
     hash_Nl = 0, hash_Nh = 0, hash_data = replicate 64 0, hash_num = 0, hash_md_len = 0\<rparr>"

definition sha1_make_string :: "HASH_CTX \<Rightarrow> bytes option" where
  "sha1_make_string c =
     Some (concat (map (\<lambda>i. HOST_l2c DATA_ORDER_IS_BIG_ENDIAN (hash_h c ! i)) [0, 1, 2, 3, 4]))"

text \<open>The loop tests \<open>--num == 0\<close> at its end, so it wraps around when it is called with 0 blocks (which
  the collector does not do).\<close>

function sha1_block_data_order :: block_fn where
  "sha1_block_data_order st d num =
     (let s = exec sha1_rounds
                \<lparr>sha1_v = [st ! 0, st ! 1, st ! 2, st ! 3, st ! 4, 0], sha1_X = replicate 16 0, sha1_in = d\<rparr>;
          v = sha1_v s;
          st = [(st ! 0 + v ! rE) AND 0xffffffff, (st ! 1 + v ! rT) AND 0xffffffff,
                (st ! 2 + v ! rA) AND 0xffffffff, (st ! 3 + v ! rB) AND 0xffffffff,
                (st ! 4 + v ! rC) AND 0xffffffff];
          num = (if num = 0 then size_max else num - 1)
      in if num = 0 then st else sha1_block_data_order st (sha1_in s) num)"
  by pat_completeness auto
termination
  by (relation "measure (\<lambda>(st, d, num). if num = 0 then size_max + 1 else num)") (auto split: if_splits)

declare sha1_block_data_order.simps [simp del]

definition SHA1_Update :: "HASH_CTX \<Rightarrow> bytes \<Rightarrow> HASH_CTX" where
  "SHA1_Update = HASH_UPDATE sha1_block_data_order"

definition SHA1_Transform :: "HASH_CTX \<Rightarrow> bytes \<Rightarrow> HASH_CTX" where
  "SHA1_Transform = HASH_TRANSFORM sha1_block_data_order"

definition SHA1_Final :: "HASH_CTX \<Rightarrow> (HASH_CTX \<times> bytes option) option" where
  "SHA1_Final = HASH_FINAL sha1_block_data_order DATA_ORDER_IS_BIG_ENDIAN sha1_make_string"

definition SHA1 :: "bytes \<Rightarrow> bytes option" where
  "SHA1 data = Option.bind (SHA1_Final (SHA1_Update SHA1_Init data)) snd"

section \<open>FIPS 180-4\<close>

fun sha1_schedule :: "u32 list \<Rightarrow> nat \<Rightarrow> u32" where
  "sha1_schedule ws t =
     (if t < 16 then ws ! t
      else word_rotl 1 (sha1_schedule ws (t - 3) XOR sha1_schedule ws (t - 8)
             XOR sha1_schedule ws (t - 14) XOR sha1_schedule ws (t - 16)))"

declare sha1_schedule.simps [simp del]

definition Parity :: "u32 \<Rightarrow> u32 \<Rightarrow> u32 \<Rightarrow> u32" where
  "Parity x y z = x XOR y XOR z"

definition sha1_f :: "nat \<Rightarrow> u32 \<Rightarrow> u32 \<Rightarrow> u32 \<Rightarrow> u32" where
  "sha1_f t = (if t < 20 then Ch else if t < 40 then Parity else if t < 60 then Maj else Parity)"

definition sha1_K :: "nat \<Rightarrow> u32" where
  "sha1_K t = (if t < 20 then 0x5a827999 else if t < 40 then 0x6ed9eba1
     else if t < 60 then 0x8f1bbcdc else 0xca62c1d6)"

definition sha1_step :: "u32 list \<Rightarrow> u32 list \<Rightarrow> nat \<Rightarrow> u32 list" where
  "sha1_step ws v t =
     [word_rotl 5 (v ! 0) + sha1_f t (v ! 1) (v ! 2) (v ! 3) + v ! 4 + sha1_K t + sha1_schedule ws t,
      v ! 0, word_rotl 30 (v ! 1), v ! 2, v ! 3]"

definition sha1_compress :: "u32 list \<Rightarrow> bytes \<Rightarrow> u32 list" where
  "sha1_compress H b =
     map2 (+) H (foldl (sha1_step (words32 DATA_ORDER_IS_BIG_ENDIAN b)) H [0..<80])"

text \<open>The initial words \<open>H\<close> of section 5.3.1.\<close>

definition sha1_iv :: "u32 list" where
  "sha1_iv = [0x67452301, 0xefcdab89, 0x98badcfe, 0x10325476, 0xc3d2e1f0]"

definition sha1_spec :: "bytes \<Rightarrow> bytes" where
  "sha1_spec m = be_words (md_hash 64 sha1_compress sha1_iv (bit_length64 DATA_ORDER_IS_BIG_ENDIAN) m)"

section \<open>The code computes it\<close>

lemma F_Ch: "F_00_19 b c d = Ch b c d"
  by (rule bit_word_eqI) (auto simp: F_00_19_def Ch_def bit_simps)

lemma F_Parity: "F_20_39 = Parity" "F_60_79 = Parity"
  by (simp_all add: fun_eq_iff F_20_39_def F_60_79_def Parity_def)

lemma F_Maj: "F_40_59 b c d = Maj b c d"
  by (rule bit_word_eqI) (auto simp: F_40_59_def Maj_def bit_simps)

text \<open>The round \<open>t\<close> as the code has it, its arguments computed from \<open>t\<close>.\<close>

definition sha1_round :: "nat \<Rightarrow> sha1_state \<Rightarrow> sha1_state" where
  "sha1_round t =
     (let a = role 6 t 0; b = role 6 t 1; c = role 6 t 2; d = role 6 t 3; e = role 6 t 4; f = role 6 t 5;
          x = t mod 16; xb = (t + 2) mod 16; xc = (t + 8) mod 16; xd = (t + 13) mod 16
      in if t < 16 then BODY_00_15 a b c d e f x
         else if t < 20 then BODY_16_19 a b c d e f x x xb xc xd
         else if t < 32 then BODY_20_31 a b c d e f x x xb xc xd
         else if t < 40 then BODY_32_39 a b c d e f x xb xc xd
         else if t < 60 then BODY_40_59 a b c d e f x xb xc xd
         else BODY_60_79 a b c d e f x xb xc xd)"

lemma sha1_rounds_rotate:
  "sha1_rounds = sha1_LOAD 0 # concat (map (\<lambda>t. [sha1_LOAD (t + 1), sha1_round t]) [0..<15])
     @ [sha1_round 15] @ map sha1_round [16..<80]"
proof -
  have "[0..<15] = [0, 1, 2, 3, 4, 5, 6, 7, 8, 9, 10, 11, 12, 13, 14 :: nat]"
    by (simp add: upt_rec)
  then show ?thesis by (simp add: sha1_rounds_def sha1_round_def role_def numeral_2_eq_2 [symmetric])
qed

text \<open>Before round \<open>t\<close>, with \<open>m\<close> words of the schedule so far.\<close>

definition sha1_inv :: "u32 list \<Rightarrow> u32 list \<Rightarrow> nat \<Rightarrow> nat \<Rightarrow> sha1_state \<Rightarrow> bool" where
  "sha1_inv ws H m t s \<longleftrightarrow>
     length (sha1_v s) = 6 \<and> take 5 (roles 6 t (sha1_v s)) = foldl (sha1_step ws) H [0..<t]
     \<and> length (sha1_X s) = 16
     \<and> (\<forall>k. k < m \<longrightarrow> m \<le> k + 16 \<longrightarrow> sha1_X s ! (k mod 16) = sha1_schedule ws k)"

text \<open>What every kind of round does to the variables, the word of the schedule being \<open>w\<close>.\<close>

lemma sha1_vars_step:
  assumes v: "length v = 6" "take 5 (roles 6 t v) = foldl (sha1_step ws) H [0..<t]"
    and w: "w = sha1_schedule ws t"
  defines "r \<equiv> role 6 t"
  defines "n \<equiv> w + v ! r 4 + sha1_K t + word_rotl 5 (v ! r 0) + sha1_f t (v ! r 1) (v ! r 2) (v ! r 3)"
  shows "take 5 (roles 6 (Suc t) (v[r 5 := n, r 1 := word_rotl 30 (v ! r 1)]))
    = foldl (sha1_step ws) H [0..<Suc t]"
proof -
  obtain a b c d e f where abc: "roles 6 t v = [a, b, c, d, e, f]"
    using length_roles [of 6 t v] by (auto simp: length_Suc_conv numeral_eq_Suc simp del: length_roles)
  have "roles 6 t (v[r 5 := n, r 1 := word_rotl 30 (v ! r 1)]) = [a, word_rotl 30 b, c, d, e, n]"
    using v by (simp add: r_def roles_update abc nth_role)
  moreover have "n = word_rotl 5 a + sha1_f t b c d + e + sha1_K t + sha1_schedule ws t"
    by (simp add: n_def r_def nth_role abc w ac_simps)
  ultimately show ?thesis
    using v(2) by (simp add: roles_Suc abc sha1_step_def flip: v(2))
qed

lemma sha1_first_round:
  assumes I: "sha1_inv ws H m t s" and t: "t < 16" "t < m" "m \<le> 16"
  shows "sha1_inv ws H m (Suc t) (sha1_round t s)" and "sha1_in (sha1_round t s) = sha1_in s"
proof -
  have X: "sha1_X s ! t = sha1_schedule ws t"
    using I t by (auto simp: sha1_inv_def)
  have v: "length (sha1_v s) = 6" "take 5 (roles 6 t (sha1_v s)) = foldl (sha1_step ws) H [0..<t]"
    using I by (simp_all add: sha1_inv_def)
  have K: "sha1_K t = K_00_19" "sha1_f t = F_00_19" if "t < 20"
    using that by (simp_all add: sha1_K_def K_00_19_def sha1_f_def F_Ch fun_eq_iff)
  have r: "sha1_round t s = s\<lparr>sha1_v := (let v = sha1_v s; r = role 6 t in
      v[r 5 := sha1_schedule ws t + v ! r 4 + sha1_K t + word_rotl 5 (v ! r 0) + sha1_f t (v ! r 1) (v ! r 2) (v ! r 3),
        r 1 := word_rotl 30 (v ! r 1)])\<rparr>"
    using t v(1) X
    by (simp add: sha1_round_def BODY_00_15_def Let_def K ROTATE_rotl role_inj nth_list_update)
  show "sha1_inv ws H m (Suc t) (sha1_round t s)"
    using I sha1_vars_step [OF v refl] by (simp add: sha1_inv_def r Let_def)
  show "sha1_in (sha1_round t s) = sha1_in s" by (simp add: r)
qed

lemma Xupdate_eq:
  assumes "a < length (sha1_v s)"
    and "ROTATE (sha1_X s ! ia XOR sha1_X s ! ib XOR sha1_X s ! ic XOR sha1_X s ! idd) 1 = x"
  shows "Xupdate a ix ia ib ic idd s = s\<lparr>sha1_v := (sha1_v s)[a := x], sha1_X := (sha1_X s)[ix := x]\<rparr>"
  using assms by (simp add: Xupdate_def Let_def)

lemma sha1_later_round:
  assumes I: "sha1_inv ws H t t s" and t: "16 \<le> t" "t < 80"
  shows "sha1_inv ws H (Suc t) (Suc t) (sha1_round t s)" and "sha1_in (sha1_round t s) = sha1_in s"
proof -
  have X: "sha1_X s ! (k mod 16) = sha1_schedule ws k" if "k < t" "t \<le> k + 16" for k
    using I that by (simp add: sha1_inv_def)
  have X': "sha1_X s ! (t mod 16) = sha1_schedule ws (t - 16)" "sha1_X s ! ((t + 2) mod 16) = sha1_schedule ws (t - 14)"
      "sha1_X s ! ((t + 8) mod 16) = sha1_schedule ws (t - 8)" "sha1_X s ! ((t + 13) mod 16) = sha1_schedule ws (t - 3)"
    using X [of "t - 16"] X [of "t - 14"] X [of "t - 8"] X [of "t - 3"] t
    by (simp_all add: mod16_minus del: add_Suc_right)
  define w where "w = sha1_schedule ws t"
  have w: "ROTATE (sha1_X s ! (t mod 16) XOR sha1_X s ! ((t + 2) mod 16) XOR sha1_X s ! ((t + 8) mod 16)
      XOR sha1_X s ! ((t + 13) mod 16)) 1 = w"
    unfolding X' w_def using t by (simp add: ROTATE_rotl sha1_schedule.simps [of ws t] ac_simps)
  have v: "length (sha1_v s) = 6" "take 5 (roles 6 t (sha1_v s)) = foldl (sha1_step ws) H [0..<t]"
    and l: "length (sha1_X s) = 16"
    using I by (simp_all add: sha1_inv_def)
  let ?r = "role 6 t"
  have lt: "?r j < 6" for j by simp
  have up: "Xupdate (?r 5) (t mod 16) (t mod 16) ((t + 2) mod 16) ((t + 8) mod 16) ((t + 13) mod 16) s
      = s\<lparr>sha1_v := (sha1_v s)[?r 5 := w], sha1_X := (sha1_X s)[t mod 16 := w]\<rparr>"
    using v(1) lt w by (intro Xupdate_eq) simp_all
  define v' where "v' = (let v = sha1_v s; r = ?r in
      v[r 5 := w + v ! r 4 + sha1_K t + word_rotl 5 (v ! r 0) + sha1_f t (v ! r 1) (v ! r 2) (v ! r 3),
        r 1 := word_rotl 30 (v ! r 1)])"
  have r: "sha1_round t s = s\<lparr>sha1_v := v', sha1_X := (sha1_X s)[t mod 16 := w]\<rparr>"
  proof -
    consider "t < 20" | "20 \<le> t" "t < 32" | "32 \<le> t" "t < 40" | "40 \<le> t" "t < 60" | "60 \<le> t"
      by linarith
    then show ?thesis
      using t v(1) l lt
      by cases
        (simp_all add: sha1_round_def BODY_16_19_def BODY_20_31_def BODY_32_39_def BODY_40_59_def
          BODY_60_79_def Let_def up v'_def sha1_K_def sha1_f_def K_00_19_def K_20_39_def K_40_59_def
          K_60_79_def F_Ch F_Parity F_Maj ROTATE_rotl role_inj nth_list_update ac_simps del: add_2_eq_Suc')
  qed
  have "(sha1_X s)[t mod 16 := w] ! (k mod 16) = sha1_schedule ws k" if "k < Suc t" "Suc t \<le> k + 16" for k
  proof (cases "k = t")
    case True
    with l show ?thesis by (simp add: w_def)
  next
    case False
    with that have "k mod 16 \<noteq> t mod 16" by (intro mod16_inj) simp_all
    with that False X show ?thesis by simp
  qed
  with v l sha1_vars_step [OF v w_def] show "sha1_inv ws H (Suc t) (Suc t) (sha1_round t s)"
    by (simp add: sha1_inv_def r v'_def Let_def)
  show "sha1_in (sha1_round t s) = sha1_in s" by (simp add: r)
qed

lemma sha1_LOAD_inv:
  assumes I: "sha1_inv ws H m t s" "m < 16" and b: "length b = 64" "sha1_in s = drop (4 * m) b @ rest"
    and ws: "ws = words32 DATA_ORDER_IS_BIG_ENDIAN b"
  shows "sha1_inv ws H (Suc m) t (sha1_LOAD m s)" and "sha1_in (sha1_LOAD m s) = drop (4 * Suc m) b @ rest"
proof -
  have "take 4 (sha1_in s) = take 4 (drop (4 * m) b)" and d: "drop 4 (sha1_in s) = drop (4 * Suc m) b @ rest"
    using I b by simp_all
  then have "HOST_c2l DATA_ORDER_IS_BIG_ENDIAN (take 4 (sha1_in s)) = sha1_schedule ws m"
    using I b ws by (simp add: words32_nth sha1_schedule.simps)
  then have l: "sha1_LOAD m s = s\<lparr>sha1_X := (sha1_X s)[m := sha1_schedule ws m], sha1_in := drop 4 (sha1_in s)\<rparr>"
    by (simp only: sha1_LOAD_def Let_def)
  show "sha1_inv ws H (Suc m) t (sha1_LOAD m s)"
    using I by (auto simp: sha1_inv_def l nth_list_update less_Suc_eq)
  show "sha1_in (sha1_LOAD m s) = drop (4 * Suc m) b @ rest"
    using d by (simp add: l)
qed

lemma sha1_rounds_inv:
  assumes H: "length H = 5" and b: "length b = 64"
  shows "sha1_inv (words32 DATA_ORDER_IS_BIG_ENDIAN b) H 80 80 (exec sha1_rounds
      \<lparr>sha1_v = [H ! 0, H ! 1, H ! 2, H ! 3, H ! 4, 0], sha1_X = replicate 16 0, sha1_in = b @ rest\<rparr>)"
    (is "sha1_inv ?ws _ _ _ (exec _ ?s)")
    and "sha1_in (exec sha1_rounds
      \<lparr>sha1_v = [H ! 0, H ! 1, H ! 2, H ! 3, H ! 4, 0], sha1_X = replicate 16 0, sha1_in = b @ rest\<rparr>) = rest"
proof -
  have "[H ! 0, H ! 1, H ! 2, H ! 3, H ! 4] = H"
    using H by (auto simp: length_Suc_conv numeral_eq_Suc)
  then have "sha1_inv ?ws H 0 0 ?s" by (simp add: sha1_inv_def)
  note s0 = sha1_LOAD_inv [OF this _ b, of rest]
  let ?I = "\<lambda>t s. sha1_inv ?ws H (Suc t) t s \<and> sha1_in s = drop (4 * Suc t) b @ rest"
  have "?I (0 + 15) (exec (concat (map (\<lambda>t. [sha1_LOAD (t + 1), sha1_round t]) [0..<15])) (sha1_LOAD 0 ?s))"
  proof (rule exec_rounds)
    fix t s
    assume t: "t < 15" and I: "?I (0 + t) s"
    then have l: "sha1_inv ?ws H (Suc (Suc t)) t (sha1_LOAD (Suc t) s)"
        "sha1_in (sha1_LOAD (Suc t) s) = drop (4 * Suc (Suc t)) b @ rest"
      using sha1_LOAD_inv [of ?ws H "Suc t" t s b rest] b by simp_all
    with t show "?I (Suc (0 + t)) (exec [sha1_LOAD (t + 1), sha1_round t] s)"
      using sha1_first_round [OF l(1)] by simp
  qed (use s0 in simp)
  then have "sha1_inv ?ws H 16 15 s1 \<and> sha1_in s1 = rest"
    if "s1 = exec (concat (map (\<lambda>t. [sha1_LOAD (t + 1), sha1_round t]) [0..<15])) (sha1_LOAD 0 ?s)" for s1
    using that b by simp
  then have s2: "sha1_inv ?ws H 16 16 s2 \<and> sha1_in s2 = rest"
    if "s2 = sha1_round 15 (exec (concat (map (\<lambda>t. [sha1_LOAD (t + 1), sha1_round t]) [0..<15])) (sha1_LOAD 0 ?s))"
    for s2
    using that sha1_first_round [of ?ws H 16 15] by fastforce
  have later: "map sha1_round [16..<80] = concat (map (\<lambda>j. [sha1_round (16 + j)]) [0..<64])"
    by (simp add: upt_rec)
  let ?J = "\<lambda>t s. sha1_inv ?ws H t t s \<and> sha1_in s = rest"
  have "?J (16 + 64) (exec sha1_rounds ?s)"
    unfolding sha1_rounds_rotate exec_Cons exec_append later
  proof (rule exec_rounds)
    fix j s
    assume "j < 64" and "?J (16 + j) s"
    then show "?J (Suc (16 + j)) (exec [sha1_round (16 + j)] s)"
      using sha1_later_round [of ?ws H "16 + j" s] by simp
  qed (use s2 in simp)
  then show "sha1_inv ?ws H 80 80 (exec sha1_rounds ?s)" "sha1_in (exec sha1_rounds ?s) = rest"
    by simp_all
qed

lemma sha1_block_step:
  assumes H: "length H = 5" and b: "length b = 64"
  shows "sha1_block_data_order H (b @ rest) (Suc n)
    = (if n = 0 then sha1_compress H b else sha1_block_data_order (sha1_compress H b) rest n)"
proof -
  define s where "s = exec sha1_rounds
      \<lparr>sha1_v = [H ! 0, H ! 1, H ! 2, H ! 3, H ! 4, 0], sha1_X = replicate 16 0, sha1_in = b @ rest\<rparr>"
  let ?v = "sha1_v s"
  have v: "length ?v = 6" "take 5 (roles 6 80 ?v) = foldl (sha1_step (words32 DATA_ORDER_IS_BIG_ENDIAN b)) H [0..<80]"
    and rest: "sha1_in s = rest"
    using sha1_rounds_inv [OF H b, of rest] by (simp_all add: s_def sha1_inv_def)
  have "take 5 (roles 6 80 ?v) = [?v ! rE, ?v ! rT, ?v ! rA, ?v ! rB, ?v ! rC]"
    by (simp add: roles_def role_def upt_rec numeral_2_eq_2 [symmetric])
  with v(2) have c: "sha1_compress H b = map2 (+) H [?v ! rE, ?v ! rT, ?v ! rA, ?v ! rB, ?v ! rC]"
    by (simp add: sha1_compress_def)
  have "(0xffffffff :: u32) = - 1" by simp
  then have m: "(x :: u32) AND 0xffffffff = x" for x by (simp only: bit.conj_one_right)
  have "[H ! 0 + ?v ! rE, H ! 1 + ?v ! rT, H ! 2 + ?v ! rA, H ! 3 + ?v ! rB, H ! 4 + ?v ! rC] = sha1_compress H b"
    using H unfolding c by (auto simp: length_Suc_conv numeral_eq_Suc)
  then show ?thesis
    by (subst sha1_block_data_order.simps) (simp only: Let_def s_def [symmetric] m rest nat.distinct if_False diff_Suc_1)
qed

lemma length_sha1_compress [simp]: "length H = 5 \<Longrightarrow> length (sha1_compress H b) = 5"
proof -
  assume "length H = 5"
  moreover have "length (foldl (sha1_step ws) H [0..<80]) = 5" for ws
    using upt_Suc [of 0 79] by (simp add: sha1_step_def)
  ultimately show ?thesis by (simp add: sha1_compress_def)
qed

lemma sha1_block_folds:
  assumes "length H = 5" and "0 < n" and "length d = 64 * n"
  shows "sha1_block_data_order H (d @ rest) n = foldl sha1_compress H (chunks 64 d)"
  using assms
proof (induction n arbitrary: H d)
  case (Suc n)
  define b where "b = take 64 d"
  have b: "d = b @ drop 64 d" "length b = 64" using Suc.prems by (simp_all add: b_def)
  have "sha1_block_data_order H (d @ rest) (Suc n)
      = (if n = 0 then sha1_compress H b else sha1_block_data_order (sha1_compress H b) (drop 64 d @ rest) n)"
    using sha1_block_step [OF Suc.prems(1) b(2), of "drop 64 d @ rest" n] b(1) by (metis append.assoc)
  also have "\<dots> = foldl sha1_compress (sha1_compress H b) (chunks 64 (drop 64 d))"
    using Suc by (cases "n = 0") (simp_all add: chunks_short)
  also have "\<dots> = foldl sha1_compress H (chunks 64 (b @ drop 64 d))"
    using b(2) by (simp add: chunks_Cons)
  finally show ?case by (simp only: b(1) [symmetric])
qed simp

interpretation sha1: md32 sha1_compress sha1_block_data_order DATA_ORDER_IS_BIG_ENDIAN 5
    sha1_iv 0 sha1_make_string be_words
proof unfold_locales
  fix c :: HASH_CTX
  assume "length (hash_h c) = 5"
  then have h: "map (\<lambda>i. hash_h c ! i) [0, 1, 2, 3, 4] = hash_h c"
    by (auto simp: length_Suc_conv numeral_eq_Suc)
  have "map (\<lambda>i. f (hash_h c ! i)) js = map f (map (\<lambda>i. hash_h c ! i) js)" for f :: "u32 \<Rightarrow> bytes" and js
    by simp
  then show "sha1_make_string c = Some (be_words (hash_h c))"
    by (simp only: sha1_make_string_def h concat_words)
qed (simp_all add: sha1_block_folds sha1_iv_def)

definition sha1_repr :: "HASH_CTX \<Rightarrow> bytes \<Rightarrow> bool" where
  "sha1_repr = md32_repr sha1_compress sha1_iv 0"

lemma SHA1_Init_md32: "SHA1_Init = md32_init sha1_iv 0"
  by (simp add: SHA1_Init_def md32_init_def sha1_iv_def)

interpretation sha1_stream: streaming_hash SHA1_Init SHA1_Update
    "\<lambda>c. Option.bind (SHA1_Final c) snd" sha1_repr sha1_spec
  using sha1.streaming_hash_axioms
  by (simp add: SHA1_Init_md32 [symmetric] SHA1_Update_def SHA1_Final_def sha1_repr_def sha1_spec_def [abs_def])

end
