(* ===== verification/Md45.thy ===== *)
theory Md45
  imports Unrolled
begin

text \<open>
  MD4 and MD5, \<open>crypto/fipsmodule/md4/md4.c\<close> and \<open>md5/md5.c\<close> without assembly: the block functions with
  their rounds written out over four variables, proved to be the compressions of RFC 1320 and RFC 1321,
  and with them the collector of \<open>Md32\<close>.
\<close>

section \<open>The code\<close>

record md_state =
  md_v :: "u32 list"
  md_X :: "u32 list"
  md_in :: bytes

text \<open>\<open>HOST_c2l(data, l); X(i) = l\<close>.\<close>

definition md_LOAD :: "nat \<Rightarrow> md_state \<Rightarrow> md_state" where
  "md_LOAD i s =
     (let l = HOST_c2l DATA_ORDER_IS_LITTLE_ENDIAN (take 4 (md_in s))
      in s\<lparr>md_X := (md_X s)[i := l], md_in := drop 4 (md_in s)\<rparr>)"

text \<open>The macros \<open>R0\<close>, \<open>R1\<close>, ... differ in their function \<open>f\<close>. Those of MD5 have a third statement,
  \<open>(a) += (b)\<close>.\<close>

definition md_R ::
  "bool \<Rightarrow> (u32 \<Rightarrow> u32 \<Rightarrow> u32 \<Rightarrow> u32) \<Rightarrow> nat \<Rightarrow> nat \<Rightarrow> nat \<Rightarrow> nat \<Rightarrow> nat \<Rightarrow> nat \<Rightarrow> u32 \<Rightarrow> md_state \<Rightarrow> md_state"
where
  "md_R md5 f a b c d k s t st =
     (let v = md_v st;
          v = v[a := v ! a + (md_X st ! k + t + f (v ! b) (v ! c) (v ! d))];
          v = v[a := ROTATE (v ! a) s];
          v = (if md5 then v[a := v ! a + v ! b] else v)
      in st\<lparr>md_v := v\<rparr>)"

definition md_F :: "u32 \<Rightarrow> u32 \<Rightarrow> u32 \<Rightarrow> u32" where
  "md_F b c d = ((c XOR d) AND b) XOR d"

definition md4_G :: "u32 \<Rightarrow> u32 \<Rightarrow> u32 \<Rightarrow> u32" where
  "md4_G b c d = (b AND c) OR (b AND d) OR (c AND d)"

definition md_H :: "u32 \<Rightarrow> u32 \<Rightarrow> u32 \<Rightarrow> u32" where
  "md_H b c d = b XOR c XOR d"

definition md5_G :: "u32 \<Rightarrow> u32 \<Rightarrow> u32 \<Rightarrow> u32" where
  "md5_G b c d = ((b XOR c) AND d) XOR c"

definition md5_I :: "u32 \<Rightarrow> u32 \<Rightarrow> u32 \<Rightarrow> u32" where
  "md5_I b c d = (NOT d OR b) XOR c"

definition md4_R0 :: "nat \<Rightarrow> nat \<Rightarrow> nat \<Rightarrow> nat \<Rightarrow> nat \<Rightarrow> nat \<Rightarrow> u32 \<Rightarrow> md_state \<Rightarrow> md_state" where
  "md4_R0 = md_R False md_F"

definition md4_R1 :: "nat \<Rightarrow> nat \<Rightarrow> nat \<Rightarrow> nat \<Rightarrow> nat \<Rightarrow> nat \<Rightarrow> u32 \<Rightarrow> md_state \<Rightarrow> md_state" where
  "md4_R1 = md_R False md4_G"

definition md4_R2 :: "nat \<Rightarrow> nat \<Rightarrow> nat \<Rightarrow> nat \<Rightarrow> nat \<Rightarrow> nat \<Rightarrow> u32 \<Rightarrow> md_state \<Rightarrow> md_state" where
  "md4_R2 = md_R False md_H"

definition md5_R0 :: "nat \<Rightarrow> nat \<Rightarrow> nat \<Rightarrow> nat \<Rightarrow> nat \<Rightarrow> nat \<Rightarrow> u32 \<Rightarrow> md_state \<Rightarrow> md_state" where
  "md5_R0 = md_R True md_F"

definition md5_R1 :: "nat \<Rightarrow> nat \<Rightarrow> nat \<Rightarrow> nat \<Rightarrow> nat \<Rightarrow> nat \<Rightarrow> u32 \<Rightarrow> md_state \<Rightarrow> md_state" where
  "md5_R1 = md_R True md5_G"

definition md5_R2 :: "nat \<Rightarrow> nat \<Rightarrow> nat \<Rightarrow> nat \<Rightarrow> nat \<Rightarrow> nat \<Rightarrow> u32 \<Rightarrow> md_state \<Rightarrow> md_state" where
  "md5_R2 = md_R True md_H"

definition md5_R3 :: "nat \<Rightarrow> nat \<Rightarrow> nat \<Rightarrow> nat \<Rightarrow> nat \<Rightarrow> nat \<Rightarrow> u32 \<Rightarrow> md_state \<Rightarrow> md_state" where
  "md5_R3 = md_R True md5_I"

definition md4_rounds :: "(md_state \<Rightarrow> md_state) list" where
  "md4_rounds =
    [md_LOAD 0, md_LOAD 1,
     md4_R0 rA rB rC rD 0 3 0, md_LOAD 2,
     md4_R0 rD rA rB rC 1 7 0, md_LOAD 3,
     md4_R0 rC rD rA rB 2 11 0, md_LOAD 4,
     md4_R0 rB rC rD rA 3 19 0, md_LOAD 5,
     md4_R0 rA rB rC rD 4 3 0, md_LOAD 6,
     md4_R0 rD rA rB rC 5 7 0, md_LOAD 7,
     md4_R0 rC rD rA rB 6 11 0, md_LOAD 8,
     md4_R0 rB rC rD rA 7 19 0, md_LOAD 9,
     md4_R0 rA rB rC rD 8 3 0, md_LOAD 10,
     md4_R0 rD rA rB rC 9 7 0, md_LOAD 11,
     md4_R0 rC rD rA rB 10 11 0, md_LOAD 12,
     md4_R0 rB rC rD rA 11 19 0, md_LOAD 13,
     md4_R0 rA rB rC rD 12 3 0, md_LOAD 14,
     md4_R0 rD rA rB rC 13 7 0, md_LOAD 15,
     md4_R0 rC rD rA rB 14 11 0, md4_R0 rB rC rD rA 15 19 0,
     md4_R1 rA rB rC rD 0 3 0x5A827999, md4_R1 rD rA rB rC 4 5 0x5A827999,
     md4_R1 rC rD rA rB 8 9 0x5A827999, md4_R1 rB rC rD rA 12 13 0x5A827999,
     md4_R1 rA rB rC rD 1 3 0x5A827999, md4_R1 rD rA rB rC 5 5 0x5A827999,
     md4_R1 rC rD rA rB 9 9 0x5A827999, md4_R1 rB rC rD rA 13 13 0x5A827999,
     md4_R1 rA rB rC rD 2 3 0x5A827999, md4_R1 rD rA rB rC 6 5 0x5A827999,
     md4_R1 rC rD rA rB 10 9 0x5A827999, md4_R1 rB rC rD rA 14 13 0x5A827999,
     md4_R1 rA rB rC rD 3 3 0x5A827999, md4_R1 rD rA rB rC 7 5 0x5A827999,
     md4_R1 rC rD rA rB 11 9 0x5A827999, md4_R1 rB rC rD rA 15 13 0x5A827999,
     md4_R2 rA rB rC rD 0 3 0x6ED9EBA1, md4_R2 rD rA rB rC 8 9 0x6ED9EBA1,
     md4_R2 rC rD rA rB 4 11 0x6ED9EBA1, md4_R2 rB rC rD rA 12 15 0x6ED9EBA1,
     md4_R2 rA rB rC rD 2 3 0x6ED9EBA1, md4_R2 rD rA rB rC 10 9 0x6ED9EBA1,
     md4_R2 rC rD rA rB 6 11 0x6ED9EBA1, md4_R2 rB rC rD rA 14 15 0x6ED9EBA1,
     md4_R2 rA rB rC rD 1 3 0x6ED9EBA1, md4_R2 rD rA rB rC 9 9 0x6ED9EBA1,
     md4_R2 rC rD rA rB 5 11 0x6ED9EBA1, md4_R2 rB rC rD rA 13 15 0x6ED9EBA1,
     md4_R2 rA rB rC rD 3 3 0x6ED9EBA1, md4_R2 rD rA rB rC 11 9 0x6ED9EBA1,
     md4_R2 rC rD rA rB 7 11 0x6ED9EBA1, md4_R2 rB rC rD rA 15 15 0x6ED9EBA1]"

definition md5_rounds :: "(md_state \<Rightarrow> md_state) list" where
  "md5_rounds =
    [md_LOAD 0, md_LOAD 1,
     md5_R0 rA rB rC rD 0 7 0xd76aa478, md_LOAD 2,
     md5_R0 rD rA rB rC 1 12 0xe8c7b756, md_LOAD 3,
     md5_R0 rC rD rA rB 2 17 0x242070db, md_LOAD 4,
     md5_R0 rB rC rD rA 3 22 0xc1bdceee, md_LOAD 5,
     md5_R0 rA rB rC rD 4 7 0xf57c0faf, md_LOAD 6,
     md5_R0 rD rA rB rC 5 12 0x4787c62a, md_LOAD 7,
     md5_R0 rC rD rA rB 6 17 0xa8304613, md_LOAD 8,
     md5_R0 rB rC rD rA 7 22 0xfd469501, md_LOAD 9,
     md5_R0 rA rB rC rD 8 7 0x698098d8, md_LOAD 10,
     md5_R0 rD rA rB rC 9 12 0x8b44f7af, md_LOAD 11,
     md5_R0 rC rD rA rB 10 17 0xffff5bb1, md_LOAD 12,
     md5_R0 rB rC rD rA 11 22 0x895cd7be, md_LOAD 13,
     md5_R0 rA rB rC rD 12 7 0x6b901122, md_LOAD 14,
     md5_R0 rD rA rB rC 13 12 0xfd987193, md_LOAD 15,
     md5_R0 rC rD rA rB 14 17 0xa679438e, md5_R0 rB rC rD rA 15 22 0x49b40821,
     md5_R1 rA rB rC rD 1 5 0xf61e2562, md5_R1 rD rA rB rC 6 9 0xc040b340,
     md5_R1 rC rD rA rB 11 14 0x265e5a51, md5_R1 rB rC rD rA 0 20 0xe9b6c7aa,
     md5_R1 rA rB rC rD 5 5 0xd62f105d, md5_R1 rD rA rB rC 10 9 0x02441453,
     md5_R1 rC rD rA rB 15 14 0xd8a1e681, md5_R1 rB rC rD rA 4 20 0xe7d3fbc8,
     md5_R1 rA rB rC rD 9 5 0x21e1cde6, md5_R1 rD rA rB rC 14 9 0xc33707d6,
     md5_R1 rC rD rA rB 3 14 0xf4d50d87, md5_R1 rB rC rD rA 8 20 0x455a14ed,
     md5_R1 rA rB rC rD 13 5 0xa9e3e905, md5_R1 rD rA rB rC 2 9 0xfcefa3f8,
     md5_R1 rC rD rA rB 7 14 0x676f02d9, md5_R1 rB rC rD rA 12 20 0x8d2a4c8a,
     md5_R2 rA rB rC rD 5 4 0xfffa3942, md5_R2 rD rA rB rC 8 11 0x8771f681,
     md5_R2 rC rD rA rB 11 16 0x6d9d6122, md5_R2 rB rC rD rA 14 23 0xfde5380c,
     md5_R2 rA rB rC rD 1 4 0xa4beea44, md5_R2 rD rA rB rC 4 11 0x4bdecfa9,
     md5_R2 rC rD rA rB 7 16 0xf6bb4b60, md5_R2 rB rC rD rA 10 23 0xbebfbc70,
     md5_R2 rA rB rC rD 13 4 0x289b7ec6, md5_R2 rD rA rB rC 0 11 0xeaa127fa,
     md5_R2 rC rD rA rB 3 16 0xd4ef3085, md5_R2 rB rC rD rA 6 23 0x04881d05,
     md5_R2 rA rB rC rD 9 4 0xd9d4d039, md5_R2 rD rA rB rC 12 11 0xe6db99e5,
     md5_R2 rC rD rA rB 15 16 0x1fa27cf8, md5_R2 rB rC rD rA 2 23 0xc4ac5665,
     md5_R3 rA rB rC rD 0 6 0xf4292244, md5_R3 rD rA rB rC 7 10 0x432aff97,
     md5_R3 rC rD rA rB 14 15 0xab9423a7, md5_R3 rB rC rD rA 5 21 0xfc93a039,
     md5_R3 rA rB rC rD 12 6 0x655b59c3, md5_R3 rD rA rB rC 3 10 0x8f0ccc92,
     md5_R3 rC rD rA rB 10 15 0xffeff47d, md5_R3 rB rC rD rA 1 21 0x85845dd1,
     md5_R3 rA rB rC rD 8 6 0x6fa87e4f, md5_R3 rD rA rB rC 15 10 0xfe2ce6e0,
     md5_R3 rC rD rA rB 6 15 0xa3014314, md5_R3 rB rC rD rA 13 21 0x4e0811a1,
     md5_R3 rA rB rC rD 4 6 0xf7537e82, md5_R3 rD rA rB rC 11 10 0xbd3af235,
     md5_R3 rC rD rA rB 2 15 0x2ad7d2bb, md5_R3 rB rC rD rA 9 21 0xeb86d391]"

definition MD4_Init :: HASH_CTX where
  "MD4_Init = \<lparr>hash_h = [0x67452301, 0xefcdab89, 0x98badcfe, 0x10325476],
     hash_Nl = 0, hash_Nh = 0, hash_data = replicate 64 0, hash_num = 0, hash_md_len = 0\<rparr>"

definition MD5_Init :: HASH_CTX where
  "MD5_Init = \<lparr>hash_h = [0x67452301, 0xefcdab89, 0x98badcfe, 0x10325476],
     hash_Nl = 0, hash_Nh = 0, hash_data = replicate 64 0, hash_num = 0, hash_md_len = 0\<rparr>"

text \<open>\<open>for (; num--;)\<close>, with \<open>A = state[0] += A\<close> and so on at its end.\<close>

fun md4_block_data_order :: block_fn where
  "md4_block_data_order st d 0 = st"
| "md4_block_data_order st d (Suc num) =
     (let s = exec md4_rounds \<lparr>md_v = [st ! 0, st ! 1, st ! 2, st ! 3], md_X = replicate 16 0, md_in = d\<rparr>;
          v = md_v s
      in md4_block_data_order [st ! 0 + v ! rA, st ! 1 + v ! rB, st ! 2 + v ! rC, st ! 3 + v ! rD] (md_in s) num)"

fun md5_block_data_order :: block_fn where
  "md5_block_data_order st d 0 = st"
| "md5_block_data_order st d (Suc num) =
     (let s = exec md5_rounds \<lparr>md_v = [st ! 0, st ! 1, st ! 2, st ! 3], md_X = replicate 16 0, md_in = d\<rparr>;
          v = md_v s
      in md5_block_data_order [st ! 0 + v ! rA, st ! 1 + v ! rB, st ! 2 + v ! rC, st ! 3 + v ! rD] (md_in s) num)"

declare md4_block_data_order.simps [simp del] md5_block_data_order.simps [simp del]

definition md4_make_string :: "HASH_CTX \<Rightarrow> bytes option" where
  "md4_make_string c = Some (concat (map (\<lambda>i. HOST_l2c DATA_ORDER_IS_LITTLE_ENDIAN (hash_h c ! i)) [0, 1, 2, 3]))"

definition md5_make_string :: "HASH_CTX \<Rightarrow> bytes option" where
  "md5_make_string c = Some (concat (map (\<lambda>i. HOST_l2c DATA_ORDER_IS_LITTLE_ENDIAN (hash_h c ! i)) [0, 1, 2, 3]))"

definition MD4_Update :: "HASH_CTX \<Rightarrow> bytes \<Rightarrow> HASH_CTX" where
  "MD4_Update = HASH_UPDATE md4_block_data_order"

definition MD4_Transform :: "HASH_CTX \<Rightarrow> bytes \<Rightarrow> HASH_CTX" where
  "MD4_Transform = HASH_TRANSFORM md4_block_data_order"

definition MD4_Final :: "HASH_CTX \<Rightarrow> (HASH_CTX \<times> bytes option) option" where
  "MD4_Final = HASH_FINAL md4_block_data_order DATA_ORDER_IS_LITTLE_ENDIAN md4_make_string"

definition MD4 :: "bytes \<Rightarrow> bytes option" where
  "MD4 data = Option.bind (MD4_Final (MD4_Update MD4_Init data)) snd"

definition MD5_Update :: "HASH_CTX \<Rightarrow> bytes \<Rightarrow> HASH_CTX" where
  "MD5_Update = HASH_UPDATE md5_block_data_order"

definition MD5_Transform :: "HASH_CTX \<Rightarrow> bytes \<Rightarrow> HASH_CTX" where
  "MD5_Transform = HASH_TRANSFORM md5_block_data_order"

definition MD5_Final :: "HASH_CTX \<Rightarrow> (HASH_CTX \<times> bytes option) option" where
  "MD5_Final = HASH_FINAL md5_block_data_order DATA_ORDER_IS_LITTLE_ENDIAN md5_make_string"

definition MD5 :: "bytes \<Rightarrow> bytes option" where
  "MD5 data = Option.bind (MD5_Final (MD5_Update MD5_Init data)) snd"

section \<open>RFC 1320 and RFC 1321\<close>

text \<open>The documents give a function, the position of the word, a rotation and a constant for each step.\<close>

record md_table =
  md_fun :: "nat \<Rightarrow> u32 \<Rightarrow> u32 \<Rightarrow> u32 \<Rightarrow> u32"
  md_k :: "nat \<Rightarrow> nat"
  md_s :: "nat \<Rightarrow> nat"
  md_T :: "nat \<Rightarrow> u32"
  md_add :: bool

definition rfc1320 :: md_table where
  "rfc1320 =
     \<lparr>md_fun = (\<lambda>t x y z. if t < 16 then (x AND y) OR (NOT x AND z)
        else if t < 32 then (x AND y) OR (x AND z) OR (y AND z) else x XOR y XOR z),
      md_k = (\<lambda>t. if t < 16 then t else if t < 32 then 4 * (t mod 4) + (t - 16) div 4
        else [0, 8, 4, 12, 2, 10, 6, 14, 1, 9, 5, 13, 3, 11, 7, 15] ! (t - 32)),
      md_s = (\<lambda>t. (if t < 16 then [3, 7, 11, 19] else if t < 32 then [3, 5, 9, 13] else [3, 9, 11, 15]) ! (t mod 4)),
      md_T = (\<lambda>t. if t < 16 then 0 else if t < 32 then 0x5a827999 else 0x6ed9eba1),
      md_add = False\<rparr>"

definition rfc1321_T :: "u32 list" where
  "rfc1321_T = [0xd76aa478, 0xe8c7b756, 0x242070db, 0xc1bdceee, 0xf57c0faf, 0x4787c62a,
     0xa8304613, 0xfd469501, 0x698098d8, 0x8b44f7af, 0xffff5bb1, 0x895cd7be,
     0x6b901122, 0xfd987193, 0xa679438e, 0x49b40821, 0xf61e2562, 0xc040b340,
     0x265e5a51, 0xe9b6c7aa, 0xd62f105d, 0x02441453, 0xd8a1e681, 0xe7d3fbc8,
     0x21e1cde6, 0xc33707d6, 0xf4d50d87, 0x455a14ed, 0xa9e3e905, 0xfcefa3f8,
     0x676f02d9, 0x8d2a4c8a, 0xfffa3942, 0x8771f681, 0x6d9d6122, 0xfde5380c,
     0xa4beea44, 0x4bdecfa9, 0xf6bb4b60, 0xbebfbc70, 0x289b7ec6, 0xeaa127fa,
     0xd4ef3085, 0x04881d05, 0xd9d4d039, 0xe6db99e5, 0x1fa27cf8, 0xc4ac5665,
     0xf4292244, 0x432aff97, 0xab9423a7, 0xfc93a039, 0x655b59c3, 0x8f0ccc92,
     0xffeff47d, 0x85845dd1, 0x6fa87e4f, 0xfe2ce6e0, 0xa3014314, 0x4e0811a1,
     0xf7537e82, 0xbd3af235, 0x2ad7d2bb, 0xeb86d391]"

definition rfc1321 :: md_table where
  "rfc1321 =
     \<lparr>md_fun = (\<lambda>t x y z. if t < 16 then (x AND y) OR (NOT x AND z)
        else if t < 32 then (x AND z) OR (y AND NOT z) else if t < 48 then x XOR y XOR z
        else y XOR (x OR NOT z)),
      md_k = (\<lambda>t. if t < 16 then t else if t < 32 then (1 + 5 * t) mod 16
        else if t < 48 then (5 + 3 * t) mod 16 else 7 * t mod 16),
      md_s = (\<lambda>t. (if t < 16 then [7, 12, 17, 22] else if t < 32 then [5, 9, 14, 20]
        else if t < 48 then [4, 11, 16, 23] else [6, 10, 15, 21]) ! (t mod 4)),
      md_T = (\<lambda>t. rfc1321_T ! t),
      md_add = True\<rparr>"

text \<open>One step on the four words in the order of their roles, and the compression.\<close>

definition md_step :: "md_table \<Rightarrow> u32 list \<Rightarrow> u32 list \<Rightarrow> nat \<Rightarrow> u32 list" where
  "md_step M ws v t =
     (let a = word_rotl (md_s M t) (v ! 0 + md_fun M t (v ! 1) (v ! 2) (v ! 3) + ws ! md_k M t + md_T M t)
      in [v ! 3, if md_add M then v ! 1 + a else a, v ! 1, v ! 2])"

definition md_compress :: "md_table \<Rightarrow> nat \<Rightarrow> u32 list \<Rightarrow> bytes \<Rightarrow> u32 list" where
  "md_compress M steps H b =
     map2 (+) H (foldl (md_step M (words32 DATA_ORDER_IS_LITTLE_ENDIAN b)) H [0..<steps])"

text \<open>The initial words \<open>A\<close>, \<open>B\<close>, \<open>C\<close> and \<open>D\<close>, which both RFCs give by their bytes, low-order bytes first.\<close>

definition md_iv :: "u32 list" where
  "md_iv = map (\<lambda>bs. of_nat (le_val bs))
     [[0x01, 0x23, 0x45, 0x67], [0x89, 0xab, 0xcd, 0xef], [0xfe, 0xdc, 0xba, 0x98], [0x76, 0x54, 0x32, 0x10]]"

definition md4_spec :: "bytes \<Rightarrow> bytes" where
  "md4_spec m = le_words (md_hash 64 (md_compress rfc1320 48) md_iv
     (bit_length64 DATA_ORDER_IS_LITTLE_ENDIAN) m)"

definition md5_spec :: "bytes \<Rightarrow> bytes" where
  "md5_spec m = le_words (md_hash 64 (md_compress rfc1321 64) md_iv
     (bit_length64 DATA_ORDER_IS_LITTLE_ENDIAN) m)"

section \<open>The rounds\<close>

definition md_round :: "md_table \<Rightarrow> nat \<Rightarrow> md_state \<Rightarrow> md_state" where
  "md_round M t = md_R (md_add M) (md_fun M t) (role 4 t 0) (role 4 t 1) (role 4 t 2) (role 4 t 3)
     (md_k M t) (md_s M t) (md_T M t)"

text \<open>The text of a block function: the loads run one word ahead of the first sixteen rounds.\<close>

definition md_text :: "md_table \<Rightarrow> nat \<Rightarrow> (md_state \<Rightarrow> md_state) list" where
  "md_text M steps = md_LOAD 0 # concat (map (\<lambda>t. [md_LOAD (t + 1), md_round M t]) [0..<15])
     @ concat (map (\<lambda>t. [md_round M t]) [15..<steps])"

lemma md_F_eq: "md_F = (\<lambda>x y z. (x AND y) OR (NOT x AND z))"
  by (intro ext bit_word_eqI) (auto simp: md_F_def bit_simps)

lemma md5_G_eq: "md5_G = (\<lambda>x y z. (x AND z) OR (y AND NOT z))"
  by (intro ext bit_word_eqI) (auto simp: md5_G_def bit_simps)

lemma md4_G_eq: "md4_G = (\<lambda>x y z. (x AND y) OR (x AND z) OR (y AND z))"
  by (simp add: md4_G_def fun_eq_iff)

lemma md_H_eq: "md_H = (\<lambda>x y z. x XOR y XOR z)"
  by (simp add: md_H_def fun_eq_iff)

lemma md5_I_eq: "md5_I = (\<lambda>x y z. y XOR (x OR NOT z))"
  by (simp add: md5_I_def fun_eq_iff ac_simps)

lemma upt15: "[0..<15] = [0, 1, 2, 3, 4, 5, 6, 7, 8, 9, 10, 11, 12, 13, 14 :: nat]"
  by (simp add: upt_rec)

lemma md4_rounds_text: "md4_rounds = md_text rfc1320 48"
  by (simp add: md4_rounds_def md_text_def upt15 md_round_def role_def rfc1320_def md4_R0_def md4_R1_def md4_R2_def
      md_F_eq md4_G_eq md_H_eq numeral_2_eq_2 [symmetric])

lemma md5_rounds_text: "md5_rounds = md_text rfc1321 64"
  by (simp add: md5_rounds_def md_text_def upt15 md_round_def role_def rfc1321_def md5_R0_def md5_R1_def md5_R2_def
      md5_R3_def md_F_eq md5_G_eq md_H_eq md5_I_eq rfc1321_T_def numeral_2_eq_2 [symmetric])

text \<open>What a table of steps needs, and the text then computes.\<close>

locale md_program =
  fixes M :: md_table and steps :: nat
  assumes k_first: "t < 16 \<Longrightarrow> md_k M t = t" and k_less: "t < steps \<Longrightarrow> md_k M t < 16"
    and s_range: "t < steps \<Longrightarrow> 0 < md_s M t \<and> md_s M t < 32"
    and steps: "16 \<le> steps" "steps mod 4 = 0"
begin

definition inv :: "bytes \<Rightarrow> u32 list \<Rightarrow> nat \<Rightarrow> nat \<Rightarrow> md_state \<Rightarrow> bool" where
  "inv b H m t s \<longleftrightarrow> length (md_v s) = 4 \<and> length (md_X s) = 16
     \<and> roles 4 t (md_v s) = foldl (md_step M (words32 DATA_ORDER_IS_LITTLE_ENDIAN b)) H [0..<t]
     \<and> (\<forall>k<m. md_X s ! k = words32 DATA_ORDER_IS_LITTLE_ENDIAN b ! k)"

lemma load_inv:
  assumes "inv b H m t s" "m < 16" "length b = 64" "md_in s = drop (4 * m) b @ rest"
  shows "inv b H (Suc m) t (md_LOAD m s)" and "md_in (md_LOAD m s) = drop (4 * Suc m) b @ rest"
proof -
  have "take 4 (md_in s) = take 4 (drop (4 * m) b)" and d: "drop 4 (md_in s) = drop (4 * Suc m) b @ rest"
    using assms by simp_all
  then have l: "md_LOAD m s = s\<lparr>md_X := (md_X s)[m := words32 DATA_ORDER_IS_LITTLE_ENDIAN b ! m],
      md_in := drop 4 (md_in s)\<rparr>"
    using assms by (simp add: md_LOAD_def Let_def words32_nth)
  show "inv b H (Suc m) t (md_LOAD m s)"
    using assms by (auto simp: inv_def l nth_list_update less_Suc_eq)
  show "md_in (md_LOAD m s) = drop (4 * Suc m) b @ rest"
    using d by (simp add: l)
qed

lemma round_inv:
  assumes "inv b H m t s" "t < steps" "md_k M t < m"
  shows "inv b H m (Suc t) (md_round M t s)" and "md_in (md_round M t s) = md_in s"
proof -
  let ?ws = "words32 DATA_ORDER_IS_LITTLE_ENDIAN b"
  let ?v = "md_v s"
  have v: "length ?v = 4" "roles 4 t ?v = foldl (md_step M ?ws) H [0..<t]" and X: "md_X s ! md_k M t = ?ws ! md_k M t"
    using assms by (simp_all add: inv_def)
  obtain x y z w where abc: "roles 4 t ?v = [x, y, z, w]"
    using length_roles [of 4 t ?v] by (auto simp: length_Suc_conv numeral_eq_Suc simp del: length_roles)
  define a where "a = word_rotl (md_s M t) (x + md_fun M t y z w + ?ws ! md_k M t + md_T M t)"
  have n: "?v ! role 4 t 0 = x" "?v ! role 4 t 1 = y" "?v ! role 4 t 2 = z" "?v ! role 4 t 3 = w"
    by (simp_all add: nth_role abc)
  have rot: "ROTATE (x + (?ws ! md_k M t + md_T M t + md_fun M t y z w)) (md_s M t) = a"
    using s_range [OF assms(2)] by (simp add: a_def ROTATE_rotl ac_simps)
  have lt: "role 4 t 0 < 4" and ne: "role 4 t 1 \<noteq> role 4 t 0"
    using role_inj [of 1 4 0 t] by simp_all
  have r: "md_round M t s = s\<lparr>md_v := ?v[role 4 t 0 := (if md_add M then a + y else a)]\<rparr>"
    using v(1) lt ne by (simp add: md_round_def md_R_def Let_def X n rot del: One_nat_def)
  have "roles 4 t (?v[role 4 t 0 := (if md_add M then a + y else a)]) = [if md_add M then a + y else a, y, z, w]"
    using v(1) by (subst roles_update) (simp_all add: abc)
  then have "roles 4 (Suc t) (?v[role 4 t 0 := (if md_add M then a + y else a)]) = md_step M ?ws (roles 4 t ?v) t"
    by (simp add: roles_Suc md_step_def abc Let_def add.commute [of a] flip: a_def)
  then show "inv b H m (Suc t) (md_round M t s)"
    using assms v by (simp add: inv_def r)
  show "md_in (md_round M t s) = md_in s" by (simp add: r)
qed

lemma text_inv:
  fixes rest :: bytes
  assumes H: "length H = 4" and b: "length b = 64"
  defines "s \<equiv> exec (md_text M steps)
      \<lparr>md_v = [H ! 0, H ! 1, H ! 2, H ! 3], md_X = replicate 16 0, md_in = b @ rest\<rparr>"
  shows "inv b H 16 steps s" and "md_in s = rest"
proof -
  let ?s = "\<lparr>md_v = [H ! 0, H ! 1, H ! 2, H ! 3], md_X = replicate 16 0, md_in = b @ rest\<rparr>"
  have "[H ! 0, H ! 1, H ! 2, H ! 3] = H"
    using H by (auto simp: length_Suc_conv numeral_eq_Suc)
  with H have "inv b H 0 0 ?s" by (simp add: inv_def)
  note s0 = load_inv [OF this _ b, of rest]
  let ?I = "\<lambda>t s. inv b H (Suc t) t s \<and> md_in s = drop (4 * Suc t) b @ rest"
  have "?I (0 + 15) (exec (concat (map (\<lambda>t. [md_LOAD (t + 1), md_round M t]) [0..<15])) (md_LOAD 0 ?s))"
  proof (rule exec_rounds)
    fix t s
    assume t: "t < 15" and I: "?I (0 + t) s"
    then have l: "inv b H (Suc (Suc t)) t (md_LOAD (Suc t) s)"
        "md_in (md_LOAD (Suc t) s) = drop (4 * Suc (Suc t)) b @ rest"
      using load_inv [of b H "Suc t" t s rest] b by simp_all
    with t show "?I (Suc (0 + t)) (exec [md_LOAD (t + 1), md_round M t] s)"
      using round_inv [OF l(1)] steps k_first [of t] by simp
  qed (use s0 in simp)
  then have s1: "inv b H 16 15 s1 \<and> md_in s1 = rest"
    if "s1 = exec (concat (map (\<lambda>t. [md_LOAD (t + 1), md_round M t]) [0..<15])) (md_LOAD 0 ?s)" for s1
    using that b by simp
  have later: "concat (map (\<lambda>t. [md_round M t]) [15..<steps])
      = concat (map (\<lambda>j. [md_round M (15 + j)]) [0..<steps - 15])"
  proof -
    have "[15..<steps] = map (\<lambda>j. 15 + j) [0..<steps - 15]"
      using steps by (intro nth_equalityI) simp_all
    then show ?thesis by (simp add: o_def)
  qed
  let ?J = "\<lambda>t s. inv b H 16 t s \<and> md_in s = rest"
  have "?J (15 + (steps - 15)) s"
    unfolding s_def md_text_def exec_Cons exec_append later
  proof (rule exec_rounds)
    fix j s
    assume "j < steps - 15" and "?J (15 + j) s"
    then show "?J (Suc (15 + j)) (exec [md_round M (15 + j)] s)"
      using round_inv [of b H 16 "15 + j" s] k_less [of "15 + j"] by simp
  qed (use s1 in simp)
  then show "inv b H 16 steps s" "md_in s = rest" using steps by simp_all
qed

lemma sums:
  assumes "length H = 4" and "inv b H 16 steps s"
  shows "[H ! 0 + md_v s ! 0, H ! 1 + md_v s ! 1, H ! 2 + md_v s ! 2, H ! 3 + md_v s ! 3] = md_compress M steps H b"
proof -
  have v: "length (md_v s) = 4"
    and r: "roles 4 steps (md_v s) = foldl (md_step M (words32 DATA_ORDER_IS_LITTLE_ENDIAN b)) H [0..<steps]"
    using assms by (simp_all add: inv_def)
  have "roles 4 steps (md_v s) = md_v s"
  proof (rule nth_equalityI)
    fix k
    assume "k < length (roles 4 steps (md_v s))"
    then show "roles 4 steps (md_v s) ! k = md_v s ! k"
      using role_shift [of steps 4 0 k] steps(2) nth_role [of k 4 "md_v s" steps] by simp
  qed (use v in simp)
  with r have "md_compress M steps H b = map2 (+) H (md_v s)" by (simp add: md_compress_def)
  also have "\<dots> = [H ! 0 + md_v s ! 0, H ! 1 + md_v s ! 1, H ! 2 + md_v s ! 2, H ! 3 + md_v s ! 3]"
    using assms(1) v by (auto simp: length_Suc_conv numeral_eq_Suc)
  finally show ?thesis by simp
qed

lemma compress_length: "length H = 4 \<Longrightarrow> length (md_compress M steps H b) = 4"
  using steps by (cases steps) (simp_all add: md_compress_def md_step_def Let_def)

text \<open>A block function that runs the text on each block.\<close>

lemma folds:
  assumes f0: "\<And>st d. f st d 0 = st"
    and f: "\<And>st d n. f st d (Suc n) = (let s = exec (md_text M steps)
        \<lparr>md_v = [st ! 0, st ! 1, st ! 2, st ! 3], md_X = replicate 16 0, md_in = d\<rparr>; v = md_v s
      in f [st ! 0 + v ! rA, st ! 1 + v ! rB, st ! 2 + v ! rC, st ! 3 + v ! rD] (md_in s) n)"
  shows "length H = 4 \<Longrightarrow> length d = 64 * n \<Longrightarrow> f H (d @ rest) n = foldl (md_compress M steps) H (chunks 64 d)"
proof (induction n arbitrary: H d)
  case 0
  then show ?case by (simp add: f0 chunks_short)
next
  case (Suc n)
  define b where "b = take 64 d"
  define s where "s = exec (md_text M steps)
      \<lparr>md_v = [H ! 0, H ! 1, H ! 2, H ! 3], md_X = replicate 16 0, md_in = b @ drop 64 d @ rest\<rparr>"
  have b: "d = b @ drop 64 d" "length b = 64" using Suc.prems by (simp_all add: b_def)
  note t = text_inv [OF Suc.prems(1) b(2), of "drop 64 d @ rest", folded s_def]
  have "f H (d @ rest) (Suc n) = f (md_compress M steps H b) (md_in s) n"
    unfolding f Let_def
    by (subst (1 2 3 4 5) b(1)) (simp only: append.assoc s_def [symmetric] sums [OF Suc.prems(1) t(1)])
  also have "\<dots> = foldl (md_compress M steps) (md_compress M steps H b) (chunks 64 (drop 64 d))"
    unfolding t(2) using Suc.prems by (intro Suc.IH) (simp_all add: compress_length)
  also have "\<dots> = foldl (md_compress M steps) H (chunks 64 (b @ drop 64 d))"
    using b(2) by (simp add: chunks_Cons)
  finally show ?case by (simp only: b(1) [symmetric])
qed

end

section \<open>MD4 and MD5\<close>

lemma mod4_cases:
  fixes t :: nat
  assumes "P 0" "P 1" "P 2" "P 3"
  shows "P (t mod 4)"
proof -
  have "t mod 4 < 4" by simp
  then have "t mod 4 = 0 \<or> t mod 4 = 1 \<or> t mod 4 = 2 \<or> t mod 4 = 3" by linarith
  with assms show ?thesis by auto
qed

interpretation md4: md_program rfc1320 48
proof unfold_locales
  fix t :: nat
  show "0 < md_s rfc1320 t \<and> md_s rfc1320 t < 32"
    unfolding rfc1320_def md_table.select_convs by (rule mod4_cases [of _ t]) simp_all
  assume t: "t < 48"
  have "list_all (\<lambda>t. md_k rfc1320 t < 16) [0..<48]"
    by (simp add: rfc1320_def upt_rec)
  with t show "md_k rfc1320 t < 16" by (simp add: list_all_iff)
qed (simp_all add: rfc1320_def)

interpretation md5: md_program rfc1321 64
proof unfold_locales
  fix t :: nat
  show "0 < md_s rfc1321 t \<and> md_s rfc1321 t < 32"
    unfolding rfc1321_def md_table.select_convs by (rule mod4_cases [of _ t]) simp_all
qed (simp_all add: rfc1321_def)

lemma md4_block_folds:
  "length H = 4 \<Longrightarrow> length d = 64 * n
    \<Longrightarrow> md4_block_data_order H (d @ rest) n = foldl (md_compress rfc1320 48) H (chunks 64 d)"
  by (rule md4.folds) (simp_all only: md4_block_data_order.simps md4_rounds_text)

lemma md5_block_folds:
  "length H = 4 \<Longrightarrow> length d = 64 * n
    \<Longrightarrow> md5_block_data_order H (d @ rest) n = foldl (md_compress rfc1321 64) H (chunks 64 d)"
  by (rule md5.folds) (simp_all only: md5_block_data_order.simps md5_rounds_text)

lemma concat_four:
  assumes "length h = 4"
  shows "concat (map (\<lambda>i. HOST_l2c DATA_ORDER_IS_LITTLE_ENDIAN (h ! i)) [0, 1, 2, 3]) = le_words h"
proof -
  have h: "map (\<lambda>i. h ! i) [0, 1, 2, 3] = h"
    using assms by (auto simp: length_Suc_conv numeral_eq_Suc)
  have "map (\<lambda>i. f (h ! i)) js = map f (map (\<lambda>i. h ! i) js)" for f :: "u32 \<Rightarrow> bytes" and js
    by simp
  then show ?thesis by (simp only: h concat_words)
qed

lemma md_make_string:
  assumes "length (hash_h c) = 4"
  shows "md4_make_string c = Some (le_words (hash_h c))" and "md5_make_string c = Some (le_words (hash_h c))"
  using assms by (simp_all only: md4_make_string_def md5_make_string_def concat_four)

lemma md_iv_words: "md_iv = [0x67452301, 0xefcdab89, 0x98badcfe, 0x10325476]"
  by (simp add: md_iv_def)

lemma length_md_iv: "length md_iv = 4"
  by (simp add: md_iv_words)

interpretation md4_md32: md32 "md_compress rfc1320 48" md4_block_data_order DATA_ORDER_IS_LITTLE_ENDIAN 4
    md_iv 0 md4_make_string le_words
  by unfold_locales
    (simp_all add: md4_block_folds md4.compress_length length_md_iv md_make_string)

interpretation md5_md32: md32 "md_compress rfc1321 64" md5_block_data_order DATA_ORDER_IS_LITTLE_ENDIAN 4
    md_iv 0 md5_make_string le_words
  by unfold_locales
    (simp_all add: md5_block_folds md5.compress_length length_md_iv md_make_string)

definition md4_repr :: "HASH_CTX \<Rightarrow> bytes \<Rightarrow> bool" where
  "md4_repr = md32_repr (md_compress rfc1320 48) md_iv 0"

definition md5_repr :: "HASH_CTX \<Rightarrow> bytes \<Rightarrow> bool" where
  "md5_repr = md32_repr (md_compress rfc1321 64) md_iv 0"

lemma MD_Init_md32:
  "md32_init md_iv 0 = MD4_Init" "md32_init md_iv 0 = MD5_Init"
  by (simp_all add: MD4_Init_def MD5_Init_def md32_init_def md_iv_words)

interpretation md4_stream: streaming_hash MD4_Init MD4_Update
    "\<lambda>c. Option.bind (MD4_Final c) snd" md4_repr md4_spec
  using md4_md32.streaming_hash_axioms
  by (simp add: MD_Init_md32(1) MD4_Update_def MD4_Final_def md4_repr_def md4_spec_def [abs_def])

interpretation md5_stream: streaming_hash MD5_Init MD5_Update
    "\<lambda>c. Option.bind (MD5_Final c) snd" md5_repr md5_spec
  using md5_md32.streaming_hash_axioms
  by (simp add: MD_Init_md32(2) MD5_Update_def MD5_Final_def md5_repr_def md5_spec_def [abs_def])

end
