(* ===== verification/Evp_Digest.thy ===== *)
theory Evp_Digest
  imports Sha512 Sha1 Md45
begin

text \<open>
  Digests behind one interface, \<open>crypto/fipsmodule/digest/digest.c\<close> and \<open>digests.c\<close>. An \<open>EVP_MD\<close> is one
  of the eight static tables of \<open>digests.c\<close>, compared by address; a context owns the memory of its
  digest's state. Contexts of signatures (\<open>pctx\<close> not null) are left out. \<open>None\<close> as a result is a run
  that reads through a null pointer, or a state that no \<open>init\<close> has written.
\<close>

section \<open>The tables\<close>

datatype EVP_MD = EVP_md4 | EVP_md5 | EVP_sha1 | EVP_sha224 | EVP_sha256 | EVP_sha384 | EVP_sha512 | EVP_md5_sha1

text \<open>A table holds the number \<open>NID_md4\<close> and so on of \<open>nid.h\<close>, the sizes of digest and block, and the size of the
  state; \<open>flags\<close> is 0 in all of them, and the three functions follow below.\<close>

record env_md =
  md_type :: nat
  md_size :: nat
  block_size :: nat
  ctx_size :: nat

definition EVP_md4_table :: env_md where
  "EVP_md4_table = \<lparr>md_type = 257, md_size = 16, block_size = 64, ctx_size = 92\<rparr>"

definition EVP_md5_table :: env_md where
  "EVP_md5_table = \<lparr>md_type = 4, md_size = 16, block_size = 64, ctx_size = 92\<rparr>"

definition EVP_sha1_table :: env_md where
  "EVP_sha1_table = \<lparr>md_type = 64, md_size = 20, block_size = 64, ctx_size = 96\<rparr>"

definition EVP_sha224_table :: env_md where
  "EVP_sha224_table = \<lparr>md_type = 675, md_size = 28, block_size = 64, ctx_size = 112\<rparr>"

definition EVP_sha256_table :: env_md where
  "EVP_sha256_table = \<lparr>md_type = 672, md_size = 32, block_size = 64, ctx_size = 112\<rparr>"

definition EVP_sha384_table :: env_md where
  "EVP_sha384_table = \<lparr>md_type = 673, md_size = 48, block_size = 128, ctx_size = 216\<rparr>"

definition EVP_sha512_table :: env_md where
  "EVP_sha512_table = \<lparr>md_type = 674, md_size = 64, block_size = 128, ctx_size = 216\<rparr>"

definition EVP_md5_sha1_table :: env_md where
  "EVP_md5_sha1_table = \<lparr>md_type = 114, md_size = 36, block_size = 64, ctx_size = 188\<rparr>"

fun md_table :: "EVP_MD \<Rightarrow> env_md" where
  "md_table EVP_md4 = EVP_md4_table"
| "md_table EVP_md5 = EVP_md5_table"
| "md_table EVP_sha1 = EVP_sha1_table"
| "md_table EVP_sha224 = EVP_sha224_table"
| "md_table EVP_sha256 = EVP_sha256_table"
| "md_table EVP_sha384 = EVP_sha384_table"
| "md_table EVP_sha512 = EVP_sha512_table"
| "md_table EVP_md5_sha1 = EVP_md5_sha1_table"

definition EVP_MD_type :: "EVP_MD \<Rightarrow> nat" where
  "EVP_MD_type md = md_type (md_table md)"

definition EVP_MD_flags :: "EVP_MD \<Rightarrow> u32" where
  "EVP_MD_flags md = 0"

definition EVP_MD_size :: "EVP_MD \<Rightarrow> nat" where
  "EVP_MD_size md = md_size (md_table md)"

definition EVP_MD_block_size :: "EVP_MD \<Rightarrow> nat" where
  "EVP_MD_block_size md = block_size (md_table md)"

definition md_ctx_size :: "EVP_MD \<Rightarrow> nat" where
  "md_ctx_size md = ctx_size (md_table md)"

lemmas md_tables = EVP_md4_table_def EVP_md5_table_def EVP_sha1_table_def EVP_sha224_table_def
  EVP_sha256_table_def EVP_sha384_table_def EVP_sha512_table_def EVP_md5_sha1_table_def

lemma EVP_MD_type_eqs [simp]:
  "EVP_MD_type EVP_md4 = 257"
  "EVP_MD_type EVP_md5 = 4"
  "EVP_MD_type EVP_sha1 = 64"
  "EVP_MD_type EVP_sha224 = 675"
  "EVP_MD_type EVP_sha256 = 672"
  "EVP_MD_type EVP_sha384 = 673"
  "EVP_MD_type EVP_sha512 = 674"
  "EVP_MD_type EVP_md5_sha1 = 114"
  by (simp_all add: EVP_MD_type_def md_tables)

lemma EVP_MD_size_eqs [simp]:
  "EVP_MD_size EVP_md4 = 16"
  "EVP_MD_size EVP_md5 = 16"
  "EVP_MD_size EVP_sha1 = 20"
  "EVP_MD_size EVP_sha224 = 28"
  "EVP_MD_size EVP_sha256 = 32"
  "EVP_MD_size EVP_sha384 = 48"
  "EVP_MD_size EVP_sha512 = 64"
  "EVP_MD_size EVP_md5_sha1 = 36"
  by (simp_all add: EVP_MD_size_def md_tables)

lemma EVP_MD_block_size_eqs [simp]:
  "EVP_MD_block_size EVP_md4 = 64"
  "EVP_MD_block_size EVP_md5 = 64"
  "EVP_MD_block_size EVP_sha1 = 64"
  "EVP_MD_block_size EVP_sha224 = 64"
  "EVP_MD_block_size EVP_sha256 = 64"
  "EVP_MD_block_size EVP_sha384 = 128"
  "EVP_MD_block_size EVP_sha512 = 128"
  "EVP_MD_block_size EVP_md5_sha1 = 64"
  by (simp_all add: EVP_MD_block_size_def md_tables)

lemma md_ctx_size_eqs [simp]:
  "md_ctx_size EVP_md4 = 92"
  "md_ctx_size EVP_md5 = 92"
  "md_ctx_size EVP_sha1 = 96"
  "md_ctx_size EVP_sha224 = 112"
  "md_ctx_size EVP_sha256 = 112"
  "md_ctx_size EVP_sha384 = 216"
  "md_ctx_size EVP_sha512 = 216"
  "md_ctx_size EVP_md5_sha1 = 188"
  by (simp_all add: md_ctx_size_def md_tables)

text \<open>What \<open>md_data\<close> points at: memory as it was allocated or wiped, or the state of a digest.\<close>

datatype md_data =
  MD_RAW "nat \<Rightarrow> u8"
| MD_32 HASH_CTX
| MD_64 SHA512_CTX
| MD_5_1 HASH_CTX HASH_CTX

fun md_sha512_mem :: "md_data \<Rightarrow> SHA512_CTX" where
  "md_sha512_mem (MD_64 c) = c"
| "md_sha512_mem (MD_RAW mem) = fresh_sha512 mem"
| "md_sha512_mem _ = fresh_sha512 (\<lambda>_. 0)"

text \<open>The functions \<open>init\<close>, \<open>update\<close> and \<open>final\<close> of the tables. \<open>update\<close> gives \<open>None\<close> on memory that no \<open>init\<close> has
  written; \<open>final\<close> gives the bytes it writes (the state it leaves is wiped by the caller).\<close>

definition md4_init :: "md_data \<Rightarrow> md_data" where
  [simp]: "md4_init s = MD_32 MD4_Init"

definition md4_update :: "md_data \<Rightarrow> bytes \<Rightarrow> md_data option" where
  [simp]: "md4_update s d = (case s of MD_32 c \<Rightarrow> Some (MD_32 (MD4_Update c d)) | _ \<Rightarrow> None)"

definition md4_final :: "md_data \<Rightarrow> bytes option" where
  [simp]: "md4_final s = (case s of MD_32 c \<Rightarrow> Option.bind (MD4_Final c) snd | _ \<Rightarrow> None)"

definition md5_init :: "md_data \<Rightarrow> md_data" where
  [simp]: "md5_init s = MD_32 MD5_Init"

definition md5_update :: "md_data \<Rightarrow> bytes \<Rightarrow> md_data option" where
  [simp]: "md5_update s d = (case s of MD_32 c \<Rightarrow> Some (MD_32 (MD5_Update c d)) | _ \<Rightarrow> None)"

definition md5_final :: "md_data \<Rightarrow> bytes option" where
  [simp]: "md5_final s = (case s of MD_32 c \<Rightarrow> Option.bind (MD5_Final c) snd | _ \<Rightarrow> None)"

definition sha1_init :: "md_data \<Rightarrow> md_data" where
  [simp]: "sha1_init s = MD_32 SHA1_Init"

definition sha1_update :: "md_data \<Rightarrow> bytes \<Rightarrow> md_data option" where
  [simp]: "sha1_update s d = (case s of MD_32 c \<Rightarrow> Some (MD_32 (SHA1_Update c d)) | _ \<Rightarrow> None)"

definition sha1_final :: "md_data \<Rightarrow> bytes option" where
  [simp]: "sha1_final s = (case s of MD_32 c \<Rightarrow> Option.bind (SHA1_Final c) snd | _ \<Rightarrow> None)"

definition sha224_init :: "md_data \<Rightarrow> md_data" where
  [simp]: "sha224_init s = MD_32 SHA224_Init"

definition sha224_update :: "md_data \<Rightarrow> bytes \<Rightarrow> md_data option" where
  [simp]: "sha224_update s d = (case s of MD_32 c \<Rightarrow> Some (MD_32 (SHA224_Update c d)) | _ \<Rightarrow> None)"

definition sha224_final :: "md_data \<Rightarrow> bytes option" where
  [simp]: "sha224_final s = (case s of MD_32 c \<Rightarrow> Option.bind (SHA224_Final c) snd | _ \<Rightarrow> None)"

definition sha256_init :: "md_data \<Rightarrow> md_data" where
  [simp]: "sha256_init s = MD_32 SHA256_Init"

definition sha256_update :: "md_data \<Rightarrow> bytes \<Rightarrow> md_data option" where
  [simp]: "sha256_update s d = (case s of MD_32 c \<Rightarrow> Some (MD_32 (SHA256_Update c d)) | _ \<Rightarrow> None)"

definition sha256_final :: "md_data \<Rightarrow> bytes option" where
  [simp]: "sha256_final s = (case s of MD_32 c \<Rightarrow> Option.bind (SHA256_Final c) snd | _ \<Rightarrow> None)"

definition sha384_init :: "md_data \<Rightarrow> md_data" where
  [simp]: "sha384_init s = MD_64 (SHA384_Init (md_sha512_mem s))"

definition sha384_update :: "md_data \<Rightarrow> bytes \<Rightarrow> md_data option" where
  [simp]: "sha384_update s d = (case s of MD_64 c \<Rightarrow> Some (MD_64 (SHA384_Update c d)) | _ \<Rightarrow> None)"

definition sha384_final :: "md_data \<Rightarrow> bytes option" where
  [simp]: "sha384_final s = (case s of MD_64 c \<Rightarrow> Option.bind (SHA384_Final False c) snd | _ \<Rightarrow> None)"

definition sha512_init :: "md_data \<Rightarrow> md_data" where
  [simp]: "sha512_init s = MD_64 (SHA512_Init (md_sha512_mem s))"

definition sha512_update :: "md_data \<Rightarrow> bytes \<Rightarrow> md_data option" where
  [simp]: "sha512_update s d = (case s of MD_64 c \<Rightarrow> Some (MD_64 (SHA512_Update c d)) | _ \<Rightarrow> None)"

definition sha512_final :: "md_data \<Rightarrow> bytes option" where
  [simp]: "sha512_final s = (case s of MD_64 c \<Rightarrow> Option.bind (SHA512_Final False c) snd | _ \<Rightarrow> None)"

definition md5_sha1_init :: "md_data \<Rightarrow> md_data" where
  [simp]: "md5_sha1_init s = MD_5_1 MD5_Init SHA1_Init"

definition md5_sha1_update :: "md_data \<Rightarrow> bytes \<Rightarrow> md_data option" where
  [simp]: "md5_sha1_update s d =
     (case s of MD_5_1 md5 sha1 \<Rightarrow> Some (MD_5_1 (MD5_Update md5 d) (SHA1_Update sha1 d)) | _ \<Rightarrow> None)"

definition md5_sha1_final :: "md_data \<Rightarrow> bytes option" where
  [simp]: "md5_sha1_final s =
     (case s of
        MD_5_1 md5 sha1 \<Rightarrow>
          (case (Option.bind (MD5_Final md5) snd, Option.bind (SHA1_Final sha1) snd) of
             (Some a, Some b) \<Rightarrow> Some (a @ b)
           | _ \<Rightarrow> None)
      | _ \<Rightarrow> None)"

text \<open>The dispatch through the table.\<close>

fun md_init :: "EVP_MD \<Rightarrow> md_data \<Rightarrow> md_data" where
  "md_init EVP_md4 = md4_init"
| "md_init EVP_md5 = md5_init"
| "md_init EVP_sha1 = sha1_init"
| "md_init EVP_sha224 = sha224_init"
| "md_init EVP_sha256 = sha256_init"
| "md_init EVP_sha384 = sha384_init"
| "md_init EVP_sha512 = sha512_init"
| "md_init EVP_md5_sha1 = md5_sha1_init"

fun md_update :: "EVP_MD \<Rightarrow> md_data \<Rightarrow> bytes \<Rightarrow> md_data option" where
  "md_update EVP_md4 = md4_update"
| "md_update EVP_md5 = md5_update"
| "md_update EVP_sha1 = sha1_update"
| "md_update EVP_sha224 = sha224_update"
| "md_update EVP_sha256 = sha256_update"
| "md_update EVP_sha384 = sha384_update"
| "md_update EVP_sha512 = sha512_update"
| "md_update EVP_md5_sha1 = md5_sha1_update"

fun md_final :: "EVP_MD \<Rightarrow> md_data \<Rightarrow> bytes option" where
  "md_final EVP_md4 = md4_final"
| "md_final EVP_md5 = md5_final"
| "md_final EVP_sha1 = sha1_final"
| "md_final EVP_sha224 = sha224_final"
| "md_final EVP_sha256 = sha256_final"
| "md_final EVP_sha384 = sha384_final"
| "md_final EVP_sha512 = sha512_final"
| "md_final EVP_md5_sha1 = md5_sha1_final"

section \<open>Contexts\<close>

record EVP_MD_CTX =
  digest :: "EVP_MD option"
  md_data :: "md_data option"

definition EVP_MD_CTX_init :: EVP_MD_CTX where
  "EVP_MD_CTX_init = \<lparr>digest = None, md_data = None\<rparr>"

text \<open>The 32 bytes of the structure.\<close>

definition EVP_MD_CTX_new :: "alloc \<Rightarrow> EVP_MD_CTX option" where
  "EVP_MD_CTX_new A = (if A 32 = None then None else Some EVP_MD_CTX_init)"

definition EVP_MD_CTX_cleanup :: "EVP_MD_CTX \<Rightarrow> EVP_MD_CTX" where
  "EVP_MD_CTX_cleanup ctx = EVP_MD_CTX_init"

definition EVP_MD_CTX_reset :: "EVP_MD_CTX \<Rightarrow> EVP_MD_CTX" where
  "EVP_MD_CTX_reset ctx = EVP_MD_CTX_init"

text \<open>\<open>EVP_MD_CTX_copy_ex(out, in)\<close>, the two being different objects: the result and \<open>out\<close>.\<close>

definition EVP_MD_CTX_copy_ex :: "alloc \<Rightarrow> EVP_MD_CTX \<Rightarrow> EVP_MD_CTX \<Rightarrow> bool \<times> EVP_MD_CTX" where
  "EVP_MD_CTX_copy_ex A out i =
     (case digest i of
        None \<Rightarrow> (False, out)
      | Some md \<Rightarrow>
          if digest out \<noteq> digest i \<and> A (md_ctx_size md) = None then (False, out)
          else (True, \<lparr>digest = digest i, md_data = md_data i\<rparr>))"

definition EVP_MD_CTX_copy :: "alloc \<Rightarrow> EVP_MD_CTX \<Rightarrow> bool \<times> EVP_MD_CTX" where
  "EVP_MD_CTX_copy A i = EVP_MD_CTX_copy_ex A EVP_MD_CTX_init i"

definition EVP_DigestInit_ex :: "alloc \<Rightarrow> EVP_MD_CTX \<Rightarrow> EVP_MD \<Rightarrow> bool \<times> EVP_MD_CTX" where
  "EVP_DigestInit_ex A ctx type =
     (if digest ctx \<noteq> Some type
      then (case A (md_ctx_size type) of
              None \<Rightarrow> (False, ctx)
            | Some mem \<Rightarrow> (True, \<lparr>digest = Some type, md_data = Some (md_init type (MD_RAW mem))\<rparr>))
      else (True, ctx\<lparr>md_data := map_option (md_init type) (md_data ctx)\<rparr>))"

definition EVP_DigestInit :: "alloc \<Rightarrow> EVP_MD \<Rightarrow> bool \<times> EVP_MD_CTX" where
  "EVP_DigestInit A type = EVP_DigestInit_ex A EVP_MD_CTX_init type"

definition EVP_DigestUpdate :: "EVP_MD_CTX \<Rightarrow> bytes \<Rightarrow> EVP_MD_CTX option" where
  "EVP_DigestUpdate ctx d =
     (case (digest ctx, md_data ctx) of
        (Some md, Some s) \<Rightarrow> map_option (\<lambda>s. ctx\<lparr>md_data := Some s\<rparr>) (md_update md s d)
      | _ \<Rightarrow> None)"

text \<open>\<open>EVP_DigestFinal_ex\<close>: the context with its state wiped, the digest, and \<open>*size\<close>.\<close>

definition EVP_DigestFinal_ex :: "EVP_MD_CTX \<Rightarrow> (EVP_MD_CTX \<times> bytes \<times> nat) option" where
  "EVP_DigestFinal_ex ctx =
     (case (digest ctx, md_data ctx) of
        (Some md, Some s) \<Rightarrow>
          map_option (\<lambda>out. (ctx\<lparr>md_data := Some (MD_RAW (\<lambda>_. 0))\<rparr>, out, EVP_MD_size md)) (md_final md s)
      | _ \<Rightarrow> None)"

definition EVP_DigestFinal :: "EVP_MD_CTX \<Rightarrow> (EVP_MD_CTX \<times> bytes \<times> nat) option" where
  "EVP_DigestFinal ctx = map_option (\<lambda>(ctx, r). (EVP_MD_CTX_cleanup ctx, r)) (EVP_DigestFinal_ex ctx)"

text \<open>\<open>EVP_Digest\<close>: \<open>Some None\<close> is the result 0.\<close>

definition EVP_Digest :: "alloc \<Rightarrow> bytes \<Rightarrow> EVP_MD \<Rightarrow> (bytes \<times> nat) option option" where
  "EVP_Digest A d type =
     (case EVP_DigestInit_ex A EVP_MD_CTX_init type of
        (False, ctx) \<Rightarrow> Some None
      | (True, ctx) \<Rightarrow>
          map_option (\<lambda>(ctx, r). Some r) (Option.bind (EVP_DigestUpdate ctx d) EVP_DigestFinal_ex))"

text \<open>The selectors; \<open>None\<close> in front is a null context, and \<open>None\<close> as a result of the last three a null \<open>EVP_MD\<close>
  that is read through.\<close>

definition EVP_MD_CTX_md :: "EVP_MD_CTX option \<Rightarrow> EVP_MD option" where
  "EVP_MD_CTX_md ctx = Option.bind ctx digest"

definition EVP_MD_CTX_size :: "EVP_MD_CTX option \<Rightarrow> nat option" where
  "EVP_MD_CTX_size ctx = map_option EVP_MD_size (EVP_MD_CTX_md ctx)"

definition EVP_MD_CTX_block_size :: "EVP_MD_CTX option \<Rightarrow> nat option" where
  "EVP_MD_CTX_block_size ctx = map_option EVP_MD_block_size (EVP_MD_CTX_md ctx)"

definition EVP_MD_CTX_type :: "EVP_MD_CTX option \<Rightarrow> nat option" where
  "EVP_MD_CTX_type ctx = map_option EVP_MD_type (EVP_MD_CTX_md ctx)"

section \<open>What a context stands for\<close>

definition md_spec :: "EVP_MD \<Rightarrow> bytes \<Rightarrow> bytes" where
  "md_spec md m = (case md of
     EVP_md4 \<Rightarrow> md4_spec m | EVP_md5 \<Rightarrow> md5_spec m | EVP_sha1 \<Rightarrow> sha1_spec m | EVP_sha224 \<Rightarrow> sha224_spec m
   | EVP_sha256 \<Rightarrow> sha256_spec m | EVP_sha384 \<Rightarrow> sha384_spec m | EVP_sha512 \<Rightarrow> sha512_spec m
   | EVP_md5_sha1 \<Rightarrow> md5_spec m @ sha1_spec m)"

fun md_repr :: "EVP_MD \<Rightarrow> md_data \<Rightarrow> bytes \<Rightarrow> bool" where
  "md_repr EVP_md4 (MD_32 c) m = md4_repr c m"
| "md_repr EVP_md5 (MD_32 c) m = md5_repr c m"
| "md_repr EVP_sha1 (MD_32 c) m = sha1_repr c m"
| "md_repr EVP_sha224 (MD_32 c) m = sha224_repr c m"
| "md_repr EVP_sha256 (MD_32 c) m = sha256_repr c m"
| "md_repr EVP_sha384 (MD_64 c) m = sha512_repr iv384 48 c m"
| "md_repr EVP_sha512 (MD_64 c) m = sha512_repr iv512 64 c m"
| "md_repr EVP_md5_sha1 (MD_5_1 c c') m = (md5_repr c m \<and> sha1_repr c' m)"
| "md_repr _ _ _ = False"

text \<open>The memory of a context always has the size of its digest: for the SHA-512 family, a buffer of 128
  bytes.\<close>

fun md_shape :: "EVP_MD \<Rightarrow> md_data \<Rightarrow> bool" where
  "md_shape _ (MD_RAW _) = True"
| "md_shape EVP_sha384 (MD_64 c) = (length (p512 c) = 128)"
| "md_shape EVP_sha512 (MD_64 c) = (length (p512 c) = 128)"
| "md_shape EVP_md5_sha1 (MD_5_1 _ _) = True"
| "md_shape md (MD_32 _) = (md \<in> {EVP_md4, EVP_md5, EVP_sha1, EVP_sha224, EVP_sha256})"
| "md_shape _ _ = False"

lemma md_init_repr: "md_shape md s \<Longrightarrow> md_repr md (md_init md s) []"
proof -
  have i: "sha512_repr iv512 64 (SHA512_Init c) [] \<and> sha512_repr iv384 48 (SHA384_Init c) []"
    if "length (p512 c) = 128" for c
    using that by (simp add: sha512_repr_def SHA512_Init_def SHA384_Init_def iv512_def iv384_def
        chunks_short bit_count512_def)
  assume "md_shape md s"
  then show ?thesis
    by (cases md; cases s)
      (auto simp: i fresh_sha512_def md4_stream.repr_init md5_stream.repr_init sha1_stream.repr_init
        sha224_stream.repr_init sha256_stream.repr_init)
qed

lemma md_update_repr:
  assumes "md_repr md s m"
  shows "\<exists>s'. md_update md s d = Some s' \<and> md_repr md s' (m @ d)"
  using assms
  by (cases md; cases s)
    (auto simp: md4_stream.repr_update md5_stream.repr_update sha1_stream.repr_update sha224_stream.repr_update
      sha256_stream.repr_update sha384.repr_update sha512.repr_update)

lemma md_final_repr: "md_repr md s m \<Longrightarrow> md_final md s = Some (md_spec md m)"
  by (cases md; cases s)
    (auto simp: md_spec_def md4_stream.repr_final md5_stream.repr_final sha1_stream.repr_final
      sha224_stream.repr_final sha256_stream.repr_final sha384.repr_final sha512.repr_final)

lemma md_repr_shape: "md_repr md s m \<Longrightarrow> md_shape md s"
  by (cases md; cases s) (auto simp: sha512_repr_def)

section \<open>Lengths\<close>

lemma length_words [simp]: "length (be_words ws) = 4 * length ws" "length (le_words ws) = 4 * length ws"
  by (induction ws) (simp_all add: be_words_def le_words_def)

lemma length_be_words64 [simp]: "length (be_words64 ws) = 8 * length ws"
  by (induction ws) (simp_all add: be_words64_def)

lemma md_spec_length [simp]: "length (md_spec md m) = EVP_MD_size md"
  by (cases md)
    (simp_all add: md_spec_def md4_spec_def md5_spec_def sha1_spec_def sha224_spec_def sha256_spec_def
      sha384_spec_def sha512_spec_def md_hash_def length_foldl_sha512 iv384_def iv512_def
      sha256.foldl_length sha224.foldl_length sha1.foldl_length md4_md32.foldl_length md5_md32.foldl_length
      sha256.iv_length sha224.iv_length sha1.iv_length md4_md32.iv_length md5_md32.iv_length)

lemma md_sizes:
  "EVP_MD_size md \<le> 64" "EVP_MD_block_size md \<le> 128" "EVP_MD_size md \<le> EVP_MD_block_size md" "0 < EVP_MD_size md"
  by (cases md; simp)+

section \<open>The operations on contexts\<close>

definition md_ctx_wf :: "EVP_MD_CTX \<Rightarrow> bool" where
  "md_ctx_wf ctx \<longleftrightarrow>
     (case digest ctx of
        None \<Rightarrow> md_data ctx = None
      | Some md \<Rightarrow> (case md_data ctx of None \<Rightarrow> False | Some s \<Rightarrow> md_shape md s))"

definition md_ctx_repr :: "EVP_MD \<Rightarrow> EVP_MD_CTX \<Rightarrow> bytes \<Rightarrow> bool" where
  "md_ctx_repr md ctx m \<longleftrightarrow>
     digest ctx = Some md \<and> (case md_data ctx of None \<Rightarrow> False | Some s \<Rightarrow> md_repr md s m)"

lemma md_ctx_init_wf [simp]: "md_ctx_wf EVP_MD_CTX_init"
  by (simp add: md_ctx_wf_def EVP_MD_CTX_init_def)

lemma md_ctx_repr_wf: "md_ctx_repr md ctx m \<Longrightarrow> md_ctx_wf ctx"
  by (auto simp: md_ctx_repr_def md_ctx_wf_def md_repr_shape split: option.splits)

lemma md_ctx_repr_digest: "md_ctx_repr md ctx m \<Longrightarrow> digest ctx = Some md"
  by (simp add: md_ctx_repr_def)

lemma EVP_DigestInit_ex_cases:
  assumes "md_ctx_wf ctx"
  obtains (ok) ctx' where "EVP_DigestInit_ex A ctx md = (True, ctx')" and "md_ctx_repr md ctx' []"
      and "digest ctx = Some md \<or> A (md_ctx_size md) \<noteq> None"
    | (fails) "EVP_DigestInit_ex A ctx md = (False, ctx)" and "digest ctx \<noteq> Some md" and "A (md_ctx_size md) = None"
proof (cases "digest ctx = Some md")
  case True
  with assms obtain s where "md_data ctx = Some s" "md_shape md s"
    by (auto simp: md_ctx_wf_def split: option.splits)
  with True show ?thesis
    by (intro ok [of "ctx\<lparr>md_data := Some (md_init md s)\<rparr>"]) (simp_all add: EVP_DigestInit_ex_def md_ctx_repr_def md_init_repr)
next
  case False
  show ?thesis
  proof (cases "A (md_ctx_size md)")
    case None
    with False show ?thesis by (intro fails) (simp_all add: EVP_DigestInit_ex_def)
  next
    case (Some mem)
    with False show ?thesis
      by (intro ok [of "\<lparr>digest = Some md, md_data = Some (md_init md (MD_RAW mem))\<rparr>"]) (simp_all add: EVP_DigestInit_ex_def md_ctx_repr_def md_init_repr)
  qed
qed

lemma EVP_DigestUpdate_ok:
  assumes "md_ctx_repr md ctx m"
  obtains ctx' where "EVP_DigestUpdate ctx d = Some ctx'" and "md_ctx_repr md ctx' (m @ d)"
proof -
  from assms obtain s where s: "digest ctx = Some md" "md_data ctx = Some s" "md_repr md s m"
    by (auto simp: md_ctx_repr_def split: option.splits)
  obtain s' where "md_update md s d = Some s'" "md_repr md s' (m @ d)"
    using md_update_repr [OF s(3)] by blast
  with s that show ?thesis by (simp add: EVP_DigestUpdate_def md_ctx_repr_def)
qed

lemma EVP_DigestFinal_ex_ok:
  assumes "md_ctx_repr md ctx m"
  obtains ctx' where "EVP_DigestFinal_ex ctx = Some (ctx', md_spec md m, EVP_MD_size md)"
    and "md_ctx_wf ctx'" and "digest ctx' = Some md"
proof -
  from assms obtain s where "digest ctx = Some md" "md_data ctx = Some s" "md_repr md s m"
    by (auto simp: md_ctx_repr_def split: option.splits)
  with that show ?thesis by (simp add: EVP_DigestFinal_ex_def md_final_repr md_ctx_wf_def)
qed

lemma EVP_MD_CTX_copy_ex_cases:
  assumes "md_ctx_repr md i m"
  obtains (ok) out' where "EVP_MD_CTX_copy_ex A out i = (True, out')" and "md_ctx_repr md out' m"
      and "digest out = Some md \<or> A (md_ctx_size md) \<noteq> None"
    | (fails) "EVP_MD_CTX_copy_ex A out i = (False, out)" and "digest out \<noteq> Some md" and "A (md_ctx_size md) = None"
proof (cases "digest out \<noteq> Some md \<and> A (md_ctx_size md) = None")
  case True
  with assms show ?thesis by (intro fails) (simp_all add: EVP_MD_CTX_copy_ex_def md_ctx_repr_def)
next
  case False
  with assms show ?thesis by (intro ok [of i]) (auto simp: EVP_MD_CTX_copy_ex_def md_ctx_repr_def)
qed

lemma EVP_Digest_ok:
  "EVP_Digest A d md = Some (if A (md_ctx_size md) = None then None else Some (md_spec md d, EVP_MD_size md))"
  using md_ctx_init_wf
proof (cases rule: EVP_DigestInit_ex_cases [of _ A md])
  case (ok ctx)
  obtain ctx1 where u: "EVP_DigestUpdate ctx d = Some ctx1" "md_ctx_repr md ctx1 ([] @ d)"
      using EVP_DigestUpdate_ok [OF ok(2)] .
    obtain ctx2 where "EVP_DigestFinal_ex ctx1 = Some (ctx2, md_spec md ([] @ d), EVP_MD_size md)"
      using EVP_DigestFinal_ex_ok [OF u(2)] .
  with ok u(1) show ?thesis by (simp add: EVP_Digest_def EVP_MD_CTX_init_def)
next
  case fails
  then show ?thesis by (simp add: EVP_Digest_def)
qed

end
