(* ===== verification/Hmac.thy ===== *)
theory Hmac
  imports Evp_Digest
begin

text \<open>
  HMAC, \<open>crypto/fipsmodule/hmac/hmac.c\<close>: a context with the inner and the outer digest, each keyed once,
  and the running one. \<open>As k\<close> is the answer to the \<open>k\<close>-th allocation a function may make. \<open>None\<close> is a run
  that reads through a null pointer.
\<close>

section \<open>The code\<close>

record HMAC_CTX =
  hmac_md :: "EVP_MD option"
  md_ctx :: EVP_MD_CTX
  i_ctx :: EVP_MD_CTX
  o_ctx :: EVP_MD_CTX

definition HMAC_CTX_init :: HMAC_CTX where
  "HMAC_CTX_init =
     \<lparr>hmac_md = None, md_ctx = EVP_MD_CTX_init, i_ctx = EVP_MD_CTX_init, o_ctx = EVP_MD_CTX_init\<rparr>"

text \<open>The 104 bytes of the structure.\<close>

definition HMAC_CTX_new :: "alloc \<Rightarrow> HMAC_CTX option" where
  "HMAC_CTX_new A = (if A 104 = None then None else Some HMAC_CTX_init)"

text \<open>\<open>HMAC_CTX_cleanup\<close> wipes the context to zeros.\<close>

definition HMAC_CTX_cleanup :: "HMAC_CTX \<Rightarrow> HMAC_CTX" where
  "HMAC_CTX_cleanup ctx = HMAC_CTX_init"

text \<open>The block of the key in \<open>HMAC_Init_ex\<close>: a key longer than a block is hashed, then the buffer of 128
  bytes is filled with zeros. The result is \<open>Inl\<close> for the result 0, with the context as it is left.\<close>

definition hmac_key_block :: "alloc \<Rightarrow> HMAC_CTX \<Rightarrow> bytes \<Rightarrow> EVP_MD \<Rightarrow> (HMAC_CTX + HMAC_CTX \<times> bytes) option" where
  "hmac_key_block A ctx key md =
     (if EVP_MD_block_size md < length key
      then
        (case EVP_DigestInit_ex A (md_ctx ctx) md of
           (False, c) \<Rightarrow> Some (Inl (ctx\<lparr>md_ctx := c\<rparr>))
         | (True, c) \<Rightarrow>
             map_option (\<lambda>(c, out, len). Inr (ctx\<lparr>md_ctx := c\<rparr>, out @ replicate (128 - len) 0))
               (Option.bind (EVP_DigestUpdate c key) EVP_DigestFinal_ex))
      else Some (Inr (ctx, key @ replicate (128 - length key) 0)))"

text \<open>One of the two keyed digests: \<open>pad[i] = x ^ key_block[i]\<close>, and the first block of it hashed.\<close>

definition hmac_keyed :: "alloc \<Rightarrow> EVP_MD_CTX \<Rightarrow> EVP_MD \<Rightarrow> u8 \<Rightarrow> bytes \<Rightarrow> (bool \<times> EVP_MD_CTX) option" where
  "hmac_keyed A c md x key_block =
     (let pad = map (\<lambda>i. x XOR key_block ! i) [0..<128] in
      case EVP_DigestInit_ex A c md of
        (False, c) \<Rightarrow> Some (False, c)
      | (True, c) \<Rightarrow> map_option (\<lambda>c. (True, c)) (EVP_DigestUpdate c (take (EVP_MD_block_size md) pad)))"

text \<open>\<open>HMAC_Init_ex\<close>; \<open>key\<close> is \<open>None\<close> for a null pointer, and so is \<open>md\<close>.\<close>

definition HMAC_Init_ex ::
  "(nat \<Rightarrow> alloc) \<Rightarrow> HMAC_CTX \<Rightarrow> bytes option \<Rightarrow> EVP_MD option \<Rightarrow> (bool \<times> HMAC_CTX) option"
where
  "HMAC_Init_ex As ctx key md0 =
     (let md = (if md0 = None then hmac_md ctx else md0);
          copy = (\<lambda>ctx. let (ok, c) = EVP_MD_CTX_copy_ex (As 3) (md_ctx ctx) (i_ctx ctx)
                        in Some (ok, ctx\<lparr>md_ctx := c\<rparr>))
      in if md \<noteq> hmac_md ctx \<or> key \<noteq> None
         then
           (case md of
              None \<Rightarrow> None
            | Some m \<Rightarrow>
                (case hmac_key_block (As 0) ctx (case key of None \<Rightarrow> [] | Some k \<Rightarrow> k) m of
                   None \<Rightarrow> None
                 | Some (Inl ctx) \<Rightarrow> Some (False, ctx)
                 | Some (Inr (ctx, kb)) \<Rightarrow>
                     (case hmac_keyed (As 1) (i_ctx ctx) m 0x36 kb of
                        None \<Rightarrow> None
                      | Some (False, c) \<Rightarrow> Some (False, ctx\<lparr>i_ctx := c\<rparr>)
                      | Some (True, c) \<Rightarrow>
                          (let ctx = ctx\<lparr>i_ctx := c\<rparr> in
                           case hmac_keyed (As 2) (o_ctx ctx) m 0x5c kb of
                             None \<Rightarrow> None
                           | Some (False, c) \<Rightarrow> Some (False, ctx\<lparr>o_ctx := c\<rparr>)
                           | Some (True, c) \<Rightarrow> copy (ctx\<lparr>o_ctx := c, hmac_md := Some m\<rparr>)))))
         else copy ctx)"

definition HMAC_Update :: "HMAC_CTX \<Rightarrow> bytes \<Rightarrow> HMAC_CTX option" where
  "HMAC_Update ctx d = map_option (\<lambda>c. ctx\<lparr>md_ctx := c\<rparr>) (EVP_DigestUpdate (md_ctx ctx) d)"

text \<open>\<open>HMAC_Final\<close>: the context, and the digest with \<open>*out_len\<close> (\<open>None\<close> for the result 0). \<open>null_len\<close> says that
  \<open>out_len\<close> is null, which the failing branch would write through.\<close>

definition HMAC_Final :: "alloc \<Rightarrow> bool \<Rightarrow> HMAC_CTX \<Rightarrow> (HMAC_CTX \<times> (bytes \<times> nat) option) option" where
  "HMAC_Final A null_len ctx =
     (case EVP_DigestFinal_ex (md_ctx ctx) of
        None \<Rightarrow> None
      | Some (c, buf, i) \<Rightarrow>
          (case EVP_MD_CTX_copy_ex A c (o_ctx ctx) of
             (False, c) \<Rightarrow> if null_len then None else Some (ctx\<lparr>md_ctx := c\<rparr>, None)
           | (True, c) \<Rightarrow>
               (case Option.bind (EVP_DigestUpdate c (take i buf)) EVP_DigestFinal_ex of
                  None \<Rightarrow> None
                | Some (c, out) \<Rightarrow> Some (ctx\<lparr>md_ctx := c\<rparr>, Some out))))"

definition HMAC_size :: "HMAC_CTX \<Rightarrow> nat option" where
  "HMAC_size ctx = map_option EVP_MD_size (hmac_md ctx)"

text \<open>\<open>HMAC_CTX_copy_ex(dest, src)\<close>: the result and \<open>dest\<close>.\<close>

definition HMAC_CTX_copy_ex :: "(nat \<Rightarrow> alloc) \<Rightarrow> HMAC_CTX \<Rightarrow> HMAC_CTX \<Rightarrow> bool \<times> HMAC_CTX" where
  "HMAC_CTX_copy_ex As dest src =
     (case EVP_MD_CTX_copy_ex (As 0) (i_ctx dest) (i_ctx src) of
        (False, c) \<Rightarrow> (False, dest\<lparr>i_ctx := c\<rparr>)
      | (True, c) \<Rightarrow>
          (let dest = dest\<lparr>i_ctx := c\<rparr> in
           case EVP_MD_CTX_copy_ex (As 1) (o_ctx dest) (o_ctx src) of
             (False, c) \<Rightarrow> (False, dest\<lparr>o_ctx := c\<rparr>)
           | (True, c) \<Rightarrow>
               (let dest = dest\<lparr>o_ctx := c\<rparr> in
                case EVP_MD_CTX_copy_ex (As 2) (md_ctx dest) (md_ctx src) of
                  (False, c) \<Rightarrow> (False, dest\<lparr>md_ctx := c\<rparr>)
                | (True, c) \<Rightarrow> (True, dest\<lparr>md_ctx := c, hmac_md := hmac_md src\<rparr>))))"

definition HMAC_CTX_reset :: "HMAC_CTX \<Rightarrow> HMAC_CTX" where
  "HMAC_CTX_reset ctx = HMAC_CTX_init"

definition HMAC_CTX_copy :: "(nat \<Rightarrow> alloc) \<Rightarrow> HMAC_CTX \<Rightarrow> bool \<times> HMAC_CTX" where
  "HMAC_CTX_copy As src = HMAC_CTX_copy_ex As HMAC_CTX_init src"

text \<open>\<open>HMAC_Init\<close> starts afresh when both the key and the digest are given.\<close>

definition HMAC_Init ::
  "(nat \<Rightarrow> alloc) \<Rightarrow> HMAC_CTX \<Rightarrow> bytes option \<Rightarrow> EVP_MD option \<Rightarrow> (bool \<times> HMAC_CTX) option"
where
  "HMAC_Init As ctx key md =
     HMAC_Init_ex As (if key \<noteq> None \<and> md \<noteq> None then HMAC_CTX_init else ctx) key md"

text \<open>The one-shot function: \<open>Some None\<close> is a null result.\<close>

definition HMAC :: "(nat \<Rightarrow> alloc) \<Rightarrow> EVP_MD \<Rightarrow> bytes option \<Rightarrow> bytes \<Rightarrow> (bytes \<times> nat) option option" where
  "HMAC As md key d =
     (case HMAC_Init_ex As HMAC_CTX_init key (Some md) of
        None \<Rightarrow> None
      | Some (False, ctx) \<Rightarrow> Some None
      | Some (True, ctx) \<Rightarrow>
          map_option snd (Option.bind (HMAC_Update ctx d) (HMAC_Final (As 4) False)))"

section \<open>FIPS 198-1\<close>

definition hmac_K0 :: "EVP_MD \<Rightarrow> bytes \<Rightarrow> bytes" where
  "hmac_K0 md k =
     (let k = (if EVP_MD_block_size md < length k then md_spec md k else k)
      in k @ replicate (EVP_MD_block_size md - length k) 0)"

definition hmac_pad :: "EVP_MD \<Rightarrow> u8 \<Rightarrow> bytes \<Rightarrow> bytes" where
  "hmac_pad md x k = map (\<lambda>b. b XOR x) (hmac_K0 md k)"

definition hmac_spec :: "EVP_MD \<Rightarrow> bytes \<Rightarrow> bytes \<Rightarrow> bytes" where
  "hmac_spec md k m = md_spec md (hmac_pad md 0x5c k @ md_spec md (hmac_pad md 0x36 k @ m))"

section \<open>The code computes it\<close>

definition hmac_wf :: "HMAC_CTX \<Rightarrow> bool" where
  "hmac_wf ctx \<longleftrightarrow> md_ctx_wf (md_ctx ctx) \<and> md_ctx_wf (i_ctx ctx) \<and> md_ctx_wf (o_ctx ctx)"

text \<open>Keyed with \<open>k\<close>; and besides, the message \<open>m\<close> taken in.\<close>

definition hmac_keyed_repr :: "EVP_MD \<Rightarrow> bytes \<Rightarrow> HMAC_CTX \<Rightarrow> bool" where
  "hmac_keyed_repr md k ctx \<longleftrightarrow> hmac_md ctx = Some md \<and> md_ctx_repr md (i_ctx ctx) (hmac_pad md 0x36 k)
     \<and> md_ctx_repr md (o_ctx ctx) (hmac_pad md 0x5c k)
     \<and> md_ctx_wf (md_ctx ctx) \<and> digest (md_ctx ctx) = Some md"

definition hmac_repr :: "EVP_MD \<Rightarrow> bytes \<Rightarrow> HMAC_CTX \<Rightarrow> bytes \<Rightarrow> bool" where
  "hmac_repr md k ctx m \<longleftrightarrow>
     hmac_keyed_repr md k ctx \<and> md_ctx_repr md (md_ctx ctx) (hmac_pad md 0x36 k @ m)"

lemma hmac_init_wf [simp]: "hmac_wf HMAC_CTX_init"
  by (simp add: hmac_wf_def HMAC_CTX_init_def)

lemma length_hmac_K0 [simp]: "length (hmac_K0 md k) = EVP_MD_block_size md"
  using md_sizes [of md] by (simp add: hmac_K0_def Let_def)

lemma length_hmac_spec [simp]: "length (hmac_spec md k m) = EVP_MD_size md"
  by (simp add: hmac_spec_def)

lemma hmac_key_block_cases:
  assumes "md_ctx_wf (md_ctx ctx)"
  obtains (ok) c kb where "hmac_key_block A ctx k md = Some (Inr (ctx\<lparr>md_ctx := c\<rparr>, kb))" and "md_ctx_wf c"
      and "length kb = 128" and "take (EVP_MD_block_size md) kb = hmac_K0 md k"
    | (fails) "hmac_key_block A ctx k md = Some (Inl ctx)" and "A (md_ctx_size md) = None"
proof (cases "EVP_MD_block_size md < length k")
  case False
  then have "take (EVP_MD_block_size md) (k @ replicate (128 - length k) 0) = hmac_K0 md k"
    using md_sizes(2) [of md] by (simp add: hmac_K0_def min_absorb1)
  with False assms md_sizes(2) [of md] show ?thesis
    by (intro ok [of "md_ctx ctx" "k @ replicate (128 - length k) 0"]) (simp_all add: hmac_key_block_def)
next
  case True
  from assms show ?thesis
  proof (cases rule: EVP_DigestInit_ex_cases [of _ A md])
    case (ok c)
    obtain c1 where u: "EVP_DigestUpdate c k = Some c1" "md_ctx_repr md c1 ([] @ k)"
      using EVP_DigestUpdate_ok [OF ok(2)] .
    obtain c2 where f: "EVP_DigestFinal_ex c1 = Some (c2, md_spec md ([] @ k), EVP_MD_size md)" "md_ctx_wf c2"
      using EVP_DigestFinal_ex_ok [OF u(2)] .
    have "take (EVP_MD_block_size md) (md_spec md k @ replicate (128 - EVP_MD_size md) 0) = hmac_K0 md k"
      using True md_sizes [of md] by (simp add: hmac_K0_def min_absorb1)
    with True ok u f show ?thesis
      using md_sizes [of md] by (intro that(1) [of c2 "md_spec md k @ replicate (128 - EVP_MD_size md) 0"]) (simp_all add: hmac_key_block_def)
  next
    case fails
    with True show ?thesis by (intro that(2)) (simp_all add: hmac_key_block_def)
  qed
qed

lemma hmac_pad_take:
  assumes "length kb = 128" and "take (EVP_MD_block_size md) kb = hmac_K0 md k"
  shows "take (EVP_MD_block_size md) (map (\<lambda>i. x XOR kb ! i) [0..<128]) = hmac_pad md x k"
proof -
  have "map (\<lambda>i. x XOR kb ! i) [0..<128] = map (\<lambda>b. b XOR x) kb"
    using assms(1) by (auto intro: nth_equalityI simp: xor.commute)
  then show ?thesis by (simp add: hmac_pad_def take_map assms(2))
qed

lemma hmac_keyed_cases [consumes 3, case_names ok fails]:
  assumes "md_ctx_wf c" and "length kb = 128" and "take (EVP_MD_block_size md) kb = hmac_K0 md k"
  obtains (ok) c' where "hmac_keyed A c md x kb = Some (True, c')" and "md_ctx_repr md c' (hmac_pad md x k)"
    | (fails) "hmac_keyed A c md x kb = Some (False, c)" and "A (md_ctx_size md) = None"
  using assms(1)
proof (cases rule: EVP_DigestInit_ex_cases [of _ A md])
  case (ok c')
  obtain c1 where "EVP_DigestUpdate c' (hmac_pad md x k) = Some c1" "md_ctx_repr md c1 ([] @ hmac_pad md x k)"
    using EVP_DigestUpdate_ok [OF ok(2)] .
  with ok show ?thesis
    unfolding hmac_keyed_def hmac_pad_take [OF assms(2,3)] Let_def
    by (intro that(1)) (simp_all add: hmac_keyed_def Let_def hmac_pad_take [OF assms(2,3)])
next
  case fails
  then show ?thesis by (intro that(2)) (simp_all add: hmac_keyed_def)
qed

lemma hmac_keyed_repr_wf: "hmac_keyed_repr md k ctx \<Longrightarrow> hmac_wf ctx"
  by (auto simp: hmac_keyed_repr_def hmac_wf_def md_ctx_repr_wf)

text \<open>A new key: the code is keyed with it, or an allocation failed.\<close>

lemma HMAC_Init_ex_new [consumes 3, case_names ok fails]:
  assumes wf: "hmac_wf ctx" and md: "(if md0 = None then hmac_md ctx else md0) = Some md"
    and new: "Some md \<noteq> hmac_md ctx \<or> key \<noteq> None"
  defines "k \<equiv> case key of None \<Rightarrow> [] | Some k \<Rightarrow> k"
  obtains (ok) ctx' where "HMAC_Init_ex As ctx key md0 = Some (True, ctx')" and "hmac_repr md k ctx' []"
    | (fails) ctx' j where "HMAC_Init_ex As ctx key md0 = Some (False, ctx')" and "hmac_wf ctx'"
        and "j < 4" and "As j (md_ctx_size md) = None"
proof -
  have w: "md_ctx_wf (md_ctx ctx)" "md_ctx_wf (i_ctx ctx)" "md_ctx_wf (o_ctx ctx)"
    using wf by (simp_all add: hmac_wf_def)
  note def = HMAC_Init_ex_def [of As ctx key md0, unfolded Let_def md k_def [symmetric]]
  from w(1) show thesis
  proof (cases rule: hmac_key_block_cases [of _ "As 0" k md])
    case fails
    with new have "HMAC_Init_ex As ctx key md0 = Some (False, ctx)" by (simp add: def)
    then show thesis using wf fails by (intro that(2) [of ctx 0]) simp_all
  next
    case (ok c kb)
    note kb = this
    from w(2) kb(3,4) show thesis
    proof (cases rule: hmac_keyed_cases [of _ _ _ _ "As 1" "0x36"])
      case fails
      with new kb have "HMAC_Init_ex As ctx key md0 = Some (False, ctx\<lparr>md_ctx := c\<rparr>)" by (simp add: def)
      then show thesis using wf kb fails
        by (intro that(2) [of "ctx\<lparr>md_ctx := c\<rparr>" 1]) (simp_all add: hmac_wf_def)
    next
      case (ok i)
      note i = this
      from w(3) kb(3,4) show thesis
      proof (cases rule: hmac_keyed_cases [of _ _ _ _ "As 2" "0x5c"])
        case fails
        with new kb i have "HMAC_Init_ex As ctx key md0 = Some (False, ctx\<lparr>md_ctx := c, i_ctx := i\<rparr>)"
          by (simp add: def)
        then show thesis using wf kb fails md_ctx_repr_wf [OF i(2)]
          by (intro that(2) [of "ctx\<lparr>md_ctx := c, i_ctx := i\<rparr>" 2]) (simp_all add: hmac_wf_def)
      next
        case (ok out)
        note out = this
        define ctx1 where "ctx1 = ctx\<lparr>md_ctx := c, i_ctx := i, o_ctx := out, hmac_md := Some md\<rparr>"
        have H: "HMAC_Init_ex As ctx key md0
            = (let (ok, c) = EVP_MD_CTX_copy_ex (As 3) (md_ctx ctx1) (i_ctx ctx1) in Some (ok, ctx1\<lparr>md_ctx := c\<rparr>))"
          using new kb i out by (simp add: def ctx1_def)
        from i(2) show thesis
        proof (cases rule: EVP_MD_CTX_copy_ex_cases [of _ _ _ "As 3" c])
          case (ok c')
          then have "HMAC_Init_ex As ctx key md0 = Some (True, ctx1\<lparr>md_ctx := c'\<rparr>)"
            by (simp add: H ctx1_def)
          then show thesis
            using ok i out md_ctx_repr_wf [OF ok(2)]
            by (intro that(1) [of "ctx1\<lparr>md_ctx := c'\<rparr>"])
              (simp_all add: hmac_repr_def hmac_keyed_repr_def ctx1_def md_ctx_repr_digest)
        next
          case fails
          then have "HMAC_Init_ex As ctx key md0 = Some (False, ctx1\<lparr>md_ctx := c\<rparr>)"
            by (simp add: H ctx1_def)
          then show thesis
            using kb fails md_ctx_repr_wf [OF i(2)] md_ctx_repr_wf [OF out(2)]
            by (intro that(2) [of "ctx1\<lparr>md_ctx := c\<rparr>" 3]) (simp_all add: hmac_wf_def ctx1_def)
        qed
      qed
    qed
  qed
qed

text \<open>A null key and no new digest: back to the start of the message, with no allocation.\<close>

lemma HMAC_Init_ex_rewind:
  assumes "hmac_keyed_repr md k ctx" and "md0 = None \<or> md0 = Some md"
  obtains ctx' where "HMAC_Init_ex As ctx None md0 = Some (True, ctx')" and "hmac_repr md k ctx' []"
proof -
  have md: "hmac_md ctx = Some md" and i: "md_ctx_repr md (i_ctx ctx) (hmac_pad md 0x36 k)"
    and d: "digest (md_ctx ctx) = Some md"
    using assms(1) by (simp_all add: hmac_keyed_repr_def)
  from i show thesis
  proof (cases rule: EVP_MD_CTX_copy_ex_cases [of _ _ _ "As 3" "md_ctx ctx"])
    case (ok c)
    then have "HMAC_Init_ex As ctx None md0 = Some (True, ctx\<lparr>md_ctx := c\<rparr>)"
      using assms(2) md by (auto simp: HMAC_Init_ex_def)
    then show thesis
      using assms(1) ok md_ctx_repr_wf [OF ok(2)]
      by (intro that [of "ctx\<lparr>md_ctx := c\<rparr>"]) (simp_all add: hmac_repr_def hmac_keyed_repr_def md_ctx_repr_digest)
  next
    case fails
    with d show thesis by simp
  qed
qed

lemma HMAC_Update_ok:
  assumes "hmac_repr md k ctx m"
  obtains ctx' where "HMAC_Update ctx d = Some ctx'" and "hmac_repr md k ctx' (m @ d)"
proof -
  have r: "md_ctx_repr md (md_ctx ctx) (hmac_pad md 0x36 k @ m)" and "hmac_keyed_repr md k ctx"
    using assms by (simp_all add: hmac_repr_def)
  moreover obtain c where c: "EVP_DigestUpdate (md_ctx ctx) d = Some c"
      "md_ctx_repr md c ((hmac_pad md 0x36 k @ m) @ d)"
    using EVP_DigestUpdate_ok [OF r] .
  ultimately show thesis
    using md_ctx_repr_wf [OF c(2)]
    by (intro that [of "ctx\<lparr>md_ctx := c\<rparr>"])
      (simp_all add: HMAC_Update_def hmac_repr_def hmac_keyed_repr_def md_ctx_repr_digest)
qed

text \<open>\<open>HMAC_Final\<close> makes no allocation and cannot fail, so it never writes through a null \<open>out_len\<close>.\<close>

lemma HMAC_Final_ok:
  assumes "hmac_repr md k ctx m"
  obtains ctx' where "HMAC_Final A null_len ctx = Some (ctx', Some (hmac_spec md k m, EVP_MD_size md))"
    and "hmac_keyed_repr md k ctx'"
proof -
  have r: "md_ctx_repr md (md_ctx ctx) (hmac_pad md 0x36 k @ m)" and k: "hmac_keyed_repr md k ctx"
    and out: "md_ctx_repr md (o_ctx ctx) (hmac_pad md 0x5c k)"
    using assms by (simp_all add: hmac_repr_def hmac_keyed_repr_def)
  let ?inner = "md_spec md (hmac_pad md 0x36 k @ m)"
  obtain c where c: "EVP_DigestFinal_ex (md_ctx ctx) = Some (c, ?inner, EVP_MD_size md)" "md_ctx_wf c"
      "digest c = Some md"
    using EVP_DigestFinal_ex_ok [OF r] .
  from out show thesis
  proof (cases rule: EVP_MD_CTX_copy_ex_cases [of _ _ _ A c])
    case (ok c1)
    obtain c2 where c2: "EVP_DigestUpdate c1 ?inner = Some c2" "md_ctx_repr md c2 (hmac_pad md 0x5c k @ ?inner)"
      using EVP_DigestUpdate_ok [OF ok(2)] .
    obtain c3 where c3: "EVP_DigestFinal_ex c2 = Some (c3, md_spec md (hmac_pad md 0x5c k @ ?inner), EVP_MD_size md)"
        "md_ctx_wf c3" "digest c3 = Some md"
      using EVP_DigestFinal_ex_ok [OF c2(2)] .
    have "HMAC_Final A null_len ctx
        = Some (ctx\<lparr>md_ctx := c3\<rparr>, Some (hmac_spec md k m, EVP_MD_size md))"
      using c ok c2 c3 by (simp add: HMAC_Final_def hmac_spec_def)
    then show thesis using k c3 by (intro that [of "ctx\<lparr>md_ctx := c3\<rparr>"]) (simp_all add: hmac_keyed_repr_def)
  next
    case fails
    with c show thesis by simp
  qed
qed

text \<open>The one-shot function.\<close>

lemma HMAC_cases:
  defines "k \<equiv> \<lambda>key. case key of None \<Rightarrow> [] | Some k \<Rightarrow> k"
  obtains (ok) "HMAC As md key d = Some (Some (hmac_spec md (k key) d, EVP_MD_size md))"
    | (fails) j where "HMAC As md key d = Some None" and "j < 4" and "As j (md_ctx_size md) = None"
proof -
  have new: "Some md \<noteq> hmac_md HMAC_CTX_init \<or> key \<noteq> None" by (simp add: HMAC_CTX_init_def)
  have md: "(if Some md = None then hmac_md HMAC_CTX_init else Some md) = Some md" by simp
  from hmac_init_wf md new show thesis
  proof (cases rule: HMAC_Init_ex_new [of _ _ _ _ As])
    case (ok ctx)
    let ?k = "case key of None \<Rightarrow> [] | Some k \<Rightarrow> k"
    obtain c1 where c1: "HMAC_Update ctx d = Some c1" "hmac_repr md ?k c1 ([] @ d)"
      using HMAC_Update_ok [OF ok(2)] .
    obtain c2 where "HMAC_Final (As 4) False c1 = Some (c2, Some (hmac_spec md ?k ([] @ d), EVP_MD_size md))"
      using HMAC_Final_ok [OF c1(2)] .
    with ok c1 show thesis by (intro that(1)) (simp add: HMAC_def k_def)
  next
    case (fails ctx j)
    then show thesis by (intro that(2) [of j]) (simp_all add: HMAC_def)
  qed
qed

lemma HMAC_CTX_copy_ex_cases:
  assumes "hmac_repr md k src m"
  obtains (ok) dest' where "HMAC_CTX_copy_ex As dest src = (True, dest')" and "hmac_repr md k dest' m"
    | (fails) dest' j where "HMAC_CTX_copy_ex As dest src = (False, dest')" and "j < 3"
        and "As j (md_ctx_size md) = None"
proof -
  have r: "md_ctx_repr md (i_ctx src) (hmac_pad md 0x36 k)" "md_ctx_repr md (o_ctx src) (hmac_pad md 0x5c k)"
      "md_ctx_repr md (md_ctx src) (hmac_pad md 0x36 k @ m)" and md: "hmac_md src = Some md"
    using assms by (simp_all add: hmac_repr_def hmac_keyed_repr_def)
  show thesis
    using r(1)
  proof (cases rule: EVP_MD_CTX_copy_ex_cases [of _ _ _ "As 0" "i_ctx dest"])
    case (ok i)
    note i = this
    show thesis
      using r(2)
    proof (cases rule: EVP_MD_CTX_copy_ex_cases [of _ _ _ "As 1" "o_ctx dest"])
      case (ok out)
      note out = this
      show thesis
        using r(3)
      proof (cases rule: EVP_MD_CTX_copy_ex_cases [of _ _ _ "As 2" "md_ctx dest"])
        case (ok c)
        with i out md_ctx_repr_wf [OF ok(2)] show thesis
          by (intro that(1) [of "dest\<lparr>i_ctx := i, o_ctx := out, md_ctx := c, hmac_md := Some md\<rparr>"])
            (simp_all add: HMAC_CTX_copy_ex_def hmac_repr_def hmac_keyed_repr_def md md_ctx_repr_digest)
      next
        case fails
        with i out show thesis by (intro that(2) [of _ 2]) (simp_all add: HMAC_CTX_copy_ex_def)
      qed
    next
      case fails
      with i show thesis by (intro that(2) [of _ 1]) (simp_all add: HMAC_CTX_copy_ex_def)
    qed
  next
    case fails
    then show thesis by (intro that(2) [of _ 0]) (simp_all add: HMAC_CTX_copy_ex_def)
  qed
qed

end
