(* ===== verification/Kdf.thy ===== *)
theory Kdf
  imports Hmac
begin

text \<open>
  Keys from HMAC: HKDF (\<open>crypto/hkdf/hkdf.c\<close>), PBKDF2 (\<open>evp/pbkdf.c\<close>) and the pseudorandom function of TLS
  1.0 to 1.2 (\<open>fipsmodule/tls/kdf.c\<close>). \<open>As k\<close> is the answer to the \<open>k\<close>-th allocation; a function that calls
  another hands the answers on from some place. \<open>None\<close> is a run that reads or writes through a null
  pointer; all three hand a null \<open>out_len\<close> to \<open>HMAC_Final\<close> or rely on it not to fail.
\<close>

definition later :: "(nat \<Rightarrow> alloc) \<Rightarrow> nat \<Rightarrow> nat \<Rightarrow> alloc" where
  "later As k j = As (k + j)"

text \<open>Several updates in a row.\<close>

fun hmac_updates :: "HMAC_CTX \<Rightarrow> bytes list \<Rightarrow> HMAC_CTX option" where
  "hmac_updates ctx [] = Some ctx"
| "hmac_updates ctx (d # ds) = Option.bind (HMAC_Update ctx d) (\<lambda>ctx. hmac_updates ctx ds)"

lemma hmac_updates_ok:
  assumes "hmac_repr md k ctx m"
  obtains ctx' where "hmac_updates ctx ds = Some ctx'" and "hmac_repr md k ctx' (m @ concat ds)"
  using assms
proof (induction ds arbitrary: ctx m thesis)
  case Nil
  then show ?case by simp
next
  case (Cons d ds)
  obtain c where c: "HMAC_Update ctx d = Some c" "hmac_repr md k c (m @ d)"
    using HMAC_Update_ok [OF Cons.prems(2)] .
  obtain c' where "hmac_updates c ds = Some c'" "hmac_repr md k c' ((m @ d) @ concat ds)"
    using Cons.IH [OF _ c(2)] .
  with c Cons.prems(1) show ?case by simp
qed

section \<open>HKDF\<close>

definition HKDF_extract :: "(nat \<Rightarrow> alloc) \<Rightarrow> EVP_MD \<Rightarrow> bytes \<Rightarrow> bytes option \<Rightarrow> (bytes \<times> nat) option option" where
  "HKDF_extract As md secret salt = HMAC As md salt secret"

text \<open>The loop of \<open>HKDF_expand\<close>: \<open>out\<close> is what has been written to \<open>out_key\<close>, so \<open>done\<close> is its length.
  \<open>Some None\<close> is the result 0.\<close>

function hkdf_loop ::
  "(nat \<Rightarrow> alloc) \<Rightarrow> nat \<Rightarrow> nat \<Rightarrow> nat \<Rightarrow> bytes \<Rightarrow> nat \<Rightarrow> bytes \<Rightarrow> bytes \<Rightarrow> HMAC_CTX \<Rightarrow> bytes option option"
where
  "hkdf_loop As n out_len digest_len info i previous out hmac =
     (if i < n
      then
        (let start =
           (if i \<noteq> 0
            then (case HMAC_Init_ex (later As (8 * i)) hmac None None of
                    Some (True, hmac) \<Rightarrow>
                      map_option (Pair True) (HMAC_Update hmac (take digest_len previous))
                  | r \<Rightarrow> r)
            else Some (True, hmac))
         in case start of
              None \<Rightarrow> None
            | Some (False, hmac) \<Rightarrow> Some None
            | Some (True, hmac) \<Rightarrow>
                (case Option.bind (hmac_updates hmac [info, [of_nat (i + 1)]])
                        (HMAC_Final (As (8 * i + 7)) True) of
                   None \<Rightarrow> None
                 | Some (hmac, None) \<Rightarrow> Some None
                 | Some (hmac, Some (previous, len)) \<Rightarrow>
                     (let todo = digest_len;
                          todo = (if out_len < size_add (length out) todo then out_len - length out else todo)
                      in hkdf_loop As n out_len digest_len info (i + 1) previous (out @ take todo previous) hmac)))
      else Some (Some out))"
  by pat_completeness auto
termination by (relation "measure (\<lambda>(As, n, out_len, digest_len, info, i, p, out, h). n - i)") auto

declare hkdf_loop.simps [simp del]

definition HKDF_expand :: "(nat \<Rightarrow> alloc) \<Rightarrow> nat \<Rightarrow> EVP_MD \<Rightarrow> bytes \<Rightarrow> bytes \<Rightarrow> bytes option option" where
  "HKDF_expand As out_len md prk info =
     (let digest_len = EVP_MD_size md;
          n = size_add (size_add out_len digest_len) size_max div digest_len
      in if size_add out_len digest_len < out_len \<or> 255 < n then Some None
         else
           (case HMAC_Init_ex As HMAC_CTX_init (Some prk) (Some md) of
              None \<Rightarrow> None
            | Some (False, hmac) \<Rightarrow> Some None
            | Some (True, hmac) \<Rightarrow> hkdf_loop (later As 8) n out_len digest_len info 0 [] [] hmac))"

definition HKDF :: "(nat \<Rightarrow> alloc) \<Rightarrow> nat \<Rightarrow> EVP_MD \<Rightarrow> bytes \<Rightarrow> bytes option \<Rightarrow> bytes \<Rightarrow> bytes option option" where
  "HKDF As out_len md secret salt info =
     (case HKDF_extract As md secret salt of
        None \<Rightarrow> None
      | Some None \<Rightarrow> Some None
      | Some (Some (prk, prk_len)) \<Rightarrow> HKDF_expand (later As 8) out_len md (take prk_len prk) info)"

text \<open>RFC 5869.\<close>

fun hkdf_T :: "EVP_MD \<Rightarrow> bytes \<Rightarrow> bytes \<Rightarrow> nat \<Rightarrow> bytes" where
  "hkdf_T md prk info 0 = []"
| "hkdf_T md prk info (Suc i) = hmac_spec md prk (hkdf_T md prk info i @ info @ [of_nat (Suc i)])"

definition hkdf_expand_spec :: "EVP_MD \<Rightarrow> bytes \<Rightarrow> bytes \<Rightarrow> nat \<Rightarrow> bytes" where
  "hkdf_expand_spec md prk info L =
     take L (concat (map (\<lambda>i. hkdf_T md prk info (Suc i)) [0..<(L + EVP_MD_size md - 1) div EVP_MD_size md]))"

definition hkdf_spec :: "EVP_MD \<Rightarrow> bytes \<Rightarrow> bytes \<Rightarrow> bytes \<Rightarrow> nat \<Rightarrow> bytes" where
  "hkdf_spec md salt secret info L = hkdf_expand_spec md (hmac_spec md salt secret) info L"

text \<open>Blocks of one length, cut off at the end.\<close>

lemma take_blocks_Suc:
  assumes "\<And>i. length (f i) = h" and "i * h \<le> L"
  shows "concat (map f [0..<i]) @ take (L - i * h) (f i) = take L (concat (map f [0..<Suc i]))"
proof -
  have "length (concat (map f [0..<i])) = i * h"
    using assms(1) by (induction i) simp_all
  with assms(2) show ?thesis by simp
qed

lemma length_blocks: "(\<And>i. length (f i) = h) \<Longrightarrow> length (concat (map f [0..<i])) = i * h"
  by (induction i) simp_all

lemma take_enough_blocks:
  assumes "\<And>i. length (f i) = h" and "L \<le> i * h" and "i \<le> n"
  shows "take L (concat (map f [0..<n])) = take L (concat (map f [0..<i]))"
proof -
  have "[0..<n] = [0..<i] @ [i..<n]" using assms(3) by (metis le_add_diff_inverse upt_add_eq_append zero_le)
  with assms show ?thesis by (simp add: length_blocks)
qed

text \<open>The blocks that are needed.\<close>

lemma blocks_needed:
  fixes L h :: nat
  assumes "0 < h"
  shows "i < (L + h - 1) div h \<longleftrightarrow> i * h < L"
proof -
  have "i < (L + h - 1) div h \<longleftrightarrow> Suc i * h \<le> L + h - 1"
    using assms by (simp add: less_eq_div_iff_mult_less_eq Suc_le_eq [symmetric])
  then show ?thesis using assms by auto
qed

lemma hkdf_loop_ok:
  fixes md :: EVP_MD and prk info :: bytes
  defines "h \<equiv> EVP_MD_size md" and "f \<equiv> \<lambda>i. hkdf_T md prk info (Suc i)"
  assumes n: "n = (L + h - 1) div h" and L: "L + h \<le> size_max"
    and i: "i \<le> n" and ctx: "if i = 0 then hmac_repr md prk ctx [] else hmac_keyed_repr md prk ctx"
    and prev: "previous = hkdf_T md prk info i" and out: "out = take L (concat (map f [0..<i]))"
  shows "hkdf_loop As n L h info i previous out ctx = Some (Some (take L (concat (map f [0..<n]))))"
  using i ctx prev out
proof (induction "n - i" arbitrary: i previous out ctx)
  case 0
  then have "i = n" by simp
  with 0 show ?case by (subst hkdf_loop.simps) simp
next
  case (Suc x)
  then have "i < n" by simp
  have h: "0 < h" by (simp add: h_def md_sizes)
  have len: "length (f j) = h" for j by (simp add: f_def h_def)
  have iL: "i * h < L" using \<open>i < n\<close> blocks_needed [OF h, of i L] n by simp
  define m where "m = hkdf_T md prk info i"
  have m: "i = 0 \<longrightarrow> m = []" "i \<noteq> 0 \<longrightarrow> length m = h"
    by (cases i; simp add: m_def h_def)+
  obtain c1 where c1: "(if i \<noteq> 0
      then (case HMAC_Init_ex (later As (8 * i)) ctx None None of
              Some (True, hmac) \<Rightarrow> map_option (Pair True) (HMAC_Update hmac (take h previous))
            | r \<Rightarrow> r)
      else Some (True, ctx)) = Some (True, c1)" "hmac_repr md prk c1 m"
  proof (cases "i = 0")
    case True
    with Suc.prems m show thesis by (intro that) simp_all
  next
    case False
    with Suc.prems have "hmac_keyed_repr md prk ctx" by simp
    then obtain c0 where c0: "HMAC_Init_ex (later As (8 * i)) ctx None None = Some (True, c0)"
        "hmac_repr md prk c0 []"
      using HMAC_Init_ex_rewind by blast
    obtain c1 where "HMAC_Update c0 m = Some c1" "hmac_repr md prk c1 ([] @ m)"
      using HMAC_Update_ok [OF c0(2)] .
    with False c0 Suc.prems(3) m show thesis by (intro that [of c1]) (simp_all add: m_def)
  qed
  obtain c2 where c2: "hmac_updates c1 [info, [of_nat (i + 1)]] = Some c2"
      "hmac_repr md prk c2 (m @ concat [info, [of_nat (i + 1)]])"
    using hmac_updates_ok [OF c1(2)] .
  obtain c3 where "HMAC_Final (As (8 * i + 7)) True c2
        = Some (c3, Some (hmac_spec md prk (m @ concat [info, [of_nat (i + 1)]]), EVP_MD_size md))"
      "hmac_keyed_repr md prk c3"
    using HMAC_Final_ok [OF c2(2)] .
  then have c3: "HMAC_Final (As (8 * i + 7)) True c2 = Some (c3, Some (f i, h))" "hmac_keyed_repr md prk c3"
    by (simp_all add: f_def m_def h_def)
  have blocks: "length (concat (map f [0..<i])) = i * h" using len by (rule length_blocks)
  then have out: "out = concat (map f [0..<i])" "length out = i * h" using Suc.prems(4) iL by simp_all
  have "size_add (length out) h = i * h + h" using out iL L by simp
  then have todo: "take (if L < size_add (length out) h then L - length out else h) (f i) = take (L - i * h) (f i)"
    using out len [of i] by auto
  have "hkdf_loop As n L h info i previous out ctx
      = hkdf_loop As n L h info (i + 1) (f i) (out @ take (L - i * h) (f i)) c3"
    using \<open>i < n\<close> c2(1) c3(1) todo
    by (subst hkdf_loop.simps) (simp only: Let_def if_True c1(1) option.case prod.case bool.case bind.bind_lunit)
  also have "out @ take (L - i * h) (f i) = take L (concat (map f [0..<Suc i]))"
    unfolding out(1) using len iL by (intro take_blocks_Suc) simp_all
  also have "hkdf_loop As n L h info (i + 1) (f i) (take L (concat (map f [0..<Suc i]))) c3
      = Some (Some (take L (concat (map f [0..<n]))))"
    using Suc.hyps(2) \<open>i < n\<close> c3 by (intro Suc.hyps(1)) (simp_all add: f_def)
  finally show ?case .
qed

lemma HKDF_expand_cases:
  assumes L: "L \<le> size_max"
  obtains (too_large) "255 * EVP_MD_size md < L" and "HKDF_expand As L md prk info = Some None"
    | (ok) "L \<le> 255 * EVP_MD_size md" and "HKDF_expand As L md prk info = Some (Some (hkdf_expand_spec md prk info L))"
    | (fails) j where "HKDF_expand As L md prk info = Some None" and "As j (md_ctx_size md) = None"
proof -
  define h where "h = EVP_MD_size md"
  have h: "0 < h" "h \<le> 64" by (simp_all add: h_def md_sizes)
  define n where "n = (L + h - 1) div h"
  have n: "255 < n \<longleftrightarrow> 255 * h < L" using blocks_needed [OF h(1), of 255 L] by (simp add: n_def)
  show thesis
  proof (cases "size_max < L + h")
    case True
    then have "size_add L h < L" using L h size_add_less_iff [of L h] by simp
    then have "HKDF_expand As L md prk info = Some None" by (simp add: HKDF_expand_def h_def)
    moreover have "255 * h < L" using True h by simp
    ultimately show thesis by (intro too_large) (simp_all add: h_def)
  next
    case False
    then have a: "size_add L h = L + h" by simp
    have "size_add (L + h) size_max = L + h - 1"
      using False h by (simp add: size_add_def mod_if)
    then have nn: "size_add (size_add L h) size_max div h = n" by (simp add: a n_def)
    show thesis
    proof (cases "255 < n")
      case True
      then have "HKDF_expand As L md prk info = Some None" by (simp add: HKDF_expand_def Let_def flip: h_def) (simp add: nn)
      then show thesis using True n by (intro too_large) (simp_all add: h_def)
    next
      case small: False
      have new: "Some md \<noteq> hmac_md HMAC_CTX_init \<or> Some prk \<noteq> None" by simp
      have md: "(if Some md = None then hmac_md HMAC_CTX_init else Some md) = Some md" by simp
      from hmac_init_wf md new show thesis
      proof (cases rule: HMAC_Init_ex_new [of _ _ _ _ As])
        case (ok ctx)
        then have "hmac_repr md prk ctx []" by simp
        then have "hkdf_loop (later As 8) n L h info 0 [] [] ctx
            = Some (Some (take L (concat (map (\<lambda>i. hkdf_T md prk info (Suc i)) [0..<n]))))"
          unfolding h_def using False by (intro hkdf_loop_ok) (simp_all add: n_def h_def)
        then have "HKDF_expand As L md prk info = Some (Some (hkdf_expand_spec md prk info L))"
          using ok small a nn
          by (simp add: HKDF_expand_def Let_def hkdf_expand_spec_def h_def [symmetric] n_def)
        then show thesis using small n by (intro that(2)) (simp_all add: h_def)
      next
        case (fails ctx j)
        then have "HKDF_expand As L md prk info = Some None"
          using small a nn by (simp add: HKDF_expand_def Let_def h_def [symmetric])
        with fails show thesis by (intro that(3)) simp_all
      qed
    qed
  qed
qed

lemma HKDF_cases:
  assumes "L \<le> size_max"
  defines "s \<equiv> \<lambda>salt. case salt of None \<Rightarrow> [] | Some s \<Rightarrow> s"
  obtains (too_large) "255 * EVP_MD_size md < L" and "HKDF As L md secret salt info = Some None"
    | (ok) "L \<le> 255 * EVP_MD_size md"
        and "HKDF As L md secret salt info = Some (Some (hkdf_spec md (s salt) secret info L))"
    | (fails) j where "HKDF As L md secret salt info = Some None" and "As j (md_ctx_size md) = None"
proof (cases rule: HMAC_cases [of As md salt secret])
  case ok
  let ?prk = "hmac_spec md (s salt) secret"
  from ok have H: "HKDF As L md secret salt info = HKDF_expand (later As 8) L md ?prk info"
    by (simp add: HKDF_def HKDF_extract_def s_def)
  from assms(1) show thesis
  proof (cases rule: HKDF_expand_cases [of _ md "later As 8" ?prk info])
    case too_large
    then show thesis by (intro that(1)) (simp_all add: H)
  next
    case ok
    then show thesis by (intro that(2)) (simp_all add: H hkdf_spec_def)
  next
    case (fails j)
    then show thesis by (intro that(3) [of "8 + j"]) (simp_all add: H later_def)
  qed
next
  case (fails j)
  then show thesis by (intro that(3) [of j]) (simp_all add: HKDF_def HKDF_extract_def)
qed

section \<open>PBKDF2\<close>

text \<open>The loop over \<open>j\<close>: \<open>digest_tmp\<close> is hashed again and added to the \<open>todo\<close> bytes of \<open>out_key\<close>.\<close>

fun pbkdf2_rounds ::
  "(nat \<Rightarrow> alloc) \<Rightarrow> nat \<Rightarrow> nat \<Rightarrow> HMAC_CTX \<Rightarrow> bytes \<Rightarrow> bytes \<Rightarrow> (HMAC_CTX \<times> bytes) option option"
where
  "pbkdf2_rounds As md_len 0 hctx tmp out = Some (Some (hctx, out))"
| "pbkdf2_rounds As md_len (Suc r) hctx tmp out =
     (case HMAC_Init_ex As hctx None None of
        None \<Rightarrow> None
      | Some (False, hctx) \<Rightarrow> Some None
      | Some (True, hctx) \<Rightarrow>
          (case Option.bind (HMAC_Update hctx (take md_len tmp)) (HMAC_Final (As 4) True) of
             None \<Rightarrow> None
           | Some (hctx, None) \<Rightarrow> Some None
           | Some (hctx, Some (tmp, len)) \<Rightarrow>
               pbkdf2_rounds (later As 8) md_len r hctx tmp (map2 (XOR) out (take (length out) tmp))))"

text \<open>One block of \<open>todo\<close> bytes, for the block number \<open>i\<close>; \<open>Some None\<close> goes to \<open>err\<close>.\<close>

definition pbkdf2_block ::
  "(nat \<Rightarrow> alloc) \<Rightarrow> nat \<Rightarrow> bytes \<Rightarrow> u32 \<Rightarrow> HMAC_CTX \<Rightarrow> u32 \<Rightarrow> nat \<Rightarrow> (HMAC_CTX \<times> bytes) option option"
where
  "pbkdf2_block As md_len salt iterations hctx i todo =
     (let i_buf = [ucast (drop_bit 24 i AND 0xff), ucast (drop_bit 16 i AND 0xff),
                   ucast (drop_bit 8 i AND 0xff), ucast (i AND 0xff)]
      in case HMAC_Init_ex As hctx None None of
           None \<Rightarrow> None
         | Some (False, hctx) \<Rightarrow> Some None
         | Some (True, hctx) \<Rightarrow>
             (case Option.bind (hmac_updates hctx [salt, i_buf]) (HMAC_Final (As 4) True) of
                None \<Rightarrow> None
              | Some (hctx, None) \<Rightarrow> Some None
              | Some (hctx, Some (tmp, len)) \<Rightarrow>
                  pbkdf2_rounds (later As 8) md_len (unat iterations - 1) hctx tmp (take todo tmp)))"

text \<open>\<open>while (key_len > 0)\<close>; \<open>out\<close> is what has been written before. The result says whether the loop came to
  its end; with a digest of no bytes it would not, which is \<open>None\<close> too.\<close>

partial_function (option) pbkdf2_loop ::
  "(nat \<Rightarrow> alloc) \<Rightarrow> nat \<Rightarrow> bytes \<Rightarrow> u32 \<Rightarrow> HMAC_CTX \<Rightarrow> u32 \<Rightarrow> nat \<Rightarrow> bytes \<Rightarrow> (bool \<times> bytes) option"
where
  "pbkdf2_loop As md_len salt iterations hctx i key_len out =
     (if key_len = 0 then Some (True, out)
      else
        Option.bind (pbkdf2_block As md_len salt iterations hctx i (if key_len < md_len then key_len else md_len))
          (\<lambda>r. case r of
                 None \<Rightarrow> Some (False, out)
               | Some (hctx, block) \<Rightarrow>
                   pbkdf2_loop (later As (8 + 8 * unat iterations)) md_len salt iterations hctx (i + 1)
                     (key_len - (if key_len < md_len then key_len else md_len)) (out @ block)))"

definition PKCS5_PBKDF2_HMAC ::
  "(nat \<Rightarrow> alloc) \<Rightarrow> bytes \<Rightarrow> bytes \<Rightarrow> u32 \<Rightarrow> EVP_MD \<Rightarrow> nat \<Rightarrow> (bool \<times> bytes) option"
where
  "PKCS5_PBKDF2_HMAC As password salt iterations md key_len =
     (case HMAC_Init_ex As HMAC_CTX_init (Some password) (Some md) of
        None \<Rightarrow> None
      | Some (False, hctx) \<Rightarrow> Some (False, [])
      | Some (True, hctx) \<Rightarrow>
          (case pbkdf2_loop (later As 8) (EVP_MD_size md) salt iterations hctx 1 key_len [] of
             None \<Rightarrow> None
           | Some (ok, out) \<Rightarrow> Some (ok \<and> iterations \<noteq> 0, out)))"

definition PKCS5_PBKDF2_HMAC_SHA1 ::
  "(nat \<Rightarrow> alloc) \<Rightarrow> bytes \<Rightarrow> bytes \<Rightarrow> u32 \<Rightarrow> nat \<Rightarrow> (bool \<times> bytes) option"
where
  "PKCS5_PBKDF2_HMAC_SHA1 As password salt iterations key_len =
     PKCS5_PBKDF2_HMAC As password salt iterations EVP_sha1 key_len"

text \<open>RFC 8018, section 5.2: \<open>U\<close> and the sum \<open>F\<close> of its first \<open>c\<close> terms, for the block of number \<open>i\<close> from 1.
  The RFC asks for a positive count and refuses a key of more than \<open>2 ^ 32 - 1\<close> blocks ("derived key too
  long"), so that four bytes always hold the number of a block.\<close>

fun pbkdf2_U :: "EVP_MD \<Rightarrow> bytes \<Rightarrow> bytes \<Rightarrow> nat \<Rightarrow> nat \<Rightarrow> bytes" where
  "pbkdf2_U md P S i 0 = hmac_spec md P (S @ be_bytes 4 i)"
| "pbkdf2_U md P S i (Suc j) = hmac_spec md P (pbkdf2_U md P S i j)"

fun pbkdf2_F :: "EVP_MD \<Rightarrow> bytes \<Rightarrow> bytes \<Rightarrow> nat \<Rightarrow> nat \<Rightarrow> bytes" where
  "pbkdf2_F md P S i 0 = pbkdf2_U md P S i 0"
| "pbkdf2_F md P S i (Suc j) = map2 (XOR) (pbkdf2_F md P S i j) (pbkdf2_U md P S i (Suc j))"

definition pbkdf2_DK :: "EVP_MD \<Rightarrow> bytes \<Rightarrow> bytes \<Rightarrow> nat \<Rightarrow> nat \<Rightarrow> bytes" where
  "pbkdf2_DK md P S c L =
     take L (concat (map (\<lambda>i. pbkdf2_F md P S (Suc i) (c - 1)) [0..<(L + EVP_MD_size md - 1) div EVP_MD_size md]))"

definition pbkdf2_rfc :: "EVP_MD \<Rightarrow> bytes \<Rightarrow> bytes \<Rightarrow> nat \<Rightarrow> nat \<Rightarrow> bytes option" where
  "pbkdf2_rfc md P S c L =
     (if c = 0 \<or> (2 ^ 32 - 1) * EVP_MD_size md < L then None else Some (pbkdf2_DK md P S c L))"

lemma length_pbkdf2 [simp]:
  "length (pbkdf2_U md P S i j) = EVP_MD_size md" "length (pbkdf2_F md P S i j) = EVP_MD_size md"
proof -
  show U: "length (pbkdf2_U md P S i j) = EVP_MD_size md" for j by (cases j) simp_all
  show "length (pbkdf2_F md P S i j) = EVP_MD_size md" by (induction j) (simp_all add: U)
qed

lemma length_pbkdf2_DK [simp]: "length (pbkdf2_DK md P S c L) = L"
proof -
  have "(\<Sum>i\<leftarrow>[0..<n]. EVP_MD_size md) = n * EVP_MD_size md" for n by (induction n) simp_all
  moreover have "L \<le> (L + EVP_MD_size md - 1) div EVP_MD_size md * EVP_MD_size md"
    using blocks_needed [of "EVP_MD_size md" "(L + EVP_MD_size md - 1) div EVP_MD_size md" L] md_sizes [of md]
    by (simp add: not_less)
  ultimately show ?thesis by (simp add: pbkdf2_DK_def length_concat o_def)
qed

text \<open>A count of 0 is served like the count 1.\<close>

lemma pbkdf2_DK_count: "pbkdf2_DK md P S (max 1 c) L = pbkdf2_DK md P S c L"
  by (cases c) (simp_all add: pbkdf2_DK_def)

lemma pbkdf2_rounds_ok:
  assumes "hmac_keyed_repr md P ctx"
  shows "\<exists>ctx'. pbkdf2_rounds As (EVP_MD_size md) r ctx (pbkdf2_U md P S i j) (take t (pbkdf2_F md P S i j))
      = Some (Some (ctx', take t (pbkdf2_F md P S i (j + r)))) \<and> hmac_keyed_repr md P ctx'"
  using assms
proof (induction r arbitrary: As ctx j)
  case 0
  then show ?case by simp
next
  case (Suc r)
  obtain c0 where c0: "HMAC_Init_ex As ctx None None = Some (True, c0)" "hmac_repr md P c0 []"
    using HMAC_Init_ex_rewind [OF Suc.prems] by blast
  obtain c1 where c1: "HMAC_Update c0 (pbkdf2_U md P S i j) = Some c1" "hmac_repr md P c1 ([] @ pbkdf2_U md P S i j)"
    using HMAC_Update_ok [OF c0(2)] .
  obtain c2 where c2: "HMAC_Final (As 4) True c1
      = Some (c2, Some (hmac_spec md P ([] @ pbkdf2_U md P S i j), EVP_MD_size md))" "hmac_keyed_repr md P c2"
    using HMAC_Final_ok [OF c1(2)] .
  have "map2 (XOR) (take t (pbkdf2_F md P S i j)) (take (length (take t (pbkdf2_F md P S i j))) (pbkdf2_U md P S i (Suc j)))
      = take t (pbkdf2_F md P S i (Suc j))"
    by (simp add: take_map take_zip min_def)
  then show ?case
    using Suc.IH [OF c2(2), of "later As 8" "Suc j"] c0 c1 c2 by simp
qed

lemma be_bytes_u32: "be_bytes 4 (unat (of_nat n :: u32)) = be_bytes 4 n"
proof -
  have "unat (of_nat n :: u32) = n mod 256 ^ 4" by (simp add: unsigned_of_nat take_bit_eq_mod)
  then show ?thesis by (simp only: be_bytes_mod)
qed

lemma pbkdf2_loop_ok:
  fixes md :: EVP_MD and P S :: bytes and it :: u32
  defines "h \<equiv> EVP_MD_size md" and "f \<equiv> \<lambda>b. pbkdf2_F md P S (Suc b) (unat it - 1)"
  assumes n: "n = (L + h - 1) div h"
    and b: "b \<le> n" and ctx: "hmac_keyed_repr md P ctx" and k: "key_len = L - b * h"
    and out: "out = take L (concat (map f [0..<b]))"
  shows "pbkdf2_loop As h S it ctx (of_nat (Suc b)) key_len out = Some (True, take L (concat (map f [0..<n])))"
  using b ctx k out
proof (induction key_len arbitrary: As b ctx out rule: less_induct)
  case (less key_len)
  have h: "0 < h" by (simp add: h_def md_sizes)
  have len: "length (f j) = h" for j by (simp add: f_def h_def)
  show ?case
  proof (cases "key_len = 0")
    case True
    then have "take L (concat (map f [0..<n])) = take L (concat (map f [0..<b]))"
      using less.prems len by (intro take_enough_blocks) simp_all
    with True less.prems(4) show ?thesis by (subst pbkdf2_loop.simps) simp
  next
    case False
    then have bL: "b * h < L" using less.prems by simp
    then have "b < n" using blocks_needed [OF h, of b L] n by simp
    define todo where "todo = (if key_len < h then key_len else h)"
    obtain c0 where c0: "HMAC_Init_ex As ctx None None = Some (True, c0)" "hmac_repr md P c0 []"
      using HMAC_Init_ex_rewind [OF less.prems(2)] by blast
    let ?i = "of_nat (Suc b) :: u32"
    let ?i_buf = "[ucast (drop_bit 24 ?i AND 0xff), ucast (drop_bit 16 ?i AND 0xff),
      ucast (drop_bit 8 ?i AND 0xff), ucast (?i AND 0xff)]"
    have i_buf: "?i_buf = be_bytes 4 (Suc b)"
      using HOST_l2c_bytes(1) [of ?i] be_bytes_u32 [of "Suc b"]
      by (simp only: HOST_l2c_def data_order.case)
    obtain c1 where c1: "hmac_updates c0 [S, ?i_buf] = Some c1" "hmac_repr md P c1 ([] @ concat [S, ?i_buf])"
      using hmac_updates_ok [OF c0(2)] .
    obtain c2 where "HMAC_Final (As 4) True c1
        = Some (c2, Some (hmac_spec md P ([] @ concat [S, ?i_buf]), EVP_MD_size md))"
      and c2': "hmac_keyed_repr md P c2"
      using HMAC_Final_ok [OF c1(2)] .
    then have c2: "HMAC_Final (As 4) True c1 = Some (c2, Some (pbkdf2_U md P S (Suc b) 0, h))"
      unfolding i_buf by (simp add: h_def)
    obtain c3 where c3: "pbkdf2_rounds (later As 8) h (unat it - 1) c2 (pbkdf2_U md P S (Suc b) 0)
          (take todo (pbkdf2_U md P S (Suc b) 0)) = Some (Some (c3, take todo (f b)))"
        "hmac_keyed_repr md P c3"
      using pbkdf2_rounds_ok [OF c2', of "later As 8" "unat it - 1" S "Suc b" 0 todo] by (auto simp: f_def h_def)
    have block: "pbkdf2_block As h S it ctx ?i todo = Some (Some (c3, take todo (f b)))"
      by (simp only: pbkdf2_block_def Let_def c0(1) c1(1) c2 c3(1) option.case prod.case bool.case bind.bind_lunit)
    have Suc_i: "?i + 1 = of_nat (Suc (Suc b))" by simp
    have "take todo (f b) = take (L - b * h) (f b)"
      using less.prems(3) len [of b] by (simp add: todo_def)
    moreover have "out = concat (map f [0..<b])"
      using less.prems(4) bL length_blocks [of f h b, OF len] by simp
    ultimately have out': "out @ take todo (f b) = take L (concat (map f [0..<Suc b]))"
      using take_blocks_Suc [of f h b L, OF len] bL by simp
    have "pbkdf2_loop As h S it ctx ?i key_len out
        = pbkdf2_loop (later As (8 + 8 * unat it)) h S it c3 (?i + 1) (key_len - todo) (out @ take todo (f b))"
      using False
      by (subst pbkdf2_loop.simps)
        (simp only: todo_def [symmetric] block option.case prod.case bind.bind_lunit if_False)
    also have "\<dots> = Some (True, take L (concat (map f [0..<n])))"
      unfolding Suc_i
    proof (rule less.IH)
      show "key_len - todo < key_len" using False h by (auto simp: todo_def)
      show "key_len - todo = L - Suc b * h" using less.prems(3) by (auto simp: todo_def)
    qed (use \<open>b < n\<close> c3 out' in simp_all)
    finally show ?thesis .
  qed
qed

lemma PBKDF2_cases:
  obtains (ok) "PKCS5_PBKDF2_HMAC As P S it md L = Some (it \<noteq> 0, pbkdf2_DK md P S (unat it) L)"
    | (fails) j where "PKCS5_PBKDF2_HMAC As P S it md L = Some (False, [])" and "j < 4" and "As j (md_ctx_size md) = None"
proof -
  have new: "Some md \<noteq> hmac_md HMAC_CTX_init \<or> Some P \<noteq> None" by simp
  have md: "(if Some md = None then hmac_md HMAC_CTX_init else Some md) = Some md" by simp
  from hmac_init_wf md new show thesis
  proof (cases rule: HMAC_Init_ex_new [of _ _ _ _ As])
    case (ok ctx)
    then have "hmac_keyed_repr md P ctx" by (simp add: hmac_repr_def)
    then have "pbkdf2_loop (later As 8) (EVP_MD_size md) S it ctx (of_nat (Suc 0)) L []
        = Some (True, pbkdf2_DK md P S (unat it) L)"
      unfolding pbkdf2_DK_def by (intro pbkdf2_loop_ok) simp_all
    with ok show thesis by (intro that(1)) (simp add: PKCS5_PBKDF2_HMAC_def)
  next
    case (fails ctx j)
    then show thesis by (intro that(2) [of j]) (simp_all add: PKCS5_PBKDF2_HMAC_def)
  qed
qed

section \<open>The TLS pseudorandom function\<close>

text \<open>A round of the loop of \<open>tls1_P_hash\<close>: \<open>written\<close> is the part of \<open>out\<close> that is done, \<open>rest\<close> the
  \<open>out_len\<close> bytes that are left. The result is \<open>Inl\<close> when the loop is left, with success or to \<open>err\<close>; a
  failing \<open>assert\<close> is \<open>None\<close>.\<close>

definition tls1_P_round ::
  "(nat \<Rightarrow> alloc) \<Rightarrow> nat \<Rightarrow> bytes list \<Rightarrow> HMAC_CTX \<Rightarrow> HMAC_CTX \<Rightarrow> HMAC_CTX \<Rightarrow> bytes \<Rightarrow> bytes \<Rightarrow> bytes
    \<Rightarrow> (bool \<times> bytes + HMAC_CTX \<times> HMAC_CTX \<times> bytes \<times> bytes \<times> bytes) option"
where
  "tls1_P_round As chunk seeds ctx_init ctx ctx_tmp A1 written rest =
     (case HMAC_CTX_copy_ex As ctx ctx_init of
        (False, ctx) \<Rightarrow> Some (Inl (False, written @ rest))
      | (True, ctx) \<Rightarrow>
          (case HMAC_Update ctx A1 of
             None \<Rightarrow> None
           | Some ctx \<Rightarrow>
               (case (if chunk < length rest then HMAC_CTX_copy_ex (later As 3) ctx_tmp ctx else (True, ctx_tmp)) of
                  (False, ctx_tmp) \<Rightarrow> Some (Inl (False, written @ rest))
                | (True, ctx_tmp) \<Rightarrow>
                    (case Option.bind (hmac_updates ctx seeds) (HMAC_Final (As 6) False) of
                       None \<Rightarrow> None
                     | Some (ctx, None) \<Rightarrow> Some (Inl (False, written @ rest))
                     | Some (ctx, Some (hmac, len)) \<Rightarrow>
                         if len \<noteq> chunk then None
                         else
                           (let len = (if length rest < len then length rest else len);
                                written = written @ map2 (XOR) (take len rest) hmac;
                                rest = drop len rest
                            in if rest = [] then Some (Inl (True, written))
                               else
                                 (case HMAC_Final (As 7) False ctx_tmp of
                                    None \<Rightarrow> None
                                  | Some (ctx_tmp, None) \<Rightarrow> Some (Inl (False, written @ rest))
                                  | Some (ctx_tmp, Some (A1, A1_len)) \<Rightarrow>
                                      Some (Inr (ctx, ctx_tmp, take A1_len A1, written, rest))))))))"

partial_function (option) tls1_P_loop ::
  "(nat \<Rightarrow> alloc) \<Rightarrow> nat \<Rightarrow> bytes list \<Rightarrow> HMAC_CTX \<Rightarrow> HMAC_CTX \<Rightarrow> HMAC_CTX \<Rightarrow> bytes \<Rightarrow> bytes \<Rightarrow> bytes
    \<Rightarrow> (bool \<times> bytes) option"
where
  "tls1_P_loop As chunk seeds ctx_init ctx ctx_tmp A1 written rest =
     Option.bind (tls1_P_round As chunk seeds ctx_init ctx ctx_tmp A1 written rest)
       (\<lambda>r. case r of
              Inl x \<Rightarrow> Some x
            | Inr (ctx, ctx_tmp, A1, written, rest) \<Rightarrow>
                tls1_P_loop (later As 8) chunk seeds ctx_init ctx ctx_tmp A1 written rest)"

definition tls1_P_hash ::
  "(nat \<Rightarrow> alloc) \<Rightarrow> bytes \<Rightarrow> EVP_MD \<Rightarrow> bytes \<Rightarrow> bytes \<Rightarrow> bytes \<Rightarrow> bytes \<Rightarrow> (bool \<times> bytes) option"
where
  "tls1_P_hash As out md secret label seed1 seed2 =
     (case HMAC_Init_ex As HMAC_CTX_init (Some secret) (Some md) of
        None \<Rightarrow> None
      | Some (False, ctx_init) \<Rightarrow> Some (False, out)
      | Some (True, ctx_init) \<Rightarrow>
          (case HMAC_CTX_copy_ex (later As 4) HMAC_CTX_init ctx_init of
             (False, ctx) \<Rightarrow> Some (False, out)
           | (True, ctx) \<Rightarrow>
               (case Option.bind (hmac_updates ctx [label, seed1, seed2]) (HMAC_Final (As 7) False) of
                  None \<Rightarrow> None
                | Some (ctx, None) \<Rightarrow> Some (False, out)
                | Some (ctx, Some (A1, A1_len)) \<Rightarrow>
                    tls1_P_loop (later As 8) (EVP_MD_size md) [label, seed1, seed2] ctx_init ctx HMAC_CTX_init
                      (take A1_len A1) [] out)))"

text \<open>\<open>CRYPTO_tls1_prf\<close>: the result, and the \<open>out_len\<close> bytes at \<open>out\<close>.\<close>

definition CRYPTO_tls1_prf ::
  "(nat \<Rightarrow> alloc) \<Rightarrow> EVP_MD \<Rightarrow> nat \<Rightarrow> bytes \<Rightarrow> bytes \<Rightarrow> bytes \<Rightarrow> bytes \<Rightarrow> (bool \<times> bytes) option"
where
  "CRYPTO_tls1_prf As dgst out_len secret label seed1 seed2 =
     (if out_len = 0 then Some (True, [])
      else
        (let out = replicate out_len 0 in
         if dgst = EVP_md5_sha1
         then
           (let secret_half = length secret - length secret div 2 in
            case tls1_P_hash As out EVP_md5 (take secret_half secret) label seed1 seed2 of
              None \<Rightarrow> None
            | Some (False, out) \<Rightarrow> Some (False, out)
            | Some (True, out) \<Rightarrow>
                tls1_P_hash (later As (8 + 8 * out_len)) out EVP_sha1 (drop (length secret - secret_half) secret)
                  label seed1 seed2)
         else tls1_P_hash As out dgst secret label seed1 seed2))"

text \<open>RFC 2246 and RFC 5246, section 5.\<close>

fun tls_A :: "EVP_MD \<Rightarrow> bytes \<Rightarrow> bytes \<Rightarrow> nat \<Rightarrow> bytes" where
  "tls_A md secret seed 0 = seed"
| "tls_A md secret seed (Suc i) = hmac_spec md secret (tls_A md secret seed i)"

definition tls_block :: "EVP_MD \<Rightarrow> bytes \<Rightarrow> bytes \<Rightarrow> nat \<Rightarrow> bytes" where
  "tls_block md secret seed i = hmac_spec md secret (tls_A md secret seed (Suc i) @ seed)"

definition tls_P_hash :: "EVP_MD \<Rightarrow> bytes \<Rightarrow> bytes \<Rightarrow> nat \<Rightarrow> bytes" where
  "tls_P_hash md secret seed L =
     take L (concat (map (tls_block md secret seed) [0..<(L + EVP_MD_size md - 1) div EVP_MD_size md]))"

definition tls_prf_spec :: "EVP_MD \<Rightarrow> bytes \<Rightarrow> bytes \<Rightarrow> nat \<Rightarrow> bytes" where
  "tls_prf_spec md secret seed L =
     (if md = EVP_md5_sha1
      then
        (let half = (length secret + 1) div 2 in
         map2 (XOR) (tls_P_hash EVP_md5 (take half secret) seed L)
           (tls_P_hash EVP_sha1 (drop (length secret - half) secret) seed L))
      else tls_P_hash md secret seed L)"

lemma length_tls_block [simp]: "length (tls_block md secret seed i) = EVP_MD_size md"
  by (simp add: tls_block_def)

lemma map2_take: "map2 g xs (take (length xs) ys) = map2 g xs ys"
proof (induction xs arbitrary: ys)
  case (Cons x xs)
  then show ?case by (cases ys) simp_all
qed simp

text \<open>A round: it writes a block, or an allocation failed.\<close>

lemma tls1_P_round_cases:
  fixes md :: EVP_MD and S :: bytes and seeds :: "bytes list"
  defines "h \<equiv> EVP_MD_size md" and "A \<equiv> tls_A md S (concat seeds)" and "f \<equiv> tls_block md S (concat seeds)"
  assumes "hmac_repr md S ctx_init []"
  obtains (ends) "length rest \<le> h"
      and "tls1_P_round As h seeds ctx_init ctx ctx_tmp (A (Suc i)) written rest
        = Some (Inl (True, written @ map2 (XOR) rest (f i)))"
    | (goes_on) ctx' ctx_tmp' where "h < length rest"
      and "tls1_P_round As h seeds ctx_init ctx ctx_tmp (A (Suc i)) written rest
        = Some (Inr (ctx', ctx_tmp', A (Suc (Suc i)), written @ map2 (XOR) (take h rest) (f i), drop h rest))"
    | (fails) out j where "tls1_P_round As h seeds ctx_init ctx ctx_tmp (A (Suc i)) written rest
        = Some (Inl (False, out))" and "As j (md_ctx_size md) = None"
  using assms(4)
proof (cases rule: HMAC_CTX_copy_ex_cases [of _ _ _ _ As ctx])
  case (fails dest j)
  then show thesis by (intro that(3) [of "written @ rest" j]) (simp_all add: tls1_P_round_def)
next
  case (ok c0)
  note c0 = this
  let ?a = "A (Suc i)"
  obtain c1 where c1: "HMAC_Update c0 ?a = Some c1" "hmac_repr md S c1 ([] @ ?a)"
    using HMAC_Update_ok [OF c0(2)] .
  obtain c2 where c2: "hmac_updates c1 seeds = Some c2" "hmac_repr md S c2 (([] @ ?a) @ concat seeds)"
    using hmac_updates_ok [OF c1(2)] .
  obtain c3 where "HMAC_Final (As 6) False c2 = Some (c3, Some (hmac_spec md S (([] @ ?a) @ concat seeds), EVP_MD_size md))"
    using HMAC_Final_ok [OF c2(2)] .
  then have c3: "HMAC_Final (As 6) False c2 = Some (c3, Some (f i, h))"
    by (simp add: f_def tls_block_def A_def h_def)
  have f: "length (f i) = h" by (simp add: f_def h_def)
  show thesis
  proof (cases "h < length rest")
    case False
    then have "map2 (XOR) (take (if length rest < h then length rest else h) rest) (f i) = map2 (XOR) rest (f i)"
      by simp
    with False c0 c1 c2 c3 show thesis by (intro that(1)) (simp_all add: tls1_P_round_def Let_def)
  next
    case True
    show thesis
      using c1(2)
    proof (cases rule: HMAC_CTX_copy_ex_cases [of _ _ _ _ "later As 3" ctx_tmp])
      case (fails dest j)
      with True c0 c1 show thesis
        by (intro that(3) [of "written @ rest" "3 + j"]) (simp_all add: tls1_P_round_def later_def)
    next
      case (ok t)
      obtain t' where "HMAC_Final (As 7) False t = Some (t', Some (hmac_spec md S ([] @ ?a), EVP_MD_size md))"
        using HMAC_Final_ok [OF ok(2)] .
      then have "HMAC_Final (As 7) False t = Some (t', Some (A (Suc (Suc i)), h))" by (simp add: A_def h_def)
      moreover have "length (A (Suc (Suc i))) = h" by (simp add: A_def h_def)
      ultimately show thesis
        using True c0 c1 c2 c3 ok by (intro that(2) [of c3 t']) (simp_all add: tls1_P_round_def Let_def)
    qed
  qed
qed

text \<open>The loop XORs the blocks from \<open>i\<close> on into \<open>rest\<close>.\<close>

lemma tls1_P_loop_cases:
  fixes md :: EVP_MD and S :: bytes and seeds :: "bytes list"
  defines "h \<equiv> EVP_MD_size md" and "A \<equiv> tls_A md S (concat seeds)" and "f \<equiv> tls_block md S (concat seeds)"
  assumes "hmac_repr md S ctx_init []" and "rest \<noteq> []" and "length rest + i * h \<le> n * h"
  shows "(\<exists>out j. tls1_P_loop As h seeds ctx_init ctx ctx_tmp (A (Suc i)) written rest = Some (False, out)
        \<and> As j (md_ctx_size md) = None)
    \<or> tls1_P_loop As h seeds ctx_init ctx ctx_tmp (A (Suc i)) written rest
        = Some (True, written @ map2 (XOR) rest (concat (map f [i..<n])))"
  using assms(5,6)
proof (induction "length rest" arbitrary: As ctx ctx_tmp i written rest rule: less_induct)
  case less
  have f: "length (f j) = h" for j by (simp add: f_def h_def)
  have h: "0 < h" by (simp add: h_def md_sizes)
  have "0 < length rest" using less.prems(1) by simp
  then have "i * h < n * h" using less.prems(2) by linarith
  then have "i < n" by simp
  then have blocks: "concat (map f [i..<n]) = f i @ concat (map f [Suc i..<n])" by (simp add: upt_conv_Cons)
  show ?case
    using assms(4)
  proof (cases rule: tls1_P_round_cases [of _ _ _ rest As seeds ctx ctx_tmp i written])
    case ends
    then have "map2 (XOR) rest (concat (map f [i..<n])) = map2 (XOR) rest (f i)"
      using f ends(1) [folded h_def] by (simp add: blocks zip_append2)
    with ends show ?thesis
      by (intro disjI2, subst tls1_P_loop.simps) (simp add: h_def A_def f_def)
  next
    case (goes_on c t)
    let ?w = "written @ map2 (XOR) (take h rest) (f i)"
    have step: "tls1_P_loop As h seeds ctx_init ctx ctx_tmp (A (Suc i)) written rest
        = tls1_P_loop (later As 8) h seeds ctx_init c t (A (Suc (Suc i))) ?w (drop h rest)"
      using goes_on by (subst tls1_P_loop.simps) (simp add: h_def A_def f_def)
    have "(\<exists>out j. tls1_P_loop (later As 8) h seeds ctx_init c t (A (Suc (Suc i))) ?w (drop h rest) = Some (False, out)
        \<and> later As 8 j (md_ctx_size md) = None)
    \<or> tls1_P_loop (later As 8) h seeds ctx_init c t (A (Suc (Suc i))) ?w (drop h rest)
        = Some (True, ?w @ map2 (XOR) (drop h rest) (concat (map f [Suc i..<n])))"
      using goes_on(1) less.prems h by (intro less.hyps) (simp_all add: h_def)
    then show ?thesis
      unfolding step later_def using f by (auto simp: blocks zip_append2)
  next
    case (fails out j)
    then show ?thesis by (intro disjI1 exI [of _ out] exI [of _ j], subst tls1_P_loop.simps) (simp add: h_def A_def)
  qed
qed

lemma tls1_P_hash_cases:
  assumes "out \<noteq> []"
  shows "(\<exists>out' j. tls1_P_hash As out md S label seed1 seed2 = Some (False, out') \<and> As j (md_ctx_size md) = None)
    \<or> tls1_P_hash As out md S label seed1 seed2
        = Some (True, map2 (XOR) out (tls_P_hash md S (label @ seed1 @ seed2) (length out)))"
proof -
  define n where "n = (length out + EVP_MD_size md - 1) div EVP_MD_size md"
  have n: "length out \<le> n * EVP_MD_size md"
    using blocks_needed [of "EVP_MD_size md" n "length out"] by (simp add: md_sizes n_def)
  have new: "Some md \<noteq> hmac_md HMAC_CTX_init \<or> Some S \<noteq> None" by simp
  have md: "(if Some md = None then hmac_md HMAC_CTX_init else Some md) = Some md" by simp
  from hmac_init_wf md new show ?thesis
  proof (cases rule: HMAC_Init_ex_new [of _ _ _ _ As])
    case (fails c j)
    then show ?thesis by (auto simp: tls1_P_hash_def)
  next
    case (ok ctx_init)
    then have k: "hmac_repr md S ctx_init []" by simp
    note init = ok(1)
    from k show ?thesis
    proof (cases rule: HMAC_CTX_copy_ex_cases [of _ _ _ _ "later As 4" HMAC_CTX_init])
      case (fails c j)
      with init show ?thesis by (auto simp: tls1_P_hash_def later_def)
    next
      case (ok ctx)
      obtain c1 where c1: "hmac_updates ctx [label, seed1, seed2] = Some c1"
          "hmac_repr md S c1 ([] @ concat [label, seed1, seed2])"
        using hmac_updates_ok [OF ok(2)] .
      let ?seed = "concat [label, seed1, seed2]"
      obtain c2 where "HMAC_Final (As 7) False c1 = Some (c2, Some (hmac_spec md S ([] @ ?seed), EVP_MD_size md))"
        using HMAC_Final_ok [OF c1(2)] .
      with c1(1) have "Option.bind (hmac_updates ctx [label, seed1, seed2]) (HMAC_Final (As 7) False)
          = Some (c2, Some (tls_A md S ?seed (Suc 0), EVP_MD_size md))"
        by (simp only: bind.bind_lunit tls_A.simps append_Nil)
      then have "tls1_P_hash As out md S label seed1 seed2
          = tls1_P_loop (later As 8) (EVP_MD_size md) [label, seed1, seed2] ctx_init c2 HMAC_CTX_init
              (tls_A md S ?seed (Suc 0)) [] out"
        using init ok(1) by (simp add: tls1_P_hash_def del: hmac_updates.simps)
      moreover have "map2 (XOR) out (tls_P_hash md S ?seed (length out))
          = [] @ map2 (XOR) out (concat (map (tls_block md S ?seed) [0..<n]))"
        by (simp add: tls_P_hash_def n_def map2_take)
      moreover note tls1_P_loop_cases [OF k assms, of 0 n "later As 8" "[label, seed1, seed2]" c2 HMAC_CTX_init "[]"]
      ultimately show ?thesis using n by (auto simp: later_def)
    qed
  qed
qed

lemma length_tls_P_hash [simp]: "length (tls_P_hash md S seed L) = L"
proof -
  have "L \<le> (L + EVP_MD_size md - 1) div EVP_MD_size md * EVP_MD_size md"
    using blocks_needed [of "EVP_MD_size md" "(L + EVP_MD_size md - 1) div EVP_MD_size md" L] by (simp add: md_sizes)
  then show ?thesis by (simp add: tls_P_hash_def length_blocks)
qed

lemma xor_zeros: "length xs = n \<Longrightarrow> map2 (XOR) (replicate n 0) (xs :: bytes) = xs"
  by (induction n arbitrary: xs) (auto simp: length_Suc_conv)

lemma CRYPTO_tls1_prf_cases:
  obtains (ok) "CRYPTO_tls1_prf As md L secret label seed1 seed2
      = Some (True, tls_prf_spec md secret (label @ seed1 @ seed2) L)"
    | (fails) out j n where "CRYPTO_tls1_prf As md L secret label seed1 seed2 = Some (False, out)"
        and "As j n = None"
proof -
  let ?seed = "label @ seed1 @ seed2"
  consider "L = 0" | (one) "L \<noteq> 0" "md \<noteq> EVP_md5_sha1" | (two) "L \<noteq> 0" "md = EVP_md5_sha1" by blast
  then show thesis
  proof cases
    case 1
    then show thesis by (intro ok) (simp add: CRYPTO_tls1_prf_def tls_prf_spec_def tls_P_hash_def)
  next
    case one
    then have z: "replicate L 0 \<noteq> ([] :: bytes)" by simp
    from tls1_P_hash_cases [OF z, of As md secret label seed1 seed2] show thesis
    proof (elim disjE exE conjE)
      fix out j
      assume "tls1_P_hash As (replicate L 0) md secret label seed1 seed2 = Some (False, out)" "As j (md_ctx_size md) = None"
      with one show thesis by (intro fails [of out j "md_ctx_size md"]) (simp_all add: CRYPTO_tls1_prf_def)
    next
      assume "tls1_P_hash As (replicate L 0) md secret label seed1 seed2
          = Some (True, map2 (XOR) (replicate L 0) (tls_P_hash md secret ?seed (length (replicate L 0 :: bytes))))"
      with one show thesis
        by (intro ok) (simp add: CRYPTO_tls1_prf_def tls_prf_spec_def xor_zeros)
    qed
  next
    case two
    let ?half = "length secret - length secret div 2"
    have half: "Suc (length secret) div 2 = ?half" by simp
    have z: "replicate L 0 \<noteq> ([] :: bytes)" using two by simp
    let ?P = "tls_P_hash EVP_md5 (take ?half secret) ?seed L"
    from tls1_P_hash_cases [OF z, of As EVP_md5 "take ?half secret" label seed1 seed2] show thesis
    proof (elim disjE exE conjE)
      fix out j
      assume "tls1_P_hash As (replicate L 0) EVP_md5 (take ?half secret) label seed1 seed2 = Some (False, out)"
        "As j (md_ctx_size EVP_md5) = None"
      with two show thesis
        by (intro fails [of out j "md_ctx_size EVP_md5"]) (simp_all add: CRYPTO_tls1_prf_def Let_def)
    next
      assume "tls1_P_hash As (replicate L 0) EVP_md5 (take ?half secret) label seed1 seed2
          = Some (True, map2 (XOR) (replicate L 0)
              (tls_P_hash EVP_md5 (take ?half secret) ?seed (length (replicate L 0 :: bytes))))"
      then have one: "tls1_P_hash As (replicate L 0) EVP_md5 (take ?half secret) label seed1 seed2 = Some (True, ?P)"
        by (simp add: xor_zeros)
      have "?P \<noteq> []" using two length_tls_P_hash [of EVP_md5 _ _ L] by (metis list.size(3))
      from tls1_P_hash_cases [OF this, of "later As (8 + 8 * L)" EVP_sha1 "drop (length secret - ?half) secret"
          label seed1 seed2]
      show thesis
      proof (elim disjE exE conjE)
        fix out j
        assume "tls1_P_hash (later As (8 + 8 * L)) ?P EVP_sha1 (drop (length secret - ?half) secret) label seed1 seed2
            = Some (False, out)" "later As (8 + 8 * L) j (md_ctx_size EVP_sha1) = None"
        with two one show thesis
          by (intro fails [of out "8 + 8 * L + j" "md_ctx_size EVP_sha1"])
            (simp_all add: CRYPTO_tls1_prf_def Let_def later_def)
      next
        assume "tls1_P_hash (later As (8 + 8 * L)) ?P EVP_sha1 (drop (length secret - ?half) secret) label seed1 seed2
            = Some (True, map2 (XOR) ?P (tls_P_hash EVP_sha1 (drop (length secret - ?half) secret) ?seed (length ?P)))"
        with two one show thesis
          by (intro ok) (simp add: CRYPTO_tls1_prf_def tls_prf_spec_def Let_def half)
      qed
    qed
  qed
qed

end
