(* ===== verification/Sha_Constants.thy ===== *)
theory Sha_Constants
  imports Complex_Main Sha512
begin

text \<open>
  The constants of SHA-2 as FIPS 180-4 defines them (sections 4.2.2, 4.2.3 and 5.3): the first digits, to base 2,
  of the fractional parts of the square and cube roots of the first primes. The tables of \<open>sha256.c\<close> and
  \<open>sha512.c\<close> are compared with that definition, over the real numbers.
\<close>

definition prime_nat :: "nat \<Rightarrow> bool" where
  "prime_nat n \<longleftrightarrow> 1 < n \<and> (\<forall>d. d dvd n \<longrightarrow> d = 1 \<or> d = n)"

text \<open>The 80 primes up to 409.\<close>

definition first_primes :: "nat list" where
  "first_primes = filter prime_nat [0..<410]"

text \<open>The first \<open>w\<close> binary digits after the point of the root of degree \<open>r\<close>, as a number.\<close>

definition root_digits :: "nat \<Rightarrow> nat \<Rightarrow> nat \<Rightarrow> nat" where
  "root_digits r w p = nat \<lfloor>frac (root r (real p)) * 2 ^ w\<rfloor>"

section \<open>Trial division\<close>

definition small_primes :: "nat set" where
  "small_primes = {2, 3, 5, 7, 11, 13, 17, 19}"

lemma small_prime_factor:
  assumes "d \<in> {2..<21 :: nat}"
  shows "\<exists>p\<in>small_primes. p dvd d"
proof -
  have "list_all (\<lambda>d. \<exists>p\<in>small_primes. p dvd d) [2..<21 :: nat]"
    by (simp add: upt_rec small_primes_def)
  with assms show ?thesis by (auto simp only: list_all_iff set_upt)
qed

definition trial :: "nat \<Rightarrow> bool" where
  "trial n \<longleftrightarrow> 1 < n \<and> (\<forall>p\<in>small_primes. n \<le> p \<or> n mod p \<noteq> 0)"

lemma prime_nat_trial:
  assumes "n < 441"
  shows "prime_nat n \<longleftrightarrow> trial n"
proof
  assume "prime_nat n"
  then have n: "1 < n" "\<And>d. d dvd n \<Longrightarrow> d = 1 \<or> d = n" by (auto simp: prime_nat_def)
  have "n \<le> p \<or> n mod p \<noteq> 0" if "p \<in> small_primes" for p
    using n(2) [of p] that mod_0_imp_dvd [of n p] by (fastforce simp: small_primes_def)
  with n(1) show "trial n" unfolding trial_def by blast
next
  assume t: "trial n"
  then have n: "1 < n" unfolding trial_def by (rule conjunct1)
  have d: "n \<le> d" if "2 \<le> d" "d < 21" "d dvd n" for d
  proof -
    have "d \<in> {2..<21}" using that by simp
    from small_prime_factor [OF this] obtain p where p: "p \<in> small_primes" "p dvd d" by blast
    then have "p dvd n" using that dvd_trans by blast
    then have "n mod p = 0" by simp
    moreover have "\<forall>p\<in>small_primes. n \<le> p \<or> n mod p \<noteq> 0" using t unfolding trial_def by (rule conjunct2)
    from bspec [OF this p(1)] have "n mod p \<noteq> 0 \<or> n \<le> p" by (simp only: disj_commute)
    ultimately have "n \<le> p" by (simp only: simp_thms)
    moreover have "p \<le> d" using p(2) that by (intro dvd_imp_le) simp_all
    ultimately show ?thesis by simp
  qed
  show "prime_nat n"
    unfolding prime_nat_def
  proof (intro conjI allI impI n)
    fix x
    assume "x dvd n"
    then obtain y where xy: "n = x * y" by blast
    show "x = 1 \<or> x = n"
    proof (rule ccontr)
      assume c: "\<not> (x = 1 \<or> x = n)"
      have "x \<noteq> 0" "y \<noteq> 0" using n xy by (auto intro: gr0I)
      moreover have "y \<noteq> 1" using c xy by auto
      ultimately have g: "2 \<le> x" "2 \<le> y" using c by auto
      then have lt: "x < n" "y < n" using xy by simp_all
      have "\<not> x < 21" using d [OF g(1)] lt \<open>x dvd n\<close> by auto
      moreover have "\<not> y < 21" using d [OF g(2)] lt xy by auto
      ultimately have "21 * 21 \<le> x * y" by (intro mult_le_mono) simp_all
      with xy assms show False by simp
    qed
  qed
qed

lemma first_primes_eq:
  "first_primes =
     [2, 3, 5, 7, 11, 13, 17, 19, 23, 29, 31, 37, 41, 43, 47, 53, 59, 61, 67, 71, 73, 79, 83, 89, 97, 101, 103,
      107, 109, 113, 127, 131, 137, 139, 149, 151, 157, 163, 167, 173, 179, 181, 191, 193, 197, 199, 211, 223,
      227, 229, 233, 239, 241, 251, 257, 263, 269, 271, 277, 281, 283, 293, 307, 311, 313, 317, 331, 337, 347,
      349, 353, 359, 367, 373, 379, 383, 389, 397, 401, 409]"
proof -
  have "first_primes = filter trial [0..<410]"
    unfolding first_primes_def by (rule filter_cong) (simp_all add: prime_nat_trial)
  also have "[0..<410] = [0..<100] @ [100..<200] @ [200..<300] @ [300..<410]"
    using upt_add_eq_append [of 0 100 310] upt_add_eq_append [of 100 200 210] upt_add_eq_append [of 200 300 110]
    by simp
  also have "filter trial \<dots> = [2, 3, 5, 7, 11, 13, 17, 19, 23, 29, 31, 37, 41, 43, 47, 53, 59, 61, 67, 71, 73, 79, 83, 89, 97, 101, 103,
      107, 109, 113, 127, 131, 137, 139, 149, 151, 157, 163, 167, 173, 179, 181, 191, 193, 197, 199, 211, 223,
      227, 229, 233, 239, 241, 251, 257, 263, 269, 271, 277, 281, 283, 293, 307, 311, 313, 317, 331, 337, 347,
      349, 353, 359, 367, 373, 379, 383, 389, 397, 401, 409]"
    unfolding filter_append trial_def small_primes_def by (simp add: upt_rec)
  finally show ?thesis .
qed

section \<open>Digits of roots\<close>

lemma root_digits_eq:
  assumes "0 < r" and "k < 2 ^ w"
    and lo: "(m * 2 ^ w + k) ^ r \<le> p * 2 ^ (w * r)" and hi: "p * 2 ^ (w * r) < (m * 2 ^ w + k + 1) ^ r"
  shows "root_digits r w p = k"
proof -
  define x where "x = root r (real p)"
  have x: "0 \<le> x" "x ^ r = real p" using assms(1) by (simp_all add: x_def)
  then have xp: "(x * 2 ^ w) ^ r = real (p * 2 ^ (w * r))" by (simp add: power_mult_distrib power_mult)
  have "real (m * 2 ^ w + k) ^ r \<le> (x * 2 ^ w) ^ r" unfolding xp using lo by (metis of_nat_le_iff of_nat_power)
  then have a: "real (m * 2 ^ w + k) \<le> x * 2 ^ w" using assms(1) x by (subst (asm) power_mono_iff) simp_all
  have "(x * 2 ^ w) ^ r < real (m * 2 ^ w + k + 1) ^ r" unfolding xp using hi by (metis of_nat_less_iff of_nat_power)
  then have b: "x * 2 ^ w < real (m * 2 ^ w + k + 1)" by (rule power_less_imp_less_base) simp
  have k: "real k + 1 \<le> 2 ^ w" using assms(2) by (metis Suc_leI of_nat_Suc of_nat_le_iff of_nat_numeral of_nat_power add.commute)
  have "x * 2 ^ w < (real m + 1) * 2 ^ w" using b k by (simp add: algebra_simps)
  then have "x < real m + 1" by simp
  moreover have "real m * 2 ^ w \<le> x * 2 ^ w"
    by (rule order_trans [OF _ a]) simp
  then have "real m \<le> x" by (rule mult_right_le_imp_le) simp
  ultimately have "\<lfloor>x\<rfloor> = int m" by (simp add: floor_eq_iff)
  then have "frac x * 2 ^ w = x * 2 ^ w - real m * 2 ^ w" by (simp add: frac_def algebra_simps)
  with a b have "\<lfloor>frac x * 2 ^ w\<rfloor> = int k" by (simp add: floor_eq_iff)
  then show ?thesis by (simp add: root_digits_def x_def)
qed

text \<open>The check on whole tables, given the integer parts \<open>m\<close> of the roots.\<close>

definition root_check :: "nat \<Rightarrow> nat \<Rightarrow> nat \<Rightarrow> nat \<Rightarrow> nat \<Rightarrow> bool" where
  "root_check r w m p k \<longleftrightarrow>
     k < 2 ^ w \<and> (m * 2 ^ w + k) ^ r \<le> p * 2 ^ (w * r) \<and> p * 2 ^ (w * r) < (m * 2 ^ w + k + 1) ^ r"

fun root_checks :: "nat \<Rightarrow> nat \<Rightarrow> nat list \<Rightarrow> nat list \<Rightarrow> nat list \<Rightarrow> bool" where
  "root_checks r w [] [] [] = True"
| "root_checks r w (m # ms) (p # ps) (k # ks) = (root_check r w m p k \<and> root_checks r w ms ps ks)"
| "root_checks r w _ _ _ = False"

lemma root_checks_digits: "root_checks r w ms ps ks \<Longrightarrow> 0 < r \<Longrightarrow> map (root_digits r w) ps = ks"
  by (induction r w ms ps ks rule: root_checks.induct) (auto simp: root_check_def intro: root_digits_eq)

text \<open>The table of \<open>sha512.c\<close>, a quarter at a time.\<close>

lemma K512_digits0:
  "map (root_digits 3 64) (take 20 first_primes) = map unat (take 20 K512)"
  by (rule root_checks_digits [of _ _ "[1, 1, 1, 1, 2, 2, 2, 2, 2, 3, 3, 3, 3, 3, 3, 3, 3, 3, 4, 4]"])
    (simp_all add: root_check_def first_primes_eq K512_def)

lemma K512_digits1:
  "map (root_digits 3 64) (take 20 (drop 20 first_primes)) = map unat (take 20 (drop 20 K512))"
  by (rule root_checks_digits [of _ _ "[4, 4, 4, 4, 4, 4, 4, 4, 4, 4, 5, 5, 5, 5, 5, 5, 5, 5, 5, 5]"])
    (simp_all add: root_check_def first_primes_eq K512_def)

lemma K512_digits2:
  "map (root_digits 3 64) (take 20 (drop 40 first_primes)) = map unat (take 20 (drop 40 K512))"
  by (rule root_checks_digits [of _ _ "[5, 5, 5, 5, 5, 5, 5, 6, 6, 6, 6, 6, 6, 6, 6, 6, 6, 6, 6, 6]"])
    (simp_all add: root_check_def first_primes_eq K512_def)

lemma K512_digits3:
  "map (root_digits 3 64) (take 20 (drop 60 first_primes)) = map unat (take 20 (drop 60 K512))"
  by (rule root_checks_digits [of _ _ "[6, 6, 6, 6, 6, 6, 6, 6, 7, 7, 7, 7, 7, 7, 7, 7, 7, 7, 7, 7]"])
    (simp_all add: root_check_def first_primes_eq K512_def)

lemma quarters: "xs = take 20 xs @ take 20 (drop 20 xs) @ take 20 (drop 40 xs) @ take 20 (drop 60 xs)"
  if "length xs = 80"
proof -
  have "drop 80 xs = []" using that by simp
  then show ?thesis
    using append_take_drop_id [of 20 xs] append_take_drop_id [of 20 "drop 20 xs"]
      append_take_drop_id [of 20 "drop 40 xs"] append_take_drop_id [of 20 "drop 60 xs"]
    by simp
qed

lemma K512_digits: "map (root_digits 3 64) first_primes = map unat K512"
proof -
  have "length first_primes = 80" "length K512 = 80" by (simp_all add: first_primes_eq K512_def)
  then show ?thesis
    by (subst (1) quarters, simp, subst (5) quarters, simp)
      (simp only: map_append K512_digits0 K512_digits1 K512_digits2 K512_digits3)
qed

lemma iv_digits:
  "map (root_digits 2 64) (take 8 first_primes) = map unat iv512"
  "map (root_digits 2 64) (take 8 (drop 8 first_primes)) = map unat iv384"
proof -
  have "root_checks 2 64 [1, 1, 2, 2, 3, 3, 4, 4] (take 8 first_primes) (map unat iv512)"
    by (simp add: first_primes_eq iv512_def root_check_def)
  then show "map (root_digits 2 64) (take 8 first_primes) = map unat iv512"
    by (rule root_checks_digits) simp
  have "root_checks 2 64 [4, 5, 5, 6, 6, 6, 6, 7] (take 8 (drop 8 first_primes)) (map unat iv384)"
    by (simp add: first_primes_eq iv384_def root_check_def)
  then show "map (root_digits 2 64) (take 8 (drop 8 first_primes)) = map unat iv384"
    by (rule root_checks_digits) simp
qed

text \<open>The short constants are the upper halves of the long ones, but for SHA-224 the lower halves.\<close>

lemma halves:
  "map unat K256 = map (\<lambda>k. unat k div 2 ^ 32) (take 64 K512)"
  "map unat (hash_h SHA256_Init) = map (\<lambda>k. unat k div 2 ^ 32) iv512"
  "map unat (hash_h SHA224_Init) = map (\<lambda>k. unat k mod 2 ^ 32) iv384"
  by (simp_all add: K256_def K512_def iv512_def iv384_def SHA256_Init_def SHA224_Init_def)

end
