(* ===== verification/Digest_Props.thy ===== *)
theory Digest_Props
  imports Kdf Sha_Constants Ex_Alloc
begin

text \<open>
  Properties of the message digests and of the functions built on them: whatever the pieces in which a message
  arrives, the digests are those of FIPS 180-4, RFC 1320 and RFC 1321, their unrolled block functions are the
  compressions of those documents, and HMAC, HKDF, PBKDF2 and the pseudorandom function of TLS compute what
  FIPS 198-1, RFC 5869, RFC 8018 and RFC 5246 say.
\<close>

section \<open>Digests\<close>

text \<open>C4. SHA-2 in pieces: for every way to cut a message into pieces, also empty ones, initialising a context,
  updating it with each piece and finishing gives the digest of FIPS 180-4 of the whole message, for all four
  variants and whatever the memory of a fresh SHA-512 context holds; so do the one-shot functions.\<close>

theorem sha2_pieces:
  "Option.bind (SHA224_Final (foldl SHA224_Update SHA224_Init ds)) snd = Some (sha224_spec (concat ds))
  \<and> Option.bind (SHA256_Final (foldl SHA256_Update SHA256_Init ds)) snd = Some (sha256_spec (concat ds))
  \<and> Option.bind (SHA384_Final False (foldl SHA384_Update (SHA384_Init (fresh_sha512 mem)) ds)) snd
      = Some (sha384_spec (concat ds))
  \<and> Option.bind (SHA512_Final False (foldl SHA512_Update (SHA512_Init (fresh_sha512 mem)) ds)) snd
      = Some (sha512_spec (concat ds))
  \<and> SHA224 d = Some (sha224_spec d) \<and> SHA256 d = Some (sha256_spec d)
  \<and> SHA384 mem d = Some (sha384_spec d) \<and> SHA512 mem d = Some (sha512_spec d)"
  using sha224_stream.digest_of_pieces [of "[d]"] sha256_stream.digest_of_pieces [of "[d]"]
    sha384.digest_of_pieces [of mem "[d]"] sha512.digest_of_pieces [of mem "[d]"]
  by (simp add: sha224_stream.digest_of_pieces sha256_stream.digest_of_pieces sha384.digest_of_pieces
      sha512.digest_of_pieces SHA224_def SHA256_def SHA384_def SHA512_def)

text \<open>C22. SHA-1, MD5 and MD4 in pieces: as for SHA-2, any split of the message gives the digest of FIPS 180-4,
  RFC 1321 and RFC 1320, whose initial words are written out there and not taken from the code.\<close>

theorem sha1_md_pieces:
  "Option.bind (SHA1_Final (foldl SHA1_Update SHA1_Init ds)) snd = Some (sha1_spec (concat ds))
  \<and> Option.bind (MD5_Final (foldl MD5_Update MD5_Init ds)) snd = Some (md5_spec (concat ds))
  \<and> Option.bind (MD4_Final (foldl MD4_Update MD4_Init ds)) snd = Some (md4_spec (concat ds))
  \<and> SHA1 d = Some (sha1_spec d) \<and> MD5 d = Some (md5_spec d) \<and> MD4 d = Some (md4_spec d)"
  using sha1_stream.digest_of_pieces [of "[d]"] md5_stream.digest_of_pieces [of "[d]"]
    md4_stream.digest_of_pieces [of "[d]"]
  by (simp add: sha1_stream.digest_of_pieces md5_stream.digest_of_pieces md4_stream.digest_of_pieces
      SHA1_def MD5_def MD4_def)

text \<open>C5. The block functions of SHA-2: the unrolled rounds, with their rotating variables and their circular
  message schedule of sixteen words, compute the compression of FIPS 180-4 on each of \<open>n\<close> blocks, and ignore
  what follows the blocks.\<close>

theorem sha2_blocks:
  assumes "length H = 8" and "length d = 64 * n" and "length H' = 8" and "length d' = 128 * n"
  shows "sha256_block_data_order H (d @ rest) n
      = foldl (\<lambda>H b. fips_compress fips256 64 (words32 DATA_ORDER_IS_BIG_ENDIAN b) H) H (chunks 64 d)
    \<and> sha512_block_data_order H' (d' @ rest) n
      = foldl (\<lambda>H b. fips_compress fips512 80 (words64 b) H) H' (chunks 128 d')"
  using sha256_block_folds [OF assms(1,2)] sha512_block_folds [OF assms(3,4)]
  by (simp add: sha256_compress_def [abs_def] sha512_compress_def [abs_def])

theorem sha2_blocks_witness:
  "sha256_block_data_order (hash_h SHA256_Init) (replicate 64 0x61 @ [1]) 1
      = fips_compress fips256 64 (words32 DATA_ORDER_IS_BIG_ENDIAN (replicate 64 0x61)) (hash_h SHA256_Init)
  \<and> sha512_block_data_order iv512 (replicate 128 0x61 @ [1]) 1
      = fips_compress fips512 80 (words64 (replicate 128 0x61)) iv512"
  using sha2_blocks [of "hash_h SHA256_Init" "replicate 64 0x61" 1 iv512 "replicate 128 0x61" "[1]"]
  by (simp add: chunks_one iv512_def SHA256_Init_def del: One_nat_def
      sha256_block_data_order.simps sha512_block_data_order.simps)

text \<open>C23. The block functions of SHA-1, MD5 and MD4 compute the compressions of FIPS 180-4, RFC 1321 and
  RFC 1320 on each of \<open>n\<close> blocks (of at least one for SHA-1, whose loop tests its count at the end).\<close>

theorem sha1_md_blocks:
  assumes "length H = 5" and "length H' = 4" and "length d = 64 * n" and "0 < n"
  shows "sha1_block_data_order H (d @ rest) n = foldl sha1_compress H (chunks 64 d)
    \<and> md5_block_data_order H' (d @ rest) n = foldl (md_compress rfc1321 64) H' (chunks 64 d)
    \<and> md4_block_data_order H' (d @ rest) n = foldl (md_compress rfc1320 48) H' (chunks 64 d)"
  using sha1_block_folds [OF assms(1,4,3)] md5_block_folds [OF assms(2,3)] md4_block_folds [OF assms(2,3)]
  by blast

theorem sha1_md_blocks_witness:
  "sha1_block_data_order (hash_h SHA1_Init) (replicate 64 0x61 @ [1]) 1 = sha1_compress (hash_h SHA1_Init) (replicate 64 0x61)
  \<and> md5_block_data_order (hash_h MD5_Init) (replicate 64 0x61 @ [1]) 1
      = md_compress rfc1321 64 (hash_h MD5_Init) (replicate 64 0x61)
  \<and> md4_block_data_order (hash_h MD4_Init) (replicate 64 0x61 @ [1]) 1
      = md_compress rfc1320 48 (hash_h MD4_Init) (replicate 64 0x61)"
proof -
  have "length (hash_h SHA1_Init) = 5" "length (hash_h MD5_Init) = 4" "hash_h MD4_Init = hash_h MD5_Init"
    by (simp_all add: SHA1_Init_def MD5_Init_def MD4_Init_def)
  moreover have "length (replicate 64 (0x61 :: u8)) = 64 * 1" "(0 :: nat) < 1" by simp_all
  moreover have "chunks 64 (replicate 64 0x61) = [replicate 64 (0x61 :: u8)]"
    by (rule chunks_one) simp_all
  ultimately show ?thesis
    using sha1_md_blocks [of "hash_h SHA1_Init" "hash_h MD5_Init" "replicate 64 0x61" 1 "[1]"]
    by (simp only: foldl.simps)
qed

lemma map_through:
  assumes "map f xs = map g ys"
  shows "map (\<lambda>x. h (f x)) xs = map (\<lambda>y. h (g y)) ys"
  using arg_cong [OF assms, of "map h"] by (simp add: o_def)

text \<open>C24. The constants of SHA-2 are those FIPS 180-4 derives from the primes: the tables \<open>K512\<close> and \<open>K256\<close> hold
  the first 64 and 32 binary digits of the fractional parts of the cube roots of the first 80 and 64 primes; the
  initial states come from the square roots of the first eight primes, SHA-384's from the following eight, and
  SHA-224's are the second halves of SHA-384's.\<close>

theorem sha2_constants:
  "map unat K512 = map (root_digits 3 64) first_primes
  \<and> map unat K256 = map (\<lambda>p. root_digits 3 64 p div 2 ^ 32) (take 64 first_primes)
  \<and> map unat (h512 (SHA512_Init c)) = map (root_digits 2 64) (take 8 first_primes)
  \<and> map unat (h512 (SHA384_Init c)) = map (root_digits 2 64) (take 8 (drop 8 first_primes))
  \<and> map unat (hash_h SHA256_Init) = map (\<lambda>p. root_digits 2 64 p div 2 ^ 32) (take 8 first_primes)
  \<and> map unat (hash_h SHA224_Init) = map (\<lambda>p. root_digits 2 64 p mod 2 ^ 32) (take 8 (drop 8 first_primes))"
proof -
  have iv: "h512 (SHA512_Init c) = iv512" "h512 (SHA384_Init c) = iv384"
    by (simp_all add: SHA512_Init_def SHA384_Init_def iv512_def iv384_def)
  have "map (root_digits 3 64) (take 64 first_primes) = map unat (take 64 K512)"
    by (simp only: K512_digits take_map [symmetric])
  then have "map (\<lambda>p. root_digits 3 64 p div 2 ^ 32) (take 64 first_primes) = map (\<lambda>k. unat k div 2 ^ 32) (take 64 K512)"
    by (rule map_through)
  with map_through [OF iv_digits(1), of "\<lambda>k. k div 2 ^ 32"] map_through [OF iv_digits(2), of "\<lambda>k. k mod 2 ^ 32"]
  show ?thesis
    by (simp only: iv K512_digits iv_digits halves)
qed

section \<open>Digest contexts\<close>

text \<open>Several updates in a row.\<close>

fun digest_updates :: "EVP_MD_CTX \<Rightarrow> bytes list \<Rightarrow> EVP_MD_CTX option" where
  "digest_updates ctx [] = Some ctx"
| "digest_updates ctx (d # ds) = Option.bind (EVP_DigestUpdate ctx d) (\<lambda>ctx. digest_updates ctx ds)"

lemma digest_updates_ok:
  assumes "md_ctx_repr md ctx m"
  obtains ctx' where "digest_updates ctx ds = Some ctx'" and "md_ctx_repr md ctx' (m @ concat ds)"
  using assms
proof (induction ds arbitrary: ctx m thesis)
  case (Cons d ds)
  obtain c where c: "EVP_DigestUpdate ctx d = Some c" "md_ctx_repr md c (m @ d)"
    using EVP_DigestUpdate_ok [OF Cons.prems(2)] .
  obtain c' where "digest_updates c ds = Some c'" "md_ctx_repr md c' ((m @ d) @ concat ds)"
    using Cons.IH [OF _ c(2)] .
  with c Cons.prems(1) show ?case by simp
qed simp

text \<open>A context in one of the three states its users meet: empty, in the middle of a message, or finished.\<close>

definition md_ctx_typed :: "EVP_MD_CTX \<Rightarrow> bool" where
  "md_ctx_typed ctx \<longleftrightarrow> ctx = EVP_MD_CTX_init \<or> (\<exists>md m. md_ctx_repr md ctx m)
     \<or> (\<exists>md mem. ctx = \<lparr>digest = Some md, md_data = Some (MD_RAW mem)\<rparr>)"

lemma md_ctx_typed_wf: "md_ctx_typed ctx \<Longrightarrow> md_ctx_wf ctx"
  by (auto simp: md_ctx_typed_def md_ctx_repr_wf) (simp add: md_ctx_wf_def)

text \<open>C17. A digest context copied in the middle of a message: after any pieces \<open>ds\<close>, a copy into any context, even
  one of another digest, takes further pieces \<open>es\<close> on its own, and original and copy finish with the digests of
  \<open>ds\<close> and of \<open>ds\<close> followed by \<open>es\<close>. For every digest, and for the context started afresh or used before.\<close>

theorem evp_copy_continues:
  assumes "md_ctx_wf ctx" and "EVP_DigestInit_ex A ctx md = (True, c)" and "A' (md_ctx_size md) \<noteq> None"
  shows "\<exists>c1 c2 c3 c4. digest_updates c ds = Some c1 \<and> EVP_MD_CTX_copy_ex A' out c1 = (True, c2)
    \<and> EVP_DigestFinal_ex c1 = Some (c3, md_spec md (concat ds), EVP_MD_size md)
    \<and> Option.bind (digest_updates c2 es) EVP_DigestFinal_ex
        = Some (c4, md_spec md (concat ds @ concat es), EVP_MD_size md)"
proof -
  have "md_ctx_repr md c []"
    using assms(1) by (cases rule: EVP_DigestInit_ex_cases [of _ A md]) (use assms(2) in simp_all)
  then obtain c1 where c1: "digest_updates c ds = Some c1" "md_ctx_repr md c1 (concat ds)"
    by (metis append_Nil digest_updates_ok)
  obtain c2 where c2: "EVP_MD_CTX_copy_ex A' out c1 = (True, c2)" "md_ctx_repr md c2 (concat ds)"
    using c1(2) by (cases rule: EVP_MD_CTX_copy_ex_cases [of _ _ _ A' out]) (use assms(3) in auto)
  obtain c4 where c4: "digest_updates c2 es = Some c4" "md_ctx_repr md c4 (concat ds @ concat es)"
    using digest_updates_ok [OF c2(2)] .
  show ?thesis
    using c1 c2 c4 EVP_DigestFinal_ex_ok [OF c1(2)] EVP_DigestFinal_ex_ok [OF c4(2)]
    by (metis bind.bind_lunit)
qed

theorem evp_copy_continues_witness:
  "\<exists>c1 c2 c3 c4. digest_updates (snd (EVP_DigestInit_ex ex_alloc EVP_MD_CTX_init EVP_sha1)) [[1, 2], []] = Some c1
    \<and> EVP_MD_CTX_copy_ex ex_alloc EVP_MD_CTX_init c1 = (True, c2)
    \<and> EVP_DigestFinal_ex c1 = Some (c3, md_spec EVP_sha1 [1, 2], 20)
    \<and> Option.bind (digest_updates c2 [[3], [4, 5]]) EVP_DigestFinal_ex
        = Some (c4, md_spec EVP_sha1 [1, 2, 3, 4, 5], 20)"
  using evp_copy_continues [of EVP_MD_CTX_init ex_alloc EVP_sha1
      "snd (EVP_DigestInit_ex ex_alloc EVP_MD_CTX_init EVP_sha1)" ex_alloc "[[1, 2], []]" EVP_MD_CTX_init "[[3], [4, 5]]"]
  by (simp add: ex_alloc_def EVP_DigestInit_ex_def EVP_MD_CTX_init_def md_ctx_wf_def del: digest_updates.simps)

lemma md_raw: "md_update md (MD_RAW mem) d = None" "md_final md (MD_RAW mem) = None" "\<not> md_repr md (MD_RAW mem) m"
  by (cases md; simp)+

text \<open>In the middle of a message, or with no state to read.\<close>

lemma md_ctx_typed_cases:
  assumes "md_ctx_typed ctx"
  obtains (some) md m where "md_ctx_repr md ctx m"
    | (none) "EVP_DigestUpdate ctx d = None" and "EVP_DigestFinal_ex ctx = None" and "\<And>md m. \<not> md_ctx_repr md ctx m"
  using assms
  by (force simp: md_ctx_typed_def EVP_MD_CTX_init_def EVP_DigestUpdate_def EVP_DigestFinal_ex_def md_ctx_repr_def md_raw)

text \<open>C18. The memory of a digest context always has the type its table says: from an empty context on, every
  operation on contexts leaves the context empty, finished, or standing for a message under the digest that
  \<open>digest\<close> names, so that the functions of the table never meet the state of another digest; the operation that
  would read a state nobody wrote is the one on a finished context. \<open>EVP_Digest\<close> fails only without memory.\<close>

theorem evp_contexts_typed:
  assumes "md_ctx_typed ctx" and "md_ctx_typed out"
  shows "md_ctx_typed (snd (EVP_DigestInit_ex A ctx md)) \<and> md_ctx_typed (snd (EVP_MD_CTX_copy_ex A out ctx))
    \<and> (case EVP_DigestUpdate ctx d of
         None \<Rightarrow> (\<forall>md m. \<not> md_ctx_repr md ctx m)
       | Some c \<Rightarrow> md_ctx_typed c \<and> digest c = digest ctx)
    \<and> (case EVP_DigestFinal_ex ctx of
         None \<Rightarrow> (\<forall>md m. \<not> md_ctx_repr md ctx m)
       | Some (c, r, n) \<Rightarrow> md_ctx_typed c \<and> digest c = digest ctx \<and> length r = n)
    \<and> md_ctx_typed (EVP_MD_CTX_cleanup ctx) \<and> md_ctx_typed (EVP_MD_CTX_reset ctx)
    \<and> EVP_Digest A d md = Some (if A (md_ctx_size md) = None then None else Some (md_spec md d, EVP_MD_size md))"
    (is "?init \<and> ?copy \<and> ?update \<and> ?final \<and> ?cleanup \<and> ?reset \<and> ?once")
proof -
  have ?init
    using md_ctx_typed_wf [OF assms(1)]
    by (cases rule: EVP_DigestInit_ex_cases [of _ A md]) (use assms(1) in \<open>auto simp: md_ctx_typed_def\<close>)
  moreover have ?copy
    using assms
    by (auto simp: EVP_MD_CTX_copy_ex_def md_ctx_typed_def EVP_MD_CTX_init_def md_ctx_repr_def split: option.splits)
  moreover have "?update \<and> ?final"
    using assms(1)
  proof (cases rule: md_ctx_typed_cases [where d = d])
    case (some md m)
    obtain c1 where c1: "EVP_DigestUpdate ctx d = Some c1" "md_ctx_repr md c1 (m @ d)"
      using EVP_DigestUpdate_ok [OF some] .
    have "EVP_DigestFinal_ex ctx
        = Some (\<lparr>digest = Some md, md_data = Some (MD_RAW (\<lambda>_. 0))\<rparr>, md_spec md m, EVP_MD_size md)"
      using some by (cases ctx) (auto simp: EVP_DigestFinal_ex_def md_ctx_repr_def md_final_repr split: option.splits)
    with c1 show ?thesis
      using md_ctx_repr_digest [OF some] md_ctx_repr_digest [OF c1(2)] by (auto simp: md_ctx_typed_def)
  next
    case none
    then show ?thesis by simp
  qed
  ultimately show ?thesis
    by (simp add: EVP_MD_CTX_cleanup_def EVP_MD_CTX_reset_def md_ctx_typed_def EVP_Digest_ok)
qed

theorem evp_contexts_typed_witness:
  "md_ctx_typed (snd (EVP_MD_CTX_copy_ex ex_alloc EVP_MD_CTX_init EVP_MD_CTX_init))
    \<and> EVP_Digest ex_alloc [7] EVP_md5_sha1 = Some (Some (md_spec EVP_md5_sha1 [7], 36))"
  using evp_contexts_typed [of EVP_MD_CTX_init EVP_MD_CTX_init ex_alloc EVP_md5_sha1 "[7]"]
  by (simp add: md_ctx_typed_def ex_alloc_def)

section \<open>HMAC and the key derivations\<close>

text \<open>C6. HMAC: a context in any state, given a key and a digest, either reports that an allocation was refused or
  computes from then on the code of FIPS 198-1 of whatever pieces it is updated with, for keys shorter and longer
  than a block. Finishing cannot fail, so the null length that the key derivations pass is never written
  through; and afterwards the context is back at the start of a message under the same key without needing
  memory.\<close>

theorem hmac_exact:
  assumes "hmac_wf ctx"
  shows "(\<exists>c j. HMAC_Init_ex As ctx (Some k) (Some md) = Some (False, c) \<and> As j (md_ctx_size md) = None)
    \<or> (\<exists>c. HMAC_Init_ex As ctx (Some k) (Some md) = Some (True, c)
        \<and> (\<forall>ds A null_len. \<exists>c1. Option.bind (hmac_updates c ds) (HMAC_Final A null_len)
              = Some (c1, Some (hmac_spec md k (concat ds), EVP_MD_size md))
            \<and> (\<forall>As es. \<exists>c2 c3. HMAC_Init_ex As c1 None None = Some (True, c2)
              \<and> Option.bind (hmac_updates c2 es) (HMAC_Final A null_len)
                = Some (c3, Some (hmac_spec md k (concat es), EVP_MD_size md)))))"
proof -
  have new: "Some md \<noteq> hmac_md ctx \<or> Some k \<noteq> None" by simp
  have md: "(if Some md = None then hmac_md ctx else Some md) = Some md" by simp
  from assms md new show ?thesis
  proof (cases rule: HMAC_Init_ex_new [of _ _ _ _ As])
    case (ok c)
    have run: "\<exists>c1. Option.bind (hmac_updates c ds) (HMAC_Final A b)
        = Some (c1, Some (hmac_spec md k (concat ds), EVP_MD_size md)) \<and> hmac_keyed_repr md k c1"
      if c: "hmac_repr md k c []" for c ds A b
    proof -
      obtain c1 where c1: "hmac_updates c ds = Some c1" "hmac_repr md k c1 ([] @ concat ds)"
        using hmac_updates_ok [OF c] .
      show ?thesis using c1(1) HMAC_Final_ok [OF c1(2), of A b] by (metis append_Nil bind.bind_lunit)
    qed
    have again: "\<exists>c2 c3. HMAC_Init_ex As c1 None None = Some (True, c2)
        \<and> Option.bind (hmac_updates c2 es) (HMAC_Final A b)
          = Some (c3, Some (hmac_spec md k (concat es), EVP_MD_size md))"
      if "hmac_keyed_repr md k c1" for c1 As es A b
      using HMAC_Init_ex_rewind [OF that, of None As] run by (metis)
    show ?thesis
      using ok run again by (intro disjI2 exI [of _ c]) (simp, meson)
  next
    case (fails c j)
    then show ?thesis by blast
  qed
qed

theorem hmac_exact_witness:
  "\<exists>c c1. HMAC_Init_ex (\<lambda>_. ex_alloc) HMAC_CTX_init (Some (replicate 100 7)) (Some EVP_sha256) = Some (True, c)
    \<and> Option.bind (hmac_updates c [[1], [2, 3]]) (HMAC_Final no_alloc True)
        = Some (c1, Some (hmac_spec EVP_sha256 (replicate 100 7) [1, 2, 3], 32))"
proof -
  obtain c where c: "HMAC_Init_ex (\<lambda>_. ex_alloc) HMAC_CTX_init (Some (replicate 100 7)) (Some EVP_sha256) = Some (True, c)"
    and run: "\<And>ds A null_len. \<exists>c1. Option.bind (hmac_updates c ds) (HMAC_Final A null_len)
      = Some (c1, Some (hmac_spec EVP_sha256 (replicate 100 7) (concat ds), 32))"
    using hmac_exact [OF hmac_init_wf, of "\<lambda>_. ex_alloc" "replicate 100 7" EVP_sha256]
    by (simp only: ex_alloc_def option.distinct simp_thms EVP_MD_size_eqs) blast
  from run [of "[[1], [2, 3]]" no_alloc True] c show ?thesis by (simp del: hmac_updates.simps)
qed

text \<open>C20. HKDF: exactly the requests for more than 255 blocks are refused; any other gives the key of RFC 5869, or
  reports that an allocation was refused. A null salt is the empty one.\<close>

theorem hkdf_exact:
  assumes "L \<le> size_max"
  shows "if 255 * EVP_MD_size md < L then HKDF As L md secret salt info = Some None
    else HKDF As L md secret salt info
          = Some (Some (hkdf_spec md (case salt of None \<Rightarrow> [] | Some s \<Rightarrow> s) secret info L))
      \<or> HKDF As L md secret salt info = Some None \<and> (\<exists>j. As j (md_ctx_size md) = None)"
  using assms
proof (cases rule: HKDF_cases [where As = As and md = md and secret = secret and salt = salt and info = info])
  case (fails j)
  then show ?thesis by auto
qed auto

theorem hkdf_exact_witness:
  "HKDF (\<lambda>_. ex_alloc) 5101 EVP_sha1 [1] None [2] = Some None
  \<and> HKDF (\<lambda>_. ex_alloc) 5100 EVP_sha1 [1] None [2] = Some (Some (hkdf_spec EVP_sha1 [] [1] [2] 5100))"
  using hkdf_exact [of 5101 EVP_sha1 "\<lambda>_. ex_alloc" "[1]" None "[2]"] hkdf_exact [of 5100 EVP_sha1 "\<lambda>_. ex_alloc" "[1]" None "[2]"]
  by (simp add: ex_alloc_def)

text \<open>C19. For every length that RFC 8018 allows, PBKDF2 writes the key of the RFC, unless an allocation was refused;
  the result is 1 exactly when the count of iterations is not 0 (a count of 0 is treated like 1 and reported after
  the work is done). The version for SHA-1 is the same function.\<close>

theorem pbkdf2_exact:
  assumes "L \<le> (2 ^ 32 - 1) * EVP_MD_size md"
  shows "((\<exists>dk. pbkdf2_rfc md P S (max 1 (unat it)) L = Some dk \<and> PKCS5_PBKDF2_HMAC As P S it md L = Some (it \<noteq> 0, dk))
      \<or> PKCS5_PBKDF2_HMAC As P S it md L = Some (False, []) \<and> (\<exists>j. As j (md_ctx_size md) = None))
    \<and> PKCS5_PBKDF2_HMAC_SHA1 As P S it L = PKCS5_PBKDF2_HMAC As P S it EVP_sha1 L"
  using assms
  by (cases rule: PBKDF2_cases [of As P S it md L])
    (auto simp: PKCS5_PBKDF2_HMAC_SHA1_def pbkdf2_rfc_def pbkdf2_DK_count simp del: One_nat_def)

theorem pbkdf2_exact_witness:
  "pbkdf2_rfc EVP_sha256 [1, 2] [3] 1000 100 = Some (pbkdf2_DK EVP_sha256 [1, 2] [3] 1000 100)
  \<and> PKCS5_PBKDF2_HMAC (\<lambda>_. ex_alloc) [1, 2] [3] 1000 EVP_sha256 100
      = Some (True, pbkdf2_DK EVP_sha256 [1, 2] [3] 1000 100)"
  using pbkdf2_exact [of 100 EVP_sha256 "[1, 2]" "[3]" 1000 "\<lambda>_. ex_alloc"]
  by (simp add: ex_alloc_def pbkdf2_rfc_def)

text \<open>A longer key, which the RFC refuses, is written all the same, with the numbers of its blocks taken modulo
  \<open>2 ^ 32\<close>.\<close>

lemma pbkdf2_has_no_limit:
  assumes "(2 ^ 32 - 1) * EVP_MD_size md < L" and "\<And>j. As j (md_ctx_size md) \<noteq> None"
  shows "pbkdf2_rfc md P S (unat it) L = None"
    and "\<exists>out. PKCS5_PBKDF2_HMAC As P S it md L = Some (it \<noteq> 0, out) \<and> length out = L"
proof -
  show "pbkdf2_rfc md P S (unat it) L = None" using assms(1) by (simp add: pbkdf2_rfc_def)
  show "\<exists>out. PKCS5_PBKDF2_HMAC As P S it md L = Some (it \<noteq> 0, out) \<and> length out = L"
    by (cases rule: PBKDF2_cases [of As P S it md L]) (use assms(2) in simp_all)
qed

text \<open>C21. The TLS pseudorandom function always returns; unless an allocation was refused, it writes the
  \<open>L\<close> bytes that RFC 5246 asks for, and under \<open>EVP_md5_sha1\<close> those of RFC 2246, with a secret of odd length shared
  between its halves.\<close>

theorem tls1_prf_exact:
  "CRYPTO_tls1_prf As md L secret label seed1 seed2 = Some (True, tls_prf_spec md secret (label @ seed1 @ seed2) L)
  \<or> (\<exists>out j n. CRYPTO_tls1_prf As md L secret label seed1 seed2 = Some (False, out) \<and> As j n = None)"
  by (cases rule: CRYPTO_tls1_prf_cases [of As md L secret label seed1 seed2]) auto

end
