(* ===== verification/Spec2Isabelle.thy ===== *)
theory Spec2Isabelle
  imports Bytestring_Props Asn1_Props Base64_Props Pb_Props Mem_Props Bio_Props Pool_Props Stack_Props Bn_Props Digest_Props
begin

text \<open>
  \<^bold>\<open>The program.\<close> The application is written in Dart; on iOS it links against C libraries that are
  vendored under \<open>src/ios/Pods\<close>. This development models the C code of two of them: the cryptographic
  library BoringSSL (\<open>BoringSSL-GRPC/crypto\<close>) and the protocol-buffer library nanopb (\<open>nanopb\<close>).

  \<^bold>\<open>Conventions.\<close> A C function is a HOL function that takes the state it reads and returns the state as it
  leaves it; a loop is a recursive function; a result 0 that means failure is \<open>False\<close> or \<open>None\<close>. The
  machine is 64-bit: \<open>size_t\<close> and \<open>long\<close> have 64 bits, and where the code tests a sum or product for
  overflow the wrap-around is written out (\<open>size_add\<close>, \<open>size_mult\<close> of \<open>Prelude\<close>, or word arithmetic). The
  answers of \<open>malloc\<close>, with the contents of the memory, are the argument \<open>alloc\<close> of every function that
  allocates, so that each allocation can fail; outside the big numbers and the digests, which count their
  allocations, the answer is a function of the size alone, and a request above \<open>2 ^ 64 - 9\<close> bytes, for which
  the sum in \<open>OPENSSL_malloc\<close> would wrap, is not told apart. A failed assertion, \<open>abort\<close> and an access outside a buffer
  are results of their own where the code can come to them. The contents of the error queue
  (\<open>OPENSSL_PUT_ERROR\<close>) are left out.

  \<^bold>\<open>Parts and theories.\<close>
  \<^item> Byte strings, \<open>crypto/bytestring\<close>. \<open>Cbs\<close>: the reader \<open>cbs.c\<close>, a \<open>CBS\<close> being the bytes still to be
    read. \<open>Cbb\<close>, \<open>Cbb_Asn1\<close>, \<open>Cbb_SetOf\<close>: the builder \<open>cbb.c\<close>, its state the buffer shared by a chain
    of open \<open>CBB\<close>s. \<open>Ber\<close>: the conversion \<open>ber.c\<close>. \<open>Oid\<close>: object identifiers as text. \<open>Der\<close> is the
    reference encoding both sides are proved against; \<open>Cbb_Refine\<close> refines the builder to a stack of
    byte strings (\<open>frames\<close>), \<open>Cbb_Typed\<close> and \<open>Ber_Correct\<close> carry this to the typed writers and the
    conversion. Properties: \<open>Bytestring_Props\<close>, \<open>Asn1_Props\<close>.
  \<^item> Memory helpers, \<open>mem.c\<close> and \<open>buf/buf.c\<close> (\<open>Mem\<close>), and the constant-time primitives of
    \<open>crypto/internal.h\<close> (\<open>Consttime\<close>). Properties: \<open>Mem_Props\<close>.
  \<^item> Base64, \<open>base64/base64.c\<close> (\<open>Base64\<close>), built on \<open>Consttime\<close>. \<open>Base64_Correct\<close> proves the block
    functions against RFC 4648, \<open>Base64_Stream\<close> the streaming ones against the block functions.
    Properties: \<open>Base64_Props\<close>.
  \<^item> BIOs, \<open>bio/bio.c\<close>, \<open>bio/bio_mem.c\<close>, \<open>bio/pair.c\<close>: \<open>Bio\<close> holds the heap of BIOs and the methods of
    memory buffers and pairs, \<open>Bio_Core\<close> the functions that dispatch to them. \<open>Bio_Ring\<close> gives the ring
    buffer of a pair as a bounded queue; \<open>Bio_Queue\<close> states the contracts of users as the locales
    \<open>byte_queue\<close> and \<open>duplex\<close>, which \<open>Bio_Mem\<close> and \<open>Bio_Pair\<close> interpret; \<open>Bio_Asn1\<close> reads an element
    from any BIO that meets \<open>bio_source\<close>; \<open>Bio_Life\<close> has creation and release. Properties: \<open>Bio_Props\<close>.
  \<^item> Reference counts, \<open>refcount_c11.c\<close> and \<open>refcount_lock.c\<close> (\<open>Refcount\<close>): a step relation for threads
    that race on a compare-and-swap, and its linearization.
  \<^item> The hash table, \<open>lhash/lhash.c\<close> (\<open>Lhash\<close>), correct for every client that meets the locale
    \<open>lh_contract\<close> (\<open>Lhash_Correct\<close>, \<open>Lhash_Runs\<close>), and the buffer pool, \<open>pool/pool.c\<close> (\<open>Pool\<close>), which is
    such a client and uses \<open>Refcount\<close>; \<open>Pool_Safe\<close> lets threads interleave its critical sections.
    Properties: \<open>Pool_Props\<close>.
  \<^item> The stack of pointers, \<open>stack/stack.c\<close> (\<open>Stack\<close>), as a list (\<open>Stack_Correct\<close>); \<open>qsort\<close> and
    \<open>bsearch\<close> of the C library are parameters with the locale \<open>c_search\<close>. Properties: \<open>Stack_Props\<close>.
  \<^item> Big numbers, \<open>fipsmodule/bn\<close>. \<open>Bn_Words\<close>: the word loops of \<open>generic.c\<close> (\<open>bn_add_words\<close>,
    \<open>bn_sub_words\<close>, \<open>bn_mul_words\<close>, \<open>bn_mul_add_words\<close>, \<open>bn_sqr_words\<close>), correct through the locale
    \<open>carry_step\<close>; \<open>Bn_Comba\<close>: its unrolled products of 4 and 8 words, correct through the locale
    \<open>column_sum\<close>. \<open>Bn\<close>: the type \<open>BIGNUM\<close> and the operations of \<open>bn.c\<close>; \<open>Bn_Val\<close>: the number it stands
    for, its invariant, and the comparisons of \<open>cmp.c\<close>; \<open>Bn_Add\<close>: \<open>add.c\<close>; \<open>Bn_Shift\<close>: \<open>shift.c\<close>;
    \<open>Bn_Bytes\<close>: \<open>bytes.c\<close>; \<open>Bn_Ctx\<close>: the pool of temporaries of \<open>ctx.c\<close>; \<open>Bn_Mul\<close>: \<open>mul.c\<close>, with
    Karatsuba's recursion. \<open>Bn_Mul_Words\<close> and \<open>Bn_Sqr_Words\<close> prove the products of word arrays,
    \<open>Bn_Mul_Correct\<close> those of big numbers. Properties: \<open>Bn_Props\<close>.
  \<^item> Message digests. \<open>Md32\<close>: the collector of \<open>digest/md32_common.h\<close>, generic in the block function, with
    the locale \<open>md32\<close> for what it needs and \<open>streaming_hash\<close> for what it gives; \<open>Unrolled\<close>: rounds written
    out with rotating variables; \<open>Sha2\<close>, \<open>Sha256\<close>, \<open>Sha512\<close>: \<open>sha/sha256.c\<close> and \<open>sha/sha512.c\<close>; \<open>Sha1\<close>:
    \<open>sha/sha1.c\<close>; \<open>Md45\<close>: \<open>md4/md4.c\<close> and \<open>md5/md5.c\<close>; each block function is proved to be the compression
    of its standard. \<open>Sha_Constants\<close> derives the tables of SHA-2 from the roots of primes. \<open>Evp_Digest\<close>:
    the contexts of \<open>digest/digest.c\<close> and the tables of \<open>digest/digests.c\<close>. On them \<open>Hmac\<close>,
    \<open>hmac/hmac.c\<close>, and \<open>Kdf\<close>: HKDF (\<open>hkdf/hkdf.c\<close>), PBKDF2 (\<open>evp/pbkdf.c\<close>) and the pseudorandom function
    of TLS (\<open>tls/kdf.c\<close>). Properties: \<open>Digest_Props\<close>.
  \<^item> nanopb, \<open>pb_decode.c\<close> and \<open>pb_encode.c\<close>: \<open>Pb_Stream\<close> has the streams and the wire format,
    \<open>Pb_Wire\<close> its correctness on every stream that meets the contracts of the two stream locales.
    Properties: \<open>Pb_Props\<close>.

  \<^bold>\<open>Reading the big numbers.\<close> An array of words is a list of \<open>64 word\<close>, least significant first, and
  \<open>bn_val\<close> is the number it stands for; a \<open>BIGNUM\<close> is the record of its words \<open>d\<close>, its width, its
  allocation \<open>dmax\<close>, its sign and its static-data flag. A function whose output may be one of its inputs
  takes a flag \<open>alias\<close> that says so. Allocations are counted: \<open>As k\<close> is the answer to the \<open>k\<close>-th.
  The words a routine is given as scratch space are an argument \<open>t\<close>, and are returned as the routine
  leaves them. A run in which the code would read through a null pointer is \<open>None\<close>.

  \<^bold>\<open>Reading the digests.\<close> The local variables of a block function are positions of a list, and the unrolled
  text is the list of its statements, which \<open>exec\<close> runs. A context stands for the bytes it has taken in
  (\<open>md32_repr\<close>, \<open>sha512_repr\<close>, \<open>md_ctx_repr\<close>, \<open>hmac_repr\<close>). The specifications (\<open>sha256_spec\<close>, \<open>md5_spec\<close>
  and so on) write out the initial words of the standards (\<open>iv256\<close>, \<open>md_iv\<close>). The model follows the portable C code, which the
  build replaces by assembly on some machines, and of \<open>sha512.c\<close> the branch for machines that read words at
  any address.

  \<^bold>\<open>What the lemmas show.\<close> For every component: the invariant of its state and that the operations keep
  it; what each operation does on each branch, failures included; and where the component has a contract,
  a refinement of an abstract specification (a stack of byte strings for the builder, a bounded queue
  for a pair of BIOs, a map for the hash table, a list for the stack of pointers, an integer for a big
  number, the message taken in so far for a digest context). Round trips join readers to writers: DER, base64, varints, object identifiers, the bytes of a
  big number.

  \<^bold>\<open>Bounds and fuel.\<close> No function uses fuel that its caller does not compute; loops that are not
  structural recursions have a measure, or are partial functions (\<open>pbkdf2_loop\<close>, \<open>tls1_P_loop\<close>) whose results
  are proved to be there. Lengths are below \<open>2 ^ 64\<close> as \<open>size_t\<close> makes them. A big number
  has at most 8388607 words (\<open>bn_max_words\<close>, the limit of \<open>bn_wexpand\<close>); the totals for products assume
  at most 524288 words in each factor, well within it. A context holds fewer than \<open>2 ^ 30\<close> open
  frames, so that the growth of its stack does not wrap. PBKDF2 agrees with RFC 8018 up to the longest key
  that the RFC allows, \<open>2 ^ 32 - 1\<close> blocks; the code does not refuse longer ones (\<open>pbkdf2_has_no_limit\<close>). The
  hash table keeps fewer than three items per bucket on average while no allocation fails; nothing bounds a
  single bucket.

  \<^bold>\<open>Not modelled, and why.\<close> In the modelled files: functions that only release memory, print, or dispatch
  to hooks of the build (assembly, \<open>OPENSSL_memory_alloc\<close>), and the text of errors. In
  \<open>fipsmodule/bn\<close>: the text conversions and the random generation, which rest on the
  random number generator. Other parts of the library, elliptic curves, RSA, X.509, TLS and the rest of
  the vendored C++ (gRPC, Abseil, LevelDB, Firebase) are outside it: the first build on parts that are
  not modelled yet, the second is not C. The Dart and Swift code of the application is glue
  between packages. Threads appear where the code itself handles them (reference counts, the buffer pool).
\<close>

end
